(* ===== verification/Nox_Prelude.thy ===== *)
theory Nox_Prelude
  imports Main "HOL-Library.Word"
begin

section \<open>Shared types, results and list lemmas\<close>

text \<open>
  The types every component uses: bytes and byte arrays (a \<open>Uint8Array\<close> is a list of
  \<open>8 word\<close>), the client's error values, and the result type of code that may throw.
  A thrown \<open>NoxClientError\<close> keeps its code and the fixed part of its message; the numbers and
  identifiers interpolated into messages are dropped. \<open>JsError\<close> and \<open>JsRangeError\<close> are the
  language's own exceptions. The second half holds the facts on lists, association lists
  (insertion-ordered \<open>Map\<close> objects) and words that the component theories share.
\<close>

named_theorems result_simps \<open>unfolding of result and sequencing combinators\<close>

type_synonym byte = "8 word"
type_synonym bytes = "byte list"

datatype nox_error_code =
    TopologyFetchFailed | TopologyVerificationFailed | NoNodesAvailable | PacketBuildFailed
  | TransportFailed | ResponseTimeout | DecryptionFailed | WasmNotInitialized | InvalidConfig
  | PaidExitUnavailable | SurbV2Unavailable | KpsUnavailable | ModeViolation | TopologyStale
  | Aborted | ResponseTooLarge

datatype nox_error =
    NoxClientError nox_error_code string
  | JsError string
  | JsRangeError string

type_synonym 'a result = "nox_error + 'a"

abbreviation throw :: "nox_error_code \<Rightarrow> string \<Rightarrow> 'a result" where
  "throw c msg \<equiv> Inl (NoxClientError c msg)"

fun rbind :: "'a result \<Rightarrow> ('a \<Rightarrow> 'b result) \<Rightarrow> 'b result" where
  "rbind (Inl e) k = Inl e"
| "rbind (Inr x) k = k x"

definition guard :: "bool \<Rightarrow> nox_error_code \<Rightarrow> string \<Rightarrow> unit result" where
  "guard ok c msg = (if ok then Inr () else throw c msg)"

definition is_ok :: "'a result \<Rightarrow> bool" where
  "is_ok r = (case r of Inl _ \<Rightarrow> False | Inr _ \<Rightarrow> True)"

lemma is_ok_simps [simp]: "is_ok (Inr x)" "\<not> is_ok (Inl e)"
  by (simp_all add: is_ok_def)

lemma rbind_Inr_iff: "rbind m k = Inr y \<longleftrightarrow> (\<exists>x. m = Inr x \<and> k x = Inr y)"
  by (cases m) auto

lemma rbind_InrE:
  assumes "rbind m k = Inr y"
  obtains x where "m = Inr x" and "k x = Inr y"
  using assms by (auto simp: rbind_Inr_iff)

lemma rbind_assoc: "rbind (rbind m f) g = rbind m (\<lambda>x. rbind (f x) g)"
  by (cases m) auto

lemma guard_Inr_iff [simp]: "guard ok c msg = Inr u \<longleftrightarrow> ok"
  by (simp add: guard_def)

lemma guard_True [simp]: "guard True c msg = Inr ()"
  by (simp add: guard_def)

lemma rbind_guard_Inr_iff: "rbind (guard ok c msg) k = Inr y \<longleftrightarrow> ok \<and> k () = Inr y"
  by (auto simp: guard_def)

lemmas result_iffs = rbind_Inr_iff rbind_guard_Inr_iff

subsection \<open>Insertion-ordered maps\<close>

text \<open>
  A JavaScript \<open>Map\<close> iterates in insertion order; \<open>set\<close> on a present key keeps its place and
  \<open>delete\<close> removes the entry. It is an association list with distinct keys.
\<close>

type_synonym ('k, 'v) jsmap = "('k \<times> 'v) list"

definition jsmap_get :: "('k, 'v) jsmap \<Rightarrow> 'k \<Rightarrow> 'v option" where
  "jsmap_get m k = map_of m k"

fun jsmap_set :: "'k \<Rightarrow> 'v \<Rightarrow> ('k, 'v) jsmap \<Rightarrow> ('k, 'v) jsmap" where
  "jsmap_set k v [] = [(k, v)]"
| "jsmap_set k v ((k', v') # m) = (if k' = k then (k, v) # m else (k', v') # jsmap_set k v m)"

definition jsmap_delete :: "'k \<Rightarrow> ('k, 'v) jsmap \<Rightarrow> ('k, 'v) jsmap" where
  "jsmap_delete k m = filter (\<lambda>(k', _). k' \<noteq> k) m"

definition jsmap_has :: "('k, 'v) jsmap \<Rightarrow> 'k \<Rightarrow> bool" where
  "jsmap_has m k = (map_of m k \<noteq> None)"

abbreviation jsmap_keys :: "('k, 'v) jsmap \<Rightarrow> 'k list" where
  "jsmap_keys m \<equiv> map fst m"

definition jsmap_wf :: "('k, 'v) jsmap \<Rightarrow> bool" where
  "jsmap_wf m = distinct (jsmap_keys m)"

text \<open>The contract of a keyed store that the components' proofs rely on.\<close>

locale keyed_store =
  fixes get :: "'m \<Rightarrow> 'k \<Rightarrow> 'v option"
    and put :: "'k \<Rightarrow> 'v \<Rightarrow> 'm \<Rightarrow> 'm"
    and del :: "'k \<Rightarrow> 'm \<Rightarrow> 'm"
    and wf :: "'m \<Rightarrow> bool"
  assumes get_put: "wf m \<Longrightarrow> get (put k v m) k' = (if k' = k then Some v else get m k')"
    and get_del: "wf m \<Longrightarrow> get (del k m) k' = (if k' = k then None else get m k')"
    and wf_put: "wf m \<Longrightarrow> wf (put k v m)"
    and wf_del: "wf m \<Longrightarrow> wf (del k m)"
begin

lemma get_put_same: "wf m \<Longrightarrow> get (put k v m) k = Some v"
  by (simp add: get_put)

lemma get_del_same: "wf m \<Longrightarrow> get (del k m) k = None"
  by (simp add: get_del)

lemma get_del_other: "wf m \<Longrightarrow> k' \<noteq> k \<Longrightarrow> get (del k m) k' = get m k'"
  by (simp add: get_del)

lemma put_del_cancel: "wf m \<Longrightarrow> get (del k (put k v m)) k' = get (del k m) k'"
  by (simp add: get_del get_put wf_put)

lemma wf_fold_del: "wf m \<Longrightarrow> wf (fold del ks m)"
  by (induction ks arbitrary: m) (auto simp: wf_del)

lemma get_fold_del: "wf m \<Longrightarrow> get (fold del ks m) k = (if k \<in> set ks then None else get m k)"
  by (induction ks arbitrary: m) (auto simp: wf_del get_del)

end

lemma jsmap_set_map_of: "map_of (jsmap_set k v m) = (map_of m)(k \<mapsto> v)"
  by (induction k v m rule: jsmap_set.induct) (auto simp: fun_eq_iff)

lemma jsmap_keys_set: "set (jsmap_keys (jsmap_set k v m)) = insert k (set (jsmap_keys m))"
  by (induction k v m rule: jsmap_set.induct) auto

lemma jsmap_wf_set: "jsmap_wf m \<Longrightarrow> jsmap_wf (jsmap_set k v m)"
proof (induction k v m rule: jsmap_set.induct)
  case (1 k v)
  then show ?case by (simp add: jsmap_wf_def)
next
  case (2 k v k' v' m)
  then show ?case
    using jsmap_keys_set[of k v m] by (auto simp: jsmap_wf_def)
qed

lemma jsmap_delete_map_of: "map_of (jsmap_delete k m) k' = (if k' = k then None else map_of m k')"
  by (induction m) (auto simp: jsmap_delete_def)

lemma jsmap_keys_delete: "jsmap_keys (jsmap_delete k m) = filter (\<lambda>k'. k' \<noteq> k) (jsmap_keys m)"
  by (induction m) (auto simp: jsmap_delete_def)

lemma jsmap_wf_delete: "jsmap_wf m \<Longrightarrow> jsmap_wf (jsmap_delete k m)"
  by (simp add: jsmap_wf_def jsmap_keys_delete)

interpretation js_map: keyed_store jsmap_get jsmap_set jsmap_delete jsmap_wf
  by unfold_locales
    (auto simp: jsmap_get_def jsmap_set_map_of jsmap_delete_map_of jsmap_wf_set jsmap_wf_delete)

lemma jsmap_get_Some_in: "jsmap_get m k = Some v \<Longrightarrow> (k, v) \<in> set m"
  by (simp add: jsmap_get_def map_of_SomeD)

lemma jsmap_get_iff: "jsmap_wf m \<Longrightarrow> jsmap_get m k = Some v \<longleftrightarrow> (k, v) \<in> set m"
  by (simp add: jsmap_get_def jsmap_wf_def)

lemma jsmap_get_None_iff: "jsmap_get m k = None \<longleftrightarrow> k \<notin> set (jsmap_keys m)"
  by (simp add: jsmap_get_def map_of_eq_None_iff)

lemma jsmap_has_iff: "jsmap_has m k \<longleftrightarrow> k \<in> set (jsmap_keys m)"
  using map_of_eq_None_iff[of m k] by (auto simp: jsmap_has_def)

lemma jsmap_wf_Nil [simp]: "jsmap_wf []"
  by (simp add: jsmap_wf_def)

lemma set_jsmap_delete: "set (jsmap_delete k m) = {(k', v). (k', v) \<in> set m \<and> k' \<noteq> k}"
  by (auto simp: jsmap_delete_def)

lemma set_jsmap_set:
  "jsmap_wf m \<Longrightarrow> set (jsmap_set k v m) = insert (k, v) {(k', v'). (k', v') \<in> set m \<and> k' \<noteq> k}"
proof (induction k v m rule: jsmap_set.induct)
  case (1 k v)
  then show ?case by simp
next
  case (2 k v k' v' m)
  have "(k, x) \<notin> set m" if "k' = k" for x
    using 2(2) that by (auto simp: jsmap_wf_def image_iff)
  moreover have "jsmap_wf m"
    using 2(2) by (simp add: jsmap_wf_def)
  ultimately show ?case
    using 2(1) by (cases "k' = k") auto
qed

lemma jsmap_delete_absent: "k \<notin> set (jsmap_keys m) \<Longrightarrow> jsmap_delete k m = m"
  by (induction m) (auto simp: jsmap_delete_def)

lemma length_jsmap_delete:
  "jsmap_wf m \<Longrightarrow> k \<in> set (jsmap_keys m) \<Longrightarrow> length (jsmap_delete k m) = length m - 1"
proof (induction m)
  case Nil
  then show ?case by simp
next
  case (Cons p m)
  obtain k' v' where p: "p = (k', v')" by (cases p)
  show ?case
  proof (cases "k' = k")
    case True
    with Cons.prems p have "k \<notin> set (jsmap_keys m)" by (auto simp: jsmap_wf_def)
    then show ?thesis
      using True p jsmap_delete_absent[of k m] by (simp add: jsmap_delete_def)
  next
    case False
    with Cons p have "length (jsmap_delete k m) = length m - 1" "m \<noteq> []"
      by (auto simp: jsmap_wf_def)
    then show ?thesis
      using False p by (cases m) (simp_all add: jsmap_delete_def)
  qed
qed

lemma length_jsmap_set:
  "length (jsmap_set k v m) = (if k \<in> set (jsmap_keys m) then length m else Suc (length m))"
  by (induction k v m rule: jsmap_set.induct) auto

lemma sum_list_jsmap_delete:
  fixes f :: "'k \<times> 'v \<Rightarrow> nat"
  assumes "jsmap_wf m" and "jsmap_get m k = Some v"
  shows "sum_list (map f m) = f (k, v) + sum_list (map f (jsmap_delete k m))"
  using assms
proof (induction m)
  case Nil
  then show ?case by (simp add: jsmap_get_def)
next
  case (Cons p m)
  obtain k' v' where p: "p = (k', v')" by (cases p)
  show ?case
  proof (cases "k' = k")
    case True
    with Cons.prems p have "k \<notin> set (jsmap_keys m)" and "v' = v"
      by (auto simp: jsmap_wf_def jsmap_get_def)
    then show ?thesis
      using True p jsmap_delete_absent[of k m] by (simp add: jsmap_delete_def)
  next
    case False
    with Cons p show ?thesis
      by (auto simp: jsmap_wf_def jsmap_get_def jsmap_delete_def)
  qed
qed

lemma sum_list_jsmap_set:
  fixes f :: "'k \<times> 'v \<Rightarrow> nat"
  assumes "jsmap_wf m"
  shows "sum_list (map f (jsmap_set k v m)) = f (k, v) + sum_list (map f (jsmap_delete k m))"
  using assms
proof (induction k v m rule: jsmap_set.induct)
  case (1 k v)
  then show ?case by (simp add: jsmap_delete_def)
next
  case (2 k v k' v' m)
  show ?case
  proof (cases "k' = k")
    case True
    with 2(2) have "k \<notin> set (jsmap_keys m)" by (simp add: jsmap_wf_def)
    then show ?thesis
      using True jsmap_delete_absent[of k m] by (simp add: jsmap_delete_def)
  next
    case False
    with 2 show ?thesis by (simp add: jsmap_wf_def jsmap_delete_def)
  qed
qed

lemma jsmap_set_twice: "jsmap_set k v (jsmap_set k w m) = jsmap_set k v m"
  by (induction k w m rule: jsmap_set.induct) auto

lemma jsmap_delete_set: "jsmap_delete k (jsmap_set k v m) = jsmap_delete k m"
  by (induction k v m rule: jsmap_set.induct) (auto simp: jsmap_delete_def)

lemma jsmap_set_same: "jsmap_get m k = Some v \<Longrightarrow> jsmap_set k v m = m"
  by (induction k v m rule: jsmap_set.induct) (auto simp: jsmap_get_def split: if_splits)

lemma jsmap_set_fresh: "k \<notin> set (jsmap_keys m) \<Longrightarrow> jsmap_set k v m = m @ [(k, v)]"
  by (induction k v m rule: jsmap_set.induct) auto

lemma jsmap_set_last: "k \<notin> set (jsmap_keys m) \<Longrightarrow> jsmap_set k v (m @ [(k, w)]) = m @ [(k, v)]"
  using jsmap_set_twice[of k v w m] by (simp add: jsmap_set_fresh)

lemma jsmap_get_last: "k \<notin> set (jsmap_keys m) \<Longrightarrow> jsmap_get (m @ [(k, v)]) k = Some v"
  using map_of_eq_None_iff[of m k] by (simp add: jsmap_get_def map_add_def)

lemma jsmap_delete_last: "k \<notin> set (jsmap_keys m) \<Longrightarrow> jsmap_delete k (m @ [(k, v)]) = m"
  using jsmap_delete_absent[of k m] by (simp add: jsmap_delete_def)

subsection \<open>Little-endian integers\<close>

definition byte_of :: "nat \<Rightarrow> byte" where
  "byte_of n = word_of_nat n"

lemma unat_byte_of: "n < 256 \<Longrightarrow> unat (byte_of n) = n"
  by (simp add: byte_of_def unat_of_nat)

lemma byte_of_unat [simp]: "byte_of (unat b) = b"
  by (simp add: byte_of_def)

text \<open>\<open>DataView\<close> accesses with \<open>littleEndian = true\<close>: byte \<open>i\<close> holds bits \<open>8i\<close> to \<open>8i+7\<close>.\<close>

fun le_bytes :: "nat \<Rightarrow> nat \<Rightarrow> bytes" where
  "le_bytes 0 v = []"
| "le_bytes (Suc n) v = word_of_nat (v mod 256) # le_bytes n (v div 256)"

fun le_value :: "bytes \<Rightarrow> nat" where
  "le_value [] = 0"
| "le_value (b # bs) = unat b + 256 * le_value bs"

lemma length_le_bytes [simp]: "length (le_bytes n v) = n"
  by (induction n arbitrary: v) auto

lemma unat_byte_of_mod [simp]: "unat (word_of_nat (v mod 256) :: byte) = v mod 256"
  by (simp add: unat_of_nat)

lemma le_value_le_bytes: "v < 256 ^ n \<Longrightarrow> le_value (le_bytes n v) = v"
proof (induction n arbitrary: v)
  case 0
  then show ?case by simp
next
  case (Suc n)
  then have "v div 256 < 256 ^ n"
    by (simp add: less_mult_imp_div_less mult.commute)
  with Suc.IH have "le_value (le_bytes n (v div 256)) = v div 256" by blast
  then show ?case
    using mod_mult_div_eq[of v 256] by simp
qed

lemma unat_byte_less [simp]: "unat (b :: byte) < 256"
  using unsigned_less[of b] by simp

lemma le_value_less: "le_value bs < 256 ^ length bs"
proof (induction bs)
  case Nil
  then show ?case by simp
next
  case (Cons b bs)
  have "unat b < 256" by simp
  moreover have "256 * le_value bs + 256 \<le> 256 * 256 ^ length bs"
    using Cons by simp
  ultimately have "unat b + 256 * le_value bs < 256 * 256 ^ length bs" by linarith
  then show ?case by simp
qed

lemma le_bytes_le_value: "le_bytes (length bs) (le_value bs) = bs"
proof (induction bs)
  case Nil
  then show ?case by simp
next
  case (Cons b bs)
  have b: "unat b < 256" by simp
  then have "(unat b + 256 * le_value bs) mod 256 = unat b"
    and "(unat b + 256 * le_value bs) div 256 = le_value bs"
    by simp_all
  with Cons show ?case by simp
qed

subsection \<open>Lists\<close>

lemma take_drop_append_exact:
  "take (length ys) (drop (length xs) (xs @ ys @ zs)) = ys"
  by simp

lemma sum_list_mono_in:
  fixes f g :: "'a \<Rightarrow> nat"
  shows "(\<And>x. x \<in> set xs \<Longrightarrow> f x \<le> g x) \<Longrightarrow> sum_list (map f xs) \<le> sum_list (map g xs)"
  by (induction xs) (auto simp: add_mono)

subsection \<open>Typed-array copies\<close>

text \<open>
  \<open>out.set(chunk, offset)\<close> throws a \<open>RangeError\<close> when the chunk does not fit. The
  concatenation loop (\<open>new Uint8Array(total)\<close>, then one \<open>set\<close> per chunk) occurs in the wire
  writer, the reassembler and the KPS codec.
\<close>

definition js_set :: "bytes \<Rightarrow> bytes \<Rightarrow> nat \<Rightarrow> bytes result" where
  "js_set out chunk off =
     (if length out < off + length chunk then Inl (JsRangeError ''offset is out of bounds'')
      else Inr (take off out @ chunk @ drop (off + length chunk) out))"

fun copy_chunks :: "bytes list \<Rightarrow> nat \<Rightarrow> bytes \<Rightarrow> bytes result" where
  "copy_chunks [] off out = Inr out"
| "copy_chunks (c # cs) off out =
     rbind (js_set out c off) (\<lambda>out'. copy_chunks cs (off + length c) out')"

definition concatBytes :: "bytes list \<Rightarrow> nat \<Rightarrow> bytes result" where
  "concatBytes chunks len = copy_chunks chunks 0 (replicate len 0)"

lemma copy_chunks_concat:
  "copy_chunks cs (length done_part) (done_part @ replicate (length (concat cs)) 0) =
     Inr (done_part @ concat cs)"
proof (induction cs arbitrary: done_part)
  case Nil
  then show ?case by simp
next
  case (Cons c cs)
  have "js_set (done_part @ replicate (length (concat (c # cs))) 0) c (length done_part) =
      Inr ((done_part @ c) @ replicate (length (concat cs)) 0)"
    by (simp add: js_set_def)
  then show ?case
    using Cons[of "done_part @ c"] by simp
qed

theorem concatBytes_concat: "len = length (concat chunks) \<Longrightarrow> concatBytes chunks len = Inr (concat chunks)"
  using copy_chunks_concat[of chunks "[]"] by (simp add: concatBytes_def)

end
