(* ===== verification/Js_Text.thy ===== *)
theory Js_Text
  imports Nox_Prelude
begin

section \<open>JavaScript strings, \<open>TextEncoder\<close>, \<open>TextDecoder\<close> and \<open>Number(bigint)\<close>\<close>

text \<open>
  The parts of the language's library the wire code relies on. A JavaScript string is a list of
  UTF-16 code units. \<open>TextEncoder.encode\<close> replaces lone surrogates by U+FFFD and writes UTF-8;
  \<open>TextDecoder.decode\<close> runs the WHATWG UTF-8 decoder, in fatal mode (an ill-formed sequence
  throws) or in replacement mode (U+FFFD), and drops one leading byte order mark. \<open>Number(b)\<close>
  rounds a bigint to the nearest double, ties to even. The main lemma is that decoding inverts
  encoding on well-formed strings that do not start with U+FEFF.
\<close>

type_synonym code_unit = "16 word"
type_synonym js_string = "code_unit list"

definition js_lit :: "string \<Rightarrow> js_string" where
  "js_lit s = map (\<lambda>c. word_of_nat (of_char c)) s"

definition is_high :: "code_unit \<Rightarrow> bool" where
  "is_high u = (0xD800 \<le> unat u \<and> unat u \<le> 0xDBFF)"

definition is_low :: "code_unit \<Rightarrow> bool" where
  "is_low u = (0xDC00 \<le> unat u \<and> unat u \<le> 0xDFFF)"

definition combine :: "code_unit \<Rightarrow> code_unit \<Rightarrow> nat" where
  "combine h l = 0x10000 + (unat h - 0xD800) * 0x400 + (unat l - 0xDC00)"

text \<open>The scalar values of a string (\<open>USVString\<close> conversion).\<close>

fun usv :: "js_string \<Rightarrow> nat list" where
  "usv [] = []"
| "usv [u] = [if is_high u \<or> is_low u then 0xFFFD else unat u]"
| "usv (u # v # us) =
     (if is_high u \<and> is_low v then combine u v # usv us
      else (if is_high u \<or> is_low u then 0xFFFD else unat u) # usv (v # us))"

definition is_scalar :: "nat \<Rightarrow> bool" where
  "is_scalar c = (c < 0x110000 \<and> \<not> (0xD800 \<le> c \<and> c \<le> 0xDFFF))"

definition utf8_of_scalar :: "nat \<Rightarrow> bytes" where
  "utf8_of_scalar c =
     (if c < 0x80 then [byte_of c]
      else if c < 0x800 then [byte_of (0xC0 + c div 64), byte_of (0x80 + c mod 64)]
      else if c < 0x10000 then
        [byte_of (0xE0 + c div 4096), byte_of (0x80 + c div 64 mod 64), byte_of (0x80 + c mod 64)]
      else [byte_of (0xF0 + c div 262144), byte_of (0x80 + c div 4096 mod 64),
            byte_of (0x80 + c div 64 mod 64), byte_of (0x80 + c mod 64)])"

definition text_encode :: "js_string \<Rightarrow> bytes" where
  "text_encode s = concat (map utf8_of_scalar (usv s))"

text \<open>The WHATWG decoder: code point so far, bytes still needed, bounds of the next byte.\<close>

record utf8_state =
  cp :: nat
  needed :: nat
  lower :: nat
  upper :: nat

definition utf8_init :: utf8_state where
  "utf8_init = \<lparr>cp = 0, needed = 0, lower = 0x80, upper = 0xBF\<rparr>"

datatype utf8_action = Emit nat | Continue utf8_state | Malformed

definition utf8_lead :: "nat \<Rightarrow> utf8_action" where
  "utf8_lead b =
     (if b \<le> 0x7F then Emit b
      else if 0xC2 \<le> b \<and> b \<le> 0xDF then
        Continue \<lparr>cp = b - 0xC0, needed = 1, lower = 0x80, upper = 0xBF\<rparr>
      else if 0xE0 \<le> b \<and> b \<le> 0xEF then
        Continue \<lparr>cp = b - 0xE0, needed = 2,
          lower = (if b = 0xE0 then 0xA0 else 0x80), upper = (if b = 0xED then 0x9F else 0xBF)\<rparr>
      else if 0xF0 \<le> b \<and> b \<le> 0xF4 then
        Continue \<lparr>cp = b - 0xF0, needed = 3,
          lower = (if b = 0xF0 then 0x90 else 0x80), upper = (if b = 0xF4 then 0x8F else 0xBF)\<rparr>
      else Malformed)"

definition utf8_trail :: "utf8_state \<Rightarrow> nat \<Rightarrow> utf8_action" where
  "utf8_trail st b =
     (if lower st \<le> b \<and> b \<le> upper st then
        (let c = cp st * 64 + (b - 0x80) in
         if needed st = 1 then Emit c
         else Continue \<lparr>cp = c, needed = needed st - 1, lower = 0x80, upper = 0xBF\<rparr>)
      else Malformed)"

text \<open>
  A byte that breaks a started sequence is processed again from the initial state, so the
  recursion decreases in the number of bytes or leaves the middle of a sequence.
\<close>

function utf8_run :: "bool \<Rightarrow> utf8_state \<Rightarrow> bytes \<Rightarrow> nat list option" where
  "utf8_run fatal st [] =
     (if needed st = 0 then Some [] else if fatal then None else Some [0xFFFD])"
| "utf8_run fatal st (b # bs) =
     (if needed st = 0 then
        (case utf8_lead (unat b) of
           Emit c \<Rightarrow> map_option ((#) c) (utf8_run fatal utf8_init bs)
         | Continue st' \<Rightarrow> utf8_run fatal st' bs
         | Malformed \<Rightarrow>
             if fatal then None else map_option ((#) 0xFFFD) (utf8_run fatal utf8_init bs))
      else
        (case utf8_trail st (unat b) of
           Emit c \<Rightarrow> map_option ((#) c) (utf8_run fatal utf8_init bs)
         | Continue st' \<Rightarrow> utf8_run fatal st' bs
         | Malformed \<Rightarrow>
             if fatal then None
             else map_option ((#) 0xFFFD) (utf8_run fatal utf8_init (b # bs))))"
  by pat_completeness auto
termination
  by (relation "measure (\<lambda>(_, st, bs). 2 * length bs + (if needed st = 0 then 0 else 1))")
    (auto simp: utf8_init_def)

definition strip_bom :: "nat list \<Rightarrow> nat list" where
  "strip_bom cs = (case cs of [] \<Rightarrow> [] | c # cs' \<Rightarrow> if c = 0xFEFF then cs' else cs)"

definition utf16_of_scalar :: "nat \<Rightarrow> js_string" where
  "utf16_of_scalar c =
     (if c < 0x10000 then [word_of_nat c]
      else [word_of_nat (0xD800 + (c - 0x10000) div 0x400),
            word_of_nat (0xDC00 + (c - 0x10000) mod 0x400)])"

definition text_decode :: "bool \<Rightarrow> bytes \<Rightarrow> js_string option" where
  "text_decode fatal bs =
     map_option (\<lambda>cs. concat (map utf16_of_scalar (strip_bom cs))) (utf8_run fatal utf8_init bs)"

text \<open>\<open>new TextDecoder().decode(b)\<close>: replacement mode, which never fails.\<close>

definition text_decode_lossy :: "bytes \<Rightarrow> js_string" where
  "text_decode_lossy bs = (case text_decode False bs of None \<Rightarrow> [] | Some s \<Rightarrow> s)"

text \<open>Strings without lone surrogates.\<close>

fun well_formed :: "js_string \<Rightarrow> bool" where
  "well_formed [] = True"
| "well_formed [u] = (\<not> is_high u \<and> \<not> is_low u)"
| "well_formed (u # v # us) =
     (if is_high u then is_low v \<and> well_formed us else \<not> is_low u \<and> well_formed (v # us))"

definition has_bom :: "js_string \<Rightarrow> bool" where
  "has_bom s = (case s of [] \<Rightarrow> False | u # _ \<Rightarrow> u = 0xFEFF)"

text \<open>\<open>/[\u0000-\u001f\u007f]/u.test(s)\<close>.\<close>

definition has_controls :: "js_string \<Rightarrow> bool" where
  "has_controls s = list_ex (\<lambda>u. unat u \<le> 0x1F \<or> unat u = 0x7F) s"

text \<open>\<open>Number(b)\<close> of a non-negative bigint: 53 significant bits, ties to even.\<close>

fun excess_bits :: "nat \<Rightarrow> nat" where
  "excess_bits n = (if n < 2 ^ 53 then 0 else Suc (excess_bits (n div 2)))"

definition js_number :: "nat \<Rightarrow> nat" where
  "js_number n =
     (let e = excess_bits n; q = n div 2 ^ e; r = n mod 2 ^ e in
      if e = 0 then n
      else if 2 * r < 2 ^ e \<or> (2 * r = 2 ^ e \<and> even q) then q * 2 ^ e
      else Suc q * 2 ^ e)"

declare excess_bits.simps [simp del]
declare utf8_run.simps [simp del]

subsection \<open>\<open>Number\<close>\<close>

lemma excess_bits_zero: "n < 2 ^ 53 \<Longrightarrow> excess_bits n = 0"
  by (simp add: excess_bits.simps)

lemma js_number_exact: "n < 2 ^ 53 \<Longrightarrow> js_number n = n"
  by (simp add: js_number_def excess_bits_zero)

lemma excess_bits_ge: "2 ^ 53 \<le> n \<Longrightarrow> 2 ^ 52 * 2 ^ excess_bits n \<le> n \<and> 0 < excess_bits n"
proof (induction n rule: excess_bits.induct)
  case (1 n)
  then have e: "excess_bits n = Suc (excess_bits (n div 2))"
    by (subst excess_bits.simps) simp
  show ?case
  proof (cases "n div 2 < 2 ^ 53")
    case True
    then show ?thesis using 1(2) e by (simp add: excess_bits_zero)
  next
    case False
    with 1(2) have "2 ^ 52 * 2 ^ excess_bits (n div 2) \<le> n div 2"
      using 1(1) by (simp add: not_less)
    then have "2 * (2 ^ 52 * 2 ^ excess_bits (n div 2)) \<le> n" by linarith
    then show ?thesis using e by simp
  qed
qed

lemma js_number_large:
  assumes "2 ^ 53 \<le> n" shows "2 ^ 53 \<le> js_number n"
proof -
  let ?e = "excess_bits n"
  from assms have ge: "2 ^ 52 * 2 ^ ?e \<le> n" and pos: "0 < ?e"
    using excess_bits_ge by blast+
  then have "2 ^ 52 \<le> n div 2 ^ ?e"
    by (simp add: less_eq_div_iff_mult_less_eq)
  then have "2 ^ 52 * 2 ^ ?e \<le> n div 2 ^ ?e * 2 ^ ?e"
    by (rule mult_le_mono1)
  moreover have "(2::nat) ^ 1 \<le> 2 ^ ?e"
    using pos by (intro power_increasing) auto
  then have "2 ^ 53 \<le> (2::nat) ^ 52 * 2 ^ ?e" by simp
  ultimately have "2 ^ 53 \<le> n div 2 ^ ?e * 2 ^ ?e" by linarith
  moreover have "n div 2 ^ ?e * 2 ^ ?e \<le> js_number n"
    using pos by (simp add: js_number_def Let_def)
  ultimately show ?thesis by linarith
qed

subsection \<open>UTF-8 decoding inverts encoding\<close>

lemma unat_unit_less [simp]: "unat (u :: code_unit) < 65536"
  using unsigned_less[of u] by simp

lemma unat_unit_of: "n < 65536 \<Longrightarrow> unat (word_of_nat n :: code_unit) = n"
  by (simp add: unat_of_nat)

lemma utf8_run_lead_emit:
  "utf8_lead (unat b) = Emit c \<Longrightarrow>
   utf8_run fatal utf8_init (b # bs) = map_option ((#) c) (utf8_run fatal utf8_init bs)"
  by (simp add: utf8_run.simps utf8_init_def)

lemma utf8_run_lead_continue:
  "utf8_lead (unat b) = Continue st \<Longrightarrow> utf8_run fatal utf8_init (b # bs) = utf8_run fatal st bs"
  by (simp add: utf8_run.simps utf8_init_def)

lemma utf8_run_trail_emit:
  "needed st = 1 \<Longrightarrow> lower st \<le> unat b \<Longrightarrow> unat b \<le> upper st \<Longrightarrow>
   utf8_run fatal st (b # bs) =
     map_option ((#) (cp st * 64 + (unat b - 0x80))) (utf8_run fatal utf8_init bs)"
  by (simp add: utf8_run.simps utf8_trail_def)

lemma utf8_run_trail_continue:
  "1 < needed st \<Longrightarrow> lower st \<le> unat b \<Longrightarrow> unat b \<le> upper st \<Longrightarrow>
   utf8_run fatal st (b # bs) =
     utf8_run fatal \<lparr>cp = cp st * 64 + (unat b - 0x80), needed = needed st - 1,
                     lower = 0x80, upper = 0xBF\<rparr> bs"
  by (simp add: utf8_run.simps utf8_trail_def)

lemmas utf8_run_trail = utf8_run_trail_emit utf8_run_trail_continue

lemma utf8_run_two:
  assumes "2 \<le> a" "a < 32" "l < 64"
  shows "utf8_run fatal utf8_init (byte_of (0xC0 + a) # byte_of (0x80 + l) # bs) =
    map_option ((#) (a * 64 + l)) (utf8_run fatal utf8_init bs)"
  using assms by (simp add: utf8_run_lead_continue utf8_lead_def unat_byte_of utf8_run_trail)

lemma utf8_run_three:
  assumes "a < 16" "m < 64" "l < 64" "a = 0 \<Longrightarrow> 0x20 \<le> m" "a = 13 \<Longrightarrow> m < 0x20"
  shows "utf8_run fatal utf8_init
      (byte_of (0xE0 + a) # byte_of (0x80 + m) # byte_of (0x80 + l) # bs) =
    map_option ((#) ((a * 64 + m) * 64 + l)) (utf8_run fatal utf8_init bs)"
proof -
  have lead: "utf8_lead (unat (byte_of (0xE0 + a))) =
      Continue \<lparr>cp = a, needed = 2, lower = (if a = 0 then 0xA0 else 0x80),
                upper = (if a = 13 then 0x9F else 0xBF)\<rparr>"
    using assms(1) by (simp add: utf8_lead_def unat_byte_of)
  have bounds: "(if a = 0 then 0xA0 else 0x80) \<le> 0x80 + m"
      "0x80 + m \<le> (if a = 13 then 0x9F else 0xBF)"
    using assms by auto
  show ?thesis
    using assms(1-3) bounds
    by (simp add: utf8_run_lead_continue[OF lead] unat_byte_of utf8_run_trail del: if_split)
qed

lemma utf8_run_four:
  assumes "a < 5" "n < 64" "m < 64" "l < 64" "a = 0 \<Longrightarrow> 0x10 \<le> n" "a = 4 \<Longrightarrow> n < 0x10"
  shows "utf8_run fatal utf8_init
      (byte_of (0xF0 + a) # byte_of (0x80 + n) # byte_of (0x80 + m) # byte_of (0x80 + l) # bs) =
    map_option ((#) (((a * 64 + n) * 64 + m) * 64 + l)) (utf8_run fatal utf8_init bs)"
proof -
  have lead: "utf8_lead (unat (byte_of (0xF0 + a))) =
      Continue \<lparr>cp = a, needed = 3, lower = (if a = 0 then 0x90 else 0x80),
                upper = (if a = 4 then 0x8F else 0xBF)\<rparr>"
    using assms(1) by (simp add: utf8_lead_def unat_byte_of)
  have bounds: "(if a = 0 then 0x90 else 0x80) \<le> 0x80 + n"
      "0x80 + n \<le> (if a = 4 then 0x8F else 0xBF)"
    using assms by auto
  show ?thesis
    using assms(1-4) bounds
    by (simp add: utf8_run_lead_continue[OF lead] unat_byte_of utf8_run_trail del: if_split)
qed

lemma sextet_split: "(c :: nat) div 4096 = c div 64 div 64" "c div 262144 = c div 64 div 64 div 64"
  by (simp_all flip: div_mult2_eq)

lemma utf8_scalar_two:
  assumes "0x80 \<le> c" "c < 0x800"
  shows "utf8_run fatal utf8_init (utf8_of_scalar c @ bs) =
    map_option ((#) c) (utf8_run fatal utf8_init bs)"
proof -
  have "2 \<le> c div 64" "c div 64 < 32" using assms by auto
  from utf8_run_two[OF this, of "c mod 64"] show ?thesis
    using assms by (simp add: utf8_of_scalar_def)
qed

lemma utf8_scalar_three:
  assumes "0x800 \<le> c" "c < 0x10000" "is_scalar c"
  shows "utf8_run fatal utf8_init (utf8_of_scalar c @ bs) =
    map_option ((#) c) (utf8_run fatal utf8_init bs)"
proof -
  let ?q = "c div 64"
  have q: "32 \<le> ?q" "?q < 1024" using assms by auto
  have sur: "?q < 864 \<or> 896 \<le> ?q" using assms(3) by (auto simp: is_scalar_def)
  have split: "?q div 64 * 64 + ?q mod 64 = ?q" by simp
  have "?q div 64 < 16" using q by auto
  moreover have "?q div 64 = 0 \<Longrightarrow> 0x20 \<le> ?q mod 64" using q split by linarith
  moreover have "?q div 64 = 13 \<Longrightarrow> ?q mod 64 < 0x20" using sur split by linarith
  ultimately show ?thesis
    using utf8_run_three[of "?q div 64" "?q mod 64" "c mod 64"] assms
    by (simp add: utf8_of_scalar_def sextet_split)
qed

lemma utf8_scalar_four:
  assumes "0x10000 \<le> c" "is_scalar c"
  shows "utf8_run fatal utf8_init (utf8_of_scalar c @ bs) =
    map_option ((#) c) (utf8_run fatal utf8_init bs)"
proof -
  let ?q = "c div 64 div 64"
  have c: "c < 0x110000" using assms(2) by (simp add: is_scalar_def)
  have q: "16 \<le> ?q" "?q < 272"
    using assms(1) c by (auto simp flip: div_mult2_eq)
  have split: "?q div 64 * 64 + ?q mod 64 = ?q" by simp
  have "?q div 64 < 5" using q by auto
  moreover have "?q div 64 = 0 \<Longrightarrow> 0x10 \<le> ?q mod 64" using q split by linarith
  moreover have "?q div 64 = 4 \<Longrightarrow> ?q mod 64 < 0x10" using q split by linarith
  ultimately show ?thesis
    using utf8_run_four[of "?q div 64" "?q mod 64" "c div 64 mod 64" "c mod 64"] assms(1)
    by (simp add: utf8_of_scalar_def sextet_split)
qed

lemma utf8_run_scalar:
  assumes "is_scalar c"
  shows "utf8_run fatal utf8_init (utf8_of_scalar c @ bs) =
    map_option ((#) c) (utf8_run fatal utf8_init bs)"
proof -
  consider "c < 0x80" | "0x80 \<le> c" "c < 0x800" | "0x800 \<le> c" "c < 0x10000" | "0x10000 \<le> c"
    by linarith
  then show ?thesis
  proof cases
    case 1
    then show ?thesis
      by (simp add: utf8_of_scalar_def utf8_run_lead_emit utf8_lead_def unat_byte_of)
  qed (use assms in \<open>auto intro: utf8_scalar_two utf8_scalar_three utf8_scalar_four\<close>)
qed

lemma utf8_run_scalars:
  "list_all is_scalar cs \<Longrightarrow> utf8_run fatal utf8_init (concat (map utf8_of_scalar cs)) = Some cs"
proof (induction cs)
  case Nil
  then show ?case by (simp add: utf8_run.simps utf8_init_def)
next
  case (Cons c cs)
  then show ?case by (simp add: utf8_run_scalar)
qed

lemma combine_bounds:
  "is_high u \<Longrightarrow> is_low v \<Longrightarrow> 0x10000 \<le> combine u v \<and> combine u v < 0x110000"
  unfolding combine_def is_high_def is_low_def by linarith

lemma usv_scalar: "list_all is_scalar (usv s)"
proof (induction s rule: usv.induct)
  case 1
  then show ?case by simp
next
  case (2 u)
  have "unat u < 65536" by simp
  then show ?case by (auto simp: is_scalar_def is_high_def is_low_def simp del: unat_unit_less)
next
  case (3 u v us)
  have "is_scalar (unat u)" if "\<not> is_high u" "\<not> is_low u"
    using that unat_unit_less[of u]
    by (auto simp: is_scalar_def is_high_def is_low_def simp del: unat_unit_less)
  moreover have "is_scalar (combine u v)" if "is_high u" "is_low v"
    using combine_bounds[OF that] by (simp add: is_scalar_def)
  moreover have "is_scalar 0xFFFD" by (simp add: is_scalar_def)
  ultimately show ?case using 3 by simp
qed

lemma utf16_of_combine:
  assumes "is_high u" "is_low v"
  shows "utf16_of_scalar (combine u v) = [u, v]"
proof -
  have h: "0xD800 \<le> unat u" "unat u \<le> 0xDBFF" and l: "0xDC00 \<le> unat v" "unat v \<le> 0xDFFF"
    using assms by (simp_all add: is_high_def is_low_def)
  have d: "combine u v - 0x10000 = (unat v - 0xDC00) + (unat u - 0xD800) * 0x400"
    by (simp add: combine_def)
  have "unat v - 0xDC00 < 0x400" using l by simp
  then have "(combine u v - 0x10000) div 0x400 = unat u - 0xD800"
    and "(combine u v - 0x10000) mod 0x400 = unat v - 0xDC00"
    unfolding d by simp_all
  then show ?thesis
    using h l combine_bounds[OF assms] by (simp add: utf16_of_scalar_def)
qed

lemma utf16_of_unit: "utf16_of_scalar (unat (u :: code_unit)) = [u]"
  using unat_unit_less[of u] by (simp add: utf16_of_scalar_def del: unat_unit_less)

lemma utf16_usv: "well_formed s \<Longrightarrow> concat (map utf16_of_scalar (usv s)) = s"
  by (induction s rule: usv.induct) (auto simp: utf16_of_unit utf16_of_combine split: if_splits)

lemma strip_bom_usv:
  assumes "\<not> has_bom s"
  shows "strip_bom (usv s) = usv s"
proof -
  have ne: "unat u \<noteq> 0xFEFF" if "u \<noteq> 0xFEFF" for u :: code_unit
    using that by (auto simp: word_unat_eq_iff)
  moreover have "combine u v \<noteq> 0xFEFF" if "is_high u" "is_low v" for u v
    using combine_bounds[OF that] by auto
  ultimately show ?thesis
    using assms by (cases s rule: usv.cases) (auto simp: strip_bom_def has_bom_def)
qed

theorem text_decode_encode:
  "well_formed s \<Longrightarrow> \<not> has_bom s \<Longrightarrow> text_decode fatal (text_encode s) = Some s"
  by (simp add: text_decode_def text_encode_def utf8_run_scalars usv_scalar strip_bom_usv utf16_usv)

lemma text_decode_lossy_encode:
  "well_formed s \<Longrightarrow> \<not> has_bom s \<Longrightarrow> text_decode_lossy (text_encode s) = s"
  by (simp add: text_decode_lossy_def text_decode_encode)

lemma utf8_run_lossy_total: "\<exists>cs. utf8_run False st bs = Some cs"
proof (induction False st bs rule: utf8_run.induct)
  case (1 st)
  then show ?case by (simp add: utf8_run.simps)
next
  case (2 st b bs)
  show ?case
  proof (cases "needed st = 0")
    case True
    with 2 show ?thesis
      by (cases "utf8_lead (unat b)") (auto simp: utf8_run.simps(2)[of False st])
  next
    case False
    with 2 show ?thesis
      by (cases "utf8_trail st (unat b)") (auto simp: utf8_run.simps(2)[of False st])
  qed
qed

lemma text_decode_lossy_some: "text_decode False bs = Some (text_decode_lossy bs)"
  using utf8_run_lossy_total[of utf8_init bs] by (auto simp: text_decode_lossy_def text_decode_def)

end
