(* ===== verification/Utils.thy ===== *)
theory Utils
  imports Nox_Prelude
begin

section \<open>Hexadecimal text and random indices\<close>

text \<open>
  \<open>packages/nox-client/src/utils.ts\<close>: \<open>bytesToHex\<close>, \<open>hexToBytes\<close>, \<open>secureRandomIndex\<close> and
  \<open>secureRandomU64\<close>. The platform's random source is a parameter: \<open>fill i\<close> is the value the
  \<open>i\<close>-th call of \<open>getRandomValues\<close> yields. The rejection loops may run for ever on a source that
  only yields rejected values, so they are partial functions into \<open>option\<close>. Text is
  \<open>string\<close>: code units below 256, which is all these functions produce or accept.
\<close>

definition hex_char :: "nat \<Rightarrow> char" where
  "hex_char n = ''0123456789abcdef'' ! n"

text \<open>\<open>n.toString(16)\<close>.\<close>

fun to_string16 :: "nat \<Rightarrow> string" where
  "to_string16 n = (if n < 16 then [hex_char n] else to_string16 (n div 16) @ [hex_char (n mod 16)])"

definition padStart :: "nat \<Rightarrow> char \<Rightarrow> string \<Rightarrow> string" where
  "padStart n c s = replicate (n - length s) c @ s"

definition bytesToHex :: "bytes \<Rightarrow> string" where
  "bytesToHex bs = concat (map (\<lambda>b. padStart 2 (CHR ''0'') (to_string16 (unat b))) bs)"

definition hex_value :: "char \<Rightarrow> nat option" where
  "hex_value c =
     (let n = of_char c :: nat in
      if 48 \<le> n \<and> n \<le> 57 then Some (n - 48)
      else if 97 \<le> n \<and> n \<le> 102 then Some (n - 87)
      else if 65 \<le> n \<and> n \<le> 70 then Some (n - 55)
      else None)"

definition is_hex :: "char \<Rightarrow> bool" where
  "is_hex c = (hex_value c \<noteq> None)"

text \<open>\<open>s.replace(/^0x/u, "")\<close>.\<close>

definition strip_0x :: "string \<Rightarrow> string" where
  "strip_0x s = (if take 2 s = ''0x'' then drop 2 s else s)"

fun parse_pairs :: "string \<Rightarrow> bytes" where
  "parse_pairs (a # b # s) =
     byte_of (16 * the (hex_value a) + the (hex_value b)) # parse_pairs s"
| "parse_pairs _ = []"

definition hexToBytes :: "string \<Rightarrow> bytes result" where
  "hexToBytes hex =
     (let clean = strip_0x hex in
      if even (length clean) \<and> list_all is_hex clean then Inr (parse_pairs clean)
      else throw InvalidConfig ''Hex input must contain an even number of hexadecimal digits'')"

text \<open>\<open>toLowerCase\<close> on code units below 256 (\<open>0xD7\<close> is the multiplication sign).\<close>

definition lower_char :: "char \<Rightarrow> char" where
  "lower_char c =
     (let n = of_char c :: nat in
      if (65 \<le> n \<and> n \<le> 90) \<or> (192 \<le> n \<and> n \<le> 222 \<and> n \<noteq> 215) then char_of (n + 32) else c)"

definition toLowerCase :: "string \<Rightarrow> string" where
  "toLowerCase s = map lower_char s"

subsection \<open>Random values\<close>

partial_function (option) secureRandomU64_from :: "(nat \<Rightarrow> nat \<times> nat) \<Rightarrow> nat \<Rightarrow> nat option" where
  "secureRandomU64_from fill i =
     (let value = fst (fill i) * 2 ^ 32 + snd (fill i) in
      if value \<noteq> 0 then Some value else secureRandomU64_from fill (Suc i))"

definition acceptanceLimit :: "nat \<Rightarrow> nat" where
  "acceptanceLimit len = 2 ^ 32 div len * len"

partial_function (option) sample_below :: "(nat \<Rightarrow> nat) \<Rightarrow> nat \<Rightarrow> nat \<Rightarrow> nat option" where
  "sample_below fill limit i =
     (if fill i \<ge> limit then sample_below fill limit (Suc i) else Some (fill i))"

definition secureRandomIndex :: "int \<Rightarrow> (nat \<Rightarrow> nat) \<Rightarrow> nat result option" where
  "secureRandomIndex len fill =
     (if len \<le> 0 \<or> len > 2 ^ 32
      then Some (throw InvalidConfig ''Secure random index length must be an integer in 1..=2^32'')
      else map_option (\<lambda>s. Inr (s mod nat len)) (sample_below fill (acceptanceLimit (nat len)) 0))"

declare to_string16.simps [simp del]

subsection \<open>Hexadecimal round trips\<close>

lemma hex_value_hex_char: "n < 16 \<Longrightarrow> hex_value (hex_char n) = Some n"
proof -
  have "\<forall>n \<in> set [0..<16]. hex_value (hex_char n) = Some n" by code_simp
  then show "n < 16 \<Longrightarrow> ?thesis" by simp
qed

lemma byte_hex: "padStart 2 (CHR ''0'') (to_string16 (unat (b :: byte))) =
    [hex_char (unat b div 16), hex_char (unat b mod 16)]"
proof (cases "unat b < 16")
  case True
  then show ?thesis
    by (simp add: padStart_def to_string16.simps[of "unat b"] hex_char_def)
next
  case False
  have "unat b div 16 < 16" by (simp add: less_mult_imp_div_less)
  then have "to_string16 (unat b) = [hex_char (unat b div 16), hex_char (unat b mod 16)]"
    using False by (simp add: to_string16.simps[of "unat b"] to_string16.simps[of "unat b div 16"])
  then show ?thesis by (simp add: padStart_def)
qed

lemma bytesToHex_Cons:
  "bytesToHex (b # bs) = hex_char (unat b div 16) # hex_char (unat b mod 16) # bytesToHex bs"
  by (simp add: bytesToHex_def byte_hex)

lemma bytesToHex_Nil [simp]: "bytesToHex [] = []"
  by (simp add: bytesToHex_def)

lemma length_bytesToHex [simp]: "length (bytesToHex bs) = 2 * length bs"
  by (induction bs) (simp_all add: bytesToHex_Cons)

lemma byte_nibbles: "unat (b :: byte) div 16 < 16" "unat b mod 16 < 16"
  by (simp_all add: less_mult_imp_div_less)

lemma bytesToHex_is_hex: "list_all is_hex (bytesToHex bs)"
  by (induction bs)
    (simp_all add: bytesToHex_Cons is_hex_def hex_value_hex_char byte_nibbles)

lemma parse_pairs_bytesToHex: "parse_pairs (bytesToHex bs) = bs"
proof (induction bs)
  case (Cons b bs)
  have "byte_of (16 * (unat b div 16) + unat b mod 16) = b" by simp
  with Cons show ?case
    by (simp add: bytesToHex_Cons hex_value_hex_char byte_nibbles)
qed simp

lemma strip_0x_bytesToHex: "strip_0x (bytesToHex bs) = bytesToHex bs"
proof -
  have "take 2 (bytesToHex bs) \<noteq> ''0x''"
  proof
    assume "take 2 (bytesToHex bs) = ''0x''"
    moreover have "list_all is_hex (take 2 (bytesToHex bs))"
      using bytesToHex_is_hex[of bs] by (auto simp: list_all_iff dest: in_set_takeD)
    ultimately have "is_hex (CHR ''x'')" by simp
    then show False by (simp add: is_hex_def hex_value_def)
  qed
  then show ?thesis by (simp add: strip_0x_def)
qed

theorem hexToBytes_bytesToHex: "hexToBytes (bytesToHex bs) = Inr bs"
  by (simp add: hexToBytes_def strip_0x_bytesToHex bytesToHex_is_hex parse_pairs_bytesToHex)

lemma hexToBytes_0x_bytesToHex: "hexToBytes (''0x'' @ bytesToHex bs) = Inr bs"
  by (simp add: hexToBytes_def strip_0x_def bytesToHex_is_hex parse_pairs_bytesToHex)

lemma hex_char_code: "n < 16 \<Longrightarrow> hex_char n = char_of (if n < 10 then 48 + n else 87 + n)"
proof -
  have "\<forall>n \<in> set [0..<16]. hex_char n = char_of (if n < 10 then 48 + n else 87 + n)" by code_simp
  then show "n < 16 \<Longrightarrow> ?thesis" by simp
qed

lemma hex_char_lower: "is_hex c \<Longrightarrow> hex_char (the (hex_value c)) = lower_char c"
  by (auto simp: is_hex_def hex_value_def lower_char_def Let_def hex_char_code split: if_splits)

lemma hex_value_less: "hex_value c = Some v \<Longrightarrow> v < 16"
  by (auto simp: hex_value_def Let_def split: if_splits)

lemma bytesToHex_parse_pairs:
  "even (length s) \<Longrightarrow> list_all is_hex s \<Longrightarrow> bytesToHex (parse_pairs s) = toLowerCase s"
proof (induction s rule: parse_pairs.induct)
  case (1 a b s)
  then obtain x y where xy: "hex_value a = Some x" "hex_value b = Some y"
    by (auto simp: is_hex_def)
  then have lt: "x < 16" "y < 16" by (auto intro: hex_value_less)
  then have "unat (byte_of (16 * x + y)) = 16 * x + y"
    by (simp add: unat_byte_of)
  with 1 xy lt show ?case
    using hex_char_lower[of a] hex_char_lower[of b]
    by (simp add: bytesToHex_Cons toLowerCase_def)
qed (simp_all add: toLowerCase_def)

theorem bytesToHex_hexToBytes:
  "hexToBytes s = Inr bs \<Longrightarrow> bytesToHex bs = toLowerCase (strip_0x s)"
  by (auto simp: hexToBytes_def Let_def bytesToHex_parse_pairs split: if_splits)

subsection \<open>Random indices\<close>

lemma sample_below_returns:
  "fill (i + n) < limit \<Longrightarrow> \<exists>j. sample_below fill limit i = Some (fill j) \<and> fill j < limit"
proof (induction n arbitrary: i)
  case 0
  then show ?case by (subst sample_below.simps) auto
next
  case (Suc n)
  show ?case
  proof (cases "fill i < limit")
    case True
    then show ?thesis by (subst sample_below.simps) auto
  next
    case False
    with Suc.IH[of "Suc i"] Suc.prems show ?thesis
      by (subst sample_below.simps) simp
  qed
qed

lemma acceptanceLimit_half:
  assumes "0 < len" "len \<le> 2 ^ 32" shows "2 ^ 32 < 2 * acceptanceLimit len"
proof -
  have "2 ^ 32 < acceptanceLimit len + len"
    using div_mult_mod_eq[of "2 ^ 32" len] mod_less_divisor[OF assms(1), of "2 ^ 32"]
    unfolding acceptanceLimit_def by linarith
  moreover have "len \<le> acceptanceLimit len"
    using assms by (simp add: acceptanceLimit_def div_greater_zero_iff Suc_le_eq)
  ultimately show ?thesis by linarith
qed

lemma residue_class_image:
  fixes len k q :: nat
  shows "0 < len \<Longrightarrow> k < len \<Longrightarrow> {s. s < q * len \<and> s mod len = k} = (\<lambda>j. j * len + k) ` {..<q}"
proof (intro equalityI subsetI)
  fix s assume pos: "0 < len" "k < len" and s: "s \<in> {s. s < q * len \<and> s mod len = k}"
  then have "s div len < q" using less_mult_imp_div_less[of s q len] by simp
  moreover have "s = s div len * len + k" using s div_mult_mod_eq[of s len] by simp
  ultimately show "s \<in> (\<lambda>j. j * len + k) ` {..<q}" by blast
next
  fix s assume pos: "0 < len" "k < len" and "s \<in> (\<lambda>j. j * len + k) ` {..<q}"
  then obtain j where j: "j < q" "s = j * len + k" by auto
  then have "Suc j * len \<le> q * len" by (intro mult_le_mono1) simp
  with pos j have "s < q * len" by simp
  with pos j show "s \<in> {s. s < q * len \<and> s mod len = k}" by simp
qed

lemma accepted_samples_uniform:
  assumes "0 < len" "k < len"
  shows "card {s. s < acceptanceLimit len \<and> s mod len = k} = 2 ^ 32 div len"
  unfolding acceptanceLimit_def residue_class_image[OF assms]
  using assms by (subst card_image) (auto simp: inj_on_def)

text \<open>
  Random index selection is total and unbiased. For every list length \<open>len\<close> from 1 to 2^32
  and every source that yields at least one 32-bit sample below the acceptance limit, the
  rejection loop returns an index below \<open>len\<close>; more than half of all samples are below that
  limit; and each index is hit by exactly \<open>2^32 div len\<close> accepted samples, so no index is
  favoured.
\<close>

theorem secureRandomIndex_uniform:
  assumes "0 < len" "len \<le> 2 ^ 32" "fill n < acceptanceLimit len"
  shows "(\<exists>k. secureRandomIndex (int len) fill = Some (Inr k) \<and> k < len)
    \<and> 2 ^ 32 < 2 * acceptanceLimit len
    \<and> (\<forall>k < len. card {s. s < acceptanceLimit len \<and> s mod len = k} = 2 ^ 32 div len)"
proof -
  from sample_below_returns[of fill 0 n] assms(3)
  obtain j where "sample_below fill (acceptanceLimit len) 0 = Some (fill j)" by auto
  then have "secureRandomIndex (int len) fill = Some (Inr (fill j mod len))"
    using assms(1,2) by (simp add: secureRandomIndex_def)
  moreover have "fill j mod len < len" using assms(1) by simp
  ultimately show ?thesis
    using acceptanceLimit_half[OF assms(1,2)] accepted_samples_uniform[OF assms(1)] by blast
qed

theorem secureRandomIndex_uniform_witness:
  "(\<exists>k. secureRandomIndex (int 3) (\<lambda>i. if i = 0 then 2 ^ 32 - 1 else 7) = Some (Inr k) \<and> k < 3)
    \<and> 2 ^ 32 < 2 * acceptanceLimit 3
    \<and> card {s. s < acceptanceLimit 3 \<and> s mod 3 = 1} = 2 ^ 32 div 3"
proof -
  let ?fill = "\<lambda>i :: nat. if i = 0 then 2 ^ 32 - 1 else (7 :: nat)"
  have "?fill 1 < acceptanceLimit 3" by (simp add: acceptanceLimit_def)
  then have *: "(\<exists>k. secureRandomIndex (int 3) ?fill = Some (Inr k) \<and> k < 3) \<and> 2 ^ 32 < 2 * acceptanceLimit 3
      \<and> (\<forall>k < 3. card {s. s < acceptanceLimit 3 \<and> s mod 3 = k} = 2 ^ 32 div 3)"
    by (intro secureRandomIndex_uniform[of 3 ?fill 1]) simp_all
  have "card {s. s < acceptanceLimit 3 \<and> s mod 3 = 1} = 2 ^ 32 div 3"
    by (rule *[THEN conjunct2, THEN conjunct2, rule_format]) simp
  then show ?thesis
    by (rule conjI[OF *[THEN conjunct1] conjI[OF *[THEN conjunct2, THEN conjunct1]]])
qed

end
