(* ===== verification/Bincode_Codec.thy ===== *)
theory Bincode_Codec
  imports Js_Text
begin

section \<open>The bincode writer and reader\<close>

text \<open>
  \<open>class Writer\<close> and \<open>class Reader\<close> of \<open>packages/nox-client/src/bincode.ts\<close>, method by method:
  fixed-width little-endian integers, \<open>u64\<close>-prefixed byte strings, options and booleans as one
  byte. Numbers and bigints are \<open>int\<close>; writing wraps them to the field's width as \<open>v & 0xff\<close>,
  \<open>v >>> 0\<close> and \<open>setBigUint64\<close> do. A write method takes the writer and returns it changed or
  an error; a read method takes the reader and returns the value and the advanced reader.
  \<open>emits f bs\<close> says that \<open>f\<close> appends exactly \<open>bs\<close>; \<open>at pre rest\<close> is the reader standing
  between \<open>pre\<close> and \<open>rest\<close>, and the rules \<open>reader_simps\<close> evaluate every read method there.
  The locale \<open>wire_codec\<close> is the contract of a message format: what is written is the layout, and
  the layout reads back.
\<close>

named_theorems reader_simps \<open>evaluation of the read methods at a known position\<close>
named_theorems emits_intros \<open>what each write method appends\<close>

record fec_info =
  dataShardCount :: int
  originalDataLen :: int

record fragment =
  messageId :: int
  totalFragments :: int
  sequence :: int
  data :: bytes
  fec :: "fec_info option"

subsection \<open>Writer\<close>

record writer =
  chunks :: "bytes list"
  totalLen :: nat

type_synonym writing = "writer \<Rightarrow> writer result"

definition new_writer :: writer where
  "new_writer = \<lparr>chunks = [], totalLen = 0\<rparr>"

definition w_raw :: "bytes \<Rightarrow> writer \<Rightarrow> writer" where
  "w_raw chunk w = w\<lparr>chunks := chunks w @ [chunk], totalLen := totalLen w + length chunk\<rparr>"

definition w_u8 :: "int \<Rightarrow> writing" where
  "w_u8 v w = Inr (w_raw [word_of_int v] w)"

definition w_u16 :: "int \<Rightarrow> writing" where
  "w_u16 v w = Inr (w_raw (le_bytes 2 (nat (v mod 2 ^ 16))) w)"

definition w_u32 :: "int \<Rightarrow> writing" where
  "w_u32 v w = Inr (w_raw (le_bytes 4 (nat (v mod 2 ^ 32))) w)"

definition w_u64 :: "int \<Rightarrow> writing" where
  "w_u64 v w = Inr (w_raw (le_bytes 8 (nat (v mod 2 ^ 64))) w)"

definition w_fixedBytes :: "bytes \<Rightarrow> writing" where
  "w_fixedBytes v w = Inr (if 0 < length v then w_raw v w else w)"

definition w_bytes :: "bytes \<Rightarrow> writing" where
  "w_bytes v w = rbind (w_u64 (int (length v)) w) (\<lambda>w'. Inr (if 0 < length v then w_raw v w' else w'))"

definition w_string :: "js_string \<Rightarrow> writing" where
  "w_string v = w_bytes (text_encode v)"

text \<open>Statements in sequence: the first error ends the method.\<close>

fun w_all :: "writing list \<Rightarrow> writing" where
  "w_all [] w = Inr w"
| "w_all (f # fs) w = rbind (f w) (w_all fs)"

definition w_optString :: "js_string option \<Rightarrow> writing" where
  "w_optString v = (case v of None \<Rightarrow> w_u8 0 | Some s \<Rightarrow> w_all [w_u8 1, w_string s])"

definition assertLen :: "bytes \<Rightarrow> nat \<Rightarrow> writing" where
  "assertLen v expected w =
     (if length v \<noteq> expected then throw PacketBuildFailed ''must be exactly expected bytes'' else Inr w)"

definition writeFixed :: "bytes \<Rightarrow> nat \<Rightarrow> writing" where
  "writeFixed v len = w_all [assertLen v len, w_fixedBytes v]"

definition w_finish :: "writer \<Rightarrow> bytes result" where
  "w_finish w = concatBytes (chunks w) (totalLen w)"

subsection \<open>Reader\<close>

record reader =
  buf :: bytes
  pos :: nat

type_synonym 'a reading = "reader \<Rightarrow> ('a \<times> reader) result"

definition pbind :: "'a reading \<Rightarrow> ('a \<Rightarrow> 'b reading) \<Rightarrow> 'b reading" where
  "pbind p k r = rbind (p r) (\<lambda>(x, r'). k x r')"

definition preturn :: "'a \<Rightarrow> 'a reading" where
  "preturn x r = Inr (x, r)"

definition pthrow :: "nox_error_code \<Rightarrow> string \<Rightarrow> 'a reading" where
  "pthrow c msg r = throw c msg"

definition r_ensure :: "nat \<Rightarrow> reader \<Rightarrow> unit result" where
  "r_ensure n r = guard (pos r + n \<le> length (buf r)) DecryptionFailed ''Unexpected end of payload''"

definition r_le :: "nat \<Rightarrow> int reading" where
  "r_le n r = rbind (r_ensure n r)
     (\<lambda>_. Inr (int (le_value (take n (drop (pos r) (buf r)))), r\<lparr>pos := pos r + n\<rparr>))"

definition r_u8 :: "int reading" where
  "r_u8 = r_le 1"

definition r_u16 :: "int reading" where
  "r_u16 = r_le 2"

definition r_u32 :: "int reading" where
  "r_u32 = r_le 4"

definition r_u64 :: "int reading" where
  "r_u64 = r_le 8"

definition r_fixedBytes :: "nat \<Rightarrow> bytes reading" where
  "r_fixedBytes n r = rbind (r_ensure n r)
     (\<lambda>_. Inr (take n (drop (pos r) (buf r)), r\<lparr>pos := pos r + n\<rparr>))"

definition r_bytes :: "bytes reading" where
  "r_bytes = pbind r_u64 (\<lambda>len. r_fixedBytes (js_number (nat len)))"

definition r_string :: "js_string reading" where
  "r_string = pbind r_bytes (\<lambda>bs. preturn (text_decode_lossy bs))"

definition r_optString :: "js_string option reading" where
  "r_optString = pbind r_u8
     (\<lambda>tag. if tag = 0 then preturn None else pbind r_string (\<lambda>s. preturn (Some s)))"

definition r_bool :: "bool reading" where
  "r_bool = pbind r_u8
     (\<lambda>v. if v > 1 then pthrow DecryptionFailed ''Invalid bool byte'' else preturn (v = 1))"

definition r_option :: "'a reading \<Rightarrow> 'a option reading" where
  "r_option p = pbind r_u8
     (\<lambda>tag. if tag > 1 then pthrow DecryptionFailed ''Invalid option tag''
           else if tag = 0 then preturn None else pbind p (\<lambda>x. preturn (Some x)))"

definition r_expectEnd :: "unit reading" where
  "r_expectEnd r =
     (if pos r \<noteq> length (buf r) then throw DecryptionFailed ''trailing bytes'' else Inr ((), r))"

definition PAYLOAD_VERSION :: int where
  "PAYLOAD_VERSION = 1"

definition checkVersion :: "bytes \<Rightarrow> unit result" where
  "checkVersion bs =
     (case bs of [] \<Rightarrow> throw DecryptionFailed ''Cannot decode empty payload bytes''
      | ver # _ \<Rightarrow> if int (unat ver) \<noteq> PAYLOAD_VERSION
                  then throw DecryptionFailed ''Unsupported payload version'' else Inr ())"

text \<open>The shape every encoder and decoder of the module has.\<close>

definition encode_with :: "writing \<Rightarrow> bytes result" where
  "encode_with f = rbind (w_all [w_u8 PAYLOAD_VERSION, f] new_writer) w_finish"

definition decode_with :: "'a reading \<Rightarrow> bytes \<Rightarrow> 'a result" where
  "decode_with p bs = rbind (checkVersion bs) (\<lambda>_. rbind (p \<lparr>buf = bs, pos = 1\<rparr>) (\<lambda>(x, _). Inr x))"

subsection \<open>What is written\<close>

definition writer_wf :: "writer \<Rightarrow> bool" where
  "writer_wf w = (totalLen w = length (concat (chunks w)))"

definition content :: "writer \<Rightarrow> bytes" where
  "content w = concat (chunks w)"

definition emits :: "writing \<Rightarrow> bytes \<Rightarrow> bool" where
  "emits f bs = (\<forall>w. writer_wf w \<longrightarrow>
     (\<exists>w'. f w = Inr w' \<and> writer_wf w' \<and> content w' = content w @ bs))"

lemma w_finish_content: "writer_wf w \<Longrightarrow> w_finish w = Inr (content w)"
  by (simp add: w_finish_def writer_wf_def content_def concatBytes_concat)

lemma writer_wf_new [simp]: "writer_wf new_writer" "content new_writer = []"
  by (simp_all add: new_writer_def writer_wf_def content_def)

lemma writer_wf_raw: "writer_wf w \<Longrightarrow> writer_wf (w_raw c w)"
  and content_raw: "content (w_raw c w) = content w @ c"
  by (simp_all add: writer_wf_def w_raw_def content_def)

lemmas raw_facts = writer_wf_raw content_raw

definition le_int :: "nat \<Rightarrow> int \<Rightarrow> bytes" where
  "le_int n v = le_bytes n (nat (v mod 2 ^ (8 * n)))"

lemma length_le_int [simp]: "length (le_int n v) = n"
  by (simp add: le_int_def)

definition le_u8 :: "int \<Rightarrow> bytes" where
  "le_u8 v = le_int 1 v"

definition le_u16 :: "int \<Rightarrow> bytes" where
  "le_u16 v = le_int 2 v"

definition le_u32 :: "int \<Rightarrow> bytes" where
  "le_u32 v = le_int 4 v"

definition le_u64 :: "int \<Rightarrow> bytes" where
  "le_u64 v = le_int 8 v"

lemmas le_defs = le_u8_def le_u16_def le_u32_def le_u64_def

lemma word_of_int_le: "[word_of_int v :: byte] = le_int 1 v"
proof -
  have "nat (v mod 256) mod 256 = nat (v mod 256)"
    by (simp add: nat_mod_distrib flip: nat_mod_as_int)
  moreover have "(word_of_int v :: byte) = word_of_int (v mod 256)"
    by (simp add: word_of_int_eq_iff take_bit_eq_mod)
  ultimately show ?thesis
    by (simp add: le_int_def word_of_nat_eq_iff word_of_int_eq_iff take_bit_eq_mod)
qed

lemma emits_u8 [emits_intros]: "emits (w_u8 v) (le_u8 v)"
  by (simp add: emits_def w_u8_def raw_facts word_of_int_le le_u8_def)

lemma emits_u16 [emits_intros]: "emits (w_u16 v) (le_u16 v)"
  by (simp add: emits_def w_u16_def raw_facts le_defs le_int_def)

lemma emits_u32 [emits_intros]: "emits (w_u32 v) (le_u32 v)"
  by (simp add: emits_def w_u32_def raw_facts le_defs le_int_def)

lemma emits_u64 [emits_intros]: "emits (w_u64 v) (le_u64 v)"
  by (simp add: emits_def w_u64_def raw_facts le_defs le_int_def)

lemma emits_fixedBytes [emits_intros]: "emits (w_fixedBytes v) v"
  by (auto simp: emits_def w_fixedBytes_def raw_facts)

definition bytes_layout :: "bytes \<Rightarrow> bytes" where
  "bytes_layout v = le_u64 (int (length v)) @ v"

lemma emits_bytes [emits_intros]: "emits (w_bytes v) (bytes_layout v)"
  by (auto simp: emits_def w_bytes_def w_u64_def raw_facts bytes_layout_def le_defs le_int_def)

definition string_layout :: "js_string \<Rightarrow> bytes" where
  "string_layout s = bytes_layout (text_encode s)"

lemma emits_string [emits_intros]: "emits (w_string s) (string_layout s)"
  by (simp add: w_string_def string_layout_def emits_bytes)

lemma emits_assertLen [emits_intros]: "length v = n \<Longrightarrow> emits (assertLen v n) []"
  by (simp add: emits_def assertLen_def)

lemma emits_Nil [emits_intros]: "emits (w_all []) []"
  by (simp add: emits_def)

lemma emits_Cons [emits_intros]:
  assumes "emits f bs" "emits (w_all fs) cs"
  shows "emits (w_all (f # fs)) (bs @ cs)"
  unfolding emits_def
proof (intro allI impI)
  fix w assume "writer_wf w"
  with assms(1) obtain w1 where 1: "f w = Inr w1" "writer_wf w1" "content w1 = content w @ bs"
    by (auto simp: emits_def)
  with assms(2) obtain w2 where
    "w_all fs w1 = Inr w2" "writer_wf w2" "content w2 = content w1 @ cs"
    by (auto simp: emits_def)
  with 1 show "\<exists>w'. w_all (f # fs) w = Inr w' \<and> writer_wf w' \<and> content w' = content w @ bs @ cs"
    by simp
qed

lemma emits_writeFixed [emits_intros]: "length v = n \<Longrightarrow> emits (writeFixed v n) v"
  using emits_Cons[OF emits_assertLen emits_Cons[OF emits_fixedBytes emits_Nil]]
  by (simp add: writeFixed_def)

lemma emits_eq: "emits f bs \<Longrightarrow> bs = cs \<Longrightarrow> emits f cs"
  by simp

lemma emits_map:
  assumes "\<And>x. x \<in> set xs \<Longrightarrow> emits (f x) (g x)"
  shows "emits (w_all (map f xs)) (concat (map g xs))"
  using assms by (induction xs) (auto intro!: emits_Nil emits_Cons)

definition optString_layout :: "js_string option \<Rightarrow> bytes" where
  "optString_layout v =
     (case v of None \<Rightarrow> le_u8 0 | Some s \<Rightarrow> le_u8 1 @ string_layout s)"

lemma emits_optString [emits_intros]: "emits (w_optString v) (optString_layout v)"
proof (cases v)
  case None
  then show ?thesis by (simp add: w_optString_def optString_layout_def emits_u8)
next
  case (Some s)
  have "emits (w_all [w_u8 1, w_string s]) (le_u8 1 @ string_layout s @ [])"
    by (intro emits_intros)
  then show ?thesis using Some by (simp add: w_optString_def optString_layout_def)
qed

lemma encode_with_emits: "emits f bs \<Longrightarrow> encode_with f = Inr (le_u8 PAYLOAD_VERSION @ bs)"
proof -
  assume "emits f bs"
  then have "emits (w_all [w_u8 PAYLOAD_VERSION, f]) (le_u8 PAYLOAD_VERSION @ bs @ [])"
    by (intro emits_intros)
  then show ?thesis
    unfolding emits_def encode_with_def
    using writer_wf_new w_finish_content by (metis append_Nil append_Nil2 rbind.simps(2))
qed

subsection \<open>What is read\<close>

definition at :: "bytes \<Rightarrow> bytes \<Rightarrow> reader" where
  "at pre rest = \<lparr>buf = pre @ rest, pos = length pre\<rparr>"

lemma pbind_simps [reader_simps]:
  "p r = Inr (x, r') \<Longrightarrow> pbind p k r = k x r'"
  "p r = Inl e \<Longrightarrow> pbind p k r = Inl e"
  by (simp_all add: pbind_def)

lemma preturn_simp [reader_simps]: "preturn x r = Inr (x, r)"
  by (simp add: preturn_def)

lemma pbind_Inr_iff:
  "pbind p k r = Inr (y, r'') \<longleftrightarrow> (\<exists>x r'. p r = Inr (x, r') \<and> k x r' = Inr (y, r''))"
  by (auto simp: pbind_def rbind_Inr_iff)

lemma pthrow_not_Inr [simp]: "pthrow c msg r \<noteq> Inr y"
  by (simp add: pthrow_def)

lemma r_le_at: "length bs = n \<Longrightarrow> r_le n (at pre (bs @ rest)) = Inr (int (le_value bs), at (pre @ bs) rest)"
  by (simp add: r_le_def r_ensure_def at_def)

lemma le_value_le_int:
  assumes "0 \<le> v" "v < 2 ^ (8 * n)"
  shows "int (le_value (le_int n v)) = v"
proof -
  have "nat v < 256 ^ n"
    using assms by (simp add: nat_less_iff power_mult)
  then show ?thesis
    using assms by (simp add: le_int_def le_value_le_bytes)
qed

lemma r_u8_at [reader_simps]:
  "0 \<le> v \<Longrightarrow> v < 256 \<Longrightarrow> r_u8 (at pre (le_u8 v @ rest)) = Inr (v, at (pre @ le_u8 v) rest)"
  by (simp add: r_u8_def r_le_at le_u8_def le_value_le_int)

lemma r_u16_at [reader_simps]:
  "0 \<le> v \<Longrightarrow> v < 2 ^ 16 \<Longrightarrow> r_u16 (at pre (le_u16 v @ rest)) = Inr (v, at (pre @ le_u16 v) rest)"
  by (simp add: r_u16_def r_le_at le_u16_def le_value_le_int)

lemma r_u32_at [reader_simps]:
  "0 \<le> v \<Longrightarrow> v < 2 ^ 32 \<Longrightarrow> r_u32 (at pre (le_u32 v @ rest)) = Inr (v, at (pre @ le_u32 v) rest)"
  by (simp add: r_u32_def r_le_at le_u32_def le_value_le_int)

lemma r_u64_at [reader_simps]:
  "0 \<le> v \<Longrightarrow> v < 2 ^ 64 \<Longrightarrow> r_u64 (at pre (le_u64 v @ rest)) = Inr (v, at (pre @ le_u64 v) rest)"
  by (simp add: r_u64_def r_le_at le_u64_def le_value_le_int)

lemma r_fixedBytes_at [reader_simps]:
  "length v = n \<Longrightarrow> r_fixedBytes n (at pre (v @ rest)) = Inr (v, at (pre @ v) rest)"
  by (simp add: r_fixedBytes_def r_ensure_def at_def)

definition bytes_ok :: "bytes \<Rightarrow> bool" where
  "bytes_ok d = (length d < 2 ^ 53)"

definition string_ok :: "js_string \<Rightarrow> bool" where
  "string_ok s = (well_formed s \<and> \<not> has_bom s \<and> bytes_ok (text_encode s))"

text \<open>ASCII literals are always transportable.\<close>

definition ascii :: "string \<Rightarrow> bool" where
  "ascii s = list_all (\<lambda>c. (of_char c :: nat) < 128) s"

lemma ascii_unit:
  assumes "(of_char c :: nat) < 128"
  shows "unat (word_of_nat (of_char c) :: code_unit) = of_char c"
  using assms by (intro unat_unit_of) simp

lemma ascii_well_formed: "ascii s \<Longrightarrow> well_formed (js_lit s)"
proof (induction s rule: induct_list012)
  case (3 x y zs)
  then show ?case
    by (auto simp: js_lit_def ascii_def ascii_unit is_high_def is_low_def)
qed (auto simp: js_lit_def ascii_def ascii_unit is_high_def is_low_def)

lemma ascii_usv: "ascii s \<Longrightarrow> usv (js_lit s) = map of_char s"
proof (induction s rule: induct_list012)
  case (3 x y zs)
  then show ?case
    by (auto simp: js_lit_def ascii_def ascii_unit is_high_def is_low_def)
qed (auto simp: js_lit_def ascii_def ascii_unit is_high_def is_low_def)

lemma ascii_text_encode: "ascii s \<Longrightarrow> text_encode (js_lit s) = map (\<lambda>c. byte_of (of_char c)) s"
  unfolding text_encode_def ascii_usv
  by (induction s) (auto simp: ascii_usv utf8_of_scalar_def ascii_def)

lemma ascii_string_ok: "ascii s \<Longrightarrow> length s < 2 ^ 53 \<Longrightarrow> string_ok (js_lit s)"
proof -
  assume s: "ascii s" "length s < 2 ^ 53"
  have "unat u \<noteq> 0xFEFF" if "js_lit s = u # us" for u us
    using that s(1) by (auto simp: js_lit_def ascii_def ascii_unit Cons_eq_map_conv)
  then have "\<not> has_bom (js_lit s)"
    by (cases "js_lit s") (auto simp: has_bom_def)
  with s show ?thesis
    by (simp add: string_ok_def ascii_well_formed bytes_ok_def ascii_text_encode)
qed

lemma r_bytes_at [reader_simps]:
  assumes "bytes_ok d"
  shows "r_bytes (at pre (bytes_layout d @ rest)) = Inr (d, at (pre @ bytes_layout d) rest)"
proof -
  have "length d < 2 ^ 53" using assms by (simp add: bytes_ok_def)
  then show ?thesis
    by (simp add: r_bytes_def bytes_layout_def reader_simps js_number_exact)
qed

lemma r_string_at [reader_simps]:
  "string_ok s \<Longrightarrow> r_string (at pre (string_layout s @ rest)) = Inr (s, at (pre @ string_layout s) rest)"
  by (simp add: r_string_def string_layout_def string_ok_def reader_simps text_decode_lossy_encode)

lemma r_optString_at [reader_simps]:
  "pred_option string_ok v \<Longrightarrow>
   r_optString (at pre (optString_layout v @ rest)) = Inr (v, at (pre @ optString_layout v) rest)"
  by (cases v) (simp_all add: r_optString_def optString_layout_def reader_simps)

definition bool_byte :: "bool \<Rightarrow> int" where
  "bool_byte b = (if b then 1 else 0)"

lemma bool_byte_range [simp]: "0 \<le> bool_byte b" "bool_byte b < 256" "\<not> 1 < bool_byte b"
  and bool_byte_eq_1 [simp]: "(bool_byte b = 1) = b" "(bool_byte b = 0) = (\<not> b)"
  by (simp_all add: bool_byte_def)

lemma r_bool_at [reader_simps]:
  "r_bool (at pre (le_u8 (bool_byte b) @ rest)) = Inr (b, at (pre @ le_u8 (bool_byte b)) rest)"
  by (simp add: r_bool_def reader_simps)

lemma r_option_None_at [reader_simps]:
  "r_option p (at pre (le_u8 0 @ rest)) = Inr (None, at (pre @ le_u8 0) rest)"
  by (simp add: r_option_def reader_simps)

lemma r_option_Some_at [reader_simps]:
  "p (at (pre @ le_u8 1) rest) = Inr (x, r') \<Longrightarrow>
   r_option p (at pre (le_u8 1 @ rest)) = Inr (Some x, r')"
  by (simp add: r_option_def reader_simps)

lemma r_expectEnd_at [reader_simps]: "r_expectEnd (at pre []) = Inr ((), at pre [])"
  by (simp add: r_expectEnd_def at_def)

lemma r_expectEnd_Inr: "r_expectEnd r = Inr (u, r') \<longleftrightarrow> pos r = length (buf r) \<and> r' = r"
  by (auto simp: r_expectEnd_def split: if_splits)

lemma decode_with_at: "decode_with p (le_u8 PAYLOAD_VERSION @ bs) =
    rbind (p (at (le_u8 PAYLOAD_VERSION) bs)) (\<lambda>(x, _). Inr x)"
proof -
  have one: "le_u8 PAYLOAD_VERSION = [1]"
    by (simp add: le_u8_def le_int_def PAYLOAD_VERSION_def)
  then have "checkVersion (le_u8 PAYLOAD_VERSION @ bs) = Inr ()"
    by (simp add: checkVersion_def PAYLOAD_VERSION_def)
  then show ?thesis
    by (simp add: decode_with_def at_def one)
qed

text \<open>A length prefix that exceeds the bytes left is refused, however large it is.\<close>

lemma r_bytes_overlong:
  assumes "pos r + 8 \<le> length (buf r)"
    and "length (buf r) < pos r + 8 + le_value (take 8 (drop (pos r) (buf r)))"
    and "length (buf r) < 2 ^ 53"
  shows "r_bytes r = throw DecryptionFailed ''Unexpected end of payload''"
proof -
  let ?n = "le_value (take 8 (drop (pos r) (buf r)))"
  have "length (buf r) < pos r + 8 + js_number ?n"
  proof (cases "?n < 2 ^ 53")
    case True
    then show ?thesis using assms(2) by (simp add: js_number_exact)
  next
    case False
    then have "2 ^ 53 \<le> js_number ?n" by (intro js_number_large) simp
    then show ?thesis using assms(3) by linarith
  qed
  then show ?thesis
    using assms(1) by (simp add: r_bytes_def pbind_def r_u64_def r_le_def r_ensure_def guard_def r_fixedBytes_def)
qed

text \<open>Reads stay inside the buffer and only move forward.\<close>

definition within :: "'a reading \<Rightarrow> bool" where
  "within p = (\<forall>r x r'. p r = Inr (x, r') \<longrightarrow> pos r \<le> length (buf r) \<longrightarrow>
     buf r' = buf r \<and> pos r \<le> pos r' \<and> pos r' \<le> length (buf r))"

lemma within_le: "within (r_le n)"
  by (auto simp: within_def r_le_def r_ensure_def result_iffs)

lemma within_ints [intro!]: "within r_u8" "within r_u16" "within r_u32" "within r_u64"
  by (simp_all add: r_u8_def r_u16_def r_u32_def r_u64_def within_le)

lemma within_fixedBytes [intro!]: "within (r_fixedBytes n)"
  by (auto simp: within_def r_fixedBytes_def r_ensure_def result_iffs)

lemma within_bind [intro!]:
  assumes "within p" and "\<And>x. within (k x)"
  shows "within (pbind p k)"
  unfolding within_def
proof (intro allI impI)
  fix r y r'' assume run: "pbind p k r = Inr (y, r'')" and le: "pos r \<le> length (buf r)"
  then obtain x r' where p: "p r = Inr (x, r')" and k: "k x r' = Inr (y, r'')"
    by (auto simp: pbind_Inr_iff)
  from assms(1) p le have 1: "buf r' = buf r" "pos r \<le> pos r'" "pos r' \<le> length (buf r)"
    unfolding within_def by blast+
  with assms(2)[of x] k have "buf r'' = buf r' \<and> pos r' \<le> pos r'' \<and> pos r'' \<le> length (buf r')"
    unfolding within_def by metis
  with 1 show "buf r'' = buf r \<and> pos r \<le> pos r'' \<and> pos r'' \<le> length (buf r)" by simp
qed

lemma within_return [intro!]: "within (preturn x)"
  by (simp add: within_def preturn_def)

lemma within_throw [intro!]: "within (pthrow c m)"
  by (simp add: within_def)

lemma within_expectEnd [intro!]: "within r_expectEnd"
  by (auto simp: within_def r_expectEnd_Inr)

lemma within_if [intro!]: "within p \<Longrightarrow> within q \<Longrightarrow> within (if b then p else q)"
  by simp

lemma within_composites [intro!]: "within r_bytes" "within r_string" "within r_optString" "within r_bool"
  unfolding r_bytes_def r_string_def r_optString_def r_bool_def by (intro within_bind within_if) auto

lemma within_option [intro!]: "within p \<Longrightarrow> within (r_option p)"
  unfolding r_option_def by auto

subsection \<open>Inverting a successful read\<close>

text \<open>
  What a successful read says about the bytes it consumed. With these rules a successful run of
  a decoder is turned into the layout of its result.
\<close>

named_theorems parse_iffs \<open>inversion of the read methods\<close>

lemma le_int_le_value: "length bs = n \<Longrightarrow> le_int n (int (le_value bs)) = bs"
proof -
  assume n: "length bs = n"
  have "le_value bs < 256 ^ n" using le_value_less[of bs] n by simp
  then have "int (le_value bs) < 2 ^ (8 * n)" using of_nat_less_iff[of "le_value bs" "256 ^ n", where 'a = int] by (simp add: power_mult)
  then have "nat (int (le_value bs) mod 2 ^ (8 * n)) = le_value bs" by simp
  then show ?thesis using le_bytes_le_value[of bs] n by (simp add: le_int_def)
qed

lemma take_parse:
  assumes "n \<le> length bs"
  shows "bs = take n bs @ drop n bs"
    and "\<lparr>buf = pre @ bs, pos = length pre + n\<rparr> = at (pre @ take n bs) (drop n bs)"
  using assms by (simp_all add: at_def)

lemma le_value_lt_take: "n \<le> length bs \<Longrightarrow> int (le_value (take n bs)) < 2 ^ (8 * n)"
proof -
  assume n: "n \<le> length bs"
  have "le_value (take n bs) < 256 ^ n" using le_value_less[of "take n bs"] n by (simp add: min_absorb2)
  then have "int (le_value (take n bs)) < int (256 ^ n)" by (rule iffD2[OF of_nat_less_iff])
  then show ?thesis by (simp add: power_mult)
qed

lemma r_le_inv:
  "r_le n (at pre bs) = Inr (v, r') \<longleftrightarrow>
     (\<exists>rest. bs = le_int n v @ rest \<and> 0 \<le> v \<and> v < 2 ^ (8 * n) \<and> r' = at (pre @ le_int n v) rest)"
proof
  assume run: "r_le n (at pre bs) = Inr (v, r')"
  then have n: "n \<le> length bs" and v: "v = int (le_value (take n bs))"
      and r': "r' = \<lparr>buf = pre @ bs, pos = length pre + n\<rparr>"
    by (auto simp: r_le_def r_ensure_def at_def result_iffs)
  have "le_int n v = take n bs"
    unfolding v using n by (intro le_int_le_value) simp
  then show "\<exists>rest. bs = le_int n v @ rest \<and> 0 \<le> v \<and> v < 2 ^ (8 * n) \<and> r' = at (pre @ le_int n v) rest"
    using take_parse[OF n] r' v le_value_lt_take[OF n] by (intro exI[of _ "drop n bs"]) simp
next
  assume "\<exists>rest. bs = le_int n v @ rest \<and> 0 \<le> v \<and> v < 2 ^ (8 * n) \<and> r' = at (pre @ le_int n v) rest"
  then show "r_le n (at pre bs) = Inr (v, r')"
    by (auto simp: r_le_at le_value_le_int)
qed

lemma r_ints_inv [parse_iffs]:
  "r_u8 (at pre bs) = Inr (v, r') \<longleftrightarrow>
     (\<exists>rest. bs = le_u8 v @ rest \<and> 0 \<le> v \<and> v < 256 \<and> r' = at (pre @ le_u8 v) rest)"
  "r_u16 (at pre bs) = Inr (v, r') \<longleftrightarrow>
     (\<exists>rest. bs = le_u16 v @ rest \<and> 0 \<le> v \<and> v < 2 ^ 16 \<and> r' = at (pre @ le_u16 v) rest)"
  "r_u32 (at pre bs) = Inr (v, r') \<longleftrightarrow>
     (\<exists>rest. bs = le_u32 v @ rest \<and> 0 \<le> v \<and> v < 2 ^ 32 \<and> r' = at (pre @ le_u32 v) rest)"
  "r_u64 (at pre bs) = Inr (v, r') \<longleftrightarrow>
     (\<exists>rest. bs = le_u64 v @ rest \<and> 0 \<le> v \<and> v < 2 ^ 64 \<and> r' = at (pre @ le_u64 v) rest)"
  by (simp_all add: r_u8_def r_u16_def r_u32_def r_u64_def r_le_inv le_defs)

lemma r_fixedBytes_inv [parse_iffs]:
  "r_fixedBytes n (at pre bs) = Inr (v, r') \<longleftrightarrow>
     (\<exists>rest. bs = v @ rest \<and> length v = n \<and> r' = at (pre @ v) rest)"
proof
  assume run: "r_fixedBytes n (at pre bs) = Inr (v, r')"
  then have n: "n \<le> length bs" and "v = take n bs"
      and "r' = \<lparr>buf = pre @ bs, pos = length pre + n\<rparr>"
    by (auto simp: r_fixedBytes_def r_ensure_def at_def result_iffs)
  then show "\<exists>rest. bs = v @ rest \<and> length v = n \<and> r' = at (pre @ v) rest"
    using take_parse[OF n] by (intro exI[of _ "drop n bs"]) simp
next
  assume "\<exists>rest. bs = v @ rest \<and> length v = n \<and> r' = at (pre @ v) rest"
  then show "r_fixedBytes n (at pre bs) = Inr (v, r')"
    by (auto simp: r_fixedBytes_at)
qed

lemma r_bytes_inv:
  assumes small: "length pre + length bs < 2 ^ 53" and run: "r_bytes (at pre bs) = Inr (v, r')"
  obtains rest where "bs = bytes_layout v @ rest" "r' = at (pre @ bytes_layout v) rest"
proof -
  from run obtain len rest where len: "bs = le_u64 len @ v @ rest" "0 \<le> len" "js_number (nat len) = length v"
      and r': "r' = at (pre @ le_u64 len @ v) rest"
    by (auto simp: r_bytes_def pbind_Inr_iff parse_iffs)
  have "nat len < 2 ^ 53"
  proof (rule ccontr)
    assume "\<not> nat len < 2 ^ 53"
    then have "2 ^ 53 \<le> js_number (nat len)" by (intro js_number_large) simp
    then show False using len small by simp
  qed
  then have "len = int (length v)" using len js_number_exact[of "nat len"] by simp
  then show thesis using that[of rest] len(1) r' by (simp add: bytes_layout_def)
qed

lemma r_bool_inv [parse_iffs]:
  "r_bool (at pre bs) = Inr (b, r') \<longleftrightarrow>
     (\<exists>rest. bs = le_u8 (bool_byte b) @ rest \<and> r' = at (pre @ le_u8 (bool_byte b)) rest)"
proof
  assume "r_bool (at pre bs) = Inr (b, r')"
  then obtain v rest where v: "bs = le_u8 v @ rest" "0 \<le> v" "\<not> 1 < v" "b = (v = 1)"
      "r' = at (pre @ le_u8 v) rest"
    by (auto simp: r_bool_def pbind_Inr_iff parse_iffs preturn_def split: if_splits)
  then have "bool_byte b = v" by (auto simp: bool_byte_def)
  with v(1,5) show "\<exists>rest. bs = le_u8 (bool_byte b) @ rest \<and> r' = at (pre @ le_u8 (bool_byte b)) rest"
    by simp
qed (auto simp: r_bool_at)

lemma r_expectEnd_inv [parse_iffs]: "r_expectEnd (at pre bs) = Inr (u, r') \<longleftrightarrow> bs = [] \<and> r' = at pre bs"
  by (auto simp: r_expectEnd_Inr at_def)

lemma decode_with_Inr:
  assumes "decode_with p bs = Inr x"
  obtains rest r' where "bs = le_u8 PAYLOAD_VERSION @ rest" "p (at (le_u8 PAYLOAD_VERSION) rest) = Inr (x, r')"
proof -
  have one: "le_u8 PAYLOAD_VERSION = [1]"
    by (simp add: le_u8_def le_int_def PAYLOAD_VERSION_def)
  obtain ver rest where bs: "bs = ver # rest" and ver: "uint ver = 1"
    using assms by (auto simp: decode_with_def checkVersion_def PAYLOAD_VERSION_def split: list.splits if_splits)
  have "ver = 1" using ver by (metis unsigned_1 unsigned_word_eqI)
  then have "bs = le_u8 PAYLOAD_VERSION @ rest"
    by (simp add: one bs)
  with assms that show thesis
    by (auto simp: decode_with_at rbind_Inr_iff)
qed

subsection \<open>The contract of a message format\<close>

locale wire_codec =
  fixes wr :: "'a \<Rightarrow> writing"
    and rd :: "'a reading"
    and layout :: "'a \<Rightarrow> bytes"
    and valid :: "'a \<Rightarrow> bool"
  assumes write_emits: "valid x \<Longrightarrow> emits (wr x) (layout x)"
    and read_layout: "valid x \<Longrightarrow> rd (at pre (layout x @ rest)) = Inr (x, at (pre @ layout x) rest)"
begin

lemma encode_layout: "valid x \<Longrightarrow> encode_with (wr x) = Inr (le_u8 PAYLOAD_VERSION @ layout x)"
  by (rule encode_with_emits) (rule write_emits)

lemma decode_layout: "valid x \<Longrightarrow> decode_with rd (le_u8 PAYLOAD_VERSION @ layout x @ rest) = Inr x"
  by (simp add: decode_with_at read_layout)

lemma round_trip: "valid x \<Longrightarrow> rbind (encode_with (wr x)) (decode_with rd) = Inr x"
  using decode_layout[of x "[]"] by (simp add: encode_layout)

lemma round_trip_strict:
  "valid x \<Longrightarrow> rbind (encode_with (wr x))
     (decode_with (pbind rd (\<lambda>y. pbind r_expectEnd (\<lambda>_. preturn y)))) = Inr x"
  using read_layout[of x "le_u8 PAYLOAD_VERSION" "[]"]
  by (simp add: encode_layout decode_with_at reader_simps)

lemma strict_rejects_trailing:
  "valid x \<Longrightarrow> rest \<noteq> [] \<Longrightarrow>
   decode_with (pbind rd (\<lambda>y. pbind r_expectEnd (\<lambda>_. preturn y)))
     (le_u8 PAYLOAD_VERSION @ layout x @ rest) = throw DecryptionFailed ''trailing bytes''"
  by (simp add: decode_with_at reader_simps read_layout) (simp add: pbind_def r_expectEnd_def at_def)

lemma prefix_free:
  assumes "valid x" "valid y" "layout x @ xs = layout y @ ys"
  shows "x = y \<and> xs = ys"
proof -
  have "rd (at [] (layout x @ xs)) = Inr (x, at (layout x) xs)"
    using read_layout[OF assms(1), of "[]"] by simp
  moreover have "rd (at [] (layout x @ xs)) = Inr (y, at (layout y) ys)"
    using read_layout[OF assms(2), of "[]"] assms(3) by simp
  ultimately show ?thesis using assms(3) by simp
qed

end

end
