(* ===== verification/Bincode_Messages.thy ===== *)
theory Bincode_Messages
  imports Bincode_Codec Utils
begin

section \<open>Relayer payloads and service requests\<close>

text \<open>
  The two request unions of \<open>packages/nox-client/src/bincode.ts\<close>: \<open>RelayerPayload\<close> (what travels
  in a Sphinx packet) and \<open>ServiceRequest\<close> (what the exit executes), with their writers, readers,
  \<open>encodeRelayerPayload\<close>, \<open>decodeRelayerPayload\<close>, \<open>encodeServiceRequest\<close> and
  \<open>decodeServiceRequest\<close>. SURBs are opaque blobs written without a length prefix, so the readers
  refuse a non-empty SURB list. For each union a layout function states the byte format on its
  own; the locale \<open>wire_codec\<close> is interpreted on the code's writer and reader.
\<close>

subsection \<open>Fragments\<close>

definition writeFragmentWire :: "fragment \<Rightarrow> writing" where
  "writeFragmentWire f = w_all
     [w_u64 (messageId f), w_u32 (totalFragments f), w_u32 (sequence f), w_bytes (data f),
      (case fec f of None \<Rightarrow> w_u8 0
       | Some i \<Rightarrow> w_all [w_u8 1, w_u32 (dataShardCount i), w_u64 (originalDataLen i)])]"

definition readFragmentWire :: "fragment reading" where
  "readFragmentWire =
     pbind r_u64 (\<lambda>mid. pbind r_u32 (\<lambda>total. pbind r_u32 (\<lambda>seq. pbind r_bytes (\<lambda>d.
     pbind r_u8 (\<lambda>fecTag.
     pbind (if fecTag = 1 then
              pbind r_u32 (\<lambda>n. pbind r_u64 (\<lambda>len.
                preturn (Some \<lparr>dataShardCount = n, originalDataLen = int (js_number (nat len))\<rparr>)))
            else preturn None)
       (\<lambda>info. preturn \<lparr>messageId = mid, totalFragments = total, sequence = seq, data = d,
                        fec = info\<rparr>))))))"

subsection \<open>\<open>RelayerPayload\<close>\<close>

datatype relayer_payload =
    RelayerSubmitTransaction bytes bytes
  | Dummy bytes
  | Heartbeat int int
  | Fragment fragment
  | AnonymousRequest bytes "bytes list"
  | ServiceResponse int fragment
  | NeedMoreSurbs int int

definition writeSurbOpaque :: "bytes \<Rightarrow> writing" where
  "writeSurbOpaque surb = w_fixedBytes surb"

fun writeRelayerPayload :: "relayer_payload \<Rightarrow> writing" where
  "writeRelayerPayload (RelayerSubmitTransaction to_addr d) =
     w_all [w_u32 0, assertLen to_addr 20, w_fixedBytes to_addr, w_bytes d]"
| "writeRelayerPayload (Dummy padding) = w_all [w_u32 1, w_bytes padding]"
| "writeRelayerPayload (Heartbeat i timestamp) = w_all [w_u32 2, w_u64 i, w_u64 timestamp]"
| "writeRelayerPayload (Fragment frag) = w_all [w_u32 3, writeFragmentWire frag]"
| "writeRelayerPayload (AnonymousRequest inner replySurbs) =
     w_all ([w_u32 4, w_bytes inner, w_u64 (int (length replySurbs))]
            @ map writeSurbOpaque replySurbs)"
| "writeRelayerPayload (ServiceResponse requestId frag) =
     w_all [w_u32 5, w_u64 requestId, writeFragmentWire frag]"
| "writeRelayerPayload (NeedMoreSurbs requestId fragmentsRemaining) =
     w_all [w_u32 6, w_u64 requestId, w_u32 fragmentsRemaining]"

definition readRelayerPayload :: "relayer_payload reading" where
  "readRelayerPayload = pbind r_u32 (\<lambda>variant.
     if variant = 0 then
       pbind (r_fixedBytes 20) (\<lambda>t. pbind r_bytes (\<lambda>d. preturn (RelayerSubmitTransaction t d)))
     else if variant = 1 then pbind r_bytes (\<lambda>p. preturn (Dummy p))
     else if variant = 2 then pbind r_u64 (\<lambda>i. pbind r_u64 (\<lambda>t. preturn (Heartbeat i t)))
     else if variant = 3 then pbind readFragmentWire (\<lambda>f. preturn (Fragment f))
     else if variant = 4 then
       pbind r_bytes (\<lambda>inner. pbind r_u64 (\<lambda>n.
         if js_number (nat n) > 0
         then pthrow DecryptionFailed ''Cannot decode AnonymousRequest with non-empty reply_surbs''
         else preturn (AnonymousRequest inner [])))
     else if variant = 5 then
       pbind r_u64 (\<lambda>i. pbind readFragmentWire (\<lambda>f. preturn (ServiceResponse i f)))
     else if variant = 6 then
       pbind r_u64 (\<lambda>i. pbind r_u32 (\<lambda>n. preturn (NeedMoreSurbs i n)))
     else pthrow DecryptionFailed ''Unknown RelayerPayload variant index'')"

definition encodeRelayerPayload :: "relayer_payload \<Rightarrow> bytes result" where
  "encodeRelayerPayload payload = encode_with (writeRelayerPayload payload)"

definition decodeRelayerPayload :: "bytes \<Rightarrow> relayer_payload result" where
  "decodeRelayerPayload bs = decode_with readRelayerPayload bs"

subsection \<open>\<open>ServiceRequest\<close>\<close>

record paid_transaction_request =
  ptr_chainId :: int
  ptr_entryPoint :: bytes
  ptr_calldata :: bytes
  ptr_executionId :: bytes
  ptr_validUntilUnix :: int

record paid_quote_request =
  pqr_chainId :: int
  pqr_entryPoint :: bytes
  pqr_clientIntentId :: bytes
  pqr_paymentAdapter :: bytes
  pqr_paymentId :: bytes
  pqr_feeAsset :: bytes
  pqr_paymentGasLimit :: int
  pqr_actionTarget :: bytes
  pqr_actionCalldataHash :: bytes
  pqr_actionGasLimit :: int
  pqr_trackedAssetsHash :: bytes
  pqr_maximumTransactionGas :: int
  pqr_returnDataLimit :: int
  pqr_validUntilUnix :: int

record tunnel_open =
  open_host :: js_string
  open_port :: int

record tunnel_request =
  tunnelId :: bytes
  tun_seq :: int
  tun_open :: "tunnel_open option"
  ackOffset :: int
  tun_data :: bytes
  tun_close :: bool
  holdMs :: int

datatype service_request =
    Echo bytes
  | HttpRequest js_string js_string "(js_string \<times> js_string) list" bytes
  | RpcRequest js_string bytes int "js_string option"
  | SubmitTransaction bytes bytes
  | BroadcastSignedTransaction bytes "js_string option" "js_string option"
  | ReplenishSurbs int "bytes list"
  | PaidTransactionV2 paid_transaction_request
  | PaidQuoteRequestV2 paid_quote_request
  | TunnelV1 tunnel_request

definition TUNNEL_ID_LEN :: nat where
  "TUNNEL_ID_LEN = 16"

definition check_open_seq :: "tunnel_request \<Rightarrow> writing" where
  "check_open_seq t w =
     (if (tun_open t \<noteq> None) \<noteq> (tun_seq t = 0)
      then throw PacketBuildFailed ''Invalid TunnelV1 request: open must be present exactly when seq is 0''
      else Inr w)"

fun writeServiceRequest :: "service_request \<Rightarrow> writing" where
  "writeServiceRequest (Echo d) = w_all [w_u32 0, w_bytes d]"
| "writeServiceRequest (HttpRequest meth url headers body) =
     w_all ([w_u32 1, w_string meth, w_string url, w_u64 (int (length headers))]
            @ map (\<lambda>(k, v). w_all [w_string k, w_string v]) headers @ [w_bytes body])"
| "writeServiceRequest (RpcRequest meth params i rpcUrl) =
     w_all [w_u32 2, w_string meth, w_bytes params, w_u64 i, w_optString rpcUrl]"
| "writeServiceRequest (SubmitTransaction to_addr d) =
     w_all [w_u32 3, assertLen to_addr 20, w_fixedBytes to_addr, w_bytes d]"
| "writeServiceRequest (BroadcastSignedTransaction signedTx rpcUrl rpcMethod) =
     w_all [w_u32 4, w_bytes signedTx, w_optString rpcUrl, w_optString rpcMethod]"
| "writeServiceRequest (ReplenishSurbs requestId surbs) =
     w_all ([w_u32 5, w_u64 requestId, w_u64 (int (length surbs))] @ map writeSurbOpaque surbs)"
| "writeServiceRequest (PaidTransactionV2 q) =
     w_all [w_u32 6, w_u64 (ptr_chainId q), assertLen (ptr_entryPoint q) 20,
            w_fixedBytes (ptr_entryPoint q), w_bytes (ptr_calldata q),
            assertLen (ptr_executionId q) 32, w_fixedBytes (ptr_executionId q),
            w_u64 (ptr_validUntilUnix q)]"
| "writeServiceRequest (PaidQuoteRequestV2 q) =
     w_all [w_u32 7, w_u64 (pqr_chainId q), writeFixed (pqr_entryPoint q) 20,
            writeFixed (pqr_clientIntentId q) 32, writeFixed (pqr_paymentAdapter q) 20,
            writeFixed (pqr_paymentId q) 32, writeFixed (pqr_feeAsset q) 20,
            w_u64 (pqr_paymentGasLimit q), writeFixed (pqr_actionTarget q) 20,
            writeFixed (pqr_actionCalldataHash q) 32, w_u64 (pqr_actionGasLimit q),
            writeFixed (pqr_trackedAssetsHash q) 32, w_u64 (pqr_maximumTransactionGas q),
            w_u32 (pqr_returnDataLimit q), w_u64 (pqr_validUntilUnix q)]"
| "writeServiceRequest (TunnelV1 t) =
     w_all [w_u32 8, writeFixed (tunnelId t) TUNNEL_ID_LEN, w_u32 (tun_seq t), check_open_seq t,
            (case tun_open t of None \<Rightarrow> w_u8 0
             | Some opn \<Rightarrow> w_all [w_u8 1, w_string (open_host opn), w_u16 (open_port opn)]),
            w_u64 (ackOffset t), w_bytes (tun_data t), w_u8 (if tun_close t then 1 else 0),
            w_u32 (holdMs t)]"

text \<open>The header loop runs \<open>headerCount\<close> times or until a read fails.\<close>

fun readHeaders :: "nat \<Rightarrow> (js_string \<times> js_string) list reading" where
  "readHeaders 0 r = preturn [] r"
| "readHeaders (Suc n) r =
     pbind r_string (\<lambda>k. pbind r_string (\<lambda>v. pbind (readHeaders n) (\<lambda>hs. preturn ((k, v) # hs)))) r"

definition readPaidTransactionV2 :: "paid_transaction_request reading" where
  "readPaidTransactionV2 =
     pbind r_u64 (\<lambda>a. pbind (r_fixedBytes 20) (\<lambda>b. pbind r_bytes (\<lambda>c. pbind (r_fixedBytes 32) (\<lambda>d.
     pbind r_u64 (\<lambda>e. preturn \<lparr>ptr_chainId = a, ptr_entryPoint = b, ptr_calldata = c,
       ptr_executionId = d, ptr_validUntilUnix = e\<rparr>)))))"

definition readPaidQuoteRequestV2 :: "paid_quote_request reading" where
  "readPaidQuoteRequestV2 =
     pbind r_u64 (\<lambda>a. pbind (r_fixedBytes 20) (\<lambda>b. pbind (r_fixedBytes 32) (\<lambda>c.
     pbind (r_fixedBytes 20) (\<lambda>d. pbind (r_fixedBytes 32) (\<lambda>e. pbind (r_fixedBytes 20) (\<lambda>f.
     pbind r_u64 (\<lambda>g. pbind (r_fixedBytes 20) (\<lambda>h. pbind (r_fixedBytes 32) (\<lambda>i.
     pbind r_u64 (\<lambda>j. pbind (r_fixedBytes 32) (\<lambda>k. pbind r_u64 (\<lambda>l. pbind r_u32 (\<lambda>m.
     pbind r_u64 (\<lambda>n. preturn \<lparr>pqr_chainId = a, pqr_entryPoint = b, pqr_clientIntentId = c,
       pqr_paymentAdapter = d, pqr_paymentId = e, pqr_feeAsset = f, pqr_paymentGasLimit = g,
       pqr_actionTarget = h, pqr_actionCalldataHash = i, pqr_actionGasLimit = j,
       pqr_trackedAssetsHash = k, pqr_maximumTransactionGas = l, pqr_returnDataLimit = m,
       pqr_validUntilUnix = n\<rparr>))))))))))))))"

definition readTunnelV1 :: "tunnel_request reading" where
  "readTunnelV1 =
     pbind (r_fixedBytes TUNNEL_ID_LEN) (\<lambda>tid. pbind r_u32 (\<lambda>seq.
     pbind (r_option (pbind r_string (\<lambda>h. pbind r_u16 (\<lambda>p.
              preturn \<lparr>open_host = h, open_port = p\<rparr>)))) (\<lambda>opn.
     pbind r_u64 (\<lambda>ack. pbind r_bytes (\<lambda>d. pbind r_bool (\<lambda>cl. pbind r_u32 (\<lambda>hold.
     preturn \<lparr>tunnelId = tid, tun_seq = seq, tun_open = opn, ackOffset = ack, tun_data = d,
              tun_close = cl, holdMs = hold\<rparr>)))))))"

definition readServiceRequest :: "service_request reading" where
  "readServiceRequest = pbind r_u32 (\<lambda>variant.
     if variant = 0 then pbind r_bytes (\<lambda>d. preturn (Echo d))
     else if variant = 1 then
       pbind r_string (\<lambda>m. pbind r_string (\<lambda>u. pbind r_u64 (\<lambda>n.
       pbind (readHeaders (js_number (nat n))) (\<lambda>hs. pbind r_bytes (\<lambda>b.
       preturn (HttpRequest m u hs b))))))
     else if variant = 2 then
       pbind r_string (\<lambda>m. pbind r_bytes (\<lambda>p. pbind r_u64 (\<lambda>i. pbind r_optString (\<lambda>u.
       preturn (RpcRequest m p i u)))))
     else if variant = 3 then
       pbind (r_fixedBytes 20) (\<lambda>t. pbind r_bytes (\<lambda>d. preturn (SubmitTransaction t d)))
     else if variant = 4 then
       pbind r_bytes (\<lambda>tx. pbind r_optString (\<lambda>u. pbind r_optString (\<lambda>m.
       preturn (BroadcastSignedTransaction tx u m))))
     else if variant = 5 then
       pbind r_u64 (\<lambda>i. pbind r_u64 (\<lambda>n.
         if js_number (nat n) > 0
         then pthrow DecryptionFailed ''Cannot decode ReplenishSurbs with non-empty surbs''
         else preturn (ReplenishSurbs i [])))
     else if variant = 6 then pbind readPaidTransactionV2 (\<lambda>q. preturn (PaidTransactionV2 q))
     else if variant = 7 then pbind readPaidQuoteRequestV2 (\<lambda>q. preturn (PaidQuoteRequestV2 q))
     else if variant = 8 then pbind readTunnelV1 (\<lambda>t. preturn (TunnelV1 t))
     else pthrow DecryptionFailed ''Unknown ServiceRequest variant index'')"

definition encodeServiceRequest :: "service_request \<Rightarrow> bytes result" where
  "encodeServiceRequest req = encode_with (writeServiceRequest req)"

definition decodeServiceRequest :: "bytes \<Rightarrow> service_request result" where
  "decodeServiceRequest bs =
     decode_with (pbind readServiceRequest (\<lambda>q. pbind r_expectEnd (\<lambda>_. preturn q))) bs"

subsection \<open>Layouts\<close>

definition u16_ok :: "int \<Rightarrow> bool" where
  "u16_ok v = (0 \<le> v \<and> v < 2 ^ 16)"

definition u32_ok :: "int \<Rightarrow> bool" where
  "u32_ok v = (0 \<le> v \<and> v < 2 ^ 32)"

definition u64_ok :: "int \<Rightarrow> bool" where
  "u64_ok v = (0 \<le> v \<and> v < 2 ^ 64)"

definition fec_ok :: "fec_info \<Rightarrow> bool" where
  "fec_ok i = (u32_ok (dataShardCount i) \<and> 0 \<le> originalDataLen i \<and> originalDataLen i < 2 ^ 53)"

definition fragment_ok :: "fragment \<Rightarrow> bool" where
  "fragment_ok f = (u64_ok (messageId f) \<and> u32_ok (totalFragments f) \<and> u32_ok (sequence f)
     \<and> bytes_ok (data f) \<and> pred_option fec_ok (fec f))"

definition fec_layout :: "fec_info option \<Rightarrow> bytes" where
  "fec_layout x = (case x of None \<Rightarrow> le_u8 0
     | Some i \<Rightarrow> le_u8 1 @ le_u32 (dataShardCount i) @ le_u64 (originalDataLen i))"

definition fragment_layout :: "fragment \<Rightarrow> bytes" where
  "fragment_layout f = le_u64 (messageId f) @ le_u32 (totalFragments f) @ le_u32 (sequence f)
     @ bytes_layout (data f) @ fec_layout (fec f)"

fun payload_layout :: "relayer_payload \<Rightarrow> bytes" where
  "payload_layout (RelayerSubmitTransaction t d) = le_u32 0 @ t @ bytes_layout d"
| "payload_layout (Dummy p) = le_u32 1 @ bytes_layout p"
| "payload_layout (Heartbeat i t) = le_u32 2 @ le_u64 i @ le_u64 t"
| "payload_layout (Fragment f) = le_u32 3 @ fragment_layout f"
| "payload_layout (AnonymousRequest inner surbs) =
     le_u32 4 @ bytes_layout inner @ le_u64 (int (length surbs)) @ concat surbs"
| "payload_layout (ServiceResponse i f) = le_u32 5 @ le_u64 i @ fragment_layout f"
| "payload_layout (NeedMoreSurbs i n) = le_u32 6 @ le_u64 i @ le_u32 n"

fun payload_encodable :: "relayer_payload \<Rightarrow> bool" where
  "payload_encodable (RelayerSubmitTransaction t d) = (length t = 20)"
| "payload_encodable _ = True"

fun payload_ok :: "relayer_payload \<Rightarrow> bool" where
  "payload_ok (RelayerSubmitTransaction t d) = (length t = 20 \<and> bytes_ok d)"
| "payload_ok (Dummy p) = bytes_ok p"
| "payload_ok (Heartbeat i t) = (u64_ok i \<and> u64_ok t)"
| "payload_ok (Fragment f) = fragment_ok f"
| "payload_ok (AnonymousRequest inner surbs) = (bytes_ok inner \<and> surbs = [])"
| "payload_ok (ServiceResponse i f) = (u64_ok i \<and> fragment_ok f)"
| "payload_ok (NeedMoreSurbs i n) = (u64_ok i \<and> u32_ok n)"

definition header_layout :: "js_string \<times> js_string \<Rightarrow> bytes" where
  "header_layout h = string_layout (fst h) @ string_layout (snd h)"

definition open_layout :: "tunnel_open option \<Rightarrow> bytes" where
  "open_layout x = (case x of None \<Rightarrow> le_u8 0
     | Some opn \<Rightarrow> le_u8 1 @ string_layout (open_host opn) @ le_u16 (open_port opn))"

fun request_layout :: "service_request \<Rightarrow> bytes" where
  "request_layout (Echo d) = le_u32 0 @ bytes_layout d"
| "request_layout (HttpRequest m u hs b) = le_u32 1 @ string_layout m @ string_layout u
     @ le_u64 (int (length hs)) @ concat (map header_layout hs) @ bytes_layout b"
| "request_layout (RpcRequest m p i u) =
     le_u32 2 @ string_layout m @ bytes_layout p @ le_u64 i @ optString_layout u"
| "request_layout (SubmitTransaction t d) = le_u32 3 @ t @ bytes_layout d"
| "request_layout (BroadcastSignedTransaction tx u m) =
     le_u32 4 @ bytes_layout tx @ optString_layout u @ optString_layout m"
| "request_layout (ReplenishSurbs i surbs) =
     le_u32 5 @ le_u64 i @ le_u64 (int (length surbs)) @ concat surbs"
| "request_layout (PaidTransactionV2 q) =
     le_u32 6 @ le_u64 (ptr_chainId q) @ ptr_entryPoint q @ bytes_layout (ptr_calldata q)
     @ ptr_executionId q @ le_u64 (ptr_validUntilUnix q)"
| "request_layout (PaidQuoteRequestV2 q) =
     le_u32 7 @ le_u64 (pqr_chainId q) @ pqr_entryPoint q @ pqr_clientIntentId q
     @ pqr_paymentAdapter q @ pqr_paymentId q @ pqr_feeAsset q @ le_u64 (pqr_paymentGasLimit q)
     @ pqr_actionTarget q @ pqr_actionCalldataHash q @ le_u64 (pqr_actionGasLimit q)
     @ pqr_trackedAssetsHash q @ le_u64 (pqr_maximumTransactionGas q)
     @ le_u32 (pqr_returnDataLimit q) @ le_u64 (pqr_validUntilUnix q)"
| "request_layout (TunnelV1 t) =
     le_u32 8 @ tunnelId t @ le_u32 (tun_seq t) @ open_layout (tun_open t)
     @ le_u64 (ackOffset t) @ bytes_layout (tun_data t) @ le_u8 (bool_byte (tun_close t))
     @ le_u32 (holdMs t)"

definition quote_request_lengths :: "paid_quote_request \<Rightarrow> bool" where
  "quote_request_lengths q = (length (pqr_entryPoint q) = 20 \<and> length (pqr_clientIntentId q) = 32
     \<and> length (pqr_paymentAdapter q) = 20 \<and> length (pqr_paymentId q) = 32
     \<and> length (pqr_feeAsset q) = 20 \<and> length (pqr_actionTarget q) = 20
     \<and> length (pqr_actionCalldataHash q) = 32 \<and> length (pqr_trackedAssetsHash q) = 32)"

fun request_encodable :: "service_request \<Rightarrow> bool" where
  "request_encodable (SubmitTransaction t d) = (length t = 20)"
| "request_encodable (PaidTransactionV2 q) =
     (length (ptr_entryPoint q) = 20 \<and> length (ptr_executionId q) = 32)"
| "request_encodable (PaidQuoteRequestV2 q) = quote_request_lengths q"
| "request_encodable (TunnelV1 t) =
     (length (tunnelId t) = TUNNEL_ID_LEN \<and> (tun_open t \<noteq> None) = (tun_seq t = 0))"
| "request_encodable _ = True"

fun request_ranges :: "service_request \<Rightarrow> bool" where
  "request_ranges (Echo d) = bytes_ok d"
| "request_ranges (HttpRequest m u hs b) = (string_ok m \<and> string_ok u \<and> length hs < 2 ^ 53
     \<and> list_all (\<lambda>(k, v). string_ok k \<and> string_ok v) hs \<and> bytes_ok b)"
| "request_ranges (RpcRequest m p i u) =
     (string_ok m \<and> bytes_ok p \<and> u64_ok i \<and> pred_option string_ok u)"
| "request_ranges (SubmitTransaction t d) = bytes_ok d"
| "request_ranges (BroadcastSignedTransaction tx u m) =
     (bytes_ok tx \<and> pred_option string_ok u \<and> pred_option string_ok m)"
| "request_ranges (ReplenishSurbs i surbs) = (u64_ok i \<and> surbs = [])"
| "request_ranges (PaidTransactionV2 q) =
     (u64_ok (ptr_chainId q) \<and> bytes_ok (ptr_calldata q) \<and> u64_ok (ptr_validUntilUnix q))"
| "request_ranges (PaidQuoteRequestV2 q) =
     (u64_ok (pqr_chainId q) \<and> u64_ok (pqr_paymentGasLimit q) \<and> u64_ok (pqr_actionGasLimit q)
      \<and> u64_ok (pqr_maximumTransactionGas q) \<and> u32_ok (pqr_returnDataLimit q)
      \<and> u64_ok (pqr_validUntilUnix q))"
| "request_ranges (TunnelV1 t) =
     (u32_ok (tun_seq t) \<and> u64_ok (ackOffset t) \<and> bytes_ok (tun_data t) \<and> u32_ok (holdMs t)
      \<and> pred_option (\<lambda>opn. string_ok (open_host opn) \<and> u16_ok (open_port opn)) (tun_open t))"

definition request_ok :: "service_request \<Rightarrow> bool" where
  "request_ok q = (request_encodable q \<and> request_ranges q)"

lemmas range_defs = u16_ok_def u32_ok_def u64_ok_def

subsection \<open>The writers produce the layouts\<close>

lemma emits_append:
  assumes "emits (w_all fs) bs" "emits (w_all gs) cs"
  shows "emits (w_all (fs @ gs)) (bs @ cs)"
proof -
  have split: "w_all (fs @ gs) = (\<lambda>w. rbind (w_all fs w) (w_all gs))"
  proof (induction fs)
    case (Cons f fs)
    show ?case by (rule ext) (simp add: Cons.IH rbind_assoc)
  qed (rule ext, simp)
  show ?thesis
    unfolding emits_def
  proof (intro allI impI)
    fix w assume "writer_wf w"
    with assms(1) obtain w1 where 1: "w_all fs w = Inr w1" "writer_wf w1" "content w1 = content w @ bs"
      by (auto simp: emits_def)
    with assms(2) show "\<exists>w'. w_all (fs @ gs) w = Inr w' \<and> writer_wf w' \<and> content w' = content w @ bs @ cs"
      unfolding emits_def split by fastforce
  qed
qed

lemma emits_last: "emits f bs \<Longrightarrow> emits (w_all [f]) bs"
  using emits_Cons[OF _ emits_Nil] by simp

lemma emits_assert_step:
  "length v = n \<Longrightarrow> emits (w_all fs) cs \<Longrightarrow> emits (w_all (assertLen v n # fs)) cs"
  using emits_Cons[OF emits_assertLen] by fastforce

lemma emits_check_step:
  "(tun_open t \<noteq> None) = (tun_seq t = 0) \<Longrightarrow> emits (w_all fs) cs \<Longrightarrow>
   emits (w_all (check_open_seq t # fs)) cs"
  by (simp add: emits_def check_open_seq_def)

lemmas emits_seq = emits_last emits_Cons emits_u8 emits_u16 emits_u32 emits_u64 emits_bytes
  emits_string emits_optString emits_writeFixed emits_fixedBytes

lemmas emits_check = emits_assert_step emits_check_step

lemma emits_surbs: "emits (w_all (map writeSurbOpaque surbs)) (concat surbs)"
  using emits_map[of surbs writeSurbOpaque "\<lambda>b. b"] emits_fixedBytes
  by (simp add: writeSurbOpaque_def)

lemma emits_fragment [emits_intros]: "emits (writeFragmentWire f) (fragment_layout f)"
proof -
  have "emits (case fec f of None \<Rightarrow> w_u8 0
       | Some i \<Rightarrow> w_all [w_u8 1, w_u32 (dataShardCount i), w_u64 (originalDataLen i)])
       (fec_layout (fec f))"
    by (cases "fec f")
      (auto simp: fec_layout_def simp del: w_all.simps intro!: emits_u8 emits_eq[OF emits_Cons[OF emits_u8 emits_Cons[OF emits_u32 emits_Cons[OF emits_u64 emits_Nil]]]])
  from emits_Cons[OF emits_u64 emits_Cons[OF emits_u32 emits_Cons[OF emits_u32
        emits_Cons[OF emits_bytes emits_Cons[OF this emits_Nil]]]]]
  show ?thesis by (simp add: writeFragmentWire_def fragment_layout_def del: w_all.simps)
qed

lemma emits_payload:
  assumes "payload_encodable p"
  shows "emits (writeRelayerPayload p) (payload_layout p)"
  using assms
proof (cases p)
  case (AnonymousRequest inner surbs)
  have "emits (w_all [w_u32 4, w_bytes inner, w_u64 (int (length surbs))])
      (le_u32 4 @ bytes_layout inner @ le_u64 (int (length surbs)) @ [])"
    by (intro emits_intros)
  from emits_append[OF this emits_surbs] show ?thesis
    using AnonymousRequest by (simp del: w_all.simps)
qed (simp del: w_all.simps, (rule emits_check | rule emits_seq emits_fragment | assumption)+)+

lemma emits_headers:
  "emits (w_all (map (\<lambda>(k, v). w_all [w_string k, w_string v]) hs)) (concat (map header_layout hs))"
proof (rule emits_map)
  fix h :: "js_string \<times> js_string"
  show "emits (case h of (k, v) \<Rightarrow> w_all [w_string k, w_string v]) (header_layout h)"
    by (cases h) (simp add: header_layout_def del: w_all.simps, intro emits_seq)
qed

lemma emits_open:
  "emits (case x of None \<Rightarrow> w_u8 0
     | Some opn \<Rightarrow> w_all [w_u8 1, w_string (open_host opn), w_u16 (open_port opn)]) (open_layout x)"
  by (cases x; simp add: open_layout_def del: w_all.simps; intro emits_seq)

lemma emits_request:
  assumes "request_encodable q"
  shows "emits (writeServiceRequest q) (request_layout q)"
  using assms
proof (cases q)
  case (HttpRequest m u hs b)
  have front: "emits (w_all [w_u32 1, w_string m, w_string u, w_u64 (int (length hs))])
      (le_u32 1 @ string_layout m @ string_layout u @ le_u64 (int (length hs)) @ [])"
    by (intro emits_intros)
  have tail: "emits (w_all [w_bytes b]) (bytes_layout b @ [])"
    by (intro emits_intros)
  from emits_append[OF front emits_append[OF emits_headers tail]] show ?thesis
    using HttpRequest by (simp del: w_all.simps)
next
  case (ReplenishSurbs i surbs)
  have "emits (w_all [w_u32 5, w_u64 i, w_u64 (int (length surbs))])
      (le_u32 5 @ le_u64 i @ le_u64 (int (length surbs)) @ [])"
    by (intro emits_intros)
  from emits_append[OF this emits_surbs] show ?thesis
    using ReplenishSurbs by (simp del: w_all.simps)
next
  case (TunnelV1 t)
  have cl: "(if tun_close t then 1 else 0) = bool_byte (tun_close t)"
    by (simp add: bool_byte_def)
  have "length (tunnelId t) = TUNNEL_ID_LEN" "(tun_open t \<noteq> None) = (tun_seq t = 0)"
    using TunnelV1 assms by simp_all
  then show ?thesis
    unfolding TunnelV1 writeServiceRequest.simps request_layout.simps cl
    by - (rule emits_check | rule emits_seq emits_open | assumption)+
qed (simp add: quote_request_lengths_def del: w_all.simps,
     (rule emits_check | rule emits_seq | (elim conjE, assumption))+)+

subsection \<open>The readers read the layouts back\<close>

lemma readFragmentWire_at [reader_simps]:
  assumes "fragment_ok f"
  shows "readFragmentWire (at pre (fragment_layout f @ rest)) = Inr (f, at (pre @ fragment_layout f) rest)"
proof -
  obtain mid total seq d x where f: "f = \<lparr>messageId = mid, totalFragments = total, sequence = seq, data = d, fec = x\<rparr>"
    by (cases f)
  show ?thesis
  proof (cases x)
    case None
    then show ?thesis
      using assms
      by (simp add: f fragment_ok_def range_defs readFragmentWire_def fragment_layout_def fec_layout_def reader_simps)
  next
    case (Some i)
    obtain n l where i: "i = \<lparr>dataShardCount = n, originalDataLen = l\<rparr>" by (cases i)
    have "0 \<le> l" "nat l < 2 ^ 53"
      using assms by (auto simp: f Some i fragment_ok_def fec_ok_def)
    then have "int (js_number (nat l)) = l"
      by (simp add: js_number_exact)
    then show ?thesis
      using assms
      by (simp add: f Some i fragment_ok_def fec_ok_def range_defs readFragmentWire_def fragment_layout_def fec_layout_def reader_simps)
  qed
qed

lemma readRelayerPayload_at:
  "payload_ok p \<Longrightarrow> readRelayerPayload (at pre (payload_layout p @ rest)) = Inr (p, at (pre @ payload_layout p) rest)"
  by (cases p) (simp_all add: readRelayerPayload_def range_defs reader_simps js_number_exact)

lemma readHeaders_at [reader_simps]:
  "list_all (\<lambda>(k, v). string_ok k \<and> string_ok v) hs \<Longrightarrow>
   readHeaders (length hs) (at pre (concat (map header_layout hs) @ rest)) =
     Inr (hs, at (pre @ concat (map header_layout hs)) rest)"
proof (induction hs arbitrary: pre)
  case Nil
  then show ?case by (simp add: reader_simps)
next
  case (Cons h hs)
  then show ?case
    by (cases h) (simp add: header_layout_def reader_simps)
qed

lemma readServiceRequest_at:
  assumes "request_ok q"
  shows "readServiceRequest (at pre (request_layout q @ rest)) = Inr (q, at (pre @ request_layout q) rest)"
proof (cases q)
  case (HttpRequest m u hs b)
  then have "js_number (length hs) = length hs" "int (length hs) < 2 ^ 64"
    using assms by (auto simp: request_ok_def js_number_exact)
  with HttpRequest assms show ?thesis
    by (simp add: request_ok_def readServiceRequest_def reader_simps)
next
  case (PaidTransactionV2 x)
  with assms show ?thesis
    by (simp add: request_ok_def range_defs readServiceRequest_def readPaidTransactionV2_def reader_simps)
next
  case (PaidQuoteRequestV2 x)
  with assms show ?thesis
    by (simp add: request_ok_def quote_request_lengths_def range_defs readServiceRequest_def readPaidQuoteRequestV2_def reader_simps)
next
  case (TunnelV1 t)
  obtain opn where "opn = tun_open t" by simp
  with TunnelV1 assms show ?thesis
    by (cases "tun_open t")
      (auto simp: request_ok_def range_defs readServiceRequest_def readTunnelV1_def open_layout_def reader_simps)
qed (use assms in \<open>auto simp: request_ok_def range_defs readServiceRequest_def reader_simps js_number_exact\<close>)

subsection \<open>The formats as codecs\<close>

lemma payload_ok_encodable: "payload_ok p \<Longrightarrow> payload_encodable p"
  by (cases p) simp_all

interpretation payload_codec: wire_codec writeRelayerPayload readRelayerPayload payload_layout payload_ok
  by unfold_locales (auto intro: emits_payload payload_ok_encodable readRelayerPayload_at)

interpretation request_codec: wire_codec writeServiceRequest readServiceRequest request_layout request_ok
  by unfold_locales (auto intro: emits_request readServiceRequest_at simp: request_ok_def)

lemmas writer_defs = w_u8_def w_u16_def w_u32_def w_u64_def w_bytes_def w_fixedBytes_def assertLen_def
  writeFixed_def check_open_seq_def

lemma request_not_encodable:
  "\<not> request_encodable q \<Longrightarrow> \<exists>msg. encodeServiceRequest q = throw PacketBuildFailed msg"
  by (cases q)
    (auto simp: encodeServiceRequest_def encode_with_def writer_defs quote_request_lengths_def)

text \<open>
  C3. Round trip of service requests. Every \<open>ServiceRequest\<close> whose fixed-length fields have the
  required lengths, whose numbers fit their fields, whose strings are well-formed and do not start
  with a byte order mark, and whose SURB list is empty decodes to itself after
  \<open>encodeServiceRequest\<close>; and any byte appended to the encoding makes \<open>decodeServiceRequest\<close>
  refuse it.
\<close>

theorem service_request_round_trip:
  assumes "request_ok q"
  shows "rbind (encodeServiceRequest q) decodeServiceRequest = Inr q
    \<and> (\<forall>junk. junk \<noteq> [] \<longrightarrow>
         rbind (encodeServiceRequest q) (\<lambda>bs. decodeServiceRequest (bs @ junk))
           = throw DecryptionFailed ''trailing bytes'')"
  using request_codec.round_trip_strict[OF assms] request_codec.strict_rejects_trailing[OF assms]
    request_codec.encode_layout[OF assms]
  by (simp add: encodeServiceRequest_def decodeServiceRequest_def)

definition sample_tunnel_request :: service_request where
  "sample_tunnel_request = TunnelV1 \<lparr>tunnelId = replicate 16 7, tun_seq = 0,
     tun_open = Some \<lparr>open_host = js_lit ''rpc.example'', open_port = 443\<rparr>, ackOffset = 5,
     tun_data = [1, 2, 3], tun_close = False, holdMs = 4000\<rparr>"

lemma sample_tunnel_request_ok: "request_ok sample_tunnel_request"
  by (simp add: sample_tunnel_request_def request_ok_def TUNNEL_ID_LEN_def range_defs bytes_ok_def
      ascii_string_ok ascii_def)

theorem service_request_round_trip_witness:
  "request_ok sample_tunnel_request
    \<and> rbind (encodeServiceRequest sample_tunnel_request) decodeServiceRequest = Inr sample_tunnel_request
    \<and> rbind (encodeServiceRequest sample_tunnel_request) (\<lambda>bs. decodeServiceRequest (bs @ [0]))
        = throw DecryptionFailed ''trailing bytes''"
  using sample_tunnel_request_ok service_request_round_trip[OF sample_tunnel_request_ok] by simp

text \<open>
  Round trip of relayer payloads. Every \<open>RelayerPayload\<close> with a 20-byte target, in-range
  numbers and no inline SURBs decodes to itself, and the format is prefix free: no payload's
  encoding is a prefix of another payload's, so the missing end-of-input check of
  \<open>decodeRelayerPayload\<close> cannot make two payloads look alike.
\<close>

theorem relayer_payload_round_trip:
  assumes "payload_ok p" "payload_ok p'"
  shows "rbind (encodeRelayerPayload p) decodeRelayerPayload = Inr p
    \<and> (encodeRelayerPayload p' = map_sum id (\<lambda>bs. bs @ ext) (encodeRelayerPayload p) \<longrightarrow> p' = p \<and> ext = [])"
proof -
  have enc: "encodeRelayerPayload x = Inr (le_u8 PAYLOAD_VERSION @ payload_layout x)" if "payload_ok x" for x
    using payload_codec.encode_layout[OF that] by (simp add: encodeRelayerPayload_def)
  have "p' = p \<and> ext = []" if "payload_layout p' = payload_layout p @ ext"
    using payload_codec.prefix_free[OF assms(2,1), of "[]" ext] that by simp
  then show ?thesis
    using payload_codec.round_trip[OF assms(1)] enc[OF assms(1)] enc[OF assms(2)]
    by (simp add: encodeRelayerPayload_def decodeRelayerPayload_def)
qed

definition sample_fragment_payload :: relayer_payload where
  "sample_fragment_payload = ServiceResponse 9 \<lparr>messageId = 77, totalFragments = 4, sequence = 2,
     data = [10, 20, 30], fec = Some \<lparr>dataShardCount = 3, originalDataLen = 8\<rparr>\<rparr>"

theorem relayer_payload_round_trip_witness:
  "rbind (encodeRelayerPayload sample_fragment_payload) decodeRelayerPayload = Inr sample_fragment_payload
    \<and> encodeRelayerPayload (NeedMoreSurbs 9 1) \<noteq>
        map_sum id (\<lambda>bs. bs @ [0]) (encodeRelayerPayload sample_fragment_payload)"
proof -
  have "payload_ok sample_fragment_payload"
    by (simp add: sample_fragment_payload_def fragment_ok_def fec_ok_def range_defs bytes_ok_def)
  moreover have "payload_ok (NeedMoreSurbs 9 1)" by (simp add: range_defs)
  ultimately show ?thesis
    using relayer_payload_round_trip[of sample_fragment_payload "NeedMoreSurbs 9 1" "[0]"] by simp
qed

text \<open>
  C40. Encoding of service requests refines the bincode layout on every input: a request with
  well-sized fixed fields (and \<open>open\<close> present exactly when \<open>seq\<close> is 0) encodes to the version
  byte followed by its layout, with numbers wrapped to their field's width; every other request
  is refused with \<open>PACKET_BUILD_FAILED\<close>.
\<close>

theorem encodeServiceRequest_refines_layout:
  "if request_encodable q
   then encodeServiceRequest q = Inr (1 # request_layout q)
   else (\<exists>msg. encodeServiceRequest q = throw PacketBuildFailed msg)"
proof (cases "request_encodable q")
  case True
  have "le_u8 PAYLOAD_VERSION = [1]"
    by (simp add: le_u8_def le_int_def PAYLOAD_VERSION_def)
  with True show ?thesis
    using encode_with_emits[OF emits_request[OF True]] by (simp add: encodeServiceRequest_def)
qed (simp add: request_not_encodable)

end
