(* ===== verification/Bincode_Outcomes.thy ===== *)
theory Bincode_Outcomes
  imports Bincode_Messages
begin

section \<open>Replies: paid outcomes, tunnel parts, submit and RPC responses\<close>

text \<open>
  The reply side of \<open>packages/nox-client/src/bincode.ts\<close>: \<open>PaidTransactionOutcomeV2\<close>,
  \<open>PaidQuoteOutcomeV2\<close> with its \<open>ExecutionQuoteV1\<close>, \<open>TunnelReplyV1\<close>, the submit response and
  \<open>RpcResponse\<close>. Rejection codes are datatypes; their wire index is the position in the source's
  code list. Error values keep the whole fixed message text.
\<close>

definition js_indexOf :: "'a list \<Rightarrow> 'a \<Rightarrow> int" where
  "js_indexOf xs x =
     (case List.extract (\<lambda>y. y = x) xs of None \<Rightarrow> -1 | Some (before, _, _) \<Rightarrow> int (length before))"

text \<open>\<open>xs[i]\<close> where a missing element is \<open>undefined\<close>.\<close>

definition js_at :: "'a list \<Rightarrow> int \<Rightarrow> 'a option" where
  "js_at xs i = (if 0 \<le> i \<and> i < int (length xs) then Some (xs ! nat i) else None)"

definition MAX_SUBMIT_REJECTION_DETAIL_BYTES :: nat where
  "MAX_SUBMIT_REJECTION_DETAIL_BYTES = 256"

subsection \<open>Paid outcomes\<close>

datatype paid_code =
    MalformedRequest | WrongChain | WrongEntryPoint | UnknownQuote | ExpiredQuote
  | DuplicateExecution | SimulationFailure | PaymentMissing | PaymentReverted
  | UnsupportedFeeAsset | StalePrice | Unprofitable | GasCapExceeded | SubmissionFailure
  | UnsupportedPaymentAdapter | QuoteCapacityExceeded | PendingLossLimit

definition PAID_TRANSACTION_REJECTION_CODES_V2 :: "paid_code list" where
  "PAID_TRANSACTION_REJECTION_CODES_V2 =
     [MalformedRequest, WrongChain, WrongEntryPoint, UnknownQuote, ExpiredQuote,
      DuplicateExecution, SimulationFailure, PaymentMissing, PaymentReverted,
      UnsupportedFeeAsset, StalePrice, Unprofitable, GasCapExceeded, SubmissionFailure,
      UnsupportedPaymentAdapter, QuoteCapacityExceeded, PendingLossLimit]"

record paid_rejection =
  rej_code :: paid_code
  rej_retryable :: bool
  rej_detail :: js_string

record execution_quote =
  quoteVersion :: int
  q_chainId :: bytes
  q_entryPoint :: bytes
  q_exitAddress :: bytes
  q_clientIntentId :: bytes
  q_paymentAdapter :: bytes
  q_paymentId :: bytes
  q_feeAsset :: bytes
  q_exitFee :: bytes
  q_networkFee :: bytes
  q_paymentGasLimit :: bytes
  q_actionTarget :: bytes
  q_actionCalldataHash :: bytes
  q_actionGasLimit :: bytes
  q_trackedAssetsHash :: bytes
  q_maximumTransactionGas :: bytes
  q_maximumFeePerGas :: bytes
  q_returnDataLimit :: bytes
  q_validAfterUnix :: int
  q_validUntilUnix :: int
  q_quoteNonce :: bytes

datatype paid_transaction_outcome =
    Submitted bytes bytes
  | Rejected "bytes option" paid_rejection

datatype paid_quote_outcome =
    Issued execution_quote bytes bytes
  | QuoteRejected paid_rejection

definition invalidV2Outcome :: "string \<Rightarrow> nox_error" where
  "invalidV2Outcome msg = NoxClientError DecryptionFailed (''Invalid PaidTransactionOutcomeV2: '' @ msg)"

definition invalidQuoteOutcome :: "string \<Rightarrow> nox_error" where
  "invalidQuoteOutcome msg = NoxClientError DecryptionFailed (''Invalid PaidQuoteOutcomeV2: '' @ msg)"

definition invalidV2Encoding :: "string \<Rightarrow> nox_error" where
  "invalidV2Encoding msg = NoxClientError PacketBuildFailed (''Invalid paid-v2 encoding: '' @ msg)"

definition w_fail :: "nox_error \<Rightarrow> writing" where
  "w_fail e w = Inl e"

definition p_fail :: "nox_error \<Rightarrow> 'a reading" where
  "p_fail e r = Inl e"

definition writePaidV2Rejection :: "paid_rejection \<Rightarrow> writing" where
  "writePaidV2Rejection rejection =
     (let codeIndex = js_indexOf PAID_TRANSACTION_REJECTION_CODES_V2 (rej_code rejection);
          detailBytes = text_encode (rej_detail rejection) in
      if codeIndex < 0 then w_fail (invalidV2Encoding ''rejection code is unsupported'')
      else if length detailBytes = 0 \<or> length detailBytes > MAX_SUBMIT_REJECTION_DETAIL_BYTES
              \<or> has_controls (rej_detail rejection)
      then w_fail (invalidV2Encoding ''rejection detail is empty, oversized, or contains controls'')
      else w_all [w_u32 codeIndex, w_u8 (if rej_retryable rejection then 1 else 0), w_bytes detailBytes])"

definition readPaidV2Rejection :: "(string \<Rightarrow> nox_error) \<Rightarrow> paid_rejection reading" where
  "readPaidV2Rejection invalid =
     pbind r_u32 (\<lambda>index.
     case js_at PAID_TRANSACTION_REJECTION_CODES_V2 index of
       None \<Rightarrow> p_fail (invalid ''rejection code is unsupported'')
     | Some c \<Rightarrow>
     pbind r_u8 (\<lambda>retryable.
     if retryable \<noteq> 0 \<and> retryable \<noteq> 1 then p_fail (invalid ''retryable flag is invalid'') else
     pbind r_bytes (\<lambda>detailBytes.
     if length detailBytes = 0 \<or> length detailBytes > MAX_SUBMIT_REJECTION_DETAIL_BYTES
     then p_fail (invalid ''rejection detail is empty or exceeds 256 bytes'')
     else (case text_decode True detailBytes of
         None \<Rightarrow> p_fail (invalid ''rejection detail is not valid UTF-8'')
       | Some detail \<Rightarrow>
           if has_controls detail then p_fail (invalid ''rejection detail contains controls'')
           else preturn \<lparr>rej_code = c, rej_retryable = (retryable = 1), rej_detail = detail\<rparr>))))"

definition writeExecutionQuoteV1 :: "execution_quote \<Rightarrow> writing" where
  "writeExecutionQuoteV1 q = w_all
     [w_u8 (quoteVersion q), writeFixed (q_chainId q) 32, writeFixed (q_entryPoint q) 20,
      writeFixed (q_exitAddress q) 20, writeFixed (q_clientIntentId q) 32,
      writeFixed (q_paymentAdapter q) 20, writeFixed (q_paymentId q) 32,
      writeFixed (q_feeAsset q) 20, writeFixed (q_exitFee q) 32, writeFixed (q_networkFee q) 32,
      writeFixed (q_paymentGasLimit q) 32, writeFixed (q_actionTarget q) 20,
      writeFixed (q_actionCalldataHash q) 32, writeFixed (q_actionGasLimit q) 32,
      writeFixed (q_trackedAssetsHash q) 32, writeFixed (q_maximumTransactionGas q) 32,
      writeFixed (q_maximumFeePerGas q) 32, writeFixed (q_returnDataLimit q) 32,
      w_u64 (q_validAfterUnix q), w_u64 (q_validUntilUnix q), writeFixed (q_quoteNonce q) 32]"

definition readExecutionQuoteV1 :: "execution_quote reading" where
  "readExecutionQuoteV1 =
     pbind r_u8 (\<lambda>v. pbind (r_fixedBytes 32) (\<lambda>chain. pbind (r_fixedBytes 20) (\<lambda>entry.
     pbind (r_fixedBytes 20) (\<lambda>exit. pbind (r_fixedBytes 32) (\<lambda>intent.
     pbind (r_fixedBytes 20) (\<lambda>adapter. pbind (r_fixedBytes 32) (\<lambda>payment.
     pbind (r_fixedBytes 20) (\<lambda>asset. pbind (r_fixedBytes 32) (\<lambda>exitFee.
     pbind (r_fixedBytes 32) (\<lambda>netFee. pbind (r_fixedBytes 32) (\<lambda>payGas.
     pbind (r_fixedBytes 20) (\<lambda>target. pbind (r_fixedBytes 32) (\<lambda>hash.
     pbind (r_fixedBytes 32) (\<lambda>actGas. pbind (r_fixedBytes 32) (\<lambda>tracked.
     pbind (r_fixedBytes 32) (\<lambda>maxGas. pbind (r_fixedBytes 32) (\<lambda>maxFee.
     pbind (r_fixedBytes 32) (\<lambda>ret. pbind r_u64 (\<lambda>after. pbind r_u64 (\<lambda>until.
     pbind (r_fixedBytes 32) (\<lambda>nonce.
     preturn \<lparr>quoteVersion = v, q_chainId = chain, q_entryPoint = entry, q_exitAddress = exit,
       q_clientIntentId = intent, q_paymentAdapter = adapter, q_paymentId = payment,
       q_feeAsset = asset, q_exitFee = exitFee, q_networkFee = netFee, q_paymentGasLimit = payGas,
       q_actionTarget = target, q_actionCalldataHash = hash, q_actionGasLimit = actGas,
       q_trackedAssetsHash = tracked, q_maximumTransactionGas = maxGas, q_maximumFeePerGas = maxFee,
       q_returnDataLimit = ret, q_validAfterUnix = after, q_validUntilUnix = until,
       q_quoteNonce = nonce\<rparr>)))))))))))))))))))))"

definition writePaidTransactionOutcome :: "paid_transaction_outcome \<Rightarrow> writing" where
  "writePaidTransactionOutcome outcome =
     (case outcome of
        Submitted executionId transactionHash \<Rightarrow>
          w_all [w_u32 0, assertLen executionId 32, assertLen transactionHash 32,
                 w_fixedBytes executionId, w_fixedBytes transactionHash]
      | Rejected executionId rejection \<Rightarrow>
          w_all [w_u32 1,
                 (case executionId of None \<Rightarrow> w_u8 0
                  | Some i \<Rightarrow> w_all [w_u8 1, assertLen i 32, w_fixedBytes i]),
                 writePaidV2Rejection rejection])"

definition encodePaidTransactionOutcomeV2 :: "paid_transaction_outcome \<Rightarrow> bytes result" where
  "encodePaidTransactionOutcomeV2 outcome = encode_with (writePaidTransactionOutcome outcome)"

definition readPaidTransactionOutcome :: "paid_transaction_outcome reading" where
  "readPaidTransactionOutcome =
     pbind r_u32 (\<lambda>variant.
     if variant = 0 then
       pbind (r_fixedBytes 32) (\<lambda>i. pbind (r_fixedBytes 32) (\<lambda>h. preturn (Submitted i h)))
     else if variant = 1 then
       pbind r_u8 (\<lambda>opt.
       if opt \<noteq> 0 \<and> opt \<noteq> 1 then p_fail (invalidV2Outcome ''execution_id option tag is invalid'')
       else pbind (if opt = 1 then pbind (r_fixedBytes 32) (\<lambda>i. preturn (Some i)) else preturn None)
         (\<lambda>i. pbind (readPaidV2Rejection invalidV2Outcome) (\<lambda>rej. preturn (Rejected i rej))))
     else p_fail (invalidV2Outcome ''unknown outcome variant''))"

definition decodePaidTransactionOutcomeV2 :: "bytes \<Rightarrow> paid_transaction_outcome result" where
  "decodePaidTransactionOutcomeV2 bs =
     decode_with (pbind readPaidTransactionOutcome (\<lambda>x. pbind r_expectEnd (\<lambda>_. preturn x))) bs"

definition writePaidQuoteOutcome :: "paid_quote_outcome \<Rightarrow> writing" where
  "writePaidQuoteOutcome outcome =
     (case outcome of
        Issued quote executionId exitSignature \<Rightarrow>
          w_all [w_u32 0, writeExecutionQuoteV1 quote, assertLen executionId 32,
                 assertLen exitSignature 65, w_fixedBytes executionId, w_bytes exitSignature]
      | QuoteRejected rejection \<Rightarrow> w_all [w_u32 1, writePaidV2Rejection rejection])"

definition encodePaidQuoteOutcomeV2 :: "paid_quote_outcome \<Rightarrow> bytes result" where
  "encodePaidQuoteOutcomeV2 outcome = encode_with (writePaidQuoteOutcome outcome)"

definition readPaidQuoteOutcome :: "paid_quote_outcome reading" where
  "readPaidQuoteOutcome =
     pbind r_u32 (\<lambda>variant.
     if variant = 0 then
       pbind readExecutionQuoteV1 (\<lambda>quote. pbind (r_fixedBytes 32) (\<lambda>i. pbind r_bytes (\<lambda>sig.
       if length sig \<noteq> 65 then p_fail (invalidQuoteOutcome ''exit signature must be 65 bytes'')
       else preturn (Issued quote i sig))))
     else if variant = 1 then
       pbind (readPaidV2Rejection invalidQuoteOutcome) (\<lambda>rej. preturn (QuoteRejected rej))
     else p_fail (invalidQuoteOutcome ''unknown outcome variant''))"

definition decodePaidQuoteOutcomeV2 :: "bytes \<Rightarrow> paid_quote_outcome result" where
  "decodePaidQuoteOutcomeV2 bs =
     decode_with (pbind readPaidQuoteOutcome (\<lambda>x. pbind r_expectEnd (\<lambda>_. preturn x))) bs"

subsection \<open>Tunnel replies\<close>

datatype tunnel_fin = Eof | NeedSurbs | Expired

definition TUNNEL_FIN_V1 :: "tunnel_fin list" where
  "TUNNEL_FIN_V1 = [Eof, NeedSurbs, Expired]"

datatype tunnel_reject_code =
    TMalformed | TDisabled | TPortNotAllowed | THostNotAllowed | TNotTls | TDestinationBlocked
  | TDnsFailed | TConnectFailed | TSessionLimit | TRateLimited | TUnknownSession | TOutOfOrder
  | TByteLimit | TUpstreamClosed | TExpired

definition TUNNEL_REJECT_CODES_V1 :: "tunnel_reject_code list" where
  "TUNNEL_REJECT_CODES_V1 =
     [TMalformed, TDisabled, TPortNotAllowed, THostNotAllowed, TNotTls, TDestinationBlocked,
      TDnsFailed, TConnectFailed, TSessionLimit, TRateLimited, TUnknownSession, TOutOfOrder,
      TByteLimit, TUpstreamClosed, TExpired]"

definition TUNNEL_PART_MAX_DATA :: nat where
  "TUNNEL_PART_MAX_DATA = 30656"

definition TUNNEL_REJECT_DETAIL_MAX :: nat where
  "TUNNEL_REJECT_DETAIL_MAX = 256"

datatype tunnel_reply =
    TunnelData int int bytes "tunnel_fin option"
  | TunnelRejected int tunnel_reject_code bool js_string

definition invalidTunnelReply :: "string \<Rightarrow> nox_error" where
  "invalidTunnelReply msg = NoxClientError DecryptionFailed (''Invalid TunnelReplyV1: '' @ msg)"

fun writeTunnelReplyV1 :: "tunnel_reply \<Rightarrow> writing" where
  "writeTunnelReplyV1 (TunnelData seq off d fin) =
     w_all [w_u32 0, w_u32 seq, w_u64 off, w_bytes d,
       (case fin of None \<Rightarrow> w_u8 0 | Some x \<Rightarrow> w_all [w_u8 1, w_u32 (js_indexOf TUNNEL_FIN_V1 x)])]"
| "writeTunnelReplyV1 (TunnelRejected seq c retryable detail) =
     w_all [w_u32 1, w_u32 seq, w_u32 (js_indexOf TUNNEL_REJECT_CODES_V1 c),
            w_u8 (if retryable then 1 else 0), w_string detail]"

definition encodeTunnelReplyV1 :: "tunnel_reply \<Rightarrow> bytes result" where
  "encodeTunnelReplyV1 reply = encode_with (writeTunnelReplyV1 reply)"

definition readTunnelReplyV1 :: "tunnel_reply reading" where
  "readTunnelReplyV1 =
     pbind r_u32 (\<lambda>variant.
     if variant = 0 then
       pbind r_u32 (\<lambda>seq. pbind r_u64 (\<lambda>off. pbind r_bytes (\<lambda>d.
       if length d > TUNNEL_PART_MAX_DATA then p_fail (invalidTunnelReply ''part exceeds the maximum'')
       else pbind (r_option (pbind r_u32 (\<lambda>index.
              case js_at TUNNEL_FIN_V1 index of
                None \<Rightarrow> p_fail (invalidTunnelReply ''unknown fin index'')
              | Some x \<Rightarrow> preturn x)))
         (\<lambda>fin. preturn (TunnelData seq off d fin)))))
     else if variant = 1 then
       pbind r_u32 (\<lambda>seq. pbind r_u32 (\<lambda>index.
       case js_at TUNNEL_REJECT_CODES_V1 index of
         None \<Rightarrow> p_fail (invalidTunnelReply ''unknown reject code index'')
       | Some c \<Rightarrow>
           pbind r_bool (\<lambda>retryable. pbind r_bytes (\<lambda>detailBytes.
           if length detailBytes > TUNNEL_REJECT_DETAIL_MAX
           then p_fail (invalidTunnelReply ''detail exceeds the maximum'')
           else preturn (TunnelRejected seq c retryable (text_decode_lossy detailBytes))))))
     else p_fail (invalidTunnelReply ''unknown variant''))"

definition decodeTunnelReplyV1 :: "bytes \<Rightarrow> tunnel_reply result" where
  "decodeTunnelReplyV1 bs =
     decode_with (pbind readTunnelReplyV1 (\<lambda>x. pbind r_expectEnd (\<lambda>_. preturn x))) bs"

subsection \<open>Submit and RPC responses\<close>

datatype submit_response =
    SubmitSubmitted string
  | SubmitRejected js_string js_string

definition SUBMIT_REJECTION_CODES :: "js_string list" where
  "SUBMIT_REJECTION_CODES = map js_lit
     [''SIMULATION'', ''PAYMENT_MISSING'', ''PRICE_UNAVAILABLE'', ''UNPROFITABLE'', ''GAS_PLAN'',
      ''DUPLICATE'', ''SUBMISSION'']"

definition SUBMIT_ERROR_PREFIX :: bytes where
  "SUBMIT_ERROR_PREFIX = text_encode (js_lit ''tx_error:'')"

definition invalidSubmitResponse :: "string \<Rightarrow> nox_error" where
  "invalidSubmitResponse msg =
     NoxClientError DecryptionFailed (''Invalid submit transaction response: '' @ msg)"

definition startsWith :: "bytes \<Rightarrow> bytes \<Rightarrow> bool" where
  "startsWith bs p = (length bs \<ge> length p \<and> take (length p) bs = p)"

definition COLON :: code_unit where
  "COLON = 58"

definition decodeSubmitRejection :: "bytes \<Rightarrow> submit_response result" where
  "decodeSubmitRejection bs =
     (case text_decode True bs of
        None \<Rightarrow> Inl (invalidSubmitResponse ''rejection is not valid UTF-8'')
      | Some txt \<Rightarrow>
          (let encoded = drop 9 txt; separator = js_indexOf encoded COLON in
           if separator \<le> 0 then Inl (invalidSubmitResponse ''rejection is missing its code or detail'')
           else
             (let c = take (nat separator) encoded; detail = drop (nat separator + 1) encoded in
              if c \<notin> set SUBMIT_REJECTION_CODES
              then Inl (invalidSubmitResponse ''rejection code is unsupported'')
              else if length detail = 0 \<or> has_controls detail
              then Inl (invalidSubmitResponse ''rejection detail is empty or contains controls'')
              else if length (text_encode detail) > MAX_SUBMIT_REJECTION_DETAIL_BYTES
              then Inl (invalidSubmitResponse ''rejection detail exceeds 256 bytes'')
              else Inr (SubmitRejected c detail))))"

definition decodeSubmitTransactionResponse :: "bytes \<Rightarrow> submit_response result" where
  "decodeSubmitTransactionResponse bs =
     (if startsWith bs SUBMIT_ERROR_PREFIX then decodeSubmitRejection bs
      else if length bs = 32 then Inr (SubmitSubmitted (''0x'' @ bytesToHex bs))
      else Inl (invalidSubmitResponse ''expected a 32-byte hash or typed rejection''))"

datatype rpc_result = RpcOk bytes | RpcError js_string

record rpc_response =
  rpc_id :: int
  rpc_result :: rpc_result

text \<open>\<open>DataView\<close> reads past the end throw a \<open>RangeError\<close>; \<open>slice\<close> clamps.\<close>

definition view_le :: "bytes \<Rightarrow> nat \<Rightarrow> nat \<Rightarrow> int result" where
  "view_le bs off n =
     (if length bs < off + n then Inl (JsRangeError ''Offset is outside the bounds of the DataView'')
      else Inr (int (le_value (take n (drop off bs)))))"

definition decodeRpcResponse :: "bytes \<Rightarrow> rpc_response result" where
  "decodeRpcResponse bs =
     rbind (view_le bs 0 8) (\<lambda>i.
     rbind (view_le bs 8 4) (\<lambda>tag.
     rbind (view_le bs 12 8) (\<lambda>len.
       (let payload = take (js_number (nat len)) (drop 20 bs) in
        Inr \<lparr>rpc_id = i,
             rpc_result = (if tag = 0 then RpcOk payload else RpcError (text_decode_lossy payload))\<rparr>))))"

subsection \<open>Code lists\<close>

lemma js_indexOf_member:
  assumes "x \<in> set xs"
  shows "js_at xs (js_indexOf xs x) = Some x" "0 \<le> js_indexOf xs x" "js_indexOf xs x < int (length xs)"
proof -
  obtain ys y zs where e: "List.extract (\<lambda>y. y = x) xs = Some (ys, y, zs)"
    using assms by (cases "List.extract (\<lambda>y. y = x) xs") (auto simp: extract_None_iff)
  then have "xs = ys @ x # zs" by (auto dest: extract_SomeE)
  with e show "js_at xs (js_indexOf xs x) = Some x" "0 \<le> js_indexOf xs x"
    "js_indexOf xs x < int (length xs)"
    by (simp_all add: js_indexOf_def js_at_def)
qed

lemma paid_code_listed: "c \<in> set PAID_TRANSACTION_REJECTION_CODES_V2"
  by (cases c) (simp_all add: PAID_TRANSACTION_REJECTION_CODES_V2_def)

lemma fin_listed: "x \<in> set TUNNEL_FIN_V1"
  by (cases x) (simp_all add: TUNNEL_FIN_V1_def)

lemma reject_code_listed: "c \<in> set TUNNEL_REJECT_CODES_V1"
  by (cases c) (simp_all add: TUNNEL_REJECT_CODES_V1_def)

lemmas paid_index = js_indexOf_member[OF paid_code_listed]
lemmas fin_index = js_indexOf_member[OF fin_listed]
lemmas reject_index = js_indexOf_member[OF reject_code_listed]

lemma index_bounds:
  "js_indexOf PAID_TRANSACTION_REJECTION_CODES_V2 c < 2 ^ 32"
  "js_indexOf TUNNEL_FIN_V1 x < 2 ^ 32"
  "js_indexOf TUNNEL_REJECT_CODES_V1 t < 2 ^ 32"
  using paid_index(3)[of c] fin_index(3)[of x] reject_index(3)[of t]
  by (simp_all add: PAID_TRANSACTION_REJECTION_CODES_V2_def TUNNEL_FIN_V1_def TUNNEL_REJECT_CODES_V1_def)

subsection \<open>Layouts\<close>

definition rejection_layout :: "paid_rejection \<Rightarrow> bytes" where
  "rejection_layout r = le_u32 (js_indexOf PAID_TRANSACTION_REJECTION_CODES_V2 (rej_code r))
     @ le_u8 (bool_byte (rej_retryable r)) @ bytes_layout (text_encode (rej_detail r))"

definition rejection_encodable :: "paid_rejection \<Rightarrow> bool" where
  "rejection_encodable r = (text_encode (rej_detail r) \<noteq> []
     \<and> length (text_encode (rej_detail r)) \<le> MAX_SUBMIT_REJECTION_DETAIL_BYTES
     \<and> \<not> has_controls (rej_detail r))"

definition rejection_ok :: "paid_rejection \<Rightarrow> bool" where
  "rejection_ok r = (rejection_encodable r \<and> well_formed (rej_detail r) \<and> \<not> has_bom (rej_detail r))"

definition quote_layout :: "execution_quote \<Rightarrow> bytes" where
  "quote_layout q = le_u8 (quoteVersion q) @ q_chainId q @ q_entryPoint q @ q_exitAddress q
     @ q_clientIntentId q @ q_paymentAdapter q @ q_paymentId q @ q_feeAsset q @ q_exitFee q
     @ q_networkFee q @ q_paymentGasLimit q @ q_actionTarget q @ q_actionCalldataHash q
     @ q_actionGasLimit q @ q_trackedAssetsHash q @ q_maximumTransactionGas q @ q_maximumFeePerGas q
     @ q_returnDataLimit q @ le_u64 (q_validAfterUnix q) @ le_u64 (q_validUntilUnix q)
     @ q_quoteNonce q"

definition quote_lengths :: "execution_quote \<Rightarrow> bool" where
  "quote_lengths q = (length (q_chainId q) = 32 \<and> length (q_entryPoint q) = 20
     \<and> length (q_exitAddress q) = 20 \<and> length (q_clientIntentId q) = 32
     \<and> length (q_paymentAdapter q) = 20 \<and> length (q_paymentId q) = 32 \<and> length (q_feeAsset q) = 20
     \<and> length (q_exitFee q) = 32 \<and> length (q_networkFee q) = 32 \<and> length (q_paymentGasLimit q) = 32
     \<and> length (q_actionTarget q) = 20 \<and> length (q_actionCalldataHash q) = 32
     \<and> length (q_actionGasLimit q) = 32 \<and> length (q_trackedAssetsHash q) = 32
     \<and> length (q_maximumTransactionGas q) = 32 \<and> length (q_maximumFeePerGas q) = 32
     \<and> length (q_returnDataLimit q) = 32 \<and> length (q_quoteNonce q) = 32)"

definition quote_ok :: "execution_quote \<Rightarrow> bool" where
  "quote_ok q = (quote_lengths q \<and> 0 \<le> quoteVersion q \<and> quoteVersion q < 256
     \<and> u64_ok (q_validAfterUnix q) \<and> u64_ok (q_validUntilUnix q))"

fun outcome_layout :: "paid_transaction_outcome \<Rightarrow> bytes" where
  "outcome_layout (Submitted i h) = le_u32 0 @ i @ h"
| "outcome_layout (Rejected None r) = le_u32 1 @ le_u8 0 @ rejection_layout r"
| "outcome_layout (Rejected (Some i) r) = le_u32 1 @ (le_u8 1 @ i) @ rejection_layout r"

fun outcome_ok :: "paid_transaction_outcome \<Rightarrow> bool" where
  "outcome_ok (Submitted i h) = (length i = 32 \<and> length h = 32)"
| "outcome_ok (Rejected i r) = (pred_option (\<lambda>x. length x = 32) i \<and> rejection_ok r)"

fun quote_outcome_layout :: "paid_quote_outcome \<Rightarrow> bytes" where
  "quote_outcome_layout (Issued q i s) = le_u32 0 @ quote_layout q @ i @ bytes_layout s"
| "quote_outcome_layout (QuoteRejected r) = le_u32 1 @ rejection_layout r"

fun quote_outcome_ok :: "paid_quote_outcome \<Rightarrow> bool" where
  "quote_outcome_ok (Issued q i s) = (quote_ok q \<and> length i = 32 \<and> length s = 65)"
| "quote_outcome_ok (QuoteRejected r) = rejection_ok r"

definition fin_layout :: "tunnel_fin option \<Rightarrow> bytes" where
  "fin_layout x = (case x of None \<Rightarrow> le_u8 0 | Some f \<Rightarrow> le_u8 1 @ le_u32 (js_indexOf TUNNEL_FIN_V1 f))"

fun reply_layout :: "tunnel_reply \<Rightarrow> bytes" where
  "reply_layout (TunnelData seq off d fin) =
     le_u32 0 @ le_u32 seq @ le_u64 off @ bytes_layout d @ fin_layout fin"
| "reply_layout (TunnelRejected seq c retryable detail) =
     le_u32 1 @ le_u32 seq @ le_u32 (js_indexOf TUNNEL_REJECT_CODES_V1 c)
     @ le_u8 (bool_byte retryable) @ string_layout detail"

fun reply_ok :: "tunnel_reply \<Rightarrow> bool" where
  "reply_ok (TunnelData seq off d fin) =
     (u32_ok seq \<and> u64_ok off \<and> length d \<le> TUNNEL_PART_MAX_DATA)"
| "reply_ok (TunnelRejected seq c retryable detail) =
     (u32_ok seq \<and> well_formed detail \<and> \<not> has_bom detail
      \<and> length (text_encode detail) \<le> TUNNEL_REJECT_DETAIL_MAX)"

subsection \<open>Writers\<close>

lemma bool_byte_if: "(if b then 1 else 0) = bool_byte b"
  by (simp add: bool_byte_def)

lemma emits_rejection:
  assumes "rejection_encodable r"
  shows "emits (writePaidV2Rejection r) (rejection_layout r)"
proof -
  have "writePaidV2Rejection r = w_all [w_u32 (js_indexOf PAID_TRANSACTION_REJECTION_CODES_V2 (rej_code r)),
      w_u8 (bool_byte (rej_retryable r)), w_bytes (text_encode (rej_detail r))]"
    using assms paid_index(2)[of "rej_code r"]
    by (simp add: writePaidV2Rejection_def rejection_encodable_def Let_def bool_byte_if del: w_all.simps)
  then show ?thesis
    by (simp add: rejection_layout_def del: w_all.simps) (intro emits_seq)
qed

lemma emits_quote: "quote_lengths q \<Longrightarrow> emits (writeExecutionQuoteV1 q) (quote_layout q)"
  unfolding writeExecutionQuoteV1_def quote_layout_def quote_lengths_def
  by (elim conjE) (rule emits_seq | assumption)+

lemma emits_outcome: "outcome_ok x \<Longrightarrow> emits (writePaidTransactionOutcome x) (outcome_layout x)"
proof (induction x rule: outcome_layout.induct)
  case (1 i h)
  then show ?case
    by (simp add: writePaidTransactionOutcome_def del: w_all.simps, elim conjE)
      (rule emits_check | rule emits_seq | assumption)+
next
  case (2 r)
  then show ?case
    by (simp add: writePaidTransactionOutcome_def rejection_ok_def del: w_all.simps)
      (intro emits_seq emits_rejection; simp)
next
  case (3 i r)
  then have i: "emits (w_all [w_u8 1, assertLen i 32, w_fixedBytes i]) (le_u8 1 @ i)"
    by (simp del: w_all.simps, elim conjE) (rule emits_check | rule emits_seq | assumption)+
  have "emits (w_all [w_u32 1, w_all [w_u8 1, assertLen i 32, w_fixedBytes i], writePaidV2Rejection r])
      (le_u32 1 @ (le_u8 1 @ i) @ rejection_layout r)"
    using 3 by (intro emits_Cons emits_last emits_u32 i emits_rejection) (simp add: rejection_ok_def)
  then show ?case by (simp add: writePaidTransactionOutcome_def del: w_all.simps append_assoc)
qed

lemma emits_quote_outcome:
  "quote_outcome_ok x \<Longrightarrow> emits (writePaidQuoteOutcome x) (quote_outcome_layout x)"
  by (cases x; simp add: writePaidQuoteOutcome_def quote_ok_def rejection_ok_def del: w_all.simps; elim conjE;
      (rule emits_check | rule emits_seq emits_quote emits_rejection | assumption)+)

lemma emits_fin:
  "emits (case fin of None \<Rightarrow> w_u8 0 | Some x \<Rightarrow> w_all [w_u8 1, w_u32 (js_indexOf TUNNEL_FIN_V1 x)])
     (fin_layout fin)"
  by (cases fin; simp add: fin_layout_def del: w_all.simps; intro emits_seq)

lemma emits_reply: "emits (writeTunnelReplyV1 x) (reply_layout x)"
  by (cases x; simp only: writeTunnelReplyV1.simps reply_layout.simps bool_byte_if;
      (rule emits_seq emits_fin)+)

subsection \<open>Readers\<close>

lemma readPaidV2Rejection_at:
  assumes "rejection_ok r"
  shows "readPaidV2Rejection invalid (at pre (rejection_layout r @ rest)) =
    Inr (r, at (pre @ rejection_layout r) rest)"
proof -
  let ?d = "text_encode (rej_detail r)"
  have d: "?d \<noteq> []" "length ?d \<le> 256" "\<not> has_controls (rej_detail r)"
      "text_decode True ?d = Some (rej_detail r)"
    using assms
    by (auto simp: rejection_ok_def rejection_encodable_def text_decode_encode MAX_SUBMIT_REJECTION_DETAIL_BYTES_def)
  then have "bytes_ok ?d" by (simp add: bytes_ok_def)
  with d show ?thesis
    using paid_index[of "rej_code r"] index_bounds(1)[of "rej_code r"]
    by (cases r) (simp add: readPaidV2Rejection_def rejection_layout_def reader_simps
        MAX_SUBMIT_REJECTION_DETAIL_BYTES_def)
qed

lemma readExecutionQuoteV1_at:
  "quote_ok q \<Longrightarrow> readExecutionQuoteV1 (at pre (quote_layout q @ rest)) = Inr (q, at (pre @ quote_layout q) rest)"
  by (simp add: quote_ok_def quote_lengths_def range_defs readExecutionQuoteV1_def quote_layout_def reader_simps)

lemma readPaidTransactionOutcome_at:
  "outcome_ok x \<Longrightarrow>
   readPaidTransactionOutcome (at pre (outcome_layout x @ rest)) = Inr (x, at (pre @ outcome_layout x) rest)"
  by (induction x rule: outcome_layout.induct)
    (simp_all add: readPaidTransactionOutcome_def reader_simps readPaidV2Rejection_at)

lemma readPaidQuoteOutcome_at:
  "quote_outcome_ok x \<Longrightarrow>
   readPaidQuoteOutcome (at pre (quote_outcome_layout x @ rest)) = Inr (x, at (pre @ quote_outcome_layout x) rest)"
  by (cases x)
    (simp_all add: readPaidQuoteOutcome_def reader_simps readPaidV2Rejection_at readExecutionQuoteV1_at bytes_ok_def)

lemma readTunnelReplyV1_at:
  assumes "reply_ok x"
  shows "readTunnelReplyV1 (at pre (reply_layout x @ rest)) = Inr (x, at (pre @ reply_layout x) rest)"
proof (cases x)
  case (TunnelData seq off d fin)
  then have "bytes_ok d" using assms by (simp add: bytes_ok_def TUNNEL_PART_MAX_DATA_def)
  then show ?thesis
    using TunnelData assms fin_index index_bounds(2)
    by (cases fin) (simp_all add: readTunnelReplyV1_def fin_layout_def range_defs reader_simps)
next
  case (TunnelRejected seq c retryable detail)
  then have "bytes_ok (text_encode detail)"
    using assms by (simp add: bytes_ok_def TUNNEL_REJECT_DETAIL_MAX_def)
  then show ?thesis
    using TunnelRejected assms reject_index[of c] index_bounds(3)[of c]
    by (simp add: readTunnelReplyV1_def string_layout_def range_defs reader_simps text_decode_lossy_encode)
qed

interpretation outcome_codec: wire_codec writePaidTransactionOutcome readPaidTransactionOutcome
  outcome_layout outcome_ok
  by unfold_locales (auto intro: emits_outcome readPaidTransactionOutcome_at)

interpretation quote_outcome_codec: wire_codec writePaidQuoteOutcome readPaidQuoteOutcome
  quote_outcome_layout quote_outcome_ok
  by unfold_locales (auto intro: emits_quote_outcome readPaidQuoteOutcome_at)

interpretation reply_codec: wire_codec writeTunnelReplyV1 readTunnelReplyV1 reply_layout reply_ok
  by unfold_locales (auto intro: emits_reply readTunnelReplyV1_at)

subsection \<open>Submit rejections\<close>

lemma well_formed_ascii_append: "ascii s \<Longrightarrow> well_formed d \<Longrightarrow> well_formed (js_lit s @ d)"
proof (induction s)
  case Nil
  then show ?case by (simp add: js_lit_def)
next
  case (Cons c s)
  then have "\<not> is_high (word_of_nat (of_char c))" "\<not> is_low (word_of_nat (of_char c))"
    by (simp_all add: ascii_def ascii_unit is_high_def is_low_def)
  moreover have "well_formed (js_lit s @ d)" using Cons by (simp add: ascii_def)
  ultimately show ?case
    by (cases "js_lit s @ d") (simp_all add: js_lit_def)
qed

lemma usv_ascii_append: "ascii s \<Longrightarrow> usv (js_lit s @ d) = map of_char s @ usv d"
proof (induction s)
  case Nil
  then show ?case by (simp add: js_lit_def)
next
  case (Cons c s)
  then have "\<not> is_high (word_of_nat (of_char c))" "\<not> is_low (word_of_nat (of_char c))"
      "unat (word_of_nat (of_char c) :: code_unit) = of_char c"
    by (simp_all add: ascii_def ascii_unit is_high_def is_low_def)
  moreover have "usv (js_lit s @ d) = map of_char s @ usv d" using Cons by (simp add: ascii_def)
  ultimately show ?case
    by (cases "js_lit s @ d") (simp_all add: js_lit_def)
qed

lemma text_encode_ascii_append:
  "ascii s \<Longrightarrow> text_encode (js_lit s @ d) = text_encode (js_lit s) @ text_encode d"
  by (simp add: text_encode_def usv_ascii_append ascii_usv)

definition submit_code_names :: "string list" where
  "submit_code_names = [''SIMULATION'', ''PAYMENT_MISSING'', ''PRICE_UNAVAILABLE'', ''UNPROFITABLE'',
     ''GAS_PLAN'', ''DUPLICATE'', ''SUBMISSION'']"

lemma submit_codes_facts:
  "list_all (\<lambda>c. ascii c \<and> c \<noteq> [] \<and> CHR '':'' \<notin> set c) submit_code_names"
  by (simp add: submit_code_names_def ascii_def)

lemma colon_not_in_lit: "ascii c \<Longrightarrow> CHR '':'' \<notin> set c \<Longrightarrow> COLON \<notin> set (js_lit c)"
proof
  assume c: "ascii c" "CHR '':'' \<notin> set c" and "COLON \<in> set (js_lit c)"
  then obtain x where x: "x \<in> set c" "word_of_nat (of_char x) = COLON"
    by (auto simp: js_lit_def)
  then have "(of_char x :: nat) = 58"
    using c(1) ascii_unit[of x] by (auto simp: ascii_def list_all_iff COLON_def)
  then have "x = CHR '':''"
    using of_char_eq_iff[of x "CHR '':''", where 'a = nat] by simp
  with x c show False by simp
qed

lemma js_indexOf_first:
  assumes "x \<notin> set ys"
  shows "js_indexOf (ys @ x # zs) x = int (length ys)"
proof -
  have "List.extract (\<lambda>y. y = x) (ys @ x # zs) = Some (ys, x, zs)"
    using assms by (induction ys) (auto simp: extract_Cons_code)
  then show ?thesis by (simp add: js_indexOf_def)
qed

definition rejection_text :: "string \<Rightarrow> js_string \<Rightarrow> js_string" where
  "rejection_text c detail = js_lit ''tx_error:'' @ js_lit c @ COLON # detail"

lemma rejection_text_lit: "rejection_text c detail = js_lit (''tx_error:'' @ c @ '':'') @ detail"
  by (simp add: rejection_text_def js_lit_def COLON_def)

lemma rejection_text_decodes:
  assumes "ascii c" "well_formed detail"
  shows "text_decode True (text_encode (rejection_text c detail)) = Some (rejection_text c detail)"
proof (rule text_decode_encode)
  have "ascii (''tx_error:'' @ c @ '':'')" using assms(1) by (simp add: ascii_def)
  then show "well_formed (rejection_text c detail)"
    unfolding rejection_text_lit using assms(2) by (rule well_formed_ascii_append)
  show "\<not> has_bom (rejection_text c detail)"
    by (simp add: rejection_text_def js_lit_def has_bom_def)
qed

lemma rejection_text_prefix:
  "startsWith (text_encode (rejection_text c detail)) SUBMIT_ERROR_PREFIX"
proof -
  have "ascii ''tx_error:''" by (simp add: ascii_def)
  then show ?thesis
    by (simp add: rejection_text_def text_encode_ascii_append startsWith_def SUBMIT_ERROR_PREFIX_def)
qed

subsection \<open>Properties of the reply formats\<close>

text \<open>
  Round trip of paid outcomes. Transaction and quote outcomes with 32-byte identifiers, a
  65-byte exit signature, well-sized quote fields and a legal rejection detail (1 to 256 bytes of
  UTF-8, no control characters, well-formed, no leading byte order mark) decode to themselves,
  and the decoders refuse trailing bytes.
\<close>

theorem paid_outcome_round_trip:
  assumes "outcome_ok x" "quote_outcome_ok y" "junk \<noteq> []"
  shows "rbind (encodePaidTransactionOutcomeV2 x) decodePaidTransactionOutcomeV2 = Inr x
    \<and> rbind (encodePaidQuoteOutcomeV2 y) decodePaidQuoteOutcomeV2 = Inr y
    \<and> rbind (encodePaidTransactionOutcomeV2 x) (\<lambda>bs. decodePaidTransactionOutcomeV2 (bs @ junk))
        = throw DecryptionFailed ''trailing bytes''
    \<and> rbind (encodePaidQuoteOutcomeV2 y) (\<lambda>bs. decodePaidQuoteOutcomeV2 (bs @ junk))
        = throw DecryptionFailed ''trailing bytes''"
  using outcome_codec.round_trip_strict[OF assms(1)]
    outcome_codec.strict_rejects_trailing[OF assms(1,3)] outcome_codec.encode_layout[OF assms(1)]
    quote_outcome_codec.round_trip_strict[OF assms(2)]
    quote_outcome_codec.strict_rejects_trailing[OF assms(2,3)]
    quote_outcome_codec.encode_layout[OF assms(2)]
  by (simp add: encodePaidTransactionOutcomeV2_def decodePaidTransactionOutcomeV2_def
      encodePaidQuoteOutcomeV2_def decodePaidQuoteOutcomeV2_def)

definition sample_rejection :: paid_rejection where
  "sample_rejection = \<lparr>rej_code = StalePrice, rej_retryable = True, rej_detail = js_lit ''price is stale''\<rparr>"

lemma sample_rejection_ok: "rejection_ok sample_rejection"
proof -
  have a: "ascii ''price is stale''" by (simp add: ascii_def)
  have "string_ok (js_lit ''price is stale'')" using a by (rule ascii_string_ok) simp
  moreover have "\<not> has_controls (js_lit ''price is stale'')"
    by (simp add: has_controls_def js_lit_def)
  ultimately show ?thesis
    using ascii_text_encode[OF a]
    by (simp add: sample_rejection_def rejection_ok_def rejection_encodable_def string_ok_def
        MAX_SUBMIT_REJECTION_DETAIL_BYTES_def)
qed

theorem paid_outcome_round_trip_witness:
  "rbind (encodePaidTransactionOutcomeV2 (Rejected (Some (replicate 32 9)) sample_rejection))
      decodePaidTransactionOutcomeV2 = Inr (Rejected (Some (replicate 32 9)) sample_rejection)
    \<and> rbind (encodePaidQuoteOutcomeV2 (QuoteRejected sample_rejection)) decodePaidQuoteOutcomeV2
        = Inr (QuoteRejected sample_rejection)"
  using paid_outcome_round_trip[of "Rejected (Some (replicate 32 9)) sample_rejection"
      "QuoteRejected sample_rejection" "[0]"] sample_rejection_ok
  by simp

text \<open>
  Round trip of tunnel parts: every \<open>Data\<close> part of at most 30656 bytes and every \<open>Rejected\<close>
  part with a detail of at most 256 bytes decodes to itself, and trailing bytes are refused.
\<close>

theorem tunnel_reply_round_trip:
  assumes "reply_ok x" "junk \<noteq> []"
  shows "rbind (encodeTunnelReplyV1 x) decodeTunnelReplyV1 = Inr x
    \<and> rbind (encodeTunnelReplyV1 x) (\<lambda>bs. decodeTunnelReplyV1 (bs @ junk))
        = throw DecryptionFailed ''trailing bytes''"
  using reply_codec.round_trip_strict[OF assms(1)] reply_codec.strict_rejects_trailing[OF assms]
    reply_codec.encode_layout[OF assms(1)]
  by (simp add: encodeTunnelReplyV1_def decodeTunnelReplyV1_def)

theorem tunnel_reply_round_trip_witness:
  "rbind (encodeTunnelReplyV1 (TunnelData 3 900 [1, 2] (Some NeedSurbs))) decodeTunnelReplyV1
     = Inr (TunnelData 3 900 [1, 2] (Some NeedSurbs))"
  using tunnel_reply_round_trip[of "TunnelData 3 900 [1, 2] (Some NeedSurbs)" "[0]"]
  by (simp add: range_defs TUNNEL_PART_MAX_DATA_def)

subsection \<open>What an accepted reply looks like\<close>

lemma p_fail_not_Inr [simp]: "p_fail e r \<noteq> Inr y"
  by (simp add: p_fail_def)

lemma strict_decode_Inr:
  assumes "decode_with (pbind p (\<lambda>x. pbind r_expectEnd (\<lambda>_. preturn x))) bs = Inr x"
  obtains rest r' where "bs = le_u8 PAYLOAD_VERSION @ rest"
    "p (at (le_u8 PAYLOAD_VERSION) rest) = Inr (x, r')" "pos r' = length (buf r')"
proof -
  obtain rest r'' where "bs = le_u8 PAYLOAD_VERSION @ rest"
    "pbind p (\<lambda>x. pbind r_expectEnd (\<lambda>_. preturn x)) (at (le_u8 PAYLOAD_VERSION) rest) = Inr (x, r'')"
    using decode_with_Inr[OF assms] by blast
  with that show thesis
    by (auto simp: pbind_Inr_iff r_expectEnd_Inr preturn_def)
qed

lemma at_end: "pos (at pre rest) = length (buf (at pre rest)) \<longleftrightarrow> rest = []"
  by (simp add: at_def)

lemma js_at_index: "distinct xs \<Longrightarrow> js_at xs i = Some x \<Longrightarrow> js_indexOf xs x = i"
proof -
  assume d: "distinct xs" and "js_at xs i = Some x"
  then have i: "0 \<le> i" "nat i < length xs" "xs ! nat i = x"
    by (auto simp: js_at_def split: if_splits)
  then have "xs = take (nat i) xs @ x # drop (Suc (nat i)) xs"
    by (metis id_take_nth_drop)
  moreover from this d have "x \<notin> set (take (nat i) xs)"
    by (metis distinct_append disjoint_iff list.set_intros(1))
  ultimately have "js_indexOf xs x = int (length (take (nat i) xs))"
    using js_indexOf_first by metis
  then show ?thesis using i by simp
qed

lemma fin_inv:
  assumes "r_option (pbind r_u32 (\<lambda>index. case js_at TUNNEL_FIN_V1 index of
             None \<Rightarrow> p_fail e | Some x \<Rightarrow> preturn x)) (at pre bs) = Inr (fin, r')"
  obtains rest where "bs = fin_layout fin @ rest" "r' = at (pre @ fin_layout fin) rest"
proof -
  have d: "distinct TUNNEL_FIN_V1" by (simp add: TUNNEL_FIN_V1_def)
  show thesis
  proof (cases fin)
    case None
    then obtain rest where "bs = le_u8 0 @ rest" "r' = at (pre @ le_u8 0) rest"
      using assms by (auto simp: r_option_def pbind_Inr_iff parse_iffs preturn_def split: if_splits option.splits)
    then show thesis using None that[of rest] by (simp add: fin_layout_def)
  next
    case (Some x)
    then obtain tag i rest where t: "bs = le_u8 tag @ le_u32 i @ rest" "0 \<le> tag" "tag \<noteq> 0" "\<not> 1 < tag"
        "js_at TUNNEL_FIN_V1 i = Some x" "r' = at (pre @ le_u8 tag @ le_u32 i) rest"
      using assms by (auto simp: r_option_def pbind_Inr_iff parse_iffs preturn_def split: if_splits option.splits)
    have tag: "tag = 1" using t(2,3,4) by linarith
    show thesis
      using that[of rest] t(1,6) js_at_index[OF d t(5)] Some unfolding tag by (simp add: fin_layout_def)
  qed
qed

lemma readTunnelReplyV1_data_inv:
  assumes small: "length pre + length bs < 2 ^ 53"
    and run: "readTunnelReplyV1 (at pre bs) = Inr (TunnelData seq off d fin, r')"
  obtains rest where "bs = reply_layout (TunnelData seq off d fin) @ rest"
    "r' = at (pre @ reply_layout (TunnelData seq off d fin)) rest" "reply_ok (TunnelData seq off d fin)"
proof -
  let ?pre = "pre @ le_u32 0 @ le_u32 seq @ le_u64 off"
  from run obtain rest1 r2 where bs: "bs = le_u32 0 @ le_u32 seq @ le_u64 off @ rest1"
      and ranges: "u32_ok seq" "u64_ok off" "length d \<le> TUNNEL_PART_MAX_DATA"
      and d: "r_bytes (at ?pre rest1) = Inr (d, r2)"
      and f: "r_option (pbind r_u32 (\<lambda>index. case js_at TUNNEL_FIN_V1 index of
             None \<Rightarrow> p_fail (invalidTunnelReply ''unknown fin index'') | Some x \<Rightarrow> preturn x)) r2 = Inr (fin, r')"
    by (auto simp: readTunnelReplyV1_def pbind_Inr_iff parse_iffs preturn_def range_defs
        split: if_splits option.splits)
  have "length ?pre + length rest1 < 2 ^ 53" using small bs by simp
  from r_bytes_inv[OF this d] obtain rest2 where r2: "rest1 = bytes_layout d @ rest2"
      "r2 = at (?pre @ bytes_layout d) rest2" by blast
  from fin_inv[OF f[unfolded r2(2)]] obtain rest3 where
    "rest2 = fin_layout fin @ rest3" "r' = at ((?pre @ bytes_layout d) @ fin_layout fin) rest3" by blast
  then show thesis using that[of rest3] bs r2 ranges by simp
qed

lemma readExecutionQuoteV1_inv:
  assumes "readExecutionQuoteV1 (at pre bs) = Inr (q, r')"
  obtains rest where "bs = quote_layout q @ rest" "r' = at (pre @ quote_layout q) rest" "quote_ok q"
  using assms that
  unfolding readExecutionQuoteV1_def pbind_Inr_iff parse_iffs preturn_def
  by (elim exE conjE) (auto simp: parse_iffs quote_layout_def quote_ok_def quote_lengths_def range_defs)

lemma issued_inv:
  assumes small: "length pre + length bs < 2 ^ 53"
    and run: "readPaidQuoteOutcome (at pre bs) = Inr (Issued q e sig, r')"
  obtains rest where "bs = quote_outcome_layout (Issued q e sig) @ rest"
    "r' = at (pre @ quote_outcome_layout (Issued q e sig)) rest" "quote_outcome_ok (Issued q e sig)"
proof -
  from run obtain rest1 r1 r2 where bs: "bs = le_u32 0 @ rest1"
      and q: "readExecutionQuoteV1 (at (pre @ le_u32 0) rest1) = Inr (q, r1)"
      and e: "r_fixedBytes 32 r1 = Inr (e, r2)" and s: "r_bytes r2 = Inr (sig, r')" "length sig = 65"
    by (auto simp: readPaidQuoteOutcome_def pbind_Inr_iff parse_iffs preturn_def split: if_splits)
  from readExecutionQuoteV1_inv[OF q] obtain rest2 where
    r1: "rest1 = quote_layout q @ rest2" "r1 = at ((pre @ le_u32 0) @ quote_layout q) rest2" "quote_ok q"
    by blast
  from e r1(2) obtain rest3 where r2: "rest2 = e @ rest3" "length e = 32"
      "r2 = at (((pre @ le_u32 0) @ quote_layout q) @ e) rest3"
    by (auto simp: parse_iffs)
  have "length (((pre @ le_u32 0) @ quote_layout q) @ e) + length rest3 < 2 ^ 53"
    using small bs r1(1) r2(1) by simp
  from r_bytes_inv[OF this s(1)[unfolded r2(3)]] obtain rest4 where
    "rest3 = bytes_layout sig @ rest4" "r' = at ((((pre @ le_u32 0) @ quote_layout q) @ e) @ bytes_layout sig) rest4"
    by blast
  then show thesis using that[of rest4] bs r1 r2 s(2) by simp
qed

text \<open>
  Accepted replies are canonical. Whatever bytes arrive (below 2^53 of them), a tunnel data
  part, a submission receipt or a signed quote that the decoder accepts is within its limits
  (at most 30656 data bytes, 32-byte identifiers, a 65-byte signature, every quote field at its
  width) and encodes back to exactly the bytes received: no two byte strings decode to the same
  accepted quote, and nothing of the input is ignored.
\<close>

theorem accepted_replies_canonical:
  assumes "length bs < 2 ^ 53"
  shows "(decodeTunnelReplyV1 bs = Inr (TunnelData seq off d fin) \<longrightarrow>
        reply_ok (TunnelData seq off d fin) \<and> encodeTunnelReplyV1 (TunnelData seq off d fin) = Inr bs)
    \<and> (decodePaidTransactionOutcomeV2 bs = Inr (Submitted i h) \<longrightarrow>
        outcome_ok (Submitted i h) \<and> encodePaidTransactionOutcomeV2 (Submitted i h) = Inr bs)
    \<and> (decodePaidQuoteOutcomeV2 bs = Inr (Issued q e sig) \<longrightarrow>
        quote_outcome_ok (Issued q e sig) \<and> encodePaidQuoteOutcomeV2 (Issued q e sig) = Inr bs)"
proof (intro conjI impI)
  assume "decodeTunnelReplyV1 bs = Inr (TunnelData seq off d fin)"
  then obtain rest r' where b: "bs = le_u8 PAYLOAD_VERSION @ rest"
      and r: "readTunnelReplyV1 (at (le_u8 PAYLOAD_VERSION) rest) = Inr (TunnelData seq off d fin, r')"
      and e: "pos r' = length (buf r')"
    unfolding decodeTunnelReplyV1_def by (rule strict_decode_Inr)
  have "length (le_u8 PAYLOAD_VERSION) + length rest < 2 ^ 53" using assms b by simp
  from readTunnelReplyV1_data_inv[OF this r] obtain rest2 where
    "rest = reply_layout (TunnelData seq off d fin) @ rest2" "pos r' = length (buf r') \<longleftrightarrow> rest2 = []"
    and ok: "reply_ok (TunnelData seq off d fin)"
    by (metis at_end)
  then have "rest = reply_layout (TunnelData seq off d fin)" using e by simp
  with ok show "reply_ok (TunnelData seq off d fin)" "encodeTunnelReplyV1 (TunnelData seq off d fin) = Inr bs"
    using reply_codec.encode_layout[OF ok] b by (simp_all only: encodeTunnelReplyV1_def)
next
  assume "decodePaidTransactionOutcomeV2 bs = Inr (Submitted i h)"
  then obtain rest r' where b: "bs = le_u8 PAYLOAD_VERSION @ rest"
      and r: "readPaidTransactionOutcome (at (le_u8 PAYLOAD_VERSION) rest) = Inr (Submitted i h, r')"
      and e: "pos r' = length (buf r')"
    unfolding decodePaidTransactionOutcomeV2_def by (rule strict_decode_Inr)
  from r e have "rest = outcome_layout (Submitted i h)" and ok: "outcome_ok (Submitted i h)"
    by (auto simp: readPaidTransactionOutcome_def pbind_Inr_iff parse_iffs preturn_def at_end
        split: if_splits option.splits)
  then show "outcome_ok (Submitted i h)" "encodePaidTransactionOutcomeV2 (Submitted i h) = Inr bs"
    using outcome_codec.encode_layout[OF ok] b by (simp_all only: encodePaidTransactionOutcomeV2_def)
next
  assume "decodePaidQuoteOutcomeV2 bs = Inr (Issued q e sig)"
  then obtain rest r' where b: "bs = le_u8 PAYLOAD_VERSION @ rest"
      and r: "readPaidQuoteOutcome (at (le_u8 PAYLOAD_VERSION) rest) = Inr (Issued q e sig, r')"
      and en: "pos r' = length (buf r')"
    unfolding decodePaidQuoteOutcomeV2_def by (rule strict_decode_Inr)
  have small: "length (le_u8 PAYLOAD_VERSION) + length rest < 2 ^ 53" using assms b by simp
  from issued_inv[OF small r] obtain rest2 where
    "rest = quote_outcome_layout (Issued q e sig) @ rest2" "pos r' = length (buf r') \<longleftrightarrow> rest2 = []"
    and ok: "quote_outcome_ok (Issued q e sig)"
    by (metis at_end)
  then have "rest = quote_outcome_layout (Issued q e sig)" using en by simp
  with ok show "quote_outcome_ok (Issued q e sig)" "encodePaidQuoteOutcomeV2 (Issued q e sig) = Inr bs"
    using quote_outcome_codec.encode_layout[OF ok] b by (simp_all only: encodePaidQuoteOutcomeV2_def)
qed

theorem accepted_replies_canonical_witness:
  "decodePaidTransactionOutcomeV2 ([1, 0, 0, 0, 0] @ replicate 32 7 @ replicate 32 9)
     = Inr (Submitted (replicate 32 7) (replicate 32 9))
   \<and> encodePaidTransactionOutcomeV2 (Submitted (replicate 32 7) (replicate 32 9))
     = Inr ([1, 0, 0, 0, 0] @ replicate 32 7 @ replicate 32 9)"
proof -
  let ?x = "Submitted (replicate 32 7) (replicate 32 9)"
  have "[1, 0, 0, 0, 0] @ replicate 32 7 @ replicate 32 9 = le_u8 PAYLOAD_VERSION @ outcome_layout ?x @ []"
  proof -
    have "le_u8 PAYLOAD_VERSION = [1]" "le_u32 0 = [0, 0, 0, 0]" by code_simp+
    then show ?thesis by simp
  qed
  moreover have "rbind (encodePaidTransactionOutcomeV2 ?x) decodePaidTransactionOutcomeV2 = Inr ?x"
    using outcome_codec.round_trip_strict[of ?x]
    by (simp add: encodePaidTransactionOutcomeV2_def decodePaidTransactionOutcomeV2_def[abs_def])
  ultimately have "decodePaidTransactionOutcomeV2 ([1, 0, 0, 0, 0] @ replicate 32 7 @ replicate 32 9) = Inr ?x"
    using outcome_codec.encode_layout[of ?x] by (simp add: encodePaidTransactionOutcomeV2_def)
  then show ?thesis
    using accepted_replies_canonical[of "[1, 0, 0, 0, 0] @ replicate 32 7 @ replicate 32 9"] by simp
qed

text \<open>
  Classification of submit responses. A rejection text with a known code and a well-formed
  detail of 1 to 256 bytes without controls is decoded to that code and detail, colons in the
  detail included; and a reply decoded as a submitted transaction was 32 bytes not starting with
  the rejection prefix, with the hash rendering those bytes.
\<close>

theorem submit_response_classified:
  assumes "c \<in> set submit_code_names" "well_formed detail" "detail \<noteq> []" "\<not> has_controls detail"
    and "length (text_encode detail) \<le> MAX_SUBMIT_REJECTION_DETAIL_BYTES"
  shows "decodeSubmitTransactionResponse (text_encode (rejection_text c detail))
           = Inr (SubmitRejected (js_lit c) detail)
    \<and> (decodeSubmitTransactionResponse bs = Inr (SubmitSubmitted hash) \<longrightarrow>
        length bs = 32 \<and> \<not> startsWith bs SUBMIT_ERROR_PREFIX \<and> hexToBytes hash = Inr bs)"
proof (intro conjI impI)
  have c: "ascii c" "c \<noteq> []" "CHR '':'' \<notin> set c"
    using assms(1) submit_codes_facts by (auto simp: list_all_iff)
  have listed: "js_lit c \<in> set SUBMIT_REJECTION_CODES"
    using assms(1) by (auto simp: SUBMIT_REJECTION_CODES_def submit_code_names_def)
  have enc: "drop 9 (rejection_text c detail) = js_lit c @ COLON # detail"
    by (simp add: rejection_text_def js_lit_def)
  have sep: "js_indexOf (js_lit c @ COLON # detail) COLON = int (length (js_lit c))"
    by (rule js_indexOf_first) (rule colon_not_in_lit[OF c(1,3)])
  have pos: "0 < length (js_lit c)" using c(2) by (simp add: js_lit_def)
  have "decodeSubmitRejection (text_encode (rejection_text c detail)) = Inr (SubmitRejected (js_lit c) detail)"
    unfolding decodeSubmitRejection_def rejection_text_decodes[OF c(1) assms(2)] option.case Let_def enc sep
    using assms listed pos by simp
  then show "decodeSubmitTransactionResponse (text_encode (rejection_text c detail))
      = Inr (SubmitRejected (js_lit c) detail)"
    by (simp add: decodeSubmitTransactionResponse_def rejection_text_prefix)
next
  assume run: "decodeSubmitTransactionResponse bs = Inr (SubmitSubmitted hash)"
  then have no: "\<not> startsWith bs SUBMIT_ERROR_PREFIX"
    by (auto simp: decodeSubmitTransactionResponse_def decodeSubmitRejection_def Let_def
        split: if_splits option.splits)
  with run show "length bs = 32" "\<not> startsWith bs SUBMIT_ERROR_PREFIX" "hexToBytes hash = Inr bs"
    by (auto simp: decodeSubmitTransactionResponse_def hexToBytes_0x_bytesToHex[simplified] split: if_splits)
qed

theorem submit_response_classified_witness:
  "decodeSubmitTransactionResponse (text_encode (rejection_text ''DUPLICATE'' (js_lit ''id: 7'')))
     = Inr (SubmitRejected (js_lit ''DUPLICATE'') (js_lit ''id: 7''))"
proof -
  have a: "ascii ''id: 7''" by (simp add: ascii_def)
  have "string_ok (js_lit ''id: 7'')" using a by (rule ascii_string_ok) simp
  moreover have "\<not> has_controls (js_lit ''id: 7'')" "js_lit ''id: 7'' \<noteq> []"
    by (simp_all add: has_controls_def js_lit_def)
  ultimately show ?thesis
    using submit_response_classified[of "''DUPLICATE''" "js_lit ''id: 7''"] ascii_text_encode[OF a]
    by (simp add: submit_code_names_def string_ok_def MAX_SUBMIT_REJECTION_DETAIL_BYTES_def)
qed

text \<open>
  \<open>decodeRpcResponse\<close> does not check its length prefix. A response whose declared payload
  length exceeds the bytes present decodes successfully with the shorter payload, and a response
  under 20 bytes ends in the language's \<open>RangeError\<close>, not in a \<open>DECRYPTION_FAILED\<close> client error
  as every other decoder of the module does.
\<close>

theorem decodeRpcResponse_unchecked:
  assumes "0 \<le> i" "i < 2 ^ 64" "length d < n" "n < 2 ^ 53"
  shows "decodeRpcResponse (le_u64 i @ le_u32 0 @ le_u64 (int n) @ d) =
      Inr \<lparr>rpc_id = i, rpc_result = RpcOk d\<rparr>
    \<and> (length bs < 20 \<longrightarrow>
        decodeRpcResponse bs = Inl (JsRangeError ''Offset is outside the bounds of the DataView''))"
proof (intro conjI impI)
  have "int (le_value (le_int 8 i)) = i" "int (le_value (le_int 8 (int n))) = int n" "le_value (le_int 4 0) = 0"
    using assms le_value_le_int[of i 8] le_value_le_int[of "int n" 8] le_value_le_int[of 0 4] by simp_all
  moreover from this have "le_value (le_int 8 (int n)) = n" by simp
  ultimately show "decodeRpcResponse (le_u64 i @ le_u32 0 @ le_u64 (int n) @ d) =
      Inr \<lparr>rpc_id = i, rpc_result = RpcOk d\<rparr>"
    using assms by (simp add: decodeRpcResponse_def view_le_def le_defs js_number_exact)
next
  assume "length bs < 20"
  then show "decodeRpcResponse bs = Inl (JsRangeError ''Offset is outside the bounds of the DataView'')"
    by (simp add: decodeRpcResponse_def view_le_def)
qed

theorem decodeRpcResponse_unchecked_witness:
  "decodeRpcResponse (le_u64 5 @ le_u32 0 @ le_u64 (int 100) @ [1, 2]) =
     Inr \<lparr>rpc_id = 5, rpc_result = RpcOk [1, 2]\<rparr>"
  using decodeRpcResponse_unchecked[of 5 "[1, 2]" 100] by simp

text \<open>
  A rejection whose detail is the single character U+FEFF is accepted by the encoder, and
  the decoder, which strips a leading byte order mark after its emptiness check, returns an
  empty detail: the rule that a rejection carries a non-empty detail is not kept.
\<close>

theorem rejection_detail_may_be_empty:
  "rbind (encodePaidTransactionOutcomeV2
       (Rejected None \<lparr>rej_code = WrongChain, rej_retryable = False, rej_detail = [0xFEFF]\<rparr>))
     decodePaidTransactionOutcomeV2
   = Inr (Rejected None \<lparr>rej_code = WrongChain, rej_retryable = False, rej_detail = []\<rparr>)"
proof -
  let ?r = "\<lparr>rej_code = WrongChain, rej_retryable = False, rej_detail = [0xFEFF]\<rparr> :: paid_rejection"
  have e: "text_encode [0xFEFF] = [0xEF, 0xBB, 0xBF]"
    by (simp add: text_encode_def utf8_of_scalar_def is_high_def is_low_def byte_of_def)
  have d: "text_decode True [0xEF, 0xBB, 0xBF] = Some []"
  proof -
    have "usv [0xFEFF] = [0xFEFF]" by (simp add: is_high_def is_low_def)
    then have "utf8_run True utf8_init (text_encode [0xFEFF]) = Some [0xFEFF]"
      using utf8_run_scalars[of "usv [0xFEFF]"] usv_scalar[of "[0xFEFF]"] by (simp add: text_encode_def)
    then show ?thesis by (simp add: e text_decode_def strip_bom_def)
  qed
  have c: "\<not> has_controls [0xFEFF]" "\<not> has_controls []" by (simp_all add: has_controls_def)
  have emits: "emits (writePaidTransactionOutcome (Rejected None ?r)) (outcome_layout (Rejected None ?r))"
    using emits_rejection[of ?r] c(1) e
    by (simp add: writePaidTransactionOutcome_def rejection_encodable_def MAX_SUBMIT_REJECTION_DETAIL_BYTES_def
        del: w_all.simps) (intro emits_seq)
  have i: "js_indexOf PAID_TRANSACTION_REJECTION_CODES_V2 WrongChain = 1"
    by (simp add: js_indexOf_def PAID_TRANSACTION_REJECTION_CODES_V2_def extract_Cons_code extract_Nil_code)
  have a: "js_at PAID_TRANSACTION_REJECTION_CODES_V2 1 = Some WrongChain"
    using paid_index(1)[of WrongChain] by (simp add: i)
  have dec: "decodePaidTransactionOutcomeV2 (le_u8 PAYLOAD_VERSION @ outcome_layout (Rejected None ?r))
      = Inr (Rejected None \<lparr>rej_code = WrongChain, rej_retryable = False, rej_detail = []\<rparr>)"
    using r_bytes_at[of "[0xEF, 0xBB, 0xBF]" _ "[]"]
    by (simp add: decodePaidTransactionOutcomeV2_def decode_with_at readPaidTransactionOutcome_def
        rejection_layout_def e i a bool_byte_def readPaidV2Rejection_def d c reader_simps bytes_ok_def
        MAX_SUBMIT_REJECTION_DETAIL_BYTES_def)
  show ?thesis
    using encode_with_emits[OF emits] dec by (simp add: encodePaidTransactionOutcomeV2_def)
qed

end
