(* ===== verification/Http_Response.thy ===== *)
theory Http_Response
  imports Bincode_Codec
begin

section \<open>The exit's HTTP reply\<close>

text \<open>
  \<open>packages/nox-client/src/http_response.ts\<close>: the decoder of the exit's serialized HTTP response
  and its \<open>ReplyReader\<close>, which unlike the bincode reader compares the length prefix as a bigint
  and decodes UTF-8 fatally. \<open>http_layout\<close> is the serialization of the exit
  (status, header map, body, truncation flag). The error messages keep their fixed part after
  the common prefix.
\<close>

record http_response =
  status :: int
  headers :: "(js_string \<times> js_string) list"
  body :: bytes
  truncated :: bool

definition MALFORMED :: string where
  "MALFORMED = ''malformed exit HTTP reply''"

definition malformed :: "string \<Rightarrow> nox_error" where
  "malformed detail = NoxClientError DecryptionFailed (MALFORMED @ '': '' @ detail)"

definition rr_remaining :: "reader \<Rightarrow> nat" where
  "rr_remaining r = length (buf r) - pos r"

definition rr_atEnd :: "reader \<Rightarrow> bool" where
  "rr_atEnd r = (pos r = length (buf r))"

definition rr_need :: "nat \<Rightarrow> reader \<Rightarrow> unit result" where
  "rr_need n r = (if length (buf r) < pos r + n then Inl (malformed ''ends early'') else Inr ())"

definition rr_le :: "nat \<Rightarrow> int reading" where
  "rr_le n r = rbind (rr_need n r)
     (\<lambda>_. Inr (int (le_value (take n (drop (pos r) (buf r)))), r\<lparr>pos := pos r + n\<rparr>))"

definition rr_u8 :: "int reading" where
  "rr_u8 = rr_le 1"

definition rr_u16 :: "int reading" where
  "rr_u16 = rr_le 2"

definition rr_u64 :: "int reading" where
  "rr_u64 = rr_le 8"

definition rr_bytes :: "bytes reading" where
  "rr_bytes = pbind rr_u64 (\<lambda>len r.
     if len > int (rr_remaining r) then Inl (malformed ''length exceeds the bytes left'')
     else (let size = js_number (nat len) in
           Inr (take size (drop (pos r) (buf r)), r\<lparr>pos := pos r + size\<rparr>)))"

definition rr_utf8 :: "js_string reading" where
  "rr_utf8 = pbind rr_bytes (\<lambda>raw r.
     case text_decode True raw of
       None \<Rightarrow> Inl (malformed ''a header is not UTF-8'')
     | Some s \<Rightarrow> Inr (s, r))"

fun rr_headers :: "nat \<Rightarrow> (js_string \<times> js_string) list reading" where
  "rr_headers 0 = preturn []"
| "rr_headers (Suc n) =
     pbind rr_utf8 (\<lambda>k. pbind rr_utf8 (\<lambda>v. pbind (rr_headers n) (\<lambda>hs. preturn ((k, v) # hs))))"

definition readHttpResponse :: "http_response reading" where
  "readHttpResponse =
     pbind rr_u16 (\<lambda>st. pbind rr_u64 (\<lambda>cnt. pbind (rr_headers (nat cnt)) (\<lambda>hs.
     pbind rr_bytes (\<lambda>bd. pbind rr_u8 (\<lambda>flag r.
       if flag > 1 then Inl (malformed ''truncated flag byte is not a bool'')
       else if \<not> rr_atEnd r then Inl (malformed ''trailing bytes'')
       else Inr (\<lparr>status = st, headers = hs, body = bd, truncated = (flag = 1)\<rparr>, r))))))"

definition decodeHttpResponse :: "bytes \<Rightarrow> http_response result" where
  "decodeHttpResponse bs = rbind (readHttpResponse \<lparr>buf = bs, pos = 0\<rparr>) (\<lambda>(x, _). Inr x)"

subsection \<open>The exit's serialization\<close>

definition header_layout :: "js_string \<times> js_string \<Rightarrow> bytes" where
  "header_layout h = string_layout (fst h) @ string_layout (snd h)"

definition http_layout :: "http_response \<Rightarrow> bytes" where
  "http_layout h = le_u16 (status h) @ le_u64 (int (length (headers h)))
     @ concat (map header_layout (headers h)) @ bytes_layout (body h) @ le_u8 (bool_byte (truncated h))"

definition http_ok :: "http_response \<Rightarrow> bool" where
  "http_ok h = (0 \<le> status h \<and> status h < 2 ^ 16 \<and> length (headers h) < 2 ^ 53
     \<and> list_all (\<lambda>(k, v). string_ok k \<and> string_ok v) (headers h) \<and> bytes_ok (body h))"

lemma rr_le_at: "length bs = n \<Longrightarrow> rr_le n (at pre (bs @ rest)) = Inr (int (le_value bs), at (pre @ bs) rest)"
  by (simp add: rr_le_def rr_need_def at_def)

lemma rr_ints_at:
  "0 \<le> v \<Longrightarrow> v < 256 \<Longrightarrow> rr_u8 (at pre (le_u8 v @ rest)) = Inr (v, at (pre @ le_u8 v) rest)"
  "0 \<le> v \<Longrightarrow> v < 2 ^ 16 \<Longrightarrow> rr_u16 (at pre (le_u16 v @ rest)) = Inr (v, at (pre @ le_u16 v) rest)"
  "0 \<le> v \<Longrightarrow> v < 2 ^ 64 \<Longrightarrow> rr_u64 (at pre (le_u64 v @ rest)) = Inr (v, at (pre @ le_u64 v) rest)"
  by (simp_all add: rr_u8_def rr_u16_def rr_u64_def rr_le_at le_defs le_value_le_int)

lemma rr_bytes_at:
  assumes "bytes_ok d"
  shows "rr_bytes (at pre (bytes_layout d @ rest)) = Inr (d, at (pre @ bytes_layout d) rest)"
proof -
  have d: "length d < 2 ^ 53" using assms by (simp add: bytes_ok_def)
  have "rr_u64 (at pre (bytes_layout d @ rest)) =
      Inr (int (length d), at (pre @ le_u64 (int (length d))) (d @ rest))"
    using d by (simp add: bytes_layout_def rr_ints_at)
  then show ?thesis
    using d by (simp add: rr_bytes_def pbind_def bytes_layout_def rr_remaining_def at_def Let_def js_number_exact)
qed

lemma rr_utf8_at:
  "string_ok s \<Longrightarrow> rr_utf8 (at pre (string_layout s @ rest)) = Inr (s, at (pre @ string_layout s) rest)"
  by (simp add: rr_utf8_def pbind_def string_layout_def rr_bytes_at string_ok_def text_decode_encode)

lemma rr_headers_at:
  "list_all (\<lambda>(k, v). string_ok k \<and> string_ok v) hs \<Longrightarrow>
   rr_headers (length hs) (at pre (concat (map header_layout hs) @ rest)) =
     Inr (hs, at (pre @ concat (map header_layout hs)) rest)"
proof (induction hs arbitrary: pre)
  case Nil
  then show ?case by (simp add: preturn_def)
next
  case (Cons h hs)
  then show ?case
    by (cases h) (simp add: header_layout_def reader_simps rr_utf8_at)
qed

lemma readHttpResponse_at:
  assumes "http_ok h"
  shows "readHttpResponse (at pre (http_layout h @ rest)) =
    (if rest = [] then Inr (h, at (pre @ http_layout h) []) else Inl (malformed ''trailing bytes''))"
proof -
  have n: "int (length (headers h)) < 2 ^ 64" using assms by (simp add: http_ok_def)
  have b: "bool_byte (truncated h) < 256" by simp
  show ?thesis
    using assms n rr_headers_at[of "headers h"]
    by (simp add: readHttpResponse_def http_layout_def http_ok_def reader_simps rr_ints_at rr_bytes_at)
      (simp add: pbind_def rr_ints_at rr_atEnd_def at_def)
qed

subsection \<open>Every failure is a decryption failure\<close>

definition fails_malformed :: "'a reading \<Rightarrow> bool" where
  "fails_malformed p = (\<forall>r e. p r = Inl e \<longrightarrow> (\<exists>m. e = malformed m))"

lemma fails_bind:
  "fails_malformed p \<Longrightarrow> (\<And>x. fails_malformed (k x)) \<Longrightarrow> fails_malformed (pbind p k)"
  by (force simp: fails_malformed_def pbind_def elim: rbind.elims)

lemma fails_return: "fails_malformed (preturn x)"
  by (simp add: fails_malformed_def preturn_def)

lemma fails_le: "fails_malformed (rr_le n)"
  by (auto simp: fails_malformed_def rr_le_def rr_need_def)

lemma fails_ints: "fails_malformed rr_u8" "fails_malformed rr_u16" "fails_malformed rr_u64"
  by (simp_all add: rr_u8_def rr_u16_def rr_u64_def fails_le)

lemma fails_bytes: "fails_malformed rr_bytes"
  unfolding rr_bytes_def
  by (rule fails_bind[OF fails_ints(3)]) (auto simp: fails_malformed_def Let_def)

lemma fails_utf8: "fails_malformed rr_utf8"
  unfolding rr_utf8_def
  by (rule fails_bind[OF fails_bytes]) (auto simp: fails_malformed_def split: option.splits)

lemma fails_headers: "fails_malformed (rr_headers n)"
  by (induction n) (auto intro!: fails_bind fails_utf8 fails_return)

lemma fails_readHttpResponse: "fails_malformed readHttpResponse"
  unfolding readHttpResponse_def
  by (intro fails_bind fails_ints fails_headers fails_bytes) (auto simp: fails_malformed_def)

subsection \<open>Every header costs at least sixteen bytes\<close>

definition inside :: "reader \<Rightarrow> bool" where
  "inside r = (pos r \<le> length (buf r) \<and> length (buf r) < 2 ^ 53)"

definition consumes :: "'a reading \<Rightarrow> ('a \<Rightarrow> nat) \<Rightarrow> bool" where
  "consumes p n = (\<forall>r x r'. p r = Inr (x, r') \<longrightarrow> inside r \<longrightarrow>
     inside r' \<and> buf r' = buf r \<and> pos r + n x \<le> pos r')"

lemma consumes_le: "consumes (rr_le n) (\<lambda>_. n)"
  by (auto simp: consumes_def inside_def rr_le_def rr_need_def rbind_Inr_iff split: if_splits)

lemma consumes_bind:
  assumes "consumes p m" and "\<And>x. consumes (k x) (\<lambda>y. n y - m x)"
  shows "consumes (pbind p k) n"
  unfolding consumes_def
proof (intro allI impI)
  fix r y r'' assume run: "pbind p k r = Inr (y, r'')" and le: "inside r"
  then obtain x r' where p: "p r = Inr (x, r')" and k: "k x r' = Inr (y, r'')"
    by (auto simp: pbind_Inr_iff)
  from assms(1) p le have 1: "inside r'" "buf r' = buf r" "pos r + m x \<le> pos r'"
    unfolding consumes_def by blast+
  with assms(2)[of x] k have "inside r''" "buf r'' = buf r'" "pos r' + (n y - m x) \<le> pos r''"
    unfolding consumes_def by metis+
  with 1 show "inside r'' \<and> buf r'' = buf r \<and> pos r + n y \<le> pos r''" by auto
qed

lemma consumes_bytes: "consumes rr_bytes (\<lambda>d. 8 + length d)"
  unfolding rr_bytes_def rr_u64_def
proof (rule consumes_bind[OF consumes_le])
  fix len
  have fit: "pos r + js_number (nat len) \<le> length (buf r)" if "\<not> len > int (rr_remaining r)" "inside r" for r
  proof -
    have "nat len < 2 ^ 53" using that unfolding rr_remaining_def inside_def by linarith
    then have "js_number (nat len) = nat len" by (rule js_number_exact)
    then show ?thesis
      using that unfolding rr_remaining_def inside_def by linarith
  qed
  then show "consumes (\<lambda>r. if len > int (rr_remaining r) then Inl (malformed ''length exceeds the bytes left'')
      else let size = js_number (nat len) in Inr (take size (drop (pos r) (buf r)), r\<lparr>pos := pos r + size\<rparr>))
      (\<lambda>d. 8 + length d - 8)"
    by (auto simp: consumes_def Let_def inside_def split: if_splits)
qed

lemma consumes_weaken: "consumes p m \<Longrightarrow> (\<And>x. n x \<le> m x) \<Longrightarrow> consumes p n"
  unfolding consumes_def by (meson add_le_mono order_refl order_trans)

lemma consumes_return: "consumes (preturn x) (\<lambda>y. if y = x then 0 else n y)"
  by (simp add: consumes_def preturn_def)

lemma consumes_utf8: "consumes rr_utf8 (\<lambda>_. 8)"
  unfolding rr_utf8_def
  by (rule consumes_bind[OF consumes_weaken[OF consumes_bytes, of "\<lambda>_. 8"]])
    (auto simp: consumes_def split: option.splits)

lemma consumes_headers: "consumes (rr_headers n) (\<lambda>hs. 16 * length hs)"
proof (induction n)
  case 0
  then show ?case by (simp add: consumes_def preturn_def)
next
  case (Suc n)
  have "consumes (preturn ((k, v) # hs)) (\<lambda>y. 16 * length y - 8 - 8 - 16 * length hs)" for k v hs
    by (simp add: consumes_def preturn_def)
  then show ?case
    by (auto intro!: consumes_bind[OF consumes_utf8] consumes_bind[OF Suc])
qed

lemma consumes_readHttpResponse:
  "consumes readHttpResponse (\<lambda>h. 19 + 16 * length (headers h) + length (body h))"
  unfolding readHttpResponse_def rr_u16_def rr_u64_def rr_u8_def
  by (rule consumes_bind[OF consumes_le] consumes_bind[OF consumes_headers] consumes_bind[OF consumes_bytes])+
    (auto simp: consumes_def split: if_splits)

subsection \<open>Properties\<close>

text \<open>
  The HTTP reply decoder inverts the exit's serialization: every response with a 16-bit
  status, well-formed header strings and a body below 2^53 bytes is returned exactly, headers in
  wire order, and any trailing byte is refused.
\<close>

theorem decodeHttpResponse_inverts:
  assumes "http_ok h" "junk \<noteq> []"
  shows "decodeHttpResponse (http_layout h) = Inr h
    \<and> decodeHttpResponse (http_layout h @ junk) = Inl (malformed ''trailing bytes'')"
  using readHttpResponse_at[OF assms(1), of "[]" "[]"] readHttpResponse_at[OF assms(1), of "[]" junk] assms(2)
  by (simp add: decodeHttpResponse_def at_def)

definition sample_http :: http_response where
  "sample_http = \<lparr>status = 404, headers = [(js_lit ''content-type'', js_lit ''text/plain'')],
     body = [1, 2, 3], truncated = True\<rparr>"

theorem decodeHttpResponse_inverts_witness: "decodeHttpResponse (http_layout sample_http) = Inr sample_http"
proof -
  have "string_ok (js_lit ''content-type'')" "string_ok (js_lit ''text/plain'')"
    by (rule ascii_string_ok; simp add: ascii_def)+
  then show ?thesis
    using decodeHttpResponse_inverts[of sample_http "[0]"]
    by (simp add: sample_http_def http_ok_def bytes_ok_def)
qed

text \<open>
  The HTTP reply decoder is safe on hostile input. For every byte string below 2^53 bytes it
  either fails with a \<open>DECRYPTION_FAILED\<close> error of the malformed-reply family, or returns a
  response whose headers and body are paid for by the input: 16 bytes per header plus the body
  plus 19 never exceed the input length, so a header count of up to 2^64 cannot exhaust memory.
\<close>

theorem decodeHttpResponse_safe:
  assumes "length bs < 2 ^ 53"
  shows "(\<exists>m. decodeHttpResponse bs = Inl (malformed m))
    \<or> (\<exists>h. decodeHttpResponse bs = Inr h \<and> 19 + 16 * length (headers h) + length (body h) \<le> length bs)"
proof (cases "readHttpResponse \<lparr>buf = bs, pos = 0\<rparr>")
  case (Inl e)
  then show ?thesis
    using fails_readHttpResponse by (auto simp: decodeHttpResponse_def fails_malformed_def)
next
  case (Inr p)
  then obtain h r' where run: "readHttpResponse \<lparr>buf = bs, pos = 0\<rparr> = Inr (h, r')" by (cases p) simp
  have "inside \<lparr>buf = bs, pos = 0\<rparr>" using assms by (simp add: inside_def)
  with run consumes_readHttpResponse have "inside r'" "buf r' = bs"
      "19 + 16 * length (headers h) + length (body h) \<le> pos r'"
    unfolding consumes_def by (metis (no_types, lifting) reader.select_convs add_0)+
  then show ?thesis using run by (auto simp: decodeHttpResponse_def inside_def)
qed

theorem decodeHttpResponse_safe_witness:
  "\<exists>m. decodeHttpResponse [200, 0, 255, 255, 255, 255, 255, 255, 255, 255] = Inl (malformed m)"
  using decodeHttpResponse_safe[of "[200, 0, 255, 255, 255, 255, 255, 255, 255, 255]"] by auto

end
