(* ===== verification/Gf256.thy ===== *)
theory Gf256
  imports Nox_Prelude
begin

unbundle bit_operations_syntax

section \<open>The field GF(2^8) of the erasure code\<close>

text \<open>
  The arithmetic at \<open>packages/nox-client/src/fragmentation.ts\<close>, lines 384 to 429: the tables
  \<open>gfExp\<close> and \<open>gfLog\<close> filled by \<open>buildTables\<close>, and \<open>gfMul\<close>, \<open>gfDiv\<close>, \<open>gfInv\<close>, \<open>gfExp_pow\<close>.
  A number that may be \<open>undefined\<close> (a table read outside its bounds) is a \<open>nat option\<close>:
  \<open>None\<close> is \<open>undefined\<close>, and arithmetic on it gives \<open>NaN\<close>, which indexes nothing.
  The theory then shows that the bytes with XOR and \<open>gfMul\<close> are a field: \<open>gf256\<close> is an instance
  of the class \<open>field\<close>, with the multiplication of the tables.
\<close>

definition GF_PRIME :: nat where
  "GF_PRIME = 0x11d"

definition GF_SIZE :: nat where
  "GF_SIZE = 256"

text \<open>\<open>x <<= 1; if (x >= GF_SIZE) x ^= GF_PRIME;\<close>\<close>

definition gf_step :: "nat \<Rightarrow> nat" where
  "gf_step x = (let y = push_bit 1 x in if y \<ge> GF_SIZE then y XOR GF_PRIME else y)"

fun buildTables :: "nat \<Rightarrow> nat \<Rightarrow> nat \<Rightarrow> nat list \<times> nat list \<Rightarrow> nat list \<times> nat list" where
  "buildTables 0 i x t = t"
| "buildTables (Suc n) i x (e, l) =
     buildTables n (Suc i) (gf_step x)
       (e[i := x mod 256, i + GF_SIZE - 1 := x mod 256], l[x := i mod 256])"

definition gfTables :: "nat list \<times> nat list" where
  "gfTables = buildTables (GF_SIZE - 1) 0 1 (replicate (GF_SIZE * 2) 0, replicate GF_SIZE 0)"

definition gfExp :: "nat list" where
  "gfExp = fst gfTables"

definition gfLog :: "nat list" where
  "gfLog = snd gfTables"

definition js_idx :: "nat list \<Rightarrow> nat option \<Rightarrow> nat option" where
  "js_idx xs i = (case i of None \<Rightarrow> None | Some k \<Rightarrow> if k < length xs then Some (xs ! k) else None)"

definition lift2 :: "('a \<Rightarrow> 'b \<Rightarrow> 'c) \<Rightarrow> 'a option \<Rightarrow> 'b option \<Rightarrow> 'c option" where
  "lift2 f a b = (case (a, b) of (Some x, Some y) \<Rightarrow> Some (f x y) | _ \<Rightarrow> None)"

definition gfMul :: "nat option \<Rightarrow> nat option \<Rightarrow> nat option" where
  "gfMul a b =
     (if a = Some 0 \<or> b = Some 0 then Some 0
      else js_idx gfExp (lift2 (\<lambda>x y. (x + y) mod (GF_SIZE - 1)) (js_idx gfLog a) (js_idx gfLog b)))"

definition gfDiv :: "nat option \<Rightarrow> nat option \<Rightarrow> nat option result" where
  "gfDiv a b =
     (if b = Some 0 then Inl (JsError ''GF division by zero'')
      else if a = Some 0 then Inr (Some 0)
      else Inr (js_idx gfExp (lift2 (\<lambda>x y. (x + GF_SIZE - 1 - y) mod (GF_SIZE - 1))
                               (js_idx gfLog a) (js_idx gfLog b))))"

definition gfInv :: "nat option \<Rightarrow> nat option result" where
  "gfInv a = gfDiv (Some 1) a"

function pow_loop :: "nat option \<Rightarrow> nat option \<Rightarrow> nat \<Rightarrow> nat option" where
  "pow_loop result b e =
     (if e > 0 then pow_loop (if odd e then gfMul result b else result) (gfMul b b) (e div 2)
      else result)"
  by pat_completeness auto
termination
  by (relation "measure (\<lambda>(_, _, e). e)") auto

declare pow_loop.simps [simp del]

definition gfExp_pow :: "nat \<Rightarrow> nat \<Rightarrow> nat option" where
  "gfExp_pow base e =
     (if e = 0 then Some 1 else if base = 0 then Some 0 else pow_loop (Some 1) (Some base) e)"

subsection \<open>Multiplication by x\<close>

definition xtime :: "byte \<Rightarrow> byte" where
  "xtime w = push_bit 1 w XOR (if bit w 7 then 0x1d else 0)"

lemma xtime_xor: "xtime (a XOR b) = xtime a XOR xtime b"
  by (simp add: xtime_def bit_xor_iff push_bit_xor) (auto intro!: bit_word_eqI simp: bit_simps)

lemma xtime_0 [simp]: "xtime 0 = 0"
  by (simp add: xtime_def)

lemma bit_top_iff: "n < 256 \<Longrightarrow> bit (word_of_nat n :: byte) 7 \<longleftrightarrow> 128 \<le> n"
proof -
  assume n: "n < 256"
  then have "n div 128 < 2" by (simp add: less_mult_imp_div_less)
  then have "n div 128 = 0 \<or> n div 128 = 1" by linarith
  moreover have "0 < n div 128 \<longleftrightarrow> 128 \<le> n" by (simp add: div_greater_zero_iff)
  moreover have "bit (word_of_nat n :: byte) 7 \<longleftrightarrow> bit n 7" by (simp add: bit_of_nat_iff)
  moreover have "bit n 7 \<longleftrightarrow> odd (n div 128)" by (simp add: bit_iff_odd)
  ultimately show ?thesis by auto
qed

lemma gf_step_xtime: "n < 256 \<Longrightarrow> word_of_nat (gf_step n) = xtime (word_of_nat n)"
proof -
  assume n: "n < 256"
  have p: "(word_of_nat (2 * n) :: byte) = push_bit 1 (word_of_nat n)"
    by (simp add: push_bit_eq_mult)
  have "(0x11d :: byte) = 0x1d" by simp
  then have "(word_of_nat (2 * n XOR 0x11d) :: byte) = push_bit 1 (word_of_nat n) XOR 0x1d"
    by (simp only: of_nat_xor_eq p of_nat_numeral)
  then show ?thesis
    using bit_top_iff[OF n] p
    by (simp add: gf_step_def xtime_def GF_SIZE_def GF_PRIME_def Let_def push_bit_eq_mult mult.commute)
qed

fun gf_powers :: "nat \<Rightarrow> nat \<Rightarrow> nat list" where
  "gf_powers 0 x = []"
| "gf_powers (Suc n) x = x # gf_powers n (gf_step x)"

lemma gf_powers_numeral: "gf_powers (numeral n) x = x # gf_powers (pred_numeral n) (gf_step x)"
  by (simp add: numeral_eq_Suc)

lemma gf_powers_facts: "distinct (gf_powers 255 1)" "list_all (\<lambda>x. 0 < x \<and> x < 256) (gf_powers 255 1)"
  by (simp_all add: gf_powers_numeral gf_step_def GF_SIZE_def GF_PRIME_def)

lemma gf_powers_last: "last (gf_powers 256 1) = 1"
  by (simp add: gf_powers_numeral gf_step_def GF_SIZE_def GF_PRIME_def)

lemma gf_powers_map: "gf_powers n x = map (\<lambda>i. (gf_step ^^ i) x) [0..<n]"
proof (induction n arbitrary: x)
  case 0
  then show ?case by simp
next
  case (Suc n)
  have "map (\<lambda>i. (gf_step ^^ i) x) [0..<Suc n] = x # map (\<lambda>i. (gf_step ^^ Suc i) x) [0..<n]"
    by (simp add: upt_rec[of 0 "Suc n"] map_Suc_upt[symmetric] del: upt_Suc funpow.simps)
  then show ?case using Suc by (simp add: funpow_swap1 del: upt_Suc)
qed

definition E :: "nat \<Rightarrow> nat" where
  "E i = (gf_step ^^ i) 1"

lemma E_range: "i < 255 \<Longrightarrow> 0 < E i \<and> E i < 256"
  using gf_powers_facts(2) by (auto simp: gf_powers_map list_all_iff E_def)

lemma E_inj: "inj_on E {..<255}"
proof -
  have "distinct (map E [0..<255])" using gf_powers_facts(1) by (simp add: gf_powers_map E_def[abs_def])
  then show ?thesis by (simp add: distinct_map atLeast0LessThan)
qed

lemma E_cycle: "E 255 = 1"
  using gf_powers_last by (simp add: gf_powers_map E_def last_map)

lemma E_Suc: "E (Suc i) = gf_step (E i)"
  by (simp add: E_def)

lemma E_period: "E (i + 255 * k) = E i"
proof (induction k)
  case (Suc k)
  have "E (j + 255) = E j" for j
    using E_cycle by (simp add: E_def funpow_add)
  from this[of "i + 255 * k"] show ?case using Suc by (simp add: algebra_simps)
qed simp

lemma E_mod: "E (i mod 255) = E i"
  using E_period[of "i mod 255" "i div 255"] by simp

lemma E_surj: "0 < n \<Longrightarrow> n < 256 \<Longrightarrow> \<exists>i<255. E i = n"
proof -
  assume n: "0 < n" "n < 256"
  have "E ` {..<255} \<subseteq> {1..<256}" using E_range by (fastforce simp: less_eq_Suc_le)
  moreover have "card (E ` {..<255}) = card {1..<256::nat}"
    using card_image[OF E_inj] by simp
  ultimately have "E ` {..<255} = {1..<256}" by (intro card_subset_eq) auto
  moreover have "n \<in> {1..<256}" using n by simp
  ultimately show ?thesis by (metis imageE lessThan_iff)
qed

subsection \<open>The tables\<close>

definition tables_ok :: "nat \<Rightarrow> nat list \<times> nat list \<Rightarrow> bool" where
  "tables_ok i t = (length (fst t) = 512 \<and> length (snd t) = 256
     \<and> (\<forall>j<i. fst t ! j = E j \<and> fst t ! (j + 255) = E j \<and> snd t ! E j = j))"

lemma buildTables_ok:
  "n + i \<le> 255 \<Longrightarrow> tables_ok i t \<Longrightarrow> tables_ok (n + i) (buildTables n i (E i) t)"
proof (induction n arbitrary: i t)
  case 0
  then show ?case by simp
next
  case (Suc n)
  obtain e l where t: "t = (e, l)" by (cases t)
  have i: "i < 255" using Suc.prems by simp
  note r = E_range[OF i]
  have ne: "E j \<noteq> E i" if "j < i" for j
    using inj_onD[OF E_inj, of j i] that i by auto
  then have ne': "E i \<noteq> E j" if "j < i" for j
    using that by metis
  have "tables_ok (Suc i) (e[i := E i mod 256, i + GF_SIZE - 1 := E i mod 256], l[E i := i mod 256])"
    using Suc.prems(2) r i ne ne'
    by (auto simp: tables_ok_def t less_Suc_eq GF_SIZE_def nth_list_update)
  from Suc.IH[OF _ this] Suc.prems(1) show ?case
    by (simp add: t E_Suc)
qed

lemma gfTables_ok: "tables_ok 255 gfTables"
  using buildTables_ok[of 255 0 "(replicate 512 0, replicate 256 0)"]
  by (simp add: tables_ok_def gfTables_def GF_SIZE_def E_def)

lemma gfExp_nth: "i < 255 \<Longrightarrow> gfExp ! i = E i" "length gfExp = 512"
  and gfLog_nth: "i < 255 \<Longrightarrow> gfLog ! E i = i" "length gfLog = 256"
  using gfTables_ok by (simp_all add: tables_ok_def gfExp_def gfLog_def)

lemma js_idx_gfLog: "i < 255 \<Longrightarrow> js_idx gfLog (Some (E i)) = Some i"
  using E_range[of i] by (simp add: js_idx_def gfLog_nth)

lemma js_idx_gfExp: "i < 255 \<Longrightarrow> js_idx gfExp (Some i) = Some (E i)"
  by (simp add: js_idx_def gfExp_nth)

lemma gfMul_E: "gfMul (Some (E i)) (Some (E j)) = Some (E (i + j))"
proof -
  have *: "gfMul (Some (E i)) (Some (E j)) = Some (E (i + j))" if "i < 255" "j < 255" for i j
    using that E_range[of i] E_range[of j] E_mod[of "i + j"]
    by (simp add: gfMul_def js_idx_gfLog lift2_def js_idx_gfExp GF_SIZE_def)
  have "E (i mod 255 + j mod 255) = E (i + j)"
    using E_mod[of "i mod 255 + j mod 255"] E_mod[of "i + j"] by (simp add: mod_add_eq)
  then show ?thesis
    using *[of "i mod 255" "j mod 255"] by (simp add: E_mod)
qed

lemma gfDiv_E:
  assumes "i < 255" "j < 255"
  shows "gfDiv (Some (E i)) (Some (E j)) = Inr (Some (E (i + (255 - j))))"
  using assms E_range[of i] E_range[of j] E_mod[of "i + (255 - j)"]
  by (simp add: gfDiv_def js_idx_gfLog lift2_def js_idx_gfExp GF_SIZE_def add.commute)

lemma gfMul_zero [simp]: "gfMul (Some 0) b = Some 0" "gfMul a (Some 0) = Some 0"
  by (simp_all add: gfMul_def)

subsection \<open>The field\<close>

datatype gf256 = GF (gf_byte: byte)

definition num :: "gf256 \<Rightarrow> nat option" where
  "num g = Some (unat (gf_byte g))"

definition ex :: "nat \<Rightarrow> gf256" where
  "ex i = GF (word_of_nat (E i))"

definition times_gf :: "gf256 \<Rightarrow> gf256 \<Rightarrow> gf256" where
  "times_gf a b = GF (word_of_nat (the (gfMul (num a) (num b))))"

lemma unat_ex: "unat (gf_byte (ex i)) = E i"
proof -
  have "E i < 256" using E_range[of "i mod 255"] by (simp add: E_mod)
  then show ?thesis by (simp add: ex_def unat_of_nat)
qed

lemma num_ex: "num (ex i) = Some (E i)"
  by (simp add: num_def unat_ex)

lemma gf_cases:
  obtains (zero) "g = GF 0" | (power) i where "i < 255" "g = ex i"
proof (cases "gf_byte g = 0")
  case True
  then show thesis using zero by (cases g) simp
next
  case False
  then have "0 < unat (gf_byte g)" by (simp add: unat_gt_0)
  then obtain i where i: "i < 255" "E i = unat (gf_byte g)" using E_surj[of "unat (gf_byte g)"] by auto
  then have "g = ex i" by (cases g) (simp add: ex_def)
  then show thesis using power i by blast
qed

lemma times_gf_ex: "times_gf (ex i) (ex j) = ex (i + j)"
  by (simp add: times_gf_def num_ex gfMul_E) (simp add: ex_def)

lemma times_gf_zero [simp]: "times_gf (GF 0) g = GF 0" "times_gf g (GF 0) = GF 0"
  by (simp_all add: times_gf_def num_def)

lemma xtime_power_xor: "(xtime ^^ n) (a XOR b) = (xtime ^^ n) a XOR (xtime ^^ n) b"
  by (induction n) (simp_all add: xtime_xor)

lemma xtime_power_0: "(xtime ^^ n) 0 = 0"
  by (induction n) simp_all

lemma xtime_power_ex: "(xtime ^^ n) (gf_byte (ex j)) = gf_byte (ex (n + j))"
proof (induction n)
  case (Suc n)
  have "E (n + j) < 256" using E_range[of "(n + j) mod 255"] by (simp add: E_mod)
  then show ?case using Suc gf_step_xtime[of "E (n + j)"] by (simp add: ex_def E_Suc)
qed simp

text \<open>Multiplying by the \<open>i\<close>-th power is \<open>i\<close> multiplications by x, which are linear.\<close>

lemma times_gf_linear: "times_gf (ex i) (GF b) = GF ((xtime ^^ i) b)"
proof (cases "GF b" rule: gf_cases)
  case zero
  then show ?thesis by (simp add: xtime_power_0)
next
  case (power j)
  then have "b = gf_byte (ex j)" by (metis gf256.sel)
  then show ?thesis
    using xtime_power_ex[of i j] times_gf_ex[of i j] power by simp
qed

lemma times_gf_commute: "times_gf a b = times_gf b a"
  by (cases a rule: gf_cases; cases b rule: gf_cases) (simp_all add: times_gf_ex add.commute)

lemma times_gf_assoc: "times_gf (times_gf a b) c = times_gf a (times_gf b c)"
  by (cases a rule: gf_cases; cases b rule: gf_cases; cases c rule: gf_cases)
    (simp_all add: times_gf_ex add.assoc)

lemma ex_cycle: "ex 0 = GF 1" "ex 255 = GF 1"
  by (simp_all add: ex_def E_def) (use E_cycle in \<open>simp add: E_def\<close>)

lemma ex_nonzero: "ex i \<noteq> GF 0"
proof
  assume "ex i = GF 0"
  then have "E i = 0" using unat_ex[of i] by simp
  then show False using E_range[of "i mod 255"] by (simp add: E_mod)
qed

lemma times_gf_one: "times_gf (GF 1) a = a"
  by (cases a rule: gf_cases) (simp_all add: times_gf_ex flip: ex_cycle(1))

lemma times_gf_distrib: "times_gf a (GF (b XOR c)) = GF (gf_byte (times_gf a (GF b)) XOR gf_byte (times_gf a (GF c)))"
  by (cases a rule: gf_cases) (simp_all add: times_gf_linear xtime_power_xor)

definition inverse_gf :: "gf256 \<Rightarrow> gf256" where
  "inverse_gf a = (case gfInv (num a) of Inl _ \<Rightarrow> GF 0 | Inr r \<Rightarrow> GF (word_of_nat (the r)))"

lemma inverse_gf_ex: "i < 255 \<Longrightarrow> inverse_gf (ex i) = ex (255 - i)"
  using gfDiv_E[of 0 i] by (simp add: inverse_gf_def gfInv_def num_ex E_def[of 0]) (simp add: ex_def)

instantiation gf256 :: field
begin

definition zero_gf256_def: "0 = GF 0"
definition one_gf256_def: "1 = GF 1"
definition plus_gf256_def: "a + b = GF (gf_byte a XOR gf_byte b)"
definition minus_gf256_def: "(a :: gf256) - b = GF (gf_byte a XOR gf_byte b)"
definition uminus_gf256_def: "- a = (a :: gf256)"
definition times_gf256_def: "a * b = times_gf a b"
definition inverse_gf256_def: "inverse a = inverse_gf a"
definition divide_gf256_def: "(a :: gf256) div b = a * inverse_gf b"

instance
proof
  fix a b c :: gf256
  show "a + b + c = a + (b + c)" by (simp add: plus_gf256_def xor.assoc)
  show "a + b = b + a" by (simp add: plus_gf256_def xor.commute)
  show "0 + a = a" by (simp add: plus_gf256_def zero_gf256_def)
  show "- a + a = 0" by (simp add: uminus_gf256_def plus_gf256_def zero_gf256_def)
  show "a - b = a + - b" by (simp add: minus_gf256_def uminus_gf256_def plus_gf256_def)
  show "a * b * c = a * (b * c)" by (simp add: times_gf256_def times_gf_assoc)
  show "a * b = b * a" by (simp add: times_gf256_def times_gf_commute)
  show "1 * a = a" by (simp add: times_gf256_def one_gf256_def times_gf_one)
  show "(a + b) * c = a * c + b * c"
    by (simp add: times_gf256_def plus_gf256_def times_gf_commute[of _ c] times_gf_distrib)
  show "(0 :: gf256) \<noteq> 1" by (simp add: zero_gf256_def one_gf256_def)
  show "a \<noteq> 0 \<Longrightarrow> inverse a * a = 1"
    by (cases a rule: gf_cases)
      (simp_all add: zero_gf256_def inverse_gf256_def inverse_gf_ex times_gf256_def times_gf_ex one_gf256_def ex_cycle)
  show "a div b = a * inverse b" by (simp add: divide_gf256_def inverse_gf256_def)
  show "inverse (0 :: gf256) = 0"
    by (simp add: inverse_gf256_def inverse_gf_def gfInv_def gfDiv_def num_def zero_gf256_def)
qed

end

lemma gf_add_self [simp]: "(a :: gf256) + a = 0"
  by (simp add: plus_gf256_def zero_gf256_def)

lemma gf_uminus [simp]: "- (a :: gf256) = a"
  by (simp add: uminus_gf256_def)

lemma gf_minus: "(a :: gf256) - b = a + b"
  by (simp add: minus_gf256_def plus_gf256_def)

subsection \<open>The code's numbers as field elements\<close>

text \<open>\<open>a ^ b\<close> on numbers that may be \<open>undefined\<close>, which counts as zero.\<close>

definition or_zero :: "nat option \<Rightarrow> nat" where
  "or_zero a = (case a of None \<Rightarrow> 0 | Some x \<Rightarrow> x)"

definition jxor :: "nat option \<Rightarrow> nat option \<Rightarrow> nat option" where
  "jxor a b = Some (or_zero a XOR or_zero b)"

definition gf :: "nat \<Rightarrow> gf256" where
  "gf n = GF (word_of_nat n)"

lemma num_gf: "n < 256 \<Longrightarrow> num (gf n) = Some n"
  by (simp add: num_def gf_def unat_of_nat)

lemma num_inject [simp]: "num a = num b \<longleftrightarrow> a = b"
  by (cases a; cases b) (simp add: num_def word_unat_eq_iff)

lemma num_eq_Some: "num a = Some n \<longleftrightarrow> n < 256 \<and> a = gf n"
  by (cases a) (auto simp: num_def gf_def unat_of_nat)

lemma num_0: "num 0 = Some 0" and num_1: "num 1 = Some 1"
  by (simp_all add: num_def zero_gf256_def one_gf256_def)

lemma num_eq_0 [simp]: "num a = Some 0 \<longleftrightarrow> a = 0" and num_eq_1 [simp]: "num a = Some (Suc 0) \<longleftrightarrow> a = 1"
  using num_inject[of a 0] num_inject[of a 1] by (simp_all add: num_0 num_1 del: num_inject)

lemma gfMul_num: "gfMul (num a) (num b) = num (a * b)"
proof (cases a rule: gf_cases; cases b rule: gf_cases)
  fix i j assume "a = ex i" "b = ex j"
  then show ?thesis by (simp add: times_gf256_def times_gf_ex num_ex gfMul_E)
qed (simp_all add: times_gf256_def num_def)

lemma gfInv_num: "a \<noteq> 0 \<Longrightarrow> gfInv (num a) = Inr (num (inverse a))"
proof (cases a rule: gf_cases)
  case (power i)
  then show ?thesis
    using gfDiv_E[of 0 i] by (simp add: gfInv_def inverse_gf256_def inverse_gf_ex num_ex E_def[of 0])
qed (simp add: zero_gf256_def)

lemma jxor_num: "jxor (num a) (num b) = num (a + b)"
  by (simp add: jxor_def num_def plus_gf256_def or_zero_def unsigned_xor_eq)

lemma pow_loop_num: "pow_loop (num r) (num b) e = num (r * b ^ e)"
proof (induction e arbitrary: r b rule: less_induct)
  case (less e)
  show ?case
  proof (cases "e = 0")
    case True
    then show ?thesis by (simp add: pow_loop.simps)
  next
    case False
    have sq: "(b * b) ^ (e div 2) = b ^ (2 * (e div 2))" by (simp add: power_mult power2_eq_square)
    have "pow_loop (num r) (num b) e =
        pow_loop (num (if odd e then r * b else r)) (num (b * b)) (e div 2)"
      using False by (subst pow_loop.simps) (simp add: gfMul_num)
    also have "\<dots> = num ((if odd e then r * b else r) * b ^ (2 * (e div 2)))"
      using False by (simp add: less sq)
    also have "(if odd e then r * b else r) * b ^ (2 * (e div 2)) = r * b ^ e"
    proof (cases "odd e")
      case True
      then have "b ^ e = b * b ^ (2 * (e div 2))"
        by (metis odd_two_times_div_two_succ power_Suc Suc_eq_plus1)
      then show ?thesis using True by (simp add: mult.assoc)
    next
      case False
      then show ?thesis by simp
    qed
    finally show ?thesis .
  qed
qed

lemma gfExp_pow_num: "n < 256 \<Longrightarrow> gfExp_pow n e = num (gf n ^ e)"
proof -
  assume n: "n < 256"
  then have "gf n = 0 \<longleftrightarrow> n = 0" using num_gf[of n] num_eq_0[of "gf n"] by simp
  then show ?thesis
    using n pow_loop_num[of 1 "gf n" e]
    by (cases "e = 0"; cases "n = 0") (simp_all add: gfExp_pow_def num_1 num_gf num_0 power_0_left)
qed

subsection \<open>Polynomial multiplication\<close>

text \<open>
  The reference: shift-and-add multiplication of polynomials over GF(2), reducing by
  x^8 + x^4 + x^3 + x^2 + 1 at every shift.
\<close>

fun peasant :: "nat \<Rightarrow> byte \<Rightarrow> byte \<Rightarrow> byte" where
  "peasant 0 a b = 0"
| "peasant (Suc n) a b = (if bit b 0 then a else 0) XOR peasant n (xtime a) (drop_bit 1 b)"

lemma GF_xtime: "GF (xtime a) = ex 1 * GF a"
  by (simp add: times_gf256_def times_gf_linear)

lemma GF_shift: "GF b = (if bit b 0 then 1 else 0) + ex 1 * GF (drop_bit 1 b)"
proof -
  have "\<not> bit (drop_bit 1 b) 7" using impossible_bit[of 8 b] by (simp add: bit_drop_bit_eq)
  then have "xtime (drop_bit 1 b) = push_bit 1 (drop_bit 1 b)" by (simp add: xtime_def)
  moreover have "b = (if bit b 0 then 1 else 0) XOR push_bit 1 (drop_bit 1 b)"
  proof (rule bit_word_eqI)
    fix n assume "n < LENGTH(8)"
    then have "bit (push_bit 1 (drop_bit 1 b)) n \<longleftrightarrow> 1 \<le> n \<and> bit b n"
      unfolding bit_push_bit_iff bit_drop_bit_eq by auto
    then show "bit b n = bit ((if bit b 0 then 1 else 0) XOR push_bit 1 (drop_bit 1 b)) n"
      unfolding bit_xor_iff by (cases n) (auto simp: bit_1_iff)
  qed
  ultimately have "GF b = (if bit b 0 then 1 else 0) + GF (xtime (drop_bit 1 b))"
    by (auto simp: plus_gf256_def one_gf256_def zero_gf256_def split: if_splits)
  then show ?thesis by (simp only: GF_xtime)
qed

lemma peasant_times: "drop_bit n b = 0 \<Longrightarrow> GF (peasant n a b) = GF a * GF b"
proof (induction n arbitrary: a b)
  case 0
  then show ?case by (simp flip: zero_gf256_def)
next
  case (Suc n)
  then have "drop_bit n (drop_bit 1 b) = 0" by simp
  then have "GF (peasant n (xtime a) (drop_bit 1 b)) = (ex 1 * GF a) * GF (drop_bit 1 b)"
    using Suc.IH by (simp add: GF_xtime)
  moreover have "GF (peasant (Suc n) a b) = (if bit b 0 then GF a else 0) + GF (peasant n (xtime a) (drop_bit 1 b))"
    by (simp add: plus_gf256_def zero_gf256_def)
  ultimately have "GF (peasant (Suc n) a b) = (if bit b 0 then GF a else 0) + GF a * (ex 1 * GF (drop_bit 1 b))"
    by (simp add: mult_ac)
  also have "\<dots> = GF a * GF b"
    unfolding GF_shift[of b] by (simp add: distrib_left)
  finally show ?case .
qed

text \<open>
  Table multiplication is multiplication in GF(2^8): for all bytes, \<open>gfMul\<close> (discrete
  logarithms read from the tables built at load time) returns the product of the two
  polynomials reduced modulo 0x11d, and \<open>gfDiv\<close> inverts it for every non-zero divisor.
\<close>

theorem gfMul_polynomial:
  "gfMul (Some (unat a)) (Some (unat b)) = Some (unat (peasant 8 a b))
    \<and> (b \<noteq> 0 \<longrightarrow> gfDiv (gfMul (Some (unat a)) (Some (unat b))) (Some (unat b)) = Inr (Some (unat a)))"
proof (intro conjI impI)
  have "drop_bit 8 b = 0" by (intro bit_word_eqI) (simp add: bit_simps)
  then have "GF (peasant 8 a b) = GF a * GF b" by (rule peasant_times)
  then show "gfMul (Some (unat a)) (Some (unat b)) = Some (unat (peasant 8 a b))"
    using gfMul_num[of "GF a" "GF b"] by (simp add: num_def flip: \<open>GF (peasant 8 a b) = GF a * GF b\<close>)
next
  assume b: "b \<noteq> 0"
  then obtain j where j: "j < 255" "GF b = ex j" by (cases "GF b" rule: gf_cases) auto
  then have bj: "unat b = E j" using unat_ex[of j] by (metis gf256.sel)
  show "gfDiv (gfMul (Some (unat a)) (Some (unat b))) (Some (unat b)) = Inr (Some (unat a))"
  proof (cases "GF a" rule: gf_cases)
    case zero
    then show ?thesis using b by (simp add: gfDiv_def unat_eq_zero)
  next
    case (power i)
    then have ai: "unat a = E i" using unat_ex[of i] by (metis gf256.sel)
    have "gfDiv (Some (E ((i + j) mod 255))) (Some (E j)) = Inr (Some (E ((i + j) mod 255 + (255 - j))))"
      using j by (intro gfDiv_E) simp_all
    also have "E ((i + j) mod 255 + (255 - j)) = E i"
    proof -
      have "((i + j) mod 255 + (255 - j)) mod 255 = (i + j + (255 - j)) mod 255" by (simp add: mod_add_left_eq)
      then show ?thesis
        using E_mod[of "(i + j) mod 255 + (255 - j)"] E_mod[of "i + 255"] E_period[of i 1] j by simp
    qed
    finally show ?thesis by (simp add: ai bj gfMul_E E_mod)
  qed
qed

theorem gfMul_polynomial_witness:
  "gfMul (Some 3) (Some 7) = Some 9 \<and> gfDiv (gfMul (Some 3) (Some 7)) (Some 7) = Inr (Some 3)"
proof -
  have "peasant 8 3 7 = 9" by code_simp
  then have "Some (unat (peasant 8 3 7)) = Some 9" by simp
  then show ?thesis using gfMul_polynomial[of 3 7] by force
qed

end
