(* ===== verification/Gf_Matrix.thy ===== *)
theory Gf_Matrix
  imports Gf256
begin

section \<open>Matrix inversion over GF(2^8)\<close>

text \<open>
  \<open>gfMatrixInvert\<close> of \<open>packages/nox-client/src/fragmentation.ts\<close> (lines 490 to 537): Gauss-Jordan
  elimination on the augmented matrix, with the pivot search, row swap, scaling and clearing of
  the source. Both call sites pass \<open>n\<close> rows of \<open>n\<close> entries. The proof follows the set of
  solutions of the linear system, which every row operation keeps: it starts as the graph of the
  matrix and ends as the graph of the returned inverse.
\<close>

type_synonym row = "nat option list"
type_synonym matrix = "row list"

text \<open>\<open>row[k]\<close>, \<open>undefined\<close> past the end.\<close>

definition js_get :: "row \<Rightarrow> nat \<Rightarrow> nat option" where
  "js_get row k = (if k < length row then row ! k else None)"

definition augment :: "nat \<Rightarrow> matrix \<Rightarrow> matrix" where
  "augment n matrix =
     map (\<lambda>i. matrix ! i @ map (\<lambda>j. Some (if j = i then 1 else 0)) [0..<n]) [0..<length matrix]"

definition findPivot :: "nat \<Rightarrow> nat \<Rightarrow> matrix \<Rightarrow> nat option" where
  "findPivot n col aug = List.find (\<lambda>row. js_get (aug ! row) col \<noteq> Some 0) [col..<n]"

definition swap_rows :: "nat \<Rightarrow> nat \<Rightarrow> matrix \<Rightarrow> matrix" where
  "swap_rows i j aug = aug[i := aug ! j, j := aug ! i]"

definition scale_row :: "nat \<Rightarrow> nat option \<Rightarrow> row \<Rightarrow> row" where
  "scale_row n invPivot row = map (\<lambda>k. gfMul (js_get row k) invPivot) [0..<2 * n] @ drop (2 * n) row"

definition add_row :: "nat \<Rightarrow> nat option \<Rightarrow> row \<Rightarrow> row \<Rightarrow> row" where
  "add_row n factor pivRow curRow =
     map (\<lambda>k. jxor (js_get curRow k) (gfMul factor (js_get pivRow k))) [0..<2 * n] @ drop (2 * n) curRow"

definition cleared :: "nat \<Rightarrow> nat \<Rightarrow> row \<Rightarrow> row \<Rightarrow> row" where
  "cleared n col pivRow curRow =
     (let factor = js_get curRow col in
      if factor = Some 0 then curRow else add_row n factor pivRow curRow)"

definition clear_row :: "nat \<Rightarrow> nat \<Rightarrow> nat \<Rightarrow> matrix \<Rightarrow> matrix" where
  "clear_row n col row aug =
     (if row = col then aug else aug[row := cleared n col (aug ! col) (aug ! row)])"

definition pivot_col :: "nat \<Rightarrow> nat \<Rightarrow> matrix \<Rightarrow> matrix result" where
  "pivot_col n col aug =
     (case findPivot n col aug of
        None \<Rightarrow> throw DecryptionFailed ''Matrix inversion failed: singular matrix (insufficient independent shards)''
      | Some pivotRow \<Rightarrow>
          (let aug1 = (if pivotRow \<noteq> col then swap_rows col pivotRow aug else aug);
               pivotVal = js_get (aug1 ! col) col in
           rbind (if pivotVal \<noteq> Some 1
                  then rbind (gfInv pivotVal) (\<lambda>invPivot. Inr (aug1[col := scale_row n invPivot (aug1 ! col)]))
                  else Inr aug1)
             (\<lambda>aug2. Inr (fold (clear_row n col) [0..<n] aug2))))"

fun invert_cols :: "nat \<Rightarrow> nat list \<Rightarrow> matrix \<Rightarrow> matrix result" where
  "invert_cols n [] aug = Inr aug"
| "invert_cols n (col # cols) aug = rbind (pivot_col n col aug) (invert_cols n cols)"

definition gfMatrixInvert :: "matrix \<Rightarrow> nat \<Rightarrow> matrix result" where
  "gfMatrixInvert matrix n =
     rbind (invert_cols n [0..<n] (augment n matrix)) (\<lambda>aug. Inr (map (drop n) aug))"

subsection \<open>Rows as linear forms\<close>

definition val :: "nat option \<Rightarrow> gf256" where
  "val v = gf (or_zero v)"

definition isnum :: "nat option \<Rightarrow> bool" where
  "isnum v = (v = num (val v))"

lemma val_num [simp]: "val (num g) = g"
  by (cases g) (simp add: val_def num_def or_zero_def gf_def)

lemma isnum_num [simp]: "isnum (num g)"
  by (simp add: isnum_def)

lemma isnum_01 [simp]: "isnum (Some 0)" "isnum (Some (Suc 0))" "val (Some 0) = 0" "val (Some (Suc 0)) = 1"
  using isnum_num[of 0] isnum_num[of 1] val_num[of 0] val_num[of 1] by (simp_all add: num_0 num_1 del: isnum_num val_num)

lemma num_val: "isnum v \<Longrightarrow> num (val v) = v"
  by (simp add: isnum_def)

lemma isnum_eq_0: "isnum v \<Longrightarrow> v = Some 0 \<longleftrightarrow> val v = 0"
  by (metis num_val num_eq_0)

lemma isnum_gfMul: "isnum a \<Longrightarrow> isnum b \<Longrightarrow> isnum (gfMul a b) \<and> val (gfMul a b) = val a * val b"
  by (metis gfMul_num num_val isnum_num val_num)

lemma isnum_jxor: "isnum a \<Longrightarrow> isnum b \<Longrightarrow> isnum (jxor a b) \<and> val (jxor a b) = val a + val b"
  by (metis jxor_num num_val isnum_num val_num)

definition row_ok :: "nat \<Rightarrow> row \<Rightarrow> bool" where
  "row_ok m row = (length row = m \<and> list_all isnum row)"

definition mat_ok :: "nat \<Rightarrow> nat \<Rightarrow> matrix \<Rightarrow> bool" where
  "mat_ok n m M = (length M = n \<and> list_all (row_ok m) M)"

lemma mat_ok_nth: "mat_ok n m M \<Longrightarrow> i < n \<Longrightarrow> row_ok m (M ! i)"
  by (simp add: mat_ok_def list_all_length)

lemma row_ok_isnum: "row_ok m row \<Longrightarrow> k < m \<Longrightarrow> isnum (js_get row k)"
  by (simp add: row_ok_def js_get_def list_all_length)

definition entry :: "row \<Rightarrow> nat \<Rightarrow> gf256" where
  "entry row k = val (js_get row k)"

definition rdot :: "nat \<Rightarrow> row \<Rightarrow> (nat \<Rightarrow> gf256) \<Rightarrow> gf256" where
  "rdot m row z = (\<Sum>k<m. entry row k * z k)"

lemma row_ok_map: "(\<And>k. k < m \<Longrightarrow> isnum (f k)) \<Longrightarrow> row_ok m (map f [0..<m])"
  by (simp add: row_ok_def list_all_length)

lemma entry_map: "k < m \<Longrightarrow> entry (map f [0..<m]) k = val (f k)"
  by (simp add: entry_def js_get_def)

lemma row_op:
  assumes "\<And>k. k < m \<Longrightarrow> isnum (f k)" "length row = m"
  shows "row_ok m (map f [0..<m] @ drop m row)"
    and "k < m \<Longrightarrow> entry (map f [0..<m] @ drop m row) k = val (f k)"
  using row_ok_map[of m f] entry_map[of k m f] assms by auto

lemma scale_row_sem:
  assumes "row_ok (2 * n) row"
  shows "row_ok (2 * n) (scale_row n (num c) row)"
    and "k < 2 * n \<Longrightarrow> entry (scale_row n (num c) row) k = entry row k * c"
    and "rdot (2 * n) (scale_row n (num c) row) z = c * rdot (2 * n) row z"
proof -
  have len: "length row = 2 * n" using assms by (simp add: row_ok_def)
  have m: "isnum (gfMul (js_get row k) (num c))" "val (gfMul (js_get row k) (num c)) = entry row k * c"
    if "k < 2 * n" for k
    using isnum_gfMul[OF row_ok_isnum[OF assms that] isnum_num[of c]] by (simp_all add: entry_def)
  show "row_ok (2 * n) (scale_row n (num c) row)"
    unfolding scale_row_def by (rule row_op(1)) (auto simp: m len)
  have e: "entry (scale_row n (num c) row) k = entry row k * c" if "k < 2 * n" for k
    unfolding scale_row_def using row_op(2)[of "2 * n" _ row k, OF m(1) len that] m(2)[OF that] by simp
  then show "k < 2 * n \<Longrightarrow> entry (scale_row n (num c) row) k = entry row k * c" .
  show "rdot (2 * n) (scale_row n (num c) row) z = c * rdot (2 * n) row z"
    by (simp add: rdot_def e sum_distrib_left mult_ac)
qed

lemma cleared_sem:
  assumes "row_ok (2 * n) piv" "row_ok (2 * n) cur" "col < 2 * n"
  shows "row_ok (2 * n) (cleared n col piv cur)"
    and "k < 2 * n \<Longrightarrow> entry (cleared n col piv cur) k = entry cur k + entry cur col * entry piv k"
    and "rdot (2 * n) (cleared n col piv cur) z = rdot (2 * n) cur z + entry cur col * rdot (2 * n) piv z"
proof -
  have len: "length cur = 2 * n" using assms by (simp add: row_ok_def)
  note f = row_ok_isnum[OF assms(2,3)]
  define g where "g k = jxor (js_get cur k) (gfMul (js_get cur col) (js_get piv k))" for k
  have m: "isnum (g k)" "val (g k) = entry cur k + entry cur col * entry piv k" if "k < 2 * n" for k
    using isnum_gfMul[OF f row_ok_isnum[OF assms(1) that]] isnum_jxor[OF row_ok_isnum[OF assms(2) that]]
    by (simp_all add: entry_def g_def)
  have zero: "entry cur col = 0" if "js_get cur col = Some 0" using that by (simp add: entry_def)
  have a: "add_row n (js_get cur col) piv cur = map g [0..<2 * n] @ drop (2 * n) cur"
    by (simp add: add_row_def g_def[abs_def])
  show "row_ok (2 * n) (cleared n col piv cur)"
    using assms(2) row_op(1)[of "2 * n" g cur, OF m(1) len] by (simp add: cleared_def Let_def a)
  have e: "entry (cleared n col piv cur) k = entry cur k + entry cur col * entry piv k" if "k < 2 * n" for k
    using row_op(2)[of "2 * n" g cur k, OF m(1) len that] m(2)[OF that] zero by (simp add: cleared_def Let_def a)
  then show "k < 2 * n \<Longrightarrow> entry (cleared n col piv cur) k = entry cur k + entry cur col * entry piv k" .
  show "rdot (2 * n) (cleared n col piv cur) z = rdot (2 * n) cur z + entry cur col * rdot (2 * n) piv z"
    by (simp add: rdot_def e distrib_right sum.distrib sum_distrib_left mult.assoc)
qed

subsection \<open>One elimination step\<close>

definition solves :: "nat \<Rightarrow> matrix \<Rightarrow> (nat \<Rightarrow> gf256) \<Rightarrow> bool" where
  "solves n aug z = (\<forall>i<n. rdot (2 * n) (aug ! i) z = 0)"

definition reduced :: "nat \<Rightarrow> nat \<Rightarrow> matrix \<Rightarrow> bool" where
  "reduced n c aug = (\<forall>j<c. \<forall>i<n. entry (aug ! i) j = (if i = j then 1 else 0))"

lemma mat_ok_update: "mat_ok n m M \<Longrightarrow> row_ok m r \<Longrightarrow> mat_ok n m (M[i := r])"
  by (auto simp: mat_ok_def list_all_iff dest!: set_update_subset_insert[THEN subsetD])

lemma mat_ok_length: "mat_ok n m M \<Longrightarrow> length M = n"
  by (simp add: mat_ok_def)

lemma clear_rows_nth:
  assumes "distinct rows" "set rows \<subseteq> {..<length aug}" "col < length aug"
  shows "length (fold (clear_row n col) rows aug) = length aug
    \<and> (\<forall>r. fold (clear_row n col) rows aug ! r =
        (if r \<in> set rows \<and> r \<noteq> col then cleared n col (aug ! col) (aug ! r) else aug ! r))"
  using assms
proof (induction rows arbitrary: aug)
  case Nil
  then show ?case by simp
next
  case (Cons x rows)
  let ?aug = "clear_row n col x aug"
  have l: "length ?aug = length aug" by (simp add: clear_row_def)
  have IH: "length (fold (clear_row n col) rows ?aug) = length aug
    \<and> (\<forall>r. fold (clear_row n col) rows ?aug ! r =
        (if r \<in> set rows \<and> r \<noteq> col then cleared n col (?aug ! col) (?aug ! r) else ?aug ! r))"
    using Cons.IH[of ?aug] Cons.prems l by simp
  have "?aug ! r = (if r = x \<and> r \<noteq> col then cleared n col (aug ! col) (aug ! r) else aug ! r)" for r
    using Cons.prems by (auto simp: clear_row_def nth_list_update)
  then show ?case using IH Cons.prems(1) by auto
qed

lemma clear_step:
  assumes ok: "mat_ok n (2 * n) aug" and col: "col < n" and red: "reduced n col aug"
    and one: "entry (aug ! col) col = 1"
  defines "aug' \<equiv> fold (clear_row n col) [0..<n] aug"
  shows "mat_ok n (2 * n) aug'" "reduced n (Suc col) aug'" "solves n aug' z = solves n aug z"
proof -
  have col2: "col < 2 * n" using col by simp
  have fold_facts: "length aug' = n"
      "r < n \<Longrightarrow> aug' ! r = (if r \<noteq> col then cleared n col (aug ! col) (aug ! r) else aug ! r)" for r
    using clear_rows_nth[of "[0..<n]" aug col n] mat_ok_length[OF ok] col
    by (simp_all add: aug'_def atLeast0LessThan)
  note sem = cleared_sem[OF mat_ok_nth[OF ok col] mat_ok_nth[OF ok] col2]
  show "mat_ok n (2 * n) aug'"
    using fold_facts sem(1) mat_ok_nth[OF ok] by (simp add: mat_ok_def list_all_length)
  show "reduced n (Suc col) aug'"
    unfolding reduced_def
  proof (intro allI impI)
    fix j i assume j: "j < Suc col" and i: "i < n"
    have p: "entry (aug ! col) j = (if j = col then 1 else 0)"
      using red one col j by (auto simp: reduced_def less_Suc_eq)
    show "entry (aug' ! i) j = (if i = j then 1 else 0)"
    proof (cases "i = col")
      case True
      then show ?thesis using fold_facts(2)[OF i] p j by auto
    next
      case False
      have e: "entry (aug' ! i) j = entry (aug ! i) j + entry (aug ! i) col * entry (aug ! col) j"
        using fold_facts(2)[OF i] False sem(2)[OF i, where k = j] j col by simp
      show ?thesis
      proof (cases "j = col")
        case True
        then show ?thesis using e p False by simp
      next
        case jc: False
        then have "entry (aug ! i) j = (if i = j then 1 else 0)"
          using red j i by (simp add: reduced_def)
        then show ?thesis using e p jc by simp
      qed
    qed
  qed
  show "solves n aug' z = solves n aug z"
  proof -
    have d: "rdot (2 * n) (aug' ! i) z =
        (if i = col then rdot (2 * n) (aug ! i) z
         else rdot (2 * n) (aug ! i) z + entry (aug ! i) col * rdot (2 * n) (aug ! col) z)" if "i < n" for i
      using fold_facts(2)[OF that] sem(3)[OF that, where z = z] by simp
    show ?thesis
    proof
      assume s: "solves n aug' z"
      then have "rdot (2 * n) (aug ! col) z = 0" using d[OF col] col by (simp add: solves_def)
      then have "rdot (2 * n) (aug' ! i) z = rdot (2 * n) (aug ! i) z" if "i < n" for i
        using d[OF that] by simp
      then show "solves n aug z" using s by (simp add: solves_def)
    next
      assume s: "solves n aug z"
      then have "rdot (2 * n) (aug ! col) z = 0" using col by (simp add: solves_def)
      then show "solves n aug' z" using s d by (auto simp: solves_def)
    qed
  qed
qed

lemma swap_step:
  assumes ok: "mat_ok n (2 * n) aug" and "col \<le> p" "p < n" and red: "reduced n col aug"
  defines "aug1 \<equiv> (if p \<noteq> col then swap_rows col p aug else aug)"
  shows "mat_ok n (2 * n) aug1" "reduced n col aug1" "solves n aug1 z = solves n aug z"
    "aug1 ! col = aug ! p"
proof -
  have l: "length aug = n" using mat_ok_length[OF ok] .
  have nth: "aug1 ! i = (if i = col then aug ! p else if i = p then aug ! col else aug ! i)" if "i < n" for i
    using assms(2,3) that l by (auto simp: aug1_def swap_rows_def nth_list_update)
  then show "aug1 ! col = aug ! p" using assms(2,3) by simp
  have "length aug1 = n" using l by (simp add: aug1_def swap_rows_def)
  then show "mat_ok n (2 * n) aug1"
    using nth mat_ok_nth[OF ok] assms(2,3) by (simp add: mat_ok_def list_all_length)
  show "reduced n col aug1"
    using red nth assms(2,3) by (auto simp: reduced_def)
  show "solves n aug1 z = solves n aug z"
  proof -
    have "(\<forall>i<n. P (aug1 ! i)) \<longleftrightarrow> (\<forall>i<n. P (aug ! i))" for P
    proof
      assume a: "\<forall>i<n. P (aug1 ! i)"
      show "\<forall>i<n. P (aug ! i)"
        using a nth assms(2,3) by (metis le_less_trans)
    next
      assume "\<forall>i<n. P (aug ! i)"
      then show "\<forall>i<n. P (aug1 ! i)" using nth assms(2,3) by auto
    qed
    then show ?thesis unfolding solves_def .
  qed
qed

lemma scale_step:
  assumes ok: "mat_ok n (2 * n) aug" and col: "col < n" and red: "reduced n col aug" and c: "c \<noteq> 0"
  defines "aug2 \<equiv> aug[col := scale_row n (num c) (aug ! col)]"
  shows "mat_ok n (2 * n) aug2" "reduced n col aug2" "solves n aug2 z = solves n aug z"
    "entry (aug2 ! col) col = entry (aug ! col) col * c"
proof -
  note sem = scale_row_sem[OF mat_ok_nth[OF ok col], where c = c]
  have l: "length aug = n" using mat_ok_length[OF ok] .
  show "mat_ok n (2 * n) aug2" unfolding aug2_def by (rule mat_ok_update[OF ok sem(1)])
  have nth: "aug2 ! i = (if i = col then scale_row n (num c) (aug ! col) else aug ! i)" if "i < n" for i
    using that l by (simp add: aug2_def nth_list_update)
  show "entry (aug2 ! col) col = entry (aug ! col) col * c" using nth col sem(2)[where k = col] by simp
  show "reduced n col aug2"
    using red nth sem(2) col by (auto simp: reduced_def)
  have "rdot (2 * n) (aug2 ! i) z = 0 \<longleftrightarrow> rdot (2 * n) (aug ! i) z = 0" if "i < n" for i
    using nth[OF that] sem(3)[where z = z] c by simp
  then show "solves n aug2 z = solves n aug z" by (auto simp: solves_def)
qed

lemma pivot_step:
  assumes ok: "mat_ok n (2 * n) aug" and col: "col < n" and red: "reduced n col aug"
    and p: "findPivot n col aug = Some p"
  obtains aug' where "pivot_col n col aug = Inr aug'" "mat_ok n (2 * n) aug'" "reduced n (Suc col) aug'"
    "\<And>z. solves n aug' z = solves n aug z"
proof -
  have pr: "col \<le> p" "p < n" "js_get (aug ! p) col \<noteq> Some 0"
    using p by (auto simp: findPivot_def find_Some_iff nth_append)
  define aug1 where "aug1 = (if p \<noteq> col then swap_rows col p aug else aug)"
  note s = swap_step[OF ok pr(1,2) red, folded aug1_def]
  define v where "v = entry (aug1 ! col) col"
  have j: "js_get (aug1 ! col) col = num v"
    using row_ok_isnum[OF mat_ok_nth[OF s(1) col], of col] col by (simp add: v_def entry_def num_val)
  have v0: "v \<noteq> 0" using j pr(3) s(4) by (metis num_0)
  obtain aug2 where a2: "(if js_get (aug1 ! col) col \<noteq> Some 1
        then rbind (gfInv (js_get (aug1 ! col) col)) (\<lambda>invPivot. Inr (aug1[col := scale_row n invPivot (aug1 ! col)]))
        else Inr aug1) = Inr aug2"
      and ok2: "mat_ok n (2 * n) aug2" "reduced n col aug2" "\<And>z. solves n aug2 z = solves n aug1 z"
        "entry (aug2 ! col) col = 1"
  proof (cases "v = 1")
    case True
    then show ?thesis using that[of aug1] s j by (simp add: v_def)
  next
    case False
    note sc = scale_step[OF s(1) col s(2), of "inverse v"]
    show ?thesis
      by (rule that[of "aug1[col := scale_row n (num (inverse v)) (aug1 ! col)]"])
        (use False v0 j gfInv_num[OF v0] sc in \<open>simp_all add: v_def\<close>)
  qed
  have "pivot_col n col aug = Inr (fold (clear_row n col) [0..<n] aug2)"
    using a2 by (simp add: pivot_col_def p Let_def flip: aug1_def)
  then show thesis
    using that clear_step[OF ok2(1) col ok2(2,4)] ok2(3) s(3) by simp
qed

lemma no_pivot_kernel:
  assumes ok: "mat_ok n (2 * n) aug" and col: "col < n" and red: "reduced n col aug"
    and p: "findPivot n col aug = None"
  defines "z \<equiv> (\<lambda>k. if k = col then 1 else if k < col then entry (aug ! k) col else 0)"
  shows "solves n aug z"
  unfolding solves_def
proof (intro allI impI)
  fix i assume i: "i < n"
  have "rdot (2 * n) (aug ! i) z = (\<Sum>k\<in>{..<col} \<union> {col}. entry (aug ! i) k * z k)"
    unfolding rdot_def by (rule sum.mono_neutral_right) (use col in \<open>auto simp: z_def\<close>)
  also have "\<dots> = (\<Sum>k<col. entry (aug ! i) k * z k) + entry (aug ! i) col"
    by (subst sum.union_disjoint) (auto simp: z_def)
  also have "(\<Sum>k<col. entry (aug ! i) k * z k) = (\<Sum>k<col. if k = i then entry (aug ! i) col else 0)"
    using red i by (intro sum.cong) (auto simp: reduced_def z_def)
  also have "\<dots> = (if i < col then entry (aug ! i) col else 0)"
    by (simp add: sum.delta)
  also have "(if i < col then entry (aug ! i) col else 0) + entry (aug ! i) col = 0"
  proof (cases "i < col")
    case False
    then have "js_get (aug ! i) col = Some 0"
      using p i by (auto simp: findPivot_def find_None_iff)
    then show ?thesis using False by (simp add: entry_def)
  qed simp
  finally show "rdot (2 * n) (aug ! i) z = 0" .
qed

definition trivial_kernel :: "nat \<Rightarrow> matrix \<Rightarrow> bool" where
  "trivial_kernel n M = (\<forall>x. (\<forall>i<n. rdot n (M ! i) x = 0) \<longrightarrow> (\<forall>k<n. x k = 0))"

text \<open>No solution with zero right-hand side but the zero vector.\<close>

definition regular :: "nat \<Rightarrow> matrix \<Rightarrow> bool" where
  "regular n aug = (\<forall>z. solves n aug z \<longrightarrow> (\<forall>k\<ge>n. z k = 0) \<longrightarrow> (\<forall>k<n. z k = 0))"

definition singular_error :: nox_error where
  "singular_error = NoxClientError DecryptionFailed
     ''Matrix inversion failed: singular matrix (insufficient independent shards)''"

lemma invert_cols_spec:
  assumes "mat_ok n (2 * n) aug" "reduced n col aug" "col \<le> n"
  shows "(\<exists>aug'. invert_cols n [col..<n] aug = Inr aug' \<and> mat_ok n (2 * n) aug' \<and> reduced n n aug'
      \<and> (\<forall>z. solves n aug' z = solves n aug z))
    \<or> (invert_cols n [col..<n] aug = Inl singular_error \<and> \<not> regular n aug)"
  using assms
proof (induction "n - col" arbitrary: col aug)
  case 0
  then show ?case by simp
next
  case (Suc d)
  then have col: "col < n" by simp
  show ?case
  proof (cases "findPivot n col aug")
    case None
    let ?z = "\<lambda>k. if k = col then 1 else if k < col then entry (aug ! k) col else 0"
    have "solves n aug ?z" by (rule no_pivot_kernel[OF Suc.prems(1) col Suc.prems(2) None])
    moreover have "\<forall>k\<ge>n. ?z k = 0" "?z col \<noteq> 0" using col by auto
    ultimately have "\<not> regular n aug" using col unfolding regular_def by blast
    moreover have "invert_cols n [col..<n] aug = Inl singular_error"
      using None col by (simp add: upt_conv_Cons pivot_col_def singular_error_def)
    ultimately show ?thesis by simp
  next
    case (Some p)
    obtain aug1 where a: "pivot_col n col aug = Inr aug1" "mat_ok n (2 * n) aug1"
        "reduced n (Suc col) aug1" "\<And>z. solves n aug1 z = solves n aug z"
      using pivot_step[OF Suc.prems(1) col Suc.prems(2) Some] by metis
    have "regular n aug1 = regular n aug" using a(4) by (simp add: regular_def)
    moreover have "d = n - Suc col" using Suc.hyps(2) by simp
    ultimately show ?thesis
      using Suc.hyps(1)[of "Suc col" aug1] a col by (simp add: upt_conv_Cons)
  qed
qed

lemma rdot_split:
  "length row = n + m \<Longrightarrow> rdot (n + m) row z = rdot n (take n row) z + rdot m (drop n row) (\<lambda>k. z (n + k))"
proof -
  assume l: "length row = n + m"
  have "(\<Sum>k<n + m. entry row k * z k) = (\<Sum>k<n. entry row k * z k) + (\<Sum>k<m. entry row (n + k) * z (n + k))"
    by (induction m) (simp_all add: add.assoc)
  then show ?thesis using l by (simp add: rdot_def entry_def js_get_def)
qed

lemma rdot_unit: "i < n \<Longrightarrow> (\<And>k. k < n \<Longrightarrow> entry row k = (if k = i then 1 else 0)) \<Longrightarrow> rdot n row z = z i"
proof -
  assume i: "i < n" and e: "\<And>k. k < n \<Longrightarrow> entry row k = (if k = i then 1 else 0)"
  have "rdot n row z = (\<Sum>k<n. if k = i then z k else 0)"
    unfolding rdot_def using e by (intro sum.cong) auto
  then show ?thesis using i by (simp add: sum.delta)
qed

lemma gf_sum_zero_iff: "(a :: gf256) + b = 0 \<longleftrightarrow> a = b"
  by (metis add_right_cancel gf_add_self)

lemma augment_nth: "i < length M \<Longrightarrow> augment n M ! i = M ! i @ map (\<lambda>j. Some (if j = i then 1 else 0)) [0..<n]"
  by (simp add: augment_def)

lemma augment_ok: "mat_ok n n M \<Longrightarrow> mat_ok n (2 * n) (augment n M)"
  unfolding mat_ok_def list_all_length
  by (auto simp: augment_def row_ok_def list_all_length nth_append)

lemma augment_solves:
  assumes "mat_ok n n M"
  shows "solves n (augment n M) z \<longleftrightarrow> (\<forall>i<n. rdot n (M ! i) z = z (n + i))"
proof -
  have "rdot (2 * n) (augment n M ! i) z = rdot n (M ! i) z + z (n + i)" if i: "i < n" for i
  proof -
    let ?u = "map (\<lambda>j. Some (if j = i then 1 else 0)) [0..<n]"
    have l: "length (M ! i) = n" using mat_ok_nth[OF assms i] by (simp add: row_ok_def)
    have a: "augment n M ! i = M ! i @ ?u" using i mat_ok_length[OF assms] by (simp add: augment_nth)
    have "rdot n ?u (\<lambda>k. z (n + k)) = z (n + i)"
      using i by (intro rdot_unit) (auto simp: entry_def js_get_def)
    then show ?thesis using rdot_split[of "M ! i @ ?u" n n z] l a by (simp add: mult_2)
  qed
  then show ?thesis by (simp add: solves_def gf_sum_zero_iff)
qed

lemma reduced_solves:
  assumes "mat_ok n (2 * n) aug" "reduced n n aug"
  shows "solves n aug z \<longleftrightarrow> (\<forall>i<n. z i = rdot n (map (drop n) aug ! i) (\<lambda>k. z (n + k)))"
proof -
  have "rdot (2 * n) (aug ! i) z = z i + rdot n (map (drop n) aug ! i) (\<lambda>k. z (n + k))" if i: "i < n" for i
  proof -
    have l: "length (aug ! i) = n + n" using mat_ok_nth[OF assms(1) i] by (simp add: row_ok_def mult_2)
    have "entry (take n (aug ! i)) k = entry (aug ! i) k" if "k < n" for k
      using l that by (simp add: entry_def js_get_def)
    then have "rdot n (take n (aug ! i)) z = z i"
      using i assms(2) by (intro rdot_unit) (simp_all add: reduced_def)
    then show ?thesis
      using rdot_split[OF l, of z] mat_ok_length[OF assms(1)] i by (simp add: mult_2)
  qed
  then show ?thesis by (simp add: solves_def gf_sum_zero_iff)
qed

text \<open>Two vectors side by side.\<close>

definition beside :: "nat \<Rightarrow> (nat \<Rightarrow> gf256) \<Rightarrow> (nat \<Rightarrow> gf256) \<Rightarrow> nat \<Rightarrow> gf256" where
  "beside n x y k = (if k < n then x k else y (k - n))"

lemma beside_simps [simp]: "k < n \<Longrightarrow> beside n x y k = x k" "(\<lambda>k. beside n x y (n + k)) = y" "beside n x y (n + k) = y k"
  by (auto simp: beside_def)

lemma rdot_cong: "(\<And>k. k < n \<Longrightarrow> x k = y k) \<Longrightarrow> rdot n row x = rdot n row y"
  by (simp add: rdot_def)

lemma rdot_beside [simp]: "rdot n row (beside n x y) = rdot n row x"
  by (rule rdot_cong) simp

definition inverse_of :: "nat \<Rightarrow> matrix \<Rightarrow> matrix \<Rightarrow> bool" where
  "inverse_of n M B = (mat_ok n n B \<and>
     (\<forall>x y. (\<forall>i<n. rdot n (M ! i) x = y i) \<longleftrightarrow> (\<forall>i<n. x i = rdot n (B ! i) y)))"

lemma regular_augment: "mat_ok n n M \<Longrightarrow> regular n (augment n M) \<longleftrightarrow> trivial_kernel n M"
proof
  assume ok: "mat_ok n n M" and r: "regular n (augment n M)"
  show "trivial_kernel n M"
    unfolding trivial_kernel_def
  proof (intro allI impI)
    fix x k assume x: "\<forall>i<n. rdot n (M ! i) x = 0" and k: "k < n"
    have "solves n (augment n M) (beside n x (\<lambda>_. 0))" using x by (simp add: augment_solves[OF ok])
    moreover have "\<forall>k\<ge>n. beside n x (\<lambda>_. 0) k = 0" by (simp add: beside_def)
    ultimately have "beside n x (\<lambda>_. 0) k = 0" using r k unfolding regular_def by blast
    then show "x k = 0" using k by simp
  qed
next
  assume ok: "mat_ok n n M" and "trivial_kernel n M"
  then show "regular n (augment n M)"
    by (auto simp: regular_def augment_solves[OF ok] trivial_kernel_def)
qed

lemma rdot_zero [simp]: "rdot n row (\<lambda>_. 0) = 0"
  by (simp add: rdot_def)

lemma inverse_of_kernel: "inverse_of n M B \<Longrightarrow> trivial_kernel n M"
proof -
  assume "inverse_of n M B"
  then have "(\<forall>i<n. rdot n (M ! i) x = 0) \<longleftrightarrow> (\<forall>i<n. x i = 0)" for x
    unfolding inverse_of_def by (metis (no_types, lifting) rdot_zero)
  then show ?thesis by (simp add: trivial_kernel_def)
qed

lemma gfMatrixInvert_cases:
  assumes ok: "mat_ok n n M"
  shows "(\<exists>B. gfMatrixInvert M n = Inr B \<and> inverse_of n M B)
    \<or> (gfMatrixInvert M n = Inl singular_error \<and> \<not> trivial_kernel n M)"
proof -
  have red: "reduced n 0 (augment n M)" by (simp add: reduced_def)
  consider (inv_ok) aug where "invert_cols n [0..<n] (augment n M) = Inr aug" "mat_ok n (2 * n) aug"
      "reduced n n aug" "\<And>z. solves n aug z = solves n (augment n M) z"
    | (sing) "invert_cols n [0..<n] (augment n M) = Inl singular_error" "\<not> regular n (augment n M)"
    using invert_cols_spec[OF augment_ok[OF ok] red] by auto
  then show ?thesis
  proof cases
    case (inv_ok aug)
    let ?B = "map (drop n) aug"
    have "gfMatrixInvert M n = Inr ?B" by (simp add: gfMatrixInvert_def inv_ok(1))
    moreover have "mat_ok n n ?B"
      using inv_ok(2) by (auto simp: mat_ok_def row_ok_def list_all_length)
    moreover have "(\<forall>i<n. rdot n (M ! i) x = y i) \<longleftrightarrow> (\<forall>i<n. x i = rdot n (?B ! i) y)" for x y
      using inv_ok(4)[of "beside n x y"]
      by (simp add: augment_solves[OF ok] reduced_solves[OF inv_ok(2,3)])
    ultimately show ?thesis by (auto simp: inverse_of_def)
  next
    case sing
    then show ?thesis by (simp add: gfMatrixInvert_def regular_augment[OF ok])
  qed
qed

lemma gfMatrixInvert_spec:
  assumes "mat_ok n n M" "trivial_kernel n M"
  obtains B where "gfMatrixInvert M n = Inr B" "inverse_of n M B"
  using gfMatrixInvert_cases[OF assms(1)] assms(2) by blast

text \<open>
  \<open>gfMatrixInvert\<close> decides invertibility. On an n by n matrix of bytes it either returns a
  matrix B with M x = y exactly when x = B y, or throws the singular-matrix error; it returns
  precisely when the matrix has a trivial kernel, and no other error (a division by zero, a read
  of \<open>undefined\<close>) can occur.
\<close>

theorem gfMatrixInvert_decides:
  assumes "mat_ok n n M"
  shows "(trivial_kernel n M \<longrightarrow> (\<exists>B. gfMatrixInvert M n = Inr B \<and> inverse_of n M B))
    \<and> (\<not> trivial_kernel n M \<longrightarrow> gfMatrixInvert M n = Inl singular_error)"
  using gfMatrixInvert_cases[OF assms] inverse_of_kernel by blast

theorem gfMatrixInvert_decides_witness:
  "gfMatrixInvert [[Some 0, Some 0], [Some 0, Some 0]] 2 = Inl singular_error"
proof -
  let ?M = "[[Some 0, Some 0], [Some 0, Some 0]]"
  have ok: "mat_ok 2 2 ?M" by (simp add: mat_ok_def row_ok_def)
  have "rdot 2 (?M ! i) (\<lambda>_. 1) = 0" if "i < 2" for i
    using that by (auto simp: rdot_def entry_def js_get_def less_Suc_eq numeral_2_eq_2)
  then have "\<not> trivial_kernel 2 ?M"
    unfolding trivial_kernel_def by (metis one_neq_zero zero_less_numeral)
  then show ?thesis using gfMatrixInvert_decides[OF ok] by blast
qed

end
