(* ===== verification/Reed_Solomon.thy ===== *)
theory Reed_Solomon
  imports Complex_Main Gf_Matrix
begin

unbundle bit_operations_syntax

section \<open>Erasure decoding\<close>

text \<open>
  \<open>padToUniform\<close>, \<open>decodeShards\<close>, \<open>rsReconstruct\<close> and \<open>buildEncodeMatrix\<close> of
  \<open>packages/nox-client/src/fragmentation.ts\<close>. Shards are \<open>bytes option\<close> (\<open>null\<close> is \<open>None\<close>); the
  counts are the unsigned fields of the wire format, so natural numbers. A read past the end of
  a shard is \<open>undefined\<close>, which XOR takes as zero. \<open>new Uint8Array(n)\<close> throws when \<open>n\<close> exceeds
  2^53 - 1; running out of memory below that is outside the model.
  The specification of the code is \<open>rs_codeword\<close>: at every byte position the shards are the
  values at 0, 1, 2, ... of one polynomial over GF(2^8) of degree below the data shard count.
\<close>

definition padToUniform :: "bytes list \<Rightarrow> (bytes list \<times> nat) result" where
  "padToUniform chunks =
     (if length chunks = 0 then throw DecryptionFailed ''padToUniform: empty data chunks''
      else
        (let shardSize = length (chunks ! 0);
             pad = (\<lambda>chunk. if length chunk = shardSize then Inr chunk
                            else js_set (replicate shardSize 0) chunk 0) in
         rbind (foldr (\<lambda>chunk acc. rbind (pad chunk) (\<lambda>p. rbind acc (\<lambda>ps. Inr (p # ps)))) chunks (Inr []))
           (\<lambda>padded. Inr (padded, shardSize))))"

definition vandermonde :: "nat \<Rightarrow> nat \<Rightarrow> matrix" where
  "vandermonde rows dataCount = map (\<lambda>r. map (\<lambda>c. gfExp_pow r c) [0..<dataCount]) [0..<rows]"

definition buildEncodeMatrix :: "nat \<Rightarrow> nat \<Rightarrow> matrix result" where
  "buildEncodeMatrix dataCount parityCount =
     (let totalCount = dataCount + parityCount;
          vand = vandermonde totalCount dataCount;
          top = take dataCount vand in
      rbind (gfMatrixInvert top dataCount) (\<lambda>topInv.
      Inr (map (\<lambda>r. map (\<lambda>c.
             fold (\<lambda>k acc. jxor acc (gfMul (js_get (vand ! r) k) (js_get (topInv ! k) c)))
               [0..<dataCount] (Some 0)) [0..<dataCount]) [0..<totalCount])))"

text \<open>The loop over the shards that stops once \<open>dataCount\<close> present ones are found.\<close>

fun collectPresent :: "bytes option list \<Rightarrow> nat \<Rightarrow> nat list \<Rightarrow> nat list \<Rightarrow> nat list" where
  "collectPresent shards dataCount [] acc = acc"
| "collectPresent shards dataCount (i # is) acc =
     (let acc' = (if shards ! i \<noteq> None then acc @ [i] else acc) in
      if length acc' = dataCount then acc' else collectPresent shards dataCount is acc')"

definition js_byte :: "bytes \<Rightarrow> nat \<Rightarrow> nat option" where
  "js_byte src k = (if k < length src then Some (unat (src ! k)) else None)"

definition xor_byte :: "byte \<Rightarrow> nat option \<Rightarrow> byte" where
  "xor_byte b v = b XOR word_of_nat (or_zero v)"

definition applyCoeff :: "nat option \<Rightarrow> bytes \<Rightarrow> nat \<Rightarrow> bytes \<Rightarrow> bytes" where
  "applyCoeff coeff src shardSize out =
     (if coeff = Some 0 then out
      else if coeff = Some 1 then map (\<lambda>k. xor_byte (out ! k) (js_byte src k)) [0..<shardSize]
      else
        (let logCoeff = js_idx gfLog coeff in
         map (\<lambda>k. if js_byte src k \<noteq> Some 0
                  then xor_byte (out ! k) (js_idx gfExp
                         (lift2 (\<lambda>x y. (x + y) mod (GF_SIZE - 1)) logCoeff (js_idx gfLog (js_byte src k))))
                  else out ! k) [0..<shardSize]))"

definition rsReconstruct :: "bytes option list \<Rightarrow> nat \<Rightarrow> nat \<Rightarrow> nat \<Rightarrow> bytes list result" where
  "rsReconstruct shards dataCount parityCount shardSize =
     (let totalCount = dataCount + parityCount in
      rbind (buildEncodeMatrix dataCount parityCount) (\<lambda>encodeMatrix.
      let presentIndices = collectPresent shards dataCount [0..<totalCount] [] in
      if length presentIndices < dataCount
      then throw DecryptionFailed ''rsReconstruct: insufficient received shards''
      else
        (let subMatrix = map (\<lambda>rowIdx. take dataCount (encodeMatrix ! rowIdx)) presentIndices in
         rbind (gfMatrixInvert subMatrix dataCount) (\<lambda>invMatrix.
         Inr (map (\<lambda>di.
                fold (\<lambda>pi out. applyCoeff (js_get (invMatrix ! di) pi)
                                 (the (shards ! (presentIndices ! pi))) shardSize out)
                  [0..<dataCount] (replicate shardSize 0)) [0..<dataCount])))))"

text \<open>Copy the parts one after the other, stopping at \<open>originalDataLen\<close> bytes.\<close>

fun copyParts :: "bytes list \<Rightarrow> nat \<Rightarrow> nat \<Rightarrow> bytes \<Rightarrow> bytes result" where
  "copyParts [] len off out = Inr out"
| "copyParts (p # ps) len off out =
     (if int len - int off \<le> 0 then Inr out
      else (let n = min (length p) (len - off) in
            rbind (js_set out (take n p) off) (\<lambda>out'. copyParts ps len (off + n) out')))"

definition js_newUint8Array :: "nat \<Rightarrow> bytes result" where
  "js_newUint8Array n =
     (if n > 2 ^ 53 - 1 then Inl (JsRangeError ''Invalid typed array length'') else Inr (replicate n 0))"

definition decodeShards :: "bytes option list \<Rightarrow> nat \<Rightarrow> nat \<Rightarrow> bytes result" where
  "decodeShards shards dataShardCount originalDataLen =
     (if dataShardCount = 0 then throw DecryptionFailed ''decodeShards: dataShardCount must be > 0''
      else if length shards < dataShardCount
      then throw DecryptionFailed ''decodeShards: total shards < dataShardCount''
      else if length (filter (\<lambda>s. s \<noteq> None) shards) < dataShardCount
      then throw DecryptionFailed ''decodeShards: insufficient shards for reconstruction''
      else if list_all (\<lambda>s. s \<noteq> None) (take dataShardCount shards)
      then
        (let parts = map the (take dataShardCount shards);
             totalLen = sum_list (map length parts) in
         rbind (js_newUint8Array (min totalLen originalDataLen)) (\<lambda>out.
         copyParts parts originalDataLen 0 out))
      else
        (let parityCount = length shards - dataShardCount in
         if parityCount = 0
         then throw DecryptionFailed ''decodeShards: missing data shards and no parity shards available''
         else
           (let shardSize = (case List.find (\<lambda>s. s \<noteq> None) shards of
                               Some (Some s) \<Rightarrow> length s | _ \<Rightarrow> 0) in
            if shardSize = 0 then throw DecryptionFailed ''decodeShards: all shards are null''
            else
              rbind (rsReconstruct shards dataShardCount parityCount shardSize) (\<lambda>reconstructed.
              rbind (js_newUint8Array originalDataLen) (\<lambda>out.
              copyParts (take dataShardCount reconstructed) originalDataLen 0 out)))))"

subsection \<open>Polynomials with many roots\<close>

lemma poly_zero:
  fixes a :: "nat \<Rightarrow> gf256"
  assumes "finite S" "Suc n \<le> card S" "\<And>x. x \<in> S \<Longrightarrow> (\<Sum>i\<le>n. a i * x ^ i) = 0"
  shows "\<forall>i\<le>n. a i = 0"
  using assms
proof (induction n arbitrary: a S)
  case 0
  then have "S \<noteq> {}" by auto
  then obtain x where "x \<in> S" by blast
  then show ?case using 0(3)[of x] by simp
next
  case (Suc n)
  have "S \<noteq> {}" using Suc.prems(2) by auto
  then obtain z where z: "z \<in> S" by blast
  define b where "b j = (\<Sum>i=Suc j..Suc n. a i * z ^ (i - j - 1))" for j
  have "(\<Sum>i\<le>n. b i * x ^ i) = 0" if x: "x \<in> S - {z}" for x
  proof -
    have "(\<Sum>i\<le>Suc n. a i * x ^ i) - (\<Sum>i\<le>Suc n. a i * z ^ i) = (x - z) * (\<Sum>j<Suc n. b j * x ^ j)"
      unfolding b_def by (rule polyfun_diff) simp
    moreover have "(\<Sum>i\<le>Suc n. a i * x ^ i) = 0" "(\<Sum>i\<le>Suc n. a i * z ^ i) = 0"
      using Suc.prems(3) x z by blast+
    ultimately show ?thesis using x by (simp add: lessThan_Suc_atMost)
  qed
  moreover have "Suc n \<le> card (S - {z})" using Suc.prems z by (simp add: card_Diff_singleton)
  ultimately have "b n = 0" using Suc.IH[of "S - {z}" b] Suc.prems(1) by blast
  then have top: "a (Suc n) = 0" by (simp add: b_def)
  have "\<forall>i\<le>n. a i = 0"
  proof (rule Suc.IH[OF Suc.prems(1)])
    show "Suc n \<le> card S" using Suc.prems(2) by simp
    show "(\<Sum>i\<le>n. a i * x ^ i) = 0" if "x \<in> S" for x using Suc.prems(3)[OF that] top by simp
  qed
  then show ?case using top by (auto simp: le_Suc_eq)
qed

lemma gf_inj: "m < 256 \<Longrightarrow> n < 256 \<Longrightarrow> gf m = gf n \<Longrightarrow> m = n"
  by (metis num_gf option.inject)

lemma poly_zero_points:
  fixes a :: "nat \<Rightarrow> gf256"
  assumes "distinct ps" "length ps = d" "\<And>p. p \<in> set ps \<Longrightarrow> p < 256"
    and "\<And>p. p \<in> set ps \<Longrightarrow> (\<Sum>i<d. gf p ^ i * a i) = 0" and "i < d"
  shows "a i = 0"
proof -
  have "inj_on gf (set ps)" using assms(3) by (auto intro!: inj_onI gf_inj)
  then have "card (gf ` set ps) = d" using assms(1,2) by (simp add: card_image distinct_card)
  moreover obtain n where d: "d = Suc n" using assms(5) by (cases d) auto
  moreover have "(\<Sum>i\<le>n. a i * x ^ i) = 0" if x: "x \<in> gf ` set ps" for x
  proof -
    from x obtain p where "p \<in> set ps" "x = gf p" by blast
    then show ?thesis using assms(4)[of p] d by (simp add: lessThan_Suc_atMost mult.commute)
  qed
  ultimately show ?thesis
    using poly_zero[of "gf ` set ps" n a] assms(5) by (simp add: less_Suc_eq_le)
qed

subsection \<open>The encoding matrix\<close>

lemma vandermonde_row:
  assumes "r < rows" "r < 256"
  shows "row_ok d (vandermonde rows d ! r)" "c < d \<Longrightarrow> entry (vandermonde rows d ! r) c = gf r ^ c"
    "rdot d (vandermonde rows d ! r) x = (\<Sum>c<d. gf r ^ c * x c)"
proof -
  have row: "vandermonde rows d ! r = map (\<lambda>c. num (gf r ^ c)) [0..<d]"
    using assms by (simp add: vandermonde_def gfExp_pow_num)
  show "row_ok d (vandermonde rows d ! r)" by (simp add: row row_ok_map)
  show e: "entry (vandermonde rows d ! r) c = gf r ^ c" if "c < d" for c using that by (simp add: row entry_map)
  then show "rdot d (vandermonde rows d ! r) x = (\<Sum>c<d. gf r ^ c * x c)" by (simp add: rdot_def)
qed

lemma vandermonde_top:
  assumes "d \<le> rows" "d \<le> 256"
  shows "mat_ok d d (take d (vandermonde rows d))" "trivial_kernel d (take d (vandermonde rows d))"
proof -
  have row: "take d (vandermonde rows d) ! r = vandermonde rows d ! r" if "r < d" for r using that by simp
  show "mat_ok d d (take d (vandermonde rows d))"
    using assms vandermonde_row(1)[of _ rows d]
    by (simp add: mat_ok_def list_all_length) (simp add: vandermonde_def)
  show "trivial_kernel d (take d (vandermonde rows d))"
    unfolding trivial_kernel_def
  proof (intro allI impI)
    fix x k assume z: "\<forall>i<d. rdot d (take d (vandermonde rows d) ! i) x = 0" and k: "k < d"
    show "x k = 0"
    proof (rule poly_zero_points[of "[0..<d]" d])
      show "(\<Sum>i<d. gf p ^ i * x i) = 0" if "p \<in> set [0..<d]" for p
      proof -
        have "p < d" using that by simp
        then show ?thesis using z row[of p] vandermonde_row(3)[of p rows d x] assms by auto
      qed
    qed (use k assms in auto)
  qed
qed

lemma dot_fold:
  assumes "\<And>k. k \<in> set ks \<Longrightarrow> isnum (f k) \<and> isnum (g k)"
  shows "fold (\<lambda>k acc. jxor acc (gfMul (f k) (g k))) ks (num a) =
    num (a + (\<Sum>k\<leftarrow>ks. val (f k) * val (g k)))"
  using assms
proof (induction ks arbitrary: a)
  case Nil
  then show ?case by simp
next
  case (Cons k ks)
  have "gfMul (f k) (g k) = num (val (f k) * val (g k))"
    using Cons.prems[of k] by (metis gfMul_num list.set_intros(1) num_val)
  then show ?case
    using Cons.IH[of "a + val (f k) * val (g k)"] Cons.prems by (simp add: jxor_num add.assoc)
qed

lemma buildEncodeMatrix_spec:
  assumes d: "d \<le> 256"
  obtains T M where "inverse_of d (take d (vandermonde (d + p) d)) T" "buildEncodeMatrix d p = Inr M"
    "length M = d + p"
    "\<And>r. r < d + p \<Longrightarrow> r < 256 \<Longrightarrow> row_ok d (M ! r)
       \<and> (\<forall>x. rdot d (M ! r) x = rdot d (vandermonde (d + p) d ! r) (\<lambda>k. rdot d (T ! k) x))"
proof -
  let ?V = "vandermonde (d + p) d"
  obtain T where T: "gfMatrixInvert (take d ?V) d = Inr T" "inverse_of d (take d ?V) T"
    using gfMatrixInvert_spec[OF vandermonde_top[of d "d + p"]] d by auto
  have Tok: "mat_ok d d T" using T(2) by (simp add: inverse_of_def)
  define M where "M = map (\<lambda>r. map (\<lambda>c.
      fold (\<lambda>k acc. jxor acc (gfMul (js_get (?V ! r) k) (js_get (T ! k) c))) [0..<d] (Some 0)) [0..<d]) [0..<d + p]"
  have B: "buildEncodeMatrix d p = Inr M"
    by (simp add: buildEncodeMatrix_def Let_def T(1) M_def)
  have rows: "row_ok d (M ! r) \<and> (\<forall>x. rdot d (M ! r) x = rdot d (?V ! r) (\<lambda>k. rdot d (T ! k) x))"
    if r: "r < d + p" "r < 256" for r
  proof -
    note Vok = vandermonde_row(1)[OF r, of d]
    have f: "fold (\<lambda>k acc. jxor acc (gfMul (js_get (?V ! r) k) (js_get (T ! k) c))) [0..<d] (Some 0) =
        num (\<Sum>k<d. entry (?V ! r) k * entry (T ! k) c)" if c: "c < d" for c
    proof -
      have "isnum (js_get (?V ! r) k) \<and> isnum (js_get (T ! k) c)" if "k \<in> set [0..<d]" for k
        using row_ok_isnum[OF Vok] row_ok_isnum[OF mat_ok_nth[OF Tok]] that c by simp
      from dot_fold[of "[0..<d]" "js_get (?V ! r)" "\<lambda>k. js_get (T ! k) c" 0, OF this] show ?thesis
        by (simp add: num_0 entry_def interv_sum_list_conv_sum_set_nat atLeast0LessThan)
    qed
    then have Mr: "M ! r = map (\<lambda>c. num (\<Sum>k<d. entry (?V ! r) k * entry (T ! k) c)) [0..<d]"
      using r by (simp add: M_def)
    have "rdot d (M ! r) x = rdot d (?V ! r) (\<lambda>k. rdot d (T ! k) x)" for x
    proof -
      have "rdot d (M ! r) x = (\<Sum>c<d. \<Sum>k<d. entry (?V ! r) k * (entry (T ! k) c * x c))"
        by (simp add: rdot_def Mr entry_map sum_distrib_right mult.assoc)
      also have "\<dots> = (\<Sum>k<d. \<Sum>c<d. entry (?V ! r) k * (entry (T ! k) c * x c))" by (rule sum.swap)
      finally show ?thesis by (simp add: rdot_def sum_distrib_left)
    qed
    then show ?thesis by (simp add: Mr row_ok_map)
  qed
  show thesis using that[OF T(2) B] rows by (simp add: M_def)
qed

subsection \<open>Reconstruction of one byte position\<close>

lemma applyCoeff_length: "length out = sz \<Longrightarrow> length (applyCoeff c src sz out) = sz"
  by (simp add: applyCoeff_def Let_def)

lemma applyCoeff_nth:
  assumes "length src = sz" "length out = sz" "k < sz"
  shows "GF (applyCoeff (num g) src sz out ! k) = GF (out ! k) + g * GF (src ! k)"
proof -
  have b: "js_byte src k = num (GF (src ! k))" using assms by (simp add: js_byte_def num_def)
  have x: "GF (xor_byte b (num h)) = GF b + h" for b h
    by (simp add: xor_byte_def num_def or_zero_def plus_gf256_def)
  consider "g = 0" | "g = 1" | "g \<noteq> 0" "g \<noteq> 1" "GF (src ! k) = 0" | "g \<noteq> 0" "g \<noteq> 1" "GF (src ! k) \<noteq> 0" by blast
  then show ?thesis
  proof cases
    case 1
    then show ?thesis by (simp add: applyCoeff_def)
  next
    case 2
    then show ?thesis using assms by (simp add: applyCoeff_def num_1 b x)
  next
    case 3
    then show ?thesis using assms by (simp add: applyCoeff_def Let_def b)
  next
    case 4
    then have "js_idx gfExp (lift2 (\<lambda>x y. (x + y) mod (GF_SIZE - 1)) (js_idx gfLog (num g)) (js_idx gfLog (js_byte src k)))
        = num (g * GF (src ! k))"
      using gfMul_num[of g "GF (src ! k)"] by (simp add: gfMul_def b)
    then show ?thesis using 4 assms by (simp add: applyCoeff_def Let_def b x)
  qed
qed

lemma applyCoeff_fold:
  assumes "\<And>p. p \<in> set ps \<Longrightarrow> isnum (c p) \<and> length (src p) = sz" "length out = sz" "k < sz"
  shows "length (fold (\<lambda>p out. applyCoeff (c p) (src p) sz out) ps out) = sz
    \<and> GF (fold (\<lambda>p out. applyCoeff (c p) (src p) sz out) ps out ! k) =
        GF (out ! k) + (\<Sum>p\<leftarrow>ps. val (c p) * GF (src p ! k))"
  using assms
proof (induction ps arbitrary: out)
  case Nil
  then show ?case by simp
next
  case (Cons p ps)
  have "isnum (c p)" "length (src p) = sz" using Cons.prems(1) by simp_all
  then have "GF (applyCoeff (c p) (src p) sz out ! k) = GF (out ! k) + val (c p) * GF (src p ! k)"
    using applyCoeff_nth[of "src p" sz out k "val (c p)"] Cons.prems by (simp add: num_val)
  then show ?case
    using Cons.IH[of "applyCoeff (c p) (src p) sz out"] Cons.prems applyCoeff_length
    by (simp add: add.assoc)
qed

subsection \<open>Reconstruction of the data shards\<close>

lemma collectPresent_filter:
  "length acc < d \<Longrightarrow> collectPresent shards d is acc =
     acc @ take (d - length acc) (filter (\<lambda>i. shards ! i \<noteq> None) is)"
proof (induction "is" arbitrary: acc)
  case Nil
  then show ?case by simp
next
  case (Cons i "is")
  show ?case
  proof (cases "shards ! i \<noteq> None")
    case True
    have s: "d - length acc = Suc (d - Suc (length acc))" using Cons.prems by simp
    show ?thesis
      using Cons.IH[of "acc @ [i]"] Cons.prems True
      by (cases "Suc (length acc) = d") (simp_all add: s)
  next
    case False
    then show ?thesis using Cons by simp
  qed
qed

lemma collectPresent_facts:
  assumes "0 < d" "d \<le> length (filter (\<lambda>s. s \<noteq> None) shards)"
  defines "ps \<equiv> collectPresent shards d [0..<length shards] []"
  shows "length ps = d" "distinct ps" "\<And>p. p \<in> set ps \<Longrightarrow> p < length shards \<and> shards ! p \<noteq> None"
proof -
  have ps: "ps = take d (filter (\<lambda>i. shards ! i \<noteq> None) [0..<length shards])"
    using collectPresent_filter[of "[]" d shards] assms(1) by (simp add: ps_def)
  have "length (filter (\<lambda>i. shards ! i \<noteq> None) [0..<length shards]) =
      length (filter (\<lambda>s. s \<noteq> None) (map ((!) shards) [0..<length shards]))"
    by (simp add: filter_map comp_def del: map_nth)
  then show "length ps = d" using assms(2) by (simp add: ps map_nth)
  show "distinct ps" by (simp add: ps)
  show "p < length shards \<and> shards ! p \<noteq> None" if "p \<in> set ps" for p
    using that by (auto simp: ps dest!: in_set_takeD)
qed

text \<open>
  The code: at every byte position the shards are the values of one polynomial of degree below
  \<open>d\<close> at the points 0, 1, 2, ... An erased list keeps some of the shards at their positions.
\<close>

definition rs_codeword :: "nat \<Rightarrow> nat \<Rightarrow> bytes list \<Rightarrow> bool" where
  "rs_codeword d sz shards = ((\<forall>s \<in> set shards. length s = sz)
     \<and> (\<forall>k < sz. \<exists>a. \<forall>r<length shards. GF (shards ! r ! k) = (\<Sum>c<d. gf r ^ c * a c)))"

definition erased :: "bytes list \<Rightarrow> bytes option list \<Rightarrow> bool" where
  "erased shards received = list_all2 (\<lambda>s r. r = None \<or> r = Some s) shards received"

lemma erased_nth: "erased shards received \<Longrightarrow> i < length received \<Longrightarrow> received ! i \<noteq> None \<Longrightarrow>
    i < length shards \<and> received ! i = Some (shards ! i)"
  by (auto simp: erased_def list_all2_conv_all_nth)

lemma codeword_from_data:
  assumes inv: "inverse_of d (take d (vandermonde rows d)) T" and d: "d \<le> rows" "rows \<le> 256"
    and a: "\<And>r. r < rows \<Longrightarrow> y r = (\<Sum>c<d. gf r ^ c * a c)" and r: "r < rows"
  shows "rdot d (vandermonde rows d ! r) (\<lambda>k. rdot d (T ! k) y) = y r"
proof -
  have "\<forall>i<d. rdot d (take d (vandermonde rows d) ! i) a = y i"
    using a d vandermonde_row(3)[of _ rows d a] by simp
  then have "\<forall>i<d. a i = rdot d (T ! i) y" using inv by (simp add: inverse_of_def)
  then have "rdot d (vandermonde rows d ! r) (\<lambda>k. rdot d (T ! k) y) = rdot d (vandermonde rows d ! r) a"
    by (intro rdot_cong) simp
  also have "\<dots> = y r" using a[OF r] r d vandermonde_row(3)[of r rows d a] by simp
  finally show ?thesis .
qed

lemma submatrix_kernel:
  assumes inv: "inverse_of d (take d (vandermonde rows d)) T" and d: "d \<le> rows" "rows \<le> 256"
    and M: "\<And>r x. r < rows \<Longrightarrow> rdot d (M ! r) x = rdot d (vandermonde rows d ! r) (\<lambda>k. rdot d (T ! k) x)"
    and ps: "distinct ps" "length ps = d" "\<And>p. p \<in> set ps \<Longrightarrow> p < rows"
  shows "trivial_kernel d (map (\<lambda>i. M ! i) ps)"
  unfolding trivial_kernel_def
proof (intro allI impI)
  fix x k assume z: "\<forall>i<d. rdot d (map (\<lambda>i. M ! i) ps ! i) x = 0" and k: "k < d"
  define a where "a i = rdot d (T ! i) x" for i
  have "(\<Sum>i<d. gf p ^ i * a i) = 0" if p: "p \<in> set ps" for p
  proof -
    obtain i where i: "i < d" "p = ps ! i" using p ps(2) by (metis in_set_conv_nth)
    then have "rdot d (M ! p) x = 0" using z ps(2) by simp
    then have "rdot d (vandermonde rows d ! p) a = 0" using M ps(3)[OF p] by (simp add: a_def[abs_def])
    then show ?thesis using vandermonde_row(3)[of p rows d a] ps(3)[OF p] d by simp
  qed
  then have "\<forall>i<d. a i = 0" using poly_zero_points[OF ps(1,2)] ps(3) d by (meson le_trans less_le_trans)
  then have "\<forall>i<d. 0 = rdot d (T ! i) x" by (simp add: a_def)
  then have "\<forall>i<d. rdot d (take d (vandermonde rows d) ! i) (\<lambda>_. 0) = x i"
    using inv unfolding inverse_of_def by blast
  then show "x k = 0" using k by simp
qed

lemma inverse_of_iff:
  "inverse_of n M B \<Longrightarrow> (\<forall>i<n. rdot n (M ! i) x = y i) \<longleftrightarrow> (\<forall>i<n. x i = rdot n (B ! i) y)"
  by (simp add: inverse_of_def)

lemma rsReconstruct_correct:
  assumes d: "0 < d" "length shards = d + p" "d + p \<le> 256" and cw: "rs_codeword d sz shards"
    and er: "erased shards received" and av: "d \<le> length (filter (\<lambda>s. s \<noteq> None) received)"
  shows "rsReconstruct received d p sz = Inr (take d shards)"
proof -
  let ?V = "vandermonde (d + p) d"
  obtain T M where T: "inverse_of d (take d ?V) T" and M: "buildEncodeMatrix d p = Inr M" "length M = d + p"
    and rows: "\<And>r. r < d + p \<Longrightarrow> row_ok d (M ! r)
       \<and> (\<forall>x. rdot d (M ! r) x = rdot d (?V ! r) (\<lambda>k. rdot d (T ! k) x))"
    using buildEncodeMatrix_spec[of d p] d(3) by (metis add_leD1 less_le_trans)
  have lr: "length received = d + p" using er d(2) by (simp add: erased_def list_all2_lengthD)
  define ps where "ps = collectPresent received d [0..<d + p] []"
  have ps: "length ps = d" "distinct ps" "\<And>i. i \<in> set ps \<Longrightarrow> i < d + p \<and> received ! i = Some (shards ! i)"
    using collectPresent_facts[OF d(1) av] erased_nth[OF er] lr by (auto simp: ps_def)
  define S where "S = map (\<lambda>i. M ! i) ps"
  have sub: "map (\<lambda>i. take d (M ! i)) ps = S"
    using rows ps(3) by (auto simp: S_def row_ok_def)
  have "mat_ok d d S" using rows ps(1,3) by (auto simp: S_def mat_ok_def list_all_iff)
  moreover have "trivial_kernel d S"
    unfolding S_def by (rule submatrix_kernel[OF T _ d(3)]) (use rows ps in auto)
  ultimately obtain B where B: "gfMatrixInvert S d = Inr B" "inverse_of d S B"
    by (rule gfMatrixInvert_spec)
  have Bok: "mat_ok d d B" using B(2) by (simp add: inverse_of_def)
  let ?out = "\<lambda>di. fold (\<lambda>pi out. applyCoeff (js_get (B ! di) pi) (the (received ! (ps ! pi))) sz out)
                  [0..<d] (replicate sz 0)"
  have out: "?out di = shards ! di" if di: "di < d" for di
  proof -
    have src: "the (received ! (ps ! j)) = shards ! (ps ! j)" "length (shards ! (ps ! j)) = sz" if "j < d" for j
      using ps(1) ps(3)[of "ps ! j"] that cw d(2) by (auto simp: rs_codeword_def)
    have c: "isnum (js_get (B ! di) j) \<and> length (the (received ! (ps ! j))) = sz" if "j \<in> set [0..<d]" for j
      using row_ok_isnum[OF mat_ok_nth[OF Bok di]] src that by simp
    have len: "length (?out di) = sz"
    proof -
      have "length (fold (\<lambda>pi out. applyCoeff (js_get (B ! di) pi) (the (received ! (ps ! pi))) sz out) js out) = sz"
        if "length out = sz" for js out
        using that by (induction js arbitrary: out) (simp_all add: applyCoeff_length)
      then show ?thesis by simp
    qed
    have "?out di ! k = shards ! di ! k" if k: "k < sz" for k
    proof -
      obtain a where a: "\<And>r. r < d + p \<Longrightarrow> GF (shards ! r ! k) = (\<Sum>c<d. gf r ^ c * a c)"
        using cw k d(2) unfolding rs_codeword_def by metis
      let ?y = "\<lambda>r. GF (shards ! r ! k)"
      have "rdot d (M ! r) ?y = ?y r" if "r < d + p" for r
        using rows[OF that] codeword_from_data[OF T _ d(3), of ?y a r] a that by simp
      then have "\<forall>i<d. rdot d (S ! i) ?y = ?y (ps ! i)" using ps by (simp add: S_def)
      then have "\<forall>i<d. ?y i = rdot d (B ! i) (\<lambda>i. ?y (ps ! i))"
        by (rule iffD1[OF inverse_of_iff[OF B(2), of ?y "\<lambda>i. ?y (ps ! i)"]])
      then have "?y di = rdot d (B ! di) (\<lambda>i. ?y (ps ! i))" using di by simp
      moreover have "GF (?out di ! k) = (\<Sum>j<d. entry (B ! di) j * ?y (ps ! j))"
        using applyCoeff_fold[of "[0..<d]" "js_get (B ! di)" "\<lambda>j. the (received ! (ps ! j))" sz "replicate sz 0" k, OF c]
          k src(1)
        by (simp add: entry_def interv_sum_list_conv_sum_set_nat atLeast0LessThan flip: zero_gf256_def)
      ultimately have "GF (?out di ! k) = ?y di" by (simp only: rdot_def)
      then show ?thesis by simp
    qed
    moreover have "length (shards ! di) = sz" using cw di d(2) by (auto simp: rs_codeword_def)
    ultimately show ?thesis using len by (intro nth_equalityI) simp_all
  qed
  have "map ?out [0..<d] = take d shards"
    using out d(2) by (intro nth_equalityI) simp_all
  then show ?thesis
    using M(1) B(1) ps(1) sub by (simp add: rsReconstruct_def Let_def flip: ps_def)
qed

subsection \<open>Assembling the result\<close>

lemma copyParts_take:
  assumes "length done_part \<le> len" "length out_rest \<ge> min (len - length done_part) (length (concat ps))"
  shows "copyParts ps len (length done_part) (done_part @ out_rest) =
    Inr (done_part @ take (len - length done_part) (concat ps)
          @ drop (min (len - length done_part) (length (concat ps))) out_rest)"
  using assms
proof (induction ps arbitrary: done_part out_rest)
  case Nil
  then show ?case by simp
next
  case (Cons p ps)
  show ?case
  proof (cases "len = length done_part")
    case True
    then show ?thesis by simp
  next
    case False
    define n where "n = min (length p) (len - length done_part)"
    have fit: "n \<le> length out_rest" using Cons.prems(2) by (auto simp: n_def)
    have n: "length (take n p) = n" by (simp add: n_def)
    have set: "js_set (done_part @ out_rest) (take n p) (length done_part) =
        Inr ((done_part @ take n p) @ drop n out_rest)"
      using fit n by (simp add: js_set_def)
    have "copyParts ps len (length (done_part @ take n p)) ((done_part @ take n p) @ drop n out_rest) =
      Inr ((done_part @ take n p) @ take (len - length (done_part @ take n p)) (concat ps)
          @ drop (min (len - length (done_part @ take n p)) (length (concat ps))) (drop n out_rest))"
      using Cons.prems by (intro Cons.IH) (auto simp: n_def)
    then have "copyParts ps len (length done_part + n) ((done_part @ take n p) @ drop n out_rest) =
      Inr (done_part @ (take n p @ take (len - (length done_part + n)) (concat ps))
          @ drop (min (len - (length done_part + n)) (length (concat ps)) + n) out_rest)"
      by (simp only: length_append n append_assoc drop_drop)
    moreover have "take n p @ take (len - (length done_part + n)) (concat ps)
        = take (len - length done_part) (p @ concat ps)"
      by (cases "length p \<le> len - length done_part") (auto simp: n_def min_def)
    moreover have "min (len - (length done_part + n)) (length (concat ps)) + n =
        min (len - length done_part) (length (p @ concat ps))"
      by (cases "length p \<le> len - length done_part") (auto simp: n_def min_def)
    ultimately show ?thesis
      using False Cons.prems(1) set by (simp add: Let_def flip: n_def)
  qed
qed

lemma copyParts_whole:
  assumes "min len (length (concat ps)) \<le> length out"
  shows "copyParts ps len 0 out = Inr (take len (concat ps) @ drop (min len (length (concat ps))) out)"
  using copyParts_take[of "[]" len ps out] assms by simp

lemma length_concat_uniform: "\<forall>s \<in> set xs. length s = n \<Longrightarrow> length (concat xs) = length xs * n"
  by (induction xs) simp_all

lemma find_present:
  "x \<in> set xs \<Longrightarrow> x \<noteq> None \<Longrightarrow> \<exists>s. List.find (\<lambda>s. s \<noteq> None) xs = Some (Some s) \<and> Some s \<in> set xs"
  by (induction xs) auto

lemma decodeShards_value:
  assumes d: "0 < d" "d \<le> length shards" "length shards \<le> 256"
    and cw: "rs_codeword d sz shards" and sz: "0 < sz"
    and er: "erased shards received" and av: "d \<le> length (filter (\<lambda>s. s \<noteq> None) received)"
    and len: "len < 2 ^ 53"
  shows "decodeShards received d len = Inr (take len (concat (take d shards))
    @ (if list_all (\<lambda>s. s \<noteq> None) (take d received) then [] else replicate (len - d * sz) 0))"
proof -
  have lr: "length received = length shards" using er by (simp add: erased_def list_all2_lengthD)
  have uni: "\<forall>s \<in> set (take d shards). length s = sz" using cw by (auto simp: rs_codeword_def dest: in_set_takeD)
  have total: "length (concat (take d shards)) = d * sz"
    using length_concat_uniform[OF uni] d(2) by simp
  show ?thesis
  proof (cases "list_all (\<lambda>s. s \<noteq> None) (take d received)")
    case True
    have parts: "map the (take d received) = take d shards"
    proof (rule nth_equalityI)
      show "length (map the (take d received)) = length (take d shards)" using lr by simp
      fix i assume "i < length (map the (take d received))"
      then show "map the (take d received) ! i = take d shards ! i"
        using True erased_nth[OF er, of i] lr by (auto simp: list_all_length)
    qed
    have "sum_list (map length (take d shards)) = d * sz" using total by (simp add: length_concat)
    then show ?thesis
      using True d av lr len parts copyParts_whole[of len "take d shards" "replicate (min (d * sz) len) 0"] total
      by (simp add: decodeShards_def Let_def js_newUint8Array_def min.commute)
  next
    case False
    have par: "length received - d \<noteq> 0"
    proof
      assume "length received - d = 0"
      then have e: "take d received = received" by simp
      have "length (filter (\<lambda>s. s \<noteq> None) received) < length received"
        using False unfolding e by (auto simp: list_all_iff intro: length_filter_less)
      then show False using av \<open>length received - d = 0\<close> by simp
    qed
    have "filter (\<lambda>s. s \<noteq> None) received \<noteq> []" using av d(1) by auto
    then obtain x where "x \<in> set received" "x \<noteq> None" by (auto simp: filter_empty_conv)
    from find_present[OF this] obtain s where s: "List.find (\<lambda>s. s \<noteq> None) received = Some (Some s)"
        "Some s \<in> set received" by blast
    then obtain i where i: "i < length received" "received ! i = Some s" by (auto simp: in_set_conv_nth)
    then have "i < length shards" "s = shards ! i" using erased_nth[OF er, of i] by auto
    then have size: "length s = sz" using cw by (simp add: rs_codeword_def)
    have "rsReconstruct received d (length received - d) sz = Inr (take d shards)"
      using d lr by (intro rsReconstruct_correct[OF d(1) _ _ cw er av]) simp_all
    then show ?thesis
      using False d av lr par s(1) size sz len total copyParts_whole[of len "take d shards" "replicate len 0"]
      by (simp add: decodeShards_def Let_def js_newUint8Array_def min_def)
  qed
qed

text \<open>
  C2. Any \<open>d\<close> of the shards determine the data. Let the shards be a codeword (at every byte
  position the values of a polynomial of degree below \<open>d\<close> over GF(2^8) at the points 0, 1, 2, ...), at most
  256 of them, each of \<open>sz > 0\<close> bytes. Whatever shards are lost, as long as \<open>d\<close> remain,
  \<open>decodeShards\<close> returns exactly the first \<open>len\<close> bytes of the concatenated data shards, for every
  length the data shards can hold; the elimination never meets a singular matrix.
\<close>

theorem decodeShards_any_erasure:
  assumes "0 < d" "d \<le> length shards" "length shards \<le> 256" "rs_codeword d sz shards" "0 < sz"
    and "erased shards received" "d \<le> length (filter (\<lambda>s. s \<noteq> None) received)"
    and "len \<le> d * sz" "len < 2 ^ 53"
  shows "decodeShards received d len = Inr (take len (concat (take d shards)))"
  using decodeShards_value[OF assms(1-7,9)] assms(8) by simp

theorem decodeShards_any_erasure_witness:
  "decodeShards [None, Some [1], Some [2]] 2 2 = Inr [0, 1]"
proof -
  let ?s = "[[0], [1], [2]] :: bytes list"
  have "GF (?s ! r ! 0) = (\<Sum>c<2. gf r ^ c * (if c = 1 then 1 else 0))" if "r < 3" for r
    using that by (auto simp: numeral_2_eq_2 numeral_3_eq_3 less_Suc_eq gf_def)
  then have "rs_codeword 2 1 ?s" by (auto simp: rs_codeword_def numeral_3_eq_3)
  moreover have "erased ?s [None, Some [1], Some [2]]" by (simp add: erased_def)
  ultimately show ?thesis
    using decodeShards_any_erasure[of 2 ?s 1 "[None, Some [1], Some [2]]" 2] by simp
qed

text \<open>
  The encoding matrix is systematic and encodes the same code: for at most 256 shards it is
  always built, its first \<open>d\<close> rows return the data unchanged, and every vector it produces is
  the list of values of one polynomial of degree below \<open>d\<close>.
\<close>

theorem buildEncodeMatrix_systematic:
  assumes "d + p \<le> 256"
  shows "\<exists>M. buildEncodeMatrix d p = Inr M \<and> length M = d + p
    \<and> (\<forall>x. \<forall>r<d. rdot d (M ! r) x = x r)
    \<and> (\<forall>x. \<exists>a. \<forall>r<d + p. rdot d (M ! r) x = (\<Sum>c<d. gf r ^ c * a c))"
proof -
  let ?V = "vandermonde (d + p) d"
  obtain T M where T: "inverse_of d (take d ?V) T" and M: "buildEncodeMatrix d p = Inr M" "length M = d + p"
    and rows: "\<And>r. r < d + p \<Longrightarrow> row_ok d (M ! r)
       \<and> (\<forall>x. rdot d (M ! r) x = rdot d (?V ! r) (\<lambda>k. rdot d (T ! k) x))"
    using buildEncodeMatrix_spec[of d p] assms by (metis add_leD1 less_le_trans)
  have "rdot d (M ! r) x = x r" if "r < d" for x r
  proof -
    let ?a = "\<lambda>k. rdot d (T ! k) x"
    have "\<forall>i<d. rdot d (take d ?V ! i) ?a = x i"
      using iffD2[OF inverse_of_iff[OF T, of ?a x]] by simp
    then show ?thesis using rows[of r] that by simp
  qed
  moreover have "\<exists>a. \<forall>r<d + p. rdot d (M ! r) x = (\<Sum>c<d. gf r ^ c * a c)" for x
    using rows vandermonde_row(3)[of _ "d + p" d "\<lambda>k. rdot d (T ! k) x"] assms
    by (intro exI[of _ "\<lambda>k. rdot d (T ! k) x"]) simp
  ultimately show ?thesis using M by blast
qed

theorem buildEncodeMatrix_systematic_witness:
  "\<exists>M. buildEncodeMatrix 3 2 = Inr M \<and> length M = 5 \<and> (\<forall>x. \<forall>r<3. rdot 3 (M ! r) x = x r)"
  using buildEncodeMatrix_systematic[of 3 2] by auto

lemma jxor_zero: "jxor (Some v) None = Some v" "jxor (Some v) (Some 0) = Some v"
  by (simp_all add: jxor_def or_zero_def)

lemma fold_jxor_zero:
  "(\<And>k. k \<in> set ks \<Longrightarrow> f k = None \<or> f k = Some 0) \<Longrightarrow> fold (\<lambda>k acc. jxor acc (f k)) ks (Some v) = Some v"
proof (induction ks)
  case (Cons k ks)
  have "f k = None \<or> f k = Some 0" by (rule Cons.prems) simp
  then have "jxor (Some v) (f k) = Some v" by (auto simp: jxor_zero)
  then show ?case using Cons by simp
qed simp

lemma gfMul_None: "gfMul None x = None \<or> gfMul None x = Some 0"
  by (auto simp: gfMul_def js_idx_def lift2_def split: option.splits)

lemma pow_loop_large:
  "256 \<le> b \<Longrightarrow> 0 < e \<Longrightarrow> pow_loop (Some 1) (Some b) e = None"
proof -
  have none: "pow_loop None None e = None" for e
    by (induction e rule: less_induct) (subst pow_loop.simps, simp add: gfMul_def js_idx_def lift2_def)
  have half: "pow_loop (Some 1) None e = None" if "0 < e" for e
    using that
  proof (induction e rule: less_induct)
    case (less e)
    have m: "gfMul None None = None" "gfMul (Some 1) None = None"
      by (simp_all add: gfMul_def js_idx_def lift2_def)
    show ?case
    proof (cases "odd e")
      case True
      then show ?thesis using less.prems none by (subst pow_loop.simps) (simp add: m[simplified])
    next
      case False
      then have "0 < e div 2" "e div 2 < e" using less.prems by (auto elim!: evenE)
      then show ?thesis using less False by (subst pow_loop.simps) (simp add: m[simplified])
    qed
  qed
  assume b: "256 \<le> b" and e: "0 < e"
  have m: "gfMul (Some b) (Some b) = None" "gfMul (Some 1) (Some b) = None"
    using b by (simp_all add: gfMul_def js_idx_def lift2_def gfLog_nth)
  show ?thesis
  proof (cases "odd e")
    case True
    then show ?thesis using e none by (subst pow_loop.simps) (simp add: m[simplified])
  next
    case False
    then have "0 < e div 2" using e by (auto elim!: evenE)
    then show ?thesis using e False half by (subst pow_loop.simps) (simp add: m[simplified])
  qed
qed

text \<open>
  Past the size of the field the matrix is wrong: nothing limits the number of shards to
  256, and every row with index 256 or more equals row 0, so a parity shard at such an index is
  decoded as if it were a copy of the first data shard.
\<close>

theorem buildEncodeMatrix_past_field:
  assumes "0 < d" "256 \<le> r" "r < d + p" "buildEncodeMatrix d p = Inr M"
  shows "M ! r = M ! 0"
proof -
  let ?V = "vandermonde (d + p) d"
  obtain T where M: "M = map (\<lambda>r. map (\<lambda>c.
      fold (\<lambda>k acc. jxor acc (gfMul (js_get (?V ! r) k) (js_get (T ! k) c))) [0..<d] (Some 0)) [0..<d]) [0..<d + p]"
    using assms(4) by (auto simp: buildEncodeMatrix_def Let_def rbind_Inr_iff)
  have big: "js_get (?V ! r) k = (if k = 0 then Some 1 else None)" if "k < d" for k
    using that assms(2,3) pow_loop_large[of r k] by (auto simp: vandermonde_def js_get_def gfExp_pow_def)
  have zero: "js_get (?V ! 0) k = (if k = 0 then Some 1 else Some 0)" if "k < d" for k
    using that assms by (simp add: vandermonde_def js_get_def gfExp_pow_def)
  obtain n where n: "[0..<d] = 0 # [1..<d]" using assms(1) by (simp add: upt_rec)
  have "fold (\<lambda>k acc. jxor acc (gfMul (js_get (?V ! q) k) (js_get (T ! k) c))) [0..<d] (Some 0) =
      jxor (Some 0) (gfMul (Some 1) (js_get (T ! 0) c))" if "q = r \<or> q = 0" for q c
  proof -
    have q: "js_get (?V ! q) 0 = Some 1" "k \<in> set [1..<d] \<Longrightarrow> js_get (?V ! q) k \<in> {None, Some 0}" for k
      using that big zero assms(1) by auto
    have "fold (\<lambda>k acc. jxor acc (gfMul (js_get (?V ! q) k) (js_get (T ! k) c))) [1..<d] (Some v) = Some v" for v
      using q(2) gfMul_None by (intro fold_jxor_zero) force
    moreover obtain v where "jxor (Some 0) (gfMul (Some 1) (js_get (T ! 0) c)) = Some v" by (simp add: jxor_def)
    ultimately show ?thesis unfolding n using q(1) by simp
  qed
  then show ?thesis using M assms by simp
qed

theorem buildEncodeMatrix_past_field_witness:
  "\<exists>M. buildEncodeMatrix 2 300 = Inr M \<and> M ! 260 = M ! 0"
proof -
  have "(2 :: nat) \<le> 256" by simp
  then obtain M where M: "buildEncodeMatrix 2 300 = Inr M"
    by (metis buildEncodeMatrix_spec)
  then show ?thesis using buildEncodeMatrix_past_field[of 2 260 300 M] by simp
qed

text \<open>
  The length of a decoded message depends on which shards arrived. When the announced
  original length exceeds what the data shards hold, the message has only the shards' bytes if all
  data shards arrived, and is padded with zeros to the announced length if one had to be
  reconstructed.
\<close>

theorem decodeShards_overlong:
  assumes "0 < d" "d \<le> length shards" "length shards \<le> 256" "rs_codeword d sz shards" "0 < sz"
    and "erased shards received" "d \<le> length (filter (\<lambda>s. s \<noteq> None) received)"
    and "d * sz < len" "len < 2 ^ 53"
  shows "decodeShards received d len = Inr (concat (take d shards)
    @ (if list_all (\<lambda>s. s \<noteq> None) (take d received) then [] else replicate (len - d * sz) 0))"
proof -
  have "\<forall>s \<in> set (take d shards). length s = sz"
    using assms(4) by (auto simp: rs_codeword_def dest: in_set_takeD)
  then have "length (concat (take d shards)) = d * sz"
    using length_concat_uniform[of "take d shards" sz] assms(2) by simp
  then show ?thesis
    using decodeShards_value[OF assms(1-7,9)] assms(8) by (simp del: length_concat)
qed

theorem decodeShards_overlong_witness:
  "decodeShards [Some [0], Some [1], None] 2 4 = Inr [0, 1]
   \<and> decodeShards [None, Some [1], Some [2]] 2 4 = Inr [0, 1, 0, 0]"
proof -
  let ?s = "[[0], [1], [2]] :: bytes list"
  have "GF (?s ! r ! 0) = (\<Sum>c<2. gf r ^ c * (if c = 1 then 1 else 0))" if "r < 3" for r
    using that by (auto simp: numeral_2_eq_2 numeral_3_eq_3 less_Suc_eq gf_def)
  then have cw: "rs_codeword 2 1 ?s" by (auto simp: rs_codeword_def numeral_3_eq_3)
  have r: "replicate 2 (0 :: byte) = [0, 0]" by (simp add: numeral_2_eq_2)
  show ?thesis
    using decodeShards_overlong[of 2 ?s 1 "[Some [0], Some [1], None]" 4]
      decodeShards_overlong[of 2 ?s 1 "[None, Some [1], Some [2]]" 4] cw
    by (simp add: erased_def r)
qed

end
