(* ===== verification/Fragmentation.thy ===== *)
theory Fragmentation
  imports Bincode_Codec Reed_Solomon "HOL-Library.Multiset"
begin

section \<open>Fragment reassembly\<close>

text \<open>
  \<open>packages/nox-client/src/fragmentation.ts\<close>, lines 1 to 262 and 539 to 543: the \<open>Reassembler\<close> with
  its buffers, capacity limits, eviction and pruning. An operation takes the current time in
  milliseconds (the clock is read once per call) and the reassembler, and returns the changed
  reassembler with the result; an exception leaves the changes made before it. Numbers of a
  fragment are the unsigned fields of the wire format.
\<close>

definition MAX_FRAGMENTS_PER_MESSAGE :: int where
  "MAX_FRAGMENTS_PER_MESSAGE = 9500"

record reassembler_config =
  cfg_maxBufferBytes :: "int option"
  cfg_maxConcurrentMessages :: "int option"
  cfg_staleTimeoutMs :: "int option"

record reassembly_buffer =
  fragments :: "(int, fragment) jsmap"
  expectedTotal :: int
  receivedCount :: nat
  bufferedBytes :: nat
  createdAt :: int
  lastActivity :: int
  fecInfo :: "fec_info option"

record reassembler =
  buffers :: "(int, reassembly_buffer) jsmap"
  totalBufferedBytes :: int
  maxBufferBytes :: int
  maxConcurrentMessages :: int
  staleTimeoutMs :: int

definition new_reassembler :: "reassembler_config \<Rightarrow> reassembler" where
  "new_reassembler config =
     \<lparr>buffers = [], totalBufferedBytes = 0,
      maxBufferBytes = (case cfg_maxBufferBytes config of None \<Rightarrow> 300 * 1024 * 1024 | Some n \<Rightarrow> n),
      maxConcurrentMessages = (case cfg_maxConcurrentMessages config of None \<Rightarrow> 50 | Some n \<Rightarrow> n),
      staleTimeoutMs = (case cfg_staleTimeoutMs config of None \<Rightarrow> 120000 | Some n \<Rightarrow> n)\<rparr>"

definition newBuffer :: "int \<Rightarrow> fragment \<Rightarrow> reassembly_buffer" where
  "newBuffer now first =
     \<lparr>fragments = [], expectedTotal = totalFragments first, receivedCount = 0, bufferedBytes = 0,
      createdAt = now, lastActivity = now, fecInfo = fec first\<rparr>"

definition estimateFragmentSize :: "fragment \<Rightarrow> nat" where
  "estimateFragmentSize f = 21 + length (data f) + (if fec f \<noteq> None then 13 else 1)"

definition bufferIsComplete :: "reassembly_buffer \<Rightarrow> bool" where
  "bufferIsComplete b =
     (case fecInfo b of
        Some x \<Rightarrow> int (receivedCount b) \<ge> dataShardCount x
      | None \<Rightarrow> int (receivedCount b) = expectedTotal b)"

definition sequences :: "reassembly_buffer \<Rightarrow> int list" where
  "sequences b = map int [0..<nat (expectedTotal b)]"

definition assemble :: "reassembly_buffer \<Rightarrow> bytes result" where
  "assemble b =
     (case fecInfo b of
        None \<Rightarrow>
          (let parts = List.map_filter (\<lambda>seq. map_option data (jsmap_get (fragments b) seq)) (sequences b) in
           concatBytes parts (sum_list (map length parts)))
      | Some x \<Rightarrow>
          (let shards = map (\<lambda>seq. map_option data (jsmap_get (fragments b) seq)) (sequences b) in
           decodeShards shards (nat (dataShardCount x)) (nat (originalDataLen x))))"

definition bytesEqual :: "bytes \<Rightarrow> bytes \<Rightarrow> bool" where
  "bytesEqual a b = (length a = length b \<and> list_all (\<lambda>i. a ! i = b ! i) [0..<length a])"

definition validateFragment :: "fragment \<Rightarrow> unit result" where
  "validateFragment f =
     (if totalFragments f > MAX_FRAGMENTS_PER_MESSAGE
      then throw DecryptionFailed ''Fragment totalFragments exceeds max''
      else if sequence f \<ge> totalFragments f
      then throw DecryptionFailed ''Fragment sequence >= totalFragments''
      else (case fec f of
          Some x \<Rightarrow>
            if dataShardCount x = 0 \<or> dataShardCount x > totalFragments f
            then throw DecryptionFailed ''Fragment FEC dataShardCount must be in 1..=totalFragments''
            else Inr ()
        | None \<Rightarrow> Inr ()))"

text \<open>The loop of \<open>evictOldest\<close>: the first entry with the least \<open>lastActivity\<close>.\<close>

definition oldestEntry :: "(int, reassembly_buffer) jsmap \<Rightarrow> (int \<times> int) option" where
  "oldestEntry m = fold (\<lambda>(i, b) acc. case acc of
       None \<Rightarrow> Some (i, lastActivity b)
     | Some (_, t) \<Rightarrow> if lastActivity b < t then Some (i, lastActivity b) else acc) m None"

definition dropBuffer :: "int \<Rightarrow> reassembler \<Rightarrow> reassembler" where
  "dropBuffer i s =
     (case jsmap_get (buffers s) i of
        None \<Rightarrow> s
      | Some b \<Rightarrow> s\<lparr>totalBufferedBytes := max 0 (totalBufferedBytes s - int (bufferedBytes b)),
                   buffers := jsmap_delete i (buffers s)\<rparr>)"

definition evictOldest :: "reassembler \<Rightarrow> reassembler" where
  "evictOldest s = (case oldestEntry (buffers s) of None \<Rightarrow> s | Some (i, _) \<Rightarrow> dropBuffer i s)"

lemma oldestEntry_in: "m \<noteq> [] \<Longrightarrow> \<exists>i t. oldestEntry m = Some (i, t) \<and> i \<in> fst ` set m"
proof -
  let ?f = "\<lambda>(i, b :: reassembly_buffer) acc. case acc of
       None \<Rightarrow> Some (i, lastActivity b)
     | Some (_, t) \<Rightarrow> if lastActivity b < t then Some (i, lastActivity b) else acc"
  have *: "\<exists>i' t'. fold ?f m (Some (i, t)) = Some (i', t') \<and> i' \<in> insert i (fst ` set m)"
    for i :: int and t :: int and m
  proof (induction m arbitrary: i t)
    case (Cons p m)
    obtain j b where p: "p = (j, b)" by (cases p)
    show ?case
      using Cons[of j "lastActivity b"] Cons[of i t] by (simp add: p) blast
  qed simp
  assume "m \<noteq> []"
  then obtain j b m' where m: "m = (j, b) # m'" by (cases m) auto
  show ?thesis using *[of m' j "lastActivity b"] by (simp add: m oldestEntry_def)
qed

lemma length_jsmap_delete_less: "i \<in> fst ` set m \<Longrightarrow> length (jsmap_delete i m) < length m"
  unfolding jsmap_delete_def by (auto intro!: length_filter_less)

lemma evictOldest_drop:
  assumes "buffers s \<noteq> []"
  obtains i b where "evictOldest s = dropBuffer i s" "jsmap_get (buffers s) i = Some b"
proof -
  obtain i t where i: "oldestEntry (buffers s) = Some (i, t)" "i \<in> fst ` set (buffers s)"
    using oldestEntry_in[OF assms] by blast
  then obtain b where "jsmap_get (buffers s) i = Some b"
    using jsmap_get_None_iff[of "buffers s" i] by (cases "jsmap_get (buffers s) i") auto
  then show thesis using that i(1) by (simp add: evictOldest_def)
qed

lemma evictOldest_shrinks: "buffers s \<noteq> [] \<Longrightarrow> length (buffers (evictOldest s)) < length (buffers s)"
proof -
  assume "buffers s \<noteq> []"
  then obtain i b where e: "evictOldest s = dropBuffer i s" "jsmap_get (buffers s) i = Some b"
    by (rule evictOldest_drop)
  from e(2) have "(i, b) \<in> set (buffers s)" by (rule jsmap_get_Some_in)
  then have "i \<in> fst ` set (buffers s)" by (rule rev_image_eqI) simp
  from length_jsmap_delete_less[OF this] show ?thesis by (simp add: e dropBuffer_def)
qed

function ensureCapacity :: "nat \<Rightarrow> reassembler \<Rightarrow> reassembler" where
  "ensureCapacity neededBytes s =
     (if (totalBufferedBytes s + int neededBytes > maxBufferBytes s
          \<or> int (length (buffers s)) \<ge> maxConcurrentMessages s)
         \<and> length (buffers s) > 0
      then ensureCapacity neededBytes (evictOldest s) else s)"
  by pat_completeness auto
termination
  by (relation "measure (\<lambda>(_, s). length (buffers s))") (auto simp: evictOldest_shrinks)

declare ensureCapacity.simps [simp del]

definition addFragment :: "int \<Rightarrow> fragment \<Rightarrow> reassembler \<Rightarrow> reassembler \<times> bytes option result" where
  "addFragment now f s =
     (case validateFragment f of
        Inl e \<Rightarrow> (s, Inl e)
      | Inr _ \<Rightarrow>
        (case map_option (\<lambda>existing. jsmap_get (fragments existing) (sequence f))
                (jsmap_get (buffers s) (messageId f)) of
           Some (Some stored) \<Rightarrow>
             if \<not> bytesEqual (data stored) (data f)
             then (s, throw DecryptionFailed ''Duplicate fragment has different data'')
             else (s, Inr None)
         | _ \<Rightarrow>
           (let fragSize = estimateFragmentSize f;
                s1 = ensureCapacity fragSize s;
                b = (case jsmap_get (buffers s1) (messageId f) of None \<Rightarrow> newBuffer now f | Some b \<Rightarrow> b);
                s2 = s1\<lparr>buffers := jsmap_set (messageId f) b (buffers s1)\<rparr> in
            if totalFragments f \<noteq> expectedTotal b
            then (s2, throw DecryptionFailed ''Inconsistent totalFragments'')
            else if fec f \<noteq> None \<and> fecInfo b \<noteq> None
                 \<and> (dataShardCount (the (fecInfo b)) \<noteq> dataShardCount (the (fec f))
                    \<or> originalDataLen (the (fecInfo b)) \<noteq> originalDataLen (the (fec f)))
            then (s2, throw DecryptionFailed ''FEC mismatch'')
            else
              (let b' = b\<lparr>fecInfo := (if fec f \<noteq> None \<and> fecInfo b = None then fec f else fecInfo b),
                         lastActivity := now,
                         fragments := jsmap_set (sequence f) f (fragments b),
                         receivedCount := receivedCount b + 1,
                         bufferedBytes := bufferedBytes b + fragSize\<rparr>;
                   s3 = s2\<lparr>buffers := jsmap_set (messageId f) b' (buffers s2),
                          totalBufferedBytes := totalBufferedBytes s2 + int fragSize\<rparr> in
               if \<not> bufferIsComplete b' then (s3, Inr None)
               else
                 (let s4 = s3\<lparr>buffers := jsmap_delete (messageId f) (buffers s3),
                             totalBufferedBytes := max 0 (totalBufferedBytes s3 - int (bufferedBytes b'))\<rparr> in
                  (s4, rbind (assemble b') (\<lambda>out. Inr (Some out))))))))"

definition pruneStale :: "int \<Rightarrow> int option \<Rightarrow> reassembler \<Rightarrow> reassembler \<times> nat" where
  "pruneStale now timeoutMs s =
     (let timeout = (case timeoutMs of None \<Rightarrow> staleTimeoutMs s | Some t \<Rightarrow> t);
          cutoff = now - timeout;
          stale = map fst (filter (\<lambda>(_, b). createdAt b < cutoff) (buffers s)) in
      (fold dropBuffer stale s, length stale))"

definition get_bufferedBytes :: "reassembler \<Rightarrow> int" where
  "get_bufferedBytes s = totalBufferedBytes s"

definition pendingCount :: "reassembler \<Rightarrow> nat" where
  "pendingCount s = length (buffers s)"

definition hasMessage :: "int \<Rightarrow> reassembler \<Rightarrow> bool" where
  "hasMessage i s = jsmap_has (buffers s) i"

definition messageProgress :: "int \<Rightarrow> reassembler \<Rightarrow> (nat \<times> int) option" where
  "messageProgress i s = map_option (\<lambda>b. (receivedCount b, expectedTotal b)) (jsmap_get (buffers s) i)"

definition totalProgress :: "reassembler \<Rightarrow> nat \<times> int" where
  "totalProgress s = fold (\<lambda>(_, b) (received, total_count). (received + receivedCount b, total_count + expectedTotal b))
     (buffers s) (0, 0)"

subsection \<open>The invariant of the reassembler\<close>

definition acct :: "(int, reassembly_buffer) jsmap \<Rightarrow> nat" where
  "acct m = sum_list (map (\<lambda>(_, b). bufferedBytes b) m)"

definition frag_ok :: "int \<Rightarrow> reassembly_buffer \<Rightarrow> int \<times> fragment \<Rightarrow> bool" where
  "frag_ok i b = (\<lambda>(q, f). sequence f = q \<and> messageId f = i \<and> totalFragments f = expectedTotal b
     \<and> validateFragment f = Inr () \<and> (fec f = None \<or> fec f = fecInfo b))"

definition buffer_ok :: "int \<Rightarrow> reassembly_buffer \<Rightarrow> bool" where
  "buffer_ok i b = (jsmap_wf (fragments b) \<and> fragments b \<noteq> [] \<and> receivedCount b = length (fragments b)
     \<and> bufferedBytes b = sum_list (map (\<lambda>(_, f). estimateFragmentSize f) (fragments b))
     \<and> list_all (frag_ok i b) (fragments b) \<and> \<not> bufferIsComplete b)"

definition reasm_ok :: "reassembler \<Rightarrow> bool" where
  "reasm_ok s = (jsmap_wf (buffers s) \<and> list_all (\<lambda>(i, b). buffer_ok i b) (buffers s)
     \<and> totalBufferedBytes s = int (acct (buffers s)))"

lemma acct_delete: "jsmap_wf m \<Longrightarrow> jsmap_get m i = Some b \<Longrightarrow> acct m = bufferedBytes b + acct (jsmap_delete i m)"
  using sum_list_jsmap_delete[of m i b "\<lambda>(_, b). bufferedBytes b"] by (simp add: acct_def)

lemma acct_set: "jsmap_wf m \<Longrightarrow> acct (jsmap_set i b m) = bufferedBytes b + acct (jsmap_delete i m)"
  using sum_list_jsmap_set[of m "\<lambda>(_, b). bufferedBytes b" i b] by (simp add: acct_def)

lemma dropBuffer_ok: "reasm_ok s \<Longrightarrow> reasm_ok (dropBuffer i s)"
proof (cases "jsmap_get (buffers s) i")
  case None
  then show "reasm_ok s \<Longrightarrow> reasm_ok (dropBuffer i s)" by (simp add: dropBuffer_def)
next
  case (Some b)
  assume ok: "reasm_ok s"
  then have "acct (buffers s) = bufferedBytes b + acct (jsmap_delete i (buffers s))"
    using Some by (intro acct_delete) (simp_all add: reasm_ok_def)
  then show "reasm_ok (dropBuffer i s)"
    using ok Some
    by (auto simp: reasm_ok_def dropBuffer_def jsmap_wf_delete list_all_iff set_jsmap_delete)
qed

lemma dropBuffer_frame [simp]:
  "maxBufferBytes (dropBuffer i s) = maxBufferBytes s"
  "maxConcurrentMessages (dropBuffer i s) = maxConcurrentMessages s"
  "staleTimeoutMs (dropBuffer i s) = staleTimeoutMs s"
  by (simp_all add: dropBuffer_def split: option.split)

lemma evictOldest_frame [simp]:
  "maxBufferBytes (evictOldest s) = maxBufferBytes s"
  "maxConcurrentMessages (evictOldest s) = maxConcurrentMessages s"
  "staleTimeoutMs (evictOldest s) = staleTimeoutMs s"
  by (simp_all add: evictOldest_def split: option.split)

lemma evictOldest_ok: "reasm_ok s \<Longrightarrow> reasm_ok (evictOldest s)"
  by (auto simp: evictOldest_def dropBuffer_ok split: option.split)

lemma ensureCapacity_ok: "reasm_ok s \<Longrightarrow> reasm_ok (ensureCapacity n s)"
  by (induction n s rule: ensureCapacity.induct) (subst ensureCapacity.simps, simp add: evictOldest_ok)

lemma ensureCapacity_frame [simp]:
  "maxBufferBytes (ensureCapacity n s) = maxBufferBytes s"
  "maxConcurrentMessages (ensureCapacity n s) = maxConcurrentMessages s"
  "staleTimeoutMs (ensureCapacity n s) = staleTimeoutMs s"
  by (induction n s rule: ensureCapacity.induct; subst ensureCapacity.simps; simp)+

lemma ensureCapacity_room:
  "buffers (ensureCapacity n s) = []
   \<or> totalBufferedBytes (ensureCapacity n s) + int n \<le> maxBufferBytes s
     \<and> int (length (buffers (ensureCapacity n s))) < maxConcurrentMessages s"
proof (induction n s rule: ensureCapacity.induct)
  case (1 n s)
  show ?case
  proof (cases "(totalBufferedBytes s + int n > maxBufferBytes s
          \<or> int (length (buffers s)) \<ge> maxConcurrentMessages s) \<and> length (buffers s) > 0")
    case True
    then have "ensureCapacity n s = ensureCapacity n (evictOldest s)" by (subst ensureCapacity.simps) simp
    then show ?thesis using 1[OF True] by simp
  next
    case False
    then have "ensureCapacity n s = s" by (subst ensureCapacity.simps) auto
    then show ?thesis using False by auto
  qed
qed

text \<open>The branches of \<open>addFragment\<close> once the fragment is valid and not a duplicate.\<close>

definition target_buffer :: "int \<Rightarrow> fragment \<Rightarrow> reassembler \<Rightarrow> reassembly_buffer" where
  "target_buffer now f s =
     (case jsmap_get (buffers s) (messageId f) of None \<Rightarrow> newBuffer now f | Some b \<Rightarrow> b)"

definition extend_buffer :: "int \<Rightarrow> fragment \<Rightarrow> reassembly_buffer \<Rightarrow> reassembly_buffer" where
  "extend_buffer now f b =
     b\<lparr>fecInfo := (if fec f \<noteq> None \<and> fecInfo b = None then fec f else fecInfo b),
       lastActivity := now, fragments := jsmap_set (sequence f) f (fragments b),
       receivedCount := receivedCount b + 1, bufferedBytes := bufferedBytes b + estimateFragmentSize f\<rparr>"

definition is_stored :: "fragment \<Rightarrow> reassembler \<Rightarrow> fragment option" where
  "is_stored f s = (case jsmap_get (buffers s) (messageId f) of
     None \<Rightarrow> None | Some b \<Rightarrow> jsmap_get (fragments b) (sequence f))"

definition fec_mismatch :: "fragment \<Rightarrow> reassembly_buffer \<Rightarrow> bool" where
  "fec_mismatch f b = (fec f \<noteq> None \<and> fecInfo b \<noteq> None \<and> fecInfo b \<noteq> fec f)"

lemma fec_mismatch_iff:
  "fec f \<noteq> None \<and> fecInfo b \<noteq> None
     \<and> (dataShardCount (the (fecInfo b)) \<noteq> dataShardCount (the (fec f))
        \<or> originalDataLen (the (fecInfo b)) \<noteq> originalDataLen (the (fec f))) \<longleftrightarrow> fec_mismatch f b"
  by (cases "fec f"; cases "fecInfo b") (auto simp: fec_mismatch_def)

lemma bytesEqual_iff: "bytesEqual a b \<longleftrightarrow> a = b"
  unfolding bytesEqual_def list_all_iff list_eq_iff_nth_eq by (simp add: Ball_def)

lemma addFragment_invalid: "validateFragment f = Inl e \<Longrightarrow> addFragment now f s = (s, Inl e)"
  by (simp add: addFragment_def)

lemma addFragment_stored:
  assumes "validateFragment f = Inr ()" "is_stored f s = Some stored"
  shows "addFragment now f s = (s, if data stored = data f then Inr None
    else throw DecryptionFailed ''Duplicate fragment has different data'')"
  using assms by (auto simp: addFragment_def is_stored_def bytesEqual_iff split: option.splits)

lemma addFragment_fresh:
  fixes now :: int
  assumes "validateFragment f = Inr ()" "is_stored f s = None"
  defines "s1 \<equiv> ensureCapacity (estimateFragmentSize f) s"
  defines "b \<equiv> target_buffer now f s1"
  defines "b' \<equiv> extend_buffer now f b"
  shows "addFragment now f s =
    (if totalFragments f \<noteq> expectedTotal b
     then (s1\<lparr>buffers := jsmap_set (messageId f) b (buffers s1)\<rparr>, throw DecryptionFailed ''Inconsistent totalFragments'')
     else if fec_mismatch f b
     then (s1\<lparr>buffers := jsmap_set (messageId f) b (buffers s1)\<rparr>, throw DecryptionFailed ''FEC mismatch'')
     else if \<not> bufferIsComplete b'
     then (s1\<lparr>buffers := jsmap_set (messageId f) b' (buffers s1),
             totalBufferedBytes := totalBufferedBytes s1 + int (estimateFragmentSize f)\<rparr>, Inr None)
     else (s1\<lparr>buffers := jsmap_delete (messageId f) (buffers s1),
             totalBufferedBytes := max 0 (totalBufferedBytes s1 + int (estimateFragmentSize f) - int (bufferedBytes b'))\<rparr>,
           rbind (assemble b') (\<lambda>out. Inr (Some out))))"
proof -
  let ?x = "map_option (\<lambda>existing. jsmap_get (fragments existing) (sequence f))
      (jsmap_get (buffers s) (messageId f))"
  note unfold = addFragment_def assms(1) sum.case Let_def fec_mismatch_iff s1_def b_def b'_def
    target_buffer_def extend_buffer_def
  have "?x = None \<or> ?x = Some None"
    using assms(2) by (auto simp: is_stored_def split: option.splits)
  then show ?thesis
  proof
    assume x: "?x = None"
    show ?thesis unfolding unfold x option.case by (simp add: jsmap_set_twice jsmap_delete_set)
  next
    assume x: "?x = Some None"
    show ?thesis unfolding unfold x option.case by (simp add: jsmap_set_twice jsmap_delete_set)
  qed
qed

lemma validateFragment_cases: "validateFragment f = Inr () \<or> (\<exists>m. validateFragment f = throw DecryptionFailed m)"
  by (simp add: validateFragment_def split: option.split)

lemma is_stored_ensureCapacity:
  assumes "reasm_ok s" "is_stored f s = None"
  shows "is_stored f (ensureCapacity n s) = None"
  using assms
proof (induction n s rule: ensureCapacity.induct)
  case (1 n s)
  have "is_stored f (evictOldest s) = None"
    using 1(2,3) by (auto simp: is_stored_def evictOldest_def dropBuffer_def reasm_ok_def js_map.get_del
        split: option.splits)
  then show ?case
    using 1 evictOldest_ok by (subst ensureCapacity.simps) simp
qed

lemma target_buffer_cases:
  assumes "reasm_ok s"
  shows "(jsmap_get (buffers s) (messageId f) = None \<and> target_buffer now f s = newBuffer now f)
    \<or> (jsmap_get (buffers s) (messageId f) = Some (target_buffer now f s)
       \<and> buffer_ok (messageId f) (target_buffer now f s))"
proof (cases "jsmap_get (buffers s) (messageId f)")
  case None
  then show ?thesis by (simp add: target_buffer_def)
next
  case (Some b)
  then have "(messageId f, b) \<in> set (buffers s)" by (rule jsmap_get_Some_in)
  then have "buffer_ok (messageId f) b" using assms by (auto simp: reasm_ok_def list_all_iff)
  then show ?thesis using Some by (simp add: target_buffer_def)
qed

lemma extend_buffer_ok:
  assumes b: "b = newBuffer now f \<or> buffer_ok (messageId f) b"
    and "validateFragment f = Inr ()" "totalFragments f = expectedTotal b" "\<not> fec_mismatch f b"
    and fresh: "jsmap_get (fragments b) (sequence f) = None"
  shows "bufferIsComplete (extend_buffer now f b) \<or> buffer_ok (messageId f) (extend_buffer now f b)"
proof -
  let ?b = "extend_buffer now f b"
  have notin: "sequence f \<notin> set (jsmap_keys (fragments b))" using fresh by (simp add: jsmap_get_None_iff)
  then have frs: "fragments ?b = fragments b @ [(sequence f, f)]"
    by (simp add: extend_buffer_def jsmap_set_fresh)
  have wf: "jsmap_wf (fragments b)" "receivedCount b = length (fragments b)"
      "bufferedBytes b = sum_list (map (\<lambda>(_, f). estimateFragmentSize f) (fragments b))"
      "list_all (frag_ok (messageId f) b) (fragments b)"
    using b by (auto simp: buffer_ok_def newBuffer_def)
  have fi: "fecInfo ?b = (if fecInfo b = None then fec f else fecInfo b)"
    by (simp add: extend_buffer_def)
  have "frag_ok (messageId f) ?b p" if "frag_ok (messageId f) b p" for p
    using that by (auto simp: frag_ok_def extend_buffer_def split: prod.splits)
  then have "list_all (frag_ok (messageId f) ?b) (fragments b)"
    using wf(4) by (auto simp: list_all_iff)
  moreover have "frag_ok (messageId f) ?b (sequence f, f)"
    using assms(2-4) fi by (auto simp: frag_ok_def fec_mismatch_def extend_buffer_def)
  ultimately have "list_all (frag_ok (messageId f) ?b) (fragments ?b)" by (simp add: frs)
  moreover have "jsmap_wf (fragments ?b)" using wf(1) by (simp add: extend_buffer_def jsmap_wf_set)
  moreover have "receivedCount ?b = length (fragments ?b)"
      "bufferedBytes ?b = sum_list (map (\<lambda>(_, f). estimateFragmentSize f) (fragments ?b))"
    using wf(2,3) frs by (simp_all add: extend_buffer_def)
  ultimately show ?thesis by (auto simp: buffer_ok_def frs)
qed

lemma reasm_ok_set:
  assumes ok: "reasm_ok s" and b: "buffer_ok i b"
    and old: "case jsmap_get (buffers s) i of None \<Rightarrow> bufferedBytes b = n
      | Some b0 \<Rightarrow> bufferedBytes b = bufferedBytes b0 + n"
  shows "reasm_ok (s\<lparr>buffers := jsmap_set i b (buffers s),
    totalBufferedBytes := totalBufferedBytes s + int n\<rparr>)"
proof -
  have wf: "jsmap_wf (buffers s)" using ok by (simp add: reasm_ok_def)
  have "acct (jsmap_set i b (buffers s)) = acct (buffers s) + n"
    using old acct_delete[OF wf, of i] acct_set[OF wf, of i b] jsmap_delete_absent[of i "buffers s"]
      jsmap_get_None_iff[of "buffers s" i]
    by (auto split: option.splits)
  then show ?thesis
    using ok b wf by (auto simp: reasm_ok_def jsmap_wf_set list_all_iff set_jsmap_set)
qed

lemma reasm_ok_delete:
  assumes ok: "reasm_ok s"
    and t: "t = totalBufferedBytes s - (case jsmap_get (buffers s) i of None \<Rightarrow> 0 | Some b \<Rightarrow> int (bufferedBytes b))"
  shows "reasm_ok (s\<lparr>buffers := jsmap_delete i (buffers s), totalBufferedBytes := max 0 t\<rparr>)"
proof -
  have wf: "jsmap_wf (buffers s)" using ok by (simp add: reasm_ok_def)
  have "t = int (acct (jsmap_delete i (buffers s)))"
    using t ok acct_delete[OF wf, of i] jsmap_delete_absent[of i "buffers s"] jsmap_get_None_iff[of "buffers s" i]
    by (auto simp: reasm_ok_def split: option.splits)
  then show ?thesis
    using ok by (auto simp: reasm_ok_def jsmap_wf_delete list_all_iff set_jsmap_delete)
qed

lemma addFragment_ok:
  assumes ok: "reasm_ok s"
  shows "reasm_ok (fst (addFragment now f s))"
proof -
  consider (invalid) m where "validateFragment f = throw DecryptionFailed m"
    | (stored) st where "validateFragment f = Inr ()" "is_stored f s = Some st"
    | (fresh) "validateFragment f = Inr ()" "is_stored f s = None"
    using validateFragment_cases[of f] by (cases "is_stored f s") auto
  then show ?thesis
  proof cases
    case invalid
    then show ?thesis using ok by (simp add: addFragment_def)
  next
    case stored
    then show ?thesis using ok by (simp add: addFragment_stored)
  next
    case fresh
    define s1 where "s1 = ensureCapacity (estimateFragmentSize f) s"
    define b where "b = target_buffer now f s1"
    have ok1: "reasm_ok s1" unfolding s1_def by (rule ensureCapacity_ok[OF ok])
    have st: "is_stored f s1 = None" unfolding s1_def by (rule is_stored_ensureCapacity[OF ok fresh(2)])
    have tc: "(jsmap_get (buffers s1) (messageId f) = None \<and> b = newBuffer now f)
        \<or> (jsmap_get (buffers s1) (messageId f) = Some b \<and> buffer_ok (messageId f) b)"
      unfolding b_def by (rule target_buffer_cases[OF ok1])
    have fr: "jsmap_get (fragments b) (sequence f) = None"
      using tc st by (auto simp: is_stored_def newBuffer_def jsmap_get_def)
    have err: "reasm_ok (s1\<lparr>buffers := jsmap_set (messageId f) b (buffers s1)\<rparr>)"
      if "totalFragments f \<noteq> expectedTotal b \<or> fec_mismatch f b"
      using tc that ok1 by (auto simp: newBuffer_def fec_mismatch_def jsmap_set_same)
    let ?b = "extend_buffer now f b"
    have bytes: "bufferedBytes ?b = bufferedBytes b + estimateFragmentSize f" by (simp add: extend_buffer_def)
    have new0: "bufferedBytes (newBuffer now f) = 0" by (simp add: newBuffer_def)
    have go: "reasm_ok (s1\<lparr>buffers := jsmap_set (messageId f) ?b (buffers s1),
        totalBufferedBytes := totalBufferedBytes s1 + int (estimateFragmentSize f)\<rparr>)"
      if "buffer_ok (messageId f) ?b"
      using tc bytes new0 by (intro reasm_ok_set[OF ok1 that]) auto
    have fin: "reasm_ok (s1\<lparr>buffers := jsmap_delete (messageId f) (buffers s1),
        totalBufferedBytes := max 0 (totalBufferedBytes s1 + int (estimateFragmentSize f) - int (bufferedBytes ?b))\<rparr>)"
      using tc bytes new0 by (intro reasm_ok_delete[OF ok1]) auto
    show ?thesis
      unfolding addFragment_fresh[OF fresh, of now, folded s1_def b_def]
      using err go fin extend_buffer_ok[of b now f] tc fr fresh(1) by auto
  qed
qed

subsection \<open>Limits\<close>

text \<open>The byte limit holds, except while all that is held is one fragment that is over the limit by itself.\<close>

definition within_limits :: "reassembler \<Rightarrow> bool" where
  "within_limits s = ((totalBufferedBytes s \<le> max 0 (maxBufferBytes s)
       \<or> (\<exists>i b q f. buffers s = [(i, b)] \<and> fragments b = [(q, f)] \<and> maxBufferBytes s < int (estimateFragmentSize f)))
     \<and> int (length (buffers s)) \<le> max 1 (maxConcurrentMessages s))"

lemma length_jsmap_set_le: "length (jsmap_set k v m) \<le> Suc (length m)"
  by (simp add: length_jsmap_set)

lemma length_jsmap_delete_le: "length (jsmap_delete k m) \<le> length m"
  by (simp add: jsmap_delete_def)

lemma addFragment_limits:
  assumes ok: "reasm_ok s" and lim: "within_limits s"
  shows "within_limits (fst (addFragment now f s))"
proof (cases "validateFragment f = Inr () \<and> is_stored f s = None")
  case False
  then have "fst (addFragment now f s) = s"
    using validateFragment_cases[of f] addFragment_stored[of f s _ now]
    by (cases "is_stored f s") (auto simp: addFragment_invalid)
  then show ?thesis using lim by simp
next
  case True
  define s1 where "s1 = ensureCapacity (estimateFragmentSize f) s"
  have ok1: "reasm_ok s1" unfolding s1_def by (rule ensureCapacity_ok[OF ok])
  have frame: "maxBufferBytes s1 = maxBufferBytes s" "maxConcurrentMessages s1 = maxConcurrentMessages s"
    by (simp_all add: s1_def)
  have empty: "buffers s1 = [] \<Longrightarrow> totalBufferedBytes s1 = 0" and pos: "0 \<le> totalBufferedBytes s1"
    using ok1 by (simp_all add: reasm_ok_def acct_def)
  note run = addFragment_fresh[OF conjunct1[OF True] conjunct2[OF True], of now, folded s1_def]
  show ?thesis
  proof (cases "int (estimateFragmentSize f) \<le> maxBufferBytes s")
    case size: True
    have room: "totalBufferedBytes s1 + int (estimateFragmentSize f) \<le> maxBufferBytes s"
        "int (length (buffers s1)) + 1 \<le> max 1 (maxConcurrentMessages s)"
      using ensureCapacity_room[of "estimateFragmentSize f" s] size empty by (auto simp: s1_def)
    have len: "int (length (jsmap_set i b (buffers s1))) \<le> max 1 (maxConcurrentMessages s)"
        "int (length (jsmap_delete i (buffers s1))) \<le> max 1 (maxConcurrentMessages s)" for i b
      using room(2) length_jsmap_set_le[of i b "buffers s1"] length_jsmap_delete_le[of i "buffers s1"] by linarith+
    have "totalBufferedBytes s1 \<le> max 0 (maxBufferBytes s)"
        "totalBufferedBytes s1 + int (estimateFragmentSize f) \<le> max 0 (maxBufferBytes s)"
        "totalBufferedBytes s1 + int (estimateFragmentSize f) - int x \<le> max 0 (maxBufferBytes s)" for x
      using room(1) by linarith+
    then show ?thesis using len unfolding run by (simp add: within_limits_def frame)
  next
    case over: False
    then have none: "buffers s1 = []" using ensureCapacity_room[of "estimateFragmentSize f" s] pos by (auto simp: s1_def)
    have "target_buffer now f s1 = newBuffer now f" by (simp add: target_buffer_def none jsmap_get_def)
    then show ?thesis using over empty[OF none] unfolding run
      by (auto simp: within_limits_def frame none newBuffer_def fec_mismatch_def extend_buffer_def jsmap_delete_def)
  qed
qed

lemma buffers_fold_drop: "buffers (fold dropBuffer ks s) = filter (\<lambda>(k, _). k \<notin> set ks) (buffers s)"
proof (induction ks arbitrary: s)
  case Nil
  then show ?case by (simp add: case_prod_unfold)
next
  case (Cons k ks)
  have "buffers (dropBuffer k s) = filter (\<lambda>(k', _). k' \<noteq> k) (buffers s)"
  proof (cases "jsmap_get (buffers s) k")
    case None
    then show ?thesis
      using jsmap_delete_absent[of k "buffers s"] jsmap_get_None_iff[of "buffers s" k]
      by (simp add: dropBuffer_def jsmap_delete_def)
  next
    case (Some b)
    then show ?thesis by (simp add: dropBuffer_def jsmap_delete_def)
  qed
  then show ?case using Cons[of "dropBuffer k s"] by (auto intro!: filter_cong)
qed

lemma fold_drop_ok: "reasm_ok s \<Longrightarrow> reasm_ok (fold dropBuffer ks s)"
  by (induction ks arbitrary: s) (simp_all add: dropBuffer_ok)

lemma fold_drop_frame:
  "maxBufferBytes (fold dropBuffer ks s) = maxBufferBytes s"
  "maxConcurrentMessages (fold dropBuffer ks s) = maxConcurrentMessages s"
  by (induction ks arbitrary: s) simp_all

lemma acct_filter_le: "acct (filter P m) \<le> acct m"
  by (induction m) (auto simp: acct_def)

lemma pruneStale_limits:
  assumes "reasm_ok s" "within_limits s"
  shows "reasm_ok (fst (pruneStale now t s))" "within_limits (fst (pruneStale now t s))"
proof -
  obtain ks where ks: "fst (pruneStale now t s) = fold dropBuffer ks s" by (simp add: pruneStale_def Let_def)
  show ok: "reasm_ok (fst (pruneStale now t s))" by (simp add: ks fold_drop_ok assms)
  have kept: "buffers (fold dropBuffer ks s) = filter (\<lambda>(k, _). k \<notin> set ks) (buffers s)" by (rule buffers_fold_drop)
  have less: "totalBufferedBytes (fold dropBuffer ks s) \<le> totalBufferedBytes s"
    using ok assms(1) acct_filter_le[of "\<lambda>(k, _). k \<notin> set ks" "buffers s"]
    by (simp add: ks reasm_ok_def kept)
  have none: "buffers (fold dropBuffer ks s) = [] \<Longrightarrow> totalBufferedBytes (fold dropBuffer ks s) = 0"
    using ok by (simp add: ks reasm_ok_def acct_def)
  have "totalBufferedBytes (fold dropBuffer ks s) \<le> max 0 (maxBufferBytes s)
       \<or> (\<exists>i b q f. buffers (fold dropBuffer ks s) = [(i, b)] \<and> fragments b = [(q, f)] \<and> maxBufferBytes s < int (estimateFragmentSize f))"
  proof (cases "totalBufferedBytes s \<le> max 0 (maxBufferBytes s)")
    case True
    then show ?thesis using less by linarith
  next
    case False
    then obtain i b q f where one: "buffers s = [(i, b)]" "fragments b = [(q, f)]" "maxBufferBytes s < int (estimateFragmentSize f)"
      using assms(2) unfolding within_limits_def by blast
    show ?thesis
    proof (cases "i \<in> set ks")
      case True
      then show ?thesis using none one(1) by (simp add: kept)
    next
      case False
      then show ?thesis using one by (simp add: kept)
    qed
  qed
  moreover have "length (buffers (fold dropBuffer ks s)) \<le> length (buffers s)" by (simp add: kept)
  then have "int (length (buffers (fold dropBuffer ks s))) \<le> max 1 (maxConcurrentMessages s)"
    using assms(2) unfolding within_limits_def by linarith
  ultimately show "within_limits (fst (pruneStale now t s))"
    unfolding within_limits_def ks fold_drop_frame by (rule conjI)
qed

text \<open>The states a reassembler goes through when any fragments arrive and stale messages are pruned, in any order and at any times.\<close>

inductive reachable :: "reassembler_config \<Rightarrow> reassembler \<Rightarrow> bool" for c where
  start: "reachable c (new_reassembler c)"
| add: "reachable c s \<Longrightarrow> reachable c (fst (addFragment now f s))"
| prune: "reachable c s \<Longrightarrow> reachable c (fst (pruneStale now t s))"

lemma new_reassembler_ok: "reasm_ok (new_reassembler c)" "within_limits (new_reassembler c)"
  by (simp_all add: reasm_ok_def within_limits_def new_reassembler_def acct_def)

text \<open>
  C36. Resource limits and bookkeeping of the reassembler. In every reachable state, whatever fragments arrived, the byte
  counter is the exact sum of the estimated sizes of the stored fragments, and it exceeds the configured limit only while all that is held is one
  fragment that is over the limit by itself; the number of pending messages never exceeds the configured limit (or one),
  and every pending buffer is well formed: distinct sequence numbers below a common total of at
  most 9500, an exact fragment count, consistent error-correction data, and not complete.
\<close>

theorem reassembler_invariant:
  assumes "reachable c s"
  shows "reasm_ok s \<and> within_limits s"
  using assms
proof induction
  case start
  then show ?case by (simp add: new_reassembler_ok)
next
  case (add s f now)
  then show ?case using addFragment_ok addFragment_limits by blast
next
  case (prune s now t)
  then show ?case using pruneStale_limits by blast
qed

definition sample_config :: reassembler_config where
  "sample_config = \<lparr>cfg_maxBufferBytes = Some 1000, cfg_maxConcurrentMessages = None, cfg_staleTimeoutMs = None\<rparr>"

definition sample_fragment :: fragment where
  "sample_fragment = \<lparr>messageId = 7, totalFragments = 2, sequence = 1, data = [1, 2], fec = None\<rparr>"

theorem reassembler_invariant_witness:
  "within_limits (fst (addFragment 0 sample_fragment (new_reassembler sample_config)))"
proof -
  have "reachable sample_config (fst (addFragment 0 sample_fragment (new_reassembler sample_config)))"
    by (intro reachable.intros)
  from reassembler_invariant[OF this] show ?thesis by simp
qed

text \<open>A fragment over the byte limit is stored all the same.\<close>

lemma oversize_fragment_stored:
  "get_bufferedBytes (fst (addFragment 0 sample_fragment (new_reassembler (sample_config\<lparr>cfg_maxBufferBytes := Some 10\<rparr>)))) = 24"
  by code_simp

text \<open>
  Pruning is exact: \<open>pruneStale\<close> removes precisely the messages created before the cutoff,
  keeps the others in order, returns how many it removed, and keeps the books.
\<close>

theorem pruneStale_exact:
  assumes "reasm_ok s"
  shows "buffers (fst (pruneStale now (Some t) s)) = filter (\<lambda>(_, b). now - t \<le> createdAt b) (buffers s)
    \<and> snd (pruneStale now (Some t) s) = length (filter (\<lambda>(_, b). createdAt b < now - t) (buffers s))
    \<and> reasm_ok (fst (pruneStale now (Some t) s))"
proof (intro conjI)
  let ?stale = "map fst (filter (\<lambda>(_, b). createdAt b < now - t) (buffers s))"
  have wf: "jsmap_wf (buffers s)" using assms by (simp add: reasm_ok_def)
  have "(i \<notin> set ?stale) = (now - t \<le> createdAt b)" if i: "(i, b) \<in> set (buffers s)" for i b
  proof -
    have "i \<in> set ?stale \<longleftrightarrow> (\<exists>b'. (i, b') \<in> set (buffers s) \<and> createdAt b' < now - t)"
      by force
    also have "\<dots> \<longleftrightarrow> createdAt b < now - t"
      using i unfolding jsmap_get_iff[OF wf, symmetric] by auto
    finally show ?thesis by auto
  qed
  then show "buffers (fst (pruneStale now (Some t) s)) = filter (\<lambda>(_, b). now - t \<le> createdAt b) (buffers s)"
    by (auto simp: pruneStale_def Let_def buffers_fold_drop intro!: filter_cong)
  show "snd (pruneStale now (Some t) s) = length (filter (\<lambda>(_, b). createdAt b < now - t) (buffers s))"
    by (simp add: pruneStale_def Let_def)
  show "reasm_ok (fst (pruneStale now (Some t) s))"
    using assms by (simp add: pruneStale_def Let_def fold_drop_ok)
qed

theorem pruneStale_exact_witness:
  "buffers (fst (pruneStale 50 (Some 10) (new_reassembler sample_config))) = []"
  using pruneStale_exact[of "new_reassembler sample_config" 50 10] new_reassembler_ok
  by (simp add: new_reassembler_def)

end
