(* ===== verification/Reassembly.thy ===== *)
theory Reassembly
  imports Fragmentation
begin

section \<open>Reassembling whole messages\<close>

text \<open>
  What a sequence of \<open>addFragment\<close> calls delivers. \<open>deliver\<close> runs the calls of a list of timed
  fragments. The main results: the fragments of a message may arrive in any order, and with error
  correction any \<open>dataShardCount\<close> of them are enough; the last one returns the message, the others
  return nothing, and the reassembler ends as it began.
\<close>

fun deliver :: "(int \<times> fragment) list \<Rightarrow> reassembler \<Rightarrow> reassembler \<times> bytes option result list" where
  "deliver [] s = (s, [])"
| "deliver ((now, f) # fs) s =
     (let (s1, r) = addFragment now f s; (s2, rs) = deliver fs s1 in (s2, r # rs))"

definition est_sum :: "fragment list \<Rightarrow> nat" where
  "est_sum gs = sum_list (map estimateFragmentSize gs)"

definition of_message :: "int \<Rightarrow> int \<Rightarrow> fec_info option \<Rightarrow> fragment \<Rightarrow> bool" where
  "of_message i n fi f = (messageId f = i \<and> totalFragments f = n \<and> fec f = fi \<and> validateFragment f = Inr ())"

definition msg_need :: "int \<Rightarrow> fec_info option \<Rightarrow> int" where
  "msg_need n fi = (case fi of None \<Rightarrow> n | Some x \<Rightarrow> dataShardCount x)"

definition part_buffer :: "int \<Rightarrow> fec_info option \<Rightarrow> int \<Rightarrow> int \<Rightarrow> fragment list \<Rightarrow> reassembly_buffer" where
  "part_buffer n fi c l gs =
     \<lparr>fragments = map (\<lambda>f. (sequence f, f)) gs, expectedTotal = n, receivedCount = length gs,
      bufferedBytes = est_sum gs, createdAt = c, lastActivity = l, fecInfo = fi\<rparr>"

definition part_state :: "reassembler \<Rightarrow> int \<Rightarrow> int \<Rightarrow> fec_info option \<Rightarrow> int \<Rightarrow> int \<Rightarrow> fragment list \<Rightarrow> reassembler" where
  "part_state s i n fi c l gs =
     (if gs = [] then s
      else s\<lparr>buffers := buffers s @ [(i, part_buffer n fi c l gs)],
             totalBufferedBytes := totalBufferedBytes s + int (est_sum gs)\<rparr>)"

definition has_room :: "reassembler \<Rightarrow> nat \<Rightarrow> bool" where
  "has_room s n = (totalBufferedBytes s + int n \<le> maxBufferBytes s
     \<and> int (length (buffers s)) + 1 < maxConcurrentMessages s)"

lemma ensureCapacity_room_id:
  "totalBufferedBytes s + int n \<le> maxBufferBytes s \<Longrightarrow> int (length (buffers s)) < maxConcurrentMessages s \<Longrightarrow>
   ensureCapacity n s = s"
  by (subst ensureCapacity.simps) simp

lemma part_state_simps:
  assumes "i \<notin> set (jsmap_keys (buffers s))"
  shows "jsmap_get (buffers (part_state s i n fi c l gs)) i =
      (if gs = [] then None else Some (part_buffer n fi c l gs))"
  using assms jsmap_get_None_iff[of "buffers s" i] by (simp add: part_state_def jsmap_get_last)

lemma part_buffer_fresh:
  "sequence f \<notin> sequence ` set gs \<Longrightarrow> jsmap_get (fragments (part_buffer n fi c l gs)) (sequence f) = None"
  by (auto simp: part_buffer_def jsmap_get_None_iff)

lemma extend_part_buffer:
  assumes "of_message i n fi f" "sequence f \<notin> sequence ` set gs"
  shows "extend_buffer now f (part_buffer n fi c l gs) = part_buffer n fi c now (gs @ [f])"
proof -
  have "sequence f \<notin> set (jsmap_keys (map (\<lambda>f. (sequence f, f)) gs))" using assms(2) by auto
  then show ?thesis
    using assms by (auto simp: extend_buffer_def part_buffer_def jsmap_set_fresh est_sum_def of_message_def)
qed

lemma newBuffer_part: "of_message i n fi f \<Longrightarrow> newBuffer now f = part_buffer n fi now now []"
  by (simp add: newBuffer_def part_buffer_def of_message_def est_sum_def)

lemma add_step:
  assumes ok: "reasm_ok s" and i: "i \<notin> set (jsmap_keys (buffers s))" and m: "of_message i n fi f"
    and fresh: "sequence f \<notin> sequence ` set gs" and room: "has_room s (est_sum gs + estimateFragmentSize f)"
  obtains c' where "addFragment now f (part_state s i n fi c l gs) =
    (if bufferIsComplete (part_buffer n fi c' now (gs @ [f]))
     then (s, rbind (assemble (part_buffer n fi c' now (gs @ [f]))) (\<lambda>out. Inr (Some out)))
     else (part_state s i n fi c' now (gs @ [f]), Inr None))"
proof -
  let ?s = "part_state s i n fi c l gs"
  have v: "validateFragment f = Inr ()" "messageId f = i" "totalFragments f = n" "fec f = fi"
    using m by (simp_all add: of_message_def)
  have st: "is_stored f ?s = None"
    using part_state_simps[OF i, of n fi c l gs] part_buffer_fresh[OF fresh, of n fi c l] v(2)
    by (simp add: is_stored_def)
  have cap: "ensureCapacity (estimateFragmentSize f) ?s = ?s"
    using room by (intro ensureCapacity_room_id) (auto simp: part_state_def has_room_def est_sum_def)
  define c' where "c' = (if gs = [] then now else c)"
  have tb: "target_buffer now f ?s = part_buffer n fi c' (if gs = [] then now else l) gs"
    using part_state_simps[OF i, of n fi c l gs] v(2) newBuffer_part[OF m, of now]
    by (simp add: target_buffer_def c'_def)
  have ext: "extend_buffer now f (target_buffer now f ?s) = part_buffer n fi c' now (gs @ [f])"
    unfolding tb by (rule extend_part_buffer[OF m fresh])
  have pos: "0 \<le> totalBufferedBytes s" using ok by (simp add: reasm_ok_def)
  have set: "jsmap_set i b (buffers ?s) = buffers s @ [(i, b)]" for b
    using i by (simp add: part_state_def jsmap_set_fresh jsmap_set_last)
  have del: "jsmap_delete i (buffers ?s) = buffers s"
    using i by (simp add: part_state_def jsmap_delete_absent jsmap_delete_last)
  have tot: "totalBufferedBytes ?s = totalBufferedBytes s + int (est_sum gs)"
    by (simp add: part_state_def est_sum_def)
  have bytes: "bufferedBytes (part_buffer n fi c' now (gs @ [f])) = est_sum gs + estimateFragmentSize f"
    by (simp add: part_buffer_def est_sum_def)
  have done_state: "?s\<lparr>buffers := buffers s, totalBufferedBytes := totalBufferedBytes s\<rparr> = s"
    by (simp add: part_state_def)
  have part: "?s\<lparr>buffers := buffers s @ [(i, b)], totalBufferedBytes := t\<rparr>
      = s\<lparr>buffers := buffers s @ [(i, b)], totalBufferedBytes := t\<rparr>" for b t
    by (simp add: part_state_def)
  have eqs: "totalFragments f = expectedTotal (target_buffer now f ?s)" "\<not> fec_mismatch f (target_buffer now f ?s)"
    unfolding tb using v by (simp_all add: part_buffer_def fec_mismatch_def)
  have "addFragment now f ?s =
    (if bufferIsComplete (part_buffer n fi c' now (gs @ [f]))
     then (s, rbind (assemble (part_buffer n fi c' now (gs @ [f]))) (\<lambda>out. Inr (Some out)))
     else (part_state s i n fi c' now (gs @ [f]), Inr None))"
    unfolding addFragment_fresh[OF v(1) st, of now, unfolded cap] ext
    using eqs pos done_state
    by (simp add: v(2) set del tot bytes part) (simp add: part_state_def est_sum_def)
  then show thesis by (rule that)
qed

text \<open>What the collected fragments assemble to does not depend on the times.\<close>

lemma part_buffer_times:
  "assemble (part_buffer n fi c l gs) = assemble (part_buffer n fi 0 0 gs)"
  "bufferIsComplete (part_buffer n fi c l gs) =
     (case fi of None \<Rightarrow> int (length gs) = n | Some x \<Rightarrow> dataShardCount x \<le> int (length gs))"
  by (simp_all add: assemble_def sequences_def part_buffer_def bufferIsComplete_def split: option.split)

lemma deliver_message:
  assumes ok: "reasm_ok s" and i: "i \<notin> set (jsmap_keys (buffers s))"
    and m: "\<forall>f \<in> set (map snd fs). of_message i n fi f"
    and dist: "distinct (map sequence (gs @ map snd fs))"
    and room: "has_room s (est_sum (gs @ map snd fs))"
    and len: "int (length gs + length fs) = msg_need n fi" and ne: "fs \<noteq> []"
  shows "deliver fs (part_state s i n fi c l gs) =
    (s, replicate (length fs - 1) (Inr None)
        @ [rbind (assemble (part_buffer n fi 0 0 (gs @ map snd fs))) (\<lambda>out. Inr (Some out))])"
  using assms(3-7)
proof (induction fs arbitrary: gs c l)
  case Nil
  then show ?case by simp
next
  case (Cons p fs)
  obtain now f where p: "p = (now, f)" by (cases p)
  have mf: "of_message i n fi f" using Cons.prems(1) p by simp
  have fresh: "sequence f \<notin> sequence ` set gs" using Cons.prems(2) p by auto
  have room: "has_room s (est_sum gs + estimateFragmentSize f)"
    using Cons.prems(3) p by (auto simp: has_room_def est_sum_def)
  obtain c' where step: "addFragment now f (part_state s i n fi c l gs) =
    (if bufferIsComplete (part_buffer n fi c' now (gs @ [f]))
     then (s, rbind (assemble (part_buffer n fi c' now (gs @ [f]))) (\<lambda>out. Inr (Some out)))
     else (part_state s i n fi c' now (gs @ [f]), Inr None))"
    by (rule add_step[OF ok i mf fresh room])
  have complete: "bufferIsComplete (part_buffer n fi c' now (gs @ [f])) \<longleftrightarrow> fs = []"
  proof (cases fi)
    case None
    then have e: "n = 1 + (int (length gs) + int (length fs))"
      using Cons.prems(4) by (simp add: msg_need_def)
    show ?thesis by (simp add: part_buffer_times(2) None e)
  next
    case (Some x)
    then have e: "dataShardCount x = 1 + (int (length gs) + int (length fs))"
      using Cons.prems(4) by (simp add: msg_need_def)
    show ?thesis by (simp add: part_buffer_times(2) Some e)
  qed
  show ?case
  proof (cases "fs = []")
    case True
    then show ?thesis
      using step complete part_buffer_times(1)[of n fi c' now "gs @ [f]"] by (simp add: p)
  next
    case False
    have "deliver fs (part_state s i n fi c' now (gs @ [f])) =
      (s, replicate (length fs - 1) (Inr None)
        @ [rbind (assemble (part_buffer n fi 0 0 ((gs @ [f]) @ map snd fs))) (\<lambda>out. Inr (Some out))])"
      using Cons.prems False p by (intro Cons.IH) auto
    moreover have "replicate (length fs) x = x # replicate (length fs - 1) x" for x :: "bytes option result"
      using False by (cases fs) simp_all
    ultimately show ?thesis using False step complete by (simp add: p)
  qed
qed

subsection \<open>Messages without error correction\<close>

definition plain_message :: "int \<Rightarrow> fragment list \<Rightarrow> bool" where
  "plain_message i F = (\<forall>q<length F. of_message i (int (length F)) None (F ! q) \<and> sequence (F ! q) = int q)"

lemma plain_sequences: "plain_message i F \<Longrightarrow> map sequence F = map int [0..<length F]"
  by (intro nth_equalityI) (simp_all add: plain_message_def)

lemma collected_get:
  assumes "distinct (map sequence gs)" "f \<in> set gs"
  shows "jsmap_get (map (\<lambda>f. (sequence f, f)) gs) (sequence f) = Some f"
  using assms by (intro jsmap_get_iff[THEN iffD2]) (auto simp: jsmap_wf_def comp_def)

lemma map_filter_Some: "(\<And>x. x \<in> set xs \<Longrightarrow> f x = Some (g x)) \<Longrightarrow> List.map_filter f xs = map g xs"
  by (induction xs) (simp_all add: map_filter_simps)

lemma assemble_plain:
  assumes F: "plain_message i F" and perm: "mset gs = mset F"
  shows "assemble (part_buffer (int (length F)) None c l gs) = Inr (concat (map data F))"
proof -
  have "mset (map sequence gs) = mset (map sequence F)" using perm by simp
  then have d: "distinct (map sequence gs)"
    using plain_sequences[OF F] by (metis distinct_map distinct_upt inj_on_of_nat mset_eq_imp_distinct_iff)
  have get: "jsmap_get (map (\<lambda>f. (sequence f, f)) gs) (int q) = Some (F ! q)" if "q < length F" for q
  proof -
    have "F ! q \<in> set gs" using that perm by (metis mset_eq_setD nth_mem)
    moreover have "sequence (F ! q) = int q" using F that by (simp add: plain_message_def)
    ultimately show ?thesis using collected_get[OF d, of "F ! q"] by simp
  qed
  have "List.map_filter (\<lambda>seq. map_option data (jsmap_get (map (\<lambda>f. (sequence f, f)) gs) seq)) (map int [0..<length F])
      = map (\<lambda>seq. data (F ! nat seq)) (map int [0..<length F])"
    using get by (intro map_filter_Some) auto
  also have "\<dots> = map data F" by (rule nth_equalityI) simp_all
  finally show ?thesis
    by (simp add: assemble_def part_buffer_def sequences_def Let_def concatBytes_concat length_concat)
qed

text \<open>
  Fragments may arrive in any order. Let a message be split into fragments numbered
  0, 1, ..., n-1, and let a reassembler with room for it have nothing of it yet. Delivering
  the fragments in any order, at any times, returns nothing for the first n-1 calls and, on the last,
  exactly the concatenation of the fragments' data in sequence order; afterwards the
  reassembler is as before.
\<close>

theorem reassembly_any_order:
  assumes "reasm_ok s" "i \<notin> set (jsmap_keys (buffers s))" "plain_message i F" "F \<noteq> []"
    and "mset (map snd fs) = mset F" "has_room s (est_sum F)"
  shows "deliver fs s = (s, replicate (length F - 1) (Inr None) @ [Inr (Some (concat (map data F)))])"
proof -
  have len: "length fs = length F" using assms(5) by (metis length_map mset_eq_length)
  have "mset (map sequence (map snd fs)) = mset (map sequence F)" using assms(5) by (metis mset_map)
  then have d: "distinct (map sequence ([] @ map snd fs))"
    using plain_sequences[OF assms(3)]
    by (metis append_Nil distinct_map distinct_upt inj_on_of_nat mset_eq_imp_distinct_iff)
  have "est_sum (map snd fs) = est_sum F"
    unfolding est_sum_def using assms(5) by (metis mset_map sum_mset_sum_list)
  then have room: "has_room s (est_sum ([] @ map snd fs))" using assms(6) by simp
  have m: "\<forall>f \<in> set (map snd fs). of_message i (int (length F)) None f"
    using assms(3) mset_eq_setD[OF assms(5)] by (auto simp: plain_message_def in_set_conv_nth)
  have ne: "fs \<noteq> []" using len assms(4) by auto
  have "deliver fs (part_state s i (int (length F)) None 0 0 []) =
    (s, replicate (length fs - 1) (Inr None)
        @ [rbind (assemble (part_buffer (int (length F)) None 0 0 ([] @ map snd fs))) (\<lambda>out. Inr (Some out))])"
    by (rule deliver_message[OF assms(1,2) m d room _ ne]) (simp add: msg_need_def len)
  then show ?thesis
    using assemble_plain[OF assms(3,5), of 0 0] len by (simp add: part_state_def)
qed

definition sample_frag :: "int \<Rightarrow> bytes \<Rightarrow> fragment" where
  "sample_frag q d = \<lparr>messageId = 7, totalFragments = 3, sequence = q, data = d, fec = None\<rparr>"

theorem reassembly_any_order_witness:
  "snd (deliver [(5, sample_frag 2 [30]), (6, sample_frag 0 [10, 11]), (9, sample_frag 1 [20])]
      (new_reassembler sample_config))
   = [Inr None, Inr None, Inr (Some [10, 11, 20, 30])]"
proof -
  let ?F = "[sample_frag 0 [10, 11], sample_frag 1 [20], sample_frag 2 [30]]"
  have F: "plain_message 7 ?F"
    by (auto simp: plain_message_def of_message_def sample_frag_def validateFragment_def
        MAX_FRAGMENTS_PER_MESSAGE_def less_Suc_eq numeral_3_eq_3)
  have room: "has_room (new_reassembler sample_config) (est_sum ?F)"
    by (simp add: has_room_def new_reassembler_def sample_config_def est_sum_def estimateFragmentSize_def sample_frag_def)
  show ?thesis
    using reassembly_any_order[OF new_reassembler_ok(1)[of sample_config] _ F _ _ room,
        of "[(5, sample_frag 2 [30]), (6, sample_frag 0 [10, 11]), (9, sample_frag 1 [20])]"]
    by (simp add: new_reassembler_def sample_frag_def add_mset_commute numeral_2_eq_2)
qed

subsection \<open>Messages with error correction\<close>

definition fec_message :: "int \<Rightarrow> nat \<Rightarrow> nat \<Rightarrow> bytes list \<Rightarrow> fragment list \<Rightarrow> bool" where
  "fec_message i d len shards gs =
     (\<forall>f \<in> set gs. of_message i (int (length shards)) (Some \<lparr>dataShardCount = int d, originalDataLen = int len\<rparr>) f
        \<and> 0 \<le> sequence f \<and> sequence f < int (length shards) \<and> data f = shards ! nat (sequence f))"

lemma received_shards:
  assumes m: "fec_message i d len shards gs" and dist: "distinct (map sequence gs)"
  defines "received \<equiv> map (\<lambda>q. map_option data (jsmap_get (map (\<lambda>f. (sequence f, f)) gs) (int q))) [0..<length shards]"
  shows "erased shards received" "length gs \<le> length (filter (\<lambda>s. s \<noteq> None) received)"
proof -
  let ?get = "jsmap_get (map (\<lambda>f. (sequence f, f)) gs)"
  have val: "f \<in> set gs \<and> sequence f = q" if "?get q = Some f" for q f
    using jsmap_get_Some_in[OF that] by auto
  have shard: "data f = shards ! q" if "?get (int q) = Some f" for q f
  proof -
    have f: "f \<in> set gs" "sequence f = int q" using val[OF that] by blast+
    then have "data f = shards ! nat (sequence f)" using m unfolding fec_message_def by blast
    then show ?thesis using f(2) by simp
  qed
  then show "erased shards received"
    by (auto simp: erased_def received_def list_all2_conv_all_nth)
  have sub: "(\<lambda>f. nat (sequence f)) ` set gs \<subseteq> {q \<in> {0..<length shards}. received ! q \<noteq> None}"
  proof
    fix q assume "q \<in> (\<lambda>f. nat (sequence f)) ` set gs"
    then obtain f where f: "f \<in> set gs" "q = nat (sequence f)" by blast
    then have "0 \<le> sequence f" "sequence f < int (length shards)" using m by (auto simp: fec_message_def)
    then have "int q = sequence f" "q < length shards" using f(2) by auto
    then show "q \<in> {q \<in> {0..<length shards}. received ! q \<noteq> None}"
      using collected_get[OF dist f(1)] by (simp add: received_def)
  qed
  have "inj_on (\<lambda>f. nat (sequence f)) (set gs)"
  proof (rule inj_onI)
    fix f g assume fg: "f \<in> set gs" "g \<in> set gs" and "nat (sequence f) = nat (sequence g)"
    moreover have "0 \<le> sequence f" "0 \<le> sequence g" using fg m by (auto simp: fec_message_def)
    ultimately have "sequence f = sequence g" by simp
    then show "f = g" using dist fg by (metis distinct_map inj_onD)
  qed
  then have "length gs = card ((\<lambda>f. nat (sequence f)) ` set gs)"
    using dist by (metis card_image distinct_card distinct_map)
  also have "\<dots> \<le> card {q \<in> {0..<length shards}. received ! q \<noteq> None}"
    by (rule card_mono[OF _ sub]) simp
  also have "\<dots> = length (filter (\<lambda>s. s \<noteq> None) received)"
    unfolding length_filter_conv_card by (rule arg_cong[where f = card]) (auto simp: received_def)
  finally show "length gs \<le> length (filter (\<lambda>s. s \<noteq> None) received)" .
qed

lemma assemble_fec:
  assumes m: "fec_message i d len shards gs" and dist: "distinct (map sequence gs)" and "length gs = d"
    and "0 < d" "d \<le> length shards" "length shards \<le> 256" "rs_codeword d sz shards" "0 < sz"
    and "len \<le> d * sz" "len < 2 ^ 53"
  shows "assemble (part_buffer (int (length shards)) (Some \<lparr>dataShardCount = int d, originalDataLen = int len\<rparr>) c l gs)
    = Inr (take len (concat (take d shards)))"
proof -
  let ?received = "map (\<lambda>q. map_option data (jsmap_get (map (\<lambda>f. (sequence f, f)) gs) (int q))) [0..<length shards]"
  have "erased shards ?received" "d \<le> length (filter (\<lambda>s. s \<noteq> None) ?received)"
    using received_shards[OF m dist] assms(3) by auto
  then have "decodeShards ?received d len = Inr (take len (concat (take d shards)))"
    using decodeShards_value[OF assms(4-8) _ _ assms(10), of ?received] assms(9) by simp
  then show ?thesis
    by (simp add: assemble_def part_buffer_def sequences_def Let_def comp_def)
qed

text \<open>
  C1. With error correction any \<open>d\<close> fragments are enough. Let the shards of a message be a
  Reed-Solomon codeword of at most 256 shards. Deliver any \<open>d\<close> of its fragments, distinct, in any
  order and at any times, to a reassembler with room that has nothing of the message: the
  first d-1 calls return nothing, the last returns exactly the first \<open>len\<close> bytes of the data
  shards, whichever fragments were lost, and the reassembler is as before.
\<close>

theorem reassembly_any_shards:
  assumes "reasm_ok s" "i \<notin> set (jsmap_keys (buffers s))"
    and "fec_message i d len shards (map snd fs)" "distinct (map sequence (map snd fs))" "length fs = d"
    and "0 < d" "d \<le> length shards" "length shards \<le> 256" "rs_codeword d sz shards" "0 < sz"
    and "len \<le> d * sz" "len < 2 ^ 53" "has_room s (est_sum (map snd fs))"
  shows "deliver fs s = (s, replicate (d - 1) (Inr None) @ [Inr (Some (take len (concat (take d shards))))])"
proof -
  let ?fi = "Some \<lparr>dataShardCount = int d, originalDataLen = int len\<rparr>"
  have m: "\<forall>f \<in> set (map snd fs). of_message i (int (length shards)) ?fi f"
    using assms(3) by (auto simp: fec_message_def)
  have ne: "fs \<noteq> []" using assms(5,6) by auto
  have "deliver fs (part_state s i (int (length shards)) ?fi 0 0 []) =
    (s, replicate (length fs - 1) (Inr None)
        @ [rbind (assemble (part_buffer (int (length shards)) ?fi 0 0 ([] @ map snd fs))) (\<lambda>out. Inr (Some out))])"
    by (rule deliver_message[OF assms(1,2) m _ _ _ ne]) (use assms in \<open>simp_all add: msg_need_def\<close>)
  then show ?thesis
    using assemble_fec[OF assms(3,4) _ assms(6-12), of 0 0] assms(5) by (simp add: part_state_def)
qed

definition sample_shard :: "int \<Rightarrow> bytes \<Rightarrow> fragment" where
  "sample_shard q d = \<lparr>messageId = 7, totalFragments = 3, sequence = q, data = d,
     fec = Some \<lparr>dataShardCount = 2, originalDataLen = 2\<rparr>\<rparr>"

lemma sample_codeword: "rs_codeword 2 1 [[0], [1], [2]]"
proof -
  have "GF ([[0], [1], [2]] ! r ! 0) = (\<Sum>c<2. gf r ^ c * (if c = 1 then 1 else 0))" if "r < 3" for r
    using that by (auto simp: numeral_2_eq_2 numeral_3_eq_3 less_Suc_eq gf_def)
  then show ?thesis by (auto simp: rs_codeword_def numeral_3_eq_3)
qed

theorem reassembly_any_shards_witness:
  "snd (deliver [(5, sample_shard 2 [2]), (6, sample_shard 1 [1])] (new_reassembler sample_config))
   = [Inr None, Inr (Some [0, 1])]"
proof -
  let ?fs = "[(5, sample_shard 2 [2]), (6, sample_shard 1 [1])]"
  have m: "fec_message 7 2 2 [[0], [1], [2]] (map snd ?fs)"
    by (simp add: fec_message_def of_message_def sample_shard_def validateFragment_def MAX_FRAGMENTS_PER_MESSAGE_def)
  have room: "has_room (new_reassembler sample_config) (est_sum (map snd ?fs))"
    by (simp add: has_room_def new_reassembler_def sample_config_def est_sum_def estimateFragmentSize_def sample_shard_def)
  have d: "distinct (map sequence (map snd ?fs))" by (simp add: sample_shard_def)
  show ?thesis
    using reassembly_any_shards[OF new_reassembler_ok(1)[of sample_config] _ m d _ _ _ _ sample_codeword _ _ _ room]
    by (simp add: new_reassembler_def)
qed

subsection \<open>Duplicates and eviction\<close>

text \<open>
  Duplicates are idempotent and conflicts are caught. A valid fragment whose sequence number
  is already stored leaves the reassembler exactly as it was: with the same data the call
  returns nothing, with other data it throws \<open>DECRYPTION_FAILED\<close>.
\<close>

theorem duplicate_fragment:
  assumes "validateFragment f = Inr ()" "is_stored f s = Some stored"
  shows "addFragment now f s = (s, if data stored = data f then Inr None
    else throw DecryptionFailed ''Duplicate fragment has different data'')"
  using assms by (rule addFragment_stored)

lemma sample_frag_stored:
  "is_stored (sample_frag 1 d) (fst (addFragment 0 (sample_frag 1 [20]) (new_reassembler sample_config)))
     = Some (sample_frag 1 [20])"
  by (simp add: addFragment_def validateFragment_def sample_frag_def MAX_FRAGMENTS_PER_MESSAGE_def
      new_reassembler_def sample_config_def jsmap_get_def ensureCapacity.simps Let_def newBuffer_def
      estimateFragmentSize_def bufferIsComplete_def is_stored_def)

theorem duplicate_fragment_witness:
  "snd (addFragment 1 (sample_frag 1 [99])
      (fst (addFragment 0 (sample_frag 1 [20]) (new_reassembler sample_config))))
   = throw DecryptionFailed ''Duplicate fragment has different data''"
proof -
  have "validateFragment (sample_frag 1 [99]) = Inr ()"
    by (simp add: validateFragment_def sample_frag_def MAX_FRAGMENTS_PER_MESSAGE_def)
  from duplicate_fragment[OF this sample_frag_stored[of "[99]"]] show ?thesis
    by (simp add: sample_frag_def)
qed

text \<open>
  At the limit on pending messages every stored fragment evicts at least one pending message,
  also when it belongs to a message already pending.
\<close>

lemma ensureCapacity_le: "length (buffers (ensureCapacity n s)) \<le> length (buffers s)"
proof (induction n s rule: ensureCapacity.induct)
  case (1 n s)
  show ?case
  proof (cases "buffers s = []")
    case True
    then show ?thesis by (subst ensureCapacity.simps) simp
  next
    case False
    then show ?thesis using 1 evictOldest_shrinks[OF False] by (subst ensureCapacity.simps) auto
  qed
qed

lemma pending_limit_evicts:
  assumes "maxConcurrentMessages s \<le> int (length (buffers s))" "0 < length (buffers s)"
  shows "length (buffers (ensureCapacity n s)) < length (buffers s)"
proof -
  have "ensureCapacity n s = ensureCapacity n (evictOldest s)"
    using assms by (subst ensureCapacity.simps) simp
  then show ?thesis
    using ensureCapacity_le[of n "evictOldest s"] evictOldest_shrinks[of s] assms(2) by simp
qed

text \<open>
  A limit of one pending message delivers no multi-fragment message. The limit is applied
  before the lookup of the fragment's own buffer, so a message already pending is evicted by its next
  fragment: with \<open>maxConcurrentMessages\<close> at most one, no fragment of a message of two or more
  fragments ever completes it, in any state.
\<close>

theorem single_slot_never_delivers:
  assumes "maxConcurrentMessages s \<le> 1" "fec f = None" "2 \<le> totalFragments f"
  shows "snd (addFragment now f s) \<noteq> Inr (Some out)"
proof (cases "validateFragment f = Inr () \<and> is_stored f s = None")
  case False
  then consider m where "validateFragment f = throw DecryptionFailed m"
    | st where "validateFragment f = Inr ()" "is_stored f s = Some st"
    using validateFragment_cases[of f] by (cases "is_stored f s") auto
  then show ?thesis
    by cases (simp_all add: addFragment_invalid addFragment_stored)
next
  case True
  let ?s1 = "ensureCapacity (estimateFragmentSize f) s"
  have "buffers ?s1 = [] \<or> int (length (buffers ?s1)) < 1"
    using ensureCapacity_room[of "estimateFragmentSize f" s] assms(1) by linarith
  then have "buffers ?s1 = []" by auto
  then have b: "target_buffer now f ?s1 = newBuffer now f" by (simp add: target_buffer_def jsmap_get_def)
  have "\<not> bufferIsComplete (extend_buffer now f (newBuffer now f))"
    using assms(2,3) by (simp add: bufferIsComplete_def extend_buffer_def newBuffer_def)
  then show ?thesis
    using addFragment_fresh[OF conjunct1[OF True] conjunct2[OF True], of now] unfolding b by simp
qed

theorem single_slot_never_delivers_witness:
  "snd (addFragment 1 (sample_frag 1 [20]) (new_reassembler (sample_config\<lparr>cfg_maxConcurrentMessages := Some 1\<rparr>)))
     \<noteq> Inr (Some [10, 20])"
  by (rule single_slot_never_delivers) (simp_all add: new_reassembler_def sample_frag_def)

end
