(* ===== verification/Js_Settings.thy ===== *)
theory Js_Settings
  imports Nox_Prelude
begin

section \<open>Validated settings\<close>

text \<open>
  The shape shared by \<open>resolveResendPolicy\<close> (\<open>resend.ts\<close>), \<open>resolveReplyClaimSettings\<close>
  (\<open>reply_claims.ts\<close>) and \<open>resolveKpsTransportSettings\<close> (\<open>kps/transport.ts\<close>): a record of defaults is overridden key by key, each override checked
  first. An override value is a JavaScript value: \<open>JUndefined\<close>, a boolean, an integral number, or
  anything else (\<open>JOther\<close>: fractions, \<open>NaN\<close>, strings, objects). The locale \<open>settings_check\<close> is the
  contract of the per-key check, and its lemmas hold for the three functions.
\<close>

datatype js_value = JUndefined | JBool bool | JInt int | JOther

datatype setting = SNum int | SBool bool

type_synonym settings_map = "(string, setting) jsmap"

definition isSafeInteger :: "int \<Rightarrow> bool" where
  "isSafeInteger n = (- (2 ^ 53 - 1) \<le> n \<and> n \<le> 2 ^ 53 - 1)"

text \<open>
  \<open>key in object\<close> also finds the names inherited from \<open>Object.prototype\<close>; assigning a primitive
  to \<open>__proto__\<close> does nothing.
\<close>

definition object_prototype :: "string list" where
  "object_prototype =
     [''constructor'', ''__defineGetter__'', ''__defineSetter__'', ''hasOwnProperty'', ''__lookupGetter__'',
      ''__lookupSetter__'', ''isPrototypeOf'', ''propertyIsEnumerable'', ''toString'', ''valueOf'',
      ''__proto__'', ''toLocaleString'']"

definition js_in :: "string \<Rightarrow> settings_map \<Rightarrow> bool" where
  "js_in key m = (jsmap_has m key \<or> key \<in> set object_prototype)"

lemma js_in_iff: "js_in k m = (k \<in> set (map fst m) \<union> set object_prototype)"
  using map_of_eq_None_iff[of m k] by (auto simp: js_in_def jsmap_has_def)

definition js_assign :: "string \<Rightarrow> 'a \<Rightarrow> 'a option" where
  "js_assign key x = (if key = ''__proto__'' then None else Some x)"

text \<open>The loop over \<open>Object.entries(overrides)\<close>; the check gives \<open>None\<close> for \<open>continue\<close>.\<close>

fun resolve_with ::
  "(string \<Rightarrow> js_value \<Rightarrow> setting option result) \<Rightarrow> (string \<times> js_value) list \<Rightarrow> settings_map
     \<Rightarrow> settings_map result" where
  "resolve_with check [] acc = Inr acc"
| "resolve_with check ((k, v) # overrides) acc =
     rbind (check k v) (\<lambda>r. case r of
       None \<Rightarrow> resolve_with check overrides acc
     | Some x \<Rightarrow> resolve_with check overrides (jsmap_set k x acc))"

text \<open>A field of the resolved settings, read at its declared type.\<close>

definition num_setting :: "settings_map \<Rightarrow> string \<Rightarrow> int" where
  "num_setting m k = (case jsmap_get m k of Some (SNum n) \<Rightarrow> n | _ \<Rightarrow> 0)"

definition bool_setting :: "settings_map \<Rightarrow> string \<Rightarrow> bool" where
  "bool_setting m k = (jsmap_get m k = Some (SBool True))"

locale settings_check =
  fixes check :: "string \<Rightarrow> js_value \<Rightarrow> setting option result"
    and own :: "string list"
    and ok :: "string \<Rightarrow> setting \<Rightarrow> bool"
  assumes check_ok: "check k v = Inr (Some x) \<Longrightarrow> k \<in> set own \<union> set object_prototype \<and> ok k x"
    and check_error: "check k v = Inl e \<Longrightarrow> \<exists>m. e = NoxClientError InvalidConfig m"
    and check_unknown: "k \<notin> set own \<union> set object_prototype \<Longrightarrow> \<exists>e. check k v = Inl e"
begin

definition valid :: "settings_map \<Rightarrow> bool" where
  "valid m = (jsmap_wf m \<and> set own \<subseteq> set (jsmap_keys m)
     \<and> set (jsmap_keys m) \<subseteq> set own \<union> set object_prototype \<and> list_all (\<lambda>(k, x). ok k x) m)"

lemma valid_set: "valid m \<Longrightarrow> k \<in> set own \<union> set object_prototype \<Longrightarrow> ok k x \<Longrightarrow> valid (jsmap_set k x m)"
proof -
  assume m: "valid m" and k: "k \<in> set own \<union> set object_prototype" "ok k x"
  then have wf: "jsmap_wf m" by (simp add: valid_def)
  have "set own \<subseteq> set (jsmap_keys (jsmap_set k x m))"
      "set (jsmap_keys (jsmap_set k x m)) \<subseteq> set own \<union> set object_prototype"
    unfolding jsmap_keys_set using m k by (auto simp: valid_def)
  moreover have "list_all (\<lambda>(k, x). ok k x) (jsmap_set k x m)"
    using m k set_jsmap_set[OF wf, of k x] by (auto simp: valid_def list_all_iff)
  ultimately show ?thesis using jsmap_wf_set[OF wf] by (simp add: valid_def)
qed

lemma resolve_valid: "valid base \<Longrightarrow> resolve_with check overrides base = Inr m \<Longrightarrow> valid m"
proof (induction overrides arbitrary: base)
  case (Cons p overrides)
  obtain k v where p: "p = (k, v)" by (cases p)
  obtain r where r: "check k v = Inr r"
    using Cons.prems(2) p by (auto simp: rbind_Inr_iff)
  show ?case
    using Cons p r check_ok[of k v] valid_set[OF Cons.prems(1), of k]
    by (cases r) (auto simp: rbind_Inr_iff)
qed simp

lemma resolve_error: "resolve_with check overrides base = Inl e \<Longrightarrow> \<exists>m. e = NoxClientError InvalidConfig m"
proof (induction overrides arbitrary: base)
  case (Cons p overrides)
  obtain k v where p: "p = (k, v)" by (cases p)
  show ?case
    using Cons p check_error[of k v]
    by (cases "check k v") (auto split: option.splits)
qed simp

lemma resolve_untouched:
  "jsmap_wf base \<Longrightarrow> resolve_with check overrides base = Inr m \<Longrightarrow> k \<notin> fst ` set overrides \<Longrightarrow>
   jsmap_get m k = jsmap_get base k"
proof (induction overrides arbitrary: base)
  case (Cons p overrides)
  obtain j v where p: "p = (j, v)" by (cases p)
  obtain r where r: "check j v = Inr r" using Cons.prems(2) p by (auto simp: rbind_Inr_iff)
  show ?case
  proof (cases r)
    case None
    then show ?thesis using Cons p r by (simp add: rbind_Inr_iff)
  next
    case (Some a)
    have "jsmap_get m k = jsmap_get (jsmap_set j a base) k"
      using Cons p r Some by (intro Cons.IH[OF jsmap_wf_set]) auto
    then show ?thesis using js_map.get_put[OF Cons.prems(1), of j a k] Cons.prems(3) p by simp
  qed
qed simp

lemma resolve_rejects_unknown: "(k, v) \<in> set overrides \<Longrightarrow> k \<notin> set own \<union> set object_prototype \<Longrightarrow> \<exists>e. resolve_with check overrides base = Inl e"
proof (induction overrides arbitrary: base)
  case (Cons p overrides)
  obtain j w where p: "p = (j, w)" by (cases p)
  show ?case
  proof (cases "check j w")
    case (Inl e)
    then show ?thesis by (simp add: p)
  next
    case (Inr r)
    then have "(k, v) \<in> set overrides" using Cons.prems p check_unknown[of k v] by auto
    then show ?thesis using Cons.IH Cons.prems(2) Inr p by (cases r) auto
  qed
qed simp

end

end
