(* ===== verification/Resend.thy ===== *)
theory Resend
  imports Js_Settings Complex_Main "HOL-Library.Multiset"
begin

section \<open>Resend policy and the adaptive hedge\<close>

text \<open>
  \<open>packages/nox-client/src/resend.ts\<close>: the resend policy, its validation, and the
  \<open>LatencyTracker\<close>, a ring of the last 64 reply times whose 95th percentile sets the hedge delay.
  Times are non-negative integers of milliseconds (\<open>Date.now()\<close> differences), so that \<open>Math.round\<close> is the identity on a sample;
  quantile ranks are rationals, so that \<open>q * length\<close> is exact where the code has the nearest double.
\<close>

definition RESEND_LEGACY :: settings_map where
  "RESEND_LEGACY =
     [(''hedgeAfterMs'', SNum 0), (''hedgeAdaptive'', SBool False), (''maxHedgesInFlight'', SNum 2),
      (''transportResends'', SNum 0), (''resendOnLostReply'', SBool False), (''sameEntryFallback'', SBool False)]"

definition RESEND_FAST :: settings_map where
  "RESEND_FAST =
     [(''hedgeAfterMs'', SNum 3000), (''hedgeAdaptive'', SBool True), (''maxHedgesInFlight'', SNum 2),
      (''transportResends'', SNum 2), (''resendOnLostReply'', SBool True), (''sameEntryFallback'', SBool True)]"

definition MAX_TRANSPORT_RESENDS :: int where
  "MAX_TRANSPORT_RESENDS = 4"

definition MAX_HEDGES_IN_FLIGHT :: int where
  "MAX_HEDGES_IN_FLIGHT = 16"

definition resend_max :: "string \<Rightarrow> int" where
  "resend_max key =
     (if key = ''transportResends'' then MAX_TRANSPORT_RESENDS
      else if key = ''maxHedgesInFlight'' then MAX_HEDGES_IN_FLIGHT else 600000)"

definition check_resend :: "string \<Rightarrow> js_value \<Rightarrow> setting option result" where
  "check_resend key value =
     (if \<not> js_in key RESEND_LEGACY then throw InvalidConfig ''is not a resend setting''
      else if value = JUndefined then Inr None
      else if (case jsmap_get RESEND_LEGACY key of Some (SBool _) \<Rightarrow> True | _ \<Rightarrow> False)
      then (case value of
          JBool b \<Rightarrow> Inr (js_assign key (SBool b))
        | _ \<Rightarrow> throw InvalidConfig ''must be a boolean'')
      else (case value of
          JInt n \<Rightarrow>
            if \<not> isSafeInteger n \<or> n < 0 \<or> n > resend_max key
            then throw InvalidConfig ''must be an integer in 0..max'' else Inr (js_assign key (SNum n))
        | _ \<Rightarrow> throw InvalidConfig ''must be an integer in 0..max''))"

text \<open>\<open>overrides\<close> is absent, an object (its entries), or something that is not an object.\<close>

datatype overrides = NoOverrides | Entries "(string \<times> js_value) list" | NotAnObject

definition resolveResendPolicy :: "overrides \<Rightarrow> settings_map \<Rightarrow> settings_map result" where
  "resolveResendPolicy overrides base =
     (case overrides of
        NotAnObject \<Rightarrow> throw InvalidConfig ''resend must be an object''
      | NoOverrides \<Rightarrow> resolve_with check_resend [] base
      | Entries es \<Rightarrow> resolve_with check_resend es base)"

subsection \<open>The latency tracker\<close>

definition LATENCY_SAMPLES :: nat where
  "LATENCY_SAMPLES = 64"

definition LATENCY_MIN_SAMPLES :: nat where
  "LATENCY_MIN_SAMPLES = 8"

record latency_tracker =
  samples :: "int list"
  next_slot :: nat

definition new_tracker :: latency_tracker where
  "new_tracker = \<lparr>samples = [], next_slot = 0\<rparr>"

text \<open>\<open>record(ms)\<close>; \<open>None\<close> stands for a value that is not finite.\<close>

definition record_latency :: "int option \<Rightarrow> latency_tracker \<Rightarrow> latency_tracker" where
  "record_latency ms t =
     (case ms of
        None \<Rightarrow> t
      | Some m \<Rightarrow>
          if m < 0 then t
          else t\<lparr>samples := (if length (samples t) < LATENCY_SAMPLES then samples t @ [m]
                             else (samples t)[next_slot t := m]),
                 next_slot := (next_slot t + 1) mod LATENCY_SAMPLES\<rparr>)"

definition quantile :: "rat \<Rightarrow> latency_tracker \<Rightarrow> int option" where
  "quantile q t =
     (if length (samples t) < LATENCY_MIN_SAMPLES then None
      else
        (let sorted_samples = sort (samples t);
             n = int (length sorted_samples);
             index = min (n - 1) (max 0 (\<lceil>q * of_int n\<rceil> - 1)) in
         Some (sorted_samples ! nat index)))"

definition hedgeDelay :: "int \<Rightarrow> bool \<Rightarrow> int \<Rightarrow> latency_tracker \<Rightarrow> int" where
  "hedgeDelay hedgeAfterMs hedgeAdaptive attemptTimeoutMs t =
     (let delay = (if hedgeAdaptive
                   then (case quantile (95 / 100) t of None \<Rightarrow> hedgeAfterMs | Some p95 \<Rightarrow> max hedgeAfterMs p95)
                   else hedgeAfterMs) in
      min delay (max 0 (attemptTimeoutMs - 1)))"

subsection \<open>Validation\<close>

definition resend_ok :: "string \<Rightarrow> setting \<Rightarrow> bool" where
  "resend_ok k x = (case jsmap_get RESEND_LEGACY k of
     Some (SBool _) \<Rightarrow> (case x of SBool _ \<Rightarrow> True | SNum _ \<Rightarrow> False)
   | _ \<Rightarrow> (case x of SNum n \<Rightarrow> 0 \<le> n \<and> n \<le> resend_max k | SBool _ \<Rightarrow> False))"

interpretation resend_settings: settings_check check_resend "map fst RESEND_LEGACY" resend_ok
proof
  fix k v x assume c: "check_resend k v = Inr (Some x)"
  then have "js_in k RESEND_LEGACY" by (auto simp: check_resend_def split: if_splits)
  then show "k \<in> set (map fst RESEND_LEGACY) \<union> set object_prototype \<and> resend_ok k x"
    using c unfolding js_in_iff
    by (auto simp: check_resend_def resend_ok_def js_assign_def
        split: option.splits setting.splits js_value.splits if_splits)
next
  fix k v e assume "check_resend k v = Inl e"
  then show "\<exists>m. e = NoxClientError InvalidConfig m"
    by (auto simp: check_resend_def split: option.splits setting.splits js_value.splits if_splits)
next
  fix k v assume "k \<notin> set (map fst RESEND_LEGACY) \<union> set object_prototype"
  then show "\<exists>e. check_resend k v = Inl e" by (simp add: check_resend_def js_in_iff)
qed

lemma legacy_valid: "resend_settings.valid RESEND_LEGACY"
  unfolding resend_settings.valid_def
  by (simp add: resend_ok_def RESEND_LEGACY_def jsmap_wf_def jsmap_get_def
      resend_max_def MAX_TRANSPORT_RESENDS_def MAX_HEDGES_IN_FLIGHT_def)

lemma fast_valid: "resend_settings.valid RESEND_FAST"
  unfolding resend_settings.valid_def
  by (simp add: resend_ok_def RESEND_LEGACY_def RESEND_FAST_def jsmap_wf_def jsmap_get_def
      resend_max_def MAX_TRANSPORT_RESENDS_def MAX_HEDGES_IN_FLIGHT_def)

text \<open>
  A resolved resend policy is safe. Starting from either built-in policy, whatever the
  caller passes, resolution either throws \<open>INVALID_CONFIG\<close> or returns a policy that has
  the six known settings and at most inherited names besides, every boolean a boolean and every number within its bounds (at most 4
  transport resends, 16 hedges, 600000 ms), with the settings not overridden unchanged.
\<close>

theorem resend_policy_safe:
  assumes "base = RESEND_LEGACY \<or> base = RESEND_FAST"
  shows "(\<exists>m. resolveResendPolicy (Entries es) base = throw InvalidConfig m)
    \<or> (\<exists>p. resolveResendPolicy (Entries es) base = Inr p
         \<and> set (jsmap_keys RESEND_LEGACY) \<subseteq> set (jsmap_keys p)
         \<and> set (jsmap_keys p) \<subseteq> set (jsmap_keys RESEND_LEGACY) \<union> set object_prototype
         \<and> list_all (\<lambda>(k, x). resend_ok k x) p
         \<and> (\<forall>k. k \<notin> fst ` set es \<longrightarrow> jsmap_get p k = jsmap_get base k))"
proof (cases "resolveResendPolicy (Entries es) base")
  case (Inl e)
  then show ?thesis
    using resend_settings.resolve_error[of es base e] by (auto simp: resolveResendPolicy_def)
next
  case (Inr p)
  have base: "resend_settings.valid base" using assms legacy_valid fast_valid by blast
  have run: "resolve_with check_resend es base = Inr p" using Inr by (simp add: resolveResendPolicy_def)
  from resend_settings.resolve_valid[OF base run] have "resend_settings.valid p" .
  moreover have "jsmap_wf base" using base by (simp add: resend_settings.valid_def)
  ultimately show ?thesis
    using Inr resend_settings.resolve_untouched[OF _ run] by (auto simp: resend_settings.valid_def)
qed

theorem resend_policy_safe_witness:
  "\<exists>p. resolveResendPolicy (Entries [(''transportResends'', JInt 4)]) RESEND_FAST = Inr p
     \<and> list_all (\<lambda>(k, x). resend_ok k x) p"
proof -
  have "resolveResendPolicy (Entries [(''transportResends'', JInt 4)]) RESEND_FAST \<noteq> throw InvalidConfig m" for m
    by (simp add: resolveResendPolicy_def check_resend_def js_in_def js_assign_def jsmap_has_def RESEND_LEGACY_def
        jsmap_get_def isSafeInteger_def
        resend_max_def MAX_TRANSPORT_RESENDS_def)
  then show ?thesis
    using resend_policy_safe[of RESEND_FAST "[(''transportResends'', JInt 4)]"] by blast
qed

text \<open>
  The guard \<open>key in RESEND_LEGACY\<close> also holds for inherited names, so such a key is stored rather
  than rejected as \<open>not a resend setting\<close>.
\<close>

lemma inherited_name_accepted:
  "resolveResendPolicy (Entries [(''toString'', JInt 5)]) RESEND_LEGACY = Inr (RESEND_LEGACY @ [(''toString'', SNum 5)])"
  by (simp add: resolveResendPolicy_def check_resend_def js_in_def js_assign_def object_prototype_def
      RESEND_LEGACY_def jsmap_has_def jsmap_get_def isSafeInteger_def resend_max_def)

subsection \<open>The ring of samples\<close>

text \<open>The specification: the accepted samples, of which the last 64 count.\<close>

definition accepted :: "int option list \<Rightarrow> int list" where
  "accepted xs = List.map_filter (\<lambda>x. case x of None \<Rightarrow> None | Some m \<Rightarrow> if m < 0 then None else Some m) xs"

definition recent :: "int list \<Rightarrow> int list" where
  "recent xs = drop (length xs - LATENCY_SAMPLES) xs"

definition ring_of :: "latency_tracker \<Rightarrow> int list \<Rightarrow> bool" where
  "ring_of t xs = (next_slot t = length xs mod LATENCY_SAMPLES
     \<and> (if length xs < LATENCY_SAMPLES then samples t = xs
        else length (samples t) = LATENCY_SAMPLES
          \<and> (\<forall>i<LATENCY_SAMPLES. samples t ! ((length xs + i) mod LATENCY_SAMPLES) = xs ! (length xs - LATENCY_SAMPLES + i))))"

lemma ring_mod_inj:
  assumes "i < 64" "j < 64" "(n + i) mod 64 = (n + j) mod (64 :: nat)"
  shows "i = j"
proof -
  have *: "a = b" if "a \<le> b" "b < 64" "(n + b) mod 64 = (n + a) mod 64" for a b :: nat
  proof -
    have "64 dvd (n + b) - (n + a)" using that by (simp add: mod_eq_dvd_iff_nat)
    then have "64 dvd b - a" by simp
    moreover have "b - a < 64" using that by simp
    ultimately have "b - a = 0" by (meson nat_dvd_not_less neq0_conv)
    then show ?thesis using that by simp
  qed
  show ?thesis using *[of i j] *[of j i] assms by (cases "i \<le> j") simp_all
qed

lemma record_ring:
  assumes r: "ring_of t xs" and m: "0 \<le> m"
  shows "ring_of (record_latency (Some m) t) (xs @ [m])"
proof -
  let ?n = "length xs"
  have slot: "next_slot (record_latency (Some m) t) = length (xs @ [m]) mod LATENCY_SAMPLES"
    using r m by (simp add: record_latency_def ring_of_def mod_Suc_eq)
  consider "?n < 63" | "?n = 63" | "64 \<le> ?n" by linarith
  then show ?thesis
  proof cases
    case 1
    then show ?thesis using r m slot by (auto simp: ring_of_def record_latency_def LATENCY_SAMPLES_def)
  next
    case 2
    then have "samples (record_latency (Some m) t) = xs @ [m]"
      using r m by (simp add: ring_of_def record_latency_def LATENCY_SAMPLES_def)
    moreover have "(64 + i) mod 64 = i" if "i < 64" for i :: nat using that by simp
    ultimately show ?thesis using slot 2 by (simp add: ring_of_def LATENCY_SAMPLES_def)
  next
    case 3
    then have len: "length (samples t) = 64"
      and old: "\<And>i. i < 64 \<Longrightarrow> samples t ! ((?n + i) mod 64) = xs ! (?n - 64 + i)"
      and ns: "next_slot t = ?n mod 64"
      using r by (simp_all add: ring_of_def LATENCY_SAMPLES_def)
    have s: "samples (record_latency (Some m) t) = (samples t)[?n mod 64 := m]"
      using m len ns by (simp add: record_latency_def LATENCY_SAMPLES_def)
    have "(samples t)[?n mod 64 := m] ! ((Suc ?n + i) mod 64) = (xs @ [m]) ! (Suc ?n - 64 + i)" if i: "i < 64" for i
    proof (cases "i = 63")
      case True
      have "(?n + 64) mod 64 = ?n mod 64" by (metis mod_add_self2)
      then have "(Suc ?n + i) mod 64 = ?n mod 64" using True by (simp add: add.commute)
      moreover have "Suc ?n - 64 + i = ?n" using True 3 by simp
      ultimately show ?thesis using len by simp
    next
      case False
      then have j: "Suc i < 64" using i by simp
      have e: "(Suc ?n + i) mod 64 = (?n + Suc i) mod 64" by simp
      have "(?n + Suc i) mod 64 \<noteq> ?n mod 64" using ring_mod_inj[of "Suc i" 0 ?n] j by auto
      then have "(samples t)[?n mod 64 := m] ! ((Suc ?n + i) mod 64) = xs ! (?n - 64 + Suc i)"
        using old[OF j] unfolding e by simp
      moreover have "Suc ?n - 64 + i = ?n - 64 + Suc i" "?n - 64 + Suc i < ?n" using 3 j by auto
      ultimately show ?thesis by (simp add: nth_append)
    qed
    then show ?thesis using slot s len 3 by (simp add: ring_of_def LATENCY_SAMPLES_def)
  qed
qed

lemma fold_record_ring:
  "ring_of t ys \<Longrightarrow> ring_of (fold record_latency xs t) (ys @ accepted xs)"
proof (induction xs arbitrary: t ys)
  case Nil
  then show ?case by (simp add: accepted_def map_filter_simps)
next
  case (Cons x xs)
  show ?case
  proof (cases "\<exists>m. x = Some m \<and> 0 \<le> m")
    case True
    then obtain m where m: "x = Some m" "0 \<le> m" by blast
    from Cons.IH[OF record_ring[OF Cons.prems m(2)]] show ?thesis
      using m by (simp add: accepted_def map_filter_simps)
  next
    case False
    then have "record_latency x t = t" by (auto simp: record_latency_def split: option.splits)
    then show ?thesis
      using Cons False by (auto simp: accepted_def map_filter_simps split: option.splits)
  qed
qed

lemma mset_set_image_nth: "length xs = n \<Longrightarrow> image_mset ((!) xs) (mset_set {..<n}) = mset xs"
  by (metis atLeast0LessThan map_nth mset_map mset_upt)

lemma ring_samples:
  assumes "ring_of t xs"
  shows "mset (samples t) = mset (recent xs)" "length (samples t) = min 64 (length xs)"
proof -
  show len: "length (samples t) = min 64 (length xs)"
    using assms by (auto simp: ring_of_def LATENCY_SAMPLES_def split: if_splits)
  show "mset (samples t) = mset (recent xs)"
  proof (cases "length xs < 64")
    case True
    then show ?thesis using assms by (simp add: ring_of_def recent_def LATENCY_SAMPLES_def)
  next
    case False
    let ?n = "length xs"
    let ?f = "\<lambda>i. (?n + i) mod 64"
    have old: "samples t ! ?f i = xs ! (?n - 64 + i)" if "i < 64" for i
      using assms False that by (simp add: ring_of_def LATENCY_SAMPLES_def)
    have inj: "inj_on ?f {..<64}" using ring_mod_inj by (auto intro: inj_onI)
    moreover have "?f ` {..<64} \<subseteq> {..<64}" by auto
    ultimately have "?f ` {..<64} = {..<64}" by (intro endo_inj_surj) auto
    then have "mset (samples t) = image_mset ((!) (samples t)) (mset_set (?f ` {..<64}))"
      using len False by (simp add: mset_set_image_nth)
    also have "\<dots> = image_mset (\<lambda>i. samples t ! ?f i) (mset_set {..<64})"
      using image_mset_mset_set[OF inj] by (simp add: multiset.map_comp comp_def flip: image_mset_mset_set[OF inj])
    also have "\<dots> = image_mset (\<lambda>i. recent xs ! i) (mset_set {..<64})"
      using old False by (intro image_mset_cong) (simp add: recent_def LATENCY_SAMPLES_def)
    also have "\<dots> = mset (recent xs)"
      by (rule mset_set_image_nth) (use False in \<open>simp add: recent_def LATENCY_SAMPLES_def\<close>)
    finally show ?thesis .
  qed
qed

lemma ring_new: "ring_of new_tracker []"
  by (simp add: ring_of_def new_tracker_def LATENCY_SAMPLES_def)

lemma sorted_count:
  assumes "sorted ys" "k < length ys"
  shows "Suc k \<le> length (filter (\<lambda>y. y \<le> ys ! k) ys)"
proof -
  have "\<forall>y \<in> set (take (Suc k) ys). y \<le> ys ! k"
    using assms by (auto simp: in_set_conv_nth sorted_nth_mono)
  then have "filter (\<lambda>y. y \<le> ys ! k) (take (Suc k) ys) = take (Suc k) ys" by (intro filter_True) blast
  moreover have "filter P ys = filter P (take (Suc k) ys) @ filter P (drop (Suc k) ys)" for P
    by (metis append_take_drop_id filter_append)
  ultimately show ?thesis using assms(2) by simp
qed

lemma quantile_rank:
  assumes q: "0 < q" "q \<le> 1" and r: "ring_of t xs" and n: "LATENCY_MIN_SAMPLES \<le> length (samples t)"
  obtains p where "quantile q t = Some p" "p \<in> set (recent xs)"
    "q * of_nat (length (recent xs)) \<le> of_nat (length (filter (\<lambda>x. x \<le> p) (recent xs)))"
proof -
  let ?s = "sort (samples t)" and ?n = "length (samples t)"
  define c where "c = \<lceil>q * of_int (int ?n)\<rceil>"
  have npos: "0 < ?n" using n unfolding LATENCY_MIN_SAMPLES_def by linarith
  have "0 < q * of_int (int ?n)" using q npos by simp
  then have c1: "1 \<le> c" by (simp add: c_def less_ceiling_iff int_one_le_iff_zero_less)
  have "q * of_int (int ?n) \<le> of_int (int ?n)" using q npos by (simp add: mult_left_le_one_le)
  then have c2: "c \<le> int ?n" by (simp add: c_def ceiling_le_iff)
  define k where "k = nat (c - 1)"
  have k: "k < ?n" "int k = c - 1" using c1 c2 by (auto simp: k_def)
  have "quantile q t = Some (?s ! k)"
  proof -
    have "min (int ?n - 1) (max 0 (c - 1)) = int k" using c1 c2 k(2) by linarith
    then show ?thesis
      unfolding quantile_def Let_def length_sort c_def[symmetric] using n by simp
  qed
  moreover have ms: "mset ?s = mset (recent xs)" using ring_samples(1)[OF r] by simp
  have "?s ! k \<in> set (recent xs)"
    using k(1) ms by (metis length_sort mset_eq_setD nth_mem)
  moreover have "q * of_nat (length (recent xs)) \<le> of_nat (length (filter (\<lambda>x. x \<le> ?s ! k) (recent xs)))"
  proof -
    have l: "length (recent xs) = ?n" using ms by (metis length_sort mset_eq_length)
    have f: "length (filter P ?s) = length (filter P (recent xs))" for P
      using ms by (metis mset_eq_length mset_filter)
    have "q * of_nat ?n \<le> of_int c" by (simp add: c_def)
    also have "(of_int c :: rat) = of_nat (Suc k)" using k(2) by simp
    also have "(of_nat (Suc k) :: rat) \<le> of_nat (length (filter (\<lambda>x. x \<le> ?s ! k) (recent xs)))"
      using sorted_count[of ?s k] k(1) f by (simp only: of_nat_le_iff length_sort sorted_sort)
    finally show ?thesis by (simp add: l)
  qed
  ultimately show thesis by (rule that)
qed

text \<open>
  The hedge delay. Whatever reply times were recorded, the hedge fires strictly before the
  attempt times out (for a timeout of at least 1 ms); without enough samples, or when not
  adaptive, it is the configured floor; with at least 8 accepted samples and an adaptive policy it is the
  larger of the floor and a value among the last 64 reply times that at least 95% of them do
  not exceed.
\<close>

theorem hedge_delay_p95:
  fixes history :: "int option list"
  assumes "1 \<le> timeout"
  defines "t \<equiv> fold record_latency history new_tracker" and "window \<equiv> recent (accepted history)"
  shows "hedgeDelay base adaptive timeout t < timeout
    \<and> (\<not> adaptive \<or> length window < 8 \<longrightarrow> hedgeDelay base adaptive timeout t = min base (timeout - 1))
    \<and> (adaptive \<and> 8 \<le> length window \<longrightarrow>
        (\<exists>p \<in> set window. hedgeDelay base adaptive timeout t = min (max base p) (timeout - 1)
           \<and> 95 * length window \<le> 100 * length (filter (\<lambda>x. x \<le> p) window)))"
proof (intro conjI impI)
  have r: "ring_of t (accepted history)"
    using fold_record_ring[OF ring_new, of history] by (simp add: t_def)
  have len: "length (samples t) = length window"
    unfolding window_def using ring_samples(1)[OF r] by (rule mset_eq_length)
  show "hedgeDelay base adaptive timeout t < timeout"
    using assms(1) by (simp add: hedgeDelay_def Let_def)
  show "hedgeDelay base adaptive timeout t = min base (timeout - 1)" if "\<not> adaptive \<or> length window < 8"
    using assms(1) that len by (auto simp: hedgeDelay_def quantile_def LATENCY_MIN_SAMPLES_def)
  assume a: "adaptive \<and> 8 \<le> length window"
  then have "LATENCY_MIN_SAMPLES \<le> length (samples t)" by (simp add: len LATENCY_MIN_SAMPLES_def)
  then obtain p where p: "quantile (95 / 100) t = Some p" "p \<in> set window"
      "95 / 100 * of_nat (length window) \<le> (of_nat (length (filter (\<lambda>x. x \<le> p) window)) :: rat)"
    using quantile_rank[OF _ _ r, of "95 / 100"] unfolding window_def by auto
  have "(of_nat (95 * length window) :: rat) \<le> of_nat (100 * length (filter (\<lambda>x. x \<le> p) window))"
    using p(3) by (simp add: field_simps)
  then have "95 * length window \<le> 100 * length (filter (\<lambda>x. x \<le> p) window)" by (simp only: of_nat_le_iff)
  then show "\<exists>p \<in> set window. hedgeDelay base adaptive timeout t = min (max base p) (timeout - 1)
           \<and> 95 * length window \<le> 100 * length (filter (\<lambda>x. x \<le> p) window)"
    using p a assms(1) by (intro bexI[of _ p]) (simp_all add: hedgeDelay_def Let_def)
qed

theorem hedge_delay_p95_witness:
  "hedgeDelay 3000 True 10000 (fold record_latency (map Some [100, 200]) new_tracker) = 3000"
  using hedge_delay_p95[of 10000 3000 True "map Some [100, 200]"]
  by (simp add: accepted_def map_filter_simps recent_def)

end
