(* ===== verification/Surb_Pool.thy ===== *)
theory Surb_Pool
  imports Utils
begin

section \<open>The pool of reply blocks\<close>

text \<open>
  \<open>packages/nox-client/src/surb_pool.ts\<close>: the registry of single-use reply blocks (SURBs), their
  generation, decryption and clean-up. The WASM module is not part of the sources: its
  functions are parameters, \<open>create\<close> (what the k-th call to \<open>create_surb\<close> or \<open>create_surb_v2\<close>
  returns, or the exception it throws), \<open>rand\<close> (the 16 random bytes of the k-th identifier) and
  \<open>dec\<close> (\<open>decrypt_surb_response\<close> on a recovery and a body, \<open>None\<close> when it throws).
\<close>

record path_hop =
  pubKeyHex :: string
  hop_address :: string

datatype surb_version = V1 | V2

record surb_entry =
  surb_requestId :: int
  recoveryJson :: string
  surb_version :: "surb_version option"

record create_result =
  surb_bytes :: bytes
  recovery_json :: string
  recovery_id_hex :: string

type_synonym surb_registry = "(string, surb_entry) jsmap"

record wasm_module =
  wasm_create_surb :: "nat \<Rightarrow> path_hop list \<Rightarrow> string \<Rightarrow> create_result result"
  wasm_create_surb_v2 :: "(nat \<Rightarrow> path_hop list \<Rightarrow> create_result result) option"

definition wasmSupportsSurbV2 :: "wasm_module option \<Rightarrow> bool" where
  "wasmSupportsSurbV2 w = (case w of None \<Rightarrow> False | Some m \<Rightarrow> wasm_create_surb_v2 m \<noteq> None)"

definition activeSurbIds :: "surb_registry \<Rightarrow> string list" where
  "activeSurbIds registry = jsmap_keys registry"

definition idsForRequest :: "int \<Rightarrow> surb_registry \<Rightarrow> string list" where
  "idsForRequest requestId registry =
     map fst (filter (\<lambda>(_, entry). surb_requestId entry = requestId) registry)"

definition randomIdHex :: "bytes \<Rightarrow> string" where
  "randomIdHex bs = concat (map (\<lambda>b. padStart 2 CHR ''0'' (to_string16 (unat b))) bs)"

text \<open>
  The loop of \<open>generate\<close>: the blobs so far and the registry; an exception leaves the entries
  registered before it.
\<close>

fun generate_loop ::
  "wasm_module \<Rightarrow> (nat \<Rightarrow> bytes) \<Rightarrow> path_hop list \<Rightarrow> int \<Rightarrow> surb_version \<Rightarrow> nat list \<Rightarrow> bytes list
     \<Rightarrow> surb_registry \<Rightarrow> surb_registry \<times> bytes list result" where
  "generate_loop wasm rand path requestId ver [] blobs registry = (registry, Inr blobs)"
| "generate_loop wasm rand path requestId ver (i # is) blobs registry =
     (let v1Id = (if ver = V2 then None else Some (randomIdHex (rand i)));
          created = (case v1Id of
              None \<Rightarrow> the (wasm_create_surb_v2 wasm) i path
            | Some k \<Rightarrow> wasm_create_surb wasm i path k) in
      case created of
        Inl e \<Rightarrow> (registry, Inl e)
      | Inr r \<Rightarrow>
          (let idHex = (case v1Id of None \<Rightarrow> recovery_id_hex r | Some k \<Rightarrow> k);
               entry = \<lparr>surb_requestId = requestId, recoveryJson = recovery_json r, surb_version = Some ver\<rparr> in
           generate_loop wasm rand path requestId ver is (blobs @ [surb_bytes r])
             (jsmap_set idHex entry registry)))"

definition generate ::
  "wasm_module \<Rightarrow> (nat \<Rightarrow> bytes) \<Rightarrow> path_hop list \<Rightarrow> int \<Rightarrow> nat \<Rightarrow> surb_version
     \<Rightarrow> surb_registry \<Rightarrow> surb_registry \<times> bytes list result" where
  "generate wasm rand returnPath requestId cnt ver registry =
     (if ver = V2 \<and> wasm_create_surb_v2 wasm = None
      then (registry, throw SurbV2Unavailable ''The loaded WASM module cannot build format v2 reply blocks'')
      else generate_loop wasm rand returnPath requestId ver [0..<cnt] [] registry)"

definition accept_plaintext :: "bytes \<Rightarrow> bool" where
  "accept_plaintext p = (case p of [] \<Rightarrow> False | b # _ \<Rightarrow> b = 1)"

definition decryptById ::
  "(string \<Rightarrow> bytes \<Rightarrow> bytes option) \<Rightarrow> string \<Rightarrow> bytes \<Rightarrow> surb_registry \<Rightarrow> surb_registry \<times> (int \<times> bytes) option" where
  "decryptById dec idHex encryptedBody registry =
     (case jsmap_get registry idHex of
        None \<Rightarrow> (registry, None)
      | Some entry \<Rightarrow>
          (case dec (recoveryJson entry) encryptedBody of
             None \<Rightarrow> (registry, None)
           | Some plaintext \<Rightarrow>
               if \<not> accept_plaintext plaintext then (registry, None)
               else (jsmap_delete idHex registry, Some (surb_requestId entry, plaintext))))"

fun match_loop ::
  "(string \<Rightarrow> bytes \<Rightarrow> bytes option) \<Rightarrow> bytes \<Rightarrow> (string \<times> surb_entry) list \<Rightarrow> surb_registry
     \<Rightarrow> surb_registry \<times> (int \<times> bytes) option" where
  "match_loop dec encryptedBody [] registry = (registry, None)"
| "match_loop dec encryptedBody ((idHex, entry) # rest) registry =
     (if surb_version entry = Some V2 then match_loop dec encryptedBody rest registry
      else (case dec (recoveryJson entry) encryptedBody of
          None \<Rightarrow> match_loop dec encryptedBody rest registry
        | Some plaintext \<Rightarrow>
            if \<not> accept_plaintext plaintext then match_loop dec encryptedBody rest registry
            else (jsmap_delete idHex registry, Some (surb_requestId entry, plaintext))))"

definition matchAndDecrypt ::
  "(string \<Rightarrow> bytes \<Rightarrow> bytes option) \<Rightarrow> bytes \<Rightarrow> surb_registry \<Rightarrow> surb_registry \<times> (int \<times> bytes) option" where
  "matchAndDecrypt dec encryptedBody registry = match_loop dec encryptedBody registry registry"

definition cleanup :: "int \<Rightarrow> surb_registry \<Rightarrow> surb_registry" where
  "cleanup requestId registry =
     fold (\<lambda>(idHex, entry) r. if surb_requestId entry = requestId then jsmap_delete idHex r else r) registry registry"

definition pool_size :: "surb_registry \<Rightarrow> nat" where
  "pool_size registry = length registry"

subsection \<open>Identifiers\<close>

lemma idsForRequest_distinct: "jsmap_wf registry \<Longrightarrow> distinct (idsForRequest r registry)"
  unfolding jsmap_wf_def idsForRequest_def by (rule distinct_map_filter)

lemma idsForRequest_in:
  "jsmap_wf registry \<Longrightarrow> k \<in> set (idsForRequest r registry) \<longleftrightarrow>
     (\<exists>entry. jsmap_get registry k = Some entry \<and> surb_requestId entry = r)"
  by (force simp: idsForRequest_def jsmap_get_iff)

lemma idsForRequest_disjoint:
  "jsmap_wf registry \<Longrightarrow> r \<noteq> r' \<Longrightarrow> set (idsForRequest r registry) \<inter> set (idsForRequest r' registry) = {}"
  by (auto simp: idsForRequest_in)

lemma idsForRequest_delete:
  "idsForRequest r (jsmap_delete k registry) = filter (\<lambda>j. j \<noteq> k) (idsForRequest r registry)"
proof -
  have "filter (\<lambda>j. j \<noteq> k) (map fst (filter P registry)) = map fst (filter P (filter (\<lambda>(j, _). j \<noteq> k) registry))" for P
    by (induction registry) auto
  then show ?thesis by (simp add: idsForRequest_def jsmap_delete_def)
qed

lemma match_loop_cases:
  assumes "match_loop dec body es registry = (registry', res)"
  shows "(res = None \<and> registry' = registry
      \<and> (\<forall>(k, e) \<in> set es. surb_version e = Some V2 \<or>
            (case dec (recoveryJson e) body of None \<Rightarrow> True | Some p \<Rightarrow> \<not> accept_plaintext p)))
    \<or> (\<exists>k e p. (k, e) \<in> set es \<and> surb_version e \<noteq> Some V2 \<and> dec (recoveryJson e) body = Some p
        \<and> accept_plaintext p \<and> res = Some (surb_requestId e, p) \<and> registry' = jsmap_delete k registry)"
  using assms
proof (induction es)
  case (Cons a es)
  then show ?case
    by (cases a) (fastforce split: if_splits option.splits)
qed simp

lemma cleanup_filter:
  "jsmap_wf registry \<Longrightarrow> cleanup r registry = filter (\<lambda>(_, e). surb_requestId e \<noteq> r) registry"
proof -
  assume wf: "jsmap_wf registry"
  let ?step = "\<lambda>(idHex, entry) m. if surb_requestId entry = r then jsmap_delete idHex m else m"
  have *: "fold ?step es m = filter (\<lambda>(k, _). k \<notin> set (idsForRequest r es)) m" for es m
  proof (induction es arbitrary: m)
    case Nil
    then show ?case by (simp add: idsForRequest_def case_prod_unfold)
  next
    case (Cons a es)
    then show ?case
      by (cases a) (auto simp: idsForRequest_def jsmap_delete_def intro!: filter_cong)
  qed
  have "k \<notin> set (idsForRequest r registry) \<longleftrightarrow> surb_requestId e \<noteq> r" if "(k, e) \<in> set registry" for k e
    using that jsmap_get_iff[OF wf, of k e] by (simp add: idsForRequest_in[OF wf])
  then show ?thesis unfolding cleanup_def * by (auto intro!: filter_cong)
qed

lemma idsForRequest_cleanup:
  "idsForRequest r (filter (\<lambda>(_, e). surb_requestId e \<noteq> req) m) = (if r = req then [] else idsForRequest r m)"
  by (induction m) (auto simp: idsForRequest_def)

subsection \<open>Properties\<close>

text \<open>
  A reply block is used once. When a reply is decrypted, by identifier or by trial, the
  answer names the request the block was made for, the plaintext is what the block's recovery
  decrypts to and carries the version byte, and exactly that block leaves the registry: presenting the
  same reply again by identifier finds nothing. A failed decryption changes nothing, and trial
  decryption never tries a version 2 block.
\<close>

theorem surb_single_use:
  assumes "jsmap_wf registry"
  shows "(decryptById dec k body registry = (registry1, Some (r, p)) \<longrightarrow>
      (\<exists>e. jsmap_get registry k = Some e \<and> surb_requestId e = r \<and> dec (recoveryJson e) body = Some p)
      \<and> accept_plaintext p \<and> registry1 = jsmap_delete k registry
      \<and> decryptById dec k body registry1 = (registry1, None))
    \<and> (decryptById dec k body registry = (registry1, None) \<longrightarrow> registry1 = registry)
    \<and> (matchAndDecrypt dec body registry = (registry2, Some (r, p)) \<longrightarrow>
      (\<exists>j e. jsmap_get registry j = Some e \<and> surb_requestId e = r \<and> surb_version e \<noteq> Some V2
         \<and> dec (recoveryJson e) body = Some p \<and> accept_plaintext p \<and> registry2 = jsmap_delete j registry))
    \<and> (matchAndDecrypt dec body registry = (registry2, None) \<longrightarrow> registry2 = registry)"
proof (intro conjI)
  show "decryptById dec k body registry = (registry1, Some (r, p)) \<longrightarrow>
      (\<exists>e. jsmap_get registry k = Some e \<and> surb_requestId e = r \<and> dec (recoveryJson e) body = Some p)
      \<and> accept_plaintext p \<and> registry1 = jsmap_delete k registry
      \<and> decryptById dec k body registry1 = (registry1, None)"
    using js_map.get_del_same[OF assms, of k]
    by (auto simp: decryptById_def split: option.splits if_splits)
  show "decryptById dec k body registry = (registry1, None) \<longrightarrow> registry1 = registry"
    by (auto simp: decryptById_def split: option.splits if_splits)
  show "matchAndDecrypt dec body registry = (registry2, Some (r, p)) \<longrightarrow>
      (\<exists>j e. jsmap_get registry j = Some e \<and> surb_requestId e = r \<and> surb_version e \<noteq> Some V2
         \<and> dec (recoveryJson e) body = Some p \<and> accept_plaintext p \<and> registry2 = jsmap_delete j registry)"
    using match_loop_cases[of dec body registry registry registry2 "Some (r, p)"] jsmap_get_iff[OF assms]
    by (fastforce simp: matchAndDecrypt_def)
  show "matchAndDecrypt dec body registry = (registry2, None) \<longrightarrow> registry2 = registry"
    using match_loop_cases[of dec body registry registry registry2 None] by (auto simp: matchAndDecrypt_def)
qed

definition sample_entry :: surb_entry where
  "sample_entry = \<lparr>surb_requestId = 9, recoveryJson = ''r'', surb_version = Some V1\<rparr>"

theorem surb_single_use_witness:
  "decryptById (\<lambda>_ b. Some (1 # b)) ''k'' [5] [(''k'', sample_entry)] = ([], Some (9, [1, 5]))
   \<and> decryptById (\<lambda>_ b. Some (1 # b)) ''k'' [5] [] = ([], None)"
proof -
  have run: "decryptById (\<lambda>_ b. Some (1 # b)) ''k'' [5] [(''k'', sample_entry)] = ([], Some (9, [1, 5]))"
    by (simp add: decryptById_def jsmap_get_def accept_plaintext_def sample_entry_def jsmap_delete_def)
  have "jsmap_wf [(''k'', sample_entry)]" by (simp add: jsmap_wf_def)
  from surb_single_use[OF this, of "\<lambda>_ b. Some (1 # b)" "''k''" "[5]" "[]" 9 "[1, 5]"] run show ?thesis by blast
qed

definition surb_id :: "wasm_module \<Rightarrow> (nat \<Rightarrow> bytes) \<Rightarrow> surb_version \<Rightarrow> nat \<Rightarrow> create_result \<Rightarrow> string" where
  "surb_id wasm rand ver i r = (if ver = V2 then recovery_id_hex r else randomIdHex (rand i))"

definition create_call ::
  "wasm_module \<Rightarrow> (nat \<Rightarrow> bytes) \<Rightarrow> path_hop list \<Rightarrow> surb_version \<Rightarrow> nat \<Rightarrow> create_result result" where
  "create_call wasm rand path ver i =
     (if ver = V2 then the (wasm_create_surb_v2 wasm) i path
      else wasm_create_surb wasm i path (randomIdHex (rand i)))"

lemma generate_loop_fresh:
  assumes "\<And>i. i \<in> set is \<Longrightarrow> create_call wasm rand path ver i = Inr (c i)"
    and "distinct (map (\<lambda>i. surb_id wasm rand ver i (c i)) is)"
    and "set (map (\<lambda>i. surb_id wasm rand ver i (c i)) is) \<inter> set (jsmap_keys registry) = {}"
  shows "generate_loop wasm rand path req ver is blobs registry =
    (registry @ map (\<lambda>i. (surb_id wasm rand ver i (c i),
        \<lparr>surb_requestId = req, recoveryJson = recovery_json (c i), surb_version = Some ver\<rparr>)) is,
     Inr (blobs @ map (\<lambda>i. surb_bytes (c i)) is))"
  using assms
proof (induction "is" arbitrary: blobs registry)
  case (Cons i "is")
  let ?id = "surb_id wasm rand ver i (c i)"
  let ?e = "\<lparr>surb_requestId = req, recoveryJson = recovery_json (c i), surb_version = Some ver\<rparr> :: surb_entry"
  have "create_call wasm rand path ver i = Inr (c i)" using Cons.prems(1) by simp
  then have step: "generate_loop wasm rand path req ver (i # is) blobs registry =
      generate_loop wasm rand path req ver is (blobs @ [surb_bytes (c i)]) (jsmap_set ?id ?e registry)"
    by (cases ver) (simp_all add: create_call_def surb_id_def Let_def)
  have "jsmap_set ?id ?e registry = registry @ [(?id, ?e)]"
    using Cons.prems(3) by (intro jsmap_set_fresh) auto
  then show ?case
    using step Cons.IH[of "registry @ [(?id, ?e)]" "blobs @ [surb_bytes (c i)]"] Cons.prems by auto
qed simp

text \<open>
  Generation and clean-up account for every block. When generation succeeds on fresh,
  pairwise different identifiers, it returns one blob per block and the request's identifiers are
  the old ones followed by the new ones in generation order (the order in which the exit uses
  them), other requests keep theirs; \<open>cleanup\<close> then removes all blocks of the request and no other.
\<close>

theorem generate_accounts:
  assumes wf: "jsmap_wf registry" and v2: "ver = V2 \<longrightarrow> wasm_create_surb_v2 wasm \<noteq> None"
    and c: "\<And>i. i < n \<Longrightarrow> create_call wasm rand path ver i = Inr (c i)"
    and "distinct (map (\<lambda>i. surb_id wasm rand ver i (c i)) [0..<n])"
    and "set (map (\<lambda>i. surb_id wasm rand ver i (c i)) [0..<n]) \<inter> set (jsmap_keys registry) = {}"
  shows "\<exists>registry'. generate wasm rand path req n ver registry = (registry', Inr (map (\<lambda>i. surb_bytes (c i)) [0..<n]))
    \<and> jsmap_wf registry'
    \<and> idsForRequest req registry' = idsForRequest req registry @ map (\<lambda>i. surb_id wasm rand ver i (c i)) [0..<n]
    \<and> (\<forall>r. r \<noteq> req \<longrightarrow> idsForRequest r registry' = idsForRequest r registry)
    \<and> idsForRequest req (cleanup req registry') = []
    \<and> (\<forall>r. r \<noteq> req \<longrightarrow> idsForRequest r (cleanup req registry') = idsForRequest r registry')"
proof -
  let ?new = "map (\<lambda>i. (surb_id wasm rand ver i (c i),
        \<lparr>surb_requestId = req, recoveryJson = recovery_json (c i), surb_version = Some ver\<rparr>)) [0..<n]"
  let ?reg = "registry @ ?new"
  have run: "generate wasm rand path req n ver registry = (?reg, Inr (map (\<lambda>i. surb_bytes (c i)) [0..<n]))"
    using generate_loop_fresh[of "[0..<n]" wasm rand path ver c registry req "[]"] c assms(4,5) v2
    by (simp add: generate_def)
  have wf': "jsmap_wf ?reg"
    using wf assms(4,5) by (auto simp: jsmap_wf_def comp_def)
  have ids: "idsForRequest r ?reg = idsForRequest r registry
      @ (if r = req then map (\<lambda>i. surb_id wasm rand ver i (c i)) [0..<n] else [])" for r
    by (simp add: idsForRequest_def filter_map comp_def)
  have cl: "idsForRequest r (cleanup req ?reg) = (if r = req then [] else idsForRequest r ?reg)" for r
    unfolding cleanup_filter[OF wf'] by (rule idsForRequest_cleanup)
  show ?thesis
    by (rule exI[of _ ?reg]) (use run wf' ids cl in simp)
qed

definition sample_wasm :: wasm_module where
  "sample_wasm = \<lparr>wasm_create_surb = (\<lambda>i path k. Inr \<lparr>surb_bytes = [word_of_nat i], recovery_json = k, recovery_id_hex = k\<rparr>),
     wasm_create_surb_v2 = None\<rparr>"

theorem generate_accounts_witness:
  "\<exists>registry'. generate sample_wasm (\<lambda>i. [word_of_nat i]) [] 7 2 V1 [] = (registry', Inr [[0], [1]])
     \<and> idsForRequest 7 (cleanup 7 registry') = []"
proof -
  let ?c = "\<lambda>i. \<lparr>surb_bytes = [word_of_nat i], recovery_json = randomIdHex [word_of_nat i],
      recovery_id_hex = randomIdHex [word_of_nat i]\<rparr> :: create_result"
  have c: "create_call sample_wasm (\<lambda>i. [word_of_nat i]) [] V1 i = Inr (?c i)" for i
    by (simp add: create_call_def sample_wasm_def)
  have "randomIdHex [0] \<noteq> randomIdHex [1]" by code_simp
  then have d: "distinct (map (\<lambda>i. surb_id sample_wasm (\<lambda>i. [word_of_nat i]) V1 i (?c i)) [0..<2])"
    by (simp add: surb_id_def numeral_2_eq_2)
  from generate_accounts[OF _ _ c d, of "[]" 7] show ?thesis by (auto simp: numeral_2_eq_2)
qed

end
