(* ===== verification/Replenishment.thy ===== *)
theory Replenishment
  imports Surb_Pool Bincode_Messages
begin

section \<open>SURB replenishment\<close>

text \<open>
  \<open>packages/nox-client/src/replenishment.ts\<close>: the stashed forward paths and the packets that send
  the exit more reply blocks. \<open>sphinx\<close> (\<open>build_sphinx_packet\<close> of the WASM module) is a
  parameter; a packet to be posted is an effect, the pair of the entry and the packet. The
  pacing of the burst (batches of five with a pause) is the list of batches.
\<close>

record replenishment =
  paths :: "(int, path_hop list) jsmap"
  entries :: "(int, string) jsmap"
  versions :: "(int, surb_version) jsmap"

definition new_replenishment :: replenishment where
  "new_replenishment = \<lparr>paths = [], entries = [], versions = []\<rparr>"

definition stashPath :: "int \<Rightarrow> path_hop list \<Rightarrow> (string \<times> surb_version) option \<Rightarrow> replenishment \<Rightarrow> replenishment" where
  "stashPath requestId path route m =
     (let m1 = m\<lparr>paths := jsmap_set requestId path (paths m)\<rparr> in
      case route of
        None \<Rightarrow> m1
      | Some (entryUrl, ver) \<Rightarrow>
          m1\<lparr>entries := jsmap_set requestId entryUrl (entries m1),
             versions := jsmap_set requestId ver (versions m1)\<rparr>)"

definition clearPath :: "int \<Rightarrow> replenishment \<Rightarrow> replenishment" where
  "clearPath requestId m =
     m\<lparr>paths := jsmap_delete requestId (paths m), entries := jsmap_delete requestId (entries m),
       versions := jsmap_delete requestId (versions m)\<rparr>"

definition entryFor :: "int \<Rightarrow> replenishment \<Rightarrow> string option" where
  "entryFor requestId m = jsmap_get (entries m) requestId"

definition versionFor :: "int \<Rightarrow> replenishment \<Rightarrow> surb_version" where
  "versionFor requestId m = (case jsmap_get (versions m) requestId of None \<Rightarrow> V1 | Some v \<Rightarrow> v)"

definition hasPendingPath :: "int \<Rightarrow> replenishment \<Rightarrow> bool" where
  "hasPendingPath requestId m = jsmap_has (paths m) requestId"

definition buildReturnPath :: "path_hop list \<Rightarrow> path_hop list" where
  "buildReturnPath forwardPath =
     (if length forwardPath \<le> 1 then rev forwardPath
      else rev (take (length forwardPath - 1) forwardPath))"

definition MAX_SURBS_PER_PACKET :: int where
  "MAX_SURBS_PER_PACKET = 40"

definition surbCount :: "int \<Rightarrow> int \<Rightarrow> int" where
  "surbCount fragmentsRemaining minSurbs = min (max fragmentsRemaining minSurbs) MAX_SURBS_PER_PACKET"

text \<open>The packet of one \<open>ReplenishSurbs\<close> message: generate, encode twice, build.\<close>

definition replenish_packet ::
  "wasm_module \<Rightarrow> (nat \<Rightarrow> bytes) \<Rightarrow> (path_hop list \<Rightarrow> bytes \<Rightarrow> bytes result) \<Rightarrow> path_hop list
     \<Rightarrow> int \<Rightarrow> int \<Rightarrow> nat \<Rightarrow> surb_version \<Rightarrow> surb_registry \<Rightarrow> surb_registry \<times> bytes result" where
  "replenish_packet wasm rand sphinx forwardPath clientRequestId serverRequestId cnt ver pool =
     (case generate wasm rand (buildReturnPath forwardPath) clientRequestId cnt ver pool of
        (pool', Inl e) \<Rightarrow> (pool', Inl e)
      | (pool', Inr surbBlobs) \<Rightarrow>
          (pool',
           rbind (encodeServiceRequest (ReplenishSurbs serverRequestId surbBlobs)) (\<lambda>innerBytes.
           rbind (encodeRelayerPayload (AnonymousRequest innerBytes [])) (\<lambda>payloadBytes.
           sphinx forwardPath payloadBytes))))"

definition handleNeedMoreSurbs ::
  "wasm_module \<Rightarrow> (nat \<Rightarrow> bytes) \<Rightarrow> (path_hop list \<Rightarrow> bytes \<Rightarrow> bytes result) \<Rightarrow> int \<Rightarrow> int \<Rightarrow> int \<Rightarrow> string \<Rightarrow> int
     \<Rightarrow> replenishment \<Rightarrow> surb_registry \<Rightarrow> surb_registry \<times> (string \<times> bytes) result" where
  "handleNeedMoreSurbs wasm rand sphinx clientRequestId serverRequestId fragmentsRemaining entryUrl minSurbs m pool =
     (case jsmap_get (paths m) clientRequestId of
        None \<Rightarrow> (pool, throw InvalidConfig ''NeedMoreSurbs: no stashed path for request'')
      | Some forwardPath \<Rightarrow>
          (let targetEntry = (case jsmap_get (entries m) clientRequestId of None \<Rightarrow> entryUrl | Some u \<Rightarrow> u);
               (pool', packet) = replenish_packet wasm rand sphinx forwardPath clientRequestId serverRequestId
                  (nat (surbCount fragmentsRemaining minSurbs)) (versionFor clientRequestId m) pool in
           (pool', rbind packet (\<lambda>p. Inr (targetEntry, p)))))"

fun burst_packets ::
  "wasm_module \<Rightarrow> (nat \<Rightarrow> nat \<Rightarrow> bytes) \<Rightarrow> (path_hop list \<Rightarrow> bytes \<Rightarrow> bytes result) \<Rightarrow> path_hop list
     \<Rightarrow> int \<Rightarrow> int \<Rightarrow> nat \<Rightarrow> surb_version \<Rightarrow> nat list \<Rightarrow> bytes list \<Rightarrow> surb_registry \<Rightarrow> surb_registry \<times> bytes list result" where
  "burst_packets wasm rand sphinx fwd creq sreq per ver [] packets pool = (pool, Inr packets)"
| "burst_packets wasm rand sphinx fwd creq sreq per ver (i # is) packets pool =
     (case replenish_packet wasm (rand i) sphinx fwd creq sreq per ver pool of
        (pool', Inl e) \<Rightarrow> (pool', Inl e)
      | (pool', Inr p) \<Rightarrow> burst_packets wasm rand sphinx fwd creq sreq per ver is (packets @ [p]) pool')"

definition BATCH_SIZE :: nat where
  "BATCH_SIZE = 5"

function batches_of :: "'a list \<Rightarrow> 'a list list" where
  "batches_of packets =
     (if packets = [] then [] else take BATCH_SIZE packets # batches_of (drop BATCH_SIZE packets))"
  by pat_completeness auto
termination
  by (relation "measure length") (auto simp: BATCH_SIZE_def)

declare batches_of.simps [simp del]

definition burstReplenish ::
  "wasm_module \<Rightarrow> (nat \<Rightarrow> nat \<Rightarrow> bytes) \<Rightarrow> (path_hop list \<Rightarrow> bytes \<Rightarrow> bytes result) \<Rightarrow> int \<Rightarrow> int \<Rightarrow> nat \<Rightarrow> nat \<Rightarrow> string
     \<Rightarrow> replenishment \<Rightarrow> surb_registry \<Rightarrow> surb_registry \<times> (string \<times> bytes list list) result" where
  "burstReplenish wasm rand sphinx clientRequestId serverRequestId packetsNeeded surbsPerPacket entryUrl m pool =
     (case jsmap_get (paths m) clientRequestId of
        None \<Rightarrow> (pool, throw InvalidConfig ''burstReplenish: no stashed path for request'')
      | Some forwardPath \<Rightarrow>
          (let targetEntry = (case jsmap_get (entries m) clientRequestId of None \<Rightarrow> entryUrl | Some u \<Rightarrow> u);
               (pool', packets) = burst_packets wasm rand sphinx forwardPath clientRequestId serverRequestId
                  surbsPerPacket (versionFor clientRequestId m) [0..<packetsNeeded] [] pool in
           (pool', rbind packets (\<lambda>ps. Inr (targetEntry, batches_of ps)))))"

subsection \<open>Facts\<close>

lemma surbCount_bounds: "surbCount f m \<le> 40" "m \<le> 40 \<Longrightarrow> m \<le> surbCount f m"
  by (simp_all add: surbCount_def MAX_SURBS_PER_PACKET_def)

lemma buildReturnPath_last:
  "2 \<le> length p \<Longrightarrow> buildReturnPath p = rev (butlast p)" "2 \<le> length p \<Longrightarrow> last (buildReturnPath p) = hd p"
proof -
  assume p: "2 \<le> length p"
  show e: "buildReturnPath p = rev (butlast p)" using p by (simp add: buildReturnPath_def butlast_conv_take)
  have "butlast p \<noteq> []" using p by (cases p) auto
  then show "last (buildReturnPath p) = hd p" using e p by (cases p) (auto simp: last_rev)
qed

lemma generate_loop_count:
  "generate_loop wasm rand path req ver is blobs pool = (pool', Inr out) \<Longrightarrow> length out = length blobs + length is"
  by (induction wasm rand path req ver "is" blobs pool rule: generate_loop.induct)
    (auto simp: Let_def split: sum.splits option.splits if_splits)

lemma generate_count: "generate wasm rand path req n ver pool = (pool', Inr out) \<Longrightarrow> length out = n"
  using generate_loop_count[of wasm rand path req ver "[0..<n]" "[]" pool pool' out]
  by (auto simp: generate_def split: if_splits)

lemma batches_of_concat: "concat (batches_of ps) = ps"
  by (induction ps rule: batches_of.induct) (subst batches_of.simps, simp)

lemma batches_of_sizes: "\<forall>b \<in> set (batches_of ps). 0 < length b \<and> length b \<le> 5"
proof (induction ps rule: batches_of.induct)
  case (1 ps)
  then show ?case by (subst batches_of.simps) (auto simp: BATCH_SIZE_def)
qed

lemma burst_packets_count:
  "burst_packets wasm rand sphinx fwd creq sreq per ver is ps pool = (pool', Inr out) \<Longrightarrow> length out = length ps + length is"
  by (induction wasm rand sphinx fwd creq sreq per ver "is" ps pool rule: burst_packets.induct)
    (auto split: prod.splits sum.splits)

lemma replenish_encoded:
  "encodeServiceRequest (ReplenishSurbs sreq blobs) = Inr (1 # request_layout (ReplenishSurbs sreq blobs))"
  "encodeRelayerPayload (AnonymousRequest inner []) = Inr (1 # payload_layout (AnonymousRequest inner []))"
proof -
  have one: "le_u8 PAYLOAD_VERSION = [1]" by (simp add: le_u8_def le_int_def PAYLOAD_VERSION_def)
  show "encodeServiceRequest (ReplenishSurbs sreq blobs) = Inr (1 # request_layout (ReplenishSurbs sreq blobs))"
    using encode_with_emits[OF emits_request[of "ReplenishSurbs sreq blobs"]] one by (simp add: encodeServiceRequest_def)
  show "encodeRelayerPayload (AnonymousRequest inner []) = Inr (1 # payload_layout (AnonymousRequest inner []))"
    using encode_with_emits[OF emits_payload[of "AnonymousRequest inner []"]] one by (simp add: encodeRelayerPayload_def)
qed

text \<open>
  What a replenishment sends. For a stashed request, with the WASM module's packet builder
  as a parameter: the packet goes to the entry the request used; the builder is given the
  request's forward path and a relayer payload whose bytes are the layout of an anonymous request carrying
  a \<open>ReplenishSurbs\<close> message for the server's request with exactly the
  generated blocks, between \<open>minSurbs\<close> and 40 of them; their return path is the forward path
  without the exit, reversed, so it ends at the entry.
\<close>

theorem replenish_packet_content:
  assumes "jsmap_get (paths m) creq = Some fwd" "jsmap_get (entries m) creq = Some u" "minSurbs \<le> 40" "0 \<le> minSurbs"
    and "2 \<le> length fwd"
    and "handleNeedMoreSurbs wasm rand sphinx creq sreq remaining entryUrl minSurbs m pool = (pool', Inr (target, packet))"
  shows "target = u \<and> (\<exists>blobs.
      generate wasm rand (rev (butlast fwd)) creq (length blobs) (versionFor creq m) pool = (pool', Inr blobs)
      \<and> minSurbs \<le> int (length blobs) \<and> length blobs \<le> 40
      \<and> sphinx fwd (1 # payload_layout (AnonymousRequest (1 # request_layout (ReplenishSurbs sreq blobs)) [])) = Inr packet
      \<and> last (rev (butlast fwd)) = hd fwd)"
proof -
  let ?n = "nat (surbCount remaining minSurbs)"
  have ret: "buildReturnPath fwd = rev (butlast fwd)" "last (rev (butlast fwd)) = hd fwd"
    using buildReturnPath_last[OF assms(5)] by simp_all
  obtain blobs where g: "generate wasm rand (rev (butlast fwd)) creq ?n (versionFor creq m) pool = (pool', Inr blobs)"
      and e: "rbind (encodeServiceRequest (ReplenishSurbs sreq blobs)) (\<lambda>innerBytes.
           rbind (encodeRelayerPayload (AnonymousRequest innerBytes [])) (sphinx fwd)) = Inr packet"
      and t: "target = u"
    using assms(1,2,6) by (auto simp: handleNeedMoreSurbs_def replenish_packet_def ret Let_def rbind_Inr_iff
        split: prod.splits sum.splits)
  have len: "length blobs = ?n" using generate_count[OF g] .
  have "minSurbs \<le> int (length blobs)" "length blobs \<le> 40"
    using surbCount_bounds(2)[OF assms(3), of remaining] surbCount_bounds(1)[of remaining minSurbs] assms(4) len by auto
  moreover have "sphinx fwd (1 # payload_layout (AnonymousRequest (1 # request_layout (ReplenishSurbs sreq blobs)) [])) = Inr packet"
    using e by (simp add: replenish_encoded del: payload_layout.simps request_layout.simps)
  moreover have "generate wasm rand (rev (butlast fwd)) creq (length blobs) (versionFor creq m) pool = (pool', Inr blobs)"
    using g len by simp
  ultimately show ?thesis using t ret(2) by blast
qed

definition sample_hop :: "string \<Rightarrow> path_hop" where
  "sample_hop u = \<lparr>pubKeyHex = u, hop_address = u\<rparr>"

theorem replenish_packet_content_witness:
  "\<exists>packet blobs. handleNeedMoreSurbs sample_wasm (\<lambda>i. [word_of_nat i]) (\<lambda>_ payload. Inr payload) 7 9 0 ''d'' 0
       (stashPath 7 [sample_hop ''a'', sample_hop ''b''] (Some (''e'', V1)) new_replenishment) [] = ([], Inr (''e'', packet))
     \<and> packet = 1 # payload_layout (AnonymousRequest (1 # request_layout (ReplenishSurbs 9 blobs)) []) \<and> length blobs \<le> 40"
proof -
  let ?m = "stashPath 7 [sample_hop ''a'', sample_hop ''b''] (Some (''e'', V1)) new_replenishment"
  let ?sphinx = "\<lambda>(_ :: path_hop list) payload. Inr payload :: bytes result"
  obtain packet where run: "handleNeedMoreSurbs sample_wasm (\<lambda>i. [word_of_nat i]) ?sphinx 7 9 0 ''d'' 0 ?m []
      = ([], Inr (''e'', packet))"
    by (simp add: handleNeedMoreSurbs_def stashPath_def new_replenishment_def jsmap_get_def versionFor_def
        surbCount_def MAX_SURBS_PER_PACKET_def replenish_packet_def generate_def replenish_encoded)
  have get: "jsmap_get (paths ?m) 7 = Some [sample_hop ''a'', sample_hop ''b'']" "jsmap_get (entries ?m) 7 = Some ''e''"
    by (simp_all add: stashPath_def new_replenishment_def jsmap_get_def)
  show ?thesis
    using replenish_packet_content[OF get _ _ _ run] run by fastforce
qed

end
