(* ===== verification/Reply_Claims.thy ===== *)
theory Reply_Claims
  imports Js_Settings Utils Bincode_Codec "HOL-Library.Multiset"
begin

section \<open>The reply claim scheduler\<close>

text \<open>
  \<open>packages/nox-client/src/reply_claims.ts\<close>: which reply block identifiers are claimed from which
  entry, and when. The asynchronous \<open>claim\<close> is split at its \<open>await\<close>: \<open>beginClaim\<close> is the part before
  it and returns the record of the claim in flight, \<open>claimSucceeded\<close> and \<open>claimFailed\<close> are what happens when the exchange ends.
  The host's answers (\<open>activeIds\<close>, \<open>isPending\<close>, \<open>skipEntry\<close>) during one call are parameters; what a
  call asks of the host (claims to send, lost replies to report) is part of its result. The
  callbacks do not re-enter the scheduler. Logging is not modelled.
\<close>

subsection \<open>Settings\<close>

record claim_settings =
  intervalMs :: int
  claimTimeoutMs :: int
  claimTimeoutPerIdMs :: int
  maxIdsPerClaim :: int
  maxClaimsInFlight :: int
  jsonMaxIdsPerClaim :: int
  jsonMaxClaimsInFlight :: int
  waitMs :: int
  binary :: bool
  retain :: bool
  parityFallbackMs :: int
  lostReplyGraceMs :: int
  firstArrival :: bool

definition REPLY_CLAIM_DEFAULTS :: settings_map where
  "REPLY_CLAIM_DEFAULTS =
     [(''intervalMs'', SNum 200), (''claimTimeoutMs'', SNum 10000), (''claimTimeoutPerIdMs'', SNum 2500),
      (''maxIdsPerClaim'', SNum 4), (''maxClaimsInFlight'', SNum 4), (''jsonMaxIdsPerClaim'', SNum 1),
      (''jsonMaxClaimsInFlight'', SNum 2), (''waitMs'', SNum 4000), (''binary'', SBool True),
      (''retain'', SBool True), (''parityFallbackMs'', SNum 2000), (''lostReplyGraceMs'', SNum 1500),
      (''firstArrival'', SBool True)]"

definition CLASSIC_REPLY_CLAIM_DEFAULTS :: settings_map where
  "CLASSIC_REPLY_CLAIM_DEFAULTS =
     fold (\<lambda>(k, v) m. jsmap_set k v m)
       [(''waitMs'', SNum 0), (''maxIdsPerClaim'', SNum 128), (''jsonMaxIdsPerClaim'', SNum 128),
        (''jsonMaxClaimsInFlight'', SNum 4)] REPLY_CLAIM_DEFAULTS"

definition claim_min :: "string \<Rightarrow> int" where
  "claim_min key = (if key = ''waitMs'' then 0 else 1)"

definition check_claims :: "string \<Rightarrow> js_value \<Rightarrow> setting option result" where
  "check_claims key value =
     (if \<not> js_in key REPLY_CLAIM_DEFAULTS then throw InvalidConfig ''is not a reply claim setting''
      else if value = JUndefined then Inr None
      else if key = ''binary'' \<or> key = ''retain'' \<or> key = ''firstArrival''
      then (case value of JBool b \<Rightarrow> Inr (Some (SBool b)) | _ \<Rightarrow> throw InvalidConfig ''must be a boolean'')
      else (case value of
          JInt n \<Rightarrow> if \<not> isSafeInteger n \<or> n < claim_min key
                     then throw InvalidConfig ''must be a safe integer'' else Inr (js_assign key (SNum n))
        | _ \<Rightarrow> throw InvalidConfig ''must be a safe integer''))"

definition resolveReplyClaimSettings :: "(string \<times> js_value) list option \<Rightarrow> settings_map \<Rightarrow> settings_map result" where
  "resolveReplyClaimSettings overrides base =
     resolve_with check_claims (case overrides of None \<Rightarrow> [] | Some es \<Rightarrow> es) base"

text \<open>The cast \<open>settings as ReplyClaimSettings\<close>.\<close>

definition as_claim_settings :: "settings_map \<Rightarrow> claim_settings" where
  "as_claim_settings m =
     \<lparr>intervalMs = num_setting m ''intervalMs'', claimTimeoutMs = num_setting m ''claimTimeoutMs'',
      claimTimeoutPerIdMs = num_setting m ''claimTimeoutPerIdMs'', maxIdsPerClaim = num_setting m ''maxIdsPerClaim'',
      maxClaimsInFlight = num_setting m ''maxClaimsInFlight'', jsonMaxIdsPerClaim = num_setting m ''jsonMaxIdsPerClaim'',
      jsonMaxClaimsInFlight = num_setting m ''jsonMaxClaimsInFlight'', waitMs = num_setting m ''waitMs'',
      binary = bool_setting m ''binary'', retain = bool_setting m ''retain'',
      parityFallbackMs = num_setting m ''parityFallbackMs'', lostReplyGraceMs = num_setting m ''lostReplyGraceMs'',
      firstArrival = bool_setting m ''firstArrival''\<rparr>"

definition MAX_PENDING_ACKS :: nat where
  "MAX_PENDING_ACKS = 512"

definition MAX_ACKS_PER_CLAIM :: nat where
  "MAX_ACKS_PER_CLAIM = 128"

definition PROBE_RETRY_BASE_MS :: int where
  "PROBE_RETRY_BASE_MS = 5000"

definition PROBE_RETRY_MAX_MS :: int where
  "PROBE_RETRY_MAX_MS = 60000"

definition FIRST_ARRIVAL_BLOCKS :: int where
  "FIRST_ARRIVAL_BLOCKS = 2"

subsection \<open>State\<close>

text \<open>A JavaScript \<open>Set\<close> iterates in insertion order: a list without repetitions.\<close>

definition set_add :: "'a \<Rightarrow> 'a list \<Rightarrow> 'a list" where
  "set_add x xs = (if x \<in> set xs then xs else xs @ [x])"

definition set_delete :: "'a \<Rightarrow> 'a list \<Rightarrow> 'a list" where
  "set_delete x xs = filter (\<lambda>y. y \<noteq> x) xs"

record target =
  tg_requestId :: int
  tg_entryUrl :: string
  initialIds :: "string list"
  sentAt :: int
  dataWanted :: int
  suspectSince :: "int option"
  lostReported :: bool

record entry_state =
  inFlight :: "string list"
  claims :: int
  waiting :: int
  cursor :: nat
  longPoll :: "bool option"
  v2 :: "bool option"
  waitMaxMs :: "int option"
  relayWaitMaxMs :: "int option"
  probing :: bool
  probeFailures :: nat
  probeRetryAt :: int
  acks :: "string list"

record scheduler =
  targets :: "(int, target) jsmap"
  sched_entries :: "(string, entry_state) jsmap"
  timer_on :: bool
  kickQueued :: bool
  closed :: bool

record host =
  activeIds :: "int \<Rightarrow> string list"
  isPending :: "int \<Rightarrow> bool"
  skipEntry :: "string \<Rightarrow> bool"
  has_probe :: bool

text \<open>A claim between its start and the end of the exchange.\<close>

record pending_claim =
  pc_entry :: string
  pc_ids :: "string list"
  pc_requests :: "int list"
  pc_acks :: "string list"
  pc_waitMs :: int
  pc_started :: int
  pc_timeoutMs :: int

record batch =
  bt_ids :: "string list"
  bt_requests :: "int list"

definition new_scheduler :: scheduler where
  "new_scheduler = \<lparr>targets = [], sched_entries = [], timer_on = False, kickQueued = False, closed = False\<rparr>"

subsection \<open>Operations\<close>

definition start_timer :: "scheduler \<Rightarrow> scheduler" where
  "start_timer s = (if timer_on s \<or> closed s then s else s\<lparr>timer_on := True\<rparr>)"

definition kick :: "scheduler \<Rightarrow> scheduler" where
  "kick s = (if kickQueued s then s else s\<lparr>kickQueued := True\<rparr>)"

definition track :: "int \<Rightarrow> int \<Rightarrow> string \<Rightarrow> string list \<Rightarrow> int \<Rightarrow> scheduler \<Rightarrow> scheduler" where
  "track now requestId entryUrl ids wanted s =
     (if closed s then s
      else kick (start_timer (s\<lparr>targets := jsmap_set requestId
        \<lparr>tg_requestId = requestId, tg_entryUrl = entryUrl, initialIds = ids, sentAt = now, dataWanted = wanted,
         suspectSince = None, lostReported = False\<rparr> (targets s)\<rparr>)))"

definition idsAt :: "host \<Rightarrow> string \<Rightarrow> scheduler \<Rightarrow> string list" where
  "idsAt h entryUrl s =
     concat (map (\<lambda>(_, t). if tg_entryUrl t = entryUrl then activeIds h (tg_requestId t) else []) (targets s))"

definition noteFragment :: "int \<Rightarrow> fragment \<Rightarrow> scheduler \<Rightarrow> scheduler" where
  "noteFragment requestId f s =
     (case jsmap_get (targets s) requestId of
        None \<Rightarrow> s
      | Some t \<Rightarrow>
          (let dataShards = (case fec f of Some x \<Rightarrow> dataShardCount x | None \<Rightarrow> totalFragments f) in
           s\<lparr>targets := jsmap_set requestId
               (t\<lparr>suspectSince := None,
                  dataWanted := (if isSafeInteger dataShards \<and> dataShards > dataWanted t then dataShards else dataWanted t)\<rparr>)
               (targets s)\<rparr>))"

definition close :: "scheduler \<Rightarrow> scheduler" where
  "close s = s\<lparr>closed := True, timer_on := False, targets := [], sched_entries := []\<rparr>"

definition limits :: "claim_settings \<Rightarrow> entry_state \<Rightarrow> int \<times> int" where
  "limits cs st =
     (if v2 st = Some True then (maxIdsPerClaim cs, maxClaimsInFlight cs)
      else (jsonMaxIdsPerClaim cs, jsonMaxClaimsInFlight cs))"

definition waitFor :: "claim_settings \<Rightarrow> host \<Rightarrow> bool \<Rightarrow> entry_state \<Rightarrow> int" where
  "waitFor cs h ignoreSlots st =
     (if waitMs cs = 0 \<or> \<not> retain cs then 0
      else if \<not> ignoreSlots \<and> waiting st \<ge> max 1 (snd (limits cs st) - 1) then 0
      else (case (if has_probe h then relayWaitMaxMs st else waitMaxMs st) of
          None \<Rightarrow> 0
        | Some relay \<Rightarrow>
            if relay \<le> 0 then 0
            else min (min (waitMs cs) relay) (case waitMaxMs st of None \<Rightarrow> relay | Some w \<Rightarrow> w)))"

definition firstArrivalFront :: "claim_settings \<Rightarrow> host \<Rightarrow> entry_state \<Rightarrow> int" where
  "firstArrivalFront cs h st =
     (if \<not> firstArrival cs \<or> v2 st \<noteq> Some True \<or> longPoll st = Some False then 1
      else if waitFor cs h True st > 0 then FIRST_ARRIVAL_BLOCKS else 1)"

text \<open>\<open>xs.slice(n)\<close>: negative positions count from the end.\<close>

definition js_slice_from :: "int \<Rightarrow> 'a list \<Rightarrow> 'a list" where
  "js_slice_from n xs = drop (if n < 0 then nat (int (length xs) + n) else nat n) xs"

definition wantedIds :: "claim_settings \<Rightarrow> host \<Rightarrow> int \<Rightarrow> entry_state \<Rightarrow> target \<Rightarrow> string list" where
  "wantedIds cs h now st t =
     (let fallback = (suspectSince t \<noteq> None \<or> now - sentAt t \<ge> parityFallbackMs cs);
          front = max (dataWanted t) (firstArrivalFront cs h st);
          deferred = (if fallback then [] else js_slice_from front (initialIds t)) in
      filter (\<lambda>i. i \<notin> set deferred \<and> i \<notin> set (inFlight st)) (activeIds h (tg_requestId t)))"

definition start_probe :: "claim_settings \<Rightarrow> host \<Rightarrow> entry_state \<Rightarrow> entry_state" where
  "start_probe cs h st = (if \<not> has_probe h \<or> waitMs cs = 0 \<or> \<not> retain cs then st else st\<lparr>probing := True\<rparr>)"

definition new_entry_state :: entry_state where
  "new_entry_state = \<lparr>inFlight = [], claims = 0, waiting = 0, cursor = 0, longPoll = None, v2 = None,
     waitMaxMs = None, relayWaitMaxMs = None, probing = False, probeFailures = 0, probeRetryAt = 0, acks = []\<rparr>"

definition entryState :: "claim_settings \<Rightarrow> host \<Rightarrow> string \<Rightarrow> scheduler \<Rightarrow> entry_state" where
  "entryState cs h entryUrl s =
     (case jsmap_get (sched_entries s) entryUrl of
        Some st \<Rightarrow> st
      | None \<Rightarrow> start_probe cs h new_entry_state)"

definition reprobe :: "claim_settings \<Rightarrow> host \<Rightarrow> int \<Rightarrow> entry_state \<Rightarrow> entry_state" where
  "reprobe cs h now st =
     (if relayWaitMaxMs st \<noteq> None \<or> probing st \<or> probeFailures st = 0 \<or> now < probeRetryAt st then st
      else start_probe cs h st)"

definition probe_ok :: "int \<Rightarrow> entry_state \<Rightarrow> entry_state" where
  "probe_ok ms st =
     st\<lparr>relayWaitMaxMs := Some (if isSafeInteger ms \<and> ms > 0 then ms else 0), probeFailures := 0, probing := False\<rparr>"

definition probe_failed :: "int \<Rightarrow> entry_state \<Rightarrow> entry_state" where
  "probe_failed now st =
     (let n = probeFailures st + 1 in
      st\<lparr>probeFailures := n,
         probeRetryAt := now + min (PROBE_RETRY_BASE_MS * 2 ^ min (n - 1) 16) PROBE_RETRY_MAX_MS,
         probing := False\<rparr>)"

text \<open>The two nested loops that fill the batches, over the pairs of identifier and request.\<close>

fun fill_batches :: "int \<Rightarrow> int \<Rightarrow> (string \<times> int) list \<Rightarrow> batch list \<Rightarrow> batch \<Rightarrow> batch list" where
  "fill_batches maxIds free [] batches current =
     (if bt_ids current \<noteq> [] \<and> int (length batches) < free then batches @ [current] else batches)"
| "fill_batches maxIds free ((i, r) # rest) batches current =
     (if int (length (bt_ids current)) \<ge> maxIds then
        (let batches' = batches @ [current] in
         if int (length batches') \<ge> free then batches'
         else fill_batches maxIds free rest batches' \<lparr>bt_ids = [i], bt_requests = [r]\<rparr>)
      else fill_batches maxIds free rest batches
             \<lparr>bt_ids = bt_ids current @ [i], bt_requests = set_add r (bt_requests current)\<rparr>)"

definition takeAcks :: "entry_state \<Rightarrow> entry_state \<times> string list" where
  "takeAcks st =
     (let taken = take MAX_ACKS_PER_CLAIM (acks st) in
      (st\<lparr>acks := fold set_delete taken (acks st)\<rparr>, taken))"

definition beginClaim ::
  "claim_settings \<Rightarrow> host \<Rightarrow> int \<Rightarrow> string \<Rightarrow> batch \<Rightarrow> entry_state \<Rightarrow> entry_state \<times> pending_claim" where
  "beginClaim cs h now entryUrl b st =
     (let st1 = st\<lparr>inFlight := fold set_add (bt_ids b) (inFlight st), claims := claims st + 1\<rparr>;
          (st2, taken) = takeAcks st1;
          wait = (if bt_ids b = [] then 0 else waitFor cs h False st2);
          st3 = (if wait > 0 then st2\<lparr>waiting := waiting st2 + 1\<rparr> else st2);
          timeout = claimTimeoutMs cs + wait + claimTimeoutPerIdMs cs * max 0 (int (length (bt_ids b)) - 1) in
      (st3, \<lparr>pc_entry = entryUrl, pc_ids = bt_ids b, pc_requests = bt_requests b, pc_acks = taken,
             pc_waitMs = wait, pc_started = now, pc_timeoutMs = timeout\<rparr>))"

fun begin_all ::
  "claim_settings \<Rightarrow> host \<Rightarrow> int \<Rightarrow> string \<Rightarrow> batch list \<Rightarrow> entry_state \<Rightarrow> entry_state \<times> pending_claim list" where
  "begin_all cs h now entryUrl [] st = (st, [])"
| "begin_all cs h now entryUrl (b # bs) st =
     (let (st1, p) = beginClaim cs h now entryUrl b st; (st2, ps) = begin_all cs h now entryUrl bs st1 in (st2, p # ps))"

definition claimFrom ::
  "claim_settings \<Rightarrow> host \<Rightarrow> int \<Rightarrow> string \<Rightarrow> target list \<Rightarrow> scheduler \<Rightarrow> scheduler \<times> pending_claim list" where
  "claimFrom cs h now entryUrl ts s =
     (let st = reprobe cs h now (entryState cs h entryUrl s);
          (maxIds, maxClaims) = limits cs st;
          free = maxClaims - claims st in
      if free \<le> 0 then (s\<lparr>sched_entries := jsmap_set entryUrl st (sched_entries s)\<rparr>, [])
      else
        (let sorted_ts = sort_key sentAt ts;
             start = cursor st mod length sorted_ts;
             ordered = drop start sorted_ts @ take start sorted_ts;
             st1 = st\<lparr>cursor := (start + 1) mod max 1 (length sorted_ts)\<rparr>;
             wanted = concat (map (\<lambda>t. map (\<lambda>i. (i, tg_requestId t)) (wantedIds cs h now st1 t)) ordered);
             batches = fill_batches maxIds free wanted [] \<lparr>bt_ids = [], bt_requests = []\<rparr>;
             (st2, ps) = begin_all cs h now entryUrl batches st1 in
         (s\<lparr>sched_entries := jsmap_set entryUrl st2 (sched_entries s)\<rparr>, ps)))"

fun add_acks :: "string list \<Rightarrow> string list \<Rightarrow> string list" where
  "add_acks [] xs = xs"
| "add_acks (i # is) xs =
     (let ys = set_add i xs in
      add_acks is (if length ys > MAX_PENDING_ACKS then set_delete (hd ys) ys else ys))"

definition queueAcks :: "claim_settings \<Rightarrow> string \<Rightarrow> string list \<Rightarrow> scheduler \<Rightarrow> scheduler" where
  "queueAcks cs entryUrl ids s =
     (case jsmap_get (sched_entries s) entryUrl of
        None \<Rightarrow> s
      | Some st \<Rightarrow>
          if v2 st \<noteq> Some True \<or> \<not> retain cs then s
          else s\<lparr>sched_entries := jsmap_set entryUrl (st\<lparr>acks := add_acks ids (acks st)\<rparr>) (sched_entries s)\<rparr>)"

text \<open>\<open>checkLost\<close>: the target afterwards and whether the loss is reported now.\<close>

definition checkLost :: "claim_settings \<Rightarrow> int \<Rightarrow> target \<Rightarrow> target \<times> bool" where
  "checkLost cs now t =
     (case suspectSince t of
        None \<Rightarrow> (t, False)
      | Some since \<Rightarrow>
          if lostReported t \<or> now - since < lostReplyGraceMs cs then (t, False)
          else (t\<lparr>lostReported := True\<rparr>, True))"

text \<open>The first loop of \<open>tick\<close>: the scheduler, the targets per entry, and the losses reported.\<close>

fun tick_targets ::
  "claim_settings \<Rightarrow> host \<Rightarrow> int \<Rightarrow> target list \<Rightarrow> scheduler \<Rightarrow> (string, target list) jsmap \<Rightarrow> int list
     \<Rightarrow> scheduler \<times> (string, target list) jsmap \<times> int list" where
  "tick_targets cs h now [] s byEntry lost = (s, byEntry, lost)"
| "tick_targets cs h now (t # ts) s byEntry lost =
     (if \<not> isPending h (tg_requestId t) then
        tick_targets cs h now ts
          (queueAcks cs (tg_entryUrl t) (initialIds t) (s\<lparr>targets := jsmap_delete (tg_requestId t) (targets s)\<rparr>))
          byEntry lost
      else
        (let (t', report) = checkLost cs now t;
             s' = s\<lparr>targets := jsmap_set (tg_requestId t) t' (targets s)\<rparr>;
             lost' = (if report then lost @ [tg_requestId t] else lost) in
         if skipEntry h (tg_entryUrl t) then tick_targets cs h now ts s' byEntry lost'
         else tick_targets cs h now ts s'
                (jsmap_set (tg_entryUrl t)
                   ((case jsmap_get byEntry (tg_entryUrl t) of None \<Rightarrow> [] | Some l \<Rightarrow> l) @ [t']) byEntry) lost'))"

fun claim_entries ::
  "claim_settings \<Rightarrow> host \<Rightarrow> int \<Rightarrow> (string, target list) jsmap \<Rightarrow> scheduler \<Rightarrow> scheduler \<times> pending_claim list" where
  "claim_entries cs h now [] s = (s, [])"
| "claim_entries cs h now ((u, ts) # rest) s =
     (let (s1, ps) = claimFrom cs h now u ts s; (s2, qs) = claim_entries cs h now rest s1 in (s2, ps @ qs))"

fun flushAcks ::
  "claim_settings \<Rightarrow> host \<Rightarrow> int \<Rightarrow> string list \<Rightarrow> string list \<Rightarrow> scheduler \<Rightarrow> scheduler \<times> pending_claim list" where
  "flushAcks cs h now claimed [] s = (s, [])"
| "flushAcks cs h now claimed (u # us) s =
     (case jsmap_get (sched_entries s) u of
        None \<Rightarrow> flushAcks cs h now claimed us s
      | Some st \<Rightarrow>
          if acks st = [] \<or> v2 st \<noteq> Some True \<or> u \<in> set claimed \<or> claims st \<ge> snd (limits cs st)
          then flushAcks cs h now claimed us s
          else
            (let (st', p) = beginClaim cs h now u \<lparr>bt_ids = [], bt_requests = []\<rparr> st;
                 (s', ps) = flushAcks cs h now claimed us
                   (s\<lparr>sched_entries := jsmap_set u st' (sched_entries s)\<rparr>) in
             (s', p # ps)))"

definition tick ::
  "claim_settings \<Rightarrow> host \<Rightarrow> int \<Rightarrow> scheduler \<Rightarrow> scheduler \<times> pending_claim list \<times> int list" where
  "tick cs h now s =
     (if closed s then (s, [], [])
      else
        (let (s1, byEntry, lost) = tick_targets cs h now (map snd (targets s)) s [] [];
             (s2, ps) = claim_entries cs h now byEntry s1;
             (s3, qs) = flushAcks cs h now (jsmap_keys byEntry) (jsmap_keys (sched_entries s2)) s2;
             s4 = (if targets s3 = [] \<and> \<not> (\<exists>(u, st) \<in> set (sched_entries s3). acks st \<noteq> [] \<or> claims st > 0)
                   then s3\<lparr>timer_on := False\<rparr> else s3) in
         (s4, ps @ qs, lost)))"

record claim_outcome =
  oc_items :: "string list"
  oc_empty :: bool
  oc_v2 :: "bool option"
  oc_waitMaxMs :: "int option"

definition is_hex32 :: "string \<Rightarrow> bool" where
  "is_hex32 s = (length s = 32 \<and> list_all (\<lambda>c. c \<in> set ''0123456789abcdef'') s)"

text \<open>What follows the last \<open>-\<close>; the whole string when there is none.\<close>

definition after_last_dash :: "string \<Rightarrow> string" where
  "after_last_dash s = rev (takeWhile (\<lambda>c. c \<noteq> CHR ''-'') (rev s))"

definition surbIdOfItem :: "string \<Rightarrow> string option" where
  "surbIdOfItem itemId =
     (let lower = toLowerCase itemId in
      if is_hex32 lower then Some lower
      else (let suffix = after_last_dash lower in if is_hex32 suffix then Some suffix else None))"

text \<open>The \<open>finally\<close> block.\<close>

definition release :: "pending_claim \<Rightarrow> entry_state \<Rightarrow> entry_state" where
  "release p st =
     st\<lparr>inFlight := fold set_delete (pc_ids p) (inFlight st), claims := claims st - 1,
        waiting := (if pc_waitMs p > 0 then waiting st - 1 else waiting st)\<rparr>"

definition noteOutcome :: "int \<Rightarrow> claim_outcome \<Rightarrow> pending_claim \<Rightarrow> entry_state \<Rightarrow> entry_state" where
  "noteOutcome now oc p st =
     (if pc_ids p \<noteq> [] \<and> oc_empty oc \<and> pc_waitMs p > 0 \<and> longPoll st = None
      then st\<lparr>longPoll := Some (4 * (now - pc_started p) \<ge> 3 * pc_waitMs p)\<rparr> else st)"

text \<open>
  After \<open>close\<close> the entry states are no longer reachable from the scheduler, so the end of a claim
  changes nothing.
\<close>

definition claimSucceeded ::
  "claim_settings \<Rightarrow> int \<Rightarrow> pending_claim \<Rightarrow> claim_outcome \<Rightarrow> scheduler \<Rightarrow> scheduler" where
  "claimSucceeded cs now p oc s =
     (case jsmap_get (sched_entries s) (pc_entry p) of
        None \<Rightarrow> s
      | Some st \<Rightarrow>
          (let st1 = (if oc_v2 oc \<noteq> None then st\<lparr>v2 := oc_v2 oc\<rparr> else st);
               st2 = (if oc_waitMaxMs oc \<noteq> None then st1\<lparr>waitMaxMs := oc_waitMaxMs oc\<rparr> else st1);
               st3 = release p (noteOutcome now oc p st2);
               s1 = s\<lparr>sched_entries := jsmap_set (pc_entry p) st3 (sched_entries s)\<rparr> in
           if closed s1 then s1
           else
             (let received = List.map_filter surbIdOfItem (oc_items oc);
                  s2 = queueAcks cs (pc_entry p) received s1 in
              case jsmap_get (sched_entries s2) (pc_entry p) of
                Some st4 \<Rightarrow> if acks st4 \<noteq> [] then start_timer s2 else s2
              | None \<Rightarrow> s2)))"

fun mark_suspect :: "int \<Rightarrow> int list \<Rightarrow> (int, target) jsmap \<Rightarrow> (int, target) jsmap" where
  "mark_suspect now [] ts = ts"
| "mark_suspect now (r # rs) ts =
     mark_suspect now rs
       (case jsmap_get ts r of
          None \<Rightarrow> ts
        | Some t \<Rightarrow> jsmap_set r (t\<lparr>suspectSince := (case suspectSince t of None \<Rightarrow> Some now | Some x \<Rightarrow> Some x)\<rparr>) ts)"

definition claimFailed :: "int \<Rightarrow> pending_claim \<Rightarrow> scheduler \<Rightarrow> scheduler" where
  "claimFailed now p s =
     (case jsmap_get (sched_entries s) (pc_entry p) of
        None \<Rightarrow> s\<lparr>targets := mark_suspect now (pc_requests p) (targets s)\<rparr>
      | Some st \<Rightarrow>
          (let st1 = st\<lparr>acks := fold set_add (pc_acks p) (acks st)\<rparr> in
           s\<lparr>targets := mark_suspect now (pc_requests p) (targets s),
             sched_entries := jsmap_set (pc_entry p) (release p st1) (sched_entries s)\<rparr>))"

end
