(* ===== verification/Claim_Safety.thy ===== *)
theory Claim_Safety
  imports Reply_Claims Surb_Pool
begin

section \<open>Safety of the claim scheduler\<close>

text \<open>
  The invariant that ties the scheduler's books to the claims actually in flight, kept by every
  operation in every interleaving: an identifier is in at most one claim at a time, the number of claims and of
  long-polls per entry is bounded, and the queue of acknowledgements is bounded.
  The interface to the pool of reply blocks is the locale \<open>claim_host\<close>: the identifiers of a
  request are distinct and different requests share none; the pool's \<open>idsForRequest\<close> interprets it.
\<close>

locale claim_host =
  fixes ids :: "int \<Rightarrow> string list"
  assumes ids_distinct: "distinct (ids r)"
    and ids_disjoint: "r \<noteq> r' \<Longrightarrow> set (ids r) \<inter> set (ids r') = {}"
begin

lemma concat_distinct:
  "distinct (map key ts) \<Longrightarrow> (\<And>t. set (f t) \<subseteq> set (ids (key t))) \<Longrightarrow> (\<And>t. distinct (f t)) \<Longrightarrow>
   distinct (concat (map f ts))"
proof (induction ts)
  case (Cons t ts)
  have "set (f t) \<inter> set (f t') = {}" if "t' \<in> set ts" for t'
  proof -
    have "key t \<noteq> key t'" using Cons.prems(1) that by auto
    then show ?thesis using Cons.prems(2)[of t] Cons.prems(2)[of t'] ids_disjoint[of "key t" "key t'"] by blast
  qed
  then show ?case using Cons by auto
qed simp

end

definition host_ok :: "host \<Rightarrow> bool" where
  "host_ok h = claim_host (activeIds h)"

lemma pool_is_claim_host: "jsmap_wf registry \<Longrightarrow> claim_host (\<lambda>r. idsForRequest r registry)"
  by unfold_locales (auto simp: idsForRequest_distinct dest: idsForRequest_disjoint)

interpretation empty_pool: claim_host "\<lambda>r. idsForRequest r []"
  by (rule pool_is_claim_host) simp

subsection \<open>Sets as lists\<close>

lemma set_set_add [simp]: "set (set_add x xs) = insert x (set xs)"
  by (auto simp: set_add_def)

lemma distinct_set_add [simp]: "distinct (set_add x xs) = distinct xs"
  by (auto simp: set_add_def)

lemma set_fold_add: "set (fold set_add ys xs) = set ys \<union> set xs"
  by (induction ys arbitrary: xs) auto

lemma distinct_fold_add: "distinct (fold set_add ys xs) = distinct xs"
  by (induction ys arbitrary: xs) auto

lemma length_fold_add: "length (fold set_add ys xs) \<le> length xs + length ys"
proof (induction ys arbitrary: xs)
  case (Cons y ys)
  have "length (set_add y xs) \<le> length xs + 1" by (simp add: set_add_def)
  then show ?case using Cons[of "set_add y xs"] by simp
qed simp

lemma fold_set_delete: "fold set_delete ys xs = filter (\<lambda>x. x \<notin> set ys) xs"
  by (induction ys arbitrary: xs) (auto simp: set_delete_def intro!: filter_cong)

lemma take_acks_drop: "distinct xs \<Longrightarrow> fold set_delete (take n xs) xs = drop n xs"
proof -
  assume d: "distinct xs"
  then have disj: "set (take n xs) \<inter> set (drop n xs) = {}" by (simp add: set_take_disj_set_drop_if_distinct)
  let ?P = "\<lambda>x. x \<notin> set (take n xs)"
  have "filter ?P xs = filter ?P (take n xs) @ filter ?P (drop n xs)"
    by (metis append_take_drop_id filter_append)
  moreover have "filter ?P (take n xs) = []" by (simp add: filter_empty_conv)
  moreover have "filter ?P (drop n xs) = drop n xs" using disj by (intro filter_True) blast
  ultimately show ?thesis by (simp add: fold_set_delete)
qed

lemma add_acks_facts:
  "distinct xs \<Longrightarrow> distinct (add_acks is xs) \<and> length (add_acks is xs) \<le> max (length xs) MAX_PENDING_ACKS"
proof (induction "is" xs rule: add_acks.induct)
  case (2 i "is" xs)
  let ?ys = "set_add i xs"
  let ?zs = "if length ?ys > MAX_PENDING_ACKS then set_delete (hd ?ys) ?ys else ?ys"
  have d: "distinct ?ys" using 2 by simp
  have "length (set_delete (hd ?ys) ?ys) = length ?ys - 1" if "?ys \<noteq> []"
  proof (cases ?ys)
    case (Cons a l)
    then have "filter (\<lambda>y. y \<noteq> a) l = l" using d by (intro filter_True) auto
    then show ?thesis using Cons by (simp add: set_delete_def)
  qed (use that in simp)
  moreover have "length ?ys \<le> length xs + 1" by (simp add: set_add_def)
  ultimately have "length ?zs \<le> max (length xs) MAX_PENDING_ACKS" by (cases ?ys) auto
  moreover have "distinct ?zs" using d by (simp add: set_delete_def)
  ultimately show ?case using 2 by (force simp: Let_def)
qed simp

subsection \<open>The books of one entry\<close>

definition max_claims :: "claim_settings \<Rightarrow> int" where
  "max_claims cs = max (maxClaimsInFlight cs) (jsonMaxClaimsInFlight cs)"

definition entry_inv :: "claim_settings \<Rightarrow> entry_state \<Rightarrow> pending_claim list \<Rightarrow> bool" where
  "entry_inv cs st P =
     (distinct (concat (map pc_ids P)) \<and> set (inFlight st) = set (concat (map pc_ids P))
      \<and> claims st = int (length P) \<and> claims st \<le> max_claims cs
      \<and> waiting st = int (length (filter (\<lambda>p. pc_waitMs p > 0) P)) \<and> waiting st \<le> max 1 (max_claims cs - 1)
      \<and> distinct (acks st) \<and> list_all (\<lambda>p. length (pc_acks p) \<le> MAX_ACKS_PER_CLAIM) P
      \<and> int (length (acks st) + sum_list (map (\<lambda>p. length (pc_acks p)) P)) \<le> 512 + 128 * max_claims cs)"

lemma limits_le: "snd (limits cs st) \<le> max_claims cs"
  by (simp add: limits_def max_claims_def)

lemma beginClaim_inv:
  assumes "entry_inv cs st P" "distinct (bt_ids b)" "set (bt_ids b) \<inter> set (inFlight st) = {}"
    and "claims st < max_claims cs" and "beginClaim cs h now u b st = (st', p)"
  shows "entry_inv cs st' (P @ [p]) \<and> pc_entry p = u \<and> pc_ids p = bt_ids b
    \<and> claims st' = claims st + 1 \<and> set (inFlight st') = set (inFlight st) \<union> set (bt_ids b) \<and> v2 st' = v2 st"
proof -
  let ?st2 = "fst (takeAcks (st\<lparr>inFlight := fold set_add (bt_ids b) (inFlight st), claims := claims st + 1\<rparr>))"
  define wait where "wait = (if bt_ids b = [] then 0 else waitFor cs h False ?st2)"
  have d: "distinct (acks st)" using assms(1) by (simp add: entry_inv_def)
  have st': "st' = ?st2\<lparr>waiting := waiting st + (if wait > 0 then 1 else 0)\<rparr>"
      and p: "pc_entry p = u" "pc_ids p = bt_ids b" "pc_acks p = take MAX_ACKS_PER_CLAIM (acks st)" "pc_waitMs p = wait"
    using assms(5) by (auto simp: beginClaim_def takeAcks_def Let_def wait_def split: if_splits)
  have ak: "acks st' = drop MAX_ACKS_PER_CLAIM (acks st)"
    using take_acks_drop[OF d] by (simp add: st' takeAcks_def Let_def)
  have others: "set (inFlight st') = set (inFlight st) \<union> set (bt_ids b)" "claims st' = claims st + 1"
      "v2 st' = v2 st" "waiting st' = waiting st + (if wait > 0 then 1 else 0)"
    by (auto simp: st' takeAcks_def Let_def set_fold_add)
  have "waiting st' \<le> max 1 (max_claims cs - 1)"
  proof (cases "wait > 0")
    case True
    then have "\<not> waiting ?st2 \<ge> max 1 (snd (limits cs ?st2) - 1)"
      by (auto simp: wait_def waitFor_def split: if_splits)
    then have "waiting st < max 1 (max_claims cs - 1)"
      using limits_le[of cs ?st2] by (auto simp: takeAcks_def Let_def)
    then show ?thesis using True others by simp
  next
    case False
    then show ?thesis using assms(1) others by (simp add: entry_inv_def)
  qed
  moreover have "length (acks st') + length (pc_acks p) = length (acks st)"
    by (simp add: ak p min_def)
  ultimately have "entry_inv cs st' (P @ [p])"
    using assms(1-4) others d ak
    by (auto simp: entry_inv_def p MAX_ACKS_PER_CLAIM_def)
  then show ?thesis using others p by simp
qed

lemma begin_all_inv:
  assumes "entry_inv cs st P" "distinct (concat (map bt_ids bs))"
    and "set (concat (map bt_ids bs)) \<inter> set (inFlight st) = {}"
    and "claims st + int (length bs) \<le> max_claims cs" and "begin_all cs h now u bs st = (st', ps)"
  shows "entry_inv cs st' (P @ ps) \<and> list_all (\<lambda>p. pc_entry p = u) ps \<and> map pc_ids ps = map bt_ids bs"
  using assms
proof (induction bs arbitrary: st P ps)
  case (Cons b bs)
  obtain st1 p where b: "beginClaim cs h now u b st = (st1, p)" by fastforce
  obtain ps' where r: "begin_all cs h now u bs st1 = (st', ps')" "ps = p # ps'"
    using Cons.prems(5) b by (auto split: prod.splits)
  have inv1: "entry_inv cs st1 (P @ [p])" "pc_entry p = u" "pc_ids p = bt_ids b"
      "claims st1 = claims st + 1" "set (inFlight st1) = set (inFlight st) \<union> set (bt_ids b)"
    using beginClaim_inv[OF Cons.prems(1) _ _ _ b] Cons.prems(2-4) by auto
  have "entry_inv cs st' ((P @ [p]) @ ps') \<and> list_all (\<lambda>p. pc_entry p = u) ps' \<and> map pc_ids ps' = map bt_ids bs"
  proof (rule Cons.IH[OF inv1(1) _ _ _ r(1)])
    show "distinct (concat (map bt_ids bs))" using Cons.prems(2) by simp
    show "set (concat (map bt_ids bs)) \<inter> set (inFlight st1) = {}"
      using Cons.prems(2,3) by (auto simp: inv1(5))
    show "claims st1 + int (length bs) \<le> max_claims cs" using Cons.prems(4) inv1(4) by simp
  qed
  then show ?case using r inv1 by simp
qed simp

lemma fill_batches_facts:
  assumes "int (length batches) < free" "1 \<le> maxIds" "int (length (bt_ids cur)) \<le> maxIds"
  shows "int (length (fill_batches maxIds free xs batches cur)) \<le> free
    \<and> (\<exists>rest. concat (map bt_ids batches) @ bt_ids cur @ map fst xs =
          concat (map bt_ids (fill_batches maxIds free xs batches cur)) @ rest)
    \<and> (\<forall>b \<in> set (fill_batches maxIds free xs batches cur). b \<in> set batches \<or> int (length (bt_ids b)) \<le> maxIds)"
  using assms
proof (induction maxIds free xs batches cur rule: fill_batches.induct)
  case (1 maxIds free batches cur)
  then show ?case by auto
next
  case (2 maxIds free i r rest batches cur)
  show ?case
  proof (cases "int (length (bt_ids cur)) \<ge> maxIds")
    case full: True
    show ?thesis
    proof (cases "int (length (batches @ [cur])) \<ge> free")
      case True
      then show ?thesis using full 2(3,5) by auto
    next
      case False
      then show ?thesis using 2(1)[OF full refl False] 2(4,5) full by (auto simp: Let_def)
    qed
  next
    case False
    then show ?thesis using 2(2)[OF False] 2(3-5) by auto
  qed
qed

subsection \<open>The books of all entries\<close>

definition of_entry :: "string \<Rightarrow> pending_claim list \<Rightarrow> pending_claim list" where
  "of_entry u pend = filter (\<lambda>p. pc_entry p = u) pend"

definition ents_inv :: "claim_settings \<Rightarrow> (string, entry_state) jsmap \<Rightarrow> pending_claim list \<Rightarrow> bool" where
  "ents_inv cs E pend = (jsmap_wf E \<and> (\<forall>p \<in> set pend. pc_entry p \<in> fst ` set E)
     \<and> (\<forall>(u, st) \<in> set E. entry_inv cs st (of_entry u pend)))"

definition cs_ok :: "claim_settings \<Rightarrow> bool" where
  "cs_ok cs = (1 \<le> maxIdsPerClaim cs \<and> 1 \<le> jsonMaxIdsPerClaim cs \<and> 1 \<le> maxClaimsInFlight cs \<and> 1 \<le> jsonMaxClaimsInFlight cs)"

lemma entry_inv_cong:
  "inFlight st' = inFlight st \<Longrightarrow> claims st' = claims st \<Longrightarrow> waiting st' = waiting st \<Longrightarrow> acks st' = acks st \<Longrightarrow>
   entry_inv cs st' P = entry_inv cs st P"
  by (simp add: entry_inv_def)

lemma entry_inv_new: "cs_ok cs \<Longrightarrow> entry_inv cs new_entry_state []"
proof -
  assume "cs_ok cs"
  then have "1 \<le> max_claims cs" by (simp add: cs_ok_def max_claims_def le_max_iff_disj)
  then show ?thesis by (simp add: entry_inv_def new_entry_state_def)
qed

lemma ents_inv_get: "ents_inv cs E pend \<Longrightarrow> jsmap_get E u = Some st \<Longrightarrow> entry_inv cs st (of_entry u pend)"
  using jsmap_get_Some_in[of E u st] by (auto simp: ents_inv_def)

lemma ents_inv_set:
  assumes "ents_inv cs E pend" "entry_inv cs st (of_entry u pend')"
    and "\<And>u'. u' \<noteq> u \<Longrightarrow> of_entry u' pend' = of_entry u' pend" "\<And>p. p \<in> set pend' \<Longrightarrow> pc_entry p = u \<or> p \<in> set pend"
  shows "ents_inv cs (jsmap_set u st E) pend'"
proof -
  have wf: "jsmap_wf E" using assms(1) by (simp add: ents_inv_def)
  have keys: "fst ` set (jsmap_set u st E) = insert u (fst ` set E)" using jsmap_keys_set[of u st E] by simp
  have "entry_inv cs st' (of_entry u' pend')" if "(u', st') \<in> set (jsmap_set u st E)" for u' st'
    using that assms(1-3) unfolding set_jsmap_set[OF wf] by (auto simp: ents_inv_def)
  moreover have "pc_entry p \<in> fst ` set (jsmap_set u st E)" if "p \<in> set pend'" for p
    unfolding keys using assms(1) assms(4)[OF that] by (auto simp: ents_inv_def)
  ultimately show ?thesis using jsmap_wf_set[OF wf] unfolding ents_inv_def by fast
qed

lemma of_entry_append: "of_entry u (xs @ ys) = of_entry u xs @ of_entry u ys"
  by (simp add: of_entry_def)

lemma of_entry_same: "list_all (\<lambda>p. pc_entry p = u) ps \<Longrightarrow> of_entry u ps = ps"
  and of_entry_other: "list_all (\<lambda>p. pc_entry p = u) ps \<Longrightarrow> u' \<noteq> u \<Longrightarrow> of_entry u' ps = []"
  by (auto simp: of_entry_def list_all_iff filter_empty_conv)

lemma ents_inv_begin:
  assumes "ents_inv cs E pend" "entry_inv cs st (of_entry u pend @ ps)" "list_all (\<lambda>p. pc_entry p = u) ps"
  shows "ents_inv cs (jsmap_set u st E) (pend @ ps)"
proof (rule ents_inv_set[OF assms(1)])
  show "entry_inv cs st (of_entry u (pend @ ps))"
    using assms(2) by (simp add: of_entry_append of_entry_same[OF assms(3)])
  show "of_entry u' (pend @ ps) = of_entry u' pend" if "u' \<noteq> u" for u'
    by (simp add: of_entry_append of_entry_other[OF assms(3) that])
  show "pc_entry p = u \<or> p \<in> set pend" if "p \<in> set (pend @ ps)" for p
    using that assms(3) by (auto simp: list_all_iff)
qed

lemma entryState_inv:
  assumes "cs_ok cs" "ents_inv cs (sched_entries s) pend"
  shows "entry_inv cs (entryState cs h u s) (of_entry u pend)"
proof (cases "jsmap_get (sched_entries s) u")
  case None
  then have "u \<notin> fst ` set (sched_entries s)" by (simp add: jsmap_get_None_iff)
  then have "of_entry u pend = []" using assms(2) by (auto simp: of_entry_def ents_inv_def filter_empty_conv)
  moreover have "entry_inv cs (start_probe cs h new_entry_state) [] = entry_inv cs new_entry_state []"
    by (rule entry_inv_cong) (simp_all add: start_probe_def)
  ultimately show ?thesis using None entry_inv_new[OF assms(1)] by (simp add: entryState_def)
next
  case (Some st)
  then show ?thesis using ents_inv_get[OF assms(2)] by (simp add: entryState_def)
qed

lemma reprobe_inv: "entry_inv cs (reprobe cs h now st) P = entry_inv cs st P"
  by (rule entry_inv_cong) (simp_all add: reprobe_def start_probe_def)

lemma wantedIds_facts:
  assumes "host_ok h"
  shows "distinct (wantedIds cs h now st t)" "set (wantedIds cs h now st t) \<subseteq> set (activeIds h (tg_requestId t))"
    "set (wantedIds cs h now st t) \<inter> set (inFlight st) = {}"
  using claim_host.ids_distinct[of "activeIds h" "tg_requestId t"] assms
  by (auto simp: wantedIds_def Let_def host_ok_def)

lemma distinct_rotated:
  assumes "distinct (map f ts)"
  shows "distinct (map f (drop n (sort_key g ts) @ take n (sort_key g ts)))"
proof -
  let ?ss = "sort_key g ts"
  have "mset (drop n ?ss @ take n ?ss) = mset (take n ?ss @ drop n ?ss)"
    by (simp only: mset_append add.commute)
  also have "\<dots> = mset ts" by (simp only: append_take_drop_id mset_sort)
  finally have "mset (map f (drop n ?ss @ take n ?ss)) = mset (map f ts)" by (simp only: mset_map)
  then show ?thesis using assms mset_eq_imp_distinct_iff by blast
qed

lemma claimFrom_inv:
  assumes cs: "cs_ok cs" and h: "host_ok h" and inv: "ents_inv cs (sched_entries s) pend"
    and ts: "distinct (map tg_requestId ts)" and run: "claimFrom cs h now u ts s = (s', ps)"
  shows "ents_inv cs (sched_entries s') (pend @ ps) \<and> targets s' = targets s \<and> closed s' = closed s"
proof -
  define st where "st = reprobe cs h now (entryState cs h u s)"
  have st: "entry_inv cs st (of_entry u pend)"
    unfolding st_def reprobe_inv by (rule entryState_inv[OF cs inv])
  obtain maxIds maxClaims where l: "limits cs st = (maxIds, maxClaims)" by fastforce
  have lim: "1 \<le> maxIds" "maxClaims \<le> max_claims cs"
    using cs l limits_le[of cs st] by (auto simp: limits_def cs_ok_def split: if_splits)
  define free where "free = maxClaims - claims st"
  show ?thesis
  proof (cases "free \<le> 0")
    case True
    have "ents_inv cs (jsmap_set u st (sched_entries s)) (pend @ [])"
      using st by (intro ents_inv_begin[OF inv]) simp_all
    then show ?thesis using run True by (auto simp: claimFrom_def st_def[symmetric] l free_def Let_def)
  next
    case False
    define ss where "ss = sort_key sentAt ts"
    define st0 where "st0 = cursor st mod length ss"
    define ordered where "ordered = drop st0 ss @ take st0 ss"
    define st1 where "st1 = st\<lparr>cursor := (st0 + 1) mod max 1 (length ss)\<rparr>"
    define wanted where "wanted = concat (map (\<lambda>t. map (\<lambda>i. (i, tg_requestId t)) (wantedIds cs h now st1 t)) ordered)"
    define bs where "bs = fill_batches maxIds free wanted [] \<lparr>bt_ids = [], bt_requests = []\<rparr>"
    obtain st2 where r: "begin_all cs h now u bs st1 = (st2, ps)"
        and s': "s' = s\<lparr>sched_entries := jsmap_set u st2 (sched_entries s)\<rparr>"
      using run False
      by (auto simp: claimFrom_def st_def[symmetric] l free_def Let_def ss_def st0_def ordered_def st1_def wanted_def
          bs_def split: prod.splits)
    have st1: "entry_inv cs st1 (of_entry u pend)"
      using st entry_inv_cong[of st1 st cs] by (simp add: st1_def)
    have "distinct (map tg_requestId ordered)"
      unfolding ordered_def ss_def by (rule distinct_rotated[OF ts])
    then have dw: "distinct (concat (map (wantedIds cs h now st1) ordered))"
      using wantedIds_facts[OF h] h unfolding host_ok_def
      by (intro claim_host.concat_distinct[of "activeIds h" tg_requestId]) auto
    have fw: "map fst wanted = concat (map (wantedIds cs h now st1) ordered)"
      by (simp add: wanted_def map_concat comp_def)
    from fill_batches_facts[of "[]" free maxIds "\<lparr>bt_ids = [], bt_requests = []\<rparr>" wanted] False lim(1)
    obtain rest where b: "int (length bs) \<le> free" "map fst wanted = concat (map bt_ids bs) @ rest"
      by (auto simp: bs_def)
    have "distinct (concat (map bt_ids bs))" using dw b(2) fw by (metis distinct_append)
    moreover have "set (concat (map bt_ids bs)) \<inter> set (inFlight st1) = {}"
    proof -
      have "set (concat (map bt_ids bs)) \<subseteq> set (map fst wanted)" using b(2) by (metis Un_upper1 set_append)
      moreover have "set (map fst wanted) \<inter> set (inFlight st1) = {}"
        unfolding fw using wantedIds_facts(3)[OF h, of cs now st1] by auto
      ultimately show ?thesis by blast
    qed
    moreover have "claims st1 + int (length bs) \<le> max_claims cs"
      using b(1) lim(2) by (simp add: free_def st1_def)
    ultimately have "entry_inv cs st2 (of_entry u pend @ ps)" "list_all (\<lambda>p. pc_entry p = u) ps"
      using begin_all_inv[OF st1 _ _ _ r] by blast+
    from ents_inv_begin[OF inv this] show ?thesis by (simp add: s')
  qed
qed

subsection \<open>The end of a claim\<close>

lemma set_fold_delete: "set (fold set_delete ys xs) = set xs - set ys"
  by (induction ys arbitrary: xs) (auto simp: set_delete_def)

lemma release_inv:
  assumes inv: "entry_inv cs st (P1 @ p # P2)" and a: "distinct a" "length a \<le> length (acks st) + length (pc_acks p)"
  shows "entry_inv cs (release p (st\<lparr>acks := a\<rparr>)) (P1 @ P2)"
proof -
  have d: "distinct (concat (map pc_ids (P1 @ p # P2)))" and i: "set (inFlight st) = set (concat (map pc_ids (P1 @ p # P2)))"
    using inv by (simp_all add: entry_inv_def)
  have "set (fold set_delete (pc_ids p) (inFlight st)) = set (concat (map pc_ids (P1 @ P2)))"
    unfolding set_fold_delete i using d by auto
  then show ?thesis using inv a d by (cases "pc_waitMs p > 0") (auto simp: entry_inv_def release_def)
qed

lemma of_entry_remove:
  assumes "p \<in> set pend"
  obtains P1 P2 where "of_entry (pc_entry p) pend = P1 @ p # P2" "of_entry (pc_entry p) (remove1 p pend) = P1 @ P2"
    "\<forall>u. u \<noteq> pc_entry p \<longrightarrow> of_entry u (remove1 p pend) = of_entry u pend"
proof -
  let ?u = "pc_entry p"
  have "p \<in> set (of_entry ?u pend)" using assms by (simp add: of_entry_def)
  then obtain P1 P2 where P: "of_entry ?u pend = P1 @ p # P2" "p \<notin> set P1" using split_list_first by metis
  have f: "of_entry u (remove1 p pend) = remove1 p (of_entry u pend)" for u
    by (simp add: of_entry_def filter_remove1)
  show thesis
  proof (rule that[OF P(1)])
    show "of_entry ?u (remove1 p pend) = P1 @ P2" using P by (simp add: f remove1_append)
    have "of_entry u (remove1 p pend) = of_entry u pend" if "u \<noteq> ?u" for u
      unfolding f by (rule remove1_idem) (use that in \<open>simp add: of_entry_def\<close>)
    then show "\<forall>u. u \<noteq> ?u \<longrightarrow> of_entry u (remove1 p pend) = of_entry u pend" by simp
  qed
qed

lemma ents_inv_end:
  assumes inv: "ents_inv cs E pend" and p: "p \<in> set pend" and st: "jsmap_get E (pc_entry p) = Some st"
    and a: "distinct a" "length a \<le> length (acks st) + length (pc_acks p)"
    and st': "inFlight st' = inFlight (release p st)" "claims st' = claims (release p st)" "waiting st' = waiting (release p st)" "acks st' = a"
  shows "ents_inv cs (jsmap_set (pc_entry p) st' E) (remove1 p pend)"
proof -
  obtain P1 P2 where P: "of_entry (pc_entry p) pend = P1 @ p # P2" "of_entry (pc_entry p) (remove1 p pend) = P1 @ P2"
      "\<forall>u. u \<noteq> pc_entry p \<longrightarrow> of_entry u (remove1 p pend) = of_entry u pend"
    by (rule of_entry_remove[OF p])
  have "entry_inv cs st (P1 @ p # P2)" using ents_inv_get[OF inv st] P(1) by simp
  from release_inv[OF this a] have "entry_inv cs st' (P1 @ P2)"
    by (rule iffD1[OF entry_inv_cong, rotated 4]) (simp_all add: st' release_def)
  then show ?thesis
    using P(2,3) set_remove1_subset[of p pend] by (intro ents_inv_set[OF inv]) auto
qed

lemma ents_inv_update:
  assumes "ents_inv cs E pend" "jsmap_get E u = Some st"
    and "inFlight st' = inFlight st" "claims st' = claims st" "waiting st' = waiting st" "acks st' = acks st"
  shows "ents_inv cs (jsmap_set u st' E) pend"
proof (rule ents_inv_set[OF assms(1)])
  show "entry_inv cs st' (of_entry u pend)"
    using ents_inv_get[OF assms(1,2)] entry_inv_cong[OF assms(3-6), of cs "of_entry u pend"] by simp
qed auto

subsection \<open>Acknowledgements\<close>

lemma pending_acks_bound:
  "entry_inv cs st P \<Longrightarrow> int (sum_list (map (\<lambda>p. length (pc_acks p)) P)) \<le> 128 * max_claims cs"
proof -
  assume inv: "entry_inv cs st P"
  have "sum_list (map (\<lambda>p. length (pc_acks p)) P) \<le> 128 * length P" if "list_all (\<lambda>p. length (pc_acks p) \<le> 128) P"
    using that by (induction P) auto
  then show ?thesis using inv by (auto simp: entry_inv_def MAX_ACKS_PER_CLAIM_def)
qed

lemma queueAcks_inv:
  assumes "ents_inv cs (sched_entries s) pend"
  shows "ents_inv cs (sched_entries (queueAcks cs u is s)) pend \<and> targets (queueAcks cs u is s) = targets s
    \<and> closed (queueAcks cs u is s) = closed s"
proof (cases "jsmap_get (sched_entries s) u")
  case None
  then show ?thesis using assms by (simp add: queueAcks_def)
next
  case (Some st)
  let ?st = "st\<lparr>acks := add_acks is (acks st)\<rparr>"
  have inv: "entry_inv cs st (of_entry u pend)" using ents_inv_get[OF assms Some] .
  then have d: "distinct (acks st)" by (simp add: entry_inv_def)
  from add_acks_facts[OF d, of "is"] have a: "distinct (acks ?st)" "length (acks ?st) \<le> max (length (acks st)) MAX_PENDING_ACKS" by auto
  have "entry_inv cs ?st (of_entry u pend)"
    using inv a pending_acks_bound[OF inv] by (auto simp: entry_inv_def MAX_PENDING_ACKS_def)
  then have "ents_inv cs (jsmap_set u ?st (sched_entries s)) pend" by (intro ents_inv_set[OF assms]) auto
  then show ?thesis using assms Some by (simp add: queueAcks_def)
qed

subsection \<open>One pass of the timer\<close>

definition targets_ok :: "scheduler \<Rightarrow> bool" where
  "targets_ok s = (jsmap_wf (targets s) \<and> (\<forall>(r, t) \<in> set (targets s). tg_requestId t = r))"

text \<open>No request is listed twice for an entry.\<close>

definition grouped :: "(string, target list) jsmap \<Rightarrow> int set \<Rightarrow> bool" where
  "grouped byEntry R = (jsmap_wf byEntry
     \<and> (\<forall>(u, ts) \<in> set byEntry. distinct (map tg_requestId ts) \<and> set (map tg_requestId ts) \<subseteq> R))"

lemma targets_ok_set:
  "targets_ok s \<Longrightarrow> tg_requestId t = r \<Longrightarrow> targets_ok (s\<lparr>targets := jsmap_set r t (targets s)\<rparr>)"
  by (auto simp: targets_ok_def jsmap_wf_set set_jsmap_set)

lemma targets_ok_delete: "targets_ok s \<Longrightarrow> targets_ok (s\<lparr>targets := jsmap_delete r (targets s)\<rparr>)"
  by (auto simp: targets_ok_def jsmap_wf_delete set_jsmap_delete)

lemma checkLost_id: "checkLost cs now t = (t', b) \<Longrightarrow> tg_requestId t' = tg_requestId t \<and> tg_entryUrl t' = tg_entryUrl t"
  by (auto simp: checkLost_def split: option.splits if_splits)

lemma grouped_mono: "grouped byEntry R \<Longrightarrow> R \<subseteq> R' \<Longrightarrow> grouped byEntry R'"
  by (fastforce simp: grouped_def)

lemma grouped_Cons: "grouped byEntry (R \<union> set (map tg_requestId ts)) \<Longrightarrow> grouped byEntry (R \<union> set (map tg_requestId (t # ts)))"
  by (erule grouped_mono) auto

lemma grouped_add:
  assumes g: "grouped byEntry R" and t: "tg_requestId t \<notin> R"
  shows "grouped (jsmap_set u ((case jsmap_get byEntry u of None \<Rightarrow> [] | Some l \<Rightarrow> l) @ [t]) byEntry) (insert (tg_requestId t) R)"
proof -
  let ?l = "(case jsmap_get byEntry u of None \<Rightarrow> [] | Some l \<Rightarrow> l)"
  have wf: "jsmap_wf byEntry" using g by (simp add: grouped_def)
  have l: "distinct (map tg_requestId ?l)" "set (map tg_requestId ?l) \<subseteq> R"
  proof (atomize (full), cases "jsmap_get byEntry u")
    case (Some l)
    from jsmap_get_Some_in[OF this] show "distinct (map tg_requestId ?l) \<and> set (map tg_requestId ?l) \<subseteq> R"
      using g Some unfolding grouped_def by (auto dest!: bspec)
  qed simp
  have "distinct (map tg_requestId ts) \<and> set (map tg_requestId ts) \<subseteq> insert (tg_requestId t) R"
    if "(v, ts) \<in> set (jsmap_set u (?l @ [t]) byEntry)" for v ts
  proof (cases "v = u \<and> ts = ?l @ [t]")
    case True
    then show ?thesis using l t by auto
  next
    case False
    then have "(v, ts) \<in> set byEntry" using that unfolding set_jsmap_set[OF wf] by blast
    then show ?thesis using g unfolding grouped_def by (auto dest!: bspec)
  qed
  then show ?thesis using jsmap_wf_set[OF wf] by (auto simp: grouped_def)
qed

lemma tick_targets_inv:
  assumes "ents_inv cs (sched_entries s) pend" "targets_ok s" "grouped byEntry R"
    and "distinct (map tg_requestId ts)" "set (map tg_requestId ts) \<inter> R = {}"
    and "tick_targets cs h now ts s byEntry lost = (s', byEntry', lost')"
  shows "ents_inv cs (sched_entries s') pend \<and> targets_ok s' \<and> closed s' = closed s
    \<and> grouped byEntry' (R \<union> set (map tg_requestId ts))"
  using assms
proof (induction ts arbitrary: s byEntry lost R)
  case (Cons t ts)
  let ?r = "tg_requestId t"
  show ?case
  proof (cases "isPending h ?r")
    case False
    let ?s = "queueAcks cs (tg_entryUrl t) (initialIds t) (s\<lparr>targets := jsmap_delete ?r (targets s)\<rparr>)"
    have q: "ents_inv cs (sched_entries ?s) pend" "targets ?s = jsmap_delete ?r (targets s)" "closed ?s = closed s"
      using queueAcks_inv[of cs "s\<lparr>targets := jsmap_delete ?r (targets s)\<rparr>" pend] Cons.prems(1) by auto
    have ok: "targets_ok ?s" using targets_ok_delete[OF Cons.prems(2), of ?r] q(2) by (simp add: targets_ok_def)
    have "ents_inv cs (sched_entries s') pend \<and> targets_ok s' \<and> closed s' = closed ?s
        \<and> grouped byEntry' (R \<union> set (map tg_requestId ts))"
      using Cons.prems(4-6) False by (intro Cons.IH[OF q(1) ok Cons.prems(3)]) auto
    then show ?thesis using q(3) grouped_Cons[of byEntry' R ts t] by simp
  next
    case True
    obtain t' b where c: "checkLost cs now t = (t', b)" by fastforce
    have id: "tg_requestId t' = ?r" using checkLost_id[OF c] by simp
    let ?s = "s\<lparr>targets := jsmap_set ?r t' (targets s)\<rparr>"
    let ?lost = "if b then lost @ [?r] else lost"
    have ok: "ents_inv cs (sched_entries ?s) pend" "targets_ok ?s"
      using Cons.prems(1) targets_ok_set[OF Cons.prems(2) id] by simp_all
    show ?thesis
    proof (cases "skipEntry h (tg_entryUrl t)")
      case skip: True
      have "ents_inv cs (sched_entries s') pend \<and> targets_ok s' \<and> closed s' = closed ?s
          \<and> grouped byEntry' (R \<union> set (map tg_requestId ts))"
        using Cons.prems(4-6) True skip c by (intro Cons.IH[OF ok Cons.prems(3)]) auto
      then show ?thesis using grouped_Cons[of byEntry' R ts t] by simp
    next
      case skip: False
      have "?r \<notin> R" using Cons.prems(5) by auto
      then have g: "grouped (jsmap_set (tg_entryUrl t)
          ((case jsmap_get byEntry (tg_entryUrl t) of None \<Rightarrow> [] | Some l \<Rightarrow> l) @ [t']) byEntry) (insert ?r R)"
        using grouped_add[OF Cons.prems(3), of t' "tg_entryUrl t"] id by simp
      have "ents_inv cs (sched_entries s') pend \<and> targets_ok s' \<and> closed s' = closed ?s
          \<and> grouped byEntry' (insert ?r R \<union> set (map tg_requestId ts))"
        using Cons.prems(4-6) True skip c by (intro Cons.IH[OF ok g]) auto
      then show ?thesis by simp
    qed
  qed
qed simp

lemma claim_entries_inv:
  assumes "cs_ok cs" "host_ok h" "ents_inv cs (sched_entries s) pend" "\<forall>(u, ts) \<in> set byEntry. distinct (map tg_requestId ts)"
    and "claim_entries cs h now byEntry s = (s', ps)"
  shows "ents_inv cs (sched_entries s') (pend @ ps) \<and> targets s' = targets s \<and> closed s' = closed s"
  using assms(3-5)
proof (induction byEntry arbitrary: s pend ps)
  case (Cons e rest)
  obtain u ts where e: "e = (u, ts)" by (cases e)
  obtain s1 ps1 where c: "claimFrom cs h now u ts s = (s1, ps1)" by fastforce
  obtain ps2 where r: "claim_entries cs h now rest s1 = (s', ps2)" "ps = ps1 @ ps2"
    using Cons.prems(3) e c by (auto split: prod.splits)
  have i: "ents_inv cs (sched_entries s1) (pend @ ps1)" "targets s1 = targets s" "closed s1 = closed s"
    using claimFrom_inv[OF assms(1,2) Cons.prems(1) _ c] Cons.prems(2) e by auto
  show ?case using Cons.IH[OF i(1) _ r(1)] Cons.prems(2) i(2,3) r(2) by simp
qed simp

lemma flushAcks_inv:
  assumes "ents_inv cs (sched_entries s) pend" "flushAcks cs h now claimed us s = (s', ps)"
  shows "ents_inv cs (sched_entries s') (pend @ ps) \<and> targets s' = targets s \<and> closed s' = closed s"
  using assms
proof (induction us arbitrary: s pend ps)
  case (Cons u us)
  show ?case
  proof (cases "jsmap_get (sched_entries s) u")
    case None
    then show ?thesis using Cons by simp
  next
    case (Some st)
    show ?thesis
    proof (cases "acks st = [] \<or> v2 st \<noteq> Some True \<or> u \<in> set claimed \<or> claims st \<ge> snd (limits cs st)")
      case True
      then show ?thesis using Cons Some by (simp split: if_splits)
    next
      case False
      let ?b = "\<lparr>bt_ids = [], bt_requests = []\<rparr>"
      obtain st1 p where b: "beginClaim cs h now u ?b st = (st1, p)" by fastforce
      let ?s = "s\<lparr>sched_entries := jsmap_set u st1 (sched_entries s)\<rparr>"
      obtain qs where r: "flushAcks cs h now claimed us ?s = (s', qs)" "ps = p # qs"
        using Cons.prems(2) Some False b by (auto split: prod.splits)
      have "claims st < max_claims cs" using False limits_le[of cs st] by auto
      then have "entry_inv cs st1 (of_entry u pend @ [p])" "pc_entry p = u"
        using beginClaim_inv[OF ents_inv_get[OF Cons.prems(1) Some] _ _ _ b] by auto
      then have "ents_inv cs (sched_entries ?s) (pend @ [p])"
        using ents_inv_begin[OF Cons.prems(1), of st1 u "[p]"] by simp
      from Cons.IH[OF this r(1)] show ?thesis using r(2) by simp
    qed
  qed
qed simp

definition sched_inv :: "claim_settings \<Rightarrow> scheduler \<Rightarrow> pending_claim list \<Rightarrow> bool" where
  "sched_inv cs s pend = (targets_ok s \<and> (if closed s then sched_entries s = [] \<and> targets s = [] else ents_inv cs (sched_entries s) pend))"

lemma tick_inv:
  assumes cs: "cs_ok cs" "host_ok h" and inv: "sched_inv cs s pend" and run: "tick cs h now s = (s', ps, lost)"
  shows "sched_inv cs s' (pend @ ps)"
proof (cases "closed s")
  case True
  then show ?thesis using inv run by (simp add: tick_def sched_inv_def)
next
  case False
  then have i: "ents_inv cs (sched_entries s) pend" "targets_ok s" using inv by (auto simp: sched_inv_def)
  obtain s1 byEntry lost1 where t: "tick_targets cs h now (map snd (targets s)) s [] [] = (s1, byEntry, lost1)"
    by (metis prod_cases3)
  obtain s2 qs where c: "claim_entries cs h now byEntry s1 = (s2, qs)" by fastforce
  obtain s3 rs where f: "flushAcks cs h now (jsmap_keys byEntry) (jsmap_keys (sched_entries s2)) s2 = (s3, rs)" by fastforce
  have e: "map tg_requestId (map snd (targets s)) = map fst (targets s)"
    using i(2) by (auto simp: targets_ok_def comp_def)
  have d: "distinct (map tg_requestId (map snd (targets s)))"
    unfolding e using i(2) by (simp add: targets_ok_def jsmap_wf_def)
  have g: "grouped [] {}" by (simp add: grouped_def)
  from tick_targets_inv[OF i g d _ t]
  have s1: "ents_inv cs (sched_entries s1) pend" "targets_ok s1" "closed s1 = closed s"
      "\<forall>(u, ts) \<in> set byEntry. distinct (map tg_requestId ts)"
    by (auto simp: grouped_def)
  from claim_entries_inv[OF cs s1(1,4) c]
  have s2: "ents_inv cs (sched_entries s2) (pend @ qs)" "targets s2 = targets s1" "closed s2 = closed s1" by auto
  from flushAcks_inv[OF s2(1) f]
  have s3: "ents_inv cs (sched_entries s3) (pend @ qs @ rs)" "targets s3 = targets s2" "closed s3 = closed s2" by auto
  have "s' = s3 \<or> s' = s3\<lparr>timer_on := False\<rparr>" "ps = qs @ rs"
    using run False t c f by (auto simp: tick_def Let_def split: if_splits)
  then show ?thesis using s1 s2 s3 False by (auto simp: sched_inv_def targets_ok_def)
qed

subsection \<open>All interleavings\<close>

text \<open>
  The scheduler together with the claims in flight, under every order of the calls the client makes, the ticks of the timer and of the queued
  kick, the answers of probes, and the ends of claims. The host may answer differently at every tick.
\<close>

inductive sched_reach :: "claim_settings \<Rightarrow> scheduler \<times> pending_claim list \<Rightarrow> bool" for cs where
  init: "sched_reach cs (new_scheduler, [])"
| track: "sched_reach cs (s, pend) \<Longrightarrow> sched_reach cs (track now r u is wanted s, pend)"
| noteFragment: "sched_reach cs (s, pend) \<Longrightarrow> sched_reach cs (noteFragment r f s, pend)"
| close: "sched_reach cs (s, pend) \<Longrightarrow> sched_reach cs (close s, pend)"
| tick: "sched_reach cs (s, pend) \<Longrightarrow> host_ok h \<Longrightarrow> tick cs h now s = (s', ps, lost) \<Longrightarrow> sched_reach cs (s', pend @ ps)"
| kicked: "sched_reach cs (s, pend) \<Longrightarrow> host_ok h \<Longrightarrow> tick cs h now (s\<lparr>kickQueued := False\<rparr>) = (s', ps, lost) \<Longrightarrow>
     sched_reach cs (s', pend @ ps)"
| probed: "sched_reach cs (s, pend) \<Longrightarrow> jsmap_get (sched_entries s) u = Some st \<Longrightarrow>
     sched_reach cs (s\<lparr>sched_entries := jsmap_set u (probe_ok ms st) (sched_entries s)\<rparr>, pend)"
| probe_lost: "sched_reach cs (s, pend) \<Longrightarrow> jsmap_get (sched_entries s) u = Some st \<Longrightarrow>
     sched_reach cs (s\<lparr>sched_entries := jsmap_set u (probe_failed now st) (sched_entries s)\<rparr>, pend)"
| succeeded: "sched_reach cs (s, pend) \<Longrightarrow> p \<in> set pend \<Longrightarrow> sched_reach cs (claimSucceeded cs now p oc s, remove1 p pend)"
| failed: "sched_reach cs (s, pend) \<Longrightarrow> p \<in> set pend \<Longrightarrow> sched_reach cs (claimFailed now p s, remove1 p pend)"

lemma sched_inv_timer: "sched_inv cs (s\<lparr>timer_on := b, kickQueued := k\<rparr>) pend = sched_inv cs s pend"
  by (simp add: sched_inv_def targets_ok_def)

lemma sched_inv_new: "sched_inv cs new_scheduler []"
  by (simp add: sched_inv_def targets_ok_def ents_inv_def new_scheduler_def)

lemma start_kick_fields:
  "targets (kick (start_timer s)) = targets s" "sched_entries (kick (start_timer s)) = sched_entries s"
  "closed (kick (start_timer s)) = closed s" "targets (start_timer s) = targets s"
  "sched_entries (start_timer s) = sched_entries s" "closed (start_timer s) = closed s"
  by (simp_all add: kick_def start_timer_def)

lemma track_inv: "sched_inv cs s pend \<Longrightarrow> sched_inv cs (track now r u is wanted s) pend"
proof (cases "closed s")
  case False
  let ?t = "\<lparr>tg_requestId = r, tg_entryUrl = u, initialIds = is, sentAt = now, dataWanted = wanted,
         suspectSince = None, lostReported = False\<rparr>"
  let ?s = "s\<lparr>targets := jsmap_set r ?t (targets s)\<rparr>"
  assume inv: "sched_inv cs s pend"
  then have "targets_ok ?s" by (intro targets_ok_set) (simp_all add: sched_inv_def)
  then have "targets_ok (kick (start_timer ?s))" by (simp add: targets_ok_def start_kick_fields)
  then show ?thesis using inv False by (simp add: track_def sched_inv_def start_kick_fields)
qed (simp add: track_def)

lemma noteFragment_inv: "sched_inv cs s pend \<Longrightarrow> sched_inv cs (noteFragment r f s) pend"
proof (cases "jsmap_get (targets s) r")
  case (Some t)
  assume inv: "sched_inv cs s pend"
  have "tg_requestId t = r" using inv jsmap_get_Some_in[OF Some] by (auto simp: sched_inv_def targets_ok_def)
  then show ?thesis
    using inv Some targets_ok_set[of s _ r] by (auto simp: noteFragment_def Let_def sched_inv_def jsmap_get_def)
qed (simp add: noteFragment_def)

lemma close_inv: "sched_inv cs (close s) pend"
  by (simp add: close_def sched_inv_def targets_ok_def)

lemma probe_inv:
  assumes "sched_inv cs s pend" "jsmap_get (sched_entries s) u = Some st"
  shows "sched_inv cs (s\<lparr>sched_entries := jsmap_set u (probe_ok ms st) (sched_entries s)\<rparr>) pend"
    "sched_inv cs (s\<lparr>sched_entries := jsmap_set u (probe_failed now st) (sched_entries s)\<rparr>) pend"
proof -
  have nc: "\<not> closed s" using assms by (auto simp: sched_inv_def jsmap_get_def)
  have "ents_inv cs (jsmap_set u (probe_ok ms st) (sched_entries s)) pend"
       "ents_inv cs (jsmap_set u (probe_failed now st) (sched_entries s)) pend"
    using assms nc by (auto intro!: ents_inv_update simp: sched_inv_def probe_ok_def probe_failed_def Let_def)
  then show "sched_inv cs (s\<lparr>sched_entries := jsmap_set u (probe_ok ms st) (sched_entries s)\<rparr>) pend"
    "sched_inv cs (s\<lparr>sched_entries := jsmap_set u (probe_failed now st) (sched_entries s)\<rparr>) pend"
    using assms nc by (simp_all add: sched_inv_def targets_ok_def)
qed

lemma entry_of_pending:
  assumes "sched_inv cs s pend" "p \<in> set pend" "\<not> closed s"
  obtains st where "jsmap_get (sched_entries s) (pc_entry p) = Some st"
  using assms jsmap_get_None_iff[of "sched_entries s" "pc_entry p"]
  by (cases "jsmap_get (sched_entries s) (pc_entry p)") (auto simp: sched_inv_def ents_inv_def)

lemma closed_no_entry: "sched_inv cs s pend \<Longrightarrow> closed s \<Longrightarrow> jsmap_get (sched_entries s) u = None"
  by (simp add: sched_inv_def jsmap_get_def)

lemma claimSucceeded_inv:
  assumes inv: "sched_inv cs s pend" and p: "p \<in> set pend"
  shows "sched_inv cs (claimSucceeded cs now p oc s) (remove1 p pend)"
proof (cases "closed s")
  case True
  then show ?thesis using inv closed_no_entry[OF inv True] by (simp add: claimSucceeded_def sched_inv_def)
next
  case False
  obtain st where st: "jsmap_get (sched_entries s) (pc_entry p) = Some st" by (rule entry_of_pending[OF inv p False])
  define st1 where "st1 = (if oc_v2 oc \<noteq> None then st\<lparr>v2 := oc_v2 oc\<rparr> else st)"
  define st2 where "st2 = (if oc_waitMaxMs oc \<noteq> None then st1\<lparr>waitMaxMs := oc_waitMaxMs oc\<rparr> else st1)"
  define st3 where "st3 = release p (noteOutcome now oc p st2)"
  define s1 where "s1 = s\<lparr>sched_entries := jsmap_set (pc_entry p) st3 (sched_entries s)\<rparr>"
  have f: "inFlight st3 = inFlight (release p st)" "claims st3 = claims (release p st)"
      "waiting st3 = waiting (release p st)" "acks st3 = acks st"
    by (simp_all add: st3_def st2_def st1_def release_def noteOutcome_def)
  have E: "ents_inv cs (sched_entries s) pend" using inv False by (simp add: sched_inv_def)
  then have "distinct (acks st)" using ents_inv_get[OF E st] by (simp add: entry_inv_def)
  then have "ents_inv cs (sched_entries s1) (remove1 p pend)"
    using ents_inv_end[OF E p st _ _ f] by (simp add: s1_def)
  from queueAcks_inv[OF this]
  have q: "ents_inv cs (sched_entries (queueAcks cs (pc_entry p) r s1)) (remove1 p pend)"
      "targets (queueAcks cs (pc_entry p) r s1) = targets s" "closed (queueAcks cs (pc_entry p) r s1) = closed s" for r
    by (auto simp: s1_def)
  let ?q = "queueAcks cs (pc_entry p) (List.map_filter surbIdOfItem (oc_items oc)) s1"
  have "claimSucceeded cs now p oc s = ?q \<or> claimSucceeded cs now p oc s = start_timer ?q"
    using False unfolding claimSucceeded_def st option.case Let_def st1_def[symmetric] st2_def[symmetric] st3_def[symmetric]
      s1_def[symmetric] by (auto simp: s1_def split: option.splits)
  then show ?thesis using q inv False by (auto simp: sched_inv_def targets_ok_def start_kick_fields)
qed

lemma mark_suspect_ok: "targets_ok s \<Longrightarrow> targets_ok (s\<lparr>targets := mark_suspect now rs (targets s)\<rparr>)"
proof (induction rs arbitrary: s)
  case (Cons r rs)
  let ?m = "case jsmap_get (targets s) r of None \<Rightarrow> targets s
    | Some t \<Rightarrow> jsmap_set r (t\<lparr>suspectSince := (case suspectSince t of None \<Rightarrow> Some now | Some x \<Rightarrow> Some x)\<rparr>) (targets s)"
  have "targets_ok (s\<lparr>targets := ?m\<rparr>)"
  proof (cases "jsmap_get (targets s) r")
    case (Some t)
    have "tg_requestId t = r" using Cons.prems jsmap_get_Some_in[OF Some] by (auto simp: targets_ok_def)
    then show ?thesis unfolding Some option.case by (intro targets_ok_set[OF Cons.prems]) simp
  qed (use Cons.prems in \<open>simp add: targets_ok_def\<close>)
  from Cons.IH[OF this] show ?case by simp
qed simp

lemma claimFailed_inv:
  assumes inv: "sched_inv cs s pend" and p: "p \<in> set pend"
  shows "sched_inv cs (claimFailed now p s) (remove1 p pend)"
proof (cases "closed s")
  case True
  have "mark_suspect now rs [] = []" for rs by (induction rs) (simp_all add: jsmap_get_def)
  then show ?thesis
    using inv closed_no_entry[OF inv True] True by (simp add: claimFailed_def sched_inv_def targets_ok_def)
next
  case False
  obtain st where st: "jsmap_get (sched_entries s) (pc_entry p) = Some st" by (rule entry_of_pending[OF inv p False])
  let ?a = "fold set_add (pc_acks p) (acks st)"
  let ?st = "release p (st\<lparr>acks := ?a\<rparr>)"
  have E: "ents_inv cs (sched_entries s) pend" using inv False by (simp add: sched_inv_def)
  have "distinct ?a" using ents_inv_get[OF E st] by (simp add: entry_inv_def distinct_fold_add)
  moreover have "length ?a \<le> length (acks st) + length (pc_acks p)" by (rule length_fold_add)
  ultimately have "ents_inv cs (jsmap_set (pc_entry p) ?st (sched_entries s)) (remove1 p pend)"
    by (intro ents_inv_end[OF E p st]) (simp_all add: release_def)
  moreover have "targets_ok (s\<lparr>targets := mark_suspect now (pc_requests p) (targets s)\<rparr>)"
    using inv by (intro mark_suspect_ok) (simp add: sched_inv_def)
  ultimately show ?thesis using False by (simp add: claimFailed_def st sched_inv_def targets_ok_def)
qed

lemma sched_reach_inv:
  assumes cs: "cs_ok cs" and "sched_reach cs (s, pend)"
  shows "sched_inv cs s pend"
  using assms(2)
proof (induction "(s, pend)" arbitrary: s pend)
  case (kicked s pend h now s' ps lost)
  have "sched_inv cs (s\<lparr>kickQueued := False\<rparr>) pend" using kicked(2) by (simp add: sched_inv_def targets_ok_def)
  then show ?case by (rule tick_inv[OF cs kicked(3) _ kicked(4)])
qed (use cs in \<open>simp_all add: sched_inv_new track_inv noteFragment_inv close_inv tick_inv probe_inv claimSucceeded_inv claimFailed_inv\<close>)

text \<open>
  C4. Claims never overlap and stay within their limits. In every state the scheduler can reach, under any interleaving of calls, timer
  ticks, probe answers and ends of claims and for any behaviour of the host and of the entries: no identifier is in two
  claims to one entry, or twice in one claim; the scheduler's book of identifiers in flight is exactly the union of the claims in
  flight; an entry never has more claims in flight than the larger of the two limits, nor more than
  \<open>max 1 (limit - 1)\<close> that long-poll; and an entry's queue of acknowledgements never exceeds 512 plus 128 per possible claim.
\<close>

theorem claims_never_overlap:
  assumes "cs_ok cs" "sched_reach cs (s, pend)" "jsmap_get (sched_entries s) u = Some st"
  shows "distinct (concat (map pc_ids (of_entry u pend)))
    \<and> set (inFlight st) = set (concat (map pc_ids (of_entry u pend)))
    \<and> int (length (of_entry u pend)) = claims st \<and> claims st \<le> max_claims cs
    \<and> int (length (filter (\<lambda>p. pc_waitMs p > 0) (of_entry u pend))) = waiting st \<and> waiting st \<le> max 1 (max_claims cs - 1)
    \<and> distinct (acks st) \<and> int (length (acks st)) \<le> 512 + 128 * max_claims cs"
proof -
  have inv: "sched_inv cs s pend" by (rule sched_reach_inv[OF assms(1,2)])
  have "\<not> closed s" using closed_no_entry[OF inv] assms(3) by fastforce
  then have "ents_inv cs (sched_entries s) pend" using inv by (simp add: sched_inv_def)
  from ents_inv_get[OF this assms(3)] show ?thesis by (auto simp: entry_inv_def)
qed

definition sample_host :: host where
  "sample_host = \<lparr>activeIds = (\<lambda>r. if r = 1 then [''a'', ''b''] else []), isPending = (\<lambda>_. True),
     skipEntry = (\<lambda>_. False), has_probe = False\<rparr>"

definition sample_settings :: claim_settings where
  "sample_settings = as_claim_settings REPLY_CLAIM_DEFAULTS"

definition sample_tick :: "scheduler \<times> pending_claim list \<times> int list" where
  "sample_tick = tick sample_settings sample_host 3000 (track 0 1 ''u'' [''a'', ''b''] 1 new_scheduler)"

lemma sample_host_ok: "host_ok sample_host"
  unfolding host_ok_def by unfold_locales (auto simp: sample_host_def)

lemma sample_tick_state:
  "map_option claims (jsmap_get (sched_entries (fst sample_tick)) ''u'') = Some 2"
  "map pc_ids (fst (snd sample_tick)) = [[''a''], [''b'']]" "map pc_entry (fst (snd sample_tick)) = [''u'', ''u'']"
  by code_simp+

theorem claims_never_overlap_witness:
  "\<exists>st. jsmap_get (sched_entries (fst sample_tick)) ''u'' = Some st \<and> claims st = 2
     \<and> int (length (of_entry ''u'' (fst (snd sample_tick)))) = claims st \<and> set (inFlight st) = {''a'', ''b''}"
proof -
  obtain st where st: "jsmap_get (sched_entries (fst sample_tick)) ''u'' = Some st" "claims st = 2"
    using sample_tick_state(1) by auto
  have "cs_ok sample_settings" by code_simp
  moreover have "sched_reach sample_settings (fst sample_tick, [] @ fst (snd sample_tick))"
    by (rule sched_reach.tick[OF sched_reach.track[OF sched_reach.init] sample_host_ok, where lost = "snd (snd sample_tick)"])
      (simp add: sample_tick_def)
  ultimately have *: "set (inFlight st) = set (concat (map pc_ids (of_entry ''u'' (fst (snd sample_tick)))))
      \<and> int (length (of_entry ''u'' (fst (snd sample_tick)))) = claims st"
    using claims_never_overlap[OF _ _ st(1), of sample_settings "fst (snd sample_tick)"] by simp
  have "list_all (\<lambda>p. pc_entry p = ''u'') (fst (snd sample_tick))"
    using sample_tick_state(3) by (auto simp: list_all_iff map_eq_Cons_conv)
  then have "of_entry ''u'' (fst (snd sample_tick)) = fst (snd sample_tick)" by (rule of_entry_same)
  then show ?thesis using st * sample_tick_state(2) by auto
qed

end
