(* ===== verification/Claim_Progress.thy ===== *)
theory Claim_Progress
  imports Claim_Safety
begin

section \<open>What the claim scheduler claims and reports\<close>

text \<open>
  Settings that pass validation meet the assumptions of the safety proof; the claims a pass starts for an entry are, in order, as many of
  the wanted identifiers as its free capacity allows; lost replies are reported exactly once and not before their grace has passed.
\<close>

subsection \<open>Settings\<close>

definition claim_ok :: "string \<Rightarrow> setting \<Rightarrow> bool" where
  "claim_ok k x = (if k \<in> {''binary'', ''retain'', ''firstArrival''} then (case x of SBool _ \<Rightarrow> True | SNum _ \<Rightarrow> False)
     else (case x of SNum n \<Rightarrow> isSafeInteger n \<and> claim_min k \<le> n | SBool _ \<Rightarrow> False))"

interpretation claim_check: settings_check check_claims "map fst REPLY_CLAIM_DEFAULTS" claim_ok
proof
  fix k v x assume c: "check_claims k v = Inr (Some x)"
  then have "js_in k REPLY_CLAIM_DEFAULTS" by (auto simp: check_claims_def split: if_splits)
  then show "k \<in> set (map fst REPLY_CLAIM_DEFAULTS) \<union> set object_prototype \<and> claim_ok k x"
    using c unfolding js_in_iff
    by (auto simp: check_claims_def claim_ok_def js_assign_def split: js_value.splits if_splits)
next
  fix k v e assume "check_claims k v = Inl e"
  then show "\<exists>m. e = NoxClientError InvalidConfig m"
    by (auto simp: check_claims_def split: js_value.splits if_splits)
next
  fix k v assume "k \<notin> set (map fst REPLY_CLAIM_DEFAULTS) \<union> set object_prototype"
  then show "\<exists>e. check_claims k v = Inl e" by (simp add: check_claims_def js_in_iff)
qed

lemma defaults_valid: "claim_check.valid REPLY_CLAIM_DEFAULTS" "claim_check.valid CLASSIC_REPLY_CLAIM_DEFAULTS"
  unfolding claim_check.valid_def
  by (simp_all add: claim_ok_def claim_min_def REPLY_CLAIM_DEFAULTS_def CLASSIC_REPLY_CLAIM_DEFAULTS_def jsmap_wf_def isSafeInteger_def)

lemma valid_num:
  assumes "claim_check.valid m" "k \<in> set (map fst REPLY_CLAIM_DEFAULTS)" "k \<notin> {''binary'', ''retain'', ''firstArrival'', ''waitMs''}"
  shows "1 \<le> num_setting m k"
proof -
  have "k \<in> set (jsmap_keys m)" using assms(1,2) unfolding claim_check.valid_def by auto
  then obtain x where x: "jsmap_get m k = Some x" using jsmap_get_None_iff[of m k] by fastforce
  then have "claim_ok k x"
    using assms(1) jsmap_get_Some_in[OF x] unfolding claim_check.valid_def by (auto simp: list_all_iff)
  then show ?thesis using x assms(3) by (auto simp: num_setting_def claim_ok_def claim_min_def split: setting.splits)
qed

lemma resolved_cs_ok:
  assumes "base = REPLY_CLAIM_DEFAULTS \<or> base = CLASSIC_REPLY_CLAIM_DEFAULTS" "resolveReplyClaimSettings overrides base = Inr m"
  shows "cs_ok (as_claim_settings m)"
proof -
  have "claim_check.valid m"
    using assms defaults_valid claim_check.resolve_valid[of base] by (auto simp: resolveReplyClaimSettings_def)
  then show ?thesis by (simp add: cs_ok_def as_claim_settings_def valid_num REPLY_CLAIM_DEFAULTS_def)
qed

subsection \<open>Batches\<close>

lemma fill_batches_exact:
  assumes "list_all (\<lambda>b. length (bt_ids b) = m) batches" "length batches < f" "0 < m" "length (bt_ids cur) \<le> m"
  shows "concat (map bt_ids (fill_batches (int m) (int f) xs batches cur)) =
      take (f * m) (concat (map bt_ids batches) @ bt_ids cur @ map fst xs)
    \<and> (\<forall>b \<in> set (fill_batches (int m) (int f) xs batches cur). length (bt_ids b) \<le> m)"
  using assms
proof (induction "int m" "int f" xs batches cur rule: fill_batches.induct)
  case (1 batches cur)
  have c: "length (concat (map bt_ids batches)) = length batches * m"
    using 1(1) by (induction batches) auto
  have "Suc (length batches) * m \<le> f * m" using 1(2) by (intro mult_le_mono1) simp
  then have "length (concat (map bt_ids batches) @ bt_ids cur) \<le> f * m" using c 1(4) by simp
  then show ?case using 1 by (auto simp: list_all_iff)
next
  case (2 i r rest batches cur)
  have c: "length (concat (map bt_ids batches)) = length batches * m"
    using 2(3) by (induction batches) auto
  show ?case
  proof (cases "length (bt_ids cur) \<ge> m")
    case True
    then have full: "length (bt_ids cur) = m" using 2(6) by simp
    show ?thesis
    proof (cases "Suc (length batches) \<ge> f")
      case last: True
      then have "f = Suc (length batches)" using 2(4) by simp
      then have "length (concat (map bt_ids batches) @ bt_ids cur) = f * m" using c full by simp
      then have "take (f * m) ((concat (map bt_ids batches) @ bt_ids cur) @ map fst ((i, r) # rest))
          = concat (map bt_ids batches) @ bt_ids cur" by (metis append_eq_conv_conj)
      then show ?thesis using True last full 2(3) by (simp add: Let_def list_all_iff)
    next
      case False
      then show ?thesis using 2(1)[OF _ refl] 2(3-6) True full by (simp add: Let_def)
    qed
  next
    case False
    then show ?thesis using 2(2) 2(3-6) by simp
  qed
qed

subsection \<open>What one pass claims from an entry\<close>

lemma begin_all_ids: "map pc_ids (snd (begin_all cs h now u bs st)) = map bt_ids bs"
  by (induction bs arbitrary: st) (auto simp: beginClaim_def Let_def split_beta)

lemma begin_all_entries: "p \<in> set (snd (begin_all cs h now u bs st)) \<Longrightarrow> pc_entry p = u"
  by (induction bs arbitrary: st) (auto simp: beginClaim_def Let_def split_beta)

lemma wantedIds_cursor: "wantedIds cs h now (st\<lparr>cursor := c\<rparr>) = wantedIds cs h now st"
proof -
  have "waitFor cs h True (st\<lparr>cursor := c\<rparr>) = waitFor cs h True st" by (simp add: waitFor_def split: option.splits)
  then show ?thesis by (auto simp: wantedIds_def firstArrivalFront_def Let_def)
qed

lemma rotated: "drop (n mod length xs) xs @ take (n mod length xs) xs = rotate n xs"
  by (simp add: rotate_drop_take)

text \<open>
  Claims are complete up to the capacity. With \<open>free\<close> claims left at an entry and \<open>maxIds\<close> identifiers per claim, a pass claims exactly
  the first \<open>free * maxIds\<close> of the wanted identifiers of the requests at that entry, in the order of sending rotated by the
  entry's cursor: none is skipped, repeated or reordered, every claim goes to that entry with at most
  \<open>maxIds\<close> identifiers, and with no free claim nothing is claimed.
\<close>

theorem claimFrom_exact:
  assumes "cs_ok cs" "claimFrom cs h now u ts s = (s', ps)"
    and "st = reprobe cs h now (entryState cs h u s)" "limits cs st = (maxIds, maxClaims)"
  shows "concat (map pc_ids ps) =
      take (nat (maxClaims - claims st) * nat maxIds)
        (concat (map (wantedIds cs h now st) (rotate (cursor st) (sort_key sentAt ts))))
    \<and> (\<forall>p \<in> set ps. pc_entry p = u \<and> length (pc_ids p) \<le> nat maxIds)"
proof (cases "maxClaims - claims st \<le> 0")
  case True
  then show ?thesis using assms(2) by (simp add: claimFrom_def assms(3)[symmetric] assms(4) Let_def)
next
  case False
  define w where "w = concat (map (\<lambda>t. map (\<lambda>i. (i, tg_requestId t)) (wantedIds cs h now st t)) (rotate (cursor st) (sort_key sentAt ts)))"
  define bs where "bs = fill_batches maxIds (maxClaims - claims st) w [] \<lparr>bt_ids = [], bt_requests = []\<rparr>"
  define st1 where "st1 = st\<lparr>cursor := (cursor st mod length ts + 1) mod max 1 (length ts)\<rparr>"
  have "claimFrom cs h now u ts s = (s\<lparr>sched_entries := jsmap_set u (fst (begin_all cs h now u bs st1)) (sched_entries s)\<rparr>,
      snd (begin_all cs h now u bs st1))"
    using False unfolding claimFrom_def assms(3)[symmetric] assms(4) Let_def prod.case rotated wantedIds_cursor
    by (simp add: w_def bs_def st1_def split_beta)
  then have "ps = snd (begin_all cs h now u bs st1)" using assms(2) by simp
  then have ps: "map pc_ids ps = map bt_ids bs" "\<forall>p \<in> set ps. pc_entry p = u"
    by (simp_all add: begin_all_ids begin_all_entries)
  have m: "1 \<le> maxIds" using assms(1,4) by (auto simp: limits_def cs_ok_def split: if_splits)
  have fst_w: "map fst w = concat (map (wantedIds cs h now st) (rotate (cursor st) (sort_key sentAt ts)))"
    by (simp add: w_def map_concat comp_def)
  have "concat (map bt_ids bs) = take (nat (maxClaims - claims st) * nat maxIds) (map fst w)
      \<and> (\<forall>b \<in> set bs. length (bt_ids b) \<le> nat maxIds)"
    using fill_batches_exact[of "nat maxIds" "[]" "nat (maxClaims - claims st)" "\<lparr>bt_ids = [], bt_requests = []\<rparr>" w] m False
    by (simp add: bs_def)
  moreover have "length (pc_ids p) \<le> nat maxIds" if "p \<in> set ps" "\<forall>b \<in> set bs. length (bt_ids b) \<le> nat maxIds" for p
  proof -
    have "pc_ids p \<in> set (map bt_ids bs)" using that(1) ps(1) by (metis image_eqI set_map)
    then show ?thesis using that(2) by auto
  qed
  ultimately show ?thesis using ps fst_w by simp
qed

definition sample_target :: "int \<Rightarrow> int \<Rightarrow> string list \<Rightarrow> target" where
  "sample_target r sent is = \<lparr>tg_requestId = r, tg_entryUrl = ''u'', initialIds = is, sentAt = sent, dataWanted = 1,
     suspectSince = None, lostReported = False\<rparr>"

theorem claimFrom_exact_witness:
  "concat (map pc_ids (snd (claimFrom sample_settings sample_host 3000 ''u'' [sample_target 1 0 [''a'', ''b'']] new_scheduler)))
     = [''a'', ''b'']"
proof -
  let ?st = "reprobe sample_settings sample_host 3000 (entryState sample_settings sample_host ''u'' new_scheduler)"
  have c: "cs_ok sample_settings" by code_simp
  have l: "limits sample_settings ?st = (1, 2)" by code_simp
  have "take (nat (2 - claims ?st) * nat 1) (concat (map (wantedIds sample_settings sample_host 3000 ?st)
      (rotate (cursor ?st) (sort_key sentAt [sample_target 1 0 [''a'', ''b'']])))) = [''a'', ''b'']" by code_simp
  then show ?thesis using claimFrom_exact[OF c prod.collapse[symmetric] refl l] by simp
qed

subsection \<open>Lost replies\<close>

definition loss_due :: "claim_settings \<Rightarrow> int \<Rightarrow> target \<Rightarrow> bool" where
  "loss_due cs now t = (\<not> lostReported t \<and> (case suspectSince t of None \<Rightarrow> False | Some since \<Rightarrow> lostReplyGraceMs cs \<le> now - since))"

lemma checkLost_due: "checkLost cs now t = (if loss_due cs now t then t\<lparr>lostReported := True\<rparr> else t, loss_due cs now t)"
  by (auto simp: checkLost_def loss_due_def split: option.splits)

lemma jsmap_set_middle: "k \<notin> set (jsmap_keys xs) \<Longrightarrow> jsmap_set k v (xs @ (k, v') # ys) = xs @ (k, v) # ys"
  by (induction xs) auto

lemma jsmap_delete_middle:
  "jsmap_wf (xs @ (k, v) # ys) \<Longrightarrow> jsmap_delete k (xs @ (k, v) # ys) = xs @ ys"
  using jsmap_delete_absent[of k xs] jsmap_delete_absent[of k ys] by (auto simp: jsmap_delete_def jsmap_wf_def)

definition keyed :: "target list \<Rightarrow> (int, target) jsmap" where
  "keyed ts = map (\<lambda>t. (tg_requestId t, t)) ts"

lemma keyed_simps [simp]: "keyed [] = []" "keyed (t # ts) = (tg_requestId t, t) # keyed ts"
  by (simp_all add: keyed_def)

lemma queueAcks_targets: "targets (queueAcks cs u is s) = targets s"
  by (simp add: queueAcks_def split: option.splits)

lemma tick_targets_lost:
  assumes "targets s = xs @ keyed ts" "jsmap_wf (targets s)"
    and "tick_targets cs h now ts s byEntry lost = (s', byEntry', lost')"
  shows "lost' = lost @ map tg_requestId (filter (\<lambda>t. isPending h (tg_requestId t) \<and> loss_due cs now t) ts)
    \<and> targets s' = xs @ keyed (map (\<lambda>t. fst (checkLost cs now t)) (filter (\<lambda>t. isPending h (tg_requestId t)) ts))"
  using assms
proof (induction ts arbitrary: s xs byEntry lost)
  case (Cons t ts)
  let ?r = "tg_requestId t"
  have wf: "jsmap_wf (xs @ (?r, t) # keyed ts)" using Cons.prems(1,2) by simp
  show ?case
  proof (cases "isPending h ?r")
    case False
    let ?s = "queueAcks cs (tg_entryUrl t) (initialIds t) (s\<lparr>targets := jsmap_delete ?r (targets s)\<rparr>)"
    have d: "targets ?s = xs @ keyed ts" using Cons.prems(1) jsmap_delete_middle[OF wf] by (simp add: queueAcks_targets)
    have "jsmap_wf (targets ?s)" using wf unfolding d by (auto simp: jsmap_wf_def)
    from Cons.IH[OF d this] show ?thesis using Cons.prems(3) False by simp
  next
    case True
    define t' where "t' = fst (checkLost cs now t)"
    have c: "checkLost cs now t = (t', loss_due cs now t)" by (simp add: t'_def checkLost_due)
    have id: "tg_requestId t' = ?r" using checkLost_id[OF c] by simp
    let ?s = "s\<lparr>targets := jsmap_set ?r t' (targets s)\<rparr>"
    have d: "targets ?s = (xs @ [(?r, t')]) @ keyed ts"
      using Cons.prems(1) wf jsmap_set_middle[of ?r xs t' t "keyed ts"] by (auto simp: jsmap_wf_def)
    have "jsmap_wf (targets ?s)" using wf unfolding d by (simp add: jsmap_wf_def)
    note IH = Cons.IH[OF d this]
    let ?l = "if loss_due cs now t then lost @ [?r] else lost"
    show ?thesis
    proof (cases "skipEntry h (tg_entryUrl t)")
      case skip: True
      then show ?thesis using Cons.prems(3) True IH[of byEntry ?l] c by (simp add: id t'_def[symmetric] split: if_splits)
    next
      case skip: False
      then show ?thesis using Cons.prems(3) True c
          IH[of "jsmap_set (tg_entryUrl t) ((case jsmap_get byEntry (tg_entryUrl t) of None \<Rightarrow> [] | Some l \<Rightarrow> l) @ [t']) byEntry" ?l]
        by (simp add: id t'_def[symmetric] split: if_splits)
    qed
  qed
qed simp

lemma claimFrom_targets: "targets (fst (claimFrom cs h now u ts s)) = targets s"
  by (simp add: claimFrom_def Let_def split: prod.splits)

lemma claim_entries_targets: "targets (fst (claim_entries cs h now es s)) = targets s"
proof (induction es arbitrary: s)
  case (Cons e es)
  obtain u ts where "e = (u, ts)" by (cases e)
  then show ?case using Cons[of "fst (claimFrom cs h now u ts s)"] claimFrom_targets[of cs h now u ts s]
    by (simp add: Let_def split_beta)
qed simp

lemma flushAcks_targets: "targets (fst (flushAcks cs h now claimed us s)) = targets s"
  by (induction us arbitrary: s) (auto simp: Let_def split_beta split: option.splits)

lemma keys_filter_map: "map fst (map (\<lambda>(k, v). (k, f v)) (filter (\<lambda>(k, v). P k) m)) = filter P (map fst m)"
  by (induction m) auto

lemma tick_lost:
  assumes ok: "targets_ok s" and "\<not> closed s" and run: "tick cs h now s = (s', ps, lost)"
  shows "lost = map fst (filter (\<lambda>(r, t). isPending h r \<and> loss_due cs now t) (targets s))
    \<and> targets s' = map (\<lambda>(r, t). (r, if loss_due cs now t then t\<lparr>lostReported := True\<rparr> else t)) (filter (\<lambda>(r, t). isPending h r) (targets s))"
proof -
  have k: "targets s = keyed (map snd (targets s))"
    using ok by (auto simp: targets_ok_def keyed_def intro!: map_idI[symmetric])
  obtain s1 byEntry lost1 where t: "tick_targets cs h now (map snd (targets s)) s [] [] = (s1, byEntry, lost1)"
    by (metis prod_cases3)
  obtain s2 qs where c: "claim_entries cs h now byEntry s1 = (s2, qs)" by fastforce
  obtain s3 rs where f: "flushAcks cs h now (jsmap_keys byEntry) (jsmap_keys (sched_entries s2)) s2 = (s3, rs)" by fastforce
  have "targets s3 = targets s1"
    using claim_entries_targets[of cs h now byEntry s1] c
      flushAcks_targets[of cs h now "jsmap_keys byEntry" "jsmap_keys (sched_entries s2)" s2] f by simp
  moreover have "targets s' = targets s3" "lost = lost1"
    using run assms(2) t c f by (auto simp: tick_def Let_def split: if_splits)
  moreover have "lost1 = map tg_requestId (filter (\<lambda>t. isPending h (tg_requestId t) \<and> loss_due cs now t) (map snd (targets s)))
    \<and> targets s1 = keyed (map (\<lambda>t. fst (checkLost cs now t)) (filter (\<lambda>t. isPending h (tg_requestId t)) (map snd (targets s))))"
    using tick_targets_lost[OF _ _ t, of "[]"] k ok by (simp add: targets_ok_def)
  moreover have "map tg_requestId (filter (\<lambda>t. isPending h (tg_requestId t) \<and> loss_due cs now t) (map snd m))
        = map fst (filter (\<lambda>(r, t). isPending h r \<and> loss_due cs now t) m)"
      "keyed (map (\<lambda>t. fst (checkLost cs now t)) (filter (\<lambda>t. isPending h (tg_requestId t)) (map snd m)))
        = map (\<lambda>(r, t). (r, if loss_due cs now t then t\<lparr>lostReported := True\<rparr> else t)) (filter (\<lambda>(r, t). isPending h r) m)"
    if "\<forall>(r, t) \<in> set m. tg_requestId t = r" for m
    using that by (induction m) (auto simp: checkLost_due)
  ultimately show ?thesis using ok by (simp add: targets_ok_def)
qed

text \<open>
  C5. A lost reply is reported exactly when it is due, and once. A pass over a reachable scheduler reports, in the order of tracking, exactly the
  requests that are still pending, whose reply has been suspect for the grace period and that were not reported before; it keeps exactly the
  targets that are pending; and a later pass over the resulting targets, whatever its time and the host's answers,
  reports none of them again.
\<close>

theorem lost_replies_reported_once:
  assumes "cs_ok cs" "sched_reach cs (s, pend)" "tick cs h now s = (s', ps, lost)"
    and "host_ok h" "targets s'' = targets s'" "tick cs h' now' s'' = (s3, ps', lost')"
  shows "lost = map fst (filter (\<lambda>(r, t). isPending h r \<and> loss_due cs now t) (targets s))
    \<and> map fst (targets s') = filter (isPending h) (map fst (targets s))
    \<and> set lost \<inter> set lost' = {}"
proof -
  have inv: "sched_inv cs s pend" by (rule sched_reach_inv[OF assms(1,2)])
  have ok': "targets_ok s''" using tick_inv[OF assms(1,4) inv assms(3)] assms(5) by (simp add: sched_inv_def targets_ok_def)
  have ok: "targets_ok s" using inv by (simp add: sched_inv_def)
  show ?thesis
  proof (cases "closed s")
    case True
    then have "targets s = []" "lost = []" "s' = s" using inv assms(3) by (auto simp: sched_inv_def tick_def)
    then show ?thesis by simp
  next
    case False
    from tick_lost[OF ok False assms(3)]
    have l: "lost = map fst (filter (\<lambda>(r, t). isPending h r \<and> loss_due cs now t) (targets s))"
      and t: "targets s' = map (\<lambda>(r, t). (r, if loss_due cs now t then t\<lparr>lostReported := True\<rparr> else t))
        (filter (\<lambda>(r, t). isPending h r) (targets s))" by auto
    have "r \<notin> set lost'" if r: "r \<in> set lost" for r
    proof
      assume r': "r \<in> set lost'"
      have nc: "\<not> closed s''" using assms(6) r' by (auto simp: tick_def split: if_splits)
      obtain t1 where t1: "(r, t1) \<in> set (targets s)" "isPending h r" "loss_due cs now t1" using r l by auto
      obtain t2 where t2: "(r, t2) \<in> set (targets s'')" "loss_due cs now' t2" using r' tick_lost[OF ok' nc assms(6)] by auto
      have "(r, t1\<lparr>lostReported := True\<rparr>) \<in> set (targets s'')" using t1 unfolding assms(5) t by force
      then have "t2 = t1\<lparr>lostReported := True\<rparr>" using t2(1) ok' unfolding targets_ok_def jsmap_wf_def by (metis eq_key_imp_eq_value)
      then show False using t2(2) by (simp add: loss_due_def)
    qed
    moreover have "map fst (targets s') = filter (isPending h) (map fst (targets s))"
      unfolding t by (rule keys_filter_map)
    ultimately show ?thesis using l by blast
  qed
qed

text \<open>A claim fails at time 3500; the loss is reported at 6000 and not again.\<close>

definition sample_failed :: scheduler where
  "sample_failed = claimFailed 3500 (hd (fst (snd sample_tick))) (fst sample_tick)"

definition sample_lost :: "scheduler \<times> pending_claim list \<times> int list" where
  "sample_lost = tick sample_settings sample_host 6000 sample_failed"

definition sample_later :: "scheduler \<times> pending_claim list \<times> int list" where
  "sample_later = tick sample_settings sample_host 9000 (fst sample_lost)"

lemma sample_tick_reach: "sched_reach sample_settings (fst sample_tick, fst (snd sample_tick))"
proof -
  have "sched_reach sample_settings (fst sample_tick, [] @ fst (snd sample_tick))"
    by (rule sched_reach.tick[OF sched_reach.track[OF sched_reach.init] sample_host_ok, where lost = "snd (snd sample_tick)"])
      (simp add: sample_tick_def)
  then show ?thesis by simp
qed

theorem lost_replies_reported_once_witness:
  "snd (snd sample_lost) = [1] \<and> map fst (targets (fst sample_lost)) = [1] \<and> set (snd (snd sample_lost)) \<inter> set (snd (snd sample_later)) = {}"
proof -
  have c: "cs_ok sample_settings" by code_simp
  have ne: "hd (fst (snd sample_tick)) \<in> set (fst (snd sample_tick))"
    using sample_tick_state(2) by (cases "fst (snd sample_tick)") auto
  have r: "sched_reach sample_settings (sample_failed, remove1 (hd (fst (snd sample_tick))) (fst (snd sample_tick)))"
    unfolding sample_failed_def by (rule sched_reach.failed[OF sample_tick_reach ne])
  have e: "snd (snd sample_lost) = [1]" "map fst (targets sample_failed) = [1]" by code_simp+
  have "tick sample_settings sample_host 6000 sample_failed = (fst sample_lost, fst (snd sample_lost), snd (snd sample_lost))"
    "tick sample_settings sample_host 9000 (fst sample_lost) = (fst sample_later, fst (snd sample_later), snd (snd sample_later))"
    by (simp_all add: sample_lost_def sample_later_def)
  note once = lost_replies_reported_once[OF c r this(1) sample_host_ok refl this(2)]
  have "map fst (targets (fst sample_lost)) = [1]" using once e(2) by (simp add: sample_host_def)
  moreover have "set (snd (snd sample_lost)) \<inter> set (snd (snd sample_later)) = {}"
    using once by blast
  ultimately show ?thesis using e(1) by blast
qed

end
