(* ===== verification/Js_Json.thy ===== *)
theory Js_Json
  imports Js_Settings
begin

section \<open>Values of unknown type\<close>

text \<open>
  What \<open>JSON.parse\<close> and \<open>response.json()\<close> can return, and the tests the code makes on such values
  (\<open>typeof\<close>, \<open>Array.isArray\<close>, \<open>Number.isSafeInteger\<close>, the regular expressions). \<open>JsUndef\<close> is a
  missing property; \<open>JsFloat\<close> is a number that is not an integer.
\<close>

datatype json =
    JsUndef
  | JsNull
  | JsBool bool
  | JsInt int
  | JsFloat
  | JsStr string
  | JsArr "json list"
  | JsObj "(string \<times> json) list"

definition json_field :: "json \<Rightarrow> string \<Rightarrow> json" where
  "json_field v k = (case v of
     JsObj fs \<Rightarrow> (case jsmap_get fs k of None \<Rightarrow> JsUndef | Some x \<Rightarrow> x)
   | _ \<Rightarrow> JsUndef)"

text \<open>\<open>typeof value === "object" && value !== null\<close>, which an array satisfies too.\<close>

definition isRecord :: "json \<Rightarrow> bool" where
  "isRecord v = (case v of JsObj _ \<Rightarrow> True | JsArr _ \<Rightarrow> True | _ \<Rightarrow> False)"

definition is_natural :: "json \<Rightarrow> bool" where
  "is_natural v = (case v of JsInt n \<Rightarrow> isSafeInteger n \<and> n \<ge> 0 | _ \<Rightarrow> False)"

definition str_matches :: "(string \<Rightarrow> bool) \<Rightarrow> json \<Rightarrow> bool" where
  "str_matches P v = (case v of JsStr s \<Rightarrow> P s | _ \<Rightarrow> False)"

definition is_bool :: "json \<Rightarrow> bool" where
  "is_bool v = (case v of JsBool _ \<Rightarrow> True | _ \<Rightarrow> False)"

definition arr_matches :: "(json \<Rightarrow> bool) \<Rightarrow> json \<Rightarrow> bool" where
  "arr_matches P v = (case v of JsArr xs \<Rightarrow> list_all P xs | _ \<Rightarrow> False)"

definition is_digit :: "char \<Rightarrow> bool" where
  "is_digit c = (48 \<le> (of_char c :: nat) \<and> (of_char c :: nat) \<le> 57)"

text \<open>The value of a decimal numeral.\<close>

fun nat_of_digits :: "string \<Rightarrow> nat \<Rightarrow> nat" where
  "nat_of_digits [] acc = acc"
| "nat_of_digits (c # s) acc = nat_of_digits s (10 * acc + (of_char c - 48))"

text \<open>The cast of a value that passed the test.\<close>

definition as_str :: "json \<Rightarrow> string" where
  "as_str v = (case v of JsStr s \<Rightarrow> s | _ \<Rightarrow> [])"

definition as_int :: "json \<Rightarrow> int" where
  "as_int v = (case v of JsInt n \<Rightarrow> n | _ \<Rightarrow> 0)"

definition as_bool :: "json \<Rightarrow> bool" where
  "as_bool v = (v = JsBool True)"

definition as_list :: "json \<Rightarrow> json list" where
  "as_list v = (case v of JsArr xs \<Rightarrow> xs | _ \<Rightarrow> [])"

definition optional :: "(json \<Rightarrow> 'a) \<Rightarrow> json \<Rightarrow> 'a option" where
  "optional cast v = (if v = JsUndef then None else Some (cast v))"

text \<open>\<open>a < b\<close> on strings compares code units.\<close>

fun js_less :: "string \<Rightarrow> string \<Rightarrow> bool" where
  "js_less [] [] = False"
| "js_less [] (_ # _) = True"
| "js_less (_ # _) [] = False"
| "js_less (a # s) (b # t) = ((of_char a :: nat) < of_char b \<or> a = b \<and> js_less s t)"

lemma js_less_irrefl: "\<not> js_less s s"
  by (induction s) auto

lemma js_less_trans: "js_less s t \<Longrightarrow> js_less t u \<Longrightarrow> js_less s u"
proof (induction s t arbitrary: u rule: js_less.induct)
  case (2 b t)
  then show ?case by (cases u) auto
next
  case (4 a s b t)
  then show ?case by (cases u) auto
qed auto

lemma sorted_js_distinct: "sorted_wrt js_less xs \<Longrightarrow> distinct xs"
  by (induction xs) (use js_less_irrefl in auto)

lemma adjacent_sorted:
  assumes "\<And>i. Suc i < length xs \<Longrightarrow> js_less (xs ! i) (xs ! Suc i)"
  shows "sorted_wrt js_less xs"
proof -
  have "transp js_less" by (rule transpI) (rule js_less_trans)
  then show ?thesis using assms by (simp add: sorted_wrt_iff_nth_Suc_transp)
qed

end
