(* ===== verification/Route_Selection.thy ===== *)
theory Route_Selection
  imports Utils
begin

section \<open>Route selection\<close>

text \<open>
  The routing part of \<open>packages/nox-client/src/topology.ts\<close>: a random route of three hops. The
  entry rule \<open>isEntry\<close> is a parameter, as in the code. The cap on probation hops is an \<open>int option\<close>
  (\<open>None\<close> is infinity). Each of the three random choices draws from its own stream of 32-bit
  samples; a computation is a \<open>run\<close>, whose value \<open>None\<close> means that the rejection loop never
  ends. The specification is \<open>possible_route\<close>: three members with pairwise different identifiers,
  an entry, a mix and an exit, that respect what the caller pinned.
\<close>

type_synonym 'a run = "'a result option"

definition run_bind :: "'a run \<Rightarrow> ('a \<Rightarrow> 'b run) \<Rightarrow> 'b run" where
  "run_bind m f = (case m of None \<Rightarrow> None | Some (Inl e) \<Rightarrow> Some (Inl e) | Some (Inr x) \<Rightarrow> f x)"

lemma run_bind_simps [simp]:
  "run_bind None f = None" "run_bind (Some (Inl e)) f = Some (Inl e)" "run_bind (Some (Inr x)) f = f x"
  by (simp_all add: run_bind_def)

lemma run_bind_Inr_iff: "run_bind m f = Some (Inr y) \<longleftrightarrow> (\<exists>x. m = Some (Inr x) \<and> f x = Some (Inr y))"
  by (auto simp: run_bind_def split: option.splits sum.splits)

record topology_node =
  node_id :: string
  node_address :: string
  routingAddress :: string
  publicKey :: bytes
  node_layer :: int
  node_role :: int
  node_capabilities :: "string list option"
  probation :: bool

record route =
  rt_entry :: topology_node
  rt_mix :: topology_node
  rt_exit :: topology_node

definition layersForRole :: "int \<Rightarrow> int list" where
  "layersForRole role = (if role = 1 then [0, 1] else [0, 1, 2])"

definition withinProbation :: "topology_node list \<Rightarrow> int option \<Rightarrow> topology_node list" where
  "withinProbation candidates budget =
     (if (case budget of None \<Rightarrow> True | Some b \<Rightarrow> b > 0) then candidates
      else (let settled = filter (\<lambda>n. \<not> probation n) candidates in
            if length settled > 0 then settled else candidates))"

definition preferNotAvoided :: "topology_node list \<Rightarrow> string list option \<Rightarrow> topology_node list" where
  "preferNotAvoided candidates avoid =
     (case avoid of
        None \<Rightarrow> candidates
      | Some ids \<Rightarrow>
          if ids = [] then candidates
          else (let preferred = filter (\<lambda>n. node_id n \<notin> set ids) candidates in
                if length preferred > 0 then preferred else candidates))"

definition pickRandom :: "(nat \<Rightarrow> nat) \<Rightarrow> 'a list \<Rightarrow> 'a option run" where
  "pickRandom fill arr =
     (if length arr = 0 then Some (Inr None)
      else run_bind (secureRandomIndex (int (length arr)) fill) (\<lambda>k. Some (Inr (Some (arr ! k)))))"

text \<open>\<open>a ?? b\<close>: the second choice is made only when the first pool is empty.\<close>

definition or_else :: "'a option run \<Rightarrow> 'a option run \<Rightarrow> 'a option run" where
  "or_else a b = run_bind a (\<lambda>x. case x of Some v \<Rightarrow> Some (Inr (Some v)) | None \<Rightarrow> b)"

text \<open>\<open>node.id === hop?.id\<close>, and the probation hops among optional ones.\<close>

definition same_id :: "topology_node \<Rightarrow> topology_node option \<Rightarrow> bool" where
  "same_id n hop = (case hop of None \<Rightarrow> False | Some h \<Rightarrow> node_id n = node_id h)"

definition on_probation :: "topology_node option \<Rightarrow> int" where
  "on_probation hop = (case hop of None \<Rightarrow> 0 | Some h \<Rightarrow> if probation h then 1 else 0)"

definition budget_minus :: "int option \<Rightarrow> int \<Rightarrow> int option" where
  "budget_minus budget k = map_option (\<lambda>b. b - k) budget"

definition entriesOf :: "(topology_node \<Rightarrow> bool) \<Rightarrow> topology_node list \<Rightarrow> topology_node list" where
  "entriesOf isEntry nodes = filter (\<lambda>n. 0 \<in> set (layersForRole (node_role n)) \<and> isEntry n) nodes"

definition mixesOf :: "topology_node list \<Rightarrow> topology_node list" where
  "mixesOf nodes = filter (\<lambda>n. 1 \<in> set (layersForRole (node_role n))) nodes"

definition exitsOf :: "topology_node list \<Rightarrow> topology_node list" where
  "exitsOf nodes =
     filter (\<lambda>n. 2 \<in> set (layersForRole (node_role n)) \<and> (node_role n = 2 \<or> node_role n = 3)) nodes"

text \<open>The pinned hops looked up in the verified topology, with the checks on them.\<close>

definition fixedHops ::
  "topology_node list \<Rightarrow> topology_node list \<Rightarrow> topology_node option \<Rightarrow> topology_node option \<Rightarrow> int option
     \<Rightarrow> (topology_node option \<times> topology_node option) result" where
  "fixedHops entries exits pinnedEntry selectedExit maxProbation =
     (let pinnedExit = Option.bind selectedExit (\<lambda>s. List.find (\<lambda>c. node_id c = node_id s) exits);
          canonicalPinnedEntry = Option.bind pinnedEntry (\<lambda>p. List.find (\<lambda>c. node_id c = node_id p) entries);
          fixedProbation = on_probation canonicalPinnedEntry + on_probation pinnedExit in
      if selectedExit \<noteq> None \<and> pinnedExit = None
      then throw NoNodesAvailable ''Selected exit is not in the verified topology''
      else if pinnedEntry \<noteq> None \<and> canonicalPinnedEntry = None
      then throw NoNodesAvailable ''Pinned entry is not in the verified topology''
      else if pinnedExit \<noteq> None \<and> canonicalPinnedEntry \<noteq> None
           \<and> node_id (the pinnedExit) = node_id (the canonicalPinnedEntry)
      then throw NoNodesAvailable ''Selected exit cannot also be the pinned entry''
      else if on_probation pinnedExit = 1 \<and> (case maxProbation of None \<Rightarrow> False | Some m \<Rightarrow> fixedProbation > m)
           \<and> list_ex (\<lambda>n. \<not> probation n \<and> \<not> same_id n canonicalPinnedEntry) exits
      then throw NoNodesAvailable ''Selected exit is on probation''
      else Inr (canonicalPinnedEntry, pinnedExit))"

definition chooseEntry ::
  "(nat \<Rightarrow> nat) \<Rightarrow> topology_node list \<Rightarrow> topology_node list \<Rightarrow> topology_node option \<Rightarrow> topology_node option \<Rightarrow> int option
     \<Rightarrow> topology_node option run" where
  "chooseEntry fill entries exits pinned pinnedExit maxProbation =
     (let selectableEntries = filter (\<lambda>n. \<not> same_id n pinnedExit) entries;
          entryOnly = filter (\<lambda>n. \<not> list_ex (\<lambda>x. node_id x = node_id n) exits) selectableEntries;
          entryBudget = budget_minus maxProbation (on_probation pinnedExit) in
      or_else (Some (Inr pinned))
        (or_else (pickRandom fill (withinProbation entryOnly entryBudget))
                 (pickRandom fill (withinProbation selectableEntries entryBudget))))"

definition chooseMix ::
  "(nat \<Rightarrow> nat) \<Rightarrow> topology_node list \<Rightarrow> topology_node list \<Rightarrow> topology_node \<Rightarrow> topology_node option \<Rightarrow> string list option
     \<Rightarrow> int option \<Rightarrow> topology_node option run" where
  "chooseMix fill mixes exits entry pinnedExit avoid maxProbation =
     (let eligibleMixes = filter (\<lambda>n. node_id n \<noteq> node_id entry \<and> \<not> same_id n pinnedExit) mixes;
          mixOnly = filter (\<lambda>n. \<not> list_ex (\<lambda>x. node_id x = node_id n) exits) eligibleMixes;
          mixBudget = budget_minus maxProbation (on_probation (Some entry) + on_probation pinnedExit) in
      or_else (pickRandom fill (preferNotAvoided (withinProbation mixOnly mixBudget) avoid))
              (pickRandom fill (preferNotAvoided (withinProbation eligibleMixes mixBudget) avoid)))"

definition chooseExit ::
  "(nat \<Rightarrow> nat) \<Rightarrow> topology_node list \<Rightarrow> topology_node \<Rightarrow> topology_node \<Rightarrow> topology_node option \<Rightarrow> string list option
     \<Rightarrow> int option \<Rightarrow> topology_node option run" where
  "chooseExit fill exits entry mix pinnedExit avoid maxProbation =
     (let eligibleExits = filter (\<lambda>n. node_id n \<noteq> node_id entry \<and> node_id n \<noteq> node_id mix) exits;
          exitBudget = budget_minus maxProbation (on_probation (Some entry) + on_probation (Some mix)) in
      or_else (Some (Inr pinnedExit))
        (pickRandom fill (preferNotAvoided (withinProbation eligibleExits exitBudget) avoid)))"

definition hop_or_throw :: "string \<Rightarrow> topology_node option \<Rightarrow> topology_node run" where
  "hop_or_throw msg hop = (case hop of None \<Rightarrow> Some (throw NoNodesAvailable msg) | Some h \<Rightarrow> Some (Inr h))"

definition selectRoute ::
  "(nat \<Rightarrow> nat \<Rightarrow> nat) \<Rightarrow> topology_node list \<Rightarrow> topology_node option \<Rightarrow> topology_node option \<Rightarrow> string list option
     \<Rightarrow> (topology_node \<Rightarrow> bool) \<Rightarrow> int option \<Rightarrow> route run" where
  "selectRoute rnd nodes pinnedEntry selectedExit avoid isEntry maxProbation =
     (let entries = entriesOf isEntry nodes; mixes = mixesOf nodes; exits = exitsOf nodes in
      if length entries = 0 then Some (throw NoNodesAvailable ''No entry nodes available'')
      else if length mixes = 0 then Some (throw NoNodesAvailable ''No mix nodes available'')
      else if length exits = 0 then Some (throw NoNodesAvailable ''No exit nodes available'')
      else
        run_bind (Some (fixedHops entries exits pinnedEntry selectedExit maxProbation)) (\<lambda>(pinned, pinnedExit).
        run_bind (run_bind (chooseEntry (rnd 0) entries exits pinned pinnedExit maxProbation)
                    (hop_or_throw ''No distinct entry node is available for the selected exit'')) (\<lambda>entry.
        run_bind (run_bind (chooseMix (rnd 1) mixes exits entry pinnedExit avoid maxProbation)
                    (hop_or_throw ''No distinct mix node is available for the selected exit'')) (\<lambda>mix.
        run_bind (run_bind (chooseExit (rnd 2) exits entry mix pinnedExit avoid maxProbation)
                    (hop_or_throw ''No distinct exit node is available'')) (\<lambda>exit.
        Some (Inr \<lparr>rt_entry = entry, rt_mix = mix, rt_exit = exit\<rparr>))))))"

subsection \<open>Choices\<close>

text \<open>A stream of samples is fair when one of them is below 2^31; every acceptance limit is larger.\<close>

definition fair :: "(nat \<Rightarrow> nat) \<Rightarrow> bool" where
  "fair fill = (\<exists>n. fill n < 2 ^ 31)"

definition few :: "'a list \<Rightarrow> bool" where
  "few xs = (length xs \<le> 2 ^ 32)"

lemma few_le: "few xs \<Longrightarrow> length ys \<le> length xs \<Longrightarrow> few ys"
  unfolding few_def by linarith

lemma few_filter: "few xs \<Longrightarrow> few (filter P xs)"
  by (erule few_le) simp

lemma pickRandom_fair:
  assumes "fair fill" "few arr" "arr \<noteq> []"
  obtains x where "x \<in> set arr" "pickRandom fill arr = Some (Inr (Some x))"
proof -
  have len: "0 < length arr" "length arr \<le> 2 ^ 32" using assms(2,3) by (auto simp: few_def)
  obtain n where "fill n < 2 ^ 31" using assms(1) by (auto simp: fair_def)
  moreover have "2 ^ 31 < acceptanceLimit (length arr)" using acceptanceLimit_half[OF len] by simp
  ultimately have "fill n < acceptanceLimit (length arr)" by linarith
  then obtain j where j: "sample_below fill (acceptanceLimit (length arr)) 0 = Some (fill j)"
    using sample_below_returns[of fill 0 n] by auto
  show thesis
  proof (rule that)
    show "arr ! (fill j mod length arr) \<in> set arr" using len by simp
    show "pickRandom fill arr = Some (Inr (Some (arr ! (fill j mod length arr))))"
      using j len by (simp add: pickRandom_def secureRandomIndex_def)
  qed
qed

text \<open>A filter that falls back to all candidates narrows them without losing the last one.\<close>

definition narrows :: "'a list \<Rightarrow> 'a list \<Rightarrow> bool" where
  "narrows ys xs = (set ys \<subseteq> set xs \<and> length ys \<le> length xs \<and> (ys = [] \<longrightarrow> xs = []))"

lemma narrows_trans: "narrows zs ys \<Longrightarrow> narrows ys xs \<Longrightarrow> narrows zs xs"
  by (auto simp: narrows_def)

lemma narrows_fallback: "narrows (if length (filter P xs) > 0 then filter P xs else xs) xs"
  by (auto simp: narrows_def)

lemma narrows_withinProbation: "narrows (withinProbation xs b) xs"
  using narrows_fallback[of "\<lambda>n. \<not> probation n" xs]
  by (auto simp: withinProbation_def Let_def narrows_def)

lemma narrows_preferNotAvoided: "narrows (preferNotAvoided xs a) xs"
  using narrows_fallback[of _ xs] by (auto simp: preferNotAvoided_def Let_def narrows_def split: option.splits)

lemmas narrowing = narrows_withinProbation narrows_preferNotAvoided
  narrows_trans[OF narrows_preferNotAvoided narrows_withinProbation]

lemma pick_narrowed:
  assumes "fair fill" "narrows ys xs" "few xs"
  shows "if xs = [] then pickRandom fill ys = Some (Inr None)
    else \<exists>x \<in> set ys. x \<in> set xs \<and> pickRandom fill ys = Some (Inr (Some x))"
proof (cases "xs = []")
  case True
  then have "ys = []" using assms(2) by (simp add: narrows_def)
  then show ?thesis using True by (simp add: pickRandom_def)
next
  case False
  then have "ys \<noteq> []" "few ys" using assms(2,3) by (auto simp: narrows_def few_le)
  from pickRandom_fair[OF assms(1) this(2,1)] show ?thesis
    using False assms(2) by (metis narrows_def subsetD)
qed

lemma pick_two_pools:
  assumes "fair fill" "narrows as as'" "narrows bs bs'" "set as' \<subseteq> set bs'"
    and "few as'" "few bs'"
  shows "if bs' = [] then or_else (pickRandom fill as) (pickRandom fill bs) = Some (Inr None)
    else \<exists>x \<in> set bs'. or_else (pickRandom fill as) (pickRandom fill bs) = Some (Inr (Some x))
           \<and> (as' \<noteq> [] \<longrightarrow> x \<in> set as')"
proof (cases "as' = []")
  case True
  then show ?thesis
    using pick_narrowed[OF assms(1,2,5)] pick_narrowed[OF assms(1,3,6)] by (auto simp: or_else_def)
next
  case False
  then obtain x where "x \<in> set as'" "pickRandom fill as = Some (Inr (Some x))"
    using pick_narrowed[OF assms(1,2,5)] by auto
  then show ?thesis using assms(4) False by (auto simp: or_else_def)
qed

subsection \<open>Pools\<close>

definition exit_id :: "topology_node list \<Rightarrow> topology_node \<Rightarrow> bool" where
  "exit_id nodes n = (\<exists>x \<in> set (exitsOf nodes). node_id x = node_id n)"

lemma pool_defs: "set (entriesOf isEntry nodes) = {n \<in> set nodes. isEntry n}"
    "set (mixesOf nodes) = set nodes" "mixesOf nodes = nodes"
    "set (exitsOf nodes) = {n \<in> set nodes. node_role n = 2 \<or> node_role n = 3}"
  by (auto simp: entriesOf_def mixesOf_def exitsOf_def layersForRole_def)

lemma pool_lengths: "length (entriesOf isEntry nodes) \<le> length nodes" "length (exitsOf nodes) \<le> length nodes"
  by (simp_all add: entriesOf_def exitsOf_def)

definition possible_route ::
  "(topology_node \<Rightarrow> bool) \<Rightarrow> topology_node list \<Rightarrow> topology_node option \<Rightarrow> topology_node option \<Rightarrow> route \<Rightarrow> bool" where
  "possible_route isEntry nodes pinnedEntry selectedExit r =
     (rt_entry r \<in> set nodes \<and> isEntry (rt_entry r) \<and> rt_mix r \<in> set nodes
      \<and> rt_exit r \<in> set nodes \<and> (node_role (rt_exit r) = 2 \<or> node_role (rt_exit r) = 3)
      \<and> distinct [node_id (rt_entry r), node_id (rt_mix r), node_id (rt_exit r)]
      \<and> (case pinnedEntry of None \<Rightarrow> True | Some p \<Rightarrow> node_id (rt_entry r) = node_id p)
      \<and> (case selectedExit of None \<Rightarrow> True | Some p \<Rightarrow> node_id (rt_exit r) = node_id p))"

text \<open>What a hop found in the verified topology satisfies.\<close>

definition pin_ok :: "topology_node list \<Rightarrow> topology_node option \<Rightarrow> topology_node option \<Rightarrow> bool" where
  "pin_ok pool pin hop = (case pin of None \<Rightarrow> hop = None
     | Some p \<Rightarrow> (\<exists>h \<in> set pool. hop = Some h \<and> node_id h = node_id p))"

lemma find_pin:
  "Option.bind pin (\<lambda>p. List.find (\<lambda>c. node_id c = node_id p) pool) = hop \<Longrightarrow> pin \<noteq> None \<longrightarrow> hop \<noteq> None \<Longrightarrow> pin_ok pool pin hop"
  by (cases pin; cases hop) (auto simp: pin_ok_def find_Some_iff in_set_conv_nth)

lemma find_pin_present: "x \<in> set pool \<Longrightarrow> node_id x = node_id p \<Longrightarrow> \<exists>y. List.find (\<lambda>c. node_id c = node_id p) pool = Some y"
  by (cases "List.find (\<lambda>c. node_id c = node_id p) pool") (auto simp: find_None_iff)

lemma fixedHops_Inr:
  assumes "fixedHops entries exits pe se mx = Inr (ce, px)"
  shows "pin_ok entries pe ce" "pin_ok exits se px"
    "ce = Some e \<Longrightarrow> px = Some x \<Longrightarrow> node_id x \<noteq> node_id e"
  using assms find_pin[of pe entries ce] find_pin[of se exits px]
  by (auto simp: fixedHops_def Let_def split: if_splits)

lemma fixedHops_distinct: "fixedHops entries exits pe se mx = Inr (ce, px) \<Longrightarrow> \<forall>e. ce = Some e \<longrightarrow> \<not> same_id e px"
proof (intro allI impI)
  fix e assume h: "fixedHops entries exits pe se mx = Inr (ce, px)" "ce = Some e"
  show "\<not> same_id e px"
  proof (cases px)
    case (Some x)
    then show ?thesis using fixedHops_Inr(3)[OF h Some] by (simp add: same_id_def)
  qed (simp add: same_id_def)
qed

text \<open>
  The refusal the code documents: the selected exit is on probation, it and a pinned entry on probation exceed the cap, and an exit that is
  settled and is not the pinned entry could serve instead. A pin names the first node of its pool with its identifier.
\<close>

definition first_named :: "topology_node list \<Rightarrow> topology_node option \<Rightarrow> topology_node option" where
  "first_named pool pin = Option.bind pin (\<lambda>p. List.find (\<lambda>c. node_id c = node_id p) pool)"

definition pin_refused ::
  "(topology_node \<Rightarrow> bool) \<Rightarrow> topology_node list \<Rightarrow> topology_node option \<Rightarrow> topology_node option \<Rightarrow> int option \<Rightarrow> bool" where
  "pin_refused isEntry nodes pe se mx =
     (let entry = first_named (entriesOf isEntry nodes) pe in
      \<exists>x m. first_named (exitsOf nodes) se = Some x \<and> probation x \<and> mx = Some m
        \<and> m < (if \<exists>e. entry = Some e \<and> probation e then 2 else 1)
        \<and> (\<exists>n \<in> set nodes. (node_role n = 2 \<or> node_role n = 3) \<and> \<not> probation n \<and> \<not> same_id n entry))"

lemma first_named_None [simp]: "first_named pool None = None"
  by (simp add: first_named_def)

lemma pin_refused_no_exit [simp]: "\<not> pin_refused isEntry nodes pe None mx"
  by (simp add: pin_refused_def)

lemma fixedHops_possible:
  assumes r: "possible_route isEntry nodes pe se r" and allowed: "\<not> pin_refused isEntry nodes pe se mx"
  obtains ce px where "fixedHops (entriesOf isEntry nodes) (exitsOf nodes) pe se mx = Inr (ce, px)"
proof -
  let ?E = "entriesOf isEntry nodes" and ?X = "exitsOf nodes"
  define px where "px = Option.bind se (\<lambda>s. List.find (\<lambda>c. node_id c = node_id s) ?X)"
  define ce where "ce = Option.bind pe (\<lambda>p. List.find (\<lambda>c. node_id c = node_id p) ?E)"
  have px: "se \<noteq> None \<longrightarrow> px \<noteq> None"
    using r find_pin_present[of "rt_exit r" ?X] by (auto simp: px_def possible_route_def pool_defs split: option.splits)
  have ce: "pe \<noteq> None \<longrightarrow> ce \<noteq> None"
    using r find_pin_present[of "rt_entry r" ?E] by (auto simp: ce_def possible_route_def pool_defs split: option.splits)
  have ids: "pin_ok ?E pe ce" "pin_ok ?X se px"
    using find_pin[of pe ?E ce] find_pin[of se ?X px] px ce by (simp_all add: px_def ce_def)
  have ne: "node_id (the px) \<noteq> node_id (the ce)" if "px \<noteq> None" "ce \<noteq> None"
    using r ids that by (auto simp: possible_route_def pin_ok_def split: option.splits)
  have "\<not> (on_probation px = 1 \<and> (case mx of None \<Rightarrow> False | Some m \<Rightarrow> on_probation ce + on_probation px > m)
        \<and> list_ex (\<lambda>n. \<not> probation n \<and> \<not> same_id n ce) ?X)"
    using allowed unfolding pin_refused_def first_named_def px_def[symmetric] ce_def[symmetric] Let_def
    by (auto simp: on_probation_def list_ex_iff pool_defs split: option.splits if_splits)
  then have "fixedHops ?E ?X pe se mx = Inr (ce, px)"
    unfolding fixedHops_def Let_def px_def[symmetric] ce_def[symmetric] using px ce ne by auto
  then show thesis by (rule that)
qed

lemma fixedHops_refused:
  assumes "pin_refused isEntry nodes pe se mx"
  shows "\<exists>e. fixedHops (entriesOf isEntry nodes) (exitsOf nodes) pe se mx = Inl e"
proof -
  let ?E = "entriesOf isEntry nodes" and ?X = "exitsOf nodes"
  obtain x m n where x: "first_named ?X se = Some x" "probation x" "mx = Some m"
    "m < (if \<exists>e. first_named ?E pe = Some e \<and> probation e then 2 else 1)"
    and n: "n \<in> set ?X" "\<not> probation n" "\<not> same_id n (first_named ?E pe)"
    using assms by (auto simp: pin_refused_def Let_def pool_defs)
  have "on_probation (first_named ?E pe) = (if \<exists>e. first_named ?E pe = Some e \<and> probation e then 1 else 0)" by (auto simp: on_probation_def split: option.split)
  then have "on_probation (first_named ?E pe) + on_probation (first_named ?X se) > m" using x by (auto simp: on_probation_def split: if_splits)
  then have refused: "on_probation (first_named ?X se) = 1
      \<and> (case mx of None \<Rightarrow> False | Some m \<Rightarrow> on_probation (first_named ?E pe) + on_probation (first_named ?X se) > m)
      \<and> list_ex (\<lambda>n. \<not> probation n \<and> \<not> same_id n (first_named ?E pe)) ?X"
    using x(1-3) n by (auto simp: on_probation_def[of "Some x"] list_ex_iff)
  show ?thesis unfolding fixedHops_def Let_def first_named_def[symmetric] if_P[OF refused] by auto
qed

subsection \<open>The three choices\<close>

lemma chooseEntry_free:
  fixes px :: "topology_node option" and isEntry :: "topology_node \<Rightarrow> bool"
  assumes f: "fair fill" "few nodes"
  defines "S \<equiv> filter (\<lambda>n. \<not> same_id n px) (entriesOf isEntry nodes)"
  shows "S = [] \<and> chooseEntry fill (entriesOf isEntry nodes) (exitsOf nodes) None px mx = Some (Inr None)
    \<or> (\<exists>e \<in> set S. chooseEntry fill (entriesOf isEntry nodes) (exitsOf nodes) None px mx = Some (Inr (Some e))
       \<and> (exit_id nodes e \<longrightarrow> (\<forall>n \<in> set S. exit_id nodes n)))"
proof -
  let ?O = "filter (\<lambda>n. \<not> list_ex (\<lambda>x. node_id x = node_id n) (exitsOf nodes)) S"
  let ?b = "budget_minus mx (on_probation px)"
  have O: "set ?O = {n \<in> set S. \<not> exit_id nodes n}" by (auto simp: exit_id_def list_ex_iff)
  have "chooseEntry fill (entriesOf isEntry nodes) (exitsOf nodes) None px mx =
      or_else (pickRandom fill (withinProbation ?O ?b)) (pickRandom fill (withinProbation S ?b))"
    by (simp add: chooseEntry_def Let_def S_def or_else_def)
  moreover have "if S = [] then or_else (pickRandom fill (withinProbation ?O ?b)) (pickRandom fill (withinProbation S ?b)) = Some (Inr None)
    else \<exists>x \<in> set S. or_else (pickRandom fill (withinProbation ?O ?b)) (pickRandom fill (withinProbation S ?b)) = Some (Inr (Some x))
       \<and> (?O \<noteq> [] \<longrightarrow> x \<in> set ?O)"
    unfolding S_def
    by (rule pick_two_pools[OF f(1) narrowing(1) narrowing(1)])
      (auto simp del: filter_filter intro!: few_filter few_le[OF f(2) pool_lengths(1)])
  ultimately show ?thesis using O by (cases "?O = []") (auto simp: filter_empty_conv split: if_splits)
qed

lemma chooseMix_fair:
  fixes px :: "topology_node option" and e :: topology_node
  assumes f: "fair fill" "few nodes"
  defines "S \<equiv> filter (\<lambda>n. node_id n \<noteq> node_id e \<and> \<not> same_id n px) (mixesOf nodes)"
  shows "S = [] \<and> chooseMix fill (mixesOf nodes) (exitsOf nodes) e px avoid mx = Some (Inr None)
    \<or> (\<exists>m \<in> set S. chooseMix fill (mixesOf nodes) (exitsOf nodes) e px avoid mx = Some (Inr (Some m))
       \<and> (exit_id nodes m \<longrightarrow> (\<forall>n \<in> set S. exit_id nodes n)))"
proof -
  let ?O = "filter (\<lambda>n. \<not> list_ex (\<lambda>x. node_id x = node_id n) (exitsOf nodes)) S"
  let ?b = "budget_minus mx (on_probation (Some e) + on_probation px)"
  let ?p = "\<lambda>pool. pickRandom fill (preferNotAvoided (withinProbation pool ?b) avoid)"
  have O: "set ?O = {n \<in> set S. \<not> exit_id nodes n}" by (auto simp: exit_id_def list_ex_iff)
  have "chooseMix fill (mixesOf nodes) (exitsOf nodes) e px avoid mx = or_else (?p ?O) (?p S)"
    by (simp add: chooseMix_def Let_def S_def)
  moreover have "if S = [] then or_else (?p ?O) (?p S) = Some (Inr None)
    else \<exists>x \<in> set S. or_else (?p ?O) (?p S) = Some (Inr (Some x)) \<and> (?O \<noteq> [] \<longrightarrow> x \<in> set ?O)"
    unfolding S_def
    by (rule pick_two_pools[OF f(1) narrowing(3) narrowing(3)])
      (auto simp del: filter_filter intro!: few_filter f(2) simp: pool_defs)
  ultimately show ?thesis using O by (cases "?O = []") (auto simp: filter_empty_conv split: if_splits)
qed

lemma chooseExit_free:
  fixes e m :: topology_node
  assumes f: "fair fill" "few nodes"
  defines "S \<equiv> filter (\<lambda>n. node_id n \<noteq> node_id e \<and> node_id n \<noteq> node_id m) (exitsOf nodes)"
  shows "S = [] \<and> chooseExit fill (exitsOf nodes) e m None avoid mx = Some (Inr None) \<or> (\<exists>x \<in> set S. chooseExit fill (exitsOf nodes) e m None avoid mx = Some (Inr (Some x)))"
proof -
  have "if S = [] then pickRandom fill (preferNotAvoided (withinProbation S b) avoid) = Some (Inr None)
    else \<exists>x \<in> set (preferNotAvoided (withinProbation S b) avoid). x \<in> set S
      \<and> pickRandom fill (preferNotAvoided (withinProbation S b) avoid) = Some (Inr (Some x))" for b
    unfolding S_def by (rule pick_narrowed[OF f(1) narrowing(3)]) (rule few_filter[OF few_le[OF f(2) pool_lengths(2)]])
  note pick = this[of "budget_minus mx (on_probation (Some e) + on_probation (Some m))"]
  have "chooseExit fill (exitsOf nodes) e m None avoid mx =
      pickRandom fill (preferNotAvoided (withinProbation S (budget_minus mx (on_probation (Some e) + on_probation (Some m)))) avoid)"
    by (simp add: chooseExit_def Let_def S_def or_else_def)
  then show ?thesis using pick by (cases "S = []") auto
qed

lemma entry_step:
  assumes f: "fair fill" "few nodes"
    and pins: "pin_ok (entriesOf isEntry nodes) pe ce" "\<forall>e. ce = Some e \<longrightarrow> \<not> same_id e px"
  shows "(chooseEntry fill (entriesOf isEntry nodes) (exitsOf nodes) ce px mx = Some (Inr None) \<and> pe = None
      \<and> (\<forall>n \<in> set nodes. isEntry n \<longrightarrow> same_id n px))
    \<or> (\<exists>e. chooseEntry fill (entriesOf isEntry nodes) (exitsOf nodes) ce px mx = Some (Inr (Some e))
      \<and> e \<in> set nodes \<and> isEntry e \<and> \<not> same_id e px
      \<and> (case pe of Some p \<Rightarrow> node_id e = node_id p
         | None \<Rightarrow> exit_id nodes e \<longrightarrow> (\<forall>n \<in> set nodes. isEntry n \<longrightarrow> \<not> same_id n px \<longrightarrow> exit_id nodes n)))"
proof (cases pe)
  case None
  then have "ce = None" using pins(1) by (simp add: pin_ok_def)
  then show ?thesis
    using chooseEntry_free[OF f, of px isEntry mx] None by (auto simp: filter_empty_conv pool_defs)
next
  case (Some p)
  then obtain e where "e \<in> set (entriesOf isEntry nodes)" "ce = Some e" "node_id e = node_id p"
    using pins(1) by (auto simp: pin_ok_def)
  then show ?thesis using pins(2) Some by (auto simp: chooseEntry_def or_else_def Let_def pool_defs)
qed

lemma mix_step:
  assumes f: "fair fill" "few nodes"
  shows "(chooseMix fill (mixesOf nodes) (exitsOf nodes) e px avoid mx = Some (Inr None)
      \<and> (\<forall>n \<in> set nodes. node_id n = node_id e \<or> same_id n px))
    \<or> (\<exists>m. chooseMix fill (mixesOf nodes) (exitsOf nodes) e px avoid mx = Some (Inr (Some m))
      \<and> m \<in> set nodes \<and> node_id m \<noteq> node_id e \<and> \<not> same_id m px
      \<and> (exit_id nodes m \<longrightarrow> (\<forall>n \<in> set nodes. node_id n \<noteq> node_id e \<longrightarrow> \<not> same_id n px \<longrightarrow> exit_id nodes n)))"
  using chooseMix_fair[OF f, of e px avoid mx] by (auto simp: filter_empty_conv pool_defs)

lemma exit_step:
  assumes f: "fair fill" "few nodes" and pins: "pin_ok (exitsOf nodes) se px" "\<not> same_id e px" "\<not> same_id m px"
  shows "(chooseExit fill (exitsOf nodes) e m px avoid mx = Some (Inr None) \<and> se = None
      \<and> (\<forall>n \<in> set (exitsOf nodes). node_id n = node_id e \<or> node_id n = node_id m))
    \<or> (\<exists>x. chooseExit fill (exitsOf nodes) e m px avoid mx = Some (Inr (Some x))
      \<and> x \<in> set (exitsOf nodes) \<and> node_id x \<noteq> node_id e \<and> node_id x \<noteq> node_id m
      \<and> (case se of None \<Rightarrow> True | Some s \<Rightarrow> node_id x = node_id s))"
proof (cases se)
  case None
  then have "px = None" using pins(1) by (simp add: pin_ok_def)
  then show ?thesis
    using chooseExit_free[OF f, of e m avoid mx] None by (auto simp: filter_empty_conv)
next
  case (Some s)
  then obtain x where "x \<in> set (exitsOf nodes)" "px = Some x" "node_id x = node_id s"
    using pins(1) by (auto simp: pin_ok_def)
  then show ?thesis using pins(2,3) Some by (auto simp: chooseExit_def or_else_def Let_def same_id_def)
qed

lemma fixedHops_Inl: "fixedHops entries exits pe se mx = Inl e \<Longrightarrow> \<exists>m. e = NoxClientError NoNodesAvailable m"
  by (auto simp: fixedHops_def Let_def split: if_splits)

lemma selectRoute_sound:
  assumes "\<And>i. fair (rnd i)" "few nodes"
  shows "(\<exists>r. selectRoute rnd nodes pe se avoid isEntry mx = Some (Inr r) \<and> possible_route isEntry nodes pe se r)
    \<or> (\<exists>m. selectRoute rnd nodes pe se avoid isEntry mx = Some (throw NoNodesAvailable m))"
proof -
  let ?E = "entriesOf isEntry nodes" and ?X = "exitsOf nodes"
  consider "?E = [] \<or> mixesOf nodes = [] \<or> ?X = []" | e where "fixedHops ?E ?X pe se mx = Inl e"
    | ce px where "?E \<noteq> []" "mixesOf nodes \<noteq> []" "?X \<noteq> []" "fixedHops ?E ?X pe se mx = Inr (ce, px)"
    by (cases "fixedHops ?E ?X pe se mx") auto
  then show ?thesis
  proof cases
    case 1
    then show ?thesis by (auto simp: selectRoute_def Let_def)
  next
    case 2
    then show ?thesis using fixedHops_Inl[OF 2] by (auto simp: selectRoute_def Let_def)
  next
    case (3 ce px)
    note pins = fixedHops_Inr[OF 3(4)]
    note ce = fixedHops_distinct[OF 3(4)]
    from entry_step[OF assms(1)[of 0] assms(2) pins(1) ce, of mx] show ?thesis
    proof (elim disjE exE conjE)
      fix e assume e: "chooseEntry (rnd 0) ?E ?X ce px mx = Some (Inr (Some e))" "e \<in> set nodes" "isEntry e" "\<not> same_id e px"
        "case pe of Some p \<Rightarrow> node_id e = node_id p
         | None \<Rightarrow> exit_id nodes e \<longrightarrow> (\<forall>n \<in> set nodes. isEntry n \<longrightarrow> \<not> same_id n px \<longrightarrow> exit_id nodes n)"
      from mix_step[OF assms(1)[of 1] assms(2), of e px avoid mx] show ?thesis
      proof (elim disjE exE conjE)
        fix m assume m: "chooseMix (rnd 1) (mixesOf nodes) ?X e px avoid mx = Some (Inr (Some m))"
          "m \<in> set nodes" "node_id m \<noteq> node_id e" "\<not> same_id m px"
        from exit_step[OF assms(1)[of 2] assms(2) pins(2) e(4) m(4), of avoid mx] show ?thesis
        proof (elim disjE exE conjE)
          fix x assume x: "chooseExit (rnd 2) ?X e m px avoid mx = Some (Inr (Some x))" "x \<in> set ?X"
            "node_id x \<noteq> node_id e" "node_id x \<noteq> node_id m" "case se of None \<Rightarrow> True | Some s \<Rightarrow> node_id x = node_id s"
          let ?r = "\<lparr>rt_entry = e, rt_mix = m, rt_exit = x\<rparr>"
          have "selectRoute rnd nodes pe se avoid isEntry mx = Some (Inr ?r)"
            using 3 e(1) m(1) x(1) by (simp add: selectRoute_def Let_def hop_or_throw_def)
          moreover have "possible_route isEntry nodes pe se ?r"
            using e m x by (auto simp: possible_route_def pool_defs split: option.splits)
          ultimately show ?thesis by blast
        qed (use 3 e m in \<open>simp add: selectRoute_def Let_def hop_or_throw_def\<close>)
      qed (use 3 e in \<open>simp add: selectRoute_def Let_def hop_or_throw_def\<close>)
    qed (use 3 in \<open>simp add: selectRoute_def Let_def hop_or_throw_def\<close>)
  qed
qed

text \<open>Once a route exists, no step runs out of candidates.\<close>

lemma one_of_three: "distinct [a, b, c] \<Longrightarrow> \<exists>i \<in> {a, b, c}. i \<noteq> u \<and> i \<noteq> v"
  by auto

lemma mix_exists:
  assumes "possible_route isEntry nodes pe se r" "pin_ok (exitsOf nodes) se px"
  obtains n where "n \<in> set nodes" "node_id n \<noteq> node_id e" "\<not> same_id n px"
proof -
  let ?ids = "[node_id (rt_entry r), node_id (rt_mix r), node_id (rt_exit r)]"
  have r: "rt_entry r \<in> set nodes" "rt_mix r \<in> set nodes" "rt_exit r \<in> set nodes" "distinct ?ids"
    using assms(1) by (auto simp: possible_route_def)
  obtain i where "i \<in> set ?ids" "i \<noteq> node_id e" "i \<noteq> node_id (the px)"
    using one_of_three[OF r(4), of "node_id e" "node_id (the px)"] by auto
  then show thesis using that r(1-3) by (cases px) (auto simp: same_id_def)
qed

lemma exit_exists:
  assumes r: "possible_route isEntry nodes pe None r"
    and e: "case pe of Some p \<Rightarrow> node_id e = node_id p
      | None \<Rightarrow> exit_id nodes e \<longrightarrow> (\<forall>n \<in> set nodes. isEntry n \<longrightarrow> exit_id nodes n)"
    and m: "exit_id nodes m \<longrightarrow> (\<forall>n \<in> set nodes. node_id n \<noteq> node_id e \<longrightarrow> exit_id nodes n)"
  obtains x where "x \<in> set (exitsOf nodes)" "node_id x \<noteq> node_id e" "node_id x \<noteq> node_id m"
proof -
  have mem: "rt_entry r \<in> set nodes" "rt_mix r \<in> set nodes" "rt_exit r \<in> set nodes" "isEntry (rt_entry r)"
      and d: "distinct [node_id (rt_entry r), node_id (rt_mix r), node_id (rt_exit r)]"
      and pin: "\<And>p. pe = Some p \<Longrightarrow> node_id (rt_entry r) = node_id p"
      and rx: "rt_exit r \<in> set (exitsOf nodes)"
    using r by (auto simp: possible_route_def pool_defs)
  note result = that
  have exit_of: thesis if n: "exit_id nodes n" "node_id n \<noteq> node_id e" "node_id n \<noteq> node_id m" for n
  proof -
    obtain x where "x \<in> set (exitsOf nodes)" "node_id x = node_id n" using n(1) by (auto simp: exit_id_def)
    then show thesis using result[of x] n(2,3) by simp
  qed
  show thesis
  proof (cases "exit_id nodes m")
    case True
    obtain n where "n \<in> set nodes" "node_id n \<noteq> node_id e" "node_id n \<noteq> node_id m"
      using one_of_three[OF d, of "node_id e" "node_id m"] mem by auto
    then show thesis using m True exit_of by blast
  next
    case m': False
    have notm: "node_id x \<noteq> node_id m" if "x \<in> set (exitsOf nodes)" for x
      using m' that by (auto simp: exit_id_def)
    show thesis
    proof (cases "node_id (rt_exit r) = node_id e")
      case False
      then show thesis using rx notm that by blast
    next
      case True
      then have "exit_id nodes e" using rx by (auto simp: exit_id_def)
      have "pe = None" using True d pin e by (cases pe) auto
      then have "exit_id nodes (rt_entry r)" using e \<open>exit_id nodes e\<close> mem by auto
      then obtain x where "x \<in> set (exitsOf nodes)" "node_id x = node_id (rt_entry r)"
        by (auto simp: exit_id_def)
      then show thesis using True d notm that by auto
    qed
  qed
qed

lemma selectRoute_complete:
  assumes f: "\<And>i. fair (rnd i)" "few nodes" and r: "possible_route isEntry nodes pe se r" "\<not> pin_refused isEntry nodes pe se mx"
  shows "selectRoute rnd nodes pe se avoid isEntry mx \<noteq> Some (throw NoNodesAvailable msg)"
proof -
  let ?E = "entriesOf isEntry nodes" and ?X = "exitsOf nodes"
  obtain ce px where h: "fixedHops ?E ?X pe se mx = Inr (ce, px)" using fixedHops_possible[OF r] .
  note pins = fixedHops_Inr[OF h]
  note ce = fixedHops_distinct[OF h]
  have pools: "?E \<noteq> []" "mixesOf nodes \<noteq> []" "?X \<noteq> []"
    using r(1) pool_defs(1)[of isEntry nodes] pool_defs(3,4)[of nodes] by (auto simp: possible_route_def)
  have "\<not> (\<forall>n \<in> set nodes. isEntry n \<longrightarrow> same_id n px)" if "pe = None"
    using r(1) pins(2) by (auto simp: possible_route_def pin_ok_def same_id_def split: option.splits)
  with entry_step[OF f(1)[of 0] f(2) pins(1) ce, of mx]
  obtain e where e: "chooseEntry (rnd 0) ?E ?X ce px mx = Some (Inr (Some e))" "\<not> same_id e px"
      "case pe of Some p \<Rightarrow> node_id e = node_id p
         | None \<Rightarrow> exit_id nodes e \<longrightarrow> (\<forall>n \<in> set nodes. isEntry n \<longrightarrow> \<not> same_id n px \<longrightarrow> exit_id nodes n)"
    by blast
  from mix_step[OF f(1)[of 1] f(2), of e px avoid mx] mix_exists[OF r(1) pins(2), of e]
  obtain m where m: "chooseMix (rnd 1) (mixesOf nodes) ?X e px avoid mx = Some (Inr (Some m))" "\<not> same_id m px"
      "exit_id nodes m \<longrightarrow> (\<forall>n \<in> set nodes. node_id n \<noteq> node_id e \<longrightarrow> \<not> same_id n px \<longrightarrow> exit_id nodes n)"
    by blast
  have "\<not> (\<forall>n \<in> set ?X. node_id n = node_id e \<or> node_id n = node_id m)" if se: "se = None"
  proof -
    have "px = None" using pins(2) se by (simp add: pin_ok_def)
    then have free: "\<not> same_id n px" for n by (simp add: same_id_def)
    have r': "possible_route isEntry nodes pe None r" using r(1) se by simp
    have e': "case pe of Some p \<Rightarrow> node_id e = node_id p
        | None \<Rightarrow> exit_id nodes e \<longrightarrow> (\<forall>n \<in> set nodes. isEntry n \<longrightarrow> exit_id nodes n)"
      using e(3) by (simp add: free split: option.splits)
    have m': "exit_id nodes m \<longrightarrow> (\<forall>n \<in> set nodes. node_id n \<noteq> node_id e \<longrightarrow> exit_id nodes n)"
      using m(3) by (simp add: free)
    obtain x where "x \<in> set ?X" "node_id x \<noteq> node_id e" "node_id x \<noteq> node_id m"
      by (rule exit_exists[OF r' e' m'])
    then show ?thesis by blast
  qed
  with exit_step[OF f(1)[of 2] f(2) pins(2) e(2) m(2), of avoid mx]
  obtain x where "chooseExit (rnd 2) ?X e m px avoid mx = Some (Inr (Some x))" by blast
  then show ?thesis using h pools e(1) m(1) by (simp add: selectRoute_def Let_def hop_or_throw_def)
qed

subsection \<open>Correctness\<close>

lemma selectRoute_refused:
  assumes "pin_refused isEntry nodes pe se mx"
  shows "\<exists>m. selectRoute rnd nodes pe se avoid isEntry mx = Some (throw NoNodesAvailable m)"
proof -
  obtain e where e: "fixedHops (entriesOf isEntry nodes) (exitsOf nodes) pe se mx = Inl e" using fixedHops_refused[OF assms] by blast
  then show ?thesis using fixedHops_Inl[OF e] by (auto simp: selectRoute_def Let_def)
qed

text \<open>
  C6. Route selection is sound and complete. For every list of nodes, any entry rule, any pinned
  entry and selected exit, any cap on hops on probation, any set of identifiers to avoid and any fair random source:
  if three different members can serve as entry, mix and exit with the pins respected, then
  \<open>selectRoute\<close> returns such a route (the greedy choices never run into a dead end, and neither \<open>avoid\<close> nor the cap
  makes a possible route impossible); otherwise it throws \<open>NO_NODES_AVAILABLE\<close>. The one exception is the documented
  refusal: a selected exit on probation that, with a pinned entry on probation, exceeds the cap while a settled exit could serve.
\<close>

theorem selectRoute_decides:
  assumes "\<forall>i. fair (rnd i)" "few nodes"
  shows "if (\<exists>r. possible_route isEntry nodes pinnedEntry selectedExit r) \<and> \<not> pin_refused isEntry nodes pinnedEntry selectedExit maxProbation
    then \<exists>r. selectRoute rnd nodes pinnedEntry selectedExit avoid isEntry maxProbation = Some (Inr r)
           \<and> possible_route isEntry nodes pinnedEntry selectedExit r
    else \<exists>m. selectRoute rnd nodes pinnedEntry selectedExit avoid isEntry maxProbation = Some (throw NoNodesAvailable m)"
proof (cases "pin_refused isEntry nodes pinnedEntry selectedExit maxProbation")
  case True
  then show ?thesis using selectRoute_refused by simp
next
  case False
  then show ?thesis
    using selectRoute_sound[of rnd nodes pinnedEntry selectedExit avoid isEntry maxProbation]
      selectRoute_complete[of rnd nodes isEntry pinnedEntry selectedExit _ maxProbation avoid] assms
    by auto
qed

definition sample_node :: "string \<Rightarrow> int \<Rightarrow> bool \<Rightarrow> topology_node" where
  "sample_node i role prob = \<lparr>node_id = i, node_address = [], routingAddress = [], publicKey = [], node_layer = 0,
     node_role = role, node_capabilities = None, probation = prob\<rparr>"

theorem selectRoute_decides_witness:
  "\<exists>r. selectRoute (\<lambda>_ _. 0) [sample_node ''a'' 2 False, sample_node ''b'' 3 False, sample_node ''c'' 2 False] None None
         (Some [''b'', ''c'']) (\<lambda>_. True) (Some 0) = Some (Inr r)
     \<and> distinct [node_id (rt_entry r), node_id (rt_mix r), node_id (rt_exit r)]"
proof -
  let ?nodes = "[sample_node ''a'' 2 False, sample_node ''b'' 3 False, sample_node ''c'' 2 False]"
  let ?r = "\<lparr>rt_entry = ?nodes ! 0, rt_mix = ?nodes ! 1, rt_exit = ?nodes ! 2\<rparr>"
  have "possible_route (\<lambda>_. True) ?nodes None None ?r" by (simp add: possible_route_def sample_node_def)
  moreover have "\<forall>i. fair ((\<lambda>_ _. 0 :: nat) (i :: nat))" by (simp add: fair_def)
  moreover have "few ?nodes" by (simp add: few_def)
  ultimately have "\<exists>r. selectRoute (\<lambda>_ _. 0) ?nodes None None (Some [''b'', ''c'']) (\<lambda>_. True) (Some 0) = Some (Inr r)
      \<and> possible_route (\<lambda>_. True) ?nodes None None r"
    using selectRoute_decides[of "\<lambda>_ _. 0" ?nodes "\<lambda>_. True" None None "Some 0" "Some [''b'', ''c'']"] pin_refused_no_exit by metis
  then show ?thesis unfolding possible_route_def by blast
qed

subsection \<open>Hops on probation\<close>

definition probation_hops :: "route \<Rightarrow> int" where
  "probation_hops r = on_probation (Some (rt_entry r)) + on_probation (Some (rt_mix r)) + on_probation (Some (rt_exit r))"

lemma withinProbation_settled:
  assumes "x \<in> set (withinProbation pool (Some b))" "s \<in> set pool" "\<not> probation s"
  shows "b \<le> 0 \<longrightarrow> on_probation (Some x) = 0"
  using assms by (auto simp: withinProbation_def Let_def on_probation_def filter_empty_conv split: if_splits)

lemma pickRandom_in: "pickRandom fill arr = Some (Inr (Some x)) \<Longrightarrow> x \<in> set arr"
  by (auto simp: pickRandom_def run_bind_Inr_iff secureRandomIndex_def split: if_splits)

lemma or_else_in:
  assumes "or_else (pickRandom fill as) (pickRandom fill bs) = Some (Inr (Some x))" "as \<noteq> []"
  shows "x \<in> set as"
  using assms pickRandom_in[of fill as x] by (auto simp: or_else_def run_bind_Inr_iff pickRandom_def split: option.splits)

lemma avoided_subset: "x \<in> set (preferNotAvoided xs a) \<Longrightarrow> x \<in> set xs"
  using narrows_preferNotAvoided[of xs a] by (auto simp: narrows_def)

lemma within_nonempty: "s \<in> set xs \<Longrightarrow> withinProbation xs b \<noteq> []" "s \<in> set xs \<Longrightarrow> preferNotAvoided (withinProbation xs b) a \<noteq> []"
  using narrowing(1)[of xs b] narrowing(3)[of xs b a] by (auto simp: narrows_def)

text \<open>Each free choice is settled once the budget is used up and its preferred pool has a settled member.\<close>

lemma chooseEntry_budget:
  assumes "chooseEntry fill (entriesOf isEntry nodes) (exitsOf nodes) None None (Some k) = Some (Inr (Some e))"
    and "s \<in> set nodes" "isEntry s" "\<not> exit_id nodes s" "\<not> probation s"
  shows "(k \<le> 0 \<longrightarrow> on_probation (Some e) = 0) \<and> \<not> exit_id nodes e"
proof -
  let ?O = "filter (\<lambda>n. \<not> list_ex (\<lambda>x. node_id x = node_id n) (exitsOf nodes)) (entriesOf isEntry nodes)"
  have s: "s \<in> set ?O" using assms(2-4) by (auto simp: pool_defs exit_id_def list_ex_iff)
  have "e \<in> set (withinProbation ?O (Some k))"
    using assms(1) within_nonempty(1)[OF s] or_else_in[of fill "withinProbation ?O (Some k)" _ e]
    by (simp add: chooseEntry_def Let_def same_id_def on_probation_def budget_minus_def or_else_def[of "Some (Inr None)"])
  then show ?thesis
    using withinProbation_settled[OF _ s assms(5)] narrowing(1)[of ?O "Some k"]
    by (auto simp: narrows_def exit_id_def list_ex_iff dest!: subsetD)
qed

lemma chooseMix_budget:
  assumes "chooseMix fill (mixesOf nodes) (exitsOf nodes) e None avoid (Some k) = Some (Inr (Some m))"
    and "s \<in> set nodes" "node_id s \<noteq> node_id e" "\<not> exit_id nodes s" "\<not> probation s"
  shows "(k - on_probation (Some e) \<le> 0 \<longrightarrow> on_probation (Some m) = 0) \<and> \<not> exit_id nodes m"
proof -
  let ?O = "filter (\<lambda>n. \<not> list_ex (\<lambda>x. node_id x = node_id n) (exitsOf nodes)) (filter (\<lambda>n. node_id n \<noteq> node_id e) nodes)"
  let ?b = "Some (k - on_probation (Some e))"
  have s: "s \<in> set ?O" using assms(2-4) by (auto simp: exit_id_def list_ex_iff)
  have "m \<in> set (preferNotAvoided (withinProbation ?O ?b) avoid)"
    using assms(1) within_nonempty(2)[OF s, of ?b avoid] or_else_in[of fill "preferNotAvoided (withinProbation ?O ?b) avoid" _ m]
    by (simp add: chooseMix_def Let_def same_id_def on_probation_def[of None] budget_minus_def pool_defs)
  then have m: "m \<in> set (withinProbation ?O ?b)" by (rule avoided_subset)
  then show ?thesis
    using withinProbation_settled[OF m s assms(5)] narrowing(1)[of ?O ?b]
    by (auto simp: narrows_def exit_id_def list_ex_iff dest!: subsetD)
qed

lemma chooseExit_budget:
  assumes "chooseExit fill (exitsOf nodes) e m None avoid (Some k) = Some (Inr (Some x))"
    and "s \<in> set (exitsOf nodes)" "node_id s \<noteq> node_id e" "node_id s \<noteq> node_id m" "\<not> probation s"
  shows "k - (on_probation (Some e) + on_probation (Some m)) \<le> 0 \<longrightarrow> on_probation (Some x) = 0"
proof -
  let ?O = "filter (\<lambda>n. node_id n \<noteq> node_id e \<and> node_id n \<noteq> node_id m) (exitsOf nodes)"
  let ?b = "Some (k - (on_probation (Some e) + on_probation (Some m)))"
  have s: "s \<in> set ?O" using assms(2-4) by simp
  have "x \<in> set (preferNotAvoided (withinProbation ?O ?b) avoid)"
    using assms(1) by (intro pickRandom_in[of fill]) (simp add: chooseExit_def Let_def budget_minus_def or_else_def)
  then show ?thesis using withinProbation_settled[OF avoided_subset s assms(5)] by blast
qed

text \<open>
  The cap on probation hops. When no hop is pinned and the topology has two settled members that can be
  entries and are not exits, and a settled exit, every route selected under the cap \<open>k\<close>, for any random source and any set to
  avoid, carries at most \<open>k\<close> hops on probation.
\<close>

theorem probation_cap:
  assumes run: "selectRoute rnd nodes None None avoid isEntry (Some k) = Some (Inr r)" and k: "0 \<le> k"
    and s: "{s1, s2} \<subseteq> set nodes" "isEntry s1" "node_id s1 \<noteq> node_id s2"
      "\<not> exit_id nodes s1" "\<not> exit_id nodes s2" "\<not> probation s1" "\<not> probation s2"
    and x: "s3 \<in> set (exitsOf nodes)" "\<not> probation s3"
  shows "probation_hops r \<le> k"
proof -
  from run obtain e m y where e: "chooseEntry (rnd 0) (entriesOf isEntry nodes) (exitsOf nodes) None None (Some k) = Some (Inr (Some e))"
      and m: "chooseMix (rnd 1) (mixesOf nodes) (exitsOf nodes) e None avoid (Some k) = Some (Inr (Some m))"
      and y: "chooseExit (rnd 2) (exitsOf nodes) e m None avoid (Some k) = Some (Inr (Some y))"
      and r: "r = \<lparr>rt_entry = e, rt_mix = m, rt_exit = y\<rparr>"
    by (auto simp: selectRoute_def Let_def run_bind_Inr_iff fixedHops_def hop_or_throw_def on_probation_def[of None]
        split: if_splits option.splits)
  have E: "(k \<le> 0 \<longrightarrow> on_probation (Some e) = 0) \<and> \<not> exit_id nodes e"
    using chooseEntry_budget[OF e _ s(2,4,6)] s(1) by simp
  have "node_id s1 \<noteq> node_id e \<or> node_id s2 \<noteq> node_id e" using s(3) by auto
  then have M: "(k - on_probation (Some e) \<le> 0 \<longrightarrow> on_probation (Some m) = 0) \<and> \<not> exit_id nodes m"
    using chooseMix_budget[OF m _ _ s(4,6)] chooseMix_budget[OF m _ _ s(5,7)] s(1) by auto
  have "node_id s3 \<noteq> node_id e" "node_id s3 \<noteq> node_id m" using E M x(1) by (auto simp: exit_id_def)
  from chooseExit_budget[OF y x(1) this x(2)]
  have X: "k - (on_probation (Some e) + on_probation (Some m)) \<le> 0 \<longrightarrow> on_probation (Some y) = 0" .
  have "on_probation h \<le> 1" "0 \<le> on_probation h" for h by (simp_all add: on_probation_def split: option.splits)
  then show ?thesis
    unfolding r probation_hops_def using E M X k
    by (smt (verit) route.select_convs)
qed

lemma pickRandom_zero: "few (x # xs) \<Longrightarrow> pickRandom (\<lambda>_. 0) (x # xs) = Some (Inr (Some x))"
proof -
  assume "few (x # xs)"
  then have len: "0 < Suc (length xs)" "Suc (length xs) \<le> 2 ^ 32" by (simp_all add: few_def)
  then have "0 < acceptanceLimit (Suc (length xs))" using acceptanceLimit_half[OF len] by simp
  then have "sample_below (\<lambda>_. 0) (acceptanceLimit (Suc (length xs))) 0 = Some 0"
    by (subst sample_below.simps) simp
  moreover have "nat (1 + int (length xs)) = Suc (length xs)" by simp
  ultimately show ?thesis using len by (simp add: pickRandom_def secureRandomIndex_def)
qed

lemmas select_simps = selectRoute_def entriesOf_def mixesOf_def exitsOf_def layersForRole_def fixedHops_def
  chooseEntry_def chooseMix_def chooseExit_def withinProbation_def preferNotAvoided_def same_id_def on_probation_def
  budget_minus_def or_else_def hop_or_throw_def sample_node_def few_def

theorem probation_cap_witness:
  "probation_hops \<lparr>rt_entry = sample_node ''a'' 1 False, rt_mix = sample_node ''b'' 1 False, rt_exit = sample_node ''c'' 2 False\<rparr> \<le> 0"
proof (rule probation_cap)
  let ?nodes = "[sample_node ''p'' 1 True, sample_node ''a'' 1 False, sample_node ''b'' 1 False, sample_node ''c'' 2 False]"
  show "selectRoute (\<lambda>_ _. 0) ?nodes None None None (\<lambda>_. True) (Some 0) = Some (Inr
      \<lparr>rt_entry = sample_node ''a'' 1 False, rt_mix = sample_node ''b'' 1 False, rt_exit = sample_node ''c'' 2 False\<rparr>)"
    by (simp add: select_simps pickRandom_zero)
  show "{sample_node ''a'' 1 False, sample_node ''b'' 1 False} \<subseteq> set ?nodes" by simp
  show "sample_node ''c'' 2 False \<in> set (exitsOf ?nodes)" by (simp add: exitsOf_def layersForRole_def sample_node_def)
  show "\<not> exit_id ?nodes (sample_node ''a'' 1 False)" "\<not> exit_id ?nodes (sample_node ''b'' 1 False)"
    by (simp_all add: exit_id_def exitsOf_def layersForRole_def sample_node_def)
qed (simp_all add: sample_node_def)

text \<open>
  The cap is not kept whenever it could be. A pool of members that are not exits is preferred even when
  all of them are on probation: with a cap of one hop and the pinned entry on probation, a second relay on probation is
  chosen as the mix, although a settled exit could serve as the mix with another settled exit as the exit; the
  documentation of \<open>selectRoute\<close> has the remaining hops come from settled members whenever such a candidate exists.
\<close>

theorem probation_cap_exceeded:
  "let nodes = [sample_node ''e'' 1 True, sample_node ''p'' 1 True, sample_node ''x'' 2 False, sample_node ''y'' 2 False];
       better = \<lparr>rt_entry = nodes ! 0, rt_mix = nodes ! 2, rt_exit = nodes ! 3\<rparr> in
   (\<exists>r. selectRoute (\<lambda>_ _. 0) nodes (Some (nodes ! 0)) None None (\<lambda>_. True) (Some 1) = Some (Inr r) \<and> probation_hops r = 2)
   \<and> possible_route (\<lambda>_. True) nodes (Some (nodes ! 0)) None better \<and> probation_hops better = 1"
  by (simp add: Let_def select_simps pickRandom_zero probation_hops_def possible_route_def)

end
