(* ===== verification/Topology.thy ===== *)
theory Topology
  imports Js_Json Route_Selection Js_Text "HOL-Library.Multiset"
begin

section \<open>The topology document\<close>

text \<open>
  The rest of \<open>packages/nox-client/src/topology.ts\<close>: reading a seed's topology document, checking it against its own
  fingerprint and against the registry contract, and choosing the live members. The hash functions
  (\<open>keccak256\<close> to \<open>0x\<close>-prefixed hexadecimal text, \<open>sha256\<close> of a string to bytes), the HTTP client and the registry
  contract are parameters. Documents are \<open>json\<close> values until \<open>isTopologySnapshot\<close> accepts them.
\<close>

unbundle bit_operations_syntax

record relayer_node =
  rn_address :: string
  sphinx_key :: string
  rn_url :: string
  stake :: string
  last_seen :: int
  is_privileged :: bool
  rn_layer :: int
  rn_role :: int
  ingress_url :: "string option"
  metadata_url :: "string option"

record topology_liveness =
  tl_address :: string
  tl_status :: string
  observed_at_unix :: int
  tl_capabilities :: json

record topology_snapshot =
  sn_nodes :: "relayer_node list"
  fingerprint :: string
  schema_version :: "int option"
  liveness :: "topology_liveness list option"
  timestamp :: "int option"
  block_number :: "int option"
  pow_difficulty :: "int option"

subsection \<open>Reading the document\<close>

definition strip_0x_ci :: "string \<Rightarrow> string" where
  "strip_0x_ci s = (if take 2 s = ''0x'' \<or> take 2 s = ''0X'' then drop 2 s else s)"

definition normalizeAddress :: "string \<Rightarrow> string" where
  "normalizeAddress addr = ''0x'' @ toLowerCase (strip_0x_ci addr)"

definition hex_text :: "nat \<Rightarrow> string \<Rightarrow> bool" where
  "hex_text n s = (length s = n \<and> list_all is_hex s)"

text \<open>The regular expressions for addresses, fingerprints, keys and stakes.\<close>

definition re_address :: "string \<Rightarrow> bool" where
  "re_address s = (take 2 s = ''0x'' \<and> hex_text 40 (drop 2 s))"

definition re_fingerprint :: "string \<Rightarrow> bool" where
  "re_fingerprint s = (hex_text 64 s \<or> take 2 s = ''0x'' \<and> hex_text 64 (drop 2 s))"

definition re_stake :: "string \<Rightarrow> bool" where
  "re_stake s = (s = ''0'' \<or> s \<noteq> [] \<and> hd s \<noteq> CHR ''0'' \<and> list_all is_digit s)"

definition isTopologyLiveness :: "json \<Rightarrow> bool" where
  "isTopologyLiveness v =
     (isRecord v \<and> str_matches re_address (json_field v ''address'')
      \<and> (json_field v ''status'' = JsStr ''online'' \<or> json_field v ''status'' = JsStr ''offline'')
      \<and> is_natural (json_field v ''observed_at_unix''))"

definition isSnapshotNode :: "json \<Rightarrow> bool" where
  "isSnapshotNode v =
     (isRecord v \<and> str_matches re_address (json_field v ''address'')
      \<and> str_matches (hex_text 64) (json_field v ''sphinx_key'')
      \<and> str_matches (\<lambda>s. length s > 0) (json_field v ''url'')
      \<and> str_matches re_stake (json_field v ''stake'')
      \<and> is_natural (json_field v ''last_seen'')
      \<and> is_bool (json_field v ''is_privileged'')
      \<and> is_natural (json_field v ''layer'')
      \<and> is_natural (json_field v ''role'') \<and> as_int (json_field v ''role'') \<ge> 1 \<and> as_int (json_field v ''role'') \<le> 3
      \<and> (json_field v ''ingress_url'' = JsUndef \<or> str_matches (\<lambda>_. True) (json_field v ''ingress_url''))
      \<and> (json_field v ''metadata_url'' = JsUndef \<or> str_matches (\<lambda>_. True) (json_field v ''metadata_url'')))"

definition isTopologySnapshot :: "json \<Rightarrow> bool" where
  "isTopologySnapshot v =
     (isRecord v \<and> arr_matches (\<lambda>_. True) (json_field v ''nodes'')
      \<and> str_matches re_fingerprint (json_field v ''fingerprint'')
      \<and> list_all (\<lambda>f. json_field v f = JsUndef \<or> is_natural (json_field v f))
          [''schema_version'', ''timestamp'', ''block_number'', ''pow_difficulty'']
      \<and> arr_matches isSnapshotNode (json_field v ''nodes'')
      \<and> (json_field v ''liveness'' = JsUndef \<or> arr_matches isTopologyLiveness (json_field v ''liveness'')))"

text \<open>The type the document has once accepted (\<open>value is TopologySnapshot\<close>).\<close>

definition as_node :: "json \<Rightarrow> relayer_node" where
  "as_node v = \<lparr>rn_address = as_str (json_field v ''address''), sphinx_key = as_str (json_field v ''sphinx_key''),
     rn_url = as_str (json_field v ''url''), stake = as_str (json_field v ''stake''),
     last_seen = as_int (json_field v ''last_seen''), is_privileged = as_bool (json_field v ''is_privileged''),
     rn_layer = as_int (json_field v ''layer''), rn_role = as_int (json_field v ''role''),
     ingress_url = optional as_str (json_field v ''ingress_url''),
     metadata_url = optional as_str (json_field v ''metadata_url'')\<rparr>"

definition as_liveness :: "json \<Rightarrow> topology_liveness" where
  "as_liveness v = \<lparr>tl_address = as_str (json_field v ''address''), tl_status = as_str (json_field v ''status''),
     observed_at_unix = as_int (json_field v ''observed_at_unix''), tl_capabilities = json_field v ''capabilities''\<rparr>"

definition as_snapshot :: "json \<Rightarrow> topology_snapshot" where
  "as_snapshot v = \<lparr>sn_nodes = map as_node (as_list (json_field v ''nodes'')),
     fingerprint = as_str (json_field v ''fingerprint''),
     schema_version = optional as_int (json_field v ''schema_version''),
     liveness = optional (\<lambda>l. map as_liveness (as_list l)) (json_field v ''liveness''),
     timestamp = optional as_int (json_field v ''timestamp''),
     block_number = optional as_int (json_field v ''block_number''),
     pow_difficulty = optional as_int (json_field v ''pow_difficulty'')\<rparr>"

text \<open>One HTTP exchange: it fails, or gives a status and a body (\<open>None\<close> when it is not JSON).\<close>

datatype http_exchange = ExchangeFailed string | HttpReply bool int "json option"

definition strip_slashes :: "string \<Rightarrow> string" where
  "strip_slashes s = rev (dropWhile (\<lambda>c. c = CHR ''/'') (rev s))"

definition fetchTopology :: "(string \<Rightarrow> http_exchange) \<Rightarrow> string \<Rightarrow> topology_snapshot result" where
  "fetchTopology fetch seedBaseUrl =
     (case fetch (strip_slashes seedBaseUrl @ ''/topology'') of
        ExchangeFailed _ \<Rightarrow> throw TopologyFetchFailed ''Topology fetch failed''
      | HttpReply ok status body \<Rightarrow>
          if \<not> ok then throw TopologyFetchFailed ''Topology fetch returned an HTTP error''
          else (case body of
              None \<Rightarrow> throw TopologyFetchFailed ''Topology response is not valid JSON''
            | Some candidate \<Rightarrow>
                if \<not> isTopologySnapshot candidate
                then throw TopologyFetchFailed ''Topology response has invalid topology fields''
                else Inr (as_snapshot candidate)))"

subsection \<open>Self-consistency\<close>

definition xor_hash :: "bytes \<Rightarrow> bytes \<Rightarrow> bytes" where
  "xor_hash acc hash = map (\<lambda>i. acc ! i XOR (if i < length hash then hash ! i else 0)) [0..<32]"

definition addressHash :: "(bytes \<Rightarrow> string) \<Rightarrow> string \<Rightarrow> bytes result" where
  "addressHash keccak256 address =
     rbind (hexToBytes (toLowerCase (strip_0x_ci address))) (\<lambda>addrBytes. hexToBytes (drop 2 (keccak256 addrBytes)))"

fun fingerprint_loop :: "(bytes \<Rightarrow> string) \<Rightarrow> relayer_node list \<Rightarrow> bytes \<Rightarrow> bytes result" where
  "fingerprint_loop keccak256 [] acc = Inr acc"
| "fingerprint_loop keccak256 (n # ns) acc =
     rbind (addressHash keccak256 (rn_address n)) (\<lambda>hash. fingerprint_loop keccak256 ns (xor_hash acc hash))"

definition computeTopologyFingerprint :: "(bytes \<Rightarrow> string) \<Rightarrow> relayer_node list \<Rightarrow> string result" where
  "computeTopologyFingerprint keccak256 nodes =
     rbind (fingerprint_loop keccak256 nodes (replicate 32 0)) (\<lambda>acc. Inr (bytesToHex acc))"

text \<open>The profile fields are typed here, so the check on their types always passes.\<close>

definition validateNode :: "relayer_node \<Rightarrow> string list \<Rightarrow> unit result" where
  "validateNode n seen =
     (if \<not> re_address (rn_address n) then throw TopologyVerificationFailed ''Topology node has invalid Ethereum address''
      else if toLowerCase (rn_address n) \<in> set seen
      then throw TopologyVerificationFailed ''Topology contains duplicate node address''
      else if \<not> hex_text 64 (sphinx_key n) then throw TopologyVerificationFailed ''Topology node has invalid Sphinx key''
      else if \<not> re_stake (stake n) then throw TopologyVerificationFailed ''Topology node has invalid stake''
      else if rn_role n < 1 \<or> rn_role n > 3 then throw TopologyVerificationFailed ''Topology node has unsupported role''
      else if rn_layer n \<notin> set (layersForRole (rn_role n))
      then throw TopologyVerificationFailed ''Topology node has a layer outside its role''
      else Inr ())"

fun validate_loop :: "relayer_node list \<Rightarrow> string list \<Rightarrow> unit result" where
  "validate_loop [] seen = Inr ()"
| "validate_loop (n # ns) seen =
     rbind (validateNode n seen) (\<lambda>_. validate_loop ns (toLowerCase (rn_address n) # seen))"

definition validateSnapshotNodes :: "relayer_node list \<Rightarrow> unit result" where
  "validateSnapshotNodes nodes = validate_loop nodes []"

definition primaryLayerForRole :: "(string \<Rightarrow> bytes) \<Rightarrow> string \<Rightarrow> int \<Rightarrow> int" where
  "primaryLayerForRole sha256 address role =
     (let firstHashByte = (case sha256 (normalizeAddress address) of [] \<Rightarrow> 0 | b # _ \<Rightarrow> uint b) in
      if role = 1 then firstHashByte mod 2 else if role = 2 then 2 else firstHashByte mod 3)"

definition isCanonicalAddressOrder :: "string list \<Rightarrow> bool" where
  "isCanonicalAddressOrder addresses =
     list_all (\<lambda>i. i = 0 \<or> js_less (addresses ! (i - 1)) (addresses ! i)) [0..<length addresses]"

fun check_observations :: "string list \<Rightarrow> topology_liveness list \<Rightarrow> string list \<Rightarrow> string list result" where
  "check_observations members [] observations = Inr observations"
| "check_observations members (o1 # os) observations =
     (let address = normalizeAddress (tl_address o1) in
      if address \<notin> set members then throw TopologyVerificationFailed ''Topology liveness contains non-member''
      else if address \<in> set observations
      then throw TopologyVerificationFailed ''Topology liveness contains duplicate member''
      else check_observations members os (observations @ [address]))"

definition validateLiveness :: "(string \<Rightarrow> bytes) \<Rightarrow> topology_snapshot \<Rightarrow> bool \<Rightarrow> unit result" where
  "validateLiveness sha256 sn requireCompleteLiveness =
     (let schemaVersion = (case schema_version sn of None \<Rightarrow> 1 | Some v \<Rightarrow> v) in
      if \<not> isSafeInteger schemaVersion \<or> schemaVersion \<noteq> 1 \<and> schemaVersion \<noteq> 2
      then throw TopologyVerificationFailed ''Unsupported topology schema_version''
      else if schemaVersion \<noteq> 2 then
        (if requireCompleteLiveness
         then throw TopologyVerificationFailed ''Topology schema_version 2 with complete liveness is required'' else Inr ())
      else
        (case (block_number sn, timestamp sn, liveness sn) of
           (Some b, Some t, Some obs) \<Rightarrow>
             if b \<le> 0 \<or> t \<le> 0
             then throw TopologyVerificationFailed ''Topology schema_version 2 requires a pinned block, timestamp, and liveness set''
             else
               (let memberAddresses = map (\<lambda>n. normalizeAddress (rn_address n)) (sn_nodes sn);
                    livenessAddresses = map (\<lambda>o1. normalizeAddress (tl_address o1)) obs in
                if \<not> isCanonicalAddressOrder memberAddresses \<or> \<not> isCanonicalAddressOrder livenessAddresses
                then throw TopologyVerificationFailed ''canonical address ordering''
                else if list_ex (\<lambda>n. rn_layer n \<noteq> primaryLayerForRole sha256 (rn_address n) (rn_role n)) (sn_nodes sn)
                then throw TopologyVerificationFailed ''primary layer''
                else rbind (check_observations memberAddresses obs []) (\<lambda>observations.
                     if card (set observations) \<noteq> card (set memberAddresses)
                     then throw TopologyVerificationFailed ''Topology liveness does not cover every registered member''
                     else Inr ()))
         | _ \<Rightarrow> throw TopologyVerificationFailed ''Topology schema_version 2 requires a pinned block, timestamp, and liveness set''))"

definition verifySelfConsistency ::
  "(bytes \<Rightarrow> string) \<Rightarrow> (string \<Rightarrow> bytes) \<Rightarrow> topology_snapshot \<Rightarrow> bool \<Rightarrow> unit result" where
  "verifySelfConsistency keccak256 sha256 sn requireCompleteLiveness =
     rbind (validateSnapshotNodes (sn_nodes sn)) (\<lambda>_.
     rbind (validateLiveness sha256 sn requireCompleteLiveness) (\<lambda>_.
     rbind (computeTopologyFingerprint keccak256 (sn_nodes sn)) (\<lambda>computed.
     if computed \<noteq> strip_0x (toLowerCase (fingerprint sn))
     then throw TopologyVerificationFailed ''Topology fingerprint mismatch'' else Inr ())))"

subsection \<open>Live members\<close>

definition DEFAULT_CLOCK_SKEW_TOLERANCE_SECONDS :: int where
  "DEFAULT_CLOCK_SKEW_TOLERANCE_SECONDS = 60"

definition livenessByAddress :: "topology_liveness list \<Rightarrow> (string, topology_liveness) jsmap" where
  "livenessByAddress obs = fold (\<lambda>o1. jsmap_set (normalizeAddress (tl_address o1)) o1) obs []"

definition selectLiveNodes :: "(string \<Rightarrow> bytes) \<Rightarrow> topology_snapshot \<Rightarrow> int \<Rightarrow> int \<Rightarrow> int \<Rightarrow> relayer_node list result" where
  "selectLiveNodes sha256 sn nowUnix maxAgeSeconds clockSkewToleranceSeconds =
     (if \<not> isSafeInteger nowUnix \<or> nowUnix < 0 \<or> \<not> isSafeInteger maxAgeSeconds \<or> maxAgeSeconds \<le> 0
         \<or> \<not> isSafeInteger clockSkewToleranceSeconds \<or> clockSkewToleranceSeconds < 0
      then throw InvalidConfig ''Liveness selection requires non-negative time and positive maximum age''
      else
        rbind (validateLiveness sha256 sn True) (\<lambda>_.
        let snapshotUnix = the (timestamp sn) in
        if nowUnix - snapshotUnix > maxAgeSeconds + clockSkewToleranceSeconds
        then throw TopologyVerificationFailed ''Topology snapshot is older than the local clock''
        else
          (let byAddress = livenessByAddress (the (liveness sn)) in
           Inr (filter (\<lambda>n. case jsmap_get byAddress (normalizeAddress (rn_address n)) of
                    None \<Rightarrow> False
                  | Some o1 \<Rightarrow> tl_status o1 = ''online'' \<and> observed_at_unix o1 \<le> snapshotUnix
                      \<and> snapshotUnix - observed_at_unix o1 \<le> maxAgeSeconds) (sn_nodes sn)))))"

definition MAX_CAPABILITIES :: nat where
  "MAX_CAPABILITIES = 32"

definition MAX_CAPABILITY_LENGTH :: nat where
  "MAX_CAPABILITY_LENGTH = 64"

definition capability_ok :: "json \<Rightarrow> bool" where
  "capability_ok v = str_matches (\<lambda>s. length s > 0 \<and> length s \<le> MAX_CAPABILITY_LENGTH) v"

definition livenessCapabilities :: "topology_snapshot \<Rightarrow> (string, string list) jsmap" where
  "livenessCapabilities sn =
     fold (\<lambda>o1 m. case tl_capabilities o1 of
         JsArr cs \<Rightarrow> if length cs \<le> MAX_CAPABILITIES \<and> list_all capability_ok cs
                     then jsmap_set (normalizeAddress (tl_address o1)) (map as_str cs) m else m
       | _ \<Rightarrow> m)
       (case liveness sn of None \<Rightarrow> [] | Some obs \<Rightarrow> obs) []"

subsection \<open>The registry contract\<close>

text \<open>\<open>relayers(address)\<close> as decoded, and the contract's reads at a block.\<close>

record chain_profile =
  cp_sphinxKey :: string
  cp_url :: string
  cp_ingressUrl :: string
  cp_metadataUrl :: string
  cp_stakedAmount :: int
  cp_isRegistered :: bool
  cp_status :: int
  cp_frozen :: bool

record registry =
  reg_blockNumber :: "string result"
  reg_fingerprint :: "string \<Rightarrow> string result"
  reg_count :: "string \<Rightarrow> int result"
  reg_relayers :: "string \<Rightarrow> string \<Rightarrow> chain_profile result"
  reg_role :: "string \<Rightarrow> string \<Rightarrow> int result"

fun read_members :: "registry \<Rightarrow> string \<Rightarrow> relayer_node list \<Rightarrow> (chain_profile \<times> int) list result" where
  "read_members reg blockTag [] = Inr []"
| "read_members reg blockTag (n # ns) =
     rbind (reg_relayers reg blockTag (rn_address n)) (\<lambda>profile.
     rbind (reg_role reg blockTag (rn_address n)) (\<lambda>role.
     rbind (read_members reg blockTag ns) (\<lambda>rest. Inr ((profile, role) # rest))))"

definition registryReads ::
  "registry \<Rightarrow> string \<Rightarrow> relayer_node list \<Rightarrow> (string \<times> int \<times> (chain_profile \<times> int) list) result" where
  "registryReads reg blockTag nodes =
     rbind (reg_fingerprint reg blockTag) (\<lambda>fp. rbind (reg_count reg blockTag) (\<lambda>cnt.
     rbind (read_members reg blockTag nodes) (\<lambda>ms. Inr (fp, cnt, ms))))"

definition BigInt :: "string \<Rightarrow> int" where
  "BigInt s = int (nat_of_digits s 0)"

definition profile_matches :: "relayer_node \<Rightarrow> chain_profile \<Rightarrow> int \<Rightarrow> bool" where
  "profile_matches n profile role =
     (toLowerCase (strip_0x (sphinx_key n)) = toLowerCase (strip_0x (cp_sphinxKey profile))
      \<and> rn_url n = cp_url profile
      \<and> (case ingress_url n of None \<Rightarrow> [] | Some u \<Rightarrow> u) = cp_ingressUrl profile
      \<and> (case metadata_url n of None \<Rightarrow> [] | Some u \<Rightarrow> u) = cp_metadataUrl profile
      \<and> BigInt (stake n) = cp_stakedAmount profile
      \<and> is_privileged n = (cp_stakedAmount profile = 0)
      \<and> cp_isRegistered profile
      \<and> rn_role n = role)"

fun match_members :: "relayer_node list \<Rightarrow> (chain_profile \<times> int) list \<Rightarrow> string list \<Rightarrow> string list result" where
  "match_members (n # ns) ((profile, role) # rest) eligible =
     (if \<not> profile_matches n profile role then throw TopologyVerificationFailed ''Topology node differs from NoxRegistry''
      else match_members ns rest
             (if (cp_status profile = 1 \<or> cp_status profile = 2) \<and> \<not> cp_frozen profile
              then eligible @ [normalizeAddress (rn_address n)] else eligible))"
| "match_members _ _ eligible = Inr eligible"

definition verifyOnChainWithEligibility ::
  "(bytes \<Rightarrow> string) \<Rightarrow> registry \<Rightarrow> relayer_node list \<Rightarrow> int option \<Rightarrow> string list result" where
  "verifyOnChainWithEligibility keccak256 reg nodes snapshotBlockNumber =
     rbind (validateSnapshotNodes nodes) (\<lambda>_.
     rbind (computeTopologyFingerprint keccak256 nodes) (\<lambda>expectedFingerprint.
     if (case snapshotBlockNumber of None \<Rightarrow> False | Some b \<Rightarrow> \<not> isSafeInteger b \<or> b < 0)
     then throw TopologyVerificationFailed ''Topology snapshot block_number must be a non-negative safe integer''
     else
       rbind (case snapshotBlockNumber of
                None \<Rightarrow> reg_blockNumber reg
              | Some b \<Rightarrow> if b = 0 then reg_blockNumber reg else Inr (''0x'' @ to_string16 (nat b))) (\<lambda>blockTag.
       rbind (registryReads reg blockTag nodes) (\<lambda>(fp, cnt, members).
       if toLowerCase (strip_0x fp) \<noteq> expectedFingerprint
       then throw TopologyVerificationFailed ''On-chain fingerprint mismatch''
       else if cnt \<noteq> int (length nodes)
       then throw TopologyVerificationFailed ''On-chain relayer count mismatch''
       else match_members nodes members []))))"

definition verifyOnChain :: "(bytes \<Rightarrow> string) \<Rightarrow> registry \<Rightarrow> relayer_node list \<Rightarrow> int option \<Rightarrow> unit result" where
  "verifyOnChain keccak256 reg nodes snapshotBlockNumber =
     rbind (verifyOnChainWithEligibility keccak256 reg nodes snapshotBlockNumber) (\<lambda>_. Inr ())"

subsection \<open>Nodes for routing\<close>

definition parseNode :: "relayer_node \<Rightarrow> topology_node result" where
  "parseNode raw =
     (let keyHex = strip_0x_ci (sphinx_key raw) in
      if length keyHex \<noteq> 64 then throw TopologyVerificationFailed ''sphinx_key must be 64 hex chars''
      else rbind (hexToBytes keyHex) (\<lambda>key.
        Inr \<lparr>node_id = normalizeAddress (rn_address raw),
             node_address = (case ingress_url raw of None \<Rightarrow> [] | Some u \<Rightarrow> u), routingAddress = rn_url raw,
             publicKey = key, node_layer = rn_layer raw, node_role = rn_role raw,
             node_capabilities = None, probation = False\<rparr>))"

fun parse_all :: "relayer_node list \<Rightarrow> topology_node list result" where
  "parse_all [] = Inr []"
| "parse_all (n # ns) = rbind (parseNode n) (\<lambda>p. rbind (parse_all ns) (\<lambda>ps. Inr (p # ps)))"

definition parseNodes :: "topology_snapshot \<Rightarrow> topology_node list result" where
  "parseNodes sn = parse_all (sn_nodes sn)"

definition SURB_V2_CAPABILITY :: string where
  "SURB_V2_CAPABILITY = ''surb_v2''"

definition supportsSurbV2 :: "topology_node \<Rightarrow> bool" where
  "supportsSurbV2 n = (case node_capabilities n of None \<Rightarrow> False | Some cs \<Rightarrow> SURB_V2_CAPABILITY \<in> set cs)"

definition MAX_SURB_V2_ADDRESS_BYTES :: nat where
  "MAX_SURB_V2_ADDRESS_BYTES = 93"

definition routeSupportsSurbV2 :: "route \<Rightarrow> bool" where
  "routeSupportsSurbV2 r =
     (supportsSurbV2 (rt_entry r) \<and> supportsSurbV2 (rt_mix r) \<and> supportsSurbV2 (rt_exit r)
      \<and> length (text_encode (js_lit (routingAddress (rt_entry r)))) \<le> MAX_SURB_V2_ADDRESS_BYTES)"

subsection \<open>Seeds\<close>

text \<open>\<open>packages/nox-client/src/seeder.ts\<close>.\<close>

definition DEFAULT_SEED :: string where
  "DEFAULT_SEED = ''https://api.hisoka.io/seed''"

definition seedBaseUrl :: "string \<Rightarrow> string" where
  "seedBaseUrl seed =
     (let trimmed = strip_slashes seed; k = length trimmed - length ''/topology'' in
      if length ''/topology'' \<le> length trimmed \<and> drop k trimmed = ''/topology'' then take k trimmed else trimmed)"

text \<open>\<open>Array.from(new Set(xs))\<close> keeps first occurrences.\<close>

fun js_unique :: "'a list \<Rightarrow> 'a list \<Rightarrow> 'a list" where
  "js_unique [] seen = seen"
| "js_unique (x # xs) seen = js_unique xs (if x \<in> set seen then seen else seen @ [x])"

definition seedCandidates :: "string list \<Rightarrow> bool \<Rightarrow> string list" where
  "seedCandidates userSeeds includeDefault =
     js_unique (map seedBaseUrl userSeeds @ (if includeDefault then [DEFAULT_SEED] else [])) []"

fun first_reachable :: "(string \<Rightarrow> http_exchange) \<Rightarrow> string list \<Rightarrow> string option" where
  "first_reachable fetch [] = None"
| "first_reachable fetch (seed # seeds) =
     (case fetch (seed @ ''/topology'') of
        HttpReply True _ _ \<Rightarrow> Some seed
      | _ \<Rightarrow> first_reachable fetch seeds)"

definition resolveSeedUrl :: "(string \<Rightarrow> http_exchange) \<Rightarrow> string list \<Rightarrow> string option" where
  "resolveSeedUrl fetch userSeeds = first_reachable fetch (seedCandidates userSeeds True)"

lemma js_unique_set: "distinct seen \<Longrightarrow> distinct (js_unique xs seen) \<and> set (js_unique xs seen) = set xs \<union> set seen"
  by (induction xs seen rule: js_unique.induct) auto

lemma first_reachable_None:
  "first_reachable fetch seeds = None \<longleftrightarrow> (\<forall>s \<in> set seeds. \<forall>st b. fetch (s @ ''/topology'') \<noteq> HttpReply True st b)"
  by (induction fetch seeds rule: first_reachable.induct) (auto split: http_exchange.splits bool.splits)

lemma resolveSeedUrl_None:
  "resolveSeedUrl fetch userSeeds = None \<longleftrightarrow>
     (\<forall>s \<in> insert DEFAULT_SEED (seedBaseUrl ` set userSeeds). \<forall>st b. fetch (s @ ''/topology'') \<noteq> HttpReply True st b)"
  using js_unique_set[of "[]" "map seedBaseUrl userSeeds @ [DEFAULT_SEED]"]
  by (auto simp: resolveSeedUrl_def first_reachable_None seedCandidates_def)

end
