(* ===== verification/Topology_Verified.thy ===== *)
theory Topology_Verified
  imports Topology
begin

section \<open>Verified topologies\<close>

text \<open>
  What a topology that passed the checks of \<open>topology.ts\<close> satisfies, and that nothing else passes. The
  specification of a consistent snapshot is \<open>consistent\<close>; fingerprints are characterised as the exclusive
  or of the members' hashes under the documented form of \<open>keccak256\<close> (\<open>keccak_form\<close>).
\<close>

unbundle bit_operations_syntax

subsection \<open>Addresses and members\<close>

definition member_id :: "relayer_node \<Rightarrow> string" where
  "member_id n = normalizeAddress (rn_address n)"

definition node_ok :: "relayer_node \<Rightarrow> bool" where
  "node_ok n = (re_address (rn_address n) \<and> hex_text 64 (sphinx_key n) \<and> re_stake (stake n)
     \<and> rn_role n \<in> {1, 2, 3} \<and> rn_layer n \<in> set (layersForRole (rn_role n)))"

lemma lower_0x: "lower_char (CHR ''0'') = CHR ''0''" "lower_char (CHR ''x'') = CHR ''x''"
  by (simp_all add: lower_char_def)

lemma normalize_lower: "re_address a \<Longrightarrow> normalizeAddress a = toLowerCase a"
proof -
  assume "re_address a"
  then obtain s where "a = CHR ''0'' # CHR ''x'' # s"
    by (cases a; cases "tl a") (auto simp: re_address_def)
  then show ?thesis by (simp add: normalizeAddress_def strip_0x_ci_def toLowerCase_def lower_0x)
qed

lemma validateNode_iff:
  "validateNode n seen = Inr () \<longleftrightarrow> node_ok n \<and> toLowerCase (rn_address n) \<notin> set seen"
  by (auto simp: validateNode_def node_ok_def)

lemma validate_loop_iff:
  "validate_loop ns seen = Inr () \<longleftrightarrow>
     list_all node_ok ns \<and> distinct (map member_id ns) \<and> set (map member_id ns) \<inter> set seen = {}"
proof (induction ns arbitrary: seen)
  case (Cons n ns)
  have "validate_loop (n # ns) seen = Inr () \<longleftrightarrow>
      (node_ok n \<and> toLowerCase (rn_address n) \<notin> set seen) \<and> validate_loop ns (toLowerCase (rn_address n) # seen) = Inr ()"
    using validateNode_iff[of n seen] by (cases "validateNode n seen") auto
  moreover have "node_ok n \<Longrightarrow> toLowerCase (rn_address n) = member_id n"
    by (simp add: node_ok_def member_id_def normalize_lower)
  ultimately have "validate_loop (n # ns) seen = Inr () \<longleftrightarrow> node_ok n \<and> member_id n \<notin> set seen
      \<and> validate_loop ns (member_id n # seen) = Inr ()" by auto
  also have "\<dots> \<longleftrightarrow> node_ok n \<and> member_id n \<notin> set seen \<and> list_all node_ok ns \<and> distinct (map member_id ns)
      \<and> member_id n \<notin> set (map member_id ns) \<and> set (map member_id ns) \<inter> set seen = {}"
    unfolding Cons.IH by auto
  finally show ?case by auto
qed simp

lemma validateSnapshotNodes_iff:
  "validateSnapshotNodes ns = Inr () \<longleftrightarrow> list_all node_ok ns \<and> distinct (map member_id ns)"
  by (simp add: validateSnapshotNodes_def validate_loop_iff)

lemma validate_error: "validateSnapshotNodes ns = Inl e \<Longrightarrow> \<exists>m. e = NoxClientError TopologyVerificationFailed m"
proof -
  have "validate_loop ns seen = Inl e \<Longrightarrow> \<exists>m. e = NoxClientError TopologyVerificationFailed m" for seen
  proof (induction ns arbitrary: seen)
    case (Cons n ns)
    then show ?case by (cases "validateNode n seen") (auto simp: validateNode_def split: if_splits)
  qed simp
  then show "validateSnapshotNodes ns = Inl e \<Longrightarrow> ?thesis" by (simp add: validateSnapshotNodes_def)
qed

subsection \<open>Liveness\<close>

lemma canonical_iff: "isCanonicalAddressOrder xs \<longleftrightarrow> sorted_wrt js_less xs"
proof
  assume c: "isCanonicalAddressOrder xs"
  show "sorted_wrt js_less xs"
  proof (rule adjacent_sorted)
    fix i assume "Suc i < length xs"
    then show "js_less (xs ! i) (xs ! Suc i)" using c by (auto simp: isCanonicalAddressOrder_def list_all_iff)
  qed
next
  assume "sorted_wrt js_less xs"
  then have "js_less (xs ! (i - 1)) (xs ! i)" if "i < length xs" "i \<noteq> 0" for i
    using that by (simp add: sorted_wrt_iff_nth_less)
  then show "isCanonicalAddressOrder xs" unfolding isCanonicalAddressOrder_def list_all_iff set_upt by fastforce
qed

lemma sorted_js_unique: "sorted_wrt js_less xs \<Longrightarrow> sorted_wrt js_less ys \<Longrightarrow> set xs = set ys \<Longrightarrow> xs = ys"
proof (induction xs arbitrary: ys)
  case (Cons x xs)
  then obtain y ys' where ys: "ys = y # ys'" by (cases ys) auto
  have "x = y"
  proof (rule ccontr)
    assume ne: "x \<noteq> y"
    then have "x \<in> set ys'" "y \<in> set xs" using Cons.prems(3) ys by auto
    then have "js_less y x" "js_less x y" using Cons.prems(1,2) ys by auto
    then show False using js_less_trans js_less_irrefl by blast
  qed
  moreover have "set xs = set ys'"
  proof -
    have "x \<notin> set xs" "y \<notin> set ys'" using js_less_irrefl Cons.prems(1,2) ys by auto
    then show ?thesis using Cons.prems(3) ys \<open>x = y\<close> by (auto simp: insert_eq_iff)
  qed
  ultimately show ?case using Cons ys by auto
qed simp

definition obs_id :: "topology_liveness \<Rightarrow> string" where
  "obs_id o1 = normalizeAddress (tl_address o1)"

lemma check_observations_iff:
  "check_observations members obs acc = Inr res \<longleftrightarrow>
     set (map obs_id obs) \<subseteq> set members \<and> distinct (map obs_id obs) \<and> set (map obs_id obs) \<inter> set acc = {}
     \<and> res = acc @ map obs_id obs"
  by (induction members obs acc rule: check_observations.induct) (auto simp: Let_def obs_id_def)

text \<open>A schema 2 document with a complete liveness set: every member has one observation, in the same order.\<close>

definition complete_liveness :: "(string \<Rightarrow> bytes) \<Rightarrow> topology_snapshot \<Rightarrow> bool" where
  "complete_liveness sha256 sn =
     (schema_version sn = Some 2 \<and> (\<exists>b > 0. block_number sn = Some b) \<and> (\<exists>t > 0. timestamp sn = Some t)
      \<and> (\<exists>obs. liveness sn = Some obs \<and> map obs_id obs = map member_id (sn_nodes sn))
      \<and> sorted_wrt js_less (map member_id (sn_nodes sn))
      \<and> list_all (\<lambda>n. rn_layer n = primaryLayerForRole sha256 (rn_address n) (rn_role n)) (sn_nodes sn))"

lemma validateLiveness_iff: "validateLiveness sha256 sn True = Inr () \<longleftrightarrow> complete_liveness sha256 sn"
proof (cases "schema_version sn = Some 2 \<and> block_number sn \<noteq> None \<and> timestamp sn \<noteq> None \<and> liveness sn \<noteq> None")
  case False
  then show ?thesis
    by (auto simp: validateLiveness_def complete_liveness_def Let_def isSafeInteger_def split: option.splits if_splits)
next
  case True
  then obtain b t obs where o: "schema_version sn = Some 2" "block_number sn = Some b" "timestamp sn = Some t" "liveness sn = Some obs"
    by auto
  let ?M = "map member_id (sn_nodes sn)" and ?O = "map obs_id obs"
  have ids: "map (\<lambda>n. normalizeAddress (rn_address n)) (sn_nodes sn) = ?M" "map (\<lambda>o1. normalizeAddress (tl_address o1)) obs = ?O"
    by (simp_all add: member_id_def obs_id_def)
  have eq: "(set ?O \<subseteq> set ?M \<and> distinct ?O \<and> card (set ?O) = card (set ?M)) \<longleftrightarrow> ?O = ?M"
    if "sorted_wrt js_less ?M" "sorted_wrt js_less ?O"
  proof
    assume "set ?O \<subseteq> set ?M \<and> distinct ?O \<and> card (set ?O) = card (set ?M)"
    then have "set ?O = set ?M" by (simp add: card_subset_eq)
    then show "?O = ?M" using sorted_js_unique[OF that(2,1)] by simp
  next
    assume "?O = ?M"
    then show "set ?O \<subseteq> set ?M \<and> distinct ?O \<and> card (set ?O) = card (set ?M)"
      using sorted_js_distinct[OF that(2)] by simp
  qed
  have "validateLiveness sha256 sn True = Inr () \<longleftrightarrow> 0 < b \<and> 0 < t \<and> sorted_wrt js_less ?M \<and> sorted_wrt js_less ?O
      \<and> list_all (\<lambda>n. rn_layer n = primaryLayerForRole sha256 (rn_address n) (rn_role n)) (sn_nodes sn)
      \<and> (set ?O \<subseteq> set ?M \<and> distinct ?O \<and> card (set ?O) = card (set ?M))"
    unfolding validateLiveness_def Let_def o option.case prod.case ids canonical_iff
    by (auto simp: isSafeInteger_def rbind_Inr_iff check_observations_iff list_all_iff list_ex_iff)
  also have "\<dots> \<longleftrightarrow> complete_liveness sha256 sn"
  proof -
    have "complete_liveness sha256 sn \<longleftrightarrow> 0 < b \<and> 0 < t \<and> ?O = ?M \<and> sorted_wrt js_less ?M
        \<and> list_all (\<lambda>n. rn_layer n = primaryLayerForRole sha256 (rn_address n) (rn_role n)) (sn_nodes sn)"
      by (auto simp: complete_liveness_def o)
    moreover have "sorted_wrt js_less ?O" if "?O = ?M" "sorted_wrt js_less ?M" using that by simp
    ultimately show ?thesis using eq by blast
  qed
  finally show ?thesis .
qed

subsection \<open>Fingerprints\<close>

text \<open>\<open>keccak256\<close> of the \<^verbatim>\<open>ethers\<close> package returns the 32-byte digest as \<open>0x\<close>-prefixed lowercase hexadecimal text.\<close>

definition keccak_form :: "(bytes \<Rightarrow> string) \<Rightarrow> (bytes \<Rightarrow> bytes) \<Rightarrow> bool" where
  "keccak_form keccak256 digest = (\<forall>b. keccak256 b = ''0x'' @ bytesToHex (digest b) \<and> length (digest b) = 32)"

definition member_hash :: "(bytes \<Rightarrow> bytes) \<Rightarrow> relayer_node \<Rightarrow> bytes" where
  "member_hash digest n = digest (parse_pairs (toLowerCase (drop 2 (rn_address n))))"

lemma lower_hex: "is_hex c \<Longrightarrow> is_hex (lower_char c)"
proof -
  assume c: "is_hex c"
  have "is_hex (hex_char n)" if "n < 16" for n using hex_value_hex_char[OF that] by (simp add: is_hex_def)
  moreover have "the (hex_value c) < 16" using c hex_value_less by (auto simp: is_hex_def)
  ultimately show ?thesis using hex_char_lower[OF c] by metis
qed

lemma not_hex_x: "\<not> is_hex (CHR ''x'')"
  by (simp add: is_hex_def hex_value_def)

lemma strip_0x_hex: "list_all is_hex s \<Longrightarrow> strip_0x s = s"
  using not_hex_x by (cases s; cases "tl s") (auto simp: strip_0x_def)

lemma addressHash_ok:
  assumes "keccak_form keccak256 digest" "re_address (rn_address n)"
  shows "addressHash keccak256 (rn_address n) = Inr (member_hash digest n)"
proof -
  let ?a = "rn_address n"
  have t: "take 2 ?a = ''0x''" and hex: "list_all is_hex (drop 2 ?a)" and len: "length (drop 2 ?a) = 40"
    using assms(2) by (auto simp: re_address_def hex_text_def)
  have lower: "list_all is_hex (toLowerCase (drop 2 ?a))"
    using hex lower_hex by (auto simp: toLowerCase_def list_all_iff)
  have "hexToBytes (toLowerCase (strip_0x_ci ?a)) = Inr (parse_pairs (toLowerCase (drop 2 ?a)))"
    using t len lower strip_0x_hex[OF lower] by (simp add: strip_0x_ci_def hexToBytes_def Let_def toLowerCase_def)
  moreover have "hexToBytes (drop 2 (keccak256 b)) = Inr (digest b)" for b
    using assms(1) by (simp add: keccak_form_def hexToBytes_bytesToHex)
  ultimately show ?thesis by (simp add: addressHash_def member_hash_def)
qed

definition xor_all :: "(bytes \<Rightarrow> bytes) \<Rightarrow> relayer_node list \<Rightarrow> bytes \<Rightarrow> bytes" where
  "xor_all digest ns acc = fold (\<lambda>n acc. xor_hash acc (member_hash digest n)) ns acc"

lemma length_xor_hash [simp]: "length (xor_hash acc h) = 32"
  by (simp add: xor_hash_def)

lemma length_xor_all: "length acc = 32 \<Longrightarrow> length (xor_all digest ns acc) = 32"
  by (induction ns arbitrary: acc) (simp_all add: xor_all_def)

lemma xor_hash_commute: "xor_hash (xor_hash acc h) h' = xor_hash (xor_hash acc h') h"
  by (auto simp: xor_hash_def xor.left_commute xor.commute xor.assoc intro!: map_cong)

lemma xor_hash_cancel:
  assumes "length h = 32" "length h' = 32" "xor_hash acc h = xor_hash acc h'"
  shows "h = h'"
proof (rule nth_equalityI)
  fix i assume "i < length h"
  then have i: "i < 32" using assms(1) by simp
  have "xor_hash acc h ! i = xor_hash acc h' ! i" using assms(3) by simp
  then have "acc ! i XOR h ! i = acc ! i XOR h' ! i" using i assms(1,2) by (simp add: xor_hash_def)
  then have "acc ! i XOR (acc ! i XOR h ! i) = acc ! i XOR (acc ! i XOR h' ! i)" by (rule arg_cong)
  then show "h ! i = h' ! i" by (simp add: xor.assoc[symmetric])
qed (use assms in simp)

lemma xor_all_hash: "xor_all digest ns (xor_hash acc h) = xor_hash (xor_all digest ns acc) h"
  by (induction ns arbitrary: acc) (simp_all add: xor_all_def xor_hash_commute[of _ h])

lemma computeTopologyFingerprint_eq:
  assumes "keccak_form keccak256 digest" "list_all (\<lambda>n. re_address (rn_address n)) ns"
  shows "computeTopologyFingerprint keccak256 ns = Inr (bytesToHex (xor_all digest ns (replicate 32 0)))"
proof -
  have "fingerprint_loop keccak256 ns acc = Inr (xor_all digest ns acc)" for acc
    using assms(2)
  proof (induction ns arbitrary: acc)
    case (Cons n ns)
    have a: "re_address (rn_address n)" using Cons.prems by simp
    show ?case
      unfolding fingerprint_loop.simps addressHash_ok[OF assms(1) a]
      using Cons.IH Cons.prems by (simp add: xor_all_def)
  qed (simp add: xor_all_def)
  then show ?thesis by (simp add: computeTopologyFingerprint_def)
qed

text \<open>
  The fingerprint identifies the member set. It does not depend on the order in which the
  document lists the members, and replacing one member by another keeps it only when their address hashes collide.
\<close>

theorem fingerprint_of_set:
  assumes "keccak_form keccak256 digest" "list_all (\<lambda>n. re_address (rn_address n)) (a # b # ns)" "mset ms = mset ns"
  shows "computeTopologyFingerprint keccak256 ms = computeTopologyFingerprint keccak256 ns
    \<and> (computeTopologyFingerprint keccak256 (a # ns) = computeTopologyFingerprint keccak256 (b # ms)
        \<longleftrightarrow> member_hash digest a = member_hash digest b)"
proof -
  let ?z = "replicate 32 (0 :: byte)"
  have ok: "list_all (\<lambda>n. re_address (rn_address n)) (a # ns)" "list_all (\<lambda>n. re_address (rn_address n)) ns"
      "list_all (\<lambda>n. re_address (rn_address n)) (b # ms)" "list_all (\<lambda>n. re_address (rn_address n)) ms"
    using assms(2) mset_eq_setD[OF assms(3)] by (simp_all add: list_all_iff)
  have perm: "xor_all digest ms ?z = xor_all digest ns ?z"
    unfolding xor_all_def by (rule arg_cong[OF fold_multiset_equiv[OF _ assms(3)], of _ "\<lambda>f. f ?z"])
      (simp add: comp_def fun_eq_iff xor_hash_commute)
  have inj: "bytesToHex x = bytesToHex y \<longleftrightarrow> x = y" for x y
    by (metis parse_pairs_bytesToHex)
  have len: "length (member_hash digest n) = 32" for n
    using assms(1) by (simp add: keccak_form_def member_hash_def)
  have cons: "xor_all digest (n # xs) ?z = xor_hash (xor_all digest xs ?z) (member_hash digest n)" for n xs
    by (simp add: xor_all_def flip: xor_all_hash[unfolded xor_all_def])
  show ?thesis
    unfolding computeTopologyFingerprint_eq[OF assms(1) ok(1)] computeTopologyFingerprint_eq[OF assms(1) ok(2)]
      computeTopologyFingerprint_eq[OF assms(1) ok(3)] computeTopologyFingerprint_eq[OF assms(1) ok(4)]
    using xor_hash_cancel[OF len len] by (auto simp: cons perm inj)
qed

definition sample_address :: "char \<Rightarrow> string" where
  "sample_address c = ''0x'' @ replicate 40 c"

definition sample_member :: "char \<Rightarrow> int \<Rightarrow> int \<Rightarrow> relayer_node" where
  "sample_member c role layer = \<lparr>rn_address = sample_address c, sphinx_key = replicate 64 c, rn_url = ''u'', stake = ''0'',
     last_seen = 0, is_privileged = True, rn_layer = layer, rn_role = role, ingress_url = None, metadata_url = None\<rparr>"

definition sample_digest :: "bytes \<Rightarrow> bytes" where
  "sample_digest b = take 32 (b @ replicate 32 0)"

definition sample_keccak :: "bytes \<Rightarrow> string" where
  "sample_keccak b = ''0x'' @ bytesToHex (sample_digest b)"

lemma sample_keccak_form: "keccak_form sample_keccak sample_digest"
  by (simp add: keccak_form_def sample_keccak_def sample_digest_def min_def)

lemma sample_address_ok: "is_hex c \<Longrightarrow> re_address (sample_address c)"
  by (simp add: re_address_def sample_address_def hex_text_def list_all_iff)

theorem fingerprint_of_set_witness:
  "computeTopologyFingerprint sample_keccak [sample_member (CHR ''1'') 1 0, sample_member (CHR ''3'') 2 2]
    \<noteq> computeTopologyFingerprint sample_keccak [sample_member (CHR ''2'') 1 0, sample_member (CHR ''3'') 2 2]"
proof -
  let ?n = "\<lambda>c. sample_member c 1 0"
  have h: "is_hex (CHR ''1'')" "is_hex (CHR ''2'')" "is_hex (CHR ''3'')" by (simp_all add: is_hex_def hex_value_def)
  have "list_all (\<lambda>n. re_address (rn_address n)) [?n (CHR ''1''), ?n (CHR ''2''), sample_member (CHR ''3'') 2 2]"
    using sample_address_ok h by (simp add: sample_member_def)
  from fingerprint_of_set[OF sample_keccak_form this refl]
  have "computeTopologyFingerprint sample_keccak [?n (CHR ''1''), sample_member (CHR ''3'') 2 2]
      = computeTopologyFingerprint sample_keccak [?n (CHR ''2''), sample_member (CHR ''3'') 2 2]
      \<longleftrightarrow> member_hash sample_digest (?n (CHR ''1'')) = member_hash sample_digest (?n (CHR ''2''))" by blast
  moreover have "member_hash sample_digest (?n (CHR ''1'')) \<noteq> member_hash sample_digest (?n (CHR ''2''))"
    by code_simp
  ultimately show ?thesis by simp
qed

subsection \<open>Consistent snapshots\<close>

definition consistent :: "(bytes \<Rightarrow> string) \<Rightarrow> (string \<Rightarrow> bytes) \<Rightarrow> topology_snapshot \<Rightarrow> bool" where
  "consistent keccak256 sha256 sn =
     (list_all node_ok (sn_nodes sn) \<and> distinct (map member_id (sn_nodes sn)) \<and> complete_liveness sha256 sn
      \<and> computeTopologyFingerprint keccak256 (sn_nodes sn) = Inr (strip_0x (toLowerCase (fingerprint sn))))"

lemma check_observations_error:
  "check_observations members obs acc = Inl e \<Longrightarrow> \<exists>m. e = NoxClientError TopologyVerificationFailed m"
  by (induction members obs acc rule: check_observations.induct) (auto simp: Let_def split: if_splits)

lemma rbind_Inl_iff: "rbind m f = Inl e \<longleftrightarrow> m = Inl e \<or> (\<exists>x. m = Inr x \<and> f x = Inl e)"
  by (cases m) auto

lemma validateLiveness_error:
  "validateLiveness sha256 sn req = Inl e \<Longrightarrow> \<exists>m. e = NoxClientError TopologyVerificationFailed m"
  by (auto simp: validateLiveness_def Let_def rbind_Inl_iff dest: check_observations_error split: if_splits option.splits)

text \<open>
  C7. Self-verification accepts exactly the consistent documents. With liveness required, \<open>verifySelfConsistency\<close> returns
  if and only if every member is well formed, no two members have the same address, the document is a schema 2 document
  with a positive block and time, its members are in strict address order and in the layer their address and
  role determine, there is one liveness observation for each of them, in their order, and the fingerprint is the one computed from the addresses;
  otherwise it throws \<open>TOPOLOGY_VERIFICATION_FAILED\<close>.
\<close>

theorem verifySelfConsistency_decides:
  assumes "keccak_form keccak256 digest"
  shows "if consistent keccak256 sha256 sn
    then verifySelfConsistency keccak256 sha256 sn True = Inr ()
    else \<exists>m. verifySelfConsistency keccak256 sha256 sn True = throw TopologyVerificationFailed m"
proof (cases "validateSnapshotNodes (sn_nodes sn)")
  case (Inl e)
  then have "\<not> (list_all node_ok (sn_nodes sn) \<and> distinct (map member_id (sn_nodes sn)))"
    using validateSnapshotNodes_iff[of "sn_nodes sn"] by simp
  then show ?thesis using validate_error[OF Inl] Inl by (auto simp: consistent_def verifySelfConsistency_def)
next
  case (Inr u)
  then have ok: "list_all node_ok (sn_nodes sn)" "distinct (map member_id (sn_nodes sn))"
    using validateSnapshotNodes_iff[of "sn_nodes sn"] by simp_all
  show ?thesis
  proof (cases "validateLiveness sha256 sn True")
    case (Inl e)
    then have "\<not> complete_liveness sha256 sn" using validateLiveness_iff[of sha256 sn] by simp
    then show ?thesis
      using validateLiveness_error[OF Inl] Inl Inr by (auto simp: consistent_def verifySelfConsistency_def)
  next
    case l: (Inr v)
    then have live: "complete_liveness sha256 sn" using validateLiveness_iff[of sha256 sn] by simp
    have addr: "list_all (\<lambda>n. re_address (rn_address n)) (sn_nodes sn)"
      using ok(1) by (auto simp: list_all_iff node_ok_def)
    show ?thesis
      using computeTopologyFingerprint_eq[OF assms addr] ok live Inr l
      by (auto simp: consistent_def verifySelfConsistency_def)
  qed
qed

definition sample_snapshot :: topology_snapshot where
  "sample_snapshot =
     \<lparr>sn_nodes = [sample_member (CHR ''1'') 1 0, sample_member (CHR ''2'') 2 2, sample_member (CHR ''3'') 3 0],
      fingerprint = ''0x'' @ replicate 40 (CHR ''0'') @ replicate 24 (CHR ''0''), schema_version = Some 2,
      liveness = Some (map (\<lambda>c. \<lparr>tl_address = sample_address c, tl_status = ''online'', observed_at_unix = 90,
        tl_capabilities = JsUndef\<rparr>) ''123''),
      timestamp = Some 100, block_number = Some 7, pow_difficulty = None\<rparr>"

lemma sample_members: "sn_nodes sample_snapshot = [sample_member (CHR ''1'') 1 0, sample_member (CHR ''2'') 2 2, sample_member (CHR ''3'') 3 0]"
  by (simp add: sample_snapshot_def)

lemma sample_ids: "map member_id (sn_nodes sample_snapshot) = map sample_address ''123''"
  by code_simp

lemma sample_ok: "list_all node_ok (sn_nodes sample_snapshot)" "distinct (map member_id (sn_nodes sample_snapshot))"
  by code_simp+

lemma sample_live: "complete_liveness (\<lambda>_. [0]) sample_snapshot"
proof -
  have "isCanonicalAddressOrder (map member_id (sn_nodes sample_snapshot))" by code_simp
  moreover have "list_all (\<lambda>n. rn_layer n = primaryLayerForRole (\<lambda>_. [0]) (rn_address n) (rn_role n)) (sn_nodes sample_snapshot)"
    by code_simp
  moreover have "map obs_id (map (\<lambda>c. \<lparr>tl_address = sample_address c, tl_status = ''online'', observed_at_unix = 90,
        tl_capabilities = JsUndef\<rparr>) ''123'') = map sample_address ''123''" by code_simp
  ultimately show ?thesis
    unfolding complete_liveness_def canonical_iff sample_ids by (simp add: sample_snapshot_def)
qed

lemma sample_fingerprint:
  "computeTopologyFingerprint sample_keccak (sn_nodes sample_snapshot) = Inr (strip_0x (toLowerCase (fingerprint sample_snapshot)))"
  by code_simp

theorem verifySelfConsistency_decides_witness:
  "verifySelfConsistency sample_keccak (\<lambda>_. [0]) sample_snapshot True = Inr ()"
  using verifySelfConsistency_decides[OF sample_keccak_form, of "\<lambda>_. [0]" sample_snapshot] sample_ok sample_live sample_fingerprint
  by (simp add: consistent_def)

subsection \<open>Live members\<close>

lemma livenessByAddress_list:
  "distinct (map obs_id obs) \<Longrightarrow> livenessByAddress obs = map (\<lambda>o1. (obs_id o1, o1)) obs"
proof -
  have "fold (\<lambda>o1. jsmap_set (obs_id o1) o1) obs m = m @ map (\<lambda>o1. (obs_id o1, o1)) obs"
    if "distinct (map obs_id obs)" "set (map obs_id obs) \<inter> set (jsmap_keys m) = {}" for m :: "(string, topology_liveness) jsmap"
    using that
  proof (induction obs arbitrary: m)
    case (Cons a obs)
    have "jsmap_set (obs_id a) a m = m @ [(obs_id a, a)]" using Cons.prems(2) by (intro jsmap_set_fresh) auto
    then show ?case using Cons.IH[of "m @ [(obs_id a, a)]"] Cons.prems by auto
  qed simp
  then show "distinct (map obs_id obs) \<Longrightarrow> ?thesis" by (simp add: livenessByAddress_def obs_id_def)
qed

lemma filter_zip:
  "length xs = length ys \<Longrightarrow> (\<And>x y. (x, y) \<in> set (zip xs ys) \<Longrightarrow> P x = Q y) \<Longrightarrow>
   filter P xs = map fst (filter (\<lambda>(x, y). Q y) (zip xs ys))"
  by (induction xs ys rule: list_induct2) auto

definition is_live :: "int \<Rightarrow> int \<Rightarrow> topology_liveness \<Rightarrow> bool" where
  "is_live t maxAge o1 = (tl_status o1 = ''online'' \<and> t - maxAge \<le> observed_at_unix o1 \<and> observed_at_unix o1 \<le> t)"

text \<open>
  Only live members are selected, on the seed's clock. For a complete snapshot and valid limits, \<open>selectLiveNodes\<close> refuses a
  document older than the maximal age plus the tolerated skew, and otherwise returns, in order, exactly the members
  whose own observation is \<open>online\<close> and lies within the maximal age before the document's time; an
  observation from the future does not count.
\<close>

theorem selectLiveNodes_exact:
  assumes "complete_liveness sha256 sn" "distinct (map member_id (sn_nodes sn))" "timestamp sn = Some t" "liveness sn = Some obs"
    and "isSafeInteger now" "0 \<le> now" "isSafeInteger maxAge" "0 < maxAge" "isSafeInteger skew" "0 \<le> skew"
  shows "if now - t > maxAge + skew
    then \<exists>m. selectLiveNodes sha256 sn now maxAge skew = throw TopologyVerificationFailed m
    else selectLiveNodes sha256 sn now maxAge skew =
      Inr (map fst (filter (\<lambda>(n, o1). is_live t maxAge o1) (zip (sn_nodes sn) obs)))"
proof -
  have valid: "validateLiveness sha256 sn True = Inr ()" using assms(1) by (simp add: validateLiveness_iff)
  have ids: "map obs_id obs = map member_id (sn_nodes sn)" using assms(1,4) by (auto simp: complete_liveness_def)
  have d: "distinct (map obs_id obs)" using ids assms(2) by simp
  have len: "length (sn_nodes sn) = length obs" using ids by (metis length_map)
  have get: "jsmap_get (livenessByAddress obs) (normalizeAddress (rn_address n)) = Some o1" if "(n, o1) \<in> set (zip (sn_nodes sn) obs)" for n o1
  proof -
    from that obtain i where i: "i < length obs" "n = sn_nodes sn ! i" "o1 = obs ! i" using len by (auto simp: set_zip)
    have "map obs_id obs ! i = map member_id (sn_nodes sn) ! i" using ids by simp
    then have "obs_id o1 = member_id n" using i len by simp
    moreover have "jsmap_get (livenessByAddress obs) (obs_id o1) = Some o1"
      unfolding livenessByAddress_list[OF d] jsmap_get_def
      using d i(1,3) by (intro map_of_is_SomeI) (simp_all add: comp_def)
    ultimately show ?thesis by (simp add: member_id_def)
  qed
  have "selectLiveNodes sha256 sn now maxAge skew = (if now - t > maxAge + skew
      then throw TopologyVerificationFailed ''Topology snapshot is older than the local clock''
      else Inr (filter (\<lambda>n. case jsmap_get (livenessByAddress obs) (normalizeAddress (rn_address n)) of None \<Rightarrow> False
          | Some o1 \<Rightarrow> tl_status o1 = ''online'' \<and> observed_at_unix o1 \<le> t \<and> t - observed_at_unix o1 \<le> maxAge) (sn_nodes sn)))"
    using assms(5-) by (simp add: selectLiveNodes_def valid assms(3,4) Let_def)
  moreover have "filter (\<lambda>n. case jsmap_get (livenessByAddress obs) (normalizeAddress (rn_address n)) of None \<Rightarrow> False
          | Some o1 \<Rightarrow> tl_status o1 = ''online'' \<and> observed_at_unix o1 \<le> t \<and> t - observed_at_unix o1 \<le> maxAge) (sn_nodes sn)
      = map fst (filter (\<lambda>(n, o1). is_live t maxAge o1) (zip (sn_nodes sn) obs))"
    by (rule filter_zip[OF len]) (auto simp: get is_live_def)
  ultimately show ?thesis by simp
qed

theorem selectLiveNodes_exact_witness:
  "selectLiveNodes (\<lambda>_. [0]) sample_snapshot 120 30 60 = Inr (sn_nodes sample_snapshot)"
proof -
  let ?obs = "map (\<lambda>c. \<lparr>tl_address = sample_address c, tl_status = ''online'', observed_at_unix = 90,
        tl_capabilities = JsUndef\<rparr>) ''123'' :: topology_liveness list"
  have "timestamp sample_snapshot = Some 100" "liveness sample_snapshot = Some ?obs" by (simp_all add: sample_snapshot_def)
  from selectLiveNodes_exact[OF sample_live sample_ok(2) this, of 120 30 60]
  show ?thesis by (simp add: isSafeInteger_def is_live_def sample_members)
qed

subsection \<open>The registry\<close>

lemma read_members_Inr:
  "read_members reg tag ns = Inr ms \<longleftrightarrow> list_all2 (\<lambda>n (p, r). reg_relayers reg tag (rn_address n) = Inr p
     \<and> reg_role reg tag (rn_address n) = Inr r) ns ms"
proof (induction ns arbitrary: ms)
  case (Cons n ns)
  then show ?case by (cases ms) (auto simp: rbind_Inr_iff)
qed auto

definition eligible_profile :: "chain_profile \<Rightarrow> bool" where
  "eligible_profile p = ((cp_status p = 1 \<or> cp_status p = 2) \<and> \<not> cp_frozen p)"

lemma match_members_Inr:
  "length ns = length ms \<Longrightarrow> match_members ns ms acc = Inr el \<longleftrightarrow>
     list_all2 (\<lambda>n (p, r). profile_matches n p r) ns ms
     \<and> el = acc @ map (\<lambda>(n, _). member_id n) (filter (\<lambda>(n, p, _). eligible_profile p) (zip ns ms))"
proof (induction ns ms arbitrary: acc rule: list_induct2)
  case (Cons n ns pr ms)
  then show ?case by (cases pr) (auto simp: eligible_profile_def member_id_def)
qed auto

lemma optional_text: "(case v of None \<Rightarrow> [] | Some u \<Rightarrow> u) = w \<longleftrightarrow> v = Some w \<or> v = None \<and> w = []"
  by (cases v) auto

text \<open>
  C8. Chain verification pins the whole member set. When \<open>verifyOnChainWithEligibility\<close> returns for a document that names its
  block, then, read at that one block: the contract's fingerprint is the members' fingerprint and its relayer count is
  their number; for every member the contract records a profile with the same key (up to a prefix 0x and letter case), the same three URLs
  (an absent one is recorded as the empty text), the stake written in the document, no stake exactly when the document calls the member
  privileged, and the document's role, and has it registered; and the returned addresses are, in order, exactly those of the members
  whose status is 1 or 2 and that are not frozen.
\<close>

theorem verifyOnChain_sound:
  assumes "verifyOnChainWithEligibility keccak256 reg nodes (Some b) = Inr eligible" "0 < b"
  defines "tag \<equiv> ''0x'' @ to_string16 (nat b)"
  shows "(\<exists>fp. reg_fingerprint reg tag = Inr fp
        \<and> computeTopologyFingerprint keccak256 nodes = Inr (toLowerCase (strip_0x fp)))
    \<and> reg_count reg tag = Inr (int (length nodes))
    \<and> (\<exists>ms. length ms = length nodes
        \<and> (\<forall>(n, p) \<in> set (zip nodes ms). reg_relayers reg tag (rn_address n) = Inr p \<and> reg_role reg tag (rn_address n) = Inr (rn_role n)
            \<and> cp_isRegistered p \<and> toLowerCase (strip_0x (cp_sphinxKey p)) = toLowerCase (strip_0x (sphinx_key n)) \<and> cp_url p = rn_url n
            \<and> (ingress_url n = Some (cp_ingressUrl p) \<or> ingress_url n = None \<and> cp_ingressUrl p = [])
            \<and> (metadata_url n = Some (cp_metadataUrl p) \<or> metadata_url n = None \<and> cp_metadataUrl p = [])
            \<and> cp_stakedAmount p = BigInt (stake n) \<and> (is_privileged n \<longleftrightarrow> cp_stakedAmount p = 0))
        \<and> eligible = map (\<lambda>(n, _). normalizeAddress (rn_address n)) (filter (\<lambda>(_, p). cp_status p \<in> {1, 2} \<and> \<not> cp_frozen p) (zip nodes ms)))"
proof -
  from assms(1,2) obtain fp cnt ms where
      fp: "reg_fingerprint reg tag = Inr fp" "computeTopologyFingerprint keccak256 nodes = Inr (toLowerCase (strip_0x fp))"
    and cnt: "reg_count reg tag = Inr cnt" "cnt = int (length nodes)"
    and ms: "read_members reg tag nodes = Inr ms" "match_members nodes ms [] = Inr eligible"
    by (auto simp: verifyOnChainWithEligibility_def registryReads_def rbind_Inr_iff tag_def split: if_splits)
  from ms(1) have reads: "list_all2 (\<lambda>n (p, r). reg_relayers reg tag (rn_address n) = Inr p
      \<and> reg_role reg tag (rn_address n) = Inr r) nodes ms" by (simp add: read_members_Inr)
  then have len: "length nodes = length ms" by (rule list_all2_lengthD)
  with ms(2) have m: "list_all2 (\<lambda>n (p, r). profile_matches n p r) nodes ms"
      "eligible = map (\<lambda>(n, _). member_id n) (filter (\<lambda>(n, p, _). eligible_profile p) (zip nodes ms))"
    by (simp_all add: match_members_Inr)
  let ?ps = "map fst ms"
  have each: "reg_relayers reg tag (rn_address n) = Inr p \<and> reg_role reg tag (rn_address n) = Inr (rn_role n) \<and> profile_matches n p (rn_role n)"
    if mem: "(n, p) \<in> set (zip nodes ?ps)" for n p
  proof -
    obtain i where i: "i < length nodes" "n = nodes ! i" "p = fst (ms ! i)" using mem len by (auto simp: set_zip)
    have "reg_relayers reg tag (rn_address n) = Inr p" "reg_role reg tag (rn_address n) = Inr (snd (ms ! i))" "profile_matches n p (snd (ms ! i))"
      using list_all2_nthD[OF reads i(1)] list_all2_nthD[OF m(1) i(1)] i(2,3) by (simp_all add: split_beta)
    then show ?thesis by (simp add: profile_matches_def)
  qed
  have "zip nodes ?ps = map (\<lambda>(n, p, r). (n, p)) (zip nodes ms)" by (simp add: zip_map2 split_beta)
  then have "eligible = map (\<lambda>(n, _). normalizeAddress (rn_address n)) (filter (\<lambda>(_, p). cp_status p \<in> {1, 2} \<and> \<not> cp_frozen p) (zip nodes ?ps))"
    using m(2) by (simp only:) (simp add: filter_map comp_def case_prod_unfold eligible_profile_def member_id_def)
  moreover have "length ?ps = length nodes" using len by simp
  ultimately show ?thesis using fp cnt each unfolding profile_matches_def optional_text by (intro conjI exI[of _ fp] exI[of _ ?ps]) auto
qed

definition sample_registry :: registry where
  "sample_registry = \<lparr>reg_blockNumber = Inr ''0x7'',
     reg_fingerprint = (\<lambda>_. Inr (replicate 64 (CHR ''0''))), reg_count = (\<lambda>_. Inr 3),
     reg_relayers = (\<lambda>_ a. Inr \<lparr>cp_sphinxKey = ''0x'' @ replicate 64 (a ! 2), cp_url = ''u'', cp_ingressUrl = [],
        cp_metadataUrl = [], cp_stakedAmount = 0, cp_isRegistered = True,
        cp_status = 1, cp_frozen = (a ! 2 = CHR ''3'')\<rparr>),
     reg_role = (\<lambda>_ a. Inr (if a ! 2 = CHR ''1'' then 1 else if a ! 2 = CHR ''2'' then 2 else 3))\<rparr>"

theorem verifyOnChain_sound_witness:
  "reg_count sample_registry (''0x'' @ to_string16 (nat 7)) = Inr (int (length (sn_nodes sample_snapshot)))"
proof -
  have "verifyOnChainWithEligibility sample_keccak sample_registry (sn_nodes sample_snapshot) (Some 7) =
      Inr (map sample_address ''12'')" by code_simp
  from verifyOnChain_sound[OF this] show ?thesis by simp
qed

subsection \<open>From the document to a route\<close>

definition parsed_as :: "relayer_node \<Rightarrow> topology_node \<Rightarrow> bool" where
  "parsed_as n p = (node_id p = member_id n \<and> length (publicKey p) = 32 \<and> node_role p = rn_role n
     \<and> node_address p = (case ingress_url n of None \<Rightarrow> [] | Some u \<Rightarrow> u))"

lemma parseNode_ok:
  assumes "node_ok n"
  shows "\<exists>p. parseNode n = Inr p \<and> parsed_as n p"
proof -
  let ?k = "sphinx_key n"
  have k: "list_all is_hex ?k" "length ?k = 64" using assms by (auto simp: node_ok_def hex_text_def)
  obtain a b s where kc: "?k = a # b # s" using k(2) by (cases ?k; cases "tl ?k") auto
  have "is_hex b" using k(1) kc by simp
  then have "b \<noteq> CHR ''x''" "b \<noteq> CHR ''X''" by (auto simp: is_hex_def hex_value_def)
  then have s: "strip_0x_ci ?k = ?k" "strip_0x ?k = ?k" by (simp_all add: strip_0x_ci_def strip_0x_def kc)
  have "length (parse_pairs t) = length t div 2" for t by (induction t rule: parse_pairs.induct) auto
  then show ?thesis
    using k s by (simp add: parseNode_def hexToBytes_def Let_def parsed_as_def member_id_def)
qed

lemma parse_all_ok: "list_all node_ok ns \<Longrightarrow> \<exists>ps. parse_all ns = Inr ps \<and> list_all2 parsed_as ns ps"
proof (induction ns)
  case (Cons n ns)
  have "node_ok n" using Cons.prems by simp
  from parseNode_ok[OF this] obtain p where p: "parseNode n = Inr p" "parsed_as n p" by blast
  obtain ps where "parse_all ns = Inr ps" "list_all2 parsed_as ns ps" using Cons by auto
  then show ?case using p by simp
qed simp

text \<open>
  A consistent document gives routes. Its nodes parse without an error, to nodes with pairwise different identifiers
  and 32-byte keys; and as soon as it has three members, one of them an exit (role 2 or 3) and another one
  accepted by the entry rule, \<open>selectRoute\<close> on the parsed nodes returns, for every fair random source, a route of three
  different members that starts at an accepted entry and ends at an exit.
\<close>

theorem consistent_snapshot_routes:
  assumes "consistent keccak256 sha256 sn" "\<forall>i. fair (rnd i)" "few (sn_nodes sn)"
    and "3 \<le> length (sn_nodes sn)" "i < length (sn_nodes sn)" "j < length (sn_nodes sn)" "i \<noteq> j"
    and entry: "\<And>p. node_id p = member_id (sn_nodes sn ! i) \<Longrightarrow> isEntry p" and "rn_role (sn_nodes sn ! j) \<noteq> 1"
  shows "\<exists>ps r. parseNodes sn = Inr ps \<and> distinct (map node_id ps) \<and> list_all (\<lambda>p. length (publicKey p) = 32) ps
    \<and> selectRoute rnd ps None None avoid isEntry mx = Some (Inr r)
    \<and> {rt_entry r, rt_mix r, rt_exit r} \<subseteq> set ps \<and> isEntry (rt_entry r) \<and> node_role (rt_exit r) \<in> {2, 3}
    \<and> distinct [node_id (rt_entry r), node_id (rt_mix r), node_id (rt_exit r)]"
proof -
  let ?ns = "sn_nodes sn"
  have ok: "list_all node_ok ?ns" "distinct (map member_id ?ns)" using assms(1) by (simp_all add: consistent_def)
  from parse_all_ok[OF ok(1)] obtain ps where ps: "parse_all ?ns = Inr ps"
      "list_all2 parsed_as ?ns ps" by blast
  have len: "length ps = length ?ns" using ps(2) by (simp add: list_all2_lengthD)
  have at: "node_id (ps ! k) = member_id (?ns ! k)" "length (publicKey (ps ! k)) = 32" "node_role (ps ! k) = rn_role (?ns ! k)"
    if "k < length ?ns" for k using ps(2) that by (auto simp: list_all2_conv_all_nth parsed_as_def)
  have "map node_id ps = map member_id ?ns" using at(1) len by (intro nth_equalityI) auto
  then have d: "distinct (map node_id ps)" using ok(2) by simp
  have neq: "node_id (ps ! k) \<noteq> node_id (ps ! l)" if "k < length ?ns" "l < length ?ns" "k \<noteq> l" for k l
    using d that len by (simp add: distinct_conv_nth)
  have "distinct [0, 1, 2 :: nat]" by simp
  from one_of_three[OF this, of i j] obtain k where "k \<in> {0, 1, 2}" and k': "k \<noteq> i" "k \<noteq> j" by blast
  then have k: "k < length ?ns" "k \<noteq> i" "k \<noteq> j" using assms(4) by auto
  have role: "node_role (ps ! j) \<in> {2, 3}"
    using ok(1) at(3)[OF assms(6)] assms(6,9) by (auto simp: list_all_length node_ok_def)
  let ?r = "\<lparr>rt_entry = ps ! i, rt_mix = ps ! k, rt_exit = ps ! j\<rparr>"
  have "possible_route isEntry ps None None ?r"
    using assms(5-7) k role len neq[of i k] neq[of i j] neq[of k j] entry[OF at(1)]
    by (auto simp: possible_route_def)
  moreover have "few ps" using assms(3) len by (simp add: few_def)
  ultimately obtain r where r: "selectRoute rnd ps None None avoid isEntry mx = Some (Inr r)" "possible_route isEntry ps None None r"
    using selectRoute_sound[of rnd ps None None avoid isEntry mx] selectRoute_complete[of rnd ps isEntry None None ?r mx avoid]
      assms(2) pin_refused_no_exit by blast
  have "list_all (\<lambda>p. length (publicKey p) = 32) ps" using at(2) len by (simp add: list_all_length)
  then show ?thesis using ps(1) d r unfolding parseNodes_def possible_route_def by auto
qed

theorem consistent_snapshot_routes_witness:
  "\<exists>ps r. parseNodes sample_snapshot = Inr ps \<and> selectRoute (\<lambda>_ _. 0) ps None None None (\<lambda>_. True) None = Some (Inr r)"
proof -
  have "consistent sample_keccak (\<lambda>_. [0]) sample_snapshot"
    using sample_ok sample_live sample_fingerprint by (simp add: consistent_def)
  from consistent_snapshot_routes[OF this, of "\<lambda>_ _. 0" 0 1 "\<lambda>_. True" None None] show ?thesis
    by (auto simp: fair_def few_def sample_members sample_member_def)
qed

subsection \<open>Reading a document\<close>

definition natural_field :: "int option \<Rightarrow> bool" where
  "natural_field x = (case x of None \<Rightarrow> True | Some n \<Rightarrow> isSafeInteger n \<and> 0 \<le> n)"

definition typed_node :: "relayer_node \<Rightarrow> bool" where
  "typed_node n = (re_address (rn_address n) \<and> hex_text 64 (sphinx_key n) \<and> rn_url n \<noteq> [] \<and> re_stake (stake n)
     \<and> 0 \<le> last_seen n \<and> 0 \<le> rn_layer n \<and> rn_role n \<in> {1, 2, 3})"

definition typed_liveness :: "topology_liveness \<Rightarrow> bool" where
  "typed_liveness o1 = (re_address (tl_address o1) \<and> (tl_status o1 = ''online'' \<or> tl_status o1 = ''offline'')
     \<and> 0 \<le> observed_at_unix o1)"

definition typed_snapshot :: "topology_snapshot \<Rightarrow> bool" where
  "typed_snapshot sn = (list_all typed_node (sn_nodes sn) \<and> re_fingerprint (fingerprint sn)
     \<and> natural_field (schema_version sn) \<and> natural_field (timestamp sn) \<and> natural_field (block_number sn)
     \<and> natural_field (pow_difficulty sn)
     \<and> (case liveness sn of None \<Rightarrow> True | Some obs \<Rightarrow> list_all typed_liveness obs))"

lemma str_matches_as: "str_matches P v \<Longrightarrow> P (as_str v)"
  by (cases v) (auto simp: str_matches_def as_str_def)

lemma is_natural_as: "is_natural v \<Longrightarrow> isSafeInteger (as_int v) \<and> 0 \<le> as_int v"
  by (cases v) (auto simp: is_natural_def as_int_def)

lemma typed_as_node: "isSnapshotNode v \<Longrightarrow> typed_node (as_node v)"
  by (auto simp: isSnapshotNode_def typed_node_def as_node_def dest!: str_matches_as is_natural_as)

lemma natural_as: "v = JsUndef \<or> is_natural v \<Longrightarrow> natural_field (optional as_int v)"
  using is_natural_as[of v] by (auto simp: natural_field_def optional_def)

lemma typed_as_liveness:
  assumes "isTopologyLiveness v" shows "typed_liveness (as_liveness v)"
proof -
  have "re_address (as_str (json_field v ''address''))" "0 \<le> as_int (json_field v ''observed_at_unix'')"
    using assms by (auto simp: isTopologyLiveness_def dest: str_matches_as is_natural_as)
  moreover have "as_str (json_field v ''status'') = ''online'' \<or> as_str (json_field v ''status'') = ''offline''"
    using assms unfolding isTopologyLiveness_def by (elim conjE disjE) (simp_all add: as_str_def)
  ultimately show ?thesis by (simp add: typed_liveness_def as_liveness_def)
qed

lemma arr_matches_as: "arr_matches P v \<Longrightarrow> list_all P (as_list v)"
  by (cases v) (auto simp: arr_matches_def as_list_def)

lemma typed_as_snapshot: "isTopologySnapshot v \<Longrightarrow> typed_snapshot (as_snapshot v)"
proof -
  assume v: "isTopologySnapshot v"
  have f: "arr_matches isSnapshotNode (json_field v ''nodes'')" "str_matches re_fingerprint (json_field v ''fingerprint'')"
      "json_field v ''liveness'' = JsUndef \<or> arr_matches isTopologyLiveness (json_field v ''liveness'')"
    using v unfolding isTopologySnapshot_def by blast+
  have "list_all typed_node (map as_node (as_list (json_field v ''nodes'')))"
    using arr_matches_as[OF f(1)] typed_as_node by (auto simp: list_all_iff)
  moreover have "re_fingerprint (as_str (json_field v ''fingerprint''))" using f(2) by (rule str_matches_as)
  moreover have "case optional (\<lambda>l. map as_liveness (as_list l)) (json_field v ''liveness'') of None \<Rightarrow> True
    | Some obs \<Rightarrow> list_all typed_liveness obs"
  proof (cases "json_field v ''liveness'' = JsUndef")
    case False
    then have "list_all isTopologyLiveness (as_list (json_field v ''liveness''))" using f(3) arr_matches_as by blast
    then show ?thesis using False typed_as_liveness by (auto simp: optional_def list_all_iff)
  qed (simp add: optional_def)
  ultimately show ?thesis
    using v by (simp add: typed_snapshot_def as_snapshot_def isTopologySnapshot_def natural_as)
qed

text \<open>
  A fetched document is well typed. Whatever the seed answers, \<open>fetchTopology\<close> throws \<open>TOPOLOGY_FETCH_FAILED\<close> or returns a
  snapshot whose every field has the shape the later checks rely on; and it asks the seed for \<open>/topology\<close> below its base URL.
\<close>

theorem fetchTopology_typed:
  "(\<exists>m. fetchTopology fetch seed = throw TopologyFetchFailed m)
    \<or> (\<exists>sn status v. fetch (strip_slashes seed @ ''/topology'') = HttpReply True status (Some v)
          \<and> fetchTopology fetch seed = Inr sn \<and> sn = as_snapshot v \<and> typed_snapshot sn)"
  using typed_as_snapshot by (auto simp: fetchTopology_def split: http_exchange.splits option.splits)

end
