(* ===== verification/Kps_Text.thy ===== *)
theory Kps_Text
  imports Utils Js_Json "HOL-Library.Sublist"
begin

section \<open>Errors and text of the KPS modules\<close>

text \<open>
  \<open>packages/nox-client/src/kps/errors.ts\<close>, and the string operations of the language that the codec
  \<open>kps/http1.ts\<close> and the addresses \<open>kps/address.ts\<close> use: \<open>split\<close>, \<open>join\<close>, \<open>indexOf\<close>, \<open>trim\<close>, decimal numerals, Latin-1.
  Text is a list of characters with codes below 256; a code unit above is rejected by every pattern of these modules.
\<close>

datatype kps_code =
    Cancelled | Closed | Reset | Timeout | NetworkError | ProtocolError | Unsupported | TooLarge | QueueFull
  | PermissionDenied | InternalError

datatype kps_error = NoxKpsError kps_code string

type_synonym 'a kps_result = "kps_error + 'a"

abbreviation kps_throw :: "kps_code \<Rightarrow> string \<Rightarrow> 'a kps_result" where
  "kps_throw c msg \<equiv> Inl (NoxKpsError c msg)"

definition KPS_ERROR_CODES :: "(string \<times> kps_code) list" where
  "KPS_ERROR_CODES =
     [(''cancelled'', Cancelled), (''closed'', Closed), (''reset'', Reset), (''timeout'', Timeout),
      (''network-error'', NetworkError), (''protocol-error'', ProtocolError), (''unsupported'', Unsupported),
      (''too-large'', TooLarge), (''queue-full'', QueueFull), (''permission-denied'', PermissionDenied),
      (''internal-error'', InternalError)]"

definition isKpsErrorCode :: "json \<Rightarrow> bool" where
  "isKpsErrorCode v = (case v of JsStr s \<Rightarrow> s \<in> fst ` set KPS_ERROR_CODES | _ \<Rightarrow> False)"

text \<open>A thrown value: the transport's own error, or any other value.\<close>

datatype thrown = ThrownKps kps_error | ThrownValue json

definition kpsErrorCodeOf :: "thrown \<Rightarrow> kps_code \<Rightarrow> kps_code" where
  "kpsErrorCodeOf error fallback =
     (case error of
        ThrownKps (NoxKpsError code _) \<Rightarrow> code
      | ThrownValue v \<Rightarrow>
          (case v of
             JsObj _ \<Rightarrow> if isKpsErrorCode (json_field v ''code'')
                       then the (map_of KPS_ERROR_CODES (as_str (json_field v ''code''))) else fallback
           | _ \<Rightarrow> fallback))"

subsection \<open>Strings\<close>

fun js_split_from :: "string \<Rightarrow> string \<Rightarrow> string \<Rightarrow> string list" where
  "js_split_from sep acc [] = [rev acc]"
| "js_split_from sep acc (c # s) =
     (if prefix sep (c # s) then rev acc # js_split_from sep [] (drop (length sep - 1) s)
      else js_split_from sep (c # acc) s)"

text \<open>\<open>s.split(sep)\<close> and \<open>xs.join(sep)\<close> for a non-empty separator.\<close>

definition js_split :: "string \<Rightarrow> string \<Rightarrow> string list" where
  "js_split sep s = js_split_from sep [] s"

fun js_join :: "string \<Rightarrow> string list \<Rightarrow> string" where
  "js_join sep [] = []"
| "js_join sep [x] = x"
| "js_join sep (x # y # xs) = x @ sep @ js_join sep (y # xs)"

definition indexOf :: "char \<Rightarrow> string \<Rightarrow> nat option" where
  "indexOf c s = (let n = length (takeWhile (\<lambda>d. d \<noteq> c) s) in if n < length s then Some n else None)"

definition strip_both :: "(char \<Rightarrow> bool) \<Rightarrow> string \<Rightarrow> string" where
  "strip_both P s = rev (dropWhile P (rev (dropWhile P s)))"

definition js_space :: "char \<Rightarrow> bool" where
  "js_space c = ((of_char c :: nat) \<in> {9, 10, 11, 12, 13, 32, 160})"

definition js_trim :: "string \<Rightarrow> string" where
  "js_trim = strip_both js_space"

definition code_in :: "nat \<Rightarrow> nat \<Rightarrow> char \<Rightarrow> bool" where
  "code_in lo hi c = (lo \<le> of_char c \<and> of_char c \<le> hi)"

definition digit_char :: "nat \<Rightarrow> char" where
  "digit_char d = char_of (48 + d)"

fun dec_string :: "nat \<Rightarrow> string" where
  "dec_string n = (if n < 10 then [digit_char n] else dec_string (n div 10) @ [digit_char (n mod 10)])"

declare dec_string.simps [simp del]

definition latin1 :: "bytes \<Rightarrow> string" where
  "latin1 bs = map (\<lambda>b. char_of (unat b)) bs"

definition char_codes :: "string \<Rightarrow> bytes" where
  "char_codes s = map (\<lambda>c. word_of_nat (of_char c)) s"

subsection \<open>Facts\<close>

lemma split_from_nonempty: "js_split_from sep acc s \<noteq> []"
  by (induction sep acc s rule: js_split_from.induct) auto

lemma latin1_char_codes [simp]: "latin1 (char_codes s) = s"
proof -
  have "char_of (unat (word_of_nat (of_char c) :: byte)) = c" for c :: char
    using nat_of_char_less_256[of c] by (simp add: unat_of_nat)
  then show ?thesis by (simp add: latin1_def char_codes_def comp_def map_idI)
qed

lemma char_codes_latin1 [simp]: "char_codes (latin1 b) = b"
proof -
  have "(word_of_nat (of_char (char_of (unat x) :: char)) :: byte) = x" for x :: byte
    using unat_byte_less[of x] by (simp add: of_char_of)
  then show ?thesis by (simp add: latin1_def char_codes_def comp_def map_idI)
qed

lemma length_latin1 [simp]: "length (latin1 b) = length b" "length (char_codes s) = length s"
  by (simp_all add: latin1_def char_codes_def)

lemma char_codes_append [simp]: "char_codes (s @ t) = char_codes s @ char_codes t"
  by (simp add: char_codes_def)

lemma set_char_codes: "word_of_nat (of_char c) \<in> set (char_codes s) \<longleftrightarrow> c \<in> set s"
proof -
  have "c = d" if "(word_of_nat (of_char c) :: byte) = word_of_nat (of_char d)" for d :: char
  proof -
    have "(of_char c :: nat) = of_char d"
      using that nat_of_char_less_256[of c] nat_of_char_less_256[of d] unat_byte_of[of "of_char c"] unat_byte_of[of "of_char d"]
      by (simp add: byte_of_def)
    then show ?thesis by simp
  qed
  then show ?thesis by (auto simp: char_codes_def)
qed

lemma js_split_from_acc:
  "c \<notin> set x \<Longrightarrow> js_split_from (c # sep) acc (x @ s) = js_split_from (c # sep) (rev x @ acc) s"
  by (induction x arbitrary: acc) auto

lemma js_split_from_sep: "js_split_from (c # sep) acc ((c # sep) @ s) = rev acc # js_split_from (c # sep) [] s"
  by simp

theorem split_join:
  assumes "xs \<noteq> []" "\<forall>x \<in> set xs. c \<notin> set x"
  shows "js_split (c # sep) (js_join (c # sep) xs) = xs"
  using assms
proof (induction xs rule: induct_list012)
  case (2 x)
  then show ?case using js_split_from_acc[of c x sep "[]" "[]"] by (simp add: js_split_def)
next
  case (3 x y zs)
  have "js_split (c # sep) (js_join (c # sep) (x # y # zs)) =
      js_split_from (c # sep) (rev x @ []) ((c # sep) @ js_join (c # sep) (y # zs))"
    unfolding js_split_def js_join.simps using 3(4) by (intro js_split_from_acc) simp
  also have "\<dots> = x # js_split (c # sep) (js_join (c # sep) (y # zs))"
    unfolding js_split_from_sep js_split_def by simp
  finally show ?case using 3 by simp
qed simp

lemma join_split_from: "js_join (c # sep) (js_split_from (c # sep) acc s) = rev acc @ s"
proof (induction "c # sep" acc s rule: js_split_from.induct)
  case (2 acc d s)
  show ?case
  proof (cases "prefix (c # sep) (d # s)")
    case True
    then obtain t where t: "d # s = (c # sep) @ t" by (auto simp: prefix_def)
    then have d: "drop (length (c # sep) - 1) s = t" by simp
    obtain y ys where y: "js_split_from (c # sep) [] t = y # ys"
      using split_from_nonempty by (meson neq_Nil_conv)
    have "js_split_from (c # sep) acc (d # s) = rev acc # y # ys"
      using True y d by simp
    moreover have "js_join (c # sep) (y # ys) = t" using 2(1)[OF True] d y by simp
    ultimately show ?thesis using t by simp
  next
    case False
    then show ?thesis unfolding js_split_from.simps(2) if_not_P[OF False] using 2(2)[OF False] by simp
  qed
qed simp

theorem join_split: "js_join (c # sep) (js_split (c # sep) s) = s"
  using join_split_from[of c sep "[]" s] by (simp add: js_split_def)

lemma set_js_join: "set (js_join sep xs) \<subseteq> set sep \<union> \<Union> (set ` set xs)"
  by (induction sep xs rule: js_join.induct) auto

lemma indexOf_split: "indexOf c s = Some n \<Longrightarrow> s = take n s @ c # drop (n + 1) s \<and> c \<notin> set (take n s) \<and> n < length s"
proof -
  assume "indexOf c s = Some n"
  then have n: "n = length (takeWhile (\<lambda>d. d \<noteq> c) s)" "n < length s" by (auto simp: indexOf_def Let_def split: if_splits)
  then have "s ! n = c" using nth_length_takeWhile[of "\<lambda>d. d \<noteq> c" s] by simp
  moreover have "take n s = takeWhile (\<lambda>d. d \<noteq> c) s" by (simp add: n(1) takeWhile_eq_take[symmetric])
  ultimately show ?thesis using n(2) id_take_nth_drop[OF n(2)] by (auto dest: set_takeWhileD)
qed

lemma indexOf_first: "c \<notin> set x \<Longrightarrow> indexOf c (x @ c # y) = Some (length x)"
proof -
  assume "c \<notin> set x"
  then have "takeWhile (\<lambda>d. d \<noteq> c) (x @ c # y) = x" by (induction x) auto
  then show ?thesis by (simp add: indexOf_def)
qed

lemma nat_of_digits_snoc: "nat_of_digits (p @ [d]) a = 10 * nat_of_digits p a + (of_char d - 48)"
  by (induction p arbitrary: a) auto

lemma digit_char_code: "is_digit d \<Longrightarrow> digit_char (of_char d - 48) = d"
  by (simp add: is_digit_def digit_char_def)

lemma nat_of_digits_pos: "list_all is_digit p \<Longrightarrow> p \<noteq> [] \<Longrightarrow> hd p \<noteq> CHR ''0'' \<Longrightarrow> 0 < nat_of_digits p 0"
proof (induction p rule: rev_induct)
  case (snoc d p)
  show ?case
  proof (cases "p = []")
    case True
    have "(of_char d :: nat) \<noteq> of_char (CHR ''0'')" using snoc.prems(3) True by (simp only: of_char_eq_iff) simp
    then show ?thesis using snoc.prems True by (auto simp: is_digit_def)
  next
    case False
    then show ?thesis using snoc by (simp add: nat_of_digits_snoc)
  qed
qed simp

theorem dec_string_digits: "list_all is_digit p \<Longrightarrow> p \<noteq> [] \<Longrightarrow> hd p \<noteq> CHR ''0'' \<Longrightarrow> dec_string (nat_of_digits p 0) = p"
proof (induction p rule: rev_induct)
  case (snoc d p)
  have d: "is_digit d" using snoc.prems(1) by simp
  then have lt: "of_char d - 48 < (10 :: nat)" unfolding is_digit_def by linarith
  show ?case
  proof (cases "p = []")
    case True
    then show ?thesis using lt digit_char_code[OF d] by (simp add: dec_string.simps)
  next
    case False
    then have "0 < nat_of_digits p 0" "dec_string (nat_of_digits p 0) = p"
      using snoc nat_of_digits_pos[of p] by auto
    then show ?thesis
      using lt digit_char_code[OF d] by (subst dec_string.simps) (simp add: nat_of_digits_snoc)
  qed
qed simp

lemma is_digit_digit_char: "d < 10 \<Longrightarrow> is_digit (digit_char d) \<and> of_char (digit_char d) - 48 = d"
  by (simp add: is_digit_def digit_char_def of_char_of)

theorem nat_of_digits_dec: "nat_of_digits (dec_string n) 0 = n \<and> list_all is_digit (dec_string n) \<and> dec_string n \<noteq> []"
proof (induction n rule: dec_string.induct)
  case (1 n)
  show ?case
  proof (cases "n < 10")
    case True
    then show ?thesis using is_digit_digit_char[OF True] by (simp add: dec_string.simps)
  next
    case False
    have "is_digit (digit_char (n mod 10)) \<and> of_char (digit_char (n mod 10)) - 48 = n mod 10"
      by (rule is_digit_digit_char) simp
    then show ?thesis
      using 1[OF False] False by (subst (1 2 3) dec_string.simps) (simp add: nat_of_digits_snoc)
  qed
qed

end
