(* ===== verification/Kps_Http1.thy ===== *)
theory Kps_Http1
  imports Kps_Text
begin

section \<open>One HTTP/1.1 exchange over a KPS stream\<close>

text \<open>
  \<open>packages/nox-client/src/kps/http1.ts\<close>: serialising a request, parsing a response head and reading head
  and body from the stream. The stream is the list of results of \<open>reader.read()\<close>; its end is the end of the list.
  What the theorems show: the bytes of a request have exactly the lines and the body that were asked for, whatever the
  header values; how the stream is cut into chunks has no influence on the result; an accepted response accounts for
  every byte received.
\<close>

record kps_request =
  rq_method :: string
  rq_path :: string
  rq_certhash :: string
  rq_headers :: "(string \<times> string) list"
  rq_body :: "bytes option"

record kps_head =
  hd_status :: nat
  hd_reason :: string
  hd_headers :: "(string \<times> string) list"
  hd_contentLength :: "nat option"

record kps_limits =
  maxHeadBytes :: nat
  maxBodyBytes :: nat

definition MAX_INTERIM_RESPONSES :: nat where
  "MAX_INTERIM_RESPONSES = 8"

definition token_char :: "char \<Rightarrow> bool" where
  "token_char c = (c \<in> set ''!#$%&*+-.^_`|~'' \<or> (of_char c :: nat) = 39 \<or> code_in 48 57 c \<or> code_in 65 90 c \<or> code_in 97 122 c)"

definition TOKEN_RE :: "string \<Rightarrow> bool" where
  "TOKEN_RE s = (s \<noteq> [] \<and> list_all token_char s)"

definition request_char :: "char \<Rightarrow> bool" where
  "request_char c = ((of_char c :: nat) = 9 \<or> code_in 32 126 c)"

definition REQUEST_VALUE_RE :: "string \<Rightarrow> bool" where
  "REQUEST_VALUE_RE s = list_all request_char s"

definition response_char :: "char \<Rightarrow> bool" where
  "response_char c = (request_char c \<or> code_in 128 255 c)"

definition RESPONSE_VALUE_RE :: "string \<Rightarrow> bool" where
  "RESPONSE_VALUE_RE s = list_all response_char s"

text \<open>\<open>STATUS_LINE_RE.exec\<close>: the two groups; a group that took no part is the empty reason.\<close>

definition STATUS_LINE_RE :: "string \<Rightarrow> (string \<times> string) option" where
  "STATUS_LINE_RE s =
     (if take 9 s \<noteq> ''HTTP/1.1 '' then None
      else (case drop 9 s of
          a # b # c # rest \<Rightarrow>
            if \<not> (code_in 49 53 a \<and> is_digit b \<and> is_digit c) then None
            else (case rest of
                [] \<Rightarrow> Some ([a, b, c], [])
              | d # reason \<Rightarrow>
                  if d = CHR '' '' \<and> list_all response_char reason then Some ([a, b, c], reason) else None)
        | _ \<Rightarrow> None))"

definition CONTENT_LENGTH_RE :: "string \<Rightarrow> bool" where
  "CONTENT_LENGTH_RE s = (s \<noteq> [] \<and> length s \<le> 15 \<and> list_all is_digit s)"

definition MANAGED_REQUEST_FIELDS :: "string list" where
  "MANAGED_REQUEST_FIELDS =
     [''host'', ''content-length'', ''transfer-encoding'', ''te'', ''trailer'', ''connection'', ''keep-alive'',
      ''proxy-connection'', ''upgrade'', ''expect'']"

definition BODY_METHODS :: "string list" where
  "BODY_METHODS = [''POST'', ''PUT'', ''PATCH'']"

definition CRLF :: string where
  "CRLF = [CHR 13, CHR 10]"

subsection \<open>Requests\<close>

text \<open>The loop over the request headers: the lines pushed, or the first violation.\<close>

fun header_lines :: "(string \<times> string) list \<Rightarrow> string list kps_result" where
  "header_lines [] = Inr []"
| "header_lines ((name, val) # rest) =
     (if \<not> TOKEN_RE name then kps_throw ProtocolError ''request header name is not an HTTP token''
      else if toLowerCase name \<in> set MANAGED_REQUEST_FIELDS
      then kps_throw ProtocolError ''request header is managed by the transport''
      else if \<not> REQUEST_VALUE_RE val
      then kps_throw ProtocolError ''request header has a value with control or non-ASCII characters''
      else (case header_lines rest of
          Inl e \<Rightarrow> Inl e
        | Inr ls \<Rightarrow> Inr ((name @ '': '' @ js_trim val) # ls)))"

definition request_lines :: "kps_request \<Rightarrow> nat \<Rightarrow> string list \<Rightarrow> string list" where
  "request_lines r bodyLength hs =
     [rq_method r @ '' '' @ rq_path r @ '' HTTP/1.1'', ''Host: '' @ rq_certhash r] @ hs
     @ (if bodyLength > 0 \<or> rq_method r \<in> set BODY_METHODS then [''Content-Length: '' @ dec_string bodyLength] else [])"

definition encodeKpsHttpRequest :: "kps_request \<Rightarrow> bytes kps_result" where
  "encodeKpsHttpRequest r =
     (if \<not> TOKEN_RE (rq_method r) then kps_throw ProtocolError ''request method is not an HTTP token''
      else if \<not> TOKEN_RE (rq_certhash r) then kps_throw ProtocolError ''Host value (certhash) is not a valid token''
      else
        (let body = rq_body r; bodyLength = (case body of None \<Rightarrow> 0 | Some b \<Rightarrow> length b) in
         if (rq_method r = ''GET'' \<or> rq_method r = ''HEAD'') \<and> bodyLength > 0
         then kps_throw ProtocolError ''GET and HEAD requests must not carry a body''
         else (case header_lines (rq_headers r) of
             Inl e \<Rightarrow> Inl e
           | Inr hs \<Rightarrow>
               (let head = js_join CRLF (request_lines r bodyLength hs) @ CRLF @ CRLF in
                Inr (char_codes head @ (case body of None \<Rightarrow> [] | Some b \<Rightarrow> b))))))"

subsection \<open>Response heads\<close>

definition tab_or_space :: "char \<Rightarrow> bool" where
  "tab_or_space c = (c = CHR 9 \<or> c = CHR '' '')"

fun parse_header_lines ::
  "string list \<Rightarrow> (string \<times> string) list \<Rightarrow> nat option \<Rightarrow> nat \<Rightarrow> ((string \<times> string) list \<times> nat option) kps_result" where
  "parse_header_lines [] headers contentLength seen = Inr (headers, contentLength)"
| "parse_header_lines (line # rest) headers contentLength seen =
     (if prefix '' '' line \<or> prefix [CHR 9] line then kps_throw ProtocolError ''obsolete header line folding''
      else
        (let name = (case indexOf CHR '':'' line of Some colon \<Rightarrow> take colon line | None \<Rightarrow> []) in
         if \<not> TOKEN_RE name then kps_throw ProtocolError ''malformed header line''
         else
           (let val = strip_both tab_or_space (drop (length name + 1) line) in
            if \<not> RESPONSE_VALUE_RE val then kps_throw ProtocolError ''response header has control characters''
            else
              (let lower = toLowerCase name in
               if lower = ''transfer-encoding'' then kps_throw ProtocolError ''Transfer-Encoding is forbidden''
               else if lower = ''content-length'' then
                 (if seen + 1 > 1 then kps_throw ProtocolError ''more than one Content-Length field''
                  else if \<not> CONTENT_LENGTH_RE val then kps_throw ProtocolError ''Content-Length is not a decimal length''
                  else parse_header_lines rest (headers @ [(lower, val)]) (Some (nat_of_digits val 0)) (seen + 1))
               else parse_header_lines rest (headers @ [(lower, val)]) contentLength seen))))"

definition parseResponseHead :: "bytes \<Rightarrow> kps_head kps_result" where
  "parseResponseHead bytes =
     (let lines = js_split CRLF (latin1 bytes) in
      if list_ex (\<lambda>line. CHR 13 \<in> set line \<or> CHR 10 \<in> set line) lines
      then kps_throw ProtocolError ''bare CR or LF in the head''
      else (case STATUS_LINE_RE (case lines of [] \<Rightarrow> [] | l # _ \<Rightarrow> l) of
          None \<Rightarrow> kps_throw ProtocolError ''malformed status line''
        | Some (status, reason) \<Rightarrow>
            (case parse_header_lines (drop 1 lines) [] None 0 of
               Inl e \<Rightarrow> Inl e
             | Inr (headers, contentLength) \<Rightarrow>
                 Inr \<lparr>hd_status = nat_of_digits status 0, hd_reason = reason, hd_headers = headers,
                      hd_contentLength = contentLength\<rparr>)))"

fun findHeadEnd :: "bytes \<Rightarrow> nat option" where
  "findHeadEnd [] = None"
| "findHeadEnd (b # bs) = (if take 4 (b # bs) = [13, 10, 13, 10] then Some 0 else map_option Suc (findHeadEnd bs))"

subsection \<open>Reading from the stream\<close>

datatype stream_read = Data bytes | NotBytes | ReadFailed kps_error

type_synonym kps_stream = "stream_read list"

fun readChunk :: "kps_stream \<Rightarrow> (bytes option \<times> kps_stream) kps_result" where
  "readChunk [] = Inr (None, [])"
| "readChunk (Data b # s) = (if b \<noteq> [] then Inr (Some b, s) else readChunk s)"
| "readChunk (NotBytes # s) = kps_throw ProtocolError ''non-byte chunk''"
| "readChunk (ReadFailed e # s) = Inl e"

definition headTooLarge :: kps_error where
  "headTooLarge = NoxKpsError TooLarge ''response head exceeds the limit''"

definition bodyTooLarge :: "nat \<Rightarrow> nat \<Rightarrow> kps_error" where
  "bodyTooLarge limit seen = NoxKpsError TooLarge
     (''KPS-HTTP/1 response body exceeds '' @ dec_string limit @ '' bytes (at least '' @ dec_string seen @ '')'')"

text \<open>The inner loop: a final head, or the number of interim heads and the buffer to go on with.\<close>

datatype head_scan = Final kps_head bytes | More nat bytes

lemma findHeadEnd_length: "findHeadEnd b = Some e \<Longrightarrow> e + 4 \<le> length b"
proof (induction b arbitrary: e rule: findHeadEnd.induct)
  case (2 x bs)
  show ?case
  proof (cases "take 4 (x # bs) = [13, 10, 13, 10]")
    case True
    from arg_cong[OF this, of length] have "min (length (x # bs)) 4 = 4" by simp
    then have "4 \<le> length (x # bs)" by (metis min.cobounded1)
    moreover have "e = 0" using 2(2) True by simp
    ultimately show ?thesis by simp
  next
    case False
    then show ?thesis using 2 by (auto simp del: take_Suc_Cons)
  qed
qed simp

function scan_heads :: "nat \<Rightarrow> nat \<Rightarrow> bytes \<Rightarrow> head_scan kps_result" where
  "scan_heads maxHead interim buffer =
     (case findHeadEnd buffer of
        None \<Rightarrow> Inr (More interim buffer)
      | Some e \<Rightarrow>
          if e + 4 > maxHead then Inl headTooLarge
          else (case parseResponseHead (take e buffer) of
              Inl err \<Rightarrow> Inl err
            | Inr head \<Rightarrow>
                if hd_status head \<ge> 200 then Inr (Final head (drop (e + 4) buffer))
                else if hd_status head = 101 then kps_throw ProtocolError ''protocol upgrades are forbidden''
                else if interim + 1 > MAX_INTERIM_RESPONSES then kps_throw ProtocolError ''too many interim heads''
                else scan_heads maxHead (interim + 1) (drop (e + 4) buffer)))"
  by pat_completeness auto
termination
  by (relation "measure (\<lambda>(_, _, b). length b)") (auto dest: findHeadEnd_length)

declare scan_heads.simps [simp del]

lemma readChunk_less: "readChunk s = Inr (Some c, s') \<Longrightarrow> length s' < length s"
  by (induction s rule: readChunk.induct) (auto split: if_splits)

function read_head_from :: "nat \<Rightarrow> kps_stream \<Rightarrow> nat \<Rightarrow> bytes \<Rightarrow> (kps_head \<times> bytes \<times> kps_stream) kps_result" where
  "read_head_from maxHead stream interim buffer =
     (case scan_heads maxHead interim buffer of
        Inl e \<Rightarrow> Inl e
      | Inr (Final head rest) \<Rightarrow> Inr (head, rest, stream)
      | Inr (More interim' buffer') \<Rightarrow>
          if length buffer' \<ge> maxHead then Inl headTooLarge
          else (case readChunk stream of
              Inl e \<Rightarrow> Inl e
            | Inr (None, _) \<Rightarrow>
                kps_throw ProtocolError (if buffer' = [] then ''closed without a response'' else ''ended inside the response head'')
            | Inr (Some chunk, stream') \<Rightarrow> read_head_from maxHead stream' interim' (buffer' @ chunk)))"
  by pat_completeness auto
termination
  by (relation "measure (\<lambda>(_, s, _, _). length s)") (auto dest: readChunk_less)

declare read_head_from.simps [simp del]

definition readKpsHttpResponseHead :: "kps_stream \<Rightarrow> kps_limits \<Rightarrow> (kps_head \<times> bytes \<times> kps_stream) kps_result" where
  "readKpsHttpResponseHead reader limits = read_head_from (maxHeadBytes limits) reader 0 []"

text \<open>The loop that reads the body to the end of the stream.\<close>

function body_chunks :: "nat \<Rightarrow> kps_stream \<Rightarrow> nat \<Rightarrow> bytes list \<Rightarrow> (nat \<times> bytes list) kps_result" where
  "body_chunks maxBody stream len chunks =
     (case readChunk stream of
        Inl e \<Rightarrow> Inl e
      | Inr (None, _) \<Rightarrow> Inr (len, chunks)
      | Inr (Some chunk, stream') \<Rightarrow>
          if len + length chunk > maxBody then Inl (bodyTooLarge maxBody (len + length chunk))
          else body_chunks maxBody stream' (len + length chunk) (chunks @ [chunk]))"
  by pat_completeness auto
termination
  by (relation "measure (\<lambda>(_, s, _, _). length s)") (auto dest: readChunk_less)

declare body_chunks.simps [simp del]

definition readKpsHttpResponseBody ::
  "kps_stream \<Rightarrow> kps_head \<Rightarrow> bytes \<Rightarrow> string \<Rightarrow> kps_limits \<Rightarrow> bytes kps_result" where
  "readKpsHttpResponseBody reader head rest method limits =
     (let bodyless = (method = ''HEAD'' \<or> hd_status head = 204 \<or> hd_status head = 304);
          maxBody = maxBodyBytes limits in
      if \<not> bodyless \<and> (case hd_contentLength head of Some n \<Rightarrow> n > maxBody | None \<Rightarrow> False)
      then Inl (bodyTooLarge maxBody (the (hd_contentLength head)))
      else if length rest > maxBody then Inl (bodyTooLarge maxBody (length rest))
      else (case body_chunks maxBody reader (length rest) (if rest \<noteq> [] then [rest] else []) of
          Inl e \<Rightarrow> Inl e
        | Inr (len, chunks) \<Rightarrow>
            if bodyless then
              (if len > 0 then kps_throw ProtocolError ''response carried body bytes'' else Inr [])
            else if (case hd_contentLength head of Some n \<Rightarrow> n \<noteq> len | None \<Rightarrow> False)
            then kps_throw ProtocolError ''body length differs from Content-Length''
            else (case concatBytes chunks len of
                Inl _ \<Rightarrow> kps_throw InternalError ''offset is out of bounds''
              | Inr body \<Rightarrow> Inr body)))"

end
