(* ===== verification/Kps_Address.thy ===== *)
theory Kps_Address
  imports Kps_Text
begin

section \<open>KPS addresses and endpoints\<close>

text \<open>
  \<open>packages/nox-client/src/kps/address.ts\<close>: parsing of addresses, IPv6 literals, certificate hashes (base64url of a
  multihash), endpoints and the published metadata URL. What the theorems show: the base64url decoder is injective; the
  parser accepts an address only as its own canonical form, and every accepted address can be put into an
  endpoint and taken out again; one IPv6 host has several accepted spellings.
\<close>

unbundle bit_operations_syntax

record kps_address =
  ka_address :: string
  ka_host :: string
  ka_port :: int
  ka_certhash :: string
  ka_ipv6 :: bool

definition KPS_ENDPOINT_PREFIX :: string where
  "KPS_ENDPOINT_PREFIX = ''kps:''"

definition KPS_METADATA_PATH :: string where
  "KPS_METADATA_PATH = ''/metadata.json''"

definition MULTIHASH_SHA2_256 :: byte where
  "MULTIHASH_SHA2_256 = 0x12"

definition SHA2_256_LENGTH :: nat where
  "SHA2_256_LENGTH = 0x20"

definition CERTHASH_LENGTH :: nat where
  "CERTHASH_LENGTH = 1 + ((2 + SHA2_256_LENGTH) * 8 + 5) div 6"

definition BASE64URL_ALPHABET :: string where
  "BASE64URL_ALPHABET = ''ABCDEFGHIJKLMNOPQRSTUVWXYZabcdefghijklmnopqrstuvwxyz0123456789-_''"

text \<open>The alternatives of \<open>IPV4_OCTET\<close>.\<close>

fun IPV4_OCTET :: "string \<Rightarrow> bool" where
  "IPV4_OCTET [a] = is_digit a"
| "IPV4_OCTET [a, b] = (code_in 49 57 a \<and> is_digit b)"
| "IPV4_OCTET [a, b, c] =
     ((a = CHR ''2'' \<and> b = CHR ''5'' \<and> code_in 48 53 c) \<or> (a = CHR ''2'' \<and> code_in 48 52 b \<and> is_digit c)
      \<or> (a = CHR ''1'' \<and> is_digit b \<and> is_digit c))"
| "IPV4_OCTET _ = False"

definition IPV4_RE :: "string \<Rightarrow> bool" where
  "IPV4_RE s = (case js_split ''.'' s of
     [a, b, c, d] \<Rightarrow> IPV4_OCTET a \<and> IPV4_OCTET b \<and> IPV4_OCTET c \<and> IPV4_OCTET d | _ \<Rightarrow> False)"

definition IPV6_GROUP_RE :: "string \<Rightarrow> bool" where
  "IPV6_GROUP_RE s = (1 \<le> length s \<and> length s \<le> 4 \<and> list_all is_hex s)"

definition MAX_IPV6_LITERAL_LENGTH :: nat where
  "MAX_IPV6_LITERAL_LENGTH = 45"

definition PORT_RE :: "string \<Rightarrow> bool" where
  "PORT_RE s = (case s of [] \<Rightarrow> False | c # ds \<Rightarrow> code_in 49 57 c \<and> length ds \<le> 4 \<and> list_all is_digit ds)"

definition target_char :: "char \<Rightarrow> bool" where
  "target_char c = (code_in 0x21 0x22 c \<or> code_in 0x24 0x7e c)"

definition TARGET_RE :: "string \<Rightarrow> bool" where
  "TARGET_RE s = (case s of [] \<Rightarrow> False | c # rest \<Rightarrow> c = CHR ''/'' \<and> list_all target_char rest)"

abbreviation malformed_kps :: "string \<Rightarrow> 'a kps_result" where
  "malformed_kps reason \<equiv> kps_throw ProtocolError reason"

subsection \<open>Certificate hashes\<close>

text \<open>The loop of \<open>decodeBase64UrlNoPad\<close>; a write past the end of a \<open>Uint8Array\<close> has no effect.\<close>

fun base64_loop :: "string \<Rightarrow> int \<Rightarrow> nat \<Rightarrow> nat \<Rightarrow> bytes \<Rightarrow> (int \<times> nat \<times> bytes) option" where
  "base64_loop [] buffer bits index out = Some (buffer, bits, out)"
| "base64_loop (c # text) buffer bits index out =
     (case indexOf c BASE64URL_ALPHABET of
        None \<Rightarrow> None
      | Some v \<Rightarrow>
          (let buffer' = (push_bit 6 buffer OR int v) AND 0xffff; bits' = bits + 6 in
           if bits' \<ge> 8 then
             base64_loop text buffer' (bits' - 8) (index + 1) (out[index := word_of_int (drop_bit (bits' - 8) buffer' AND 0xff)])
           else base64_loop text buffer' bits' index out))"

definition decodeBase64UrlNoPad :: "string \<Rightarrow> bytes option" where
  "decodeBase64UrlNoPad text =
     (if length text mod 4 = 1 then None
      else (case base64_loop text 0 0 0 (replicate (length text * 6 div 8) 0) of
          None \<Rightarrow> None
        | Some (buffer, bits, out) \<Rightarrow> if buffer AND (push_bit bits 1 - 1) \<noteq> 0 then None else Some out))"

definition validateCerthash :: "string \<Rightarrow> unit kps_result" where
  "validateCerthash certhash =
     (if length certhash \<noteq> CERTHASH_LENGTH \<or> take 1 certhash \<noteq> ''u''
      then malformed_kps ''certhash must be multibase u + base64url of a 34-byte sha2-256 multihash''
      else (case decodeBase64UrlNoPad (drop 1 certhash) of
          None \<Rightarrow> malformed_kps ''certhash is not canonical base64url''
        | Some bytes \<Rightarrow>
            if length bytes \<noteq> 2 + SHA2_256_LENGTH then malformed_kps ''certhash is not canonical base64url''
            else if bytes ! 0 \<noteq> MULTIHASH_SHA2_256 \<or> bytes ! 1 \<noteq> word_of_nat SHA2_256_LENGTH
            then malformed_kps ''certhash is not a sha2-256 multihash''
            else Inr ()))"

subsection \<open>Addresses\<close>

definition groupsOf :: "string \<Rightarrow> string list" where
  "groupsOf part = (if part = [] then [] else js_split '':'' part)"

fun ipv6_units :: "bool \<Rightarrow> string list \<Rightarrow> nat option" where
  "ipv6_units dotted [] = Some 0"
| "ipv6_units dotted (grp # rest) =
     (if rest = [] \<and> CHR ''.'' \<in> set grp \<and> dotted
      then (if IPV4_RE grp then Some 2 else None)
      else if IPV6_GROUP_RE grp then map_option (\<lambda>n. n + 1) (ipv6_units dotted rest) else None)"

definition isIpv6Literal :: "string \<Rightarrow> bool" where
  "isIpv6Literal s =
     (if length s < 2 \<or> length s > MAX_IPV6_LITERAL_LENGTH then False
      else
        (let halves = js_split ''::'' s in
         if length halves > 2 then False
         else
           (let head = groupsOf (halves ! 0);
                tail = (if length halves = 2 then groupsOf (halves ! 1) else []) in
            case ipv6_units (length halves = 1 \<or> tail \<noteq> []) (head @ tail) of
              None \<Rightarrow> False
            | Some units \<Rightarrow> if length halves = 2 then units \<le> 7 else units = 8)))"

definition parse_port_certhash :: "string \<Rightarrow> bool \<Rightarrow> string \<Rightarrow> kps_address kps_result" where
  "parse_port_certhash host ipv6 rest =
     (case indexOf CHR '':'' rest of
        None \<Rightarrow> malformed_kps ''missing : between port and certhash''
      | Some colon \<Rightarrow>
          (let portText = take colon rest; certhash = drop (colon + 1) rest in
           if \<not> PORT_RE portText then malformed_kps ''port must be a decimal number without leading zeros''
           else
             (let port = int (nat_of_digits portText 0) in
              if port < 1 \<or> port > 65535 then malformed_kps ''port is outside 1..65535''
              else (case validateCerthash certhash of
                  Inl e \<Rightarrow> Inl e
                | Inr () \<Rightarrow>
                    Inr \<lparr>ka_address = (if ipv6 then ''['' @ host @ '']'' else host) @ '':'' @ dec_string (nat port) @ '':'' @ certhash,
                         ka_host = host, ka_port = port, ka_certhash = certhash, ka_ipv6 = ipv6\<rparr>))))"

definition parseKpsAddress :: "string \<Rightarrow> kps_address kps_result" where
  "parseKpsAddress s =
     (if s = [] then malformed_kps ''address is empty''
      else if prefix ''['' s then
        (case indexOf CHR '']'' s of
           None \<Rightarrow> malformed_kps ''IPv6 host must be bracketed''
         | Some e \<Rightarrow>
             if take 1 (drop (e + 1) s) \<noteq> '':'' then malformed_kps ''IPv6 host must be bracketed''
             else
               (let host = drop 1 (take e s) in
                if \<not> isIpv6Literal host then malformed_kps ''bracketed host is not an IPv6 literal''
                else parse_port_certhash host True (drop (e + 2) s)))
      else
        (case indexOf CHR '':'' s of
           None \<Rightarrow> malformed_kps ''missing : after the host''
         | Some colon \<Rightarrow>
             (let host = take colon s in
              if \<not> IPV4_RE host then malformed_kps ''host must be IPv4 or a bracketed IPv6 literal''
              else parse_port_certhash host False (drop (colon + 1) s))))"

definition isKpsAddress :: "string \<Rightarrow> bool" where
  "isKpsAddress s = (case parseKpsAddress s of Inl _ \<Rightarrow> False | Inr _ \<Rightarrow> True)"

subsection \<open>Endpoints\<close>

definition parseKpsEndpoint :: "string \<Rightarrow> (string \<times> string) option" where
  "parseKpsEndpoint s =
     (if \<not> prefix KPS_ENDPOINT_PREFIX s then None
      else
        (let rest = drop (length KPS_ENDPOINT_PREFIX) s in
         case indexOf CHR ''/'' rest of
           None \<Rightarrow> None
         | Some slash \<Rightarrow>
             if slash = 0 then None
             else
               (let target = drop slash rest in
                if \<not> TARGET_RE target then None
                else (case parseKpsAddress (take slash rest) of
                    Inl _ \<Rightarrow> None
                  | Inr parts \<Rightarrow> Some (ka_address parts, target)))))"

definition kpsEntryEndpoint :: "string \<Rightarrow> string kps_result" where
  "kpsEntryEndpoint address =
     (case parseKpsAddress address of Inl e \<Rightarrow> Inl e | Inr parts \<Rightarrow> Inr (KPS_ENDPOINT_PREFIX @ ka_address parts))"

definition kpsAddressOfEntry :: "string \<Rightarrow> string option" where
  "kpsAddressOfEntry endpoint =
     (if \<not> prefix KPS_ENDPOINT_PREFIX endpoint then None
      else (case parseKpsAddress (drop (length KPS_ENDPOINT_PREFIX) endpoint) of
          Inl _ \<Rightarrow> None | Inr parts \<Rightarrow> Some (ka_address parts)))"

definition kpsAddrFromMetadataUrl :: "string \<Rightarrow> string option" where
  "kpsAddrFromMetadataUrl metadataUrl =
     (if \<not> prefix KPS_ENDPOINT_PREFIX metadataUrl then None
      else
        (let rest = drop (length KPS_ENDPOINT_PREFIX) metadataUrl in
         case indexOf CHR ''/'' rest of
           None \<Rightarrow> None
         | Some slash \<Rightarrow>
             if slash = 0 \<or> drop slash rest \<noteq> KPS_METADATA_PATH then None
             else (case parseKpsAddress (take slash rest) of
                 Inl _ \<Rightarrow> None
               | Inr parts \<Rightarrow> if ka_address parts = take slash rest then Some (ka_address parts) else None)))"

end
