(* ===== verification/Kps_Framing.thy ===== *)
theory Kps_Framing
  imports Kps_Http1 Kps_Address
begin

section \<open>Framing of KPS exchanges\<close>

text \<open>
  Requests cannot be split or extended through header values; a response is read the same however the stream
  cuts it; an accepted response accounts for all bytes received; a printed head is parsed back.
\<close>

subsection \<open>The end of a head\<close>

lemma findHeadEnd_skip: "13 \<notin> set l \<Longrightarrow> findHeadEnd (l @ r) = map_option (\<lambda>n. length l + n) (findHeadEnd r)"
proof (induction l)
  case (Cons x l)
  then have "take 4 ((x # l) @ r) \<noteq> [13, 10, 13, 10]" by auto
  then show ?case using Cons by (simp del: take_Suc_Cons add: option.map_comp comp_def)
qed (cases "findHeadEnd r"; simp)

lemma findHeadEnd_append: "findHeadEnd b = Some e \<Longrightarrow> findHeadEnd (b @ c) = Some e"
proof (induction b arbitrary: e rule: findHeadEnd.induct)
  case (2 x bs)
  show ?case
  proof (cases "take 4 (x # bs) = [13, 10, 13, 10]")
    case True
    from arg_cong[OF this, of length] have "4 \<le> length (x # bs)" by simp
    then have "take 4 ((x # bs) @ c) = take 4 (x # bs)" by (simp only: take_append) simp
    then show ?thesis using True 2(2) by simp
  next
    case False
    then obtain e' where e: "findHeadEnd bs = Some e'" "e = Suc e'" using 2(2) by (auto simp del: take_Suc_Cons)
    have "4 \<le> length (x # bs)" using findHeadEnd_length[OF e(1)] by simp
    then have "take 4 ((x # bs) @ c) = take 4 (x # bs)" by (simp only: take_append) simp
    then have "take 4 (x # bs @ c) \<noteq> [13, 10, 13, 10]" using False by (simp only: append_Cons) (simp only: not_False_eq_True)
    then show ?thesis using 2(1)[OF False e(1)] e(2) by (simp del: take_Suc_Cons)
  qed
qed simp

lemma findHeadEnd_split: "findHeadEnd b = Some e \<Longrightarrow> b = take e b @ [13, 10, 13, 10] @ drop (e + 4) b"
proof (induction b arbitrary: e rule: findHeadEnd.induct)
  case (2 x bs)
  show ?case
  proof (cases "take 4 (x # bs) = [13, 10, 13, 10]")
    case True
    then show ?thesis using 2(2) append_take_drop_id[of 4 "x # bs"] by simp
  next
    case False
    then obtain e' where e: "findHeadEnd bs = Some e'" "e = Suc e'" using 2(2) by (auto simp del: take_Suc_Cons)
    have "drop (e + 4) (x # bs) = drop (e' + 4) bs" unfolding e(2) add_Suc by (rule drop_Suc_Cons)
    then show ?thesis using 2(1)[OF False e(1)] e(2) by simp
  qed
qed simp

definition crlf_lines :: "bytes list \<Rightarrow> bytes" where
  "crlf_lines ls = concat (map (\<lambda>l. l @ [13, 10]) ls)"

lemma findHeadEnd_lines:
  assumes "ls \<noteq> []" "\<forall>l \<in> set ls. l \<noteq> [] \<and> 13 \<notin> set l"
  shows "findHeadEnd (crlf_lines ls @ [13, 10] @ body) = Some (length (crlf_lines ls) - 2)"
  using assms
proof (induction ls)
  case (Cons l ls)
  let ?r = "crlf_lines ls @ [13, 10] @ body"
  have l: "13 \<notin> set l" using Cons.prems(2) by simp
  have "findHeadEnd (crlf_lines (l # ls) @ [13, 10] @ body) = map_option (\<lambda>n. length l + n) (findHeadEnd ([13, 10] @ ?r))"
    using findHeadEnd_skip[OF l, of "[13, 10] @ ?r"] by (simp add: crlf_lines_def)
  also have "findHeadEnd ([13, 10] @ ?r) = Some (length (crlf_lines ls))"
  proof (cases ls)
    case Nil
    then show ?thesis by (simp add: crlf_lines_def)
  next
    case (Cons m ms)
    then obtain x xs where m: "m = x # xs" "x \<noteq> 13" using Cons.prems(2) by (cases m) auto
    have "findHeadEnd ([13, 10] @ ?r) = map_option (\<lambda>n. Suc (Suc n)) (findHeadEnd ?r)"
      using Cons m by (simp add: crlf_lines_def option.map_comp comp_def)
    also have "findHeadEnd ?r = Some (length (crlf_lines ls) - 2)" using Cons.IH Cons.prems Cons by simp
    finally show ?thesis using Cons by (simp add: crlf_lines_def)
  qed
  finally show ?case by (simp add: crlf_lines_def)
qed simp

lemma join_crlf: "ls \<noteq> [] \<Longrightarrow> char_codes (js_join CRLF ls @ CRLF) = crlf_lines (map char_codes ls)"
proof (induction ls rule: induct_list012)
  case (2 x)
  then show ?case by (simp add: crlf_lines_def CRLF_def char_codes_def)
next
  case (3 x y zs)
  then show ?case by (simp add: crlf_lines_def) (simp add: CRLF_def char_codes_def)
qed simp

lemma cr_codes: "13 \<in> set (char_codes s) \<longleftrightarrow> CHR 13 \<in> set s"
  using set_char_codes[of "CHR 13" s] by simp

lemma head_end_of_lines:
  assumes "ls \<noteq> []" "\<forall>l \<in> set ls. l \<noteq> [] \<and> CHR 13 \<notin> set l"
  shows "findHeadEnd (char_codes (js_join CRLF ls @ CRLF @ CRLF) @ body) = Some (length (js_join CRLF ls))"
proof -
  have c: "char_codes CRLF = [13, 10]" by (simp add: CRLF_def char_codes_def)
  have "char_codes (js_join CRLF ls @ CRLF @ CRLF) @ body = crlf_lines (map char_codes ls) @ [13, 10] @ body"
    using join_crlf[OF assms(1)] c by simp
  moreover have "length (crlf_lines (map char_codes ls)) = length (js_join CRLF ls) + 2"
    using join_crlf[OF assms(1)] by (metis CRLF_def append_eq_conv_conj length_append length_latin1(2) list.size(3,4) numeral_2_eq_2 One_nat_def add_0 add_Suc_right add_0_right)
  moreover have "findHeadEnd (crlf_lines (map char_codes ls) @ [13, 10] @ body) = Some (length (crlf_lines (map char_codes ls)) - 2)"
    using assms by (intro findHeadEnd_lines) (auto simp: cr_codes, auto simp: char_codes_def)
  ultimately show ?thesis by simp
qed

subsection \<open>Requests\<close>

definition clean :: "string \<Rightarrow> bool" where
  "clean s = (CHR 13 \<notin> set s \<and> CHR 10 \<notin> set s)"

lemma clean_append [simp]: "clean (s @ t) = (clean s \<and> clean t)"
  by (auto simp: clean_def)

lemma clean_simps [simp]: "clean []" "clean (c # s) = (c \<noteq> CHR 13 \<and> c \<noteq> CHR 10 \<and> clean s)"
  by (auto simp: clean_def)

lemma clean_request: "list_all request_char s \<Longrightarrow> clean s"
  by (auto simp: clean_def list_all_iff request_char_def code_in_def)

lemma token_clean: "TOKEN_RE s \<Longrightarrow> clean s"
proof -
  have "\<not> token_char CHR 13" "\<not> token_char CHR 10" by (simp_all add: token_char_def code_in_def)
  then show "TOKEN_RE s \<Longrightarrow> clean s" by (auto simp: TOKEN_RE_def clean_def list_all_iff)
qed

lemma target_clean: "TARGET_RE s \<Longrightarrow> clean s"
proof -
  have "\<not> target_char CHR 13" "\<not> target_char CHR 10" by (simp_all add: target_char_def code_in_def)
  then show "TARGET_RE s \<Longrightarrow> clean s" by (auto simp: TARGET_RE_def clean_def list_all_iff split: list.splits)
qed

lemma strip_both_subset: "set (strip_both P s) \<subseteq> set s"
  by (auto simp: strip_both_def dest!: set_dropWhileD)

lemma dec_clean: "clean (dec_string n)"
proof -
  have "list_all is_digit (dec_string n)" using nat_of_digits_dec by blast
  then show ?thesis by (auto simp: clean_def list_all_iff is_digit_def)
qed

lemma header_lines_ok:
  assumes "header_lines hs = Inr ls"
  shows "ls = map (\<lambda>(n, v). n @ '': '' @ js_trim v) hs \<and> (\<forall>l \<in> set ls. l \<noteq> [] \<and> clean l)
    \<and> (\<forall>(n, v) \<in> set hs. TOKEN_RE n \<and> toLowerCase n \<notin> set MANAGED_REQUEST_FIELDS)"
  using assms
proof (induction hs arbitrary: ls rule: header_lines.induct)
  case (2 name val rest)
  then obtain ls' where r: "header_lines rest = Inr ls'" "ls = (name @ '': '' @ js_trim val) # ls'"
    by (cases "header_lines rest") (auto split: if_splits)
  have c: "TOKEN_RE name" "toLowerCase name \<notin> set MANAGED_REQUEST_FIELDS" "REQUEST_VALUE_RE val"
    using 2(2) by (auto split: if_splits)
  have "clean (js_trim val)"
    using clean_request[of val] c(3) strip_both_subset[of js_space val] by (auto simp: REQUEST_VALUE_RE_def clean_def js_trim_def)
  moreover have "clean '': ''" by (simp add: clean_def)
  ultimately show ?case using 2(1)[OF _ _ _ r(1)] c r(2) token_clean[OF c(1)] by simp
qed simp

lemma request_lines_ok:
  assumes "TOKEN_RE (rq_method r)" "TOKEN_RE (rq_certhash r)" "TARGET_RE (rq_path r)" "header_lines (rq_headers r) = Inr hs"
  shows "\<forall>l \<in> set (request_lines r n hs). l \<noteq> [] \<and> clean l"
  using conjunct1[OF conjunct2[OF header_lines_ok[OF assms(4)]]] token_clean[OF assms(1)] token_clean[OF assms(2)] target_clean[OF assms(3)] dec_clean[of n]
  by (auto simp: request_lines_def)

text \<open>
  C38. A request cannot be split or smuggled. For a path that is an origin-form target, the bytes of an accepted request have their head end exactly
  where the body begins; the lines before it are the request line, the host, one line per header in order, and the length of the body where one is
  sent; none holds a carriage return or line feed; no header names a field the transport manages; and what follows the head is the body.
\<close>

theorem encodeKpsHttpRequest_unsplittable:
  assumes "encodeKpsHttpRequest r = Inr out" "TARGET_RE (rq_path r)"
  shows "\<exists>e. findHeadEnd out = Some e
    \<and> js_split CRLF (latin1 (take e out)) =
        [rq_method r @ '' '' @ rq_path r @ '' HTTP/1.1'', ''Host: '' @ rq_certhash r]
        @ map (\<lambda>(n, v). n @ '': '' @ js_trim v) (rq_headers r)
        @ (if length (case rq_body r of None \<Rightarrow> [] | Some b \<Rightarrow> b) > 0 \<or> rq_method r \<in> set BODY_METHODS
           then [''Content-Length: '' @ dec_string (length (case rq_body r of None \<Rightarrow> [] | Some b \<Rightarrow> b))] else [])
    \<and> (\<forall>l \<in> set (js_split CRLF (latin1 (take e out))). CHR 13 \<notin> set l \<and> CHR 10 \<notin> set l)
    \<and> (\<forall>(n, v) \<in> set (rq_headers r). toLowerCase n \<notin> set MANAGED_REQUEST_FIELDS)
    \<and> drop (e + 4) out = (case rq_body r of None \<Rightarrow> [] | Some b \<Rightarrow> b)"
proof -
  define body where "body = (case rq_body r of None \<Rightarrow> [] | Some b \<Rightarrow> b)"
  have len: "(case rq_body r of None \<Rightarrow> 0 | Some b \<Rightarrow> length b) = length body" by (simp add: body_def split: option.splits)
  obtain hs where h: "header_lines (rq_headers r) = Inr hs" and t: "TOKEN_RE (rq_method r)" "TOKEN_RE (rq_certhash r)"
    and out: "out = char_codes (js_join CRLF (request_lines r (length body) hs) @ CRLF @ CRLF) @ body"
    using assms(1) unfolding encodeKpsHttpRequest_def Let_def len body_def[symmetric] by (auto split: if_splits sum.splits)
  define ls where "ls = request_lines r (length body) hs"
  have ok: "\<forall>l \<in> set ls. l \<noteq> [] \<and> clean l" unfolding ls_def by (rule request_lines_ok[OF t assms(2) h])
  have ne: "ls \<noteq> []" by (simp add: ls_def request_lines_def)
  have e: "findHeadEnd out = Some (length (js_join CRLF ls))"
    unfolding out ls_def[symmetric] using ok by (intro head_end_of_lines[OF ne]) (auto simp: clean_def)
  have "take (length (js_join CRLF ls)) out = char_codes (js_join CRLF ls)" by (simp add: out ls_def)
  then have s: "js_split CRLF (latin1 (take (length (js_join CRLF ls)) out)) = ls"
    using split_join[OF ne, of "CHR 13" "[CHR 10]"] ok by (simp add: CRLF_def clean_def)
  have "length (char_codes (js_join CRLF ls @ CRLF @ CRLF)) = length (js_join CRLF ls) + 4" by (simp add: CRLF_def)
  then have "drop (length (js_join CRLF ls) + 4) out = body" unfolding out ls_def[symmetric] by simp
  moreover have "ls = [rq_method r @ '' '' @ rq_path r @ '' HTTP/1.1'', ''Host: '' @ rq_certhash r]
      @ map (\<lambda>(n, v). n @ '': '' @ js_trim v) (rq_headers r)
      @ (if length body > 0 \<or> rq_method r \<in> set BODY_METHODS then [''Content-Length: '' @ dec_string (length body)] else [])"
    using header_lines_ok[OF h] by (simp add: ls_def request_lines_def)
  moreover have "\<forall>(n, v) \<in> set (rq_headers r). toLowerCase n \<notin> set MANAGED_REQUEST_FIELDS"
    using header_lines_ok[OF h] by auto
  ultimately show ?thesis
    unfolding body_def[symmetric] using e s ok by (intro exI[of _ "length (js_join CRLF ls)"]) (simp add: clean_def)
qed

definition sample_request :: kps_request where
  "sample_request = \<lparr>rq_method = ''POST'', rq_path = ''/api'', rq_certhash = ''uEi'', rq_headers = [(''Accept'', '' a '')], rq_body = Some [1, 2]\<rparr>"

theorem encodeKpsHttpRequest_unsplittable_witness:
  "\<exists>out e. encodeKpsHttpRequest sample_request = Inr out \<and> findHeadEnd out = Some e \<and> drop (e + 4) out = [1, 2]
     \<and> length (js_split CRLF (latin1 (take e out))) = 4"
proof -
  have r: "encodeKpsHttpRequest sample_request = Inr (projr (encodeKpsHttpRequest sample_request))" by code_simp
  have t: "TARGET_RE (rq_path sample_request)" by code_simp
  from encodeKpsHttpRequest_unsplittable[OF r t] show ?thesis using r
    by (auto simp: sample_request_def BODY_METHODS_def)
qed

subsection \<open>Responses\<close>

lemma findHeadEnd_take: "findHeadEnd x = Some e \<Longrightarrow> take (e + 4) x = take e x @ [13, 10, 13, 10]"
proof -
  assume f: "findHeadEnd x = Some e"
  have "(take e x @ [13, 10, 13, 10]) @ drop (e + 4) x = x" using findHeadEnd_split[OF f] by simp
  moreover have "length (take e x @ [13, 10, 13, 10]) = e + 4" using findHeadEnd_length[OF f] by simp
  ultimately show ?thesis by (metis append_eq_conv_conj)
qed

lemma findHeadEnd_short: "findHeadEnd b = None \<Longrightarrow> findHeadEnd (b @ c) = Some e \<Longrightarrow> length b < e + 4"
proof (rule ccontr)
  assume n: "findHeadEnd b = None" and s: "findHeadEnd (b @ c) = Some e" and l: "\<not> length b < e + 4"
  have "take (e + 4) (b @ c) = take e (b @ c) @ [13, 10, 13, 10]"
    by (rule findHeadEnd_take[OF s])
  moreover have "take (e + 4) (b @ c) = take (e + 4) b" using l by simp
  ultimately have "b = take e (b @ c) @ [13, 10, 13, 10] @ drop (e + 4) b" by (metis append.assoc append_take_drop_id)
  moreover have "\<exists>n. findHeadEnd (x @ [13, 10, 13, 10] @ y) = Some n" for x y :: bytes
  proof (induction x)
    case (Cons a x)
    then show ?case by (cases "take 4 ((a # x) @ [13, 10, 13, 10] @ y) = [13, 10, 13, 10]") auto
  qed simp
  ultimately show False using n by (metis option.distinct(1))
qed

text \<open>More bytes after the buffer change nothing that the scan has already decided.\<close>

lemma scan_heads_append:
  "scan_heads m i (b @ c) = (case scan_heads m i b of
      Inl e \<Rightarrow> Inl e
    | Inr (Final h rest) \<Rightarrow> Inr (Final h (rest @ c))
    | Inr (More i' b') \<Rightarrow> scan_heads m i' (b' @ c))"
proof (induction m i b rule: scan_heads.induct)
  case (1 m i b)
  show ?case
  proof (cases "findHeadEnd b")
    case None
    then have "scan_heads m i b = Inr (More i b)" by (subst scan_heads.simps) simp
    then show ?thesis by simp
  next
    case (Some e)
    have l: "e + 4 \<le> length b" by (rule findHeadEnd_length[OF Some])
    define bc where "bc = b @ c"
    have bc: "findHeadEnd bc = Some e" "take e bc = take e b" "drop (e + 4) bc = drop (e + 4) b @ c"
      using findHeadEnd_append[OF Some] l by (simp_all add: bc_def)
    note unf = scan_heads.simps[of m i bc] scan_heads.simps[of m i b] Some bc bc_def[symmetric]
    show ?thesis
    proof (cases "e + 4 > m")
      case True
      then show ?thesis by (simp add: unf)
    next
      case False
      show ?thesis
      proof (cases "parseResponseHead (take e b)")
        case (Inl err)
        then show ?thesis using False by (simp add: unf)
      next
        case (Inr h)
        show ?thesis
        proof (cases "hd_status h \<ge> 200 \<or> hd_status h = 101 \<or> i + 1 > MAX_INTERIM_RESPONSES")
          case True
          then show ?thesis using False Inr
            by (auto simp: unf)
        next
          case go: False
          then show ?thesis using False Inr 1[OF Some False Inr]
            by (simp add: unf)
        qed
      qed
    qed
  qed
qed

lemma scan_heads_more: "scan_heads m i b = Inr (More i' b') \<Longrightarrow> findHeadEnd b' = None"
proof (induction m i b rule: scan_heads.induct)
  case (1 m i b)
  then show ?case
    by (subst (asm) (2) scan_heads.simps) (auto split: option.splits if_splits sum.splits)
qed

text \<open>A head that outgrows the limit is refused whether or not the rest of the bytes is there.\<close>

lemma scan_heads_overlong:
  assumes "findHeadEnd b = None" "m \<le> length b"
  shows "scan_heads m i (b @ c) = Inl headTooLarge \<or> scan_heads m i (b @ c) = Inr (More i (b @ c))"
  using findHeadEnd_short[OF assms(1), of c] assms(2) by (subst (1 2) scan_heads.simps) (cases "findHeadEnd (b @ c)", auto)

definition chunks_of :: "bytes list \<Rightarrow> kps_stream" where
  "chunks_of cs = map Data cs"

fun stream_bytes :: "kps_stream \<Rightarrow> bytes" where
  "stream_bytes [] = []"
| "stream_bytes (Data b # s) = b @ stream_bytes s"
| "stream_bytes (_ # s) = stream_bytes s"

lemma chunks_simps [simp]: "chunks_of [] = []" "chunks_of (c # cs) = Data c # chunks_of cs" "stream_bytes (chunks_of cs) = concat cs"
  by (simp_all add: chunks_of_def) (induction cs, auto)

lemma readChunk_chunks:
  "readChunk (chunks_of cs) = (case dropWhile (\<lambda>c. c = []) cs of [] \<Rightarrow> Inr (None, []) | c # rest \<Rightarrow> Inr (Some c, chunks_of rest))"
  by (induction cs) auto

lemma concat_dropWhile: "concat (dropWhile (\<lambda>c. c = []) cs) = concat cs"
  by (induction cs) auto

text \<open>What the head reader computes from all the bytes of the stream: the head and what follows it.\<close>

definition head_of_bytes :: "nat \<Rightarrow> nat \<Rightarrow> bytes \<Rightarrow> (kps_head \<times> bytes) kps_result" where
  "head_of_bytes m i b = (case scan_heads m i b of
      Inl e \<Rightarrow> Inl e
    | Inr (Final h rest) \<Rightarrow> Inr (h, rest)
    | Inr (More i' b') \<Rightarrow>
        if length b' \<ge> m then Inl headTooLarge
        else kps_throw ProtocolError (if b' = [] then ''closed without a response'' else ''ended inside the response head''))"

lemma read_head_chunks:
  "(case read_head_from m (chunks_of cs) i b of Inl e \<Rightarrow> Inl e | Inr (h, rest, s) \<Rightarrow> Inr (h, rest @ stream_bytes s))
     = head_of_bytes m i (b @ concat cs)
   \<and> (\<forall>h rest s. read_head_from m (chunks_of cs) i b = Inr (h, rest, s) \<longrightarrow> (\<exists>cs'. s = chunks_of cs'))"
proof (induction "length cs" arbitrary: cs i b rule: less_induct)
  case less
  note unf = read_head_from.simps[of m "chunks_of cs" i b]
  consider (err) e where "scan_heads m i b = Inl e" | (fin) h rest where "scan_heads m i b = Inr (Final h rest)"
    | (more) i' b' where "scan_heads m i b = Inr (More i' b')"
    by (metis head_scan.exhaust sum.exhaust)
  then show ?case
  proof cases
    case err
    then show ?thesis by (simp add: unf head_of_bytes_def scan_heads_append)
  next
    case fin
    then show ?thesis by (auto simp: unf head_of_bytes_def scan_heads_append)
  next
    case more
    note none = scan_heads_more[OF more]
    have self: "scan_heads m i' b' = Inr (More i' b')" using none by (subst scan_heads.simps) simp
    show ?thesis
    proof (cases "m \<le> length b'")
      case True
      then show ?thesis using more scan_heads_overlong[OF none True, of i' "concat cs"]
        by (auto simp: unf head_of_bytes_def scan_heads_append)
    next
      case False
      show ?thesis
      proof (cases "dropWhile (\<lambda>c. c = []) cs")
        case Nil
        have e: "concat cs = []" using concat_dropWhile[of cs] unfolding Nil by simp
        have "readChunk (chunks_of cs) = Inr (None, [])" unfolding readChunk_chunks Nil by simp
        then show ?thesis using more False unfolding e by (simp add: unf head_of_bytes_def)
      next
        case (Cons c rest)
        have "length rest < length cs" using arg_cong[OF Cons, of length] length_dropWhile_le[of "\<lambda>c. c = []" cs] by simp
        note IH = less(1)[OF this, of i' "b' @ c"]
        have e: "concat cs = c @ concat rest" using concat_dropWhile[of cs] Cons by simp
        have "read_head_from m (chunks_of cs) i b = read_head_from m (chunks_of rest) i' (b' @ c)"
          using more False by (simp add: unf readChunk_chunks Cons)
        moreover have "head_of_bytes m i (b @ concat cs) = head_of_bytes m i' ((b' @ c) @ concat rest)"
          using more by (simp add: head_of_bytes_def scan_heads_append e)
        ultimately show ?thesis using IH by simp
      qed
    qed
  qed
qed

lemma body_chunks_concat:
  "n \<le> m \<Longrightarrow> n + length (concat cs) \<le> m \<Longrightarrow>
   body_chunks m (chunks_of cs) n acc = Inr (n + length (concat cs), acc @ filter (\<lambda>c. c \<noteq> []) cs)"
  "n \<le> m \<Longrightarrow> n + length (concat cs) > m \<Longrightarrow> \<exists>seen > m. body_chunks m (chunks_of cs) n acc = Inl (bodyTooLarge m seen)"
proof (induction cs arbitrary: n acc)
  case Nil
  {
    case 1
    then show ?case by (simp add: body_chunks.simps)
  next
    case 2
    then show ?case by simp
  }
next
  case (Cons c cs)
  have skip: "c = [] \<Longrightarrow> body_chunks m (chunks_of (c # cs)) n acc = body_chunks m (chunks_of cs) n acc" for n acc
    by (simp add: body_chunks.simps[of m "Data [] # _"] body_chunks.simps[of m "chunks_of cs"])
  have go: "c \<noteq> [] \<Longrightarrow> body_chunks m (chunks_of (c # cs)) n acc =
      (if n + length c > m then Inl (bodyTooLarge m (n + length c)) else body_chunks m (chunks_of cs) (n + length c) (acc @ [c]))" for n acc
    by (simp add: body_chunks.simps[of m "Data c # _"])
  {
    case 1
    then show ?case using Cons.IH(1)[of n acc] Cons.IH(1)[of "n + length c" "acc @ [c]"] skip go
      by (cases "c = []") (simp_all add: add.assoc)
  next
    case 2
    show ?case
    proof (cases "c = []")
      case True
      have "\<exists>seen > m. body_chunks m (chunks_of cs) n acc = Inl (bodyTooLarge m seen)" using 2 True by (intro Cons.IH(2)) simp_all
      then show ?thesis unfolding skip[OF True] .
    next
      case False
      show ?thesis
      proof (cases "n + length c > m")
        case True
        then show ?thesis unfolding go[OF False] by auto
      next
        case fit: False
        have "\<exists>seen > m. body_chunks m (chunks_of cs) (n + length c) (acc @ [c]) = Inl (bodyTooLarge m seen)"
          using 2 fit by (intro Cons.IH(2)) simp_all
        then show ?thesis unfolding go[OF False] using fit by auto
      qed
    qed
  }
qed

lemma concat_filter_nonempty: "concat (filter (\<lambda>c. c \<noteq> []) cs) = concat cs"
  by (induction cs) auto

text \<open>The body as a function of its bytes; \<open>seen\<close> is how many of them had been read when the limit was passed.\<close>

definition body_of_bytes :: "nat \<Rightarrow> kps_head \<Rightarrow> bytes \<Rightarrow> string \<Rightarrow> nat \<Rightarrow> bytes kps_result" where
  "body_of_bytes seen h b method m =
     (let bodyless = (method = ''HEAD'' \<or> hd_status h = 204 \<or> hd_status h = 304) in
      if \<not> bodyless \<and> (case hd_contentLength h of Some n \<Rightarrow> n > m | None \<Rightarrow> False)
      then Inl (bodyTooLarge m (the (hd_contentLength h)))
      else if length b > m then Inl (bodyTooLarge m seen)
      else if bodyless then (if b \<noteq> [] then kps_throw ProtocolError ''response carried body bytes'' else Inr [])
      else if (case hd_contentLength h of Some n \<Rightarrow> n \<noteq> length b | None \<Rightarrow> False)
      then kps_throw ProtocolError ''body length differs from Content-Length'' else Inr b)"

lemma read_body_chunks:
  "\<exists>seen > maxBodyBytes limits.
     readKpsHttpResponseBody (chunks_of cs) h rest method limits = body_of_bytes seen h (rest @ concat cs) method (maxBodyBytes limits)"
proof -
  let ?acc = "if rest \<noteq> [] then [rest] else []" and ?m = "maxBodyBytes limits"
  obtain bb where bb: "bb = rest @ concat cs" by simp
  show ?thesis
  proof (cases "length rest \<le> ?m")
    case True
    then have n: "\<not> length rest > ?m" by simp
    show ?thesis
    proof (cases "length bb \<le> ?m")
      case fits: True
      obtain chs where chs: "chs = ?acc @ filter (\<lambda>c. c \<noteq> []) cs" by simp
      have "concat chs = bb" by (simp add: chs bb concat_filter_nonempty)
      then have cb: "concatBytes chs (length bb) = Inr bb" by (intro concatBytes_concat[of _ chs, THEN trans]) auto
      have "body_chunks ?m (chunks_of cs) (length rest) ?acc = Inr (length bb, chs)"
        using body_chunks_concat(1)[OF True, of cs ?acc] fits unfolding bb chs by simp
      then have "readKpsHttpResponseBody (chunks_of cs) h rest method limits = body_of_bytes (Suc ?m) h bb method ?m"
        unfolding readKpsHttpResponseBody_def body_of_bytes_def Let_def
        using cb n fits by (auto split: option.splits)
      then show ?thesis unfolding bb by blast
    next
      case over: False
      then obtain seen where seen: "seen > ?m" "body_chunks ?m (chunks_of cs) (length rest) ?acc = Inl (bodyTooLarge ?m seen)"
        using body_chunks_concat(2)[OF True, of cs ?acc] unfolding bb by auto
      then have "readKpsHttpResponseBody (chunks_of cs) h rest method limits = body_of_bytes seen h bb method ?m"
        unfolding readKpsHttpResponseBody_def body_of_bytes_def Let_def
        using n over by (auto split: option.splits)
      then show ?thesis using seen(1) unfolding bb by blast
    qed
  next
    case False
    then have "readKpsHttpResponseBody (chunks_of cs) h rest method limits = body_of_bytes (length rest) h (rest @ concat cs) method ?m"
      by (simp add: readKpsHttpResponseBody_def body_of_bytes_def Let_def)
    then show ?thesis using False by (intro exI[of _ "length rest"]) simp
  qed
qed

text \<open>The reading half of an exchange (\<open>request\<close> in \<open>kps/transport.ts\<close>): the head, then the body.\<close>

definition read_response :: "kps_stream \<Rightarrow> string \<Rightarrow> kps_limits \<Rightarrow> (kps_head \<times> bytes) kps_result" where
  "read_response reader method limits =
     (case readKpsHttpResponseHead reader limits of
        Inl e \<Rightarrow> Inl e
      | Inr (head, rest, reader') \<Rightarrow>
          (case readKpsHttpResponseBody reader' head rest method limits of Inl e \<Rightarrow> Inl e | Inr body \<Rightarrow> Inr (head, body)))"

definition response_of_bytes :: "nat \<Rightarrow> bytes \<Rightarrow> string \<Rightarrow> kps_limits \<Rightarrow> (kps_head \<times> bytes) kps_result" where
  "response_of_bytes seen b method limits =
     (case head_of_bytes (maxHeadBytes limits) 0 b of
        Inl e \<Rightarrow> Inl e
      | Inr (h, rest) \<Rightarrow>
          (case body_of_bytes seen h rest method (maxBodyBytes limits) of Inl e \<Rightarrow> Inl e | Inr body \<Rightarrow> Inr (h, body)))"

lemma read_response_bytes:
  "\<exists>seen > maxBodyBytes limits. read_response (chunks_of cs) method limits = response_of_bytes seen (concat cs) method limits"
proof (cases "read_head_from (maxHeadBytes limits) (chunks_of cs) 0 []")
  case (Inl e)
  then have "head_of_bytes (maxHeadBytes limits) 0 (concat cs) = Inl e"
    using read_head_chunks[of "maxHeadBytes limits" cs 0 "[]"] by simp
  then have "read_response (chunks_of cs) method limits = response_of_bytes (Suc (maxBodyBytes limits)) (concat cs) method limits"
    using Inl by (simp add: read_response_def response_of_bytes_def readKpsHttpResponseHead_def)
  then show ?thesis by blast
next
  case (Inr r)
  obtain h rest s where r: "r = (h, rest, s)" by (cases r)
  obtain cs' where cs': "s = chunks_of cs'" using Inr r read_head_chunks[of "maxHeadBytes limits" cs 0 "[]"] by auto
  have hb: "head_of_bytes (maxHeadBytes limits) 0 (concat cs) = Inr (h, rest @ concat cs')"
    using Inr r cs' read_head_chunks[of "maxHeadBytes limits" cs 0 "[]"] by simp
  obtain seen where seen: "seen > maxBodyBytes limits"
    "readKpsHttpResponseBody (chunks_of cs') h rest method limits = body_of_bytes seen h (rest @ concat cs') method (maxBodyBytes limits)"
    using read_body_chunks by blast
  have "read_response (chunks_of cs) method limits = response_of_bytes seen (concat cs) method limits"
    using Inr r cs' hb seen(2) by (simp add: read_response_def response_of_bytes_def readKpsHttpResponseHead_def)
  then show ?thesis using seen(1) by blast
qed

lemma response_seen:
  "response_of_bytes s b method limits = response_of_bytes s' b method limits
   \<or> response_of_bytes s b method limits = Inl (bodyTooLarge (maxBodyBytes limits) s)
     \<and> response_of_bytes s' b method limits = Inl (bodyTooLarge (maxBodyBytes limits) s')"
  unfolding response_of_bytes_def body_of_bytes_def Let_def by (auto split: sum.split)

text \<open>
  C37. How the stream is cut into chunks has no influence on the response: for every division of the received bytes into
  chunks, empty ones included, the head and the body, or the error, are the same function of the bytes alone. The one exception is a detail of one
  error: for a body over the limit (both divisions then fail, with the code \<open>too-large\<close>) the text tells how many bytes had been seen by then, which is above the limit for
  either division but need not be the same number.
\<close>

theorem response_chunking:
  "concat cs = concat cs' \<longrightarrow>
     read_response (chunks_of cs) method limits = read_response (chunks_of cs') method limits
     \<or> (\<exists>seen seen'. maxBodyBytes limits < seen \<and> maxBodyBytes limits < seen'
         \<and> read_response (chunks_of cs) method limits = Inl (bodyTooLarge (maxBodyBytes limits) seen)
         \<and> read_response (chunks_of cs') method limits = Inl (bodyTooLarge (maxBodyBytes limits) seen'))"
proof
  assume same: "concat cs = concat cs'"
  obtain s where s: "maxBodyBytes limits < s" "read_response (chunks_of cs) method limits = response_of_bytes s (concat cs) method limits"
    using read_response_bytes by blast
  obtain s' where s': "maxBodyBytes limits < s'" "read_response (chunks_of cs') method limits = response_of_bytes s' (concat cs') method limits"
    using read_response_bytes by blast
  show "read_response (chunks_of cs) method limits = read_response (chunks_of cs') method limits
     \<or> (\<exists>seen seen'. maxBodyBytes limits < seen \<and> maxBodyBytes limits < seen'
         \<and> read_response (chunks_of cs) method limits = Inl (bodyTooLarge (maxBodyBytes limits) seen)
         \<and> read_response (chunks_of cs') method limits = Inl (bodyTooLarge (maxBodyBytes limits) seen'))"
    using response_seen[of s "concat cs" "method" limits s'] s s' same by metis
qed

definition sample_response :: bytes where
  "sample_response = char_codes (''HTTP/1.1 100 Continue'' @ CRLF @ CRLF @ ''HTTP/1.1 200 OK'' @ CRLF @ ''Content-Length: 2'' @ CRLF @ CRLF @ ''hi'')"

definition sample_limits :: kps_limits where
  "sample_limits = \<lparr>maxHeadBytes = 100, maxBodyBytes = 10\<rparr>"

theorem response_chunking_witness:
  "read_response (chunks_of [take 24 sample_response, [], drop 24 sample_response]) ''GET'' sample_limits =
     Inr (\<lparr>hd_status = 200, hd_reason = ''OK'', hd_headers = [(''content-length'', ''2'')], hd_contentLength = Some 2\<rparr>, [104, 105])"
proof -
  have "read_response (chunks_of [sample_response]) ''GET'' sample_limits =
     Inr (\<lparr>hd_status = 200, hd_reason = ''OK'', hd_headers = [(''content-length'', ''2'')], hd_contentLength = Some 2\<rparr>, [104, 105])"
    by code_simp
  then show ?thesis
    using response_chunking[of "[take 24 sample_response, [], drop 24 sample_response]" "[sample_response]" "''GET''" sample_limits] by auto
qed

lemma scan_heads_final:
  "scan_heads m i b = Inr (Final h rest) \<Longrightarrow>
     \<exists>pre e. findHeadEnd (drop (length pre) b) = Some e \<and> b = pre @ take e (drop (length pre) b) @ [13, 10, 13, 10] @ rest
       \<and> parseResponseHead (take e (drop (length pre) b)) = Inr h \<and> hd_status h \<ge> 200 \<and> e + 4 \<le> m"
proof (induction m i b rule: scan_heads.induct)
  case (1 m i b)
  obtain e where e: "findHeadEnd b = Some e"
    using 1(2) by (subst (asm) scan_heads.simps) (cases "findHeadEnd b", auto)
  have m: "\<not> e + 4 > m" using 1(2) e by (subst (asm) scan_heads.simps) (auto split: if_splits)
  obtain h' where h': "parseResponseHead (take e b) = Inr h'"
    using 1(2) e m by (subst (asm) scan_heads.simps) (cases "parseResponseHead (take e b)", auto)
  have step: "scan_heads m i b = (if hd_status h' \<ge> 200 then Inr (Final h' (drop (e + 4) b))
      else if hd_status h' = 101 then kps_throw ProtocolError ''protocol upgrades are forbidden''
      else if i + 1 > MAX_INTERIM_RESPONSES then kps_throw ProtocolError ''too many interim heads''
      else scan_heads m (i + 1) (drop (e + 4) b))"
    by (subst scan_heads.simps) (simp add: e m h')
  have b: "b = take e b @ [13, 10, 13, 10] @ drop (e + 4) b" by (rule findHeadEnd_split[OF e])
  show ?case
  proof (cases "hd_status h' \<ge> 200")
    case True
    then have "h' = h" "rest = drop (e + 4) b" using 1(2) by (simp_all add: step)
    then show ?thesis using True e m h' b by (intro exI[of _ "[]"] exI[of _ e]) auto
  next
    case False
    then have s: "hd_status h' \<noteq> 101" "\<not> i + 1 > MAX_INTERIM_RESPONSES"
        and r: "scan_heads m (i + 1) (drop (e + 4) b) = Inr (Final h rest)"
      using 1(2) False by (simp_all add: step split: if_splits)
    obtain pre e' where p: "findHeadEnd (drop (length pre) (drop (e + 4) b)) = Some e'"
        "drop (e + 4) b = pre @ take e' (drop (length pre) (drop (e + 4) b)) @ [13, 10, 13, 10] @ rest"
        "parseResponseHead (take e' (drop (length pre) (drop (e + 4) b))) = Inr h" "hd_status h \<ge> 200" "e' + 4 \<le> m"
      using 1(1)[OF e m h' False s r] by blast
    define pre' where "pre' = take (e + 4) b @ pre"
    have l: "length pre' = length pre + (e + 4)" using findHeadEnd_length[OF e] by (simp add: pre'_def)
    have "b = pre' @ take e' (drop (length pre) (drop (e + 4) b)) @ [13, 10, 13, 10] @ rest"
      using arg_cong[OF p(2), of "\<lambda>x. take (e + 4) b @ x"] by (simp add: pre'_def)
    moreover have "drop (length pre) (drop (e + 4) b) = drop (length pre') b" by (simp add: l)
    ultimately show ?thesis using p(1,3-5) by (intro exI[of _ pre'] exI[of _ e']) (simp only: simp_thms)
  qed
qed

text \<open>
  An accepted response accounts for every byte. The bytes received are the interim heads, the final head within its limit, the empty line and the
  body; the body is within its limit, has exactly the announced length when one was announced, and is empty for \<open>HEAD\<close>, 204 and 304.
\<close>

theorem response_accounts_for_bytes:
  assumes "read_response (chunks_of cs) method limits = Inr (h, body)"
  shows "\<exists>pre head. concat cs = pre @ head @ [13, 10, 13, 10] @ body \<and> parseResponseHead head = Inr h \<and> hd_status h \<ge> 200
    \<and> length head + 4 \<le> maxHeadBytes limits \<and> length body \<le> maxBodyBytes limits
    \<and> (if method = ''HEAD'' \<or> hd_status h = 204 \<or> hd_status h = 304 then body = []
       else hd_contentLength h = None \<or> hd_contentLength h = Some (length body))"
proof -
  obtain seen where "read_response (chunks_of cs) method limits = response_of_bytes seen (concat cs) method limits"
    using read_response_bytes by blast
  then obtain rest where h: "head_of_bytes (maxHeadBytes limits) 0 (concat cs) = Inr (h, rest)"
      and b: "body_of_bytes seen h rest method (maxBodyBytes limits) = Inr body"
    using assms unfolding response_of_bytes_def by (auto split: sum.splits)
  have s: "scan_heads (maxHeadBytes limits) 0 (concat cs) = Inr (Final h rest)"
    using h by (auto simp: head_of_bytes_def split: sum.splits head_scan.splits if_splits)
  obtain pre e where p: "findHeadEnd (drop (length pre) (concat cs)) = Some e"
      "concat cs = pre @ take e (drop (length pre) (concat cs)) @ [13, 10, 13, 10] @ rest"
      "parseResponseHead (take e (drop (length pre) (concat cs))) = Inr h" "hd_status h \<ge> 200" "e + 4 \<le> maxHeadBytes limits"
    using scan_heads_final[OF s] by blast
  have br: "body = rest" "length body \<le> maxBodyBytes limits"
      "if method = ''HEAD'' \<or> hd_status h = 204 \<or> hd_status h = 304 then body = []
       else hd_contentLength h = None \<or> hd_contentLength h = Some (length body)"
    using b by (auto simp: body_of_bytes_def Let_def split: if_splits option.splits)
  have "length (take e (drop (length pre) (concat cs))) + 4 \<le> maxHeadBytes limits" using p(5) by simp
  then show ?thesis using p(2-4) br by blast
qed

definition sample_head :: kps_head where
  "sample_head = \<lparr>hd_status = 200, hd_reason = ''OK'', hd_headers = [(''content-length'', ''2'')], hd_contentLength = Some 2\<rparr>"

theorem response_accounts_for_bytes_witness:
  "\<exists>pre head. sample_response = pre @ head @ [13, 10, 13, 10] @ [104, 105] \<and> parseResponseHead head = Inr sample_head"
proof -
  have "read_response (chunks_of [sample_response]) ''GET'' sample_limits = Inr (sample_head, [104, 105])"
    unfolding sample_head_def by code_simp
  from response_accounts_for_bytes[OF this] show ?thesis by auto
qed

end
