(* ===== verification/Kps_Naming.thy ===== *)
theory Kps_Naming
  imports Kps_Address
begin

section \<open>Addresses name one node each\<close>

text \<open>
  The decoder of certificate hashes is injective; \<open>parseKpsAddress\<close> accepts exactly the printed forms of its parts; endpoints
  and metadata URLs are taken apart as they were put together.
\<close>

subsection \<open>base64url\<close>

unbundle bit_operations_syntax

lemma buffer_shift: "v < 64 \<Longrightarrow> (push_bit 6 b OR v) AND 0xffff = (64 * b + v) mod (65536 :: nat)"
proof -
  assume v: "v < (64 :: nat)"
  have "push_bit 6 b AND v = 0"
  proof (rule bit_eqI)
    fix n
    show "bit (push_bit 6 b AND v) n = bit (0 :: nat) n"
    proof (cases "n < 6")
      case False
      then have "v < 2 ^ n" using v power_increasing[of 6 n "2 :: nat"] by simp
      then have "\<not> bit v n" by (simp add: bit_iff_odd)
      then show ?thesis by (simp add: bit_and_iff)
    qed (simp add: bit_and_iff bit_push_bit_iff)
  qed
  then have "push_bit 6 b OR v = 64 * b + v" using disjunctive_add_eq_or[of "push_bit 6 b" v] by (simp add: push_bit_eq_mult)
  moreover have "x AND 0xffff = x mod 65536" for x :: nat
    using take_bit_eq_mask[of 16 x] by (simp add: take_bit_eq_mod mask_eq_exp_minus_1)
  ultimately show ?thesis by simp
qed

lemma mod_shift: "(64 * (n mod m) + v) mod m = (64 * n + v) mod (m :: nat)"
  by (metis mod_add_left_eq mod_mult_right_eq)

lemma byte_out: "drop_bit k x AND 0xff = (x div 2 ^ k) mod (256 :: nat)"
  using take_bit_eq_mask[of 8 "drop_bit k x"] by (simp add: take_bit_eq_mod mask_eq_exp_minus_1 drop_bit_eq_div)

lemma buffer_shift_int: "v < 64 \<Longrightarrow> (push_bit 6 (int b) OR int v) AND 0xffff = int ((64 * b + v) mod 65536)"
  using arg_cong[OF buffer_shift[of v b], of int] by (simp add: of_nat_and_eq of_nat_or_eq of_nat_push_bit)

lemma byte_out_int: "drop_bit k (int x) AND 0xff = int ((x div 2 ^ k) mod 256)"
  using arg_cong[OF byte_out[of k x], of int] by (simp add: of_nat_and_eq of_nat_drop_bit)

lemma leftover_int: "int x AND (push_bit k 1 - 1) = int (x mod 2 ^ k)"
  using take_bit_eq_mask[of k "int x"] by (simp add: take_bit_eq_mod mask_eq_exp_minus_1 push_bit_eq_mult zmod_int)

definition num64 :: "nat \<Rightarrow> string \<Rightarrow> nat" where
  "num64 a t = foldl (\<lambda>a c. 64 * a + the (indexOf c BASE64URL_ALPHABET)) a t"

definition num256 :: "bytes \<Rightarrow> nat" where
  "num256 bs = foldl (\<lambda>a b. 256 * a + unat b) 0 bs"

definition in_alphabet :: "char \<Rightarrow> bool" where
  "in_alphabet c = (c \<in> set BASE64URL_ALPHABET)"

lemma indexOf_alphabet: "indexOf c BASE64URL_ALPHABET = Some v \<Longrightarrow> v < 64 \<and> in_alphabet c \<and> BASE64URL_ALPHABET ! v = c"
proof -
  assume "indexOf c BASE64URL_ALPHABET = Some v"
  from indexOf_split[OF this] have s: "BASE64URL_ALPHABET = take v BASE64URL_ALPHABET @ c # drop (v + 1) BASE64URL_ALPHABET"
    and v: "v < length BASE64URL_ALPHABET" by auto
  have "BASE64URL_ALPHABET ! v = c" using arg_cong[OF s, of "\<lambda>l. l ! v"] v by (simp add: nth_append)
  moreover have "length BASE64URL_ALPHABET = 64" by (simp add: BASE64URL_ALPHABET_def)
  ultimately show ?thesis using v by (auto simp: in_alphabet_def)
qed

definition b64_inv :: "nat \<Rightarrow> int \<Rightarrow> nat \<Rightarrow> nat \<Rightarrow> bytes \<Rightarrow> bool" where
  "b64_inv n buffer bits index out = (buffer = int (n mod 65536) \<and> bits < 8 \<and> num256 (take index out) = n div 2 ^ bits)"

lemma b64_step_write:
  assumes "b64_inv n buffer bits index out" "v < 64" "bits + 6 \<ge> 8" "index < length out"
  shows "b64_inv (64 * n + v) ((push_bit 6 buffer OR int v) AND 0xffff) (bits + 6 - 8) (index + 1)
    (out[index := word_of_int (drop_bit (bits + 6 - 8) ((push_bit 6 buffer OR int v) AND 0xffff) AND 0xff)])"
proof -
  let ?n = "64 * n + v" and ?k = "bits + 6 - 8"
  have k: "bits = ?k + 2" "?k \<le> 6" using assms(1,3) by (auto simp: b64_inv_def)
  have b: "(push_bit 6 buffer OR int v) AND 0xffff = int (?n mod 65536)"
    using assms(1,2) buffer_shift_int[OF assms(2), of "n mod 65536"] by (simp add: b64_inv_def mod_shift)
  have byte: "(?n mod 65536) div 2 ^ ?k mod 256 = ?n div 2 ^ ?k mod 256"
  proof -
    have "(65536 :: nat) = 2 ^ ?k * (256 * 2 ^ (8 - ?k))"
    proof -
      have "(2 :: nat) ^ ?k * 2 ^ (8 - ?k) = 2 ^ 8" using k(2) by (simp flip: power_add)
      then show ?thesis by simp
    qed
    then have "?n mod 65536 = ?n mod (2 ^ ?k * (256 * 2 ^ (8 - ?k)))" by (rule arg_cong)
    also have "\<dots> = 2 ^ ?k * (?n div 2 ^ ?k mod (256 * 2 ^ (8 - ?k))) + ?n mod 2 ^ ?k" by (rule mod_mult2_eq)
    finally have "(?n mod 65536) div 2 ^ ?k = ?n div 2 ^ ?k mod (256 * 2 ^ (8 - ?k))" by simp
    then show ?thesis by (simp add: mod_mult2_eq)
  qed
  have "?n div 2 ^ ?k div 256 = n div 2 ^ bits"
  proof -
    have "(2 :: nat) ^ ?k * 256 = 64 * 2 ^ bits" by (subst k(1)) (simp add: power_add)
    then have "?n div 2 ^ ?k div 256 = ?n div 64 div 2 ^ bits" by (simp only: div_mult2_eq[symmetric])
    then show ?thesis using assms(2) by simp
  qed
  then have "num256 (take index out) = ?n div 2 ^ ?k div 256" using assms(1) by (simp add: b64_inv_def)
  moreover have "num256 (take (index + 1) (out[index := w])) = 256 * num256 (take index out) + unat w" for w
    using assms(4) by (simp add: take_Suc_conv_app_nth num256_def)
  moreover have "unat (word_of_nat (?n div 2 ^ ?k mod 256) :: byte) = ?n div 2 ^ ?k mod 256" by simp
  ultimately show ?thesis
    unfolding b byte_out_int byte b64_inv_def of_int_of_nat_eq using k(2) by (simp add: mult_div_mod_eq)
qed

lemma b64_step_keep:
  assumes "b64_inv n buffer bits index out" "v < 64" "\<not> bits + 6 \<ge> 8"
  shows "b64_inv (64 * n + v) ((push_bit 6 buffer OR int v) AND 0xffff) (bits + 6) index out"
proof -
  have "(64 * n + v) div 2 ^ (bits + 6) = (64 * n + v) div (64 * 2 ^ bits)" by (simp add: power_add mult.commute)
  also have "\<dots> = (64 * n + v) div 64 div 2 ^ bits" by (rule div_mult2_eq)
  finally have "(64 * n + v) div 2 ^ (bits + 6) = (64 * n + v) div 64 div 2 ^ bits" .
  then show ?thesis
    using assms buffer_shift_int[OF assms(2), of "n mod 65536"] by (simp add: b64_inv_def mod_shift)
qed

lemma base64_loop_inv:
  assumes "b64_inv n buffer bits index out" "index + (bits + 6 * length t) div 8 \<le> length out"
    and "base64_loop t buffer bits index out = Some (buffer', bits', out')"
  shows "b64_inv (num64 n t) buffer' bits' (index + (bits + 6 * length t) div 8) out'
    \<and> bits' = (bits + 6 * length t) mod 8 \<and> length out' = length out \<and> list_all in_alphabet t"
  using assms
proof (induction t buffer bits index out arbitrary: n rule: base64_loop.induct)
  case (1 buffer bits index out)
  then show ?case by (auto simp: b64_inv_def num64_def)
next
  case (2 c t buffer bits index out)
  obtain v where v: "indexOf c BASE64URL_ALPHABET = Some v" using 2(5) by (cases "indexOf c BASE64URL_ALPHABET") auto
  note lt = indexOf_alphabet[OF v]
  have num: "num64 n (c # t) = num64 (64 * n + v) t" by (simp add: num64_def v)
  define b' where "b' = (push_bit 6 buffer OR int v) AND 0xffff"
  show ?case
  proof (cases "bits + 6 \<ge> 8")
    case True
    have pos: "(bits + 6 * length (c # t)) div 8 = Suc ((bits + 6 - 8 + 6 * length t) div 8)"
      "(bits + 6 * length (c # t)) mod 8 = (bits + 6 - 8 + 6 * length t) mod 8" using True by (auto simp: algebra_simps le_div_geq le_mod_geq)
    have i: "index < length out" using 2(4) pos(1) by simp
    show ?thesis
      using 2(1)[OF v b'_def refl True b64_step_write[OF 2(3) _ True i, of v, folded b'_def]] lt 2(4,5) pos True v
      by (auto simp: num Let_def b'_def[symmetric])
  next
    case False
    have "bits + 6 * length (c # t) = bits + 6 + 6 * length t" by simp
    then show ?thesis
      using 2(2)[OF v b'_def refl False b64_step_keep[OF 2(3) _ False, of v, folded b'_def]] lt 2(4,5) False v
      by (auto simp: num Let_def b'_def[symmetric] add.assoc)
  qed
qed

lemma decode_number:
  assumes "decodeBase64UrlNoPad t = Some bs"
  shows "length bs = length t * 6 div 8 \<and> num64 0 t = num256 bs * 2 ^ (6 * length t mod 8) \<and> list_all in_alphabet t \<and> length t mod 4 \<noteq> 1"
proof -
  obtain buffer bits where l: "base64_loop t 0 0 0 (replicate (length t * 6 div 8) 0) = Some (buffer, bits, bs)"
      and z: "buffer AND (push_bit bits 1 - 1) = 0" and m: "length t mod 4 \<noteq> 1"
    using assms by (auto simp: decodeBase64UrlNoPad_def split: if_splits option.splits)
  have "b64_inv 0 0 0 0 (replicate (length t * 6 div 8) 0)" by (simp add: b64_inv_def num256_def)
  from base64_loop_inv[OF this _ l]
  have i: "b64_inv (num64 0 t) buffer bits (6 * length t div 8) bs" "bits = 6 * length t mod 8" "list_all in_alphabet t"
      and len: "length bs = length t * 6 div 8"
    by (auto simp: mult.commute)
  have "(65536 :: nat) = 2 ^ bits * 2 ^ (16 - bits)" using i(2) by (simp flip: power_add)
  then have "(2 :: nat) ^ bits dvd 65536" by (metis dvd_triv_left)
  then have "num64 0 t mod 65536 mod 2 ^ bits = num64 0 t mod 2 ^ bits" by (rule mod_mod_cancel)
  moreover have "int (num64 0 t mod 65536 mod 2 ^ bits) = 0"
    using z i(1) leftover_int[of "num64 0 t mod 65536" bits] by (simp add: b64_inv_def)
  ultimately have "num64 0 t mod 2 ^ bits = 0" by simp
  then have "num64 0 t = num64 0 t div 2 ^ bits * 2 ^ bits" by auto
  moreover have "take (6 * length t div 8) bs = bs" using len by (simp add: mult.commute)
  ultimately show ?thesis using i len m by (simp add: b64_inv_def)
qed

lemma num64_snoc: "num64 a (t @ [c]) = 64 * num64 a t + the (indexOf c BASE64URL_ALPHABET)"
  by (simp add: num64_def)

lemma indexOf_in: "in_alphabet c \<Longrightarrow> \<exists>v. indexOf c BASE64URL_ALPHABET = Some v"
  using split_list_first[of c BASE64URL_ALPHABET] indexOf_first[of c] unfolding in_alphabet_def by metis

lemma num64_inj:
  "length t = length t' \<Longrightarrow> list_all in_alphabet t \<Longrightarrow> list_all in_alphabet t' \<Longrightarrow> num64 0 t = num64 0 t' \<Longrightarrow> t = t'"
proof (induction t arbitrary: t' rule: rev_induct)
  case (snoc c t)
  obtain u d where t': "t' = u @ [d]" using snoc.prems(1) by (cases t' rule: rev_cases) auto
  obtain v where v: "indexOf c BASE64URL_ALPHABET = Some v" using indexOf_in snoc.prems(2) by auto
  obtain w where w: "indexOf d BASE64URL_ALPHABET = Some w" using indexOf_in snoc.prems(3) t' by auto
  have e: "64 * num64 0 t + v = 64 * num64 0 u + w" using snoc.prems(4) by (simp add: t' num64_snoc v w)
  have "v < 64" "w < 64" using indexOf_alphabet[OF v] indexOf_alphabet[OF w] by auto
  then have "v = w" using arg_cong[OF e, of "\<lambda>x. x mod 64"] by simp
  then have "num64 0 t = num64 0 u" using e by simp
  moreover have "c = d" using \<open>v = w\<close> indexOf_alphabet[OF v] indexOf_alphabet[OF w] by auto
  ultimately show ?case using snoc t' by simp
qed simp

lemma byte_length_inj:
  fixes n :: nat
  shows "n mod 4 \<noteq> 1 \<Longrightarrow> n = 4 * (n * 6 div 8 div 3) + (if n * 6 div 8 mod 3 = 0 then 0 else n * 6 div 8 mod 3 + 1)"
proof -
  assume m: "n mod 4 \<noteq> 1"
  have r: "n mod 4 = 0 \<or> n mod 4 = 2 \<or> n mod 4 = 3" using m by presburger
  define k where "k = n div 4"
  have n: "n = 4 * k + n mod 4" by (simp add: k_def)
  have "(4 * k + n mod 4) * 6 div 8 = 3 * k + n mod 4 * 6 div 8" by simp
  with n have "n * 6 div 8 = 3 * k + n mod 4 * 6 div 8" by simp
  then show ?thesis using r n by auto
qed

text \<open>
  Two different texts never decode to the same bytes: the strict base64url decoder, with its check that the left-over bits are
  zero and its rejection of impossible lengths, is injective, so a certificate hash has exactly one spelling.
\<close>

theorem base64url_injective:
  assumes "decodeBase64UrlNoPad t = Some bs" "decodeBase64UrlNoPad t' = Some bs"
  shows "t = t'"
proof -
  note d = decode_number[OF assms(1)] and d' = decode_number[OF assms(2)]
  have "length t * 6 div 8 = length t' * 6 div 8" "length t mod 4 \<noteq> 1" "length t' mod 4 \<noteq> 1" using d d' by auto
  then have l: "length t = length t'" using byte_length_inj[of "length t"] byte_length_inj[of "length t'"] by metis
  then have "num64 0 t = num64 0 t'" using d d' by simp
  then show ?thesis using num64_inj[OF l] d d' by blast
qed

theorem base64url_injective_witness:
  "decodeBase64UrlNoPad ''EiA'' = Some [0x12, 0x20] \<and> decodeBase64UrlNoPad ''EiB'' = None
     \<and> (THE t. decodeBase64UrlNoPad t = Some [0x12, 0x20]) = ''EiA''"
proof -
  have d: "decodeBase64UrlNoPad ''EiA'' = Some [0x12, 0x20]" by code_simp
  moreover have "decodeBase64UrlNoPad ''EiB'' = None" by code_simp
  moreover have "(THE t. decodeBase64UrlNoPad t = Some [0x12, 0x20]) = ''EiA''"
    by (rule the_equality[where P = "\<lambda>t. decodeBase64UrlNoPad t = Some [0x12, 0x20]", OF d]) (rule base64url_injective[OF _ d])
  ultimately show ?thesis by blast
qed

subsection \<open>Characters of an address\<close>

definition plain_char :: "char \<Rightarrow> bool" where
  "plain_char c = (c \<noteq> CHR ''/'' \<and> c \<noteq> CHR '']'')"

lemma hex_plain: "is_hex c \<Longrightarrow> plain_char c \<and> c \<noteq> CHR '':''"
  by (auto simp: is_hex_def hex_value_def plain_char_def)

lemma digit_plain: "is_digit c \<Longrightarrow> plain_char c \<and> c \<noteq> CHR '':'' \<and> c \<noteq> CHR ''[''"
  by (auto simp: is_digit_def plain_char_def)

lemma octet_digits: "IPV4_OCTET s \<Longrightarrow> list_all is_digit s"
  by (cases s rule: IPV4_OCTET.cases) (auto simp: is_digit_def code_in_def)

lemma ipv4_chars:
  assumes "IPV4_RE s"
  shows "s \<noteq> [] \<and> (\<forall>c \<in> set s. plain_char c \<and> c \<noteq> CHR '':'' \<and> c \<noteq> CHR ''['')"
proof -
  obtain a b c d where o: "js_split ''.'' s = [a, b, c, d]" "IPV4_OCTET a" "IPV4_OCTET b" "IPV4_OCTET c" "IPV4_OCTET d"
    using assms by (auto simp: IPV4_RE_def split: list.splits)
  have s: "s = js_join ''.'' [a, b, c, d]" using join_split[of "CHR ''.''" "[]" s] o(1) by simp
  have "list_all is_digit (a @ b @ c @ d)" using o(2-) octet_digits by simp
  then have "\<forall>c \<in> set s. is_digit c \<or> c = CHR ''.''" unfolding list_all_iff s by simp
  moreover have "plain_char CHR ''.'' \<and> CHR ''.'' \<noteq> CHR '':'' \<and> CHR ''.'' \<noteq> CHR ''[''" by (simp add: plain_char_def)
  moreover have "s \<noteq> []" unfolding s by simp
  ultimately show ?thesis using digit_plain by blast
qed

lemma ipv6_units_chars:
  "ipv6_units dotted gs = Some n \<Longrightarrow> g \<in> set gs \<Longrightarrow> \<forall>c \<in> set g. plain_char c"
proof (induction gs arbitrary: n)
  case (Cons x gs)
  have x: "IPV4_RE x \<or> IPV6_GROUP_RE x" and rest: "gs = [] \<or> (\<exists>m. ipv6_units dotted gs = Some m)"
    using Cons.prems(1) by (auto split: if_splits)
  show ?case
  proof (cases "g = x")
    case True
    then show ?thesis using x ipv4_chars[of x] hex_plain unfolding IPV6_GROUP_RE_def list_all_iff by blast
  next
    case False
    then show ?thesis using rest Cons.IH Cons.prems(2) by auto
  qed
qed simp

lemma groups_chars: "\<forall>g \<in> set (groupsOf x). \<forall>c \<in> set g. plain_char c \<Longrightarrow> \<forall>c \<in> set x. plain_char c"
proof -
  assume a: "\<forall>g \<in> set (groupsOf x). \<forall>c \<in> set g. plain_char c"
  have "set x \<subseteq> {CHR '':''} \<union> \<Union> (set ` set (groupsOf x))"
  proof (cases "x = []")
    case False
    then have "x = js_join '':'' (groupsOf x)" using join_split[of "CHR '':''" "[]" x] by (simp add: groupsOf_def)
    then show ?thesis using set_js_join[of "'':''" "groupsOf x"] by simp
  qed simp
  then show ?thesis using a by (auto simp: plain_char_def)
qed

lemma ipv6_chars:
  assumes "isIpv6Literal s"
  shows "\<forall>c \<in> set s. plain_char c"
proof -
  define halves where "halves = js_split ''::'' s"
  define tail where "tail = (if length halves = 2 then groupsOf (halves ! 1) else [])"
  have ne: "halves \<noteq> []" by (simp add: halves_def js_split_def split_from_nonempty)
  have l: "length halves \<le> 2" and u: "\<exists>n. ipv6_units (length halves = 1 \<or> tail \<noteq> []) (groupsOf (halves ! 0) @ tail) = Some n"
    using assms unfolding isIpv6Literal_def halves_def[symmetric] Let_def tail_def[symmetric]
    by (auto split: if_splits option.splits)
  have g: "\<forall>g \<in> set (groupsOf (halves ! 0) @ tail). \<forall>c \<in> set g. plain_char c" using u ipv6_units_chars by blast
  have "\<forall>x \<in> set halves. \<forall>c \<in> set x. plain_char c"
  proof
    fix x assume "x \<in> set halves"
    then have "x = halves ! 0 \<or> (length halves = 2 \<and> x = halves ! 1)"
      using l ne by (cases halves; cases "tl halves") auto
    then have "\<forall>g \<in> set (groupsOf x). \<forall>c \<in> set g. plain_char c" using g by (auto simp: tail_def)
    then show "\<forall>c \<in> set x. plain_char c" by (rule groups_chars)
  qed
  moreover have "set s \<subseteq> {CHR '':''} \<union> \<Union> (set ` set halves)"
    using join_split[of "CHR '':''" "'':''" s] set_js_join[of "''::''" halves] by (simp add: halves_def)
  moreover have "plain_char CHR '':''" by (simp add: plain_char_def)
  ultimately show ?thesis by blast
qed

lemma certhash_chars: "validateCerthash c = Inr () \<Longrightarrow> \<forall>x \<in> set c. plain_char x"
proof -
  assume v: "validateCerthash c = Inr ()"
  then obtain bs where d: "decodeBase64UrlNoPad (drop 1 c) = Some bs" and u: "take 1 c = ''u''"
    by (auto simp: validateCerthash_def split: if_splits option.splits)
  have "c = ''u'' @ drop 1 c" using u by (metis append_take_drop_id)
  moreover have "\<forall>x \<in> set (drop 1 c). in_alphabet x" using decode_number[OF d] by (simp add: list_all_iff)
  moreover have "in_alphabet x \<Longrightarrow> plain_char x" for x by (auto simp: in_alphabet_def BASE64URL_ALPHABET_def plain_char_def)
  moreover have "plain_char CHR ''u''" by (simp add: plain_char_def)
  ultimately show ?thesis by (metis Un_iff empty_iff empty_set insert_iff list.simps(15) set_append)
qed

subsection \<open>Ports\<close>

lemma dec_string_hd: "0 < n \<Longrightarrow> code_in 49 57 (hd (dec_string n))"
proof (induction n rule: dec_string.induct)
  case (1 n)
  show ?case
  proof (cases "n < 10")
    case True
    then show ?thesis using 1(2) by (subst dec_string.simps) (simp add: code_in_def digit_char_def of_char_of)
  next
    case False
    then show ?thesis using 1 nat_of_digits_dec[of "n div 10"] by (subst dec_string.simps) simp
  qed
qed

lemma dec_string_length: "n < 10 ^ Suc k \<Longrightarrow> length (dec_string n) \<le> Suc k"
proof (induction k arbitrary: n)
  case 0
  then show ?case by (simp add: dec_string.simps)
next
  case (Suc k)
  then have "n div 10 < 10 ^ Suc k" by (simp add: less_mult_imp_div_less)
  from Suc.IH[OF this] show ?case by (subst dec_string.simps) simp
qed

lemma port_re_dec: "0 < n \<Longrightarrow> n < 100000 \<Longrightarrow> PORT_RE (dec_string n)"
  using dec_string_hd[of n] dec_string_length[of n 4] nat_of_digits_dec[of n]
  by (cases "dec_string n") (auto simp: PORT_RE_def)

lemma port_re_digits:
  assumes "PORT_RE p"
  shows "dec_string (nat_of_digits p 0) = p"
proof (rule dec_string_digits)
  show "list_all is_digit p" "p \<noteq> []" using assms by (auto simp: PORT_RE_def code_in_def is_digit_def split: list.splits)
  show "hd p \<noteq> CHR ''0''" using assms by (auto simp: PORT_RE_def code_in_def split: list.splits)
qed

subsection \<open>Parsing\<close>

definition print_address :: "kps_address \<Rightarrow> string" where
  "print_address a = (if ka_ipv6 a then ''['' @ ka_host a @ '']'' else ka_host a) @ '':'' @ dec_string (nat (ka_port a)) @ '':'' @ ka_certhash a"

definition wf_address :: "kps_address \<Rightarrow> bool" where
  "wf_address a = ((if ka_ipv6 a then isIpv6Literal (ka_host a) else IPV4_RE (ka_host a)) \<and> 1 \<le> ka_port a \<and> ka_port a \<le> 65535
     \<and> validateCerthash (ka_certhash a) = Inr () \<and> ka_address a = print_address a)"

lemma parse_port_certhash_sound:
  assumes "parse_port_certhash host v6 rest = Inr a"
  shows "rest = dec_string (nat (ka_port a)) @ '':'' @ ka_certhash a \<and> ka_host a = host \<and> ka_ipv6 a = v6 \<and> 1 \<le> ka_port a
    \<and> ka_port a \<le> 65535 \<and> validateCerthash (ka_certhash a) = Inr () \<and> ka_address a = print_address a"
proof -
  obtain colon where c: "indexOf CHR '':'' rest = Some colon"
    using assms by (cases "indexOf CHR '':'' rest") (auto simp: parse_port_certhash_def)
  have p: "PORT_RE (take colon rest)" and r: "1 \<le> ka_port a" "ka_port a \<le> 65535"
      and v: "validateCerthash (drop (colon + 1) rest) = Inr ()"
      and a: "ka_port a = int (nat_of_digits (take colon rest) 0)" "ka_host a = host" "ka_ipv6 a = v6"
        "ka_certhash a = drop (colon + 1) rest" "ka_address a = print_address a"
    using assms c by (auto simp: parse_port_certhash_def Let_def print_address_def split: if_splits sum.splits unit.splits)
  have "rest = take colon rest @ '':'' @ drop (colon + 1) rest" using indexOf_split[OF c] by simp
  then show ?thesis using r v a port_re_digits[OF p] by simp
qed

lemma parse_port_certhash_complete:
  assumes "1 \<le> n" "n \<le> 65535" "validateCerthash c = Inr ()"
  shows "\<exists>a. parse_port_certhash host v6 (dec_string (nat n) @ '':'' @ c) = Inr a \<and> ka_port a = n \<and> ka_certhash a = c"
proof -
  let ?d = "dec_string (nat n)"
  have "list_all is_digit ?d" using nat_of_digits_dec by blast
  then have "CHR '':'' \<notin> set ?d" using digit_plain by (auto simp: list_all_iff)
  from indexOf_first[OF this, of c] have i: "indexOf CHR '':'' (?d @ '':'' @ c) = Some (length ?d)" by simp
  have "PORT_RE ?d" by (rule port_re_dec) (use assms in auto)
  moreover have "nat_of_digits ?d 0 = nat n" using nat_of_digits_dec by blast
  moreover have "take (length ?d) (?d @ '':'' @ c) = ?d" "drop (length ?d + 1) (?d @ '':'' @ c) = c" by simp_all
  moreover have "int (nat n) = n" "\<not> (n < 1 \<or> n > 65535)" using assms by auto
  ultimately have "parse_port_certhash host v6 (?d @ '':'' @ c) =
      Inr \<lparr>ka_address = (if v6 then ''['' @ host @ '']'' else host) @ '':'' @ ?d @ '':'' @ c,
        ka_host = host, ka_port = n, ka_certhash = c, ka_ipv6 = v6\<rparr>"
    unfolding parse_port_certhash_def i option.case Let_def using assms(3) by (simp only: if_True if_False not_True_eq_False sum.case unit.case)
  then show ?thesis by simp
qed

lemma parse_exact: "parseKpsAddress s = Inr a \<longleftrightarrow> wf_address a \<and> s = ka_address a"
proof
  assume p: "parseKpsAddress s = Inr a"
  show "wf_address a \<and> s = ka_address a"
  proof (cases "prefix ''['' s")
    case True
    then obtain e where e: "indexOf CHR '']'' s = Some e"
      using p by (cases "indexOf CHR '']'' s") (auto simp: parseKpsAddress_def split: if_splits)
    have c: "take 1 (drop (e + 1) s) = '':''" and h: "isIpv6Literal (drop 1 (take e s))"
        and q: "parse_port_certhash (drop 1 (take e s)) True (drop (e + 2) s) = Inr a"
      using p True e by (auto simp: parseKpsAddress_def Let_def split: if_splits)
    note snd = parse_port_certhash_sound[OF q]
    have ne: "e \<noteq> 0" using True indexOf_split[OF e] by (cases s; cases e) auto
    then have "take e s = ''['' @ drop 1 (take e s)" using True by (cases s; cases e) auto
    moreover have "drop (e + 1) s = '':'' @ drop (e + 2) s" using c
      by (metis add.assoc append_take_drop_id drop_drop nat_1_add_1 add.commute)
    ultimately have "s = ''['' @ drop 1 (take e s) @ '']'' @ '':'' @ drop (e + 2) s" using indexOf_split[OF e] by (metis append.assoc append_Cons append_Nil)
    then show ?thesis using snd h by (auto simp: wf_address_def print_address_def)
  next
    case False
    then obtain colon where e: "indexOf CHR '':'' s = Some colon"
      using p by (cases "indexOf CHR '':'' s") (auto simp: parseKpsAddress_def split: if_splits)
    have h: "IPV4_RE (take colon s)" and q: "parse_port_certhash (take colon s) False (drop (colon + 1) s) = Inr a"
      using p False e by (auto simp: parseKpsAddress_def Let_def split: if_splits)
    note snd = parse_port_certhash_sound[OF q]
    have "s = take colon s @ '':'' @ drop (colon + 1) s" using indexOf_split[OF e] by simp
    then show ?thesis using snd h by (auto simp: wf_address_def print_address_def)
  qed
next
  assume w: "wf_address a \<and> s = ka_address a"
  let ?rest = "dec_string (nat (ka_port a)) @ '':'' @ ka_certhash a"
  obtain a' where q: "parse_port_certhash (ka_host a) (ka_ipv6 a) ?rest = Inr a'" "ka_port a' = ka_port a" "ka_certhash a' = ka_certhash a"
    using parse_port_certhash_complete[of "ka_port a" "ka_certhash a"] w by (auto simp: wf_address_def)
  have same: "a' = a"
    using parse_port_certhash_sound[OF q(1)] q(2,3) w by (auto simp: wf_address_def print_address_def intro!: kps_address.equality)
  show "parseKpsAddress s = Inr a"
  proof (cases "ka_ipv6 a")
    case True
    then have s: "s = (''['' @ ka_host a) @ CHR '']'' # '':'' @ ?rest" and h: "isIpv6Literal (ka_host a)"
      using w by (auto simp: wf_address_def print_address_def)
    have "CHR '']'' \<notin> set (''['' @ ka_host a)" using ipv6_chars[OF h] by (auto simp: plain_char_def)
    from indexOf_first[OF this, of "'':'' @ ?rest"] have "indexOf CHR '']'' s = Some (length (ka_host a) + 1)" using s by simp
    then show ?thesis using q(1) same True h by (simp add: parseKpsAddress_def s)
  next
    case False
    then have s: "s = ka_host a @ CHR '':'' # ?rest" and h: "IPV4_RE (ka_host a)" using w by (auto simp: wf_address_def print_address_def)
    note ch = ipv4_chars[OF h]
    from indexOf_first[of "CHR '':''" "ka_host a" ?rest] ch have "indexOf CHR '':'' s = Some (length (ka_host a))" using s by auto
    moreover have "\<not> prefix ''['' s" using ch by (cases "ka_host a") (auto simp: s)
    ultimately show ?thesis using q(1) same False h by (simp add: parseKpsAddress_def s)
  qed
qed

text \<open>
  \<open>parseKpsAddress\<close> accepts exactly the printed forms of well-formed addresses and returns the parts they were printed from: the host is a
  dotted-quad IPv4 address or a bracketed IPv6 literal, the port is in 1..65535 and written without leading zeros,
  the certificate hash is the base64url spelling of a sha2-256 multihash, and the canonical form returned
  is the text itself.
\<close>

theorem parseKpsAddress_exact: "parseKpsAddress s = Inr a \<longleftrightarrow> wf_address a \<and> s = ka_address a"
  by (rule parse_exact)

subsection \<open>Endpoints\<close>

lemma isKpsAddress_iff: "isKpsAddress s \<longleftrightarrow> (\<exists>a. parseKpsAddress s = Inr a)"
  by (simp add: isKpsAddress_def split: sum.splits)

lemma address_no_slash: "isKpsAddress s \<Longrightarrow> CHR ''/'' \<notin> set s \<and> s \<noteq> []"
proof -
  assume "isKpsAddress s"
  then obtain a where w: "wf_address a" "s = print_address a" by (auto simp: isKpsAddress_iff parse_exact wf_address_def)
  have "CHR ''/'' \<notin> set (ka_host a)"
    using w(1) ipv4_chars[of "ka_host a"] ipv6_chars[of "ka_host a"] by (auto simp: wf_address_def plain_char_def split: if_splits)
  moreover have "CHR ''/'' \<notin> set (ka_certhash a)" using w(1) certhash_chars[of "ka_certhash a"] by (auto simp: wf_address_def plain_char_def)
  moreover have "list_all is_digit (dec_string (nat (ka_port a)))" using nat_of_digits_dec by blast
  then have "CHR ''/'' \<notin> set (dec_string (nat (ka_port a)))" using digit_plain by (auto simp: list_all_iff plain_char_def)
  ultimately show ?thesis using w(2) by (auto simp: print_address_def)
qed

lemma split_at_slash:
  assumes "isKpsAddress s" "t = CHR ''/'' # r"
  shows "indexOf CHR ''/'' (s @ t) = Some (length s)"
  using assms address_no_slash[OF assms(1)] indexOf_first[of "CHR ''/''" s r] by simp

lemma address_returned: "parseKpsAddress s = Inr a \<Longrightarrow> ka_address a = s"
  by (simp add: parse_exact)

lemma parseKpsEndpoint_iff:
  "parseKpsEndpoint e = Some (x, t) \<longleftrightarrow> isKpsAddress x \<and> TARGET_RE t \<and> e = KPS_ENDPOINT_PREFIX @ x @ t"
proof
  assume p: "parseKpsEndpoint e = Some (x, t)"
  let ?r = "drop (length KPS_ENDPOINT_PREFIX) e"
  have pre: "e = KPS_ENDPOINT_PREFIX @ ?r" using p by (auto simp: parseKpsEndpoint_def prefix_def split: if_splits)
  obtain n where i: "indexOf CHR ''/'' ?r = Some n"
    using p by (cases "indexOf CHR ''/'' ?r") (auto simp: parseKpsEndpoint_def Let_def split: if_splits)
  have "TARGET_RE (drop n ?r)" "t = drop n ?r" "\<exists>a. parseKpsAddress (take n ?r) = Inr a \<and> x = ka_address a"
    using p i by (auto simp: parseKpsEndpoint_def Let_def split: if_splits sum.splits)
  then have "TARGET_RE t" "isKpsAddress x" "?r = x @ t"
    using address_returned by (auto simp: isKpsAddress_iff simp del: drop_drop)
  then show "isKpsAddress x \<and> TARGET_RE t \<and> e = KPS_ENDPOINT_PREFIX @ x @ t" using pre by simp
next
  assume a: "isKpsAddress x \<and> TARGET_RE t \<and> e = KPS_ENDPOINT_PREFIX @ x @ t"
  then obtain r where t: "t = CHR ''/'' # r" by (cases t) (auto simp: TARGET_RE_def)
  obtain q where q: "parseKpsAddress x = Inr q" "ka_address q = x" using a address_returned by (auto simp: isKpsAddress_iff)
  show "parseKpsEndpoint e = Some (x, t)"
    using a q split_at_slash[OF _ t, of x] address_no_slash[of x] by (simp add: parseKpsEndpoint_def)
qed

text \<open>
  Endpoints are taken apart exactly as they are put together: \<open>parseKpsEndpoint\<close> returns an address and a target iff the
  text is \<open>kps:\<close>, a well-formed address and an origin-form target; \<open>kpsAddressOfEntry\<close> inverts \<open>kpsEntryEndpoint\<close>; a metadata
  URL names an address iff it is \<open>kps:\<close>, that address and \<open>/metadata.json\<close>.
\<close>

theorem kps_endpoints_exact:
  "(parseKpsEndpoint e = Some (x, t) \<longleftrightarrow> isKpsAddress x \<and> TARGET_RE t \<and> e = KPS_ENDPOINT_PREFIX @ x @ t)
   \<and> (kpsAddressOfEntry e = Some x \<longleftrightarrow> kpsEntryEndpoint x = Inr e)
   \<and> (kpsAddrFromMetadataUrl e = Some x \<longleftrightarrow> isKpsAddress x \<and> e = KPS_ENDPOINT_PREFIX @ x @ KPS_METADATA_PATH)"
proof (intro conjI)
  show "kpsAddressOfEntry e = Some x \<longleftrightarrow> kpsEntryEndpoint x = Inr e"
    by (auto simp: kpsAddressOfEntry_def kpsEntryEndpoint_def prefix_def address_returned split: sum.splits if_splits)
next
  show "kpsAddrFromMetadataUrl e = Some x \<longleftrightarrow> isKpsAddress x \<and> e = KPS_ENDPOINT_PREFIX @ x @ KPS_METADATA_PATH"
  proof
    assume p: "kpsAddrFromMetadataUrl e = Some x"
    let ?r = "drop (length KPS_ENDPOINT_PREFIX) e"
    have pre: "e = KPS_ENDPOINT_PREFIX @ ?r" using p by (auto simp: kpsAddrFromMetadataUrl_def prefix_def split: if_splits)
    obtain n where i: "indexOf CHR ''/'' ?r = Some n"
      using p by (cases "indexOf CHR ''/'' ?r") (auto simp: kpsAddrFromMetadataUrl_def Let_def split: if_splits)
    have "drop n ?r = KPS_METADATA_PATH" "x = take n ?r" "isKpsAddress (take n ?r)"
      using p i by (auto simp: kpsAddrFromMetadataUrl_def Let_def isKpsAddress_def split: if_splits sum.splits)
    then show "isKpsAddress x \<and> e = KPS_ENDPOINT_PREFIX @ x @ KPS_METADATA_PATH" using pre by (metis append_take_drop_id)
  next
    assume a: "isKpsAddress x \<and> e = KPS_ENDPOINT_PREFIX @ x @ KPS_METADATA_PATH"
    obtain q where q: "parseKpsAddress x = Inr q" "ka_address q = x" using a address_returned by (auto simp: isKpsAddress_iff)
    show "kpsAddrFromMetadataUrl e = Some x"
      using a q split_at_slash[of x KPS_METADATA_PATH] address_no_slash[of x]
      by (simp add: kpsAddrFromMetadataUrl_def KPS_METADATA_PATH_def)
  qed
qed (rule parseKpsEndpoint_iff)

definition sample_certhash :: string where
  "sample_certhash = ''uEi'' @ replicate 44 CHR ''A''"

text \<open>
  The comparison with the canonical form in \<open>kpsAddrFromMetadataUrl\<close> never rejects anything, because the canonical form copies the
  host as written: two spellings of one IPv6 host are accepted as two addresses.
\<close>

theorem ipv6_two_spellings:
  "kpsAddrFromMetadataUrl (''kps:[::1]:443:'' @ sample_certhash @ ''/metadata.json'') = Some (''[::1]:443:'' @ sample_certhash)
   \<and> kpsAddrFromMetadataUrl (''kps:[0:0:0:0:0:0:0:1]:443:'' @ sample_certhash @ ''/metadata.json'')
       = Some (''[0:0:0:0:0:0:0:1]:443:'' @ sample_certhash)"
  by code_simp

end
