(* ===== verification/Kps_Pool.thy ===== *)
theory Kps_Pool
  imports Kps_Address Js_Settings "HOL-Library.Product_Lexorder"
begin

section \<open>The KPS connection pool\<close>

text \<open>
  The pool of \<open>packages/nox-client/src/kps/transport.ts\<close>: one entry per address and lane with its connection or dial, the streams open
  on it and the exchanges waiting for one, dial cooldown, idle closing and keepalives, and the pacing of the warm-up. Promises are
  split at their awaits: each definition is one synchronous piece of the class. A connection is named by a number chosen by the
  environment. \<open>Math.round(ceiling * (0.5 + 0.5 * random()))\<close> is the parameter \<open>jitter\<close>. What happens to an
  entry after \<open>close\<close> has dropped it from the pool is not modelled, nor are counters and logging.
\<close>

subsection \<open>Settings\<close>

definition KPS_TRANSPORT_DEFAULTS :: settings_map where
  "KPS_TRANSPORT_DEFAULTS =
     [(''dialTimeoutMs'', SNum 10000), (''openStreamTimeoutMs'', SNum 10000), (''exchangeTimeoutMs'', SNum 15000),
      (''keepaliveMs'', SNum 60000), (''maxHeadBytes'', SNum (16 * 1024)), (''maxBodyBytes'', SNum (16 * 1024 * 1024)),
      (''redialBaseMs'', SNum 500), (''redialMaxMs'', SNum 15000), (''idleConnectionsKept'', SNum 2),
      (''idleCloseMs'', SNum 30000), (''maxStreamsPerConnection'', SNum 32), (''maintenanceIntervalMs'', SNum 5000),
      (''claimLaneConnectionsKept'', SNum 1), (''writeChunkBytes'', SNum 4600), (''warmupBytes'', SNum 96000),
      (''warmupMaxBytesPerMinute'', SNum 400000), (''warmupRoundGapMs'', SNum 280), (''warmupAbortRtts'', SNum 3)]"

definition ZERO_ALLOWED_SETTINGS :: "string list" where
  "ZERO_ALLOWED_SETTINGS = [''warmupBytes'']"

definition check_kps :: "string \<Rightarrow> js_value \<Rightarrow> setting option result" where
  "check_kps key value =
     (if \<not> js_in key KPS_TRANSPORT_DEFAULTS then throw InvalidConfig ''is not a KPS transport setting''
      else if value = JUndefined then Inr None
      else
        (let low = (if key \<in> set ZERO_ALLOWED_SETTINGS then 0 else 1) in
         case value of
           JInt n \<Rightarrow> if \<not> isSafeInteger n \<or> n < low then throw InvalidConfig ''must be a safe integer''
                     else Inr (js_assign key (SNum n))
         | _ \<Rightarrow> throw InvalidConfig ''must be a safe integer''))"

definition resolveKpsTransportSettings :: "(string \<times> js_value) list option \<Rightarrow> settings_map result" where
  "resolveKpsTransportSettings overrides =
     rbind (resolve_with check_kps (case overrides of None \<Rightarrow> [] | Some es \<Rightarrow> es) KPS_TRANSPORT_DEFAULTS) (\<lambda>m.
       if num_setting m ''redialMaxMs'' < num_setting m ''redialBaseMs''
       then throw InvalidConfig ''kps redialMaxMs must be at least redialBaseMs'' else Inr m)"

subsection \<open>Entries\<close>

datatype lane = Primary | ClaimLane

text \<open>The field \<open>dial\<close>: no promise, a pending one, or one that was rejected and left in place.\<close>

datatype dial_slot = NoDial | DialPending | DialRejected kps_error

record pool_entry =
  pe_address :: string
  pe_lane :: lane
  pe_certhash :: string
  pe_dial :: dial_slot
  pe_conn :: "nat option"
  pe_active :: nat
  pe_waiters :: "nat list"
  pe_failures :: nat
  pe_coolUntil :: int
  pe_lastActivity :: int
  pe_keepalive :: bool

record kps_transport =
  pool :: "(string, pool_entry) jsmap"
  tr_closed :: bool
  tr_retained :: "string list"
  tr_maintenance :: bool

definition new_transport :: kps_transport where
  "new_transport = \<lparr>pool = [], tr_closed = False, tr_retained = [], tr_maintenance = False\<rparr>"

definition poolKey :: "string \<Rightarrow> lane \<Rightarrow> string" where
  "poolKey address ln = (case ln of Primary \<Rightarrow> address | ClaimLane \<Rightarrow> address @ ''#claims'')"

definition new_entry :: "int \<Rightarrow> string \<Rightarrow> lane \<Rightarrow> pool_entry" where
  "new_entry now address ln =
     \<lparr>pe_address = address, pe_lane = ln, pe_certhash = rev (takeWhile (\<lambda>c. c \<noteq> CHR '':'') (rev address)),
      pe_dial = NoDial, pe_conn = None, pe_active = 0, pe_waiters = [], pe_failures = 0, pe_coolUntil = 0,
      pe_lastActivity = now, pe_keepalive = False\<rparr>"

definition kps_entry :: "int \<Rightarrow> string \<Rightarrow> lane \<Rightarrow> kps_transport \<Rightarrow> kps_transport" where
  "kps_entry now address ln t =
     (case jsmap_get (pool t) (poolKey address ln) of
        Some _ \<Rightarrow> t
      | None \<Rightarrow> t\<lparr>pool := jsmap_set (poolKey address ln) (new_entry now address ln) (pool t)\<rparr>)"

text \<open>An assignment to fields of the entry object under a key.\<close>

definition upd_entry :: "string \<Rightarrow> (pool_entry \<Rightarrow> pool_entry) \<Rightarrow> kps_transport \<Rightarrow> kps_transport" where
  "upd_entry key f t =
     (case jsmap_get (pool t) key of None \<Rightarrow> t | Some e \<Rightarrow> t\<lparr>pool := jsmap_set key (f e) (pool t)\<rparr>)"

datatype connection_answer = ConnRejected kps_error | ConnReady nat | ConnDialing

definition kps_connection :: "int \<Rightarrow> string \<Rightarrow> kps_transport \<Rightarrow> kps_transport \<times> connection_answer" where
  "kps_connection now key t =
     (if tr_closed t then (t, ConnRejected (NoxKpsError Closed ''KPS transport closed''))
      else (case jsmap_get (pool t) key of
          None \<Rightarrow> (t, ConnRejected (NoxKpsError Closed ''KPS transport closed''))
        | Some e \<Rightarrow>
            (case pe_conn e of
               Some c \<Rightarrow> (t, ConnReady c)
             | None \<Rightarrow>
                 (case pe_dial e of
                    NoDial \<Rightarrow>
                      if pe_coolUntil e - now > 0
                      then (t, ConnRejected (NoxKpsError NetworkError ''KPS entry is cooling down''))
                      else (upd_entry key (\<lambda>e. e\<lparr>pe_dial := DialPending\<rparr>) t, ConnDialing)
                  | DialPending \<Rightarrow> (t, ConnDialing)
                  | DialRejected err \<Rightarrow> (t, ConnRejected err)))))"

text \<open>The dial promise is fulfilled: with a connection, or with some other object.\<close>

definition dial_ok :: "int \<Rightarrow> string \<Rightarrow> nat option \<Rightarrow> kps_transport \<Rightarrow> kps_transport" where
  "dial_ok now key conn t =
     (if tr_closed t then t
      else (case conn of
          None \<Rightarrow> upd_entry key (\<lambda>e. e\<lparr>pe_dial := DialRejected
                    (NoxKpsError ProtocolError ''KPS dial returned an object without openStream/close/closed'')\<rparr>) t
        | Some c \<Rightarrow>
            (upd_entry key (\<lambda>e. e\<lparr>pe_dial := NoDial, pe_conn := Some c, pe_failures := 0, pe_coolUntil := 0,
                               pe_lastActivity := now\<rparr>) t)\<lparr>tr_maintenance := True\<rparr>))"

definition redial_ceiling :: "settings_map \<Rightarrow> nat \<Rightarrow> int" where
  "redial_ceiling m failures =
     min (num_setting m ''redialBaseMs'' * 2 ^ min (failures - 1) 30) (num_setting m ''redialMaxMs'')"

definition dial_failed :: "settings_map \<Rightarrow> (int \<Rightarrow> int) \<Rightarrow> int \<Rightarrow> string \<Rightarrow> kps_transport \<Rightarrow> kps_transport" where
  "dial_failed m jitter now key t =
     upd_entry key (\<lambda>e. e\<lparr>pe_dial := NoDial, pe_failures := pe_failures e + 1,
       pe_coolUntil := now + max 1 (jitter (redial_ceiling m (pe_failures e + 1)))\<rparr>) t"

definition conn_closed :: "string \<Rightarrow> nat \<Rightarrow> kps_transport \<Rightarrow> kps_transport" where
  "conn_closed key c t = upd_entry key (\<lambda>e. if pe_conn e = Some c then e\<lparr>pe_conn := None\<rparr> else e) t"

text \<open>A stream that cannot be opened in time: the connection is evicted.\<close>

definition open_timed_out :: "string \<Rightarrow> nat \<Rightarrow> kps_transport \<Rightarrow> kps_transport" where
  "open_timed_out key c t = upd_entry key (\<lambda>e. if pe_conn e = Some c then e\<lparr>pe_conn := None\<rparr> else e) t"

definition laneEntry :: "int \<Rightarrow> string \<Rightarrow> lane \<Rightarrow> kps_transport \<Rightarrow> kps_transport \<times> string" where
  "laneEntry now address ln t =
     (let t1 = kps_entry now address Primary t; primary = poolKey address Primary in
      if ln = Primary then (t1, primary)
      else
        (let t2 = kps_entry now address ln t1; own = poolKey address ln in
         case (jsmap_get (pool t2) own, jsmap_get (pool t2) primary) of
           (Some o', Some p) \<Rightarrow>
             if pe_conn o' \<noteq> None then (t2, own)
             else if pe_dial o' = NoDial \<and> pe_coolUntil o' \<le> now \<and> pe_conn p \<noteq> None
             then (fst (kps_connection now own t2), primary)
             else (t2, primary)
         | _ \<Rightarrow> (t2, primary)))"

definition prewarm :: "int \<Rightarrow> string \<Rightarrow> lane \<Rightarrow> kps_transport \<Rightarrow> kps_transport kps_result" where
  "prewarm now address ln t =
     (if tr_closed t then Inr t
      else
        (case parseKpsAddress address of
           Inl err \<Rightarrow> Inl err
         | Inr parts \<Rightarrow>
             (let key = poolKey (ka_address parts) ln; t1 = kps_entry now (ka_address parts) ln t in
              case jsmap_get (pool t1) key of
                None \<Rightarrow> Inr t1
              | Some e \<Rightarrow>
                  if pe_conn e \<noteq> None \<or> pe_dial e \<noteq> NoDial \<or> pe_coolUntil e > now then Inr t1
                  else Inr (fst (kps_connection now key t1)))))"

definition isCoolingDown :: "int \<Rightarrow> string \<Rightarrow> kps_transport \<Rightarrow> bool" where
  "isCoolingDown now address t =
     (case jsmap_get (pool t) (poolKey address Primary) of
        None \<Rightarrow> False | Some e \<Rightarrow> pe_conn e = None \<and> pe_coolUntil e > now)"

definition isConnected :: "string \<Rightarrow> kps_transport \<Rightarrow> bool" where
  "isConnected address t =
     (case jsmap_get (pool t) (poolKey address Primary) of None \<Rightarrow> False | Some e \<Rightarrow> pe_conn e \<noteq> None)"

definition retain_primary :: "string list \<Rightarrow> kps_transport \<Rightarrow> kps_transport" where
  "retain_primary addresses t = t\<lparr>tr_retained := addresses\<rparr>"

subsection \<open>Streams\<close>

definition slots :: "settings_map \<Rightarrow> nat" where
  "slots m = nat (num_setting m ''maxStreamsPerConnection'')"

text \<open>\<open>acquire\<close> by exchange \<open>x\<close>: whether it may open a stream at once, else it waits.\<close>

definition kps_acquire :: "settings_map \<Rightarrow> string \<Rightarrow> nat \<Rightarrow> kps_transport \<Rightarrow> kps_transport \<times> bool" where
  "kps_acquire m key x t =
     (case jsmap_get (pool t) key of
        None \<Rightarrow> (t, False)
      | Some e \<Rightarrow>
          if pe_active e < slots m then (upd_entry key (\<lambda>e. e\<lparr>pe_active := pe_active e + 1\<rparr>) t, True)
          else (upd_entry key (\<lambda>e. e\<lparr>pe_waiters := pe_waiters e @ [x]\<rparr>) t, False))"

definition abort_wait :: "string \<Rightarrow> nat \<Rightarrow> kps_transport \<Rightarrow> kps_transport" where
  "abort_wait key x t = upd_entry key (\<lambda>e. e\<lparr>pe_waiters := remove1 x (pe_waiters e)\<rparr>) t"

text \<open>\<open>release\<close>: the exchange that is granted the stream, if one waits.\<close>

definition kps_release :: "int \<Rightarrow> string \<Rightarrow> kps_transport \<Rightarrow> kps_transport \<times> nat option" where
  "kps_release now key t =
     (case jsmap_get (pool t) key of
        None \<Rightarrow> (t, None)
      | Some e \<Rightarrow>
          (let e1 = e\<lparr>pe_active := pe_active e - 1, pe_lastActivity := now\<rparr> in
           case pe_waiters e1 of
             [] \<Rightarrow> (upd_entry key (\<lambda>_. e1) t, None)
           | w # ws \<Rightarrow> (upd_entry key (\<lambda>_. e1\<lparr>pe_waiters := ws, pe_active := pe_active e1 + 1\<rparr>) t, Some w)))"

subsection \<open>Maintenance\<close>

definition idle_entries :: "lane \<Rightarrow> kps_transport \<Rightarrow> (string \<times> pool_entry) list" where
  "idle_entries ln t =
     sort_key (\<lambda>(_, e). (if pe_address e \<in> set (tr_retained t) then 0 else 1 :: nat, - pe_lastActivity e))
       (filter (\<lambda>(_, e). pe_lane e = ln \<and> pe_conn e \<noteq> None \<and> pe_active e = 0 \<and> pe_waiters e = []) (pool t))"

text \<open>The loop over the idle entries: the connections closed and the keepalives sent.\<close>

fun maintain_loop ::
  "settings_map \<Rightarrow> int \<Rightarrow> lane \<Rightarrow> nat \<Rightarrow> nat \<Rightarrow> (string \<times> pool_entry) list \<Rightarrow> kps_transport
     \<Rightarrow> kps_transport \<times> nat list \<times> string list" where
  "maintain_loop m now ln kept index [] t = (t, [], [])"
| "maintain_loop m now ln kept index ((key, e) # rest) t =
     (let idleFor = now - pe_lastActivity e;
          keep = (ln = Primary \<and> pe_address e \<in> set (tr_retained t)) \<or> index < kept in
      case pe_conn e of
        None \<Rightarrow> maintain_loop m now ln kept (index + 1) rest t
      | Some c \<Rightarrow>
          if \<not> keep then
            (if idleFor \<ge> num_setting m ''idleCloseMs'' then
               (let (t', cl, ka) = maintain_loop m now ln kept (index + 1) rest (upd_entry key (\<lambda>e. e\<lparr>pe_conn := None\<rparr>) t) in
                (t', c # cl, ka))
             else maintain_loop m now ln kept (index + 1) rest t)
          else if idleFor \<ge> num_setting m ''keepaliveMs'' \<and> \<not> pe_keepalive e then
            (let (t', cl, ka) = maintain_loop m now ln kept (index + 1) rest
                   (fst (laneEntry now (pe_address e) ln (upd_entry key (\<lambda>e. e\<lparr>pe_keepalive := True\<rparr>) t))) in
             (t', cl, key # ka))
          else maintain_loop m now ln kept (index + 1) rest t)"

definition kept_connections :: "settings_map \<Rightarrow> lane \<Rightarrow> nat" where
  "kept_connections m ln =
     nat (case ln of Primary \<Rightarrow> num_setting m ''idleConnectionsKept'' | ClaimLane \<Rightarrow> num_setting m ''claimLaneConnectionsKept'')"

definition kps_maintain :: "settings_map \<Rightarrow> int \<Rightarrow> kps_transport \<Rightarrow> kps_transport \<times> nat list \<times> string list" where
  "kps_maintain m now t =
     (if tr_closed t then (t, [], [])
      else
        (let (t1, cl1, ka1) = maintain_loop m now Primary (kept_connections m Primary) 0 (idle_entries Primary t) t;
             (t2, cl2, ka2) = maintain_loop m now ClaimLane (kept_connections m ClaimLane) 0 (idle_entries ClaimLane t1) t1;
             t3 = (if list_ex (\<lambda>(_, e). pe_conn e \<noteq> None) (pool t2) then t2 else t2\<lparr>tr_maintenance := False\<rparr>) in
         (t3, cl1 @ cl2, ka1 @ ka2)))"

definition keepalive_done :: "string \<Rightarrow> kps_transport \<Rightarrow> kps_transport" where
  "keepalive_done key t = upd_entry key (\<lambda>e. e\<lparr>pe_keepalive := False\<rparr>) t"

text \<open>\<open>close\<close>: the waiting exchanges that fail and the connections that are closed.\<close>

definition kps_close :: "kps_transport \<Rightarrow> kps_transport \<times> nat list \<times> nat list" where
  "kps_close t =
     (if tr_closed t then (t, [], [])
      else (t\<lparr>tr_closed := True, tr_maintenance := False, pool := []\<rparr>,
            concat (map (\<lambda>(_, e). pe_waiters e) (pool t)), List.map_filter (\<lambda>(_, e). pe_conn e) (pool t)))"

subsection \<open>Uploads and warm-up\<close>

function chunk_loop :: "nat \<Rightarrow> bytes \<Rightarrow> nat \<Rightarrow> bytes list" where
  "chunk_loop chunk bytes offset =
     (if chunk = 0 \<or> offset \<ge> length bytes then []
      else take (min (length bytes) (offset + chunk) - offset) (drop offset bytes) # chunk_loop chunk bytes (offset + chunk))"
  by pat_completeness auto
termination
  by (relation "measure (\<lambda>(_, b, i). length b - i)") auto

declare chunk_loop.simps [simp del]

text \<open>The writes of \<open>writeChunked\<close> (the chunk size of validated settings is positive).\<close>

definition writeChunked :: "bytes \<Rightarrow> nat \<Rightarrow> bytes list" where
  "writeChunked bytes chunk = (if length bytes \<le> chunk then [bytes] else chunk_loop chunk bytes 0)"

definition KPS_WARMUP_FIRST_ROUND_BYTES :: int where
  "KPS_WARMUP_FIRST_ROUND_BYTES = 12000"

text \<open>The growth 1.5, as a fraction.\<close>

definition KPS_WARMUP_GROWTH :: "int \<times> int" where
  "KPS_WARMUP_GROWTH = (3, 2)"

definition KPS_WARMUP_MAX_ROUND_BYTES :: int where
  "KPS_WARMUP_MAX_ROUND_BYTES = 60000"

definition KPS_WARMUP_MIN_ROUND_BYTES :: int where
  "KPS_WARMUP_MIN_ROUND_BYTES = 1000"

definition WARMUP_BUDGET_WINDOW_MS :: int where
  "WARMUP_BUDGET_WINDOW_MS = 60000"

text \<open>\<open>Math.round(p / q)\<close>: halves are rounded up.\<close>

definition math_round :: "int \<Rightarrow> int \<Rightarrow> int" where
  "math_round p q = (2 * p + q) div (2 * q)"

text \<open>
  The loop of \<open>kpsWarmupRounds\<close>; \<open>next\<close> is the first round times the growth to the number of rounds so far. Doubles hold it exactly
  until it is far above the largest round.
\<close>

definition warmup_size :: "int \<Rightarrow> nat \<Rightarrow> int" where
  "warmup_size left k =
     min (min left (math_round (KPS_WARMUP_FIRST_ROUND_BYTES * fst KPS_WARMUP_GROWTH ^ k) (snd KPS_WARMUP_GROWTH ^ k)))
       KPS_WARMUP_MAX_ROUND_BYTES"

lemma warmup_size_ge: "1000 \<le> left \<Longrightarrow> 1000 \<le> warmup_size left k"
proof -
  assume l: "1000 \<le> left"
  have "(2 :: int) ^ k \<le> 3 ^ k" by (rule power_mono) simp_all
  then have "12000 * (2 * 2 ^ k) \<le> 2 * (12000 * 3 ^ k) + (2 :: int) ^ k"
    using zero_le_power[of "2 :: int" k] by linarith
  then have "12000 \<le> (2 * (12000 * 3 ^ k) + 2 ^ k) div (2 * (2 :: int) ^ k)"
    using zdiv_mono1[of "12000 * (2 * 2 ^ k)" "2 * (12000 * 3 ^ k) + (2 :: int) ^ k" "2 * 2 ^ k"] by simp
  then show ?thesis
    using l by (simp add: warmup_size_def math_round_def KPS_WARMUP_FIRST_ROUND_BYTES_def KPS_WARMUP_GROWTH_def
        KPS_WARMUP_MAX_ROUND_BYTES_def)
qed

function warmup_loop :: "int \<Rightarrow> nat \<Rightarrow> int list" where
  "warmup_loop left k =
     (if left \<ge> KPS_WARMUP_MIN_ROUND_BYTES
      then warmup_size left k # warmup_loop (left - warmup_size left k) (k + 1) else [])"
  by pat_completeness auto
termination
proof (relation "measure (\<lambda>(left, _). nat left)")
  fix left k assume "KPS_WARMUP_MIN_ROUND_BYTES \<le> left"
  then have "1000 \<le> warmup_size left k" "1000 \<le> left" using warmup_size_ge[of left k] by (auto simp: KPS_WARMUP_MIN_ROUND_BYTES_def)
  then show "((left - warmup_size left k, k + 1), left, k) \<in> measure (\<lambda>(left, _). nat left)" by simp
qed simp

declare warmup_loop.simps [simp del]

definition kpsWarmupRounds :: "int \<Rightarrow> int list" where
  "kpsWarmupRounds bytes = warmup_loop bytes 0"

text \<open>\<open>warmupAllowance\<close> and the check and record of a round in \<open>runWarmup\<close>.\<close>

definition warmupAllowance :: "int \<Rightarrow> int \<Rightarrow> (int \<times> int) list \<Rightarrow> (int \<times> int) list \<times> int" where
  "warmupAllowance maxPerMinute now sent =
     (let sent' = dropWhile (\<lambda>(sent_at, _). now - sent_at \<ge> WARMUP_BUDGET_WINDOW_MS) sent in
      (sent', maxPerMinute - sum_list (map snd sent')))"

definition warmup_round :: "int \<Rightarrow> int \<Rightarrow> int \<Rightarrow> (int \<times> int) list \<Rightarrow> (int \<times> int) list \<times> bool" where
  "warmup_round maxPerMinute now bytes sent =
     (let (sent', allowance) = warmupAllowance maxPerMinute now sent in
      if allowance < bytes then (sent', False) else (sent' @ [(now, bytes)], True))"

end
