(* ===== verification/Kps_Pool_Safety.thy ===== *)
theory Kps_Pool_Safety
  imports Kps_Pool Kps_Naming
begin

section \<open>Safety of the connection pool\<close>

text \<open>
  The slots of a connection are never oversubscribed and never left unused while an exchange waits, in every interleaving of exchanges, dials,
  closes and maintenance; warm-up padding keeps its rounds and its budget; a dial that yields no connection disables its address.
\<close>

subsection \<open>All interleavings\<close>

text \<open>
  The transport with the exchanges that hold a stream, each with the key of its entry. An exchange appears under a fresh number when it asks for
  a stream; \<open>close\<close> drops the entries, and with them the streams.
\<close>

inductive kps_reach :: "settings_map \<Rightarrow> kps_transport \<times> (string \<times> nat) list \<Rightarrow> bool" for m where
  init: "kps_reach m (new_transport, [])"
| entered: "kps_reach m (t, H) \<Longrightarrow> kps_reach m (kps_entry now a ln t, H)"
| asked: "kps_reach m (t, H) \<Longrightarrow> kps_reach m (fst (kps_connection now key t), H)"
| laned: "kps_reach m (t, H) \<Longrightarrow> kps_reach m (fst (laneEntry now a ln t), H)"
| prewarmed: "kps_reach m (t, H) \<Longrightarrow> prewarm now a ln t = Inr t' \<Longrightarrow> kps_reach m (t', H)"
| dialled: "kps_reach m (t, H) \<Longrightarrow> jsmap_get (pool t) key = Some e \<Longrightarrow> pe_dial e = DialPending \<Longrightarrow> kps_reach m (dial_ok now key c t, H)"
| undialled: "kps_reach m (t, H) \<Longrightarrow> jsmap_get (pool t) key = Some e \<Longrightarrow> pe_dial e = DialPending \<Longrightarrow>
     kps_reach m (dial_failed m jitter now key t, H)"
| lost: "kps_reach m (t, H) \<Longrightarrow> kps_reach m (conn_closed key cid t, H)"
| evicted: "kps_reach m (t, H) \<Longrightarrow> kps_reach m (open_timed_out key cid t, H)"
| acquired: "kps_reach m (t, H) \<Longrightarrow> jsmap_get (pool t) key = Some e \<Longrightarrow> x \<notin> set (pe_waiters e) \<Longrightarrow> (key, x) \<notin> set H \<Longrightarrow>
     kps_acquire m key x t = (t', granted) \<Longrightarrow> kps_reach m (t', if granted then H @ [(key, x)] else H)"
| aborted: "kps_reach m (t, H) \<Longrightarrow> kps_reach m (abort_wait key x t, H)"
| released: "kps_reach m (t, H) \<Longrightarrow> (key, x) \<in> set H \<Longrightarrow> kps_release now key t = (t', w) \<Longrightarrow>
     kps_reach m (t', remove1 (key, x) H @ (case w of None \<Rightarrow> [] | Some y \<Rightarrow> [(key, y)]))"
| maintained: "kps_reach m (t, H) \<Longrightarrow> kps_reach m (fst (kps_maintain m now t), H)"
| kept_alive: "kps_reach m (t, H) \<Longrightarrow> kps_reach m (keepalive_done key t, H)"
| retained: "kps_reach m (t, H) \<Longrightarrow> kps_reach m (retain_primary as t, H)"
| closed: "kps_reach m (t, H) \<Longrightarrow> kps_reach m (fst (kps_close t), if tr_closed t then H else [])"

definition held :: "string \<Rightarrow> (string \<times> nat) list \<Rightarrow> nat list" where
  "held key H = map snd (filter (\<lambda>p. fst p = key) H)"

definition slot_inv :: "settings_map \<Rightarrow> (string \<times> nat) list \<Rightarrow> string \<Rightarrow> pool_entry \<Rightarrow> bool" where
  "slot_inv m H key e = (pe_active e = length (held key H) \<and> pe_active e \<le> slots m
     \<and> (pe_waiters e \<noteq> [] \<longrightarrow> pe_active e = slots m) \<and> distinct (pe_waiters e @ held key H)
     \<and> (pe_conn e \<noteq> None \<longrightarrow> pe_dial e = NoDial))"

definition pool_inv :: "settings_map \<Rightarrow> kps_transport \<Rightarrow> (string \<times> nat) list \<Rightarrow> bool" where
  "pool_inv m t H = (jsmap_wf (pool t) \<and> fst ` set H \<subseteq> fst ` set (pool t) \<and> (\<forall>(key, e) \<in> set (pool t). slot_inv m H key e))"

lemma pool_inv_get: "pool_inv m t H \<Longrightarrow> jsmap_get (pool t) key = Some e \<Longrightarrow> slot_inv m H key e"
  using jsmap_get_Some_in[of "pool t" key e] by (auto simp: pool_inv_def)

text \<open>One entry changes, and only exchanges of that entry.\<close>

lemma pool_inv_set:
  assumes inv: "pool_inv m t H" and "slot_inv m H' key e'" and "\<And>k. k \<noteq> key \<Longrightarrow> held k H' = held k H"
    and "fst ` set H' \<subseteq> insert key (fst ` set H)"
  shows "pool_inv m (t\<lparr>pool := jsmap_set key e' (pool t)\<rparr>) H'"
proof -
  have wf: "jsmap_wf (pool t)" using inv by (simp add: pool_inv_def)
  have keys: "fst ` set (jsmap_set key e' (pool t)) = insert key (fst ` set (pool t))" using jsmap_keys_set[of key e' "pool t"] by simp
  have "slot_inv m H' k e" if "(k, e) \<in> set (jsmap_set key e' (pool t))" for k e
  proof (cases "k = key")
    case True
    then show ?thesis using that assms(2) unfolding set_jsmap_set[OF wf] by auto
  next
    case False
    then have "slot_inv m H k e" using that inv unfolding set_jsmap_set[OF wf] pool_inv_def by auto
    then show ?thesis using assms(3)[OF False] by (auto simp: slot_inv_def)
  qed
  then have "\<forall>(k, e) \<in> set (jsmap_set key e' (pool t)). slot_inv m H' k e" by blast
  moreover have "fst ` set H' \<subseteq> fst ` set (jsmap_set key e' (pool t))"
    unfolding keys using inv assms(4) unfolding pool_inv_def by blast
  ultimately show ?thesis using jsmap_wf_set[OF wf] by (simp add: pool_inv_def)
qed

lemma pool_inv_upd:
  assumes inv: "pool_inv m t H" and "\<And>e. slot_inv m H key e \<Longrightarrow> slot_inv m H key (f e)"
  shows "pool_inv m (upd_entry key f t) H"
proof (cases "jsmap_get (pool t) key")
  case (Some e)
  have f: "slot_inv m H key (f e)" by (rule assms(2)[OF pool_inv_get[OF inv Some]])
  have "pool_inv m (t\<lparr>pool := jsmap_set key (f e) (pool t)\<rparr>) H" by (rule pool_inv_set[OF inv f]) auto
  then show ?thesis using Some by (simp add: upd_entry_def)
qed (use inv in \<open>simp add: upd_entry_def\<close>)

lemma pool_inv_fields:
  "pool_inv m (t\<lparr>tr_maintenance := b\<rparr>) H = pool_inv m t H" "pool_inv m (t\<lparr>tr_retained := as\<rparr>) H = pool_inv m t H"
  by (simp_all add: pool_inv_def)

lemma kps_entry_inv:
  assumes inv: "pool_inv m t H"
  shows "pool_inv m (kps_entry now a ln t) H"
proof (cases "jsmap_get (pool t) (poolKey a ln)")
  case None
  then have "poolKey a ln \<notin> fst ` set H" using inv jsmap_get_None_iff[of "pool t" "poolKey a ln"] by (auto simp: pool_inv_def)
  then have "held (poolKey a ln) H = []" by (force simp: held_def filter_empty_conv)
  then have n: "slot_inv m H (poolKey a ln) (new_entry now a ln)" by (simp add: slot_inv_def new_entry_def)
  have "pool_inv m (t\<lparr>pool := jsmap_set (poolKey a ln) (new_entry now a ln) (pool t)\<rparr>) H" by (rule pool_inv_set[OF inv n]) auto
  then show ?thesis using None by (simp add: kps_entry_def)
qed (use inv in \<open>simp add: kps_entry_def\<close>)

lemma kps_connection_inv: "pool_inv m t H \<Longrightarrow> pool_inv m (fst (kps_connection now key t)) H"
proof -
  assume inv: "pool_inv m t H"
  have d: "pool_inv m (upd_entry key (\<lambda>e. e\<lparr>pe_dial := DialPending\<rparr>) t) H"
    if "jsmap_get (pool t) key = Some e" "pe_conn e = None" for e
  proof -
    have "slot_inv m H key (e\<lparr>pe_dial := DialPending\<rparr>)" using pool_inv_get[OF inv that(1)] that(2) by (auto simp: slot_inv_def)
    from pool_inv_set[OF inv this] show ?thesis using that(1) by (auto simp: upd_entry_def)
  qed
  show ?thesis using inv d by (auto simp: kps_connection_def split: option.splits dial_slot.splits)
qed

lemma laneEntry_inv: "pool_inv m t H \<Longrightarrow> pool_inv m (fst (laneEntry now a ln t)) H"
  using kps_connection_inv[of m _ H now] kps_entry_inv[of m _ H now]
  by (auto simp: laneEntry_def Let_def split: option.splits)

lemma prewarm_inv: "pool_inv m t H \<Longrightarrow> prewarm now a ln t = Inr t' \<Longrightarrow> pool_inv m t' H"
  using kps_connection_inv[of m _ H now] kps_entry_inv[of m _ H now]
  by (auto simp: prewarm_def Let_def split: option.splits sum.splits if_splits)

lemma maintain_loop_inv: "pool_inv m t H \<Longrightarrow> pool_inv m (fst (maintain_loop m' now ln kept index es t)) H"
proof (induction m' now ln kept index es t rule: maintain_loop.induct)
  case (2 m' now ln kept index key e rest t)
  have a: "pool_inv m (upd_entry key (\<lambda>e. e\<lparr>pe_conn := None\<rparr>) t) H"
    by (rule pool_inv_upd[OF 2(6)]) (auto simp: slot_inv_def)
  have b: "pool_inv m (fst (laneEntry now (pe_address e) ln (upd_entry key (\<lambda>e. e\<lparr>pe_keepalive := True\<rparr>) t))) H"
    by (rule laneEntry_inv[OF pool_inv_upd[OF 2(6)]]) (auto simp: slot_inv_def)
  show ?case using 2 a b by (auto simp: Let_def split_beta split: option.splits)
qed simp

lemma kps_maintain_inv: "pool_inv m t H \<Longrightarrow> pool_inv m (fst (kps_maintain m' now t)) H"
  using maintain_loop_inv[of m _ H m' now] by (simp add: kps_maintain_def Let_def split_beta pool_inv_fields)

lemma held_append: "held k (H @ H') = held k H @ held k H'"
  by (simp add: held_def)

lemma held_single: "held k [(key, x)] = (if k = key then [x] else [])"
  by (simp add: held_def)

lemma held_in: "(key, x) \<in> set H \<longleftrightarrow> x \<in> set (held key H)"
  by (auto simp: held_def image_iff)

lemma held_remove: "held k (remove1 (key, x) H) = (if k = key then remove1 x (held k H) else held k H)"
  by (induction H) (auto simp: held_def)

lemma kps_acquire_inv:
  assumes inv: "pool_inv m t H" and e: "jsmap_get (pool t) key = Some e" and x: "x \<notin> set (pe_waiters e)" "(key, x) \<notin> set H"
    and run: "kps_acquire m key x t = (t', granted)"
  shows "pool_inv m t' (if granted then H @ [(key, x)] else H)"
proof -
  have s: "slot_inv m H key e" by (rule pool_inv_get[OF inv e])
  show ?thesis
  proof (cases "pe_active e < slots m")
    case True
    then have r: "t' = t\<lparr>pool := jsmap_set key (e\<lparr>pe_active := pe_active e + 1\<rparr>) (pool t)\<rparr>" "granted"
      using run e by (auto simp: kps_acquire_def upd_entry_def)
    have n: "slot_inv m (H @ [(key, x)]) key (e\<lparr>pe_active := pe_active e + 1\<rparr>)"
      using s True x held_in[of key x H] by (auto simp: slot_inv_def held_append held_single)
    then show ?thesis unfolding r(1) using r(2) pool_inv_set[OF inv n] by (auto simp: held_append held_single)
  next
    case False
    then have r: "t' = t\<lparr>pool := jsmap_set key (e\<lparr>pe_waiters := pe_waiters e @ [x]\<rparr>) (pool t)\<rparr>" "\<not> granted"
      using run e by (auto simp: kps_acquire_def upd_entry_def)
    have n: "slot_inv m H key (e\<lparr>pe_waiters := pe_waiters e @ [x]\<rparr>)"
      using s False x held_in[of key x H] by (auto simp: slot_inv_def)
    then show ?thesis unfolding r(1) using r(2) pool_inv_set[OF inv n] by auto
  qed
qed

lemma kps_release_inv:
  assumes inv: "pool_inv m t H" and x: "(key, x) \<in> set H" and run: "kps_release now key t = (t', w)"
  shows "pool_inv m t' (remove1 (key, x) H @ (case w of None \<Rightarrow> [] | Some y \<Rightarrow> [(key, y)]))"
proof -
  let ?H = "remove1 (key, x) H @ (case w of None \<Rightarrow> [] | Some y \<Rightarrow> [(key, y)])"
  obtain e where e: "jsmap_get (pool t) key = Some e"
    using inv x jsmap_get_None_iff[of "pool t" key] by (cases "jsmap_get (pool t) key") (force simp: pool_inv_def)+
  have s: "slot_inv m H key e" by (rule pool_inv_get[OF inv e])
  have hx: "x \<in> set (held key H)" "distinct (held key H)" using x s held_in by (auto simp: slot_inv_def)
  then have len: "length (held key H) \<ge> 1" by (cases "held key H") auto
  have h: "held key ?H = remove1 x (held key H) @ (case w of None \<Rightarrow> [] | Some y \<Rightarrow> [y])"
    by (auto simp: held_append held_remove held_single split: option.splits) (simp add: held_def)
  have o': "held k ?H = held k H" if "k \<noteq> key" for k
    using that by (auto simp: held_append held_remove held_single split: option.splits) (simp add: held_def)
  have sub: "fst ` set ?H \<subseteq> insert key (fst ` set H)" using set_remove1_subset[of "(key, x)" H] by (auto split: option.splits)
  obtain e' where t': "t' = t\<lparr>pool := jsmap_set key e' (pool t)\<rparr>" and e': "slot_inv m ?H key e'"
  proof (cases "pe_waiters e")
    case Nil
    then have r: "w = None" "t' = t\<lparr>pool := jsmap_set key (e\<lparr>pe_active := pe_active e - 1, pe_lastActivity := now\<rparr>) (pool t)\<rparr>"
      using run e by (auto simp: kps_release_def upd_entry_def Let_def)
    have "slot_inv m ?H key (e\<lparr>pe_active := pe_active e - 1, pe_lastActivity := now\<rparr>)"
      using s hx Nil h r(1) by (auto simp: slot_inv_def length_remove1)
    then show thesis using that r(2) by blast
  next
    case (Cons y ws)
    let ?e = "e\<lparr>pe_lastActivity := now, pe_waiters := ws, pe_active := pe_active e - 1 + 1\<rparr>"
    have r: "w = Some y" "t' = t\<lparr>pool := jsmap_set key ?e (pool t)\<rparr>"
      using run e Cons by (auto simp: kps_release_def upd_entry_def Let_def)
    have "slot_inv m ?H key ?e"
      using s hx len Cons h r(1) set_remove1_subset[of x "held key H"] by (auto simp: slot_inv_def length_remove1)
    then show thesis using that r(2) by blast
  qed
  show ?thesis unfolding t' by (rule pool_inv_set[OF inv e' o' sub])
qed

lemma pool_inv_new: "pool_inv m new_transport []"
  by (simp add: pool_inv_def new_transport_def)

lemma kps_reach_inv: "kps_reach m (t, H) \<Longrightarrow> pool_inv m t H"
proof (induction "(t, H)" arbitrary: t H rule: kps_reach.induct)
  case (dialled t H key e now c)
  have dial: "slot_inv m H key (e\<lparr>pe_dial := NoDial, pe_conn := Some cc, pe_failures := 0, pe_coolUntil := 0, pe_lastActivity := now\<rparr>)" for cc
    using pool_inv_get[OF dialled(2,3)] by (auto simp: slot_inv_def)
  have "slot_inv m H key (e\<lparr>pe_dial := DialRejected er\<rparr>)" for er
    using pool_inv_get[OF dialled(2,3)] dialled(4) by (auto simp: slot_inv_def)
  with dial show ?case
    using dialled(2,3) pool_inv_set[OF dialled(2), of H key]
    by (auto simp: dial_ok_def upd_entry_def pool_inv_fields split: option.splits)
next
  case (undialled t H key e jitter now)
  show ?case unfolding dial_failed_def by (rule pool_inv_upd[OF undialled(2)]) (auto simp: slot_inv_def)
next
  case (lost t H key cid)
  show ?case unfolding conn_closed_def by (rule pool_inv_upd[OF lost(2)]) (auto simp: slot_inv_def)
next
  case (evicted t H key cid)
  show ?case unfolding open_timed_out_def by (rule pool_inv_upd[OF evicted(2)]) (auto simp: slot_inv_def)
next
  case (aborted t H key x)
  show ?case unfolding abort_wait_def
    by (rule pool_inv_upd[OF aborted(2)]) (auto simp: slot_inv_def distinct_remove1 dest: notin_set_remove1[THEN contrapos_nn])
next
  case (kept_alive t H key)
  show ?case unfolding keepalive_done_def by (rule pool_inv_upd[OF kept_alive(2)]) (auto simp: slot_inv_def)
next
  case (closed t H)
  then show ?case by (auto simp: kps_close_def pool_inv_def)
qed (auto simp: pool_inv_new retain_primary_def pool_inv_fields kps_entry_inv kps_connection_inv laneEntry_inv
    prewarm_inv kps_acquire_inv kps_release_inv kps_maintain_inv)

text \<open>
  C39. The streams of a connection are shared without overbooking or lost wake-ups. In every state the pool can reach, under any interleaving of exchanges,
  dials, aborts, maintenance and closes: an entry counts exactly the exchanges that hold one of its streams, never more than
  \<open>maxStreamsPerConnection\<close>; exchanges wait only while all streams are taken; no exchange waits twice, holds two streams
  or waits while it holds one; and an entry with a connection is not dialling.
\<close>

theorem stream_slots_safe:
  assumes "kps_reach m (t, H)" "jsmap_get (pool t) key = Some e"
  shows "pe_active e = length (held key H) \<and> pe_active e \<le> slots m \<and> (pe_waiters e = [] \<or> pe_active e = slots m)
    \<and> distinct (pe_waiters e @ held key H) \<and> (pe_conn e = None \<or> pe_dial e = NoDial)"
  using pool_inv_get[OF kps_reach_inv[OF assms(1)] assms(2)] by (auto simp: slot_inv_def)

text \<open>Two exchanges compete for the single stream of a connection.\<close>

definition one_slot :: settings_map where
  "one_slot = [(''maxStreamsPerConnection'', SNum 1)]"

definition two_exchanges :: kps_transport where
  "two_exchanges = fst (kps_acquire one_slot ''a'' 2 (fst (kps_acquire one_slot ''a'' 1 (kps_entry 0 ''a'' Primary new_transport))))"

lemma two_exchanges_reach: "kps_reach one_slot (two_exchanges, [(''a'', 1)])"
proof -
  let ?t0 = "kps_entry 0 ''a'' Primary new_transport"
  have r0: "kps_reach one_slot (?t0, [])" by (rule kps_reach.entered[OF kps_reach.init])
  have e0: "jsmap_get (pool ?t0) ''a'' = Some (new_entry 0 ''a'' Primary)" by code_simp
  have "kps_acquire one_slot ''a'' 1 ?t0 = (fst (kps_acquire one_slot ''a'' 1 ?t0), True)" by code_simp
  from kps_reach.acquired[OF r0 e0 _ _ this]
  have r1: "kps_reach one_slot (fst (kps_acquire one_slot ''a'' 1 ?t0), [(''a'', 1)])" by (simp add: new_entry_def)
  let ?t1 = "fst (kps_acquire one_slot ''a'' 1 ?t0)"
  have e1: "jsmap_get (pool ?t1) ''a'' = Some (new_entry 0 ''a'' Primary\<lparr>pe_active := 1\<rparr>)" by code_simp
  have "kps_acquire one_slot ''a'' 2 ?t1 = (fst (kps_acquire one_slot ''a'' 2 ?t1), False)" by code_simp
  from kps_reach.acquired[OF r1 e1 _ _ this] show ?thesis by (simp add: new_entry_def two_exchanges_def)
qed

theorem stream_slots_safe_witness:
  "\<exists>e. jsmap_get (pool two_exchanges) ''a'' = Some e \<and> pe_active e = 1 \<and> pe_waiters e = [2] \<and> held ''a'' [(''a'', 1)] = [1]
     \<and> pe_active e \<le> slots one_slot"
proof -
  obtain e where e: "jsmap_get (pool two_exchanges) ''a'' = Some e" "pe_active e = 1" "pe_waiters e = [2]"
  proof -
    have "map_option (\<lambda>e. (pe_active e, pe_waiters e)) (jsmap_get (pool two_exchanges) ''a'') = Some (1, [2])" by code_simp
    then show thesis using that by auto
  qed
  have "held ''a'' [(''a'', 1)] = [1]" by code_simp
  then show ?thesis using e stream_slots_safe[OF two_exchanges_reach e(1)] by auto
qed

subsection \<open>Maintenance\<close>

definition kept_open :: "settings_map \<Rightarrow> int \<Rightarrow> kps_transport \<Rightarrow> pool_entry \<Rightarrow> bool" where
  "kept_open m now t e = (pe_active e > 0 \<or> pe_waiters e \<noteq> [] \<or> now - pe_lastActivity e < num_setting m ''idleCloseMs''
     \<or> (pe_lane e = Primary \<and> pe_address e \<in> set (tr_retained t)))"

definition same_use :: "pool_entry \<Rightarrow> pool_entry \<Rightarrow> bool" where
  "same_use e e' = (pe_address e' = pe_address e \<and> pe_lane e' = pe_lane e \<and> pe_conn e' = pe_conn e \<and> pe_active e' = pe_active e
     \<and> pe_waiters e' = pe_waiters e \<and> pe_lastActivity e' = pe_lastActivity e)"

definition keeps :: "string \<Rightarrow> pool_entry \<Rightarrow> kps_transport \<Rightarrow> bool" where
  "keeps key e t = (\<exists>e'. jsmap_get (pool t) key = Some e' \<and> same_use e e')"

lemma keeps_set: "keeps key e t \<Longrightarrow> (k = key \<Longrightarrow> same_use e f) \<Longrightarrow> keeps key e (t\<lparr>pool := jsmap_set k f (pool t)\<rparr>)"
  by (auto simp: keeps_def jsmap_get_def jsmap_set_map_of)

lemma keeps_upd:
  assumes "keeps key e t" "k = key \<Longrightarrow> (\<And>e'. same_use e e' \<Longrightarrow> same_use e (f e'))"
  shows "keeps key e (upd_entry k f t)"
proof (cases "jsmap_get (pool t) k")
  case (Some e1)
  have "same_use e (f e1)" if "k = key" using assms(1) Some that assms(2)[OF that] by (auto simp: keeps_def)
  then show ?thesis using keeps_set[OF assms(1), of k "f e1"] Some by (simp add: upd_entry_def)
qed (use assms(1) in \<open>simp add: upd_entry_def\<close>)

lemma keeps_entry: "keeps key e t \<Longrightarrow> keeps key e (kps_entry now a ln t)"
proof (cases "jsmap_get (pool t) (poolKey a ln)")
  case None
  assume k: "keeps key e t"
  then have "poolKey a ln \<noteq> key" using None by (auto simp: keeps_def)
  then show ?thesis using keeps_set[OF k, of "poolKey a ln" "new_entry now a ln"] None by (simp add: kps_entry_def)
qed (simp add: kps_entry_def)

lemma keeps_connection: "keeps key e t \<Longrightarrow> keeps key e (fst (kps_connection now k t))"
  using keeps_upd[of key e t k "\<lambda>e. e\<lparr>pe_dial := DialPending\<rparr>"]
  by (auto simp: kps_connection_def same_use_def split: option.splits dial_slot.splits)

lemma keeps_lane: "keeps key e t \<Longrightarrow> keeps key e (fst (laneEntry now a ln t))"
  using keeps_entry[of key e _ now] keeps_connection[of key e _ now]
  by (auto simp: laneEntry_def Let_def split: option.splits)

lemma upd_entry_fields: "tr_retained (upd_entry k f t) = tr_retained t" "tr_closed (upd_entry k f t) = tr_closed t"
  by (simp_all add: upd_entry_def split: option.splits)

lemma lane_fields: "tr_retained (fst (laneEntry now a ln t)) = tr_retained t"
  by (auto simp: laneEntry_def kps_entry_def kps_connection_def upd_entry_fields Let_def split: option.splits dial_slot.splits)

lemma keeps_loop:
  assumes "keeps key e t"
    and "\<And>e1. (key, e1) \<in> set es \<Longrightarrow> now - pe_lastActivity e1 < num_setting m ''idleCloseMs'' \<or> (ln = Primary \<and> pe_address e1 \<in> set (tr_retained t))"
  shows "keeps key e (fst (maintain_loop m now ln kept index es t)) \<and> tr_retained (fst (maintain_loop m now ln kept index es t)) = tr_retained t"
  using assms
proof (induction m now ln kept index es t rule: maintain_loop.induct)
  case (2 m now ln kept index k e1 rest t)
  note IH = 2(1-5)
  have a: "keeps key e (upd_entry k (\<lambda>e. e\<lparr>pe_conn := None\<rparr>) t)" if "k \<noteq> key"
    by (rule keeps_upd[OF 2(6)]) (use that in simp)
  have b: "keeps key e (fst (laneEntry now (pe_address e1) ln (upd_entry k (\<lambda>e. e\<lparr>pe_keepalive := True\<rparr>) t)))"
    by (rule keeps_lane[OF keeps_upd[OF 2(6)]]) (simp add: same_use_def)
  have here: "k = key \<Longrightarrow> now - pe_lastActivity e1 < num_setting m ''idleCloseMs'' \<or> (ln = Primary \<and> pe_address e1 \<in> set (tr_retained t))"
    using 2(7)[of e1] by simp
  have rest: "\<And>e2. (key, e2) \<in> set rest \<Longrightarrow> now - pe_lastActivity e2 < num_setting m ''idleCloseMs'' \<or> (ln = Primary \<and> pe_address e2 \<in> set (tr_retained t))"
    using 2(7) by simp
  show ?case
  proof (cases "pe_conn e1")
    case None
    then show ?thesis using IH 2(6) rest by (simp add: Let_def)
  next
    case (Some c)
    let ?keep = "(ln = Primary \<and> pe_address e1 \<in> set (tr_retained t)) \<or> index < kept"
    let ?idle = "now - pe_lastActivity e1 \<ge> num_setting m ''idleCloseMs''"
    consider (cl) "\<not> ?keep" "?idle" | (st) "\<not> ?keep" "\<not> ?idle"
      | (ka) "\<not> \<not> ?keep" "now - pe_lastActivity e1 \<ge> num_setting m ''keepaliveMs'' \<and> \<not> pe_keepalive e1"
      | (no) "\<not> \<not> ?keep" "\<not> (now - pe_lastActivity e1 \<ge> num_setting m ''keepaliveMs'' \<and> \<not> pe_keepalive e1)" by blast
    then show ?thesis
    proof cases
      case cl
      then have ne: "k \<noteq> key" using here by auto
      have r: "tr_retained (upd_entry k (\<lambda>e. e\<lparr>pe_conn := None\<rparr>) t) = tr_retained t" by (rule upd_entry_fields)
      show ?thesis using IH(2)[OF refl refl Some cl a[OF ne]] rest Some cl by (simp add: Let_def split_beta r)
    next
      case st
      then show ?thesis using IH(3)[OF refl refl Some st 2(6)] rest Some st by (simp add: Let_def)
    next
      case ka
      then show ?thesis using IH(4)[OF refl refl Some ka b] rest Some ka by (simp add: Let_def split_beta lane_fields upd_entry_fields)
    next
      case no
      then show ?thesis using IH(5)[OF refl refl Some no 2(6)] rest Some no by (auto simp: Let_def)
    qed
  qed
qed simp

lemma jsmap_wf_upd: "jsmap_wf (pool t) \<Longrightarrow> jsmap_wf (pool (upd_entry k f t))"
  by (simp add: upd_entry_def jsmap_wf_set split: option.splits)

lemma lane_wf: "jsmap_wf (pool t) \<Longrightarrow> jsmap_wf (pool (fst (laneEntry now a ln t)))"
  by (auto simp: laneEntry_def kps_entry_def kps_connection_def Let_def jsmap_wf_set jsmap_wf_upd split: option.splits dial_slot.splits)

lemma maintain_loop_wf: "jsmap_wf (pool t) \<Longrightarrow> jsmap_wf (pool (fst (maintain_loop m now ln kept index es t)))"
  by (induction m now ln kept index es t rule: maintain_loop.induct)
    (auto simp: Let_def split_beta jsmap_wf_upd lane_wf split: option.splits)

text \<open>
  Maintenance closes only what is idle. A pass never closes the connection of an entry on which a stream is open or an exchange waits, of a
  retained primary entry, or of an entry used within the last \<open>idleCloseMs\<close>; such an entry keeps its connection,
  its streams, its waiting exchanges and its time of use.
\<close>

theorem maintain_keeps_used:
  assumes "jsmap_wf (pool t)" "jsmap_get (pool t) key = Some e" "kept_open m now t e"
  shows "\<exists>e'. jsmap_get (pool (fst (kps_maintain m now t))) key = Some e' \<and> pe_conn e' = pe_conn e \<and> pe_active e' = pe_active e
    \<and> pe_waiters e' = pe_waiters e \<and> pe_lastActivity e' = pe_lastActivity e"
proof -
  have idle: "now - pe_lastActivity e1 < num_setting m ''idleCloseMs'' \<or> (l = Primary \<and> pe_address e1 \<in> set (tr_retained s))"
    if s: "keeps key e s" "jsmap_wf (pool s)" "tr_retained s = tr_retained t" and m1: "(key, e1) \<in> set (idle_entries l s)" for l s e1
  proof -
    have i: "(key, e1) \<in> set (pool s)" "pe_lane e1 = l" "pe_active e1 = 0" "pe_waiters e1 = []"
      using m1 by (auto simp: idle_entries_def)
    then have "same_use e e1" using s(1,2) jsmap_get_iff[OF s(2), of key e1] by (auto simp: keeps_def)
    then show ?thesis using i s(3) assms(3) by (auto simp: kept_open_def same_use_def)
  qed
  have k: "keeps key e t" using assms(2) by (simp add: keeps_def same_use_def)
  show ?thesis
  proof (cases "tr_closed t")
    case True
    then show ?thesis using assms(2) by (simp add: kps_maintain_def)
  next
    case False
    let ?t1 = "fst (maintain_loop m now Primary (kept_connections m Primary) 0 (idle_entries Primary t) t)"
    let ?t2 = "fst (maintain_loop m now ClaimLane (kept_connections m ClaimLane) 0 (idle_entries ClaimLane ?t1) ?t1)"
    have 1: "keeps key e ?t1 \<and> tr_retained ?t1 = tr_retained t" by (rule keeps_loop[OF k]) (rule idle[OF k assms(1) refl])
    have 2: "keeps key e ?t2"
      using keeps_loop[OF conjunct1[OF 1] idle[OF conjunct1[OF 1] maintain_loop_wf[OF assms(1)] conjunct2[OF 1]]] by blast
    have "pool (fst (kps_maintain m now t)) = pool ?t2" using False by (simp add: kps_maintain_def Let_def split_beta)
    then show ?thesis using 2 by (auto simp: keeps_def same_use_def)
  qed
qed

definition sample_pool :: kps_transport where
  "sample_pool = conn_closed ''b'' 9 (dial_ok 1000 ''a'' (Some 7) (fst (kps_connection 1000 ''a'' (kps_entry 1000 ''a'' Primary new_transport))))"

theorem maintain_keeps_used_witness:
  "kept_open KPS_TRANSPORT_DEFAULTS 20000 sample_pool (the (jsmap_get (pool sample_pool) ''a''))
   \<and> map_option pe_conn (jsmap_get (pool (fst (kps_maintain KPS_TRANSPORT_DEFAULTS 20000 sample_pool))) ''a'') = Some (Some 7)"
proof -
  have w: "jsmap_wf (pool sample_pool)" by code_simp
  have e: "jsmap_get (pool sample_pool) ''a'' = Some (the (jsmap_get (pool sample_pool) ''a''))" by code_simp
  have c: "pe_conn (the (jsmap_get (pool sample_pool) ''a'')) = Some 7" by code_simp
  have k: "kept_open KPS_TRANSPORT_DEFAULTS 20000 sample_pool (the (jsmap_get (pool sample_pool) ''a''))" by code_simp
  show ?thesis using maintain_keeps_used[OF w e k] c k by auto
qed

subsection \<open>Dials\<close>

text \<open>
  A dial that yields something other than a connection disables its address. The rejected promise stays in the entry: from then on every
  exchange with the address fails with the same protocol error, at any time, without a new dial; pre-warming does not dial either.
\<close>

theorem bad_dial_sticks:
  assumes "\<not> tr_closed t" "jsmap_get (pool t) key = Some e" "pe_conn e = None" "key = poolKey address ln" "parseKpsAddress address = Inr a"
  shows "kps_connection now key (dial_ok now0 key None t) = (dial_ok now0 key None t,
      ConnRejected (NoxKpsError ProtocolError ''KPS dial returned an object without openStream/close/closed''))
    \<and> prewarm now address ln (dial_ok now0 key None t) = Inr (dial_ok now0 key None t)"
proof -
  let ?e = "e\<lparr>pe_dial := DialRejected (NoxKpsError ProtocolError ''KPS dial returned an object without openStream/close/closed'')\<rparr>"
  have g: "jsmap_get (pool (dial_ok now0 key None t)) key = Some ?e" "\<not> tr_closed (dial_ok now0 key None t)"
    using assms(1,2) by (simp_all add: dial_ok_def upd_entry_def jsmap_get_def jsmap_set_map_of)
  have a: "ka_address a = address" using assms(5) by (simp add: parse_exact)
  show ?thesis using g assms(3-5) a by (simp add: kps_connection_def prewarm_def kps_entry_def Let_def)
qed

definition sample_address :: string where
  "sample_address = ''1.2.3.4:443:'' @ sample_certhash"

definition dialling :: kps_transport where
  "dialling = fst (kps_connection 0 sample_address (kps_entry 0 sample_address Primary new_transport))"

theorem bad_dial_sticks_witness:
  "snd (kps_connection 1000000 sample_address (dial_ok 50 sample_address None dialling)) =
     ConnRejected (NoxKpsError ProtocolError ''KPS dial returned an object without openStream/close/closed'')"
proof -
  have c: "\<not> tr_closed dialling" by code_simp
  have e: "jsmap_get (pool dialling) sample_address = Some (the (jsmap_get (pool dialling) sample_address))" by code_simp
  have n: "pe_conn (the (jsmap_get (pool dialling) sample_address)) = None" by code_simp
  have k: "sample_address = poolKey sample_address Primary" by (simp add: poolKey_def)
  have p: "parseKpsAddress sample_address = Inr (projr (parseKpsAddress sample_address))" by code_simp
  show ?thesis using bad_dial_sticks[OF c e n k p] by simp
qed

subsection \<open>Warm-up\<close>

lemma warmup_loop_facts:
  "0 \<le> left \<Longrightarrow> list_all (\<lambda>r. KPS_WARMUP_MIN_ROUND_BYTES \<le> r \<and> r \<le> KPS_WARMUP_MAX_ROUND_BYTES) (warmup_loop left k)
     \<and> sum_list (warmup_loop left k) \<le> left \<and> left - sum_list (warmup_loop left k) < KPS_WARMUP_MIN_ROUND_BYTES"
proof (induction left k rule: warmup_loop.induct)
  case (1 left k)
  show ?case
  proof (cases "left \<ge> KPS_WARMUP_MIN_ROUND_BYTES")
    case True
    have s: "warmup_size left k \<le> left" "warmup_size left k \<le> KPS_WARMUP_MAX_ROUND_BYTES" "KPS_WARMUP_MIN_ROUND_BYTES \<le> warmup_size left k"
      using True warmup_size_ge[of left k] by (auto simp: warmup_size_def KPS_WARMUP_MIN_ROUND_BYTES_def)
    show ?thesis using 1(1)[OF True] s True by (subst (1 2 3) warmup_loop.simps) auto
  next
    case False
    then show ?thesis using 1(2) by (subst (1 2 3) warmup_loop.simps) auto
  qed
qed

text \<open>Rounds asked for at given times: the list the transport keeps, and all rounds sent.\<close>

fun warmup_run :: "int \<Rightarrow> (int \<times> int) list \<Rightarrow> (int \<times> int) list \<times> (int \<times> int) list \<Rightarrow> (int \<times> int) list \<times> (int \<times> int) list" where
  "warmup_run maxPerMinute [] s = s"
| "warmup_run maxPerMinute ((now, bytes) # rest) (sent, history) =
     (let (sent', ok) = warmup_round maxPerMinute now bytes sent in
      warmup_run maxPerMinute rest (sent', if ok then history @ [(now, bytes)] else history))"

definition in_window :: "int \<Rightarrow> (int \<times> int) list \<Rightarrow> int" where
  "in_window now history = sum_list (map snd (filter (\<lambda>(a, _). now - WARMUP_BUDGET_WINDOW_MS < a \<and> a \<le> now) history))"

definition warm_inv :: "int \<Rightarrow> int \<Rightarrow> (int \<times> int) list \<Rightarrow> (int \<times> int) list \<Rightarrow> bool" where
  "warm_inv maxPerMinute now sent history = ((\<exists>old. history = old @ sent \<and> (\<forall>(a, _) \<in> set old. a \<le> now - WARMUP_BUDGET_WINDOW_MS))
     \<and> (\<forall>(a, b) \<in> set history. a \<le> now \<and> 0 \<le> b) \<and> (\<forall>w. in_window w history \<le> maxPerMinute))"

lemma warm_invI:
  "history = old @ sent \<Longrightarrow> \<forall>(a, _) \<in> set old. a \<le> now - WARMUP_BUDGET_WINDOW_MS \<Longrightarrow> \<forall>(a, b) \<in> set history. a \<le> now \<and> 0 \<le> b \<Longrightarrow>
   \<forall>w. in_window w history \<le> maxPerMinute \<Longrightarrow> warm_inv maxPerMinute now sent history"
  unfolding warm_inv_def by blast

lemma sum_filter_le: "\<forall>(a, b) \<in> set xs. (0 :: int) \<le> b \<Longrightarrow> sum_list (map snd (filter P xs)) \<le> sum_list (map snd xs)"
  by (induction xs) auto

lemma in_window_sent:
  assumes "history = old @ sent" "\<forall>(a, _) \<in> set old. a \<le> now - WARMUP_BUDGET_WINDOW_MS" "now \<le> w" "\<forall>(a, b) \<in> set history. 0 \<le> b"
  shows "in_window w history \<le> sum_list (map snd sent)"
proof -
  have "filter (\<lambda>(a, _). w - WARMUP_BUDGET_WINDOW_MS < a \<and> a \<le> w) old = []"
    using assms(2,3) by (force simp: filter_empty_conv)
  then show ?thesis using sum_filter_le[of sent] assms(1,4) by (simp add: in_window_def)
qed

lemma warmup_round_inv:
  assumes inv: "warm_inv maxPerMinute n sent history" and now: "n \<le> now" "0 \<le> bytes"
    and run: "warmup_round maxPerMinute now bytes sent = (sent', ok)"
  shows "warm_inv maxPerMinute now sent' (if ok then history @ [(now, bytes)] else history)"
proof -
  let ?P = "\<lambda>(sent_at, _ :: int). now - sent_at \<ge> WARMUP_BUDGET_WINDOW_MS"
  obtain old where old: "history = old @ sent" "\<forall>(a, _) \<in> set old. a \<le> n - WARMUP_BUDGET_WINDOW_MS" using inv by (auto simp: warm_inv_def)
  let ?old = "old @ takeWhile ?P sent" and ?sent = "dropWhile ?P sent"
  have h: "history = ?old @ ?sent" using old(1) by simp
  have o': "\<forall>(a, _) \<in> set ?old. a \<le> now - WARMUP_BUDGET_WINDOW_MS"
    using old(2) now(1) by (fastforce dest: set_takeWhileD)
  have nn: "\<forall>(a, b) \<in> set history. 0 \<le> b" and le: "\<forall>(a, b) \<in> set history. a \<le> now" and win: "\<forall>w. in_window w history \<le> maxPerMinute"
    using inv now(1) by (fastforce simp: warm_inv_def)+
  have s': "sent' = (if ok then ?sent @ [(now, bytes)] else ?sent)" and ok: "ok \<longrightarrow> sum_list (map snd ?sent) + bytes \<le> maxPerMinute"
    using run by (auto simp: warmup_round_def warmupAllowance_def Let_def split: if_splits)
  show ?thesis
  proof (cases ok)
    case False
    have "\<forall>(a, b) \<in> set history. a \<le> now \<and> 0 \<le> b" using nn le by blast
    from warm_invI[OF h o' this win] show ?thesis using False s' by simp
  next
    case True
    have win': "in_window w (history @ [(now, bytes)]) \<le> maxPerMinute" for w
    proof (cases "now \<le> w")
      case False
      then show ?thesis using win by (simp add: in_window_def)
    next
      case later: True
      have "in_window w (history @ [(now, bytes)]) \<le> in_window w history + bytes" using now(2) by (simp add: in_window_def)
      then show ?thesis using in_window_sent[OF h o' later nn] ok True by linarith
    qed
    have "\<forall>(a, b) \<in> set (history @ [(now, bytes)]). a \<le> now \<and> 0 \<le> b" using nn le now(2) by auto
    from warm_invI[OF _ o' this, of "?sent @ [(now, bytes)]"] show ?thesis using h win' True s' by simp
  qed
qed

lemma warmup_run_inv:
  assumes "warm_inv maxPerMinute n sent history" "sorted (n # map fst rounds)" "\<forall>(_, b) \<in> set rounds. 0 \<le> b"
  shows "\<exists>n'. warm_inv maxPerMinute n' (fst (warmup_run maxPerMinute rounds (sent, history))) (snd (warmup_run maxPerMinute rounds (sent, history)))"
  using assms
proof (induction rounds arbitrary: n sent history)
  case (Cons r rounds)
  obtain now bytes where r: "r = (now, bytes)" by (cases r)
  obtain sent' ok where w: "warmup_round maxPerMinute now bytes sent = (sent', ok)" by fastforce
  have "warm_inv maxPerMinute now sent' (if ok then history @ [(now, bytes)] else history)"
    using warmup_round_inv[OF Cons.prems(1) _ _ w] Cons.prems(2,3) r by auto
  from Cons.IH[OF this] show ?case using Cons.prems(2,3) r w by auto
qed auto

text \<open>
  Warm-up padding keeps its budget. Whatever rounds are asked for, on any connections, at times that do not run backwards: the bytes
  actually sent within any window of one minute never exceed \<open>warmupMaxBytesPerMinute\<close>, although only the rounds of the last window are
  remembered; and the rounds planned for a total are each between 1,000 and 60,000 bytes and leave less than 1,000 of it unsent.
\<close>

theorem warmup_budget:
  assumes "0 \<le> maxPerMinute" "sorted (map fst rounds)" "\<forall>(_, b) \<in> set rounds. 0 \<le> b" "0 \<le> amount"
  shows "in_window w (snd (warmup_run maxPerMinute rounds ([], []))) \<le> maxPerMinute
    \<and> list_all (\<lambda>r. 1000 \<le> r \<and> r \<le> 60000) (kpsWarmupRounds amount)
    \<and> sum_list (kpsWarmupRounds amount) \<le> amount \<and> amount - sum_list (kpsWarmupRounds amount) < 1000"
proof -
  obtain n where n: "sorted (n # map fst rounds)"
  proof (cases rounds)
    case (Cons r rs)
    then show thesis using that[of "fst r"] assms(2) by simp
  qed (use that[of 0] in simp)
  have "warm_inv maxPerMinute n [] []" using assms(1) by (simp add: warm_inv_def in_window_def)
  from warmup_run_inv[OF this n assms(3)] have "in_window w (snd (warmup_run maxPerMinute rounds ([], []))) \<le> maxPerMinute"
    by (auto simp: warm_inv_def)
  then show ?thesis
    using warmup_loop_facts[OF assms(4), of 0]
    by (simp add: kpsWarmupRounds_def KPS_WARMUP_MIN_ROUND_BYTES_def KPS_WARMUP_MAX_ROUND_BYTES_def)
qed

theorem warmup_budget_witness:
  "snd (warmup_run 25000 [(0, 12000), (10, 12000), (20, 12000), (60000, 12000)] ([], [])) = [(0, 12000), (10, 12000), (60000, 12000)]
   \<and> in_window 60005 (snd (warmup_run 25000 [(0, 12000), (10, 12000), (20, 12000), (60000, 12000)] ([], []))) \<le> 25000
   \<and> sum_list (kpsWarmupRounds 96000) \<le> 96000"
proof -
  have "snd (warmup_run 25000 [(0, 12000), (10, 12000), (20, 12000), (60000, 12000)] ([], [])) = [(0, 12000), (10, 12000), (60000, 12000)]"
    by code_simp
  moreover note warmup_budget[of 25000 "[(0, 12000), (10, 12000), (20, 12000), (60000, 12000)]" 96000 60005]
  ultimately show ?thesis by simp
qed

end
