(* ===== verification/Claim_Transport.thy ===== *)
theory Claim_Transport
  imports Kps_Text Bincode_Codec
begin

section \<open>Exchanges with an entry\<close>

text \<open>
  \<open>packages/nox-client/src/transport.ts\<close>: posting a packet, claiming and polling replies, the binary claim batch, base64, and the
  WebSocket that pushes replies. An exchange is its result: it failed, or a status, headers and a body. \<open>JSON.parse\<close> of a body is the
  parameter \<open>parse_json\<close>, and the coercion of an array element that is not an integer to a byte the parameter \<open>to_number\<close>. Timing,
  aborts and timers are left out, as are sockets themselves: their events are operations.
\<close>

unbundle bit_operations_syntax

definition SPHINX_PACKET_SIZE :: nat where
  "SPHINX_PACKET_SIZE = 32768"

datatype entry_reply =
    FetchFailed
  | EntryReply bool int "string \<Rightarrow> string option" "bytes option"

text \<open>\<open>entryUrl.replace(/\/$/, "")\<close>.\<close>

definition strip_slash :: "string \<Rightarrow> string" where
  "strip_slash u = (if u \<noteq> [] \<and> last u = CHR ''/'' then butlast u else u)"

definition postPacket :: "(string \<Rightarrow> bytes \<Rightarrow> entry_reply) \<Rightarrow> string \<Rightarrow> bytes \<Rightarrow> unit result" where
  "postPacket fetch entryUrl packet =
     (if length packet \<noteq> SPHINX_PACKET_SIZE then throw PacketBuildFailed ''Sphinx packet has the wrong size''
      else (case fetch (strip_slash entryUrl @ ''/api/v1/packets'') packet of
          FetchFailed \<Rightarrow> throw TransportFailed ''Packet delivery failed''
        | EntryReply ok status _ _ \<Rightarrow>
            if \<not> ok then throw TransportFailed ''Packet delivery returned an HTTP error'' else Inr ()))"

subsection \<open>The binary batch\<close>

record claimed_item =
  ci_id :: string
  ci_data :: bytes
  ci_reclaimed :: "bool option"

definition CLAIM_BATCH_VERSION :: nat where
  "CLAIM_BATCH_VERSION = 1"

definition CLAIM_ITEM_FLAG_RECLAIMED :: byte where
  "CLAIM_ITEM_FLAG_RECLAIMED = 1"

text \<open>Big-endian integers, \<open>getUint\<close> and \<open>setUint\<close> with \<open>littleEndian = false\<close>.\<close>

fun be_value :: "bytes \<Rightarrow> nat" where
  "be_value [] = 0"
| "be_value (b # bs) = unat b * 256 ^ length bs + be_value bs"

fun be_bytes :: "nat \<Rightarrow> nat \<Rightarrow> bytes" where
  "be_bytes 0 v = []"
| "be_bytes (Suc n) v = word_of_nat (v div 256 ^ n mod 256) # be_bytes n v"

definition be_get :: "bytes \<Rightarrow> nat \<Rightarrow> nat \<Rightarrow> nat" where
  "be_get body off n = be_value (take n (drop off body))"

abbreviation batch_fail :: "string \<Rightarrow> 'a result" where
  "batch_fail detail \<equiv> throw TransportFailed detail"

definition printable :: "byte \<Rightarrow> bool" where
  "printable b = (0x20 \<le> unat b \<and> unat b \<le> 0x7e)"

text \<open>The loop over the items: the offset after the last one, and the items.\<close>

fun decode_items :: "bytes \<Rightarrow> nat \<Rightarrow> nat \<Rightarrow> claimed_item list \<Rightarrow> (nat \<times> claimed_item list) result" where
  "decode_items body 0 off items = Inr (off, items)"
| "decode_items body (Suc n) off items =
     (if length body - off < 3 then batch_fail ''truncated item flags and ID length''
      else
        (let flags = body ! off; idLength = be_get body (off + 1) 2; off1 = off + 3 in
         if idLength = 0 then batch_fail ''item has an empty ID''
         else if length body - off1 < idLength then batch_fail ''truncated item ID''
         else
           (let idBytes = take idLength (drop off1 body); off2 = off1 + idLength in
            if \<not> list_all printable idBytes then batch_fail ''item ID is not printable ASCII''
            else if length body - off2 < 4 then batch_fail ''truncated item data length''
            else
              (let dataLength = be_get body off2 4; off3 = off2 + 4 in
               if length body - off3 < dataLength then batch_fail ''truncated item data''
               else decode_items body n (off3 + dataLength)
                      (items @ [\<lparr>ci_id = latin1 idBytes, ci_data = take dataLength (drop off3 body),
                                 ci_reclaimed = Some (flags AND CLAIM_ITEM_FLAG_RECLAIMED \<noteq> 0)\<rparr>])))))"

definition decodeBinaryClaim :: "bytes \<Rightarrow> claimed_item list result" where
  "decodeBinaryClaim body =
     (if length body < 3 then batch_fail ''truncated header''
      else if unat (body ! 0) \<noteq> CLAIM_BATCH_VERSION then batch_fail ''unknown batch version''
      else (case decode_items body (be_get body 1 2) 3 [] of
          Inl e \<Rightarrow> Inl e
        | Inr (off, items) \<Rightarrow> if off \<noteq> length body then batch_fail ''bytes after the last item'' else Inr items))"

definition encode_item :: "claimed_item \<Rightarrow> bytes" where
  "encode_item item =
     (if ci_reclaimed item = Some True then CLAIM_ITEM_FLAG_RECLAIMED else 0)
     # be_bytes 2 (length (ci_id item)) @ char_codes (ci_id item) @ be_bytes 4 (length (ci_data item)) @ ci_data item"

definition encodeBinaryClaim :: "claimed_item list \<Rightarrow> bytes" where
  "encodeBinaryClaim items =
     word_of_nat CLAIM_BATCH_VERSION # be_bytes 2 (length items) @ concat (map encode_item items)"

subsection \<open>base64\<close>

definition BASE64_ALPHABET :: string where
  "BASE64_ALPHABET = ''ABCDEFGHIJKLMNOPQRSTUVWXYZabcdefghijklmnopqrstuvwxyz0123456789+/''"

definition ends_with :: "string \<Rightarrow> string \<Rightarrow> bool" where
  "ends_with suf s = (drop (length s - length suf) s = suf)"

text \<open>The inner loop over the four characters of a group.\<close>

fun base64_word :: "nat \<Rightarrow> bool \<Rightarrow> nat \<Rightarrow> string \<Rightarrow> int \<Rightarrow> int option" where
  "base64_word padding final j [] w = Some w"
| "base64_word padding final j (c # cs) w =
     (if c = CHR ''='' \<and> final \<and> j \<ge> 4 - padding then base64_word padding final (j + 1) cs (push_bit 6 w)
      else (case indexOf c BASE64_ALPHABET of
          None \<Rightarrow> None
        | Some v \<Rightarrow> base64_word padding final (j + 1) cs (push_bit 6 w OR int v)))"

function base64_bytes :: "nat \<Rightarrow> string \<Rightarrow> bytes option" where
  "base64_bytes padding s =
     (if s = [] then Some []
      else (case base64_word padding (length s \<le> 4) 0 (take 4 s) 0 of
          None \<Rightarrow> None
        | Some w \<Rightarrow>
            map_option (\<lambda>bs. map (\<lambda>shift. word_of_int (drop_bit shift w AND 0xff)) [16, 8, 0] @ bs)
              (base64_bytes padding (drop 4 s))))"
  by pat_completeness auto
termination
  by (relation "measure (\<lambda>(_, s). length s)") auto

declare base64_bytes.simps [simp del]

text \<open>The array has \<open>length / 4 * 3 - padding\<close> bytes; the bytes of the last group beyond it are not written.\<close>

definition decodeBase64 :: "string \<Rightarrow> bytes option" where
  "decodeBase64 s =
     (if length s mod 4 \<noteq> 0 then None
      else
        (let padding = (if ends_with ''=='' s then 2 else if ends_with ''='' s then 1 else 0) in
         map_option (take (length s div 4 * 3 - padding)) (base64_bytes padding s)))"

subsection \<open>Claims\<close>

definition CLAIM_BINARY_MEDIA_TYPE :: string where
  "CLAIM_BINARY_MEDIA_TYPE = ''application/vnd.nox.claim-batch''"

definition CLAIM_ACCEPT_BINARY :: string where
  "CLAIM_ACCEPT_BINARY = CLAIM_BINARY_MEDIA_TYPE @ '', application/json;q=0.5''"

definition CLAIM_VERSION_HEADER :: string where
  "CLAIM_VERSION_HEADER = ''x-nox-claim-version''"

definition CLAIM_WAIT_MAX_HEADER :: string where
  "CLAIM_WAIT_MAX_HEADER = ''x-nox-claim-wait-max-ms''"

datatype claim_format = FmtBinary | FmtBase64 | FmtJson | FmtEmpty

record claim_result =
  cr_items :: "claimed_item list"
  cr_format :: claim_format
  cr_bytes :: nat
  cr_v2 :: "bool option"
  cr_waitMaxMs :: "int option"

record claim_options =
  co_binary :: "bool option"
  co_retain :: "bool option"
  co_ack :: "string list option"
  co_waitMs :: "int option"

text \<open>The JSON body of the claim and its \<open>Accept\<close> header.\<close>

record claim_body =
  cb_surb_ids :: "string list"
  cb_encoding :: "string option"
  cb_retain :: bool
  cb_ack :: "string list"
  cb_wait_ms :: "int option"
  cb_accept :: "string option"

definition or_default :: "'a \<Rightarrow> 'a option \<Rightarrow> 'a" where
  "or_default d x = (case x of None \<Rightarrow> d | Some y \<Rightarrow> y)"

definition claim_body_of :: "string list \<Rightarrow> claim_options \<Rightarrow> claim_body" where
  "claim_body_of surbIds options =
     (let ack = or_default [] (co_ack options); bin = (co_binary options = Some True);
          retain = (co_retain options = Some True);
          wait = (if retain then or_default 0 (co_waitMs options) else 0) in
      \<lparr>cb_surb_ids = surbIds, cb_encoding = (if bin then Some ''binary'' else None), cb_retain = retain, cb_ack = ack,
       cb_wait_ms = (if wait > 0 then Some wait else None), cb_accept = (if bin then Some CLAIM_ACCEPT_BINARY else None)\<rparr>)"

text \<open>\<open>Number.parseInt(s, 10)\<close>; \<open>None\<close> is \<open>NaN\<close>.\<close>

definition js_parseInt :: "string \<Rightarrow> int option" where
  "js_parseInt s =
     (let t = dropWhile js_space s;
          neg = (take 1 t = ''-'');
          u = (if neg \<or> take 1 t = ''+'' then drop 1 t else t);
          ds = takeWhile is_digit u in
      if ds = [] then None else Some (if neg then - int (nat_of_digits ds 0) else int (nat_of_digits ds 0)))"

definition to_uint8 :: "(json \<Rightarrow> byte) \<Rightarrow> json \<Rightarrow> byte" where
  "to_uint8 to_number v =
     (case v of JsInt n \<Rightarrow> word_of_int n | JsBool b \<Rightarrow> (if b then 1 else 0) | JsNull \<Rightarrow> 0 | JsUndef \<Rightarrow> 0 | _ \<Rightarrow> to_number v)"

text \<open>One item of \<open>parseResponseItems\<close>: the identifier and the elements of \<open>data\<close>.\<close>

definition parse_response_item :: "json \<Rightarrow> (string \<times> json list) result" where
  "parse_response_item item =
     (case (item, json_field item ''id'', json_field item ''data'') of
        (JsObj _, JsStr i, JsArr d) \<Rightarrow> Inr (i, d)
      | _ \<Rightarrow> throw TransportFailed ''Response item missing required fields'')"

fun parseResponseItems :: "json list \<Rightarrow> (string \<times> json list) list result" where
  "parseResponseItems [] = Inr []"
| "parseResponseItems (i # is) = rbind (parse_response_item i) (\<lambda>x. rbind (parseResponseItems is) (\<lambda>xs. Inr (x # xs)))"

fun json_claim_items :: "(json \<Rightarrow> byte) \<Rightarrow> json list \<Rightarrow> (claimed_item list \<times> bool) result" where
  "json_claim_items to_number [] = Inr ([], False)"
| "json_claim_items to_number (item # rest) =
     (case (item, json_field item ''id'', json_field item ''data_b64'') of
        (JsObj _, JsStr i, JsStr d) \<Rightarrow>
          (case decodeBase64 d of
             None \<Rightarrow> throw TransportFailed ''Response item has invalid data_b64''
           | Some dat \<Rightarrow>
               rbind (json_claim_items to_number rest) (\<lambda>(xs, _).
                 Inr (\<lparr>ci_id = i, ci_data = dat, ci_reclaimed = Some (json_field item ''reclaimed'' = JsBool True)\<rparr> # xs, True)))
      | _ \<Rightarrow>
          rbind (parse_response_item item) (\<lambda>(i, d).
          rbind (json_claim_items to_number rest) (\<lambda>(xs, b).
            Inr (\<lparr>ci_id = i, ci_data = map (to_uint8 to_number) d, ci_reclaimed = None\<rparr> # xs, b))))"

definition decodeJsonClaim :: "(bytes \<Rightarrow> json option) \<Rightarrow> (json \<Rightarrow> byte) \<Rightarrow> bytes \<Rightarrow> (claimed_item list \<times> bool) result" where
  "decodeJsonClaim parse_json to_number body =
     (case parse_json body of
        None \<Rightarrow> throw TransportFailed ''Response claim returned invalid JSON''
      | Some (JsArr items) \<Rightarrow> json_claim_items to_number items
      | Some _ \<Rightarrow> throw TransportFailed ''Response claim expected JSON array'')"

definition claimReplies ::
  "(bytes \<Rightarrow> json option) \<Rightarrow> (json \<Rightarrow> byte) \<Rightarrow> (string \<Rightarrow> claim_body \<Rightarrow> entry_reply) \<Rightarrow> string \<Rightarrow> string list \<Rightarrow> claim_options
     \<Rightarrow> claim_result result" where
  "claimReplies parse_json to_number fetch entryUrl surbIds options =
     (if surbIds = [] \<and> or_default [] (co_ack options) = []
      then Inr \<lparr>cr_items = [], cr_format = FmtEmpty, cr_bytes = 0, cr_v2 = None, cr_waitMaxMs = None\<rparr>
      else (case fetch (strip_slash entryUrl @ ''/api/v1/responses/claim'') (claim_body_of surbIds options) of
          FetchFailed \<Rightarrow> throw TransportFailed ''Response claim failed''
        | EntryReply ok status hdr body \<Rightarrow>
            if \<not> ok \<and> status \<noteq> 204 then throw TransportFailed ''Response claim returned an HTTP error''
            else
              (let waitMaxMs = (case js_parseInt (or_default [] (hdr CLAIM_WAIT_MAX_HEADER)) of
                       Some n \<Rightarrow> if isSafeInteger n \<and> n \<ge> 0 then Some n else None | None \<Rightarrow> None);
                   versionV2 = map_option (\<lambda>v. js_trim v = ''2'') (hdr CLAIM_VERSION_HEADER) in
               if status = 204
               then Inr \<lparr>cr_items = [], cr_format = FmtEmpty, cr_bytes = 0, cr_v2 = versionV2, cr_waitMaxMs = waitMaxMs\<rparr>
               else (case body of
                   None \<Rightarrow> throw TransportFailed ''Response claim body could not be read''
                 | Some raw \<Rightarrow>
                     (let mediaType = toLowerCase (js_trim (hd (js_split '';'' (or_default [] (hdr ''content-type''))))) in
                      if mediaType = CLAIM_BINARY_MEDIA_TYPE then
                        rbind (decodeBinaryClaim raw) (\<lambda>items.
                          Inr \<lparr>cr_items = items, cr_format = FmtBinary, cr_bytes = length raw, cr_v2 = Some True,
                               cr_waitMaxMs = waitMaxMs\<rparr>)
                      else
                        rbind (decodeJsonClaim parse_json to_number raw) (\<lambda>(items, base64).
                          Inr \<lparr>cr_items = items, cr_format = (if base64 then FmtBase64 else FmtJson),
                               cr_bytes = length raw,
                               cr_v2 = (case versionV2 of Some v \<Rightarrow> Some v | None \<Rightarrow> Some base64),
                               cr_waitMaxMs = waitMaxMs\<rparr>))))))"

text \<open>\<open>claimResponses\<close>: a version 1 claim, and \<open>pollResponses\<close>: every pending reply.\<close>

definition claimResponses ::
  "(bytes \<Rightarrow> json option) \<Rightarrow> (json \<Rightarrow> byte) \<Rightarrow> (string \<Rightarrow> claim_body \<Rightarrow> entry_reply) \<Rightarrow> string \<Rightarrow> string list
     \<Rightarrow> (string \<times> bytes) list result" where
  "claimResponses parse_json to_number fetch entryUrl surbIds =
     rbind (claimReplies parse_json to_number fetch entryUrl surbIds
         \<lparr>co_binary = None, co_retain = None, co_ack = None, co_waitMs = None\<rparr>) (\<lambda>outcome.
       Inr (map (\<lambda>item. (ci_id item, ci_data item)) (cr_items outcome)))"

definition pollResponses ::
  "(bytes \<Rightarrow> json option) \<Rightarrow> (string \<Rightarrow> entry_reply) \<Rightarrow> string \<Rightarrow> (string \<times> json list) list result" where
  "pollResponses parse_json fetch entryUrl =
     (case fetch (strip_slash entryUrl @ ''/api/v1/responses/pending'') of
        FetchFailed \<Rightarrow> throw TransportFailed ''Response poll failed''
      | EntryReply ok status _ body \<Rightarrow>
          if \<not> ok then throw TransportFailed ''Response poll returned an HTTP error''
          else if status = 204 then Inr []
          else (case Option.bind body parse_json of
              None \<Rightarrow> throw TransportFailed ''Response poll returned invalid JSON''
            | Some (JsArr items) \<Rightarrow> parseResponseItems items
            | Some _ \<Rightarrow> throw TransportFailed ''Response poll expected JSON array''))"

subsection \<open>Big-endian integers\<close>

lemma be_bytes_length [simp]: "length (be_bytes n v) = n"
  by (induction n) auto

lemma be_value_bytes: "v < 256 ^ n \<Longrightarrow> be_value (be_bytes n v) = v"
proof -
  have "be_value (be_bytes n v) = v mod 256 ^ n" for v
  proof (induction n)
    case (Suc n)
    have "unat (word_of_nat (v div 256 ^ n mod 256) :: byte) = v div 256 ^ n mod 256"
      by (simp add: unat_of_nat)
    then show ?case using Suc mod_mult2_eq[of v "256 ^ n" 256] by (simp add: mult.commute)
  qed (simp add: mod_eq_0_iff_dvd)
  then show "v < 256 ^ n \<Longrightarrow> be_value (be_bytes n v) = v" by simp
qed

lemma be_get_bytes: "v < 256 ^ n \<Longrightarrow> be_get (pre @ be_bytes n v @ rest) (length pre) n = v"
  by (simp add: be_get_def be_value_bytes)

lemma be_value_bound: "be_value bs < 256 ^ length bs"
proof (induction bs)
  case (Cons b bs)
  have "unat b * 256 ^ length bs + be_value bs < (unat b + 1) * 256 ^ length bs" using Cons by simp
  also have "\<dots> \<le> 256 * 256 ^ length bs" using unat_byte_less[of b] by (intro mult_right_mono) linarith+
  finally show ?case by simp
qed simp

lemma be_get_bound: "be_get body off n < 256 ^ n"
  using order.strict_trans2[OF be_value_bound power_increasing[of _ n 256]] by (simp add: be_get_def)

subsection \<open>The batch round trip\<close>

definition claim_item_ok :: "claimed_item \<Rightarrow> bool" where
  "claim_item_ok it = (ci_id it \<noteq> [] \<and> length (ci_id it) < 256 ^ 2 \<and> list_all printable (char_codes (ci_id it))
     \<and> length (ci_data it) < 256 ^ 4)"

definition decoded_item :: "claimed_item \<Rightarrow> claimed_item" where
  "decoded_item it = it\<lparr>ci_reclaimed := Some (ci_reclaimed it = Some True)\<rparr>"

lemma encode_item_length: "length (encode_item it) = 7 + length (ci_id it) + length (ci_data it)"
  by (simp add: encode_item_def)

lemma decode_items_step:
  assumes ok: "claim_item_ok it"
  shows "decode_items (pre @ encode_item it @ rest) (Suc n) (length pre) acc =
     decode_items (pre @ encode_item it @ rest) n (length pre + length (encode_item it)) (acc @ [decoded_item it])"
proof -
  define f :: byte where "f = (if ci_reclaimed it = Some True then CLAIM_ITEM_FLAG_RECLAIMED else 0)"
  define i where "i = char_codes (ci_id it)"
  define d where "d = ci_data it"
  have len: "length i < 256 ^ 2" "length d < 256 ^ 4" "i \<noteq> []" "list_all printable i"
    using ok by (auto simp: claim_item_ok_def i_def d_def char_codes_def)
  let ?b = "pre @ encode_item it @ rest"
  have b: "?b = pre @ f # be_bytes 2 (length i) @ i @ be_bytes 4 (length d) @ d @ rest"
    by (simp add: encode_item_def f_def i_def d_def)
  have g1: "be_get ?b (length pre + 1) 2 = length i"
    using be_get_bytes[OF len(1), of "pre @ [f]"] unfolding b by simp
  have g2: "be_get ?b (length pre + 3 + length i) 4 = length d"
    using be_get_bytes[OF len(2), of "pre @ f # be_bytes 2 (length i) @ i" "d @ rest"] unfolding b
    by (simp add: add.commute[of 3] add.commute[of "length i"] numeral_3_eq_3)
  have t1: "take (length i) (drop (length pre + 3) ?b) = i" unfolding b by simp
  have t2: "take (length d) (drop (length pre + 3 + length i + 4) ?b) = d"
  proof -
    have "?b = (pre @ f # be_bytes 2 (length i) @ i @ be_bytes 4 (length d)) @ d @ rest" unfolding b by simp
    moreover have "length (pre @ f # be_bytes 2 (length i) @ i @ be_bytes 4 (length d)) = length pre + 3 + length i + 4" by simp
    ultimately show ?thesis by (metis append_eq_conv_conj)
  qed
  have h: "?b ! length pre = f" unfolding b by (simp add: nth_append)
  have fl: "(f AND CLAIM_ITEM_FLAG_RECLAIMED \<noteq> 0) = (ci_reclaimed it = Some True)"
    by (simp add: f_def CLAIM_ITEM_FLAG_RECLAIMED_def)
  have item: "\<lparr>ci_id = latin1 i, ci_data = d, ci_reclaimed = Some (ci_reclaimed it = Some True)\<rparr> = decoded_item it"
    by (simp add: decoded_item_def i_def d_def)
  have l: "length ?b = length pre + 7 + length i + length d + length rest" unfolding b by simp
  have e: "length (encode_item it) = 7 + length i + length d"
    by (simp add: encode_item_length i_def d_def)
  show ?thesis
    unfolding decode_items.simps Let_def g1 g2 t1 t2 h fl item using len l by (simp add: e ac_simps)
qed

lemma decode_items_encoded:
  "list_all claim_item_ok items \<Longrightarrow>
     decode_items (pre @ concat (map encode_item items) @ rest) (length items) (length pre) acc
       = Inr (length pre + length (concat (map encode_item items)), acc @ map decoded_item items)"
proof (induction items arbitrary: pre acc)
  case (Cons it items)
  have "decode_items (pre @ encode_item it @ (concat (map encode_item items) @ rest)) (Suc (length items)) (length pre) acc
      = decode_items ((pre @ encode_item it) @ concat (map encode_item items) @ rest) (length items)
          (length (pre @ encode_item it)) (acc @ [decoded_item it])"
    using Cons.prems by (subst decode_items_step) simp_all
  then show ?case
    using Cons.IH[of "pre @ encode_item it" "acc @ [decoded_item it]"] Cons.prems by (simp del: decode_items.simps)
qed simp

lemma decode_items_sound:
  "decode_items body n off acc = Inr (off', items) \<Longrightarrow> off \<le> length body \<Longrightarrow>
     \<exists>new. items = acc @ new \<and> list_all claim_item_ok new \<and> length new = n
       \<and> off' = off + length (concat (map encode_item new)) \<and> off' \<le> length body"
proof (induction body n off acc rule: decode_items.induct)
  case (2 body n off acc)
  define idl where "idl = be_get body (off + 1) 2"
  define dl where "dl = be_get body (off + 3 + idl) 4"
  define i where "i = take idl (drop (off + 3) body)"
  define it where "it = \<lparr>ci_id = latin1 i, ci_data = take dl (drop (off + 3 + idl + 4) body),
     ci_reclaimed = Some (body ! off AND CLAIM_ITEM_FLAG_RECLAIMED \<noteq> 0)\<rparr>"
  have c: "\<not> length body - off < 3" "idl \<noteq> 0" "\<not> length body - (off + 3) < idl" "list_all printable i"
      "\<not> length body - (off + 3 + idl) < 4" "\<not> length body - (off + 3 + idl + 4) < dl"
    and r: "decode_items body n (off + 3 + idl + 4 + dl) (acc @ [it]) = Inr (off', items)"
    using 2(2) by (auto simp: Let_def idl_def dl_def i_def it_def split: if_splits)
  have "length body \<ge> off + 3 + idl + 4 + dl" using c 2(3) by linarith
  moreover from this have l: "length i = idl" "length (ci_data it) = dl" by (simp_all add: i_def it_def)
  ultimately obtain new where new: "items = (acc @ [it]) @ new" "list_all claim_item_ok new" "length new = n"
      "off' = off + 3 + idl + 4 + dl + length (concat (map encode_item new))" "off' \<le> length body"
    using 2(1)[OF c(1) refl refl refl, folded idl_def, OF c(2,3) refl refl, folded i_def, OF _ c(5) refl refl,
        folded dl_def, OF _ c(6), folded it_def] c(4) r by blast
  have "latin1 i \<noteq> []" using c(2) l(1) by (auto simp: latin1_def)
  then have "claim_item_ok it"
    using c l be_get_bound[of body "off + 1" 2] be_get_bound[of body "off + 3 + idl" 4]
    by (auto simp: claim_item_ok_def it_def idl_def dl_def)
  moreover have "length (encode_item it) = 7 + idl + dl" using l by (simp add: encode_item_length it_def)
  ultimately show ?case using new by (intro exI[of _ "it # new"]) auto
qed simp

text \<open>
  C21. The binary claim batch. Encoding any batch of fewer than 65,536 items, whose identifiers are non-empty printable
  text below 65,536 characters and whose data is shorter than 2^32 bytes, and decoding it returns the same items in order, the
  reclaimed flag made explicit. Conversely an accepted body holds only such items, has exactly the length of their
  encoding (no byte is left over or read twice), and every refusal is a transport error.
\<close>

theorem claim_batch_round_trip:
  "(list_all claim_item_ok items \<and> length items < 256 ^ 2 \<longrightarrow>
      decodeBinaryClaim (encodeBinaryClaim items) = Inr (map decoded_item items))
   \<and> (decodeBinaryClaim body = Inr items' \<longrightarrow>
      list_all claim_item_ok items' \<and> length (encodeBinaryClaim items') = length body)
   \<and> (decodeBinaryClaim body = Inl e \<longrightarrow> (\<exists>d. e = NoxClientError TransportFailed d))"
proof (intro conjI impI)
  assume "list_all claim_item_ok items \<and> length items < 256 ^ 2"
  then have ok: "list_all claim_item_ok items" "length items < 256 ^ 2" by auto
  let ?h = "word_of_nat CLAIM_BATCH_VERSION # be_bytes 2 (length items)"
  have b: "encodeBinaryClaim items = ?h @ concat (map encode_item items)" by (simp add: encodeBinaryClaim_def)
  have "be_get (encodeBinaryClaim items) 1 2 = length items"
    using be_get_bytes[OF ok(2), of "[word_of_nat CLAIM_BATCH_VERSION]"] by (simp add: b)
  moreover have "decode_items (encodeBinaryClaim items) (length items) 3 []
      = Inr (length (encodeBinaryClaim items), map decoded_item items)"
    using decode_items_encoded[OF ok(1), of ?h "[]" "[]"] by (simp add: b)
  ultimately show "decodeBinaryClaim (encodeBinaryClaim items) = Inr (map decoded_item items)"
    by (simp add: decodeBinaryClaim_def b CLAIM_BATCH_VERSION_def)
next
  assume d: "decodeBinaryClaim body = Inr items'"
  then have "3 \<le> length body" "decode_items body (be_get body 1 2) 3 [] = Inr (length body, items')"
    by (auto simp: decodeBinaryClaim_def split: if_splits sum.splits)
  from decode_items_sound[OF this(2,1)]
  show "list_all claim_item_ok items'" "length (encodeBinaryClaim items') = length body"
    by (auto simp: encodeBinaryClaim_def)
next
  have "decode_items body n off acc = Inl e \<Longrightarrow> \<exists>d. e = NoxClientError TransportFailed d" for n off acc
    by (induction body n off acc rule: decode_items.induct) (auto simp: Let_def split: if_splits)
  moreover assume "decodeBinaryClaim body = Inl e"
  ultimately show "\<exists>d. e = NoxClientError TransportFailed d"
    by (auto simp: decodeBinaryClaim_def split: if_splits sum.splits)
qed

theorem claim_batch_round_trip_witness:
  "decodeBinaryClaim (encodeBinaryClaim [\<lparr>ci_id = ''r-1'', ci_data = [7, 8], ci_reclaimed = None\<rparr>])
     = Inr [\<lparr>ci_id = ''r-1'', ci_data = [7, 8], ci_reclaimed = Some False\<rparr>]
   \<and> decodeBinaryClaim [1, 0, 1, 0, 0] = throw TransportFailed ''truncated item flags and ID length''"
proof
  have "claim_item_ok \<lparr>ci_id = ''r-1'', ci_data = [7, 8], ci_reclaimed = None\<rparr>"
    by (simp add: claim_item_ok_def printable_def char_codes_def)
  then show "decodeBinaryClaim (encodeBinaryClaim [\<lparr>ci_id = ''r-1'', ci_data = [7, 8], ci_reclaimed = None\<rparr>])
     = Inr [\<lparr>ci_id = ''r-1'', ci_data = [7, 8], ci_reclaimed = Some False\<rparr>]"
    using claim_batch_round_trip[of "[\<lparr>ci_id = ''r-1'', ci_data = [7, 8], ci_reclaimed = None\<rparr>]"]
    by (simp add: decoded_item_def)
qed code_simp

subsection \<open>The base64 round trip\<close>

text \<open>The encoder of RFC 4648, section 4.\<close>

definition base64_char :: "int \<Rightarrow> char" where
  "base64_char v = BASE64_ALPHABET ! nat v"

fun encodeBase64 :: "bytes \<Rightarrow> string" where
  "encodeBase64 [] = []"
| "encodeBase64 [a] = [base64_char (uint a div 4), base64_char (uint a mod 4 * 16), CHR ''='', CHR ''='']"
| "encodeBase64 [a, b] =
     [base64_char (uint a div 4), base64_char (uint a mod 4 * 16 + uint b div 16), base64_char (uint b mod 16 * 4), CHR ''='']"
| "encodeBase64 (a # b # c # bs) =
     base64_char (uint a div 4) # base64_char (uint a mod 4 * 16 + uint b div 16)
     # base64_char (uint b mod 16 * 4 + uint c div 64) # base64_char (uint c mod 64) # encodeBase64 bs"

definition base64_pad :: "bytes \<Rightarrow> nat" where
  "base64_pad bs = (3 - length bs mod 3) mod 3"

lemma base64_chars: "0 \<le> v \<Longrightarrow> v < 64 \<Longrightarrow> indexOf (base64_char v) BASE64_ALPHABET = Some (nat v) \<and> base64_char v \<noteq> CHR ''=''"
proof -
  have "list_all (\<lambda>n. indexOf (BASE64_ALPHABET ! n) BASE64_ALPHABET = Some n \<and> BASE64_ALPHABET ! n \<noteq> CHR ''='') [0..<64]"
    by code_simp
  then have "\<forall>n < 64. indexOf (BASE64_ALPHABET ! n) BASE64_ALPHABET = Some n \<and> BASE64_ALPHABET ! n \<noteq> CHR ''=''"
    by (auto simp: list_all_iff)
  then show "0 \<le> v \<Longrightarrow> v < 64 \<Longrightarrow> ?thesis" by (simp add: base64_char_def)
qed

lemma push6_or:
  fixes w v :: int
  assumes "0 \<le> v" "v < 64"
  shows "push_bit 6 w OR v = 64 * w + v"
proof -
  have "push_bit 6 w OR v = push_bit 6 w + v"
  proof (rule disjunctive_add[symmetric])
    fix n
    have "take_bit 6 v = v" using assms by (simp add: take_bit_int_eq_self)
    then have "bit v n \<Longrightarrow> n < 6" by (metis bit_take_bit_iff)
    then show "\<not> bit (push_bit 6 w) n \<or> \<not> bit v n" by (auto simp: bit_push_bit_iff)
  qed
  then show ?thesis by (simp add: push_bit_eq_mult)
qed

lemma base64_word_char:
  "0 \<le> v \<Longrightarrow> v < 64 \<Longrightarrow> base64_word pad fin j (base64_char v # cs) w = base64_word pad fin (j + 1) cs (64 * w + v)"
  using base64_chars[of v] push6_or[of v w] by auto

lemma base64_word_pad:
  "j \<ge> 4 - pad \<Longrightarrow> base64_word pad True j (CHR ''='' # cs) w = base64_word pad True (j + 1) cs (64 * w)"
  by (simp add: push_bit_eq_mult mult.commute)

lemma uint_byte: "0 \<le> uint (b :: byte)" "uint (b :: byte) < 256"
  using uint_lt2p[of b] by simp_all

lemma divmod256: "0 \<le> y \<Longrightarrow> y < 256 \<Longrightarrow> (x * 256 + y) div 256 = x \<and> (x * 256 + y) mod 256 = (y :: int)"
  by (simp add: div_pos_pos_trivial mod_pos_pos_trivial)

lemma three_bytes:
  "map (\<lambda>shift. word_of_int (drop_bit shift (uint a * 65536 + uint b * 256 + uint c) AND 0xff)) [16, 8, 0] = [a, b, c :: byte]"
proof -
  note [simp] = uint_byte
  have "mask 8 = (0xff :: int)" by (simp add: mask_eq_exp_minus_1)
  then have m: "x AND 0xff = x mod 256" for x :: int
    using take_bit_eq_mask[of 8 x] by (simp add: take_bit_eq_mod)
  have l: "0 \<le> uint b * 256 + uint c" "uint b * 256 + uint c < 65536" using uint_byte[of b] uint_byte[of c] by linarith+
  have e: "uint a * 65536 + uint b * 256 + uint c = uint a * 65536 + (uint b * 256 + uint c)"
    "uint a * 65536 + uint b * 256 + uint c = (uint a * 256 + uint b) * 256 + uint c" by simp_all
  have q: "(uint a * 65536 + uint b * 256 + uint c) div 65536 = uint a" unfolding e(1) using l by (simp add: div_pos_pos_trivial)
  have r: "(uint a * 65536 + uint b * 256 + uint c) div 256 = uint a * 256 + uint b"
    "(uint a * 65536 + uint b * 256 + uint c) mod 256 = uint c"
    unfolding e(2) using uint_byte[of c] divmod256[of "uint c" "uint a * 256 + uint b"] by blast+
  moreover have "uint a mod 256 = uint a" "(uint a * 256 + uint b) mod 256 = uint b"
    by (simp_all add: mod_pos_pos_trivial)
  moreover note q
  ultimately show ?thesis by (simp add: m drop_bit_eq_div)
qed

lemma encodeBase64_length: "length (encodeBase64 bs) = 4 * ((length bs + 2) div 3)"
proof (induction bs rule: encodeBase64.induct)
  case (4 a b c bs)
  have "(length (a # b # c # bs) + 2) div 3 = Suc ((length bs + 2) div 3)" using div_add_self2[of 3 "length bs + 2"] by simp
  then show ?case using 4 by simp
qed auto

lemma sextets:
  fixes a b c :: byte
  shows "0 \<le> uint a div 4 \<and> uint a div 4 < 64"
    and "0 \<le> uint a mod 4 * 16 + uint b div 16 \<and> uint a mod 4 * 16 + uint b div 16 < 64"
    and "0 \<le> uint b mod 16 * 4 + uint c div 64 \<and> uint b mod 16 * 4 + uint c div 64 < 64"
    and "0 \<le> uint c mod 64 \<and> uint c mod 64 < 64"
    and "64 * (64 * (64 * (uint a div 4) + (uint a mod 4 * 16 + uint b div 16)) + (uint b mod 16 * 4 + uint c div 64)) + uint c mod 64
      = uint a * 65536 + uint b * 256 + uint c"
proof -
  define p where "p = uint a div 4"
  define q where "q = uint a mod 4"
  define r where "r = uint b div 16"
  define s where "s = uint b mod 16"
  define t where "t = uint c div 64"
  define u where "u = uint c mod 64"
  have e: "uint a = 4 * p + q" "uint b = 16 * r + s" "uint c = 64 * t + u"
    by (simp_all add: p_def q_def r_def s_def t_def u_def)
  have b: "0 \<le> q" "q < 4" "0 \<le> s" "s < 16" "0 \<le> u" "u < 64" by (simp_all add: q_def s_def u_def)
  note l = uint_byte[of a] uint_byte[of b] uint_byte[of c]
  show "0 \<le> uint a div 4 \<and> uint a div 4 < 64"
    "0 \<le> uint a mod 4 * 16 + uint b div 16 \<and> uint a mod 4 * 16 + uint b div 16 < 64"
    "0 \<le> uint b mod 16 * 4 + uint c div 64 \<and> uint b mod 16 * 4 + uint c div 64 < 64"
    "0 \<le> uint c mod 64 \<and> uint c mod 64 < 64"
    unfolding p_def[symmetric] q_def[symmetric] r_def[symmetric] s_def[symmetric] t_def[symmetric] u_def[symmetric]
    using l b unfolding e by linarith+
  show "64 * (64 * (64 * (uint a div 4) + (uint a mod 4 * 16 + uint b div 16)) + (uint b mod 16 * 4 + uint c div 64)) + uint c mod 64
      = uint a * 65536 + uint b * 256 + uint c"
    unfolding p_def[symmetric] q_def[symmetric] r_def[symmetric] s_def[symmetric] t_def[symmetric] u_def[symmetric]
    unfolding e by (simp add: algebra_simps)
qed

lemma pad_arith: "(l + 2) div 3 * 3 - (3 - l mod 3) mod 3 = (l :: nat)"
proof -
  define k where "k = l div 3"
  have l: "l = 3 * k + l mod 3" by (simp add: k_def)
  consider "l mod 3 = 0" | "l mod 3 = 1" | "l mod 3 = 2" by linarith
  then show ?thesis
  proof cases
    case 1
    then have "(l + 2) div 3 = k" using l by simp
    then show ?thesis using 1 l by simp
  next
    case 2
    then have "(l + 2) div 3 = k + 1" using l by simp
    then show ?thesis using 2 l by simp
  next
    case 3
    then have "(l + 2) div 3 = k + 1" using l by simp
    then show ?thesis using 3 l by simp
  qed
qed

lemma base64_bytes_encoded:
  "base64_bytes (base64_pad bs) (encodeBase64 bs) = Some (bs @ replicate (base64_pad bs) 0)"
proof (induction bs rule: encodeBase64.induct)
  case 1
  then show ?case by (simp add: base64_bytes.simps base64_pad_def)
next
  case (2 a)
  have "base64_word 2 True 0 (encodeBase64 [a]) 0 = Some (uint a * 65536 + uint (0 :: byte) * 256 + uint (0 :: byte))"
    using sextets(1)[of a] sextets(2)[of a 0] sextets(5)[of a 0 0]
    by (simp add: base64_word_char base64_word_pad del: base64_word.simps(2))
  then show ?case using three_bytes[of a 0 0]
    by (subst base64_bytes.simps) (simp add: base64_bytes.simps base64_pad_def numeral_2_eq_2)
next
  case (3 a b)
  have "base64_word 1 True 0 (encodeBase64 [a, b]) 0 = Some (uint a * 65536 + uint b * 256 + uint (0 :: byte))"
    using sextets(1)[of a] sextets(2)[of a b] sextets(3)[of b 0] sextets(5)[of a b 0]
    by (simp add: base64_word_char base64_word_pad del: base64_word.simps(2))
  then show ?case using three_bytes[of a b 0]
    by (subst base64_bytes.simps) (simp add: base64_bytes.simps base64_pad_def)
next
  case (4 a b c bs)
  have p: "base64_pad (a # b # c # bs) = base64_pad bs" by (simp add: base64_pad_def)
  have "base64_word pad fin 0 (take 4 (encodeBase64 (a # b # c # bs))) 0 = Some (uint a * 65536 + uint b * 256 + uint c)" for pad fin
    using sextets(1)[of a] sextets(2)[of a b] sextets(3)[of b c] sextets(4)[of c] sextets(5)[of a b c]
    by (simp add: base64_word_char del: base64_word.simps(2))
  then show ?case using three_bytes[of a b c] 4
    by (subst base64_bytes.simps) (simp add: p)
qed

lemma ends_with_tail: "length suf \<le> length s \<Longrightarrow> ends_with suf (x @ s) = ends_with suf s"
  by (simp add: ends_with_def)

lemma encodeBase64_padding:
  "(if ends_with ''=='' (encodeBase64 bs) then 2 else if ends_with ''='' (encodeBase64 bs) then 1 else 0) = base64_pad bs"
proof (induction bs rule: encodeBase64.induct)
  case (4 a b c bs)
  let ?q = "[base64_char (uint a div 4), base64_char (uint a mod 4 * 16 + uint b div 16),
     base64_char (uint b mod 16 * 4 + uint c div 64), base64_char (uint c mod 64)]"
  have e: "encodeBase64 (a # b # c # bs) = ?q @ encodeBase64 bs" by simp
  have p: "base64_pad (a # b # c # bs) = base64_pad bs" by (simp add: base64_pad_def)
  show ?case
  proof (cases "bs = []")
    case True
    have "base64_char (uint c mod 64) \<noteq> CHR ''=''" using base64_chars[of "uint c mod 64"] by simp
    then show ?thesis using True by (simp add: ends_with_def base64_pad_def)
  next
    case False
    then have "4 \<le> length (encodeBase64 bs)" by (cases bs) (simp_all add: encodeBase64_length)
    then have "ends_with ''=='' (?q @ encodeBase64 bs) = ends_with ''=='' (encodeBase64 bs)"
      "ends_with ''='' (?q @ encodeBase64 bs) = ends_with ''='' (encodeBase64 bs)"
      by (intro ends_with_tail; simp)+
    then show ?thesis unfolding e p by (simp only:) (rule 4)
  qed
next
  case (3 a b)
  have "base64_char (uint b mod 16 * 4) \<noteq> CHR ''=''" using base64_chars[of "uint b mod 16 * 4"] by simp
  then show ?case by (simp add: ends_with_def base64_pad_def)
qed (simp_all add: ends_with_def base64_pad_def)

text \<open>
  base64 claims. The decoder inverts the standard padded encoding on every byte sequence, and it accepts only texts
  of length divisible by four, giving at most three bytes per group.
\<close>

theorem decodeBase64_inverts:
  "decodeBase64 (encodeBase64 bs) = Some bs
   \<and> (decodeBase64 s = Some out \<longrightarrow> length s mod 4 = 0 \<and> length out \<le> length s div 4 * 3)"
proof
  have "length (encodeBase64 bs) div 4 * 3 - base64_pad bs = length bs"
    unfolding encodeBase64_length base64_pad_def using pad_arith[of "length bs"] by simp
  then show "decodeBase64 (encodeBase64 bs) = Some bs"
    unfolding decodeBase64_def Let_def encodeBase64_padding by (simp add: base64_bytes_encoded encodeBase64_length)
next
  show "decodeBase64 s = Some out \<longrightarrow> length s mod 4 = 0 \<and> length out \<le> length s div 4 * 3"
    by (auto simp: decodeBase64_def Let_def split: if_splits)
qed

theorem decodeBase64_inverts_witness:
  "decodeBase64 ''aGk='' = Some [104, 105] \<and> length ''aGk='' mod 4 = 0"
proof -
  have "encodeBase64 [104, 105] = ''aGk=''" by code_simp
  then show ?thesis using decodeBase64_inverts[of "[104, 105]" "''aGk=''" "[104, 105]"] by simp
qed

end
