(* ===== verification/Response_Socket.thy ===== *)
theory Response_Socket
  imports Claim_Transport Reply_Claims
begin

section \<open>The WebSocket that pushes replies\<close>

text \<open>
  \<open>ResponseWebSocket\<close> of \<open>packages/nox-client/src/transport.ts\<close> and the client's use of it (\<open>_wsSubscribe\<close>,
  \<open>_onWsResponse\<close> and the entry the claim scheduler leaves to it, in \<open>client.ts\<close>). The runtime's socket is its ready state; its
  events (open, drop, close, the reconnect timer) are operations that happen in any order its specification allows. An operation
  returns the new state and the messages sent.
\<close>

datatype ws_ready = WsConnecting | WsOpen | WsClosing | WsClosed

record response_socket =
  rs_ws :: "ws_ready option"
  rs_timer :: bool
  rs_closed :: bool
  rs_pending :: "string list"

datatype ws_message = WsSubscribe "string list" | WsUnsubscribe "string list"

text \<open>\<open>entryUrl.replace(/^http:/, "ws:")\<close> and the path.\<close>

definition replace_prefix :: "string \<Rightarrow> string \<Rightarrow> string \<Rightarrow> string" where
  "replace_prefix old new s = (if prefix old s then new @ drop (length old) s else s)"

definition toWsUrl :: "string \<Rightarrow> string" where
  "toWsUrl entryUrl =
     replace_prefix ''https:'' ''wss:'' (replace_prefix ''http:'' ''ws:'' (strip_slash entryUrl)) @ ''/api/v1/ws''"

text \<open>\<open>constructed\<close>: whether the WebSocket constructor returned rather than threw.\<close>

definition ws_connect :: "bool \<Rightarrow> response_socket \<Rightarrow> response_socket" where
  "ws_connect constructed s =
     (if rs_closed s then s else if \<not> constructed then s else s\<lparr>rs_ws := Some WsConnecting\<rparr>)"

definition new_response_socket :: "bool \<Rightarrow> response_socket" where
  "new_response_socket constructed =
     ws_connect constructed \<lparr>rs_ws = None, rs_timer = False, rs_closed = False, rs_pending = []\<rparr>"

definition ws_onopen :: "response_socket \<Rightarrow> response_socket \<times> ws_message list" where
  "ws_onopen s =
     (if rs_pending s \<noteq> [] then (s\<lparr>rs_pending := []\<rparr>, [WsSubscribe (rs_pending s)]) else (s, []))"

definition ws_onclose :: "response_socket \<Rightarrow> response_socket" where
  "ws_onclose s = (if \<not> rs_closed s then s\<lparr>rs_timer := True\<rparr> else s)"

definition ws_subscribe :: "string list \<Rightarrow> response_socket \<Rightarrow> response_socket \<times> ws_message list" where
  "ws_subscribe surbIds s =
     (if surbIds = [] then (s, [])
      else if rs_ws s \<noteq> Some WsOpen then (s\<lparr>rs_pending := rs_pending s @ surbIds\<rparr>, [])
      else (s, [WsSubscribe surbIds]))"

definition ws_unsubscribe :: "string list \<Rightarrow> response_socket \<Rightarrow> response_socket \<times> ws_message list" where
  "ws_unsubscribe surbIds s =
     (if rs_ws s \<noteq> Some WsOpen \<or> surbIds = [] then (s, []) else (s, [WsUnsubscribe surbIds]))"

definition ws_isConnected :: "response_socket \<Rightarrow> bool" where
  "ws_isConnected s = (rs_ws s = Some WsOpen)"

definition ws_close :: "response_socket \<Rightarrow> response_socket" where
  "ws_close s = s\<lparr>rs_ws := None, rs_timer := False, rs_closed := True\<rparr>"

text \<open>\<open>onmessage\<close>: the item a message delivers, if any; \<open>None\<close> from \<open>parse_json\<close> is a \<open>JSON.parse\<close> that throws.\<close>

definition ws_onmessage :: "(string \<Rightarrow> json option) \<Rightarrow> string \<Rightarrow> (string \<times> json list) option" where
  "ws_onmessage parse_json dat =
     (case parse_json dat of
        None \<Rightarrow> None
      | Some msg \<Rightarrow>
          (case (json_field msg ''type'', json_field msg ''id'', json_field msg ''data'') of
             (JsStr t, JsStr i, JsArr d) \<Rightarrow> if t = ''response'' then Some (i, d) else None
           | _ \<Rightarrow> None))"

subsection \<open>The socket's life\<close>

datatype ws_event =
    EvSubscribe "string list" | EvUnsubscribe "string list" | EvOpened | EvDropped | EvClosed | EvTimer bool | EvClose

fun ws_enabled :: "ws_event \<Rightarrow> response_socket \<Rightarrow> bool" where
  "ws_enabled EvOpened s = (rs_ws s = Some WsConnecting)"
| "ws_enabled EvDropped s = (rs_ws s = Some WsConnecting \<or> rs_ws s = Some WsOpen)"
| "ws_enabled EvClosed s = (rs_ws s = Some WsClosing)"
| "ws_enabled (EvTimer _) s = rs_timer s"
| "ws_enabled _ s = True"

fun ws_apply :: "ws_event \<Rightarrow> response_socket \<Rightarrow> response_socket \<times> ws_message list" where
  "ws_apply (EvSubscribe ids) s = ws_subscribe ids s"
| "ws_apply (EvUnsubscribe ids) s = ws_unsubscribe ids s"
| "ws_apply EvOpened s = ws_onopen (s\<lparr>rs_ws := Some WsOpen\<rparr>)"
| "ws_apply EvDropped s = (s\<lparr>rs_ws := Some WsClosing\<rparr>, [])"
| "ws_apply EvClosed s = (ws_onclose (s\<lparr>rs_ws := Some WsClosed\<rparr>), [])"
| "ws_apply (EvTimer constructed) s = (ws_connect constructed (s\<lparr>rs_timer := False\<rparr>), [])"
| "ws_apply EvClose s = (ws_close s, [])"

inductive ws_run :: "response_socket \<Rightarrow> ws_event list \<Rightarrow> ws_message list \<Rightarrow> response_socket \<Rightarrow> bool" where
  ws_start: "ws_run s [] [] s"
| ws_event: "ws_run s evs sent s1 \<Longrightarrow> ws_enabled ev s1 \<Longrightarrow> ws_apply ev s1 = (s2, out) \<Longrightarrow> ws_run s (evs @ [ev]) (sent @ out) s2"

inductive_cases ws_run_NilE: "ws_run s [] sent s'"

fun subscribed_in :: "ws_event list \<Rightarrow> string list" where
  "subscribed_in [] = []"
| "subscribed_in (EvSubscribe ids # evs) = ids @ subscribed_in evs"
| "subscribed_in (_ # evs) = subscribed_in evs"

fun sent_ids :: "ws_message list \<Rightarrow> string list" where
  "sent_ids [] = []"
| "sent_ids (WsSubscribe ids # ms) = ids @ sent_ids ms"
| "sent_ids (WsUnsubscribe _ # ms) = sent_ids ms"

lemma subscribed_in_append [simp]: "subscribed_in (xs @ ys) = subscribed_in xs @ subscribed_in ys"
  by (induction xs rule: subscribed_in.induct) auto

lemma sent_ids_append [simp]: "sent_ids (xs @ ys) = sent_ids xs @ sent_ids ys"
  by (induction xs rule: sent_ids.induct) auto

lemmas ws_defs = ws_connect_def ws_onopen_def ws_onclose_def ws_subscribe_def ws_unsubscribe_def ws_close_def

lemma ws_apply_order:
  assumes "ws_apply ev s = (s', out)" "rs_ws s = Some WsOpen \<longrightarrow> rs_pending s = []"
  shows "rs_pending s @ subscribed_in [ev] = sent_ids out @ rs_pending s' \<and> (rs_ws s' = Some WsOpen \<longrightarrow> rs_pending s' = [])"
  using assms by (cases ev) (auto simp: ws_defs split: if_splits)

lemma ws_run_order:
  assumes "ws_run s evs sent s'" "rs_ws s = Some WsOpen \<longrightarrow> rs_pending s = []"
  shows "rs_pending s @ subscribed_in evs = sent_ids sent @ rs_pending s' \<and> (rs_ws s' = Some WsOpen \<longrightarrow> rs_pending s' = [])"
  using assms
proof (induction rule: ws_run.induct)
  case (ws_event s evs sent s1 ev s2 out)
  then have IH: "rs_pending s @ subscribed_in evs = sent_ids sent @ rs_pending s1" "rs_ws s1 = Some WsOpen \<longrightarrow> rs_pending s1 = []"
    by auto
  have st: "rs_pending s1 @ subscribed_in [ev] = sent_ids out @ rs_pending s2" "rs_ws s2 = Some WsOpen \<longrightarrow> rs_pending s2 = []"
    using ws_apply_order[OF ws_event.hyps(3) IH(2)] by auto
  have "rs_pending s @ subscribed_in (evs @ [ev]) = (rs_pending s @ subscribed_in evs) @ subscribed_in [ev]" by simp
  also have "\<dots> = sent_ids sent @ (rs_pending s1 @ subscribed_in [ev])" unfolding IH(1) by simp
  also have "\<dots> = sent_ids (sent @ out) @ rs_pending s2" unfolding st(1) by simp
  finally show ?case using st(2) by blast
qed simp

subsection \<open>The client's side\<close>

text \<open>\<open>responseWs\<close>, \<open>_wsEntryUrl\<close> and \<open>subscribedSurbIds\<close> of the client.\<close>

record push_client =
  pc_socket :: "response_socket option"
  pc_entryUrl :: "string option"
  pc_subscribed :: "string list"

definition wsSubscribe :: "string list \<Rightarrow> push_client \<Rightarrow> push_client \<times> ws_message list" where
  "wsSubscribe surbIds c =
     (case pc_socket c of
        None \<Rightarrow> (c, [])
      | Some s \<Rightarrow>
          (let newIds = filter (\<lambda>i. i \<notin> set (pc_subscribed c)) surbIds in
           if newIds = [] then (c, [])
           else (let (s', out) = ws_subscribe newIds s in
             (c\<lparr>pc_subscribed := fold List.insert newIds (pc_subscribed c), pc_socket := Some s'\<rparr>, out))))"

text \<open>The entry whose replies the claim scheduler leaves to the socket.\<close>

definition skip_entry :: "push_client \<Rightarrow> string \<Rightarrow> bool" where
  "skip_entry c entryUrl = (pc_socket c \<noteq> None \<and> Some entryUrl = pc_entryUrl c)"

text \<open>\<open>parseSurbIdFromPacketId\<close>: the 32 hexadecimal digits after the last dash.\<close>

definition parseSurbIdFromPacketId :: "string \<Rightarrow> string option" where
  "parseSurbIdFromPacketId packetId =
     (if CHR ''-'' \<notin> set packetId then None
      else (let suf = after_last_dash packetId in if is_hex32 suf then Some suf else None))"

definition onWsResponse :: "string \<Rightarrow> push_client \<Rightarrow> push_client" where
  "onWsResponse packetId c =
     (case parseSurbIdFromPacketId packetId of
        None \<Rightarrow> c
      | Some i \<Rightarrow> c\<lparr>pc_subscribed := removeAll i (pc_subscribed c)\<rparr>)"

subsection \<open>Properties\<close>

lemma socket_order:
  assumes "ws_run (new_response_socket constructed) evs sent s"
  shows "subscribed_in evs = sent_ids sent @ rs_pending s" and "ws_isConnected s \<Longrightarrow> rs_pending s = []"
proof -
  have "rs_pending (new_response_socket constructed) = []" by (simp add: new_response_socket_def ws_connect_def)
  then show "subscribed_in evs = sent_ids sent @ rs_pending s" "ws_isConnected s \<Longrightarrow> rs_pending s = []"
    using ws_run_order[OF assms] by (auto simp: ws_isConnected_def)
qed

text \<open>
  Subscriptions are sent once, in order. Over any sequence of calls and socket events, reconnects included, the identifiers
  subscribed so far are exactly those sent on the socket followed by those still waiting, in the order they were given; when the
  socket is open none waits, and messages are sent only while it is open.
\<close>

theorem subscriptions_in_order:
  assumes "ws_run (new_response_socket constructed) evs sent s"
  shows "subscribed_in evs = sent_ids sent @ rs_pending s \<and> (ws_isConnected s \<longrightarrow> rs_pending s = [])
    \<and> (ws_apply ev s = (s', out) \<and> out \<noteq> [] \<longrightarrow> ws_isConnected s')"
proof (intro conjI impI)
  show "ws_apply ev s = (s', out) \<and> out \<noteq> [] \<Longrightarrow> ws_isConnected s'"
    by (cases ev) (auto simp: ws_defs ws_isConnected_def split: if_splits)
qed (use socket_order[OF assms] in auto)

text \<open>
  A reconnected socket has no subscriptions. Once the socket is open, everything sent later, whatever drops and
  reconnects follow, is only what is subscribed later: identifiers sent before a drop are not sent again. And when the WebSocket
  constructor throws at the first connect, no event of a socket or timer is ever possible: the object stays unconnected, while
  the claim scheduler still leaves the entry to it.
\<close>

theorem reconnect_drops_subscriptions:
  "(ws_run (new_response_socket constructed) evs0 sent0 s \<and> ws_isConnected s \<and> ws_run s evs sent s'
      \<longrightarrow> sent_ids sent @ rs_pending s' = subscribed_in evs)
   \<and> (ws_run (new_response_socket False) evs1 sent1 s1
      \<longrightarrow> rs_ws s1 = None \<and> \<not> rs_timer s1 \<and> sent1 = []
        \<and> skip_entry \<lparr>pc_socket = Some s1, pc_entryUrl = Some u, pc_subscribed = ids\<rparr> u)"
proof (intro conjI impI)
  assume a: "ws_run (new_response_socket constructed) evs0 sent0 s \<and> ws_isConnected s \<and> ws_run s evs sent s'"
  then have "rs_pending s = []" using socket_order(2) by blast
  then show "sent_ids sent @ rs_pending s' = subscribed_in evs" using ws_run_order[of s evs sent s'] a by simp
next
  have "ws_run s0 evs1 sent1 s1 \<Longrightarrow> s0 = new_response_socket False \<Longrightarrow> rs_ws s1 = None \<and> \<not> rs_timer s1 \<and> sent1 = []" for s0
  proof (induction rule: ws_run.induct)
    case (ws_event s evs sent s1 ev s2 out)
    then have "rs_ws s1 = None" "\<not> rs_timer s1" "sent = []" by auto
    then show ?case using ws_event.hyps(2,3) by (cases ev) (auto simp: ws_defs split: if_splits)
  qed (simp add: new_response_socket_def ws_connect_def)
  moreover assume "ws_run (new_response_socket False) evs1 sent1 s1"
  ultimately show "rs_ws s1 = None" "\<not> rs_timer s1" "sent1 = []" by blast+
qed (simp add: skip_entry_def)

lemma sample_socket_run:
  "ws_run (new_response_socket True) [EvSubscribe [''a''], EvOpened] [WsSubscribe [''a'']]
     \<lparr>rs_ws = Some WsOpen, rs_timer = False, rs_closed = False, rs_pending = []\<rparr>"
proof -
  have "ws_run (new_response_socket True) ([] @ [EvSubscribe [''a'']]) ([] @ [])
     \<lparr>rs_ws = Some WsConnecting, rs_timer = False, rs_closed = False, rs_pending = [''a'']\<rparr>"
    by (rule ws_event[OF ws_start]) (simp_all add: ws_defs new_response_socket_def)
  from ws_event[OF this, of EvOpened] show ?thesis by (simp add: ws_defs)
qed

lemma sample_socket_reconnect:
  "ws_run \<lparr>rs_ws = Some WsOpen, rs_timer = False, rs_closed = False, rs_pending = []\<rparr>
     [EvDropped, EvClosed, EvTimer True, EvOpened] [] \<lparr>rs_ws = Some WsOpen, rs_timer = False, rs_closed = False, rs_pending = []\<rparr>"
proof -
  let ?s = "\<lambda>w t. \<lparr>rs_ws = Some w, rs_timer = t, rs_closed = False, rs_pending = []\<rparr>"
  have "ws_run (?s WsOpen False) ([] @ [EvDropped]) ([] @ []) (?s WsClosing False)"
    by (rule ws_event[OF ws_start]) simp_all
  from ws_event[OF this, of EvClosed] have "ws_run (?s WsOpen False) [EvDropped, EvClosed] [] (?s WsClosed True)"
    by (simp add: ws_defs)
  from ws_event[OF this, of "EvTimer True"] have "ws_run (?s WsOpen False) [EvDropped, EvClosed, EvTimer True] [] (?s WsConnecting False)"
    by (simp add: ws_defs)
  from ws_event[OF this, of EvOpened] show ?thesis by (simp add: ws_defs)
qed

theorem subscriptions_in_order_witness:
  "subscribed_in [EvSubscribe [''a''], EvOpened] = sent_ids [WsSubscribe [''a'']] @ []"
  using subscriptions_in_order[OF sample_socket_run] by simp

theorem reconnect_drops_subscriptions_witness:
  "sent_ids [] @ [] = subscribed_in [EvDropped, EvClosed, EvTimer True, EvOpened]"
proof -
  have "sent_ids [] @ rs_pending \<lparr>rs_ws = Some WsOpen, rs_timer = False, rs_closed = False, rs_pending = []\<rparr>
      = subscribed_in [EvDropped, EvClosed, EvTimer True, EvOpened]"
    by (rule reconnect_drops_subscriptions[THEN conjunct1, rule_format])
      (use sample_socket_run sample_socket_reconnect in \<open>auto simp: ws_isConnected_def\<close>)
  then show ?thesis by simp
qed

end
