(* ===== verification/Client_Routes.thy ===== *)
theory Client_Routes
  imports Topology Surb_Pool Kps_Address "HOL-Library.Product_Lexorder"
begin

section \<open>Planning the routes of a request\<close>

text \<open>
  \<open>packages/nox-client/src/client.ts\<close>: the choice of an entry, of the reply block format and of the route of a request, of its resends
  and of a tunnel exchange (\<open>_planRoute\<close>, \<open>_planStrictV2\<close>, \<open>_planV2Retry\<close>, \<open>_planResend\<close>, \<open>_planTransportResend\<close>, \<open>_planTunnelRoute\<close>,
  \<open>_pickOtherEntry\<close>, \<open>_rankedOtherEntries\<close>, \<open>_leastBusyWarmEntry\<close>, \<open>_pickPaidExit\<close>), and the hops deprioritised after a timeout.
  What these methods read of the client is a \<open>client_view\<close>; what they ask the KPS transport (connected, cooling down, round trip) is
  part of it. Every call of \<open>selectRoute\<close> or of a random pick draws from its own source.
\<close>

datatype surb_format = FormatAuto | FormatV1 | FormatV2

datatype retry_mode = RetryNone | RetryRoute | RetryExit

record kps_link =
  kl_standby :: bool
  kl_spreadCalls :: bool
  kl_standbyEntry :: "string option"
  kl_connected :: "string \<Rightarrow> bool"
  kl_coolingDown :: "string \<Rightarrow> bool"
  kl_rttMs :: "string \<Rightarrow> int option"
  kl_dialMs :: "string \<Rightarrow> int option"

record client_view =
  cv_nodes :: "topology_node list"
  cv_entryUrl :: string
  cv_surbFormat :: surb_format
  cv_wasm :: "wasm_module option"
  cv_kps :: "kps_link option"
  cv_maxProbation :: "int option"
  cv_hasHttpEntry :: "topology_node \<Rightarrow> bool"
  cv_avoided :: "string list"
  cv_uploads :: "(string, int) jsmap"

record planned_route =
  pl_route :: route
  pl_version :: surb_version

definition run_catch :: "'a run \<Rightarrow> (nox_error \<Rightarrow> 'a run) \<Rightarrow> 'a run" where
  "run_catch m h = (case m of Some (Inl e) \<Rightarrow> h e | r \<Rightarrow> r)"

subsection \<open>Hops deprioritised after a timeout\<close>

definition ROUTE_AVOID_MS :: int where
  "ROUTE_AVOID_MS = 5 * 60000"

definition avoidedNodeIds :: "int \<Rightarrow> (string, int) jsmap \<Rightarrow> string list \<times> (string, int) jsmap" where
  "avoidedNodeIds now avoidUntil =
     (map fst (filter (\<lambda>(i, t). \<not> t \<le> now) avoidUntil), filter (\<lambda>(i, t). \<not> t \<le> now) avoidUntil)"

definition avoidRoute :: "int \<Rightarrow> route \<Rightarrow> (string, int) jsmap \<Rightarrow> (string, int) jsmap" where
  "avoidRoute now r avoidUntil =
     jsmap_set (node_id (rt_exit r)) (now + ROUTE_AVOID_MS) (jsmap_set (node_id (rt_mix r)) (now + ROUTE_AVOID_MS) avoidUntil)"

definition clearAvoided :: "route \<Rightarrow> (string, int) jsmap \<Rightarrow> (string, int) jsmap" where
  "clearAvoided r avoidUntil = jsmap_delete (node_id (rt_exit r)) (jsmap_delete (node_id (rt_mix r)) avoidUntil)"

subsection \<open>Entries\<close>

definition preferSettled :: "topology_node list \<Rightarrow> topology_node list" where
  "preferSettled candidates =
     (let settled = filter (\<lambda>n. \<not> probation n) candidates in if length settled > 0 then settled else candidates)"

definition isEntryCapable :: "topology_node \<Rightarrow> (topology_node \<Rightarrow> bool) \<Rightarrow> bool" where
  "isEntryCapable n isEntry = (0 \<in> set (layersForRole (node_role n)) \<and> isEntry n)"

definition isKpsEntryNode :: "topology_node \<Rightarrow> bool" where
  "isKpsEntryNode n = (kpsAddressOfEntry (node_address n) \<noteq> None)"

definition pickEntryUrl :: "(nat \<Rightarrow> nat) \<Rightarrow> topology_node list \<Rightarrow> (topology_node \<Rightarrow> bool) \<Rightarrow> string run" where
  "pickEntryUrl fill nodes isEntry =
     run_bind (pickRandom fill (preferSettled (filter (\<lambda>n. isEntryCapable n isEntry) nodes)))
       (\<lambda>x. case x of None \<Rightarrow> Some (throw NoNodesAvailable ''No layer-0 node has a usable entry endpoint'')
            | Some n \<Rightarrow> Some (Inr (node_address n)))"

definition entryRule :: "client_view \<Rightarrow> topology_node \<Rightarrow> bool" where
  "entryRule v = (if cv_kps v = None then cv_hasHttpEntry v else isKpsEntryNode)"

definition pinnedEntry :: "client_view \<Rightarrow> topology_node option" where
  "pinnedEntry v = List.find (\<lambda>n. node_address n = cv_entryUrl v) (cv_nodes v)"

definition address_or_empty :: "string \<Rightarrow> string" where
  "address_or_empty endpoint = (case kpsAddressOfEntry endpoint of None \<Rightarrow> [] | Some a \<Rightarrow> a)"

definition MAX_SAFE_INTEGER :: int where
  "MAX_SAFE_INTEGER = 2 ^ 53 - 1"

definition entry_score :: "kps_link \<Rightarrow> topology_node \<Rightarrow> int \<times> int \<times> int" where
  "entry_score k n =
     (let address = address_or_empty (node_address n) in
      (if kl_connected k address then 0 else if kl_coolingDown k address then 2 else 1,
       if probation n then 1 else 0,
       case kl_rttMs k address of Some t \<Rightarrow> t
       | None \<Rightarrow> (case kl_dialMs k address of Some t \<Rightarrow> t | None \<Rightarrow> MAX_SAFE_INTEGER)))"

definition rankedOtherEntries :: "client_view \<Rightarrow> topology_node list" where
  "rankedOtherEntries v =
     (let pinnedAddress = kpsAddressOfEntry (cv_entryUrl v);
          candidates = filter (\<lambda>n. isEntryCapable n (entryRule v) \<and> node_address n \<noteq> cv_entryUrl v) (cv_nodes v) in
      case cv_kps v of
        None \<Rightarrow> candidates
      | Some k \<Rightarrow> sort_key (entry_score k) (filter (\<lambda>n. kpsAddressOfEntry (node_address n) \<noteq> pinnedAddress) candidates))"

definition entry_tiers :: "client_view \<Rightarrow> topology_node list \<Rightarrow> topology_node list list" where
  "entry_tiers v candidates =
     (case cv_kps v of
        None \<Rightarrow> [candidates]
      | Some k \<Rightarrow>
          [filter (\<lambda>n. kl_connected k (address_or_empty (node_address n))) candidates,
           filter (\<lambda>n. \<not> kl_coolingDown k (address_or_empty (node_address n))) candidates,
           candidates])"

fun first_tier :: "topology_node list list \<Rightarrow> topology_node list" where
  "first_tier [] = []"
| "first_tier (t # ts) = (if length (preferSettled t) > 0 then preferSettled t else first_tier ts)"

definition standby_on :: "client_view \<Rightarrow> bool" where
  "standby_on v = (case cv_kps v of None \<Rightarrow> False | Some k \<Rightarrow> kl_standby k)"

definition pickOtherEntry :: "(nat \<Rightarrow> nat) \<Rightarrow> client_view \<Rightarrow> string list \<Rightarrow> topology_node run" where
  "pickOtherEntry fill v exclude =
     (let candidates = filter (\<lambda>n. node_id n \<notin> set exclude \<and> isEntryCapable n (entryRule v)) (cv_nodes v);
          fastest = (if standby_on v
            then List.find (\<lambda>n. node_id n \<notin> set exclude \<and> n \<in> set candidates) (rankedOtherEntries v) else None) in
      case fastest of
        Some n \<Rightarrow> Some (Inr n)
      | None \<Rightarrow>
          run_bind (pickRandom fill (first_tier (entry_tiers v candidates)))
            (\<lambda>x. case x of None \<Rightarrow> Some (throw NoNodesAvailable ''No other entry is available'') | Some n \<Rightarrow> Some (Inr n)))"

definition uploads_of :: "client_view \<Rightarrow> string \<Rightarrow> int" where
  "uploads_of v url = (case jsmap_get (cv_uploads v) url of None \<Rightarrow> 0 | Some n \<Rightarrow> n)"

definition leastBusyWarmEntry :: "client_view \<Rightarrow> string list \<Rightarrow> topology_node option" where
  "leastBusyWarmEntry v avoid =
     (let pinned = pinnedEntry v in
      case (cv_kps v, pinned) of
        (Some k, Some p) \<Rightarrow>
          (if \<not> kl_standby k \<or> \<not> kl_spreadCalls k then pinned
           else (case kl_standbyEntry k of
               None \<Rightarrow> pinned
             | Some standbyUrl \<Rightarrow>
                 if standbyUrl = node_address p then pinned
                 else (case (List.find (\<lambda>n. node_address n = standbyUrl) (cv_nodes v), kpsAddressOfEntry standbyUrl) of
                     (Some standby, Some standbyAddress) \<Rightarrow>
                       if node_id standby \<in> set avoid \<or> \<not> kl_connected k standbyAddress then pinned
                       else if uploads_of v standbyUrl < uploads_of v (node_address p) then Some standby else pinned
                   | _ \<Rightarrow> pinned)))
      | _ \<Rightarrow> pinned)"

subsection \<open>Exits for paid execution\<close>

definition PAID_V2_CAPABILITY :: string where
  "PAID_V2_CAPABILITY = ''paid_v2''"

definition has_capability :: "string \<Rightarrow> topology_node \<Rightarrow> bool" where
  "has_capability c n = (case node_capabilities n of None \<Rightarrow> False | Some cs \<Rightarrow> c \<in> set cs)"

definition is_exit_role :: "topology_node \<Rightarrow> bool" where
  "is_exit_role n = (node_role n = 2 \<or> node_role n = 3)"

definition paidCapableExits :: "client_view \<Rightarrow> topology_node list" where
  "paidCapableExits v =
     (let exits = filter is_exit_role (cv_nodes v) in
      if \<not> list_ex (\<lambda>n. node_capabilities n \<noteq> None) (cv_nodes v) then exits
      else filter (has_capability PAID_V2_CAPABILITY) exits)"

text \<open>The loop over the candidates; \<open>rnd k\<close> is the source of its k-th round.\<close>

function paid_exit_loop ::
  "(nat \<Rightarrow> nat \<Rightarrow> nat \<Rightarrow> nat) \<Rightarrow> client_view \<Rightarrow> bool \<Rightarrow> nat \<Rightarrow> topology_node list \<Rightarrow> nox_error option \<Rightarrow> topology_node run" where
  "paid_exit_loop rnd v settledFirst k pool lastError =
     (if pool = []
      then Some (Inl (case lastError of Some (NoxClientError c m) \<Rightarrow> NoxClientError c m
                      | _ \<Rightarrow> NoxClientError NoNodesAvailable ''No distinct exit node is available''))
      else (case pickRandom (rnd k 3) (if settledFirst then preferSettled pool else pool) of
          Some (Inr (Some candidate)) \<Rightarrow>
            (if candidate \<notin> set pool then None
             else (case selectRoute (rnd k) (cv_nodes v) (pinnedEntry v) (Some candidate) (Some (cv_avoided v)) (entryRule v)
                      (cv_maxProbation v) of
                 None \<Rightarrow> None
               | Some (Inr r) \<Rightarrow> Some (Inr (rt_exit r))
               | Some (Inl e) \<Rightarrow> paid_exit_loop rnd v settledFirst (k + 1) (remove1 candidate pool) (Some e)))
        | _ \<Rightarrow> None))"
  by pat_completeness auto
termination
proof (relation "measure (\<lambda>(_, _, _, _, pool, _). length pool)", goal_cases)
  case (2 rnd v settledFirst k pool lastError x2 x2a candidate)
  then have "candidate \<in> set pool" by simp
  then have "0 < length pool" by (rule length_pos_if_in_set)
  then show ?case using \<open>candidate \<in> set pool\<close> by (simp add: length_remove1)
qed simp

declare paid_exit_loop.simps [simp del]

definition pickPaidExit :: "(nat \<Rightarrow> nat \<Rightarrow> nat \<Rightarrow> nat) \<Rightarrow> client_view \<Rightarrow> string list \<Rightarrow> topology_node run" where
  "pickPaidExit rnd v exclude =
     (let capable = filter (\<lambda>n. node_id n \<notin> set exclude) (paidCapableExits v) in
      if length capable = 0
      then (if list_ex is_exit_role (cv_nodes v)
            then Some (throw PaidExitUnavailable ''No exit in the verified topology advertises paid execution support'')
            else Some (throw NoNodesAvailable ''No exit nodes available''))
      else
        (let preferred = filter (\<lambda>n. node_id n \<notin> set (cv_avoided v)) capable;
             pool = (if length preferred > 0 then preferred else capable);
             settledFirst = (case pinnedEntry v of None \<Rightarrow> False | Some p \<Rightarrow> probation p) in
         paid_exit_loop rnd v settledFirst 0 pool None))"

definition selectPaidExit :: "(nat \<Rightarrow> nat \<Rightarrow> nat \<Rightarrow> nat) \<Rightarrow> client_view \<Rightarrow> string list \<Rightarrow> topology_node run" where
  "selectPaidExit rnd v exclude =
     (let excluded = map toLowerCase exclude;
          ids = map node_id (filter (\<lambda>n. toLowerCase (node_id n) \<in> set excluded) (cv_nodes v)) in
      pickPaidExit rnd v ids)"

subsection \<open>Plans\<close>

definition fits_surb_v2 :: "topology_node \<Rightarrow> bool" where
  "fits_surb_v2 n = (supportsSurbV2 n \<and> length (text_encode (js_lit (routingAddress n))) \<le> MAX_SURB_V2_ADDRESS_BYTES)"

definition planStrictV2 ::
  "(nat \<Rightarrow> nat \<Rightarrow> nat) \<Rightarrow> client_view \<Rightarrow> topology_node option \<Rightarrow> string list \<Rightarrow> string option \<Rightarrow> planned_route run" where
  "planStrictV2 rnd v selectedExit avoid excludeEntryId =
     (if \<not> wasmSupportsSurbV2 (cv_wasm v)
      then Some (throw SurbV2Unavailable ''The loaded WASM module cannot build format v2 reply blocks'')
      else
        (let capable = filter (\<lambda>n. fits_surb_v2 n \<and> Some (node_id n) \<noteq> excludeEntryId) (cv_nodes v) in
         if (case selectedExit of None \<Rightarrow> False | Some x \<Rightarrow> \<not> list_ex (\<lambda>n. node_id n = node_id x) capable)
         then Some (throw SurbV2Unavailable ''The selected exit does not advertise format v2 reply support'')
         else
           (let entry = (case pinnedEntry v of
                  Some p \<Rightarrow> if list_ex (\<lambda>n. node_id n = node_id p) capable then Some p else None
                | None \<Rightarrow> None) in
            run_catch
              (run_bind (selectRoute rnd capable entry selectedExit (Some avoid) (entryRule v) (cv_maxProbation v))
                (\<lambda>r. Some (Inr \<lparr>pl_route = r, pl_version = V2\<rparr>)))
              (\<lambda>_. Some (throw SurbV2Unavailable ''No route on which every hop advertises format v2 reply support'')))))"

definition planRoute ::
  "(nat \<Rightarrow> nat \<Rightarrow> nat) \<Rightarrow> client_view \<Rightarrow> topology_node option \<Rightarrow> string list \<Rightarrow> topology_node option \<Rightarrow> planned_route run" where
  "planRoute rnd v selectedExit avoid entryOverride =
     (if cv_surbFormat v = FormatV2 then planStrictV2 rnd v selectedExit avoid None
      else
        run_bind (selectRoute rnd (cv_nodes v)
            (case entryOverride of Some e \<Rightarrow> Some e | None \<Rightarrow> leastBusyWarmEntry v avoid)
            selectedExit (Some avoid) (entryRule v) (cv_maxProbation v))
          (\<lambda>r. Some (Inr \<lparr>pl_route = r,
             pl_version = (if cv_surbFormat v = FormatAuto \<and> wasmSupportsSurbV2 (cv_wasm v) \<and> routeSupportsSurbV2 r
                           then V2 else V1)\<rparr>)))"

definition planV2Retry ::
  "(nat \<Rightarrow> nat \<Rightarrow> nat) \<Rightarrow> client_view \<Rightarrow> route \<Rightarrow> topology_node option \<Rightarrow> retry_mode \<Rightarrow> string list \<Rightarrow> planned_route run" where
  "planV2Retry rnd v failed selectedExit retry avoid =
     (if retry = RetryExit then
        (let candidates = filter (\<lambda>n. node_id n \<noteq> node_id (rt_exit failed) \<and> node_id n \<noteq> node_id (rt_entry failed)
                            \<and> supportsSurbV2 n) (paidCapableExits v) in
         run_bind (pickRandom (rnd 3) (if probation (rt_entry failed) then preferSettled candidates else candidates))
           (\<lambda>x. case x of
              None \<Rightarrow> Some (throw SurbV2Unavailable ''No other paid-capable exit advertises format v2 reply support'')
            | Some retryExit \<Rightarrow> planStrictV2 rnd v (Some retryExit) avoid (Some (node_id (rt_entry failed)))))
      else planStrictV2 rnd v selectedExit avoid (Some (node_id (rt_entry failed))))"

definition same_hops :: "route \<Rightarrow> route \<Rightarrow> bool" where
  "same_hops a b = (node_id (rt_entry a) = node_id (rt_entry b) \<and> node_id (rt_mix a) = node_id (rt_mix b)
     \<and> node_id (rt_exit a) = node_id (rt_exit b))"

definition planResend ::
  "(nat \<Rightarrow> nat \<Rightarrow> nat \<Rightarrow> nat) \<Rightarrow> client_view \<Rightarrow> planned_route \<Rightarrow> topology_node option \<Rightarrow> retry_mode \<Rightarrow> bool
     \<Rightarrow> planned_route option run" where
  "planResend rnd v failed selectedExit retry sameEntryFallback =
     (let fr = pl_route failed; avoid = [node_id (rt_mix fr), node_id (rt_exit fr)];
          attempt = (if pl_version failed = V2 then planV2Retry (rnd 0) v fr selectedExit retry avoid
             else run_bind (if retry = RetryExit then run_bind (pickPaidExit (\<lambda>k. rnd (k + 2)) v [node_id (rt_exit fr)]) (\<lambda>x. Some (Inr (Some x)))
                            else Some (Inr selectedExit))
                    (\<lambda>x. planRoute (rnd 0) v x avoid None)) in
      run_bind
        (run_catch (run_bind attempt (\<lambda>p. Some (Inr (Some p))))
          (\<lambda>_. if \<not> sameEntryFallback \<or> pl_version failed \<noteq> V2 then Some (Inr None)
               else run_catch (run_bind (planStrictV2 (rnd 1) v selectedExit avoid None) (\<lambda>p. Some (Inr (Some p))))
                      (\<lambda>_. Some (Inr None))))
        (\<lambda>next. case next of
           None \<Rightarrow> Some (Inr None)
         | Some p \<Rightarrow> Some (Inr (if same_hops (pl_route p) fr then None else Some p))))"

definition planRouteThroughOtherEntry ::
  "(nat \<Rightarrow> nat \<Rightarrow> nat) \<Rightarrow> client_view \<Rightarrow> planned_route \<Rightarrow> topology_node option \<Rightarrow> planned_route run" where
  "planRouteThroughOtherEntry rnd v failed selectedExit =
     (let avoid = cv_avoided v; entryId = node_id (rt_entry (pl_route failed)) in
      if pl_version failed = V2 then planStrictV2 rnd v selectedExit avoid (Some entryId)
      else run_bind (pickOtherEntry (rnd 3) v (entryId # (case selectedExit of None \<Rightarrow> [] | Some x \<Rightarrow> [node_id x])))
             (\<lambda>e. planRoute rnd v selectedExit avoid (Some e)))"

definition planTransportResend ::
  "(nat \<Rightarrow> nat \<Rightarrow> nat \<Rightarrow> nat) \<Rightarrow> client_view \<Rightarrow> planned_route \<Rightarrow> topology_node option \<Rightarrow> bool \<Rightarrow> planned_route option run" where
  "planTransportResend rnd v failed selectedExit sameEntryFallback =
     run_catch (run_bind (planRouteThroughOtherEntry (rnd 0) v failed selectedExit) (\<lambda>p. Some (Inr (Some p))))
       (\<lambda>_. if \<not> sameEntryFallback then Some (Inr None)
            else run_catch
              (run_bind (if pl_version failed = V2 then planStrictV2 (rnd 1) v selectedExit (cv_avoided v) None
                         else planRoute (rnd 1) v selectedExit (cv_avoided v) None)
                (\<lambda>p. Some (Inr (Some p))))
              (\<lambda>_. Some (Inr None)))"

definition planTunnelRoute ::
  "(nat \<Rightarrow> nat \<Rightarrow> nat \<Rightarrow> nat) \<Rightarrow> client_view \<Rightarrow> topology_node \<Rightarrow> string list \<Rightarrow> planned_route run" where
  "planTunnelRoute rnd v exit avoid =
     run_bind
       (case pinnedEntry v of
          None \<Rightarrow> Some (Inr None)
        | Some p \<Rightarrow>
            if node_id p = node_id exit \<or> node_id p \<in> set avoid
            then run_catch (run_bind (pickOtherEntry (rnd 0 3) v (node_id exit # avoid)) (\<lambda>e. Some (Inr (Some e))))
                   (\<lambda>error. if node_id p = node_id exit
                      then run_bind (pickOtherEntry (rnd 1 3) v [node_id exit]) (\<lambda>e. Some (Inr (Some e)))
                      else (case error of NoxClientError _ _ \<Rightarrow> Some (Inr None) | e \<Rightarrow> Some (Inl e)))
            else Some (Inr None))
       (\<lambda>entry. planRoute (rnd 2) v (Some exit) (cv_avoided v @ avoid) entry)"

subsection \<open>What a plan satisfies\<close>

text \<open>Every source is fair and there are at most 2^32 nodes.\<close>

definition fair_sources :: "(nat \<Rightarrow> nat \<Rightarrow> nat \<Rightarrow> nat) \<Rightarrow> bool" where
  "fair_sources rnd = (\<forall>k i. fair (rnd k i))"

definition v2_route :: "client_view \<Rightarrow> route \<Rightarrow> bool" where
  "v2_route v r = (fits_surb_v2 (rt_entry r) \<and> fits_surb_v2 (rt_mix r) \<and> fits_surb_v2 (rt_exit r) \<and> wasmSupportsSurbV2 (cv_wasm v))"

lemma run_catch_Inr: "run_catch m h = Some (Inr x) \<longleftrightarrow> m = Some (Inr x) \<or> (\<exists>e. m = Some (Inl e) \<and> h e = Some (Inr x))"
  by (auto simp: run_catch_def split: option.splits sum.splits)

lemma selectRoute_result:
  assumes "\<forall>i. fair (rnd i)" "few nodes" "selectRoute rnd nodes pe se avoid isEntry mx = Some (Inr r)"
  shows "possible_route isEntry nodes pe se r"
  using selectRoute_sound[of rnd nodes pe se avoid isEntry mx] assms by auto

lemma planStrictV2_result:
  assumes "\<forall>i. fair (rnd i)" "few (cv_nodes v)" "planStrictV2 rnd v selectedExit avoid excl = Some (Inr p)"
  shows "pl_version p = V2 \<and> v2_route v (pl_route p) \<and> possible_route (entryRule v) (cv_nodes v) None selectedExit (pl_route p)
    \<and> Some (node_id (rt_entry (pl_route p))) \<noteq> excl"
proof -
  let ?C = "filter (\<lambda>n. fits_surb_v2 n \<and> Some (node_id n) \<noteq> excl) (cv_nodes v)"
  obtain pe r where "selectRoute rnd ?C pe selectedExit (Some avoid) (entryRule v) (cv_maxProbation v) = Some (Inr r)"
      and p: "p = \<lparr>pl_route = r, pl_version = V2\<rparr>" and w: "wasmSupportsSurbV2 (cv_wasm v)"
    using assms(3) by (auto simp: planStrictV2_def Let_def run_catch_Inr run_bind_Inr_iff split: if_splits)
  from selectRoute_result[OF assms(1) few_filter[OF assms(2)] this(1)]
  show ?thesis using w by (auto simp: p possible_route_def v2_route_def split: option.splits)
qed

lemma planRoute_result:
  assumes "\<forall>i. fair (rnd i)" "few (cv_nodes v)" "planRoute rnd v selectedExit avoid ov = Some (Inr p)"
  shows "possible_route (entryRule v) (cv_nodes v) None selectedExit (pl_route p)"
proof (cases "cv_surbFormat v = FormatV2")
  case True
  then show ?thesis using planStrictV2_result[OF assms(1,2)] assms(3) by (auto simp: planRoute_def)
next
  case False
  then obtain pe where "selectRoute rnd (cv_nodes v) pe selectedExit (Some avoid) (entryRule v) (cv_maxProbation v) = Some (Inr (pl_route p))"
    using assms(3) by (auto simp: planRoute_def run_bind_Inr_iff)
  from selectRoute_result[OF assms(1,2) this] show ?thesis by (auto simp: possible_route_def split: option.splits)
qed

lemma planV2Retry_result:
  assumes "\<forall>i. fair (rnd i)" "few (cv_nodes v)" "planV2Retry rnd v failed selectedExit retry avoid = Some (Inr p)"
  shows "pl_version p = V2 \<and> v2_route v (pl_route p)
    \<and> node_id (rt_entry (pl_route p)) \<noteq> node_id (rt_entry failed)
    \<and> possible_route (entryRule v) (cv_nodes v) None (if retry = RetryExit then None else selectedExit) (pl_route p)
    \<and> (retry = RetryExit \<longrightarrow> node_id (rt_exit (pl_route p)) \<noteq> node_id (rt_exit failed))"
proof (cases "retry = RetryExit")
  case True
  let ?C = "filter (\<lambda>n. node_id n \<noteq> node_id (rt_exit failed) \<and> node_id n \<noteq> node_id (rt_entry failed)
     \<and> supportsSurbV2 n) (paidCapableExits v)"
  let ?P = "if probation (rt_entry failed) then preferSettled ?C else ?C"
  obtain x where x: "pickRandom (rnd 3) ?P = Some (Inr (Some x))"
      and s: "planStrictV2 rnd v (Some x) avoid (Some (node_id (rt_entry failed))) = Some (Inr p)"
    using assms(3) True by (auto simp: planV2Retry_def Let_def run_bind_Inr_iff split: option.splits)
  have sub: "set ?P \<subseteq> set ?C" by (auto simp: preferSettled_def Let_def)
  have "?P \<noteq> []" using x by (auto simp: pickRandom_def)
  moreover have "length ?P \<le> length (cv_nodes v)"
  proof -
    have "length (paidCapableExits v) \<le> length (cv_nodes v)"
      by (auto simp: paidCapableExits_def Let_def intro: order_trans[OF length_filter_le] length_filter_le)
    then have "length ?C \<le> length (cv_nodes v)" using length_filter_le order_trans by blast
    moreover have "length (preferSettled xs) \<le> length xs" for xs by (simp add: preferSettled_def Let_def)
    then have "length ?P \<le> length ?C" by simp
    ultimately show ?thesis by linarith
  qed
  ultimately obtain y where "y \<in> set ?P" "pickRandom (rnd 3) ?P = Some (Inr (Some y))"
    using pickRandom_fair[of "rnd 3" ?P] assms(1) few_le[OF assms(2)] by blast
  then have "x \<in> set ?C" using x sub by auto
  then show ?thesis using planStrictV2_result[OF assms(1,2) s] True by (auto simp: possible_route_def)
next
  case False
  then have "planStrictV2 rnd v selectedExit avoid (Some (node_id (rt_entry failed))) = Some (Inr p)"
    using assms(3) by (simp add: planV2Retry_def)
  from planStrictV2_result[OF assms(1,2) this] False show ?thesis by auto
qed

lemma planResend_result:
  assumes "fair_sources rnd" "few (cv_nodes v)"
    and "planResend rnd v failed selectedExit retry fallback = Some (Inr (Some p))"
  shows "\<not> same_hops (pl_route p) (pl_route failed)
    \<and> possible_route (entryRule v) (cv_nodes v) None None (pl_route p)
    \<and> (retry \<noteq> RetryExit \<longrightarrow> possible_route (entryRule v) (cv_nodes v) None selectedExit (pl_route p))
    \<and> (pl_version failed = V2 \<longrightarrow> pl_version p = V2 \<and> v2_route v (pl_route p)
        \<and> (\<not> fallback \<longrightarrow> node_id (rt_entry (pl_route p)) \<noteq> node_id (rt_entry (pl_route failed))))"
proof -
  have f: "\<forall>i. fair (rnd k i)" for k using assms(1) by (simp add: fair_sources_def)
  let ?fr = "pl_route failed" and ?avoid = "[node_id (rt_mix (pl_route failed)), node_id (rt_exit (pl_route failed))]"
  have weaken: "possible_route (entryRule v) (cv_nodes v) None None r" if "possible_route (entryRule v) (cv_nodes v) None s r" for s r
    using that by (auto simp: possible_route_def)
  have d: "\<not> same_hops (pl_route p) ?fr"
    using assms(3) by (auto simp: planResend_def Let_def run_bind_Inr_iff split: option.splits if_splits)
  consider (v2) "pl_version failed = V2" "planV2Retry (rnd 0) v ?fr selectedExit retry ?avoid = Some (Inr p)"
    | (v1) x where "pl_version failed \<noteq> V2" "planRoute (rnd 0) v x ?avoid None = Some (Inr p)" "retry \<noteq> RetryExit \<longrightarrow> x = selectedExit"
    | (same) "pl_version failed = V2" "fallback" "planStrictV2 (rnd 1) v selectedExit ?avoid None = Some (Inr p)"
    using assms(3)
    by (auto simp: planResend_def Let_def run_bind_Inr_iff run_catch_Inr split: option.splits if_splits)
  then show ?thesis
  proof cases
    case v2
    then show ?thesis using planV2Retry_result[OF f assms(2) v2(2)] d weaken by (auto split: if_splits)
  next
    case v1
    then show ?thesis using planRoute_result[OF f assms(2) v1(2)] d weaken by auto
  next
    case same
    then show ?thesis using planStrictV2_result[OF f assms(2) same(3)] d weaken by auto
  qed
qed

lemma planResend_v2:
  "fair_sources rnd \<Longrightarrow> few (cv_nodes v) \<Longrightarrow> pl_version failed = V2 \<Longrightarrow>
     planResend rnd v failed selectedExit retry fallback = Some (Inr (Some q)) \<Longrightarrow> pl_version q = V2"
  using planResend_result[of rnd v failed selectedExit retry fallback q] by blast

text \<open>
  C20. A resend is planned on a different route and never downgrades the reply blocks. Whatever the client's state and for fair
  random sources: when the copy that failed used version 2 reply blocks, the plan of its resend uses version 2 blocks over hops
  that all advertise them, on a WASM module that can build them, through another entry unless the same-entry fallback is on.
  The planned route consists of three members with different identifiers, differs from the failed one in some hop, and keeps the
  exit the caller selected unless the retry mode asks for another exit.
\<close>

theorem resend_never_downgrades:
  assumes "fair_sources rnd" "few (cv_nodes v)"
    and "planResend rnd v failed selectedExit retry fallback = Some (Inr (Some p))"
  shows "\<not> same_hops (pl_route p) (pl_route failed)
    \<and> possible_route (entryRule v) (cv_nodes v) None None (pl_route p)
    \<and> (retry \<noteq> RetryExit \<longrightarrow> possible_route (entryRule v) (cv_nodes v) None selectedExit (pl_route p))
    \<and> (pl_version failed = V2 \<longrightarrow> pl_version p = V2 \<and> v2_route v (pl_route p)
        \<and> (\<not> fallback \<longrightarrow> node_id (rt_entry (pl_route p)) \<noteq> node_id (rt_entry (pl_route failed))))"
  by (rule planResend_result[OF assms])

definition sample_v2_node :: "string \<Rightarrow> int \<Rightarrow> topology_node" where
  "sample_v2_node i role = \<lparr>node_id = i, node_address = i, routingAddress = [], publicKey = [], node_layer = 0,
     node_role = role, node_capabilities = Some [SURB_V2_CAPABILITY], probation = False\<rparr>"

definition sample_view :: client_view where
  "sample_view = \<lparr>cv_nodes = [sample_v2_node ''a'' 1, sample_v2_node ''b'' 1, sample_v2_node ''c'' 1, sample_v2_node ''d'' 3,
       sample_v2_node ''e'' 3],
     cv_entryUrl = ''a'', cv_surbFormat = FormatAuto,
     cv_wasm = Some \<lparr>wasm_create_surb = (\<lambda>_ _ _. throw WasmNotInitialized []),
       wasm_create_surb_v2 = Some (\<lambda>_ _. throw WasmNotInitialized [])\<rparr>,
     cv_kps = None, cv_maxProbation = None, cv_hasHttpEntry = (\<lambda>_. True), cv_avoided = [], cv_uploads = []\<rparr>"

definition sample_planned :: planned_route where
  "sample_planned = \<lparr>pl_route = \<lparr>rt_entry = sample_v2_node ''a'' 1, rt_mix = sample_v2_node ''b'' 1, rt_exit = sample_v2_node ''d'' 3\<rparr>,
     pl_version = V2\<rparr>"

lemma sample_resend: "\<exists>p. planResend (\<lambda>_ _ _. 0) sample_view sample_planned None RetryRoute False = Some (Inr (Some p))"
proof -
  let ?cap = "filter (\<lambda>n. fits_surb_v2 n \<and> Some (node_id n) \<noteq> Some ''a'') (cv_nodes sample_view)"
  have fits: "list_all fits_surb_v2 (cv_nodes sample_view)"
    by (simp add: fits_surb_v2_def sample_view_def sample_v2_node_def supportsSurbV2_def js_lit_def text_encode_def)
  then have cap: "?cap = [sample_v2_node ''b'' 1, sample_v2_node ''c'' 1, sample_v2_node ''d'' 3, sample_v2_node ''e'' 3]"
    by (simp add: sample_view_def) (simp add: sample_v2_node_def)
  have rule: "entryRule sample_view = (\<lambda>_. True)" by (simp add: entryRule_def sample_view_def)
  have "possible_route (\<lambda>_. True) ?cap None None
      \<lparr>rt_entry = sample_v2_node ''b'' 1, rt_mix = sample_v2_node ''c'' 1, rt_exit = sample_v2_node ''e'' 3\<rparr>"
    unfolding cap by (simp add: possible_route_def) (simp add: sample_v2_node_def)
  moreover have "fair (\<lambda>_. 0)" by (auto simp: fair_def)
  moreover have "few ?cap" unfolding cap by (simp add: few_def)
  ultimately obtain r where r: "selectRoute (\<lambda>_ _. 0) ?cap None None (Some [''b'', ''d'']) (\<lambda>_. True) None = Some (Inr r)"
      "possible_route (\<lambda>_. True) ?cap None None r"
    using selectRoute_sound[of "\<lambda>_ _. 0" ?cap None None "Some [''b'', ''d'']" "\<lambda>_. True" None]
      selectRoute_complete[of "\<lambda>_ _. 0" ?cap "\<lambda>_. True" None None _ None "Some [''b'', ''d'']"] pin_refused_no_exit by blast
  have pin: "pinnedEntry sample_view = Some (sample_v2_node ''a'' 1)"
    by (simp add: pinnedEntry_def sample_view_def sample_v2_node_def)
  have notin: "\<not> list_ex (\<lambda>n. node_id n = node_id (sample_v2_node ''a'' 1)) ?cap"
    unfolding cap by (simp add: sample_v2_node_def)
  have flags: "wasmSupportsSurbV2 (cv_wasm sample_view)" "cv_maxProbation sample_view = None"
    by (simp_all add: sample_view_def wasmSupportsSurbV2_def)
  have "planStrictV2 (\<lambda>_ _. 0) sample_view None [''b'', ''d''] (Some ''a'') = Some (Inr \<lparr>pl_route = r, pl_version = V2\<rparr>)"
    unfolding planStrictV2_def Let_def using r(1) pin notin flags rule by (simp add: run_catch_def)
  moreover have "\<not> same_hops r (pl_route sample_planned)"
    using r(2) unfolding cap by (auto simp: possible_route_def same_hops_def sample_planned_def sample_v2_node_def)
  ultimately have "planResend (\<lambda>_ _ _. 0) sample_view sample_planned None RetryRoute False
      = Some (Inr (Some \<lparr>pl_route = r, pl_version = V2\<rparr>))"
    by (simp add: planResend_def planV2Retry_def Let_def sample_planned_def sample_v2_node_def run_catch_def)
  then show ?thesis by blast
qed

theorem resend_never_downgrades_witness:
  "\<exists>p. planResend (\<lambda>_ _ _. 0) sample_view sample_planned None RetryRoute False = Some (Inr (Some p))
     \<and> pl_version p = V2 \<and> \<not> same_hops (pl_route p) (pl_route sample_planned)"
proof -
  obtain p where p: "planResend (\<lambda>_ _ _. 0) sample_view sample_planned None RetryRoute False = Some (Inr (Some p))"
    using sample_resend by blast
  have "fair_sources (\<lambda>_ _ _. 0)" by (auto simp: fair_sources_def fair_def)
  moreover have "few (cv_nodes sample_view)" by (simp add: few_def sample_view_def)
  ultimately show ?thesis using resend_never_downgrades[OF _ _ p] p by (auto simp: sample_planned_def)
qed

end
