(* ===== verification/Client_Send.thy ===== *)
theory Client_Send
  imports Client_Routes Resend
begin

section \<open>One call: its copies, resends and hedges\<close>

text \<open>
  \<open>_sendWithRetry\<close> of \<open>packages/nox-client/src/client.ts\<close>: one wallet call, the copies of its request in flight, and the handlers that
  end a copy, presume its reply lost, or hedge it. Each handler of the code is a function on the call's state; the callbacks run one
  at a time, in any order (\<open>send_run\<close>). What a handler asks of the rest of the client when it runs is its \<open>send_env\<close>: the
  plan for a resend (see \<open>Client_Routes\<close>), whether the caller has aborted, the time, the entry to switch to.
\<close>

datatype kps_phase = PhaseDial | PhaseOpen | PhaseWrite | PhaseRead | PhaseParse

text \<open>A thrown error, the failure phase recorded on it, and its cause; \<open>kpsFailurePhase\<close> of \<open>kps/transport.ts\<close>.\<close>

datatype failure = Failure nox_error "kps_phase option" "failure option"

fun phase_within :: "nat \<Rightarrow> failure \<Rightarrow> kps_phase option" where
  "phase_within 0 _ = None"
| "phase_within (Suc depth) (Failure _ phase cause) =
     (case phase of
        Some p \<Rightarrow> Some p
      | None \<Rightarrow> (case cause of None \<Rightarrow> None | Some f \<Rightarrow> phase_within depth f))"

definition kpsFailurePhase :: "failure \<Rightarrow> kps_phase option" where
  "kpsFailurePhase error = phase_within 4 error"

fun has_code :: "nox_error_code \<Rightarrow> failure \<Rightarrow> bool" where
  "has_code c (Failure (NoxClientError d _) _ _) = (d = c)"
| "has_code c _ = False"

definition isTransportFailure :: "failure \<Rightarrow> bool" where
  "isTransportFailure error = has_code TransportFailed error"

definition isResponseTimeout :: "failure \<Rightarrow> bool" where
  "isResponseTimeout error = has_code ResponseTimeout error"

record resend_policy =
  rp_hedgeAfterMs :: int
  rp_hedgeAdaptive :: bool
  rp_maxHedgesInFlight :: int
  rp_transportResends :: int
  rp_resendOnLostReply :: bool
  rp_sameEntryFallback :: bool

definition as_resend_policy :: "settings_map \<Rightarrow> resend_policy" where
  "as_resend_policy m =
     \<lparr>rp_hedgeAfterMs = num_setting m ''hedgeAfterMs'', rp_hedgeAdaptive = bool_setting m ''hedgeAdaptive'',
      rp_maxHedgesInFlight = num_setting m ''maxHedgesInFlight'', rp_transportResends = num_setting m ''transportResends'',
      rp_resendOnLostReply = bool_setting m ''resendOnLostReply'', rp_sameEntryFallback = bool_setting m ''sameEntryFallback''\<rparr>"

text \<open>What is fixed for one call.\<close>

record send_call =
  sc_retry :: retry_mode
  sc_policy :: resend_policy
  sc_retryOnTimeout :: bool
  sc_kps :: bool
  sc_attemptTimeoutMs :: int

text \<open>How a copy ended; \<open>live\<close> in the code is \<open>None\<close> here.\<close>

datatype ending = AnsweredWith bytes | FailedWith failure

record attempt =
  at_planned :: planned_route
  at_startedAt :: int
  at_hedge :: bool
  at_aborted :: bool
  at_end :: "ending option"

datatype settlement = Resolved bytes topology_node | Rejected failure

text \<open>The part of the client that a call's handlers change.\<close>

record route_memory =
  rm_avoidUntil :: "(string, int) jsmap"
  rm_latency :: latency_tracker
  rm_entryUrl :: string
  rm_entryFailures :: int
  rm_hedgesInFlight :: int

record send_state =
  ss_attempts :: "attempt list"
  ss_settled :: "settlement option"
  ss_routeResendUsed :: bool
  ss_transportLeft :: int
  ss_hedgeTimer :: "int option"
  ss_memory :: route_memory

record send_env =
  se_now :: int
  se_callerAborted :: bool
  se_planResend :: "planned_route \<Rightarrow> planned_route option"
  se_planTransportResend :: "planned_route \<Rightarrow> planned_route option"
  se_otherEntry :: "topology_node option"

abbreviation live :: "attempt \<Rightarrow> bool" where
  "live a \<equiv> at_end a = None"

definition anyLive :: "send_state \<Rightarrow> bool" where
  "anyLive s = list_ex live (ss_attempts s)"

definition add_hedges :: "int \<Rightarrow> send_state \<Rightarrow> send_state" where
  "add_hedges k s = s\<lparr>ss_memory := (ss_memory s)\<lparr>rm_hedgesInFlight := max 0 (rm_hedgesInFlight (ss_memory s) + k)\<rparr>\<rparr>"

definition finish :: "settlement \<Rightarrow> send_state \<Rightarrow> send_state" where
  "finish outcome s =
     (if ss_settled s \<noteq> None then s
      else s\<lparr>ss_settled := Some outcome, ss_hedgeTimer := None,
             ss_attempts := map (\<lambda>a. if live a then a\<lparr>at_aborted := True\<rparr> else a) (ss_attempts s)\<rparr>)"

definition failIfIdle :: "failure \<Rightarrow> send_state \<Rightarrow> send_state" where
  "failIfIdle error s = (if \<not> anyLive s then finish (Rejected error) s else s)"

definition end_attempt :: "nat \<Rightarrow> ending \<Rightarrow> send_state \<Rightarrow> send_state" where
  "end_attempt i how s =
     (let a = ss_attempts s ! i in
      if \<not> live a then s
      else (let s1 = s\<lparr>ss_attempts := (ss_attempts s)[i := a\<lparr>at_end := Some how\<rparr>]\<rparr> in
        if at_hedge a then add_hedges (-1) s1 else s1))"

definition launch :: "send_env \<Rightarrow> planned_route \<Rightarrow> bool \<Rightarrow> send_state \<Rightarrow> send_state" where
  "launch env planned hedge s =
     (let s1 = s\<lparr>ss_attempts := ss_attempts s @
            [\<lparr>at_planned = planned, at_startedAt = se_now env, at_hedge = hedge, at_aborted = False, at_end = None\<rparr>]\<rparr> in
      if hedge then add_hedges 1 s1 else s1)"

subsection \<open>What the handlers note about routes and entries\<close>

definition noteEntrySuccess :: "send_call \<Rightarrow> topology_node \<Rightarrow> route_memory \<Rightarrow> route_memory" where
  "noteEntrySuccess c entry m =
     (if sc_kps c \<and> node_address entry = rm_entryUrl m then m\<lparr>rm_entryFailures := 0\<rparr> else m)"

definition KPS_ENTRY_SWITCH_AFTER_FAILURES :: int where
  "KPS_ENTRY_SWITCH_AFTER_FAILURES = 2"

definition switchPinnedEntry :: "send_env \<Rightarrow> route_memory \<Rightarrow> route_memory" where
  "switchPinnedEntry env m =
     (case se_otherEntry env of
        None \<Rightarrow> m
      | Some next \<Rightarrow> m\<lparr>rm_entryUrl := node_address next, rm_entryFailures := 0\<rparr>)"

definition noteEntryTransportFailure :: "send_call \<Rightarrow> send_env \<Rightarrow> topology_node \<Rightarrow> route_memory \<Rightarrow> route_memory" where
  "noteEntryTransportFailure c env entry m =
     (if \<not> sc_kps c \<or> node_address entry \<noteq> rm_entryUrl m then m
      else (let m1 = m\<lparr>rm_entryFailures := rm_entryFailures m + 1\<rparr> in
        if rm_entryFailures m1 \<ge> KPS_ENTRY_SWITCH_AFTER_FAILURES then switchPinnedEntry env m1 else m1))"

abbreviation on_memory :: "(route_memory \<Rightarrow> route_memory) \<Rightarrow> send_state \<Rightarrow> send_state" where
  "on_memory f s \<equiv> s\<lparr>ss_memory := f (ss_memory s)\<rparr>"

subsection \<open>The handlers\<close>

definition onSuccess :: "send_call \<Rightarrow> send_env \<Rightarrow> nat \<Rightarrow> bytes \<Rightarrow> send_state \<Rightarrow> send_state" where
  "onSuccess c env i response s =
     (let a = ss_attempts s ! i; r = pl_route (at_planned a); s1 = end_attempt i (AnsweredWith response) s in
      if ss_settled s1 \<noteq> None then s1
      else finish (Resolved response (rt_exit r))
        (on_memory (\<lambda>m. (noteEntrySuccess c (rt_entry r) (m\<lparr>rm_avoidUntil := clearAvoided r (rm_avoidUntil m)\<rparr>))
             \<lparr>rm_latency := record_latency (Some (se_now env - at_startedAt a)) (rm_latency m)\<rparr>) s1))"

definition takeTransportResend :: "send_state \<Rightarrow> send_state option" where
  "takeTransportResend s =
     (if ss_transportLeft s > 0 then Some (s\<lparr>ss_transportLeft := ss_transportLeft s - 1\<rparr>)
      else if \<not> ss_routeResendUsed s then Some (s\<lparr>ss_routeResendUsed := True\<rparr>)
      else None)"

definition notSent :: "failure \<Rightarrow> bool" where
  "notSent error = (kpsFailurePhase error = Some PhaseDial \<or> kpsFailurePhase error = Some PhaseOpen)"

definition onFailure :: "send_call \<Rightarrow> send_env \<Rightarrow> nat \<Rightarrow> failure \<Rightarrow> send_state \<Rightarrow> send_state" where
  "onFailure c env i error s =
     (let planned = at_planned (ss_attempts s ! i); s1 = end_attempt i (FailedWith error) s in
      if ss_settled s1 \<noteq> None then s1
      else if sc_kps c \<and> isTransportFailure error then
        (let s2 = on_memory (noteEntryTransportFailure c env (rt_entry (pl_route planned))) s1 in
         if se_callerAborted env then failIfIdle error s2
         else if notSent error \<or> sc_retry c \<noteq> RetryNone then
           (case (se_planTransportResend env planned, takeTransportResend s2) of
              (Some next, Some s3) \<Rightarrow> launch env next False s3
            | _ \<Rightarrow> failIfIdle error s2)
         else failIfIdle error s2)
      else if isResponseTimeout error then
        (if \<not> sc_retryOnTimeout c then failIfIdle error s1
         else
           (let s2 = on_memory (\<lambda>m. m\<lparr>rm_avoidUntil := avoidRoute (se_now env) (pl_route planned) (rm_avoidUntil m)\<rparr>) s1 in
            if sc_retry c \<noteq> RetryNone \<and> \<not> ss_routeResendUsed s2 then
              (case se_planResend env planned of
                 Some next \<Rightarrow> launch env next False (s2\<lparr>ss_routeResendUsed := True\<rparr>)
               | None \<Rightarrow> failIfIdle error s2)
            else failIfIdle error s2))
      else finish (Rejected error) s1)"

definition onLost :: "send_call \<Rightarrow> send_env \<Rightarrow> nat \<Rightarrow> send_state \<Rightarrow> send_state" where
  "onLost c env i s =
     (let a = ss_attempts s ! i in
      if ss_settled s \<noteq> None \<or> \<not> live a \<or> \<not> rp_resendOnLostReply (sc_policy c) then s
      else if sc_retry c = RetryNone \<or> ss_routeResendUsed s \<or> \<not> sc_retryOnTimeout c then s
      else (case se_planResend env (at_planned a) of
          None \<Rightarrow> s
        | Some next \<Rightarrow> launch env next False (s\<lparr>ss_routeResendUsed := True\<rparr>)))"

definition hedge_fires :: "send_call \<Rightarrow> send_env \<Rightarrow> send_state \<Rightarrow> send_state" where
  "hedge_fires c env s0 =
     (let s = s0\<lparr>ss_hedgeTimer := None\<rparr> in
      if ss_settled s \<noteq> None \<or> ss_routeResendUsed s \<or> \<not> anyLive s then s
      else if rm_hedgesInFlight (ss_memory s) \<ge> rp_maxHedgesInFlight (sc_policy c) then s
      else (case List.find live (ss_attempts s) of
          None \<Rightarrow> s
        | Some a \<Rightarrow> (case se_planResend env (at_planned a) of
              None \<Rightarrow> s
            | Some next \<Rightarrow> launch env next True (s\<lparr>ss_routeResendUsed := True\<rparr>))))"

definition send_start :: "send_call \<Rightarrow> send_env \<Rightarrow> planned_route \<Rightarrow> route_memory \<Rightarrow> send_state" where
  "send_start c env first m =
     (let p = sc_policy c;
          s = launch env first False \<lparr>ss_attempts = [], ss_settled = None, ss_routeResendUsed = False,
                ss_transportLeft = rp_transportResends p, ss_hedgeTimer = None, ss_memory = m\<rparr> in
      if rp_hedgeAfterMs p > 0 \<and> sc_retry c = RetryRoute \<and> sc_retryOnTimeout c
      then s\<lparr>ss_hedgeTimer := Some (hedgeDelay (rp_hedgeAfterMs p) (rp_hedgeAdaptive p) (sc_attemptTimeoutMs c) (rm_latency m))\<rparr>
      else s)"

subsection \<open>A call's events\<close>

text \<open>
  A copy answers or fails once, while it is live; the claim scheduler may presume its reply lost at any time; the hedge timer fires
  once if it is armed; between the handlers, other calls change the client's memory.
\<close>

datatype send_event =
    EvAnswered nat bytes | EvFailed nat failure | EvLost nat | EvHedge | EvOthers route_memory

fun send_enabled :: "send_event \<Rightarrow> send_state \<Rightarrow> bool" where
  "send_enabled (EvAnswered i _) s = (i < length (ss_attempts s) \<and> live (ss_attempts s ! i))"
| "send_enabled (EvFailed i _) s = (i < length (ss_attempts s) \<and> live (ss_attempts s ! i))"
| "send_enabled (EvLost i) s = (i < length (ss_attempts s))"
| "send_enabled EvHedge s = (ss_hedgeTimer s \<noteq> None)"
| "send_enabled (EvOthers _) s = True"

fun send_apply :: "send_call \<Rightarrow> send_env \<Rightarrow> send_event \<Rightarrow> send_state \<Rightarrow> send_state" where
  "send_apply c env (EvAnswered i response) s = onSuccess c env i response s"
| "send_apply c env (EvFailed i error) s = onFailure c env i error s"
| "send_apply c env (EvLost i) s = onLost c env i s"
| "send_apply c env EvHedge s = hedge_fires c env s"
| "send_apply c env (EvOthers m) s = s\<lparr>ss_memory := m\<rparr>"

inductive send_run :: "send_call \<Rightarrow> send_state \<Rightarrow> (send_env \<times> send_event) list \<Rightarrow> send_state \<Rightarrow> bool" for c where
  send_stop: "send_run c s [] s"
| send_step: "send_enabled ev s \<Longrightarrow> send_run c (send_apply c env ev s) evs s' \<Longrightarrow> send_run c s ((env, ev) # evs) s'"

inductive_cases send_run_NilE: "send_run c s [] s'"
inductive_cases send_run_ConsE: "send_run c s (x # evs) s'"

fun ends_copy :: "send_event \<Rightarrow> bool" where
  "ends_copy (EvAnswered _ _) = True"
| "ends_copy (EvFailed _ _) = True"
| "ends_copy _ = False"

end
