(* ===== verification/Client_Send_Safety.thy ===== *)
theory Client_Send_Safety
  imports Client_Send
begin

section \<open>Safety and progress of one call\<close>

text \<open>
  The invariant of \<open>_sendWithRetry\<close> over every order of its callbacks: the number of copies is what the resend budget allows, an
  unsettled call has a live copy, it settles once, and a request that must not be repeated is sent again only when the previous
  copy was certainly not sent.
\<close>

subsection \<open>The state after each building block\<close>

lemma on_memory_simps:
  "ss_attempts (s\<lparr>ss_memory := m\<rparr>) = ss_attempts s" "ss_settled (s\<lparr>ss_memory := m\<rparr>) = ss_settled s"
  "anyLive (s\<lparr>ss_memory := m\<rparr>) = anyLive s"
  by (simp_all add: anyLive_def)

lemma add_hedges_simps [simp]:
  "ss_attempts (add_hedges k s) = ss_attempts s" "ss_settled (add_hedges k s) = ss_settled s"
  "ss_routeResendUsed (add_hedges k s) = ss_routeResendUsed s" "ss_transportLeft (add_hedges k s) = ss_transportLeft s"
  "ss_hedgeTimer (add_hedges k s) = ss_hedgeTimer s"
  by (simp_all add: add_hedges_def)

lemma launch_simps [simp]:
  "ss_settled (launch env p h s) = ss_settled s" "ss_routeResendUsed (launch env p h s) = ss_routeResendUsed s"
  "ss_transportLeft (launch env p h s) = ss_transportLeft s" "ss_hedgeTimer (launch env p h s) = ss_hedgeTimer s"
  "ss_attempts (launch env p h s) = ss_attempts s @
     [\<lparr>at_planned = p, at_startedAt = se_now env, at_hedge = h, at_aborted = False, at_end = None\<rparr>]"
  by (simp_all add: launch_def Let_def)

lemma anyLive_launch [simp]: "anyLive (launch env p h s)"
  by (simp add: anyLive_def)

lemma end_attempt_simps [simp]:
  "ss_settled (end_attempt i how s) = ss_settled s" "ss_routeResendUsed (end_attempt i how s) = ss_routeResendUsed s"
  "ss_transportLeft (end_attempt i how s) = ss_transportLeft s" "ss_hedgeTimer (end_attempt i how s) = ss_hedgeTimer s"
  "length (ss_attempts (end_attempt i how s)) = length (ss_attempts s)"
  by (simp_all add: end_attempt_def Let_def)

lemma end_attempt_attempts:
  "ss_attempts (end_attempt i how s) =
     (if live (ss_attempts s ! i) then (ss_attempts s)[i := (ss_attempts s ! i)\<lparr>at_end := Some how\<rparr>] else ss_attempts s)"
  by (simp add: end_attempt_def Let_def)

definition abort_live :: "attempt \<Rightarrow> attempt" where
  "abort_live a = (if live a then a\<lparr>at_aborted := True\<rparr> else a)"

lemma abort_live_simps [simp]:
  "at_end (abort_live a) = at_end a" "at_hedge (abort_live a) = at_hedge a" "at_planned (abort_live a) = at_planned a"
  by (simp_all add: abort_live_def)

lemma finish_simps [simp]:
  "ss_routeResendUsed (finish t s) = ss_routeResendUsed s" "ss_transportLeft (finish t s) = ss_transportLeft s"
  "ss_settled (finish t s) = (case ss_settled s of None \<Rightarrow> Some t | Some u \<Rightarrow> Some u)"
  "length (ss_attempts (finish t s)) = length (ss_attempts s)"
  by (auto simp: finish_def split: option.splits)

lemma finish_attempts:
  "ss_attempts (finish t s) = (if ss_settled s = None then map abort_live (ss_attempts s) else ss_attempts s)"
  by (auto simp: finish_def abort_live_def)

lemma takeTransportResend_Some:
  assumes "takeTransportResend s = Some s'"
  shows "ss_attempts s' = ss_attempts s" "ss_settled s' = ss_settled s" "ss_hedgeTimer s' = ss_hedgeTimer s"
    "ss_transportLeft s > 0 \<and> ss_transportLeft s' = ss_transportLeft s - 1 \<and> ss_routeResendUsed s' = ss_routeResendUsed s
     \<or> \<not> ss_routeResendUsed s \<and> ss_routeResendUsed s' \<and> ss_transportLeft s' = ss_transportLeft s"
  using assms by (auto simp: takeTransportResend_def split: if_splits)

subsection \<open>The invariant\<close>

definition not_sent_end :: "attempt \<Rightarrow> bool" where
  "not_sent_end a = (\<exists>e. at_end a = Some (FailedWith e) \<and> isTransportFailure e \<and> notSent e)"

text \<open>\<open>extra\<close> is a resend already paid for and not launched yet.\<close>

definition send_inv :: "int \<Rightarrow> send_call \<Rightarrow> send_state \<Rightarrow> bool" where
  "send_inv extra c s =
     (int (length (ss_attempts s)) + extra =
        1 + of_bool (ss_routeResendUsed s) + (rp_transportResends (sc_policy c) - ss_transportLeft s)
      \<and> 0 \<le> ss_transportLeft s \<and> ss_transportLeft s \<le> rp_transportResends (sc_policy c)
      \<and> (ss_settled s \<noteq> None \<longrightarrow> ss_hedgeTimer s = None)
      \<and> (sc_retry c = RetryNone \<longrightarrow> (\<forall>a \<in> set (butlast (ss_attempts s)). not_sent_end a))
      \<and> length (filter at_hedge (ss_attempts s)) \<le> of_bool (ss_routeResendUsed s)
      \<and> (\<forall>r x. ss_settled s = Some (Resolved r x) \<longrightarrow>
            (\<exists>a \<in> set (ss_attempts s). at_end a = Some (AnsweredWith r) \<and> x = rt_exit (pl_route (at_planned a))))
      \<and> (\<forall>e. ss_settled s = Some (Rejected e) \<longrightarrow> (\<exists>a \<in> set (ss_attempts s). at_end a = Some (FailedWith e))))"

lemma send_inv_memory [simp]: "send_inv k c (s\<lparr>ss_memory := m\<rparr>) = send_inv k c s"
  by (simp add: send_inv_def)

lemma length_filter_map: "length (filter P xs) = length (filter id (map P xs))"
  by (induction xs) auto

lemma filter_hedge_update:
  assumes "i < length as" "at_hedge b = at_hedge (as ! i)"
  shows "length (filter at_hedge (as[i := b])) = length (filter at_hedge as)"
proof -
  have "map at_hedge (as[i := b]) = (map at_hedge as)[i := map at_hedge as ! i]" using assms by (simp add: map_update)
  then have "map at_hedge (as[i := b]) = map at_hedge as" by (simp only: list_update_id)
  then show ?thesis by (simp only: length_filter_map[of at_hedge])
qed

lemma send_inv_end:
  assumes inv: "send_inv k c s" and i: "i < length (ss_attempts s)" "live (ss_attempts s ! i)"
  shows "send_inv k c (end_attempt i how s)"
proof -
  let ?as = "ss_attempts s" and ?b = "(ss_attempts s ! i)\<lparr>at_end := Some how\<rparr>"
  have as: "ss_attempts (end_attempt i how s) = ?as[i := ?b]" using i by (simp add: end_attempt_attempts)
  have kept: "a \<in> set (?as[i := ?b])" if a: "a \<in> set ?as" "at_end a \<noteq> None" for a
  proof -
    obtain j where j: "j < length ?as" "?as ! j = a" using a(1) by (auto simp: in_set_conv_nth)
    then have "j \<noteq> i" using i a(2) by auto
    then show ?thesis using j by (auto simp: in_set_conv_nth intro!: exI[of _ j])
  qed
  have "\<forall>a \<in> set (butlast (?as[i := ?b])). not_sent_end a" if "\<forall>a \<in> set (butlast ?as). not_sent_end a"
  proof (cases "i < length (butlast ?as)")
    case True
    then have "?as ! i \<in> set (butlast ?as)" by (simp add: nth_butlast[symmetric])
    then show ?thesis using that i by (auto simp: not_sent_end_def)
  next
    case False
    then have "i = length ?as - 1" using i(1) by simp
    then have "butlast (?as[i := ?b]) = butlast ?as" by (simp add: butlast_list_update)
    then show ?thesis using that by simp
  qed
  moreover have "length (filter at_hedge (?as[i := ?b])) = length (filter at_hedge ?as)" using i by (intro filter_hedge_update) simp_all
  ultimately show ?thesis using inv kept unfolding send_inv_def by (simp add: as) (metis option.distinct(1))
qed

lemma butlast_map_abort: "butlast (map abort_live as) = map abort_live (butlast as)"
  by (simp add: map_butlast)

lemma send_inv_finish:
  assumes inv: "send_inv k c s"
    and t: "case t of Resolved r x \<Rightarrow> \<exists>a \<in> set (ss_attempts s). at_end a = Some (AnsweredWith r) \<and> x = rt_exit (pl_route (at_planned a))
      | Rejected e \<Rightarrow> \<exists>a \<in> set (ss_attempts s). at_end a = Some (FailedWith e)"
  shows "send_inv k c (finish t s)"
proof (cases "ss_settled s")
  case None
  have "filter at_hedge (map abort_live as) = map abort_live (filter at_hedge as)" for as by (induction as) auto
  then show ?thesis using inv t None unfolding send_inv_def
    by (auto simp: finish_attempts butlast_map_abort not_sent_end_def finish_def abort_live_def[symmetric] map_butlast[symmetric]
        split: settlement.splits)
next
  case (Some u)
  then show ?thesis using inv by (simp add: finish_def)
qed

lemma send_inv_launch:
  assumes inv: "send_inv 1 c s" and u: "ss_settled s = None"
    and n: "sc_retry c = RetryNone \<longrightarrow> (\<forall>a \<in> set (ss_attempts s). not_sent_end a)"
    and h: "hedge \<longrightarrow> ss_routeResendUsed s \<and> filter at_hedge (ss_attempts s) = []"
  shows "send_inv 0 c (launch env p hedge s)"
  using assms unfolding send_inv_def by auto

lemma send_inv_failIfIdle:
  assumes "send_inv k c s" "\<exists>a \<in> set (ss_attempts s). at_end a = Some (FailedWith e)"
  shows "send_inv k c (failIfIdle e s)"
  using send_inv_finish[OF assms(1), of "Rejected e"] assms by (simp add: failIfIdle_def)

lemma send_inv_route:
  assumes "send_inv 0 c s" "\<not> ss_routeResendUsed s" "ss_settled s = None"
  shows "send_inv 1 c (s\<lparr>ss_routeResendUsed := True\<rparr>)" "filter at_hedge (ss_attempts s) = []"
  using assms unfolding send_inv_def by auto

lemma send_inv_transport:
  assumes "send_inv 0 c s" "takeTransportResend s = Some s'"
  shows "send_inv 1 c s'"
  using assms takeTransportResend_Some[OF assms(2)] unfolding send_inv_def by auto

lemma ended_in: "i < length (ss_attempts s) \<Longrightarrow> live (ss_attempts s ! i) \<Longrightarrow>
  \<exists>a \<in> set (ss_attempts (end_attempt i how s)). at_end a = Some how \<and> at_planned a = at_planned (ss_attempts s ! i)"
  by (rule bexI[of _ "(ss_attempts s ! i)\<lparr>at_end := Some how\<rparr>"]) (simp_all add: end_attempt_attempts set_update_memI)

lemma live_is_last:
  assumes "send_inv 0 c s" "sc_retry c = RetryNone" "i < length (ss_attempts s)" "live (ss_attempts s ! i)" "not_sent_end b"
    "b = (ss_attempts s ! i)\<lparr>at_end := Some how\<rparr>"
  shows "\<forall>a \<in> set (ss_attempts (end_attempt i how s)). not_sent_end a"
proof -
  let ?as = "ss_attempts s"
  have nl: "\<forall>a \<in> set (butlast ?as). not_sent_end a" using assms by (simp add: send_inv_def)
  have "i = length ?as - 1"
  proof (rule ccontr)
    assume "i \<noteq> length ?as - 1"
    then have "i < length (butlast ?as)" using assms(3) by simp
    then have "?as ! i \<in> set (butlast ?as)" by (simp add: nth_butlast[symmetric])
    then show False using nl assms(4) by (auto simp: not_sent_end_def)
  qed
  then have "?as[i := b] = butlast ?as @ [b]" using assms(3) by (cases ?as rule: rev_cases) auto
  then show ?thesis using nl assms(4,5,6) by (simp add: end_attempt_attempts)
qed

lemma send_inv_onFailure:
  assumes inv: "send_inv 0 c s" and i: "i < length (ss_attempts s)" "live (ss_attempts s ! i)"
  shows "send_inv 0 c (onFailure c env i e s)"
proof -
  define s1 where "s1 = end_attempt i (FailedWith e) s"
  have i1: "send_inv 0 c s1" unfolding s1_def by (rule send_inv_end[OF inv i])
  have e1: "\<exists>a \<in> set (ss_attempts s1). at_end a = Some (FailedWith e)" using ended_in[OF i] by (auto simp: s1_def)
  show ?thesis
  proof (cases "ss_settled s1 = None")
    case False
    then show ?thesis using i1 by (simp add: onFailure_def Let_def s1_def[symmetric])
  next
    case True
    note fi = send_inv_failIfIdle[of 0 c _ e]
    have fm: "send_inv 0 c (failIfIdle e (s1\<lparr>ss_memory := m\<rparr>))" for m using i1 e1 by (intro fi) simp_all
    have f0: "send_inv 0 c (failIfIdle e s1)" using i1 e1 by (intro fi)
    consider (kps) "sc_kps c \<and> isTransportFailure e" | (timeout) "\<not> (sc_kps c \<and> isTransportFailure e)" "isResponseTimeout e"
      | (other) "\<not> (sc_kps c \<and> isTransportFailure e)" "\<not> isResponseTimeout e" by blast
    then show ?thesis
    proof cases
      case kps
      define s2 where "s2 = on_memory (noteEntryTransportFailure c env (rt_entry (pl_route (at_planned (ss_attempts s ! i))))) s1"
      have i2: "send_inv 0 c s2" "ss_settled s2 = None" "ss_attempts s2 = ss_attempts s1" using i1 True by (simp_all add: s2_def)
      have f2: "send_inv 0 c (failIfIdle e s2)" unfolding s2_def by (rule fm)
      have l2: "send_inv 0 c (launch env p False s3)" if take: "takeTransportResend s2 = Some s3" and ok: "notSent e \<or> sc_retry c \<noteq> RetryNone" for p s3
      proof (rule send_inv_launch[OF send_inv_transport[OF i2(1) take]])
        show "ss_settled s3 = None" using takeTransportResend_Some(2)[OF take] i2 by simp
        show "sc_retry c = RetryNone \<longrightarrow> (\<forall>a \<in> set (ss_attempts s3). not_sent_end a)"
        proof
          assume r: "sc_retry c = RetryNone"
          have "not_sent_end ((ss_attempts s ! i)\<lparr>at_end := Some (FailedWith e)\<rparr>)" using ok r kps by (simp add: not_sent_end_def)
          from live_is_last[OF inv r i this refl] show "\<forall>a \<in> set (ss_attempts s3). not_sent_end a"
            using takeTransportResend_Some(1)[OF take] i2(3) by (simp add: s1_def)
        qed
      qed simp
      have "onFailure c env i e s = (if se_callerAborted env then failIfIdle e s2
         else if notSent e \<or> sc_retry c \<noteq> RetryNone then
           (case (se_planTransportResend env (at_planned (ss_attempts s ! i)), takeTransportResend s2) of
              (Some next, Some s3) \<Rightarrow> launch env next False s3
            | _ \<Rightarrow> failIfIdle e s2)
         else failIfIdle e s2)"
        unfolding onFailure_def Let_def s1_def[symmetric] s2_def[symmetric] using kps True by simp
      then show ?thesis using f2 l2 by (auto split: option.splits)
    next
      case timeout
      define s2 where "s2 = on_memory (\<lambda>m. m\<lparr>rm_avoidUntil := avoidRoute (se_now env) (pl_route (at_planned (ss_attempts s ! i))) (rm_avoidUntil m)\<rparr>) s1"
      have i2: "send_inv 0 c s2" "ss_settled s2 = None" using i1 True by (simp_all add: s2_def)
      have f2: "send_inv 0 c (failIfIdle e s2)" unfolding s2_def by (rule fm)
      have l2: "send_inv 0 c (launch env p False (s2\<lparr>ss_routeResendUsed := True\<rparr>))" if "sc_retry c \<noteq> RetryNone" "\<not> ss_routeResendUsed s2" for p
        using send_inv_route[OF i2(1) that(2) i2(2)] that(1) i2(2) by (intro send_inv_launch) simp_all
      have "onFailure c env i e s = (if \<not> sc_retryOnTimeout c then failIfIdle e s1
         else if sc_retry c \<noteq> RetryNone \<and> \<not> ss_routeResendUsed s2 then
              (case se_planResend env (at_planned (ss_attempts s ! i)) of
                 Some next \<Rightarrow> launch env next False (s2\<lparr>ss_routeResendUsed := True\<rparr>)
               | None \<Rightarrow> failIfIdle e s2)
            else failIfIdle e s2)"
        unfolding onFailure_def Let_def s1_def[symmetric] s2_def[symmetric] if_not_P[OF timeout(1)]
        using timeout(2) True by simp
      then show ?thesis using f0 f2 l2 by (auto split: option.splits)
    next
      case other
      then have "onFailure c env i e s = finish (Rejected e) s1"
        unfolding onFailure_def Let_def s1_def[symmetric] if_not_P[OF other(1)] using True by simp
      then show ?thesis using send_inv_finish[OF i1, of "Rejected e"] e1 by simp
    qed
  qed
qed

lemma send_inv_onSuccess:
  assumes inv: "send_inv 0 c s" and i: "i < length (ss_attempts s)" "live (ss_attempts s ! i)"
  shows "send_inv 0 c (onSuccess c env i r s)"
proof -
  let ?s1 = "end_attempt i (AnsweredWith r) s"
  have i1: "send_inv 0 c ?s1" by (rule send_inv_end[OF inv i])
  obtain a where "a \<in> set (ss_attempts ?s1)" "at_end a = Some (AnsweredWith r)" "at_planned a = at_planned (ss_attempts s ! i)"
    using ended_in[OF i] by blast
  then have "send_inv 0 c (finish (Resolved r (rt_exit (pl_route (at_planned (ss_attempts s ! i))))) (?s1\<lparr>ss_memory := m\<rparr>))" for m
    using i1 by (intro send_inv_finish) auto
  then show ?thesis using i1 by (simp add: onSuccess_def Let_def)
qed

lemma send_inv_resend:
  assumes inv: "send_inv 0 c s" and u: "ss_settled s = None" "\<not> ss_routeResendUsed s" "sc_retry c \<noteq> RetryNone"
  shows "send_inv 0 c (launch env p h (s\<lparr>ss_routeResendUsed := True\<rparr>))"
  using send_inv_route[OF inv u(2,1)] u by (intro send_inv_launch) simp_all

lemma send_inv_timer: "send_inv k c s \<Longrightarrow> send_inv k c (s\<lparr>ss_hedgeTimer := None\<rparr>)"
  by (simp add: send_inv_def)

text \<open>The hedge timer is armed only for requests that may be repeated.\<close>

definition timer_ok :: "send_call \<Rightarrow> send_state \<Rightarrow> bool" where
  "timer_ok c s = (ss_hedgeTimer s \<noteq> None \<longrightarrow> sc_retry c = RetryRoute)"

definition timer_in :: "int option set \<Rightarrow> send_state \<Rightarrow> bool" where
  "timer_in X s = (ss_hedgeTimer s \<in> X)"

lemma timer_in_simps:
  "timer_in X (launch env p h s) = timer_in X s" "timer_in X (s\<lparr>ss_memory := m\<rparr>) = timer_in X s"
  "timer_in X (s\<lparr>ss_routeResendUsed := b\<rparr>) = timer_in X s" "timer_in X (end_attempt i how s) = timer_in X s"
  "None \<in> X \<Longrightarrow> timer_in X s \<Longrightarrow> timer_in X (finish t s)" "None \<in> X \<Longrightarrow> timer_in X s \<Longrightarrow> timer_in X (failIfIdle e s)"
  "takeTransportResend s = Some s' \<Longrightarrow> timer_in X s' = timer_in X s"
  by (auto simp: timer_in_def finish_def failIfIdle_def takeTransportResend_def split: if_splits)

lemma onFailure_timer: "None \<in> X \<Longrightarrow> timer_in X s \<Longrightarrow> timer_in X (onFailure c env i e s)"
  unfolding onFailure_def Let_def by (simp add: timer_in_simps split: option.split)

lemma timer_ok_step: "timer_ok c s \<Longrightarrow> timer_ok c (send_apply c env ev s)"
proof (cases ev)
  case (EvFailed i e)
  then show "timer_ok c s \<Longrightarrow> ?thesis" using onFailure_timer[of "{None, ss_hedgeTimer s}" s c env i e]
    by (auto simp: timer_ok_def timer_in_def)
qed (auto simp: timer_ok_def onSuccess_def onLost_def hedge_fires_def finish_def Let_def split: option.splits)

lemma send_inv_step:
  assumes inv: "send_inv 0 c s" and t: "timer_ok c s" and en: "send_enabled ev s"
  shows "send_inv 0 c (send_apply c env ev s)"
proof (cases ev)
  case (EvAnswered i r)
  then show ?thesis using send_inv_onSuccess[OF inv] en by simp
next
  case (EvFailed i e)
  then show ?thesis using send_inv_onFailure[OF inv] en by simp
next
  case (EvLost i)
  then show ?thesis using inv send_inv_resend[OF inv] by (auto simp: onLost_def Let_def split: option.splits)
next
  case EvHedge
  have r: "sc_retry c \<noteq> RetryNone" using t en EvHedge by (simp add: timer_ok_def)
  then show ?thesis using EvHedge send_inv_timer[OF inv] send_inv_resend[OF send_inv_timer[OF inv]]
    by (auto simp: hedge_fires_def Let_def split: option.splits)
qed (use inv in simp)

lemma idle_step:
  assumes "ss_settled s = None \<longrightarrow> anyLive s"
  shows "ss_settled (send_apply c env ev s) = None \<longrightarrow> anyLive (send_apply c env ev s)"
proof -
  have "ss_settled (failIfIdle e t) = None \<longrightarrow> anyLive (failIfIdle e t)" for e t
    by (cases "ss_settled t") (auto simp: failIfIdle_def)
  moreover have "ss_settled (finish o' t) \<noteq> None" for o' t by (cases "ss_settled t") auto
  moreover have "anyLive (t\<lparr>ss_hedgeTimer := None\<rparr>) = anyLive t" for t by (simp add: anyLive_def)
  ultimately show ?thesis using assms
    by (cases ev) (auto simp: onSuccess_def onFailure_def onLost_def hedge_fires_def Let_def on_memory_simps split: option.splits)
qed

lemma settled_step:
  assumes "ss_settled s = Some t"
  shows "ss_settled (send_apply c env ev s) = Some t"
  using assms by (cases ev) (auto simp: onSuccess_def onFailure_def onLost_def hedge_fires_def Let_def)

lemma send_start_inv:
  assumes "0 \<le> rp_transportResends (sc_policy c)"
  shows "send_inv 0 c (send_start c env first m)" "timer_ok c (send_start c env first m)"
    "ss_settled (send_start c env first m) = None \<longrightarrow> anyLive (send_start c env first m)"
  using assms by (auto simp: send_start_def Let_def send_inv_def timer_ok_def anyLive_def)

lemma send_run_inv:
  "send_run c s evs s' \<Longrightarrow> send_inv 0 c s \<Longrightarrow> timer_ok c s \<Longrightarrow> ss_settled s = None \<longrightarrow> anyLive s \<Longrightarrow>
   send_inv 0 c s' \<and> timer_ok c s' \<and> (ss_settled s' = None \<longrightarrow> anyLive s')
     \<and> (\<forall>t. ss_settled s = Some t \<longrightarrow> ss_settled s' = Some t)"
proof (induction rule: send_run.induct)
  case (send_step ev s env evs s')
  have "send_inv 0 c (send_apply c env ev s)" "timer_ok c (send_apply c env ev s)"
    "ss_settled (send_apply c env ev s) = None \<longrightarrow> anyLive (send_apply c env ev s)"
    using send_inv_step[OF send_step.prems(1,2) send_step.hyps(1)] timer_ok_step[OF send_step.prems(2)]
      idle_step[OF send_step.prems(3)] by auto
  from send_step.IH[OF this] show ?case using settled_step[of s _ c env ev] by blast
qed simp

lemma copies_bound: "send_inv 0 c s \<Longrightarrow> int (length (ss_attempts s)) \<le> 2 + rp_transportResends (sc_policy c)"
  by (auto simp: send_inv_def)

text \<open>Ending a copy leaves one fewer live, except for a copy launched by the handler.\<close>

definition ended_copies :: "send_state \<Rightarrow> nat" where
  "ended_copies s = length (filter (\<lambda>a. \<not> live a) (ss_attempts s))"

lemma filter_update_ended:
  assumes "i < length as" "\<not> P (as ! i)" "P b"
  shows "length (filter P (as[i := b])) = Suc (length (filter P as))"
proof -
  have "filter P as = filter P (take i as @ as ! i # drop (Suc i) as)"
    by (rule arg_cong[OF id_take_nth_drop[OF assms(1)]])
  moreover have "filter P (as[i := b]) = filter P (take i as @ b # drop (Suc i) as)"
    by (rule arg_cong[OF upd_conv_take_nth_drop[OF assms(1)]])
  ultimately show ?thesis using assms(2,3) by simp
qed

lemma ended_finish [simp]: "ended_copies (finish t s) = ended_copies s"
proof -
  have "filter (\<lambda>a. \<not> live a) (map abort_live as) = map abort_live (filter (\<lambda>a. \<not> live a) as)" for as by (induction as) auto
  then show ?thesis by (simp add: ended_copies_def finish_attempts)
qed

lemma ended_failIfIdle [simp]: "ended_copies (failIfIdle e s) = ended_copies s"
  by (simp add: failIfIdle_def)

lemma ended_launch [simp]: "ended_copies (launch env p h s) = ended_copies s"
  by (simp add: ended_copies_def)

lemma ended_memory [simp]: "ended_copies (s\<lparr>ss_memory := m\<rparr>) = ended_copies s" "ended_copies (s\<lparr>ss_routeResendUsed := b\<rparr>) = ended_copies s"
  "ended_copies (s\<lparr>ss_hedgeTimer := h\<rparr>) = ended_copies s"
  by (simp_all add: ended_copies_def)

lemma ended_take: "takeTransportResend s = Some s' \<Longrightarrow> ended_copies s' = ended_copies s"
  using takeTransportResend_Some(1)[of s s'] by (simp add: ended_copies_def)

lemma ended_end: "i < length (ss_attempts s) \<Longrightarrow> live (ss_attempts s ! i) \<Longrightarrow> ended_copies (end_attempt i how s) = Suc (ended_copies s)"
  by (simp add: ended_copies_def end_attempt_attempts filter_update_ended)

lemma ended_step:
  assumes "send_enabled ev s"
  shows "ended_copies (send_apply c env ev s) = ended_copies s + of_bool (ends_copy ev)"
  using assms
proof (cases ev)
  case (EvFailed i e)
  then have "ended_copies (end_attempt i (FailedWith e) s) = Suc (ended_copies s)" using assms ended_end by simp
  then have "ended_copies (onFailure c env i e s) = Suc (ended_copies s)"
    by (auto simp: onFailure_def Let_def ended_take split: option.splits)
  then show ?thesis using EvFailed by simp
qed (auto simp: onSuccess_def onLost_def hedge_fires_def Let_def ended_end split: option.splits)

lemma ended_run: "send_run c s evs s' \<Longrightarrow> ended_copies s' = ended_copies s + length (filter (\<lambda>(_, ev). ends_copy ev) evs)"
proof (induction rule: send_run.induct)
  case (send_step ev s env evs s')
  then show ?case using ended_step[OF send_step.hyps(1), of c env] by simp
qed simp

text \<open>Without KPS, a request that must not be repeated spends no resend.\<close>

definition quiet :: "send_call \<Rightarrow> send_state \<Rightarrow> bool" where
  "quiet c s = (\<not> ss_routeResendUsed s \<and> ss_transportLeft s = rp_transportResends (sc_policy c) \<and> ss_hedgeTimer s = None)"

lemma quiet_simps:
  "quiet c (s\<lparr>ss_memory := m\<rparr>) = quiet c s" "quiet c (end_attempt i how s) = quiet c s"
  "quiet c s \<Longrightarrow> quiet c (finish t s)" "quiet c s \<Longrightarrow> quiet c (failIfIdle e s)"
  by (auto simp: quiet_def finish_def failIfIdle_def)

lemma quiet_run:
  "send_run c s evs s' \<Longrightarrow> sc_retry c = RetryNone \<Longrightarrow> \<not> sc_kps c \<Longrightarrow> quiet c s \<Longrightarrow> quiet c s'"
proof (induction rule: send_run.induct)
  case (send_step ev s env evs s')
  then have "quiet c (send_apply c env ev s)"
    by (cases ev) (auto simp: onFailure_def onSuccess_def onLost_def Let_def quiet_simps, auto simp: quiet_def)
  then show ?case using send_step by blast
qed

subsection \<open>Properties\<close>

text \<open>
  C19. A call ends. Over every order of its callbacks (answers, failures, presumed losses, the hedge timer, other calls changing the
  client's memory) and whatever the planner returns, a call sends at most \<open>2 + transportResends\<close> copies, so at most that many
  callbacks end a copy; it is unsettled only while a copy is live, so it settles at the latest when the last
  copy ends; and once settled it never changes.
\<close>

theorem call_settles:
  assumes "0 \<le> rp_transportResends (sc_policy c)" "send_run c (send_start c env first m) evs s"
  shows "int (length (ss_attempts s)) \<le> 2 + rp_transportResends (sc_policy c)
    \<and> int (length (filter (\<lambda>(_, ev). ends_copy ev) evs)) \<le> 2 + rp_transportResends (sc_policy c)
    \<and> (ss_settled s \<noteq> None \<or> anyLive s)
    \<and> (send_run c s evs' s' \<and> ss_settled s = Some t \<longrightarrow> ss_settled s' = Some t)"
proof -
  note inv = send_run_inv[OF assms(2) send_start_inv[OF assms(1)]]
  then have len: "int (length (ss_attempts s)) \<le> 2 + rp_transportResends (sc_policy c)" using copies_bound by blast
  have "ended_copies (send_start c env first m) = 0" by (simp add: send_start_def Let_def ended_copies_def)
  then have "length (filter (\<lambda>(_, ev). ends_copy ev) evs) = ended_copies s" using ended_run[OF assms(2)] by simp
  also have "\<dots> \<le> length (ss_attempts s)" by (simp add: ended_copies_def)
  finally show ?thesis using len inv send_run_inv[of c s evs' s'] by auto
qed

text \<open>
  C15. A request that must not be repeated is not sent twice. For a call whose retry mode is \<open>none\<close> (transactions, POST requests), every
  copy but the last has failed before anything of it was written (in the dial or while opening the stream), so at every
  moment at most one copy is live; no hedge is ever launched, and outside KPS mode there is only one copy.
\<close>

theorem single_delivery:
  assumes "0 \<le> rp_transportResends (sc_policy c)" "send_run c (send_start c env first m) evs s" "sc_retry c = RetryNone"
  shows "(\<forall>a \<in> set (butlast (ss_attempts s)). \<exists>e. at_end a = Some (FailedWith e) \<and> isTransportFailure e \<and> notSent e)
    \<and> length (filter live (ss_attempts s)) \<le> 1 \<and> ss_hedgeTimer s = None \<and> (sc_kps c \<or> length (ss_attempts s) = 1)"
proof -
  have "quiet c (send_start c env first m)" using assms(3) by (auto simp: quiet_def send_start_def Let_def)
  from quiet_run[OF assms(2) assms(3) _ this] have "\<not> sc_kps c \<Longrightarrow> quiet c s" by blast
  from send_run_inv[OF assms(2) send_start_inv[OF assms(1)]]
  have inv: "send_inv 0 c s" "timer_ok c s" by auto
  then have b: "\<forall>a \<in> set (butlast (ss_attempts s)). not_sent_end a" using assms(3) by (simp add: send_inv_def)
  then have "filter live (butlast (ss_attempts s)) = []" by (auto simp: filter_empty_conv not_sent_end_def)
  then have "length (filter live (ss_attempts s)) \<le> 1"
    by (cases "ss_attempts s" rule: rev_cases) auto
  moreover have "ss_hedgeTimer s = None" using inv(2) assms(3) by (auto simp: timer_ok_def)
  moreover have "sc_kps c \<or> length (ss_attempts s) = 1"
  proof (cases "sc_kps c")
    case False
    then have "quiet c s" using \<open>\<not> sc_kps c \<Longrightarrow> quiet c s\<close> by blast
    then have "int (length (ss_attempts s)) = 1" using inv(1) by (simp add: quiet_def send_inv_def)
    then show ?thesis by simp
  qed simp
  ultimately show ?thesis using b by (auto simp: not_sent_end_def)
qed

text \<open>
  The answer is the answering copy's. A settled call resolves with the bytes one of its own copies answered and names the exit of
  that copy's route, or rejects with the error of one of its copies; at most one copy was a hedge.
\<close>

theorem settlement_from_copy:
  assumes "0 \<le> rp_transportResends (sc_policy c)" "send_run c (send_start c env first m) evs s"
  shows "(case ss_settled s of
       None \<Rightarrow> anyLive s
     | Some (Resolved r x) \<Rightarrow> \<exists>a \<in> set (ss_attempts s). at_end a = Some (AnsweredWith r) \<and> x = rt_exit (pl_route (at_planned a))
     | Some (Rejected e) \<Rightarrow> \<exists>a \<in> set (ss_attempts s). at_end a = Some (FailedWith e))
    \<and> length (filter at_hedge (ss_attempts s)) \<le> 1"
proof -
  from send_run_inv[OF assms(2) send_start_inv[OF assms(1)]]
  have inv: "send_inv 0 c s" "ss_settled s = None \<longrightarrow> anyLive s" by auto
  have "length (filter at_hedge (ss_attempts s)) \<le> of_bool (ss_routeResendUsed s)" using inv(1) by (simp add: send_inv_def)
  also have "\<dots> \<le> 1" by simp
  finally show ?thesis using inv by (auto simp: send_inv_def split: option.splits settlement.splits)
qed

subsection \<open>The planner and the call together\<close>

text \<open>What a handler asks of a client whose state it sees as \<open>v\<close>.\<close>

definition call_env ::
  "(nat \<Rightarrow> nat \<Rightarrow> nat \<Rightarrow> nat) \<Rightarrow> client_view \<Rightarrow> send_call \<Rightarrow> topology_node option \<Rightarrow> int \<Rightarrow> bool \<Rightarrow> send_env" where
  "call_env rnd v c selectedExit now aborted =
     \<lparr>se_now = now, se_callerAborted = aborted,
      se_planResend = (\<lambda>failed. case planResend rnd v failed selectedExit (sc_retry c) (rp_sameEntryFallback (sc_policy c)) of
         Some (Inr next) \<Rightarrow> next | _ \<Rightarrow> None),
      se_planTransportResend = (\<lambda>failed. case planTransportResend rnd v failed selectedExit (rp_sameEntryFallback (sc_policy c)) of
         Some (Inr next) \<Rightarrow> next | _ \<Rightarrow> None),
      se_otherEntry = (case pinnedEntry v of None \<Rightarrow> None
         | Some p \<Rightarrow> (case pickOtherEntry (rnd 9 3) v [node_id p] of Some (Inr n) \<Rightarrow> Some n | _ \<Rightarrow> None))\<rparr>"

lemma planned_step:
  assumes "\<forall>a \<in> set (ss_attempts s). P (at_planned a)" "send_enabled ev s"
    and plan: "\<And>p q. P p \<Longrightarrow> se_planResend env p = Some q \<Longrightarrow> P q" "\<And>p q. P p \<Longrightarrow> se_planTransportResend env p = Some q \<Longrightarrow> P q"
  shows "\<forall>a \<in> set (ss_attempts (send_apply c env ev s)). P (at_planned a)"
proof -
  define ok where "ok t = (\<forall>a \<in> set (ss_attempts t). P (at_planned a))" for t :: send_state
  have ok_simps: "ok (t\<lparr>ss_memory := m\<rparr>) = ok t" "ok (t\<lparr>ss_routeResendUsed := b\<rparr>) = ok t" "ok (t\<lparr>ss_hedgeTimer := h\<rparr>) = ok t"
    "ok t \<Longrightarrow> ok (finish u t)" "ok t \<Longrightarrow> ok (failIfIdle e t)" "ok t \<Longrightarrow> P p \<Longrightarrow> ok (launch en p hd t)"
    "takeTransportResend t = Some t' \<Longrightarrow> ok t' = ok t" for t t' m b h u e p en hd
    using takeTransportResend_Some(1)[of t t'] by (auto simp: ok_def finish_attempts failIfIdle_def)
  have "i < length (ss_attempts t) \<Longrightarrow> ok t \<Longrightarrow> ok (end_attempt i how t)" for i how t
    by (auto simp: ok_def end_attempt_attempts dest!: set_update_subset_insert[THEN subsetD])
  note ok_simps = ok_simps this
  have s: "ok s" using assms(1) by (simp add: ok_def)
  have pl: "i < length (ss_attempts s) \<Longrightarrow> P (at_planned (ss_attempts s ! i))" for i using assms(1) by simp
  have lv: "List.find live (ss_attempts s) = Some a \<Longrightarrow> P (at_planned a)" for a
    using assms(1) by (auto simp: find_Some_iff)
  have "ok (send_apply c env ev s)"
  proof (cases ev)
    case (EvFailed i e)
    then have i: "i < length (ss_attempts s)" using assms(2) by simp
    have pq: "se_planResend env (at_planned (ss_attempts s ! i)) = Some q \<Longrightarrow> P q"
      "se_planTransportResend env (at_planned (ss_attempts s ! i)) = Some q \<Longrightarrow> P q" for q
      using plan[OF pl[OF i]] by blast+
    have "ok (onFailure c env i e s)"
      unfolding onFailure_def Let_def using i s pq by (simp add: ok_simps split: option.split)
    then show ?thesis using EvFailed by simp
  next
    case (EvLost i)
    then have i: "i < length (ss_attempts s)" using assms(2) by simp
    have pq: "se_planResend env (at_planned (ss_attempts s ! i)) = Some q \<Longrightarrow> P q" for q
      using plan(1)[OF pl[OF i]] by blast
    have "ok (onLost c env i s)"
      unfolding onLost_def Let_def using s pq by (simp add: ok_simps split: option.split)
    then show ?thesis using EvLost by simp
  next
    case EvHedge
    have "ok (hedge_fires c env s)"
    proof (cases "List.find live (ss_attempts s)")
      case None
      then show ?thesis using s by (simp add: hedge_fires_def Let_def ok_simps)
    next
      case (Some a)
      have pq: "se_planResend env (at_planned a) = Some q \<Longrightarrow> P q" for q using plan(1)[OF lv[OF Some]] by blast
      show ?thesis unfolding hedge_fires_def Let_def using s pq Some by (simp add: ok_simps split: option.split)
    qed
    then show ?thesis using EvHedge by simp
  qed (use assms(2) s in \<open>auto simp: ok_simps onSuccess_def Let_def\<close>)
  then show ?thesis by (simp add: ok_def)
qed

definition plans_keep :: "(planned_route \<Rightarrow> bool) \<Rightarrow> send_env \<Rightarrow> bool" where
  "plans_keep P env = (\<forall>p q. P p \<longrightarrow> se_planResend env p = Some q \<or> se_planTransportResend env p = Some q \<longrightarrow> P q)"

lemma plans_keepD:
  "plans_keep P env \<Longrightarrow> P p \<Longrightarrow> se_planResend env p = Some q \<Longrightarrow> P q"
  "plans_keep P env \<Longrightarrow> P p \<Longrightarrow> se_planTransportResend env p = Some q \<Longrightarrow> P q"
  unfolding plans_keep_def by blast+

lemma planned_run:
  assumes "send_run c s evs s'" "\<forall>a \<in> set (ss_attempts s). P (at_planned a)" "\<forall>x \<in> set evs. plans_keep P (fst x)"
  shows "\<forall>a \<in> set (ss_attempts s'). P (at_planned a)"
  using assms
proof (induction rule: send_run.induct)
  case (send_step ev s env evs s')
  have k: "plans_keep P env" using send_step.prems(2) by simp
  have "\<forall>a \<in> set (ss_attempts (send_apply c env ev s)). P (at_planned a)"
    by (rule planned_step[where P = P, OF send_step.prems(1) send_step.hyps(1)]) (erule (1) plans_keepD[OF k])+
  from send_step.IH[OF this] show ?case using send_step.prems(2) by simp
qed simp

lemma planTransportResend_v2:
  assumes "fair_sources rnd" "few (cv_nodes v)" "pl_version failed = V2"
    and "planTransportResend rnd v failed selectedExit fallback = Some (Inr (Some q))"
  shows "pl_version q = V2 \<and> v2_route v (pl_route q)"
proof -
  have f: "\<forall>i. fair (rnd k i)" for k using assms(1) by (simp add: fair_sources_def)
  let ?plan = "\<lambda>k ex. planStrictV2 (rnd k) v selectedExit (cv_avoided v) ex"
  have first: "planRouteThroughOtherEntry (rnd 0) v failed selectedExit = ?plan 0 (Some (node_id (rt_entry (pl_route failed))))"
    using assms(3) by (simp add: planRouteThroughOtherEntry_def Let_def)
  have "?plan 0 (Some (node_id (rt_entry (pl_route failed)))) = Some (Inr q) \<or> ?plan 1 None = Some (Inr q)"
    using assms(4) unfolding planTransportResend_def first if_P[OF assms(3)] run_catch_Inr run_bind_Inr_iff
    by (cases fallback) (auto simp: run_catch_Inr run_bind_Inr_iff)
  then obtain k ex where "?plan k ex = Some (Inr q)" by blast
  from planStrictV2_result[OF f assms(2) this] show ?thesis by blast
qed

text \<open>
  A call that starts with version 2 reply blocks never falls back to version 1. Let a call's first copy use version 2 blocks and every
  handler see some state of the client, with fair random sources: after any sequence of answers, failures, losses and hedges, every
  copy sent used version 2 blocks.
\<close>

theorem v2_call_stays_v2:
  assumes "send_run c (send_start c env0 first m) evs s" "pl_version first = V2"
    and "\<forall>(env, _) \<in> set evs. \<exists>rnd v selectedExit now aborted.
           env = call_env rnd v c selectedExit now aborted \<and> fair_sources rnd \<and> few (cv_nodes v)"
  shows "\<forall>a \<in> set (ss_attempts s). pl_version (at_planned a) = V2"
proof (rule planned_run[OF assms(1)])
  show "\<forall>a \<in> set (ss_attempts (send_start c env0 first m)). pl_version (at_planned a) = V2"
    using assms(2) by (simp add: send_start_def Let_def)
  show "\<forall>x \<in> set evs. plans_keep (\<lambda>p. pl_version p = V2) (fst x)"
  proof
    fix x assume "x \<in> set evs"
    then obtain rnd v selectedExit now aborted
      where e: "fst x = call_env rnd v c selectedExit now aborted" "fair_sources rnd" "few (cv_nodes v)"
      using assms(3) by fastforce
    have "pl_version q = V2" if "pl_version p = V2" "se_planResend (fst x) p = Some q \<or> se_planTransportResend (fst x) p = Some q" for p q
    proof -
      have "planResend rnd v p selectedExit (sc_retry c) (rp_sameEntryFallback (sc_policy c)) = Some (Inr (Some q))
        \<or> planTransportResend rnd v p selectedExit (rp_sameEntryFallback (sc_policy c)) = Some (Inr (Some q))"
        using that(2) unfolding e(1) by (auto simp: call_env_def split: option.splits sum.splits)
      then show ?thesis
        using planResend_v2[OF e(2,3) that(1)] planTransportResend_v2[OF e(2,3) that(1)] by blast
    qed
    then show "plans_keep (\<lambda>p. pl_version p = V2) (fst x)" unfolding plans_keep_def by blast
  qed
qed

subsection \<open>Witnesses\<close>

definition sample_call :: "retry_mode \<Rightarrow> send_call" where
  "sample_call r = \<lparr>sc_retry = r, sc_policy = as_resend_policy RESEND_FAST, sc_retryOnTimeout = True, sc_kps = True, sc_attemptTimeoutMs = 30000\<rparr>"

definition sample_env :: send_env where
  "sample_env = \<lparr>se_now = 0, se_callerAborted = False, se_planResend = Some, se_planTransportResend = Some, se_otherEntry = None\<rparr>"

definition sample_memory :: route_memory where
  "sample_memory = \<lparr>rm_avoidUntil = [], rm_latency = new_tracker, rm_entryUrl = [], rm_entryFailures = 0, rm_hedgesInFlight = 0\<rparr>"

definition dial_failure :: failure where
  "dial_failure = Failure (NoxClientError TransportFailed []) None (Some (Failure (JsError []) (Some PhaseDial) None))"

lemma sample_resends: "rp_transportResends (sc_policy (sample_call r)) = 2"
  by (simp add: sample_call_def as_resend_policy_def num_setting_def RESEND_FAST_def jsmap_get_def)

text \<open>A call whose first copy fails in the dial; the second is live.\<close>

lemma sample_run:
  "send_run (sample_call r) (send_start (sample_call r) sample_env sample_planned sample_memory) [(sample_env, EvFailed 0 dial_failure)]
     (onFailure (sample_call r) sample_env 0 dial_failure (send_start (sample_call r) sample_env sample_planned sample_memory))"
  by (rule send_step) (auto simp: send_start_def Let_def intro: send_stop)

lemma sample_second_copy:
  "length (ss_attempts (onFailure (sample_call RetryNone) sample_env 0 dial_failure
     (send_start (sample_call RetryNone) sample_env sample_planned sample_memory))) = 2"
  by code_simp

theorem call_settles_witness:
  "int (length (filter (\<lambda>(_, ev). ends_copy ev) [(sample_env, EvFailed 0 dial_failure)])) \<le> 4"
  using call_settles[OF _ sample_run[of RetryRoute]] by (simp add: sample_resends)

theorem single_delivery_witness:
  "length (filter live (ss_attempts (onFailure (sample_call RetryNone) sample_env 0 dial_failure
     (send_start (sample_call RetryNone) sample_env sample_planned sample_memory)))) \<le> 1
   \<and> length (ss_attempts (onFailure (sample_call RetryNone) sample_env 0 dial_failure
     (send_start (sample_call RetryNone) sample_env sample_planned sample_memory))) = 2"
proof -
  have "sc_retry (sample_call RetryNone) = RetryNone" by (simp add: sample_call_def)
  then show ?thesis using single_delivery[OF _ sample_run[of RetryNone]] sample_second_copy by (simp add: sample_resends)
qed

text \<open>The first copy's reply is presumed lost; a client with five members plans a version 2 copy.\<close>

theorem v2_call_stays_v2_witness:
  "\<exists>s. send_run (sample_call RetryRoute) (send_start (sample_call RetryRoute) sample_env sample_planned sample_memory)
         [(call_env (\<lambda>_ _ _. 0) sample_view (sample_call RetryRoute) None 5 False, EvLost 0)] s
     \<and> list_all (\<lambda>a. pl_version (at_planned a) = V2) (ss_attempts s)"
proof -
  let ?env = "call_env (\<lambda>_ _ _. 0) sample_view (sample_call RetryRoute) None 5 False"
  let ?s = "onLost (sample_call RetryRoute) ?env 0 (send_start (sample_call RetryRoute) sample_env sample_planned sample_memory)"
  have run: "send_run (sample_call RetryRoute) (send_start (sample_call RetryRoute) sample_env sample_planned sample_memory) [(?env, EvLost 0)] ?s"
    by (rule send_step) (auto simp: send_start_def Let_def intro: send_stop)
  have "fair_sources (\<lambda>_ _ _. 0)" "few (cv_nodes sample_view)"
    by (auto simp: fair_sources_def fair_def few_def sample_view_def)
  then have "\<forall>(env, _) \<in> set [(?env, EvLost 0)]. \<exists>rnd v selectedExit now aborted.
      env = call_env rnd v (sample_call RetryRoute) selectedExit now aborted \<and> fair_sources rnd \<and> few (cv_nodes v)"
    by (simp, intro exI conjI) (rule refl, assumption+)
  from v2_call_stays_v2[OF run _ this] run show ?thesis by (auto simp: sample_planned_def list_all_iff)
qed

theorem settlement_from_copy_witness:
  "length (filter at_hedge (ss_attempts (onFailure (sample_call RetryRoute) sample_env 0 dial_failure
     (send_start (sample_call RetryRoute) sample_env sample_planned sample_memory)))) \<le> 1"
  using settlement_from_copy[OF _ sample_run[of RetryRoute]] by (simp add: sample_resends)

end
