(* ===== verification/Kps_Pinned.thy ===== *)
theory Kps_Pinned
  imports Topology Kps_Address
begin

section \<open>The pinned membership and served topologies\<close>

text \<open>
  \<open>packages/nox-client/src/kps/pinned.ts\<close>: the registry snapshot that ships in the bundle, and the removals-only rule by which
  topology documents served by nodes change the working set. The snapshot is a \<open>json\<close> value until \<open>verifyPinnedSnapshot\<close>
  accepted it (\<open>as_pinned\<close> is its type from then on). A \<open>Set\<close> of addresses is a list of which only the members matter, a
  \<open>Map\<close> a \<open>jsmap\<close>. The hash functions are parameters, as in \<open>Topology\<close>; the reason of a rejected document is a fixed text.
\<close>

record pinned_member =
  pm_address :: string
  pm_sphinxKey :: string
  pm_url :: string
  pm_ingressUrl :: string
  pm_metadataUrl :: string
  pm_stake :: string
  pm_role :: int
  pm_layer :: int
  pm_status :: int
  pm_frozen :: bool
  pm_capabilities :: "string list"

record member_record = pinned_member +
  mr_floor :: bool
  mr_probation :: bool

record pinned_snapshot =
  ps_chainId :: int
  ps_registry :: string
  ps_blockNumber :: int
  ps_blockHash :: string
  ps_fingerprint :: string
  ps_relayerCount :: int
  ps_powDifficulty :: int
  ps_members :: "pinned_member list"

subsection \<open>Checking a snapshot\<close>

definition PINNED_SNAPSHOT_FORMAT :: string where
  "PINNED_SNAPSHOT_FORMAT = ''nox-anon-rpc-snapshot/1''"

definition MAX_PINNED_MEMBERS :: int where
  "MAX_PINNED_MEMBERS = 256"

definition MAX_PINNED_POW_DIFFICULTY :: int where
  "MAX_PINNED_POW_DIFFICULTY = 16"

definition MAX_FIELD_LENGTH :: nat where
  "MAX_FIELD_LENGTH = 256"

definition SNAPSHOT_KEYS :: "string list" where
  "SNAPSHOT_KEYS = [''format'', ''chainId'', ''registry'', ''blockNumber'', ''blockHash'', ''fingerprint'', ''relayerCount'',
     ''powDifficulty'', ''members'']"

definition MEMBER_KEYS :: "string list" where
  "MEMBER_KEYS = [''address'', ''sphinxKey'', ''url'', ''ingressUrl'', ''metadataUrl'', ''stake'', ''role'', ''layer'', ''status'',
     ''frozen'', ''capabilities'']"

definition lower_hex_char :: "char \<Rightarrow> bool" where
  "lower_hex_char c = (is_digit c \<or> 97 \<le> (of_char c :: nat) \<and> (of_char c :: nat) \<le> 102)"

definition lower_hex_text :: "nat \<Rightarrow> string \<Rightarrow> bool" where
  "lower_hex_text n s = (length s = n \<and> list_all lower_hex_char s)"

definition ADDRESS_RE :: "string \<Rightarrow> bool" where
  "ADDRESS_RE s = (take 2 s = ''0x'' \<and> lower_hex_text 40 (drop 2 s))"

definition HASH_RE :: "string \<Rightarrow> bool" where
  "HASH_RE s = (take 2 s = ''0x'' \<and> lower_hex_text 64 (drop 2 s))"

abbreviation invalid :: "string \<Rightarrow> 'a result" where
  "invalid detail \<equiv> throw TopologyVerificationFailed detail"

definition isPlainRecord :: "json \<Rightarrow> bool" where
  "isPlainRecord v = (case v of JsObj _ \<Rightarrow> True | _ \<Rightarrow> False)"

definition json_keys :: "json \<Rightarrow> string list" where
  "json_keys v = (case v of JsObj fs \<Rightarrow> map fst fs | _ \<Rightarrow> [])"

definition checkKeys :: "json \<Rightarrow> string list \<Rightarrow> unit result" where
  "checkKeys v ks =
     (if list_ex (\<lambda>k. k \<notin> set ks) (json_keys v) then invalid ''unknown field''
      else if list_ex (\<lambda>k. k \<notin> set (json_keys v)) ks then invalid ''missing field'' else Inr ())"

definition checkInteger :: "json \<Rightarrow> int \<Rightarrow> int \<Rightarrow> unit result" where
  "checkInteger v mn mx =
     (case v of
        JsInt n \<Rightarrow> if \<not> isSafeInteger n \<or> n < mn \<or> n > mx then invalid ''must be an integer in range'' else Inr ()
      | _ \<Rightarrow> invalid ''must be an integer in range'')"

definition checkPattern :: "json \<Rightarrow> (string \<Rightarrow> bool) \<Rightarrow> unit result" where
  "checkPattern v pattern = (if \<not> str_matches pattern v then invalid ''malformed'' else Inr ())"

definition checkString :: "json \<Rightarrow> nat \<Rightarrow> unit result" where
  "checkString v minLength =
     (if \<not> str_matches (\<lambda>s. minLength \<le> length s \<and> length s \<le> MAX_FIELD_LENGTH) v then invalid ''must be a string'' else Inr ())"

definition check_capabilities :: "json \<Rightarrow> unit result" where
  "check_capabilities v =
     (if \<not> (case v of JsArr cs \<Rightarrow> length cs \<le> MAX_CAPABILITIES \<and> list_all capability_ok cs \<and> distinct cs | _ \<Rightarrow> False)
      then invalid ''capabilities'' else Inr ())"

definition checkMember :: "(string \<Rightarrow> bytes) \<Rightarrow> json \<Rightarrow> unit result" where
  "checkMember sha256 v =
     (if \<not> isPlainRecord v then invalid ''not an object''
      else
        rbind (checkKeys v MEMBER_KEYS) (\<lambda>_.
        rbind (checkPattern (json_field v ''address'') ADDRESS_RE) (\<lambda>_.
        rbind (checkPattern (json_field v ''sphinxKey'') (lower_hex_text 64)) (\<lambda>_.
        rbind (checkString (json_field v ''url'') 1) (\<lambda>_.
        rbind (checkString (json_field v ''ingressUrl'') 0) (\<lambda>_.
        rbind (checkString (json_field v ''metadataUrl'') 0) (\<lambda>_.
        rbind (checkPattern (json_field v ''stake'') re_stake) (\<lambda>_.
        let role = json_field v ''role''; layer = json_field v ''layer''; status = json_field v ''status'' in
        if role \<notin> {JsInt 1, JsInt 2, JsInt 3} then invalid ''role must be 1, 2 or 3''
        else if layer \<notin> {JsInt 0, JsInt 1, JsInt 2} then invalid ''layer must be 0, 1 or 2''
        else if as_int layer \<notin> set (layersForRole (as_int role)) then invalid ''layer outside role''
        else if as_int layer \<noteq> primaryLayerForRole sha256 (as_str (json_field v ''address'')) (as_int role)
        then invalid ''layer is not the primary layer''
        else if status \<notin> {JsInt 1, JsInt 2} then invalid ''status must be 1 or 2''
        else if \<not> is_bool (json_field v ''frozen'') then invalid ''frozen must be a boolean''
        else check_capabilities (json_field v ''capabilities'')))))))))"

fun check_members :: "(string \<Rightarrow> bytes) \<Rightarrow> json list \<Rightarrow> unit result" where
  "check_members sha256 [] = Inr ()"
| "check_members sha256 (m # ms) = rbind (checkMember sha256 m) (\<lambda>_. check_members sha256 ms)"

definition as_member :: "json \<Rightarrow> pinned_member" where
  "as_member v = \<lparr>pm_address = as_str (json_field v ''address''), pm_sphinxKey = as_str (json_field v ''sphinxKey''),
     pm_url = as_str (json_field v ''url''), pm_ingressUrl = as_str (json_field v ''ingressUrl''),
     pm_metadataUrl = as_str (json_field v ''metadataUrl''), pm_stake = as_str (json_field v ''stake''),
     pm_role = as_int (json_field v ''role''), pm_layer = as_int (json_field v ''layer''),
     pm_status = as_int (json_field v ''status''), pm_frozen = as_bool (json_field v ''frozen''),
     pm_capabilities = map as_str (as_list (json_field v ''capabilities''))\<rparr>"

definition as_pinned :: "json \<Rightarrow> pinned_snapshot" where
  "as_pinned v = \<lparr>ps_chainId = as_int (json_field v ''chainId''), ps_registry = as_str (json_field v ''registry''),
     ps_blockNumber = as_int (json_field v ''blockNumber''), ps_blockHash = as_str (json_field v ''blockHash''),
     ps_fingerprint = as_str (json_field v ''fingerprint''), ps_relayerCount = as_int (json_field v ''relayerCount''),
     ps_powDifficulty = as_int (json_field v ''powDifficulty''), ps_members = map as_member (as_list (json_field v ''members''))\<rparr>"

definition toRelayerNode :: "'a pinned_member_scheme \<Rightarrow> relayer_node" where
  "toRelayerNode m = \<lparr>rn_address = pm_address m, sphinx_key = pm_sphinxKey m, rn_url = pm_url m, stake = pm_stake m, last_seen = 0,
     is_privileged = (pm_stake m = ''0''), rn_layer = pm_layer m, rn_role = pm_role m, ingress_url = Some (pm_ingressUrl m),
     metadata_url = Some (pm_metadataUrl m)\<rparr>"

definition pinnedRelayerNodes :: "pinned_snapshot \<Rightarrow> relayer_node list" where
  "pinnedRelayerNodes pinned = map toRelayerNode (ps_members pinned)"

definition verifyPinnedSnapshot :: "(bytes \<Rightarrow> string) \<Rightarrow> (string \<Rightarrow> bytes) \<Rightarrow> json \<Rightarrow> unit result" where
  "verifyPinnedSnapshot keccak256 sha256 v =
     (if \<not> isPlainRecord v then invalid ''the snapshot is not an object''
      else
        rbind (checkKeys v SNAPSHOT_KEYS) (\<lambda>_.
        if json_field v ''format'' \<noteq> JsStr PINNED_SNAPSHOT_FORMAT then invalid ''format''
        else
        rbind (checkInteger (json_field v ''chainId'') 1 (2 ^ 53 - 1)) (\<lambda>_.
        rbind (checkPattern (json_field v ''registry'') ADDRESS_RE) (\<lambda>_.
        rbind (checkInteger (json_field v ''blockNumber'') 1 (2 ^ 53 - 1)) (\<lambda>_.
        rbind (checkPattern (json_field v ''blockHash'') HASH_RE) (\<lambda>_.
        rbind (checkPattern (json_field v ''fingerprint'') (lower_hex_text 64)) (\<lambda>_.
        rbind (checkInteger (json_field v ''relayerCount'') 1 MAX_PINNED_MEMBERS) (\<lambda>_.
        rbind (checkInteger (json_field v ''powDifficulty'') 0 MAX_PINNED_POW_DIFFICULTY) (\<lambda>_.
        case json_field v ''members'' of
          JsArr members \<Rightarrow>
            if length members < 1 \<or> int (length members) > MAX_PINNED_MEMBERS then invalid ''members''
            else rbind (check_members sha256 members) (\<lambda>_.
              let addresses = map pm_address (map as_member members) in
              if list_ex (\<lambda>i. \<not> js_less (addresses ! (i - 1)) (addresses ! i)) [1..<length addresses]
              then invalid ''members must be sorted by address, ascending and without duplicates''
              else if int (length members) \<noteq> as_int (json_field v ''relayerCount'') then invalid ''relayerCount''
              else rbind (computeTopologyFingerprint keccak256 (pinnedRelayerNodes (as_pinned v))) (\<lambda>computed.
                if computed \<noteq> as_str (json_field v ''fingerprint'') then invalid ''fingerprint mismatch'' else Inr ()))
        | _ \<Rightarrow> invalid ''members'')))))))))"

subsection \<open>Membership\<close>

definition eligiblePinnedMembers :: "pinned_snapshot \<Rightarrow> pinned_member list" where
  "eligiblePinnedMembers pinned =
     filter (\<lambda>m. (pm_status m = 1 \<or> pm_status m = 2) \<and> \<not> pm_frozen m) (ps_members pinned)"

definition floorRecords :: "pinned_snapshot \<Rightarrow> member_record list" where
  "floorRecords pinned =
     map (\<lambda>m. pinned_member.extend m \<lparr>mr_floor = True, mr_probation = False\<rparr>) (eligiblePinnedMembers pinned)"

definition pinnedKpsAddresses :: "pinned_snapshot \<Rightarrow> (string, string) jsmap" where
  "pinnedKpsAddresses pinned =
     fold (\<lambda>m acc. case kpsAddrFromMetadataUrl (pm_metadataUrl m) of None \<Rightarrow> acc | Some a \<Rightarrow> jsmap_set (pm_address m) a acc)
       (ps_members pinned) []"

definition invertMap :: "(string, string) jsmap \<Rightarrow> (string, string) jsmap" where
  "invertMap m = fold (\<lambda>(k, v). jsmap_set v k) m []"

record routing_context =
  rx_endpoints :: "(string, string) jsmap"
  rx_entryAddresses :: "string list option"
  rx_capabilities :: "(string, string list) jsmap"
  rx_probation :: "string list"

text \<open>A KPS error thrown by \<open>kpsEntryEndpoint\<close> propagates; only its message is kept.\<close>

definition lift_kps :: "'a kps_result \<Rightarrow> 'a result" where
  "lift_kps r = (case r of Inr x \<Rightarrow> Inr x | Inl (NoxKpsError _ m) \<Rightarrow> Inl (JsError m))"

definition routing_node :: "routing_context \<Rightarrow> relayer_node \<Rightarrow> topology_node result" where
  "routing_node context raw =
     rbind (parseNode raw) (\<lambda>n.
       let allowed = (case jsmap_get (rx_endpoints context) (node_id n) of
               None \<Rightarrow> None
             | Some a \<Rightarrow> (case rx_entryAddresses context of
                   None \<Rightarrow> Some a | Some s \<Rightarrow> if a \<in> set s then Some a else None));
           capabilities = (case jsmap_get (rx_capabilities context) (node_id n) of None \<Rightarrow> [] | Some cs \<Rightarrow> cs) in
       rbind (case allowed of Some a \<Rightarrow> lift_kps (kpsEntryEndpoint a) | None \<Rightarrow> Inr []) (\<lambda>address.
       Inr (n\<lparr>node_address := address, node_capabilities := Some capabilities,
              probation := (node_id n \<in> set (rx_probation context))\<rparr>)))"

fun routingNodes :: "routing_context \<Rightarrow> relayer_node list \<Rightarrow> topology_node list result" where
  "routingNodes context [] = Inr []"
| "routingNodes context (raw # rest) =
     rbind (routing_node context raw) (\<lambda>n. rbind (routingNodes context rest) (\<lambda>ns. Inr (n # ns)))"

definition pinnedRoutingContext :: "pinned_snapshot \<Rightarrow> string list option \<Rightarrow> routing_context" where
  "pinnedRoutingContext pinned entryAddresses =
     \<lparr>rx_endpoints = pinnedKpsAddresses pinned, rx_entryAddresses = entryAddresses,
      rx_capabilities = fold (\<lambda>m. jsmap_set (pm_address m) (pm_capabilities m)) (ps_members pinned) [], rx_probation = []\<rparr>"

definition kpsTopologyNodes :: "pinned_snapshot \<Rightarrow> relayer_node list \<Rightarrow> string list option \<Rightarrow> topology_node list result" where
  "kpsTopologyNodes pinned members entryAddresses = routingNodes (pinnedRoutingContext pinned entryAddresses) members"

definition pinnedPowDifficulty :: "pinned_snapshot \<Rightarrow> topology_snapshot list \<Rightarrow> int" where
  "pinnedPowDifficulty pinned served =
     min (fold (\<lambda>sn d. case pow_difficulty sn of Some v \<Rightarrow> if isSafeInteger v \<and> v > d then v else d | None \<Rightarrow> d)
            served (ps_powDifficulty pinned)) MAX_PINNED_POW_DIFFICULTY"

definition formsRouteWith :: "(nat \<Rightarrow> nat \<Rightarrow> nat) \<Rightarrow> relayer_node list \<Rightarrow> routing_context \<Rightarrow> bool option" where
  "formsRouteWith rnd members context =
     (if length members = 0 then Some False
      else (case routingNodes context members of
          Inl _ \<Rightarrow> Some False
        | Inr nodes \<Rightarrow>
            map_option is_ok (selectRoute rnd nodes None None None (\<lambda>n. length (node_address n) > 0) None)))"

definition formsRoute :: "(nat \<Rightarrow> nat \<Rightarrow> nat) \<Rightarrow> pinned_snapshot \<Rightarrow> relayer_node list \<Rightarrow> string list option \<Rightarrow> bool option" where
  "formsRoute rnd pinned members entryAddresses = formsRouteWith rnd members (pinnedRoutingContext pinned entryAddresses)"

subsection \<open>Served documents\<close>

record served_topology =
  sv_anchor :: string
  sv_snapshot :: topology_snapshot

datatype route_layer = LayerEntry | LayerMix | LayerExit

definition ROUTE_LAYERS :: "route_layer list" where
  "ROUTE_LAYERS = [LayerEntry, LayerMix, LayerExit]"

definition MIN_REMOVAL_SOURCES :: int where
  "MIN_REMOVAL_SOURCES = 2"

definition MIN_MEMBERS_PER_LAYER :: int where
  "MIN_MEMBERS_PER_LAYER = 2"

definition MAX_CANDIDATES :: nat where
  "MAX_CANDIDATES = 256"

record working_set =
  ws_members :: "relayer_node list"
  ws_removed :: "string list"
  ws_ignoredAdditions :: nat
  ws_relocated :: "string list"
  ws_sourcesAccepted :: nat
  ws_removalQuorum :: bool
  ws_floorApplied :: bool
  ws_floorLayers :: "route_layer list"
  ws_offlineLayers :: "route_layer list"
  ws_rejected :: "(string \<times> string) list"

record apply_options =
  ao_clockSkewToleranceSeconds :: int
  ao_livenessMaxAgeSeconds :: int
  ao_entryAddresses :: "string list option"
  ao_previous :: "relayer_node list option"
  ao_membership :: "member_record list option"
  ao_anchorMembers :: "(string, string) jsmap option"
  ao_endpoints :: "(string, string) jsmap option"
  ao_membershipBlock :: "int option"
  ao_minRemovalSources :: "int option"
  ao_minMembersPerLayer :: "int option"

abbreviation or_else_value :: "'a option \<Rightarrow> 'a \<Rightarrow> 'a" where
  "or_else_value x d \<equiv> (case x of None \<Rightarrow> d | Some v \<Rightarrow> v)"

definition sv_block :: "topology_snapshot \<Rightarrow> int" where
  "sv_block sn = or_else_value (block_number sn) 0"

definition sv_time :: "topology_snapshot \<Rightarrow> int" where
  "sv_time sn = or_else_value (timestamp sn) 0"

definition listsAddress :: "topology_snapshot \<Rightarrow> string \<Rightarrow> bool" where
  "listsAddress sn address = list_ex (\<lambda>n. toLowerCase (rn_address n) = address) (sn_nodes sn)"

definition findWithIdentity :: "topology_snapshot \<Rightarrow> 'a pinned_member_scheme \<Rightarrow> relayer_node option" where
  "findWithIdentity sn m =
     (case List.find (\<lambda>n. toLowerCase (rn_address n) = pm_address m) (sn_nodes sn) of
        None \<Rightarrow> None
      | Some n \<Rightarrow>
          if strip_0x (toLowerCase (sphinx_key n)) = pm_sphinxKey m \<and> rn_role n = pm_role m \<and> rn_layer n = pm_layer m
          then Some n else None)"

definition isOnline :: "topology_snapshot \<Rightarrow> string \<Rightarrow> int \<Rightarrow> bool" where
  "isOnline sn address maxAgeSeconds =
     (case Option.bind (liveness sn) (List.find (\<lambda>o1. toLowerCase (tl_address o1) = address)) of
        None \<Rightarrow> False
      | Some o1 \<Rightarrow> tl_status o1 = ''online'' \<and> observed_at_unix o1 \<le> sv_time sn \<and> sv_time sn - observed_at_unix o1 \<le> maxAgeSeconds)"

definition rejectionReason ::
  "(bytes \<Rightarrow> string) \<Rightarrow> (string \<Rightarrow> bytes) \<Rightarrow> pinned_snapshot \<Rightarrow> served_topology \<Rightarrow> (string, string) jsmap
     \<Rightarrow> (string, member_record) jsmap \<Rightarrow> int \<Rightarrow> apply_options \<Rightarrow> string option" where
  "rejectionReason keccak256 sha256 pinned source anchorMembers baseMap nowUnix options =
     (let sn = sv_snapshot source in
      if length (sn_nodes sn) > MAX_CANDIDATES then Some ''lists more nodes than a registry holds for this client''
      else if \<not> is_ok (verifySelfConsistency keccak256 sha256 sn True) then Some ''not self-consistent''
      else if sv_block sn < ps_blockNumber pinned then Some ''pinned before the snapshot block''
      else if sv_time sn < nowUnix - (ao_livenessMaxAgeSeconds options + ao_clockSkewToleranceSeconds options)
           \<or> sv_time sn > nowUnix + ao_clockSkewToleranceSeconds options
      then Some ''timestamp is outside the window''
      else (case jsmap_get anchorMembers (sv_anchor source) of
          None \<Rightarrow> Some ''the anchor maps to no known member''
        | Some anchorMember \<Rightarrow>
            (case jsmap_get baseMap anchorMember of
               None \<Rightarrow> Some ''the member behind the anchor is not an eligible known member''
             | Some m \<Rightarrow>
                 if findWithIdentity sn m = None then Some ''the document omits the member that served it''
                 else None)))"

definition anchor_sets :: "served_topology list \<Rightarrow> member_record \<Rightarrow> (string, string list) jsmap" where
  "anchor_sets present m =
     fold (\<lambda>d acc. case findWithIdentity (sv_snapshot d) m of
         None \<Rightarrow> acc
       | Some n \<Rightarrow>
           if rn_url n = pm_url m then acc
           else jsmap_set (rn_url n) (List.insert (sv_anchor d) (or_else_value (jsmap_get acc (rn_url n)) [])) acc) present []"

definition agreedNewUrl :: "served_topology list \<Rightarrow> member_record \<Rightarrow> int \<Rightarrow> string option" where
  "agreedNewUrl present m minSources =
     (case filter (\<lambda>(_, anchors). int (length anchors) \<ge> minSources) (anchor_sets present m) of
        [(url, _)] \<Rightarrow> Some url
      | _ \<Rightarrow> None)"

definition isInLayer :: "topology_node \<Rightarrow> route_layer \<Rightarrow> bool" where
  "isInLayer n layer =
     (case layer of
        LayerEntry \<Rightarrow> 0 \<in> set (layersForRole (node_role n)) \<and> length (node_address n) > 0
      | LayerMix \<Rightarrow> 1 \<in> set (layersForRole (node_role n))
      | LayerExit \<Rightarrow> 2 \<in> set (layersForRole (node_role n)) \<and> (node_role n = 2 \<or> node_role n = 3))"

text \<open>The evidence about one member: \<open>listed\<close>, \<open>kept\<close> and \<open>relocatedUrls\<close> after its turn.\<close>

record evidence =
  ev_listed :: "string list"
  ev_kept :: "string list"
  ev_relocated :: "(string, string) jsmap"

definition weigh_member ::
  "served_topology list \<Rightarrow> int \<Rightarrow> int \<Rightarrow> int \<Rightarrow> member_record \<Rightarrow> evidence \<Rightarrow> evidence" where
  "weigh_member accepted membershipBlock minSources maxAge m ev =
     (let present = filter (\<lambda>d. findWithIdentity (sv_snapshot d) m \<noteq> None) accepted;
          allOlder = list_all (\<lambda>d. sv_block (sv_snapshot d) < membershipBlock) accepted in
      if present = [] then
        (if allOlder \<and> \<not> list_ex (\<lambda>d. listsAddress (sv_snapshot d) (pm_address m)) accepted
         then ev\<lparr>ev_listed := pm_address m # ev_listed ev, ev_kept := pm_address m # ev_kept ev\<rparr> else ev)
      else
        (let ev1 = ev\<lparr>ev_listed := pm_address m # ev_listed ev\<rparr>;
             ev2 = (if list_ex (\<lambda>d. isOnline (sv_snapshot d) (pm_address m) maxAge) present
                    then ev1\<lparr>ev_kept := pm_address m # ev_kept ev1\<rparr> else ev1);
             newer = filter (\<lambda>d. sv_block (sv_snapshot d) > membershipBlock) present in
         (case agreedNewUrl newer m minSources of
            None \<Rightarrow> ev2
          | Some u \<Rightarrow> ev2\<lparr>ev_relocated := jsmap_set (pm_address m) u (ev_relocated ev2)\<rparr>)))"

text \<open>What the loop over the layers accumulates: \<open>kept\<close>, \<open>floorLayers\<close>, \<open>offlineLayers\<close>, \<open>gone\<close>.\<close>

record floor_state =
  fs_kept :: "string list"
  fs_floorLayers :: "route_layer list"
  fs_offlineLayers :: "route_layer list"
  fs_gone :: "route_layer list"

definition floor_step ::
  "topology_node list \<Rightarrow> string list \<Rightarrow> string list \<Rightarrow> string list \<Rightarrow> int \<Rightarrow> route_layer \<Rightarrow> floor_state \<Rightarrow> floor_state" where
  "floor_step baseNodes listed agreed previous minPerLayer layer st =
     (let inLayer = filter (\<lambda>n. isInLayer n layer) baseNodes in
      if length inLayer = 0 then st
      else if \<not> list_ex (\<lambda>n. node_id n \<in> set listed) inLayer then st\<lparr>fs_gone := fs_gone st @ [layer]\<rparr>
      else
        (let floor = min minPerLayer (int (length inLayer));
             remaining = length (filter (\<lambda>n. node_id n \<in> set agreed) inLayer) in
         if int remaining \<ge> floor then st
         else
           (let restored = filter (\<lambda>n. node_id n \<in> set previous) inLayer;
                st1 = st\<lparr>fs_floorLayers := fs_floorLayers st @ [layer]\<rparr> in
            if remaining = 0 then
              (let back = (if length restored > 0 then restored else filter (\<lambda>n. node_id n \<in> set listed) inLayer) in
               st1\<lparr>fs_offlineLayers := fs_offlineLayers st1 @ [layer], fs_kept := fs_kept st1 @ map node_id back\<rparr>)
            else st1\<lparr>fs_kept := fs_kept st1 @ map node_id restored\<rparr>)))"

definition base_map :: "member_record list \<Rightarrow> (string, member_record) jsmap" where
  "base_map base = fold (\<lambda>m. jsmap_set (pm_address m) m) base []"

definition option_base :: "pinned_snapshot \<Rightarrow> apply_options \<Rightarrow> member_record list" where
  "option_base pinned options = or_else_value (ao_membership options) (floorRecords pinned)"

definition rejection_of ::
  "(bytes \<Rightarrow> string) \<Rightarrow> (string \<Rightarrow> bytes) \<Rightarrow> pinned_snapshot \<Rightarrow> int \<Rightarrow> apply_options \<Rightarrow> served_topology \<Rightarrow> string option" where
  "rejection_of keccak256 sha256 pinned nowUnix options source =
     rejectionReason keccak256 sha256 pinned source
       (or_else_value (ao_anchorMembers options) (invertMap (pinnedKpsAddresses pinned)))
       (base_map (option_base pinned options)) nowUnix options"

definition with_url :: "member_record \<Rightarrow> string option \<Rightarrow> relayer_node" where
  "with_url m url = toRelayerNode (case url of None \<Rightarrow> m | Some u \<Rightarrow> m\<lparr>pm_url := u\<rparr>)"

definition applyServedTopologies ::
  "(bytes \<Rightarrow> string) \<Rightarrow> (string \<Rightarrow> bytes) \<Rightarrow> pinned_snapshot \<Rightarrow> served_topology list \<Rightarrow> int \<Rightarrow> apply_options \<Rightarrow> working_set result" where
  "applyServedTopologies keccak256 sha256 pinned served nowUnix options =
     (let base = option_base pinned options;
          minSources = or_else_value (ao_minRemovalSources options) MIN_REMOVAL_SOURCES;
          minPerLayer = or_else_value (ao_minMembersPerLayer options) MIN_MEMBERS_PER_LAYER;
          reason = rejection_of keccak256 sha256 pinned nowUnix options;
          accepted = filter (\<lambda>d. reason d = None) served;
          rejected = map (\<lambda>d. (sv_anchor d, the (reason d))) (filter (\<lambda>d. reason d \<noteq> None) served);
          additions = filter (\<lambda>a. a \<notin> set (map pm_address base))
            (concat (map (\<lambda>d. map (\<lambda>n. toLowerCase (rn_address n)) (sn_nodes (sv_snapshot d))) accepted));
          unchanged = \<lparr>ws_members = map toRelayerNode base, ws_removed = [], ws_ignoredAdditions = card (set additions),
            ws_relocated = [], ws_sourcesAccepted = length accepted, ws_removalQuorum = False, ws_floorApplied = False,
            ws_floorLayers = [], ws_offlineLayers = [], ws_rejected = rejected\<rparr> in
      if int (card (set (map sv_anchor accepted))) < minSources then Inr unchanged
      else
        (let membershipBlock = or_else_value (ao_membershipBlock options) (ps_blockNumber pinned);
             ev = fold (weigh_member accepted membershipBlock minSources (ao_livenessMaxAgeSeconds options)) base
                    \<lparr>ev_listed = [], ev_kept = [], ev_relocated = []\<rparr>;
             context = \<lparr>rx_endpoints = or_else_value (ao_endpoints options) (pinnedKpsAddresses pinned),
               rx_entryAddresses = ao_entryAddresses options, rx_capabilities = [], rx_probation = []\<rparr> in
         rbind (routingNodes context (map toRelayerNode base)) (\<lambda>baseNodes.
         let previous = map (\<lambda>n. toLowerCase (rn_address n)) (or_else_value (ao_previous options) (map toRelayerNode base));
             st = fold (floor_step baseNodes (ev_listed ev) (ev_kept ev) previous minPerLayer) ROUTE_LAYERS
                    \<lparr>fs_kept = ev_kept ev, fs_floorLayers = [], fs_offlineLayers = [], fs_gone = []\<rparr> in
         if length (fs_gone st) > 0 then throw TopologyStale ''the registry no longer lists the members of a layer''
         else
           (let kept = filter (\<lambda>m. pm_address m \<in> set (fs_kept st)) base in
            Inr \<lparr>ws_members = map (\<lambda>m. with_url m (jsmap_get (ev_relocated ev) (pm_address m))) kept,
              ws_removed = map pm_address (filter (\<lambda>m. pm_address m \<notin> set (fs_kept st)) base),
              ws_ignoredAdditions = card (set additions),
              ws_relocated = map pm_address (filter (\<lambda>m. jsmap_has (ev_relocated ev) (pm_address m)) kept),
              ws_sourcesAccepted = length accepted, ws_removalQuorum = True, ws_floorApplied = (length (fs_floorLayers st) > 0),
              ws_floorLayers = fs_floorLayers st, ws_offlineLayers = fs_offlineLayers st, ws_rejected = rejected\<rparr>))))"

end
