(* ===== verification/Kps_Removals.thy ===== *)
theory Kps_Removals
  imports Kps_Pinned Kps_Naming Topology_Verified
begin

section \<open>The removals-only rule\<close>

text \<open>
  What served documents can do to the membership of a bundle: a verified snapshot is a sound base (\<open>sound_base\<close>), a
  member leaves only when enough different anchors agree, no layer drops below its floor over any sequence of refreshes
  (\<open>working_sets\<close>), and the rule fails only on registry evidence.
\<close>

subsection \<open>What the loops compute\<close>

definition present_docs :: "served_topology list \<Rightarrow> member_record \<Rightarrow> served_topology list" where
  "present_docs accepted m = filter (\<lambda>d. findWithIdentity (sv_snapshot d) m \<noteq> None) accepted"

text \<open>Every accepted document predates the membership and none mentions the member.\<close>

definition unknown_to :: "served_topology list \<Rightarrow> int \<Rightarrow> member_record \<Rightarrow> bool" where
  "unknown_to accepted membershipBlock m =
     (list_all (\<lambda>d. sv_block (sv_snapshot d) < membershipBlock) accepted
      \<and> \<not> list_ex (\<lambda>d. listsAddress (sv_snapshot d) (pm_address m)) accepted)"

definition member_listed :: "served_topology list \<Rightarrow> int \<Rightarrow> member_record \<Rightarrow> bool" where
  "member_listed accepted membershipBlock m = (present_docs accepted m \<noteq> [] \<or> unknown_to accepted membershipBlock m)"

definition member_online :: "served_topology list \<Rightarrow> int \<Rightarrow> int \<Rightarrow> member_record \<Rightarrow> bool" where
  "member_online accepted membershipBlock maxAge m =
     (if present_docs accepted m = [] then unknown_to accepted membershipBlock m
      else list_ex (\<lambda>d. isOnline (sv_snapshot d) (pm_address m) maxAge) (present_docs accepted m))"

definition member_url :: "served_topology list \<Rightarrow> int \<Rightarrow> int \<Rightarrow> member_record \<Rightarrow> string option" where
  "member_url accepted membershipBlock minSources m =
     agreedNewUrl (filter (\<lambda>d. sv_block (sv_snapshot d) > membershipBlock) (present_docs accepted m)) m minSources"

lemma weigh_member_fields:
  "ev_listed (weigh_member acc b k a m ev) = (if member_listed acc b m then pm_address m # ev_listed ev else ev_listed ev)"
  "ev_kept (weigh_member acc b k a m ev) = (if member_online acc b a m then pm_address m # ev_kept ev else ev_kept ev)"
  "ev_relocated (weigh_member acc b k a m ev) =
     (case member_url acc b k m of None \<Rightarrow> ev_relocated ev
      | Some u \<Rightarrow> jsmap_set (pm_address m) u (ev_relocated ev))"
proof -
  have "agreedNewUrl [] m k = None" by (simp add: agreedNewUrl_def anchor_sets_def)
  then have url: "present_docs acc m = [] \<Longrightarrow> member_url acc b k m = None" by (simp add: member_url_def)
  show "ev_listed (weigh_member acc b k a m ev) = (if member_listed acc b m then pm_address m # ev_listed ev else ev_listed ev)"
    "ev_kept (weigh_member acc b k a m ev) = (if member_online acc b a m then pm_address m # ev_kept ev else ev_kept ev)"
    "ev_relocated (weigh_member acc b k a m ev) =
       (case member_url acc b k m of None \<Rightarrow> ev_relocated ev | Some u \<Rightarrow> jsmap_set (pm_address m) u (ev_relocated ev))"
    using url unfolding weigh_member_def Let_def member_listed_def member_online_def unknown_to_def
      present_docs_def[symmetric] member_url_def by (auto split: option.split)
qed

lemma weigh_all_listed:
  "set (ev_listed (fold (weigh_member acc b k a) base ev)) =
     set (ev_listed ev) \<union> pm_address ` {m \<in> set base. member_listed acc b m}"
  by (induction base arbitrary: ev) (auto simp: weigh_member_fields)

lemma weigh_all_kept:
  "set (ev_kept (fold (weigh_member acc b k a) base ev)) =
     set (ev_kept ev) \<union> pm_address ` {m \<in> set base. member_online acc b a m}"
  by (induction base arbitrary: ev) (auto simp: weigh_member_fields)

lemma weigh_all_relocated:
  "jsmap_get (ev_relocated (fold (weigh_member acc b k a) base ev)) x = Some u \<Longrightarrow>
     jsmap_get (ev_relocated ev) x = Some u \<or> (\<exists>m \<in> set base. pm_address m = x \<and> member_url acc b k m = Some u)"
proof (induction base arbitrary: ev)
  case (Cons m base)
  from Cons.IH[of "weigh_member acc b k a m ev"] Cons.prems
  have "jsmap_get (ev_relocated (weigh_member acc b k a m ev)) x = Some u
      \<or> (\<exists>m \<in> set base. pm_address m = x \<and> member_url acc b k m = Some u)" by simp
  then show ?case
    by (auto simp: weigh_member_fields jsmap_get_def jsmap_set_map_of split: option.splits if_splits)
qed simp

definition layer_nodes :: "topology_node list \<Rightarrow> route_layer \<Rightarrow> topology_node list" where
  "layer_nodes nodes layer = filter (\<lambda>n. isInLayer n layer) nodes"

definition layer_count :: "topology_node list \<Rightarrow> string list \<Rightarrow> route_layer \<Rightarrow> nat" where
  "layer_count nodes ids layer = length (filter (\<lambda>n. node_id n \<in> set ids) (layer_nodes nodes layer))"

definition layer_floor :: "topology_node list \<Rightarrow> int \<Rightarrow> route_layer \<Rightarrow> int" where
  "layer_floor nodes minPerLayer layer = min minPerLayer (int (length (layer_nodes nodes layer)))"

definition layer_gone :: "topology_node list \<Rightarrow> string list \<Rightarrow> route_layer \<Rightarrow> bool" where
  "layer_gone nodes listed layer =
     (layer_nodes nodes layer \<noteq> [] \<and> \<not> list_ex (\<lambda>n. node_id n \<in> set listed) (layer_nodes nodes layer))"

lemma filter_length_mono: "(\<And>x. x \<in> set xs \<Longrightarrow> P x \<Longrightarrow> Q x) \<Longrightarrow> length (filter P xs) \<le> length (filter Q xs)"
  by (induction xs) auto

lemma layer_count_mono: "set ids \<subseteq> set ids' \<Longrightarrow> layer_count nodes ids layer \<le> layer_count nodes ids' layer"
  unfolding layer_count_def by (rule filter_length_mono) blast

lemma floor_step_gone:
  "fs_gone (floor_step nodes listed agreed previous k layer st) = fs_gone st @ (if layer_gone nodes listed layer then [layer] else [])"
  by (auto simp: floor_step_def Let_def layer_gone_def layer_nodes_def)

lemma floor_step_kept: "set (fs_kept st) \<subseteq> set (fs_kept (floor_step nodes listed agreed previous k layer st))"
  by (auto simp: floor_step_def Let_def)

lemma floor_step_holds:
  assumes "\<not> layer_gone nodes listed layer" "set agreed \<subseteq> set (fs_kept st)"
    and "layer_floor nodes k layer \<le> int (layer_count nodes previous layer)"
  shows "layer_floor nodes k layer \<le> int (layer_count nodes (fs_kept (floor_step nodes listed agreed previous k layer st)) layer)"
proof -
  let ?st = "floor_step nodes listed agreed previous k layer st" and ?in = "layer_nodes nodes layer"
  have agreed: "set agreed \<subseteq> set (fs_kept ?st)" using assms(2) floor_step_kept by blast
  consider "?in = []" | "int (layer_count nodes agreed layer) \<ge> layer_floor nodes k layer"
    | "?in \<noteq> []" "int (layer_count nodes agreed layer) < layer_floor nodes k layer" by linarith
  then show ?thesis
  proof cases
    case 1
    then show ?thesis by (simp add: layer_floor_def)
  next
    case 2
    then show ?thesis using layer_count_mono[OF agreed, of nodes layer] by linarith
  next
    case 3
    then have "0 < layer_floor nodes k layer" by linarith
    then have "0 < layer_count nodes previous layer" using assms(3) by linarith
    then have "fs_kept ?st = fs_kept st @ map node_id (filter (\<lambda>n. node_id n \<in> set previous) ?in)"
      using 3 assms(1)
      by (auto simp: floor_step_def Let_def layer_gone_def layer_nodes_def layer_count_def layer_floor_def)
    then have "layer_count nodes previous layer \<le> layer_count nodes (fs_kept ?st) layer"
      unfolding layer_count_def by (intro filter_length_mono) auto
    then show ?thesis using assms(3) by linarith
  qed
qed

lemma floors_fold:
  assumes "set agreed \<subseteq> set (fs_kept st)"
  shows "set (fs_kept st) \<subseteq> set (fs_kept (fold (floor_step nodes listed agreed previous k) layers st))
    \<and> fs_gone (fold (floor_step nodes listed agreed previous k) layers st) = fs_gone st @ filter (layer_gone nodes listed) layers
    \<and> (\<forall>layer \<in> set layers. \<not> layer_gone nodes listed layer \<and> layer_floor nodes k layer \<le> int (layer_count nodes previous layer)
        \<longrightarrow> layer_floor nodes k layer
          \<le> int (layer_count nodes (fs_kept (fold (floor_step nodes listed agreed previous k) layers st)) layer))"
  using assms
proof (induction layers arbitrary: st)
  case (Cons l layers)
  let ?st = "floor_step nodes listed agreed previous k l st"
  let ?fin = "fold (floor_step nodes listed agreed previous k) layers ?st"
  have agreed: "set agreed \<subseteq> set (fs_kept ?st)" using Cons.prems floor_step_kept by blast
  note IH = Cons.IH[OF agreed]
  have grow: "set (fs_kept ?st) \<subseteq> set (fs_kept ?fin)" using IH by blast
  have "layer_floor nodes k l \<le> int (layer_count nodes (fs_kept ?fin) l)"
    if "\<not> layer_gone nodes listed l" "layer_floor nodes k l \<le> int (layer_count nodes previous l)"
    using floor_step_holds[OF that(1) Cons.prems that(2)] layer_count_mono[OF grow, of nodes l] by linarith
  then show ?case using IH floor_step_kept[of st nodes listed agreed previous k l] by (auto simp: floor_step_gone)
qed simp

text \<open>The floor loop only gives members back.\<close>

lemma floor_fold_ids:
  "set (fs_kept (fold (floor_step nodes listed agreed previous k) layers st)) \<subseteq> set (fs_kept st) \<union> node_id ` set nodes"
proof (induction layers arbitrary: st)
  case (Cons l layers)
  have "set (fs_kept (floor_step nodes listed agreed previous k l st)) \<subseteq> set (fs_kept st) \<union> node_id ` set nodes"
    by (auto simp: floor_step_def Let_def)
  then show ?case using Cons.IH[of "floor_step nodes listed agreed previous k l st"] by auto
qed simp

subsection \<open>New locations\<close>

definition url_anchors :: "served_topology list \<Rightarrow> member_record \<Rightarrow> string \<Rightarrow> string set" where
  "url_anchors docs m u = sv_anchor ` {d \<in> set docs. map_option rn_url (findWithIdentity (sv_snapshot d) m) = Some u}"

lemma anchor_sets_sound:
  assumes "(u, anchors) \<in> set (anchor_sets docs m)"
  shows "u \<noteq> pm_url m \<and> distinct anchors \<and> set anchors \<subseteq> url_anchors docs m u"
proof -
  define ok where "ok acc = (jsmap_wf acc \<and> (\<forall>u as. (u, as) \<in> set acc \<longrightarrow>
      u \<noteq> pm_url m \<and> distinct as \<and> set as \<subseteq> url_anchors docs m u))" for acc
  define f :: "served_topology \<Rightarrow> (string, string list) jsmap \<Rightarrow> (string, string list) jsmap"
    where "f d acc = (case findWithIdentity (sv_snapshot d) m of
         None \<Rightarrow> acc
       | Some n \<Rightarrow>
           if rn_url n = pm_url m then acc
           else jsmap_set (rn_url n) (List.insert (sv_anchor d) (or_else_value (jsmap_get acc (rn_url n)) [])) acc)" for d acc
  have step: "ok (f d acc)" if "ok acc" "d \<in> set docs" for d acc
  proof (cases "findWithIdentity (sv_snapshot d) m")
    case (Some n)
    show ?thesis
    proof (cases "rn_url n = pm_url m")
      case False
      let ?as = "or_else_value (jsmap_get acc (rn_url n)) []"
      have wf: "jsmap_wf acc" using that(1) by (simp add: ok_def)
      have old: "distinct ?as \<and> set ?as \<subseteq> url_anchors docs m (rn_url n)"
        using that(1) by (auto simp: ok_def dest: jsmap_get_Some_in split: option.split)
      have "sv_anchor d \<in> url_anchors docs m (rn_url n)" using Some that(2) by (auto simp: url_anchors_def)
      then have "distinct (List.insert (sv_anchor d) ?as) \<and> set (List.insert (sv_anchor d) ?as) \<subseteq> url_anchors docs m (rn_url n)"
        using old by auto
      moreover have "f d acc = jsmap_set (rn_url n) (List.insert (sv_anchor d) ?as) acc" using Some False by (simp add: f_def)
      ultimately show ?thesis
        using that(1) False wf by (auto simp: ok_def jsmap_wf_set set_jsmap_set[OF wf])
    qed (use Some that in \<open>simp add: f_def\<close>)
  qed (use that in \<open>simp add: f_def\<close>)
  have "ok (fold f ds acc)" if "set ds \<subseteq> set docs" "ok acc" for ds acc
    using that by (induction ds arbitrary: acc) (auto simp: step)
  moreover have "ok []" by (simp add: ok_def)
  moreover have "anchor_sets docs m = fold f docs []" by (simp add: anchor_sets_def f_def[abs_def])
  ultimately have "ok (anchor_sets docs m)" by simp
  then show ?thesis using assms unfolding ok_def by blast
qed

lemma agreedNewUrl_sound:
  assumes "agreedNewUrl docs m k = Some u"
  shows "u \<noteq> pm_url m \<and> k \<le> int (card (url_anchors docs m u))"
proof -
  obtain anchors where f: "filter (\<lambda>(_, anchors). k \<le> int (length anchors)) (anchor_sets docs m) = [(u, anchors)]"
    using assms unfolding agreedNewUrl_def by (auto split: list.splits)
  have "(u, anchors) \<in> set (filter (\<lambda>(_, anchors). k \<le> int (length anchors)) (anchor_sets docs m))"
    unfolding f by simp
  then have "(u, anchors) \<in> set (anchor_sets docs m)" "k \<le> int (length anchors)" by auto
  moreover have "finite (url_anchors docs m u)" by (simp add: url_anchors_def)
  ultimately show ?thesis using anchor_sets_sound[of u anchors docs m] card_mono[of "url_anchors docs m u" "set anchors"]
    by (auto simp: distinct_card)
qed

subsection \<open>A sound base membership\<close>

definition member_ok :: "'a pinned_member_scheme \<Rightarrow> bool" where
  "member_ok m = (ADDRESS_RE (pm_address m) \<and> lower_hex_text 64 (pm_sphinxKey m) \<and> re_stake (pm_stake m)
     \<and> pm_role m \<in> {1, 2, 3} \<and> pm_layer m \<in> set (layersForRole (pm_role m)))"

definition sound_base :: "member_record list \<Rightarrow> bool" where
  "sound_base base = (distinct (map pm_address base) \<and> list_all member_ok base)"

lemma lower_hex_char: "lower_hex_char c \<Longrightarrow> lower_char c = c \<and> is_hex c"
  by (auto simp: lower_hex_char_def lower_char_def is_digit_def is_hex_def hex_value_def Let_def)

lemma lower_hex_text: "lower_hex_text n s \<Longrightarrow> toLowerCase s = s \<and> hex_text n s"
  unfolding lower_hex_text_def hex_text_def toLowerCase_def list_all_iff by (simp add: lower_hex_char map_idI)

lemma pinned_address: "ADDRESS_RE a \<Longrightarrow> toLowerCase a = a \<and> re_address a \<and> normalizeAddress a = a"
proof -
  assume a: "ADDRESS_RE a"
  then obtain s where s: "a = CHR ''0'' # CHR ''x'' # s"
    by (cases a; cases "tl a") (auto simp: ADDRESS_RE_def)
  then have "toLowerCase s = s \<and> hex_text 40 s" using a lower_hex_text[of 40 s] by (simp add: ADDRESS_RE_def)
  then have "toLowerCase a = a" "re_address a" using s by (simp_all add: toLowerCase_def lower_0x re_address_def)
  then show ?thesis using normalize_lower[of a] by simp
qed

lemma sound_member: "sound_base base \<Longrightarrow> m \<in> set base \<Longrightarrow> member_ok m"
  by (simp add: sound_base_def list_all_iff)

text \<open>A routing node is its member: same identifier and role.\<close>

definition node_of :: "'a pinned_member_scheme \<Rightarrow> topology_node \<Rightarrow> bool" where
  "node_of m n = (node_id n = pm_address m \<and> node_role n = pm_role m \<and> length (publicKey n) = 32)"

lemma routing_node_of:
  assumes "member_ok m" "routing_node context (toRelayerNode m) = Inr n"
  shows "node_of m n"
proof -
  have "normalizeAddress (pm_address m) = pm_address m" using assms(1) pinned_address by (simp add: member_ok_def)
  moreover have "node_ok (toRelayerNode m)"
    using assms(1) pinned_address lower_hex_text[of 64 "pm_sphinxKey m"] by (auto simp: member_ok_def node_ok_def toRelayerNode_def)
  then obtain p where p: "parseNode (toRelayerNode m) = Inr p" "parsed_as (toRelayerNode m) p" using parseNode_ok by blast
  ultimately show ?thesis using assms(2)
    by (auto simp: routing_node_def node_of_def parsed_as_def toRelayerNode_def Let_def member_id_def rbind_Inr_iff)
qed

lemma routingNodes_of:
  "list_all member_ok base \<Longrightarrow> routingNodes context (map toRelayerNode base) = Inr nodes \<Longrightarrow> list_all2 node_of base nodes"
  by (induction base arbitrary: nodes) (auto simp: rbind_Inr_iff routing_node_of)

lemma node_ids: "list_all2 node_of base nodes \<Longrightarrow> map node_id nodes = map pm_address base"
  by (induction rule: list_all2_induct) (auto simp: node_of_def)

text \<open>With the entry locations the base members published, every node can be routed over.\<close>

lemma routing_node_exists:
  assumes "member_ok m" "\<forall>a \<in> set (map snd (rx_endpoints context)). isKpsAddress a"
  shows "\<exists>n. routing_node context (toRelayerNode m) = Inr n"
proof -
  have "node_ok (toRelayerNode m)"
    using assms(1) pinned_address lower_hex_text[of 64 "pm_sphinxKey m"] by (auto simp: member_ok_def node_ok_def toRelayerNode_def)
  then obtain p where p: "parseNode (toRelayerNode m) = Inr p" using parseNode_ok by blast
  have never: "kpsEntryEndpoint a \<noteq> Inl e" if "jsmap_get (rx_endpoints context) x = Some a" for a x e
  proof -
    have "a \<in> set (map snd (rx_endpoints context))" using jsmap_get_Some_in[OF that] by force
    then show ?thesis using assms(2) by (auto simp: isKpsAddress_iff kpsEntryEndpoint_def)
  qed
  show ?thesis using p
    by (auto simp: routing_node_def lift_kps_def Let_def never split: option.splits sum.splits kps_error.splits)
qed

lemma routingNodes_exist:
  assumes "\<forall>a \<in> set (map snd (rx_endpoints context)). isKpsAddress a"
  shows "list_all member_ok base \<Longrightarrow> \<exists>nodes. routingNodes context (map toRelayerNode base) = Inr nodes"
proof (induction base)
  case (Cons m base)
  then obtain nodes where "routingNodes context (map toRelayerNode base) = Inr nodes" by auto
  moreover obtain n where "routing_node context (toRelayerNode m) = Inr n"
    using routing_node_exists[OF _ assms, of m] Cons.prems by auto
  ultimately show ?case by simp
qed simp

lemma pinned_addresses_ok: "\<forall>a \<in> set (map snd (pinnedKpsAddresses pinned)). isKpsAddress a"
proof -
  have set_ok: "\<forall>a \<in> set (map snd (jsmap_set k v m)). P a" if "\<forall>a \<in> set (map snd m). P a" "P v"
    for P :: "string \<Rightarrow> bool" and k v and m :: "(string, string) jsmap"
    using that by (induction k v m rule: jsmap_set.induct) auto
  have "\<forall>a \<in> set (map snd (fold (\<lambda>m acc. case kpsAddrFromMetadataUrl (pm_metadataUrl m) of None \<Rightarrow> acc
      | Some a \<Rightarrow> jsmap_set (pm_address m) a acc) ms acc)). isKpsAddress a" if "\<forall>a \<in> set (map snd acc). isKpsAddress a"
    for ms :: "pinned_member list" and acc
    using that
  proof (induction ms arbitrary: acc)
    case (Cons m ms)
    show ?case
    proof (cases "kpsAddrFromMetadataUrl (pm_metadataUrl m)")
      case (Some a)
      then have "isKpsAddress a" using kps_endpoints_exact by blast
      then show ?thesis using Cons.IH[OF set_ok[OF Cons.prems]] Some by simp
    qed (use Cons in simp)
  qed simp
  from this[of "[]" "ps_members pinned"] show ?thesis by (simp add: pinnedKpsAddresses_def)
qed

subsection \<open>The rule, case by case\<close>

definition accepted_docs ::
  "(bytes \<Rightarrow> string) \<Rightarrow> (string \<Rightarrow> bytes) \<Rightarrow> pinned_snapshot \<Rightarrow> int \<Rightarrow> apply_options \<Rightarrow> served_topology list \<Rightarrow> served_topology list" where
  "accepted_docs keccak256 sha256 pinned now options served =
     filter (\<lambda>d. rejection_of keccak256 sha256 pinned now options d = None) served"

definition min_sources :: "apply_options \<Rightarrow> int" where
  "min_sources options = or_else_value (ao_minRemovalSources options) MIN_REMOVAL_SOURCES"

definition min_per_layer :: "apply_options \<Rightarrow> int" where
  "min_per_layer options = or_else_value (ao_minMembersPerLayer options) MIN_MEMBERS_PER_LAYER"

definition known_block :: "pinned_snapshot \<Rightarrow> apply_options \<Rightarrow> int" where
  "known_block pinned options = or_else_value (ao_membershipBlock options) (ps_blockNumber pinned)"

definition base_context :: "pinned_snapshot \<Rightarrow> apply_options \<Rightarrow> routing_context" where
  "base_context pinned options = \<lparr>rx_endpoints = or_else_value (ao_endpoints options) (pinnedKpsAddresses pinned),
     rx_entryAddresses = ao_entryAddresses options, rx_capabilities = [], rx_probation = []\<rparr>"

definition previous_ids :: "pinned_snapshot \<Rightarrow> apply_options \<Rightarrow> string list" where
  "previous_ids pinned options = map (\<lambda>n. toLowerCase (rn_address n))
     (or_else_value (ao_previous options) (map toRelayerNode (option_base pinned options)))"

definition weighed :: "pinned_snapshot \<Rightarrow> apply_options \<Rightarrow> served_topology list \<Rightarrow> evidence" where
  "weighed pinned options accepted =
     fold (weigh_member accepted (known_block pinned options) (min_sources options) (ao_livenessMaxAgeSeconds options))
       (option_base pinned options) \<lparr>ev_listed = [], ev_kept = [], ev_relocated = []\<rparr>"

definition floored :: "pinned_snapshot \<Rightarrow> apply_options \<Rightarrow> evidence \<Rightarrow> topology_node list \<Rightarrow> floor_state" where
  "floored pinned options ev nodes =
     fold (floor_step nodes (ev_listed ev) (ev_kept ev) (previous_ids pinned options) (min_per_layer options)) ROUTE_LAYERS
       \<lparr>fs_kept = ev_kept ev, fs_floorLayers = [], fs_offlineLayers = [], fs_gone = []\<rparr>"

lemma apply_no_quorum:
  assumes "int (card (sv_anchor ` set (accepted_docs k s pinned now options served))) < min_sources options"
  shows "\<exists>ws. applyServedTopologies k s pinned served now options = Inr ws
    \<and> ws_members ws = map toRelayerNode (option_base pinned options) \<and> ws_removed ws = []"
  using assms unfolding applyServedTopologies_def Let_def accepted_docs_def min_sources_def by simp

lemma apply_quorum:
  assumes "\<not> int (card (sv_anchor ` set (accepted_docs k s pinned now options served))) < min_sources options"
    and nodes: "routingNodes (base_context pinned options) (map toRelayerNode (option_base pinned options)) = Inr nodes"
  defines "ev \<equiv> weighed pinned options (accepted_docs k s pinned now options served)"
  defines "st \<equiv> floored pinned options ev nodes"
  defines "kept \<equiv> filter (\<lambda>m. pm_address m \<in> set (fs_kept st)) (option_base pinned options)"
  shows "(fs_gone st \<noteq> [] \<longrightarrow> (\<exists>m. applyServedTopologies k s pinned served now options = throw TopologyStale m))
    \<and> (fs_gone st = [] \<longrightarrow> (\<exists>ws. applyServedTopologies k s pinned served now options = Inr ws
        \<and> ws_members ws = map (\<lambda>m. with_url m (jsmap_get (ev_relocated ev) (pm_address m))) kept
        \<and> ws_removed ws = map pm_address (filter (\<lambda>m. pm_address m \<notin> set (fs_kept st)) (option_base pinned options))))"
proof -
  note u = applyServedTopologies_def Let_def accepted_docs_def[symmetric] min_sources_def[symmetric] min_per_layer_def[symmetric]
    known_block_def[symmetric] base_context_def[symmetric] previous_ids_def[symmetric] weighed_def[symmetric] ev_def[symmetric] nodes
    floored_def[symmetric] st_def[symmetric]
  show ?thesis using assms(1) unfolding u kept_def by (simp add: st_def)
qed

lemma apply_routing_error:
  assumes "applyServedTopologies k s pinned served now options = Inr ws"
    and "\<not> int (card (sv_anchor ` set (accepted_docs k s pinned now options served))) < min_sources options"
  shows "\<exists>nodes. routingNodes (base_context pinned options) (map toRelayerNode (option_base pinned options)) = Inr nodes"
proof -
  note u = applyServedTopologies_def Let_def accepted_docs_def[symmetric] min_sources_def[symmetric] base_context_def[symmetric]
  show ?thesis using assms unfolding u by (auto simp: rbind_Inr_iff)
qed

lemma base_map_in: "jsmap_get (base_map base) a = Some m \<Longrightarrow> m \<in> set base \<and> pm_address m = a"
proof -
  have "jsmap_get (fold (\<lambda>m. jsmap_set (pm_address m) m) ms acc) a = Some m \<Longrightarrow>
      jsmap_get acc a = Some m \<or> (m \<in> set ms \<and> pm_address m = a)" for ms :: "member_record list" and acc
    by (induction ms arbitrary: acc) (fastforce simp: jsmap_get_def jsmap_set_map_of split: if_splits)+
  from this[of base "[]"] show "jsmap_get (base_map base) a = Some m \<Longrightarrow> ?thesis" by (simp add: base_map_def jsmap_get_def)
qed

text \<open>What an accepted document satisfies.\<close>

definition acceptable ::
  "(bytes \<Rightarrow> string) \<Rightarrow> (string \<Rightarrow> bytes) \<Rightarrow> pinned_snapshot \<Rightarrow> int \<Rightarrow> apply_options \<Rightarrow> served_topology \<Rightarrow> bool" where
  "acceptable keccak256 sha256 pinned now options d =
     (let sn = sv_snapshot d in
      verifySelfConsistency keccak256 sha256 sn True = Inr () \<and> length (sn_nodes sn) \<le> 256 \<and> ps_blockNumber pinned \<le> sv_block sn
      \<and> now - (ao_livenessMaxAgeSeconds options + ao_clockSkewToleranceSeconds options) \<le> sv_time sn
      \<and> sv_time sn \<le> now + ao_clockSkewToleranceSeconds options
      \<and> (\<exists>m \<in> set (option_base pinned options). findWithIdentity sn m \<noteq> None
          \<and> jsmap_get (or_else_value (ao_anchorMembers options) (invertMap (pinnedKpsAddresses pinned))) (sv_anchor d) = Some (pm_address m)))"

lemma accepted_acceptable:
  "d \<in> set (accepted_docs k s pinned now options served) \<Longrightarrow> d \<in> set served \<and> acceptable k s pinned now options d"
  unfolding accepted_docs_def rejection_of_def rejectionReason_def acceptable_def Let_def
  by (auto simp: MAX_CANDIDATES_def is_ok_def split: if_splits option.splits sum.splits dest: base_map_in)

subsection \<open>Properties\<close>

lemma kept_ids:
  "set (ev_kept (weighed pinned options acc)) =
     pm_address ` {m \<in> set (option_base pinned options). member_online acc (known_block pinned options) (ao_livenessMaxAgeSeconds options) m}"
  "set (ev_listed (weighed pinned options acc)) =
     pm_address ` {m \<in> set (option_base pinned options). member_listed acc (known_block pinned options) m}"
  by (simp_all add: weighed_def weigh_all_kept weigh_all_listed)

lemma moved_url:
  assumes "sound_base (option_base pinned options)" "m \<in> set (option_base pinned options)"
    and "jsmap_get (ev_relocated (weighed pinned options acc)) (pm_address m) = Some u"
  shows "member_url acc (known_block pinned options) (min_sources options) m = Some u"
proof -
  obtain m' where m': "m' \<in> set (option_base pinned options)" "pm_address m' = pm_address m"
    "member_url acc (known_block pinned options) (min_sources options) m' = Some u"
    using weigh_all_relocated[OF assms(3)[unfolded weighed_def]] by (auto simp: jsmap_get_def)
  then have "m' = m" using assms(1,2) by (auto simp: sound_base_def distinct_map inj_on_def)
  then show ?thesis using m' by simp
qed

lemma all_layers: "set ROUTE_LAYERS = UNIV"
  by (auto simp: ROUTE_LAYERS_def intro: route_layer.exhaust)

lemma floored_facts:
  "set (ev_kept ev) \<subseteq> set (fs_kept (floored pinned options ev nodes))
   \<and> fs_gone (floored pinned options ev nodes) = filter (layer_gone nodes (ev_listed ev)) ROUTE_LAYERS
   \<and> (\<forall>layer. \<not> layer_gone nodes (ev_listed ev) layer
        \<and> layer_floor nodes (min_per_layer options) layer \<le> int (layer_count nodes (previous_ids pinned options) layer)
        \<longrightarrow> layer_floor nodes (min_per_layer options) layer
          \<le> int (layer_count nodes (fs_kept (floored pinned options ev nodes)) layer))"
proof -
  show ?thesis
    using all_layers floors_fold[of "ev_kept ev" "\<lparr>fs_kept = ev_kept ev, fs_floorLayers = [], fs_offlineLayers = [], fs_gone = []\<rparr>" nodes
        "ev_listed ev" "previous_ids pinned options" "min_per_layer options" ROUTE_LAYERS]
    unfolding floored_def by simp
qed

lemma apply_shape:
  assumes "applyServedTopologies k s pinned served now options = Inr ws"
  defines "acc \<equiv> accepted_docs k s pinned now options served"
  obtains (unchanged) "int (card (sv_anchor ` set acc)) < min_sources options"
      "ws_members ws = map toRelayerNode (option_base pinned options)" "ws_removed ws = []"
  | (weighed) nodes st where "\<not> int (card (sv_anchor ` set acc)) < min_sources options"
      "routingNodes (base_context pinned options) (map toRelayerNode (option_base pinned options)) = Inr nodes"
      "st = floored pinned options (weighed pinned options acc) nodes" "fs_gone st = []"
      "ws_members ws = map (\<lambda>m. with_url m (jsmap_get (ev_relocated (weighed pinned options acc)) (pm_address m)))
         (filter (\<lambda>m. pm_address m \<in> set (fs_kept st)) (option_base pinned options))"
      "ws_removed ws = map pm_address (filter (\<lambda>m. pm_address m \<notin> set (fs_kept st)) (option_base pinned options))"
proof (cases "int (card (sv_anchor ` set acc)) < min_sources options")
  case True
  then show ?thesis using that(1) apply_no_quorum[of k s pinned now options served] assms(1) unfolding acc_def by auto
next
  case False
  then obtain nodes where nodes: "routingNodes (base_context pinned options) (map toRelayerNode (option_base pinned options)) = Inr nodes"
    using apply_routing_error assms(1) unfolding acc_def by blast
  note rule = apply_quorum[OF False[unfolded acc_def] nodes, folded acc_def]
  then have "fs_gone (floored pinned options (weighed pinned options acc) nodes) = []" using assms(1) by auto
  then show ?thesis using that(2)[OF False nodes refl] rule assms(1) by auto
qed

definition moved_by_quorum ::
  "pinned_snapshot \<Rightarrow> apply_options \<Rightarrow> served_topology list \<Rightarrow> member_record \<Rightarrow> string \<Rightarrow> bool" where
  "moved_by_quorum pinned options acc m u =
     (u \<noteq> pm_url m \<and> min_sources options
        \<le> int (card (url_anchors (filter (\<lambda>d. sv_block (sv_snapshot d) > known_block pinned options) acc) m u)))"

definition known_or_moved ::
  "pinned_snapshot \<Rightarrow> apply_options \<Rightarrow> served_topology list \<Rightarrow> relayer_node \<Rightarrow> bool" where
  "known_or_moved pinned options acc n =
     (\<exists>m \<in> set (option_base pinned options). n = with_url m None \<or> (\<exists>u. n = with_url m (Some u) \<and> moved_by_quorum pinned options acc m u))"

text \<open>No accepted document reports the member online, and one of them knows of it or is recent enough to.\<close>

definition agreed_gone :: "pinned_snapshot \<Rightarrow> apply_options \<Rightarrow> served_topology list \<Rightarrow> member_record \<Rightarrow> bool" where
  "agreed_gone pinned options acc m =
     ((\<forall>d \<in> set acc. findWithIdentity (sv_snapshot d) m = None
          \<or> \<not> isOnline (sv_snapshot d) (pm_address m) (ao_livenessMaxAgeSeconds options))
      \<and> (\<exists>d \<in> set acc. listsAddress (sv_snapshot d) (pm_address m) \<or> known_block pinned options \<le> sv_block (sv_snapshot d)))"

lemma with_url_address [simp]: "rn_address (with_url m u) = pm_address m"
  by (cases u) (simp_all add: with_url_def toRelayerNode_def)

lemma moved_member:
  assumes "sound_base (option_base pinned options)" "m \<in> set (option_base pinned options)"
  shows "known_or_moved pinned options acc (with_url m (jsmap_get (ev_relocated (weighed pinned options acc)) (pm_address m)))"
proof (cases "jsmap_get (ev_relocated (weighed pinned options acc)) (pm_address m)")
  case (Some u)
  from agreedNewUrl_sound[OF moved_url[OF assms Some, unfolded member_url_def]]
  have u: "u \<noteq> pm_url m" "min_sources options
      \<le> int (card (url_anchors (filter (\<lambda>d. sv_block (sv_snapshot d) > known_block pinned options) (present_docs acc m)) m u))" by auto
  have "url_anchors (filter (\<lambda>d. sv_block (sv_snapshot d) > known_block pinned options) (present_docs acc m)) m u
      = url_anchors (filter (\<lambda>d. sv_block (sv_snapshot d) > known_block pinned options) acc) m u"
    by (auto simp: url_anchors_def present_docs_def)
  then have "moved_by_quorum pinned options acc m u" using u by (simp add: moved_by_quorum_def)
  then show ?thesis using assms(2) Some unfolding known_or_moved_def by auto
qed (use assms(2) in \<open>auto simp: known_or_moved_def\<close>)

lemma offline_member:
  assumes "\<not> member_online acc (known_block pinned options) (ao_livenessMaxAgeSeconds options) m"
  shows "agreed_gone pinned options acc m"
proof (cases "present_docs acc m = []")
  case True
  then show ?thesis
    using assms by (auto simp: agreed_gone_def member_online_def unknown_to_def present_docs_def filter_empty_conv list_all_iff list_ex_iff not_less)
next
  case False
  have "findWithIdentity (sv_snapshot d) m \<noteq> None \<Longrightarrow> listsAddress (sv_snapshot d) (pm_address m)" for d
    by (auto simp: findWithIdentity_def listsAddress_def list_ex_iff find_Some_iff split: option.splits dest: nth_mem)
  moreover obtain d where "d \<in> set acc" "findWithIdentity (sv_snapshot d) m \<noteq> None"
    using False by (auto simp: present_docs_def filter_empty_conv)
  moreover have "findWithIdentity (sv_snapshot d) m = None \<or> \<not> isOnline (sv_snapshot d) (pm_address m) (ao_livenessMaxAgeSeconds options)"
    if "d \<in> set acc" for d
    using assms False that by (auto simp: member_online_def present_docs_def list_ex_iff)
  ultimately show ?thesis unfolding agreed_gone_def by blast
qed

lemma floored_gone: "fs_gone (floored pinned options ev nodes) = [] \<longleftrightarrow> (\<forall>layer. \<not> layer_gone nodes (ev_listed ev) layer)"
proof -
  have "fs_gone (floored pinned options ev nodes) = filter (layer_gone nodes (ev_listed ev)) ROUTE_LAYERS"
    using floored_facts by blast
  then show ?thesis using all_layers by (metis UNIV_I filter_empty_conv)
qed

text \<open>
  C17. A member leaves only on agreement. When the rule returns a working set for a sound membership: it consists of the members
  that were not removed, in their order, each with the identity the client knew (key, role, layer, stake) and at most
  its routing URL changed; a changed URL was listed, with that identity, by newer documents from at least
  \<open>minRemovalSources\<close> different anchors. A removed member was reported online by no accepted document, the accepted documents come from at
  least \<open>minRemovalSources\<close> different anchors and one of them knows of the member or is recent enough to. With documents from
  fewer anchors nothing changes. Every document counted is self-consistent with complete liveness, recent, and served by a
  known member that it lists itself.
\<close>

theorem removals_need_agreement:
  assumes "applyServedTopologies k s pinned served now options = Inr ws" "sound_base (option_base pinned options)"
  defines "base \<equiv> option_base pinned options"
    and "acc \<equiv> accepted_docs k s pinned now options served"
  shows "map rn_address (ws_members ws) = filter (\<lambda>a. a \<notin> set (ws_removed ws)) (map pm_address base)
    \<and> list_all (known_or_moved pinned options acc) (ws_members ws)
    \<and> (\<forall>m \<in> set base. pm_address m \<in> set (ws_removed ws) \<longrightarrow>
        min_sources options \<le> int (card (sv_anchor ` set acc)) \<and> agreed_gone pinned options acc m)
    \<and> (int (card (sv_anchor ` set served)) < min_sources options \<longrightarrow> ws_members ws = map toRelayerNode base \<and> ws_removed ws = [])
    \<and> (\<forall>d \<in> set acc. d \<in> set served \<and> acceptable k s pinned now options d)"
proof -
  have 5: "\<forall>d \<in> set acc. d \<in> set served \<and> acceptable k s pinned now options d" using accepted_acceptable unfolding acc_def by blast
  have "card (sv_anchor ` set acc) \<le> card (sv_anchor ` set served)"
    by (intro card_mono image_mono) (auto simp: acc_def accepted_docs_def)
  then have 4: "int (card (sv_anchor ` set served)) < min_sources options \<Longrightarrow> int (card (sv_anchor ` set acc)) < min_sources options"
    by linarith
  from assms(1) show ?thesis
  proof (cases rule: apply_shape)
    case unchanged
    have "map rn_address (map toRelayerNode base) = map pm_address base" by (simp add: toRelayerNode_def)
    moreover have "list_all (known_or_moved pinned options acc) (map toRelayerNode base)"
      unfolding list_all_iff known_or_moved_def base_def by (auto simp: with_url_def)
    ultimately show ?thesis using 5 unchanged unfolding base_def by auto
  next
    case (weighed nodes st)
    define ev where "ev = Kps_Removals.weighed pinned options acc"
    note ws = weighed(5,6)[folded base_def acc_def, folded ev_def]
    have removed: "set (ws_removed ws) = {a \<in> set (map pm_address base). a \<notin> set (fs_kept st)}" unfolding ws(2) by auto
    have "map rn_address (ws_members ws) = map pm_address (filter (\<lambda>m. pm_address m \<in> set (fs_kept st)) base)"
      unfolding ws(1) by simp
    also have "\<dots> = filter (\<lambda>a. a \<notin> set (ws_removed ws)) (map pm_address base)"
      unfolding filter_map comp_def removed by (rule arg_cong[where f = "map pm_address"], rule filter_cong) auto
    finally have 1: "map rn_address (ws_members ws) = filter (\<lambda>a. a \<notin> set (ws_removed ws)) (map pm_address base)" .
    have 2: "list_all (known_or_moved pinned options acc) (ws_members ws)"
      unfolding ws(1) list_all_iff ev_def base_def by (auto intro: moved_member[OF assms(2)])
    have 3: "agreed_gone pinned options acc m" if "m \<in> set base" "pm_address m \<in> set (ws_removed ws)" for m
    proof (rule offline_member)
      have "pm_address m \<notin> set (ev_kept ev)"
        using that(2) floored_facts[of ev pinned options nodes] unfolding removed weighed(3) ev_def acc_def by auto
      then show "\<not> member_online acc (known_block pinned options) (ao_livenessMaxAgeSeconds options) m"
        using that(1) kept_ids(1)[of pinned options acc] unfolding ev_def base_def by auto
    qed
    have "\<not> int (card (sv_anchor ` set acc)) < min_sources options" using weighed(1) unfolding acc_def .
    then show ?thesis using 1 2 3 4 5 by (auto simp: not_less)
  qed
qed

inductive working_sets ::
  "(bytes \<Rightarrow> string) \<Rightarrow> (string \<Rightarrow> bytes) \<Rightarrow> pinned_snapshot \<Rightarrow> apply_options \<Rightarrow> relayer_node list \<Rightarrow> bool"
  for keccak256 sha256 pinned options where
  whole_membership: "working_sets keccak256 sha256 pinned options (map toRelayerNode (option_base pinned options))"
| refreshed: "working_sets keccak256 sha256 pinned options members \<Longrightarrow>
    applyServedTopologies keccak256 sha256 pinned served now (options\<lparr>ao_previous := Some members\<rparr>) = Inr ws \<Longrightarrow>
    working_sets keccak256 sha256 pinned options (ws_members ws)"

lemma option_base_previous [simp]:
  "option_base pinned (options\<lparr>ao_previous := p\<rparr>) = option_base pinned options"
  "min_per_layer (options\<lparr>ao_previous := p\<rparr>) = min_per_layer options"
  "base_context pinned (options\<lparr>ao_previous := p\<rparr>) = base_context pinned options"
  "min_sources (options\<lparr>ao_previous := p\<rparr>) = min_sources options"
  by (simp_all add: option_base_def min_per_layer_def base_context_def min_sources_def)

definition floors_met :: "pinned_snapshot \<Rightarrow> apply_options \<Rightarrow> topology_node list \<Rightarrow> string list \<Rightarrow> bool" where
  "floors_met pinned options nodes ids =
     (\<forall>layer. layer_floor nodes (min_per_layer options) layer \<le> int (layer_count nodes ids layer))"

lemma floors_met_whole:
  assumes "map node_id nodes = map pm_address (option_base pinned options)"
  shows "floors_met pinned options nodes (map pm_address (option_base pinned options))"
proof -
  have "filter (\<lambda>n. node_id n \<in> set (map node_id nodes)) (layer_nodes nodes layer) = layer_nodes nodes layer" for layer
    by (rule filter_True) (simp add: layer_nodes_def)
  then show ?thesis unfolding floors_met_def layer_count_def layer_floor_def assms[symmetric] by simp
qed

text \<open>One application of the rule keeps the floors of the previous working set.\<close>

lemma floors_kept:
  assumes "applyServedTopologies k s pinned served now options = Inr ws" "sound_base (option_base pinned options)"
    and nodes: "routingNodes (base_context pinned options) (map toRelayerNode (option_base pinned options)) = Inr nodes"
    and prev: "floors_met pinned options nodes (previous_ids pinned options)"
  shows "floors_met pinned options nodes (map rn_address (ws_members ws))"
proof -
  have "list_all member_ok (option_base pinned options)" using assms(2) by (simp add: sound_base_def)
  then have base: "map node_id nodes = map pm_address (option_base pinned options)" by (rule node_ids[OF routingNodes_of[OF _ nodes]])
  from assms(1) show ?thesis
  proof (cases rule: apply_shape)
    case unchanged
    then have "map rn_address (ws_members ws) = map pm_address (option_base pinned options)" by (simp add: toRelayerNode_def)
    then show ?thesis using floors_met_whole[OF base] by simp
  next
    case (weighed nodes' st)
    define ev where "ev = Kps_Removals.weighed pinned options (accepted_docs k s pinned now options served)"
    have st: "st = floored pinned options ev nodes" using weighed(2,3) nodes unfolding ev_def by simp
    have ids: "map rn_address (ws_members ws) = map pm_address (filter (\<lambda>m. pm_address m \<in> set (fs_kept st)) (option_base pinned options))"
      unfolding weighed(5) by simp
    have "\<not> layer_gone nodes (ev_listed ev) layer" for layer using weighed(4) floored_gone unfolding st by blast
    then have *: "layer_floor nodes (min_per_layer options) layer \<le> int (layer_count nodes (fs_kept st) layer)" for layer
      using floored_facts[of ev pinned options nodes] prev unfolding st floors_met_def by blast
    have "layer_count nodes (fs_kept st) layer \<le> layer_count nodes (map rn_address (ws_members ws)) layer" for layer
      unfolding layer_count_def
    proof (rule filter_length_mono)
      fix n assume n: "n \<in> set (layer_nodes nodes layer)" "node_id n \<in> set (fs_kept st)"
      then have "node_id n \<in> set (map node_id nodes)" by (auto simp: layer_nodes_def)
      then show "node_id n \<in> set (map rn_address (ws_members ws))" using n(2) unfolding ids base by auto
    qed
    then show ?thesis unfolding floors_met_def using * order_trans by (metis of_nat_mono)
  qed
qed

lemma members_in_base:
  assumes "applyServedTopologies k s pinned served now options = Inr ws"
  shows "set (map rn_address (ws_members ws)) \<subseteq> set (map pm_address (option_base pinned options))"
  using assms by (cases rule: apply_shape) (auto simp: toRelayerNode_def)

text \<open>
  No layer runs empty. Starting from the whole membership and over any number of refreshes, each with any documents at any time
  and the previous working set as its predecessor: the working set keeps, in each of the three layers, at least
  \<open>minMembersPerLayer\<close> members, or every member of the layer when there are fewer; and it never holds anyone outside the membership.
\<close>

theorem floors_hold:
  assumes "working_sets k s pinned options members" "sound_base (option_base pinned options)"
    and nodes: "routingNodes (base_context pinned options) (map toRelayerNode (option_base pinned options)) = Inr nodes"
  shows "(\<forall>layer. min (min_per_layer options) (int (length (filter (\<lambda>n. isInLayer n layer) nodes)))
        \<le> int (length (filter (\<lambda>n. node_id n \<in> set (map rn_address members)) (filter (\<lambda>n. isInLayer n layer) nodes))))
    \<and> set (map rn_address members) \<subseteq> set (map pm_address (option_base pinned options))"
proof -
  have ok: "list_all member_ok (option_base pinned options)" using assms(2) by (simp add: sound_base_def)
  then have base: "map node_id nodes = map pm_address (option_base pinned options)" by (rule node_ids[OF routingNodes_of[OF _ nodes]])
  from assms(1) have "floors_met pinned options nodes (map rn_address members)
      \<and> set (map rn_address members) \<subseteq> set (map pm_address (option_base pinned options))"
  proof induction
    case whole_membership
    have eq: "map rn_address (map toRelayerNode (option_base pinned options)) = map pm_address (option_base pinned options)"
      by (simp add: toRelayerNode_def)
    show ?case unfolding eq using floors_met_whole[OF base] by simp
  next
    case (refreshed members served now ws)
    let ?o = "options\<lparr>ao_previous := Some members\<rparr>"
    have lower: "toLowerCase a = a" if "a \<in> set (map rn_address members)" for a
      using that refreshed.IH ok pinned_address by (auto simp: member_ok_def list_all_iff)
    have "previous_ids pinned ?o = map toLowerCase (map rn_address members)" by (simp add: previous_ids_def)
    also have "\<dots> = map rn_address members" by (rule map_idI) (rule lower)
    finally have "floors_met pinned ?o nodes (previous_ids pinned ?o)" using refreshed.IH by (simp add: floors_met_def)
    then show ?case
      using floors_kept[OF refreshed.hyps(2), of nodes] members_in_base[OF refreshed.hyps(2)] assms(2) nodes by (simp add: floors_met_def)
  qed
  then show ?thesis unfolding floors_met_def layer_floor_def layer_count_def layer_nodes_def by blast
qed

text \<open>No accepted document lists the member with its identity, and one of them knows of it or is recent enough to.\<close>

definition struck_off :: "pinned_snapshot \<Rightarrow> apply_options \<Rightarrow> served_topology list \<Rightarrow> member_record \<Rightarrow> bool" where
  "struck_off pinned options acc m =
     ((\<forall>d \<in> set acc. case List.find (\<lambda>n. toLowerCase (rn_address n) = pm_address m) (sn_nodes (sv_snapshot d)) of None \<Rightarrow> True
          | Some n \<Rightarrow> strip_0x (toLowerCase (sphinx_key n)) \<noteq> pm_sphinxKey m \<or> rn_role n \<noteq> pm_role m \<or> rn_layer n \<noteq> pm_layer m)
      \<and> (\<exists>d \<in> set acc. (\<exists>n \<in> set (sn_nodes (sv_snapshot d)). toLowerCase (rn_address n) = pm_address m)
            \<or> known_block pinned options \<le> sv_block (sv_snapshot d)))"

lemma struck_off_iff: "struck_off pinned options acc m \<longleftrightarrow> \<not> member_listed acc (known_block pinned options) m"
proof -
  have "findWithIdentity (sv_snapshot d) m = None \<longleftrightarrow>
      (case List.find (\<lambda>n. toLowerCase (rn_address n) = pm_address m) (sn_nodes (sv_snapshot d)) of None \<Rightarrow> True
          | Some n \<Rightarrow> strip_0x (toLowerCase (sphinx_key n)) \<noteq> pm_sphinxKey m \<or> rn_role n \<noteq> pm_role m \<or> rn_layer n \<noteq> pm_layer m)" for d
    by (simp add: findWithIdentity_def split: option.split)
  then show ?thesis
    unfolding struck_off_def member_listed_def present_docs_def unknown_to_def listsAddress_def
    by (auto simp: filter_empty_conv list_all_iff list_ex_iff not_less)
qed

lemma layer_gone_iff:
  assumes "map node_id nodes = map pm_address (option_base pinned options)"
  shows "layer_gone nodes (ev_listed (weighed pinned options acc)) layer \<longleftrightarrow>
    (\<exists>n \<in> set nodes. isInLayer n layer)
    \<and> (\<forall>n \<in> set nodes. isInLayer n layer \<longrightarrow> (\<forall>m \<in> set (option_base pinned options).
          pm_address m = node_id n \<longrightarrow> struck_off pinned options acc m))"
proof -
  have "node_id n \<in> set (ev_listed (weighed pinned options acc)) \<longleftrightarrow>
      \<not> (\<forall>m \<in> set (option_base pinned options). pm_address m = node_id n \<longrightarrow> struck_off pinned options acc m)" for n
    unfolding kept_ids struck_off_iff by (fastforce simp: image_iff)
  then show ?thesis by (auto simp: layer_gone_def layer_nodes_def filter_empty_conv list_ex_iff)
qed

text \<open>
  C22. The rule fails only on registry evidence. For a sound membership whose nodes can be routed over, applying served documents
  returns a working set, unless the accepted documents come from enough different anchors and some layer that has members has been struck off:
  no accepted document lists any member of the layer with its identity (the same key, role and layer under its address), and for each of
  these members either some accepted document lists its address under another identity or some accepted document is at least as new as the
  membership. Then, and only then, it throws \<open>TOPOLOGY_STALE\<close>; members merely reported offline never fail it.
\<close>

theorem stale_decided:
  fixes k s served now
  assumes "sound_base (option_base pinned options)"
    and nodes: "routingNodes (base_context pinned options) (map toRelayerNode (option_base pinned options)) = Inr nodes"
  defines "acc \<equiv> accepted_docs k s pinned now options served"
  defines "stale \<equiv> min_sources options \<le> int (card (sv_anchor ` set acc))
      \<and> (\<exists>layer. (\<exists>n \<in> set nodes. isInLayer n layer)
          \<and> (\<forall>n \<in> set nodes. isInLayer n layer \<longrightarrow> (\<forall>m \<in> set (option_base pinned options).
                pm_address m = node_id n \<longrightarrow> struck_off pinned options acc m)))"
  shows "(stale \<longrightarrow> (\<exists>msg. applyServedTopologies k s pinned served now options = throw TopologyStale msg))
    \<and> (\<not> stale \<longrightarrow> (\<exists>ws. applyServedTopologies k s pinned served now options = Inr ws))"
proof (cases "int (card (sv_anchor ` set acc)) < min_sources options")
  case True
  then show ?thesis using apply_no_quorum[of k s pinned now options served] unfolding acc_def stale_def by auto
next
  case False
  have "list_all member_ok (option_base pinned options)" using assms(1) by (simp add: sound_base_def)
  then have base: "map node_id nodes = map pm_address (option_base pinned options)" by (rule node_ids[OF routingNodes_of[OF _ nodes]])
  have "stale \<longleftrightarrow> fs_gone (floored pinned options (weighed pinned options acc) nodes) \<noteq> []"
    unfolding stale_def floored_gone layer_gone_iff[OF base] using False by (simp add: not_less)
  then show ?thesis using apply_quorum[OF False[unfolded acc_def] nodes] unfolding acc_def by blast
qed

subsection \<open>A verified snapshot\<close>

lemma checkPattern_Inr: "checkPattern v P = Inr u \<longleftrightarrow> str_matches P v"
  by (simp add: checkPattern_def)

lemma checkMember_sound:
  assumes "checkMember sha256 v = Inr ()"
  shows "member_ok (as_member v) \<and> pm_status (as_member v) \<in> {1, 2}
    \<and> pm_layer (as_member v) = primaryLayerForRole sha256 (pm_address (as_member v)) (pm_role (as_member v))
    \<and> length (pm_capabilities (as_member v)) \<le> 32"
proof -
  have a: "str_matches ADDRESS_RE (json_field v ''address'')" "str_matches (lower_hex_text 64) (json_field v ''sphinxKey'')"
    "str_matches re_stake (json_field v ''stake'')" "json_field v ''role'' \<in> {JsInt 1, JsInt 2, JsInt 3}"
    "as_int (json_field v ''layer'') \<in> set (layersForRole (as_int (json_field v ''role'')))"
    "as_int (json_field v ''layer'') = primaryLayerForRole sha256 (as_str (json_field v ''address'')) (as_int (json_field v ''role''))"
    "json_field v ''status'' \<in> {JsInt 1, JsInt 2}" "check_capabilities (json_field v ''capabilities'') = Inr ()"
    using assms unfolding checkMember_def Let_def by (auto simp: rbind_Inr_iff checkPattern_Inr split: if_splits)
  have "length (as_list (json_field v ''capabilities'')) \<le> 32"
    using a(8) by (auto simp: check_capabilities_def as_list_def MAX_CAPABILITIES_def split: json.splits if_splits)
  then show ?thesis using a str_matches_as
    by (auto simp: member_ok_def as_member_def as_int_def)
qed

lemma check_members_sound: "check_members sha256 ms = Inr () \<Longrightarrow> \<forall>m \<in> set ms. checkMember sha256 m = Inr ()"
  by (induction ms) (auto simp: rbind_Inr_iff)

text \<open>
  C23. A verified snapshot is a sound start. When \<open>verifyPinnedSnapshot\<close> accepts a value, the snapshot it is holds 1 to 256 members, as
  many as it counts, in strict address order, each with a well-formed address, key and stake, a known role and status, and
  the primary layer of that role; the members hash to its fingerprint and its difficulty is at most 16. Its eligible members are then a sound
  base for the removals-only rule, and all its members can be turned into routing nodes.
\<close>

theorem verified_snapshot_sound:
  assumes "verifyPinnedSnapshot keccak256 sha256 v = Inr ()"
  defines "p \<equiv> as_pinned v"
  shows "sorted_wrt js_less (map pm_address (ps_members p))
    \<and> int (length (ps_members p)) = ps_relayerCount p \<and> 1 \<le> length (ps_members p) \<and> length (ps_members p) \<le> 256
    \<and> 0 \<le> ps_powDifficulty p \<and> ps_powDifficulty p \<le> 16 \<and> 1 \<le> ps_blockNumber p
    \<and> list_all (\<lambda>m. member_ok m \<and> pm_status m \<in> {1, 2} \<and> pm_layer m = primaryLayerForRole sha256 (pm_address m) (pm_role m))
        (ps_members p)
    \<and> computeTopologyFingerprint keccak256 (pinnedRelayerNodes p) = Inr (ps_fingerprint p)
    \<and> sound_base (floorRecords p)
    \<and> (\<exists>nodes. kpsTopologyNodes p (pinnedRelayerNodes p) entryAddresses = Inr nodes
          \<and> map node_id nodes = map pm_address (ps_members p))"
proof -
  obtain members where ms: "json_field v ''members'' = JsArr members" "1 \<le> length members" "int (length members) \<le> MAX_PINNED_MEMBERS"
    "check_members sha256 members = Inr ()"
    "\<not> list_ex (\<lambda>i. \<not> js_less (map pm_address (map as_member members) ! (i - 1)) (map pm_address (map as_member members) ! i))
         [1..<length members]"
    "int (length members) = as_int (json_field v ''relayerCount'')"
    "computeTopologyFingerprint keccak256 (pinnedRelayerNodes p) = Inr (as_str (json_field v ''fingerprint''))"
    "checkInteger (json_field v ''powDifficulty'') 0 MAX_PINNED_POW_DIFFICULTY = Inr ()"
    "checkInteger (json_field v ''blockNumber'') 1 (2 ^ 53 - 1) = Inr ()"
    using assms(1) unfolding verifyPinnedSnapshot_def Let_def p_def
    by (auto simp: rbind_Inr_iff not_less_eq_eq Suc_le_eq not_less split: if_splits json.splits)
  have p: "ps_members p = map as_member members" by (simp add: p_def as_pinned_def ms(1) as_list_def)
  have sorted: "sorted_wrt js_less (map pm_address (ps_members p))"
  proof (rule adjacent_sorted)
    fix i assume "Suc i < length (map pm_address (ps_members p))"
    then show "js_less (map pm_address (ps_members p) ! i) (map pm_address (ps_members p) ! Suc i)"
      using ms(5) unfolding p list_ex_iff by (auto dest!: bspec[of _ _ "Suc i"])
  qed
  have each: "list_all (\<lambda>m. member_ok m \<and> pm_status m \<in> {1, 2} \<and> pm_layer m = primaryLayerForRole sha256 (pm_address m) (pm_role m))
        (ps_members p)"
    using check_members_sound[OF ms(4)] checkMember_sound unfolding p list_all_iff by auto
  then have ok: "list_all member_ok (ps_members p)" by (simp add: list_all_iff)
  have "distinct (map pm_address (ps_members p))"
    using sorted js_less_irrefl unfolding distinct_conv_nth sorted_wrt_iff_nth_less by (metis linorder_neqE_nat)
  then have base: "sound_base (floorRecords p)"
    using ok unfolding sound_base_def floorRecords_def eligiblePinnedMembers_def
    by (auto simp: comp_def distinct_map inj_on_def list_all_iff member_ok_def pinned_member.defs)
  have "\<forall>a \<in> set (map snd (rx_endpoints (pinnedRoutingContext p entryAddresses))). isKpsAddress a"
    using pinned_addresses_ok by (simp add: pinnedRoutingContext_def)
  from routingNodes_exist[OF this ok] obtain nodes where nodes:
    "routingNodes (pinnedRoutingContext p entryAddresses) (map toRelayerNode (ps_members p)) = Inr nodes" by blast
  then have "kpsTopologyNodes p (pinnedRelayerNodes p) entryAddresses = Inr nodes \<and> map node_id nodes = map pm_address (ps_members p)"
    using node_ids[OF routingNodes_of[OF ok nodes]] by (simp add: kpsTopologyNodes_def pinnedRelayerNodes_def)
  moreover have "0 \<le> ps_powDifficulty p" "ps_powDifficulty p \<le> 16" "1 \<le> ps_blockNumber p"
    using ms(8,9) by (auto simp: p_def as_pinned_def checkInteger_def as_int_def MAX_PINNED_POW_DIFFICULTY_def
        split: json.splits if_splits)
  moreover have "int (length (ps_members p)) = ps_relayerCount p" "1 \<le> length (ps_members p)" "length (ps_members p) \<le> 256"
    using ms(2,3,6) unfolding p by (simp_all add: p_def as_pinned_def MAX_PINNED_MEMBERS_def)
  moreover have "computeTopologyFingerprint keccak256 (pinnedRelayerNodes p) = Inr (ps_fingerprint p)"
    using ms(7) by (simp add: p_def as_pinned_def)
  ultimately show ?thesis using sorted each base by blast
qed

subsection \<open>A sample\<close>

text \<open>Three members; two of them serve a document that reports the first one offline.\<close>

definition sample_record :: "char \<Rightarrow> int \<Rightarrow> int \<Rightarrow> member_record" where
  "sample_record c role layer = \<lparr>pm_address = sample_address c, pm_sphinxKey = replicate 64 c, pm_url = ''u'', pm_ingressUrl = [],
     pm_metadataUrl = [], pm_stake = ''0'', pm_role = role, pm_layer = layer, pm_status = 1, pm_frozen = False, pm_capabilities = [],
     mr_floor = True, mr_probation = False\<rparr>"

definition sample_base :: "member_record list" where
  "sample_base = [sample_record (CHR ''1'') 1 0, sample_record (CHR ''2'') 2 2, sample_record (CHR ''3'') 3 0]"

definition sample_pinned :: pinned_snapshot where
  "sample_pinned = \<lparr>ps_chainId = 1, ps_registry = [], ps_blockNumber = 5, ps_blockHash = [], ps_fingerprint = [], ps_relayerCount = 0,
     ps_powDifficulty = 0, ps_members = []\<rparr>"

definition sample_options :: apply_options where
  "sample_options = \<lparr>ao_clockSkewToleranceSeconds = 5, ao_livenessMaxAgeSeconds = 20, ao_entryAddresses = None, ao_previous = Some (map toRelayerNode sample_base),
     ao_membership = Some sample_base, ao_anchorMembers = Some [(''a'', sample_address (CHR ''2'')), (''b'', sample_address (CHR ''3''))],
     ao_endpoints = Some [], ao_membershipBlock = None, ao_minRemovalSources = None, ao_minMembersPerLayer = None\<rparr>"

definition sample_document :: topology_snapshot where
  "sample_document = sample_snapshot\<lparr>liveness := Some (map (\<lambda>c. \<lparr>tl_address = sample_address c,
     tl_status = (if c = CHR ''1'' then ''offline'' else ''online''), observed_at_unix = 90, tl_capabilities = JsUndef\<rparr>) ''123'')\<rparr>"

definition sample_served :: "served_topology list" where
  "sample_served = [\<lparr>sv_anchor = ''a'', sv_snapshot = sample_document\<rparr>, \<lparr>sv_anchor = ''b'', sv_snapshot = sample_document\<rparr>]"

definition sample_nodes :: "topology_node list" where
  "sample_nodes = map (\<lambda>(c, r). \<lparr>node_id = sample_address c, node_address = [], routingAddress = ''u'',
     publicKey = replicate 32 (byte_of (17 * (of_char c - 48))), node_layer = (if r = 2 then 2 else 0), node_role = r,
     node_capabilities = Some [], probation = False\<rparr>) [(CHR ''1'', 1), (CHR ''2'', 2), (CHR ''3'', 3)]"

lemma sample_routing:
  "routingNodes (base_context sample_pinned sample_options) (map toRelayerNode (option_base sample_pinned sample_options)) = Inr sample_nodes"
  by code_simp

lemma sample_consistent: "verifySelfConsistency sample_keccak (\<lambda>_. [0]) sample_document True = Inr ()"
  by code_simp

lemma sample_accepted: "accepted_docs sample_keccak (\<lambda>_. [0]) sample_pinned 100 sample_options sample_served = sample_served"
proof -
  have "findWithIdentity sample_document (sample_record (CHR ''2'') 2 2) \<noteq> None"
    "findWithIdentity sample_document (sample_record (CHR ''3'') 3 0) \<noteq> None"
    "jsmap_get (base_map sample_base) (sample_address (CHR ''2'')) = Some (sample_record (CHR ''2'') 2 2)"
    "jsmap_get (base_map sample_base) (sample_address (CHR ''3'')) = Some (sample_record (CHR ''3'') 3 0)"
    by code_simp+
  moreover have "option_base sample_pinned sample_options = sample_base" by (simp add: option_base_def sample_options_def)
  moreover have "\<not> MAX_CANDIDATES < length (sn_nodes sample_document)" "\<not> sv_block sample_document < ps_blockNumber sample_pinned"
    "sv_time sample_document = 100" by code_simp+
  ultimately show ?thesis
    by (simp add: accepted_docs_def sample_served_def rejection_of_def rejectionReason_def sample_consistent sample_options_def
        jsmap_get_def)
qed

lemma sample_floored:
  "(\<lambda>st. (fs_gone st, fs_kept st))
     (floored sample_pinned sample_options (weighed sample_pinned sample_options sample_served) sample_nodes)
   = ([], map sample_address ''32'')"
  by code_simp

lemma sample_outcome:
  "\<exists>ws. applyServedTopologies sample_keccak (\<lambda>_. [0]) sample_pinned sample_served 100 sample_options = Inr ws
    \<and> ws_removed ws = [sample_address (CHR ''1'')]"
proof -
  have "\<not> int (card (sv_anchor ` set sample_served)) < min_sources sample_options" by code_simp
  then have quorum: "\<not> int (card (sv_anchor ` set (accepted_docs sample_keccak (\<lambda>_. [0]) sample_pinned 100 sample_options sample_served)))
      < min_sources sample_options" unfolding sample_accepted .
  note rule = apply_quorum[OF quorum sample_routing, unfolded sample_accepted]
  have "filter (\<lambda>m. pm_address m \<notin> set (map sample_address ''32'')) (option_base sample_pinned sample_options) = [sample_record (CHR ''1'') 1 0]"
    by code_simp
  then have "map pm_address (filter (\<lambda>m. pm_address m \<notin> set (fs_kept
      (floored sample_pinned sample_options (weighed sample_pinned sample_options sample_served) sample_nodes)))
      (option_base sample_pinned sample_options)) = [sample_address (CHR ''1'')]"
    using sample_floored by (simp add: sample_record_def)
  then show ?thesis using rule sample_floored by auto
qed

lemma sample_base_ok: "sound_base (option_base sample_pinned sample_options)" "option_base sample_pinned sample_options = sample_base"
proof -
  show base: "option_base sample_pinned sample_options = sample_base" by (simp add: option_base_def sample_options_def)
  show "sound_base (option_base sample_pinned sample_options)" unfolding base by code_simp
qed

theorem removals_need_agreement_witness:
  "agreed_gone sample_pinned sample_options sample_served (sample_record (CHR ''1'') 1 0)"
proof -
  obtain ws where ws: "applyServedTopologies sample_keccak (\<lambda>_. [0]) sample_pinned sample_served 100 sample_options = Inr ws"
    "ws_removed ws = [sample_address (CHR ''1'')]" using sample_outcome by blast
  have "sample_record (CHR ''1'') 1 0 \<in> set (option_base sample_pinned sample_options)"
    "pm_address (sample_record (CHR ''1'') 1 0) \<in> set (ws_removed ws)"
    unfolding sample_base_ok(2) ws(2) by (simp_all add: sample_base_def sample_record_def)
  then show ?thesis using removals_need_agreement[OF ws(1) sample_base_ok(1)] sample_accepted by auto
qed

theorem floors_hold_witness:
  "\<exists>ws :: working_set. ws_removed ws = [sample_address (CHR ''1'')]
    \<and> 2 \<le> length (filter (\<lambda>n. node_id n \<in> set (map rn_address (ws_members ws)))
           (filter (\<lambda>n. isInLayer n LayerMix) sample_nodes))"
proof -
  obtain ws where ws: "applyServedTopologies sample_keccak (\<lambda>_. [0]) sample_pinned sample_served 100 sample_options = Inr ws"
    "ws_removed ws = [sample_address (CHR ''1'')]" using sample_outcome by blast
  have "sample_options\<lparr>ao_previous := Some (map toRelayerNode (option_base sample_pinned sample_options))\<rparr> = sample_options"
    unfolding sample_base_ok(2) by (simp add: sample_options_def)
  then have "working_sets sample_keccak (\<lambda>_. [0]) sample_pinned sample_options (ws_members ws)"
    using refreshed[OF whole_membership, of sample_keccak "\<lambda>_. [0]" sample_pinned sample_served 100 sample_options ws] ws(1) by simp
  note floors = floors_hold[OF this sample_base_ok(1) sample_routing]
  have "min_per_layer sample_options = 2" by code_simp
  moreover have "length (filter (\<lambda>n. isInLayer n LayerMix) sample_nodes) = 3" by code_simp
  ultimately have "2 \<le> int (length (filter (\<lambda>n. node_id n \<in> set (map rn_address (ws_members ws)))
           (filter (\<lambda>n. isInLayer n LayerMix) sample_nodes)))" using floors by (elim conjE allE[of _ LayerMix]) simp
  then have "2 \<le> length (filter (\<lambda>n. node_id n \<in> set (map rn_address (ws_members ws)))
           (filter (\<lambda>n. isInLayer n LayerMix) sample_nodes))" by linarith
  then show ?thesis using ws(2) by blast
qed

theorem stale_decided_witness:
  "\<exists>ws. applyServedTopologies sample_keccak (\<lambda>_. [0]) sample_pinned sample_served 100 sample_options = Inr ws"
proof -
  have "list_all (\<lambda>m. \<not> struck_off sample_pinned sample_options sample_served m) sample_base" by code_simp
  then have "list_all (\<lambda>n. \<exists>m \<in> set sample_base. pm_address m = node_id n \<and> \<not> struck_off sample_pinned sample_options sample_served m)
      sample_nodes" by (simp add: sample_base_def sample_nodes_def sample_record_def)
  then show ?thesis
    using stale_decided[OF sample_base_ok(1) sample_routing, of sample_keccak "\<lambda>_. [0]" 100 sample_served]
    unfolding sample_accepted sample_base_ok(2) by (fastforce simp: list_all_iff)
qed

definition sample_json :: json where
  "sample_json = JsObj [(''format'', JsStr PINNED_SNAPSHOT_FORMAT), (''chainId'', JsInt 1), (''registry'', JsStr (sample_address (CHR ''9''))),
     (''blockNumber'', JsInt 5), (''blockHash'', JsStr (''0x'' @ replicate 64 (CHR ''7''))),
     (''fingerprint'', JsStr (replicate 40 (CHR ''1'') @ replicate 24 (CHR ''0''))), (''relayerCount'', JsInt 1),
     (''powDifficulty'', JsInt 3),
     (''members'', JsArr [JsObj [(''address'', JsStr (sample_address (CHR ''1''))), (''sphinxKey'', JsStr (replicate 64 (CHR ''1''))),
        (''url'', JsStr ''u''), (''ingressUrl'', JsStr []), (''metadataUrl'', JsStr []), (''stake'', JsStr ''0''),
        (''role'', JsInt 1), (''layer'', JsInt 0), (''status'', JsInt 2), (''frozen'', JsBool False), (''capabilities'', JsArr [])]])]"

lemma sample_json_ok: "verifyPinnedSnapshot sample_keccak (\<lambda>_. [0]) sample_json = Inr ()"
  by code_simp

theorem verified_snapshot_sound_witness:
  "length (ps_members (as_pinned sample_json)) = 1 \<and> sound_base (floorRecords (as_pinned sample_json))"
proof -
  have "ps_relayerCount (as_pinned sample_json) = 1" by code_simp
  then show ?thesis using verified_snapshot_sound[OF sample_json_ok] by simp
qed

end
