(* ===== verification/Kps_Bootstrap.thy ===== *)
theory Kps_Bootstrap
  imports Kps_Pinned
begin

section \<open>The discovery bootstrap\<close>

text \<open>
  \<open>packages/nox-client/src/kps/bootstrap.ts\<close>: the discovery inputs a bundle ships next to its snapshot (anchors, RPC endpoints, policy), checked
  field by field, and the reading of RPC URLs without \<open>URL\<close>. A bootstrap is a \<open>json\<close> value until \<open>verifyBootstrap\<close>
  returns it. Errors of the two list checks are \<open>NoxClientError\<close>s of the code the caller passes.
\<close>

record discovery_policy =
  dp_chainQuorum :: int
  dp_maxStateAgeSeconds :: int
  dp_chainRefreshSeconds :: int
  dp_probationMaxPerRoute :: int
  dp_probationSeconds :: int
  dp_minRemovalSources :: int
  dp_minMembersPerLayer :: int

record kps_bootstrap =
  kb_chainId :: int
  kb_registry :: string
  kb_registryImpl :: string
  kb_anchors :: "string list"
  kb_registryRpcUrls :: "string list"
  kb_policy :: discovery_policy

definition BOOTSTRAP_FORMAT :: string where
  "BOOTSTRAP_FORMAT = ''nox-anon-rpc-bootstrap/1''"

definition DISCOVERY_POLICY_RANGES :: "(string \<times> int \<times> int) list" where
  "DISCOVERY_POLICY_RANGES =
     [(''chainQuorum'', 2, 4), (''maxStateAgeSeconds'', 60, 86400), (''chainRefreshSeconds'', 1, 86400), (''probationMaxPerRoute'', 0, 2),
      (''probationSeconds'', 0, 31536000), (''minRemovalSources'', 2, 4), (''minMembersPerLayer'', 1, 4)]"

definition BOOTSTRAP_KEYS :: "string list" where
  "BOOTSTRAP_KEYS = [''format'', ''chainId'', ''registry'', ''registryImpl'', ''anchors'', ''registryRpcUrls'', ''policy'']"

definition POLICY_KEYS :: "string list" where
  "POLICY_KEYS = map fst DISCOVERY_POLICY_RANGES"

definition MAX_ANCHORS :: nat where
  "MAX_ANCHORS = 16"

definition MIN_RPC_URLS :: nat where
  "MIN_RPC_URLS = 2"

definition MAX_RPC_URLS :: nat where
  "MAX_RPC_URLS = 8"

definition MAX_RPC_URL_LENGTH :: nat where
  "MAX_RPC_URL_LENGTH = 256"

subsection \<open>RPC URLs\<close>

definition lower_alnum :: "char \<Rightarrow> bool" where
  "lower_alnum c = (is_digit c \<or> code_in 97 122 c)"

definition host_char :: "char \<Rightarrow> bool" where
  "host_char c = (lower_alnum c \<or> c = CHR ''.'' \<or> c = CHR ''-'')"

text \<open>
  \<open>RPC_URL_RE\<close>: the scheme, the host, the port and the path. No character of a host can start what follows it, so
  the longest run of host characters is the only match; likewise for the digits of the port.
\<close>

definition rpc_host :: "string \<Rightarrow> (string \<times> string) option" where
  "rpc_host s =
     (if take 5 s = ''[::1]'' then Some (take 5 s, drop 5 s)
      else
        (let host = takeWhile host_char s in
         if host \<noteq> [] \<and> length host \<le> 253 \<and> lower_alnum (hd host) \<and> lower_alnum (last host)
         then Some (host, dropWhile host_char s) else None))"

definition rpc_port :: "string \<Rightarrow> (string option \<times> string) option" where
  "rpc_port s =
     (if take 1 s = '':'' then
        (let port = takeWhile is_digit (drop 1 s) in
         if PORT_RE port then Some (Some port, drop (1 + length port) s) else None)
      else Some (None, s))"

definition match_rpc_url :: "string \<Rightarrow> (string \<times> string \<times> string option) option" where
  "match_rpc_url s =
     (case (if take 8 s = ''https://'' then Some (''https'', drop 8 s)
            else if take 7 s = ''http://'' then Some (''http'', drop 7 s) else None) of
        None \<Rightarrow> None
      | Some (scheme, rest) \<Rightarrow>
          (case rpc_host rest of
             None \<Rightarrow> None
           | Some (host, rest) \<Rightarrow>
               (case rpc_port rest of
                  None \<Rightarrow> None
                | Some (port, path) \<Rightarrow> if path = [] \<or> TARGET_RE path then Some (scheme, host, port) else None)))"

definition bad_label :: "string \<Rightarrow> bool" where
  "bad_label l = (length l = 0 \<or> length l > 63 \<or> hd l = CHR ''-'' \<or> last l = CHR ''-'')"

definition parseRpcUrl :: "string \<Rightarrow> (string \<times> string \<times> string option) option" where
  "parseRpcUrl s =
     (case match_rpc_url s of
        None \<Rightarrow> None
      | Some (scheme, host, port) \<Rightarrow>
          if (case port of None \<Rightarrow> False | Some p \<Rightarrow> nat_of_digits p 0 > 65535) then None
          else if length (js_split ''..'' host) > 1 \<or> list_ex bad_label (js_split ''.'' host)
          then (if host = ''[::1]'' then Some (scheme, host, port) else None)
          else Some (scheme, host, port))"

fun LOOSE_OCTET :: "string \<Rightarrow> bool" where
  "LOOSE_OCTET [a] = is_digit a"
| "LOOSE_OCTET [a, b] = (is_digit a \<and> is_digit b)"
| "LOOSE_OCTET [a, b, c] =
     ((a = CHR ''2'' \<and> b = CHR ''5'' \<and> code_in 48 53 c) \<or> (a = CHR ''2'' \<and> code_in 48 52 b \<and> is_digit c)
      \<or> (a = CHR ''1'' \<and> is_digit b \<and> is_digit c))"
| "LOOSE_OCTET _ = False"

definition LOOPBACK_V4_RE :: "string \<Rightarrow> bool" where
  "LOOPBACK_V4_RE s = (case js_split ''.'' s of
     [a, b, c, d] \<Rightarrow> a = ''127'' \<and> LOOSE_OCTET b \<and> LOOSE_OCTET c \<and> LOOSE_OCTET d | _ \<Rightarrow> False)"

definition isAllowedRpcUrl :: "string \<Rightarrow> bool" where
  "isAllowedRpcUrl s =
     (case parseRpcUrl s of
        None \<Rightarrow> False
      | Some (scheme, host, _) \<Rightarrow> scheme = ''https'' \<or> host = ''localhost'' \<or> host = ''[::1]'' \<or> LOOPBACK_V4_RE host)"

definition dotted_quad :: "string \<Rightarrow> bool" where
  "dotted_quad s = (length (js_split ''.'' s) = 4
     \<and> list_all (\<lambda>l. 1 \<le> length l \<and> length l \<le> 3 \<and> list_all is_digit l) (js_split ''.'' s))"

text \<open>\<open>host.split(".").slice(-2).join(".")\<close>.\<close>

definition last_two_labels :: "string \<Rightarrow> string" where
  "last_two_labels host =
     (let labels = js_split ''.'' host; tail = drop (length labels - 2) labels in
      case tail of [a, b] \<Rightarrow> a @ ''.'' @ b | _ \<Rightarrow> concat tail)"

definition rpcProviderKey :: "string \<Rightarrow> string" where
  "rpcProviderKey s =
     (case parseRpcUrl s of
        None \<Rightarrow> s
      | Some (_, host, port) \<Rightarrow>
          if dotted_quad host \<or> take 1 host = ''['' \<or> host = ''localhost''
          then (case port of None \<Rightarrow> host | Some p \<Rightarrow> host @ '':'' @ p)
          else last_two_labels host)"

subsection \<open>Checking a bootstrap\<close>

fun check_unique :: "nox_error_code \<Rightarrow> (string \<Rightarrow> bool) \<Rightarrow> json list \<Rightarrow> string list \<Rightarrow> string list result" where
  "check_unique code good [] seen = Inr seen"
| "check_unique code good (entry # rest) seen =
     (if \<not> str_matches good entry then throw code ''malformed entry''
      else if as_str entry \<in> set seen then throw code ''repeated entry''
      else check_unique code good rest (seen @ [as_str entry]))"

definition checkAnchorList :: "nox_error_code \<Rightarrow> json \<Rightarrow> nat \<Rightarrow> string list result" where
  "checkAnchorList code v mn =
     (case v of
        JsArr entries \<Rightarrow>
          if length entries < mn \<or> length entries > MAX_ANCHORS then throw code ''must be a list of KPS addresses''
          else check_unique code isKpsAddress entries []
      | _ \<Rightarrow> throw code ''must be a list of KPS addresses'')"

definition checkRpcUrls :: "nox_error_code \<Rightarrow> json \<Rightarrow> string list result" where
  "checkRpcUrls code v =
     (case v of
        JsArr entries \<Rightarrow>
          if length entries < MIN_RPC_URLS \<or> length entries > MAX_RPC_URLS then throw code ''must be a list of RPC URLs''
          else check_unique code (\<lambda>s. length s \<le> MAX_RPC_URL_LENGTH \<and> isAllowedRpcUrl s) entries []
      | _ \<Rightarrow> throw code ''must be a list of RPC URLs'')"

fun check_policy :: "(string \<times> int \<times> int) list \<Rightarrow> json \<Rightarrow> unit result" where
  "check_policy [] policy = Inr ()"
| "check_policy ((key, mn, mx) # rest) policy =
     rbind (checkInteger (json_field policy key) mn mx) (\<lambda>_. check_policy rest policy)"

definition as_policy :: "json \<Rightarrow> discovery_policy" where
  "as_policy v = \<lparr>dp_chainQuorum = as_int (json_field v ''chainQuorum''),
     dp_maxStateAgeSeconds = as_int (json_field v ''maxStateAgeSeconds''),
     dp_chainRefreshSeconds = as_int (json_field v ''chainRefreshSeconds''),
     dp_probationMaxPerRoute = as_int (json_field v ''probationMaxPerRoute''),
     dp_probationSeconds = as_int (json_field v ''probationSeconds''),
     dp_minRemovalSources = as_int (json_field v ''minRemovalSources''),
     dp_minMembersPerLayer = as_int (json_field v ''minMembersPerLayer'')\<rparr>"

definition ZERO_ADDRESS :: string where
  "ZERO_ADDRESS = ''0x'' @ replicate 40 (CHR ''0'')"

definition verifyBootstrap :: "json \<Rightarrow> pinned_snapshot \<Rightarrow> kps_bootstrap result" where
  "verifyBootstrap v pinned =
     (if \<not> isPlainRecord v then invalid ''the bootstrap is not an object''
      else
        rbind (checkKeys v BOOTSTRAP_KEYS) (\<lambda>_.
        if json_field v ''format'' \<noteq> JsStr BOOTSTRAP_FORMAT then invalid ''format''
        else if json_field v ''chainId'' \<noteq> JsInt (ps_chainId pinned) then invalid ''chainId''
        else if json_field v ''registry'' \<noteq> JsStr (ps_registry pinned) then invalid ''registry''
        else if \<not> str_matches (\<lambda>s. ADDRESS_RE s \<and> s \<noteq> ZERO_ADDRESS) (json_field v ''registryImpl'') then invalid ''registryImpl''
        else
          rbind (checkAnchorList TopologyVerificationFailed (json_field v ''anchors'') 0) (\<lambda>anchors.
          rbind (checkRpcUrls TopologyVerificationFailed (json_field v ''registryRpcUrls'')) (\<lambda>rpcUrls.
          if \<not> isPlainRecord (json_field v ''policy'') then invalid ''policy is not an object''
          else
            rbind (checkKeys (json_field v ''policy'') POLICY_KEYS) (\<lambda>_.
            rbind (check_policy DISCOVERY_POLICY_RANGES (json_field v ''policy'')) (\<lambda>_.
            Inr \<lparr>kb_chainId = ps_chainId pinned, kb_registry = ps_registry pinned,
              kb_registryImpl = as_str (json_field v ''registryImpl''), kb_anchors = anchors, kb_registryRpcUrls = rpcUrls,
              kb_policy = as_policy (json_field v ''policy'')\<rparr>))))))"

subsection \<open>What a checked bootstrap satisfies\<close>

lemma check_unique_sound:
  "check_unique code good entries seen = Inr out \<Longrightarrow> distinct seen \<Longrightarrow> list_all good seen \<Longrightarrow>
     distinct out \<and> list_all good out \<and> length out = length seen + length entries"
  by (induction code good entries seen rule: check_unique.induct)
    (auto simp: str_matches_def as_str_def split: if_splits json.splits)

lemma checkAnchorList_sound:
  "checkAnchorList code v mn = Inr out \<Longrightarrow> distinct out \<and> list_all isKpsAddress out \<and> mn \<le> length out \<and> length out \<le> MAX_ANCHORS"
  by (auto simp: checkAnchorList_def split: json.splits if_splits dest!: check_unique_sound)

lemma checkRpcUrls_sound:
  "checkRpcUrls code v = Inr out \<Longrightarrow> distinct out \<and> list_all isAllowedRpcUrl out \<and> MIN_RPC_URLS \<le> length out \<and> length out \<le> MAX_RPC_URLS"
  by (auto simp: checkRpcUrls_def list_all_iff split: json.splits if_splits dest!: check_unique_sound)

lemma checkInteger_sound: "checkInteger v mn mx = Inr u \<Longrightarrow> mn \<le> as_int v \<and> as_int v \<le> mx"
  by (auto simp: checkInteger_def as_int_def split: json.splits if_splits)

definition policy_in_range :: "discovery_policy \<Rightarrow> bool" where
  "policy_in_range p = (2 \<le> dp_chainQuorum p \<and> dp_chainQuorum p \<le> 4 \<and> 60 \<le> dp_maxStateAgeSeconds p \<and> dp_maxStateAgeSeconds p \<le> 86400
     \<and> 1 \<le> dp_chainRefreshSeconds p \<and> dp_chainRefreshSeconds p \<le> 86400 \<and> 0 \<le> dp_probationMaxPerRoute p \<and> dp_probationMaxPerRoute p \<le> 2
     \<and> 0 \<le> dp_probationSeconds p \<and> dp_probationSeconds p \<le> 31536000 \<and> 2 \<le> dp_minRemovalSources p \<and> dp_minRemovalSources p \<le> 4
     \<and> 1 \<le> dp_minMembersPerLayer p \<and> dp_minMembersPerLayer p \<le> 4)"

lemma check_policy_sound: "check_policy DISCOVERY_POLICY_RANGES v = Inr () \<Longrightarrow> policy_in_range (as_policy v)"
  by (auto simp: DISCOVERY_POLICY_RANGES_def rbind_Inr_iff policy_in_range_def as_policy_def dest!: checkInteger_sound)

lemma verifyBootstrap_sound:
  assumes "verifyBootstrap v pinned = Inr b"
  shows "kb_chainId b = ps_chainId pinned \<and> kb_registry b = ps_registry pinned
    \<and> ADDRESS_RE (kb_registryImpl b) \<and> kb_registryImpl b \<noteq> ZERO_ADDRESS
    \<and> distinct (kb_anchors b) \<and> list_all isKpsAddress (kb_anchors b)
    \<and> distinct (kb_registryRpcUrls b) \<and> list_all isAllowedRpcUrl (kb_registryRpcUrls b) \<and> 2 \<le> length (kb_registryRpcUrls b)
    \<and> policy_in_range (kb_policy b)"
proof -
  obtain anchors urls where a: "checkAnchorList TopologyVerificationFailed (json_field v ''anchors'') 0 = Inr anchors"
      "checkRpcUrls TopologyVerificationFailed (json_field v ''registryRpcUrls'') = Inr urls"
      "check_policy DISCOVERY_POLICY_RANGES (json_field v ''policy'') = Inr ()"
      "str_matches (\<lambda>s. ADDRESS_RE s \<and> s \<noteq> ZERO_ADDRESS) (json_field v ''registryImpl'')"
      "b = \<lparr>kb_chainId = ps_chainId pinned, kb_registry = ps_registry pinned,
              kb_registryImpl = as_str (json_field v ''registryImpl''), kb_anchors = anchors, kb_registryRpcUrls = urls,
              kb_policy = as_policy (json_field v ''policy'')\<rparr>"
    using assms unfolding verifyBootstrap_def by (auto simp: rbind_Inr_iff split: if_splits)
  then show ?thesis
    using checkAnchorList_sound[OF a(1)] checkRpcUrls_sound[OF a(2)] check_policy_sound[OF a(3)]
    by (auto simp: MIN_RPC_URLS_def str_matches_def as_str_def split: json.splits)
qed

end
