(* ===== verification/Kps_Discovery.thy ===== *)
theory Kps_Discovery
  imports Kps_Bootstrap
begin

section \<open>The chain check\<close>

text \<open>
  \<open>packages/nox-client/src/kps/discovery.ts\<close>: reading the registry contract at one finalized block through several
  (exit, provider) pairs, and the membership an agreed answer gives. A JSON-RPC body is its list of calls; the reply is text, which
  \<open>parse_json\<close> reads (\<open>None\<close> when it is not JSON). ABI encoding and decoding belong to a third-party package: a contract call
  is named by its method and argument, and \<open>abi\<close> holds the decoders (\<open>None\<close> when they throw). The exchange
  \<open>send\<close> and the random indices are parameters.
\<close>

datatype discovery_failure = FailPartial | FailStaleBlock | FailChainId | FailImplementation | FailFingerprint | FailIncomplete

datatype discovery_error = DiscoveryError discovery_failure string | Rethrown nox_error

type_synonym 'a checked = "discovery_error + 'a"

fun cbind :: "'a checked \<Rightarrow> ('a \<Rightarrow> 'b checked) \<Rightarrow> 'b checked" where
  "cbind (Inl e) k = Inl e"
| "cbind (Inr x) k = k x"

lemma cbind_Inr_iff: "cbind m k = Inr y \<longleftrightarrow> (\<exists>x. m = Inr x \<and> k x = Inr y)"
  by (cases m) auto

abbreviation partial :: "string \<Rightarrow> 'a checked" where
  "partial msg \<equiv> Inl (DiscoveryError FailPartial msg)"

definition rethrow :: "'a result \<Rightarrow> 'a checked" where
  "rethrow r = (case r of Inl e \<Rightarrow> Inl (Rethrown e) | Inr x \<Rightarrow> Inr x)"

record finalized_block =
  fb_hash :: string
  fb_number :: int
  fb_timestamp :: int

record chain_member =
  cm_address :: string
  cm_sphinxKey :: string
  cm_url :: string
  cm_ingressUrl :: string
  cm_metadataUrl :: string
  cm_stake :: int
  cm_status :: int
  cm_frozen :: bool
  cm_role :: int

record registry_answer =
  ra_chainId :: int
  ra_block :: finalized_block
  ra_implementation :: string
  ra_relayerCount :: int
  ra_fingerprint :: string
  ra_members :: "(string, chain_member) jsmap"
  ra_canonical :: string

record chain_membership =
  ch_block :: finalized_block
  ch_fingerprint :: string
  ch_relayerCount :: int
  ch_registered :: "chain_member list"

text \<open>The calls of a request. \<open>eth_call\<close> and \<open>eth_getStorageAt\<close> are pinned to the block with the given hash.\<close>

datatype rpc_method =
    GetFinalizedBlock
  | GetBlockByHash string
  | ChainIdOf
  | GetImplementation string string
  | CallContract string string "string option" string
  | GetLogs string int int

record rpc_call =
  rc_id :: int
  rc_method :: rpc_method

record read_plan =
  rp_registry :: string
  rp_block :: finalized_block
  rp_candidates :: "string list"
  rp_calls :: "rpc_call list"

text \<open>The decoded results of \<open>relayerCount\<close>, \<open>topologyFingerprint\<close>, \<open>relayers\<close> and \<open>getNodeRole\<close>.\<close>

record registry_abi =
  abi_count :: "string \<Rightarrow> nat option"
  abi_fingerprint :: "string \<Rightarrow> string option"
  abi_relayers :: "string \<Rightarrow> chain_profile option"
  abi_role :: "string \<Rightarrow> nat option"

subsection \<open>Reading JSON-RPC replies\<close>

definition QUANTITY_RE :: "string \<Rightarrow> bool" where
  "QUANTITY_RE s = (take 2 s = ''0x'' \<and> (drop 2 s = ''0'' \<or> drop 2 s \<noteq> [] \<and> hd (drop 2 s) \<noteq> CHR ''0'' \<and> list_all lower_hex_char (drop 2 s)))"

definition DATA_RE :: "string \<Rightarrow> bool" where
  "DATA_RE s = (take 2 s = ''0x'' \<and> even (length (drop 2 s)) \<and> list_all lower_hex_char (drop 2 s))"

definition lower_text :: "json \<Rightarrow> string" where
  "lower_text v = (case v of JsStr s \<Rightarrow> toLowerCase s | _ \<Rightarrow> [])"

definition nat_of_hex :: "string \<Rightarrow> nat" where
  "nat_of_hex s = fold (\<lambda>c n. 16 * n + the (hex_value c)) s 0"

definition parseQuantity :: "json \<Rightarrow> int checked" where
  "parseQuantity v =
     (let text = lower_text v in
      if \<not> QUANTITY_RE text then partial ''not a hex quantity''
      else (let number = int (nat_of_hex (drop 2 text)) in
        if \<not> isSafeInteger number then partial ''out of range'' else Inr number))"

definition parseData :: "json \<Rightarrow> string checked" where
  "parseData v = (if \<not> DATA_RE (lower_text v) then partial ''not hex data'' else Inr (lower_text v))"

definition parseBlock :: "json \<Rightarrow> finalized_block checked" where
  "parseBlock v =
     (if \<not> isPlainRecord v then partial ''not a block object''
      else
        (let hash = lower_text (json_field v ''hash'') in
         if \<not> HASH_RE hash then partial ''no block hash''
         else cbind (parseQuantity (json_field v ''number'')) (\<lambda>number.
           cbind (parseQuantity (json_field v ''timestamp'')) (\<lambda>ts.
           Inr \<lparr>fb_hash = hash, fb_number = number, fb_timestamp = ts\<rparr>))))"

text \<open>\<open>decodeOne\<close>: a string is decoded as it is; anything else fails in \<open>parseData\<close>.\<close>

definition decodeOne :: "(string \<Rightarrow> 'a option) \<Rightarrow> json \<Rightarrow> 'a checked" where
  "decodeOne decode v =
     (case v of
        JsStr dat \<Rightarrow> (case decode dat of None \<Rightarrow> partial ''undecodable data'' | Some x \<Rightarrow> Inr x)
      | _ \<Rightarrow> partial ''not hex data'')"

text \<open>An identifier that is not an integer can never be one of the expected ones, so the reply is refused either way.\<close>

fun batch_items :: "json list \<Rightarrow> (int, json) jsmap \<Rightarrow> (int, json) jsmap checked" where
  "batch_items [] results = Inr results"
| "batch_items (item # rest) results =
     (case json_field item ''id'' of
        JsInt i \<Rightarrow>
          (if \<not> isPlainRecord item then partial ''no numeric id''
           else if json_field item ''error'' \<noteq> JsUndef then partial ''call failed''
           else if ''result'' \<notin> set (json_keys item) then partial ''no result''
           else if jsmap_has results i then partial ''answered twice''
           else batch_items rest (jsmap_set i (json_field item ''result'') results))
      | _ \<Rightarrow> partial ''no numeric id'')"

definition batchResults :: "(string \<Rightarrow> json option) \<Rightarrow> string \<Rightarrow> nat \<Rightarrow> (int, json) jsmap checked" where
  "batchResults parse_json text expected =
     (case parse_json text of
        Some (JsArr reply) \<Rightarrow>
          cbind (batch_items reply []) (\<lambda>results.
          if list_ex (\<lambda>i. \<not> jsmap_has results (int i)) [1..<Suc expected] then partial ''a call is missing''
          else if length results \<noteq> expected then partial ''too many items'' else Inr results)
      | _ \<Rightarrow> partial ''the reply is not a JSON array'')"

definition result_of :: "(int, json) jsmap \<Rightarrow> int \<Rightarrow> json" where
  "result_of results i = (case jsmap_get results i of None \<Rightarrow> JsUndef | Some v \<Rightarrow> v)"

definition finalizedBlockBody :: "rpc_call list" where
  "finalizedBlockBody = [\<lparr>rc_id = 1, rc_method = GetFinalizedBlock\<rparr>]"

definition parseFinalizedBlock :: "(string \<Rightarrow> json option) \<Rightarrow> string \<Rightarrow> finalized_block checked" where
  "parseFinalizedBlock parse_json text =
     (case parse_json text of
        None \<Rightarrow> partial ''the reply is not JSON''
      | Some reply \<Rightarrow>
          if \<not> isPlainRecord reply \<or> json_field reply ''id'' \<noteq> JsInt 1 then partial ''not a JSON-RPC reply with id 1''
          else parseBlock (json_field reply ''result''))"

subsection \<open>Candidates and plans\<close>

fun js_insert :: "string \<Rightarrow> string list \<Rightarrow> string list" where
  "js_insert x [] = [x]"
| "js_insert x (y # ys) = (if js_less y x then y # js_insert x ys else x # y # ys)"

definition js_sort :: "string list \<Rightarrow> string list" where
  "js_sort xs = foldr js_insert xs []"

definition lower_set :: "string list \<Rightarrow> string list" where
  "lower_set xs = js_unique (map toLowerCase xs) []"

definition listed_by :: "string list \<Rightarrow> served_topology list \<Rightarrow> (string, string list) jsmap" where
  "listed_by core served =
     fold (\<lambda>d acc. fold (\<lambda>n acc. let address = toLowerCase (rn_address n) in
         if address \<in> set core then acc
         else jsmap_set address (List.insert (sv_anchor d) (or_else_value (jsmap_get acc address) [])) acc) (sn_nodes (sv_snapshot d)) acc)
       served []"

text \<open>\<open>pool.splice(randomIndex(pool.length), 1)\<close>, \<open>room\<close> times; \<open>rnd taken n\<close> is the index drawn.\<close>

fun take_random :: "(nat \<Rightarrow> nat \<Rightarrow> nat) \<Rightarrow> nat \<Rightarrow> nat \<Rightarrow> string list \<Rightarrow> string list" where
  "take_random rnd taken 0 pool = []"
| "take_random rnd taken (Suc room) pool =
     (let k = rnd taken (length pool) in pool ! k # take_random rnd (Suc taken) room (take k pool @ drop (Suc k) pool))"

fun rank_tiers :: "(nat \<Rightarrow> nat \<Rightarrow> nat \<Rightarrow> nat) \<Rightarrow> nat \<Rightarrow> nat \<Rightarrow> string list list \<Rightarrow> string list \<Rightarrow> string list" where
  "rank_tiers rnd k mx [] out = out"
| "rank_tiers rnd k mx (tier # tiers) out =
     (let room = mx - length out in
      if room = 0 then out
      else if length tier \<le> room then rank_tiers rnd (Suc k) mx tiers (out @ tier)
      else rank_tiers rnd (Suc k) mx tiers (out @ take_random (rnd k) 0 room tier))"

definition rankChainCandidates ::
  "(nat \<Rightarrow> nat \<Rightarrow> nat \<Rightarrow> nat) \<Rightarrow> string list \<Rightarrow> served_topology list \<Rightarrow> int \<Rightarrow> nat \<Rightarrow> string list" where
  "rankChainCandidates rnd coreList served minSources mx =
     (let core = lower_set coreList;
          listed = listed_by core served;
          names = js_sort (map fst listed);
          quorum = (\<lambda>a. int (length (or_else_value (jsmap_get listed a) [])) \<ge> minSources) in
      rank_tiers rnd 0 mx [js_sort core, filter quorum names, filter (\<lambda>a. \<not> quorum a) names] [])"

definition registryReadPlan :: "string \<Rightarrow> finalized_block \<Rightarrow> string list \<Rightarrow> read_plan checked" where
  "registryReadPlan registry block candidates =
     (let sorted = js_sort (lower_set candidates); at = fb_hash block in
      if length sorted > MAX_CANDIDATES then Inl (DiscoveryError FailIncomplete ''candidate members exceed the bound'')
      else if \<not> list_all ADDRESS_RE sorted then partial ''candidate is not an address''
      else Inr \<lparr>rp_registry = registry, rp_block = block, rp_candidates = sorted,
        rp_calls =
          [\<lparr>rc_id = 1, rc_method = GetBlockByHash at\<rparr>, \<lparr>rc_id = 2, rc_method = ChainIdOf\<rparr>,
           \<lparr>rc_id = 3, rc_method = GetImplementation registry at\<rparr>,
           \<lparr>rc_id = 4, rc_method = CallContract registry ''relayerCount'' None at\<rparr>,
           \<lparr>rc_id = 5, rc_method = CallContract registry ''topologyFingerprint'' None at\<rparr>]
          @ concat (map (\<lambda>(index, address).
              [\<lparr>rc_id = 6 + int index * 2, rc_method = CallContract registry ''relayers'' (Some address) at\<rparr>,
               \<lparr>rc_id = 7 + int index * 2, rc_method = CallContract registry ''getNodeRole'' (Some address) at\<rparr>])
              (enumerate 0 sorted))\<rparr>)"

definition DISCOVERY_MAX_BATCH_CALLS :: nat where
  "DISCOVERY_MAX_BATCH_CALLS = 20"

fun chunks_of :: "nat \<Rightarrow> 'a list \<Rightarrow> 'a list list" where
  "chunks_of k xs = (if xs = [] \<or> k = 0 then [] else take k xs # chunks_of k (drop k xs))"

declare chunks_of.simps [simp del]

definition planBodies :: "read_plan \<Rightarrow> rpc_call list list" where
  "planBodies plan = chunks_of DISCOVERY_MAX_BATCH_CALLS (rp_calls plan)"

text \<open>\<open>mergeBatchReplies\<close>: \<open>stringify\<close> is \<open>JSON.stringify\<close>.\<close>

fun merge_items :: "(string \<Rightarrow> json option) \<Rightarrow> string list \<Rightarrow> json list \<Rightarrow> string + json list" where
  "merge_items parse_json [] items = Inr items"
| "merge_items parse_json (text # texts) items =
     (case parse_json text of
        Some (JsArr xs) \<Rightarrow> merge_items parse_json texts (items @ xs)
      | _ \<Rightarrow> Inl text)"

definition mergeBatchReplies :: "(string \<Rightarrow> json option) \<Rightarrow> (json \<Rightarrow> string) \<Rightarrow> string list \<Rightarrow> string" where
  "mergeBatchReplies parse_json stringify texts =
     (case merge_items parse_json texts [] of Inl text \<Rightarrow> text | Inr items \<Rightarrow> stringify (JsArr items))"

definition expectedReplyBytes :: "nat \<Rightarrow> nat" where
  "expectedReplyBytes candidates = 8192 + 2048 * candidates"

subsection \<open>One pair's answer\<close>

definition strip_lower :: "string \<Rightarrow> string" where
  "strip_lower s = strip_0x (toLowerCase s)"

definition chain_member_of :: "string \<Rightarrow> chain_profile \<Rightarrow> nat \<Rightarrow> chain_member" where
  "chain_member_of address profile role =
     \<lparr>cm_address = address, cm_sphinxKey = strip_lower (cp_sphinxKey profile), cm_url = cp_url profile,
      cm_ingressUrl = cp_ingressUrl profile, cm_metadataUrl = cp_metadataUrl profile, cm_stake = cp_stakedAmount profile,
      cm_status = cp_status profile, cm_frozen = cp_frozen profile, cm_role = int role\<rparr>"

text \<open>\<open>parts.join(sep)\<close>.\<close>

fun js_join :: "char \<Rightarrow> string list \<Rightarrow> string" where
  "js_join sep [] = []"
| "js_join sep [p] = p"
| "js_join sep (p # ps) = p @ sep # js_join sep ps"

abbreviation join_colon :: "string list \<Rightarrow> string" where
  "join_colon parts \<equiv> js_join (CHR '':'') parts"

fun answer_members ::
  "registry_abi \<Rightarrow> (int, json) jsmap \<Rightarrow> nat \<Rightarrow> string list \<Rightarrow> (string list \<times> (string, chain_member) jsmap)
     \<Rightarrow> (string list \<times> (string, chain_member) jsmap) checked" where
  "answer_members abi results index [] acc = Inr acc"
| "answer_members abi results index (address # rest) (canonical, members) =
     cbind (parseData (result_of results (6 + int index * 2))) (\<lambda>profileHex.
     cbind (parseData (result_of results (7 + int index * 2))) (\<lambda>roleHex.
     cbind (decodeOne (abi_relayers abi) (JsStr profileHex)) (\<lambda>profile.
     cbind (decodeOne (abi_role abi) (JsStr roleHex)) (\<lambda>role.
     answer_members abi results (Suc index) rest
       (canonical @ [join_colon [address, profileHex, roleHex]],
        if cp_isRegistered profile then jsmap_set address (chain_member_of address profile role) members else members)))))"

abbreviation join_lines :: "string list \<Rightarrow> string" where
  "join_lines ls \<equiv> js_join (CHR 0x0A) ls"

definition decimal :: "int \<Rightarrow> string" where
  "decimal n = dec_string (nat n)"

definition parseRegistryAnswer ::
  "(string \<Rightarrow> json option) \<Rightarrow> registry_abi \<Rightarrow> read_plan \<Rightarrow> string \<Rightarrow> registry_answer checked" where
  "parseRegistryAnswer parse_json abi plan text =
     cbind (batchResults parse_json text (length (rp_calls plan))) (\<lambda>results.
     cbind (parseBlock (result_of results 1)) (\<lambda>block.
     if block \<noteq> rp_block plan then partial ''another block than the finalized block''
     else
       cbind (parseQuantity (result_of results 2)) (\<lambda>chainId.
       cbind (parseData (result_of results 3)) (\<lambda>slot.
       if length slot \<noteq> 66 then partial ''the implementation slot is not 32 bytes''
       else
         cbind (decodeOne (abi_count abi) (result_of results 4)) (\<lambda>cnt.
         cbind (decodeOne (abi_fingerprint abi) (result_of results 5)) (\<lambda>fp.
         if \<not> isSafeInteger (int cnt) then partial ''relayerCount is out of range''
         else
           cbind (answer_members abi results 0 (rp_candidates plan)
             ([join_colon [''block'', fb_hash block, decimal (fb_number block), decimal (fb_timestamp block)],
               join_colon [''chain'', decimal chainId], join_colon [''impl'', slot], join_colon [''count'', decimal (int cnt)],
               join_colon [''fingerprint'', strip_lower fp]], [])) (\<lambda>(canonical, members).
           Inr \<lparr>ra_chainId = chainId, ra_block = block, ra_implementation = ''0x'' @ drop 26 slot, ra_relayerCount = int cnt,
             ra_fingerprint = strip_lower fp, ra_members = members, ra_canonical = join_lines canonical\<rparr>)))))))"

definition answersAgree :: "string list \<Rightarrow> bool" where
  "answersAgree canonicals = (length canonicals > 0 \<and> list_all (\<lambda>c. c = hd canonicals) canonicals)"

fun insert_member :: "chain_member \<Rightarrow> chain_member list \<Rightarrow> chain_member list" where
  "insert_member m [] = [m]"
| "insert_member m (x # xs) = (if js_less (cm_address x) (cm_address m) then x # insert_member m xs else m # x # xs)"

definition as_relayer :: "chain_member \<Rightarrow> relayer_node" where
  "as_relayer m = \<lparr>rn_address = cm_address m, sphinx_key = cm_sphinxKey m, rn_url = cm_url m, stake = decimal (cm_stake m),
     last_seen = 0, is_privileged = False, rn_layer = 0, rn_role = cm_role m, ingress_url = None, metadata_url = None\<rparr>"

definition closeMembership :: "(bytes \<Rightarrow> string) \<Rightarrow> registry_answer \<Rightarrow> kps_bootstrap \<Rightarrow> chain_membership checked" where
  "closeMembership keccak256 answer bootstrap =
     (if ra_chainId answer \<noteq> kb_chainId bootstrap then Inl (DiscoveryError FailChainId ''the providers serve another chain'')
      else if ra_implementation answer \<noteq> kb_registryImpl bootstrap
      then Inl (DiscoveryError FailImplementation ''the registry proxy points at another implementation'')
      else
        (let registered = foldr insert_member (map snd (ra_members answer)) [] in
         if int (length registered) < ra_relayerCount answer
         then Inl (DiscoveryError FailIncomplete ''registered members are hidden'')
         else cbind (rethrow (computeTopologyFingerprint keccak256 (map as_relayer registered))) (\<lambda>computed.
           if int (length registered) \<noteq> ra_relayerCount answer \<or> computed \<noteq> ra_fingerprint answer
           then Inl (DiscoveryError FailFingerprint ''registered members hash to another fingerprint'')
           else Inr \<lparr>ch_block = ra_block answer, ch_fingerprint = ra_fingerprint answer, ch_relayerCount = ra_relayerCount answer,
             ch_registered = registered\<rparr>)))"

end
