(* ===== verification/Kps_Chain_Check.thy ===== *)
theory Kps_Chain_Check
  imports Kps_Discovery
begin

section \<open>Running a chain check\<close>

text \<open>
  The rest of \<open>kps/discovery.ts\<close>: choosing the pairs, the attempts and the log scan of \<open>runChainCheck\<close>, and the membership a
  verified read gives (\<open>membershipFromChain\<close>). An exchange is a function of its attempt and round, so the same request may be
  answered differently each time; \<open>None\<close> is a rejected one. The sets of misbehaving exits and providers, which
  the code updates in place, are returned.
\<close>

subsection \<open>The registration logs\<close>

definition LOG_CHUNK_BLOCKS :: int where
  "LOG_CHUNK_BLOCKS = 2000000"

definition LOG_MAX_CHUNKS :: nat where
  "LOG_MAX_CHUNKS = 8"

function log_calls :: "string \<Rightarrow> int \<Rightarrow> int \<Rightarrow> int \<Rightarrow> rpc_call list" where
  "log_calls registry start toBlock i =
     (if start \<le> toBlock
      then \<lparr>rc_id = i, rc_method = GetLogs registry start (min toBlock (start + LOG_CHUNK_BLOCKS - 1))\<rparr>
           # log_calls registry (start + LOG_CHUNK_BLOCKS) toBlock (i + 1)
      else [])"
  by pat_completeness auto
termination by (relation "measure (\<lambda>(_, start, toBlock, _). nat (toBlock - start + 1))") (auto simp: LOG_CHUNK_BLOCKS_def)

declare log_calls.simps [simp del]

definition registrationLogsBody :: "string \<Rightarrow> int \<Rightarrow> int \<Rightarrow> rpc_call list checked" where
  "registrationLogsBody registry fromBlock toBlock =
     (let calls = log_calls registry fromBlock toBlock 1 in
      if length calls > LOG_MAX_CHUNKS then Inl (DiscoveryError FailIncomplete ''the registration log scan spans too many chunks'')
      else Inr calls)"

text \<open>\<open>string_of\<close> is \<open>String(value)\<close>.\<close>

fun parse_logs :: "(json \<Rightarrow> string) \<Rightarrow> int \<Rightarrow> json list \<Rightarrow> string list \<times> string list \<Rightarrow> (string list \<times> string list) checked" where
  "parse_logs string_of i [] acc = Inr acc"
| "parse_logs string_of i (log # rest) (addresses, canonical) =
     (case json_field log ''topics'' of
        JsArr topics \<Rightarrow>
          (let topic = (if 1 < length topics then lower_text (topics ! 1) else []) in
           if \<not> isPlainRecord log then partial ''a registration log has no topics''
           else if \<not> HASH_RE topic then partial ''a registration log has no relayer topic''
           else
             (let address = ''0x'' @ drop 26 topic in
              parse_logs string_of i rest
                (addresses @ [address],
                 canonical @ [join_colon [decimal i, toLowerCase (string_of (json_field log ''blockNumber'')),
                   toLowerCase (string_of (json_field log ''logIndex'')), address]])))
      | _ \<Rightarrow> partial ''a registration log has no topics'')"

fun parse_chunks ::
  "(json \<Rightarrow> string) \<Rightarrow> (int, json) jsmap \<Rightarrow> int list \<Rightarrow> string list \<times> string list \<Rightarrow> (string list \<times> string list) checked" where
  "parse_chunks string_of results [] acc = Inr acc"
| "parse_chunks string_of results (i # is) acc =
     (case result_of results i of
        JsArr logs \<Rightarrow> cbind (parse_logs string_of i logs acc) (\<lambda>acc'. parse_chunks string_of results is acc')
      | _ \<Rightarrow> partial ''eth_getLogs chunk is not a list'')"

definition parseRegistrationLogs ::
  "(string \<Rightarrow> json option) \<Rightarrow> (json \<Rightarrow> string) \<Rightarrow> string \<Rightarrow> nat \<Rightarrow> (string list \<times> string) checked" where
  "parseRegistrationLogs parse_json string_of text chunks =
     cbind (batchResults parse_json text chunks) (\<lambda>results.
     cbind (parse_chunks string_of results (map int [1..<Suc chunks]) ([], [])) (\<lambda>(addresses, canonical).
     Inr (js_sort (js_unique addresses []), join_lines canonical)))"

subsection \<open>Pairs of exits and providers\<close>

record read_pair =
  pr_exit :: string
  pr_provider :: string

record avoid_sets =
  av_exits :: "string list"
  av_providers :: "string list"

text \<open>The Fisher-Yates loop; \<open>rnd i n\<close> is the draw below \<open>n\<close> at index \<open>i\<close>.\<close>

definition js_swap :: "'a list \<Rightarrow> nat \<Rightarrow> nat \<Rightarrow> 'a list" where
  "js_swap xs i j = xs[i := xs ! j, j := xs ! i]"

fun shuffle_from :: "(nat \<Rightarrow> nat \<Rightarrow> nat) \<Rightarrow> nat \<Rightarrow> 'a list \<Rightarrow> 'a list" where
  "shuffle_from rnd 0 xs = xs"
| "shuffle_from rnd (Suc i) xs = shuffle_from rnd i (js_swap xs (Suc i) (rnd (Suc i) (Suc i + 1)))"

definition js_shuffle :: "(nat \<Rightarrow> nat \<Rightarrow> nat) \<Rightarrow> 'a list \<Rightarrow> 'a list" where
  "js_shuffle rnd xs = shuffle_from rnd (length xs - 1) xs"

definition orderPreferred :: "(nat \<Rightarrow> nat \<Rightarrow> nat \<Rightarrow> nat) \<Rightarrow> nat \<Rightarrow> ('a \<Rightarrow> bool) \<Rightarrow> 'a list \<Rightarrow> 'a list" where
  "orderPreferred rnd site avoided items =
     js_shuffle (rnd site) (filter (\<lambda>x. \<not> avoided x) items) @ js_shuffle (rnd (Suc site)) (filter avoided items)"

definition providers_by_key :: "string list \<Rightarrow> (string, string list) jsmap" where
  "providers_by_key providers =
     fold (\<lambda>u acc. jsmap_set (rpcProviderKey u) (or_else_value (jsmap_get acc (rpcProviderKey u)) [] @ [u]) acc) providers []"

definition choosePairs ::
  "(nat \<Rightarrow> nat \<Rightarrow> nat \<Rightarrow> nat) \<Rightarrow> string list \<Rightarrow> string list \<Rightarrow> nat \<Rightarrow> avoid_sets \<Rightarrow> read_pair list option" where
  "choosePairs rnd exitIds providers quorum avoid =
     (let exits = orderPreferred rnd 0 (\<lambda>x. x \<in> set (av_exits avoid)) (js_unique exitIds []);
          byKey = providers_by_key providers;
          keys = orderPreferred rnd 2 (\<lambda>k. k \<in> set (av_providers avoid)) (map fst byKey) in
      if length exits < quorum \<or> length keys < quorum then None
      else Some (map (\<lambda>(index, key). let urls = the (jsmap_get byKey key) in
             \<lparr>pr_exit = exits ! index, pr_provider = urls ! rnd 4 index (length urls)\<rparr>) (enumerate 0 (take quorum keys))))"

definition blame :: "read_pair \<Rightarrow> avoid_sets \<Rightarrow> avoid_sets" where
  "blame pair avoid = \<lparr>av_exits = List.insert (pr_exit pair) (av_exits avoid),
     av_providers = List.insert (rpcProviderKey (pr_provider pair)) (av_providers avoid)\<rparr>"

subsection \<open>The check\<close>

record chain_context =
  cc_bootstrap :: kps_bootstrap
  cc_providers :: "string list"
  cc_quorum :: nat
  cc_exits :: "string list"
  cc_candidates :: "string list"
  cc_core :: "string list"
  cc_minBlock :: int
  cc_logsFromBlock :: int
  cc_nowUnix :: int

text \<open>What lies outside: the exchanges and the library functions.\<close>

record chain_world =
  cw_send :: "nat \<Rightarrow> nat \<Rightarrow> read_pair \<Rightarrow> rpc_call list \<Rightarrow> nat \<Rightarrow> string option"
  cw_random :: "nat \<Rightarrow> nat \<Rightarrow> nat \<Rightarrow> nat \<Rightarrow> nat"
  cw_parse :: "string \<Rightarrow> json option"
  cw_stringify :: "json \<Rightarrow> string"
  cw_string_of :: "json \<Rightarrow> string"
  cw_abi :: registry_abi
  cw_keccak :: "bytes \<Rightarrow> string"

definition DISCOVERY_PAIRING_BUDGET :: nat where
  "DISCOVERY_PAIRING_BUDGET = 3"

definition DISCOVERY_CLOCK_SKEW_SECONDS :: int where
  "DISCOVERY_CLOCK_SKEW_SECONDS = 600"

definition checkBlockWindow :: "finalized_block \<Rightarrow> chain_context \<Rightarrow> unit checked" where
  "checkBlockWindow block context =
     (let age = cc_nowUnix context - fb_timestamp block in
      if fb_number block < cc_minBlock context then Inl (DiscoveryError FailStaleBlock ''before the minimum block'')
      else if age > dp_maxStateAgeSeconds (kb_policy (cc_bootstrap context)) then Inl (DiscoveryError FailStaleBlock ''too old'')
      else if - age > DISCOVERY_CLOCK_SKEW_SECONDS then Inl (DiscoveryError FailStaleBlock ''in the future'')
      else Inr ())"

fun send_bodies :: "(rpc_call list \<Rightarrow> string option) \<Rightarrow> rpc_call list list \<Rightarrow> string list option" where
  "send_bodies send [] = Some []"
| "send_bodies send (body # bodies) =
     (case send body of None \<Rightarrow> None | Some reply \<Rightarrow> map_option (Cons reply) (send_bodies send bodies))"

definition pair_read ::
  "chain_world \<Rightarrow> nat \<Rightarrow> nat \<Rightarrow> rpc_call list list \<Rightarrow> nat \<Rightarrow> (string \<Rightarrow> 'a checked) \<Rightarrow> read_pair \<Rightarrow> 'a option" where
  "pair_read w attempt round bodies expectedBytes parse pair =
     (case send_bodies (\<lambda>body. cw_send w attempt round pair body expectedBytes) bodies of
        None \<Rightarrow> None
      | Some replies \<Rightarrow>
          (case parse (if length bodies = 1 then replies ! 0 else mergeBatchReplies (cw_parse w) (cw_stringify w) replies) of
             Inl e \<Rightarrow> None | Inr x \<Rightarrow> Some x))"

definition readAll ::
  "chain_world \<Rightarrow> nat \<Rightarrow> nat \<Rightarrow> read_pair list \<Rightarrow> rpc_call list list \<Rightarrow> nat \<Rightarrow> (string \<Rightarrow> 'a checked) \<Rightarrow> read_pair list + 'a list" where
  "readAll w attempt round pairs bodies expectedBytes parse =
     (let results = map (pair_read w attempt round bodies expectedBytes parse) pairs;
          failed = map fst (filter (\<lambda>(_, r). r = None) (zip pairs results)) in
      if length failed > 0 then Inl failed else Inr (map the results))"

datatype chain_outcome =
    OutVerified chain_membership "read_pair list" nat bool
  | OutInsufficient
  | OutDisagreement nat
  | OutIncomplete
  | OutRejected discovery_failure
  | OutFailed nat

text \<open>How one pairing ends: the check returns, throws, or tries another pairing.\<close>

datatype pairing_end = Returns chain_outcome | Throws discovery_error | NextPairing avoid_sets nat

definition blame_all :: "read_pair list \<Rightarrow> avoid_sets \<Rightarrow> avoid_sets" where
  "blame_all pairs avoid = fold blame pairs avoid"

function read_loop ::
  "chain_world \<Rightarrow> chain_context \<Rightarrow> nat \<Rightarrow> read_pair list \<Rightarrow> finalized_block \<Rightarrow> bool \<Rightarrow> string list \<Rightarrow> avoid_sets \<Rightarrow> nat \<Rightarrow> pairing_end" where
  "read_loop w context attempt pairs block logScan candidates avoid disagreements =
     (case registryReadPlan (kb_registry (cc_bootstrap context)) block candidates of
        Inl e \<Rightarrow> Throws e
      | Inr plan \<Rightarrow>
          (let bodies = planBodies plan in
           case readAll w attempt (if logScan then 3 else 1) pairs bodies
                  (expectedReplyBytes ((length (rp_candidates plan) + length bodies - 1) div length bodies))
                  (parseRegistryAnswer (cw_parse w) (cw_abi w) plan) of
             Inl failed \<Rightarrow> NextPairing (blame_all failed avoid) disagreements
           | Inr answers \<Rightarrow>
               if \<not> answersAgree (map ra_canonical answers) then NextPairing (blame_all pairs avoid) (disagreements + 1)
               else
                 (case closeMembership (cw_keccak w) (hd answers) (cc_bootstrap context) of
                    Inr membership \<Rightarrow> Returns (OutVerified membership pairs attempt logScan)
                  | Inl (Rethrown e) \<Rightarrow> Throws (Rethrown e)
                  | Inl (DiscoveryError kind _) \<Rightarrow>
                      if kind \<noteq> FailIncomplete then Returns (OutRejected kind)
                      else if logScan then Returns OutIncomplete
                      else
                        (case registrationLogsBody (kb_registry (cc_bootstrap context)) (cc_logsFromBlock context) (fb_number block) of
                           Inl _ \<Rightarrow> Returns OutIncomplete
                         | Inr scan \<Rightarrow>
                             (case readAll w attempt 2 pairs [scan] 65536
                                     (\<lambda>text. parseRegistrationLogs (cw_parse w) (cw_string_of w) text (length scan)) of
                                Inl _ \<Rightarrow> Returns OutIncomplete
                              | Inr logs \<Rightarrow>
                                  if \<not> answersAgree (map snd logs) then NextPairing (blame_all pairs avoid) (disagreements + 1)
                                  else
                                    (let completed = lower_set (cc_core context @ fst (hd logs)) in
                                     if length completed > MAX_CANDIDATES then Returns OutIncomplete
                                     else read_loop w context attempt pairs block True completed avoid disagreements))))))"
  by pat_completeness auto
termination by (relation "measure (\<lambda>(_, _, _, _, _, logScan, _). if logScan then 0 else 1)") auto

declare read_loop.simps [simp del]

definition one_pairing :: "chain_world \<Rightarrow> chain_context \<Rightarrow> nat \<Rightarrow> avoid_sets \<Rightarrow> nat \<Rightarrow> pairing_end" where
  "one_pairing w context attempt avoid disagreements =
     (case choosePairs (cw_random w attempt) (cc_exits context) (cc_providers context) (cc_quorum context) avoid of
        None \<Rightarrow> Returns OutInsufficient
      | Some pairs \<Rightarrow>
          (case (case cw_send w attempt 0 (hd pairs) finalizedBlockBody 4096 of
                   None \<Rightarrow> partial ''exchange failed''
                 | Some text \<Rightarrow>
                     cbind (parseFinalizedBlock (cw_parse w) text) (\<lambda>block. cbind (checkBlockWindow block context) (\<lambda>_. Inr block))) of
             Inl _ \<Rightarrow> NextPairing (blame (hd pairs) avoid) disagreements
           | Inr block \<Rightarrow>
               read_loop w context attempt pairs block False (take MAX_CANDIDATES (cc_candidates context)) avoid disagreements))"

fun chain_attempts :: "chain_world \<Rightarrow> chain_context \<Rightarrow> nat \<Rightarrow> avoid_sets \<Rightarrow> nat \<Rightarrow> chain_outcome checked" where
  "chain_attempts w context 0 avoid disagreements =
     Inr (if disagreements > 0 then OutDisagreement DISCOVERY_PAIRING_BUDGET else OutFailed DISCOVERY_PAIRING_BUDGET)"
| "chain_attempts w context (Suc left) avoid disagreements =
     (case one_pairing w context (DISCOVERY_PAIRING_BUDGET - left) avoid disagreements of
        Returns outcome \<Rightarrow> Inr outcome
      | Throws e \<Rightarrow> Inl e
      | NextPairing avoid' disagreements' \<Rightarrow> chain_attempts w context left avoid' disagreements')"

definition runChainCheck :: "chain_world \<Rightarrow> chain_context \<Rightarrow> avoid_sets \<Rightarrow> chain_outcome checked" where
  "runChainCheck w context avoid = chain_attempts w context DISCOVERY_PAIRING_BUDGET avoid 0"

subsection \<open>The membership of a verified read\<close>

record member_first_seen =
  mf_address :: string
  mf_block :: int
  mf_time :: int

definition isEligible :: "chain_member \<Rightarrow> bool" where
  "isEligible p = ((cm_status p = 1 \<or> cm_status p = 2) \<and> \<not> cm_frozen p \<and> (cm_role p = 1 \<or> cm_role p = 2 \<or> cm_role p = 3)
     \<and> lower_hex_text 64 (cm_sphinxKey p) \<and> length (cm_url p) > 0)"

definition in_floor_layer :: "route_layer \<Rightarrow> int \<Rightarrow> bool \<Rightarrow> bool" where
  "in_floor_layer layer role kps =
     (case layer of
        LayerEntry \<Rightarrow> 0 \<in> set (layersForRole role) \<and> kps
      | LayerMix \<Rightarrow> 1 \<in> set (layersForRole role)
      | LayerExit \<Rightarrow> role = 2 \<or> role = 3)"

definition in_layer :: "route_layer \<Rightarrow> 'a pinned_member_scheme \<Rightarrow> bool" where
  "in_layer layer m = in_floor_layer layer (pm_role m) (kpsAddrFromMetadataUrl (pm_metadataUrl m) \<noteq> None)"

definition floor_by_address :: "pinned_snapshot \<Rightarrow> (string, pinned_member) jsmap" where
  "floor_by_address pinned = fold (\<lambda>m. jsmap_set (pm_address m) m) (eligiblePinnedMembers pinned) []"

definition floor_match :: "pinned_snapshot \<Rightarrow> chain_member \<Rightarrow> pinned_member option" where
  "floor_match pinned p =
     (case jsmap_get (floor_by_address pinned) (cm_address p) of
        None \<Rightarrow> None
      | Some f \<Rightarrow> if pm_sphinxKey f = cm_sphinxKey p \<and> pm_role f = cm_role p then Some f else None)"

definition first_sight :: "(string, member_first_seen) jsmap \<Rightarrow> finalized_block \<Rightarrow> chain_member \<Rightarrow> member_first_seen" where
  "first_sight firstSeen block p =
     (case jsmap_get firstSeen (cm_address p) of
        Some f \<Rightarrow> f
      | None \<Rightarrow> \<lparr>mf_address = cm_address p, mf_block = fb_number block, mf_time = fb_timestamp block\<rparr>)"

definition chain_record ::
  "(string \<Rightarrow> bytes) \<Rightarrow> pinned_snapshot \<Rightarrow> (string, member_first_seen) jsmap \<Rightarrow> finalized_block \<Rightarrow> discovery_policy \<Rightarrow> int
     \<Rightarrow> chain_member \<Rightarrow> member_record" where
  "chain_record sha256 pinned firstSeen block policy nowUnix p =
     \<lparr>pm_address = cm_address p, pm_sphinxKey = cm_sphinxKey p, pm_url = cm_url p, pm_ingressUrl = cm_ingressUrl p,
      pm_metadataUrl = cm_metadataUrl p, pm_stake = decimal (cm_stake p), pm_role = cm_role p,
      pm_layer = primaryLayerForRole sha256 (cm_address p) (cm_role p), pm_status = cm_status p, pm_frozen = False,
      pm_capabilities = (case floor_match pinned p of None \<Rightarrow> [] | Some f \<Rightarrow> pm_capabilities f),
      mr_floor = (floor_match pinned p \<noteq> None),
      mr_probation = (floor_match pinned p = None \<and> nowUnix - mf_time (first_sight firstSeen block p) < dp_probationSeconds policy)\<rparr>"

text \<open>The floor of one layer: \<open>members\<close> and \<open>keptByFloor\<close> so far; \<open>present\<close> is the addresses of \<open>members\<close>.\<close>

definition kept_count :: "route_layer \<Rightarrow> member_record list \<Rightarrow> int" where
  "kept_count layer members = int (length (filter (\<lambda>m. mr_floor m \<and> in_layer layer m) members))"

definition as_floor_record :: "pinned_member \<Rightarrow> member_record" where
  "as_floor_record m = pinned_member.extend m \<lparr>mr_floor = True, mr_probation = False\<rparr>"

fun floor_fill ::
  "route_layer \<Rightarrow> int \<Rightarrow> pinned_member list \<Rightarrow> member_record list \<times> string list \<Rightarrow> member_record list \<times> string list" where
  "floor_fill layer target [] st = st"
| "floor_fill layer target (m # ms) (members, kept) =
     (if kept_count layer members \<ge> target then (members, kept)
      else if pm_address m \<in> set (map pm_address members) then floor_fill layer target ms (members, kept)
      else floor_fill layer target ms (members @ [as_floor_record m], kept @ [pm_address m]))"

definition floor_layer_step ::
  "pinned_snapshot \<Rightarrow> discovery_policy \<Rightarrow> route_layer \<Rightarrow> member_record list \<times> string list \<Rightarrow> member_record list \<times> string list" where
  "floor_layer_step pinned policy layer st =
     (let floorInLayer = filter (in_layer layer) (map snd (floor_by_address pinned)) in
      floor_fill layer (min (dp_minMembersPerLayer policy) (int (length floorInLayer))) floorInLayer st)"

fun insert_record :: "member_record \<Rightarrow> member_record list \<Rightarrow> member_record list" where
  "insert_record m [] = [m]"
| "insert_record m (x # xs) = (if js_less (pm_address x) (pm_address m) then x # insert_record m xs else m # x # xs)"

record chain_members =
  cs_members :: "member_record list"
  cs_firstSeen :: "(string, member_first_seen) jsmap"
  cs_keptByFloor :: "string list"
  cs_probation :: "string list"

definition membershipFromChain ::
  "(string \<Rightarrow> bytes) \<Rightarrow> pinned_snapshot \<Rightarrow> chain_membership \<Rightarrow> (string, member_first_seen) jsmap \<Rightarrow> discovery_policy \<Rightarrow> int
     \<Rightarrow> chain_members" where
  "membershipFromChain sha256 pinned chain firstSeen policy nowUnix =
     (let eligible = filter isEligible (ch_registered chain);
          (members, kept) = fold (floor_layer_step pinned policy) ROUTE_LAYERS
             (map (chain_record sha256 pinned firstSeen (ch_block chain) policy nowUnix) eligible, []);
          sorted = foldr insert_record members [] in
      \<lparr>cs_members = sorted,
       cs_firstSeen = fold (\<lambda>p. jsmap_set (cm_address p) (first_sight firstSeen (ch_block chain) p))
         (filter (\<lambda>p. floor_match pinned p = None) eligible) [],
       cs_keptByFloor = kept, cs_probation = map pm_address (filter mr_probation sorted)\<rparr>)"

end
