(* ===== verification/Kps_Chain_Safety.thy ===== *)
theory Kps_Chain_Safety
  imports Kps_Chain_Check Kps_Removals
begin

section \<open>What a chain check establishes\<close>

text \<open>
  A verified membership was answered, byte for byte the same, by as many pairs as the quorum asks for, no two of them sharing an exit or a
  provider; equal canonical texts mean equal answers; and the membership built from it is a sound base for the removals-only rule that
  drops no member of the snapshot below the floor.
\<close>

subsection \<open>Choosing pairs\<close>

definition draws_in_range :: "(nat \<Rightarrow> nat \<Rightarrow> nat \<Rightarrow> nat) \<Rightarrow> bool" where
  "draws_in_range rnd = (\<forall>site i n. 0 < n \<longrightarrow> rnd site i n < n)"

lemma length_js_swap [simp]: "length (js_swap xs i j) = length xs"
  by (simp add: js_swap_def)

lemma mset_js_swap: "i < length xs \<Longrightarrow> j < length xs \<Longrightarrow> mset (js_swap xs i j) = mset xs"
  unfolding js_swap_def by (rule mset_swap)

lemma mset_shuffle_from:
  "i < length xs \<or> i = 0 \<Longrightarrow> (\<And>k n. 0 < n \<Longrightarrow> rnd k n < n) \<Longrightarrow> mset (shuffle_from rnd i xs) = mset xs"
proof (induction rnd i xs rule: shuffle_from.induct)
  case (2 rnd i xs)
  have "rnd (Suc i) (Suc i + 1) < Suc i + 1" by (rule 2(3)) simp
  then have "rnd (Suc i) (Suc i + 1) < length xs" using 2(2) by simp
  then show ?case using 2 by (simp add: mset_js_swap)
qed simp

lemma mset_js_shuffle: "(\<And>k n. 0 < n \<Longrightarrow> rnd k n < n) \<Longrightarrow> mset (js_shuffle rnd xs) = mset xs"
  unfolding js_shuffle_def by (rule mset_shuffle_from) (cases xs; auto)+

lemma mset_split: "mset (filter (\<lambda>x. \<not> P x) xs) + mset (filter P xs) = mset xs"
  by (induction xs) auto

lemma mset_orderPreferred: "draws_in_range rnd \<Longrightarrow> mset (orderPreferred rnd site avoided items) = mset items"
  unfolding orderPreferred_def draws_in_range_def mset_append by (simp add: mset_js_shuffle mset_split del: mset_filter)

lemma set_orderPreferred: "draws_in_range rnd \<Longrightarrow> set (orderPreferred rnd site avoided items) = set items"
  by (metis mset_orderPreferred set_mset_mset)

lemma distinct_orderPreferred: "draws_in_range rnd \<Longrightarrow> distinct (orderPreferred rnd site avoided items) = distinct items"
  by (metis mset_orderPreferred mset_eq_imp_distinct_iff)

lemma providers_by_key_sound:
  "jsmap_wf (providers_by_key providers) \<and> (\<forall>k us. (k, us) \<in> set (providers_by_key providers) \<longrightarrow>
     us \<noteq> [] \<and> (\<forall>u \<in> set us. rpcProviderKey u = k \<and> u \<in> set providers))"
proof -
  define good where "good m = (jsmap_wf m \<and> (\<forall>k us. (k, us) \<in> set m \<longrightarrow>
     us \<noteq> [] \<and> (\<forall>u \<in> set us. rpcProviderKey u = k \<and> u \<in> set providers)))" for m
  have step: "good (jsmap_set (rpcProviderKey u) (or_else_value (jsmap_get m (rpcProviderKey u)) [] @ [u]) m)"
    if "good m" "u \<in> set providers" for m u
  proof -
    have wf: "jsmap_wf m" and old: "\<And>k us. (k, us) \<in> set m \<Longrightarrow> us \<noteq> [] \<and> (\<forall>u \<in> set us. rpcProviderKey u = k \<and> u \<in> set providers)"
      using that(1) by (auto simp: good_def)
    have "\<forall>v \<in> set (or_else_value (jsmap_get m (rpcProviderKey u)) []). rpcProviderKey v = rpcProviderKey u \<and> v \<in> set providers"
      using old jsmap_get_Some_in[of m "rpcProviderKey u"] by (cases "jsmap_get m (rpcProviderKey u)") auto
    then show ?thesis using wf old that(2) unfolding good_def set_jsmap_set[OF wf] by (auto simp: jsmap_wf_set)
  qed
  have "good (fold (\<lambda>u acc. jsmap_set (rpcProviderKey u) (or_else_value (jsmap_get acc (rpcProviderKey u)) [] @ [u]) acc) us m)"
    if "set us \<subseteq> set providers" "good m" for us m
    using that
  proof (induction us arbitrary: m)
    case (Cons u us)
    then have "set us \<subseteq> set providers" "u \<in> set providers" by auto
    from Cons.IH[OF this(1) step[OF Cons.prems(2) this(2)]] show ?case by (simp only: fold_Cons comp_def)
  qed simp
  moreover have "good []" by (simp add: good_def)
  ultimately have "good (providers_by_key providers)" unfolding providers_by_key_def by blast
  then show ?thesis unfolding good_def .
qed

lemma choosePairs_sound:
  assumes "choosePairs rnd exitIds providers quorum avoid = Some pairs" "draws_in_range rnd"
  shows "length pairs = quorum \<and> distinct (map pr_exit pairs) \<and> set (map pr_exit pairs) \<subseteq> set exitIds
    \<and> distinct (map (rpcProviderKey \<circ> pr_provider) pairs) \<and> set (map pr_provider pairs) \<subseteq> set providers"
proof -
  let ?exits = "orderPreferred rnd 0 (\<lambda>x. x \<in> set (av_exits avoid)) (js_unique exitIds [])"
  let ?by = "providers_by_key providers"
  let ?keys = "orderPreferred rnd 2 (\<lambda>k. k \<in> set (av_providers avoid)) (map fst ?by)"
  let ?pair = "\<lambda>(index, key). \<lparr>pr_exit = ?exits ! index,
     pr_provider = the (jsmap_get ?by key) ! rnd 4 index (length (the (jsmap_get ?by key)))\<rparr>"
  have q: "quorum \<le> length ?exits" "quorum \<le> length ?keys" and pairs: "pairs = map ?pair (enumerate 0 (take quorum ?keys))"
    using assms(1) unfolding choosePairs_def Let_def by (simp_all add: case_prod_unfold split: if_splits)
  note by_key = providers_by_key_sound[of providers]
  have keys: "distinct ?keys" "set ?keys = set (map fst ?by)"
    using by_key unfolding distinct_orderPreferred[OF assms(2)] set_orderPreferred[OF assms(2)] by (simp_all add: jsmap_wf_def)
  have len: "length pairs = quorum" using q(2) by (simp add: pairs)
  have "map pr_exit pairs = take quorum ?exits"
    using q by (intro nth_equalityI) (simp_all add: pairs nth_enumerate_eq)
  moreover have "distinct ?exits" "set ?exits = set exitIds"
    unfolding distinct_orderPreferred[OF assms(2)] set_orderPreferred[OF assms(2)] using js_unique_set[of "[]" exitIds] by auto
  ultimately have exits: "distinct (map pr_exit pairs)" "set (map pr_exit pairs) \<subseteq> set exitIds"
    by (auto simp: distinct_take dest: in_set_takeD)
  have nth: "rpcProviderKey (pr_provider (pairs ! i)) = ?keys ! i \<and> pr_provider (pairs ! i) \<in> set providers" if "i < quorum" for i
  proof -
    have "?keys ! i \<in> set (map fst ?by)" using that q(2) keys(2) nth_mem[of i ?keys] by auto
    then obtain us where us: "(?keys ! i, us) \<in> set ?by" by auto
    then have get: "jsmap_get ?by (?keys ! i) = Some us" using by_key jsmap_get_iff[of ?by] by blast
    have "rnd 4 i (length us) < length us" using us by_key assms(2) by (auto simp: draws_in_range_def)
    then have "us ! rnd 4 i (length us) \<in> set us" by simp
    moreover have "pr_provider (pairs ! i) = us ! rnd 4 i (length us)"
      using that q(2) get by (simp add: pairs nth_enumerate_eq)
    ultimately show ?thesis using us by_key by auto
  qed
  have "map (rpcProviderKey \<circ> pr_provider) pairs = take quorum ?keys"
    using q(2) len nth by (intro nth_equalityI) simp_all
  then have "distinct (map (rpcProviderKey \<circ> pr_provider) pairs)" using keys(1) by (simp add: distinct_take)
  moreover have "set (map pr_provider pairs) \<subseteq> set providers" using nth len by (auto simp: in_set_conv_nth)
  ultimately show ?thesis using len exits by blast
qed

subsection \<open>Canonical texts\<close>

lemma js_join_Cons: "js_join c (p # ps) = p @ concat (map (Cons c) ps)"
  by (induction ps arbitrary: p) auto

lemma join_tail_inj:
  "concat (map (Cons c) xs) = concat (map (Cons c) ys) \<Longrightarrow> \<forall>p \<in> set xs \<union> set ys. c \<notin> set p \<Longrightarrow> xs = ys"
proof (induction xs arbitrary: ys)
  case Nil
  then show ?case by (cases ys) auto
next
  case (Cons x xs)
  then obtain y ys' where ys: "ys = y # ys'" by (cases ys) auto
  have cut: "takeWhile (\<lambda>d. d \<noteq> c) (p @ concat (map (Cons c) ps)) = p" if "c \<notin> set p" for p ps
    using that by (cases ps) (auto simp: takeWhile_append)
  have eq: "x @ concat (map (Cons c) xs) = y @ concat (map (Cons c) ys')" using Cons.prems(1) ys by simp
  have "x = y" using arg_cong[OF eq, of "takeWhile (\<lambda>d. d \<noteq> c)"] Cons.prems(2) ys by (simp add: cut)
  then show ?case using Cons.IH[of ys'] eq Cons.prems(2) ys by auto
qed

lemma js_join_inj:
  assumes "js_join c xs = js_join c ys" "length xs = length ys" "\<forall>p \<in> set xs \<union> set ys. c \<notin> set p"
  shows "xs = ys"
proof (cases xs)
  case (Cons x xs')
  then obtain y ys' where ys: "ys = y # ys'" using assms(2) by (cases ys) auto
  have "concat (map (Cons c) (x # xs')) = concat (map (Cons c) (y # ys'))" using assms(1) Cons ys by (simp add: js_join_Cons)
  then show ?thesis using join_tail_inj[of c "x # xs'" "y # ys'"] assms(3) Cons ys by simp
qed (use assms(2) in simp)

text \<open>Text without colon and line feed.\<close>

definition plain_part :: "string \<Rightarrow> bool" where
  "plain_part s = (CHR '':'' \<notin> set s \<and> CHR 0x0A \<notin> set s)"

definition plain_line :: "string \<Rightarrow> bool" where
  "plain_line s = (CHR 0x0A \<notin> set s)"

lemma plain_join: "list_all plain_part ps \<Longrightarrow> plain_line (join_colon ps)"
  by (induction "CHR '':''" ps rule: js_join.induct) (auto simp: plain_part_def plain_line_def)

lemma colon_inj: "join_colon xs = join_colon ys \<Longrightarrow> length xs = length ys \<Longrightarrow> list_all plain_part xs \<Longrightarrow> list_all plain_part ys \<Longrightarrow> xs = ys"
  by (rule js_join_inj) (auto simp: plain_part_def list_all_iff)

lemma lower_hex_plain: "list_all lower_hex_char s \<Longrightarrow> plain_part s"
  by (auto simp: plain_part_def list_all_iff lower_hex_char_def is_digit_def)

lemma prefix_plain: "take 2 s = ''0x'' \<Longrightarrow> plain_part (drop 2 s) \<Longrightarrow> plain_part s"
proof -
  assume a: "take 2 s = ''0x''" "plain_part (drop 2 s)"
  have "set s = set (take 2 s) \<union> set (drop 2 s)" by (metis append_take_drop_id set_append)
  then show "plain_part s" using a(2) unfolding a(1) by (auto simp: plain_part_def)
qed

lemma decimal_plain: "plain_part (decimal n)"
  using nat_of_digits_dec[of "nat n"] by (auto simp: decimal_def plain_part_def list_all_iff is_digit_def)

lemma decimal_inj: "0 \<le> a \<Longrightarrow> 0 \<le> b \<Longrightarrow> decimal a = decimal b \<Longrightarrow> a = b"
  unfolding decimal_def using nat_of_digits_dec by (metis eq_nat_nat_iff)

lemma parseData_plain: "parseData v = Inr s \<Longrightarrow> plain_part s \<and> take 2 s = ''0x''"
  by (auto simp: parseData_def DATA_RE_def split: if_splits intro: prefix_plain lower_hex_plain)

lemma address_plain: "ADDRESS_RE a \<Longrightarrow> plain_part a"
  by (auto simp: ADDRESS_RE_def lower_hex_text_def intro: prefix_plain lower_hex_plain)

lemma hash_plain: "HASH_RE a \<Longrightarrow> plain_part a"
  by (auto simp: HASH_RE_def lower_hex_text_def intro: prefix_plain lower_hex_plain)

lemma parseBlock_hash: "parseBlock v = Inr b \<Longrightarrow> HASH_RE (fb_hash b)"
  by (auto simp: parseBlock_def Let_def cbind_Inr_iff split: if_splits)

lemma parseQuantity_nonneg: "parseQuantity v = Inr n \<Longrightarrow> 0 \<le> n"
  by (auto simp: parseQuantity_def Let_def split: if_splits)

text \<open>The lines of the candidates determine the members.\<close>

lemma answer_members_lines:
  assumes "answer_members abi results k cands (c, m) = Inr (c', m')" "list_all ADDRESS_RE cands"
  shows "\<exists>ls. c' = c @ ls \<and> length ls = length cands \<and> list_all plain_line ls"
  using assms
proof (induction abi results k cands "(c, m)" arbitrary: c m rule: answer_members.induct)
  case (2 abi results k a rest c m)
  then obtain p r profile role where x: "parseData (result_of results (6 + int k * 2)) = Inr p"
    "parseData (result_of results (7 + int k * 2)) = Inr r"
    "decodeOne (abi_relayers abi) (JsStr p) = Inr profile" "decodeOne (abi_role abi) (JsStr r) = Inr role"
    "answer_members abi results (Suc k) rest (c @ [join_colon [a, p, r]],
        if cp_isRegistered profile then jsmap_set a (chain_member_of a profile role) m else m) = Inr (c', m')"
    by (auto simp: cbind_Inr_iff)
  have "plain_line (join_colon [a, p, r])"
    using 2(3) address_plain x(1,2) by (intro plain_join) (auto dest: parseData_plain)
  moreover obtain ls where "c' = (c @ [join_colon [a, p, r]]) @ ls" "length ls = length rest" "list_all plain_line ls"
    using 2(1)[OF x(5)] 2(3) by auto
  ultimately show ?case by (intro exI[of _ "join_colon [a, p, r] # ls"]) auto
qed simp

lemma answer_members_agree:
  assumes "answer_members abi r1 k cands (c, m) = Inr (c', m1)" "answer_members abi r2 k cands (c, m) = Inr (c', m2)"
    and "list_all ADDRESS_RE cands"
  shows "m1 = m2"
  using assms
proof (induction cands arbitrary: k c m)
  case (Cons a rest)
  let ?line = "\<lambda>p r. join_colon [a, p, r]"
  let ?next = "\<lambda>profile role. if cp_isRegistered profile then jsmap_set a (chain_member_of a profile role) m else m"
  obtain p1 q1 f1 g1 where x: "parseData (result_of r1 (6 + int k * 2)) = Inr p1" "parseData (result_of r1 (7 + int k * 2)) = Inr q1"
    "decodeOne (abi_relayers abi) (JsStr p1) = Inr f1" "decodeOne (abi_role abi) (JsStr q1) = Inr g1"
    "answer_members abi r1 (Suc k) rest (c @ [?line p1 q1], ?next f1 g1) = Inr (c', m1)"
    using Cons.prems(1) by (auto simp: cbind_Inr_iff)
  obtain p2 q2 f2 g2 where y: "parseData (result_of r2 (6 + int k * 2)) = Inr p2" "parseData (result_of r2 (7 + int k * 2)) = Inr q2"
    "decodeOne (abi_relayers abi) (JsStr p2) = Inr f2" "decodeOne (abi_role abi) (JsStr q2) = Inr g2"
    "answer_members abi r2 (Suc k) rest (c @ [?line p2 q2], ?next f2 g2) = Inr (c', m2)"
    using Cons.prems(2) by (auto simp: cbind_Inr_iff)
  have rest: "list_all ADDRESS_RE rest" using Cons.prems(3) by simp
  obtain l1 l2 where "c' = (c @ [?line p1 q1]) @ l1" "c' = (c @ [?line p2 q2]) @ l2"
    using answer_members_lines[OF x(5) rest] answer_members_lines[OF y(5) rest] by blast
  then have "?line p1 q1 = ?line p2 q2" by simp
  then have "[a, p1, q1] = [a, p2, q2]"
    using colon_inj[of "[a, p1, q1]" "[a, p2, q2]"] address_plain Cons.prems(3) x(1,2) y(1,2)
    by (auto dest: parseData_plain)
  then have eq: "p2 = p1" "q2 = q1" by simp_all
  then have fg: "f2 = f1" "g2 = g1" using x(3,4) y(3,4) by simp_all
  show ?case by (rule Cons.IH[OF x(5) y(5)[unfolded eq fg] rest])
qed simp

lemma lower_char_separators: "lower_char c = CHR '':'' \<Longrightarrow> c = CHR '':''" "lower_char c = CHR 0x0A \<Longrightarrow> c = CHR 0x0A"
proof -
  have "lower_char c = d \<Longrightarrow> (of_char d :: nat) < 64 \<Longrightarrow> c = d" for d
    by (auto simp: lower_char_def Let_def split: if_splits)
  then show "lower_char c = CHR '':'' \<Longrightarrow> c = CHR '':''" "lower_char c = CHR 0x0A \<Longrightarrow> c = CHR 0x0A" by simp_all
qed

lemma strip_lower_plain:
  assumes "plain_part s"
  shows "plain_part (strip_lower s)"
proof -
  have "d \<notin> set (toLowerCase s)" if "d \<notin> set s" "\<And>c. lower_char c = d \<Longrightarrow> c = d" for d
  proof
    assume "d \<in> set (toLowerCase s)"
    then obtain c where c: "c \<in> set s" "lower_char c = d" by (auto simp: toLowerCase_def)
    then show False using that(1) that(2)[OF c(2)] by simp
  qed
  from this[OF _ lower_char_separators(1)] this[OF _ lower_char_separators(2)]
  have "plain_part (toLowerCase s)" using assms unfolding plain_part_def by simp
  then show ?thesis by (auto simp: strip_lower_def strip_0x_def plain_part_def dest: in_set_dropD)
qed

text \<open>The first five lines of an answer.\<close>

definition head_lines :: "registry_answer \<Rightarrow> string \<Rightarrow> string list" where
  "head_lines ans slot =
     [join_colon [''block'', fb_hash (ra_block ans), decimal (fb_number (ra_block ans)), decimal (fb_timestamp (ra_block ans))],
      join_colon [''chain'', decimal (ra_chainId ans)], join_colon [''impl'', slot], join_colon [''count'', decimal (ra_relayerCount ans)],
      join_colon [''fingerprint'', ra_fingerprint ans]]"

lemma cbind_InrE:
  assumes "cbind m k = Inr y"
  obtains x where "m = Inr x" "k x = Inr y"
  using assms by (auto simp: cbind_Inr_iff)

lemma if_InlE:
  assumes "(if c then Inl e else k) = Inr y"
  obtains "\<not> c" "k = Inr y"
  using assms by (auto split: if_splits)

lemma prod_InrE:
  assumes "(case p of (a, b) \<Rightarrow> f a b) = Inr y"
  obtains a b where "p = (a, b)" "f a b = Inr y"
  using assms by (cases p) auto

lemma parseRegistryAnswer_parts:
  assumes "parseRegistryAnswer parse_json abi plan text = Inr ans"
  obtains results slot lines where
    "answer_members abi results 0 (rp_candidates plan) (head_lines ans slot, []) = Inr (lines, ra_members ans)"
    "ra_canonical ans = join_lines lines" "ra_block ans = rp_block plan" "HASH_RE (fb_hash (ra_block ans))" "plain_part slot"
    "ra_implementation ans = ''0x'' @ drop 26 slot" "0 \<le> ra_chainId ans" "0 \<le> ra_relayerCount ans"
    "\<exists>d fp. abi_fingerprint abi d = Some fp \<and> ra_fingerprint ans = strip_lower fp"
proof -
  from assms obtain results block chainId slot cnt fp lines members where x:
    "parseBlock (result_of results 1) = Inr block" "block = rp_block plan" "parseQuantity (result_of results 2) = Inr chainId"
    "parseData (result_of results 3) = Inr slot" "decodeOne (abi_fingerprint abi) (result_of results 5) = Inr fp"
    "answer_members abi results 0 (rp_candidates plan)
      ([join_colon [''block'', fb_hash block, decimal (fb_number block), decimal (fb_timestamp block)],
               join_colon [''chain'', decimal chainId], join_colon [''impl'', slot], join_colon [''count'', decimal (int cnt)],
               join_colon [''fingerprint'', strip_lower fp]], []) = Inr (lines, members)"
    "ans = \<lparr>ra_chainId = chainId, ra_block = block, ra_implementation = ''0x'' @ drop 26 slot, ra_relayerCount = int cnt,
             ra_fingerprint = strip_lower fp, ra_members = members, ra_canonical = join_lines lines\<rparr>"
    unfolding parseRegistryAnswer_def
  proof (elim cbind_InrE if_InlE prod_InrE, goal_cases)
    case (1 results block chainId slot cnt fp p lines members)
    show ?case
      by (rule 1(1)[OF 1(3) _ 1(5,6) 1(9)]) (use 1 in auto)
  qed
  have dec: "\<exists>d fp'. abi_fingerprint abi d = Some fp' \<and> ra_fingerprint ans = strip_lower fp'"
  proof -
    have "\<exists>d. abi_fingerprint abi d = Some fp" using x(5) by (auto simp: decodeOne_def split: json.splits option.splits)
    moreover have "ra_fingerprint ans = strip_lower fp" unfolding x(7) by simp
    ultimately show ?thesis by blast
  qed
  have hash: "HASH_RE (fb_hash block)" and plain: "plain_part slot" and chain: "0 \<le> chainId"
    using parseBlock_hash[OF x(1)] parseData_plain[OF x(4)] parseQuantity_nonneg[OF x(3)] by auto
  show ?thesis
    by (rule that[of results slot lines]) (use x(6) in \<open>simp add: x(7) head_lines_def\<close>, simp add: x(7), simp add: x(2,7),
      simp add: x(7) hash, rule plain, simp add: x(7), simp add: x(7) chain, simp add: x(7), rule dec)
qed

text \<open>
  Agreement on the text is agreement on the values. Two replies to the same read that parse to answers with the same canonical text
  are the same answer: chain, block, implementation, count, fingerprint and every member's profile. So comparing the texts,
  as the check does, misses no difference; the fingerprint the ABI decoder returns is assumed to be text without line breaks or colons.
\<close>

theorem canonical_determines:
  assumes "parseRegistryAnswer parse_json abi plan text = Inr a" "parseRegistryAnswer parse_json abi plan text' = Inr b"
    and "ra_canonical a = ra_canonical b" "list_all ADDRESS_RE (rp_candidates plan)"
    and decoder: "\<forall>d s. abi_fingerprint abi d = Some s \<longrightarrow> plain_part s"
  shows "a = b"
proof -
  have fp_plain: "plain_part (strip_lower fp)" if "abi_fingerprint abi d = Some fp" for d fp
    using decoder that by (intro strip_lower_plain) blast
  obtain r1 s1 l1 where x: "answer_members abi r1 0 (rp_candidates plan) (head_lines a s1, []) = Inr (l1, ra_members a)"
    "ra_canonical a = join_lines l1" "ra_block a = rp_block plan" "HASH_RE (fb_hash (ra_block a))" "plain_part s1"
    "ra_implementation a = ''0x'' @ drop 26 s1" "0 \<le> ra_chainId a" "0 \<le> ra_relayerCount a" "plain_part (ra_fingerprint a)"
    using parseRegistryAnswer_parts[OF assms(1)] fp_plain by metis
  obtain r2 s2 l2 where y: "answer_members abi r2 0 (rp_candidates plan) (head_lines b s2, []) = Inr (l2, ra_members b)"
    "ra_canonical b = join_lines l2" "ra_block b = rp_block plan" "HASH_RE (fb_hash (ra_block b))" "plain_part s2"
    "ra_implementation b = ''0x'' @ drop 26 s2" "0 \<le> ra_chainId b" "0 \<le> ra_relayerCount b" "plain_part (ra_fingerprint b)"
    using parseRegistryAnswer_parts[OF assms(2)] fp_plain by metis
  have plain: "list_all plain_line (head_lines ans slot)"
    if "HASH_RE (fb_hash (ra_block ans))" "plain_part slot" "plain_part (ra_fingerprint ans)" for ans slot
    using that hash_plain decimal_plain unfolding head_lines_def unfolding list.pred_inject by (intro conjI TrueI plain_join) (auto simp: plain_part_def)
  obtain t1 t2 where t: "l1 = head_lines a s1 @ t1" "l2 = head_lines b s2 @ t2" "length t1 = length t2"
    "list_all plain_line t1" "list_all plain_line t2"
    using answer_members_lines[OF x(1) assms(4)] answer_members_lines[OF y(1) assms(4)] by auto
  have "l1 = l2"
  proof (rule js_join_inj)
    show "join_lines l1 = join_lines l2" using assms(3) x(2) y(2) by simp
    show "length l1 = length l2" using t by (simp add: head_lines_def)
    show "\<forall>p \<in> set l1 \<union> set l2. CHR 0x0A \<notin> set p"
      using t plain[OF x(4,5,9)] plain[OF y(4,5,9)] by (auto simp: list_all_iff plain_line_def)
  qed
  then have heads: "head_lines a s1 = head_lines b s2" using t by (simp add: head_lines_def)
  have "[''chain'', decimal (ra_chainId a)] = [''chain'', decimal (ra_chainId b)]"
    "[''impl'', s1] = [''impl'', s2]" "[''count'', decimal (ra_relayerCount a)] = [''count'', decimal (ra_relayerCount b)]"
    "[''fingerprint'', ra_fingerprint a] = [''fingerprint'', ra_fingerprint b]"
    using heads by (auto simp: head_lines_def)
  then have "ra_chainId a = ra_chainId b" "s1 = s2" "ra_relayerCount a = ra_relayerCount b" "ra_fingerprint a = ra_fingerprint b"
    using x(7,8) y(7,8) decimal_inj by auto
  moreover have "ra_members a = ra_members b"
    using answer_members_agree[OF x(1) _ assms(4), of r2] y(1) \<open>l1 = l2\<close> heads by simp
  ultimately show ?thesis using x(2,3,6) y(2,3,6) \<open>l1 = l2\<close> by (simp add: registry_answer.equality)
qed

text \<open>The replies to a read of an empty registry; the second one answers its calls in the opposite order.\<close>

definition demo_items :: "json list" where
  "demo_items =
     [JsObj [(''id'', JsInt 1), (''result'', JsObj [(''hash'', JsStr (''0x'' @ replicate 64 (CHR ''a''))), (''number'', JsStr ''0x9''), (''timestamp'', JsStr ''0x9'')])],
      JsObj [(''id'', JsInt 2), (''result'', JsStr ''0x1'')],
      JsObj [(''id'', JsInt 3), (''result'', JsStr (''0x'' @ replicate 64 (CHR ''0'')))],
      JsObj [(''id'', JsInt 4), (''result'', JsStr ''0x'')], JsObj [(''id'', JsInt 5), (''result'', JsStr ''0x'')]]"

definition demo_parse :: "string \<Rightarrow> json option" where
  "demo_parse t = (if t = ''f'' then Some (hd demo_items) else if t = ''r'' then Some (JsArr demo_items) else Some (JsArr (rev demo_items)))"

definition demo_abi :: registry_abi where
  "demo_abi = \<lparr>abi_count = (\<lambda>_. Some 0), abi_fingerprint = (\<lambda>_. Some (replicate 64 (CHR ''0''))), abi_relayers = (\<lambda>_. None),
     abi_role = (\<lambda>_. None)\<rparr>"

definition demo_block :: finalized_block where
  "demo_block = \<lparr>fb_hash = ''0x'' @ replicate 64 (CHR ''a''), fb_number = 9, fb_timestamp = 9\<rparr>"

definition demo_plan :: read_plan where
  "demo_plan = \<lparr>rp_registry = [], rp_block = demo_block, rp_candidates = [], rp_calls = replicate 5 \<lparr>rc_id = 1, rc_method = ChainIdOf\<rparr>\<rparr>"

lemma demo_answers:
  "case (parseRegistryAnswer demo_parse demo_abi demo_plan ''r'', parseRegistryAnswer demo_parse demo_abi demo_plan ''s'') of
     (Inr a, Inr b) \<Rightarrow> ra_canonical a = ra_canonical b | _ \<Rightarrow> False"
  by code_simp

theorem canonical_determines_witness:
  "\<exists>a. parseRegistryAnswer demo_parse demo_abi demo_plan ''r'' = Inr a \<and> parseRegistryAnswer demo_parse demo_abi demo_plan ''s'' = Inr a"
proof -
  obtain a b where ab: "parseRegistryAnswer demo_parse demo_abi demo_plan ''r'' = Inr a"
    "parseRegistryAnswer demo_parse demo_abi demo_plan ''s'' = Inr b" "ra_canonical a = ra_canonical b"
    using demo_answers by (auto split: sum.splits)
  have "list_all ADDRESS_RE (rp_candidates demo_plan)" by (simp add: demo_plan_def)
  moreover have "\<forall>d s. abi_fingerprint demo_abi d = Some s \<longrightarrow> plain_part s" by (auto simp: demo_abi_def plain_part_def)
  ultimately show ?thesis using canonical_determines[OF ab] ab by auto
qed

end
