(* ===== verification/Kps_Chain_Verified.thy ===== *)
theory Kps_Chain_Verified
  imports Kps_Chain_Safety
begin

section \<open>Verified memberships\<close>

text \<open>
  What a chain check that ends \<open>verified\<close> guarantees, over any replies of any pairs in any attempt, and what the membership built from
  it keeps of the snapshot.
\<close>

subsection \<open>A verified check\<close>

lemma readAll_Inr:
  assumes "readAll w attempt round pairs bodies n parse = Inr answers"
  shows "map (pair_read w attempt round bodies n parse) pairs = map Some answers"
proof -
  let ?results = "map (pair_read w attempt round bodies n parse) pairs"
  have none: "filter (\<lambda>(_, r). r = None) (zip pairs ?results) = []" and answers: "answers = map the ?results"
    using assms unfolding readAll_def Let_def by (auto split: if_splits)
  have "\<forall>r \<in> set ?results. r \<noteq> None"
  proof
    fix r assume "r \<in> set ?results"
    then obtain p where "p \<in> set pairs" "r = pair_read w attempt round bodies n parse p" by auto
    then have "(p, r) \<in> set (zip pairs ?results)" by (auto simp: set_zip in_set_conv_nth)
    then show "r \<noteq> None" using none by (auto simp: filter_empty_conv)
  qed
  then show ?thesis unfolding answers map_map by (intro map_cong) auto
qed

text \<open>Every pair answered the same read of the same block, all answers carry the same text, and the set they name closes.\<close>

definition agreed_read :: "chain_world \<Rightarrow> chain_context \<Rightarrow> nat \<Rightarrow> nat \<Rightarrow> read_pair list \<Rightarrow> finalized_block \<Rightarrow> chain_membership \<Rightarrow> bool" where
  "agreed_read w context attempt round pairs block ms =
     (\<exists>candidates plan bytes answers.
        registryReadPlan (kb_registry (cc_bootstrap context)) block candidates = Inr plan
      \<and> map (pair_read w attempt round (planBodies plan) bytes (parseRegistryAnswer (cw_parse w) (cw_abi w) plan)) pairs = map Some answers
      \<and> (\<forall>a \<in> set answers. ra_canonical a = ra_canonical (hd answers))
      \<and> answers \<noteq> [] \<and> closeMembership (cw_keccak w) (hd answers) (cc_bootstrap context) = Inr ms)"

lemma agreed_readI:
  assumes "registryReadPlan (kb_registry (cc_bootstrap context)) block candidates = Inr plan"
    and "readAll w attempt round pairs (planBodies plan) n (parseRegistryAnswer (cw_parse w) (cw_abi w) plan) = Inr answers"
    and "answersAgree (map ra_canonical answers)"
    and "closeMembership (cw_keccak w) (hd answers) (cc_bootstrap context) = Inr ms"
  shows "agreed_read w context attempt round pairs block ms"
proof -
  have "answers \<noteq> []" "\<forall>a \<in> set answers. ra_canonical a = ra_canonical (hd answers)"
    using assms(3) by (cases answers; auto simp: answersAgree_def list_all_iff)+
  then show ?thesis unfolding agreed_read_def using assms(1) readAll_Inr[OF assms(2)] assms(4) by blast
qed

lemma read_loop_scanned:
  assumes "read_loop w context attempt pairs block True candidates avoid d = Returns (OutVerified ms pairs' attempt' scan)"
  shows "pairs' = pairs \<and> attempt' = attempt \<and> agreed_read w context attempt 3 pairs block ms"
  using assms
  by (subst (asm) read_loop.simps) (auto simp: Let_def split: sum.splits if_splits discovery_error.splits intro: agreed_readI)

lemma read_loop_sound:
  assumes "read_loop w context attempt pairs block False candidates avoid d = Returns (OutVerified ms pairs' attempt' scan)"
  shows "pairs' = pairs \<and> attempt' = attempt \<and> (\<exists>round. agreed_read w context attempt round pairs block ms)"
  using assms
  by (subst (asm) read_loop.simps)
    (auto simp: Let_def split: sum.splits if_splits discovery_error.splits intro: agreed_readI dest!: read_loop_scanned)

definition verified_by :: "chain_world \<Rightarrow> chain_context \<Rightarrow> nat \<Rightarrow> read_pair list \<Rightarrow> chain_membership \<Rightarrow> bool" where
  "verified_by w context attempt pairs ms =
     (\<exists>avoid block round. choosePairs (cw_random w attempt) (cc_exits context) (cc_providers context) (cc_quorum context) avoid = Some pairs
        \<and> checkBlockWindow block context = Inr () \<and> agreed_read w context attempt round pairs block ms)"

lemma one_pairing_sound:
  assumes "one_pairing w context attempt avoid d = Returns (OutVerified ms pairs attempt' scan)"
  shows "attempt' = attempt \<and> verified_by w context attempt pairs ms"
  using assms unfolding one_pairing_def verified_by_def
  by (fastforce split: option.splits sum.splits dest!: read_loop_sound elim!: cbind_InrE)

lemma chain_attempts_sound:
  "chain_attempts w context left avoid d = Inr (OutVerified ms pairs attempt scan) \<Longrightarrow> left \<le> DISCOVERY_PAIRING_BUDGET
   \<Longrightarrow> DISCOVERY_PAIRING_BUDGET - left < attempt \<and> attempt \<le> DISCOVERY_PAIRING_BUDGET \<and> verified_by w context attempt pairs ms"
proof (induction w "context" left avoid d rule: chain_attempts.induct)
  case (2 w ctx left avoid d)
  show ?case
  proof (cases "one_pairing w ctx (DISCOVERY_PAIRING_BUDGET - left) avoid d")
    case (Returns outcome)
    then have "one_pairing w ctx (DISCOVERY_PAIRING_BUDGET - left) avoid d = Returns (OutVerified ms pairs attempt scan)"
      using 2(2) by simp
    from one_pairing_sound[OF this] show ?thesis using 2(3) by auto
  next
    case (NextPairing a d')
    then show ?thesis using 2 by fastforce
  qed (use 2(2) in simp)
qed (simp split: if_splits)

text \<open>The members of an answer are candidates, each once.\<close>

lemma answer_members_keys:
  assumes "answer_members abi results k cands (c, m) = Inr (c', m')"
    and "jsmap_wf m" "\<forall>(a, p) \<in> set m. cm_address p = a \<and> a \<in> set seen"
  shows "jsmap_wf m' \<and> (\<forall>(a, p) \<in> set m'. cm_address p = a \<and> a \<in> set seen \<union> set cands)"
  using assms
proof (induction abi results k cands "(c, m)" arbitrary: c m seen rule: answer_members.induct)
  case (2 abi results k a rest c m)
  let ?m = "\<lambda>profile role. if cp_isRegistered profile then jsmap_set a (chain_member_of a profile role) m else m"
  obtain p r profile role where x:
    "answer_members abi results (Suc k) rest (c @ [join_colon [a, p, r]], ?m profile role) = Inr (c', m')"
    using 2(2) by (auto simp: cbind_Inr_iff)
  have wf: "jsmap_wf (?m profile role)" using 2(3) by (simp add: jsmap_wf_set)
  have keys: "\<forall>(b, q) \<in> set (?m profile role). cm_address q = b \<and> b \<in> set (a # seen)"
    using 2(4) by (auto simp: set_jsmap_set[OF 2(3)] chain_member_of_def)
  show ?case using 2(1)[OF x wf keys] by auto
qed simp

lemma mset_insert_member: "mset (insert_member m xs) = add_mset m (mset xs)"
  by (induction xs) auto

lemma mset_registered: "mset (foldr insert_member ms []) = mset ms"
  by (induction ms) (simp_all add: mset_insert_member)

lemma closeMembership_sound:
  assumes "closeMembership k answer bootstrap = Inr ms"
  shows "ch_block ms = ra_block answer \<and> mset (ch_registered ms) = mset (map snd (ra_members answer))
    \<and> int (length (ch_registered ms)) = ch_relayerCount ms
    \<and> computeTopologyFingerprint k (map as_relayer (ch_registered ms)) = Inr (ch_fingerprint ms)"
  using assms
  by (auto simp: closeMembership_def Let_def cbind_Inr_iff mset_registered rethrow_def split: if_splits sum.splits)

lemma registryReadPlan_sound:
  assumes "registryReadPlan registry block candidates = Inr plan"
  shows "rp_block plan = block \<and> list_all ADDRESS_RE (rp_candidates plan)"
  using assms by (auto simp: registryReadPlan_def Let_def split: if_splits)

lemma agreed_members:
  assumes "agreed_read w context attempt round pairs block ms"
  shows "ch_block ms = block \<and> distinct (map cm_address (ch_registered ms)) \<and> list_all ADDRESS_RE (map cm_address (ch_registered ms))
    \<and> int (length (ch_registered ms)) = ch_relayerCount ms
    \<and> computeTopologyFingerprint (cw_keccak w) (map as_relayer (ch_registered ms)) = Inr (ch_fingerprint ms)"
proof -
  from assms obtain candidates plan bytes answers where x:
    "registryReadPlan (kb_registry (cc_bootstrap context)) block candidates = Inr plan"
    "map (pair_read w attempt round (planBodies plan) bytes (parseRegistryAnswer (cw_parse w) (cw_abi w) plan)) pairs = map Some answers"
    "answers \<noteq> []" "closeMembership (cw_keccak w) (hd answers) (cc_bootstrap context) = Inr ms"
    unfolding agreed_read_def by blast
  obtain a rest pair more where a: "answers = a # rest" "pairs = pair # more" using x(2,3) by (cases answers; cases pairs) auto
  then obtain t where "parseRegistryAnswer (cw_parse w) (cw_abi w) plan t = Inr a"
    using x(2) by (auto simp: pair_read_def split: option.splits sum.splits if_splits)
  then obtain results slot ls where parts:
    "answer_members (cw_abi w) results 0 (rp_candidates plan) (head_lines a slot, []) = Inr (ls, ra_members a)"
    "ra_block a = rp_block plan" by (rule parseRegistryAnswer_parts)
  have members: "jsmap_wf (ra_members a)" "\<forall>(b, p) \<in> set (ra_members a). cm_address p = b \<and> b \<in> set (rp_candidates plan)"
    using answer_members_keys[OF parts(1), of "[]"] by auto
  have addresses: "map cm_address (map snd (ra_members a)) = map fst (ra_members a)" using members(2) by auto
  have clo: "ch_block ms = ra_block a" "mset (ch_registered ms) = mset (map snd (ra_members a))"
    "int (length (ch_registered ms)) = ch_relayerCount ms"
    "computeTopologyFingerprint (cw_keccak w) (map as_relayer (ch_registered ms)) = Inr (ch_fingerprint ms)"
    using closeMembership_sound[OF x(4)] a by simp_all
  have "mset (map cm_address (ch_registered ms)) = mset (map fst (ra_members a))"
    unfolding addresses[symmetric] mset_map clo(2) ..
  then have "distinct (map cm_address (ch_registered ms))" "set (map cm_address (ch_registered ms)) = set (map fst (ra_members a))"
    using members(1) mset_eq_imp_distinct_iff mset_eq_setD unfolding jsmap_wf_def by blast+
  moreover have "set (map fst (ra_members a)) \<subseteq> set (rp_candidates plan)" using members(2) by auto
  ultimately show ?thesis using registryReadPlan_sound[OF x(1)] clo parts(2) by (auto simp: list_all_iff)
qed

text \<open>
  C16. No single exit or provider decides the membership. When a chain check ends verified, then in one of its three attempts as many pairs as the quorum asks
  for, with pairwise different exits and pairwise different providers (by registrable host), all taken from the ones given, each answered
  the read of one and the same finalized block with the same canonical text; that block is not before the minimum and its timestamp lies
  within the policy's age and the tolerated skew; and the members, each once, number the registry's own count and
  hash to its own fingerprint. This holds whatever the exchanges answer or fail to answer, for any draws in range.
\<close>

theorem verified_needs_quorum:
  assumes "runChainCheck w context avoid = Inr (OutVerified ms pairs attempt scan)" "\<forall>a. draws_in_range (cw_random w a)"
  shows "length pairs = cc_quorum context
    \<and> distinct (map pr_exit pairs) \<and> set (map pr_exit pairs) \<subseteq> set (cc_exits context)
    \<and> distinct (map (rpcProviderKey \<circ> pr_provider) pairs) \<and> set (map pr_provider pairs) \<subseteq> set (cc_providers context)
    \<and> 1 \<le> attempt \<and> attempt \<le> 3
    \<and> (\<exists>round. agreed_read w context attempt round pairs (ch_block ms) ms)
    \<and> cc_minBlock context \<le> fb_number (ch_block ms)
    \<and> cc_nowUnix context - fb_timestamp (ch_block ms) \<in> {-600..dp_maxStateAgeSeconds (kb_policy (cc_bootstrap context))}
    \<and> distinct (map cm_address (ch_registered ms)) \<and> list_all ADDRESS_RE (map cm_address (ch_registered ms))
    \<and> int (length (ch_registered ms)) = ch_relayerCount ms
    \<and> computeTopologyFingerprint (cw_keccak w) (map as_relayer (ch_registered ms)) = Inr (ch_fingerprint ms)"
proof -
  have att: "0 < attempt" "attempt \<le> 3" and "verified_by w context attempt pairs ms"
    using chain_attempts_sound[of w "context" DISCOVERY_PAIRING_BUDGET avoid 0 ms pairs attempt scan] assms(1)
    by (simp_all add: runChainCheck_def DISCOVERY_PAIRING_BUDGET_def)
  then obtain avoid' block round where x:
    "choosePairs (cw_random w attempt) (cc_exits context) (cc_providers context) (cc_quorum context) avoid' = Some pairs"
    "checkBlockWindow block context = Inr ()" "agreed_read w context attempt round pairs block ms" unfolding verified_by_def by blast
  have block: "ch_block ms = block" using agreed_members[OF x(3)] by blast
  have "cc_minBlock context \<le> fb_number block
    \<and> cc_nowUnix context - fb_timestamp block \<in> {-600..dp_maxStateAgeSeconds (kb_policy (cc_bootstrap context))}"
    using x(2) by (auto simp: checkBlockWindow_def Let_def DISCOVERY_CLOCK_SKEW_SECONDS_def split: if_splits)
  then show ?thesis
    using choosePairs_sound[OF x(1)] assms(2) agreed_members[OF x(3)] att x(3) unfolding block by auto
qed

subsection \<open>The floor of the snapshot\<close>

lemma fold_new:
  "distinct (map fst acc @ map f ms) \<Longrightarrow> fold (\<lambda>m. jsmap_set (f m) m) ms acc = acc @ map (\<lambda>m. (f m, m)) ms"
  by (induction ms arbitrary: acc) (auto simp: jsmap_set_fresh)

lemma floor_members:
  assumes "distinct (map pm_address (eligiblePinnedMembers pinned))"
  shows "map snd (floor_by_address pinned) = eligiblePinnedMembers pinned"
  using assms fold_new[of "[]" "pm_address :: pinned_member \<Rightarrow> string"] by (simp add: floor_by_address_def comp_def)

text \<open>What the floor adds: members of the snapshot that are absent, each once.\<close>

definition floor_added :: "pinned_member list \<Rightarrow> member_record list \<times> string list \<Rightarrow> member_record list \<times> string list \<Rightarrow> bool" where
  "floor_added ms st st' = (\<exists>added. fst st' = fst st @ map as_floor_record added \<and> snd st' = snd st @ map pm_address added
     \<and> set added \<subseteq> set ms \<and> distinct (map pm_address added) \<and> set (map pm_address added) \<inter> set (map pm_address (fst st)) = {})"

lemma as_floor_record_address [simp]: "pm_address (as_floor_record m) = pm_address m"
  by (simp add: as_floor_record_def pinned_member.defs)

lemma floor_added_refl: "floor_added ms st st"
  unfolding floor_added_def by (rule exI[of _ "[]"]) simp

lemma floor_added_trans: "floor_added ms st st' \<Longrightarrow> floor_added ms st' st'' \<Longrightarrow> floor_added ms st st''"
  unfolding floor_added_def
proof (elim exE conjE)
  fix a b
  assume "fst st' = fst st @ map as_floor_record a" "snd st' = snd st @ map pm_address a" "set a \<subseteq> set ms" "distinct (map pm_address a)"
    "set (map pm_address a) \<inter> set (map pm_address (fst st)) = {}"
    "fst st'' = fst st' @ map as_floor_record b" "snd st'' = snd st' @ map pm_address b" "set b \<subseteq> set ms" "distinct (map pm_address b)"
    "set (map pm_address b) \<inter> set (map pm_address (fst st')) = {}"
  then show "\<exists>added. fst st'' = fst st @ map as_floor_record added \<and> snd st'' = snd st @ map pm_address added
     \<and> set added \<subseteq> set ms \<and> distinct (map pm_address added) \<and> set (map pm_address added) \<inter> set (map pm_address (fst st)) = {}"
    by (intro exI[of _ "a @ b"]) (auto simp: image_Un comp_def)
qed

lemma floor_added_mono: "floor_added ms st st' \<Longrightarrow> set ms \<subseteq> set ms' \<Longrightarrow> floor_added ms' st st'"
  unfolding floor_added_def by blast

lemma kept_count_mset: "mset xs = mset ys \<Longrightarrow> kept_count layer xs = kept_count layer ys"
  unfolding kept_count_def by (metis mset_filter size_mset)

lemma kept_count_grows: "floor_added ms st st' \<Longrightarrow> kept_count layer (fst st) \<le> kept_count layer (fst st')"
  by (auto simp: floor_added_def kept_count_def)

text \<open>A layer is settled when it holds the target, or when none of its snapshot members is absent.\<close>

definition layer_settled :: "int \<Rightarrow> pinned_member list \<Rightarrow> route_layer \<Rightarrow> member_record list \<Rightarrow> bool" where
  "layer_settled target floor layer members =
     (target \<le> kept_count layer members \<or> set (map pm_address floor) \<subseteq> set (map pm_address members))"

lemma layer_settled_grows: "layer_settled t floor layer (fst st) \<Longrightarrow> floor_added ms st st' \<Longrightarrow> layer_settled t floor layer (fst st')"
  using kept_count_grows[of ms st st' layer] unfolding layer_settled_def floor_added_def by auto

lemma floor_fill_adds: "floor_added ms st (floor_fill layer target ms st)"
proof (induction layer target ms st rule: floor_fill.induct)
  case fill: (2 layer target m ms members kept)
  have sub: "set ms \<subseteq> set (m # ms)" by auto
  have one: "floor_added (m # ms) (members, kept) (members @ [as_floor_record m], kept @ [pm_address m])"
    if "pm_address m \<notin> set (map pm_address members)"
    unfolding floor_added_def by (rule exI[of _ "[m]"]) (use that in auto)
  consider "target \<le> kept_count layer members" | "\<not> target \<le> kept_count layer members" "pm_address m \<in> set (map pm_address members)"
    | "\<not> target \<le> kept_count layer members" "pm_address m \<notin> set (map pm_address members)" by blast
  then show ?case
  proof cases
    case 2
    then show ?thesis using floor_added_mono[OF fill.IH(1)[OF 2] sub] by simp
  next
    case 3
    then show ?thesis using floor_added_trans[OF one[OF 3(2)] floor_added_mono[OF fill.IH(2)[OF 3] sub]] by simp
  qed (simp add: floor_added_refl)
qed (simp add: floor_added_refl)

lemma floor_fill_settles: "layer_settled target ms layer (fst (floor_fill layer target ms st))"
proof (induction layer target ms st rule: floor_fill.induct)
  case (2 layer target m ms members kept)
  have keep: "pm_address m \<in> set (map pm_address xs) \<Longrightarrow> pm_address m \<in> set (map pm_address (fst (floor_fill layer target ms (xs, ks))))" for xs ks
    using floor_fill_adds[of ms "(xs, ks)" layer target] by (auto simp: floor_added_def)
  show ?case using 2 keep[of members kept] keep[of "members @ [as_floor_record m]" "kept @ [pm_address m]"]
    by (auto simp: layer_settled_def)
qed (simp add: layer_settled_def)

definition snapshot_layer :: "pinned_snapshot \<Rightarrow> route_layer \<Rightarrow> pinned_member list" where
  "snapshot_layer pinned layer = filter (in_layer layer) (eligiblePinnedMembers pinned)"

lemma floor_layers:
  fixes policy :: discovery_policy and st :: "member_record list \<times> string list"
  assumes "distinct (map pm_address (eligiblePinnedMembers pinned))"
  defines "st' \<equiv> fold (floor_layer_step pinned policy) ROUTE_LAYERS st"
  shows "floor_added (eligiblePinnedMembers pinned) st st'
    \<and> (\<forall>layer. layer_settled (min (dp_minMembersPerLayer policy) (int (length (snapshot_layer pinned layer)))) (snapshot_layer pinned layer)
          layer (fst st'))"
proof -
  have step: "floor_layer_step pinned policy layer st =
      floor_fill layer (min (dp_minMembersPerLayer policy) (int (length (snapshot_layer pinned layer)))) (snapshot_layer pinned layer) st" for layer st
    by (simp add: floor_layer_step_def floor_members[OF assms(1)] snapshot_layer_def Let_def)
  have adds: "floor_added (eligiblePinnedMembers pinned) st (floor_layer_step pinned policy layer st)" for layer st
    unfolding step by (rule floor_added_mono[OF floor_fill_adds]) (auto simp: snapshot_layer_def)
  have settles: "layer_settled (min (dp_minMembersPerLayer policy) (int (length (snapshot_layer pinned layer)))) (snapshot_layer pinned layer) layer
      (fst (floor_layer_step pinned policy layer st))" for layer st
    unfolding step by (rule floor_fill_settles)
  let ?step = "floor_layer_step pinned policy"
  have st': "st' = ?step LayerExit (?step LayerMix (?step LayerEntry st))" by (simp add: st'_def ROUTE_LAYERS_def)
  have "layer_settled (min (dp_minMembersPerLayer policy) (int (length (snapshot_layer pinned layer)))) (snapshot_layer pinned layer)
          layer (fst st')" for layer
    unfolding st' by (cases layer) (blast intro: settles adds layer_settled_grows)+
  moreover have "floor_added (eligiblePinnedMembers pinned) st st'" unfolding st' by (blast intro: adds floor_added_trans)
  ultimately show ?thesis by blast
qed

lemma mset_insert_record: "mset (insert_record m xs) = add_mset m (mset xs)"
  by (induction xs) auto

lemma mset_insert_records: "mset (foldr insert_record ms []) = mset ms"
  by (induction ms) (simp_all add: mset_insert_record)

text \<open>The records of the registered members.\<close>

lemma primary_layer: "role \<in> {1, 2, 3} \<Longrightarrow> primaryLayerForRole sha256 a role \<in> set (layersForRole role)"
  by (auto simp: primaryLayerForRole_def layersForRole_def Let_def)

lemma decimal_stake: "re_stake (decimal n)"
proof -
  have "hd (dec_string (nat n)) \<noteq> CHR ''0''" if "0 < n" using dec_string_hd[of "nat n"] that by (auto simp: code_in_def)
  moreover have "dec_string 0 = ''0''" by code_simp
  ultimately show ?thesis using nat_of_digits_dec[of "nat n"] by (cases "0 < n") (auto simp: re_stake_def decimal_def)
qed

lemma chain_record_ok:
  assumes "isEligible p" "ADDRESS_RE (cm_address p)"
  shows "member_ok (chain_record sha256 pinned firstSeen block policy now p)"
  using assms primary_layer decimal_stake by (auto simp: chain_record_def member_ok_def isEligible_def)

lemma as_floor_record_ok: "member_ok m \<Longrightarrow> member_ok (as_floor_record m)"
  by (simp add: member_ok_def as_floor_record_def pinned_member.defs)

text \<open>
  C18. The snapshot bounds what a chain check can take away. For a snapshot that passed its checks and any verified chain membership,
  the membership the client adopts is a sound base for the removals-only rule (distinct members with well-formed addresses, keys,
  stakes, roles and layers); it holds exactly the eligible registered members and the snapshot members the floor brought
  back, which are eligible members of the snapshot that the chain no longer lists as eligible; and in each of the three layers it keeps the
  policy's minimum of snapshot members, or all of the layer's when there are fewer, unless no snapshot member of the layer is absent at all.
\<close>

theorem snapshot_floor_kept:
  assumes snapshot: "verifyPinnedSnapshot keccak256 sha256 v = Inr ()"
    and verified: "runChainCheck w context avoid = Inr (OutVerified ms pairs attempt scan)"
  shows "sound_base (cs_members (membershipFromChain sha256 (as_pinned v) ms firstSeen policy now))
    \<and> set (map pm_address (cs_members (membershipFromChain sha256 (as_pinned v) ms firstSeen policy now)))
       = set (map cm_address (filter isEligible (ch_registered ms)))
         \<union> set (cs_keptByFloor (membershipFromChain sha256 (as_pinned v) ms firstSeen policy now))
    \<and> set (cs_keptByFloor (membershipFromChain sha256 (as_pinned v) ms firstSeen policy now))
       \<subseteq> set (map pm_address (eligiblePinnedMembers (as_pinned v))) - set (map cm_address (filter isEligible (ch_registered ms)))
    \<and> (\<forall>layer. min (dp_minMembersPerLayer policy) (int (length (snapshot_layer (as_pinned v) layer)))
          \<le> kept_count layer (cs_members (membershipFromChain sha256 (as_pinned v) ms firstSeen policy now))
        \<or> set (map pm_address (snapshot_layer (as_pinned v) layer))
          \<subseteq> set (map pm_address (cs_members (membershipFromChain sha256 (as_pinned v) ms firstSeen policy now))))"
proof -
  let ?p = "as_pinned v" and ?el = "filter isEligible (ch_registered ms)"
  let ?rec = "chain_record sha256 ?p firstSeen (ch_block ms) policy now"
  define st where "st = fold (floor_layer_step ?p policy) ROUTE_LAYERS (map ?rec ?el, [])"
  define r where "r = membershipFromChain sha256 ?p ms firstSeen policy now"
  have r: "cs_members r = foldr insert_record (fst st) []" "cs_keptByFloor r = snd st"
    by (simp_all add: r_def membershipFromChain_def st_def Let_def case_prod_unfold)
  have "verified_by w context attempt pairs ms"
    using chain_attempts_sound[of w "context" DISCOVERY_PAIRING_BUDGET avoid 0] verified by (simp add: runChainCheck_def)
  then have chain: "distinct (map cm_address (ch_registered ms))" "list_all ADDRESS_RE (map cm_address (ch_registered ms))"
    using agreed_members unfolding verified_by_def by blast+
  note snap = verified_snapshot_sound[OF snapshot, of None]
  have members: "list_all member_ok (eligiblePinnedMembers ?p)" using snap by (auto simp: eligiblePinnedMembers_def list_all_iff)
  have dist: "distinct (map pm_address (eligiblePinnedMembers ?p))"
    using sorted_js_distinct snap unfolding eligiblePinnedMembers_def by (blast intro: distinct_map_filter)
  have addr: "map pm_address (map ?rec ?el) = map cm_address ?el" by (simp add: chain_record_def)
  obtain added where added: "fst st = map ?rec ?el @ map as_floor_record added" "snd st = map pm_address added"
    "set added \<subseteq> set (eligiblePinnedMembers ?p)" "distinct (map pm_address added)"
    "set (map pm_address added) \<inter> set (map pm_address (map ?rec ?el)) = {}"
    using floor_layers[OF dist, where policy = policy and st = "(map ?rec ?el, [])"] unfolding st_def[symmetric] floor_added_def by auto
  have all: "mset (cs_members r) = mset (fst st)" unfolding r mset_insert_records ..
  have same: "mset (map pm_address (cs_members r)) = mset (map pm_address (fst st))" "set (cs_members r) = set (fst st)"
    unfolding mset_map all by (rule refl, rule mset_eq_setD[OF all])
  have addresses: "map pm_address (fst st) = map cm_address ?el @ map pm_address added" unfolding added(1) map_append addr by simp
  have "distinct (map pm_address (fst st))"
    using distinct_map_filter[OF chain(1), of isEligible] added(4,5) unfolding addresses addr distinct_append by blast
  moreover have "list_all member_ok (fst st)"
    using members added(3) chain(2) chain_record_ok as_floor_record_ok unfolding added(1) by (auto simp: list_all_iff)
  ultimately have base: "sound_base (cs_members r)"
    using same mset_eq_imp_distinct_iff[OF same(1)] unfolding sound_base_def list_all_iff by simp
  have "set (map pm_address (cs_members r)) = set (map cm_address ?el) \<union> set (cs_keptByFloor r)"
    using mset_eq_setD[OF same(1)] unfolding addresses r(2) added(2) by simp
  moreover have "set (cs_keptByFloor r) \<subseteq> set (map pm_address (eligiblePinnedMembers ?p)) - set (map cm_address ?el)"
    using added(3,5) unfolding r(2) added(2) addr by auto
  moreover have "min (dp_minMembersPerLayer policy) (int (length (snapshot_layer ?p layer))) \<le> kept_count layer (cs_members r)
      \<or> set (map pm_address (snapshot_layer ?p layer)) \<subseteq> set (map pm_address (cs_members r))" for layer
  proof -
    have "layer_settled (min (dp_minMembersPerLayer policy) (int (length (snapshot_layer ?p layer)))) (snapshot_layer ?p layer) layer (fst st)"
      using floor_layers[OF dist, where policy = policy and st = "(map ?rec ?el, [])"] unfolding st_def[symmetric] by blast
    then show ?thesis using kept_count_mset[OF all, of layer] same(2) unfolding layer_settled_def by (simp only: set_map)
  qed
  ultimately show ?thesis using base unfolding r_def by blast
qed

subsection \<open>A sample check\<close>

text \<open>The empty registry of the sample answer, read by two pairs.\<close>

definition demo_world :: chain_world where
  "demo_world = \<lparr>cw_send = (\<lambda>_ round pair _ _. Some (if round = 0 then ''f'' else if pr_exit pair = ''e'' then ''r'' else ''s'')),
     cw_random = (\<lambda>_ _ _ _. 0), cw_parse = demo_parse, cw_stringify = (\<lambda>_. []), cw_string_of = (\<lambda>_. []), cw_abi = demo_abi,
     cw_keccak = (\<lambda>_. [])\<rparr>"

definition demo_context :: chain_context where
  "demo_context = \<lparr>cc_bootstrap = \<lparr>kb_chainId = 1, kb_registry = [], kb_registryImpl = ''0x'' @ replicate 40 (CHR ''0''), kb_anchors = [],
       kb_registryRpcUrls = [], kb_policy = \<lparr>dp_chainQuorum = 2, dp_maxStateAgeSeconds = 60, dp_chainRefreshSeconds = 1, dp_probationMaxPerRoute = 0,
         dp_probationSeconds = 0, dp_minRemovalSources = 2, dp_minMembersPerLayer = 1\<rparr>\<rparr>,
     cc_providers = [''https://a.b'', ''https://c.d''], cc_quorum = 2, cc_exits = [''e'', ''x''], cc_candidates = [], cc_core = [],
     cc_minBlock = 1, cc_logsFromBlock = 1, cc_nowUnix = 9\<rparr>"

definition demo_outcome :: "chain_outcome checked \<Rightarrow> bool" where
  "demo_outcome r = (case r of Inr (OutVerified ms pairs attempt scan) \<Rightarrow> ch_registered ms = [] \<and> length pairs = 2 | _ \<Rightarrow> False)"

lemma demo_verified: "demo_outcome (runChainCheck demo_world demo_context \<lparr>av_exits = [], av_providers = []\<rparr>)"
  by code_simp

theorem verified_needs_quorum_witness:
  "\<exists>ms pairs attempt scan. runChainCheck demo_world demo_context \<lparr>av_exits = [], av_providers = []\<rparr> = Inr (OutVerified ms pairs attempt scan)
    \<and> distinct (map pr_exit pairs) \<and> length pairs = 2"
proof -
  obtain ms pairs attempt scan where out: "runChainCheck demo_world demo_context \<lparr>av_exits = [], av_providers = []\<rparr>
      = Inr (OutVerified ms pairs attempt scan)" "length pairs = 2"
    using demo_verified by (auto simp: demo_outcome_def split: sum.splits chain_outcome.splits)
  moreover have "\<forall>a. draws_in_range (cw_random demo_world a)" by (simp add: demo_world_def draws_in_range_def)
  ultimately show ?thesis using verified_needs_quorum by blast
qed

theorem snapshot_floor_kept_witness:
  "\<exists>ms. ch_registered ms = []
    \<and> sample_address (CHR ''1'') \<in> set (cs_keptByFloor (membershipFromChain (\<lambda>_. [0]) (as_pinned sample_json) ms []
         (kb_policy (cc_bootstrap demo_context)) 9))"
proof -
  obtain ms pairs attempt scan where out: "runChainCheck demo_world demo_context \<lparr>av_exits = [], av_providers = []\<rparr>
      = Inr (OutVerified ms pairs attempt scan)" "ch_registered ms = []"
    using demo_verified by (auto simp: demo_outcome_def split: sum.splits chain_outcome.splits)
  define r where "r = membershipFromChain (\<lambda>_. [0]) (as_pinned sample_json) ms [] (kb_policy (cc_bootstrap demo_context)) 9"
  have layer: "map pm_address (snapshot_layer (as_pinned sample_json) LayerMix) = [sample_address (CHR ''1'')]" by code_simp
  have policy: "dp_minMembersPerLayer (kb_policy (cc_bootstrap demo_context)) = 1" by (simp add: demo_context_def)
  note floor = snapshot_floor_kept[OF sample_json_ok out(1), of "[]" "kb_policy (cc_bootstrap demo_context)" 9, folded r_def]
  have len: "length (snapshot_layer (as_pinned sample_json) LayerMix) = 1" using arg_cong[OF layer, of length] by simp
  have same: "set (map pm_address (cs_members r)) = set (cs_keptByFloor r)" using floor out(2) by simp
  have sub: "set (cs_keptByFloor r) \<subseteq> {sample_address (CHR ''1'')}"
  proof -
    have "map pm_address (eligiblePinnedMembers (as_pinned sample_json)) = [sample_address (CHR ''1'')]" by code_simp
    then have "set (map pm_address (eligiblePinnedMembers (as_pinned sample_json))) = {sample_address (CHR ''1'')}" by simp
    then show ?thesis using floor by blast
  qed
  have "1 \<le> kept_count LayerMix (cs_members r) \<or> sample_address (CHR ''1'') \<in> set (cs_keptByFloor r)"
    using floor len policy arg_cong[OF layer, of set] same by (auto dest!: spec[of _ LayerMix])
  then have "set (cs_keptByFloor r) \<noteq> {}" using same by (auto simp: kept_count_def)
  then have "sample_address (CHR ''1'') \<in> set (cs_keptByFloor r)" using sub by (metis ex_in_conv singletonD subsetD)
  then show ?thesis using out(2) unfolding r_def by blast
qed

text \<open>
  The floor only brings back members that are absent. A read that lists every snapshot member under another key leaves no member of the
  snapshot, and none comes back: their addresses are taken.
\<close>

definition rekeyed :: chain_membership where
  "rekeyed = \<lparr>ch_block = demo_block, ch_fingerprint = [], ch_relayerCount = 1, ch_registered = [\<lparr>cm_address = sample_address (CHR ''1''),
     cm_sphinxKey = replicate 64 (CHR ''2''), cm_url = ''u'', cm_ingressUrl = [], cm_metadataUrl = [], cm_stake = 0, cm_status = 1,
     cm_frozen = False, cm_role = 1\<rparr>]\<rparr>"

lemma rekeying_strips_the_floor:
  "(let r = membershipFromChain (\<lambda>_. [0]) (as_pinned sample_json) rekeyed [] (kb_policy (cc_bootstrap demo_context)) 9 in
    kept_count LayerMix (cs_members r) = 0 \<and> cs_keptByFloor r = [] \<and> length (cs_members r) = 1)"
  by code_simp

end
