(* ===== verification/Client_Requests.thy ===== *)
theory Client_Requests
  imports Replenishment Reassembly Client_Routes Response_Socket
begin

section \<open>Requests in flight\<close>

text \<open>
  The requests of \<open>packages/nox-client/src/client.ts\<close> between their upload and their settlement: \<open>_sendOnRoute\<close>,
  \<open>tunnelSend\<close>, \<open>_packetsFor\<close>, \<open>_handleResponseItem\<close>, \<open>_handleFragment\<close>, \<open>_handleNeedMoreSurbs\<close>, \<open>_checkBurstStalls\<close>,
  \<open>_deliverStream\<close>, \<open>_failPending\<close> and \<open>disconnect\<close>. Each handler takes the state and returns it with its effects; timers,
  abort signals, failed uploads and received items are events that happen in any order. A promise is settled by an effect. The WASM
  module, the random source and the reply handlers of tunnel callers are parameters. Not modelled: timing logs and debug output.
\<close>

subsection \<open>State and effects\<close>

record pending_request =
  pq_reassembler :: reassembler
  pq_maxResponseBytes :: "int option"

record burst_state =
  bs_round :: nat
  bs_sentAt :: int
  bs_serverRequestId :: int
  bs_lastFragmentAt :: int

record client_core =
  cl_wasm :: "wasm_module option"
  cl_entryUrl :: string
  cl_nextRequestId :: int
  cl_pending :: "(int, pending_request) jsmap"
  cl_streams :: "int list"
  cl_burst :: "(int, burst_state) jsmap"
  cl_pool :: surb_registry
  cl_paths :: replenishment

datatype client_effect =
    PromiseMade int "int option"
  | Resolved int bytes
  | Rejected int nox_error_code
  | StreamDone int "nox_error_code option"
  | Uploaded string "bytes list"
  | Tracked int string "string list" nat
  | FragmentNoted int fragment
  | BurstPosted int int string "bytes list list"
  | BurstReset int
  | CleanupLater int

subsection \<open>Packets of one payload\<close>

definition MAX_PAYLOAD_SIZE :: int where
  "MAX_PAYLOAD_SIZE = 31716"

definition FRAG_OVERHEAD :: int where
  "FRAG_OVERHEAD = 32"

definition chunkSize :: nat where
  "chunkSize = nat (MAX_PAYLOAD_SIZE - FRAG_OVERHEAD)"

definition fragment_count :: "nat \<Rightarrow> nat" where
  "fragment_count n = (n + chunkSize - 1) div chunkSize"

definition outgoing_fragment :: "int \<Rightarrow> bytes \<Rightarrow> nat \<Rightarrow> fragment" where
  "outgoing_fragment i payloadBytes q =
     \<lparr>messageId = i, totalFragments = int (fragment_count (length payloadBytes)), sequence = int q,
      data = take chunkSize (drop (q * chunkSize) payloadBytes), fec = None\<rparr>"

fun map_results :: "('a \<Rightarrow> 'b result) \<Rightarrow> 'a list \<Rightarrow> 'b list result" where
  "map_results f [] = Inr []"
| "map_results f (x # xs) = rbind (f x) (\<lambda>y. rbind (map_results f xs) (\<lambda>ys. Inr (y # ys)))"

definition fragment_payloads :: "int \<Rightarrow> bytes \<Rightarrow> fragment list" where
  "fragment_payloads i payloadBytes = map (outgoing_fragment i payloadBytes) [0..<fragment_count (length payloadBytes)]"

definition packetsFor :: "(path_hop list \<Rightarrow> bytes \<Rightarrow> bytes result) \<Rightarrow> int \<Rightarrow> path_hop list \<Rightarrow> bytes \<Rightarrow> bytes list result" where
  "packetsFor sphinx randomId forwardPath payloadBytes =
     (if int (length payloadBytes) \<le> MAX_PAYLOAD_SIZE then rbind (sphinx forwardPath payloadBytes) (\<lambda>p. Inr [p])
      else map_results (\<lambda>f. rbind (encodeRelayerPayload (Fragment f)) (sphinx forwardPath)) (fragment_payloads randomId payloadBytes))"

subsection \<open>Sending\<close>

definition hop_of :: "topology_node \<Rightarrow> path_hop" where
  "hop_of n = \<lparr>pubKeyHex = bytesToHex (publicKey n), hop_address = routingAddress n\<rparr>"

definition forward_path :: "route \<Rightarrow> path_hop list" where
  "forward_path r = [hop_of (rt_entry r), hop_of (rt_mix r), hop_of (rt_exit r)]"

definition with_surbs :: "relayer_payload \<Rightarrow> bytes list \<Rightarrow> relayer_payload" where
  "with_surbs payload surbs = (case payload of AnonymousRequest inner _ \<Rightarrow> AnonymousRequest inner surbs | p \<Rightarrow> p)"

definition failPending :: "int \<Rightarrow> nox_error_code \<Rightarrow> client_core \<Rightarrow> client_core \<times> client_effect list" where
  "failPending i code st =
     (if \<not> jsmap_has (cl_pending st) i then (st, [])
      else (st\<lparr>cl_pending := jsmap_delete i (cl_pending st), cl_burst := jsmap_delete i (cl_burst st),
               cl_pool := cleanup i (cl_pool st), cl_paths := clearPath i (cl_paths st)\<rparr>, [Rejected i code]))"

definition no_config :: reassembler_config where
  "no_config = \<lparr>cfg_maxBufferBytes = None, cfg_maxConcurrentMessages = None, cfg_staleTimeoutMs = None\<rparr>"

text \<open>
  \<open>aborted\<close> is the signal at the start, \<open>abortedNow\<close> after the request was registered. The result is the request identifier of the
  promise, or the exception.
\<close>

definition sendOnRoute ::
  "(nat \<Rightarrow> bytes) \<Rightarrow> (path_hop list \<Rightarrow> bytes \<Rightarrow> bytes result) \<Rightarrow> int \<Rightarrow> relayer_payload \<Rightarrow> nat \<Rightarrow> planned_route \<Rightarrow> int option
     \<Rightarrow> bool \<Rightarrow> bool \<Rightarrow> client_core \<Rightarrow> client_core \<times> client_effect list \<times> int result" where
  "sendOnRoute rand sphinx randomId payload cnt planned limit aborted abortedNow st =
     (case cl_wasm st of
        None \<Rightarrow> (st, [], throw WasmNotInitialized ''WASM module not initialized'')
      | Some wasm \<Rightarrow>
          if aborted then (st, [], throw Aborted ''Request aborted by the caller'')
          else
            (let path = forward_path (pl_route planned);
                 i = cl_nextRequestId st;
                 (pool, blobs) = generate wasm rand (buildReturnPath path) i cnt (pl_version planned) (cl_pool st);
                 st1 = st\<lparr>cl_nextRequestId := i + 1, cl_pool := pool\<rparr>;
                 entryUrl = node_address (rt_entry (pl_route planned));
                 replyIds = idsForRequest i pool in
             case rbind blobs (\<lambda>surbs. rbind (encodeRelayerPayload (with_surbs payload surbs)) (packetsFor sphinx randomId path)) of
               Inl e \<Rightarrow> (st1, [], Inl e)
             | Inr packets \<Rightarrow>
                 (let st2 = st1\<lparr>cl_pending := jsmap_set i \<lparr>pq_reassembler = new_reassembler no_config, pq_maxResponseBytes = limit\<rparr> (cl_pending st1),
                        cl_paths := stashPath i path (Some (entryUrl, pl_version planned)) (cl_paths st1)\<rparr>;
                      made = [PromiseMade i limit, Tracked i entryUrl replyIds 1] in
                  if abortedNow then
                    (let (st3, out) = failPending i Aborted st2 in (st3, made @ out, Inr i))
                  else (st2, made @ [Uploaded entryUrl packets], Inr i))))"

text \<open>A tunnel exchange with no reply blocks only uploads; otherwise a stream listens for the parts.\<close>

definition tunnelSend ::
  "(nat \<Rightarrow> bytes) \<Rightarrow> (path_hop list \<Rightarrow> bytes \<Rightarrow> bytes result) \<Rightarrow> int \<Rightarrow> service_request \<Rightarrow> nat \<Rightarrow> planned_route \<Rightarrow> bool
     \<Rightarrow> client_core \<Rightarrow> client_core \<times> client_effect list \<times> int result" where
  "tunnelSend rand sphinx randomId request surbs planned aborted st =
     (case cl_wasm st of
        None \<Rightarrow> (st, [], throw WasmNotInitialized ''WASM module not initialized'')
      | Some wasm \<Rightarrow>
          if aborted then (st, [], throw Aborted ''Request aborted by the caller'')
          else
            (let path = forward_path (pl_route planned);
                 i = cl_nextRequestId st;
                 (pool, blobs) = (if surbs > 0
                    then generate wasm rand (buildReturnPath path) i surbs (pl_version planned) (cl_pool st) else (cl_pool st, Inr []));
                 st1 = st\<lparr>cl_nextRequestId := i + 1, cl_pool := pool\<rparr>;
                 entryUrl = node_address (rt_entry (pl_route planned));
                 replyIds = idsForRequest i pool in
             case rbind blobs (\<lambda>replySurbs. rbind (encodeServiceRequest request) (\<lambda>inner.
                    rbind (encodeRelayerPayload (AnonymousRequest inner replySurbs)) (packetsFor sphinx randomId path))) of
               Inl e \<Rightarrow> (st1, [], Inl e)
             | Inr packets \<Rightarrow>
                 if surbs = 0 then (st1, [Uploaded entryUrl packets], Inr i)
                 else (st1\<lparr>cl_streams := cl_streams st1 @ [i]\<rparr>,
                       [PromiseMade i None, Tracked i entryUrl replyIds (length replyIds), Uploaded entryUrl packets], Inr i)))"

subsection \<open>Streams\<close>

definition finishStream :: "int \<Rightarrow> nox_error_code option \<Rightarrow> client_core \<Rightarrow> client_core \<times> client_effect list" where
  "finishStream i error st =
     (if i \<notin> set (cl_streams st) then (st, [])
      else (st\<lparr>cl_streams := removeAll i (cl_streams st)\<rparr>, [CleanupLater i, StreamDone i error]))"

datatype stream_verdict = MoreParts | LastPart | HandlerThrows

definition deliverStream :: "(bytes \<Rightarrow> stream_verdict) \<Rightarrow> int \<Rightarrow> fragment \<Rightarrow> client_core \<Rightarrow> client_core \<times> client_effect list" where
  "deliverStream onReply i f st =
     (if totalFragments f \<noteq> 1 \<or> sequence f \<noteq> 0 \<or> fec f \<noteq> None then (st, [])
      else (case onReply (data f) of
          HandlerThrows \<Rightarrow> finishStream i (Some DecryptionFailed) st
        | LastPart \<Rightarrow> finishStream i None st
        | MoreParts \<Rightarrow> (st, [])))"

subsection \<open>Reply fragments\<close>

definition declared_size :: "fragment \<Rightarrow> int" where
  "declared_size f = (case fec f of Some x \<Rightarrow> originalDataLen x | None \<Rightarrow> (totalFragments f - 1) * int (length (data f)))"

definition over_limit :: "int option \<Rightarrow> int \<Rightarrow> bool" where
  "over_limit limit n = (case limit of None \<Rightarrow> False | Some l \<Rightarrow> n > l)"

definition touch_burst :: "int \<Rightarrow> int \<Rightarrow> client_core \<Rightarrow> client_core" where
  "touch_burst now i st = (case jsmap_get (cl_burst st) i of
     None \<Rightarrow> st
   | Some b \<Rightarrow> st\<lparr>cl_burst := jsmap_set i (b\<lparr>bs_lastFragmentAt := now\<rparr>) (cl_burst st)\<rparr>)"

definition handleFragment :: "int \<Rightarrow> int \<Rightarrow> fragment \<Rightarrow> client_core \<Rightarrow> client_core \<times> client_effect list" where
  "handleFragment now i f st =
     (case jsmap_get (cl_pending st) i of
        None \<Rightarrow> (st, [])
      | Some req \<Rightarrow>
          (let st1 = touch_burst now i st in
           if over_limit (pq_maxResponseBytes req) (declared_size f) then
             (let (st2, out) = failPending i ResponseTooLarge st1 in (st2, FragmentNoted i f # out))
           else
             (let (r, result) = addFragment now f (pq_reassembler req);
                  st2 = st1\<lparr>cl_pending := jsmap_set i (req\<lparr>pq_reassembler := r\<rparr>) (cl_pending st1)\<rparr> in
              case result of
                Inl _ \<Rightarrow> (st2, [FragmentNoted i f])
              | Inr None \<Rightarrow> (st2, [FragmentNoted i f])
              | Inr (Some reply) \<Rightarrow>
                  if over_limit (pq_maxResponseBytes req) (int (length reply)) then
                    (let (st3, out) = failPending i ResponseTooLarge st2 in (st3, FragmentNoted i f # out))
                  else
                    (st2\<lparr>cl_pending := jsmap_delete i (cl_pending st2), cl_burst := jsmap_delete i (cl_burst st2),
                         cl_paths := clearPath i (cl_paths st2)\<rparr>,
                     [FragmentNoted i f, Resolved i reply, CleanupLater i]))))"

subsection \<open>More reply blocks\<close>

definition MAX_BURST_ROUNDS :: nat where
  "MAX_BURST_ROUNDS = 50"

definition STALL_TIMEOUT_MS :: int where
  "STALL_TIMEOUT_MS = 8000"

definition SURBS_PER_PACKET :: nat where
  "SURBS_PER_PACKET = 40"

definition MAX_PACKETS_PER_BURST :: nat where
  "MAX_PACKETS_PER_BURST = 10"

definition packets_needed :: "int \<Rightarrow> nat" where
  "packets_needed fragmentsRemaining =
     min (nat ((fragmentsRemaining + int SURBS_PER_PACKET - 2) div (int SURBS_PER_PACKET - 1))) MAX_PACKETS_PER_BURST"

definition burst_held :: "int \<Rightarrow> burst_state option \<Rightarrow> bool" where
  "burst_held now b = (case b of None \<Rightarrow> False
     | Some s \<Rightarrow> now - bs_sentAt s < STALL_TIMEOUT_MS \<or> bs_round s \<ge> MAX_BURST_ROUNDS)"

text \<open>Up to the first wait: the blocks are generated and the first packets posted. A failed burst resets the round (\<open>burstFailed\<close>).\<close>

definition onNeedMoreSurbs ::
  "(nat \<Rightarrow> nat \<Rightarrow> bytes) \<Rightarrow> (path_hop list \<Rightarrow> bytes \<Rightarrow> bytes result) \<Rightarrow> int \<Rightarrow> int \<Rightarrow> int \<Rightarrow> int \<Rightarrow> client_core
     \<Rightarrow> client_core \<times> client_effect list" where
  "onNeedMoreSurbs rand sphinx now i serverId fragmentsRemaining st =
     (case cl_wasm st of
        None \<Rightarrow> (st, [])
      | Some wasm \<Rightarrow>
          if \<not> hasPendingPath i (cl_paths st) then (st, [])
          else if burst_held now (jsmap_get (cl_burst st) i) then (st, [])
          else
            (let round = (case jsmap_get (cl_burst st) i of None \<Rightarrow> 1 | Some b \<Rightarrow> bs_round b + 1);
                 st1 = st\<lparr>cl_burst := jsmap_set i \<lparr>bs_round = round, bs_sentAt = now, bs_serverRequestId = serverId,
                          bs_lastFragmentAt = now\<rparr> (cl_burst st)\<rparr>;
                 (pool, posted) = burstReplenish wasm rand sphinx i serverId (packets_needed fragmentsRemaining) SURBS_PER_PACKET
                    (cl_entryUrl st) (cl_paths st) (cl_pool st);
                 st2 = st1\<lparr>cl_pool := pool\<rparr> in
             case posted of
               Inl _ \<Rightarrow> (st2\<lparr>cl_burst := jsmap_delete i (cl_burst st2)\<rparr>, [BurstReset i])
             | Inr (entryUrl, batches) \<Rightarrow> (st2, [BurstPosted i now entryUrl batches])))"

definition burstFailed :: "int \<Rightarrow> client_core \<Rightarrow> client_core \<times> client_effect list" where
  "burstFailed i st = (st\<lparr>cl_burst := jsmap_delete i (cl_burst st)\<rparr>, [BurstReset i])"

definition stalled :: "int \<Rightarrow> burst_state \<Rightarrow> bool" where
  "stalled now b = (bs_round b < MAX_BURST_ROUNDS
     \<and> now - bs_lastFragmentAt b \<ge> STALL_TIMEOUT_MS \<and> now - bs_sentAt b \<ge> STALL_TIMEOUT_MS)"

definition check_stall ::
  "(nat \<Rightarrow> nat \<Rightarrow> bytes) \<Rightarrow> (path_hop list \<Rightarrow> bytes \<Rightarrow> bytes result) \<Rightarrow> int \<Rightarrow> int \<Rightarrow> client_core \<Rightarrow> client_core \<times> client_effect list" where
  "check_stall rand sphinx now i st =
     (case (jsmap_get (cl_burst st) i, jsmap_get (cl_pending st) i) of
        (Some b, Some req) \<Rightarrow>
          if \<not> stalled now b then (st, [])
          else
            (let (received, expected) = totalProgress (pq_reassembler req);
                 remaining = expected - int received in
             if expected = 0 \<or> remaining \<le> 0 then (st, [])
             else onNeedMoreSurbs rand sphinx now i (bs_serverRequestId b) remaining st)
      | _ \<Rightarrow> (st, []))"

fun each_request :: "('a \<Rightarrow> client_core \<Rightarrow> client_core \<times> client_effect list) \<Rightarrow> 'a list \<Rightarrow> client_core \<Rightarrow> client_core \<times> client_effect list" where
  "each_request f [] st = (st, [])"
| "each_request f (i # is) st = (let (st1, out1) = f i st; (st2, out2) = each_request f is st1 in (st2, out1 @ out2))"

definition checkBurstStalls ::
  "(nat \<Rightarrow> nat \<Rightarrow> bytes) \<Rightarrow> (path_hop list \<Rightarrow> bytes \<Rightarrow> bytes result) \<Rightarrow> int \<Rightarrow> client_core \<Rightarrow> client_core \<times> client_effect list" where
  "checkBurstStalls rand sphinx now st = each_request (check_stall rand sphinx now) (jsmap_keys (cl_burst st)) st"

subsection \<open>Received replies\<close>

definition open_reply ::
  "(string \<Rightarrow> bytes \<Rightarrow> bytes option) \<Rightarrow> string \<Rightarrow> bytes \<Rightarrow> surb_registry \<Rightarrow> surb_registry \<times> (int \<times> bytes) option" where
  "open_reply dec packetId body pool =
     (let (pool1, matched) = (case parseSurbIdFromPacketId packetId of
            None \<Rightarrow> (pool, None) | Some idHex \<Rightarrow> decryptById dec idHex body pool) in
      case matched of
        Some m \<Rightarrow> (pool1, Some m)
      | None \<Rightarrow> matchAndDecrypt dec body pool1)"

definition handleResponseItem ::
  "(string \<Rightarrow> bytes \<Rightarrow> bytes option) \<Rightarrow> (nat \<Rightarrow> nat \<Rightarrow> bytes) \<Rightarrow> (path_hop list \<Rightarrow> bytes \<Rightarrow> bytes result)
     \<Rightarrow> (int \<Rightarrow> bytes \<Rightarrow> stream_verdict) \<Rightarrow> int \<Rightarrow> string \<Rightarrow> bytes \<Rightarrow> client_core \<Rightarrow> client_core \<times> client_effect list" where
  "handleResponseItem dec rand sphinx onReply now packetId body st =
     (if cl_wasm st = None then (st, [])
      else
        (case open_reply dec packetId body (cl_pool st) of
           (pool, None) \<Rightarrow> (st\<lparr>cl_pool := pool\<rparr>, [])
         | (pool, Some (i, plaintext)) \<Rightarrow>
             (let st1 = st\<lparr>cl_pool := pool\<rparr> in
              case decodeRelayerPayload plaintext of
                Inl _ \<Rightarrow> (st1, [])
              | Inr (ServiceResponse _ f) \<Rightarrow>
                  if i \<in> set (cl_streams st1) then deliverStream (onReply i) i f st1 else handleFragment now i f st1
              | Inr (NeedMoreSurbs serverId remaining) \<Rightarrow>
                  if i \<in> set (cl_streams st1) then (st1, []) else onNeedMoreSurbs rand sphinx now i serverId remaining st1
              | Inr _ \<Rightarrow> (st1, []))))"

subsection \<open>Disconnecting\<close>

definition reject_disconnected :: "int \<Rightarrow> client_core \<Rightarrow> client_core \<times> client_effect list" where
  "reject_disconnected i st =
     (st\<lparr>cl_pool := cleanup i (cl_pool st), cl_paths := clearPath i (cl_paths st)\<rparr>, [Rejected i TransportFailed])"

definition disconnect :: "client_core \<Rightarrow> client_core \<times> client_effect list" where
  "disconnect st =
     (let (st1, out1) = each_request reject_disconnected (jsmap_keys (cl_pending st)) st;
          st2 = st1\<lparr>cl_pending := []\<rparr>;
          (st3, out2) = each_request (\<lambda>i. finishStream i (Some TransportFailed)) (cl_streams st2) st2 in
      (st3\<lparr>cl_burst := []\<rparr>, out1 @ out2))"

subsection \<open>Events\<close>

text \<open>What can happen to a client, in any order: calls, timers, abort signals, failed uploads and bursts, received items.\<close>

datatype client_event =
    SendRequest "nat \<Rightarrow> bytes" "path_hop list \<Rightarrow> bytes \<Rightarrow> bytes result" int relayer_payload nat planned_route "int option" bool bool
  | SendTunnel "nat \<Rightarrow> bytes" "path_hop list \<Rightarrow> bytes \<Rightarrow> bytes result" int service_request nat planned_route bool
  | RequestTimer int
  | RequestAbort int
  | UploadFailure int
  | StreamTimer int
  | StreamAbort int
  | StreamUploadFailure int
  | ItemReceived "string \<Rightarrow> bytes \<Rightarrow> bytes option" "nat \<Rightarrow> nat \<Rightarrow> bytes" "path_hop list \<Rightarrow> bytes \<Rightarrow> bytes result"
      "int \<Rightarrow> bytes \<Rightarrow> stream_verdict" int string bytes
  | StallTimer "nat \<Rightarrow> nat \<Rightarrow> bytes" "path_hop list \<Rightarrow> bytes \<Rightarrow> bytes result" int
  | BurstFailure int
  | CleanupTimer int
  | DisconnectCall

fun client_step :: "client_event \<Rightarrow> client_core \<Rightarrow> client_core \<times> client_effect list" where
  "client_step (SendRequest rand sphinx r payload cnt planned limit aborted abortedNow) st =
     (let (st', out, _) = sendOnRoute rand sphinx r payload cnt planned limit aborted abortedNow st in (st', out))"
| "client_step (SendTunnel rand sphinx r request surbs planned aborted) st =
     (let (st', out, _) = tunnelSend rand sphinx r request surbs planned aborted st in (st', out))"
| "client_step (RequestTimer i) st = failPending i ResponseTimeout st"
| "client_step (RequestAbort i) st = failPending i Aborted st"
| "client_step (UploadFailure i) st = failPending i TransportFailed st"
| "client_step (StreamTimer i) st = finishStream i (Some ResponseTimeout) st"
| "client_step (StreamAbort i) st = finishStream i (Some Aborted) st"
| "client_step (StreamUploadFailure i) st = finishStream i (Some TransportFailed) st"
| "client_step (ItemReceived dec rand sphinx onReply now packetId body) st = handleResponseItem dec rand sphinx onReply now packetId body st"
| "client_step (StallTimer rand sphinx now) st = checkBurstStalls rand sphinx now st"
| "client_step (BurstFailure i) st = burstFailed i st"
| "client_step (CleanupTimer i) st = (st\<lparr>cl_pool := cleanup i (cl_pool st)\<rparr>, [])"
| "client_step DisconnectCall st = disconnect st"

definition new_client :: "wasm_module option \<Rightarrow> string \<Rightarrow> client_core" where
  "new_client wasm entryUrl = \<lparr>cl_wasm = wasm, cl_entryUrl = entryUrl, cl_nextRequestId = 0, cl_pending = [], cl_streams = [],
     cl_burst = [], cl_pool = [], cl_paths = new_replenishment\<rparr>"

definition client_run :: "client_event list \<Rightarrow> client_core \<Rightarrow> client_core \<times> client_effect list" where
  "client_run evs st = each_request client_step evs st"

end
