(* ===== verification/Client_Request_Safety.thy ===== *)
theory Client_Request_Safety
  imports Client_Requests
begin

section \<open>Every request settles once\<close>

text \<open>
  Facts about any sequence of events: promises are settled at most once and only while their request is active, replies respect their
  limit, a reply touches only its own request, and bursts of reply blocks stay within their bounds.
\<close>

subsection \<open>Counting\<close>

definition opens :: "int \<Rightarrow> client_effect \<Rightarrow> bool" where
  "opens i e = (case e of PromiseMade j _ \<Rightarrow> j = i | _ \<Rightarrow> False)"

definition settles :: "int \<Rightarrow> client_effect \<Rightarrow> bool" where
  "settles i e = (case e of Resolved j _ \<Rightarrow> j = i | Rejected j _ \<Rightarrow> j = i | StreamDone j _ \<Rightarrow> j = i | _ \<Rightarrow> False)"

definition opened :: "int \<Rightarrow> client_effect list \<Rightarrow> nat" where
  "opened i out = length (filter (opens i) out)"

definition settled :: "int \<Rightarrow> client_effect list \<Rightarrow> nat" where
  "settled i out = length (filter (settles i) out)"

definition active :: "int \<Rightarrow> client_core \<Rightarrow> nat" where
  "active i st = (if jsmap_has (cl_pending st) i then 1 else 0) + (if i \<in> set (cl_streams st) then 1 else 0)"

lemma counting_simps [simp]:
  "opened i [] = 0" "settled i [] = 0" "opened i (a @ b) = opened i a + opened i b" "settled i (a @ b) = settled i a + settled i b"
  "opened i (e # a) = (if opens i e then 1 else 0) + opened i a" "settled i (e # a) = (if settles i e then 1 else 0) + settled i a"
  "opens i (PromiseMade j l) = (j = i)" "opens i (Resolved j d) = False" "opens i (Rejected j c) = False" "opens i (StreamDone j x) = False"
  "opens i (Uploaded u p) = False" "opens i (Tracked j u ids n) = False" "opens i (FragmentNoted j f) = False"
  "opens i (BurstPosted j now u bs) = False" "opens i (BurstReset j) = False" "opens i (CleanupLater j) = False"
  "settles i (PromiseMade j l) = False" "settles i (Resolved j d) = (j = i)" "settles i (Rejected j c) = (j = i)"
  "settles i (StreamDone j x) = (j = i)" "settles i (Uploaded u p) = False" "settles i (Tracked j u ids n) = False"
  "settles i (FragmentNoted j f) = False" "settles i (BurstPosted j now u bs) = False" "settles i (BurstReset j) = False"
  "settles i (CleanupLater j) = False"
  by (simp_all add: opened_def settled_def opens_def settles_def)

subsection \<open>The invariant\<close>

definition core_ok :: "client_core \<Rightarrow> bool" where
  "core_ok st = (jsmap_wf (cl_pending st) \<and> jsmap_wf (cl_burst st) \<and> distinct (cl_streams st)
     \<and> (\<forall>i. (jsmap_has (cl_pending st) i \<longrightarrow> i \<notin> set (cl_streams st) \<and> i < cl_nextRequestId st)
          \<and> (i \<in> set (cl_streams st) \<longrightarrow> i < cl_nextRequestId st)
          \<and> (jsmap_has (cl_burst st) i \<longrightarrow> hasPendingPath i (cl_paths st))
          \<and> (hasPendingPath i (cl_paths st) \<longrightarrow> jsmap_has (cl_pending st) i)))"

text \<open>Promises made plus requests active before are promises settled plus requests active after; a promise is made for a new request.\<close>

definition lawful :: "client_core \<Rightarrow> client_effect list \<Rightarrow> client_core \<Rightarrow> bool" where
  "lawful st out st' = (core_ok st' \<and> cl_nextRequestId st \<le> cl_nextRequestId st'
     \<and> (\<forall>i. opened i out + active i st = settled i out + active i st')
     \<and> (\<forall>i. opened i out \<le> (if cl_nextRequestId st \<le> i \<and> i < cl_nextRequestId st' then 1 else 0)))"

lemma lawful_refl: "core_ok st \<Longrightarrow> lawful st [] st"
  by (simp add: lawful_def)

lemma lawful_trans:
  assumes "lawful st a st1" "lawful st1 b st2"
  shows "lawful st (a @ b) st2"
proof -
  have "opened i (a @ b) + active i st = settled i (a @ b) + active i st2"
    "opened i (a @ b) \<le> (if cl_nextRequestId st \<le> i \<and> i < cl_nextRequestId st2 then 1 else 0)" for i
    using assms unfolding lawful_def by (auto dest!: spec[of _ i] split: if_splits)
  then show ?thesis using assms unfolding lawful_def by auto
qed

lemma each_request_lawful:
  "core_ok st \<Longrightarrow> (\<And>i st. core_ok st \<Longrightarrow> lawful st (snd (f i st)) (fst (f i st))) \<Longrightarrow>
   lawful st (snd (each_request f is st)) (fst (each_request f is st))"
proof (induction "is" arbitrary: st)
  case (Cons i "is")
  have 1: "lawful st (snd (f i st)) (fst (f i st))" by (rule Cons.prems(2)[OF Cons.prems(1)])
  then have "core_ok (fst (f i st))" by (simp add: lawful_def)
  from lawful_trans[OF 1 Cons.IH[OF this Cons.prems(2)]] show ?case by (simp add: case_prod_unfold Let_def)
qed (simp add: lawful_refl)

lemma has_simps [simp]:
  "jsmap_has (jsmap_delete i m) j = (j \<noteq> i \<and> jsmap_has m j)" "jsmap_has (jsmap_set i v m) j = (j = i \<or> jsmap_has m j)"
  "\<not> jsmap_has [] j"
  by (auto simp: jsmap_has_def jsmap_delete_map_of jsmap_set_map_of)

lemma path_simps [simp]:
  "hasPendingPath j (clearPath i r) = (j \<noteq> i \<and> hasPendingPath j r)" "hasPendingPath j (stashPath i p x r) = (j = i \<or> hasPendingPath j r)"
  by (auto simp: hasPendingPath_def clearPath_def stashPath_def Let_def split: option.split)

lemma failPending_lawful: "core_ok st \<Longrightarrow> failPending i code st = (st', out) \<Longrightarrow> lawful st out st'"
  by (auto simp: failPending_def lawful_def core_ok_def active_def jsmap_wf_delete split: if_splits)

lemma finishStream_lawful: "core_ok st \<Longrightarrow> finishStream i x st = (st', out) \<Longrightarrow> lawful st out st'"
  by (auto simp: finishStream_def lawful_def core_ok_def active_def distinct_removeAll split: if_splits)

lemma not_active_new: "core_ok st \<Longrightarrow> cl_nextRequestId st \<le> i \<Longrightarrow> \<not> jsmap_has (cl_pending st) i \<and> i \<notin> set (cl_streams st)"
  unfolding core_ok_def by (meson not_less)

lemma pool_lawful: "core_ok st \<Longrightarrow> lawful st [] (st\<lparr>cl_pool := p\<rparr>)"
  by (simp add: lawful_def core_ok_def active_def)

lemma skip_id: "core_ok st \<Longrightarrow> lawful st [] (st\<lparr>cl_nextRequestId := cl_nextRequestId st + 1, cl_pool := p\<rparr>)"
  by (force simp: lawful_def core_ok_def active_def)

lemma skip_only: "core_ok st \<Longrightarrow> lawful st [] (st\<lparr>cl_nextRequestId := cl_nextRequestId st + 1\<rparr>)"
  by (force simp: lawful_def core_ok_def active_def)

lemma register_lawful:
  assumes "core_ok st"
  shows "lawful st [PromiseMade (cl_nextRequestId st) limit, Tracked (cl_nextRequestId st) u ids n]
     (st\<lparr>cl_nextRequestId := cl_nextRequestId st + 1, cl_pool := p, cl_pending := jsmap_set (cl_nextRequestId st) q (cl_pending st),
         cl_paths := stashPath (cl_nextRequestId st) path x (cl_paths st)\<rparr>)"
  using assms not_active_new[OF assms, of "cl_nextRequestId st"]
  by (force simp: lawful_def core_ok_def active_def jsmap_wf_set)

lemma uploaded_lawful: "lawful st out st' \<Longrightarrow> lawful st (out @ [Uploaded u ps]) st'"
  by (simp add: lawful_def)

lemma sendOnRoute_lawful:
  assumes "core_ok st" "sendOnRoute rand sphinx r payload cnt planned limit aborted abortedNow st = (st', out, res)"
  shows "lawful st out st'"
proof -
  note reg = register_lawful[OF assms(1)]
  have reg_ok: "core_ok (st\<lparr>cl_nextRequestId := cl_nextRequestId st + 1, cl_pool := p, cl_pending := jsmap_set (cl_nextRequestId st) q (cl_pending st),
         cl_paths := stashPath (cl_nextRequestId st) path x (cl_paths st)\<rparr>)" for p q path x
    using reg unfolding lawful_def by blast
  show ?thesis
    using assms(2) skip_id[OF assms(1)] lawful_refl[OF assms(1)] reg uploaded_lawful[OF reg] lawful_trans[OF reg failPending_lawful[OF reg_ok]]
    unfolding sendOnRoute_def Let_def by (auto split: option.splits if_splits prod.splits sum.splits)
qed

lemma listen_lawful:
  assumes "core_ok st"
  shows "lawful st [PromiseMade (cl_nextRequestId st) limit, Tracked (cl_nextRequestId st) u ids n, Uploaded u' ps]
     (st\<lparr>cl_nextRequestId := cl_nextRequestId st + 1, cl_pool := p, cl_streams := cl_streams st @ [cl_nextRequestId st]\<rparr>)"
  using assms not_active_new[OF assms, of "cl_nextRequestId st"] by (force simp: lawful_def core_ok_def active_def)

lemma tunnelSend_lawful:
  assumes "core_ok st" "tunnelSend rand sphinx r request surbs planned aborted st = (st', out, res)"
  shows "lawful st out st'"
  using assms(2) skip_id[OF assms(1)] uploaded_lawful[OF skip_id[OF assms(1)], simplified] skip_only[OF assms(1)]
    uploaded_lawful[OF skip_only[OF assms(1)], simplified] lawful_refl[OF assms(1)] listen_lawful[OF assms(1)]
  unfolding tunnelSend_def Let_def by (auto split: option.splits if_splits prod.splits sum.splits)

lemma get_has: "jsmap_get m i = Some v \<Longrightarrow> jsmap_has m i"
  by (simp add: jsmap_has_def jsmap_get_def)

lemma touch_burst_lawful:
  assumes "core_ok st"
  shows "lawful st [] (touch_burst now i st)"
proof (cases "jsmap_get (cl_burst st) i")
  case (Some b)
  from get_has[OF Some] show ?thesis using assms Some by (auto simp: touch_burst_def lawful_def core_ok_def active_def jsmap_wf_set)
qed (use lawful_refl[OF assms] in \<open>simp add: touch_burst_def\<close>)

lemma noted_lawful: "lawful st out st' \<Longrightarrow> lawful st (FragmentNoted i f # out) st'"
  by (simp add: lawful_def)

lemma update_lawful:
  assumes "core_ok st" "jsmap_get (cl_pending st) i = Some req"
  shows "lawful st [] (st\<lparr>cl_pending := jsmap_set i req' (cl_pending st)\<rparr>)"
  using get_has[OF assms(2)] assms(1) by (auto simp: lawful_def core_ok_def active_def jsmap_wf_set)

lemma resolve_lawful:
  assumes "core_ok st" "jsmap_get (cl_pending st) i = Some req"
  shows "lawful st [Resolved i d, CleanupLater i]
     (st\<lparr>cl_pending := jsmap_delete i (cl_pending st), cl_burst := jsmap_delete i (cl_burst st), cl_paths := clearPath i (cl_paths st)\<rparr>)"
proof -
  have "jsmap_has (cl_pending st) i" using assms(2) by (simp add: jsmap_has_def jsmap_get_def)
  then show ?thesis using assms(1) by (auto simp: lawful_def core_ok_def active_def jsmap_wf_delete)
qed

lemma touch_burst_pending [simp]: "cl_pending (touch_burst now i st) = cl_pending st"
  by (simp add: touch_burst_def split: option.split)

lemma handleFragment_lawful:
  assumes "core_ok st" "handleFragment now i f st = (st', out)"
  shows "lawful st out st'"
proof (cases "jsmap_get (cl_pending st) i")
  case None
  then show ?thesis using assms lawful_refl by (simp add: handleFragment_def)
next
  case (Some req)
  let ?st1 = "touch_burst now i st"
  note touch = touch_burst_lawful[OF assms(1), of now i]
  then have ok1: "core_ok ?st1" and get1: "jsmap_get (cl_pending ?st1) i = Some req" using Some by (simp_all add: lawful_def)
  obtain r result where add: "addFragment now f (pq_reassembler req) = (r, result)" by fastforce
  let ?st2 = "?st1\<lparr>cl_pending := jsmap_set i (req\<lparr>pq_reassembler := r\<rparr>) (cl_pending ?st1)\<rparr>"
  have upd: "lawful st [] ?st2" using lawful_trans[OF touch update_lawful[OF ok1 get1]] by simp
  then have ok2: "core_ok ?st2" by (simp add: lawful_def)
  have get2: "jsmap_get (cl_pending ?st2) i = Some (req\<lparr>pq_reassembler := r\<rparr>)" by (simp add: jsmap_get_def jsmap_set_map_of)
  note fail1 = lawful_trans[OF touch failPending_lawful[OF ok1], simplified]
  note fail2 = lawful_trans[OF upd failPending_lawful[OF ok2], simplified]
  note res = lawful_trans[OF upd resolve_lawful[OF ok2 get2], simplified]
  show ?thesis
    using assms(2) Some add noted_lawful[OF upd] noted_lawful[OF fail1] noted_lawful[OF fail2] noted_lawful[OF res]
    unfolding handleFragment_def by (auto simp: Let_def split: if_splits sum.splits option.splits prod.splits)
qed

text \<open>A burst changes the burst states and the pool only.\<close>

lemma burst_lawful:
  assumes "core_ok st" "jsmap_wf bs" "\<forall>i. jsmap_has bs i \<longrightarrow> hasPendingPath i (cl_paths st)" "out = [] \<or> (\<exists>e. out = [e] \<and> (\<forall>i. \<not> opens i e \<and> \<not> settles i e))"
  shows "lawful st out (st\<lparr>cl_burst := bs, cl_pool := p\<rparr>)"
  using assms by (auto simp: lawful_def core_ok_def active_def)

definition next_round :: "int \<Rightarrow> client_core \<Rightarrow> nat" where
  "next_round i st = (case jsmap_get (cl_burst st) i of None \<Rightarrow> 1 | Some b \<Rightarrow> bs_round b + 1)"

lemma need_more_cases:
  obtains "onNeedMoreSurbs rand sphinx now i serverId n st = (st, [])"
  | p where "onNeedMoreSurbs rand sphinx now i serverId n st = (st\<lparr>cl_burst := jsmap_delete i (cl_burst st), cl_pool := p\<rparr>, [BurstReset i])"
      "hasPendingPath i (cl_paths st)"
  | p wasm u batches where "onNeedMoreSurbs rand sphinx now i serverId n st =
       (st\<lparr>cl_burst := jsmap_set i \<lparr>bs_round = next_round i st, bs_sentAt = now, bs_serverRequestId = serverId, bs_lastFragmentAt = now\<rparr>
             (cl_burst st), cl_pool := p\<rparr>, [BurstPosted i now u batches])"
      "hasPendingPath i (cl_paths st)" "\<not> burst_held now (jsmap_get (cl_burst st) i)"
      "burstReplenish wasm rand sphinx i serverId (packets_needed n) SURBS_PER_PACKET (cl_entryUrl st) (cl_paths st) (cl_pool st)
         = (p, Inr (u, batches))"
proof (cases "cl_wasm st = None \<or> \<not> hasPendingPath i (cl_paths st) \<or> burst_held now (jsmap_get (cl_burst st) i)")
  case True
  then have "onNeedMoreSurbs rand sphinx now i serverId n st = (st, [])" by (auto simp: onNeedMoreSurbs_def split: option.split)
  then show thesis by (rule that(1))
next
  case False
  then obtain wasm where w: "cl_wasm st = Some wasm" "hasPendingPath i (cl_paths st)" "\<not> burst_held now (jsmap_get (cl_burst st) i)" by auto
  obtain p posted where r: "burstReplenish wasm rand sphinx i serverId (packets_needed n) SURBS_PER_PACKET (cl_entryUrl st) (cl_paths st) (cl_pool st)
      = (p, posted)" by fastforce
  show thesis
  proof (cases posted)
    case (Inl e)
    then have "onNeedMoreSurbs rand sphinx now i serverId n st = (st\<lparr>cl_burst := jsmap_delete i (cl_burst st), cl_pool := p\<rparr>, [BurstReset i])"
      using w r by (simp add: onNeedMoreSurbs_def Let_def jsmap_delete_set)
    then show thesis using w(2) by (rule that(2))
  next
    case (Inr x)
    obtain u batches where x: "x = (u, batches)" by fastforce
    have "onNeedMoreSurbs rand sphinx now i serverId n st =
       (st\<lparr>cl_burst := jsmap_set i \<lparr>bs_round = next_round i st, bs_sentAt = now, bs_serverRequestId = serverId, bs_lastFragmentAt = now\<rparr>
             (cl_burst st), cl_pool := p\<rparr>, [BurstPosted i now u batches])"
      using w r Inr x by (simp add: onNeedMoreSurbs_def Let_def next_round_def)
    then show thesis by (rule that(3)) (use w r Inr x in simp_all)
  qed
qed

lemma need_more_lawful:
  assumes "core_ok st" "onNeedMoreSurbs rand sphinx now i serverId n st = (st', out)"
  shows "lawful st out st'"
proof (cases rule: need_more_cases[of rand sphinx now i serverId n st])
  case 1
  then show ?thesis using assms lawful_refl by simp
next
  case (2 p)
  have "lawful st [BurstReset i] (st\<lparr>cl_burst := jsmap_delete i (cl_burst st), cl_pool := p\<rparr>)"
    by (rule burst_lawful[OF assms(1)]) (use assms(1) in \<open>auto simp: jsmap_wf_delete core_ok_def\<close>)
  then show ?thesis using assms(2) 2 by simp
next
  case (3 p wasm u batches)
  let ?b = "\<lparr>bs_round = next_round i st, bs_sentAt = now, bs_serverRequestId = serverId, bs_lastFragmentAt = now\<rparr>"
  have "lawful st [BurstPosted i now u batches] (st\<lparr>cl_burst := jsmap_set i ?b (cl_burst st), cl_pool := p\<rparr>)"
    by (rule burst_lawful[OF assms(1)]) (use assms(1) 3(2) in \<open>auto simp: jsmap_wf_set core_ok_def\<close>)
  then show ?thesis using assms(2) 3(1) by simp
qed

lemma deliverStream_lawful: "core_ok st \<Longrightarrow> deliverStream onReply i f st = (st', out) \<Longrightarrow> lawful st out st'"
  by (auto simp: deliverStream_def lawful_refl intro: finishStream_lawful split: if_splits stream_verdict.splits)

lemma handleResponseItem_lawful:
  assumes "core_ok st" "handleResponseItem dec rand sphinx onReply now pid body st = (st', out)"
  shows "lawful st out st'"
proof -
  obtain pool m where m: "open_reply dec pid body (cl_pool st) = (pool, m)" by fastforce
  let ?st1 = "st\<lparr>cl_pool := pool\<rparr>"
  note pool = pool_lawful[OF assms(1), of pool]
  then have ok: "core_ok ?st1" by (simp add: lawful_def)
  note part = lawful_trans[OF pool, of _ st', simplified]
  show ?thesis
  proof (cases "cl_wasm st = None \<or> m = None")
    case True
    then show ?thesis using assms(2) m pool lawful_refl[OF assms(1)] by (auto simp: handleResponseItem_def split: if_splits)
  next
    case False
    then obtain i plaintext where i: "m = Some (i, plaintext)" "cl_wasm st \<noteq> None" by auto
    have eq: "(st', out) = (case decodeRelayerPayload plaintext of Inl _ \<Rightarrow> (?st1, [])
        | Inr (ServiceResponse _ f) \<Rightarrow>
            if i \<in> set (cl_streams ?st1) then deliverStream (onReply i) i f ?st1 else handleFragment now i f ?st1
        | Inr (NeedMoreSurbs serverId remaining) \<Rightarrow>
            if i \<in> set (cl_streams ?st1) then (?st1, []) else onNeedMoreSurbs rand sphinx now i serverId remaining ?st1
        | Inr _ \<Rightarrow> (?st1, []))"
      using assms(2)[symmetric] m i by (simp add: handleResponseItem_def Let_def)
    show ?thesis
    proof (cases "decodeRelayerPayload plaintext")
      case (Inl e)
      then show ?thesis using eq pool by simp
    next
      case (Inr x)
      have "lawful st out st'" if "deliverStream (onReply i) i f ?st1 = (st', out)" for f
        by (rule part[OF deliverStream_lawful[OF ok that]])
      moreover have "lawful st out st'" if "handleFragment now i f ?st1 = (st', out)" for f
        by (rule part[OF handleFragment_lawful[OF ok that]])
      moreover have "lawful st out st'" if "onNeedMoreSurbs rand sphinx now i y n ?st1 = (st', out)" for y n
        by (rule part[OF need_more_lawful[OF ok that]])
      ultimately show ?thesis using eq[symmetric] Inr pool by (cases x) (auto split: if_splits)
    qed
  qed
qed

lemma check_stall_lawful: "core_ok st \<Longrightarrow> lawful st (snd (check_stall rand sphinx now i st)) (fst (check_stall rand sphinx now i st))"
  by (auto simp: check_stall_def lawful_refl case_prod_unfold Let_def split: option.splits
      intro: need_more_lawful[OF _ prod.collapse[symmetric]])

lemma reject_each:
  "each_request reject_disconnected is st = (st', out) \<Longrightarrow> out = map (\<lambda>i. Rejected i TransportFailed) is
    \<and> cl_streams st' = cl_streams st \<and> cl_nextRequestId st' = cl_nextRequestId st
    \<and> (\<forall>j. hasPendingPath j (cl_paths st') = (j \<notin> set is \<and> hasPendingPath j (cl_paths st)))"
proof (induction "is" arbitrary: st st' out)
  case (Cons i "is")
  obtain st1 out1 where 1: "each_request reject_disconnected is (fst (reject_disconnected i st)) = (st1, out1)" by fastforce
  have r: "reject_disconnected i st = (fst (reject_disconnected i st), [Rejected i TransportFailed])" by (simp add: reject_disconnected_def)
  have "(st', out) = (st1, Rejected i TransportFailed # out1)" using Cons.prems 1 unfolding each_request.simps by (subst (asm) r) simp
  then show ?case using Cons.IH[OF 1] by (simp add: reject_disconnected_def conj_ac)
qed simp

lemma settled_rejected: "distinct is \<Longrightarrow> settled j (map (\<lambda>i. Rejected i c) is) = (if j \<in> set is then 1 else 0)"
  by (induction "is") auto

lemma opened_rejected: "opened j (map (\<lambda>i. Rejected i c) is) = 0"
  by (induction "is") auto

lemma finish_each:
  "distinct is \<Longrightarrow> set is \<subseteq> set (cl_streams st) \<Longrightarrow> each_request (\<lambda>i. finishStream i c) is st
     = (st\<lparr>cl_streams := filter (\<lambda>j. j \<notin> set is) (cl_streams st)\<rparr>, concat (map (\<lambda>i. [CleanupLater i, StreamDone i c]) is))"
proof (induction "is" arbitrary: st)
  case (Cons i "is")
  have "set is \<subseteq> set (cl_streams (st\<lparr>cl_streams := removeAll i (cl_streams st)\<rparr>))" using Cons.prems by auto
  from Cons.IH[OF _ this] Cons.prems show ?case
    by (simp add: finishStream_def removeAll_filter_not_eq) (rule arg_cong[of _ _ "\<lambda>x. st\<lparr>cl_streams := x\<rparr>"], auto intro: filter_cong)
qed simp

lemma settled_finished:
  "distinct is \<Longrightarrow> settled j (concat (map (\<lambda>i. [CleanupLater i, StreamDone i c]) is)) = (if j \<in> set is then 1 else 0)"
  "opened j (concat (map (\<lambda>i. [CleanupLater i, StreamDone i c]) is)) = 0"
  by (induction "is") auto

lemma disconnect_result:
  assumes "core_ok st" "disconnect st = (st', out)"
  shows "lawful st out st' \<and> cl_pending st' = [] \<and> cl_streams st' = []
    \<and> (\<forall>e \<in> set out. \<exists>i c x. e = Rejected i c \<or> e = StreamDone i x \<or> e = CleanupLater i)"
proof -
  obtain st1 out1 where 1: "each_request reject_disconnected (jsmap_keys (cl_pending st)) st = (st1, out1)" by fastforce
  note reject = reject_each[OF 1]
  have keys: "(j \<in> set (jsmap_keys (cl_pending st))) = jsmap_has (cl_pending st) j" for j by (simp only: jsmap_has_iff)
  have wf: "distinct (jsmap_keys (cl_pending st))" "distinct (cl_streams st)" using assms(1) by (simp_all add: core_ok_def jsmap_wf_def)
  have "each_request (\<lambda>i. finishStream i (Some TransportFailed)) (cl_streams st) (st1\<lparr>cl_pending := []\<rparr>)
      = (st1\<lparr>cl_pending := [], cl_streams := []\<rparr>, concat (map (\<lambda>i. [CleanupLater i, StreamDone i (Some TransportFailed)]) (cl_streams st)))"
    using finish_each[OF wf(2), of "st1\<lparr>cl_pending := []\<rparr>"] reject by simp
  then have res: "st' = st1\<lparr>cl_pending := [], cl_streams := [], cl_burst := []\<rparr>"
    "out = map (\<lambda>i. Rejected i TransportFailed) (jsmap_keys (cl_pending st))
       @ concat (map (\<lambda>i. [CleanupLater i, StreamDone i (Some TransportFailed)]) (cl_streams st))"
    using assms(2) 1 reject by (auto simp: disconnect_def Let_def)
  have paths: "\<not> hasPendingPath j (cl_paths st1)" for j using reject assms(1) keys unfolding core_ok_def by blast
  have "opened j out = 0 \<and> settled j out = active j st" for j
    unfolding res counting_simps settled_rejected[OF wf(1)] settled_finished(1)[OF wf(2)] settled_finished(2) opened_rejected keys active_def by simp
  moreover have "active j st' = 0" for j by (simp add: res active_def)
  moreover have "core_ok st'" using paths by (simp add: core_ok_def res)
  moreover have "\<forall>e \<in> set out. \<exists>i c x. e = Rejected i c \<or> e = StreamDone i x \<or> e = CleanupLater i" unfolding res by auto
  ultimately show ?thesis using reject by (simp add: lawful_def res(1))
qed

lemmas disconnect_lawful = disconnect_result[THEN conjunct1]

lemma client_step_lawful:
  assumes "core_ok st" "client_step ev st = (st', out)"
  shows "lawful st out st'"
proof (cases ev)
  case (StallTimer rand sphinx now)
  then show ?thesis
    using assms(2) each_request_lawful[OF assms(1), of "check_stall rand sphinx now" "jsmap_keys (cl_burst st)"] check_stall_lawful
    by (simp add: checkBurstStalls_def del: each_request.simps)
next
  case (BurstFailure i)
  then show ?thesis using assms by (auto simp: burstFailed_def lawful_def core_ok_def active_def jsmap_wf_delete)
next
  case (CleanupTimer i)
  then show ?thesis using assms pool_lawful by auto
next
  case (ItemReceived dec rand sphinx onReply now pid body)
  then show ?thesis using assms handleResponseItem_lawful[OF assms(1)] by simp
next
  case DisconnectCall
  then show ?thesis using assms disconnect_lawful[OF assms(1)] by simp
qed (use assms in \<open>auto split: prod.splits
       intro: sendOnRoute_lawful tunnelSend_lawful failPending_lawful finishStream_lawful\<close>)

lemma new_client_ok: "core_ok (new_client wasm u)"
  by (simp add: core_ok_def new_client_def new_replenishment_def hasPendingPath_def)

lemma client_run_lawful: "core_ok st \<Longrightarrow> client_run evs st = (st', out) \<Longrightarrow> lawful st out st'"
  using each_request_lawful[of st client_step evs] client_step_lawful unfolding client_run_def by (metis fst_conv prod.collapse snd_conv)

text \<open>
  C9. Every call is answered once. Over any sequence of events (calls, timers, aborts, failed uploads, received items in any order and
  with any content, stalls, disconnects): a promise is made at most once per identifier; each promise made is settled exactly
  once, or not yet and then its request is still registered; nothing else is ever settled; and after a disconnect every promise is settled.
\<close>

theorem requests_settle_once:
  assumes "client_run evs (new_client wasm u) = (st, effects)"
  shows "opened i effects \<le> 1 \<and> settled i effects + active i st = opened i effects
    \<and> (client_step DisconnectCall st = (st', out) \<longrightarrow> settled i (effects @ out) = opened i (effects @ out))"
proof -
  have law: "lawful (new_client wasm u) effects st" by (rule client_run_lawful[OF new_client_ok assms])
  then have ok: "core_ok st" by (simp add: lawful_def)
  have zero: "active i (new_client wasm u) = 0" by (simp add: active_def new_client_def)
  have "opened i effects + active i (new_client wasm u) = settled i effects + active i st" using law by (simp add: lawful_def)
  then have now: "opened i effects = settled i effects + active i st" using zero by simp
  have "opened i effects \<le> (if cl_nextRequestId (new_client wasm u) \<le> i \<and> i < cl_nextRequestId st then 1 else 0)"
    using law unfolding lawful_def by blast
  then have once: "opened i effects \<le> 1" by (simp split: if_splits)
  have "settled i (effects @ out) = opened i (effects @ out)" if d: "client_step DisconnectCall st = (st', out)"
  proof -
    have "lawful st out st'" by (rule client_step_lawful[OF ok d])
    then have "opened i out + active i st = settled i out + active i st'" by (simp add: lawful_def)
    moreover have "active i st' = 0" using disconnect_result[OF ok, of st' out] d by (simp add: active_def)
    ultimately show ?thesis using now by simp
  qed
  then show ?thesis using now once by auto
qed

subsection \<open>Where replies come from\<close>

text \<open>The fragments noted for a request, in order.\<close>

definition noted :: "int \<Rightarrow> client_effect list \<Rightarrow> fragment list" where
  "noted i out = concat (map (\<lambda>e. case e of FragmentNoted j f \<Rightarrow> if j = i then [f] else [] | _ \<Rightarrow> []) out)"

lemma noted_simps [simp]: "noted i [] = []" "noted i (a @ b) = noted i a @ noted i b"
  "noted i (FragmentNoted j f # a) = (if j = i then f # noted i a else noted i a)"
  by (simp_all add: noted_def)

definition silent :: "client_effect \<Rightarrow> bool" where
  "silent e = (case e of FragmentNoted _ _ \<Rightarrow> False | Resolved _ _ \<Rightarrow> False | _ \<Rightarrow> True)"

lemma silent_simps [simp]: "silent (PromiseMade j l)" "silent (Rejected j c)" "silent (StreamDone j x)" "silent (Uploaded u p)"
  "silent (Tracked j u ids n)" "silent (BurstPosted j now u bs)" "silent (BurstReset j)" "silent (CleanupLater j)"
  "\<not> silent (Resolved j d)" "\<not> silent (FragmentNoted j f)"
  by (simp_all add: silent_def)

lemma noted_silent: "list_all silent out \<Longrightarrow> noted i out = []"
  by (induction out) (auto simp: noted_def silent_def split: client_effect.splits)

lemma deliver_append:
  "deliver (xs @ ys) r = (fst (deliver ys (fst (deliver xs r))), snd (deliver xs r) @ snd (deliver ys (fst (deliver xs r))))"
proof (induction xs arbitrary: r)
  case (Cons x xs)
  obtain now f where "x = (now, f)" by fastforce
  then show ?case using Cons.IH[of "fst (addFragment now f r)"] by (simp add: case_prod_unfold Let_def)
qed simp

definition replays :: "fragment list \<Rightarrow> (reassembler \<times> bytes option result list \<Rightarrow> bool) \<Rightarrow> bool" where
  "replays fs P = (\<exists>ts. length ts = length fs \<and> P (deliver (zip ts fs) (new_reassembler no_config)))"

lemma replays_Nil: "replays [] P = P (new_reassembler no_config, [])"
  by (simp add: replays_def)

lemma replays_step:
  assumes "replays fs (\<lambda>x. fst x = r)" "addFragment now f r = (r', result)"
  shows "replays (fs @ [f]) (\<lambda>x. fst x = r' \<and> last (snd x) = result)"
proof -
  obtain ts where "length ts = length fs" "fst (deliver (zip ts fs) (new_reassembler no_config)) = r"
    using assms(1) by (auto simp: replays_def)
  then show ?thesis unfolding replays_def using assms(2) by (intro exI[of _ "ts @ [now]"]) (simp add: deliver_append)
qed

definition trace_ok :: "client_core \<Rightarrow> client_effect list \<Rightarrow> bool" where
  "trace_ok st tr =
     ((\<forall>i req. jsmap_get (cl_pending st) i = Some req \<longrightarrow>
         PromiseMade i (pq_maxResponseBytes req) \<in> set tr \<and> replays (noted i tr) (\<lambda>x. fst x = pq_reassembler req))
    \<and> (\<forall>i d. Resolved i d \<in> set tr \<longrightarrow> \<not> jsmap_has (cl_pending st) i \<and> i < cl_nextRequestId st
         \<and> (\<exists>l. PromiseMade i l \<in> set tr \<and> \<not> over_limit l (int (length d)))
         \<and> replays (noted i tr) (\<lambda>x. last (snd x) = Inr (Some d)))
    \<and> (\<forall>i f. FragmentNoted i f \<in> set tr \<longrightarrow> i < cl_nextRequestId st))"

definition quiet :: "client_core \<Rightarrow> client_effect list \<Rightarrow> client_core \<Rightarrow> bool" where
  "quiet st out st' = (list_all silent out \<and> cl_nextRequestId st \<le> cl_nextRequestId st'
     \<and> (\<forall>i r. jsmap_get (cl_pending st') i = Some r \<longrightarrow> jsmap_get (cl_pending st) i = Some r))"

lemma quiet_trace:
  assumes "quiet st out st'" "trace_ok st tr"
  shows "trace_ok st' (tr @ out)"
proof -
  have out: "noted i (tr @ out) = noted i tr" "Resolved i d \<notin> set out" "FragmentNoted i f \<notin> set out" for i d f
    using assms(1) noted_silent by (auto simp: quiet_def list_all_iff)
  have pend: "jsmap_has (cl_pending st') i \<Longrightarrow> jsmap_has (cl_pending st) i" for i
    using assms(1) get_has unfolding quiet_def jsmap_has_def jsmap_get_def by blast
  show ?thesis unfolding trace_ok_def out
  proof (intro conjI allI impI)
    fix i req assume "jsmap_get (cl_pending st') i = Some req"
    then have "jsmap_get (cl_pending st) i = Some req" using assms(1) by (simp add: quiet_def)
    then show "PromiseMade i (pq_maxResponseBytes req) \<in> set (tr @ out)" "replays (noted i tr) (\<lambda>x. fst x = pq_reassembler req)"
      using assms(2) by (auto simp: trace_ok_def)
  next
    fix i d assume "Resolved i d \<in> set (tr @ out)"
    then have r: "Resolved i d \<in> set tr" using out(2) by simp
    show "\<not> jsmap_has (cl_pending st') i" using assms(2) pend r unfolding trace_ok_def by blast
    have n: "cl_nextRequestId st \<le> cl_nextRequestId st'" using assms(1) by (simp add: quiet_def)
    have "i < cl_nextRequestId st" using assms(2) r unfolding trace_ok_def by blast
    then show "i < cl_nextRequestId st'" using n by linarith
    have "\<exists>l. PromiseMade i l \<in> set tr \<and> \<not> over_limit l (int (length d))" using assms(2) r unfolding trace_ok_def by blast
    then show "\<exists>l. PromiseMade i l \<in> set (tr @ out) \<and> \<not> over_limit l (int (length d))" by auto
    show "replays (noted i tr) (\<lambda>x. last (snd x) = Inr (Some d))" using assms(2) r unfolding trace_ok_def by blast
  next
    fix i f assume "FragmentNoted i f \<in> set (tr @ out)"
    then have "FragmentNoted i f \<in> set tr" using out(3) by simp
    then have "i < cl_nextRequestId st" using assms(2) unfolding trace_ok_def by blast
    then show "i < cl_nextRequestId st'" using assms(1) by (auto simp: quiet_def)
  qed
qed

lemma quiet_refl: "quiet st [] st"
  by (simp add: quiet_def)

lemma quiet_trans: "quiet st a st1 \<Longrightarrow> quiet st1 b st2 \<Longrightarrow> quiet st (a @ b) st2"
  by (auto simp: quiet_def)

lemma each_request_quiet: "(\<And>i st. quiet st (snd (f i st)) (fst (f i st))) \<Longrightarrow> quiet st (snd (each_request f is st)) (fst (each_request f is st))"
proof (induction "is" arbitrary: st)
  case (Cons i "is")
  from quiet_trans[OF Cons.prems Cons.IH[OF Cons.prems]] show ?case by (simp add: case_prod_unfold Let_def)
qed (simp add: quiet_refl)

lemma failPending_quiet: "failPending i c st = (st', out) \<Longrightarrow> quiet st out st'"
  by (auto simp: failPending_def quiet_def jsmap_get_def jsmap_delete_map_of split: if_splits)

lemma finishStream_quiet: "finishStream i c st = (st', out) \<Longrightarrow> quiet st out st'"
  by (auto simp: finishStream_def quiet_def split: if_splits)

lemma deliverStream_quiet: "deliverStream onReply i f st = (st', out) \<Longrightarrow> quiet st out st'"
  by (auto simp: deliverStream_def quiet_refl intro: finishStream_quiet split: if_splits stream_verdict.splits)

lemma need_more_quiet: "onNeedMoreSurbs rand sphinx now i x n st = (st', out) \<Longrightarrow> quiet st out st'"
  by (cases rule: need_more_cases[of rand sphinx now i x n st]) (auto simp: quiet_def)

lemma check_stall_quiet: "quiet st (snd (check_stall rand sphinx now i st)) (fst (check_stall rand sphinx now i st))"
  by (auto simp: check_stall_def quiet_refl case_prod_unfold Let_def split: option.splits intro: need_more_quiet[OF prod.collapse[symmetric]])

lemma pool_quiet: "quiet st [] (st\<lparr>cl_pool := p\<rparr>)"
  by (simp add: quiet_def)

lemma tunnelSend_quiet: "tunnelSend rand sphinx r request surbs planned aborted st = (st', out, res) \<Longrightarrow> quiet st out st'"
  by (auto simp: tunnelSend_def quiet_def Let_def split: option.splits if_splits prod.splits sum.splits)

lemma disconnect_quiet: "core_ok st \<Longrightarrow> disconnect st = (st', out) \<Longrightarrow> quiet st out st'"
  using disconnect_result[of st st' out] by (force simp: quiet_def lawful_def jsmap_get_def list_all_iff)

lemma reg_trace:
  assumes "core_ok st" "trace_ok st tr"
  defines "n \<equiv> cl_nextRequestId st"
  shows "trace_ok (st\<lparr>cl_nextRequestId := n + 1, cl_pool := p,
       cl_pending := jsmap_set n \<lparr>pq_reassembler = new_reassembler no_config, pq_maxResponseBytes = limit\<rparr> (cl_pending st), cl_paths := ps\<rparr>)
     (tr @ [PromiseMade n limit, Tracked n u ids k])"
proof -
  have "FragmentNoted n f \<notin> set tr" for f using assms(2) unfolding trace_ok_def n_def by auto
  then have fresh: "noted n tr = []" by (force simp: noted_def split: client_effect.splits)
  have old: "n \<noteq> i" if "Resolved i d \<in> set tr" for i d using assms(2) that unfolding trace_ok_def n_def by auto
  have same: "noted i (tr @ [PromiseMade n limit, Tracked n u ids k]) = noted i tr" for i by (simp add: noted_def)
  show ?thesis unfolding trace_ok_def same
  proof (intro conjI allI impI)
    fix i req assume get: "jsmap_get (cl_pending (st\<lparr>cl_nextRequestId := n + 1, cl_pool := p,
       cl_pending := jsmap_set n \<lparr>pq_reassembler = new_reassembler no_config, pq_maxResponseBytes = limit\<rparr> (cl_pending st), cl_paths := ps\<rparr>)) i = Some req"
    show "PromiseMade i (pq_maxResponseBytes req) \<in> set (tr @ [PromiseMade n limit, Tracked n u ids k])"
      "replays (noted i tr) (\<lambda>x. fst x = pq_reassembler req)"
      using get assms(2) fresh unfolding trace_ok_def by (auto simp: jsmap_get_def jsmap_set_map_of replays_Nil split: if_splits)
  next
    fix i d assume "Resolved i d \<in> set (tr @ [PromiseMade n limit, Tracked n u ids k])"
    then have r: "Resolved i d \<in> set tr" by simp
    then have "\<not> jsmap_has (cl_pending st) i" "i < n" using assms(2) unfolding trace_ok_def n_def by blast+
    then show "\<not> jsmap_has (cl_pending (st\<lparr>cl_nextRequestId := n + 1, cl_pool := p,
       cl_pending := jsmap_set n \<lparr>pq_reassembler = new_reassembler no_config, pq_maxResponseBytes = limit\<rparr> (cl_pending st), cl_paths := ps\<rparr>)) i"
      "i < cl_nextRequestId (st\<lparr>cl_nextRequestId := n + 1, cl_pool := p,
       cl_pending := jsmap_set n \<lparr>pq_reassembler = new_reassembler no_config, pq_maxResponseBytes = limit\<rparr> (cl_pending st), cl_paths := ps\<rparr>)"
      by simp_all
    have "\<exists>l. PromiseMade i l \<in> set tr \<and> \<not> over_limit l (int (length d))" using assms(2) r unfolding trace_ok_def by blast
    then show "\<exists>l. PromiseMade i l \<in> set (tr @ [PromiseMade n limit, Tracked n u ids k]) \<and> \<not> over_limit l (int (length d))" by auto
    show "replays (noted i tr) (\<lambda>x. last (snd x) = Inr (Some d))" using assms(2) r unfolding trace_ok_def by blast
  next
    fix i f assume "FragmentNoted i f \<in> set (tr @ [PromiseMade n limit, Tracked n u ids k])"
    then have "i < n" using assms(2) unfolding trace_ok_def n_def by auto
    then show "i < cl_nextRequestId (st\<lparr>cl_nextRequestId := n + 1, cl_pool := p,
       cl_pending := jsmap_set n \<lparr>pq_reassembler = new_reassembler no_config, pq_maxResponseBytes = limit\<rparr> (cl_pending st), cl_paths := ps\<rparr>)"
      by simp
  qed
qed

lemma sendOnRoute_trace:
  assumes "core_ok st" "trace_ok st tr" "sendOnRoute rand sphinx r payload cnt planned limit aborted abortedNow st = (st', out, res)"
  shows "trace_ok st' (tr @ out)"
proof -
  have skip: "quiet st [] (st\<lparr>cl_nextRequestId := cl_nextRequestId st + 1, cl_pool := p\<rparr>)" for p by (simp add: quiet_def)
  note reg = reg_trace[OF assms(1,2)]
  have up: "quiet s [Uploaded u ps] s" for s u ps by (simp add: quiet_def)
  show ?thesis
    using assms(2,3) quiet_trace[OF skip assms(2)] quiet_trace[OF up reg, simplified]
      quiet_trace[OF failPending_quiet reg, simplified]
    unfolding sendOnRoute_def Let_def by (auto split: option.splits if_splits prod.splits sum.splits)
qed

text \<open>What a fragment of a registered request does.\<close>

lemma handleFragment_cases:
  assumes "jsmap_get (cl_pending st) i = Some req" "handleFragment now i f st = (st', out)" "addFragment now f (pq_reassembler req) = (r, result)"
  obtains (too_large) "cl_pending st' = jsmap_delete i (cl_pending st)" "out = [FragmentNoted i f, Rejected i ResponseTooLarge]"
      "over_limit (pq_maxResponseBytes req) (declared_size f)
        \<or> (\<exists>reply. result = Inr (Some reply) \<and> over_limit (pq_maxResponseBytes req) (int (length reply)))"
    | (waits) "cl_pending st' = jsmap_set i (req\<lparr>pq_reassembler := r\<rparr>) (cl_pending st)" "out = [FragmentNoted i f]"
      "\<forall>reply. result \<noteq> Inr (Some reply)" "\<not> over_limit (pq_maxResponseBytes req) (declared_size f)"
    | (resolves) reply where "cl_pending st' = jsmap_delete i (cl_pending st)" "out = [FragmentNoted i f, Resolved i reply, CleanupLater i]"
      "result = Inr (Some reply)" "\<not> over_limit (pq_maxResponseBytes req) (int (length reply))"
      "\<not> over_limit (pq_maxResponseBytes req) (declared_size f)"
proof -
  have has: "jsmap_has (cl_pending st) i" by (rule get_has[OF assms(1)])
  show thesis
  proof (cases "over_limit (pq_maxResponseBytes req) (declared_size f)")
    case True
    then have "cl_pending st' = jsmap_delete i (cl_pending st)" "out = [FragmentNoted i f, Rejected i ResponseTooLarge]"
      using assms has by (auto simp: handleFragment_def failPending_def Let_def)
    then show thesis using True too_large by blast
  next
    case False
    show thesis
    proof (cases "\<exists>reply. result = Inr (Some reply)")
      case True
      then obtain reply where reply: "result = Inr (Some reply)" by blast
      show thesis
      proof (cases "over_limit (pq_maxResponseBytes req) (int (length reply))")
        case True
        then have "cl_pending st' = jsmap_delete i (cl_pending st)" "out = [FragmentNoted i f, Rejected i ResponseTooLarge]"
          using assms has False reply by (auto simp: handleFragment_def failPending_def Let_def jsmap_delete_set)
        then show thesis using True reply too_large by blast
      next
        case small: False
        then have "cl_pending st' = jsmap_delete i (cl_pending st)" "out = [FragmentNoted i f, Resolved i reply, CleanupLater i]"
          using assms has False reply by (auto simp: handleFragment_def Let_def jsmap_delete_set)
        then show thesis using small reply False resolves by blast
      qed
    next
      case no: False
      then have "cl_pending st' = jsmap_set i (req\<lparr>pq_reassembler := r\<rparr>) (cl_pending st)" "out = [FragmentNoted i f]"
        using assms has False by (auto simp: handleFragment_def Let_def split: sum.splits option.splits)
      then show thesis using no False waits by blast
    qed
  qed
qed

lemma touch_burst_next [simp]: "cl_nextRequestId (touch_burst now i st) = cl_nextRequestId st"
  by (simp add: touch_burst_def split: option.split)

lemma handleFragment_next: "handleFragment now i f st = (st', out) \<Longrightarrow> cl_nextRequestId st' = cl_nextRequestId st"
  by (auto simp: handleFragment_def failPending_def Let_def split: option.splits if_splits sum.splits prod.splits)

lemma handleResponseItem_cases:
  assumes "handleResponseItem dec rand sphinx onReply now pid body st = (st', out)"
  obtains (quiet) "quiet st out st'"
    | (fragment) pool i f where "cl_pool (st\<lparr>cl_pool := pool\<rparr>) = pool" "handleFragment now i f (st\<lparr>cl_pool := pool\<rparr>) = (st', out)"
proof -
  obtain pool m where m: "open_reply dec pid body (cl_pool st) = (pool, m)" by fastforce
  let ?st1 = "st\<lparr>cl_pool := pool\<rparr>"
  note part = quiet_trans[OF pool_quiet[of st pool], simplified]
  show thesis
  proof (cases "cl_wasm st = None \<or> m = None")
    case True
    then show thesis using assms m pool_quiet quiet_refl quiet by (auto simp: handleResponseItem_def split: if_splits)
  next
    case False
    then obtain i plaintext where i: "m = Some (i, plaintext)" "cl_wasm st \<noteq> None" by auto
    have eq: "(st', out) = (case decodeRelayerPayload plaintext of Inl _ \<Rightarrow> (?st1, [])
        | Inr (ServiceResponse _ f) \<Rightarrow>
            if i \<in> set (cl_streams ?st1) then deliverStream (onReply i) i f ?st1 else handleFragment now i f ?st1
        | Inr (NeedMoreSurbs serverId remaining) \<Rightarrow>
            if i \<in> set (cl_streams ?st1) then (?st1, []) else onNeedMoreSurbs rand sphinx now i serverId remaining ?st1
        | Inr _ \<Rightarrow> (?st1, []))"
      using assms[symmetric] m i by (simp add: handleResponseItem_def Let_def)
    have stream: "quiet st out st'" if "deliverStream (onReply i) i f ?st1 = (st', out)" for f
      by (rule part[OF deliverStream_quiet[OF that]])
    have more: "quiet st out st'" if "onNeedMoreSurbs rand sphinx now i y n ?st1 = (st', out)" for y n
      by (rule part[OF need_more_quiet[OF that]])
    have "quiet st out st' \<or> (\<exists>f. handleFragment now i f ?st1 = (st', out))"
    proof (cases "decodeRelayerPayload plaintext")
      case (Inl e)
      then show ?thesis using eq pool_quiet by simp
    next
      case (Inr x)
      then show ?thesis using eq[symmetric] stream more pool_quiet by (cases x) (auto split: if_splits)
    qed
    then show thesis using quiet fragment[of pool] by auto
  qed
qed

lemma handleFragment_trace:
  assumes "core_ok st" "trace_ok st tr" "handleFragment now i f st = (st', out)"
  shows "trace_ok st' (tr @ out)"
proof (cases "jsmap_get (cl_pending st) i")
  case None
  then show ?thesis using assms by (simp add: handleFragment_def)
next
  case (Some req)
  obtain r result where add: "addFragment now f (pq_reassembler req) = (r, result)" by fastforce
  have "replays (noted i tr) (\<lambda>x. fst x = pq_reassembler req)" and made: "PromiseMade i (pq_maxResponseBytes req) \<in> set tr"
    using assms(2) Some unfolding trace_ok_def by blast+
  note replay = replays_step[OF this(1) add]
  have n: "cl_nextRequestId st' = cl_nextRequestId st" by (rule handleFragment_next[OF assms(3)])
  have i: "i < cl_nextRequestId st" using assms(1) get_has[OF Some] unfolding core_ok_def by blast
  have unresolved: "Resolved i d \<notin> set tr" for d using assms(2) get_has[OF Some] unfolding trace_ok_def by blast
  have others: "noted j (tr @ out) = noted j tr" "jsmap_get (cl_pending st') j = jsmap_get (cl_pending st) j" if "j \<noteq> i" for j
    using that by (cases rule: handleFragment_cases[OF Some assms(3) add];
        auto simp: noted_def jsmap_get_def jsmap_set_map_of jsmap_delete_map_of)+
  have mine: "noted i (tr @ out) = noted i tr @ [f]"
    by (cases rule: handleFragment_cases[OF Some assms(3) add]) (auto simp: noted_def)
  have resolved: "Resolved j d \<in> set out \<Longrightarrow> j = i \<and> result = Inr (Some d) \<and> \<not> over_limit (pq_maxResponseBytes req) (int (length d))
      \<and> jsmap_get (cl_pending st') i = None" for j d
    by (cases rule: handleFragment_cases[OF Some assms(3) add]) (auto simp: jsmap_get_def jsmap_delete_map_of)
  have kept: "jsmap_get (cl_pending st') i = Some q \<Longrightarrow> q = req\<lparr>pq_reassembler := r\<rparr>" for q
    by (cases rule: handleFragment_cases[OF Some assms(3) add]) (auto simp: jsmap_get_def jsmap_set_map_of jsmap_delete_map_of)
  have noted_here: "FragmentNoted j g \<in> set out \<Longrightarrow> j = i" for j g
    by (cases rule: handleFragment_cases[OF Some assms(3) add]) auto
  show ?thesis unfolding trace_ok_def n
  proof (intro conjI allI impI)
    fix j q assume q: "jsmap_get (cl_pending st') j = Some q"
    show "PromiseMade j (pq_maxResponseBytes q) \<in> set (tr @ out)"
      using q kept made others assms(2) unfolding trace_ok_def by (cases "j = i") auto
    show "replays (noted j (tr @ out)) (\<lambda>x. fst x = pq_reassembler q)"
    proof (cases "j = i")
      case True
      then show ?thesis using kept[of q] q replay unfolding True mine replays_def by auto
    next
      case False
      then show ?thesis using q others[OF False] assms(2) unfolding trace_ok_def by simp
    qed
  next
    fix j d assume r: "Resolved j d \<in> set (tr @ out)"
    show "\<not> jsmap_has (cl_pending st') j"
    proof (cases "Resolved j d \<in> set tr")
      case True
      then have "j \<noteq> i" "\<not> jsmap_has (cl_pending st) j" using unresolved assms(2) unfolding trace_ok_def by blast+
      then show ?thesis using others(2)[of j] by (simp add: jsmap_has_def jsmap_get_def)
    next
      case False
      then show ?thesis using r resolved[of j d] by (auto simp: jsmap_has_def jsmap_get_def)
    qed
    show "j < cl_nextRequestId st" using r resolved[of j d] i assms(2) unfolding trace_ok_def by auto
    show "\<exists>l. PromiseMade j l \<in> set (tr @ out) \<and> \<not> over_limit l (int (length d))"
    proof (cases "Resolved j d \<in> set tr")
      case True
      then have "\<exists>l. PromiseMade j l \<in> set tr \<and> \<not> over_limit l (int (length d))" using assms(2) unfolding trace_ok_def by blast
      then show ?thesis by auto
    next
      case False
      then show ?thesis using r resolved[of j d] made by auto
    qed
    show "replays (noted j (tr @ out)) (\<lambda>x. last (snd x) = Inr (Some d))"
    proof (cases "Resolved j d \<in> set tr")
      case True
      then have "j \<noteq> i" using unresolved by auto
      then show ?thesis using others(1)[of j] True assms(2) unfolding trace_ok_def by simp
    next
      case False
      then have "j = i" "result = Inr (Some d)" using r resolved[of j d] by auto
      then show ?thesis using replay unfolding \<open>j = i\<close> mine replays_def by auto
    qed
  next
    fix j g assume "FragmentNoted j g \<in> set (tr @ out)"
    then show "j < cl_nextRequestId st" using noted_here[of j g] i assms(2) unfolding trace_ok_def by auto
  qed
qed

lemma handleResponseItem_trace:
  assumes "core_ok st" "trace_ok st tr" "handleResponseItem dec rand sphinx onReply now pid body st = (st', out)"
  shows "trace_ok st' (tr @ out)"
  using assms(3)
proof (cases rule: handleResponseItem_cases)
  case quiet
  then show ?thesis using quiet_trace[OF _ assms(2)] by simp
next
  case (fragment pool i f)
  have ok: "core_ok (st\<lparr>cl_pool := pool\<rparr>)" using pool_lawful[OF assms(1)] by (simp add: lawful_def)
  have "trace_ok (st\<lparr>cl_pool := pool\<rparr>) tr" using quiet_trace[OF pool_quiet assms(2)] by simp
  from handleFragment_trace[OF ok this fragment(2)] show ?thesis .
qed

lemma client_step_trace:
  assumes "core_ok st" "trace_ok st tr" "client_step ev st = (st', out)"
  shows "trace_ok st' (tr @ out)"
proof (cases ev)
  case (SendRequest rand sphinx r payload cnt planned limit aborted abortedNow)
  then show ?thesis using assms sendOnRoute_trace[OF assms(1,2)] by (auto split: prod.splits)
next
  case (ItemReceived dec rand sphinx onReply now pid body)
  then show ?thesis using assms handleResponseItem_trace[OF assms(1,2)] by simp
next
  case (StallTimer rand sphinx now)
  then show ?thesis
    using assms(3) quiet_trace[OF each_request_quiet[of "check_stall rand sphinx now" st "jsmap_keys (cl_burst st)"] assms(2)] check_stall_quiet
    by (simp add: checkBurstStalls_def del: each_request.simps)
next
  case DisconnectCall
  then show ?thesis using assms quiet_trace[OF disconnect_quiet[OF assms(1)] assms(2)] by simp
next
  case (BurstFailure i)
  then have "quiet st out st'" using assms(3) by (auto simp: burstFailed_def quiet_def)
  then show ?thesis by (rule quiet_trace[OF _ assms(2)])
next
  case (CleanupTimer i)
  then have "quiet st out st'" using assms(3) pool_quiet by auto
  then show ?thesis by (rule quiet_trace[OF _ assms(2)])
qed (use assms quiet_trace[OF failPending_quiet assms(2)] quiet_trace[OF finishStream_quiet assms(2)] quiet_trace[OF tunnelSend_quiet assms(2)]
     in \<open>auto split: prod.splits\<close>)

lemma client_run_trace:
  "core_ok st \<Longrightarrow> trace_ok st tr \<Longrightarrow> client_run evs st = (st', out) \<Longrightarrow> trace_ok st' (tr @ out)"
proof (induction evs arbitrary: st tr st' out)
  case (Cons ev evs)
  obtain st1 out1 where 1: "client_step ev st = (st1, out1)" by fastforce
  obtain st2 out2 where 2: "client_run evs st1 = (st2, out2)" by fastforce
  have ok: "core_ok st1" using client_step_lawful[OF Cons.prems(1) 1] by (simp add: lawful_def)
  have "trace_ok st2 ((tr @ out1) @ out2)" by (rule Cons.IH[OF ok client_step_trace[OF Cons.prems(1,2) 1] 2])
  then show ?case using Cons.prems(3) 1 2 by (simp add: client_run_def)
qed (simp add: client_run_def)

text \<open>
  C12. A reply is the request's own and no larger than asked for. Over any sequence of events, whatever bytes resolve a promise are at most
  the limit given with that request, and they are what a fresh reassembler returns for exactly the fragments noted for that
  request, in the order they were noted: fragments opened under other requests' reply blocks never contribute.
\<close>

theorem replies_genuine:
  assumes "client_run evs (new_client wasm u) = (st, effects)" "Resolved i d \<in> set effects"
  shows "\<exists>limit ts. PromiseMade i limit \<in> set effects \<and> (\<forall>l. limit = Some l \<longrightarrow> int (length d) \<le> l)
    \<and> length ts = length (noted i effects)
    \<and> last (snd (deliver (zip ts (noted i effects)) (new_reassembler no_config))) = Inr (Some d)"
proof -
  have "trace_ok (new_client wasm u) []" by (simp add: trace_ok_def new_client_def jsmap_get_def)
  from client_run_trace[OF new_client_ok this assms(1)] have "trace_ok st effects" by simp
  then show ?thesis using assms(2) unfolding trace_ok_def replays_def over_limit_def
    by (metis (no_types, lifting) not_less option.simps(5))
qed

subsection \<open>A sample run\<close>

text \<open>One request, answered by one fragment under its only reply block, then a late timer.\<close>

definition demo_node :: "string \<Rightarrow> topology_node" where
  "demo_node s = \<lparr>node_id = s, node_address = s, routingAddress = s, publicKey = [], node_layer = 0, node_role = 3,
     node_capabilities = None, probation = False\<rparr>"

definition demo_planned :: planned_route where
  "demo_planned = \<lparr>pl_route = \<lparr>rt_entry = demo_node ''e'', rt_mix = demo_node ''m'', rt_exit = demo_node ''x''\<rparr>, pl_version = V1\<rparr>"

definition demo_wasm :: wasm_module where
  "demo_wasm = \<lparr>wasm_create_surb = (\<lambda>_ _ k. Inr \<lparr>surb_bytes = [], recovery_json = k, recovery_id_hex = k\<rparr>), wasm_create_surb_v2 = None\<rparr>"

definition demo_fragment :: fragment where
  "demo_fragment = \<lparr>messageId = 4, totalFragments = 1, sequence = 0, data = [7], fec = None\<rparr>"

definition demo_reply :: bytes where
  "demo_reply = (case encodeRelayerPayload (ServiceResponse 9 demo_fragment) of Inl _ \<Rightarrow> [] | Inr bs \<Rightarrow> bs)"

definition demo_send :: client_event where
  "demo_send = SendRequest (\<lambda>_. [0]) (\<lambda>_ p. Inr p) 1 (AnonymousRequest [5] []) 1 demo_planned (Some 10) False False"

definition demo_receive :: client_event where
  "demo_receive = ItemReceived (\<lambda>_ body. Some body) (\<lambda>_ _. []) (\<lambda>_ p. Inr p) (\<lambda>_ _. MoreParts) 50 ''a'' demo_reply"

definition demo_events :: "client_event list" where
  "demo_events = [demo_send, demo_receive, RequestTimer 0]"

definition demo_sent :: client_core where
  "demo_sent = fst (client_step demo_send (new_client (Some demo_wasm) ''e''))"

definition demo_effects :: "client_effect list" where
  "demo_effects = snd (client_run demo_events (new_client (Some demo_wasm) ''e''))"

lemma demo_decode: "decodeRelayerPayload demo_reply = Inr (ServiceResponse 9 demo_fragment)"
proof -
  have "payload_ok (ServiceResponse 9 demo_fragment)" by (simp add: demo_fragment_def fragment_ok_def range_defs bytes_ok_def)
  from payload_codec.round_trip[OF this] show ?thesis
    by (auto simp: demo_reply_def rbind_Inr_iff encodeRelayerPayload_def decodeRelayerPayload_def)
qed

lemma demo_state:
  "cl_wasm demo_sent \<noteq> None" "snd (open_reply (\<lambda>_ b. Some b) ''a'' demo_reply (cl_pool demo_sent)) = Some (0, demo_reply)"
  "jsmap_get (cl_pending demo_sent) 0 = Some \<lparr>pq_reassembler = new_reassembler no_config, pq_maxResponseBytes = Some 10\<rparr>"
  "cl_streams demo_sent = []" "opened 0 (snd (client_step demo_send (new_client (Some demo_wasm) ''e''))) = 1"
  by code_simp+

lemma demo_added: "snd (addFragment 50 demo_fragment (new_reassembler no_config)) = Inr (Some [7])"
  by code_simp

lemma demo_resolved: "Resolved 0 [7] \<in> set demo_effects"
proof -
  obtain pool where pool: "open_reply (\<lambda>_ b. Some b) ''a'' demo_reply (cl_pool demo_sent) = (pool, Some (0, demo_reply))"
    using demo_state(2) by (metis prod.collapse)
  obtain r where add: "addFragment 50 demo_fragment (new_reassembler no_config) = (r, Inr (Some [7]))" using demo_added by (metis prod.collapse)
  have "snd (handleFragment 50 0 demo_fragment (demo_sent\<lparr>cl_pool := pool\<rparr>)) = [FragmentNoted 0 demo_fragment, Resolved 0 [7], CleanupLater 0]"
    using demo_state(3) add by (simp add: handleFragment_def Let_def over_limit_def declared_size_def demo_fragment_def)
  then have "Resolved 0 [7] \<in> set (snd (client_step demo_receive demo_sent))"
    using demo_state(1,4) pool demo_decode by (simp add: demo_receive_def handleResponseItem_def Let_def)
  then show ?thesis by (simp add: demo_effects_def demo_events_def client_run_def case_prod_unfold Let_def demo_sent_def[symmetric])
qed

lemma demo_opened: "opened 0 demo_effects = 1"
proof -
  have run: "client_run demo_events (new_client (Some demo_wasm) ''e'') = (fst (client_run demo_events (new_client (Some demo_wasm) ''e'')), demo_effects)"
    by (simp add: demo_effects_def)
  have "opened 0 demo_effects \<le> (if cl_nextRequestId (new_client (Some demo_wasm) ''e'') \<le> 0
      \<and> 0 < cl_nextRequestId (fst (client_run demo_events (new_client (Some demo_wasm) ''e''))) then 1 else 0)"
    using client_run_lawful[OF new_client_ok run] unfolding lawful_def by blast
  then have "opened 0 demo_effects \<le> 1" by (simp split: if_splits)
  moreover have "opened 0 (snd (client_step demo_send (new_client (Some demo_wasm) ''e''))) \<le> opened 0 demo_effects"
    by (simp add: demo_effects_def demo_events_def client_run_def case_prod_unfold Let_def)
  ultimately show ?thesis using demo_state(5) by simp
qed

theorem requests_settle_once_witness: "settled 0 demo_effects + active 0 (fst (client_run demo_events (new_client (Some demo_wasm) ''e''))) = 1"
  using requests_settle_once[of demo_events "Some demo_wasm" "''e''" "fst (client_run demo_events (new_client (Some demo_wasm) ''e''))"
      demo_effects 0] demo_opened by (simp add: demo_effects_def)

theorem replies_genuine_witness:
  "\<exists>ts. length ts = length (noted 0 demo_effects) \<and> last (snd (deliver (zip ts (noted 0 demo_effects)) (new_reassembler no_config))) = Inr (Some [7])"
proof -
  have "client_run demo_events (new_client (Some demo_wasm) ''e'') = (fst (client_run demo_events (new_client (Some demo_wasm) ''e'')), demo_effects)"
    by (simp add: demo_effects_def)
  from replies_genuine[OF this] demo_resolved show ?thesis by blast
qed

end
