(* ===== verification/Client_Replies.thy ===== *)
theory Client_Replies
  imports Client_Request_Safety
begin

section \<open>Requests, replies and reply blocks end to end\<close>

text \<open>
  Compositions over the client's requests: what is sent fits its packets and comes back together, a reply cut into fragments is
  delivered whole, a reply touches only its own request, and reply blocks are topped up within bounds.
\<close>

subsection \<open>Outgoing fragments\<close>

lemma chunkSize_value: "chunkSize = 31684"
  by (simp add: chunkSize_def MAX_PAYLOAD_SIZE_def FRAG_OVERHEAD_def)

lemma chunks_concat: "concat (map (\<lambda>q. take k (drop (q * k) xs)) [0..<n]) = take (n * k) xs"
proof (induction n)
  case (Suc n)
  have "take (n * k) xs @ take k (drop (n * k) xs) = take (n * k + k) xs" by (simp add: take_add)
  then show ?case using Suc by (simp add: add.commute)
qed simp

lemma fragment_count_covers: "n \<le> fragment_count n * chunkSize"
  using div_mult_mod_eq[of "n + chunkSize - 1" chunkSize] mod_less_divisor[of chunkSize "n + chunkSize - 1"]
  unfolding fragment_count_def chunkSize_value by linarith

lemma fragments_concat: "concat (map data (fragment_payloads i payload)) = payload"
proof -
  have "map data (fragment_payloads i payload) = map (\<lambda>q. take chunkSize (drop (q * chunkSize) payload)) [0..<fragment_count (length payload)]"
    by (simp add: fragment_payloads_def outgoing_fragment_def comp_def)
  then show ?thesis using chunks_concat[of chunkSize payload "fragment_count (length payload)"] fragment_count_covers[of "length payload"] by simp
qed

lemma fragments_plain:
  assumes "int (length payload) \<le> 300000000"
  shows "plain_message i (fragment_payloads i payload)" "int (fragment_count (length payload)) \<le> 9500"
proof -
  have "fragment_count (length payload) \<le> (300000000 + 31683) div 31684"
    unfolding fragment_count_def chunkSize_value by (rule div_le_mono) (use assms in linarith)
  also have "\<dots> = (9469 :: nat)" by simp
  finally show cnt: "int (fragment_count (length payload)) \<le> 9500" by simp
  show "plain_message i (fragment_payloads i payload)"
    using cnt by (auto simp: plain_message_def of_message_def fragment_payloads_def outgoing_fragment_def validateFragment_def MAX_FRAGMENTS_PER_MESSAGE_def)
qed

lemma estimate_sum: "\<forall>f \<in> set F. fec f = None \<Longrightarrow> est_sum F = 22 * length F + length (concat (map data F))"
  by (induction F) (auto simp: est_sum_def estimateFragmentSize_def)

lemma map_results_Inr: "(\<And>x. x \<in> set xs \<Longrightarrow> f x = Inr (g x)) \<Longrightarrow> map_results f xs = Inr (map g xs)"
  by (induction xs) auto

lemma fragment_encoded:
  assumes "fragment_ok f" "fec f = None"
  shows "\<exists>bs. encodeRelayerPayload (Fragment f) = Inr bs \<and> length bs = 30 + length (data f) \<and> decodeRelayerPayload bs = Inr (Fragment f)"
proof -
  have ok: "payload_ok (Fragment f)" using assms(1) by simp
  have "encodeRelayerPayload (Fragment f) = Inr (le_u8 PAYLOAD_VERSION @ payload_layout (Fragment f))"
    using payload_codec.encode_layout[OF ok] by (simp add: encodeRelayerPayload_def)
  moreover have "length (le_u8 PAYLOAD_VERSION @ payload_layout (Fragment f)) = 30 + length (data f)"
    using assms(2) by (simp add: fragment_layout_def bytes_layout_def fec_layout_def le_u8_def le_u32_def le_u64_def)
  ultimately show ?thesis using payload_codec.round_trip[OF ok] by (auto simp: encodeRelayerPayload_def decodeRelayerPayload_def rbind_Inr_iff)
qed

lemma outgoing_ok:
  assumes "int (length payload) \<le> 300000000" "u64_ok i" "f \<in> set (fragment_payloads i payload)"
  shows "fragment_ok f \<and> fec f = None \<and> length (data f) \<le> 31684"
  using assms fragments_plain(2)[OF assms(1)]
  by (auto simp: fragment_payloads_def outgoing_fragment_def fragment_ok_def range_defs bytes_ok_def chunkSize_value)

text \<open>
  C13. What the client sends fits its packets and comes back together. The payload of every packet is at most 31,716 bytes; a payload that fits is
  sent as it is; a larger one (up to 300 MB) is cut into messages that each decode to one fragment, and these fragments, in whatever
  order they arrive at a receiver with the client's own reassembler, give back the payload exactly with the last one.
\<close>

theorem outgoing_packets_reassemble:
  assumes "int (length payload) \<le> 300000000" "u64_ok i"
  shows "\<exists>ps. packetsFor (\<lambda>_ p. Inr p) i path payload = Inr ps \<and> (\<forall>p \<in> set ps. int (length p) \<le> 31716)
    \<and> (if int (length payload) \<le> 31716 then ps = [payload]
       else \<exists>F. map decodeRelayerPayload ps = map (\<lambda>f. Inr (Fragment f)) F
          \<and> (\<forall>fs. mset (map snd fs) = mset F \<longrightarrow>
               deliver fs (new_reassembler no_config)
                 = (new_reassembler no_config, replicate (length F - 1) (Inr None) @ [Inr (Some payload)])))"
proof (cases "int (length payload) \<le> 31716")
  case True
  then show ?thesis by (simp add: packetsFor_def MAX_PAYLOAD_SIZE_def)
next
  case False
  let ?F = "fragment_payloads i payload"
  define enc where "enc f = (SOME bs. encodeRelayerPayload (Fragment f) = Inr bs \<and> length bs = 30 + length (data f)
      \<and> decodeRelayerPayload bs = Inr (Fragment f))" for f
  have enc: "encodeRelayerPayload (Fragment f) = Inr (enc f) \<and> length (enc f) = 30 + length (data f) \<and> decodeRelayerPayload (enc f) = Inr (Fragment f)"
    if "f \<in> set ?F" for f
    unfolding enc_def by (rule someI_ex[OF fragment_encoded]) (use outgoing_ok[OF assms that] in simp_all)
  have packets: "packetsFor (\<lambda>_ p. Inr p) i path payload = Inr (map enc ?F)"
    using False enc by (simp add: packetsFor_def MAX_PAYLOAD_SIZE_def map_results_Inr)
  have fits: "\<forall>p \<in> set (map enc ?F). int (length p) \<le> 31716"
  proof
    fix p assume "p \<in> set (map enc ?F)"
    then obtain f where f: "f \<in> set ?F" "p = enc f" by auto
    have "length (data f) \<le> 31684" using outgoing_ok[OF assms f(1)] by blast
    moreover have "length p = 30 + length (data f)" using enc[OF f(1)] f(2) by blast
    ultimately show "int (length p) \<le> 31716" by simp
  qed
  have ne: "?F \<noteq> []"
  proof
    assume "?F = []"
    then have "payload = []" using fragments_concat[of i payload] by simp
    then show False using False by simp
  qed
  have plain: "plain_message i ?F" by (rule fragments_plain(1)[OF assms(1)])
  have "est_sum ?F = 22 * length ?F + length payload"
    using estimate_sum[of ?F] outgoing_ok[OF assms] fragments_concat[of i payload] by auto
  moreover have "int (length ?F) \<le> 9500" using fragments_plain(2)[OF assms(1)] by (simp add: fragment_payloads_def)
  ultimately have "int (est_sum ?F) \<le> 314572800" using assms(1) by linarith
  then have room: "has_room (new_reassembler no_config) (est_sum ?F)" by (simp add: has_room_def new_reassembler_def no_config_def)
  have fresh: "reasm_ok (new_reassembler no_config)" "i \<notin> set (jsmap_keys (buffers (new_reassembler no_config)))"
    using new_reassembler_ok(1) by (simp_all add: new_reassembler_def)
  have decoded: "map decodeRelayerPayload (map enc ?F) = map (\<lambda>f. Inr (Fragment f)) ?F" using enc by simp
  have "deliver fs (new_reassembler no_config) = (new_reassembler no_config, replicate (length ?F - 1) (Inr None) @ [Inr (Some payload)])"
    if "mset (map snd fs) = mset ?F" for fs
    using reassembly_any_order[OF fresh plain ne that room] by (simp only: fragments_concat)
  then have "\<exists>F. map decodeRelayerPayload (map enc ?F) = map (\<lambda>f. Inr (Fragment f)) F
      \<and> (\<forall>fs. mset (map snd fs) = mset F \<longrightarrow> deliver fs (new_reassembler no_config)
            = (new_reassembler no_config, replicate (length F - 1) (Inr None) @ [Inr (Some payload)]))"
    using decoded by blast
  then show ?thesis using False packets fits by (intro exI[of _ "map enc ?F"]) (simp only: if_False simp_thms)
qed

theorem outgoing_packets_reassemble_witness:
  "\<exists>ps. packetsFor (\<lambda>_ p. Inr p) 1 [] (replicate 40000 7) = Inr ps \<and> (\<forall>p \<in> set ps. int (length p) \<le> 31716)"
  using outgoing_packets_reassemble[of "replicate 40000 7" 1 "[]"] by (auto simp: range_defs)

subsection \<open>A reply in fragments\<close>

abbreviation receive :: "int \<Rightarrow> (int \<times> fragment) list \<Rightarrow> client_core \<Rightarrow> client_core \<times> client_effect list" where
  "receive i fs st \<equiv> each_request (\<lambda>(now, f). handleFragment now i f) fs st"

lemma each_request_append:
  "each_request g (xs @ ys) st = (fst (each_request g ys (fst (each_request g xs st))),
     snd (each_request g xs st) @ snd (each_request g ys (fst (each_request g xs st))))"
proof (induction xs arbitrary: st)
  case (Cons x xs)
  then show ?case by (simp add: case_prod_unfold Let_def)
qed simp

lemma receive_waits:
  assumes "jsmap_get (cl_pending st) i = Some \<lparr>pq_reassembler = r, pq_maxResponseBytes = limit\<rparr>"
    and "\<forall>f \<in> set (map snd fs). \<not> over_limit limit (declared_size f)" "\<forall>x \<in> set (snd (deliver fs r)). x = Inr None"
  shows "jsmap_get (cl_pending (fst (receive i fs st))) i = Some \<lparr>pq_reassembler = fst (deliver fs r), pq_maxResponseBytes = limit\<rparr>
    \<and> settled i (snd (receive i fs st)) = 0"
  using assms
proof (induction fs arbitrary: st r)
  case (Cons x fs)
  obtain now f where x: "x = (now, f)" by fastforce
  obtain r1 result where add: "addFragment now f r = (r1, result)" by fastforce
  obtain st1 out1 where h: "handleFragment now i f st = (st1, out1)" by fastforce
  have res: "result = Inr None" "\<forall>x \<in> set (snd (deliver fs r1)). x = Inr None"
    using Cons.prems(3) add x by (auto simp: case_prod_unfold Let_def)
  have ok: "\<not> over_limit limit (declared_size f)" using Cons.prems(2) x by simp
  have "jsmap_get (cl_pending st1) i = Some \<lparr>pq_reassembler = r1, pq_maxResponseBytes = limit\<rparr> \<and> settled i out1 = 0"
    using ok res(1) by (cases rule: handleFragment_cases[OF Cons.prems(1) h]) (use add in \<open>auto simp: jsmap_get_def jsmap_set_map_of\<close>)
  then have "jsmap_get (cl_pending (fst (receive i fs st1))) i = Some \<lparr>pq_reassembler = fst (deliver fs r1), pq_maxResponseBytes = limit\<rparr>
      \<and> settled i (snd (receive i fs st1)) = 0 \<and> settled i out1 = 0"
    using Cons.IH[of st1 r1] Cons.prems(2) res(2) by simp
  then show ?case using x add h by (simp add: case_prod_unfold Let_def)
qed simp

text \<open>
  C10. A reply arrives whole. Take a registered request and a reply cut into numbered fragments of one size (the last may be shorter), of at
  most 300 MB and within the request's limit. Whatever the order and times in which the fragments are handled, the request
  is resolved exactly once, with exactly the reply, and is then no longer registered; no estimate of the reply's size refuses it early.
\<close>

theorem reply_delivered:
  assumes pending: "jsmap_get (cl_pending st) i = Some \<lparr>pq_reassembler = new_reassembler no_config, pq_maxResponseBytes = limit\<rparr>"
    and message: "plain_message j F" "F \<noteq> []" "mset (map snd fs) = mset F"
    and sizes: "\<forall>f \<in> set (butlast F). length (data f) = s" "length (data (last F)) \<le> s"
    and small: "int (length (concat (map data F))) \<le> 300000000" "\<not> over_limit limit (int (length (concat (map data F))))"
    and run: "receive i fs st = (st', out)"
  shows "Resolved i (concat (map data F)) \<in> set out \<and> settled i out = 1 \<and> \<not> jsmap_has (cl_pending st') i"
proof -
  let ?r = "new_reassembler no_config"
  have total: "totalFragments f = int (length F)" "fec f = None" "int (length F) \<le> 9500" if "f \<in> set F" for f
    using message(1) that by (auto simp: plain_message_def of_message_def validateFragment_def MAX_FRAGMENTS_PER_MESSAGE_def
        in_set_conv_nth split: if_splits)
  have est: "est_sum F = 22 * length F + length (concat (map data F))" by (rule estimate_sum) (use total in blast)
  have "int (est_sum F) \<le> 314572800" using est small(1) total(3)[of "hd F"] message(2) by (simp add: hd_in_set)
  then have room: "has_room ?r (est_sum F)" by (simp add: has_room_def new_reassembler_def no_config_def)
  have fresh: "reasm_ok ?r" "j \<notin> set (jsmap_keys (buffers ?r))" using new_reassembler_ok(1) by (simp_all add: new_reassembler_def)
  have deliver: "deliver fs ?r = (?r, replicate (length F - 1) (Inr None) @ [Inr (Some (concat (map data F)))])"
    by (rule reassembly_any_order[OF fresh message room])
  have cut: "length (concat (map data (butlast G))) = (length G - 1) * s" if "\<forall>f \<in> set (butlast G). length (data f) = s" for G :: "fragment list"
    using that by (induction G) (auto simp: neq_Nil_conv)
  have "map data F = map data (butlast F @ [last F])" using message(2) by simp
  also have "\<dots> = map data (butlast F) @ [data (last F)]" by simp
  finally have whole: "length (concat (map data F)) = (length F - 1) * s + length (data (last F))" using cut[OF sizes(1)] by simp
  have declared: "\<not> over_limit limit (declared_size f)" if "f \<in> set F" for f
  proof -
    have "length (data f) \<le> s" using that sizes append_butlast_last_id[OF message(2)] by (metis UnE empty_set le_refl list.simps(15) set_append singletonD)
    then have "(length F - 1) * length (data f) \<le> length (concat (map data F))" unfolding whole by (simp add: trans_le_add1)
    moreover have "declared_size f = int ((length F - 1) * length (data f))"
      using total[OF that] message(2) by (simp add: declared_size_def of_nat_diff Suc_le_eq)
    ultimately have "declared_size f \<le> int (length (concat (map data F)))" by linarith
    then show ?thesis using small(2) by (auto simp: over_limit_def split: option.splits)
  qed
  have "length fs = length F" using message(3) by (metis length_map mset_eq_length)
  then have "fs \<noteq> []" using message(2) by auto
  then obtain gs now f where fs: "fs = gs @ [(now, f)]" by (metis append_butlast_last_id prod.collapse)
  have in_F: "set (map snd fs) = set F" using message(3) by (metis mset_eq_setD)
  have parts: "fst (addFragment now f (fst (deliver gs ?r))) = ?r"
    "snd (deliver gs ?r) @ [snd (addFragment now f (fst (deliver gs ?r)))] = replicate (length F - 1) (Inr None) @ [Inr (Some (concat (map data F)))]"
    using deliver unfolding fs deliver_append by (simp_all add: case_prod_unfold Let_def)
  then have gs: "snd (deliver gs ?r) = replicate (length F - 1) (Inr None)"
    and last: "snd (addFragment now f (fst (deliver gs ?r))) = Inr (Some (concat (map data F)))" by simp_all
  have wait: "jsmap_get (cl_pending (fst (receive i gs st))) i = Some \<lparr>pq_reassembler = fst (deliver gs ?r), pq_maxResponseBytes = limit\<rparr>
      \<and> settled i (snd (receive i gs st)) = 0"
    by (rule receive_waits[OF pending]) (use declared in_F gs in \<open>auto simp: fs\<close>)
  obtain st2 out2 where h: "handleFragment now i f (fst (receive i gs st)) = (st2, out2)" by fastforce
  have out: "st' = st2" "out = snd (receive i gs st) @ out2" using run h unfolding fs each_request_append by simp_all
  have ok: "\<not> over_limit limit (declared_size f)" using declared[of f] in_F fs by auto
  obtain r1 where add: "addFragment now f (fst (deliver gs ?r)) = (r1, Inr (Some (concat (map data F))))" using last by (metis prod.collapse)
  have "cl_pending st2 = jsmap_delete i (cl_pending (fst (receive i gs st)))
      \<and> out2 = [FragmentNoted i f, Resolved i (concat (map data F)), CleanupLater i]"
    by (cases rule: handleFragment_cases[OF conjunct1[OF wait] h]) (use add ok small(2) in auto)
  then show ?thesis using wait unfolding out by simp
qed

theorem reply_delivered_witness:
  "Resolved 0 [7] \<in> set (snd (receive 0 [(50, demo_fragment)] demo_sent))"
proof -
  have "plain_message 4 [demo_fragment]"
    by (simp add: plain_message_def of_message_def validateFragment_def demo_fragment_def MAX_FRAGMENTS_PER_MESSAGE_def)
  from reply_delivered[OF demo_state(3) this, of "[(50, demo_fragment)]" 1] show ?thesis
    by (simp add: demo_fragment_def over_limit_def del: each_request.simps) (metis prod.collapse)
qed

subsection \<open>One reply, one request\<close>

definition same_request :: "int \<Rightarrow> client_core \<Rightarrow> client_core \<Rightarrow> bool" where
  "same_request j st st' = (jsmap_get (cl_pending st') j = jsmap_get (cl_pending st) j \<and> jsmap_get (cl_burst st') j = jsmap_get (cl_burst st) j
     \<and> (j \<in> set (cl_streams st')) = (j \<in> set (cl_streams st)) \<and> hasPendingPath j (cl_paths st') = hasPendingPath j (cl_paths st))"

lemma other_get [simp]: "j \<noteq> i \<Longrightarrow> jsmap_get (jsmap_delete i m) j = jsmap_get m j" "j \<noteq> i \<Longrightarrow> jsmap_get (jsmap_set i v m) j = jsmap_get m j"
  by (simp_all add: jsmap_get_def jsmap_delete_map_of jsmap_set_map_of)

lemma failPending_other:
  "j \<noteq> i \<Longrightarrow> same_request j st (fst (failPending i c st)) \<and> settled j (snd (failPending i c st)) = 0 \<and> opened j (snd (failPending i c st)) = 0"
  by (simp add: failPending_def same_request_def)

lemma finishStream_other:
  "j \<noteq> i \<Longrightarrow> same_request j st (fst (finishStream i c st)) \<and> settled j (snd (finishStream i c st)) = 0 \<and> opened j (snd (finishStream i c st)) = 0"
  by (simp add: finishStream_def same_request_def)

lemma deliverStream_other:
  "j \<noteq> i \<Longrightarrow> same_request j st (fst (deliverStream h i f st)) \<and> settled j (snd (deliverStream h i f st)) = 0 \<and> opened j (snd (deliverStream h i f st)) = 0"
  using finishStream_other by (auto simp: deliverStream_def same_request_def split: stream_verdict.split)

lemma need_more_other:
  "j \<noteq> i \<Longrightarrow> same_request j st (fst (onNeedMoreSurbs rand sphinx now i x n st))
    \<and> settled j (snd (onNeedMoreSurbs rand sphinx now i x n st)) = 0 \<and> opened j (snd (onNeedMoreSurbs rand sphinx now i x n st)) = 0"
  by (cases rule: need_more_cases[of rand sphinx now i x n st]) (simp_all add: same_request_def)

lemma touch_burst_other: "j \<noteq> i \<Longrightarrow> same_request j st (touch_burst now i st)"
  by (simp add: touch_burst_def same_request_def split: option.split)

lemma same_request_trans: "same_request j st st1 \<Longrightarrow> same_request j st1 st2 \<Longrightarrow> same_request j st st2"
  by (simp add: same_request_def)

lemma same_pool: "same_request j (st\<lparr>cl_pool := p\<rparr>) st' = same_request j st st'"
  by (simp add: same_request_def)

lemma handleFragment_other:
  assumes "j \<noteq> i"
  shows "same_request j st (fst (handleFragment now i f st)) \<and> settled j (snd (handleFragment now i f st)) = 0
    \<and> opened j (snd (handleFragment now i f st)) = 0"
proof (cases "jsmap_get (cl_pending st) i")
  case None
  then show ?thesis by (simp add: handleFragment_def same_request_def)
next
  case (Some req)
  let ?st1 = "touch_burst now i st"
  obtain r result where add: "addFragment now f (pq_reassembler req) = (r, result)" by fastforce
  have touch: "same_request j st ?st1" by (rule touch_burst_other[OF assms])
  let ?st2 = "?st1\<lparr>cl_pending := jsmap_set i (req\<lparr>pq_reassembler := r\<rparr>) (cl_pending ?st1)\<rparr>"
  have upd: "same_request j st ?st2" using touch assms by (simp add: same_request_def)
  note fail1 = failPending_other[OF assms, of ?st1 ResponseTooLarge] and fail2 = failPending_other[OF assms, of ?st2 ResponseTooLarge]
  show ?thesis
    using Some add upd assms same_request_trans[OF touch conjunct1[OF fail1]] same_request_trans[OF upd conjunct1[OF fail2]] fail1 fail2
    by (auto simp: handleFragment_def Let_def case_prod_unfold same_request_def split: sum.split option.split)
qed

definition only_adds :: "int \<Rightarrow> surb_registry \<Rightarrow> surb_registry \<Rightarrow> bool" where
  "only_adds i pool pool' = (\<forall>k. jsmap_get pool' k = jsmap_get pool k \<or> (\<exists>e. jsmap_get pool' k = Some e \<and> surb_requestId e = i))"

lemma only_adds_refl: "only_adds i pool pool"
  by (simp add: only_adds_def)

lemma only_adds_trans: "only_adds i p p' \<Longrightarrow> only_adds i p' p'' \<Longrightarrow> only_adds i p p''"
  unfolding only_adds_def by metis

lemma only_adds_set: "surb_requestId e = i \<Longrightarrow> only_adds i p (jsmap_set k e p)"
  by (auto simp: only_adds_def jsmap_get_def jsmap_set_map_of)

lemma generate_loop_adds: "only_adds i pool (fst (generate_loop wasm rand path i v is blobs pool))"
proof (induction "is" arbitrary: blobs pool)
  case (Cons a "is")
  let ?new = "\<lambda>r :: create_result. \<lparr>surb_requestId = i, recoveryJson = recovery_json r, surb_version = Some v\<rparr> :: surb_entry"
  have "only_adds i pool (fst (generate_loop wasm rand path i v is bl (jsmap_set k (?new r) pool)))" for bl k r
    by (rule only_adds_trans[OF only_adds_set Cons.IH]) simp
  then show ?case by (cases v) (simp_all add: Let_def only_adds_refl split: sum.split)
qed (simp add: only_adds_refl)

lemma replenish_adds: "only_adds i pool (fst (replenish_packet wasm rand sphinx fwd i y n v pool))"
proof -
  have "only_adds i pool (fst (generate wasm rand (buildReturnPath fwd) i n v pool))"
    by (simp add: generate_def generate_loop_adds only_adds_refl)
  then show ?thesis
    by (cases "generate wasm rand (buildReturnPath fwd) i n v pool"; cases "snd (generate wasm rand (buildReturnPath fwd) i n v pool)")
      (simp_all add: replenish_packet_def)
qed

lemma burst_adds: "only_adds i pool (fst (burst_packets wasm rand sphinx fwd i y n v is ps pool))"
proof (induction "is" arbitrary: ps pool)
  case (Cons a "is")
  obtain pool1 res where run: "replenish_packet wasm (rand a) sphinx fwd i y n v pool = (pool1, res)" by fastforce
  then have "only_adds i pool pool1" using replenish_adds[of i pool wasm "rand a" sphinx fwd y n v] by simp
  then show ?case using run by (auto split: sum.split intro: only_adds_trans[OF _ Cons.IH])
qed (simp add: only_adds_refl)

lemma need_more_adds: "only_adds i (cl_pool st) (cl_pool (fst (onNeedMoreSurbs rand sphinx now i y n st)))"
proof -
  have "only_adds i (cl_pool st) (fst (burstReplenish wasm rand sphinx i y m per url (cl_paths st) (cl_pool st)))" for wasm m per url
    by (simp add: burstReplenish_def Let_def case_prod_beta burst_adds only_adds_refl split: option.split)
  then show ?thesis
    by (simp add: onNeedMoreSurbs_def Let_def case_prod_beta only_adds_refl split: option.split sum.split)
qed

lemma failPending_pool:
  "cl_pool (fst (failPending i c st)) = (if snd (failPending i c st) = [] then cl_pool st else cleanup i (cl_pool st))"
  by (simp add: failPending_def)

lemma failPending_rejects: "snd (failPending i c st) \<noteq> [] \<longleftrightarrow> (\<exists>c'. Rejected i c' \<in> set (snd (failPending i c st)))"
  by (simp add: failPending_def)

lemma touch_burst_pool [simp]: "cl_pool (touch_burst now i st) = cl_pool st"
  by (simp add: touch_burst_def split: option.split)

lemma handleFragment_pool:
  "cl_pool (fst (handleFragment now i f st)) =
     (if \<exists>c. Rejected i c \<in> set (snd (handleFragment now i f st)) then cleanup i (cl_pool st) else cl_pool st)"
proof (cases "jsmap_get (cl_pending st) i")
  case None
  then show ?thesis by (simp add: handleFragment_def)
next
  case (Some req)
  obtain r result where add: "addFragment now f (pq_reassembler req) = (r, result)" by fastforce
  show ?thesis
    using Some add by (auto simp: handleFragment_def Let_def case_prod_unfold failPending_def split: sum.split option.split)
qed

lemma deliverStream_pool:
  "cl_pool (fst (deliverStream h i f st)) = cl_pool st" "Rejected j c \<notin> set (snd (deliverStream h i f st))"
  by (auto simp: deliverStream_def finishStream_def split: stream_verdict.split)

lemma accept_iff: "accept_plaintext p \<longleftrightarrow> (\<exists>r. p = 1 # r)"
  by (cases p) (auto simp: accept_plaintext_def)

definition opens_with :: "(string \<Rightarrow> bytes \<Rightarrow> bytes option) \<Rightarrow> string \<Rightarrow> bytes \<Rightarrow> surb_registry \<Rightarrow> string \<Rightarrow> surb_entry \<Rightarrow> bytes \<Rightarrow> bool" where
  "opens_with dec packetId body pool k e r = (jsmap_get pool k = Some e \<and> dec (recoveryJson e) body = Some (1 # r)
     \<and> (surb_version e = Some V2 \<longrightarrow> parseSurbIdFromPacketId packetId = Some k))"

text \<open>What opening an item does to the pool: nothing when no block opens, else exactly the opened block leaves it.\<close>

lemma open_reply_cases:
  assumes "jsmap_wf pool" "open_reply dec packetId body pool = (pool', m)"
  shows "m = None \<and> pool' = pool \<and> (\<forall>k e r. \<not> opens_with dec packetId body pool k e r)
    \<or> (\<exists>k e r. opens_with dec packetId body pool k e r \<and> m = Some (surb_requestId e, 1 # r) \<and> pool' = jsmap_delete k pool)"
proof -
  have trial: ?thesis if none: "\<And>k e r. parseSurbIdFromPacketId packetId = Some k \<Longrightarrow> \<not> opens_with dec packetId body pool k e r"
    and run: "matchAndDecrypt dec body pool = (pool', m)"
  proof -
    from run have run': "match_loop dec body pool pool = (pool', m)" by (simp add: matchAndDecrypt_def)
    from match_loop_cases[OF this] show ?thesis
    proof
      assume a: "m = None \<and> pool' = pool \<and> (\<forall>(k, e)\<in>set pool. surb_version e = Some V2 \<or>
          (case dec (recoveryJson e) body of None \<Rightarrow> True | Some p \<Rightarrow> \<not> accept_plaintext p))"
      have "\<not> opens_with dec packetId body pool k e r" for k e r
        using a none[of k e r] jsmap_get_iff[OF assms(1), of k e] by (fastforce simp: opens_with_def accept_iff)
      then show ?thesis using a by blast
    next
      assume "\<exists>k e p. (k, e) \<in> set pool \<and> surb_version e \<noteq> Some V2 \<and> dec (recoveryJson e) body = Some p
        \<and> accept_plaintext p \<and> m = Some (surb_requestId e, p) \<and> pool' = jsmap_delete k pool"
      then obtain k e r where o: "(k, e) \<in> set pool" "surb_version e \<noteq> Some V2" "dec (recoveryJson e) body = Some (1 # r)"
          "m = Some (surb_requestId e, 1 # r)" "pool' = jsmap_delete k pool" unfolding accept_iff by blast
      then have "opens_with dec packetId body pool k e r" using jsmap_get_iff[OF assms(1), of k e] by (simp add: opens_with_def)
      then show ?thesis using o(4,5) by blast
    qed
  qed
  show ?thesis
  proof (cases "parseSurbIdFromPacketId packetId")
    case None
    then show ?thesis using assms(2) by (intro trial) (simp_all add: open_reply_def)
  next
    case (Some idHex)
    show ?thesis
    proof (cases "\<exists>e r. jsmap_get pool idHex = Some e \<and> dec (recoveryJson e) body = Some (1 # r)")
      case True
      then obtain e r where e: "jsmap_get pool idHex = Some e" "dec (recoveryJson e) body = Some (1 # r)" by blast
      have "(pool', m) = (jsmap_delete idHex pool, Some (surb_requestId e, 1 # r))"
        using assms(2) Some e by (simp add: open_reply_def decryptById_def accept_plaintext_def)
      then show ?thesis using e Some unfolding opens_with_def by blast
    next
      case False
      then have "decryptById dec idHex body pool = (pool, None)"
        by (auto simp: decryptById_def accept_iff split: option.split)
      then have "matchAndDecrypt dec body pool = (pool', m)" using assms(2) Some by (simp add: open_reply_def)
      moreover have "\<not> opens_with dec packetId body pool k e r" if "parseSurbIdFromPacketId packetId = Some k" for k e r
        using that Some False by (auto simp: opens_with_def)
      ultimately show ?thesis by (intro trial)
    qed
  qed
qed

lemma jsmap_get_cleanup:
  assumes "jsmap_wf pool"
  shows "jsmap_get (cleanup i pool) k = (case jsmap_get pool k of None \<Rightarrow> None | Some e \<Rightarrow> if surb_requestId e = i then None else Some e)"
proof -
  have wf: "jsmap_wf (cleanup i pool)" using assms by (auto simp: cleanup_filter[OF assms] jsmap_wf_def intro: distinct_map_filter)
  have "jsmap_get (cleanup i pool) k = Some e \<longleftrightarrow> jsmap_get pool k = Some e \<and> surb_requestId e \<noteq> i" for e
    unfolding jsmap_get_iff[OF wf] jsmap_get_iff[OF assms] by (simp add: cleanup_filter[OF assms])
  note get = this
  show ?thesis
  proof (cases "jsmap_get pool k")
    case None
    then have "jsmap_get (cleanup i pool) k = None" using get by (metis option.distinct(1) option.exhaust)
    then show ?thesis using None by simp
  next
    case (Some e)
    then have g: "jsmap_get (cleanup i pool) k = Some e' \<longleftrightarrow> e' = e \<and> surb_requestId e \<noteq> i" for e' by (auto simp: get)
    show ?thesis using g[of e] g[of "the (jsmap_get (cleanup i pool) k)"] Some by (cases "jsmap_get (cleanup i pool) k") auto
  qed
qed

text \<open>The handlers behind an opened block: the blocks they leave in the pool.\<close>

definition pool_after :: "surb_registry \<Rightarrow> int \<Rightarrow> bytes \<Rightarrow> client_effect list \<Rightarrow> surb_registry \<Rightarrow> bool" where
  "pool_after pool i p out pool' = (\<forall>k. if \<exists>y n. decodeRelayerPayload p = Inr (NeedMoreSurbs y n)
     then jsmap_get pool' k = jsmap_get pool k \<or> (\<exists>e. jsmap_get pool' k = Some e \<and> surb_requestId e = i)
     else jsmap_get pool' k = (case jsmap_get pool k of None \<Rightarrow> None
       | Some e \<Rightarrow> if surb_requestId e = i \<and> (\<exists>c. Rejected i c \<in> set out) then None else Some e))"

lemma pool_after_same: "(\<forall>c. Rejected i c \<notin> set out) \<Longrightarrow> pool_after pool i p out pool"
  by (simp add: pool_after_def split: option.split)

text \<open>
  C11. A reply opens at most one reply block and touches its request only. Either the item changes nothing at all, and then
  the client is not ready or no block that may be tried opens it (one of version 2 is tried only when the packet's identifier names it); or
  there is one block of the pool that opens it to a plaintext with the version byte, named by the packet when it is of version 2, such that
  every request other than the one the block was registered for keeps its fragments, its stream, its burst state and its path, and no promise of
  it is made or settled. Then the opened block has left the pool, and every other block is still there, except that all blocks
  of the block's own request go when that request is rejected, and that a reply asking for more blocks may register new ones for it.
\<close>

theorem reply_isolated:
  assumes "handleResponseItem dec rand sphinx onReply now packetId body st = (st', out)" "jsmap_wf (cl_pool st)"
  shows "st' = st \<and> out = [] \<and> (cl_wasm st = None \<or> (\<forall>k e r. jsmap_get (cl_pool st) k = Some e
          \<and> (surb_version e = Some V2 \<longrightarrow> parseSurbIdFromPacketId packetId = Some k) \<longrightarrow> dec (recoveryJson e) body \<noteq> Some (1 # r)))
    \<or> (\<exists>k e r. jsmap_get (cl_pool st) k = Some e \<and> dec (recoveryJson e) body = Some (1 # r)
        \<and> (surb_version e = Some V2 \<longrightarrow> parseSurbIdFromPacketId packetId = Some k)
        \<and> (\<forall>j. j \<noteq> surb_requestId e \<longrightarrow> same_request j st st' \<and> settled j out = 0 \<and> opened j out = 0)
        \<and> (\<forall>k'. if \<exists>y n. decodeRelayerPayload (1 # r) = Inr (NeedMoreSurbs y n)
             then jsmap_get (cl_pool st') k' = (if k' = k then None else jsmap_get (cl_pool st) k')
               \<or> (\<exists>e'. jsmap_get (cl_pool st') k' = Some e' \<and> surb_requestId e' = surb_requestId e)
             else jsmap_get (cl_pool st') k' = (case jsmap_get (cl_pool st) k' of None \<Rightarrow> None
               | Some e' \<Rightarrow> if k' = k \<or> surb_requestId e' = surb_requestId e \<and> (\<exists>c. Rejected (surb_requestId e) c \<in> set out)
                   then None else Some e')))"
proof (cases "cl_wasm st = None")
  case True
  then show ?thesis using assms by (simp add: handleResponseItem_def)
next
  case False
  obtain pool m where opened: "open_reply dec packetId body (cl_pool st) = (pool, m)" by fastforce
  from open_reply_cases[OF assms(2) this] show ?thesis
  proof
    assume n: "m = None \<and> pool = cl_pool st \<and> (\<forall>k e r. \<not> opens_with dec packetId body (cl_pool st) k e r)"
    then have "st' = st \<and> out = []" using assms(1) opened False by (simp add: handleResponseItem_def)
    then show ?thesis using n unfolding opens_with_def by blast
  next
    assume "\<exists>k e r. opens_with dec packetId body (cl_pool st) k e r \<and> m = Some (surb_requestId e, 1 # r) \<and> pool = jsmap_delete k (cl_pool st)"
    then obtain k e r where o: "opens_with dec packetId body (cl_pool st) k e r" "m = Some (surb_requestId e, 1 # r)"
        "pool = jsmap_delete k (cl_pool st)" by blast
    let ?i = "surb_requestId e" and ?p = "1 # r" and ?st1 = "st\<lparr>cl_pool := pool\<rparr>"
    have wf: "jsmap_wf pool" using assms(2) o(3) by (simp add: jsmap_wf_delete)
    have eq: "(st', out) = (case decodeRelayerPayload ?p of Inl _ \<Rightarrow> (?st1, [])
        | Inr (ServiceResponse _ f) \<Rightarrow>
            if ?i \<in> set (cl_streams ?st1) then deliverStream (onReply ?i) ?i f ?st1 else handleFragment now ?i f ?st1
        | Inr (NeedMoreSurbs serverId remaining) \<Rightarrow>
            if ?i \<in> set (cl_streams ?st1) then (?st1, []) else onNeedMoreSurbs rand sphinx now ?i serverId remaining ?st1
        | Inr _ \<Rightarrow> (?st1, []))"
      using assms(1)[symmetric] opened False o(2) by (simp add: handleResponseItem_def Let_def)
    define good where "good res = ((\<forall>j. j \<noteq> ?i \<longrightarrow> same_request j st (fst res) \<and> settled j (snd res) = 0 \<and> opened j (snd res) = 0)
        \<and> pool_after pool ?i ?p (snd res) (cl_pool (fst res)))" for res
    have none: "good (?st1, [])" by (simp add: good_def same_request_def pool_after_same)
    have stream: "good (deliverStream (onReply ?i) ?i f ?st1)" for f
      using deliverStream_other[of _ ?i ?st1] deliverStream_pool(1)[of "onReply ?i" ?i f ?st1] deliverStream_pool(2)[of ?i _ "onReply ?i" ?i f ?st1]
      by (simp add: good_def same_pool pool_after_same)
    have frag: "good (handleFragment now ?i f ?st1)" if "decodeRelayerPayload ?p = Inr (ServiceResponse y f)" for y f
      using handleFragment_other[of _ ?i ?st1] handleFragment_pool[of now ?i f ?st1] that
      by (auto simp: good_def same_pool pool_after_def jsmap_get_cleanup[OF wf] split: option.split)
    have more: "good (onNeedMoreSurbs rand sphinx now ?i y n ?st1)" if "decodeRelayerPayload ?p = Inr (NeedMoreSurbs y n)" for y n
      using need_more_other[of _ ?i ?st1] need_more_adds[of ?i ?st1 rand sphinx now y n] that
      by (simp add: good_def same_pool pool_after_def only_adds_def)
    have "good (st', out)" unfolding eq using none stream frag more by (auto split: sum.split relayer_payload.split)
    then have others: "\<forall>j. j \<noteq> ?i \<longrightarrow> same_request j st st' \<and> settled j out = 0 \<and> opened j out = 0"
      and after: "pool_after pool ?i ?p out (cl_pool st')" by (simp_all add: good_def)
    have get: "jsmap_get pool k' = (if k' = k then None else jsmap_get (cl_pool st) k')" for k'
      by (simp add: o(3) js_map.get_del[OF assms(2)])
    show ?thesis
    proof (intro disjI2 exI[of _ k] exI[of _ e] exI[of _ r] conjI allI)
      show "jsmap_get (cl_pool st) k = Some e" "dec (recoveryJson e) body = Some (1 # r)"
          "surb_version e = Some V2 \<longrightarrow> parseSurbIdFromPacketId packetId = Some k" using o(1) by (simp_all add: opens_with_def)
      show "j \<noteq> ?i \<longrightarrow> same_request j st st' \<and> settled j out = 0 \<and> opened j out = 0" for j using others by blast
    next
      fix k'
      show "if \<exists>y n. decodeRelayerPayload (1 # r) = Inr (NeedMoreSurbs y n)
             then jsmap_get (cl_pool st') k' = (if k' = k then None else jsmap_get (cl_pool st) k')
               \<or> (\<exists>e'. jsmap_get (cl_pool st') k' = Some e' \<and> surb_requestId e' = surb_requestId e)
             else jsmap_get (cl_pool st') k' = (case jsmap_get (cl_pool st) k' of None \<Rightarrow> None
               | Some e' \<Rightarrow> if k' = k \<or> surb_requestId e' = surb_requestId e \<and> (\<exists>c. Rejected (surb_requestId e) c \<in> set out)
                   then None else Some e')"
        using after[unfolded pool_after_def get, rule_format, of k'] by (simp split: option.split)
    qed
  qed
qed

theorem reply_isolated_witness:
  "\<exists>k. jsmap_get (cl_pool (fst (client_step demo_receive demo_sent))) k = None \<and> jsmap_get (cl_pool demo_sent) k \<noteq> None
     \<and> same_request 3 demo_sent (fst (client_step demo_receive demo_sent))"
proof -
  let ?k = "randomIdHex [0]"
  have wf: "jsmap_wf (cl_pool demo_sent)" by code_simp
  have e: "cl_pool demo_sent = [(?k, \<lparr>surb_requestId = 0, recoveryJson = ?k, surb_version = Some V1\<rparr>)]" by code_simp
  have "accept_plaintext demo_reply" by code_simp
  then have r: "\<exists>r. demo_reply = 1 # r" by (simp add: accept_iff)
  have ready: "cl_wasm demo_sent \<noteq> None" by (rule demo_state(1))
  have no_more: "\<not> (\<exists>y n. decodeRelayerPayload demo_reply = Inr (NeedMoreSurbs y n))" by (simp add: demo_decode)
  let ?r = "client_step demo_receive demo_sent"
  have run: "handleResponseItem (\<lambda>_ body. Some body) (\<lambda>_ _. []) (\<lambda>_ p. Inr p) (\<lambda>_ _. MoreParts) 50 ''a'' demo_reply demo_sent = (fst ?r, snd ?r)"
    by (simp add: demo_receive_def)
  have opens: "\<exists>k e r. jsmap_get (cl_pool demo_sent) k = Some e \<and> (surb_version e = Some V2 \<longrightarrow> parseSurbIdFromPacketId ''a'' = Some k)
      \<and> Some demo_reply = Some (1 # r)"
    using r by (intro exI[of _ ?k]) (simp add: e jsmap_get_def)
  have "\<exists>k e r. jsmap_get (cl_pool demo_sent) k = Some e \<and> demo_reply = 1 # r \<and> same_request 3 demo_sent (fst ?r)
      \<and> jsmap_get (cl_pool (fst ?r)) k = None"
    using reply_isolated[OF run wf]
  proof
    assume "fst ?r = demo_sent \<and> snd ?r = [] \<and> (cl_wasm demo_sent = None \<or> (\<forall>k e r. jsmap_get (cl_pool demo_sent) k = Some e
          \<and> (surb_version e = Some V2 \<longrightarrow> parseSurbIdFromPacketId ''a'' = Some k) \<longrightarrow> Some demo_reply \<noteq> Some (1 # r)))"
    then show ?thesis using ready opens by metis
  next
    assume "\<exists>k e r. jsmap_get (cl_pool demo_sent) k = Some e \<and> Some demo_reply = Some (1 # r)
        \<and> (surb_version e = Some V2 \<longrightarrow> parseSurbIdFromPacketId ''a'' = Some k)
        \<and> (\<forall>j. j \<noteq> surb_requestId e \<longrightarrow> same_request j demo_sent (fst ?r) \<and> settled j (snd ?r) = 0 \<and> opened j (snd ?r) = 0)
        \<and> (\<forall>k'. if \<exists>y n. decodeRelayerPayload (1 # r) = Inr (NeedMoreSurbs y n)
             then jsmap_get (cl_pool (fst ?r)) k' = (if k' = k then None else jsmap_get (cl_pool demo_sent) k')
               \<or> (\<exists>e'. jsmap_get (cl_pool (fst ?r)) k' = Some e' \<and> surb_requestId e' = surb_requestId e)
             else jsmap_get (cl_pool (fst ?r)) k' = (case jsmap_get (cl_pool demo_sent) k' of None \<Rightarrow> None
               | Some e' \<Rightarrow> if k' = k \<or> surb_requestId e' = surb_requestId e \<and> (\<exists>c. Rejected (surb_requestId e) c \<in> set (snd ?r))
                   then None else Some e'))"
    then obtain k b r where *: "jsmap_get (cl_pool demo_sent) k = Some b" "demo_reply = 1 # r"
        and others: "\<forall>j. j \<noteq> surb_requestId b \<longrightarrow> same_request j demo_sent (fst ?r) \<and> settled j (snd ?r) = 0 \<and> opened j (snd ?r) = 0"
        and pool: "\<forall>k'. if \<exists>y n. decodeRelayerPayload (1 # r) = Inr (NeedMoreSurbs y n)
             then jsmap_get (cl_pool (fst ?r)) k' = (if k' = k then None else jsmap_get (cl_pool demo_sent) k')
               \<or> (\<exists>e'. jsmap_get (cl_pool (fst ?r)) k' = Some e' \<and> surb_requestId e' = surb_requestId b)
             else jsmap_get (cl_pool (fst ?r)) k' = (case jsmap_get (cl_pool demo_sent) k' of None \<Rightarrow> None
               | Some e' \<Rightarrow> if k' = k \<or> surb_requestId e' = surb_requestId b \<and> (\<exists>c. Rejected (surb_requestId b) c \<in> set (snd ?r))
                   then None else Some e')" by blast
    have "surb_requestId b = 0" using *(1) by (auto simp: e jsmap_get_def split: if_splits)
    then have "same_request 3 demo_sent (fst ?r)" using others by simp
    moreover have "jsmap_get (cl_pool (fst ?r)) k = None"
      using pool[rule_format, of k] no_more unfolding *(2) by (simp add: *(1))
    ultimately show ?thesis using * by blast
  qed
  then show ?thesis by auto
qed

text \<open>
  A packet that cannot be built abandons its reply blocks: they stay in the pool, under an identifier that no request has.
\<close>

lemma failed_build_leaves_blocks:
  assumes "sendOnRoute rand sphinx r p n planned limit False abortedNow st = (st', out, Inl e)" "cl_wasm st = Some wasm"
  shows "cl_pool st' = fst (generate wasm rand (buildReturnPath (forward_path (pl_route planned))) (cl_nextRequestId st) n (pl_version planned) (cl_pool st))
    \<and> cl_pending st' = cl_pending st \<and> out = []"
  using assms by (auto simp: sendOnRoute_def Let_def split: prod.splits sum.splits if_splits)

subsection \<open>Bursts of reply blocks\<close>

text \<open>The times of a request's bursts since the last failed one.\<close>

definition burst_times :: "int \<Rightarrow> int list \<Rightarrow> client_effect \<Rightarrow> int list" where
  "burst_times i ts e = (case e of BurstPosted j now _ _ \<Rightarrow> if j = i then ts @ [now] else ts
     | BurstReset j \<Rightarrow> if j = i then [] else ts | _ \<Rightarrow> ts)"

definition recent_bursts :: "int \<Rightarrow> client_effect list \<Rightarrow> int list" where
  "recent_bursts i out = foldl (burst_times i) [] out"

definition spaced :: "int list \<Rightarrow> bool" where
  "spaced ts = (\<forall>k. Suc k < length ts \<longrightarrow> ts ! k + 8000 \<le> ts ! Suc k)"

definition no_burst :: "client_effect \<Rightarrow> bool" where
  "no_burst e = (case e of BurstPosted _ _ _ _ \<Rightarrow> False | BurstReset _ \<Rightarrow> False | _ \<Rightarrow> True)"

lemma no_burst_simps [simp]: "no_burst (PromiseMade j l)" "no_burst (Resolved j d)" "no_burst (Rejected j c)" "no_burst (StreamDone j x)"
  "no_burst (Uploaded u p)" "no_burst (Tracked j u ids n)" "no_burst (FragmentNoted j f)" "no_burst (CleanupLater j)"
  "\<not> no_burst (BurstPosted j now u bs)" "\<not> no_burst (BurstReset j)"
  by (simp_all add: no_burst_def)

lemma recent_append: "recent_bursts i (a @ b) = foldl (burst_times i) (recent_bursts i a) b"
  by (simp add: recent_bursts_def)

lemma recent_none: "list_all no_burst b \<Longrightarrow> recent_bursts i (a @ b) = recent_bursts i a"
proof -
  have "list_all no_burst b \<Longrightarrow> foldl (burst_times i) ts b = ts" for ts
    by (induction b arbitrary: ts) (auto simp: burst_times_def no_burst_def split: client_effect.splits)
  then show "list_all no_burst b \<Longrightarrow> recent_bursts i (a @ b) = recent_bursts i a" by (simp add: recent_append)
qed

lemma spaced_snoc: "spaced ts \<Longrightarrow> (ts \<noteq> [] \<Longrightarrow> last ts + 8000 \<le> t) \<Longrightarrow> spaced (ts @ [t])"
proof -
  assume a: "spaced ts" "ts \<noteq> [] \<Longrightarrow> last ts + 8000 \<le> t"
  show "spaced (ts @ [t])" unfolding spaced_def
  proof (intro allI impI)
    fix k assume k: "Suc k < length (ts @ [t])"
    show "(ts @ [t]) ! k + 8000 \<le> (ts @ [t]) ! Suc k"
    proof (cases "Suc k < length ts")
      case True
      then show ?thesis using a(1) by (simp add: spaced_def nth_append)
    next
      case False
      then have "k = length ts - 1" "ts \<noteq> []" using k by auto
      then show ?thesis using a(2) by (simp add: nth_append last_conv_nth)
    qed
  qed
qed

definition small_burst :: "client_effect \<Rightarrow> bool" where
  "small_burst e = (case e of BurstPosted _ _ _ bs \<Rightarrow> length (concat bs) \<le> 10 | _ \<Rightarrow> True)"

definition burst_matches :: "burst_state option \<Rightarrow> int list \<Rightarrow> bool" where
  "burst_matches b ts = (case b of None \<Rightarrow> ts = [] | Some s \<Rightarrow> ts \<noteq> [] \<and> length ts = bs_round s \<and> last ts = bs_sentAt s)"

definition burst_view :: "burst_state option \<Rightarrow> (nat \<times> int) option" where
  "burst_view b = map_option (\<lambda>s. (bs_round s, bs_sentAt s)) b"

definition burst_kept :: "client_core \<Rightarrow> client_core \<Rightarrow> int \<Rightarrow> bool" where
  "burst_kept st st' i = (hasPendingPath i (cl_paths st') \<longrightarrow>
      hasPendingPath i (cl_paths st) \<and> burst_view (jsmap_get (cl_burst st') i) = burst_view (jsmap_get (cl_burst st) i)
      \<or> cl_nextRequestId st \<le> i \<and> jsmap_get (cl_burst st') i = None)"

definition burst_frame :: "client_core \<Rightarrow> client_effect list \<Rightarrow> client_core \<Rightarrow> bool" where
  "burst_frame st out st' = (list_all no_burst out \<and> cl_nextRequestId st \<le> cl_nextRequestId st' \<and> (\<forall>i. burst_kept st st' i))"

lemma burst_matches_view: "burst_view b = burst_view b' \<Longrightarrow> burst_matches b ts = burst_matches b' ts"
  by (cases b; cases b') (auto simp: burst_view_def burst_matches_def)

lemma small_no_burst: "list_all no_burst out \<Longrightarrow> list_all small_burst out"
  by (induction out) (auto simp: no_burst_def small_burst_def split: client_effect.splits)

text \<open>The clauses of \<open>bursts_ok\<close>, one request at a time.\<close>

definition burst_ok :: "client_core \<Rightarrow> int list \<Rightarrow> int \<Rightarrow> bool" where
  "burst_ok st ts i = (spaced ts \<and> length ts \<le> 50 \<and> (hasPendingPath i (cl_paths st) \<longrightarrow> burst_matches (jsmap_get (cl_burst st) i) ts)
     \<and> (cl_nextRequestId st \<le> i \<longrightarrow> ts = []))"

definition bursts_ok :: "client_core \<Rightarrow> client_effect list \<Rightarrow> bool" where
  "bursts_ok st tr = (list_all small_burst tr \<and> (\<forall>i. burst_ok st (recent_bursts i tr) i))"

lemma burst_kept_ok:
  assumes "burst_kept st st' i" "cl_nextRequestId st \<le> cl_nextRequestId st'" "burst_ok st ts i"
  shows "burst_ok st' ts i"
proof (cases "hasPendingPath i (cl_paths st')")
  case True
  then consider "hasPendingPath i (cl_paths st)" "burst_view (jsmap_get (cl_burst st') i) = burst_view (jsmap_get (cl_burst st) i)"
    | "cl_nextRequestId st \<le> i" "jsmap_get (cl_burst st') i = None" using assms(1) unfolding burst_kept_def by meson
  then have "burst_matches (jsmap_get (cl_burst st') i) ts"
  proof cases
    case 1
    then show ?thesis using assms(3) burst_matches_view[OF 1(2)] by (simp add: burst_ok_def)
  next
    case 2
    then show ?thesis using assms(3) by (simp add: burst_ok_def burst_matches_def)
  qed
  then show ?thesis using assms(2,3) by (simp add: burst_ok_def)
qed (use assms(2,3) in \<open>simp add: burst_ok_def\<close>)

lemma burst_frame_ok:
  assumes "burst_frame st out st'" "bursts_ok st tr"
  shows "bursts_ok st' (tr @ out)"
proof -
  have quiet: "list_all no_burst out" using assms(1) by (simp add: burst_frame_def)
  have "burst_ok st' (recent_bursts i tr) i" for i
    using assms by (intro burst_kept_ok[of st st']) (simp_all add: burst_frame_def bursts_ok_def)
  then show ?thesis using assms(2) small_no_burst[OF quiet] by (simp add: bursts_ok_def recent_none[OF quiet])
qed

lemma burst_kept_trans:
  assumes "burst_kept st st1 i" "burst_kept st1 st2 i" "cl_nextRequestId st \<le> cl_nextRequestId st1"
  shows "burst_kept st st2 i"
  using assms by (cases "jsmap_get (cl_burst st1) i"; cases "jsmap_get (cl_burst st2) i") (auto simp: burst_kept_def burst_view_def)

lemma burst_frame_trans:
  assumes "burst_frame st a st1" "burst_frame st1 b st2"
  shows "burst_frame st (a @ b) st2"
proof -
  have "burst_kept st st2 i" for i
    using assms by (intro burst_kept_trans[of st st1 i st2]) (simp_all add: burst_frame_def)
  then show ?thesis using assms by (simp add: burst_frame_def)
qed

lemma burst_frame_same:
  "list_all no_burst out \<Longrightarrow> cl_nextRequestId st \<le> cl_nextRequestId st' \<Longrightarrow> cl_paths st' = cl_paths st \<Longrightarrow> cl_burst st' = cl_burst st \<Longrightarrow>
   burst_frame st out st'"
  by (simp add: burst_frame_def burst_kept_def)

lemma failPending_frame: "failPending i c st = (st', out) \<Longrightarrow> burst_frame st out st'"
  by (auto simp: failPending_def burst_frame_def burst_kept_def jsmap_get_def jsmap_delete_map_of split: if_splits)

lemma finishStream_frame: "finishStream i c st = (st', out) \<Longrightarrow> burst_frame st out st'"
  by (auto simp: finishStream_def intro!: burst_frame_same split: if_splits)

lemma deliverStream_frame: "deliverStream h i f st = (st', out) \<Longrightarrow> burst_frame st out st'"
  by (auto simp: deliverStream_def intro: finishStream_frame burst_frame_same split: if_splits stream_verdict.splits)

lemma touch_burst_frame: "burst_frame st [] (touch_burst now i st)"
  by (auto simp: touch_burst_def burst_frame_def burst_kept_def burst_view_def jsmap_get_def jsmap_set_map_of split: option.split)

lemma burst_frame_noted: "burst_frame st out st' \<Longrightarrow> burst_frame st (FragmentNoted i f # out) st'"
  by (simp add: burst_frame_def)

lemma handleFragment_frame:
  assumes "handleFragment now i f st = (st', out)"
  shows "burst_frame st out st'"
proof (cases "jsmap_get (cl_pending st) i")
  case None
  then show ?thesis using assms by (auto simp: handleFragment_def intro: burst_frame_same)
next
  case (Some req)
  let ?st1 = "touch_burst now i st"
  obtain r result where add: "addFragment now f (pq_reassembler req) = (r, result)" by fastforce
  let ?st2 = "?st1\<lparr>cl_pending := jsmap_set i (req\<lparr>pq_reassembler := r\<rparr>) (cl_pending ?st1)\<rparr>"
  have upd: "burst_frame st [] ?st2" using burst_frame_trans[OF touch_burst_frame burst_frame_same[of "[]" ?st1 ?st2]] by simp
  have res: "burst_frame ?st2 [Resolved i d, CleanupLater i] (?st2\<lparr>cl_pending := jsmap_delete i (cl_pending ?st2),
      cl_burst := jsmap_delete i (cl_burst ?st2), cl_paths := clearPath i (cl_paths ?st2)\<rparr>)" for d
    by (auto simp: burst_frame_def burst_kept_def jsmap_get_def jsmap_delete_map_of)
  note fail1 = burst_frame_trans[OF touch_burst_frame failPending_frame, simplified]
  note fail2 = burst_frame_trans[OF upd failPending_frame, simplified]
  note res = burst_frame_trans[OF upd res, simplified]
  show ?thesis
    using assms Some add burst_frame_noted[OF upd] burst_frame_noted[OF fail1] burst_frame_noted[OF fail2] burst_frame_noted[OF res]
    unfolding handleFragment_def by (auto simp: Let_def split: if_splits sum.splits option.splits prod.splits)
qed


lemma sendOnRoute_frame:
  assumes "core_ok st" "sendOnRoute rand sphinx r payload cnt planned limit aborted abortedNow st = (st', out, res)"
  shows "burst_frame st out st'"
proof -
  let ?i = "cl_nextRequestId st"
  have "\<not> jsmap_has (cl_burst st) ?i" using assms(1) not_active_new[OF assms(1), of ?i] unfolding core_ok_def by blast
  then have none: "jsmap_get (cl_burst st) ?i = None" by (simp add: jsmap_has_def jsmap_get_def)
  have reg: "burst_frame st [PromiseMade ?i limit, Tracked ?i u ids n] (st\<lparr>cl_nextRequestId := ?i + 1, cl_pool := p,
      cl_pending := jsmap_set ?i q (cl_pending st), cl_paths := stashPath ?i path x (cl_paths st)\<rparr>)" for u ids n p q path x
    using none by (auto simp: burst_frame_def burst_kept_def)
  have up: "burst_frame st a st1 \<Longrightarrow> burst_frame st (a @ [Uploaded u ps]) st1" for a st1 u ps by (simp add: burst_frame_def)
  show ?thesis
    using assms(2) reg up[OF reg] burst_frame_trans[OF reg failPending_frame]
    unfolding sendOnRoute_def Let_def by (auto intro: burst_frame_same split: option.splits if_splits prod.splits sum.splits)
qed

lemma tunnelSend_frame:
  "tunnelSend rand sphinx r request surbs planned aborted st = (st', out, res) \<Longrightarrow> burst_frame st out st'"
  unfolding tunnelSend_def Let_def by (auto intro!: burst_frame_same split: option.splits if_splits prod.splits sum.splits)

lemma disconnect_frame:
  assumes "core_ok st" "disconnect st = (st', out)"
  shows "burst_frame st out st'"
proof -
  note res = disconnect_result[OF assms]
  have ok: "core_ok st'" using res by (simp add: lawful_def)
  then have "\<not> hasPendingPath i (cl_paths st')" for i using res unfolding core_ok_def by (metis has_simps(3))
  moreover have "list_all no_burst out" using res by (auto simp: list_all_iff)
  ultimately show ?thesis using res by (simp add: burst_frame_def burst_kept_def lawful_def)
qed

text \<open>A step keeps the bursts in bounds, whatever came before.\<close>

definition keeps_bursts :: "client_core \<Rightarrow> client_effect list \<Rightarrow> client_core \<Rightarrow> bool" where
  "keeps_bursts st out st' = (\<forall>tr. bursts_ok st tr \<longrightarrow> bursts_ok st' (tr @ out))"

lemma frame_keeps: "burst_frame st out st' \<Longrightarrow> keeps_bursts st out st'"
  by (simp add: keeps_bursts_def burst_frame_ok)

lemma keeps_trans: "keeps_bursts st a st1 \<Longrightarrow> keeps_bursts st1 b st2 \<Longrightarrow> keeps_bursts st (a @ b) st2"
  unfolding keeps_bursts_def by (metis append.assoc)

lemma keeps_refl: "keeps_bursts st [] st"
  by (simp add: keeps_bursts_def)

lemma reset_keeps: "keeps_bursts st [BurstReset i] (st\<lparr>cl_burst := jsmap_delete i (cl_burst st), cl_pool := p\<rparr>)"
  by (auto simp: keeps_bursts_def bursts_ok_def burst_ok_def small_burst_def recent_append burst_times_def burst_matches_def spaced_def
      jsmap_get_def jsmap_delete_map_of)

lemma posted_keeps:
  assumes "core_ok st" "hasPendingPath i (cl_paths st)" "\<not> burst_held now (jsmap_get (cl_burst st) i)" "length (concat batches) \<le> 10"
  shows "keeps_bursts st [BurstPosted i now u batches]
    (st\<lparr>cl_burst := jsmap_set i \<lparr>bs_round = next_round i st, bs_sentAt = now, bs_serverRequestId = y, bs_lastFragmentAt = now\<rparr>
          (cl_burst st), cl_pool := p\<rparr>)" (is "keeps_bursts st ?out ?st'")
  unfolding keeps_bursts_def
proof (intro allI impI)
  fix tr assume ok: "bursts_ok st tr"
  have i: "i < cl_nextRequestId st" using assms(1,2) unfolding core_ok_def by blast
  have "burst_ok ?st' (recent_bursts j (tr @ ?out)) j" for j
  proof (cases "j = i")
    case True
    let ?ts = "recent_bursts i tr"
    have now: "recent_bursts i (tr @ ?out) = ?ts @ [now]" by (simp add: recent_append burst_times_def)
    have before: "spaced ?ts" "burst_matches (jsmap_get (cl_burst st) i) ?ts" using ok assms(2) by (simp_all add: bursts_ok_def burst_ok_def)
    have "?ts \<noteq> [] \<Longrightarrow> last ?ts + 8000 \<le> now" "length ?ts < 50" "next_round i st = length ?ts + 1"
      using before(2) assms(3)
      by (auto simp: burst_matches_def burst_held_def next_round_def STALL_TIMEOUT_MS_def MAX_BURST_ROUNDS_def split: option.splits)
    then show ?thesis using spaced_snoc[OF before(1)] i
      by (simp add: True now burst_ok_def burst_matches_def jsmap_get_def jsmap_set_map_of)
  next
    case False
    have "recent_bursts j (tr @ ?out) = recent_bursts j tr" using False by (simp add: recent_append burst_times_def)
    then show ?thesis using ok False by (simp add: bursts_ok_def burst_ok_def jsmap_get_def jsmap_set_map_of)
  qed
  then show "bursts_ok ?st' (tr @ ?out)" using ok assms(4) by (simp add: bursts_ok_def small_burst_def)
qed

lemma burst_size:
  assumes "burstReplenish wasm rand sphinx i y (packets_needed n) k entryUrl m pool = (p, Inr (u, batches))"
  shows "length (concat batches) \<le> 10"
proof -
  obtain p' packets where b: "burst_packets wasm rand sphinx (the (jsmap_get (paths m) i)) i y k (versionFor i m) [0..<packets_needed n] [] pool
      = (p', packets)" by fastforce
  then obtain ps where "packets = Inr ps" "batches = batches_of ps"
    using assms by (auto simp: burstReplenish_def Let_def rbind_Inr_iff split: option.splits)
  then show ?thesis using burst_packets_count[of wasm rand sphinx "the (jsmap_get (paths m) i)" i y k "versionFor i m"] b
    by (simp add: batches_of_concat packets_needed_def MAX_PACKETS_PER_BURST_def)
qed

lemma need_more_keeps:
  assumes "core_ok st" "onNeedMoreSurbs rand sphinx now i y n st = (st', out)"
  shows "keeps_bursts st out st'"
  using assms(2)
  by (cases rule: need_more_cases[of rand sphinx now i y n st])
    (auto intro: keeps_refl reset_keeps posted_keeps[OF assms(1)] dest: burst_size)


lemma handleResponseItem_keeps:
  assumes "core_ok st" "handleResponseItem dec rand sphinx onReply now pid body st = (st', out)"
  shows "keeps_bursts st out st'"
proof -
  obtain pool m where m: "open_reply dec pid body (cl_pool st) = (pool, m)" by fastforce
  let ?st1 = "st\<lparr>cl_pool := pool\<rparr>"
  have pool: "keeps_bursts st [] ?st1" by (simp add: frame_keeps burst_frame_same)
  have ok: "core_ok ?st1" using pool_lawful[OF assms(1), of pool] by (simp add: lawful_def)
  note part = keeps_trans[OF pool, of _ st', simplified]
  show ?thesis
  proof (cases "cl_wasm st = None \<or> m = None")
    case True
    then show ?thesis using assms(2) m pool keeps_refl by (auto simp: handleResponseItem_def split: if_splits)
  next
    case False
    then obtain i plaintext where i: "m = Some (i, plaintext)" "cl_wasm st \<noteq> None" by auto
    have eq: "(st', out) = (case decodeRelayerPayload plaintext of Inl _ \<Rightarrow> (?st1, [])
        | Inr (ServiceResponse _ f) \<Rightarrow>
            if i \<in> set (cl_streams ?st1) then deliverStream (onReply i) i f ?st1 else handleFragment now i f ?st1
        | Inr (NeedMoreSurbs serverId remaining) \<Rightarrow>
            if i \<in> set (cl_streams ?st1) then (?st1, []) else onNeedMoreSurbs rand sphinx now i serverId remaining ?st1
        | Inr _ \<Rightarrow> (?st1, []))"
      using assms(2)[symmetric] m i by (simp add: handleResponseItem_def Let_def)
    show ?thesis
    proof (cases "decodeRelayerPayload plaintext")
      case (Inl e)
      then show ?thesis using eq pool by simp
    next
      case (Inr x)
      have "keeps_bursts st out st'" if "deliverStream (onReply i) i f ?st1 = (st', out)" for f
        by (rule part[OF frame_keeps[OF deliverStream_frame[OF that]]])
      moreover have "keeps_bursts st out st'" if "handleFragment now i f ?st1 = (st', out)" for f
        by (rule part[OF frame_keeps[OF handleFragment_frame[OF that]]])
      moreover have "keeps_bursts st out st'" if "onNeedMoreSurbs rand sphinx now i y n ?st1 = (st', out)" for y n
        by (rule part[OF need_more_keeps[OF ok that]])
      ultimately show ?thesis using eq[symmetric] Inr pool by (cases x) (auto split: if_splits)
    qed
  qed
qed

lemma check_stall_keeps:
  "core_ok st \<Longrightarrow> keeps_bursts st (snd (check_stall rand sphinx now i st)) (fst (check_stall rand sphinx now i st))"
  by (auto simp: check_stall_def keeps_refl case_prod_unfold Let_def split: option.splits
      intro: need_more_keeps[OF _ prod.collapse[symmetric]])

lemma each_request_keeps:
  assumes "\<And>i st. core_ok st \<Longrightarrow> lawful st (snd (f i st)) (fst (f i st))" "\<And>i st. core_ok st \<Longrightarrow> keeps_bursts st (snd (f i st)) (fst (f i st))"
  shows "core_ok st \<Longrightarrow> keeps_bursts st (snd (each_request f is st)) (fst (each_request f is st))"
proof (induction "is" arbitrary: st)
  case (Cons i "is")
  have "core_ok (fst (f i st))" using assms(1)[OF Cons.prems] by (simp add: lawful_def)
  from keeps_trans[OF assms(2)[OF Cons.prems] Cons.IH[OF this]] show ?case by (simp add: case_prod_unfold Let_def)
qed (simp add: keeps_refl)

lemma client_step_keeps:
  assumes "core_ok st" "client_step ev st = (st', out)"
  shows "keeps_bursts st out st'"
proof (cases ev)
  case (SendRequest rand sphinx r payload cnt planned limit aborted abortedNow)
  then show ?thesis using assms sendOnRoute_frame[OF assms(1)] by (auto intro: frame_keeps split: prod.splits)
next
  case (ItemReceived dec rand sphinx onReply now pid body)
  then show ?thesis using assms handleResponseItem_keeps[OF assms(1)] by simp
next
  case (StallTimer rand sphinx now)
  then show ?thesis
    using assms(2) each_request_keeps[of "check_stall rand sphinx now" st "jsmap_keys (cl_burst st)"] assms(1)
      check_stall_lawful check_stall_keeps
    by (simp add: checkBurstStalls_def del: each_request.simps)
next
  case DisconnectCall
  then show ?thesis using assms disconnect_frame[OF assms(1)] frame_keeps by simp
next
  case (BurstFailure i)
  have "st\<lparr>cl_burst := jsmap_delete i (cl_burst st), cl_pool := cl_pool st\<rparr> = st\<lparr>cl_burst := jsmap_delete i (cl_burst st)\<rparr>" by simp
  then show ?thesis using BurstFailure assms(2) reset_keeps[of st i "cl_pool st"] by (metis burstFailed_def client_step.simps(11) prod.inject)
next
  case (CleanupTimer i)
  then show ?thesis using assms by (auto intro!: frame_keeps burst_frame_same)
qed (use assms in \<open>auto split: prod.splits intro: frame_keeps tunnelSend_frame failPending_frame finishStream_frame\<close>)

lemma client_run_keeps: "core_ok st \<Longrightarrow> client_run evs st = (st', out) \<Longrightarrow> keeps_bursts st out st'"
  using each_request_keeps[of client_step st evs] client_step_lawful client_step_keeps unfolding client_run_def
  by (metis fst_conv prod.collapse snd_conv)

text \<open>
  C14. Reply blocks are sent in measured bursts. Over any sequence of events, however often servers ask for reply blocks and stalls are
  noticed: every burst for a request carries at most ten packets, and between two failed bursts of a request there are at most fifty
  bursts, each at least 8 seconds after the one before it.
\<close>

theorem burst_discipline:
  assumes "client_run evs (new_client wasm u) = (st, effects)"
  shows "(\<forall>j now u bs. BurstPosted j now u bs \<in> set effects \<longrightarrow> length (concat bs) \<le> 10)
    \<and> length (recent_bursts i effects) \<le> 50
    \<and> (\<forall>k. Suc k < length (recent_bursts i effects) \<longrightarrow> recent_bursts i effects ! k + 8000 \<le> recent_bursts i effects ! Suc k)"
proof -
  have "bursts_ok (new_client wasm u) []"
    by (simp add: bursts_ok_def burst_ok_def recent_bursts_def spaced_def new_client_def new_replenishment_def hasPendingPath_def)
  then have ok: "bursts_ok st effects" using client_run_keeps[OF new_client_ok assms(1)] by (auto simp: keeps_bursts_def)
  have "length (concat bs) \<le> 10" if "BurstPosted j now u bs \<in> set effects" for j now u bs
    using ok that unfolding bursts_ok_def by (auto simp: small_burst_def list_all_iff)
  then show ?thesis using ok unfolding bursts_ok_def burst_ok_def spaced_def by blast
qed


text \<open>A sample burst: the server asks for one more reply block, and gets one packet.\<close>

definition demo_more :: bytes where
  "demo_more = (case encodeRelayerPayload (NeedMoreSurbs 9 1) of Inl _ \<Rightarrow> [] | Inr bs \<Rightarrow> bs)"

definition demo_starved :: client_event where
  "demo_starved = ItemReceived (\<lambda>_ body. Some body) (\<lambda>_ _. [1]) (\<lambda>_ p. Inr p) (\<lambda>_ _. MoreParts) 60 ''a'' demo_more"

definition demo_burst :: "client_effect list" where
  "demo_burst = snd (client_run [demo_send, demo_starved] (new_client (Some demo_wasm) ''e''))"

lemma demo_more_decode: "decodeRelayerPayload demo_more = Inr (NeedMoreSurbs 9 1)" "accept_plaintext demo_more"
proof -
  have "payload_ok (NeedMoreSurbs 9 1)" by (simp add: range_defs)
  from payload_codec.round_trip[OF this] show "decodeRelayerPayload demo_more = Inr (NeedMoreSurbs 9 1)"
    by (auto simp: demo_more_def rbind_Inr_iff encodeRelayerPayload_def decodeRelayerPayload_def)
  have "le_u8 PAYLOAD_VERSION = [1]" by (simp add: le_u8_def le_int_def PAYLOAD_VERSION_def)
  then have "encodeRelayerPayload (NeedMoreSurbs 9 1) = Inr (1 # payload_layout (NeedMoreSurbs 9 1))"
    using encode_with_emits[OF emits_payload[of "NeedMoreSurbs 9 1"]] by (simp add: encodeRelayerPayload_def)
  then show "accept_plaintext demo_more" by (simp add: demo_more_def accept_plaintext_def)
qed

lemma demo_generates: "\<exists>pool bs. generate demo_wasm rand path i n V1 reg = (pool, Inr bs)"
proof -
  have "\<exists>pool bs. generate_loop demo_wasm rand path i V1 js blobs reg = (pool, Inr bs)" for js blobs
    by (induction js arbitrary: blobs reg) (auto simp: demo_wasm_def Let_def)
  then show ?thesis by (simp add: generate_def)
qed

lemma demo_packets: "packets_needed 1 = Suc 0"
  by (simp add: packets_needed_def SURBS_PER_PACKET_def MAX_PACKETS_PER_BURST_def)

lemma sendOnRoute_registers:
  "sendOnRoute rand sphinx r p n planned limit aborted False st = (st', out, res) \<Longrightarrow>
     cl_pending st' = cl_pending st
   \<or> cl_wasm st' = cl_wasm st \<and> cl_burst st' = cl_burst st
     \<and> cl_paths st' = stashPath (cl_nextRequestId st) (forward_path (pl_route planned))
          (Some (node_address (rt_entry (pl_route planned)), pl_version planned)) (cl_paths st)"
  by (auto simp: sendOnRoute_def Let_def split: option.splits prod.splits sum.splits if_splits)

lemma demo_burst_state:
  "cl_wasm demo_sent = Some demo_wasm" "cl_burst demo_sent = []"
  "cl_paths demo_sent = stashPath 0 (forward_path (pl_route demo_planned)) (Some (''e'', V1)) new_replenishment"
proof -
  let ?st = "new_client (Some demo_wasm) ''e''"
  obtain st' out res where send: "sendOnRoute (\<lambda>_. [0]) (\<lambda>_ p. Inr p) 1 (AnonymousRequest [5] []) 1 demo_planned (Some 10) False False ?st
      = (st', out, res)" by (cases "sendOnRoute (\<lambda>_. [0]) (\<lambda>_ p. Inr p) 1 (AnonymousRequest [5] []) 1 demo_planned (Some 10) False False ?st")
  then have st': "demo_sent = st'" unfolding demo_sent_def demo_send_def client_step.simps by simp
  have "cl_pending demo_sent \<noteq> cl_pending ?st" using demo_state(3) by (auto simp: new_client_def jsmap_get_def)
  then show "cl_wasm demo_sent = Some demo_wasm" "cl_burst demo_sent = []"
    "cl_paths demo_sent = stashPath 0 (forward_path (pl_route demo_planned)) (Some (''e'', V1)) new_replenishment"
    using sendOnRoute_registers[OF send] unfolding st' by (simp_all add: new_client_def demo_planned_def demo_node_def)
qed

lemma demo_paths:
  "hasPendingPath 0 (cl_paths demo_sent)" "jsmap_get (cl_burst demo_sent) 0 = None"
  "jsmap_get (entries (cl_paths demo_sent)) 0 = Some ''e''" "versionFor 0 (cl_paths demo_sent) = V1"
  unfolding demo_burst_state by (code_simp+)

lemma demo_opens: "snd (open_reply (\<lambda>_ b. Some b) ''a'' demo_more (cl_pool demo_sent)) = Some (0, demo_more)"
  by code_simp

lemma demo_burst_posted: "\<exists>u bs. BurstPosted 0 60 u bs \<in> set demo_burst"
proof -
  obtain pool where pool: "open_reply (\<lambda>_ b. Some b) ''a'' demo_more (cl_pool demo_sent) = (pool, Some (0, demo_more))"
    using demo_opens by (metis prod.collapse)
  obtain path where path: "jsmap_get (paths (cl_paths demo_sent)) 0 = Some path"
    using demo_paths(1) by (auto simp: hasPendingPath_def jsmap_has_def jsmap_get_def)
  obtain pool2 bs where gen: "generate demo_wasm (\<lambda>_. [1]) (buildReturnPath path) 0 SURBS_PER_PACKET V1 pool = (pool2, Inr bs)"
    using demo_generates by blast
  have "\<exists>u bs. BurstPosted 0 60 u bs \<in> set (snd (onNeedMoreSurbs (\<lambda>_ _. [1]) (\<lambda>_ p. Inr p) 60 0 9 1 (demo_sent\<lparr>cl_pool := pool\<rparr>)))"
    using demo_burst_state(1) demo_paths demo_packets path gen
    by (simp add: onNeedMoreSurbs_def burst_held_def burstReplenish_def replenish_packet_def replenish_encoded Let_def)
  then have "\<exists>u bs. BurstPosted 0 60 u bs \<in> set (snd (client_step demo_starved demo_sent))"
    using demo_state(1,4) pool demo_more_decode by (simp add: demo_starved_def handleResponseItem_def Let_def)
  then show ?thesis by (auto simp: demo_burst_def client_run_def case_prod_unfold Let_def demo_sent_def[symmetric])
qed

theorem burst_discipline_witness: "\<exists>u bs. BurstPosted 0 60 u bs \<in> set demo_burst \<and> length (concat bs) \<le> 10"
proof -
  have "client_run [demo_send, demo_starved] (new_client (Some demo_wasm) ''e'')
      = (fst (client_run [demo_send, demo_starved] (new_client (Some demo_wasm) ''e'')), demo_burst)" by (simp add: demo_burst_def)
  from burst_discipline[OF this] demo_burst_posted show ?thesis by blast
qed

end
