(* ===== verification/Tunnel.thy ===== *)
theory Tunnel
  imports Bincode_Messages Bincode_Outcomes
begin

section \<open>TLS tunnels through an exit\<close>

text \<open>
  \<open>packages/anon-rpc-worker/src/tls/tunnel.ts\<close>: one tunnel through one exit. The reply parts of an exchange are put back in order
  (\<open>accept\<close>); an exchange is the state of the closures of \<open>Tunnel.exchange\<close>, and timers, parts, failed uploads and the abort signal are
  events in any order. The TLS session that receives the bytes, the port that sends a copy and the caller's test of
  being satisfied are parameters, the latter on the bytes delivered so far. \<open>tn_delivered\<close> records what the TLS session was handed.
\<close>

subsection \<open>Bytes in order\<close>

record tunnel_state =
  tn_id :: bytes
  tn_host :: js_string
  tn_tcpPort :: int
  tn_nextSeq :: int
  tn_contiguous :: int
  tn_held :: "(int, bytes) jsmap"
  tn_eofAt :: "int option"
  tn_ended :: bool
  tn_delivered :: bytes

definition new_tunnel :: "bytes \<Rightarrow> js_string \<Rightarrow> int \<Rightarrow> tunnel_state" where
  "new_tunnel tid host tcpPort = \<lparr>tn_id = tid, tn_host = host, tn_tcpPort = tcpPort, tn_nextSeq = 0, tn_contiguous = 0, tn_held = [],
     tn_eofAt = None, tn_ended = False, tn_delivered = []\<rparr>"

text \<open>The TLS session sees what it was handed before and the new bytes; it may throw.\<close>

type_synonym tls_sink = "bytes \<Rightarrow> bytes \<Rightarrow> unit result"

definition tn_push :: "tls_sink \<Rightarrow> bytes \<Rightarrow> tunnel_state \<Rightarrow> tunnel_state \<times> unit result" where
  "tn_push sink bs t =
     (if bs = [] then (t, Inr ())
      else (t\<lparr>tn_contiguous := tn_contiguous t + int (length bs), tn_delivered := tn_delivered t @ bs\<rparr>, sink (tn_delivered t) bs))"

text \<open>One pass over the held parts; the result is \<open>advanced\<close>.\<close>

fun held_pass :: "tls_sink \<Rightarrow> (int \<times> bytes) list \<Rightarrow> bool \<Rightarrow> tunnel_state \<Rightarrow> tunnel_state \<times> bool result" where
  "held_pass sink [] advanced t = (t, Inr advanced)"
| "held_pass sink ((heldOffset, heldData) # es) advanced t =
     (if heldOffset > tn_contiguous t then held_pass sink es advanced t
      else
        (let t1 = t\<lparr>tn_held := jsmap_delete heldOffset (tn_held t)\<rparr>;
             heldEnd = heldOffset + int (length heldData) in
         case (if heldEnd > tn_contiguous t1 then tn_push sink (drop (nat (tn_contiguous t1 - heldOffset)) heldData) t1 else (t1, Inr ())) of
           (t2, Inl e) \<Rightarrow> (t2, Inl e)
         | (t2, Inr _) \<Rightarrow> held_pass sink es True t2))"

lemma tn_push_held: "tn_push sink bs t = (t', r) \<Longrightarrow> tn_held t' = tn_held t"
  by (auto simp: tn_push_def split: if_splits)

lemma length_delete_le: "length (jsmap_delete k m) \<le> length m"
  by (simp add: jsmap_delete_def)

lemma length_delete_less: "(k, v) \<in> set m \<Longrightarrow> length (jsmap_delete k m) < length m"
  by (auto simp: jsmap_delete_def intro!: length_filter_less)

lemma held_pass_le: "held_pass sink es adv t = (t', r) \<Longrightarrow> length (tn_held t') \<le> length (tn_held t)"
proof (induction sink es adv t rule: held_pass.induct)
  case (2 sink heldOffset heldData es advanced t)
  show ?case
  proof (cases "heldOffset > tn_contiguous t")
    case False
    let ?t1 = "t\<lparr>tn_held := jsmap_delete heldOffset (tn_held t)\<rparr>"
    obtain t2 q where step: "(if heldOffset + int (length heldData) > tn_contiguous ?t1
        then tn_push sink (drop (nat (tn_contiguous ?t1 - heldOffset)) heldData) ?t1 else (?t1, Inr ())) = (t2, q)" by fastforce
    then have kept: "tn_held t2 = jsmap_delete heldOffset (tn_held t)" using tn_push_held by (auto split: if_splits)
    show ?thesis
    proof (cases q)
      case (Inl e)
      then show ?thesis using 2(3) False step kept length_delete_le by (auto simp: Let_def)
    next
      case (Inr u)
      then have "held_pass sink es True t2 = (t', r)" using 2(3) False step by (auto simp: Let_def)
      from 2(2)[OF False refl refl step[symmetric] Inr this] show ?thesis
        using kept length_delete_le[of heldOffset "tn_held t"] by simp
    qed
  qed (use 2 in auto)
qed auto

lemma held_pass_progress:
  "held_pass sink es False t = (t', Inr True) \<Longrightarrow> set es \<subseteq> set (tn_held t) \<Longrightarrow> length (tn_held t') < length (tn_held t)"
proof (induction es)
  case (Cons e es)
  obtain k v where e: "e = (k, v)" by fastforce
  show ?case
  proof (cases "k > tn_contiguous t")
    case False
    let ?t1 = "t\<lparr>tn_held := jsmap_delete k (tn_held t)\<rparr>"
    obtain t2 q where step: "(if k + int (length v) > tn_contiguous ?t1
        then tn_push sink (drop (nat (tn_contiguous ?t1 - k)) v) ?t1 else (?t1, Inr ())) = (t2, q)" by fastforce
    then have kept: "tn_held t2 = jsmap_delete k (tn_held t)" using tn_push_held by (auto split: if_splits)
    have "held_pass sink es True t2 = (t', Inr True)" using Cons.prems(1) e False step by (cases q) (auto simp: Let_def)
    from held_pass_le[OF this] show ?thesis using kept length_delete_less[of k v "tn_held t"] Cons.prems(2) e by simp
  qed (use Cons e in auto)
qed simp

function drain_held :: "tls_sink \<Rightarrow> tunnel_state \<Rightarrow> tunnel_state \<times> unit result" where
  "drain_held sink t =
     (case held_pass sink (tn_held t) False t of
        (t1, Inl e) \<Rightarrow> (t1, Inl e)
      | (t1, Inr advanced) \<Rightarrow> if advanced then drain_held sink t1 else (t1, Inr ()))"
  by pat_completeness auto
termination
  by (relation "measure (\<lambda>(_, t). length (tn_held t))") (auto dest: held_pass_progress[OF sym])

declare drain_held.simps [simp del]

definition tn_accept :: "tls_sink \<Rightarrow> int \<Rightarrow> bytes \<Rightarrow> tunnel_state \<Rightarrow> tunnel_state \<times> unit result" where
  "tn_accept sink offset part t =
     (if offset + int (length part) \<le> tn_contiguous t then (t, Inr ())
      else if offset > tn_contiguous t then
        (if (case jsmap_get (tn_held t) offset of None \<Rightarrow> True | Some existing \<Rightarrow> length existing < length part)
         then (t\<lparr>tn_held := jsmap_set offset part (tn_held t)\<rparr>, Inr ()) else (t, Inr ()))
      else
        (case tn_push sink (drop (nat (tn_contiguous t - offset)) part) t of
           (t1, Inl e) \<Rightarrow> (t1, Inl e)
         | (t1, Inr _) \<Rightarrow> drain_held sink t1))"

end
