(* ===== verification/Tunnel_Stream.thy ===== *)
theory Tunnel_Stream
  imports Tunnel "HOL-Library.Sublist"
begin

section \<open>The bytes of a tunnel\<close>

text \<open>
  Whatever the order in which reply parts arrive, and however often, the TLS session sees a prefix of the upstream's stream: the
  longest one the parts cover, as long as the session does not refuse bytes.
\<close>

definition part_of :: "bytes \<Rightarrow> int \<Rightarrow> bytes \<Rightarrow> bool" where
  "part_of S off d = (0 \<le> off \<and> nat off + length d \<le> length S \<and> d = take (length d) (drop (nat off) S))"

definition covers :: "(int \<times> bytes) list \<Rightarrow> int \<Rightarrow> bool" where
  "covers parts k = (\<exists>(off, d) \<in> set parts. off \<le> k \<and> k < off + int (length d))"

text \<open>The received parts that reach past the contiguous point are held.\<close>

definition tn_inv :: "bytes \<Rightarrow> (int \<times> bytes) list \<Rightarrow> tunnel_state \<Rightarrow> bool" where
  "tn_inv S parts t = (tn_contiguous t = int (length (tn_delivered t)) \<and> prefix (tn_delivered t) S
     \<and> jsmap_wf (tn_held t) \<and> set (tn_held t) \<subseteq> set parts \<and> (\<forall>(off, d) \<in> set parts. part_of S off d)
     \<and> (\<forall>k. 0 \<le> k \<and> k < tn_contiguous t \<longrightarrow> covers parts k)
     \<and> (\<forall>(off, d) \<in> set parts. off + int (length d) \<le> tn_contiguous t \<or> (\<exists>d'. (off, d') \<in> set (tn_held t) \<and> length d \<le> length d')))"

definition tn_sorted_out :: "tunnel_state \<Rightarrow> bool" where
  "tn_sorted_out t = (\<forall>(off, d) \<in> set (tn_held t). off > tn_contiguous t)"

lemma part_tail:
  assumes "part_of S off d" "off \<le> c" "c < off + int (length d)" "c = int n"
  shows "drop (nat (c - off)) d = take (length d - nat (c - off)) (drop n S)" "n + (length d - nat (c - off)) \<le> length S"
proof -
  have n: "n = nat off + nat (c - off)" using assms unfolding part_of_def by linarith
  have d: "d = take (length d) (drop (nat off) S)" using assms(1) by (simp add: part_of_def)
  show "drop (nat (c - off)) d = take (length d - nat (c - off)) (drop n S)"
    by (subst d) (simp add: drop_take n add.commute)
  show "n + (length d - nat (c - off)) \<le> length S" using assms n unfolding part_of_def by linarith
qed

lemma prefix_extend:
  assumes "prefix xs S" "n = length xs" "n + m \<le> length S"
  shows "prefix (xs @ take m (drop n S)) S"
proof -
  have "xs = take n S" using assms(1,2) by (auto simp: prefix_def)
  then have "xs @ take m (drop n S) = take (n + m) S" by (simp add: take_add)
  then show ?thesis by (metis take_is_prefix)
qed

text \<open>The tail of a part that reaches past the contiguous point is delivered.\<close>

lemma push_tail:
  assumes "tn_inv S parts t" "(off, d) \<in> set parts" "off \<le> tn_contiguous t" "tn_contiguous t < off + int (length d)"
    "tn_push sink (drop (nat (tn_contiguous t - off)) d) t1 = (t2, q)" "tn_contiguous t1 = tn_contiguous t" "tn_delivered t1 = tn_delivered t"
  shows "tn_contiguous t2 = off + int (length d)" "tn_contiguous t2 = int (length (tn_delivered t2))" "prefix (tn_delivered t2) S"
    "tn_held t2 = tn_held t1"
proof -
  let ?n = "length (tn_delivered t)" and ?tail = "drop (nat (tn_contiguous t - off)) d"
  have c: "tn_contiguous t = int ?n" and pre: "prefix (tn_delivered t) S" using assms(1) by (simp_all add: tn_inv_def)
  have part: "part_of S off d" using assms(1,2) unfolding tn_inv_def by blast
  note tail = part_tail[OF part assms(3,4) c]
  have lt: "nat (tn_contiguous t - off) < length d" using assms(3,4) by linarith
  then have ne: "?tail \<noteq> []" by simp
  have len: "int (length ?tail) = off + int (length d) - tn_contiguous t" using assms(3) lt by simp
  have t2: "t2 = t1\<lparr>tn_contiguous := tn_contiguous t + int (length ?tail), tn_delivered := tn_delivered t @ ?tail\<rparr>"
    using assms(5-7) ne by (simp add: tn_push_def)
  show "tn_contiguous t2 = off + int (length d)" using len t2 by simp
  show "tn_contiguous t2 = int (length (tn_delivered t2))" using c t2 by simp
  show "prefix (tn_delivered t2) S" using prefix_extend[OF pre refl tail(2)] tail(1) t2 by simp
  show "tn_held t2 = tn_held t1" using t2 by simp
qed

lemma covers_more:
  assumes "k < c \<Longrightarrow> covers parts k" "(off, d) \<in> set parts" "off \<le> c" "k < off + int (length d)"
  shows "covers parts k"
proof (cases "k < c")
  case False
  then have "off \<le> k" using assms(3) by simp
  then show ?thesis using assms(2,4) unfolding covers_def by blast
qed (rule assms(1))

lemma held_step:
  assumes inv: "tn_inv S parts t" and mem: "(off, d) \<in> set (tn_held t)" "off \<le> tn_contiguous t"
    and step: "(if off + int (length d) > tn_contiguous t1 then tn_push sink (drop (nat (tn_contiguous t1 - off)) d) t1 else (t1, Inr ())) = (t2, q)"
    and t1: "t1 = t\<lparr>tn_held := jsmap_delete off (tn_held t)\<rparr>"
  shows "tn_inv S parts t2" "tn_held t2 = jsmap_delete off (tn_held t)"
proof -
  have part: "(off, d) \<in> set parts" using inv mem(1) unfolding tn_inv_def by blast
  have t2: "tn_contiguous t2 = max (tn_contiguous t) (off + int (length d)) \<and> tn_contiguous t2 = int (length (tn_delivered t2))
      \<and> prefix (tn_delivered t2) S \<and> tn_held t2 = tn_held t1"
  proof (cases "off + int (length d) > tn_contiguous t")
    case True
    then have "tn_push sink (drop (nat (tn_contiguous t - off)) d) t1 = (t2, q)" using step t1 by simp
    from push_tail[OF inv part mem(2) True this] show ?thesis using True t1 by simp
  next
    case False
    then show ?thesis using step t1 inv by (auto simp: tn_inv_def)
  qed
  then show held: "tn_held t2 = jsmap_delete off (tn_held t)" using t1 by simp
  have wf: "jsmap_wf (tn_held t)" using inv by (simp add: tn_inv_def)
  have cov: "covers parts k" if k: "0 \<le> k" "k < tn_contiguous t2" for k
  proof (cases "k < tn_contiguous t")
    case True
    then show ?thesis using inv k unfolding tn_inv_def by blast
  next
    case False
    then have "k < off + int (length d)" using k t2 by linarith
    then show ?thesis using covers_more[OF _ part mem(2)] False by blast
  qed
  have kept: "o' + int (length d') \<le> tn_contiguous t2 \<or> (\<exists>y. (o', y) \<in> set (tn_held t2) \<and> length d' \<le> length y)"
    if "(o', d') \<in> set parts" for o' d'
  proof -
    from inv that consider "o' + int (length d') \<le> tn_contiguous t" | y where "(o', y) \<in> set (tn_held t)" "length d' \<le> length y"
      unfolding tn_inv_def by blast
    then show ?thesis
    proof cases
      case 2
      show ?thesis
      proof (cases "o' = off")
        case True
        then have "y = d" using 2(1) mem(1) wf jsmap_get_iff[OF wf] by (metis option.inject)
        then show ?thesis using True 2(2) t2 by auto
      next
        case False
        then show ?thesis using 2 held by (auto simp: set_jsmap_delete)
      qed
    qed (use t2 in auto)
  qed
  have "set (tn_held t2) \<subseteq> set parts" using inv held by (auto simp: set_jsmap_delete tn_inv_def)
  moreover have "\<forall>(o', d') \<in> set parts. part_of S o' d'" using inv by (simp add: tn_inv_def)
  moreover have "\<forall>(o', d') \<in> set parts. o' + int (length d') \<le> tn_contiguous t2
      \<or> (\<exists>y. (o', y) \<in> set (tn_held t2) \<and> length d' \<le> length y)" using kept by blast
  ultimately show "tn_inv S parts t2" using t2 cov jsmap_wf_delete[OF wf, of off] held by (simp add: tn_inv_def)
qed

lemma held_pass_inv:
  "tn_inv S parts t \<Longrightarrow> set es \<subseteq> set (tn_held t) \<Longrightarrow> distinct (map fst es) \<Longrightarrow> held_pass sink es adv t = (t', r) \<Longrightarrow> tn_inv S parts t'"
proof (induction es arbitrary: adv t)
  case (Cons e es)
  obtain off d where e: "e = (off, d)" by fastforce
  show ?case
  proof (cases "off > tn_contiguous t")
    case False
    let ?t1 = "t\<lparr>tn_held := jsmap_delete off (tn_held t)\<rparr>"
    obtain t2 q where step: "(if off + int (length d) > tn_contiguous ?t1
        then tn_push sink (drop (nat (tn_contiguous ?t1 - off)) d) ?t1 else (?t1, Inr ())) = (t2, q)" by fastforce
    have mem: "(off, d) \<in> set (tn_held t)" using Cons.prems(2) e by auto
    note step2 = held_step[OF Cons.prems(1) mem _ step refl]
    have inv2: "tn_inv S parts t2" and held2: "tn_held t2 = jsmap_delete off (tn_held t)" using step2 False by simp_all
    have rest: "set es \<subseteq> set (tn_held t2)" unfolding held2 set_jsmap_delete
    proof
      fix x assume x: "x \<in> set es"
      then have "fst x \<noteq> off" using Cons.prems(3) e by auto
      then show "x \<in> {(k', v). (k', v) \<in> set (tn_held t) \<and> k' \<noteq> off}" using x Cons.prems(2) by auto
    qed
    show ?thesis
    proof (cases q)
      case (Inl x)
      then show ?thesis using Cons.prems(4) e False step inv2 by (simp add: Let_def)
    next
      case (Inr u)
      then have "held_pass sink es True t2 = (t', r)" using Cons.prems(4) e False step by (simp add: Let_def)
      then show ?thesis using Cons.IH[OF inv2 rest] Cons.prems(3) by simp
    qed
  qed (use Cons e in auto)
qed simp

lemma advanced_stays: "held_pass sink es True t \<noteq> (t', Inr False)"
proof (induction es arbitrary: t)
  case (Cons e es)
  show ?case using Cons by (cases e) (auto simp: Let_def split: prod.split sum.split)
qed simp

lemma held_pass_idle: "held_pass sink es False t = (t', Inr False) \<Longrightarrow> t' = t \<and> (\<forall>(off, d) \<in> set es. off > tn_contiguous t)"
proof (induction es)
  case (Cons e es)
  obtain off d where e: "e = (off, d)" by fastforce
  show ?case
  proof (cases "off > tn_contiguous t")
    case False
    then show ?thesis using Cons.prems e advanced_stays by (auto simp: Let_def split: prod.splits sum.splits)
  qed (use Cons e in auto)
qed simp

lemma drain_held_inv:
  "tn_inv S parts t \<Longrightarrow> drain_held sink t = (t', r) \<Longrightarrow> tn_inv S parts t' \<and> (r = Inr () \<longrightarrow> tn_sorted_out t')"
proof (induction sink t rule: drain_held.induct)
  case (1 sink t)
  obtain t1 q where pass: "held_pass sink (tn_held t) False t = (t1, q)" by fastforce
  have "distinct (map fst (tn_held t))" using 1(2) by (simp add: tn_inv_def jsmap_wf_def)
  note inv1 = held_pass_inv[OF 1(2) subset_refl this pass]
  show ?case
  proof (cases q)
    case (Inl e)
    then show ?thesis using 1(3) pass inv1 by (subst (asm) drain_held.simps) auto
  next
    case (Inr adv)
    show ?thesis
    proof (cases adv)
      case True
      have "drain_held sink t1 = (t', r)" using 1(3) pass Inr True by (subst (asm) drain_held.simps) simp
      from 1(1)[OF pass[symmetric] Inr True inv1 this] show ?thesis .
    next
      case False
      then have "t' = t1" using 1(3) pass Inr by (subst (asm) drain_held.simps) simp
      then show ?thesis using inv1 held_pass_idle[of sink "tn_held t" t t1] pass Inr False by (auto simp: tn_sorted_out_def)
    qed
  qed
qed


lemma inv_add:
  assumes "tn_inv S parts t" "part_of S off d" "tn_contiguous t' = tn_contiguous t" "tn_delivered t' = tn_delivered t"
    "jsmap_wf (tn_held t')" "set (tn_held t') \<subseteq> set (parts @ [(off, d)])"
    "\<And>o' y. (o', y) \<in> set (tn_held t) \<Longrightarrow> \<exists>y'. (o', y') \<in> set (tn_held t') \<and> length y \<le> length y'"
    "off + int (length d) \<le> tn_contiguous t \<or> (\<exists>d'. (off, d') \<in> set (tn_held t') \<and> length d \<le> length d')"
  shows "tn_inv S (parts @ [(off, d)]) t'"
proof -
  have "o' + int (length d') \<le> tn_contiguous t' \<or> (\<exists>y. (o', y) \<in> set (tn_held t') \<and> length d' \<le> length y)"
    if "(o', d') \<in> set parts" for o' d'
  proof -
    from assms(1) that consider "o' + int (length d') \<le> tn_contiguous t" | y where "(o', y) \<in> set (tn_held t)" "length d' \<le> length y"
      unfolding tn_inv_def by blast
    then show ?thesis
    proof cases
      case 2
      then show ?thesis using assms(7)[OF 2(1)] by fastforce
    qed (use assms(3) in simp)
  qed
  then have "\<forall>(o', d') \<in> set (parts @ [(off, d)]). o' + int (length d') \<le> tn_contiguous t'
      \<or> (\<exists>y. (o', y) \<in> set (tn_held t') \<and> length d' \<le> length y)" using assms(3,8) by auto
  moreover have "covers (parts @ [(off, d)]) k" if "0 \<le> k" "k < tn_contiguous t" for k
    using assms(1) that by (force simp: tn_inv_def covers_def)
  moreover have "\<forall>(o', d') \<in> set (parts @ [(off, d)]). part_of S o' d'" using assms(1,2) by (auto simp: tn_inv_def)
  ultimately show ?thesis using assms by (simp add: tn_inv_def)
qed

lemma tn_accept_inv:
  assumes inv: "tn_inv S parts t" and sorted: "tn_sorted_out t" and part: "part_of S off d" and acc: "tn_accept sink off d t = (t', r)"
  shows "tn_inv S (parts @ [(off, d)]) t' \<and> (r = Inr () \<longrightarrow> tn_sorted_out t')"
proof -
  have wf: "jsmap_wf (tn_held t)" and sub: "set (tn_held t) \<subseteq> set parts" using inv by (simp_all add: tn_inv_def)
  consider (old) "off + int (length d) \<le> tn_contiguous t" | (gap) "off > tn_contiguous t"
    | (next_part) "off \<le> tn_contiguous t" "tn_contiguous t < off + int (length d)" by linarith
  then show ?thesis
  proof cases
    case old
    then have "t' = t" using acc by (simp add: tn_accept_def)
    then show ?thesis using inv_add[OF inv part refl refl wf] sub old sorted by auto
  next
    case gap
    show ?thesis
    proof (cases "case jsmap_get (tn_held t) off of None \<Rightarrow> True | Some existing \<Rightarrow> length existing < length d")
      case True
      then have t': "t' = t\<lparr>tn_held := jsmap_set off d (tn_held t)\<rparr>" "r = Inr ()" using acc gap by (auto simp: tn_accept_def)
      have "\<exists>y'. (o', y') \<in> set (tn_held t') \<and> length y \<le> length y'" if "(o', y) \<in> set (tn_held t)" for o' y
      proof (cases "o' = off")
        case o: True
        then have "length y \<le> length d" using True that wf jsmap_get_iff[OF wf, of off y] by simp
        then show ?thesis using o t' wf by (auto simp: set_jsmap_set)
      next
        case False
        then show ?thesis using that t' wf by (auto simp: set_jsmap_set)
      qed
      then have "tn_inv S (parts @ [(off, d)]) t'"
        using inv_add[OF inv part, of t'] t' wf sub by (auto simp: set_jsmap_set jsmap_wf_set)
      moreover have "tn_sorted_out t'" using t' sorted gap wf by (auto simp: tn_sorted_out_def set_jsmap_set)
      ultimately show ?thesis by simp
    next
      case False
      then obtain y where "jsmap_get (tn_held t) off = Some y" "length d \<le> length y" by (auto split: option.splits)
      then have "(off, y) \<in> set (tn_held t)" "length d \<le> length y" by (simp_all add: jsmap_get_Some_in)
      moreover have "t' = t" "r = Inr ()" using acc gap False by (simp_all add: tn_accept_def)
      ultimately show ?thesis using inv_add[OF inv part refl refl wf] sub sorted by auto
    qed
  next
    case next_part
    let ?t0 = "t\<lparr>tn_held := jsmap_set off d (tn_held t)\<rparr>"
    have "jsmap_get (tn_held t) off = None" using sorted next_part(1) jsmap_get_Some_in[of "tn_held t" off]
      unfolding tn_sorted_out_def by (cases "jsmap_get (tn_held t) off") fastforce+
    then have fresh: "off \<notin> set (jsmap_keys (tn_held t))" by (simp add: jsmap_get_None_iff)
    have set0: "set (tn_held ?t0) = insert (off, d) (set (tn_held t))" using fresh wf by (force simp: set_jsmap_set)
    have inv0: "tn_inv S (parts @ [(off, d)]) ?t0"
      using inv_add[OF inv part, of ?t0] set0 sub by (auto simp: jsmap_wf_set[OF wf])
    obtain t1 q where push: "tn_push sink (drop (nat (tn_contiguous t - off)) d) t = (t1, q)" by fastforce
    have del0: "jsmap_delete off (jsmap_set off d (tn_held t)) = tn_held t"
      using fresh by (simp add: jsmap_delete_set jsmap_delete_absent)
    have "(if off + int (length d) > tn_contiguous t then tn_push sink (drop (nat (tn_contiguous t - off)) d) t else (t, Inr ())) = (t1, q)"
      using push next_part by simp
    then have inv1: "tn_inv S (parts @ [(off, d)]) t1"
      using held_step(1)[OF inv0, of off d t sink t1 q] set0 next_part del0 by simp
    show ?thesis
    proof (cases q)
      case (Inl e)
      then show ?thesis using acc next_part push inv1 by (auto simp: tn_accept_def)
    next
      case (Inr u)
      then have "drain_held sink t1 = (t', r)" using acc next_part push by (simp add: tn_accept_def)
      from drain_held_inv[OF inv1 this] show ?thesis .
    qed
  qed
qed

subsection \<open>Any sequence of parts\<close>

text \<open>Parts are accepted until the TLS session throws, which ends the exchange.\<close>

fun accept_all :: "tls_sink \<Rightarrow> (int \<times> bytes) list \<Rightarrow> tunnel_state \<Rightarrow> tunnel_state \<times> unit result" where
  "accept_all sink [] t = (t, Inr ())"
| "accept_all sink ((off, d) # ps) t =
     (case tn_accept sink off d t of (t1, Inl e) \<Rightarrow> (t1, Inl e) | (t1, Inr _) \<Rightarrow> accept_all sink ps t1)"

lemma accept_all_inv:
  "tn_inv S parts t \<Longrightarrow> tn_sorted_out t \<Longrightarrow> \<forall>(off, d) \<in> set ps. part_of S off d \<Longrightarrow> accept_all sink ps t = (t', r) \<Longrightarrow>
   \<exists>qs. prefix qs ps \<and> tn_inv S (parts @ qs) t' \<and> (r = Inr () \<longrightarrow> qs = ps \<and> tn_sorted_out t')"
proof (induction ps arbitrary: parts t)
  case (Cons p ps)
  obtain off d where p: "p = (off, d)" by fastforce
  obtain t1 q where acc: "tn_accept sink off d t = (t1, q)" by fastforce
  have part: "part_of S off d" using Cons.prems(3) p by simp
  note one = tn_accept_inv[OF Cons.prems(1,2) part acc]
  show ?case
  proof (cases q)
    case (Inl e)
    then show ?thesis using Cons.prems(4) p acc one by (intro exI[of _ "[p]"]) auto
  next
    case (Inr u)
    then have rest: "accept_all sink ps t1 = (t', r)" using Cons.prems(4) p acc by simp
    have sorted1: "tn_sorted_out t1" using one Inr by simp
    from Cons.IH[OF conjunct1[OF one] sorted1 _ rest] Cons.prems(3) obtain qs where
      "prefix qs ps" "tn_inv S ((parts @ [(off, d)]) @ qs) t'" "r = Inr () \<longrightarrow> qs = ps \<and> tn_sorted_out t'" by auto
    then show ?thesis using p by (intro exI[of _ "p # qs"]) auto
  qed
qed (auto intro: exI[of _ "[]"])

text \<open>What has been delivered is all that the parts cover without a gap.\<close>

lemma sorted_out_covers:
  assumes "tn_inv S parts t" "tn_sorted_out t"
  shows "\<not> covers parts (tn_contiguous t)"
proof
  assume "covers parts (tn_contiguous t)"
  then obtain off d where p: "(off, d) \<in> set parts" "off \<le> tn_contiguous t" "tn_contiguous t < off + int (length d)" by (auto simp: covers_def)
  then obtain y where "(off, y) \<in> set (tn_held t)" using assms(1) unfolding tn_inv_def by fastforce
  then show False using assms(2) p(2) unfolding tn_sorted_out_def by fastforce
qed

lemma new_tunnel_inv: "tn_inv S [] (new_tunnel tid host port)" "tn_sorted_out (new_tunnel tid host port)"
  by (auto simp: tn_inv_def tn_sorted_out_def new_tunnel_def)

text \<open>
  A tunnel puts its bytes back in order. Reply parts of the upstream's stream arrive in any order, overlapping, repeated: whatever the TLS
  session does, the bytes handed to it are a prefix of the stream, and their number is the point the next request acknowledges. As long as
  the session refuses nothing, they are the longest prefix that the parts cover without a gap, and only parts beyond the gap are held.
\<close>

theorem tunnel_bytes_in_order:
  assumes "\<forall>(off, d) \<in> set parts. part_of S off d" "accept_all sink parts (new_tunnel tid host port) = (t, r)"
  shows "prefix (tn_delivered t) S \<and> tn_contiguous t = int (length (tn_delivered t))
    \<and> (r = Inr () \<longrightarrow> (\<forall>k. 0 \<le> k \<and> k < tn_contiguous t \<longrightarrow> covers parts k) \<and> \<not> covers parts (tn_contiguous t)
         \<and> (\<forall>off d. (off, d) \<in> set (tn_held t) \<longrightarrow> (off, d) \<in> set parts \<and> tn_contiguous t < off))"
proof -
  from accept_all_inv[OF new_tunnel_inv assms] obtain qs where
    inv: "tn_inv S qs t" and full: "r = Inr () \<longrightarrow> qs = parts \<and> tn_sorted_out t" by auto
  have "prefix (tn_delivered t) S \<and> tn_contiguous t = int (length (tn_delivered t))" using inv by (simp add: tn_inv_def)
  moreover have "\<forall>k. 0 \<le> k \<and> k < tn_contiguous t \<longrightarrow> covers parts k" if "r = Inr ()"
    using inv full that unfolding tn_inv_def by blast
  moreover have "\<forall>off d. (off, d) \<in> set (tn_held t) \<longrightarrow> (off, d) \<in> set parts \<and> tn_contiguous t < off" if "r = Inr ()"
    using inv full that unfolding tn_inv_def tn_sorted_out_def by blast
  ultimately show ?thesis using sorted_out_covers[of S qs t] inv full by blast
qed

theorem tunnel_bytes_in_order_witness:
  "tn_delivered (fst (accept_all (\<lambda>_ _. Inr ()) [(4, [5, 6]), (2, [3, 4, 5]), (2, [3, 4]), (0, [1, 2, 3])] (new_tunnel [] [] 443))) = [1, 2, 3, 4, 5, 6]
   \<and> prefix [1, 2, 3, 4, 5, 6] [1, 2, 3, 4, 5, 6, 7 :: byte]"
proof -
  let ?parts = "[(4, [5, 6]), (2, [3, 4, 5]), (2, [3, 4]), (0, [1, 2, 3 :: byte])]"
  let ?run = "accept_all (\<lambda>_ _. Inr ()) ?parts (new_tunnel [] [] 443)"
  have parts: "\<forall>(off, d) \<in> set ?parts. part_of [1, 2, 3, 4, 5, 6, 7] off d" by (simp add: part_of_def)
  have "tn_delivered (fst ?run) = [1, 2, 3, 4, 5, 6]" by code_simp
  then show ?thesis using tunnel_bytes_in_order[OF parts prod.collapse[symmetric]] by metis
qed

end
