(* ===== verification/Tunnel_Exchange.thy ===== *)
theory Tunnel_Exchange
  imports Tunnel_Stream
begin

section \<open>Exchanges over a tunnel\<close>

text \<open>
  \<open>Tunnel.exchange\<close> and \<open>Tunnel.teardown\<close> of \<open>packages/anon-rpc-worker/src/tls/tunnel.ts\<close>. An exchange is the record of the
  variables its closures share; a timer is armed or not, and fires as an event. Each event carries the clock and the port that would send a
  copy. The delays themselves (\<open>copyAfterMs\<close>, \<open>gapMs\<close>) only say when an event may happen and are left out.
\<close>

definition MAX_HOLD_MS :: int where
  "MAX_HOLD_MS = 30000"

definition MIN_HOLD_MS :: int where
  "MIN_HOLD_MS = 1000"

definition REPLY_GRACE_MS :: int where
  "REPLY_GRACE_MS = 5000"

datatype tunnel_error =
    RejectedError tunnel_reject_code bool int bool js_string
  | OpenTimeoutError int
  | ExchangeTimeoutError int bool
  | TunnelProtocolError
  | AbortReason
  | Thrown nox_error

datatype exchange_outcome = Satisfied | UpstreamEof

record exchange_spec =
  es_data :: bytes
  es_surbs :: nat
  es_close :: bool
  es_deadlineAt :: int
  es_background :: bool
  es_openTimeoutMs :: "int option"

record exchange =
  ex_base :: tunnel_request
  ex_spec :: exchange_spec
  ex_maxCopies :: nat
  ex_settled :: bool
  ex_confirmed :: bool
  ex_copiesSent :: nat
  ex_timedCopies :: nat
  ex_lastRoute :: "(string \<times> string) option"
  ex_silence :: bool
  ex_gap :: bool
  ex_open :: bool
  ex_deadline :: bool

datatype tunnel_effect =
    CopySent tunnel_request nat int "string list" bool "string \<times> string"
  | ExchangeDone exchange_outcome
  | ExchangeFailed tunnel_error

text \<open>The port gets the request and the nodes to avoid, and answers with the entry and mix it used, or throws.\<close>

type_synonym tunnel_port = "tunnel_request \<Rightarrow> string list \<Rightarrow> (string \<times> string) result"

abbreviation ex_seq :: "exchange \<Rightarrow> int" where
  "ex_seq e \<equiv> tun_seq (ex_base e)"

definition ex_finish :: "tunnel_effect \<Rightarrow> exchange \<Rightarrow> exchange \<times> tunnel_effect list" where
  "ex_finish outcome e =
     (if ex_settled e then (e, [])
      else (e\<lparr>ex_settled := True, ex_silence := False, ex_gap := False, ex_open := False, ex_deadline := False\<rparr>, [outcome]))"

definition hold_for :: "int \<Rightarrow> int" where
  "hold_for remaining = max MIN_HOLD_MS (min MAX_HOLD_MS remaining)"

definition ex_avoid :: "exchange \<Rightarrow> string list" where
  "ex_avoid e = (case ex_lastRoute e of None \<Rightarrow> [] | Some (entryId, mixId) \<Rightarrow> if entryId = mixId then [entryId] else [entryId, mixId])"

definition ex_send :: "int \<Rightarrow> tunnel_port \<Rightarrow> int \<Rightarrow> exchange \<Rightarrow> exchange \<times> tunnel_effect list" where
  "ex_send now port contiguous e =
     (if ex_settled e then (e, [])
      else if es_deadlineAt (ex_spec e) - now \<le> 0 then ex_finish (ExchangeFailed (ExchangeTimeoutError (ex_seq e) (ex_confirmed e))) e
      else
        (let hold = hold_for (es_deadlineAt (ex_spec e) - now);
             request = (ex_base e)\<lparr>ackOffset := contiguous, holdMs := hold\<rparr>;
             avoid = ex_avoid e in
         case port request avoid of
           Inl err \<Rightarrow> ex_finish (ExchangeFailed (Thrown err)) e
         | Inr route \<Rightarrow>
             (e\<lparr>ex_copiesSent := ex_copiesSent e + 1, ex_lastRoute := Some route, ex_silence := True\<rparr>,
              [CopySent request (es_surbs (ex_spec e)) (hold + REPLY_GRACE_MS) avoid (es_background (ex_spec e)) route])))"

definition ex_timedCopy :: "int \<Rightarrow> tunnel_port \<Rightarrow> int \<Rightarrow> exchange \<Rightarrow> exchange \<times> tunnel_effect list" where
  "ex_timedCopy now port contiguous e =
     (if ex_settled e then (e, [])
      else if ex_timedCopies e \<ge> ex_maxCopies e then (e, [])
      else ex_send now port contiguous (e\<lparr>ex_timedCopies := ex_timedCopies e + 1\<rparr>))"

definition note_fin :: "tunnel_fin option \<Rightarrow> int \<Rightarrow> tunnel_state \<Rightarrow> tunnel_state" where
  "note_fin fin offsetEnd t =
     (let t1 = (if fin = Some Eof \<and> tn_eofAt t = None then t\<lparr>tn_eofAt := Some offsetEnd\<rparr> else t) in
      case tn_eofAt t1 of None \<Rightarrow> t1 | Some eofAt \<Rightarrow> if tn_contiguous t1 \<ge> eofAt then t1\<lparr>tn_ended := True\<rparr> else t1)"

definition onData ::
  "tls_sink \<Rightarrow> (bytes \<Rightarrow> bool) \<Rightarrow> int \<Rightarrow> tunnel_port \<Rightarrow> int \<Rightarrow> bytes \<Rightarrow> tunnel_fin option \<Rightarrow> tunnel_state \<times> exchange
     \<Rightarrow> (tunnel_state \<times> exchange) \<times> tunnel_effect list" where
  "onData sink satisfied now port offset part fin st =
     (case st of (t, e) \<Rightarrow>
       (case tn_accept sink offset part t of
          (t1, Inl err) \<Rightarrow> (let (e1, out) = ex_finish (ExchangeFailed (Thrown err)) e in ((t1, e1), out))
        | (t1, Inr _) \<Rightarrow>
            (let t2 = note_fin fin (offset + int (length part)) t1 in
             if satisfied (tn_delivered t2) then (let (e1, out) = ex_finish (ExchangeDone Satisfied) e in ((t2, e1), out))
             else if tn_ended t2 then (let (e1, out) = ex_finish (ExchangeDone UpstreamEof) e in ((t2, e1), out))
             else
               (let e1 = e\<lparr>ex_gap := (tn_held t2 \<noteq> [])\<rparr> in
                if fin = Some NeedSurbs \<or> fin = Some Expired then (let (e2, out) = ex_send now port (tn_contiguous t2) e1 in ((t2, e2), out))
                else ((t2, e1\<lparr>ex_silence := True\<rparr>), [])))))"

definition onPart ::
  "tls_sink \<Rightarrow> (bytes \<Rightarrow> bool) \<Rightarrow> int \<Rightarrow> tunnel_port \<Rightarrow> bytes \<Rightarrow> tunnel_state \<times> exchange
     \<Rightarrow> (tunnel_state \<times> exchange) \<times> tunnel_effect list" where
  "onPart sink satisfied now port body st =
     (case st of (t, e) \<Rightarrow>
       if ex_settled e then (st, [])
       else
         (case decodeTunnelReplyV1 body of
            Inl _ \<Rightarrow> (let (e1, out) = ex_finish (ExchangeFailed TunnelProtocolError) e in ((t, e1), out))
          | Inr (TunnelRejected s code retryable detail) \<Rightarrow>
              if s \<noteq> ex_seq e then (st, [])
              else
                (let (e1, out) = ex_finish (ExchangeFailed (RejectedError code retryable s (ex_copiesSent e = 1) detail))
                       (e\<lparr>ex_confirmed := True, ex_open := False\<rparr>) in ((t, e1), out))
          | Inr (TunnelData s offset part fin) \<Rightarrow>
              if s \<noteq> ex_seq e then (st, [])
              else onData sink satisfied now port offset part fin (t, e\<lparr>ex_confirmed := True, ex_open := False\<rparr>)))"

datatype exchange_event =
    PartArrives "bytes \<Rightarrow> bool" int tunnel_port bytes
  | SilenceFires int tunnel_port
  | GapFires int tunnel_port
  | OpenFires
  | DeadlineFires
  | AbortFires
  | UploadFailed int tunnel_port

definition with_tunnel :: "tunnel_state \<Rightarrow> exchange \<times> tunnel_effect list \<Rightarrow> (tunnel_state \<times> exchange) \<times> tunnel_effect list" where
  "with_tunnel t r = (case r of (e, out) \<Rightarrow> ((t, e), out))"

fun exchange_step :: "tls_sink \<Rightarrow> exchange_event \<Rightarrow> tunnel_state \<times> exchange \<Rightarrow> (tunnel_state \<times> exchange) \<times> tunnel_effect list" where
  "exchange_step sink (PartArrives satisfied now port body) (t, e) = onPart sink satisfied now port body (t, e)"
| "exchange_step sink (SilenceFires now port) (t, e) =
     (if ex_silence e then with_tunnel t (ex_timedCopy now port (tn_contiguous t) (e\<lparr>ex_silence := False\<rparr>)) else ((t, e), []))"
| "exchange_step sink (GapFires now port) (t, e) =
     (if \<not> ex_gap e then ((t, e), [])
      else if tn_held t = [] then ((t, e\<lparr>ex_gap := False\<rparr>), [])
      else with_tunnel t (ex_timedCopy now port (tn_contiguous t) (e\<lparr>ex_gap := False\<rparr>)))"
| "exchange_step sink OpenFires (t, e) =
     (if \<not> ex_open e then ((t, e), [])
      else if ex_confirmed e then ((t, e\<lparr>ex_open := False\<rparr>), [])
      else with_tunnel t (ex_finish (ExchangeFailed (OpenTimeoutError (case es_openTimeoutMs (ex_spec e) of Some ms \<Rightarrow> ms | None \<Rightarrow> 0))) e))"
| "exchange_step sink DeadlineFires (t, e) =
     (if ex_deadline e then with_tunnel t (ex_finish (ExchangeFailed (ExchangeTimeoutError (ex_seq e) (ex_confirmed e))) e) else ((t, e), []))"
| "exchange_step sink AbortFires (t, e) = with_tunnel t (ex_finish (ExchangeFailed AbortReason) e)"
| "exchange_step sink (UploadFailed now port) (t, e) =
     (if ex_settled e \<or> ex_confirmed e then ((t, e), []) else with_tunnel t (ex_timedCopy now port (tn_contiguous t) e))"

fun exchange_run :: "tls_sink \<Rightarrow> exchange_event list \<Rightarrow> tunnel_state \<times> exchange \<Rightarrow> (tunnel_state \<times> exchange) \<times> tunnel_effect list" where
  "exchange_run sink [] st = (st, [])"
| "exchange_run sink (ev # evs) st =
     (let (st1, out1) = exchange_step sink ev st; (st2, out2) = exchange_run sink evs st1 in (st2, out1 @ out2))"

definition base_request :: "tunnel_state \<Rightarrow> exchange_spec \<Rightarrow> tunnel_request" where
  "base_request t spec =
     \<lparr>tunnelId = tn_id t, tun_seq = tn_nextSeq t,
      tun_open = (if tn_nextSeq t = 0 then Some \<lparr>open_host = tn_host t, open_port = tn_tcpPort t\<rparr> else None),
      ackOffset = 0, tun_data = es_data spec, tun_close = es_close spec, holdMs = 0\<rparr>"

definition new_exchange :: "tunnel_state \<Rightarrow> exchange_spec \<Rightarrow> nat \<Rightarrow> exchange" where
  "new_exchange t spec maxCopies =
     \<lparr>ex_base = base_request t spec, ex_spec = spec, ex_maxCopies = maxCopies, ex_settled = False, ex_confirmed = False, ex_copiesSent = 0,
      ex_timedCopies = 0, ex_lastRoute = None, ex_silence = False, ex_gap = False, ex_open = False, ex_deadline = True\<rparr>"

definition exchange_start ::
  "nat \<Rightarrow> exchange_spec \<Rightarrow> bool \<Rightarrow> int \<Rightarrow> tunnel_port \<Rightarrow> tunnel_state \<Rightarrow> (tunnel_state \<times> exchange) \<times> tunnel_effect list" where
  "exchange_start maxCopies spec aborted now port t =
     (let t1 = t\<lparr>tn_nextSeq := tn_nextSeq t + 1\<rparr>;
          e = new_exchange t spec maxCopies in
      if aborted then with_tunnel t1 (ex_finish (ExchangeFailed AbortReason) e)
      else with_tunnel t1 (ex_send now port (tn_contiguous t1) (e\<lparr>ex_open := (es_openTimeoutMs spec \<noteq> None)\<rparr>)))"

definition tunnel_teardown :: "bytes \<Rightarrow> int \<Rightarrow> int \<Rightarrow> tunnel_port \<Rightarrow> tunnel_state \<Rightarrow> tunnel_state \<times> tunnel_effect list \<times> unit result" where
  "tunnel_teardown d deadlineAt now port t =
     (let hold = hold_for (deadlineAt - now);
          request = \<lparr>tunnelId = tn_id t, tun_seq = tn_nextSeq t, tun_open = None, ackOffset = tn_contiguous t, tun_data = d,
            tun_close = True, holdMs = hold\<rparr>;
          t1 = t\<lparr>tn_nextSeq := tn_nextSeq t + 1\<rparr> in
      case port request [] of
        Inl err \<Rightarrow> (t1, [], Inl err)
      | Inr route \<Rightarrow> (t1, [CopySent request 0 hold [] True route], Inr ()))"

end
