(* ===== verification/Tunnel_Safety.thy ===== *)
theory Tunnel_Safety
  imports Tunnel_Exchange
begin

section \<open>What a tunnel exchange guarantees\<close>

text \<open>
  Facts about any order of events of an exchange: it settles once and by its deadline, its copies carry the same bytes and are
  bounded in number, a refusal that names a sole copy is right, and an exchange that ends with the upstream's stream delivered all of it.
\<close>

subsection \<open>Copies and settling\<close>

definition is_copy :: "tunnel_effect \<Rightarrow> bool" where
  "is_copy x = (case x of CopySent _ _ _ _ _ _ \<Rightarrow> True | _ \<Rightarrow> False)"

definition is_settling :: "tunnel_effect \<Rightarrow> bool" where
  "is_settling x = (\<not> is_copy x)"

definition copies :: "tunnel_effect list \<Rightarrow> nat" where
  "copies out = length (filter is_copy out)"

definition settlings :: "tunnel_effect list \<Rightarrow> nat" where
  "settlings out = length (filter is_settling out)"

lemma effect_simps [simp]:
  "is_copy (CopySent r n ms av bg rt)" "\<not> is_copy (ExchangeDone oc)" "\<not> is_copy (ExchangeFailed err)"
  "copies [] = 0" "copies (x # out) = (if is_copy x then 1 else 0) + copies out" "copies (a @ b) = copies a + copies b"
  "settlings [] = 0" "settlings (x # out) = (if is_copy x then 0 else 1) + settlings out" "settlings (a @ b) = settlings a + settlings b"
  by (simp_all add: is_copy_def copies_def settlings_def is_settling_def)

text \<open>A copy of the exchange: the request of the exchange itself, acknowledging \<open>n\<close> bytes.\<close>

definition copy_of :: "exchange \<Rightarrow> tunnel_effect \<Rightarrow> bool" where
  "copy_of e x = (case x of
     CopySent r n ms av b rt \<Rightarrow> (\<exists>ack hold. r = (ex_base e)\<lparr>ackOffset := ack, holdMs := hold\<rparr> \<and> 1000 \<le> hold \<and> hold \<le> 30000 \<and> ms = hold + 5000)
       \<and> n = es_surbs (ex_spec e) \<and> b = es_background (ex_spec e)
   | ExchangeFailed (RejectedError code retryable s sole detail) \<Rightarrow> s = ex_seq e
   | _ \<Rightarrow> True)"

definition same_exchange :: "exchange \<Rightarrow> exchange \<Rightarrow> bool" where
  "same_exchange e e' = (ex_base e' = ex_base e \<and> ex_spec e' = ex_spec e \<and> ex_maxCopies e' = ex_maxCopies e)"

text \<open>The last copy's route, as the next copy has to avoid it.\<close>

fun last_route :: "(string \<times> string) option \<Rightarrow> tunnel_effect list \<Rightarrow> (string \<times> string) option" where
  "last_route rt [] = rt"
| "last_route rt (CopySent r n ms av b rt' # out) = last_route (Some rt') out"
| "last_route rt (x # out) = last_route rt out"

fun avoids_previous :: "(string \<times> string) option \<Rightarrow> tunnel_effect list \<Rightarrow> bool" where
  "avoids_previous rt [] = True"
| "avoids_previous rt (CopySent r n ms av b rt' # out) =
     (set av = (case rt of None \<Rightarrow> {} | Some (entryId, mixId) \<Rightarrow> {entryId, mixId}) \<and> avoids_previous (Some rt') out)"
| "avoids_previous rt (x # out) = avoids_previous rt out"

lemma last_route_append: "last_route rt (a @ b) = last_route (last_route rt a) b"
  by (induction rt a rule: last_route.induct) auto

lemma avoids_append: "avoids_previous rt (a @ b) = (avoids_previous rt a \<and> avoids_previous (last_route rt a) b)"
  by (induction rt a rule: avoids_previous.induct) auto

text \<open>
  What a step from \<open>e\<close> to \<open>e'\<close> with effects \<open>out\<close> keeps; \<open>asks\<close> is the number of copies the exit asked for, \<open>timed\<close> those a timer may add.
\<close>

definition ex_law :: "nat \<Rightarrow> exchange \<Rightarrow> tunnel_effect list \<Rightarrow> exchange \<Rightarrow> bool" where
  "ex_law asks e out e' = (same_exchange e e' \<and> list_all (copy_of e) out
     \<and> settlings out + (if ex_settled e then 1 else 0) = (if ex_settled e' then 1 else 0)
     \<and> ex_copiesSent e' = ex_copiesSent e + copies out
     \<and> copies out + ex_timedCopies e \<le> ex_timedCopies e' + asks
     \<and> (ex_timedCopies e \<le> ex_maxCopies e \<longrightarrow> ex_timedCopies e' \<le> ex_maxCopies e)
     \<and> ex_lastRoute e' = last_route (ex_lastRoute e) out \<and> avoids_previous (ex_lastRoute e) out
     \<and> ((\<not> ex_settled e \<longrightarrow> ex_deadline e) \<longrightarrow> (\<not> ex_settled e' \<longrightarrow> ex_deadline e'))
     \<and> (ex_settled e \<longrightarrow> out = [] \<and> ex_settled e'))"

lemma ex_law_refl: "ex_law 0 e [] e"
  by (simp add: ex_law_def same_exchange_def)

lemma ex_law_more: "ex_law a e out e' \<Longrightarrow> a \<le> b \<Longrightarrow> ex_law b e out e'"
  by (auto simp: ex_law_def)

lemma copy_of_same: "same_exchange e e' \<Longrightarrow> copy_of e' x = copy_of e x"
  by (auto simp: same_exchange_def copy_of_def split: tunnel_effect.split tunnel_error.split)

lemma ex_law_trans:
  assumes "ex_law a e out e1" "ex_law b e1 out' e2"
  shows "ex_law (a + b) e (out @ out') e2"
proof -
  have same: "same_exchange e e1" using assms(1) by (simp add: ex_law_def)
  then have "list_all (copy_of e1) out' = list_all (copy_of e) out'" by (simp add: copy_of_same list_all_iff)
  moreover have "same_exchange e e2" using assms unfolding ex_law_def same_exchange_def by simp
  moreover have "ex_maxCopies e1 = ex_maxCopies e" using same by (simp add: same_exchange_def)
  ultimately show ?thesis using assms unfolding ex_law_def by (auto simp: last_route_append avoids_append)
qed

text \<open>A change of the armed timers or of \<open>confirmed\<close> only.\<close>

definition flags_only :: "exchange \<Rightarrow> exchange \<Rightarrow> bool" where
  "flags_only e e' = (same_exchange e e' \<and> ex_settled e' = ex_settled e \<and> ex_copiesSent e' = ex_copiesSent e \<and> ex_timedCopies e' = ex_timedCopies e
     \<and> ex_lastRoute e' = ex_lastRoute e \<and> ex_deadline e' = ex_deadline e)"

lemma flags_law: "flags_only e e' \<Longrightarrow> ex_law 0 e [] e'"
  by (simp add: ex_law_def flags_only_def)

lemma finish_law:
  assumes "ex_finish x e = (e', out)" "copy_of e x" "\<not> is_copy x"
  shows "ex_law 0 e out e'"
  using assms by (cases x) (auto simp: ex_finish_def ex_law_def same_exchange_def split: if_splits)

lemma send_law:
  assumes "ex_send now port c e = (e', out)"
  shows "ex_law 1 e out e'"
proof -
  have fin: "ex_law 1 e out e'" if "ex_finish x e = (e', out)" "copy_of e x" "\<not> is_copy x" for x
    using ex_law_more[OF finish_law[OF that]] by simp
  show ?thesis
  proof (cases "ex_settled e \<or> es_deadlineAt (ex_spec e) - now \<le> 0")
    case True
    then show ?thesis using assms fin[of "ExchangeFailed (ExchangeTimeoutError (ex_seq e) (ex_confirmed e))"] ex_law_more[OF ex_law_refl]
      by (auto simp: ex_send_def copy_of_def split: if_splits)
  next
    case False
    let ?h = "hold_for (es_deadlineAt (ex_spec e) - now)" and ?av = "ex_avoid e"
    let ?r = "(ex_base e)\<lparr>ackOffset := c, holdMs := ?h\<rparr>"
    have eq: "(e', out) = (case port ?r ?av of Inl err \<Rightarrow> ex_finish (ExchangeFailed (Thrown err)) e
        | Inr route \<Rightarrow> (e\<lparr>ex_copiesSent := ex_copiesSent e + 1, ex_lastRoute := Some route, ex_silence := True\<rparr>,
            [CopySent ?r (es_surbs (ex_spec e)) (?h + REPLY_GRACE_MS) ?av (es_background (ex_spec e)) route]))"
      using assms False by (simp add: ex_send_def Let_def)
    show ?thesis
    proof (cases "port ?r ?av")
      case (Inl err)
      then show ?thesis using eq[symmetric] fin by (simp add: copy_of_def)
    next
      case (Inr route)
      have hold: "1000 \<le> ?h" "?h \<le> 30000" by (simp_all add: hold_for_def MIN_HOLD_MS_def MAX_HOLD_MS_def)
      have "copy_of e (CopySent ?r (es_surbs (ex_spec e)) (?h + REPLY_GRACE_MS) ?av (es_background (ex_spec e)) route)"
        using hold by (auto simp: copy_of_def REPLY_GRACE_MS_def)
      moreover have "set ?av = (case ex_lastRoute e of None \<Rightarrow> {} | Some (entryId, mixId) \<Rightarrow> {entryId, mixId})"
        unfolding ex_avoid_def by (cases "ex_lastRoute e"; cases "the (ex_lastRoute e)") (simp_all split: if_splits)
      ultimately show ?thesis using eq Inr False by (simp add: ex_law_def same_exchange_def)
    qed
  qed
qed

lemma timedCopy_law:
  assumes "ex_timedCopy now port c e = (e', out)"
  shows "ex_law 0 e out e'"
proof (cases "ex_settled e \<or> ex_timedCopies e \<ge> ex_maxCopies e")
  case True
  then show ?thesis using assms ex_law_refl by (auto simp: ex_timedCopy_def split: if_splits)
next
  case False
  then have "ex_send now port c (e\<lparr>ex_timedCopies := ex_timedCopies e + 1\<rparr>) = (e', out)" using assms by (simp add: ex_timedCopy_def)
  note law = send_law[OF this]
  have "same_exchange e (e\<lparr>ex_timedCopies := ex_timedCopies e + 1\<rparr>)" by (simp add: same_exchange_def)
  then have "list_all (copy_of (e\<lparr>ex_timedCopies := ex_timedCopies e + 1\<rparr>)) out = list_all (copy_of e) out"
    by (simp add: copy_of_same list_all_iff)
  then show ?thesis using law False by (auto simp: ex_law_def same_exchange_def)
qed

text \<open>Whether a part asks for another copy.\<close>

definition asks_copy :: "bytes \<Rightarrow> nat" where
  "asks_copy body = (case decodeTunnelReplyV1 body of
     Inr (TunnelData s offset part fin) \<Rightarrow> if fin = Some NeedSurbs \<or> fin = Some Expired then 1 else 0 | _ \<Rightarrow> 0)"

definition event_asks :: "exchange_event \<Rightarrow> nat" where
  "event_asks ev = (case ev of PartArrives satisfied now port body \<Rightarrow> asks_copy body | _ \<Rightarrow> 0)"

lemma onData_law:
  assumes "onData sink satisfied now port offset part fin (t, e) = ((t', e'), out)"
  shows "ex_law (if fin = Some NeedSurbs \<or> fin = Some Expired then 1 else 0) e out e'"
proof -
  have fin: "ex_law n e out e'" if "ex_finish x e = (e', out)" "copy_of e x" "\<not> is_copy x" for x n
    using ex_law_more[OF finish_law[OF that]] by simp
  have flags: "ex_law 0 e [] (e\<lparr>ex_gap := g\<rparr>)" "ex_law 0 e [] (e\<lparr>ex_gap := g, ex_silence := True\<rparr>)" for g
    by (auto intro!: flags_law simp: flags_only_def same_exchange_def)
  note sent = ex_law_trans[OF flags(1) send_law, simplified]
  show ?thesis
    using assms fin[of "ExchangeDone Satisfied"] fin[of "ExchangeDone UpstreamEof"] fin[of "ExchangeFailed (Thrown err)" for err]
      flags sent
    by (auto simp: onData_def copy_of_def Let_def split: prod.splits sum.splits if_splits)
qed

lemma onPart_law:
  assumes "onPart sink satisfied now port body (t, e) = ((t', e'), out)"
  shows "ex_law (asks_copy body) e out e'"
proof -
  let ?e = "e\<lparr>ex_confirmed := True, ex_open := False\<rparr>"
  have same: "copy_of ?e x = copy_of e x" for x by (rule copy_of_same) (simp add: same_exchange_def)
  have flags: "ex_law 0 e [] ?e" by (rule flags_law) (simp add: flags_only_def same_exchange_def)
  have idle: "ex_law n e [] e" for n using ex_law_more[OF ex_law_refl] by simp
  show ?thesis
  proof (cases "ex_settled e")
    case False
    show ?thesis
    proof (cases "decodeTunnelReplyV1 body")
      case (Inl err)
      then show ?thesis using assms False finish_law[of "ExchangeFailed TunnelProtocolError" e e' out]
        by (auto simp: onPart_def asks_copy_def copy_of_def Let_def split: prod.splits)
    next
      case (Inr reply)
      show ?thesis
      proof (cases reply)
        case (TunnelRejected s code retryable detail)
        then show ?thesis using assms False Inr idle same
            ex_law_trans[OF flags finish_law[of "ExchangeFailed (RejectedError code retryable s (ex_copiesSent e = 1) detail)" ?e e' out], simplified]
          by (auto simp: onPart_def asks_copy_def copy_of_def Let_def split: prod.splits if_splits)
      next
        case (TunnelData s offset part fin)
        then have asks: "asks_copy body = (if fin = Some NeedSurbs \<or> fin = Some Expired then 1 else 0)" using Inr by (simp add: asks_copy_def)
        show ?thesis
        proof (cases "s = ex_seq e")
          case True
          then have "onData sink satisfied now port offset part fin (t, ?e) = ((t', e'), out)"
            using assms False Inr TunnelData by (simp add: onPart_def)
          from ex_law_trans[OF flags onData_law[OF this]] show ?thesis unfolding asks by simp
        qed (use assms False Inr TunnelData idle in \<open>simp add: onPart_def\<close>)
      qed
    qed
  qed (use assms idle in \<open>simp add: onPart_def\<close>)
qed

lemma step_law:
  assumes "exchange_step sink ev (t, e) = ((t', e'), out)"
  shows "ex_law (event_asks ev) e out e'"
proof -
  have flags: "ex_law 0 e [] (e\<lparr>ex_silence := False\<rparr>)" "ex_law 0 e [] (e\<lparr>ex_gap := False\<rparr>)" "ex_law 0 e [] (e\<lparr>ex_open := False\<rparr>)"
    by (auto intro!: flags_law simp: flags_only_def same_exchange_def)
  note timed = ex_law_trans[OF flags(1) timedCopy_law, simplified] ex_law_trans[OF flags(2) timedCopy_law, simplified] timedCopy_law
  show ?thesis
    using assms onPart_law flags timed ex_law_refl finish_law
    by (cases ev) (auto simp: event_asks_def with_tunnel_def copy_of_def split: prod.splits if_splits)
qed

definition run_asks :: "exchange_event list \<Rightarrow> nat" where
  "run_asks evs = sum_list (map event_asks evs)"

lemma run_law: "exchange_run sink evs (t, e) = ((t', e'), out) \<Longrightarrow> ex_law (run_asks evs) e out e'"
proof (induction evs arbitrary: t e out)
  case (Cons ev evs)
  obtain t1 e1 out1 where 1: "exchange_step sink ev (t, e) = ((t1, e1), out1)" by (metis prod.exhaust)
  obtain out2 where 2: "exchange_run sink evs (t1, e1) = ((t', e'), out2)" "out = out1 @ out2"
    using Cons.prems 1 by (auto split: prod.splits)
  from ex_law_trans[OF step_law[OF 1] Cons.IH[OF 2(1)]] show ?case using 2(2) by (simp add: run_asks_def)
qed (simp add: run_asks_def ex_law_refl)


subsection \<open>Whole exchanges\<close>

definition exchange_session ::
  "nat \<Rightarrow> exchange_spec \<Rightarrow> bool \<Rightarrow> int \<Rightarrow> tunnel_port \<Rightarrow> tls_sink \<Rightarrow> exchange_event list \<Rightarrow> tunnel_state
     \<Rightarrow> (tunnel_state \<times> exchange) \<times> tunnel_effect list" where
  "exchange_session maxCopies spec aborted now port sink evs t =
     (let (st, out1) = exchange_start maxCopies spec aborted now port t; (st2, out2) = exchange_run sink evs st in (st2, out1 @ out2))"

lemma start_law:
  assumes "exchange_start maxCopies spec aborted now port t = ((t', e'), out)"
  shows "ex_law 1 (new_exchange t spec maxCopies) out e'" "t' = t\<lparr>tn_nextSeq := tn_nextSeq t + 1\<rparr>"
proof -
  let ?e = "new_exchange t spec maxCopies"
  have flags: "ex_law 0 ?e [] (?e\<lparr>ex_open := b\<rparr>)" for b by (rule flags_law) (simp add: flags_only_def same_exchange_def)
  have fin: "ex_law 1 ?e out e'" if "ex_finish (ExchangeFailed AbortReason) ?e = (e', out)"
    using ex_law_more[OF finish_law[OF that]] by (simp add: copy_of_def)
  show "ex_law 1 (new_exchange t spec maxCopies) out e'"
    using assms fin ex_law_trans[OF flags send_law] by (auto simp: exchange_start_def with_tunnel_def Let_def split: if_splits prod.splits)
  show "t' = t\<lparr>tn_nextSeq := tn_nextSeq t + 1\<rparr>"
    using assms by (auto simp: exchange_start_def with_tunnel_def Let_def split: if_splits prod.splits)
qed

lemma session_law:
  assumes "exchange_session maxCopies spec aborted now port sink evs t = ((t', e'), out)"
  shows "ex_law (1 + run_asks evs) (new_exchange t spec maxCopies) out e'"
proof -
  obtain t1 e1 out1 where 1: "exchange_start maxCopies spec aborted now port t = ((t1, e1), out1)" by (metis prod.exhaust)
  obtain out2 where 2: "exchange_run sink evs (t1, e1) = ((t', e'), out2)" "out = out1 @ out2"
    using assms 1 by (auto simp: exchange_session_def split: prod.splits)
  from ex_law_trans[OF start_law(1)[OF 1] run_law[OF 2(1)]] show ?thesis using 2(2) by simp
qed

lemma deadline_settles:
  "exchange_run sink evs (t, e) = ((t', e'), out) \<Longrightarrow> DeadlineFires \<in> set evs \<Longrightarrow> \<not> ex_settled e \<longrightarrow> ex_deadline e \<Longrightarrow> ex_settled e'"
proof (induction evs arbitrary: t e out)
  case (Cons ev evs)
  obtain t1 e1 out1 where 1: "exchange_step sink ev (t, e) = ((t1, e1), out1)" by (metis prod.exhaust)
  obtain out2 where 2: "exchange_run sink evs (t1, e1) = ((t', e'), out2)" using Cons.prems(1) 1 by (auto split: prod.splits)
  note law1 = step_law[OF 1]
  have armed: "\<not> ex_settled e1 \<longrightarrow> ex_deadline e1" using law1 Cons.prems(3) by (simp add: ex_law_def)
  show ?case
  proof (cases "ev = DeadlineFires")
    case True
    have "ex_settled e1"
    proof (cases "ex_settled e")
      case False
      then show ?thesis using 1 True Cons.prems(3) by (auto simp: with_tunnel_def ex_finish_def)
    qed (use law1 in \<open>simp add: ex_law_def\<close>)
    then show ?thesis using run_law[OF 2] by (simp add: ex_law_def)
  next
    case False
    then show ?thesis using Cons.IH[OF 2 _ armed] Cons.prems(2) by auto
  qed
qed simp

text \<open>
  C29. An exchange settles, once, by its deadline. In any order of reply parts (whatever their bytes), timers, failed uploads and an abort, the promise of an exchange is settled at
  most once, nothing is sent after it settled, and once its deadline timer fired it is settled.
\<close>

theorem exchange_settles:
  assumes "exchange_session maxCopies spec aborted now port sink evs t = ((t', e'), out)"
  shows "settlings out = (if ex_settled e' then 1 else 0) \<and> (DeadlineFires \<in> set evs \<longrightarrow> settlings out = 1)
    \<and> (ex_settled e' \<longrightarrow> snd (exchange_run sink later (t', e')) = [])"
proof -
  have law: "ex_law (1 + run_asks evs) (new_exchange t spec maxCopies) out e'" by (rule session_law[OF assms])
  then have n: "settlings out = (if ex_settled e' then 1 else 0)" by (simp add: ex_law_def new_exchange_def)
  have "ex_settled e'" if "DeadlineFires \<in> set evs"
  proof -
    obtain t1 e1 out1 where 1: "exchange_start maxCopies spec aborted now port t = ((t1, e1), out1)" by (metis prod.exhaust)
    obtain out2 where 2: "exchange_run sink evs (t1, e1) = ((t', e'), out2)" using assms 1 by (auto simp: exchange_session_def split: prod.splits)
    have "\<not> ex_settled e1 \<longrightarrow> ex_deadline e1" using start_law(1)[OF 1] by (simp add: ex_law_def new_exchange_def)
    from deadline_settles[OF 2 that this] show ?thesis .
  qed
  moreover have "snd (exchange_run sink later (t', e')) = []" if "ex_settled e'"
  proof -
    obtain t2 e2 out2 where 2: "exchange_run sink later (t', e') = ((t2, e2), out2)" by (metis prod.exhaust)
    from run_law[OF 2] that show ?thesis using 2 by (simp add: ex_law_def)
  qed
  ultimately show ?thesis using n by auto
qed

text \<open>
  C30. Copies repeat the exchange. Every copy of an exchange carries its sequence number, its bytes, its open and its close flag unchanged (only the
  acknowledgement and the hold differ), is held between 1 and 30 seconds and listened to for 5 seconds more, and avoids the entry and
  mix of the copy before; there is at most the first copy, \<open>maxCopies\<close> after a silence or a gap, and one for each part that asks for more.
\<close>

theorem copies_repeat_exchange:
  assumes "exchange_session maxCopies spec aborted now port sink evs t = ((t', e'), out)"
  shows "list_all (copy_of (new_exchange t spec maxCopies)) out \<and> avoids_previous None out \<and> copies out \<le> 1 + maxCopies + run_asks evs"
proof -
  have "ex_law (1 + run_asks evs) (new_exchange t spec maxCopies) out e'" by (rule session_law[OF assms])
  then show ?thesis by (auto simp: ex_law_def new_exchange_def)
qed

subsection \<open>Refusals\<close>

definition refused :: "bool \<Rightarrow> tunnel_effect list \<Rightarrow> bool" where
  "refused sole out = (\<exists>code retryable s detail. ExchangeFailed (RejectedError code retryable s sole detail) \<in> set out)"

lemma refused_simps [simp]: "\<not> refused sole []" "refused sole (a @ b) = (refused sole a \<or> refused sole b)"
  by (auto simp: refused_def)

lemma finish_refused: "ex_finish x e = (e', out) \<Longrightarrow> refused sole out \<Longrightarrow> refused sole [x] \<and> copies out = (if is_copy x then 1 else 0)"
  by (auto simp: ex_finish_def refused_def split: if_splits)

lemma send_refused: "ex_send now port c e = (e', out) \<Longrightarrow> \<not> refused sole out"
  by (auto simp: ex_send_def ex_finish_def refused_def Let_def split: if_splits sum.splits)

lemma timedCopy_refused: "ex_timedCopy now port c e = (e', out) \<Longrightarrow> \<not> refused sole out"
  using send_refused by (auto simp: ex_timedCopy_def split: if_splits)

lemma onData_refused: "onData sink satisfied now port offset part fin (t, e) = ((t', e'), out) \<Longrightarrow> \<not> refused sole out"
  using send_refused by (auto simp: onData_def ex_finish_def refused_def Let_def split: prod.splits sum.splits if_splits)

lemma step_refused:
  assumes "exchange_step sink ev (t, e) = ((t', e'), out)" "refused sole out"
  shows "copies out = 0 \<and> sole = (ex_copiesSent e = 1)"
  using assms timedCopy_refused onData_refused
  by (cases ev) (auto simp: with_tunnel_def onPart_def ex_finish_def refused_def Let_def
      split: prod.splits if_splits sum.splits tunnel_reply.splits)

lemma refused_settles: "refused sole out \<Longrightarrow> settlings out \<noteq> 0"
  by (fastforce simp: refused_def settlings_def is_settling_def filter_empty_conv intro: bexI[rotated])

lemma run_refused:
  "exchange_run sink evs (t, e) = ((t', e'), out) \<Longrightarrow> refused sole out \<Longrightarrow> sole = (ex_copiesSent e' = 1)"
proof (induction evs arbitrary: t e out)
  case (Cons ev evs)
  obtain t1 e1 out1 where 1: "exchange_step sink ev (t, e) = ((t1, e1), out1)" by (metis prod.exhaust)
  obtain out2 where 2: "exchange_run sink evs (t1, e1) = ((t', e'), out2)" "out = out1 @ out2"
    using Cons.prems(1) 1 by (auto split: prod.splits)
  note laws = step_law[OF 1] run_law[OF 2(1)]
  show ?case
  proof (cases "refused sole out1")
    case True
    have "ex_settled e1" using laws(1) refused_settles[OF True] by (auto simp: ex_law_def split: if_splits)
    then have "out2 = []" using laws(2) by (simp add: ex_law_def)
    then show ?thesis using step_refused[OF 1 True] laws by (simp add: ex_law_def)
  next
    case False
    then show ?thesis using Cons.IH[OF 2(1)] Cons.prems(2) 2(2) by simp
  qed
qed simp

text \<open>
  C28. A refusal that names a sole copy is right. When an exchange fails with \<open>soleCopy\<close> set, exactly one copy of its sequence number was sent, before or after
  the refusal, so the refusal answers all that was sent of it; when it is not set, another number of copies was sent.
\<close>

theorem sole_copy_is_sole:
  assumes "exchange_session maxCopies spec aborted now port sink evs t = ((t', e'), out)" "refused sole out"
  shows "sole = (copies out = 1)"
proof -
  obtain t1 e1 out1 where 1: "exchange_start maxCopies spec aborted now port t = ((t1, e1), out1)" by (metis prod.exhaust)
  obtain out2 where 2: "exchange_run sink evs (t1, e1) = ((t', e'), out2)" "out = out1 @ out2"
    using assms(1) 1 by (auto simp: exchange_session_def split: prod.splits)
  have "\<not> refused sole out1" using 1 send_refused
    by (auto simp: exchange_start_def with_tunnel_def ex_finish_def refused_def Let_def split: if_splits prod.splits)
  then have "sole = (ex_copiesSent e' = 1)" using run_refused[OF 2(1)] assms(2) 2(2) by simp
  then show ?thesis using session_law[OF assms(1)] by (simp add: ex_law_def new_exchange_def)
qed


subsection \<open>The upstream's stream\<close>

lemma push_frame: "tn_push sink bs t = (t', r) \<Longrightarrow> tn_eofAt t' = tn_eofAt t \<and> tn_ended t' = tn_ended t \<and> tn_contiguous t \<le> tn_contiguous t'"
  by (auto simp: tn_push_def split: if_splits)

lemma held_pass_frame:
  "held_pass sink es adv t = (t', r) \<Longrightarrow> tn_eofAt t' = tn_eofAt t \<and> tn_ended t' = tn_ended t \<and> tn_contiguous t \<le> tn_contiguous t'"
proof (induction es arbitrary: adv t)
  case (Cons e es)
  obtain off d where e: "e = (off, d)" by fastforce
  show ?case
  proof (cases "off > tn_contiguous t")
    case False
    let ?t1 = "t\<lparr>tn_held := jsmap_delete off (tn_held t)\<rparr>"
    obtain t2 q where step: "(if off + int (length d) > tn_contiguous ?t1
        then tn_push sink (drop (nat (tn_contiguous ?t1 - off)) d) ?t1 else (?t1, Inr ())) = (t2, q)" by fastforce
    then have 2: "tn_eofAt t2 = tn_eofAt t \<and> tn_ended t2 = tn_ended t \<and> tn_contiguous t \<le> tn_contiguous t2"
      using push_frame by (fastforce split: if_splits)
    show ?thesis
    proof (cases q)
      case (Inl x)
      then show ?thesis using Cons.prems e False step 2 by (simp add: Let_def)
    next
      case (Inr u)
      then have "held_pass sink es True t2 = (t', r)" using Cons.prems e False step by (simp add: Let_def)
      from Cons.IH[OF this] show ?thesis using 2 by simp
    qed
  qed (use Cons e in auto)
qed simp

lemma drain_frame:
  "drain_held sink t = (t', r) \<Longrightarrow> tn_eofAt t' = tn_eofAt t \<and> tn_ended t' = tn_ended t \<and> tn_contiguous t \<le> tn_contiguous t'"
proof (induction sink t rule: drain_held.induct)
  case (1 sink t)
  obtain t1 q where pass: "held_pass sink (tn_held t) False t = (t1, q)" by fastforce
  note frame = held_pass_frame[OF pass]
  show ?case
  proof (cases "q = Inr True")
    case True
    then have "drain_held sink t1 = (t', r)" using 1(2) pass by (subst (asm) drain_held.simps) simp
    from 1(1)[OF pass[symmetric] True TrueI this] show ?thesis using frame by simp
  next
    case False
    then have "t' = t1" using 1(2) pass by (subst (asm) drain_held.simps) (auto split: sum.splits)
    then show ?thesis using frame by simp
  qed
qed

lemma accept_frame:
  "tn_accept sink off d t = (t', r) \<Longrightarrow> tn_eofAt t' = tn_eofAt t \<and> tn_ended t' = tn_ended t \<and> tn_contiguous t \<le> tn_contiguous t'"
  unfolding tn_accept_def by (auto split: if_splits prod.splits sum.splits dest!: push_frame drain_frame)

text \<open>The parts of exchange \<open>s\<close> are parts of the stream \<open>S\<close>, and the exit reports its end where it is.\<close>

definition honest :: "bytes \<Rightarrow> int \<Rightarrow> exchange_event \<Rightarrow> bool" where
  "honest S s ev = (case ev of PartArrives satisfied now port body \<Rightarrow>
       (case decodeTunnelReplyV1 body of
          Inr (TunnelData s' off d fin) \<Rightarrow> s' = s \<longrightarrow> part_of S off d \<and> (fin = Some Eof \<longrightarrow> off + int (length d) = int (length S))
        | _ \<Rightarrow> True)
     | _ \<Rightarrow> True)"

definition eof_ok :: "bytes \<Rightarrow> tunnel_state \<Rightarrow> bool" where
  "eof_ok S t = ((\<forall>x. tn_eofAt t = Some x \<longrightarrow> x = int (length S)) \<and> (tn_ended t \<longrightarrow> int (length S) \<le> tn_contiguous t))"

definition stream_ok :: "bytes \<Rightarrow> tunnel_state \<times> exchange \<Rightarrow> tunnel_effect list \<Rightarrow> bool" where
  "stream_ok S st out = (case st of (t, e) \<Rightarrow>
      (\<exists>parts. tn_inv S parts t) \<and> eof_ok S t \<and> (\<not> ex_settled e \<longrightarrow> tn_sorted_out t)
    \<and> (ExchangeDone UpstreamEof \<in> set out \<longrightarrow> ex_settled e \<and> int (length S) \<le> tn_contiguous t))"

lemma stream_same:
  assumes "stream_ok S (t, e) out" "ex_settled e \<longrightarrow> ex_settled e'" "ExchangeDone UpstreamEof \<notin> set out'"
  shows "stream_ok S (t, e') (out @ out')"
  using assms by (auto simp: stream_ok_def)

lemma note_fin_simps [simp]:
  "tn_delivered (note_fin fin x t) = tn_delivered t" "tn_contiguous (note_fin fin x t) = tn_contiguous t" "tn_held (note_fin fin x t) = tn_held t"
  by (simp_all add: note_fin_def Let_def split: option.split)

lemma note_fin_eof: "eof_ok S t \<Longrightarrow> (fin = Some Eof \<longrightarrow> x = int (length S)) \<Longrightarrow> eof_ok S (note_fin fin x t)"
  by (auto simp: eof_ok_def note_fin_def Let_def split: option.splits if_splits)

lemma tn_inv_cong:
  "tn_contiguous t' = tn_contiguous t \<Longrightarrow> tn_delivered t' = tn_delivered t \<Longrightarrow> tn_held t' = tn_held t \<Longrightarrow>
   tn_inv S parts t' = tn_inv S parts t \<and> tn_sorted_out t' = tn_sorted_out t"
  by (simp add: tn_inv_def tn_sorted_out_def)

lemma finish_settled: "ex_finish x e = (e', out) \<Longrightarrow> ex_settled e' \<and> (ex_settled e \<longrightarrow> out = []) \<and> (\<not> ex_settled e \<longrightarrow> out = [x])"
  by (auto simp: ex_finish_def split: if_splits)

lemma send_no_eof: "ex_send now port c e = (e', out) \<Longrightarrow> ExchangeDone oc \<notin> set out \<and> (ex_settled e \<longrightarrow> ex_settled e')"
  by (auto simp: ex_send_def ex_finish_def Let_def split: if_splits sum.splits)

lemma timed_no_eof: "ex_timedCopy now port c e = (e', out) \<Longrightarrow> ExchangeDone oc \<notin> set out \<and> (ex_settled e \<longrightarrow> ex_settled e')"
  using send_no_eof by (fastforce simp: ex_timedCopy_def split: if_splits)


lemma onData_stream:
  assumes ok: "stream_ok S (t, e) tr" and live: "\<not> ex_settled e" and part: "part_of S off d"
    and fin: "fin = Some Eof \<longrightarrow> off + int (length d) = int (length S)"
    and run: "onData sink satisfied now port off d fin (t, e) = ((t', e'), out)"
  shows "stream_ok S (t', e') (tr @ out)"
proof -
  obtain parts where inv: "tn_inv S parts t" and sorted: "tn_sorted_out t" and eof: "eof_ok S t"
    and quiet: "ExchangeDone UpstreamEof \<notin> set tr" using ok live by (auto simp: stream_ok_def)
  obtain t1 r where acc: "tn_accept sink off d t = (t1, r)" by fastforce
  have inv1: "tn_inv S (parts @ [(off, d)]) t1" and sorted1: "r = Inr () \<longrightarrow> tn_sorted_out t1" using tn_accept_inv[OF inv sorted part acc] by auto
  have eof1: "eof_ok S t1" using eof accept_frame[OF acc] by (auto simp: eof_ok_def)
  show ?thesis
  proof (cases r)
    case (Inl err)
    then have "t' = t1" "ex_finish (ExchangeFailed (Thrown err)) e = (e', out)"
      using run acc by (auto simp: onData_def Let_def split: prod.splits)
    then show ?thesis using finish_settled[of "ExchangeFailed (Thrown err)" e e' out] live inv1 eof1 quiet by (auto simp: stream_ok_def)
  next
    case (Inr u)
    let ?t2 = "note_fin fin (off + int (length d)) t1"
    have inv2: "tn_inv S (parts @ [(off, d)]) ?t2" "tn_sorted_out ?t2"
      using tn_inv_cong[of ?t2 t1 S "parts @ [(off, d)]"] inv1 sorted1 Inr by simp_all
    have eof2: "eof_ok S ?t2" by (rule note_fin_eof[OF eof1 fin])
    have ended: "int (length S) \<le> tn_contiguous ?t2" if "tn_ended ?t2" using eof2 that unfolding eof_ok_def by blast
    consider (done1) "ex_finish (ExchangeDone Satisfied) e = (e', out)" | (done2) "ex_finish (ExchangeDone UpstreamEof) e = (e', out)" "tn_ended ?t2"
      | (sent) e1 where "ex_send now port (tn_contiguous ?t2) e1 = (e', out)" "\<not> ex_settled e1" | (waits) "out = []" "\<not> ex_settled e'"
      using run acc Inr live by (auto simp: onData_def Let_def split: prod.splits if_splits)
    moreover have t': "t' = ?t2" using run acc Inr by (auto simp: onData_def Let_def split: prod.splits if_splits)
    ultimately show ?thesis
    proof cases
      case done1
      then show ?thesis using finish_settled[OF done1] live inv2 eof2 quiet t' by (auto simp: stream_ok_def)
    next
      case done2
      then show ?thesis using finish_settled[OF done2(1)] live inv2 eof2 quiet t' ended by (auto simp: stream_ok_def)
    next
      case sent
      then show ?thesis using send_no_eof[OF sent(1)] inv2 eof2 quiet t' by (auto simp: stream_ok_def)
    next
      case waits
      then show ?thesis using inv2 eof2 quiet t' by (auto simp: stream_ok_def)
    qed
  qed
qed

lemma onPart_stream:
  assumes ok: "stream_ok S (t, e) tr" and honest: "honest S (ex_seq e) (PartArrives satisfied now port body)"
    and run: "onPart sink satisfied now port body (t, e) = ((t', e'), out)"
  shows "stream_ok S (t', e') (tr @ out)"
proof -
  have idle: "stream_ok S (t, e) (tr @ [])" using ok by simp
  show ?thesis
  proof (cases "ex_settled e")
    case True
    then show ?thesis using run idle by (simp add: onPart_def)
  next
    case False
    have failed: "stream_ok S (t, e') (tr @ out)" if "ex_finish (ExchangeFailed x) e0 = (e', out)" "ex_settled e0 = ex_settled e" for x e0
      using stream_same[OF ok, of e' out] finish_settled[OF that(1)] that(2) False by auto
    show ?thesis
    proof (cases "decodeTunnelReplyV1 body")
      case (Inl err)
      then show ?thesis using run False failed by (auto simp: onPart_def Let_def split: prod.splits)
    next
      case (Inr reply)
      show ?thesis
      proof (cases reply)
        case (TunnelRejected s code retryable detail)
        then show ?thesis using run False Inr idle failed by (auto simp: onPart_def Let_def split: prod.splits if_splits)
      next
        case (TunnelData s off d fin)
        show ?thesis
        proof (cases "s = ex_seq e")
          case True
          let ?e = "e\<lparr>ex_confirmed := True, ex_open := False\<rparr>"
          have "stream_ok S (t, ?e) tr" using ok by (simp add: stream_ok_def)
          moreover have "part_of S off d" "fin = Some Eof \<longrightarrow> off + int (length d) = int (length S)"
            using honest Inr TunnelData True by (simp_all add: honest_def)
          moreover have "onData sink satisfied now port off d fin (t, ?e) = ((t', e'), out)"
            using run False Inr TunnelData True by (simp add: onPart_def)
          ultimately show ?thesis using onData_stream[of S t ?e tr] False by simp
        qed (use run False Inr TunnelData idle in \<open>simp add: onPart_def\<close>)
      qed
    qed
  qed
qed

lemma other_events_quiet:
  assumes "exchange_step sink ev (t, e) = ((t', e'), out)" "\<nexists>satisfied now port body. ev = PartArrives satisfied now port body"
  shows "t' = t \<and> ExchangeDone UpstreamEof \<notin> set out \<and> (ex_settled e \<longrightarrow> ex_settled e')"
proof -
  have timed: "t' = t \<and> ExchangeDone UpstreamEof \<notin> set out \<and> (ex_settled e \<longrightarrow> ex_settled e')"
    if "with_tunnel t (ex_timedCopy now port c e0) = ((t', e'), out)" "ex_settled e0 = ex_settled e" for now port c e0
    using that timed_no_eof[of now port c e0 e' out UpstreamEof] by (auto simp: with_tunnel_def split: prod.splits)
  show ?thesis
  proof (cases ev)
    case (SilenceFires now port)
    then show ?thesis using assms(1) timed[of now port "tn_contiguous t" "e\<lparr>ex_silence := False\<rparr>"] by (auto split: if_splits)
  next
    case (GapFires now port)
    then show ?thesis using assms(1) timed[of now port "tn_contiguous t" "e\<lparr>ex_gap := False\<rparr>"] by (auto split: if_splits)
  next
    case (UploadFailed now port)
    then show ?thesis using assms(1) timed[of now port "tn_contiguous t" e] by (auto split: if_splits)
  qed (use assms in \<open>auto simp: with_tunnel_def ex_finish_def split: prod.splits if_splits\<close>)
qed

lemma step_stream:
  assumes ok: "stream_ok S (t, e) tr" and honest: "honest S (ex_seq e) ev" and run: "exchange_step sink ev (t, e) = ((t', e'), out)"
  shows "stream_ok S (t', e') (tr @ out)"
proof (cases "\<exists>satisfied now port body. ev = PartArrives satisfied now port body")
  case True
  then show ?thesis using onPart_stream[OF ok] honest run by auto
next
  case False
  have "t' = t \<and> ExchangeDone UpstreamEof \<notin> set out \<and> (ex_settled e \<longrightarrow> ex_settled e')"
    using run False by (rule other_events_quiet)
  then show ?thesis using stream_same[OF ok, of e' out] by simp
qed

lemma start_no_eof:
  assumes "exchange_start maxCopies spec aborted now port t = ((t', e'), out)"
  shows "ExchangeDone UpstreamEof \<notin> set out"
proof (cases aborted)
  case True
  then show ?thesis using assms by (auto simp: exchange_start_def with_tunnel_def ex_finish_def Let_def split: if_splits)
next
  case False
  then obtain e0 where "ex_send now port (tn_contiguous t) e0 = (e', out)"
    using assms by (auto simp: exchange_start_def with_tunnel_def Let_def split: prod.splits)
  from send_no_eof[OF this] show ?thesis by blast
qed

lemma run_stream:
  "stream_ok S (t, e) tr \<Longrightarrow> \<forall>ev \<in> set evs. honest S (ex_seq e) ev \<Longrightarrow> exchange_run sink evs (t, e) = ((t', e'), out) \<Longrightarrow>
   stream_ok S (t', e') (tr @ out)"
proof (induction evs arbitrary: t e tr out)
  case (Cons ev evs)
  obtain t1 e1 out1 where 1: "exchange_step sink ev (t, e) = ((t1, e1), out1)" by (metis prod.exhaust)
  obtain out2 where 2: "exchange_run sink evs (t1, e1) = ((t', e'), out2)" "out = out1 @ out2"
    using Cons.prems(3) 1 by (auto split: prod.splits)
  have "ex_seq e1 = ex_seq e" using step_law[OF 1] by (simp add: ex_law_def same_exchange_def)
  then show ?case using Cons.IH[OF step_stream[OF Cons.prems(1) _ 1] _ 2(1)] Cons.prems(2) 2(2) by simp
qed simp

text \<open>
  C24. An exchange never delivers a hole. On a tunnel whose bytes are in order, while the exit's parts for this exchange are parts of the upstream's stream and its end of
  stream is where the stream ends: in any order of events the TLS session was handed a prefix of the stream, and an exchange that
  resolves with \<open>eof\<close> has handed it all of the stream, whatever gaps there were in between.
\<close>

theorem exchange_delivers_in_order:
  assumes "exchange_session maxCopies spec aborted now port sink evs t = ((t', e'), out)"
    "tn_inv S parts t" "tn_sorted_out t" "eof_ok S t" "\<forall>ev \<in> set evs. honest S (tn_nextSeq t) ev"
  shows "prefix (tn_delivered t') S \<and> (ExchangeDone UpstreamEof \<in> set out \<longrightarrow> tn_delivered t' = S)"
proof -
  obtain t1 e1 out1 where 1: "exchange_start maxCopies spec aborted now port t = ((t1, e1), out1)" by (metis prod.exhaust)
  obtain out2 where 2: "exchange_run sink evs (t1, e1) = ((t', e'), out2)" "out = out1 @ out2"
    using assms(1) 1 by (auto simp: exchange_session_def split: prod.splits)
  have t1: "t1 = t\<lparr>tn_nextSeq := tn_nextSeq t + 1\<rparr>" by (rule start_law(2)[OF 1])
  have seq: "ex_seq e1 = tn_nextSeq t"
    using start_law(1)[OF 1] by (simp add: ex_law_def same_exchange_def new_exchange_def base_request_def)
  have "ExchangeDone UpstreamEof \<notin> set out1" by (rule start_no_eof[OF 1])
  moreover have "tn_inv S parts t1" "tn_sorted_out t1" "eof_ok S t1"
    using assms(2-4) tn_inv_cong[of t1 t S parts] t1 by (simp_all add: eof_ok_def)
  ultimately have "stream_ok S (t1, e1) out1" unfolding stream_ok_def by auto
  from run_stream[OF this _ 2(1)] have ok: "stream_ok S (t', e') out" using assms(5) seq 2(2) by simp
  then obtain parts' where inv: "tn_inv S parts' t'" by (auto simp: stream_ok_def)
  then have pre: "prefix (tn_delivered t') S" and n: "tn_contiguous t' = int (length (tn_delivered t'))" by (simp_all add: tn_inv_def)
  have "tn_delivered t' = S" if "ExchangeDone UpstreamEof \<in> set out"
  proof -
    have "int (length S) \<le> tn_contiguous t'" using ok that by (auto simp: stream_ok_def)
    then have "length S \<le> length (tn_delivered t')" using n by simp
    then show ?thesis using pre by (metis prefix_length_le prefix_order.eq_iff le_antisym not_equal_is_parallel parallelE)
  qed
  then show ?thesis using pre by blast
qed


subsection \<open>A sample exchange\<close>

text \<open>An open whose two parts arrive in the wrong order, and one that the exit refuses.\<close>

definition reply_body :: "tunnel_reply \<Rightarrow> bytes" where
  "reply_body r = (case encodeTunnelReplyV1 r of Inl _ \<Rightarrow> [] | Inr bs \<Rightarrow> bs)"

definition demo_port :: tunnel_port where
  "demo_port = (\<lambda>_ _. Inr (''e'', ''m''))"

definition demo_sink :: tls_sink where
  "demo_sink = (\<lambda>_ _. Inr ())"

definition demo_spec :: exchange_spec where
  "demo_spec = \<lparr>es_data = [1], es_surbs = 2, es_close = False, es_deadlineAt = 9000, es_background = False, es_openTimeoutMs = Some 700\<rparr>"

definition demo_tunnel :: tunnel_state where
  "demo_tunnel = new_tunnel [1, 2] [] 443"

definition demo_tail :: exchange_event where
  "demo_tail = PartArrives (\<lambda>_. False) 10 demo_port (reply_body (TunnelData 0 2 [9] (Some Eof)))"

definition demo_head :: exchange_event where
  "demo_head = PartArrives (\<lambda>_. False) 20 demo_port (reply_body (TunnelData 0 0 [7, 8] None))"

definition demo_refusal :: exchange_event where
  "demo_refusal = PartArrives (\<lambda>_. False) 20 demo_port (reply_body (TunnelRejected 0 TSessionLimit True []))"

definition demo_session :: "exchange_event list \<Rightarrow> (tunnel_state \<times> exchange) \<times> tunnel_effect list" where
  "demo_session evs = exchange_session 2 demo_spec False 0 demo_port demo_sink evs demo_tunnel"

lemma demo_split:
  "exchange_session 2 demo_spec False 0 demo_port demo_sink evs demo_tunnel
     = ((fst (fst (demo_session evs)), snd (fst (demo_session evs))), snd (demo_session evs))"
  by (simp add: demo_session_def)

lemma reply_body_decodes: "reply_ok r \<Longrightarrow> decodeTunnelReplyV1 (reply_body r) = Inr r"
  using tunnel_reply_round_trip[of r "[0]"] by (auto simp: reply_body_def rbind_Inr_iff)

lemma demo_decodes:
  "decodeTunnelReplyV1 (reply_body (TunnelData 0 2 [9] (Some Eof))) = Inr (TunnelData 0 2 [9] (Some Eof))"
  "decodeTunnelReplyV1 (reply_body (TunnelData 0 0 [7, 8] None)) = Inr (TunnelData 0 0 [7, 8] None)"
  "decodeTunnelReplyV1 (reply_body (TunnelRejected 0 TSessionLimit True [])) = Inr (TunnelRejected 0 TSessionLimit True [])"
  by (rule reply_body_decodes, simp add: range_defs TUNNEL_PART_MAX_DATA_def string_ok_def; code_simp)+


lemma demo_port_app: "demo_port request avoid = Inr (''e'', ''m'')"
  by (simp add: demo_port_def)

lemmas demo_defs = demo_session_def exchange_session_def exchange_start_def with_tunnel_def demo_tunnel_def new_tunnel_def new_exchange_def
  base_request_def ex_send_def demo_spec_def demo_port_app hold_for_def ex_finish_def onPart_def ex_timedCopy_def

lemma demo_refused: "refused True (snd (demo_session [demo_refusal]))"
  by (auto simp: demo_defs demo_refusal_def demo_decodes refused_def Let_def intro: exI[of _ True])

definition demo_events :: "exchange_event list" where
  "demo_events = [demo_tail, SilenceFires 15 demo_port, demo_head]"

lemma demo_parts:
  "onData demo_sink (\<lambda>_. False) 10 demo_port 2 [9] (Some Eof) (t, e) = ((t\<lparr>tn_held := [(2, [9])], tn_eofAt := Some 3\<rparr>, e\<lparr>ex_gap := True, ex_silence := True\<rparr>), [])"
  if "tn_contiguous t = 0" "tn_held t = []" "tn_eofAt t = None" "\<not> tn_ended t" for t e
  using that by (simp add: onData_def tn_accept_def jsmap_get_def note_fin_def)

lemma demo_last:
  assumes "tn_contiguous t = 0" "tn_held t = [(2, [9])]" "tn_eofAt t = Some 3" "\<not> ex_settled e"
  shows "ExchangeDone UpstreamEof \<in> set (snd (onData demo_sink (\<lambda>_. False) 20 demo_port 0 [7, 8] None (t, e)))"
proof -
  let ?t1 = "t\<lparr>tn_contiguous := 2, tn_delivered := tn_delivered t @ [7, 8]\<rparr>"
  have "drain_held demo_sink ?t1 = (?t1\<lparr>tn_held := [], tn_contiguous := 3, tn_delivered := tn_delivered t @ [7, 8, 9]\<rparr>, Inr ())"
    using assms by (subst drain_held.simps)
      (simp add: demo_sink_def tn_push_def jsmap_delete_def, subst drain_held.simps, simp)
  moreover have "tn_push demo_sink [7, 8] t = (?t1, Inr ())" using assms by (simp add: tn_push_def demo_sink_def)
  ultimately have acc: "tn_accept demo_sink 0 [7, 8] t
      = (?t1\<lparr>tn_held := [], tn_contiguous := 3, tn_delivered := tn_delivered t @ [7, 8, 9]\<rparr>, Inr ())"
    using assms(1) by (simp add: tn_accept_def)
  show ?thesis using assms(3,4) unfolding onData_def prod.case acc by (simp add: note_fin_def ex_finish_def)
qed

lemma demo_eof: "ExchangeDone UpstreamEof \<in> set (snd (demo_session demo_events))"
  using demo_last by (simp add: demo_defs demo_events_def demo_tail_def demo_head_def demo_decodes demo_parts case_prod_unfold Let_def)

theorem exchange_settles_witness: "settlings (snd (demo_session [DeadlineFires])) = 1"
proof -
  have "DeadlineFires \<in> set [DeadlineFires]" by simp
  then show ?thesis using exchange_settles[OF demo_split[of "[DeadlineFires]"]] by blast
qed

theorem copies_repeat_exchange_witness: "avoids_previous None (snd (demo_session demo_events)) \<and> copies (snd (demo_session demo_events)) \<le> 3"
  using copies_repeat_exchange[OF demo_split[of demo_events]]
  by (simp add: run_asks_def event_asks_def asks_copy_def demo_events_def demo_tail_def demo_head_def demo_decodes)

theorem sole_copy_is_sole_witness: "copies (snd (demo_session [demo_refusal])) = 1"
  using sole_copy_is_sole[OF demo_split[of "[demo_refusal]"] demo_refused] by simp

theorem exchange_delivers_in_order_witness: "tn_delivered (fst (fst (demo_session demo_events))) = [7, 8, 9]"
proof -
  have "\<forall>ev \<in> set demo_events. honest [7, 8, 9] (tn_nextSeq demo_tunnel) ev"
    by (simp add: demo_events_def demo_tail_def demo_head_def honest_def demo_decodes part_of_def)
  moreover have "tn_inv [7, 8, 9] [] demo_tunnel" "tn_sorted_out demo_tunnel" "eof_ok [7, 8, 9] demo_tunnel"
    using new_tunnel_inv by (simp_all add: demo_tunnel_def eof_ok_def new_tunnel_def)
  ultimately show ?thesis using exchange_delivers_in_order[OF demo_split[of demo_events]] demo_eof by blast
qed

end
