(* ===== verification/Worker_Rpc.thy ===== *)
theory Worker_Rpc
  imports Kps_Http1 Js_Json
begin

section \<open>JSON-RPC requests of the worker\<close>

text \<open>
  \<open>packages/anon-rpc-worker/src/jsonrpc.ts\<close>: the class of a request, the size of its reply and whether it may be resent.
  Reading a body as JSON (\<open>TextDecoder\<close> and \<open>JSON.parse\<close>) is the parameter \<open>parse\<close>; text has code units below 256.
\<close>

datatype rpc_class = RpcSmall | RpcMedium | RpcLarge | RpcWrite | RpcOther

definition CLASS_REPLY_BYTES :: "rpc_class \<Rightarrow> nat" where
  "CLASS_REPLY_BYTES c = (case c of RpcSmall \<Rightarrow> 30000 | RpcMedium \<Rightarrow> 120000 | RpcLarge \<Rightarrow> 300000 | RpcWrite \<Rightarrow> 30000 | RpcOther \<Rightarrow> 0)"

definition MIN_SURBS :: nat where
  "MIN_SURBS = 2"

definition SMALL_READS :: "string list" where
  "SMALL_READS = [''eth_chainId'', ''net_version'', ''web3_clientVersion'', ''eth_blockNumber'', ''eth_gasPrice'',
     ''eth_maxPriorityFeePerGas'', ''eth_blobBaseFee'', ''eth_getBalance'', ''eth_getTransactionCount'', ''eth_getStorageAt'',
     ''eth_call'', ''eth_estimateGas'', ''eth_syncing'']"

definition MEDIUM_READS :: "string list" where
  "MEDIUM_READS = [''eth_getCode'', ''eth_getTransactionByHash'', ''eth_getTransactionReceipt'', ''eth_feeHistory'', ''eth_getProof'',
     ''eth_createAccessList'', ''eth_getBlockByNumber'', ''eth_getBlockByHash'']"

definition LARGE_READS :: "string list" where
  "LARGE_READS = [''eth_getLogs'', ''eth_getBlockReceipts'']"

definition WRITES :: "string list" where
  "WRITES = [''eth_sendRawTransaction'']"

definition BLOCK_METHODS :: "string list" where
  "BLOCK_METHODS = [''eth_getBlockByNumber'', ''eth_getBlockByHash'']"

record request_profile =
  pf_class :: rpc_class
  pf_expected :: "nat option"
  pf_retryable :: bool
  pf_opKey :: string
  pf_method :: "string option"

definition OTHER_OP_KEY :: string where
  "OTHER_OP_KEY = ''http:other''"

definition OTHER_PROFILE :: request_profile where
  "OTHER_PROFILE = \<lparr>pf_class = RpcOther, pf_expected = None, pf_retryable = False, pf_opKey = OTHER_OP_KEY, pf_method = None\<rparr>"

definition classifyCall :: "string \<Rightarrow> json \<Rightarrow> rpc_class" where
  "classifyCall meth params =
     (if meth \<in> set BLOCK_METHODS \<and> (case params of JsArr (_ # full # _) \<Rightarrow> full = JsBool True | _ \<Rightarrow> False) then RpcLarge
      else if meth \<in> set SMALL_READS then RpcSmall
      else if meth \<in> set MEDIUM_READS then RpcMedium
      else if meth \<in> set LARGE_READS then RpcLarge
      else if meth \<in> set WRITES then RpcWrite
      else RpcOther)"

definition method_char :: "char \<Rightarrow> bool" where
  "method_char c = (code_in 65 90 c \<or> code_in 97 122 c \<or> code_in 48 57 c \<or> c = CHR ''_'')"

definition safeMethodName :: "string \<Rightarrow> string" where
  "safeMethodName meth = (if 1 \<le> length meth \<and> length meth \<le> 64 \<and> list_all method_char meth then meth else ''nonstandard'')"

definition firstNonSpace :: "bytes \<Rightarrow> byte option" where
  "firstNonSpace bs = (case dropWhile (\<lambda>b. unat b \<in> {0x20, 0x09, 0x0a, 0x0d}) bs of [] \<Rightarrow> None | b # _ \<Rightarrow> Some b)"

definition js_includes :: "string \<Rightarrow> string \<Rightarrow> bool" where
  "js_includes pat s = list_ex (\<lambda>i. prefix pat (drop i s)) [0..<Suc (length s)]"

definition looks_json :: "string option \<Rightarrow> bytes \<Rightarrow> bool" where
  "looks_json contentType bs =
     ((case contentType of None \<Rightarrow> False | Some ct \<Rightarrow> js_includes ''json'' (toLowerCase ct))
      \<or> (case firstNonSpace bs of None \<Rightarrow> False | Some b \<Rightarrow> unat b = 0x7b \<or> unat b = 0x5b))"

text \<open>The methods and classes of the calls; \<open>None\<close> when one is not a JSON-RPC call.\<close>

fun classify_calls :: "json list \<Rightarrow> (string \<times> rpc_class) list option" where
  "classify_calls [] = Some []"
| "classify_calls (c # cs) =
     (if \<not> isRecord c then None
      else (case json_field c ''method'' of
          JsStr m \<Rightarrow> if m = [] then None
            else map_option (\<lambda>r. (m, classifyCall m (json_field c ''params'')) # r) (classify_calls cs)
        | _ \<Rightarrow> None))"

definition single_profile :: "string \<times> rpc_class \<Rightarrow> request_profile" where
  "single_profile mc = (case mc of (m, cls) \<Rightarrow>
     \<lparr>pf_class = cls, pf_expected = (if cls = RpcOther then None else Some (CLASS_REPLY_BYTES cls)),
      pf_retryable = (cls = RpcSmall \<or> cls = RpcMedium),
      pf_opKey = (if cls = RpcOther then OTHER_OP_KEY else ''http:jsonrpc:'' @ safeMethodName m),
      pf_method = Some (safeMethodName m)\<rparr>)"

definition batch_profile :: "rpc_class list \<Rightarrow> request_profile" where
  "batch_profile classes =
     (let reads = list_all (\<lambda>c. c = RpcSmall \<or> c = RpcMedium) classes;
          sized = list_all (\<lambda>c. c \<noteq> RpcOther) classes;
          total = sum_list (map CLASS_REPLY_BYTES classes);
          cls = (if \<not> sized then RpcOther
                 else if RpcWrite \<in> set classes then RpcWrite
                 else if reads then (if RpcMedium \<in> set classes then RpcMedium else RpcSmall)
                 else RpcLarge) in
      \<lparr>pf_class = cls, pf_expected = (if sized then Some (min total (CLASS_REPLY_BYTES RpcLarge)) else None), pf_retryable = reads,
       pf_opKey = ''http:jsonrpc:batch'', pf_method = Some ''batch''\<rparr>)"

definition profileRequest :: "(bytes \<Rightarrow> json option) \<Rightarrow> string \<Rightarrow> string option \<Rightarrow> bytes \<Rightarrow> request_profile" where
  "profileRequest parse meth contentType bs =
     (if meth \<noteq> ''POST'' \<or> bs = [] then OTHER_PROFILE
      else if \<not> looks_json contentType bs then OTHER_PROFILE
      else (case parse bs of
          None \<Rightarrow> OTHER_PROFILE
        | Some v \<Rightarrow>
            (case classify_calls (case v of JsArr calls \<Rightarrow> calls | _ \<Rightarrow> [v]) of
               None \<Rightarrow> OTHER_PROFILE
             | Some [] \<Rightarrow> OTHER_PROFILE
             | Some (mc # mcs) \<Rightarrow>
                 (case v of JsArr _ \<Rightarrow> batch_profile (map snd (mc # mcs)) | _ \<Rightarrow> single_profile mc))))"

subsection \<open>Facts\<close>

definition body_calls :: "json \<Rightarrow> json list" where
  "body_calls v = (case v of JsArr calls \<Rightarrow> calls | _ \<Rightarrow> [v])"

lemma classify_calls_Some:
  "classify_calls cs = Some r \<Longrightarrow> length r = length cs \<and> (\<forall>i < length cs. json_field (cs ! i) ''method'' = JsStr (fst (r ! i))
     \<and> snd (r ! i) = classifyCall (fst (r ! i)) (json_field (cs ! i) ''params''))"
proof (induction cs arbitrary: r)
  case (Cons c cs)
  then obtain m r' where m: "json_field c ''method'' = JsStr m" "classify_calls cs = Some r'"
    "r = (m, classifyCall m (json_field c ''params'')) # r'" by (auto split: if_splits json.splits)
  have "json_field ((c # cs) ! i) ''method'' = JsStr (fst (r ! i))
      \<and> snd (r ! i) = classifyCall (fst (r ! i)) (json_field ((c # cs) ! i) ''params'')" if "i < length (c # cs)" for i
    using that m Cons.IH[OF m(2)] by (cases i) auto
  then show ?case using m Cons.IH[OF m(2)] by simp
qed simp

text \<open>
  Only reads are resent. A request is marked resendable only when its body is JSON-RPC in which every call, of a batch too, names one of the small or
  medium reads, none of which sends a transaction; and the reply size it announces is at least that of each of its calls, up to 300,000 bytes.
\<close>

theorem only_reads_resent:
  assumes "pf_retryable (profileRequest parse meth contentType bs)"
  shows "\<exists>v. parse bs = Some v \<and> body_calls v \<noteq> []
    \<and> (\<forall>call \<in> set (body_calls v). \<exists>m. json_field call ''method'' = JsStr m \<and> m \<in> set (SMALL_READS @ MEDIUM_READS) \<and> m \<notin> set WRITES)
    \<and> (\<exists>n. pf_expected (profileRequest parse meth contentType bs) = Some n
        \<and> (\<forall>call \<in> set (body_calls v). min (CLASS_REPLY_BYTES (classifyCall (as_str (json_field call ''method'')) (json_field call ''params''))) 300000 \<le> n))"
proof -
  from assms obtain v mc mcs where v: "parse bs = Some v" "classify_calls (body_calls v) = Some (mc # mcs)"
    and p: "profileRequest parse meth contentType bs = (case v of JsArr _ \<Rightarrow> batch_profile (map snd (mc # mcs)) | _ \<Rightarrow> single_profile mc)"
    unfolding profileRequest_def body_calls_def by (auto simp: OTHER_PROFILE_def split: if_splits option.splits list.splits)
  note calls = classify_calls_Some[OF v(2)]
  have one: "mcs = []" if "\<forall>xs. v \<noteq> JsArr xs" using that calls by (auto simp: body_calls_def split: json.splits)
  have sub: "snd x = RpcSmall \<or> snd x = RpcMedium" if "x \<in> set (mc # mcs)" for x
    using assms p one that by (cases "\<exists>xs. v = JsArr xs")
      (auto simp: single_profile_def batch_profile_def Let_def list_all_iff split: prod.splits json.splits)
  have named: "m \<in> set (SMALL_READS @ MEDIUM_READS) \<and> m \<notin> set WRITES" if "classifyCall m ps = RpcSmall \<or> classifyCall m ps = RpcMedium" for m ps
    using that by (auto simp: classifyCall_def WRITES_def SMALL_READS_def MEDIUM_READS_def split: if_splits)
  have each: "\<exists>m. json_field call ''method'' = JsStr m \<and> m \<in> set (SMALL_READS @ MEDIUM_READS) \<and> m \<notin> set WRITES"
    and cls: "\<exists>x \<in> set (mc # mcs). snd x = classifyCall (as_str (json_field call ''method'')) (json_field call ''params'')"
    if c: "call \<in> set (body_calls v)" for call
  proof -
    obtain i where i: "i < length (body_calls v)" "call = body_calls v ! i" using c by (metis in_set_conv_nth)
    let ?x = "(mc # mcs) ! i"
    have x: "?x \<in> set (mc # mcs)" using i calls by (metis nth_mem)
    have f: "json_field call ''method'' = JsStr (fst ?x)" "snd ?x = classifyCall (fst ?x) (json_field call ''params'')" using calls i by auto
    show "\<exists>m. json_field call ''method'' = JsStr m \<and> m \<in> set (SMALL_READS @ MEDIUM_READS) \<and> m \<notin> set WRITES"
      using f named[of "fst ?x" "json_field call ''params''"] sub[OF x] by auto
    show "\<exists>x \<in> set (mc # mcs). snd x = classifyCall (as_str (json_field call ''method'')) (json_field call ''params'')"
      using x f by (auto simp: as_str_def)
  qed
  have sized: "pf_expected (profileRequest parse meth contentType bs)
      = Some (if \<exists>xs. v = JsArr xs then min (sum_list (map CLASS_REPLY_BYTES (map snd (mc # mcs)))) 300000 else CLASS_REPLY_BYTES (snd mc))"
  proof (cases "\<exists>xs. v = JsArr xs")
    case True
    then have "profileRequest parse meth contentType bs = batch_profile (map snd (mc # mcs))" using p by auto
    moreover have "list_all (\<lambda>c. c \<noteq> RpcOther) (map snd (mc # mcs))" unfolding list_all_iff
    proof
      fix c assume "c \<in> set (map snd (mc # mcs))"
      then obtain x where "x \<in> set (mc # mcs)" "c = snd x" unfolding set_map by blast
      then show "c \<noteq> RpcOther" using sub[of x] by auto
    qed
    ultimately show ?thesis using True by (simp add: batch_profile_def Let_def CLASS_REPLY_BYTES_def)
  next
    case False
    then have "profileRequest parse meth contentType bs = single_profile mc" using p by (cases v) auto
    then show ?thesis using False sub[of mc] by (auto simp: single_profile_def split: prod.splits)
  qed
  have "min (CLASS_REPLY_BYTES (snd x)) 300000 \<le> (if \<exists>xs. v = JsArr xs then min (sum_list (map CLASS_REPLY_BYTES (map snd (mc # mcs)))) 300000 else CLASS_REPLY_BYTES (snd mc))"
    if "x \<in> set (mc # mcs)" for x
  proof (cases "\<exists>xs. v = JsArr xs")
    case True
    have "CLASS_REPLY_BYTES (snd x) \<le> sum_list (map CLASS_REPLY_BYTES (map snd (mc # mcs)))"
      using that by (intro member_le_sum_list) force+
    then show ?thesis using True by simp
  qed (use that one in auto)
  then have "\<forall>call \<in> set (body_calls v). min (CLASS_REPLY_BYTES (classifyCall (as_str (json_field call ''method'')) (json_field call ''params''))) 300000
      \<le> (if \<exists>xs. v = JsArr xs then min (sum_list (map CLASS_REPLY_BYTES (map snd (mc # mcs)))) 300000 else CLASS_REPLY_BYTES (snd mc))"
    using cls by metis
  moreover have "body_calls v \<noteq> []" using calls by auto
  ultimately show ?thesis using v(1) each sized by blast
qed

definition demo_body :: json where
  "demo_body = JsArr [JsObj [(''method'', JsStr ''eth_call'')], JsObj [(''method'', JsStr ''eth_getProof''), (''params'', JsArr [])]]"

lemma demo_profile: "pf_retryable (profileRequest (\<lambda>_. Some demo_body) ''POST'' None [0x5b]) \<and>
    pf_expected (profileRequest (\<lambda>_. Some demo_body) ''POST'' None [0x5b]) = Some 150000"
  by (simp add: profileRequest_def looks_json_def firstNonSpace_def demo_body_def isRecord_def json_field_def jsmap_get_def classifyCall_def
      BLOCK_METHODS_def SMALL_READS_def MEDIUM_READS_def batch_profile_def CLASS_REPLY_BYTES_def)

theorem only_reads_resent_witness: "body_calls demo_body \<noteq> [] \<and> (\<exists>m. json_field (hd (body_calls demo_body)) ''method'' = JsStr m \<and> m \<notin> set WRITES)"
proof -
  have c: "hd (body_calls demo_body) \<in> set (body_calls demo_body)" by (simp add: body_calls_def demo_body_def)
  then have "body_calls demo_body \<noteq> []" by auto
  then show ?thesis using only_reads_resent[OF conjunct1[OF demo_profile]] c by blast
qed

end
