(* ===== verification/Worker_Fetch.thy ===== *)
theory Worker_Fetch
  imports Worker_Rpc
begin

section \<open>Fetch calls of the worker\<close>

text \<open>
  \<open>packages/anon-rpc-worker/src/fetch-map.ts\<close>: a call is validated (\<open>prepareRequest\<close>), sent hop by hop with fetch's redirect
  rules (\<open>sendPrepared\<close>) and its reply mapped (\<open>finishResponse\<close>). The URL parser, the JSON parser, gzip inflation, the transport of a
  hop and the time left are parameters. Text has code units below 256: a header with any other is dropped or refused by the same tests.
\<close>

datatype call_code =
    CallCancelled | CallTimeout | CallNetworkError | CallTooLarge | CallUnsupported | CallProtocolError | CallPermissionDenied | CallInternalError

datatype call_error = CallError call_code string

type_synonym 'a call_result = "call_error + 'a"

abbreviation callError :: "call_code \<Rightarrow> string \<Rightarrow> 'a call_result" where
  "callError c msg \<equiv> Inl (CallError c msg)"

fun call_bind :: "'a call_result \<Rightarrow> ('a \<Rightarrow> 'b call_result) \<Rightarrow> 'b call_result" where
  "call_bind (Inl e) k = Inl e"
| "call_bind (Inr x) k = k x"

lemma call_bind_Inr: "call_bind m k = Inr y \<longleftrightarrow> (\<exists>x. m = Inr x \<and> k x = Inr y)"
  by (cases m) auto

datatype reply_encoding = Gzip | Identity

datatype redirect_mode = Follow | Manual | ErrorMode

record fetch_settings =
  fs_attemptTimeoutMs :: int
  fs_maxRequestBytes :: nat
  fs_maxResponseBytes :: nat
  fs_acceptEncoding :: reply_encoding

record prepared_request =
  pr_method :: string
  pr_url :: string
  pr_headers :: "(string \<times> string) list"
  pr_body :: bytes
  pr_redirect :: redirect_mode
  pr_profile :: request_profile

text \<open>A parsed URL; \<open>u_href\<close> is its text once the fragment was cleared.\<close>

record url_parts =
  u_protocol :: string
  u_origin :: string
  u_href :: string
  u_hostname :: string
  u_port :: string
  u_path :: string
  u_credentials :: "string option"

type_synonym url_parser = "string \<Rightarrow> string option \<Rightarrow> url_parts option"

definition RESPONSE_ENVELOPE_ALLOWANCE :: nat where
  "RESPONSE_ENVELOPE_ALLOWANCE = 65536"

definition MAX_URL_LENGTH :: nat where
  "MAX_URL_LENGTH = 8192"

definition MAX_REQUEST_HEADER_BYTES :: nat where
  "MAX_REQUEST_HEADER_BYTES = 65536"

definition FIELD_VALUE_RE :: "string \<Rightarrow> bool" where
  "FIELD_VALUE_RE s = list_all (\<lambda>c. (of_char c :: nat) = 9 \<or> code_in 32 126 c \<or> code_in 128 255 c) s"

definition NORMALIZED_METHODS :: "string list" where
  "NORMALIZED_METHODS = [''DELETE'', ''GET'', ''HEAD'', ''OPTIONS'', ''POST'', ''PUT'']"

definition FORBIDDEN_METHODS :: "string list" where
  "FORBIDDEN_METHODS = [''CONNECT'', ''TRACE'', ''TRACK'']"

definition SAFE_METHODS :: "string list" where
  "SAFE_METHODS = [''GET'', ''HEAD'', ''OPTIONS'']"

definition MAX_REDIRECT_HOPS :: nat where
  "MAX_REDIRECT_HOPS = 5"

definition REDIRECT_STATUSES :: "int list" where
  "REDIRECT_STATUSES = [301, 302, 303, 307, 308]"

definition REQUEST_BODY_HEADERS :: "string list" where
  "REQUEST_BODY_HEADERS = [''content-encoding'', ''content-language'', ''content-location'', ''content-type'']"

definition CROSS_ORIGIN_DROPPED_HEADERS :: "string list" where
  "CROSS_ORIGIN_DROPPED_HEADERS = [''authorization'', ''cookie'']"

definition DROPPED_REQUEST_HEADERS :: "string list" where
  "DROPPED_REQUEST_HEADERS = [''host'', ''user-agent'', ''connection'', ''keep-alive'', ''te'', ''trailer'', ''transfer-encoding'', ''upgrade'',
     ''content-length'', ''expect'', ''cookie'', ''origin'', ''referer'', ''accept-encoding'']"

definition GZIP_CODINGS :: "string list" where
  "GZIP_CODINGS = [''gzip'', ''x-gzip'']"

definition DROPPED_RESPONSE_HEADERS :: "string list" where
  "DROPPED_RESPONSE_HEADERS = [''content-length'', ''content-encoding'', ''transfer-encoding'', ''connection'', ''keep-alive'',
     ''proxy-connection'', ''te'', ''trailer'', ''upgrade'', ''set-cookie'']"

text \<open>\<open>headers.find(([name]) => name.toLowerCase() === wanted)?.[1]\<close>.\<close>

definition find_header :: "string \<Rightarrow> (string \<times> string) list \<Rightarrow> string option" where
  "find_header wanted hs = map_option snd (List.find (\<lambda>(name, _). toLowerCase name = wanted) hs)"

definition without_headers :: "string list \<Rightarrow> (string \<times> string) list \<Rightarrow> (string \<times> string) list" where
  "without_headers names hs = filter (\<lambda>(name, _). toLowerCase name \<notin> set names) hs"

subsection \<open>Validating a call\<close>

definition http_scheme :: "string \<Rightarrow> bool" where
  "http_scheme p = (p = ''http:'' \<or> p = ''https:'')"

definition parseTargetUrl :: "url_parser \<Rightarrow> json \<Rightarrow> string call_result" where
  "parseTargetUrl urls rawUrl =
     (case rawUrl of
        JsStr s \<Rightarrow>
          if s = [] then callError CallUnsupported ''The call has no URL''
          else if length s > MAX_URL_LENGTH then callError CallTooLarge ''The URL is too long''
          else (case urls s None of
              None \<Rightarrow> callError CallUnsupported ''The URL is not absolute''
            | Some u \<Rightarrow> if http_scheme (u_protocol u) then Inr (u_href u)
                else callError CallUnsupported ''This worker serves absolute http(s) URLs'')
      | _ \<Rightarrow> callError CallUnsupported ''The call has no URL'')"

definition upper_char :: "char \<Rightarrow> char" where
  "upper_char c = (if code_in 97 122 c then char_of (of_char c - 32 :: nat) else c)"

definition normalizeMethod :: "json \<Rightarrow> string call_result" where
  "normalizeMethod v =
     (case v of
        JsUndef \<Rightarrow> Inr ''GET''
      | JsStr m \<Rightarrow>
          if \<not> TOKEN_RE m then callError CallUnsupported ''The request method is not an HTTP token''
          else
            (let upper = map upper_char m in
             if upper \<in> set FORBIDDEN_METHODS then callError CallUnsupported ''The method is not carried''
             else Inr (if upper \<in> set NORMALIZED_METHODS then upper else m))
      | _ \<Rightarrow> callError CallUnsupported ''The request method is not an HTTP token'')"

definition redirectMode :: "json \<Rightarrow> redirect_mode call_result" where
  "redirectMode v =
     (if v = JsUndef \<or> v = JsNull \<or> v = JsStr ''follow'' then Inr Follow
      else if v = JsStr ''manual'' then Inr Manual
      else if v = JsStr ''error'' then Inr ErrorMode
      else callError CallUnsupported ''redirect must be follow, manual or error'')"

definition encoding_name :: "reply_encoding \<Rightarrow> string" where
  "encoding_name e = (case e of Gzip \<Rightarrow> ''gzip'' | Identity \<Rightarrow> ''identity'')"

definition trim_field :: "string \<Rightarrow> string" where
  "trim_field = strip_both (\<lambda>c. (of_char c :: nat) \<in> {9, 32})"

text \<open>\<open>used\<close> counts the header bytes accepted so far.\<close>

fun prepare_list :: "nat \<Rightarrow> json list \<Rightarrow> (string \<times> string) list call_result" where
  "prepare_list used [] = Inr []"
| "prepare_list used (p # ps) =
     (case p of
        JsArr [JsStr name, JsStr raw] \<Rightarrow>
          (let val = trim_field raw; lower = toLowerCase name in
           if \<not> TOKEN_RE name then callError CallUnsupported ''A request header name is not an HTTP token''
           else if \<not> FIELD_VALUE_RE val then callError CallUnsupported ''A request header value has a control character''
           else if lower \<in> set DROPPED_REQUEST_HEADERS \<or> prefix ''proxy-'' lower then prepare_list used ps
           else
             (let total = used + length name + length val + 4 in
              if total > MAX_REQUEST_HEADER_BYTES then callError CallTooLarge ''Request headers exceed the limit''
              else call_bind (prepare_list total ps) (\<lambda>hs. Inr ((name, val) # hs))))
      | _ \<Rightarrow> callError CallUnsupported ''headers must be a list of [name, value] string pairs'')"

definition prepareHeaders :: "json \<Rightarrow> reply_encoding \<Rightarrow> (string \<times> string) list call_result" where
  "prepareHeaders headerList encoding =
     (let accepted = [(''accept-encoding'', encoding_name encoding)] in
      case headerList of
        JsUndef \<Rightarrow> Inr accepted
      | JsArr ps \<Rightarrow> call_bind (prepare_list 0 ps) (\<lambda>hs. Inr (hs @ accepted))
      | _ \<Rightarrow> callError CallUnsupported ''headers must be a list of [name, value] pairs'')"

text \<open>
  A body is absent, bytes, a stream of the chunks its reader returns, or something else. The signal may abort before the first read or
  after the last one; a read that fails then gives the signal's reason.
\<close>

datatype body_chunk = BodyBytes bytes | NotBytes | ReadFails

datatype byte_body = NoBody | WholeBody bytes | BodyStream "body_chunk list" | OtherBody

fun read_chunks :: "nat \<Rightarrow> call_error option \<Rightarrow> bytes \<Rightarrow> body_chunk list \<Rightarrow> bytes call_result" where
  "read_chunks limit aborted acc [] = (case aborted of Some reason \<Rightarrow> Inl reason | None \<Rightarrow> Inr acc)"
| "read_chunks limit aborted acc (c # cs) =
     (case c of
        ReadFails \<Rightarrow> (case aborted of Some reason \<Rightarrow> Inl reason | None \<Rightarrow> callError CallNetworkError ''The request body stream failed'')
      | NotBytes \<Rightarrow> callError CallUnsupported ''The request body stream yielded a chunk that is not a Uint8Array''
      | BodyBytes bs \<Rightarrow>
          if length acc + length bs > limit then callError CallTooLarge ''The request body exceeds the limit''
          else read_chunks limit aborted (acc @ bs) cs)"

definition readBody :: "byte_body \<Rightarrow> nat \<Rightarrow> call_error option \<Rightarrow> call_error option \<Rightarrow> bytes call_result" where
  "readBody src limit abortedBefore abortedLater =
     (case src of
        NoBody \<Rightarrow> Inr []
      | WholeBody bs \<Rightarrow> if length bs > limit then callError CallTooLarge ''The request body exceeds the limit'' else Inr bs
      | OtherBody \<Rightarrow> callError CallUnsupported ''The request body must be a Uint8Array or a ReadableStream of bytes''
      | BodyStream cs \<Rightarrow> (case abortedBefore of Some reason \<Rightarrow> Inl reason | None \<Rightarrow> read_chunks limit abortedLater [] cs))"

definition prepareRequest ::
  "url_parser \<Rightarrow> (bytes \<Rightarrow> json option) \<Rightarrow> fetch_settings \<Rightarrow> json \<Rightarrow> json \<Rightarrow> json \<Rightarrow> json \<Rightarrow> byte_body
     \<Rightarrow> call_error option \<Rightarrow> call_error option \<Rightarrow> prepared_request call_result" where
  "prepareRequest urls parse settings rawUrl rawMethod rawRedirect rawHeaders src abortedBefore abortedLater =
     call_bind (parseTargetUrl urls rawUrl) (\<lambda>url.
     call_bind (normalizeMethod rawMethod) (\<lambda>meth.
     call_bind (redirectMode rawRedirect) (\<lambda>redirect.
     call_bind (prepareHeaders rawHeaders (fs_acceptEncoding settings)) (\<lambda>hs.
     call_bind (readBody src (fs_maxRequestBytes settings) abortedBefore abortedLater) (\<lambda>bs.
       if (meth = ''GET'' \<or> meth = ''HEAD'') \<and> bs \<noteq> [] then callError CallUnsupported ''A GET or HEAD request cannot carry a body''
       else Inr \<lparr>pr_method = meth, pr_url = url, pr_headers = hs, pr_body = bs, pr_redirect = redirect,
              pr_profile = profileRequest parse meth (find_header ''content-type'' hs) bs\<rparr>)))))"


subsection \<open>Redirects\<close>

definition redirectTarget :: "url_parser \<Rightarrow> string \<Rightarrow> string \<Rightarrow> string call_result" where
  "redirectTarget urls location base =
     (case urls location (Some base) of
        None \<Rightarrow> callError CallNetworkError ''Redirect refused: the Location header is not a valid URL''
      | Some u \<Rightarrow>
          if \<not> http_scheme (u_protocol u) then callError CallNetworkError ''Redirect refused: the target scheme is not http(s)''
          else if length (u_href u) > MAX_URL_LENGTH then callError CallNetworkError ''Redirect refused: the target URL is too long''
          else Inr (u_href u))"

text \<open>\<open>new URL(x).origin\<close> of a URL that parsed before.\<close>

definition origin_of :: "url_parser \<Rightarrow> string \<Rightarrow> string option" where
  "origin_of urls url = map_option u_origin (urls url None)"

definition turns_to_get :: "int \<Rightarrow> string \<Rightarrow> bool" where
  "turns_to_get status meth =
     (if status = 303 then meth \<noteq> ''GET'' \<and> meth \<noteq> ''HEAD'' else (status = 301 \<or> status = 302) \<and> meth = ''POST'')"

definition redirectedRequest ::
  "url_parser \<Rightarrow> (bytes \<Rightarrow> json option) \<Rightarrow> prepared_request \<Rightarrow> int \<Rightarrow> string \<Rightarrow> prepared_request option call_result" where
  "redirectedRequest urls parse r status location =
     call_bind (redirectTarget urls location (pr_url r)) (\<lambda>url.
       (let toGet = turns_to_get status (pr_method r) in
        if toGet \<and> pf_class (pr_profile r) = RpcWrite then Inr None
        else
          (let h1 = (if toGet then without_headers REQUEST_BODY_HEADERS (pr_headers r) else pr_headers r);
               h2 = (if origin_of urls url \<noteq> origin_of urls (pr_url r) then without_headers CROSS_ORIGIN_DROPPED_HEADERS h1 else h1);
               meth = (if toGet then ''GET'' else pr_method r);
               bs = (if toGet then [] else pr_body r) in
           Inr (Some \<lparr>pr_method = meth, pr_url = url, pr_headers = h2, pr_body = bs, pr_redirect = pr_redirect r,
             pr_profile = (if toGet then profileRequest parse meth (find_header ''content-type'' h2) bs else pr_profile r)\<rparr>))))"

subsection \<open>Replies\<close>

record exit_reply =
  er_status :: int
  er_headers :: "(string \<times> string) list"
  er_body :: bytes
  er_truncated :: bool

record anon_response =
  ar_status :: int
  ar_headers :: "(string \<times> string) list"
  ar_body :: bytes
  ar_url :: string

definition checkStatus :: "exit_reply \<Rightarrow> unit call_result" where
  "checkStatus reply =
     (if er_status reply < 200 \<or> er_status reply > 599 then callError CallProtocolError ''The exit returned a status outside 200-599'' else Inr ())"

text \<open>The chunks a decompression stream yields, and whether it ends without an error; \<open>None\<close> where the runtime has no such stream.\<close>

type_synonym inflater = "(bytes \<Rightarrow> bytes list \<times> bool) option"

fun collect_inflated :: "nat \<Rightarrow> bytes \<Rightarrow> bytes list \<Rightarrow> bool \<Rightarrow> bytes call_result" where
  "collect_inflated maxBytes acc [] ok = (if ok then Inr acc else callError CallProtocolError ''The upstream gzip body is corrupt'')"
| "collect_inflated maxBytes acc (c # cs) ok =
     (if length acc + length c > maxBytes then callError CallTooLarge ''The response body inflates past the limit''
      else collect_inflated maxBytes (acc @ c) cs ok)"

definition inflateReply :: "inflater \<Rightarrow> exit_reply \<Rightarrow> nat \<Rightarrow> exit_reply call_result" where
  "inflateReply gunzip reply maxBytes =
     (case find_header ''content-encoding'' (er_headers reply) of
        None \<Rightarrow> Inr reply
      | Some coding \<Rightarrow>
          if toLowerCase (js_trim coding) \<notin> set GZIP_CODINGS then Inr reply
          else
            (let r1 = reply\<lparr>er_headers := without_headers [''content-encoding''] (er_headers reply)\<rparr> in
             if er_body reply = [] then Inr r1
             else (case gunzip of
                 None \<Rightarrow> callError CallProtocolError ''The upstream sent a gzip body and this runtime cannot inflate it''
               | Some f \<Rightarrow> (case f (er_body reply) of (chunks, ok) \<Rightarrow>
                   call_bind (collect_inflated maxBytes [] chunks ok) (\<lambda>bs. Inr (r1\<lparr>er_body := bs\<rparr>))))))"

fun response_headers :: "(string \<times> string) list \<Rightarrow> (string \<times> string) list call_result" where
  "response_headers [] = Inr []"
| "response_headers ((name, val) # hs) =
     (let lower = toLowerCase name in
      if lower = ''content-encoding'' \<and> toLowerCase (js_trim val) \<noteq> ''identity''
      then callError CallProtocolError ''The upstream sent an encoded body; this worker accepts identity and gzip''
      else if lower \<in> set DROPPED_RESPONSE_HEADERS \<or> \<not> TOKEN_RE name \<or> \<not> FIELD_VALUE_RE val then response_headers hs
      else call_bind (response_headers hs) (\<lambda>rest. Inr ((lower, val) # rest)))"

text \<open>A stable sort by name.\<close>

fun insert_header :: "string \<times> string \<Rightarrow> (string \<times> string) list \<Rightarrow> (string \<times> string) list" where
  "insert_header h [] = [h]"
| "insert_header h (g # gs) = (if js_less (fst g) (fst h) then g # insert_header h gs else h # g # gs)"

definition sort_headers :: "(string \<times> string) list \<Rightarrow> (string \<times> string) list" where
  "sort_headers hs = foldr insert_header hs []"

definition toAnonResponse :: "exit_reply \<Rightarrow> string \<Rightarrow> nat \<Rightarrow> anon_response call_result" where
  "toAnonResponse reply url maxBytes =
     call_bind (checkStatus reply) (\<lambda>_.
       if er_truncated reply then callError CallTooLarge ''The exit cut the response body at its response size limit''
       else if length (er_body reply) > maxBytes then callError CallTooLarge ''The response body is over the limit''
       else call_bind (response_headers (er_headers reply)) (\<lambda>hs.
         Inr \<lparr>ar_status = er_status reply, ar_headers = sort_headers hs, ar_body = er_body reply, ar_url = url\<rparr>))"

definition finishResponse :: "inflater \<Rightarrow> exit_reply \<Rightarrow> string \<Rightarrow> nat \<Rightarrow> anon_response call_result" where
  "finishResponse gunzip reply url maxBytes =
     call_bind (checkStatus reply) (\<lambda>_.
       if er_truncated reply then callError CallTooLarge ''The exit cut the response body at its response size limit''
       else call_bind (inflateReply gunzip reply maxBytes) (\<lambda>r. toAnonResponse r url maxBytes))"

subsection \<open>Client failures\<close>

text \<open>What the client throws: a worker error, or a value with a \<open>code\<close> and the KPS codes along its chain of causes.\<close>

datatype client_failure =
    WorkerFailure call_error
  | ClientFailure "string option" "string option list"

definition MAX_CAUSE_DEPTH :: nat where
  "MAX_CAUSE_DEPTH = 5"

definition kpsCodeInChain :: "string option list \<Rightarrow> string option" where
  "kpsCodeInChain causes = (case filter (\<lambda>c. c \<noteq> None) (take (MAX_CAUSE_DEPTH + 1) causes) of [] \<Rightarrow> None | c # _ \<Rightarrow> c)"

definition mapClientError :: "client_failure \<Rightarrow> call_error" where
  "mapClientError failure =
     (case failure of
        WorkerFailure e \<Rightarrow> e
      | ClientFailure code causes \<Rightarrow>
          if code = Some ''RESPONSE_TIMEOUT'' then CallError CallTimeout ''No reply through the mixnet in time''
          else if code = Some ''TRANSPORT_FAILED'' then
            (if kpsCodeInChain causes = Some ''timeout'' then CallError CallTimeout ''The entry did not answer in time''
             else CallError CallNetworkError ''The entry could not be reached'')
          else if code \<in> Some ` set [''KPS_UNAVAILABLE'', ''NO_NODES_AVAILABLE'', ''SURB_V2_UNAVAILABLE'', ''TOPOLOGY_STALE'',
              ''TOPOLOGY_FETCH_FAILED'', ''TOPOLOGY_VERIFICATION_FAILED''] then CallError CallNetworkError ''No usable route right now''
          else if code = Some ''RESPONSE_TOO_LARGE'' then CallError CallTooLarge ''The reply exceeds the response size limit''
          else if code = Some ''DECRYPTION_FAILED'' then CallError CallProtocolError ''The reply could not be decoded''
          else CallError CallInternalError ''The Nox client failed'')"

subsection \<open>Sending\<close>

record http_options =
  ho_timeoutMs :: int
  ho_opKey :: string
  ho_minSurbs :: nat
  ho_retryRoute :: bool
  ho_maxResponseBytes :: nat
  ho_expectedResponseBytes :: "nat option"

definition resendable :: "prepared_request \<Rightarrow> bool" where
  "resendable r = (pf_retryable (pr_profile r) \<or> pf_class (pr_profile r) = RpcOther \<and> pr_method r \<in> set SAFE_METHODS)"

definition exchange_options :: "fetch_settings \<Rightarrow> int \<Rightarrow> prepared_request \<Rightarrow> http_options" where
  "exchange_options settings remaining r =
     \<lparr>ho_timeoutMs = (if resendable r then min (fs_attemptTimeoutMs settings) remaining else remaining),
      ho_opKey = pf_opKey (pr_profile r), ho_minSurbs = MIN_SURBS, ho_retryRoute = resendable r,
      ho_maxResponseBytes = fs_maxResponseBytes settings + RESPONSE_ENVELOPE_ALLOWANCE,
      ho_expectedResponseBytes = pf_expected (pr_profile r)\<rparr>"

text \<open>The client's answer is bytes or a failure; \<open>aborted\<close> is the call's signal after a failure, \<open>decode\<close> the exit's reply format.\<close>

definition http_exchange ::
  "(bytes \<Rightarrow> exit_reply option) \<Rightarrow> (prepared_request \<Rightarrow> http_options \<Rightarrow> client_failure + bytes) \<Rightarrow> call_error option
     \<Rightarrow> fetch_settings \<Rightarrow> int \<Rightarrow> prepared_request \<Rightarrow> exit_reply call_result" where
  "http_exchange decode port aborted settings remaining r =
     (case port r (exchange_options settings remaining r) of
        Inl failure \<Rightarrow> (case aborted of Some reason \<Rightarrow> Inl reason | None \<Rightarrow> Inl (mapClientError failure))
      | Inr bs \<Rightarrow> (case decode bs of None \<Rightarrow> callError CallProtocolError ''The exit reply could not be decoded'' | Some reply \<Rightarrow> Inr reply))"

datatype hop_via = ViaTunnel | ViaHttp

text \<open>
  \<open>route\<close> is the choice of the tunnels for a hop (always \<open>ViaHttp\<close> without tunnels), \<open>send\<close> one exchange of hop \<open>hop\<close>, and \<open>remaining\<close> the time left after
  it. The result lists the exchanges in order.
\<close>

function send_hops ::
  "url_parser \<Rightarrow> (bytes \<Rightarrow> json option) \<Rightarrow> inflater \<Rightarrow> fetch_settings \<Rightarrow> (prepared_request \<Rightarrow> nat \<Rightarrow> bool \<Rightarrow> hop_via call_result)
     \<Rightarrow> (nat \<Rightarrow> hop_via \<Rightarrow> prepared_request \<Rightarrow> exit_reply call_result) \<Rightarrow> (nat \<Rightarrow> int) \<Rightarrow> nat \<Rightarrow> bool \<Rightarrow> prepared_request
     \<Rightarrow> (hop_via \<times> prepared_request) list \<times> anon_response call_result" where
  "send_hops urls parse gunzip settings route send remaining hop onTunnel r =
     (case route r hop onTunnel of
        Inl e \<Rightarrow> ([], Inl e)
      | Inr via \<Rightarrow>
          (case send hop via r of
             Inl e \<Rightarrow> ([(via, r)], Inl e)
           | Inr reply \<Rightarrow>
               (case checkStatus reply of
                  Inl e \<Rightarrow> ([(via, r)], Inl e)
                | Inr _ \<Rightarrow>
                    (let finished = ([(via, r)], finishResponse gunzip reply (pr_url r) (fs_maxResponseBytes settings)) in
                     if er_status reply \<notin> set REDIRECT_STATUSES \<or> pr_redirect r = Manual then finished
                     else if pr_redirect r = ErrorMode then ([(via, r)], callError CallNetworkError ''Redirect refused'')
                     else (case find_header ''location'' (er_headers reply) of
                         None \<Rightarrow> finished
                       | Some location \<Rightarrow>
                           (case redirectedRequest urls parse r (er_status reply) location of
                              Inl e \<Rightarrow> ([(via, r)], Inl e)
                            | Inr None \<Rightarrow> finished
                            | Inr (Some next_request) \<Rightarrow>
                                if hop + 1 > MAX_REDIRECT_HOPS then ([(via, r)], callError CallNetworkError ''Too many redirects'')
                                else if remaining hop \<le> 0 then ([(via, r)], callError CallNetworkError ''The call deadline passed after a redirect'')
                                else
                                  (let (sent, res) = send_hops urls parse gunzip settings route send remaining (hop + 1)
                                     (onTunnel \<or> via = ViaTunnel) next_request in ((via, r) # sent, res))))))))"
  by pat_completeness auto
termination
  by (relation "measure (\<lambda>(_, _, _, _, _, _, _, hop, _, _). MAX_REDIRECT_HOPS - hop)") (auto simp: MAX_REDIRECT_HOPS_def)

declare send_hops.simps [simp del]

definition sendPrepared ::
  "url_parser \<Rightarrow> (bytes \<Rightarrow> json option) \<Rightarrow> inflater \<Rightarrow> fetch_settings \<Rightarrow> (prepared_request \<Rightarrow> nat \<Rightarrow> bool \<Rightarrow> hop_via call_result)
     \<Rightarrow> (nat \<Rightarrow> hop_via \<Rightarrow> prepared_request \<Rightarrow> exit_reply call_result) \<Rightarrow> (nat \<Rightarrow> int) \<Rightarrow> int \<Rightarrow> prepared_request
     \<Rightarrow> (hop_via \<times> prepared_request) list \<times> anon_response call_result" where
  "sendPrepared urls parse gunzip settings route send remaining remainingAtStart r =
     (if remainingAtStart \<le> 0 then ([], callError CallTimeout ''The call deadline passed before sending'')
      else send_hops urls parse gunzip settings route send remaining 0 False r)"

end
