(* ===== verification/Worker_Fields.thy ===== *)
theory Worker_Fields
  imports Worker_Fetch "HOL-Library.Multiset"
begin

section \<open>Fields a fetch call forwards\<close>

text \<open>What an accepted request may carry, and what the embedder is handed: only well-formed fields that may be forwarded, within the limits.\<close>

subsection \<open>Requests\<close>

definition header_bytes :: "(string \<times> string) list \<Rightarrow> nat" where
  "header_bytes hs = sum_list (map (\<lambda>(name, val). length name + length val + 4) hs)"

definition forwardable :: "string \<times> string \<Rightarrow> bool" where
  "forwardable h = (case h of (name, val) \<Rightarrow> TOKEN_RE name \<and> FIELD_VALUE_RE val
     \<and> toLowerCase name \<notin> set DROPPED_REQUEST_HEADERS \<and> \<not> prefix ''proxy-'' (toLowerCase name))"

lemma prepare_list_ok:
  "prepare_list used ps = Inr hs \<Longrightarrow> used \<le> MAX_REQUEST_HEADER_BYTES \<Longrightarrow>
   list_all forwardable hs \<and> used + header_bytes hs \<le> MAX_REQUEST_HEADER_BYTES"
proof (induction ps arbitrary: used hs)
  case (Cons p ps)
  from Cons.prems(1) obtain name raw where p: "p = JsArr [JsStr name, JsStr raw]"
    by (auto split: json.splits list.splits)
  let ?val = "trim_field raw" and ?lower = "toLowerCase name"
  from Cons.prems(1) p have t: "TOKEN_RE name" "FIELD_VALUE_RE ?val" by (auto simp: Let_def split: if_splits)
  show ?case
  proof (cases "?lower \<in> set DROPPED_REQUEST_HEADERS \<or> prefix ''proxy-'' ?lower")
    case True
    then have "prepare_list used ps = Inr hs" using Cons.prems(1) p t by (simp add: Let_def)
    then show ?thesis using Cons.IH Cons.prems(2) by blast
  next
    case False
    let ?total = "used + length name + length ?val + 4"
    from Cons.prems(1) p t False have fits: "?total \<le> MAX_REQUEST_HEADER_BYTES" by (auto simp: Let_def split: if_splits)
    then obtain hs' where hs': "prepare_list ?total ps = Inr hs'" "hs = (name, ?val) # hs'"
      using Cons.prems(1) p t False by (auto simp: Let_def call_bind_Inr)
    have "list_all forwardable hs' \<and> ?total + header_bytes hs' \<le> MAX_REQUEST_HEADER_BYTES"
      by (rule Cons.IH[OF hs'(1) fits])
    moreover have "forwardable (name, ?val)" using t False by (simp add: forwardable_def)
    ultimately show ?thesis using hs'(2) by (simp add: header_bytes_def)
  qed
qed (simp add: header_bytes_def)


lemma read_chunks_bound: "read_chunks limit aborted acc cs = Inr bs \<Longrightarrow> length acc \<le> limit \<Longrightarrow> length bs \<le> limit"
proof (induction cs arbitrary: acc)
  case (Cons c cs)
  then show ?case by (cases c) (auto split: option.splits if_splits)
qed (auto split: option.splits)

lemma readBody_bound: "readBody src limit a b = Inr bs \<Longrightarrow> length bs \<le> limit"
  using read_chunks_bound[of limit b "[]"] by (auto simp: readBody_def split: byte_body.splits option.splits if_splits)

lemma FIELD_VALUE_encoding: "TOKEN_RE ''accept-encoding''" "FIELD_VALUE_RE (encoding_name e)"
  by (simp add: TOKEN_RE_def token_char_def code_in_def) (cases e; simp add: encoding_name_def FIELD_VALUE_RE_def code_in_def)

lemma prepareHeaders_ok:
  assumes "prepareHeaders v e = Inr hs"
  shows "\<exists>own. hs = own @ [(''accept-encoding'', encoding_name e)] \<and> list_all forwardable own \<and> header_bytes own \<le> 65536"
proof (cases "v = JsUndef")
  case True
  then show ?thesis using assms by (intro exI[of _ "[]"]) (simp add: prepareHeaders_def header_bytes_def)
next
  case False
  then obtain ps own where "v = JsArr ps" "prepare_list 0 ps = Inr own" "hs = own @ [(''accept-encoding'', encoding_name e)]"
    using assms by (cases v) (auto simp: prepareHeaders_def call_bind_Inr)
  then show ?thesis using prepare_list_ok[of 0 ps own] by (simp add: MAX_REQUEST_HEADER_BYTES_def)
qed

lemma normalizeMethod_ok:
  assumes "normalizeMethod v = Inr m"
  shows "TOKEN_RE m \<and> map upper_char m \<notin> set FORBIDDEN_METHODS \<and> (map upper_char m \<in> set NORMALIZED_METHODS \<longrightarrow> m = map upper_char m)"
proof -
  have fixed: "TOKEN_RE u \<and> map upper_char u = u" if "u \<in> set NORMALIZED_METHODS" for u
    using that by (auto simp: NORMALIZED_METHODS_def TOKEN_RE_def token_char_def code_in_def upper_char_def)
  show ?thesis
  proof (cases v)
    case (JsStr s)
    then show ?thesis using assms fixed by (auto simp: normalizeMethod_def Let_def split: if_splits)
  qed (use assms in \<open>auto simp: normalizeMethod_def TOKEN_RE_def token_char_def code_in_def upper_char_def FORBIDDEN_METHODS_def NORMALIZED_METHODS_def\<close>)
qed

text \<open>
  What an accepted call sends. Whatever the embedder passes: an accepted request goes to an http(s) URL with a method fetch allows, upper-cased where fetch does so; its
  headers are the caller's own, each a well-formed field that may be forwarded, at most 65,536 bytes of them, and then the worker's
  own \<open>accept-encoding\<close>; its body is within the limit, and empty for GET and HEAD.
\<close>

theorem prepared_request_clean:
  assumes "prepareRequest urls parse settings rawUrl rawMethod rawRedirect rawHeaders src a b = Inr r"
  shows "(\<exists>raw u. rawUrl = JsStr raw \<and> length raw \<le> 8192 \<and> urls raw None = Some u \<and> http_scheme (u_protocol u) \<and> pr_url r = u_href u)
    \<and> TOKEN_RE (pr_method r) \<and> map upper_char (pr_method r) \<notin> set FORBIDDEN_METHODS
    \<and> (map upper_char (pr_method r) \<in> set NORMALIZED_METHODS \<longrightarrow> pr_method r = map upper_char (pr_method r))
    \<and> (\<exists>own. pr_headers r = own @ [(''accept-encoding'', encoding_name (fs_acceptEncoding settings))] \<and> list_all forwardable own \<and> header_bytes own \<le> 65536)
    \<and> length (pr_body r) \<le> fs_maxRequestBytes settings
    \<and> (pr_method r = ''GET'' \<or> pr_method r = ''HEAD'' \<longrightarrow> pr_body r = [])"
proof -
  obtain url meth redirect hs bs where parts: "parseTargetUrl urls rawUrl = Inr url" "normalizeMethod rawMethod = Inr meth"
    "prepareHeaders rawHeaders (fs_acceptEncoding settings) = Inr hs" "readBody src (fs_maxRequestBytes settings) a b = Inr bs"
    "\<not> ((meth = ''GET'' \<or> meth = ''HEAD'') \<and> bs \<noteq> [])"
    "r = \<lparr>pr_method = meth, pr_url = url, pr_headers = hs, pr_body = bs, pr_redirect = redirect,
      pr_profile = profileRequest parse meth (find_header ''content-type'' hs) bs\<rparr>"
    using assms unfolding prepareRequest_def by (auto simp: call_bind_Inr split: if_splits)
  have "\<exists>raw u. rawUrl = JsStr raw \<and> length raw \<le> 8192 \<and> urls raw None = Some u \<and> http_scheme (u_protocol u) \<and> url = u_href u"
    using parts(1) by (cases rawUrl) (auto simp: parseTargetUrl_def MAX_URL_LENGTH_def split: if_splits option.splits)
  then show ?thesis
    using parts(5,6) normalizeMethod_ok[OF parts(2)] prepareHeaders_ok[OF parts(3)] readBody_bound[OF parts(4)] by simp blast
qed

subsection \<open>Responses\<close>

definition response_field :: "string \<times> string \<Rightarrow> bool" where
  "response_field h = (case h of (name, val) \<Rightarrow> TOKEN_RE name \<and> toLowerCase name = name \<and> name \<notin> set DROPPED_RESPONSE_HEADERS \<and> FIELD_VALUE_RE val)"

lemma lower_lower: "lower_char (lower_char c) = lower_char c"
proof -
  have "(of_char (lower_char c) :: nat) = (let n = of_char c in if (65 \<le> n \<and> n \<le> 90) \<or> (192 \<le> n \<and> n \<le> 222 \<and> n \<noteq> 215) then n + 32 else n)"
    by (auto simp: lower_char_def Let_def of_char_of)
  then show ?thesis by (auto simp: lower_char_def Let_def split: if_splits)
qed

lemma lower_token: "token_char c \<Longrightarrow> token_char (lower_char c)"
  by (cases "code_in 65 90 c") (auto simp: token_char_def lower_char_def code_in_def Let_def of_char_of split: if_splits)

lemma lower_name: "TOKEN_RE name \<Longrightarrow> TOKEN_RE (toLowerCase name) \<and> toLowerCase (toLowerCase name) = toLowerCase name"
  using lower_token by (auto simp: TOKEN_RE_def toLowerCase_def list_all_iff lower_lower)

lemma response_headers_ok:
  "response_headers hs = Inr out \<Longrightarrow> list_all response_field out \<and> out = map (\<lambda>(n, v). (toLowerCase n, v))
     (filter (\<lambda>(n, v). toLowerCase n \<notin> set DROPPED_RESPONSE_HEADERS \<and> TOKEN_RE n \<and> FIELD_VALUE_RE v) hs)"
proof (induction hs arbitrary: out)
  case (Cons h hs)
  obtain n v where h: "h = (n, v)" by fastforce
  show ?case
  proof (cases "toLowerCase n \<in> set DROPPED_RESPONSE_HEADERS \<or> \<not> TOKEN_RE n \<or> \<not> FIELD_VALUE_RE v")
    case True
    then have "response_headers hs = Inr out" using Cons.prems h by (auto simp: Let_def split: if_splits)
    then show ?thesis using Cons.IH True h by auto
  next
    case False
    then obtain rest where "response_headers hs = Inr rest" "out = (toLowerCase n, v) # rest"
      using Cons.prems h by (auto simp: Let_def call_bind_Inr split: if_splits)
    moreover have "response_field (toLowerCase n, v)" using False lower_name[of n] by (simp add: response_field_def)
    ultimately show ?thesis using Cons.IH False h by auto
  qed
qed simp

lemma mset_insert_header: "mset (insert_header h hs) = add_mset h (mset hs)"
  by (induction hs) auto

lemma mset_sort_headers: "mset (sort_headers hs) = mset hs"
  by (induction hs) (simp_all add: sort_headers_def mset_insert_header)

lemma js_less_total: "js_less s t \<or> s = t \<or> js_less t s"
  by (induction s t rule: js_less.induct) (auto simp: of_char_eq_iff dest: not_less_iff_gr_or_eq[THEN iffD1])

definition header_order :: "string \<times> string \<Rightarrow> string \<times> string \<Rightarrow> bool" where
  "header_order g h = (\<not> js_less (fst h) (fst g))"

lemma header_order_trans: "header_order a b \<Longrightarrow> header_order b c \<Longrightarrow> header_order a c"
  unfolding header_order_def by (metis js_less_total js_less_trans)

lemma sorted_insert_header: "sorted_wrt header_order hs \<Longrightarrow> sorted_wrt header_order (insert_header h hs)"
proof (induction hs)
  case (Cons g gs)
  show ?case
  proof (cases "js_less (fst g) (fst h)")
    case True
    then have "header_order g h" unfolding header_order_def by (metis js_less_irrefl js_less_trans)
    moreover have "set (insert_header h gs) = insert h (set gs)" by (metis mset_insert_header set_mset_add_mset_insert set_mset_mset)
    ultimately show ?thesis using Cons True by auto
  next
    case False
    then have "header_order h g" by (simp add: header_order_def)
    then show ?thesis using Cons.prems False header_order_trans by auto
  qed
qed simp

lemma sorted_sort_headers: "sorted_wrt header_order (sort_headers hs)"
  by (induction hs) (simp_all add: sort_headers_def sorted_insert_header)


lemma collect_bound: "collect_inflated maxBytes acc cs ok = Inr bs \<Longrightarrow> length acc \<le> maxBytes \<Longrightarrow> length bs \<le> maxBytes"
  by (induction cs arbitrary: acc) (auto split: if_splits)

text \<open>
  What the embedder is handed. Whatever the exit replies (a gzip body included): a response that is passed on has a status between 200 and 599, a body within the limit
  and not cut short by the exit, no content coding left, and the reply's well-formed fields that may be passed on, with lower-case names
  in order; in particular never \<open>set-cookie\<close> or a hop's framing.
\<close>

theorem response_clean:
  assumes "finishResponse gunzip reply url maxBytes = Inr resp"
  shows "200 \<le> ar_status resp \<and> ar_status resp \<le> 599 \<and> ar_status resp = er_status reply \<and> \<not> er_truncated reply \<and> length (ar_body resp) \<le> maxBytes
    \<and> ar_url resp = url \<and> list_all response_field (ar_headers resp) \<and> sorted_wrt header_order (ar_headers resp)
    \<and> (\<forall>h \<in> set (ar_headers resp). \<exists>g \<in> set (er_headers reply). h = (toLowerCase (fst g), snd g))"
proof -
  obtain r where r: "inflateReply gunzip reply maxBytes = Inr r" "toAnonResponse r url maxBytes = Inr resp" "\<not> er_truncated reply"
    using assms by (auto simp: finishResponse_def call_bind_Inr split: if_splits)
  have same: "er_status r = er_status reply \<and> set (er_headers r) \<subseteq> set (er_headers reply)"
    using r(1) by (auto simp: inflateReply_def call_bind_Inr Let_def without_headers_def split: option.splits if_splits prod.splits)
  obtain hs where hs: "checkStatus r = Inr ()" "length (er_body r) \<le> maxBytes" "response_headers (er_headers r) = Inr hs"
    "resp = \<lparr>ar_status = er_status r, ar_headers = sort_headers hs, ar_body = er_body r, ar_url = url\<rparr>"
    using r(2) by (auto simp: toAnonResponse_def call_bind_Inr split: if_splits)
  note ok = response_headers_ok[OF hs(3)]
  have "set (sort_headers hs) = set hs" by (metis mset_sort_headers set_mset_mset)
  moreover have "set hs \<subseteq> (\<lambda>g. (toLowerCase (fst g), snd g)) ` set (er_headers reply)"
  proof
    fix h assume "h \<in> set hs"
    then obtain g where "g \<in> set (er_headers r)" "h = (toLowerCase (fst g), snd g)" using conjunct2[OF ok] by (auto split: prod.splits)
    then show "h \<in> (\<lambda>g. (toLowerCase (fst g), snd g)) ` set (er_headers reply)" using same by blast
  qed
  ultimately have "list_all response_field (sort_headers hs)" "\<forall>h \<in> set (sort_headers hs). \<exists>g \<in> set (er_headers reply). h = (toLowerCase (fst g), snd g)"
    using ok by (auto simp: list_all_iff)
  moreover have "200 \<le> er_status r" "er_status r \<le> 599" using hs(1) by (auto simp: checkStatus_def split: if_splits)
  ultimately show ?thesis using hs same r(3) sorted_sort_headers by simp
qed

subsection \<open>A sample call\<close>

definition demo_urls :: url_parser where
  "demo_urls s base = Some \<lparr>u_protocol = ''https:'', u_origin = ''https://a'', u_href = ''https://a/'', u_hostname = ''a'', u_port = [], u_path = ''/'', u_credentials = None\<rparr>"

definition demo_settings :: fetch_settings where
  "demo_settings = \<lparr>fs_attemptTimeoutMs = 8000, fs_maxRequestBytes = 10, fs_maxResponseBytes = 10, fs_acceptEncoding = Gzip\<rparr>"

definition demo_prepared :: "prepared_request call_result" where
  "demo_prepared = prepareRequest demo_urls (\<lambda>_. None) demo_settings (JsStr ''https://a'') (JsStr ''post'') JsUndef
     (JsArr [JsArr [JsStr ''Accept'', JsStr '' x ''], JsArr [JsStr ''Cookie'', JsStr ''y'']]) (BodyStream [BodyBytes [1], BodyBytes [2, 3]]) None None"

lemma demo_text:
  "TOKEN_RE ''post''" "map upper_char ''post'' = ''POST''" "TOKEN_RE ''Accept''" "trim_field '' x '' = ''x''" "FIELD_VALUE_RE ''x''"
  "toLowerCase ''Accept'' = ''accept''" "TOKEN_RE ''Cookie''" "trim_field ''y'' = ''y''" "FIELD_VALUE_RE ''y''" "toLowerCase ''Cookie'' = ''cookie''"
  by code_simp+

lemma demo_prepared_ok: "\<exists>r. demo_prepared = Inr r"
  by (simp add: demo_prepared_def prepareRequest_def parseTargetUrl_def MAX_URL_LENGTH_def demo_urls_def http_scheme_def normalizeMethod_def demo_text
      FORBIDDEN_METHODS_def NORMALIZED_METHODS_def redirectMode_def prepareHeaders_def DROPPED_REQUEST_HEADERS_def MAX_REQUEST_HEADER_BYTES_def
      demo_settings_def readBody_def Let_def del: list.map)

theorem prepared_request_clean_witness: "\<exists>r. demo_prepared = Inr r \<and> TOKEN_RE (pr_method r) \<and> length (pr_body r) \<le> 10"
proof -
  obtain r where r: "demo_prepared = Inr r" using demo_prepared_ok by blast
  from prepared_request_clean[OF r[unfolded demo_prepared_def]]
  have "TOKEN_RE (pr_method r)" "length (pr_body r) \<le> fs_maxRequestBytes demo_settings" by blast+
  then show ?thesis using r by (auto simp: demo_settings_def)
qed

definition demo_reply :: exit_reply where
  "demo_reply = \<lparr>er_status = 200, er_headers = [(''X-B'', ''2''), (''Set-Cookie'', ''s''), (''Content-Encoding'', ''gzip''), (''A'', ''1'')], er_body = [9], er_truncated = False\<rparr>"

lemma demo_finished: "finishResponse (Some (\<lambda>_. ([[1], [2]], True))) demo_reply ''https://a/'' 10
    = Inr \<lparr>ar_status = 200, ar_headers = [(''a'', ''1''), (''x-b'', ''2'')], ar_body = [1, 2], ar_url = ''https://a/''\<rparr>"
  by code_simp

theorem response_clean_witness: "list_all response_field [(''a'', ''1''), (''x-b'', ''2'')] \<and> sorted_wrt header_order [(''a'', ''1''), (''x-b'', ''2'')]"
  using response_clean[OF demo_finished] by simp

end
