(* ===== verification/Worker_Transport.thy ===== *)
theory Worker_Transport
  imports Worker_Fetch Bincode_Outcomes
begin

section \<open>The transport of a fetch hop\<close>

text \<open>
  \<open>packages/anon-rpc-worker/src/tls/transport.ts\<close>: whether a hop goes through a TLS tunnel, the exit's plain path, or is refused, and
  one exchange over a tunnel with its single retry. The pool that hands out sessions and the session itself are parameters.
\<close>

datatype tls_setting = TlsRequired | TlsPreferred | TlsOff

datatype fallback_reason = FbHttpUrl | FbPort | FbIpLiteral | FbHostName | FbNoTunnelExit

record tunnel_target =
  tt_host :: string
  tt_target :: string
  tt_authorization :: "string option"

definition MAX_SURBS_PER_EXCHANGE :: nat where
  "MAX_SURBS_PER_EXCHANGE = 32"

definition WINDOW_PARTS :: nat where
  "WINDOW_PARTS = 32"

definition MIN_REQUEST_SURBS :: nat where
  "MIN_REQUEST_SURBS = 2"

definition MAX_HOST_BYTES :: nat where
  "MAX_HOST_BYTES = 253"

definition TLS_PORT :: nat where
  "TLS_PORT = 443"

definition DNS_NAME_RE :: "string \<Rightarrow> bool" where
  "DNS_NAME_RE s = list_all (\<lambda>label. label \<noteq> [] \<and> list_all (\<lambda>c. code_in 97 122 c \<or> is_digit c \<or> c = CHR ''-'') label) (js_split ''.'' s)"

definition IPV4_RE :: "string \<Rightarrow> bool" where
  "IPV4_RE s = (length (js_split ''.'' s) = 4 \<and> list_all (\<lambda>p. 1 \<le> length p \<and> length p \<le> 3 \<and> list_all is_digit p) (js_split ''.'' s))"

definition tunnelTarget :: "url_parts \<Rightarrow> fallback_reason + tunnel_target" where
  "tunnelTarget u =
     (if u_protocol u \<noteq> ''https:'' then Inl FbHttpUrl
      else if u_port u \<noteq> [] \<and> nat_of_digits (u_port u) 0 \<noteq> TLS_PORT then Inl FbPort
      else if prefix ''['' (u_hostname u) \<or> IPV4_RE (u_hostname u) then Inl FbIpLiteral
      else if length (u_hostname u) > MAX_HOST_BYTES \<or> \<not> DNS_NAME_RE (u_hostname u) then Inl FbHostName
      else Inr \<lparr>tt_host = u_hostname u, tt_target = u_path u, tt_authorization = u_credentials u\<rparr>)"

definition chooseTransport ::
  "tls_setting \<Rightarrow> url_parts \<Rightarrow> bool \<Rightarrow> nat \<Rightarrow> bool \<Rightarrow> (hop_via \<times> fallback_reason option) call_result" where
  "chooseTransport setting u tunnelExitKnown hop startedOnTunnel =
     (if setting = TlsOff \<and> \<not> startedOnTunnel then Inr (ViaHttp, None)
      else
        (case (case tunnelTarget u of Inl r \<Rightarrow> Some r | Inr _ \<Rightarrow> if tunnelExitKnown then None else Some FbNoTunnelExit) of
           None \<Rightarrow> Inr (ViaTunnel, None)
         | Some reason \<Rightarrow>
             if startedOnTunnel then callError CallNetworkError ''Redirect refused: this call started on a TLS tunnel and the target cannot use one''
             else if setting = TlsPreferred then Inr (ViaHttp, Some reason)
             else if reason = FbNoTunnelExit then callError CallNetworkError ''No exit offers TLS tunnels''
             else if hop = 0 then callError CallUnsupported ''TLS tunnels reach https hosts by name on port 443''
             else callError CallNetworkError ''Redirect refused: TLS tunnels reach https hosts by name on port 443''))"

text \<open>
  \<open>TlsTransport.route\<close>; a URL that does not parse throws. \<open>offersTunnels\<close> gives the pool's answer at each hop: it is asked again every time.
\<close>

definition tunnel_route :: "url_parser \<Rightarrow> tls_setting \<Rightarrow> (nat \<Rightarrow> bool) \<Rightarrow> prepared_request \<Rightarrow> nat \<Rightarrow> bool \<Rightarrow> hop_via call_result" where
  "tunnel_route urls setting offersTunnels r hop startedOnTunnel =
     (case urls (pr_url r) None of
        None \<Rightarrow> callError CallInternalError ''Invalid URL''
      | Some u \<Rightarrow> call_bind (chooseTransport setting u (offersTunnels hop) hop startedOnTunnel) (\<lambda>choice. Inr (fst choice)))"

definition requestSurbs :: "nat option \<Rightarrow> nat" where
  "requestSurbs expectedBytes =
     (case expectedBytes of
        None \<Rightarrow> MIN_REQUEST_SURBS
      | Some n \<Rightarrow>
          if n = 0 then MIN_REQUEST_SURBS
          else max MIN_REQUEST_SURBS
            (min (min ((n + TUNNEL_PART_MAX_DATA - 1) div TUNNEL_PART_MAX_DATA + 1) MAX_SURBS_PER_EXCHANGE) (WINDOW_PARTS + 1)))"

subsection \<open>Failures\<close>

datatype tls_failure =
    TlsWorker call_error
  | TlsRejected tunnel_reject_code bool
  | TlsTimeout
  | TlsOpenTimeout
  | TlsNoExit
  | TlsProtocol
  | TlsCoded string client_failure
  | TlsOther client_failure

definition PERMISSION_CODES :: "tunnel_reject_code list" where
  "PERMISSION_CODES = [TPortNotAllowed, THostNotAllowed, TDestinationBlocked]"

definition PROTOCOL_CODES :: "tunnel_reject_code list" where
  "PROTOCOL_CODES = [TNotTls, TMalformed, TOutOfOrder]"

definition TLS_PROTOCOL_CODES :: "string list" where
  "TLS_PROTOCOL_CODES = [''TLS_ALERT_RECEIVED'', ''TLS_DECRYPT_FAILED'', ''TLS_PEER_MISBEHAVED'', ''TLS_PEER_INCOMPATIBLE'', ''TLS_PROTOCOL'',
     ''TLS_IO'', ''TLS_CLOSED'', ''HTTP_RESPONSE_MALFORMED'', ''HTTP_RESPONSE_TRUNCATED'']"

definition mapTlsError :: "tls_failure \<Rightarrow> call_error" where
  "mapTlsError failure =
     (case failure of
        TlsWorker e \<Rightarrow> e
      | TlsRejected code _ \<Rightarrow>
          if code \<in> set PERMISSION_CODES then CallError CallPermissionDenied ''The tunnel exit refuses this destination''
          else if code \<in> set PROTOCOL_CODES then CallError CallProtocolError ''tunnel''
          else if code = TByteLimit then CallError CallTooLarge ''tunnel''
          else CallError CallNetworkError ''tunnel''
      | TlsTimeout \<Rightarrow> CallError CallTimeout ''tunnel''
      | TlsOpenTimeout \<Rightarrow> CallError CallNetworkError ''tunnel''
      | TlsNoExit \<Rightarrow> CallError CallNetworkError ''tunnel''
      | TlsProtocol \<Rightarrow> CallError CallProtocolError ''tunnel''
      | TlsCoded code failure' \<Rightarrow>
          if code = ''TLS_CERTIFICATE_REJECTED'' then CallError CallNetworkError ''tunnel''
          else if code = ''HTTP_RESPONSE_TOO_LARGE'' then CallError CallTooLarge ''tunnel''
          else if code = ''HTTP_REQUEST_INVALID'' \<or> code = ''TLS_INVALID_SERVER_NAME'' then CallError CallUnsupported ''tunnel''
          else if code \<in> set TLS_PROTOCOL_CODES then CallError CallProtocolError ''tunnel''
          else mapClientError failure'
      | TlsOther failure' \<Rightarrow> mapClientError failure')"

definition unwritten :: "tunnel_reject_code \<Rightarrow> bool" where
  "unwritten code = (code = TUnknownSession \<or> code = TExpired \<or> code = TUpstreamClosed)"

definition retriable :: "tls_failure \<Rightarrow> bool \<Rightarrow> bool" where
  "retriable failure resend =
     (case failure of
        TlsRejected code soleCopy \<Rightarrow> if unwritten code \<and> soleCopy then True else resend \<and> unwritten code
      | _ \<Rightarrow>
          if \<not> resend then False
          else (case failure of
              TlsTimeout \<Rightarrow> True
            | TlsOpenTimeout \<Rightarrow> True
            | TlsCoded code _ \<Rightarrow> code = ''HTTP_RESPONSE_TRUNCATED''
            | _ \<Rightarrow> False))"

subsection \<open>One exchange\<close>

definition CONNECTION_HEADERS :: "string list" where
  "CONNECTION_HEADERS = [''connection'', ''keep-alive'', ''transfer-encoding'', ''te'', ''trailer'', ''upgrade'', ''proxy-connection'']"

text \<open>The header list of the encoded request, and whether its body is padded as JSON.\<close>

definition tunnel_headers :: "prepared_request \<Rightarrow> tunnel_target \<Rightarrow> (string \<times> string) list" where
  "tunnel_headers r target =
     pr_headers r @ (case tt_authorization target of
        Some a \<Rightarrow> if list_ex (\<lambda>(name, _). toLowerCase name = ''authorization'') (pr_headers r) then [] else [(''authorization'', a)]
      | None \<Rightarrow> [])"

definition pad_json :: "prepared_request \<Rightarrow> bool" where
  "pad_json r = (pr_body r \<noteq> [] \<and> (pf_method (pr_profile r) \<noteq> None
     \<or> (case find_header ''content-type'' (pr_headers r) of None \<Rightarrow> False | Some ct \<Rightarrow> js_includes ''json'' (toLowerCase ct))))"

datatype 'c tunnel_use = RequestSent 'c | SessionReleased 'c bool

text \<open>
  The pool's answer, the session's answer, the call's signal and the time left, per attempt. The result lists the uses of sessions in order.
\<close>

function tunnel_attempts ::
  "(nat \<Rightarrow> tls_failure + 'c) \<Rightarrow> (nat \<Rightarrow> 'c \<Rightarrow> tls_failure + exit_reply) \<Rightarrow> (nat \<Rightarrow> call_error option) \<Rightarrow> (nat \<Rightarrow> int) \<Rightarrow> bool \<Rightarrow> nat
     \<Rightarrow> 'c tunnel_use list \<times> exit_reply call_result" where
  "tunnel_attempts acquire request aborted remaining resend attempt =
     (case acquire attempt of
        Inl failure \<Rightarrow> ([], case aborted attempt of Some reason \<Rightarrow> Inl reason | None \<Rightarrow> Inl (mapTlsError failure))
      | Inr channel \<Rightarrow>
          (case request attempt channel of
             Inr reply \<Rightarrow> ([RequestSent channel, SessionReleased channel True],
               Inr (reply\<lparr>er_headers := without_headers CONNECTION_HEADERS (er_headers reply), er_truncated := False\<rparr>))
           | Inl failure \<Rightarrow>
               (let used = [RequestSent channel, SessionReleased channel False] in
                case aborted attempt of
                  Some reason \<Rightarrow> (used, Inl reason)
                | None \<Rightarrow>
                    if attempt > 0 \<or> remaining attempt \<le> 0 \<or> \<not> retriable failure resend then (used, Inl (mapTlsError failure))
                    else (let (more, res) = tunnel_attempts acquire request aborted remaining resend (attempt + 1) in (used @ more, res)))))"
  by pat_completeness auto
termination
  by (relation "measure (\<lambda>(_, _, _, _, _, attempt). 1 - attempt)") auto

declare tunnel_attempts.simps [simp del]

definition tunnel_exchange ::
  "url_parser \<Rightarrow> (string \<Rightarrow> nat \<Rightarrow> tls_failure + 'c) \<Rightarrow> (nat \<Rightarrow> 'c \<Rightarrow> tls_failure + exit_reply) \<Rightarrow> (nat \<Rightarrow> call_error option) \<Rightarrow> (nat \<Rightarrow> int)
     \<Rightarrow> tls_failure option \<Rightarrow> prepared_request \<Rightarrow> 'c tunnel_use list \<times> exit_reply call_result" where
  "tunnel_exchange urls acquire request aborted remaining encodeFails r =
     (case urls (pr_url r) None of
        None \<Rightarrow> ([], callError CallInternalError ''Invalid URL'')
      | Some u \<Rightarrow>
          (case tunnelTarget u of
             Inl _ \<Rightarrow> ([], callError CallInternalError ''This URL reached the tunnel path'')
           | Inr target \<Rightarrow>
               (case encodeFails of
                  Some failure \<Rightarrow> ([], Inl (mapTlsError failure))
                | None \<Rightarrow> tunnel_attempts (acquire (tt_host target)) request aborted remaining (pf_retryable (pr_profile r)) 0)))"

end
