(* ===== verification/Worker_Safety.thy ===== *)
theory Worker_Safety
  imports Worker_Transport Worker_Fields
begin

section \<open>What a fetch call may do\<close>

text \<open>
  Facts about a whole call of the worker: redirects stay within fetch's rules and never repeat a write under another method, a call that used a
  tunnel never continues in plaintext, requests and responses carry only fields that may be forwarded, and an exchange over a tunnel runs twice
  only when the first run cannot have had an effect.
\<close>

subsection \<open>One hop of a call\<close>

lemma send_hops_cases:
  assumes "send_hops urls parse gunzip settings route send remaining hop onTunnel r = (tr, res)"
  obtains (refused) "tr = []"
  | (last_hop) via where "route r hop onTunnel = Inr via" "tr = [(via, r)]"
  | (followed) via location r' sent and reply :: exit_reply where "route r hop onTunnel = Inr via" "tr = (via, r) # sent" "hop + 1 \<le> 5"
      "er_status reply \<in> set REDIRECT_STATUSES" "pr_redirect r = Follow"
      "redirectedRequest urls parse r (er_status reply) location = Inr (Some r')"
      "send_hops urls parse gunzip settings route send remaining (hop + 1) (onTunnel \<or> via = ViaTunnel) r' = (sent, res)"
proof (cases "route r hop onTunnel")
  case (Inl e)
  then show ?thesis using assms refused by (subst (asm) send_hops.simps) simp
next
  case (Inr via)
  show ?thesis
  proof (cases "\<exists>reply u location r'. send hop via r = Inr reply \<and> checkStatus reply = Inr u \<and> er_status reply \<in> set REDIRECT_STATUSES
      \<and> pr_redirect r = Follow \<and> find_header ''location'' (er_headers reply) = Some location
      \<and> redirectedRequest urls parse r (er_status reply) location = Inr (Some r') \<and> hop + 1 \<le> MAX_REDIRECT_HOPS \<and> remaining hop > 0")
    case True
    then obtain reply u location r' where f: "send hop via r = Inr reply" "checkStatus reply = Inr u" "er_status reply \<in> set REDIRECT_STATUSES"
      "pr_redirect r = Follow" "find_header ''location'' (er_headers reply) = Some location"
      "redirectedRequest urls parse r (er_status reply) location = Inr (Some r')" "hop + 1 \<le> MAX_REDIRECT_HOPS" "remaining hop > 0" by blast
    obtain sent res' where rest: "send_hops urls parse gunzip settings route send remaining (hop + 1) (onTunnel \<or> via = ViaTunnel) r' = (sent, res')"
      by fastforce
    have "tr = (via, r) # sent" "res' = res" using assms Inr f rest by (subst (asm) send_hops.simps, simp)+
    then show ?thesis using followed Inr f rest by (simp add: MAX_REDIRECT_HOPS_def)
  next
    case False
    have "tr = [(via, r)]"
    proof (rule ccontr)
      assume other: "tr \<noteq> [(via, r)]"
      show False using assms Inr other False
        by (subst (asm) send_hops.simps)
          (auto simp: Let_def split: sum.splits option.splits if_splits prod.splits redirect_mode.splits; cases "pr_redirect r"; force)
    qed
    then show ?thesis using last_hop Inr by blast
  qed
qed

subsection \<open>Redirects\<close>

definition names_in :: "string list \<Rightarrow> (string \<times> string) list \<Rightarrow> bool" where
  "names_in names hs = list_ex (\<lambda>(name, _). toLowerCase name \<in> set names) hs"

definition redirect_ok :: "url_parser \<Rightarrow> prepared_request \<Rightarrow> prepared_request \<Rightarrow> bool" where
  "redirect_ok urls a b =
     (pr_redirect a = Follow \<and> pr_redirect b = Follow
     \<and> (\<exists>location u. urls location (Some (pr_url a)) = Some u \<and> http_scheme (u_protocol u) \<and> pr_url b = u_href u)
     \<and> (pr_method b = pr_method a \<and> pr_body b = pr_body a \<and> pr_profile b = pr_profile a
        \<or> pr_method b = ''GET'' \<and> pr_body b = [] \<and> pf_class (pr_profile a) \<noteq> RpcWrite \<and> \<not> names_in REQUEST_BODY_HEADERS (pr_headers b))
     \<and> set (pr_headers b) \<subseteq> set (pr_headers a)
     \<and> (origin_of urls (pr_url b) \<noteq> origin_of urls (pr_url a) \<longrightarrow> \<not> names_in [''authorization'', ''cookie''] (pr_headers b)))"

lemma without_names: "\<not> names_in names (without_headers names hs)"
  by (induction hs) (auto simp: names_in_def without_headers_def)

lemma without_subset: "set (without_headers names hs) \<subseteq> set hs"
  by (auto simp: without_headers_def)

lemma without_still: "\<not> names_in names hs \<Longrightarrow> \<not> names_in names (without_headers other hs)"
  by (induction hs) (auto simp: names_in_def without_headers_def)

lemma redirected_ok:
  assumes "redirectedRequest urls parse r status location = Inr (Some r')" "pr_redirect r = Follow"
  shows "redirect_ok urls r r'"
proof -
  obtain url where url: "redirectTarget urls location (pr_url r) = Inr url" using assms(1) by (auto simp: redirectedRequest_def call_bind_Inr)
  then obtain u where u: "urls location (Some (pr_url r)) = Some u" "http_scheme (u_protocol u)" "url = u_href u"
    by (auto simp: redirectTarget_def split: option.splits if_splits)
  let ?h1 = "if turns_to_get status (pr_method r) then without_headers REQUEST_BODY_HEADERS (pr_headers r) else pr_headers r"
  let ?h2 = "if origin_of urls url \<noteq> origin_of urls (pr_url r) then without_headers CROSS_ORIGIN_DROPPED_HEADERS ?h1 else ?h1"
  have r': "pr_url r' = url" "pr_headers r' = ?h2" "pr_redirect r' = Follow"
    "turns_to_get status (pr_method r) \<Longrightarrow> pr_method r' = ''GET'' \<and> pr_body r' = [] \<and> pf_class (pr_profile r) \<noteq> RpcWrite"
    "\<not> turns_to_get status (pr_method r) \<Longrightarrow> pr_method r' = pr_method r \<and> pr_body r' = pr_body r \<and> pr_profile r' = pr_profile r"
    using assms url by (auto simp: redirectedRequest_def Let_def split: if_splits)
  have sub: "set ?h2 \<subseteq> set (pr_headers r)" by (auto simp: without_headers_def)
  have body: "turns_to_get status (pr_method r) \<Longrightarrow> \<not> names_in REQUEST_BODY_HEADERS ?h2"
    using without_names[of REQUEST_BODY_HEADERS "pr_headers r"] without_still by auto
  have cross: "origin_of urls url \<noteq> origin_of urls (pr_url r) \<Longrightarrow> \<not> names_in [''authorization'', ''cookie''] ?h2"
    using without_names[of CROSS_ORIGIN_DROPPED_HEADERS] by (simp add: CROSS_ORIGIN_DROPPED_HEADERS_def)
  show ?thesis unfolding redirect_ok_def using r' u assms(2) sub body cross by (cases "turns_to_get status (pr_method r)") auto
qed

lemma redirect_ok_write:
  assumes "redirect_ok urls a b" "pf_class (pr_profile a) = RpcWrite"
  shows "pr_method b = pr_method a \<and> pr_body b = pr_body a \<and> pr_profile b = pr_profile a"
proof -
  from assms(1) have "pr_method b = pr_method a \<and> pr_body b = pr_body a \<and> pr_profile b = pr_profile a
      \<or> pr_method b = ''GET'' \<and> pr_body b = [] \<and> pf_class (pr_profile a) \<noteq> RpcWrite \<and> \<not> names_in REQUEST_BODY_HEADERS (pr_headers b)"
    unfolding redirect_ok_def by (elim conjE)
  then show ?thesis using assms(2) by (elim disjE) simp_all
qed

lemma hops_redirects:
  "send_hops urls parse gunzip settings route send remaining hop onTunnel r = (tr, res) \<Longrightarrow> hop \<le> 5 \<Longrightarrow>
   length tr \<le> 6 - hop \<and> (tr \<noteq> [] \<longrightarrow> snd (hd tr) = r) \<and> successively (redirect_ok urls) (map snd tr)"
proof (induction "5 - hop" arbitrary: hop onTunnel r tr rule: less_induct)
  case less
  from less.prems(1) show ?case
  proof (cases rule: send_hops_cases)
    case (followed via location r' sent reply)
    have IH: "length sent \<le> 6 - (hop + 1) \<and> (sent \<noteq> [] \<longrightarrow> snd (hd sent) = r') \<and> successively (redirect_ok urls) (map snd sent)"
      using less.hyps[OF _ followed(7)] followed(3) by simp
    have "redirect_ok urls r r'" by (rule redirected_ok[OF followed(6,5)])
    then show ?thesis using IH followed(2,3) by (cases sent) auto
  qed (use less.prems(2) in auto)
qed

text \<open>
  C26. Redirects keep fetch's rules. Whatever exits and upstreams answer, a call makes at most six exchanges, the first of them the request itself; each further one goes to an http(s) target, carries no
  header the previous one did not, and either repeats method and body or is a GET with no body and no body headers; across origins it carries
  neither authorization nor cookie. A write is repeated unchanged or not at all.
\<close>

theorem redirect_discipline:
  assumes "sendPrepared urls parse gunzip settings route send remaining start r = (tr, res)"
  shows "length tr \<le> 6 \<and> (tr \<noteq> [] \<longrightarrow> snd (hd tr) = r) \<and> successively (redirect_ok urls) (map snd tr)
    \<and> (pf_class (pr_profile r) = RpcWrite \<longrightarrow> (\<forall>(via, r') \<in> set tr. pr_method r' = pr_method r \<and> pr_body r' = pr_body r))"
proof (cases "start \<le> 0")
  case True
  then show ?thesis using assms by (auto simp: sendPrepared_def)
next
  case False
  then have h: "length tr \<le> 6 \<and> (tr \<noteq> [] \<longrightarrow> snd (hd tr) = r) \<and> successively (redirect_ok urls) (map snd tr)"
    using hops_redirects[of urls parse gunzip settings route send remaining 0 False r tr res] assms by (simp add: sendPrepared_def)
  have repeated: "successively (redirect_ok urls) (r1 # rs) \<Longrightarrow> pf_class (pr_profile r1) = RpcWrite \<Longrightarrow>
      \<forall>r' \<in> set (r1 # rs). pr_method r' = pr_method r1 \<and> pr_body r' = pr_body r1" for r1 rs
  proof (induction rs arbitrary: r1)
    case (Cons r2 rs)
    then have step: "redirect_ok urls r1 r2" and rest: "successively (redirect_ok urls) (r2 # rs)" by auto
    from step have same: "pr_method r2 = pr_method r1" "pr_body r2 = pr_body r1" "pr_profile r2 = pr_profile r1"
      using redirect_ok_write[OF step] Cons.prems(2) by simp_all
    have "\<forall>r' \<in> set (r2 # rs). pr_method r' = pr_method r2 \<and> pr_body r' = pr_body r2"
      by (rule Cons.IH[OF rest]) (simp add: same Cons.prems(2))
    then show ?case using same by simp
  qed simp
  have "\<forall>(via, r') \<in> set tr. pr_method r' = pr_method r \<and> pr_body r' = pr_body r" if w: "pf_class (pr_profile r) = RpcWrite"
  proof (cases tr)
    case (Cons t ts)
    have first: "snd t = r" using h Cons by simp
    have "successively (redirect_ok urls) (snd t # map snd ts)" using h unfolding Cons list.map by blast
    then have "successively (redirect_ok urls) (r # map snd ts)" unfolding first .
    from repeated[OF this w] show ?thesis using Cons h by fastforce
  qed simp
  then show ?thesis using h by blast
qed


subsection \<open>Tunnels\<close>

definition tunnelled :: "url_parser \<Rightarrow> prepared_request \<Rightarrow> bool" where
  "tunnelled urls r = (\<exists>u target. urls (pr_url r) None = Some u \<and> tunnelTarget u = Inr target \<and> u_protocol u = ''https:'')"

lemma choose_tunnel:
  assumes "chooseTransport setting u known hop started = Inr (via, reason)"
  shows "(via = ViaTunnel \<longrightarrow> known \<and> (\<exists>target. tunnelTarget u = Inr target) \<and> u_protocol u = ''https:'')
    \<and> (via = ViaHttp \<longrightarrow> \<not> started \<and> (setting = TlsOff \<or> setting = TlsPreferred \<and> (known \<longrightarrow> (\<exists>x. tunnelTarget u = Inl x))))"
  using assms by (auto simp: chooseTransport_def tunnelTarget_def split: if_splits sum.splits)

lemma route_tunnel:
  assumes "tunnel_route urls setting offers r hop started = Inr via"
  shows "(via = ViaTunnel \<longrightarrow> offers hop \<and> tunnelled urls r)
    \<and> (via = ViaHttp \<longrightarrow> \<not> started \<and> (setting = TlsOff \<or> setting = TlsPreferred \<and> (offers hop \<longrightarrow> \<not> tunnelled urls r)))"
proof -
  obtain u reason where u: "urls (pr_url r) None = Some u" "chooseTransport setting u (offers hop) hop started = Inr (via, reason)"
    using assms by (auto simp: tunnel_route_def call_bind_Inr split: option.splits)
  from choose_tunnel[OF u(2)] show ?thesis using u(1) by (auto simp: tunnelled_def)
qed

definition hop_allowed :: "url_parser \<Rightarrow> tls_setting \<Rightarrow> bool \<Rightarrow> hop_via \<times> prepared_request \<Rightarrow> bool" where
  "hop_allowed urls setting known h = (case h of (via, r) \<Rightarrow>
     (via = ViaTunnel \<longrightarrow> known \<and> tunnelled urls r)
     \<and> (via = ViaHttp \<longrightarrow> setting = TlsOff \<or> setting = TlsPreferred \<and> (known \<longrightarrow> \<not> tunnelled urls r)))"

fun stays_tunnelled :: "bool \<Rightarrow> (hop_via \<times> 'a) list \<Rightarrow> bool" where
  "stays_tunnelled started [] = True"
| "stays_tunnelled started ((via, r) # hs) = ((started \<longrightarrow> via = ViaTunnel) \<and> stays_tunnelled (started \<or> via = ViaTunnel) hs)"

lemma stays_later: "stays_tunnelled started tr \<Longrightarrow> i < j \<Longrightarrow> j < length tr \<Longrightarrow> fst (tr ! i) = ViaTunnel \<Longrightarrow> fst (tr ! j) = ViaTunnel"
proof -
  have on: "stays_tunnelled True tr \<Longrightarrow> j < length tr \<Longrightarrow> fst (tr ! j) = ViaTunnel" for tr :: "(hop_via \<times> 'a) list" and j
    by (induction tr arbitrary: j) (auto simp: nth_Cons split: nat.split)
  show "stays_tunnelled started tr \<Longrightarrow> i < j \<Longrightarrow> j < length tr \<Longrightarrow> fst (tr ! i) = ViaTunnel \<Longrightarrow> fst (tr ! j) = ViaTunnel"
  proof (induction tr arbitrary: started i j)
    case (Cons h tr)
    obtain via x where h: "h = (via, x)" by (cases h)
    obtain j' where j: "j = Suc j'" using Cons.prems(2) by (cases j) auto
    show ?case
    proof (cases i)
      case 0
      then have "stays_tunnelled True tr" using Cons.prems h by simp
      then show ?thesis using on[of tr j'] Cons.prems(3) j by simp
    next
      case (Suc i')
      then show ?thesis using Cons.IH[of _ i' j'] Cons.prems h j by auto
    qed
  qed simp
qed

lemma hops_tunnelled:
  "send_hops urls parse gunzip settings (tunnel_route urls setting offers) send remaining hop onTunnel r = (tr, res) \<Longrightarrow>
   stays_tunnelled onTunnel tr \<and> (\<forall>i < length tr. hop_allowed urls setting (offers (hop + i)) (tr ! i))"
proof (induction "5 - hop" arbitrary: hop onTunnel r tr rule: less_induct)
  case less
  from less.prems show ?case
  proof (cases rule: send_hops_cases)
    case (last_hop via)
    then show ?thesis using route_tunnel[OF last_hop(1)] by (cases via) (auto simp: hop_allowed_def)
  next
    case (followed via location r' sent reply)
    have IH: "stays_tunnelled (onTunnel \<or> via = ViaTunnel) sent"
      "\<forall>i < length sent. hop_allowed urls setting (offers (hop + 1 + i)) (sent ! i)"
      using less.hyps[OF _ followed(7)] followed(3) by simp_all
    have "hop_allowed urls setting (offers hop) (via, r)" "onTunnel \<longrightarrow> via = ViaTunnel"
      using route_tunnel[OF followed(1)] by (cases via; simp add: hop_allowed_def)+
    then show ?thesis using IH followed(2) by (auto simp: nth_Cons split: nat.split)
  qed simp
qed

text \<open>
  C25. No downgrade to plaintext. With \<open>TlsTransport.route\<close> choosing, whatever redirects a call meets and whichever exits offer tunnels
  at each of its hops: once an exchange of the call went through a tunnel, every later one does, even when by then no exit offers any; an exchange through a
  tunnel goes to an https host that a tunnel reaches, while an exit offers tunnels; under \<open>required\<close> every
  exchange goes through a tunnel; and under \<open>preferred\<close> an exchange in plaintext means that no exit offered
  tunnels at that hop or that the URL cannot be reached through one.
\<close>

theorem no_plaintext_downgrade:
  assumes "sendPrepared urls parse gunzip settings (tunnel_route urls setting offers) send remaining start r = (tr, res)"
  shows "(\<forall>i j. i < j \<and> j < length tr \<and> fst (tr ! i) = ViaTunnel \<longrightarrow> fst (tr ! j) = ViaTunnel)
    \<and> (\<forall>i < length tr. (fst (tr ! i) = ViaTunnel \<longrightarrow> offers i \<and> tunnelled urls (snd (tr ! i)))
        \<and> (setting = TlsRequired \<longrightarrow> fst (tr ! i) = ViaTunnel)
        \<and> (setting = TlsPreferred \<and> offers i \<and> tunnelled urls (snd (tr ! i)) \<longrightarrow> fst (tr ! i) = ViaTunnel))"
proof (cases "start \<le> 0")
  case True
  then show ?thesis using assms by (auto simp: sendPrepared_def)
next
  case False
  then have stays: "stays_tunnelled False tr" and hop: "\<forall>i < length tr. hop_allowed urls setting (offers i) (tr ! i)"
    using hops_tunnelled[of urls parse gunzip settings setting offers send remaining 0 False r tr res] assms by (simp_all add: sendPrepared_def)
  have each: "(fst (tr ! i) = ViaTunnel \<longrightarrow> offers i \<and> tunnelled urls (snd (tr ! i))) \<and> (setting = TlsRequired \<longrightarrow> fst (tr ! i) = ViaTunnel)
      \<and> (setting = TlsPreferred \<and> offers i \<and> tunnelled urls (snd (tr ! i)) \<longrightarrow> fst (tr ! i) = ViaTunnel)" if "i < length tr" for i
    using hop that by (cases "tr ! i"; cases "fst (tr ! i)") (auto simp: hop_allowed_def)
  show ?thesis using stays_later[OF stays] each by blast
qed

subsection \<open>One exchange over a tunnel\<close>

definition ran_once :: "'c \<Rightarrow> 'c tunnel_use list \<Rightarrow> bool" where
  "ran_once c uses = (\<exists>ok. uses = [RequestSent c, SessionReleased c ok])"

definition may_repeat :: "bool \<Rightarrow> tls_failure \<Rightarrow> bool" where
  "may_repeat resend failure =
     ((\<exists>code soleCopy. failure = TlsRejected code soleCopy \<and> code \<in> {TUnknownSession, TExpired, TUpstreamClosed} \<and> (soleCopy \<or> resend))
      \<or> resend \<and> (failure = TlsTimeout \<or> failure = TlsOpenTimeout \<or> (\<exists>f. failure = TlsCoded ''HTTP_RESPONSE_TRUNCATED'' f)))"

lemma retriable_iff: "retriable failure resend \<longleftrightarrow> may_repeat resend failure"
  by (cases failure) (auto simp: retriable_def may_repeat_def unwritten_def)

lemma attempts_safe:
  assumes "tunnel_attempts acquire request aborted remaining resend 0 = (uses, res)"
  shows "uses = [] \<or> (\<exists>c. acquire 0 = Inr c \<and> ran_once c uses)
    \<or> (\<exists>c more failure. acquire 0 = Inr c \<and> uses = [RequestSent c, SessionReleased c False] @ more \<and> request 0 c = Inl failure
        \<and> aborted 0 = None \<and> remaining 0 > 0 \<and> may_repeat resend failure
        \<and> (more = [] \<or> (\<exists>d. acquire 1 = Inr d \<and> ran_once d more)))"
proof -
  have second: "fst (tunnel_attempts acquire request aborted remaining resend (Suc 0)) = []
      \<or> (\<exists>d. acquire (Suc 0) = Inr d \<and> ran_once d (fst (tunnel_attempts acquire request aborted remaining resend (Suc 0))))"
    by (subst tunnel_attempts.simps, subst (2) tunnel_attempts.simps) (auto simp: ran_once_def Let_def split: sum.split option.split)
  show ?thesis
  proof (cases "acquire 0")
    case (Inl e)
    then show ?thesis using assms by (subst (asm) tunnel_attempts.simps) simp
  next
    case (Inr c)
    show ?thesis
    proof (cases "request 0 c")
      case (Inr reply)
      then show ?thesis using assms \<open>acquire 0 = Inr c\<close> by (subst (asm) tunnel_attempts.simps) (auto simp: ran_once_def)
    next
      case (Inl failure)
      show ?thesis
      proof (cases "aborted 0 = None \<and> remaining 0 > 0 \<and> retriable failure resend")
        case True
        obtain more res' where more: "tunnel_attempts acquire request aborted remaining resend (Suc 0) = (more, res')" by fastforce
        have "uses = [RequestSent c, SessionReleased c False] @ more"
          using assms \<open>acquire 0 = Inr c\<close> Inl True more by (subst (asm) tunnel_attempts.simps) simp
        then show ?thesis using True Inl \<open>acquire 0 = Inr c\<close> second more unfolding retriable_iff by auto
      next
        case False
        then have "uses = [RequestSent c, SessionReleased c False]"
          using assms \<open>acquire 0 = Inr c\<close> Inl by (subst (asm) tunnel_attempts.simps) (auto simp: Let_def split: option.splits)
        then show ?thesis using \<open>acquire 0 = Inr c\<close> unfolding ran_once_def by blast
      qed
    qed
  qed
qed

text \<open>
  C27. A second run only when the first had no effect. \<open>TlsTransport.exchange\<close> sends a request at most twice, each time on the session that the
  pool hands out for that run and the host of the request's URL, and releases the session afterwards. It sends it again only after the first run failed, without abort and with
  time left, in two cases: the exit refused the only copy sent because it had no upstream to write it to (\<open>UnknownSession\<close>,
  \<open>Expired\<close>, \<open>UpstreamClosed\<close>); or the request's own profile marks it as resendable and it met one of these refusals, a timeout of the tunnel or of its opening, or an answer cut
  off before its end. Every other request is sent once.
\<close>

theorem tunnel_retry_safe:
  assumes "tunnel_exchange urls acquire request aborted remaining encodeFails r = (uses, res)"
  shows "uses = [] \<or> (\<exists>u c. urls (pr_url r) None = Some u \<and> acquire (u_hostname u) 0 = Inr c
      \<and> ((\<exists>ok. uses = [RequestSent c, SessionReleased c ok])
        \<or> (\<exists>d ok failure. uses = [RequestSent c, SessionReleased c False, RequestSent d, SessionReleased d ok]
            \<and> acquire (u_hostname u) 1 = Inr d \<and> request 0 c = Inl failure \<and> aborted 0 = None \<and> remaining 0 > 0
            \<and> ((\<exists>code soleCopy. failure = TlsRejected code soleCopy \<and> code \<in> {TUnknownSession, TExpired, TUpstreamClosed}
                  \<and> (soleCopy \<or> pf_retryable (pr_profile r)))
              \<or> pf_retryable (pr_profile r) \<and> (failure = TlsTimeout \<or> failure = TlsOpenTimeout
                  \<or> (\<exists>f. failure = TlsCoded ''HTTP_RESPONSE_TRUNCATED'' f))))))"
proof (cases "uses = []")
  case False
  then obtain u target where u: "urls (pr_url r) None = Some u" "tunnelTarget u = Inr target"
    "tunnel_attempts (acquire (tt_host target)) request aborted remaining (pf_retryable (pr_profile r)) 0 = (uses, res)"
    using assms by (auto simp: tunnel_exchange_def split: option.splits sum.splits)
  have "tt_host target = u_hostname u" using u(2) by (auto simp: tunnelTarget_def split: if_splits)
  then show ?thesis
    using attempts_safe[OF u(3)] u(1) False unfolding ran_once_def may_repeat_def by (elim disjE exE conjE) auto
qed simp

subsection \<open>A sample call\<close>

text \<open>A write that the first upstream redirects with 307, through tunnels.\<close>

definition demo_write :: prepared_request where
  "demo_write = \<lparr>pr_method = ''POST'', pr_url = ''https://a/'', pr_headers = [(''authorization'', ''k'')], pr_body = [1], pr_redirect = Follow,
     pr_profile = \<lparr>pf_class = RpcWrite, pf_expected = Some 30000, pf_retryable = False, pf_opKey = ''k'', pf_method = Some ''eth_sendRawTransaction''\<rparr>\<rparr>"

definition demo_send :: "nat \<Rightarrow> hop_via \<Rightarrow> prepared_request \<Rightarrow> exit_reply call_result" where
  "demo_send hop via r = Inr \<lparr>er_status = (if hop = 0 then 307 else 200), er_headers = [(''location'', ''/b'')], er_body = [], er_truncated = False\<rparr>"

definition demo_call :: "(hop_via \<times> prepared_request) list \<times> anon_response call_result" where
  "demo_call = sendPrepared demo_urls (\<lambda>_. None) None demo_settings (tunnel_route demo_urls TlsRequired (\<lambda>_. True)) demo_send (\<lambda>_. 100) 100 demo_write"

lemma demo_call_eq: "sendPrepared demo_urls (\<lambda>_. None) None demo_settings (tunnel_route demo_urls TlsRequired (\<lambda>_. True)) demo_send (\<lambda>_. 100) 100 demo_write
    = (fst demo_call, snd demo_call)"
  by (simp add: demo_call_def)

lemma demo_routes: "tunnel_route demo_urls TlsRequired (\<lambda>_. True) r hop started = Inr ViaTunnel"
proof -
  have "\<not> IPV4_RE ''a'' \<and> DNS_NAME_RE ''a'' \<and> \<not> prefix ''['' ''a''" by code_simp
  then show ?thesis by (simp add: tunnel_route_def demo_urls_def chooseTransport_def tunnelTarget_def MAX_HOST_BYTES_def)
qed

lemma demo_hops: "\<exists>r'. fst demo_call = [(ViaTunnel, demo_write), (ViaTunnel, r')]"
proof -
  have lower: "toLowerCase ''location'' = ''location''" by code_simp
  have redirected: "\<exists>r'. redirectedRequest demo_urls (\<lambda>_. None) demo_write 307 ''/b'' = Inr (Some r') \<and> pr_url r' = ''https://a/''"
    by (simp add: redirectedRequest_def redirectTarget_def demo_urls_def http_scheme_def MAX_URL_LENGTH_def turns_to_get_def Let_def)
  have follow: "pr_redirect demo_write = Follow" by (simp add: demo_write_def)
  have "fst (send_hops demo_urls (\<lambda>_. None) None demo_settings (tunnel_route demo_urls TlsRequired (\<lambda>_. True)) demo_send (\<lambda>_. 100) (Suc 0) True r') = [(ViaTunnel, r')]" for r'
    by (subst send_hops.simps) (simp add: demo_routes demo_send_def checkStatus_def REDIRECT_STATUSES_def)
  then show ?thesis using redirected follow unfolding demo_call_def sendPrepared_def
    by (subst send_hops.simps) (auto simp: demo_routes demo_send_def checkStatus_def REDIRECT_STATUSES_def find_header_def lower
        MAX_REDIRECT_HOPS_def case_prod_unfold)
qed

theorem redirect_discipline_witness: "\<exists>r'. fst demo_call = [(ViaTunnel, demo_write), (ViaTunnel, r')] \<and> pr_method r' = ''POST'' \<and> pr_body r' = [1]"
proof -
  obtain r' where r': "fst demo_call = [(ViaTunnel, demo_write), (ViaTunnel, r')]" using demo_hops by blast
  have w: "pf_class (pr_profile demo_write) = RpcWrite" by (simp add: demo_write_def)
  have "\<forall>(via, r') \<in> set (fst demo_call). pr_method r' = pr_method demo_write \<and> pr_body r' = pr_body demo_write"
    using redirect_discipline[OF demo_call_eq] w by blast
  then have "pr_method r' = ''POST''" "pr_body r' = [1]" by (simp_all add: r' demo_write_def)
  then show ?thesis using r' by blast
qed

theorem no_plaintext_downgrade_witness: "tunnelled demo_urls demo_write"
proof -
  have "fst demo_call ! 0 = (ViaTunnel, demo_write)" "0 < length (fst demo_call)" using demo_hops by auto
  then show ?thesis using no_plaintext_downgrade[OF demo_call_eq] by (metis fst_conv snd_conv)
qed

definition demo_request :: "nat \<Rightarrow> nat \<Rightarrow> tls_failure + exit_reply" where
  "demo_request n c = (if n = 0 then Inl (TlsRejected TUnknownSession True) else Inr demo_reply)"

definition demo_uses :: "nat tunnel_use list \<times> exit_reply call_result" where
  "demo_uses = tunnel_exchange demo_urls (\<lambda>_ n. Inr n) demo_request (\<lambda>_. None) (\<lambda>_. 5) None demo_write"

lemma demo_used: "fst demo_uses = [RequestSent 0, SessionReleased 0 False, RequestSent 1, SessionReleased 1 True]"
proof -
  have "fst (tunnel_attempts (\<lambda>n. Inr n) demo_request (\<lambda>_. None) (\<lambda>_. 5) False (Suc 0)) = [RequestSent 1, SessionReleased 1 True]"
    by (subst tunnel_attempts.simps) (simp add: demo_request_def)
  then have run: "fst (tunnel_attempts (\<lambda>n. Inr n) demo_request (\<lambda>_. None) (\<lambda>_. 5) False 0)
      = [RequestSent 0, SessionReleased 0 False, RequestSent 1, SessionReleased 1 True]"
    by (subst tunnel_attempts.simps) (simp add: demo_request_def retriable_def unwritten_def case_prod_unfold Let_def)
  have "\<not> IPV4_RE ''a'' \<and> DNS_NAME_RE ''a'' \<and> \<not> prefix ''['' ''a''" by code_simp
  then show ?thesis using run
    by (simp add: demo_uses_def tunnel_exchange_def demo_urls_def demo_write_def tunnelTarget_def MAX_HOST_BYTES_def)
qed

theorem tunnel_retry_safe_witness:
  "\<exists>code. demo_request 0 0 = Inl (TlsRejected code True) \<and> code \<in> {TUnknownSession, TExpired, TUpstreamClosed}"
proof -
  have eq: "tunnel_exchange demo_urls (\<lambda>_ n. Inr n) demo_request (\<lambda>_. None) (\<lambda>_. 5) None demo_write = (fst demo_uses, snd demo_uses)"
    by (simp add: demo_uses_def)
  have once: "\<not> pf_retryable (pr_profile demo_write)" by (simp add: demo_write_def)
  from tunnel_retry_safe[OF eq] once show ?thesis unfolding demo_used by fastforce
qed

end
