(* ===== verification/Worker_Answers.thy ===== *)
theory Worker_Answers
  imports Worker_Fields
begin

section \<open>Answers the worker keeps\<close>

text \<open>
  \<open>packages/anon-rpc-worker/src/local-answers.ts\<close>: JSON-RPC calls whose answer cannot change, kept once two answers agree, oldest out.
  \<open>JSON.parse\<close> of bytes and \<open>JSON.stringify\<close> are parameters. The theorems: what is served was answered twice over the mixnet with
  the same result, and the memory is accounted for exactly and bounded.
\<close>

datatype local_kind = MemoKind | BlockHashKind

record answer_entry =
  ae_kind :: local_kind
  ae_result :: string
  ae_headers :: "(string \<times> string) list"
  ae_confirmations :: nat

record local_answers =
  la_entries :: "(string, answer_entry) jsmap"
  la_bytes :: int
  la_blockHashReads :: bool

record cacheable_call =
  cc_key :: string
  cc_kind :: local_kind
  cc_id :: json

definition LOCAL_ANSWER_MAX_ENTRIES :: nat where
  "LOCAL_ANSWER_MAX_ENTRIES = 512"

definition LOCAL_ANSWER_MAX_BYTES :: int where
  "LOCAL_ANSWER_MAX_BYTES = 4 * 1024 * 1024"

definition LOCAL_ANSWER_MAX_ENTRY_BYTES :: nat where
  "LOCAL_ANSWER_MAX_ENTRY_BYTES = 512 * 1024"

definition LOCAL_ANSWER_CONFIRMATIONS :: nat where
  "LOCAL_ANSWER_CONFIRMATIONS = 2"

definition MEMO_METHODS :: "string list" where
  "MEMO_METHODS = [''eth_chainId'', ''net_version'']"

definition BY_BLOCK_HASH :: "string list" where
  "BY_BLOCK_HASH = [''eth_getBlockByHash'', ''eth_getBlockTransactionCountByHash'', ''eth_getTransactionByBlockHashAndIndex'',
     ''eth_getUncleByBlockHashAndIndex'', ''eth_getUncleCountByBlockHash'']"

definition STATE_READS :: "string list" where
  "STATE_READS = [''eth_call'', ''eth_getBalance'', ''eth_getCode'', ''eth_getStorageAt'', ''eth_getTransactionCount'', ''eth_getProof'']"

definition is_hash :: "json \<Rightarrow> bool" where
  "is_hash v = (case v of
     JsStr s \<Rightarrow> length s = 66 \<and> prefix ''0x'' s \<and> list_all (\<lambda>c. is_digit c \<or> code_in 97 102 c \<or> code_in 65 70 c) (drop 2 s) | _ \<Rightarrow> False)"

definition plain_object :: "json \<Rightarrow> bool" where
  "plain_object v = (case v of JsObj _ \<Rightarrow> True | _ \<Rightarrow> False)"

definition isBlockHashSelector :: "json \<Rightarrow> bool" where
  "isBlockHashSelector v = (plain_object v \<and> is_hash (json_field v ''blockHash'') \<and> json_field v ''requireCanonical'' \<noteq> JsBool True
     \<and> json_field v ''blockNumber'' = JsUndef)"

definition classify :: "string \<Rightarrow> json \<Rightarrow> local_kind option" where
  "classify meth params =
     (if meth \<in> set MEMO_METHODS then (if params = JsArr [] then Some MemoKind else None)
      else (case params of
          JsArr (first_param # more_params) \<Rightarrow>
            (if meth \<in> set BY_BLOCK_HASH then (if is_hash first_param then Some BlockHashKind else None)
             else if meth = ''eth_getBlockReceipts'' then (if is_hash first_param \<or> isBlockHashSelector first_param then Some BlockHashKind else None)
             else if meth = ''eth_getLogs'' then
               (if isRecord first_param \<and> is_hash (json_field first_param ''blockHash'') \<and> json_field first_param ''fromBlock'' = JsUndef
                   \<and> json_field first_param ''toBlock'' = JsUndef then Some BlockHashKind else None)
             else if meth \<in> set STATE_READS then
               (if isBlockHashSelector (last (first_param # more_params)) then Some BlockHashKind else None)
             else None)
        | _ \<Rightarrow> None))"

definition no_cache :: "(string \<times> string) list \<Rightarrow> bool" where
  "no_cache hs = list_ex (\<lambda>(name, val). toLowerCase name = ''cache-control''
     \<and> (js_includes ''no-cache'' (toLowerCase val) \<or> js_includes ''no-store'' (toLowerCase val))) hs"

definition newline :: string where
  "newline = [CHR 0x0A]"

definition cacheableCall :: "(bytes \<Rightarrow> json option) \<Rightarrow> (json \<Rightarrow> string) \<Rightarrow> prepared_request \<Rightarrow> cacheable_call option" where
  "cacheableCall parse stringify r =
     (if pr_method r \<noteq> ''POST'' \<or> pf_method (pr_profile r) = None \<or> pf_method (pr_profile r) = Some ''batch'' then None
      else if no_cache (pr_headers r) then None
      else (case parse (pr_body r) of
          None \<Rightarrow> None
        | Some v \<Rightarrow>
            if \<not> plain_object v then None
            else (case (json_field v ''jsonrpc'', json_field v ''method'') of
                (JsStr version, JsStr meth) \<Rightarrow>
                  if version \<noteq> ''2.0'' then None
                  else (case json_field v ''id'' of
                      JsUndef \<Rightarrow> None | JsBool _ \<Rightarrow> None | JsArr _ \<Rightarrow> None | JsObj _ \<Rightarrow> None
                    | callId \<Rightarrow>
                        (let p = json_field v ''params''; params = (if p = JsUndef \<or> p = JsNull then JsArr [] else p) in
                         map_option (\<lambda>kind. \<lparr>cc_key = pr_url r @ newline @ meth @ newline @ stringify params, cc_kind = kind, cc_id = callId\<rparr>)
                           (classify meth params)))
              | _ \<Rightarrow> None)))"

definition resultOf :: "(bytes \<Rightarrow> json option) \<Rightarrow> (json \<Rightarrow> string) \<Rightarrow> bytes \<Rightarrow> string option" where
  "resultOf parse stringify bs =
     (case parse bs of
        None \<Rightarrow> None
      | Some v \<Rightarrow>
          if \<not> plain_object v \<or> json_field v ''error'' \<noteq> JsUndef \<or> json_field v ''result'' = JsUndef \<or> json_field v ''result'' = JsNull
          then None else Some (stringify (json_field v ''result'')))"

definition enabled_call :: "(bytes \<Rightarrow> json option) \<Rightarrow> (json \<Rightarrow> string) \<Rightarrow> local_answers \<Rightarrow> prepared_request \<Rightarrow> cacheable_call option" where
  "enabled_call parse stringify st r =
     (case cacheableCall parse stringify r of
        None \<Rightarrow> None
      | Some c \<Rightarrow> if cc_kind c = BlockHashKind \<and> \<not> la_blockHashReads st then None else Some c)"

definition served :: "answer_entry \<Rightarrow> bool" where
  "served e = (ae_confirmations e \<ge> LOCAL_ANSWER_CONFIRMATIONS)"

text \<open>A hit moves to the end; the body carries the caller's own identifier.\<close>

definition answer_body :: "(json \<Rightarrow> string) \<Rightarrow> json \<Rightarrow> string \<Rightarrow> string" where
  "answer_body stringify callId result = ''{\"jsonrpc\":\"2.0\",\"id\":'' @ stringify callId @ '',\"result\":'' @ result @ ''}''"

definition la_lookup ::
  "(bytes \<Rightarrow> json option) \<Rightarrow> (json \<Rightarrow> string) \<Rightarrow> prepared_request \<Rightarrow> local_answers \<Rightarrow> local_answers \<times> (local_kind \<times> int \<times> (string \<times> string) list \<times> string) option" where
  "la_lookup parse stringify r st =
     (case enabled_call parse stringify st r of
        None \<Rightarrow> (st, None)
      | Some c \<Rightarrow>
          (case jsmap_get (la_entries st) (cc_key c) of
             None \<Rightarrow> (st, None)
           | Some e \<Rightarrow>
               if \<not> served e then (st, None)
               else (st\<lparr>la_entries := jsmap_set (cc_key c) e (jsmap_delete (cc_key c) (la_entries st))\<rparr>,
                     Some (cc_kind c, 200, ae_headers e, answer_body stringify (cc_id c) (ae_result e)))))"

definition la_remove :: "string \<Rightarrow> answer_entry \<Rightarrow> local_answers \<Rightarrow> local_answers" where
  "la_remove key e st = st\<lparr>la_entries := jsmap_delete key (la_entries st), la_bytes := la_bytes st - int (length (ae_result e))\<rparr>"

fun evict_from :: "(string \<times> answer_entry) list \<Rightarrow> local_answers \<Rightarrow> local_answers" where
  "evict_from [] st = st"
| "evict_from ((key, e) # es) st =
     (if length (la_entries st) \<le> LOCAL_ANSWER_MAX_ENTRIES \<and> la_bytes st \<le> LOCAL_ANSWER_MAX_BYTES then st
      else evict_from es (la_remove key e st))"

definition la_evict :: "local_answers \<Rightarrow> local_answers" where
  "la_evict st = evict_from (la_entries st) st"

text \<open>The second result is \<open>verify\<close>.\<close>

definition la_observe ::
  "(bytes \<Rightarrow> json option) \<Rightarrow> (json \<Rightarrow> string) \<Rightarrow> prepared_request \<Rightarrow> int \<Rightarrow> (string \<times> string) list \<Rightarrow> bytes \<Rightarrow> local_answers \<Rightarrow> local_answers \<times> bool" where
  "la_observe parse stringify r status hs bs st =
     (case enabled_call parse stringify st r of
        None \<Rightarrow> (st, False)
      | Some c \<Rightarrow>
          if status \<noteq> 200 then (st, False)
          else (case resultOf parse stringify bs of
              None \<Rightarrow> (st, False)
            | Some result \<Rightarrow>
                if length result > LOCAL_ANSWER_MAX_ENTRY_BYTES then (st, False)
                else if cc_kind c = BlockHashKind \<and> result = ''[]'' then (st, False)
                else (case jsmap_get (la_entries st) (cc_key c) of
                    Some e \<Rightarrow>
                      if ae_result e = result
                      then (st\<lparr>la_entries := jsmap_set (cc_key c) (e\<lparr>ae_confirmations := ae_confirmations e + 1\<rparr>) (la_entries st)\<rparr>, False)
                      else (la_remove (cc_key c) e st, False)
                  | None \<Rightarrow>
                      (la_evict (st\<lparr>la_entries := jsmap_set (cc_key c) \<lparr>ae_kind = cc_kind c, ae_result = result,
                          ae_headers = filter (\<lambda>(name, _). toLowerCase name = ''content-type'') hs, ae_confirmations = 1\<rparr> (la_entries st),
                          la_bytes := la_bytes st + int (length result)\<rparr>), cc_kind c = MemoKind))))"

definition new_answers :: "bool \<Rightarrow> local_answers" where
  "new_answers blockHashReads = \<lparr>la_entries = [], la_bytes = 0, la_blockHashReads = blockHashReads\<rparr>"


subsection \<open>Accounting\<close>

definition kept_bytes :: "(string, answer_entry) jsmap \<Rightarrow> int" where
  "kept_bytes es = sum_list (map (\<lambda>(k, e). int (length (ae_result e))) es)"

definition accounted :: "local_answers \<Rightarrow> bool" where
  "accounted st = (jsmap_wf (la_entries st) \<and> la_bytes st = kept_bytes (la_entries st))"

definition bounded :: "local_answers \<Rightarrow> bool" where
  "bounded st = (length (la_entries st) \<le> 512 \<and> la_bytes st \<le> 4194304)"

lemma kept_bytes_delete:
  assumes "jsmap_wf es" "jsmap_get es k = Some e"
  shows "kept_bytes (jsmap_delete k es) = kept_bytes es - int (length (ae_result e))"
  using assms
proof (induction es)
  case (Cons x es)
  obtain k' e' where x: "x = (k', e')" by fastforce
  show ?case
  proof (cases "k' = k")
    case True
    then have "jsmap_delete k (x # es) = es" using Cons.prems(1) x jsmap_delete_absent[of k es] by (auto simp: jsmap_wf_def jsmap_delete_def)
    then show ?thesis using True x Cons.prems(2) by (simp add: kept_bytes_def jsmap_get_def)
  next
    case False
    then show ?thesis using Cons x by (simp add: jsmap_wf_def jsmap_get_def jsmap_delete_def kept_bytes_def)
  qed
qed (simp add: jsmap_get_def)

lemma kept_bytes_set_fresh: "jsmap_get es k = None \<Longrightarrow> kept_bytes (jsmap_set k e es) = kept_bytes es + int (length (ae_result e))"
  by (induction es) (auto simp: kept_bytes_def jsmap_get_def split: if_splits)

lemma kept_bytes_set_same:
  "jsmap_get es k = Some e \<Longrightarrow> ae_result e' = ae_result e \<Longrightarrow> kept_bytes (jsmap_set k e' es) = kept_bytes es"
  by (induction es) (auto simp: kept_bytes_def jsmap_get_def split: if_splits)

lemma evict_suffix:
  "accounted st \<Longrightarrow> la_entries st = es \<Longrightarrow>
   \<exists>dropped. es = dropped @ la_entries (evict_from es st) \<and> accounted (evict_from es st) \<and> bounded (evict_from es st)
     \<and> la_blockHashReads (evict_from es st) = la_blockHashReads st"
proof (induction es arbitrary: st)
  case Nil
  then show ?case by (simp add: accounted_def bounded_def kept_bytes_def)
next
  case (Cons x es)
  obtain k e where x: "x = (k, e)" by fastforce
  show ?case
  proof (cases "length (la_entries st) \<le> LOCAL_ANSWER_MAX_ENTRIES \<and> la_bytes st \<le> LOCAL_ANSWER_MAX_BYTES")
    case True
    then show ?thesis using Cons.prems x by (simp add: bounded_def LOCAL_ANSWER_MAX_ENTRIES_def LOCAL_ANSWER_MAX_BYTES_def)
  next
    case False
    have wf: "jsmap_wf (la_entries st)" using Cons.prems(1) by (simp add: accounted_def)
    then have k: "k \<notin> set (jsmap_keys es)" using Cons.prems(2) x by (auto simp: jsmap_wf_def)
    then have es: "la_entries (la_remove k e st) = es" using Cons.prems(2) x jsmap_delete_absent[OF k]
      by (simp add: la_remove_def jsmap_delete_def)
    have "accounted (la_remove k e st)" using Cons.prems wf x es
      by (simp add: accounted_def la_remove_def kept_bytes_def jsmap_wf_def)
    from Cons.IH[OF this es] obtain dropped where "es = dropped @ la_entries (evict_from es (la_remove k e st))"
      "accounted (evict_from es (la_remove k e st))" "bounded (evict_from es (la_remove k e st))"
      "la_blockHashReads (evict_from es (la_remove k e st)) = la_blockHashReads st" by (auto simp: la_remove_def)
    moreover have "evict_from (x # es) st = evict_from es (la_remove k e st)" unfolding x evict_from.simps using False by (rule if_not_P)
    ultimately show ?thesis by (intro exI[of _ "x # dropped"]) simp
  qed
qed

subsection \<open>What is served\<close>

datatype answer_event =
    Observed prepared_request int "(string \<times> string) list" bytes
  | LookedUp prepared_request

fun answer_step :: "(bytes \<Rightarrow> json option) \<Rightarrow> (json \<Rightarrow> string) \<Rightarrow> answer_event \<Rightarrow> local_answers \<Rightarrow> local_answers" where
  "answer_step parse stringify (Observed r status hs bs) st = fst (la_observe parse stringify r status hs bs st)"
| "answer_step parse stringify (LookedUp r) st = fst (la_lookup parse stringify r st)"

text \<open>The results that came over the mixnet for a key.\<close>

definition mixnet_answer :: "(bytes \<Rightarrow> json option) \<Rightarrow> (json \<Rightarrow> string) \<Rightarrow> answer_event \<Rightarrow> (string \<times> string) list" where
  "mixnet_answer parse stringify ev = (case ev of
     Observed r status hs bs \<Rightarrow>
       (case (cacheableCall parse stringify r, resultOf parse stringify bs) of
          (Some c, Some result) \<Rightarrow> if status = 200 then [(cc_key c, result)] else []
        | _ \<Rightarrow> [])
   | LookedUp r \<Rightarrow> [])"

definition mixnet_answers :: "(bytes \<Rightarrow> json option) \<Rightarrow> (json \<Rightarrow> string) \<Rightarrow> answer_event list \<Rightarrow> (string \<times> string) list" where
  "mixnet_answers parse stringify evs = concat (map (mixnet_answer parse stringify) evs)"

definition answers_ok :: "(string \<times> string) list \<Rightarrow> local_answers \<Rightarrow> bool" where
  "answers_ok seen st = (accounted st \<and> bounded st
     \<and> (\<forall>k e. (k, e) \<in> set (la_entries st) \<longrightarrow> ae_confirmations e \<le> count_list seen (k, ae_result e) \<and> length (ae_result e) \<le> 524288))"

lemma count_append: "count_list (xs @ ys) x = count_list xs x + count_list ys x"
  by (induction xs) auto

lemma answers_ok_more: "answers_ok seen st \<Longrightarrow> answers_ok (seen @ more_seen) st"
  by (fastforce simp: answers_ok_def count_append)

lemma answers_ok_remove:
  assumes "answers_ok seen st" "jsmap_get (la_entries st) k = Some e"
  shows "answers_ok seen (la_remove k e st)"
proof -
  have wf: "jsmap_wf (la_entries st)" "la_bytes st = kept_bytes (la_entries st)" using assms(1) by (simp_all add: answers_ok_def accounted_def)
  have "length (jsmap_delete k (la_entries st)) \<le> length (la_entries st)" by (simp add: jsmap_delete_def)
  then show ?thesis using assms wf kept_bytes_delete[OF wf(1) assms(2)]
    by (auto simp: answers_ok_def accounted_def bounded_def la_remove_def jsmap_wf_delete set_jsmap_delete)
qed

lemma answers_ok_lookup:
  assumes "answers_ok seen st"
  shows "answers_ok seen (fst (la_lookup parse stringify r st))"
proof -
  have touch: "answers_ok seen (st\<lparr>la_entries := jsmap_set k e (jsmap_delete k (la_entries st))\<rparr>)" if e: "jsmap_get (la_entries st) k = Some e" for k e
  proof -
    let ?es = "jsmap_set k e (jsmap_delete k (la_entries st))"
    have wf: "jsmap_wf (la_entries st)" using assms by (simp add: answers_ok_def accounted_def)
    note wd = jsmap_wf_delete[OF wf, of k]
    have none: "jsmap_get (jsmap_delete k (la_entries st)) k = None" by (simp add: jsmap_get_def jsmap_delete_map_of)
    have mem: "(k, e) \<in> set (la_entries st)" using e by (simp add: jsmap_get_Some_in)
    then have keys: "k \<in> set (jsmap_keys (la_entries st))" by force
    have "kept_bytes ?es = kept_bytes (la_entries st)" using kept_bytes_set_fresh[OF none] kept_bytes_delete[OF wf e] by simp
    moreover have "length ?es = length (la_entries st)" using length_jsmap_delete[OF wf keys] keys none mem
      by (auto simp: length_jsmap_set jsmap_keys_delete intro: Suc_pred length_pos_if_in_set)
    moreover have "set ?es \<subseteq> set (la_entries st)" using mem wd by (auto simp: set_jsmap_set set_jsmap_delete)
    ultimately show ?thesis using assms wd by (auto simp: answers_ok_def accounted_def bounded_def jsmap_wf_set)
  qed
  show ?thesis using assms touch by (auto simp: la_lookup_def split: option.split)
qed

lemma answers_ok_observe:
  assumes "answers_ok seen st"
  shows "answers_ok (seen @ mixnet_answer parse stringify (Observed r status hs bs)) (fst (la_observe parse stringify r status hs bs st))"
proof -
  let ?seen = "seen @ mixnet_answer parse stringify (Observed r status hs bs)"
  have idle: "answers_ok ?seen st" by (rule answers_ok_more[OF assms])
  have wf: "jsmap_wf (la_entries st)" "la_bytes st = kept_bytes (la_entries st)" using assms by (simp_all add: answers_ok_def accounted_def)
  show ?thesis
  proof (cases "\<exists>c result. enabled_call parse stringify st r = Some c \<and> status = 200 \<and> resultOf parse stringify bs = Some result
      \<and> length result \<le> LOCAL_ANSWER_MAX_ENTRY_BYTES \<and> \<not> (cc_kind c = BlockHashKind \<and> result = ''[]'')")
    case False
    then have "fst (la_observe parse stringify r status hs bs st) = st" by (auto simp: la_observe_def split: option.split)
    then show ?thesis using idle by simp
  next
    case True
    then obtain c result where c: "enabled_call parse stringify st r = Some c" "status = 200" "resultOf parse stringify bs = Some result"
      "length result \<le> LOCAL_ANSWER_MAX_ENTRY_BYTES" "\<not> (cc_kind c = BlockHashKind \<and> result = ''[]'')" by blast
    have "cacheableCall parse stringify r = Some c" using c(1) by (auto simp: enabled_call_def split: option.splits if_splits)
    then have seen: "?seen = seen @ [(cc_key c, result)]" using c by (simp add: mixnet_answer_def)
    show ?thesis
    proof (cases "jsmap_get (la_entries st) (cc_key c)")
      case (Some e)
      show ?thesis
      proof (cases "ae_result e = result")
        case True
        let ?e = "e\<lparr>ae_confirmations := ae_confirmations e + 1\<rparr>"
        let ?st = "st\<lparr>la_entries := jsmap_set (cc_key c) ?e (la_entries st)\<rparr>"
        have mem: "(cc_key c, e) \<in> set (la_entries st)" using Some by (simp add: jsmap_get_Some_in)
        then have len: "length (jsmap_set (cc_key c) ?e (la_entries st)) = length (la_entries st)" by (force simp: length_jsmap_set)
        have bytes: "kept_bytes (jsmap_set (cc_key c) ?e (la_entries st)) = kept_bytes (la_entries st)" by (rule kept_bytes_set_same[OF Some]) simp
        have "ae_confirmations e' \<le> count_list ?seen (k, ae_result e') \<and> length (ae_result e') \<le> 524288" if "(k, e') \<in> set (la_entries ?st)" for k e'
        proof (cases "k = cc_key c")
          case k: True
          then have "e' = ?e" using that wf by (auto simp: set_jsmap_set)
          then show ?thesis using k mem assms True unfolding seen answers_ok_def by (force simp: count_append)
        next
          case k: False
          then have "(k, e') \<in> set (la_entries st)" using that wf by (auto simp: set_jsmap_set)
          then show ?thesis using idle unfolding answers_ok_def by blast
        qed
        then have "answers_ok ?seen ?st" using assms wf len bytes unfolding answers_ok_def accounted_def bounded_def by (simp add: jsmap_wf_set)
        moreover have "fst (la_observe parse stringify r status hs bs st) = ?st" using c(1-4) Some True by (simp add: la_observe_def not_less if_not_P[OF c(5)])
        ultimately show ?thesis by simp
      next
        case False
        then have "fst (la_observe parse stringify r status hs bs st) = la_remove (cc_key c) e st"
          using c(1-4) Some by (simp add: la_observe_def not_less if_not_P[OF c(5)])
        then show ?thesis using answers_ok_remove[OF idle Some] by simp
      qed
    next
      case None
      let ?e = "\<lparr>ae_kind = cc_kind c, ae_result = result, ae_headers = filter (\<lambda>(name, _). toLowerCase name = ''content-type'') hs, ae_confirmations = 1\<rparr>"
      let ?st = "st\<lparr>la_entries := jsmap_set (cc_key c) ?e (la_entries st), la_bytes := la_bytes st + int (length result)\<rparr>"
      have res: "fst (la_observe parse stringify r status hs bs st) = evict_from (la_entries ?st) ?st"
        using c(1-4) None by (simp add: la_observe_def la_evict_def not_less if_not_P[OF c(5)])
      have "accounted ?st" using wf kept_bytes_set_fresh[OF None, of ?e] by (simp add: accounted_def jsmap_wf_set)
      from evict_suffix[OF this refl] obtain dropped where ev: "la_entries ?st = dropped @ la_entries (evict_from (la_entries ?st) ?st)"
        "accounted (evict_from (la_entries ?st) ?st)" "bounded (evict_from (la_entries ?st) ?st)" by blast
      have "ae_confirmations e' \<le> count_list ?seen (k, ae_result e') \<and> length (ae_result e') \<le> 524288"
        if "(k, e') \<in> set (la_entries (evict_from (la_entries ?st) ?st))" for k e'
      proof -
        have "(k, e') \<in> set (la_entries ?st)" using that ev(1) by (metis Un_iff set_append)
        then have "(k, e') = (cc_key c, ?e) \<or> (k, e') \<in> set (la_entries st)" using wf by (auto simp: set_jsmap_set)
        then show ?thesis
        proof
          assume "(k, e') = (cc_key c, ?e)"
          then show ?thesis using c(4) unfolding seen by (simp add: count_append LOCAL_ANSWER_MAX_ENTRY_BYTES_def)
        next
          assume "(k, e') \<in> set (la_entries st)"
          then show ?thesis using idle unfolding answers_ok_def by blast
        qed
      qed
      then show ?thesis using ev unfolding res answers_ok_def by blast
    qed
  qed
qed

lemma answers_ok_run: "answers_ok seen st \<Longrightarrow> answers_ok (seen @ mixnet_answers parse stringify evs) (fold (answer_step parse stringify) evs st)"
proof (induction evs arbitrary: seen st)
  case (Cons ev evs)
  have "answers_ok (seen @ mixnet_answer parse stringify ev) (answer_step parse stringify ev st)"
    using answers_ok_observe[OF Cons.prems] answers_ok_lookup[OF Cons.prems] by (cases ev) (auto simp: mixnet_answer_def)
  from Cons.IH[OF this] show ?case by (simp add: mixnet_answers_def)
qed (simp add: mixnet_answers_def)

text \<open>The parameters of a call: none are an empty list.\<close>

definition call_params :: "json \<Rightarrow> json" where
  "call_params v = (if json_field v ''params'' \<in> {JsUndef, JsNull} then JsArr [] else json_field v ''params'')"

lemma cacheable_cases:
  assumes "cacheableCall parse stringify r = Some c"
  obtains v meth where "parse (pr_body r) = Some v" "json_field v ''method'' = JsStr meth" "cc_id c = json_field v ''id''"
    "cc_key c = pr_url r @ newline @ meth @ newline @ stringify (call_params v)" "classify meth (call_params v) = Some (cc_kind c)"
proof -
  from assms obtain v where v: "parse (pr_body r) = Some v" "plain_object v" by (auto simp: cacheableCall_def split: if_splits option.splits)
  from assms v(1) have "\<exists>meth version. json_field v ''method'' = JsStr meth \<and> json_field v ''jsonrpc'' = JsStr version"
    by (cases "json_field v ''jsonrpc''"; cases "json_field v ''method''") (simp_all add: cacheableCall_def split: if_splits)
  then obtain meth version where meth: "json_field v ''method'' = JsStr meth" "json_field v ''jsonrpc'' = JsStr version" by blast
  let ?params = "call_params v" and ?id = "json_field v ''id''"
  have run: "cacheableCall parse stringify r = (case ?id of JsUndef \<Rightarrow> None | JsBool _ \<Rightarrow> None | JsArr _ \<Rightarrow> None | JsObj _ \<Rightarrow> None
      | callId \<Rightarrow> map_option (\<lambda>kind. \<lparr>cc_key = pr_url r @ newline @ meth @ newline @ stringify ?params, cc_kind = kind, cc_id = callId\<rparr>)
          (classify meth ?params))"
  proof -
    have guards: "\<not> (pr_method r \<noteq> ''POST'' \<or> pf_method (pr_profile r) = None \<or> pf_method (pr_profile r) = Some ''batch'')"
      "\<not> no_cache (pr_headers r)" "version = ''2.0''"
      using assms v meth by (auto simp: cacheableCall_def split: if_splits)
    show ?thesis unfolding cacheableCall_def call_params_def if_not_P[OF guards(1)] if_not_P[OF guards(2)] Let_def
      using v meth guards(3) by simp
  qed
  have "cc_id c = ?id \<and> cc_key c = pr_url r @ newline @ meth @ newline @ stringify ?params \<and> classify meth ?params = Some (cc_kind c)"
    using assms unfolding run by (cases ?id) auto
  then show ?thesis using that v meth by blast
qed

definition kept_methods :: "string list" where
  "kept_methods = MEMO_METHODS @ BY_BLOCK_HASH @ [''eth_getBlockReceipts'', ''eth_getLogs''] @ STATE_READS"

lemma classified_line:
  assumes "classify meth params = Some kind"
  shows "CHR 0x0A \<notin> set meth"
proof -
  have "list_all (\<lambda>m. CHR 0x0A \<notin> set m) kept_methods" by code_simp
  moreover have "meth \<in> set kept_methods"
  proof (rule ccontr)
    assume "meth \<notin> set kept_methods"
    then have "meth \<notin> set MEMO_METHODS" "meth \<notin> set BY_BLOCK_HASH" "meth \<noteq> ''eth_getBlockReceipts''" "meth \<noteq> ''eth_getLogs''" "meth \<notin> set STATE_READS"
      by (simp_all add: kept_methods_def)
    then have "classify meth params = None" by (simp add: classify_def split: json.split list.split)
    then show False using assms by simp
  qed
  ultimately show ?thesis by (simp add: list_all_iff)
qed

lemma line_split: "CHR 0x0A \<notin> set a \<Longrightarrow> CHR 0x0A \<notin> set b \<Longrightarrow> a @ newline @ x = b @ newline @ y \<Longrightarrow> a = b \<and> x = y"
proof (induction a arbitrary: b)
  case Nil
  then show ?case by (cases b) (auto simp: newline_def)
next
  case (Cons c a)
  then show ?case by (cases b) (auto simp: newline_def)
qed

lemma same_key:
  assumes "cc_key c = cc_key d" "cacheableCall parse stringify r = Some c" "cacheableCall parse stringify q = Some d"
    and "CHR 0x0A \<notin> set (pr_url r)" "CHR 0x0A \<notin> set (pr_url q)"
  shows "\<exists>v w meth. pr_url q = pr_url r \<and> parse (pr_body r) = Some v \<and> parse (pr_body q) = Some w
    \<and> json_field v ''method'' = JsStr meth \<and> json_field w ''method'' = JsStr meth \<and> stringify (call_params w) = stringify (call_params v)"
proof -
  obtain v m where v: "parse (pr_body r) = Some v" "json_field v ''method'' = JsStr m"
    "cc_key c = pr_url r @ newline @ m @ newline @ stringify (call_params v)" "classify m (call_params v) = Some (cc_kind c)"
    using cacheable_cases[OF assms(2)] by metis
  obtain w n where w: "parse (pr_body q) = Some w" "json_field w ''method'' = JsStr n"
    "cc_key d = pr_url q @ newline @ n @ newline @ stringify (call_params w)" "classify n (call_params w) = Some (cc_kind d)"
    using cacheable_cases[OF assms(3)] by metis
  have "pr_url r @ newline @ m @ newline @ stringify (call_params v) = pr_url q @ newline @ n @ newline @ stringify (call_params w)"
    using assms(1) v(3) w(3) by simp
  from line_split[OF assms(4,5) this] have "pr_url r = pr_url q"
    and rest: "m @ newline @ stringify (call_params v) = n @ newline @ stringify (call_params w)" by auto
  from line_split[OF classified_line[OF v(4)] classified_line[OF w(4)] rest] have "m = n" "stringify (call_params v) = stringify (call_params w)" by auto
  then show ?thesis using v w \<open>pr_url r = pr_url q\<close> by auto
qed

text \<open>A response of the mixnet to the URL, the method and the printed parameters, with the printed result.\<close>

definition answered :: "(bytes \<Rightarrow> json option) \<Rightarrow> (json \<Rightarrow> string) \<Rightarrow> string \<Rightarrow> string \<Rightarrow> string \<Rightarrow> string \<Rightarrow> answer_event \<Rightarrow> bool" where
  "answered parse stringify url meth params result ev = (\<exists>q hs bs w answer. ev = Observed q 200 hs bs \<and> pr_url q = url
     \<and> parse (pr_body q) = Some w \<and> json_field w ''method'' = JsStr meth \<and> stringify (call_params w) = params
     \<and> parse bs = Some answer \<and> json_field answer ''error'' = JsUndef \<and> stringify (json_field answer ''result'') = result)"

lemma answers_counted:
  "count_list (mixnet_answers parse stringify evs) x = length (filter (\<lambda>ev. mixnet_answer parse stringify ev = [x]) evs)"
  by (induction evs) (auto simp: mixnet_answers_def mixnet_answer_def count_append split: answer_event.split option.split)

lemma filter_weaker: "(\<And>x. x \<in> set xs \<Longrightarrow> P x \<Longrightarrow> Q x) \<Longrightarrow> length (filter P xs) \<le> length (filter Q xs)"
  by (induction xs) (auto intro: le_SucI)

definition url_lines :: "answer_event \<Rightarrow> bool" where
  "url_lines ev = (case ev of Observed q _ _ _ \<Rightarrow> CHR 0x0A \<notin> set (pr_url q) | LookedUp q \<Rightarrow> CHR 0x0A \<notin> set (pr_url q))"

lemma mixnet_answered:
  assumes "mixnet_answer parse stringify ev = [(cc_key c, result)]" "cacheableCall parse stringify r = Some c"
    and "url_lines ev" "CHR 0x0A \<notin> set (pr_url r)" "parse (pr_body r) = Some v" "json_field v ''method'' = JsStr meth"
  shows "answered parse stringify (pr_url r) meth (stringify (call_params v)) result ev"
proof -
  obtain q hs bs d where ev: "ev = Observed q 200 hs bs" "cacheableCall parse stringify q = Some d" "cc_key d = cc_key c"
    "resultOf parse stringify bs = Some result" using assms(1)
    by (auto simp: mixnet_answer_def split: answer_event.splits option.splits if_splits)
  have "CHR 0x0A \<notin> set (pr_url q)" using assms(3) ev(1) by (simp add: url_lines_def)
  from same_key[OF ev(3)[symmetric] assms(2) ev(2) assms(4) this] assms(5,6) obtain w where w: "pr_url q = pr_url r" "parse (pr_body q) = Some w"
    "json_field w ''method'' = JsStr meth" "stringify (call_params w) = stringify (call_params v)" by auto
  obtain answer where "parse bs = Some answer" "json_field answer ''error'' = JsUndef" "stringify (json_field answer ''result'') = result"
    using ev(4) by (auto simp: resultOf_def split: option.splits if_splits)
  then show ?thesis unfolding answered_def using ev(1) w by blast
qed

text \<open>
  C35. A local answer was confirmed. After any sequence of answers and lookups, over URLs without a line break (a parsed URL has none): an answer served from memory to a
  JSON-RPC call has a result that the mixnet returned at least twice to calls of the same URL, the same method and the same printed
  parameters, each time with status 200 and no error, and it is served under the caller's own identifier; and the memory holds at most 512 answers of at most 512 KiB each, 4 MiB in
  all, counted exactly.
\<close>

theorem local_answers_confirmed:
  assumes "st = fold (answer_step parse stringify) evs (new_answers blockHashReads)"
    and "list_all url_lines evs" "CHR 0x0A \<notin> set (pr_url r)"
  shows "(la_lookup parse stringify r st = (st', Some (kind, status, hs, text_body)) \<longrightarrow>
        (\<exists>v meth result. parse (pr_body r) = Some v \<and> json_field v ''method'' = JsStr meth
           \<and> text_body = ''{\"jsonrpc\":\"2.0\",\"id\":'' @ stringify (json_field v ''id'') @ '',\"result\":'' @ result @ ''}''
           \<and> 2 \<le> length (filter (answered parse stringify (pr_url r) meth (stringify (call_params v)) result) evs)))
    \<and> length (la_entries st) \<le> 512 \<and> la_bytes st \<le> 4194304 \<and> la_bytes st = kept_bytes (la_entries st)
    \<and> (\<forall>(k, e) \<in> set (la_entries st). length (ae_result e) \<le> 524288)"
proof -
  have "answers_ok [] (new_answers blockHashReads)" by (simp add: answers_ok_def accounted_def bounded_def new_answers_def kept_bytes_def)
  from answers_ok_run[OF this] have ok: "answers_ok (mixnet_answers parse stringify evs) st" using assms by simp
  have "\<exists>v meth result. parse (pr_body r) = Some v \<and> json_field v ''method'' = JsStr meth
      \<and> text_body = ''{\"jsonrpc\":\"2.0\",\"id\":'' @ stringify (json_field v ''id'') @ '',\"result\":'' @ result @ ''}''
      \<and> 2 \<le> length (filter (answered parse stringify (pr_url r) meth (stringify (call_params v)) result) evs)"
    if hit: "la_lookup parse stringify r st = (st', Some (kind, status, hs, text_body))"
  proof -
    obtain c e where c: "enabled_call parse stringify st r = Some c" "jsmap_get (la_entries st) (cc_key c) = Some e" "served e"
      "text_body = answer_body stringify (cc_id c) (ae_result e)" using hit by (auto simp: la_lookup_def split: option.splits if_splits)
    have call: "cacheableCall parse stringify r = Some c" using c(1) by (auto simp: enabled_call_def split: option.splits if_splits)
    obtain v meth where v: "parse (pr_body r) = Some v" "json_field v ''method'' = JsStr meth" "cc_id c = json_field v ''id''"
      using cacheable_cases[OF call] by metis
    have "(cc_key c, e) \<in> set (la_entries st)" using c(2) by (simp add: jsmap_get_Some_in)
    then have "2 \<le> count_list (mixnet_answers parse stringify evs) (cc_key c, ae_result e)"
      using ok c(3) unfolding answers_ok_def served_def LOCAL_ANSWER_CONFIRMATIONS_def by (metis le_trans)
    also have "\<dots> \<le> length (filter (answered parse stringify (pr_url r) meth (stringify (call_params v)) (ae_result e)) evs)"
      unfolding answers_counted
      by (rule filter_weaker) (use mixnet_answered[OF _ call _ assms(3) v(1,2)] assms(2) in \<open>auto simp: list_all_iff\<close>)
    finally show ?thesis using v c(4) by (auto simp: answer_body_def)
  qed
  then show ?thesis using ok unfolding answers_ok_def accounted_def bounded_def by blast
qed

subsection \<open>A sample pair of answers\<close>

definition chain_call :: json where
  "chain_call = JsObj [(''jsonrpc'', JsStr ''2.0''), (''id'', JsInt 7), (''method'', JsStr ''eth_chainId'')]"

definition chain_parse :: "bytes \<Rightarrow> json option" where
  "chain_parse bs = (if bs = [1] then Some chain_call else if bs = [2] then Some (JsObj [(''id'', JsInt 7), (''result'', JsStr ''0x1'')]) else None)"

definition chain_print :: "json \<Rightarrow> string" where
  "chain_print v = (case v of JsArr _ \<Rightarrow> ''[]'' | JsStr _ \<Rightarrow> ''0x1'' | _ \<Rightarrow> ''7'')"

definition chain_read :: prepared_request where
  "chain_read = \<lparr>pr_method = ''POST'', pr_url = ''u'', pr_headers = [], pr_body = [1], pr_redirect = Follow,
     pr_profile = OTHER_PROFILE\<lparr>pf_method := Some ''eth_chainId''\<rparr>\<rparr>"

definition chain_evs :: "answer_event list" where
  "chain_evs = [Observed chain_read 200 [] [2], Observed chain_read 200 [] [2]]"

lemma chain_cacheable:
  "cacheableCall chain_parse chain_print chain_read = Some \<lparr>cc_key = ''u'' @ newline @ ''eth_chainId'' @ newline @ ''[]'', cc_kind = MemoKind, cc_id = JsInt 7\<rparr>"
  by (simp add: cacheableCall_def chain_read_def chain_parse_def chain_call_def no_cache_def plain_object_def json_field_def jsmap_get_def
      classify_def MEMO_METHODS_def chain_print_def OTHER_PROFILE_def)

lemma chain_result: "resultOf chain_parse chain_print [2] = Some ''0x1''"
  by (simp add: resultOf_def chain_parse_def plain_object_def json_field_def jsmap_get_def chain_print_def)

lemma chain_hit:
  "\<exists>st' hs text_body. la_lookup chain_parse chain_print chain_read (fold (answer_step chain_parse chain_print) chain_evs (new_answers False))
     = (st', Some (MemoKind, 200, hs, text_body))"
  by (simp add: chain_evs_def la_observe_def la_lookup_def enabled_call_def chain_cacheable chain_result new_answers_def jsmap_get_def
      LOCAL_ANSWER_MAX_ENTRY_BYTES_def LOCAL_ANSWER_MAX_ENTRIES_def LOCAL_ANSWER_MAX_BYTES_def la_evict_def served_def LOCAL_ANSWER_CONFIRMATIONS_def)

theorem local_answers_confirmed_witness:
  "\<exists>result. 2 \<le> length (filter (answered chain_parse chain_print ''u'' ''eth_chainId'' ''[]'' result) chain_evs)"
proof -
  obtain st' hs text_body where hit: "la_lookup chain_parse chain_print chain_read (fold (answer_step chain_parse chain_print) chain_evs (new_answers False))
     = (st', Some (MemoKind, 200, hs, text_body))" using chain_hit by blast
  have lines: "list_all url_lines chain_evs" "CHR 0x0A \<notin> set (pr_url chain_read)" by (simp_all add: chain_evs_def chain_read_def url_lines_def)
  from local_answers_confirmed[OF refl lines, THEN conjunct1, rule_format, OF hit] obtain v meth result where
    *: "chain_parse (pr_body chain_read) = Some v" "json_field v ''method'' = JsStr meth"
    "2 \<le> length (filter (answered chain_parse chain_print (pr_url chain_read) meth (chain_print (call_params v)) result) chain_evs)" by blast
  have "v = chain_call" using *(1) by (simp add: chain_read_def chain_parse_def)
  then have "meth = ''eth_chainId''" "chain_print (call_params v) = ''[]''" using *(2)
    by (simp_all add: chain_call_def json_field_def jsmap_get_def call_params_def chain_print_def)
  then show ?thesis using *(3) by (auto simp: chain_read_def)
qed

end
