(* ===== verification/Tunnel_Opens.thy ===== *)
theory Tunnel_Opens
  imports Tunnel
begin

section \<open>Choosing the exit of a TLS session\<close>

text \<open>
  The opens of \<open>packages/anon-rpc-worker/src/tls/pool.ts\<close> (\<open>open\<close>, \<open>pickExit\<close>, \<open>candidates\<close>, \<open>skip\<close>): a session opens through an exit
  that is not skipped; an exit that refuses tunnels or stays silent is skipped for a while, and the open moves to another exit. An open in
  flight is a record, because other opens change the skipped exits while it waits for its handshake.
\<close>

definition EXIT_SKIP_MS :: int where
  "EXIT_SKIP_MS = 600000"

definition MAX_OPEN_ATTEMPTS :: nat where
  "MAX_OPEN_ATTEMPTS = 3"

datatype open_failure =
    NoTunnelExit
  | OpenTimedOut
  | OpenRejected tunnel_reject_code bool
  | OpenBroken

record session_open =
  so_tried :: "string list"
  so_attempt :: nat
  so_lastError :: open_failure

definition new_open :: session_open where
  "new_open = \<lparr>so_tried = [], so_attempt = 0, so_lastError = NoTunnelExit\<rparr>"

text \<open>The filter forgets a skip that has passed.\<close>

fun exit_candidates :: "int \<Rightarrow> string list \<Rightarrow> string list \<Rightarrow> (string, int) jsmap \<Rightarrow> string list \<times> (string, int) jsmap" where
  "exit_candidates now exclude [] skipped = ([], skipped)"
| "exit_candidates now exclude (n # ns) skipped =
     (if n \<in> set exclude then exit_candidates now exclude ns skipped
      else (case jsmap_get skipped n of
          None \<Rightarrow> (let (pool, sk) = exit_candidates now exclude ns skipped in (n # pool, sk))
        | Some until \<Rightarrow>
            if until > now then exit_candidates now exclude ns skipped
            else (let (pool, sk) = exit_candidates now exclude ns (jsmap_delete n skipped) in (n # pool, sk))))"

text \<open>\<open>pick n\<close> is \<open>Math.floor(random() * n)\<close>.\<close>

definition pickExit :: "(nat \<Rightarrow> nat) \<Rightarrow> string list \<Rightarrow> string option" where
  "pickExit pick pool = (if pool = [] then None else Some (pool ! min (length pool - 1) (pick (length pool))))"

definition skip_exit :: "int \<Rightarrow> string \<Rightarrow> (string, int) jsmap \<Rightarrow> (string, int) jsmap" where
  "skip_exit now exit skipped = jsmap_set exit (now + EXIT_SKIP_MS) skipped"

text \<open>The next attempt: the exit to shake hands with, or the error the open throws.\<close>

definition open_try ::
  "int \<Rightarrow> (nat \<Rightarrow> nat) \<Rightarrow> string list \<Rightarrow> session_open \<Rightarrow> (string, int) jsmap \<Rightarrow> (string, int) jsmap \<times> (open_failure + session_open \<times> string)" where
  "open_try now pick exits opn skipped =
     (if so_attempt opn \<ge> MAX_OPEN_ATTEMPTS then (skipped, Inl (so_lastError opn))
      else
        (let (pool, sk) = exit_candidates now (so_tried opn) exits skipped in
         case pickExit pick pool of
           None \<Rightarrow> (sk, Inl (so_lastError opn))
         | Some exit \<Rightarrow> (sk, Inr (opn\<lparr>so_tried := so_tried opn @ [exit]\<rparr>, exit))))"

text \<open>A handshake that failed: the open goes on, or throws.\<close>

definition open_failed ::
  "int \<Rightarrow> string \<Rightarrow> open_failure \<Rightarrow> session_open \<Rightarrow> (string, int) jsmap \<Rightarrow> (string, int) jsmap \<times> (open_failure + session_open)" where
  "open_failed now exit failure opn skipped =
     (let again = opn\<lparr>so_attempt := so_attempt opn + 1, so_lastError := failure\<rparr> in
      case failure of
        OpenTimedOut \<Rightarrow> (skip_exit now exit skipped, Inr again)
      | OpenRejected code retryable \<Rightarrow>
          if code = TDisabled then (skip_exit now exit skipped, Inr again)
          else if retryable then (skipped, Inr again)
          else (skipped, Inl failure)
      | _ \<Rightarrow> (skipped, Inl failure))"

subsection \<open>All opens of a pool\<close>

text \<open>
  The opens of one pool share the skipped exits. An open that starts picks its first exit; a handshake that fails lets its open pick the next
  exit in the same turn, or throw; a handshake that ends opens the session. The events of different opens come in any order. Every event carries its
  time, the random source and the exits that the topology offers then.
\<close>

record open_pool =
  op_skipped :: "(string, int) jsmap"
  op_opens :: "(nat, session_open \<times> string) jsmap"
  op_next :: nat

definition new_open_pool :: open_pool where
  "new_open_pool = \<lparr>op_skipped = [], op_opens = [], op_next = 0\<rparr>"

datatype open_event =
    OpenStarts int "nat \<Rightarrow> nat" "string list"
  | HandshakeFails nat int open_failure "nat \<Rightarrow> nat" "string list"
  | HandshakeDone nat int

datatype open_effect =
    ExitChosen nat int string
  | ExitLeft nat int string open_failure
  | OpenThrew nat open_failure
  | SessionOpened nat string

definition next_exit :: "nat \<Rightarrow> int \<Rightarrow> (nat \<Rightarrow> nat) \<Rightarrow> string list \<Rightarrow> session_open \<Rightarrow> open_pool \<Rightarrow> open_pool \<times> open_effect list" where
  "next_exit i now pick exits opn p =
     (case open_try now pick exits opn (op_skipped p) of
        (sk, Inl failure) \<Rightarrow> (p\<lparr>op_skipped := sk, op_opens := jsmap_delete i (op_opens p)\<rparr>, [OpenThrew i failure])
      | (sk, Inr (opn1, exit)) \<Rightarrow>
          (p\<lparr>op_skipped := sk, op_opens := jsmap_set i (opn1, exit) (op_opens p)\<rparr>, [ExitChosen i now exit]))"

fun open_step :: "open_event \<Rightarrow> open_pool \<Rightarrow> open_pool \<times> open_effect list" where
  "open_step (OpenStarts now pick exits) p = next_exit (op_next p) now pick exits new_open (p\<lparr>op_next := op_next p + 1\<rparr>)"
| "open_step (HandshakeFails i now failure pick exits) p =
     (case jsmap_get (op_opens p) i of
        None \<Rightarrow> (p, [])
      | Some (opn, exit) \<Rightarrow>
          (case open_failed now exit failure opn (op_skipped p) of
             (sk, Inl e) \<Rightarrow> (p\<lparr>op_skipped := sk, op_opens := jsmap_delete i (op_opens p)\<rparr>, [ExitLeft i now exit failure, OpenThrew i e])
           | (sk, Inr again) \<Rightarrow>
               (let (p1, out) = next_exit i now pick exits again (p\<lparr>op_skipped := sk\<rparr>) in (p1, ExitLeft i now exit failure # out))))"
| "open_step (HandshakeDone i now) p =
     (case jsmap_get (op_opens p) i of
        None \<Rightarrow> (p, [])
      | Some (_, exit) \<Rightarrow> (p\<lparr>op_opens := jsmap_delete i (op_opens p)\<rparr>, [SessionOpened i exit]))"

fun open_steps :: "open_event list \<Rightarrow> open_pool \<Rightarrow> open_pool \<times> open_effect list" where
  "open_steps [] p = (p, [])"
| "open_steps (ev # evs) p = (let (p1, out1) = open_step ev p; (p2, out2) = open_steps evs p1 in (p2, out1 @ out2))"

fun event_time :: "open_event \<Rightarrow> int" where
  "event_time (OpenStarts now _ _) = now"
| "event_time (HandshakeFails _ now _ _ _) = now"
| "event_time (HandshakeDone _ now) = now"

fun exits_offered :: "open_event \<Rightarrow> string list" where
  "exits_offered (OpenStarts _ _ exits) = exits"
| "exits_offered (HandshakeFails _ _ _ _ exits) = exits"
| "exits_offered (HandshakeDone _ _) = []"

text \<open>The exits an open chose, and those it left, in order.\<close>

fun chosen_by :: "nat \<Rightarrow> open_effect list \<Rightarrow> string list" where
  "chosen_by i [] = []"
| "chosen_by i (ExitChosen j _ e # out) = (if j = i then e # chosen_by i out else chosen_by i out)"
| "chosen_by i (_ # out) = chosen_by i out"

fun left_by :: "nat \<Rightarrow> open_effect list \<Rightarrow> string list" where
  "left_by i [] = []"
| "left_by i (ExitLeft j _ e _ # out) = (if j = i then e # left_by i out else left_by i out)"
| "left_by i (_ # out) = left_by i out"

lemma chosen_by_append [simp]: "chosen_by i (a @ b) = chosen_by i a @ chosen_by i b"
  by (induction a rule: chosen_by.induct) auto

lemma left_by_append [simp]: "left_by i (a @ b) = left_by i a @ left_by i b"
  by (induction a rule: left_by.induct) auto

definition not_skipped :: "int \<Rightarrow> (string, int) jsmap \<Rightarrow> string \<Rightarrow> bool" where
  "not_skipped now skipped n = (case jsmap_get skipped n of None \<Rightarrow> True | Some until \<Rightarrow> until \<le> now)"

definition silent_failure :: "open_failure \<Rightarrow> bool" where
  "silent_failure failure = (failure = OpenTimedOut \<or> (\<exists>r. failure = OpenRejected TDisabled r))"

definition may_move :: "open_failure \<Rightarrow> bool" where
  "may_move failure = (failure = OpenTimedOut \<or> (\<exists>code retryable. failure = OpenRejected code retryable \<and> (retryable \<or> code = TDisabled)))"

lemma exit_candidates_ok:
  "exit_candidates now exclude ns skipped = (pool, sk) \<Longrightarrow>
   (n \<in> set pool \<longrightarrow> n \<in> set ns \<and> n \<notin> set exclude \<and> not_skipped now skipped n)
   \<and> (\<forall>k. jsmap_get sk k = jsmap_get skipped k \<or> not_skipped now skipped k)"
proof (induction ns arbitrary: skipped pool sk)
  case (Cons m ns)
  show ?case
  proof (cases "m \<in> set exclude \<or> (\<exists>until. jsmap_get skipped m = Some until \<and> until > now)")
    case True
    then show ?thesis using Cons by (auto split: option.splits if_splits)
  next
    case False
    define sk1 where "sk1 = (if jsmap_get skipped m = None then skipped else jsmap_delete m skipped)"
    obtain pool' sk' where rest: "exit_candidates now exclude ns sk1 = (pool', sk')" by fastforce
    have m: "not_skipped now skipped m" "m \<notin> set exclude" using False by (auto simp: not_skipped_def split: option.split)
    have pool: "pool = m # pool'" "sk = sk'" using Cons.prems(1) False rest
      by (auto simp: sk1_def not_less split: option.splits if_splits)
    have "not_skipped now sk1 k \<Longrightarrow> not_skipped now skipped k" "jsmap_get sk1 k = jsmap_get skipped k \<or> not_skipped now skipped k" for k
      using m(1) by (auto simp: sk1_def not_skipped_def jsmap_get_def jsmap_delete_map_of split: if_splits)
    then show ?thesis using Cons.IH[OF rest] pool m by (metis set_ConsD list.set_intros)
  qed
qed simp

lemma pickExit_in:
  assumes "pickExit pick pool = Some e"
  shows "e \<in> set pool"
proof -
  have "pool \<noteq> []" and e: "e = pool ! min (length pool - 1) (pick (length pool))" using assms by (auto simp: pickExit_def split: if_splits)
  then have "min (length pool - 1) (pick (length pool)) < length pool" by (cases pool) auto
  then show ?thesis unfolding e by (rule nth_mem)
qed

lemma open_try_skips:
  assumes "open_try now pick exits opn skipped = (sk, r)"
  shows "jsmap_get sk k = jsmap_get skipped k \<or> not_skipped now skipped k"
proof (cases "so_attempt opn \<ge> MAX_OPEN_ATTEMPTS")
  case True
  then show ?thesis using assms by (simp add: open_try_def)
next
  case False
  obtain pool sk' where c: "exit_candidates now (so_tried opn) exits skipped = (pool, sk')" by fastforce
  then have "sk = sk'" using assms False by (auto simp: open_try_def split: option.splits)
  then show ?thesis using exit_candidates_ok[OF c] by blast
qed

lemma open_try_ok:
  assumes "open_try now pick exits opn skipped = (sk, Inr (opn1, e))"
  shows "e \<in> set exits" "e \<notin> set (so_tried opn)" "not_skipped now skipped e" "so_tried opn1 = so_tried opn @ [e]"
    "so_attempt opn1 = so_attempt opn" "so_attempt opn < MAX_OPEN_ATTEMPTS"
proof -
  obtain pool sk' where c: "exit_candidates now (so_tried opn) exits skipped = (pool, sk')" by fastforce
  have p: "pickExit pick pool = Some e" "opn1 = opn\<lparr>so_tried := so_tried opn @ [e]\<rparr>" "so_attempt opn < MAX_OPEN_ATTEMPTS"
    using assms c by (auto simp: open_try_def split: if_splits option.splits)
  show "e \<in> set exits" "e \<notin> set (so_tried opn)" "not_skipped now skipped e" using exit_candidates_ok[OF c] pickExit_in[OF p(1)] by blast+
  show "so_tried opn1 = so_tried opn @ [e]" "so_attempt opn1 = so_attempt opn" "so_attempt opn < MAX_OPEN_ATTEMPTS" using p by simp_all
qed

lemma open_failed_cases:
  assumes "open_failed now e failure opn skipped = (sk, r)"
  shows "sk = (if silent_failure failure then jsmap_set e (now + 600000) skipped else skipped)"
    "r = Inr opn1 \<Longrightarrow> may_move failure \<and> so_tried opn1 = so_tried opn \<and> so_attempt opn1 = so_attempt opn + 1"
  using assms
  by (auto simp: open_failed_def skip_exit_def EXIT_SKIP_MS_def silent_failure_def may_move_def Let_def split: open_failure.splits if_splits)

lemma left_by_in: "ExitLeft i t e f \<in> set out \<Longrightarrow> left_by i out \<noteq> []"
  by (induction out rule: left_by.induct) auto

definition moved :: "nat \<Rightarrow> open_effect list \<Rightarrow> bool" where
  "moved i out = (\<forall>t e f. ExitLeft i t e f \<in> set out \<longrightarrow> may_move f)"

definition open_ok :: "nat \<Rightarrow> open_pool \<Rightarrow> open_effect list \<Rightarrow> bool" where
  "open_ok i p out = (case jsmap_get (op_opens p) i of None \<Rightarrow> True
     | Some (opn, e) \<Rightarrow> so_tried opn = chosen_by i out \<and> so_attempt opn = length (left_by i out)
         \<and> length (so_tried opn) = Suc (so_attempt opn) \<and> so_attempt opn \<le> 2 \<and> moved i out)"

definition fresh_ids :: "open_pool \<Rightarrow> open_effect list \<Rightarrow> bool" where
  "fresh_ids p out = (\<forall>i \<ge> op_next p. jsmap_get (op_opens p) i = None \<and> chosen_by i out = [] \<and> left_by i out = [])"

definition few_exits :: "open_effect list \<Rightarrow> bool" where
  "few_exits out = (\<forall>i. distinct (chosen_by i out) \<and> length (chosen_by i out) \<le> 3)"

definition skips_ok :: "int \<Rightarrow> (string, int) jsmap \<Rightarrow> open_effect list \<Rightarrow> bool" where
  "skips_ok now sk out = (\<forall>i t e f. ExitLeft i t e f \<in> set out \<longrightarrow> t \<le> now
     \<and> (silent_failure f \<longrightarrow> t + 600000 \<le> now \<or> (\<exists>u. jsmap_get sk e = Some u \<and> t + 600000 \<le> u)))"

definition apart :: "open_effect \<Rightarrow> open_effect \<Rightarrow> bool" where
  "apart x y = (\<forall>i t e f j t' e'. x = ExitLeft i t e f \<and> y = ExitChosen j t' e' \<longrightarrow>
     (silent_failure f \<and> e' = e \<longrightarrow> t + 600000 \<le> t') \<and> (i = j \<longrightarrow> may_move f))"

definition pool_ok :: "int \<Rightarrow> open_pool \<Rightarrow> open_effect list \<Rightarrow> bool" where
  "pool_ok now p out = (fresh_ids p out \<and> (\<forall>i. open_ok i p out) \<and> few_exits out \<and> skips_ok now (op_skipped p) out \<and> sorted_wrt apart out)"

lemma skips_later: "skips_ok now sk out \<Longrightarrow> now \<le> now' \<Longrightarrow> skips_ok now' sk out"
  unfolding skips_ok_def by (meson order_trans)

lemma skips_forgotten:
  assumes "skips_ok now sk out" "\<forall>k. jsmap_get sk' k = jsmap_get sk k \<or> not_skipped now sk k"
  shows "skips_ok now sk' out"
  unfolding skips_ok_def
proof (intro allI impI conjI)
  fix i t e f assume l: "ExitLeft i t e f \<in> set out"
  show "t \<le> now" using assms(1) l unfolding skips_ok_def by blast
  assume "silent_failure f"
  then have old: "t + 600000 \<le> now \<or> (\<exists>u. jsmap_get sk e = Some u \<and> t + 600000 \<le> u)" using assms(1) l unfolding skips_ok_def by blast
  from assms(2) have "jsmap_get sk' e = jsmap_get sk e \<or> not_skipped now sk e" by blast
  then show "t + 600000 \<le> now \<or> (\<exists>u. jsmap_get sk' e = Some u \<and> t + 600000 \<le> u)"
    using old by (auto simp: not_skipped_def)
qed

text \<open>An open that chooses its next exit, or throws.\<close>

lemma next_exit_ok:
  assumes run: "next_exit i now pick exits opn p = (p', new)"
    and others: "\<And>j. j \<noteq> i \<Longrightarrow> open_ok j p out" and fresh: "fresh_ids (p\<lparr>op_opens := jsmap_delete i (op_opens p)\<rparr>) out" and i: "i < op_next p"
    and few: "few_exits out" and skips: "skips_ok now (op_skipped p) out" and apart: "sorted_wrt apart out"
    and opn: "so_tried opn = chosen_by i out" "so_attempt opn = length (left_by i out)" "length (so_tried opn) = so_attempt opn" "moved i out"
  shows "pool_ok now p' (out @ new)"
proof -
  obtain sk r where tr: "open_try now pick exits opn (op_skipped p) = (sk, r)" by fastforce
  have sk: "skips_ok now sk out" by (rule skips_forgotten[OF skips]) (use open_try_skips[OF tr] in blast)
  have get: "jsmap_get (jsmap_set i v (op_opens p)) j = (if j = i then Some v else jsmap_get (op_opens p) j)"
    "jsmap_get (jsmap_delete i (op_opens p)) j = (if j = i then None else jsmap_get (op_opens p) j)" for v j
    by (simp_all add: jsmap_get_def jsmap_set_map_of jsmap_delete_map_of)
  have ids: "jsmap_get (op_opens p) j = None" "chosen_by j out = []" "left_by j out = []" if "op_next p \<le> j" for j
    using fresh that i by (auto simp: fresh_ids_def get)
  show ?thesis
  proof (cases r)
    case (Inl failure)
    have p': "p' = p\<lparr>op_skipped := sk, op_opens := jsmap_delete i (op_opens p)\<rparr>" "new = [OpenThrew i failure]"
      using run tr Inl by (simp_all add: next_exit_def)
    have "open_ok j p' (out @ new)" for j using others[of j] by (auto simp: open_ok_def p' get moved_def split: option.split)
    moreover have "fresh_ids p' (out @ new)" using ids by (simp add: fresh_ids_def p' get)
    moreover have "few_exits (out @ new)" using few by (simp add: few_exits_def p')
    moreover have "skips_ok now (op_skipped p') (out @ new)" using sk by (simp add: skips_ok_def p')
    moreover have "sorted_wrt apart (out @ new)" using apart by (simp add: sorted_wrt_append p' apart_def)
    ultimately show ?thesis by (simp add: pool_ok_def)
  next
    case (Inr q)
    obtain opn1 e where q: "q = (opn1, e)" by fastforce
    note t = open_try_ok[OF tr[unfolded Inr q]]
    have p': "p' = p\<lparr>op_skipped := sk, op_opens := jsmap_set i (opn1, e) (op_opens p)\<rparr>" "new = [ExitChosen i now e]"
      using run tr Inr q by (simp_all add: next_exit_def)
    have "open_ok j p' (out @ new)" for j
    proof (cases "j = i")
      case True
      then show ?thesis using t opn by (simp add: open_ok_def p' get moved_def MAX_OPEN_ATTEMPTS_def)
    next
      case False
      then show ?thesis using others[of j] by (auto simp: open_ok_def p' get moved_def split: option.split)
    qed
    moreover have "fresh_ids p' (out @ new)" using ids i by (simp add: fresh_ids_def p' get)
    moreover have "few_exits (out @ new)" using few t opn by (auto simp: few_exits_def p' MAX_OPEN_ATTEMPTS_def)
    moreover have "skips_ok now (op_skipped p') (out @ new)" using sk by (simp add: skips_ok_def p')
    moreover have "apart x (ExitChosen i now e)" if "x \<in> set out" for x
      using that skips opn(4) t(3) by (force simp: apart_def skips_ok_def moved_def not_skipped_def)
    then have "sorted_wrt apart (out @ new)" using apart by (simp add: sorted_wrt_append p')
    ultimately show ?thesis by (simp add: pool_ok_def)
  qed
qed

lemma open_step_ok:
  assumes ok: "pool_ok now p out" and later: "now \<le> event_time ev" and run: "open_step ev p = (p', new)"
  shows "pool_ok (event_time ev) p' (out @ new)"
proof -
  have parts: "fresh_ids p out" "\<And>i. open_ok i p out" "few_exits out" "skips_ok (event_time ev) (op_skipped p) out" "sorted_wrt apart out"
    using ok skips_later[OF _ later] by (simp_all add: pool_ok_def)
  then have same: "pool_ok (event_time ev) p out" by (simp add: pool_ok_def)
  have del: "jsmap_get (jsmap_delete i (op_opens p)) j = (if j = i then None else jsmap_get (op_opens p) j)" for i j
    by (simp add: jsmap_get_def jsmap_delete_map_of)
  show ?thesis
  proof (cases ev)
    case (OpenStarts t pick exits)
    let ?p = "p\<lparr>op_next := op_next p + 1\<rparr>"
    have none: "chosen_by (op_next p) out = []" "left_by (op_next p) out = []" using parts(1) by (simp_all add: fresh_ids_def)
    have "pool_ok t p' (out @ new)"
    proof (rule next_exit_ok[where p = ?p])
      show "next_exit (op_next p) t pick exits new_open ?p = (p', new)" using run OpenStarts by simp
      show "open_ok j ?p out" for j using parts(2)[of j] by (simp add: open_ok_def)
      show "fresh_ids (?p\<lparr>op_opens := jsmap_delete (op_next p) (op_opens ?p)\<rparr>) out" using parts(1) by (simp add: fresh_ids_def del)
      show "moved (op_next p) out" using left_by_in[of "op_next p"] none by (auto simp: moved_def)
    qed (use parts none OpenStarts in \<open>simp_all add: new_open_def\<close>)
    then show ?thesis using OpenStarts by simp
  next
    case (HandshakeDone i t)
    show ?thesis
    proof (cases "jsmap_get (op_opens p) i")
      case None
      then show ?thesis using run HandshakeDone same by simp
    next
      case (Some q)
      obtain opn e where q: "q = (opn, e)" by fastforce
      have p': "p' = p\<lparr>op_opens := jsmap_delete i (op_opens p)\<rparr>" "new = [SessionOpened i e]"
        using run HandshakeDone Some q by simp_all
      have "open_ok j p' (out @ new)" for j using parts(2)[of j] by (auto simp: open_ok_def p' del moved_def split: option.split)
      moreover have "sorted_wrt apart (out @ new)" using parts(5) by (simp add: sorted_wrt_append p' apart_def)
      ultimately show ?thesis using parts by (simp add: pool_ok_def p' fresh_ids_def few_exits_def skips_ok_def del)
    qed
  next
    case (HandshakeFails i t failure pick exits)
    show ?thesis
    proof (cases "jsmap_get (op_opens p) i")
      case None
      then show ?thesis using run HandshakeFails same by simp
    next
      case (Some q)
      obtain opn e where q: "q = (opn, e)" by fastforce
      let ?out = "out @ [ExitLeft i t e failure]"
      have i: "i < op_next p" using parts(1) Some unfolding fresh_ids_def by (metis not_le option.distinct(1))
      have opn: "so_tried opn = chosen_by i out" "so_attempt opn = length (left_by i out)" "length (so_tried opn) = Suc (so_attempt opn)"
          "so_attempt opn \<le> 2" "moved i out"
        using parts(2)[of i] by (auto simp: open_ok_def Some q)
      obtain sk r where f: "open_failed t e failure opn (op_skipped p) = (sk, r)" by fastforce
      have sk_eq: "sk = (if silent_failure failure then jsmap_set e (t + 600000) (op_skipped p) else op_skipped p)"
        by (rule open_failed_cases(1)[OF f])
      have sk: "skips_ok t sk ?out" using parts(4) HandshakeFails
        by (fastforce simp: skips_ok_def sk_eq jsmap_get_def jsmap_set_map_of)
      have few: "few_exits ?out" using parts(3) by (simp add: few_exits_def)
      have apart: "sorted_wrt apart ?out" using parts(5) by (simp add: sorted_wrt_append apart_def)
      have others: "open_ok j (p\<lparr>op_skipped := sk\<rparr>) ?out" if "j \<noteq> i" for j
        using parts(2)[of j] that by (auto simp: open_ok_def moved_def split: option.split)
      have fresh: "fresh_ids (p\<lparr>op_skipped := sk, op_opens := jsmap_delete i (op_opens p)\<rparr>) ?out"
      proof -
        have "i \<noteq> j" if "op_next p \<le> j" for j using that i by simp
        then show ?thesis using parts(1) by (auto simp: fresh_ids_def del)
      qed
      show ?thesis
      proof (cases r)
        case (Inl x)
        have p': "p' = p\<lparr>op_skipped := sk, op_opens := jsmap_delete i (op_opens p)\<rparr>" "out @ new = ?out @ [OpenThrew i x]"
          using run HandshakeFails Some q f Inl by simp_all
        have "open_ok j p' (?out @ [OpenThrew i x])" for j
          using others[of j] by (cases "j = i") (auto simp: open_ok_def p'(1) del moved_def split: option.split)
        moreover have "fresh_ids p' (?out @ [OpenThrew i x])" using fresh unfolding fresh_ids_def p'(1) left_by_append chosen_by_append by simp
        moreover have "few_exits (?out @ [OpenThrew i x])" using few by (simp add: few_exits_def)
        moreover have "skips_ok t sk (?out @ [OpenThrew i x])" using sk by (simp add: skips_ok_def)
        moreover have "sorted_wrt apart (?out @ [OpenThrew i x])" using apart by (simp add: sorted_wrt_append apart_def)
        ultimately show ?thesis unfolding p'(2) using HandshakeFails by (simp add: pool_ok_def p'(1))
      next
        case (Inr again)
        note g = open_failed_cases(2)[OF f Inr]
        obtain p1 more where n: "next_exit i t pick exits again (p\<lparr>op_skipped := sk\<rparr>) = (p1, more)" by fastforce
        have "pool_ok t p1 (?out @ more)"
        proof (rule next_exit_ok[OF n])
          show "moved i ?out" using opn(5) g by (auto simp: moved_def)
        qed (use others fresh i few sk apart opn g in simp_all)
        then show ?thesis using run HandshakeFails Some q f Inr n by simp
      qed
    qed
  qed
qed

lemma open_steps_ok:
  "open_steps evs p = (p', new) \<Longrightarrow> pool_ok now p out \<Longrightarrow> sorted (now # map event_time evs) \<Longrightarrow> \<exists>now'. pool_ok now' p' (out @ new)"
proof (induction evs arbitrary: now p out new)
  case (Cons ev evs)
  obtain p1 out1 out2 where run: "open_step ev p = (p1, out1)" "open_steps evs p1 = (p', out2)" "new = out1 @ out2"
    using Cons.prems(1) by (auto simp: Let_def split: prod.splits)
  have "pool_ok (event_time ev) p1 (out @ out1)" by (rule open_step_ok[OF Cons.prems(2) _ run(1)]) (use Cons.prems(3) in simp)
  from Cons.IH[OF run(2) this] show ?case using Cons.prems(3) run(3) by simp
qed auto

lemma open_step_offered:
  "ExitChosen j t e \<in> set (snd (open_step ev p)) \<Longrightarrow> e \<in> set (exits_offered ev) \<and> t = event_time ev"
proof -
  have n: "e \<in> set exits \<and> t = now" if "ExitChosen j t e \<in> set (snd (next_exit i now pick exits opn p))" for i now pick exits opn p
  proof -
    obtain sk r where tr: "open_try now pick exits opn (op_skipped p) = (sk, r)" by fastforce
    show ?thesis using that tr open_try_ok(1) by (cases r) (auto simp: next_exit_def)
  qed
  assume "ExitChosen j t e \<in> set (snd (open_step ev p))"
  then show ?thesis by (cases ev) (auto dest: n simp: Let_def case_prod_beta split: option.splits sum.splits)
qed

lemma apart_split: "sorted_wrt apart (a @ x # b) \<Longrightarrow> y \<in> set b \<Longrightarrow> apart x y"
  by (simp add: sorted_wrt_append)

text \<open>
  C34. An open tries few exits, and a silent exit is left alone. Over all opens of a pool, in any interleaving, under a clock that does not go backwards: an open goes
  through at most three exits, all different, each offered by the topology at that moment, and it ends at the latest when the third one failed; it goes on after
  leaving an exit only when that exit stayed silent, refused tunnels or refused in a way that may be retried. After an exit stayed silent or refused
  tunnels, no open of the pool chooses it within the next ten minutes.
\<close>

theorem open_moves_between_exits:
  assumes "open_steps evs new_open_pool = (p, out)" "sorted (map event_time evs)"
  shows "distinct (chosen_by i out) \<and> length (chosen_by i out) \<le> 3
    \<and> (jsmap_get (op_opens p) i \<noteq> None \<longrightarrow> length (left_by i out) < 3)
    \<and> (\<forall>xs ev ys j t e. evs = xs @ ev # ys \<and> ExitChosen j t e \<in> set (snd (open_step ev (fst (open_steps xs new_open_pool))))
         \<longrightarrow> e \<in> set (exits_offered ev) \<and> t = event_time ev)
    \<and> (\<forall>a b t e f t' e'. out = a @ ExitLeft i t e f # b \<and> ExitChosen i t' e' \<in> set b
         \<longrightarrow> f = OpenTimedOut \<or> (\<exists>code retryable. f = OpenRejected code retryable \<and> (retryable \<or> code = TDisabled)))
    \<and> (\<forall>a b j t e f k t'. out = a @ ExitLeft j t e f # b \<and> (f = OpenTimedOut \<or> (\<exists>r. f = OpenRejected TDisabled r)) \<and> ExitChosen k t' e \<in> set b
         \<longrightarrow> t + 600000 \<le> t')"
proof -
  define start where "start = (case evs of [] \<Rightarrow> 0 | ev # _ \<Rightarrow> event_time ev)"
  have "pool_ok start new_open_pool []"
    by (simp add: pool_ok_def fresh_ids_def open_ok_def few_exits_def skips_ok_def new_open_pool_def jsmap_get_def)
  moreover have "sorted (start # map event_time evs)" using assms(2) by (cases evs) (auto simp: start_def)
  ultimately obtain now' where ok: "pool_ok now' p out" using open_steps_ok[OF assms(1)] by fastforce
  then have apart: "sorted_wrt apart out" and opn: "open_ok i p out" and few: "few_exits out" by (simp_all add: pool_ok_def)
  have pairs: "(silent_failure f \<and> e' = e \<longrightarrow> t + 600000 \<le> t') \<and> (j = k \<longrightarrow> may_move f)"
    if "out = a @ ExitLeft j t e f # b" "ExitChosen k t' e' \<in> set b" for a b j t e f k t' e'
    using apart_split[OF apart[unfolded that(1)] that(2)] by (simp add: apart_def)
  show ?thesis
  proof (intro conjI allI)
    show "distinct (chosen_by i out)" "length (chosen_by i out) \<le> 3" using few by (simp_all add: few_exits_def)
    show "jsmap_get (op_opens p) i \<noteq> None \<longrightarrow> length (left_by i out) < 3" using opn by (auto simp: open_ok_def)
    show "evs = xs @ ev # ys \<and> ExitChosen j t e \<in> set (snd (open_step ev (fst (open_steps xs new_open_pool))))
        \<longrightarrow> e \<in> set (exits_offered ev) \<and> t = event_time ev" for xs ev ys j t e
      using open_step_offered by blast
    show "out = a @ ExitLeft i t e f # b \<and> ExitChosen i t' e' \<in> set b
        \<longrightarrow> f = OpenTimedOut \<or> (\<exists>code retryable. f = OpenRejected code retryable \<and> (retryable \<or> code = TDisabled))" for a b t e f t' e'
      using pairs[of a i t e f b i t' e'] unfolding may_move_def by blast
    show "out = a @ ExitLeft j t e f # b \<and> (f = OpenTimedOut \<or> (\<exists>r. f = OpenRejected TDisabled r)) \<and> ExitChosen k t' e \<in> set b
        \<longrightarrow> t + 600000 \<le> t'" for a b j t e f k t'
      using pairs[of a j t e f b k t' e] unfolding silent_failure_def by blast
  qed
qed

text \<open>Two opens of which the first meets a silent exit; a third one starts afterwards.\<close>

definition demo_opens_events :: "open_event list" where
  "demo_opens_events = [OpenStarts 0 (\<lambda>_. 0) [''x'', ''y''], OpenStarts 1 (\<lambda>_. 1) [''x'', ''y''], HandshakeFails 0 5 OpenTimedOut (\<lambda>_. 0) [''x'', ''y''],
     HandshakeDone 1 6, OpenStarts 7 (\<lambda>_. 0) [''x'', ''y'']]"

lemma demo_opens_run: "snd (open_steps demo_opens_events new_open_pool) = [ExitChosen 0 0 ''x'', ExitChosen 1 1 ''y'', ExitLeft 0 5 ''x'' OpenTimedOut,
    ExitChosen 0 5 ''y'', SessionOpened 1 ''y'', ExitChosen 2 7 ''y'']"
  by code_simp

theorem open_moves_between_exits_witness:
  "snd (open_steps demo_opens_events new_open_pool) = [ExitChosen 0 0 ''x'', ExitChosen 1 1 ''y'', ExitLeft 0 5 ''x'' OpenTimedOut,
     ExitChosen 0 5 ''y'', SessionOpened 1 ''y'', ExitChosen 2 7 ''y''] \<and> distinct (chosen_by 0 (snd (open_steps demo_opens_events new_open_pool)))"
proof -
  have "sorted (map event_time demo_opens_events)" by (simp add: demo_opens_events_def)
  from open_moves_between_exits[OF prod.collapse[symmetric] this] show ?thesis unfolding demo_opens_run by blast
qed

end
