(* ===== verification/Tunnel_Spares.thy ===== *)
theory Tunnel_Spares
  imports Tunnel_Opens "HOL-Library.Multiset"
begin

section \<open>Spare TLS sessions\<close>

text \<open>
  The per-call mode of \<open>TlsPool\<close> in \<open>packages/anon-rpc-worker/src/tls/pool.ts\<close>: a call takes a handshaken spare of its host, waits for an open
  in flight or opens a session of its own, and the pool replaces what was taken. Opens, timers, waits and releases are events in any
  order; a session is a number, fresh for each open that succeeds. \<open>tp_held\<close> records which session each call holds. Times are whole milliseconds.
\<close>

definition SPARE_DELAY_MEAN_MS :: int where
  "SPARE_DELAY_MEAN_MS = 2000"

definition MAX_SPARE_HOSTS :: nat where
  "MAX_SPARE_HOSTS = 8"

definition SPARE_REFILL_WINDOW_MS :: int where
  "SPARE_REFILL_WINDOW_MS = 60000"

definition SPARE_REFILL_LEAD_MS :: int where
  "SPARE_REFILL_LEAD_MS = 1500"

definition LATENCY_SAMPLES :: nat where
  "LATENCY_SAMPLES = 64"

definition LATENCY_MIN_SAMPLES :: nat where
  "LATENCY_MIN_SAMPLES = 5"

record spare =
  sp_channel :: nat
  sp_readyAt :: int
  sp_superseded :: bool
  sp_refreshable :: bool

record pending_open =
  po_id :: nat
  po_startedAt :: int
  po_claimed :: bool

text \<open>The call that claimed an open and waits for it; \<open>wt_ready\<close> is the session of the open and the time it was ready.\<close>

record waiting_call =
  wt_caller :: nat
  wt_host :: string
  wt_ready :: "(nat \<times> int) option"

record spare_pool =
  tp_spares :: "(string, spare list) jsmap"
  tp_opening :: "(string, nat) jsmap"
  tp_pending :: "(string, pending_open list) jsmap"
  tp_lastCallAt :: "(string, int) jsmap"
  tp_scheduled :: "string list"
  tp_deferred :: "string list"
  tp_samples :: "int list"
  tp_background :: bool
  tp_closed :: bool
  tp_waiting :: "(nat, waiting_call) jsmap"
  tp_held :: "(nat \<times> nat) list"
  tp_nextEntry :: nat

datatype acquire_path = PathSpare | PathInline | PathWaited

datatype spare_effect =
    OpenScheduled string int
  | OpenStarted string nat
  | TornDown nat
  | SessionGiven nat nat acquire_path
  | CallOpens nat string
  | CallAborts nat

record spare_settings =
  sps_spares :: nat
  sps_ttlMs :: int

definition new_spare_pool :: spare_pool where
  "new_spare_pool = \<lparr>tp_spares = [], tp_opening = [], tp_pending = [], tp_lastCallAt = [], tp_scheduled = [], tp_deferred = [], tp_samples = [],
     tp_background = False, tp_closed = False, tp_waiting = [], tp_held = [], tp_nextEntry = 0\<rparr>"

text \<open>\<open>this.map.get(host) ?? []\<close>.\<close>

definition list_of :: "(string, 'a list) jsmap \<Rightarrow> string \<Rightarrow> 'a list" where
  "list_of m host = (case jsmap_get m host of None \<Rightarrow> [] | Some l \<Rightarrow> l)"

definition opening_of :: "spare_pool \<Rightarrow> string \<Rightarrow> nat" where
  "opening_of p host = (case jsmap_get (tp_opening p) host of None \<Rightarrow> 0 | Some n \<Rightarrow> n)"

subsection \<open>Quantiles of the handshake times\<close>

definition percentile :: "nat \<Rightarrow> nat \<Rightarrow> nat \<Rightarrow> int list \<Rightarrow> int" where
  "percentile num den minSamples samples =
     (if length samples < max 1 minSamples then 0
      else sort samples ! min (length samples - 1) ((length samples * num + den - 1) div den - 1))"

definition percentile95 :: "int list \<Rightarrow> int" where
  "percentile95 samples = percentile 95 100 LATENCY_MIN_SAMPLES samples"

definition note_sample :: "int \<Rightarrow> spare_pool \<Rightarrow> spare_pool" where
  "note_sample ms p =
     (let samples = tp_samples p @ [ms] in p\<lparr>tp_samples := (if length samples > LATENCY_SAMPLES then tl samples else samples)\<rparr>)"

subsection \<open>Opening and keeping spares\<close>

definition noteCall :: "string \<Rightarrow> int \<Rightarrow> spare_pool \<Rightarrow> spare_pool" where
  "noteCall host now p =
     (let m = jsmap_set host now (jsmap_delete host (tp_lastCallAt p)) in p\<lparr>tp_lastCallAt := drop (length m - MAX_SPARE_HOSTS) m\<rparr>)"

definition recentlyCalled :: "string \<Rightarrow> int \<Rightarrow> spare_pool \<Rightarrow> bool" where
  "recentlyCalled host now p = (case jsmap_get (tp_lastCallAt p) host of None \<Rightarrow> False | Some calledAt \<Rightarrow> now - calledAt < SPARE_REFILL_WINDOW_MS)"

definition takeSpare :: "string \<Rightarrow> spare_pool \<Rightarrow> spare_pool \<times> spare option" where
  "takeSpare host p =
     (case jsmap_get (tp_spares p) host of
        Some (sp # rest) \<Rightarrow> (p\<lparr>tp_spares := jsmap_set host rest (jsmap_delete host (tp_spares p))\<rparr>, Some sp)
      | _ \<Rightarrow> (p, None))"

definition spareCount :: "string \<Rightarrow> spare_pool \<Rightarrow> nat" where
  "spareCount host p = length (filter (\<lambda>sp. \<not> sp_superseded sp) (list_of (tp_spares p) host)) + opening_of p host"

text \<open>\<open>start\<close> of \<open>openSpare\<close>.\<close>

definition start_open :: "string \<Rightarrow> int \<Rightarrow> spare_pool \<Rightarrow> spare_pool \<times> spare_effect list" where
  "start_open host now p =
     (p\<lparr>tp_pending := jsmap_set host (list_of (tp_pending p) host @ [\<lparr>po_id = tp_nextEntry p, po_startedAt = now, po_claimed = False\<rparr>]) (tp_pending p),
        tp_nextEntry := tp_nextEntry p + 1\<rparr>,
      [OpenStarted host (tp_nextEntry p)])"

definition openSpare :: "string \<Rightarrow> int \<Rightarrow> int \<Rightarrow> spare_pool \<Rightarrow> spare_pool \<times> spare_effect list" where
  "openSpare host delayMs now p =
     (let p1 = p\<lparr>tp_opening := jsmap_set host (opening_of p host + 1) (tp_opening p)\<rparr> in
      if delayMs \<le> 0 then start_open host now p1
      else (p1\<lparr>tp_scheduled := tp_scheduled p1 @ [host]\<rparr>, [OpenScheduled host delayMs]))"

definition replenish :: "spare_settings \<Rightarrow> string \<Rightarrow> int \<Rightarrow> int \<Rightarrow> spare_pool \<Rightarrow> spare_pool \<times> spare_effect list" where
  "replenish cfg host delayMs now p =
     (if sps_spares cfg = 0 \<or> tp_closed p then (p, [])
      else if \<not> tp_background p then
        (if length (tp_deferred p) < MAX_SPARE_HOSTS \<and> host \<notin> set (tp_deferred p) then p\<lparr>tp_deferred := tp_deferred p @ [host]\<rparr> else p, [])
      else if spareCount host p \<ge> sps_spares cfg then (p, [])
      else openSpare host delayMs now p)"

fun replenish_all :: "spare_settings \<Rightarrow> (string \<Rightarrow> int) \<Rightarrow> int \<Rightarrow> string list \<Rightarrow> spare_pool \<Rightarrow> spare_pool \<times> spare_effect list" where
  "replenish_all cfg delays now [] p = (p, [])"
| "replenish_all cfg delays now (host # hosts) p =
     (let (p1, out1) = replenish cfg host (delays host) now p; (p2, out2) = replenish_all cfg delays now hosts p1 in (p2, out1 @ out2))"

definition enableBackground :: "spare_settings \<Rightarrow> (string \<Rightarrow> int) \<Rightarrow> int \<Rightarrow> spare_pool \<Rightarrow> spare_pool \<times> spare_effect list" where
  "enableBackground cfg delays now p =
     (if tp_background p then (p, [])
      else (let (p1, out) = replenish_all cfg delays now (tp_deferred p) (p\<lparr>tp_background := True\<rparr>) in (p1\<lparr>tp_deferred := []\<rparr>, out)))"

text \<open>\<open>settled\<close> of \<open>openSpare\<close>.\<close>

definition open_settled :: "string \<Rightarrow> nat \<Rightarrow> spare_pool \<Rightarrow> spare_pool" where
  "open_settled host entry p =
     (let cur = (case jsmap_get (tp_opening p) host of None \<Rightarrow> 1 | Some n \<Rightarrow> n) - 1;
          others = filter (\<lambda>e. po_id e \<noteq> entry) (list_of (tp_pending p) host) in
      p\<lparr>tp_opening := (if cur = 0 then jsmap_delete host (tp_opening p) else jsmap_set host cur (tp_opening p)),
        tp_pending := (if others = [] then jsmap_delete host (tp_pending p) else jsmap_set host others (tp_pending p))\<rparr>)"

text \<open>The hosts over the limit, oldest first.\<close>

definition drop_spare_hosts :: "(string, spare list) jsmap \<Rightarrow> (string, spare list) jsmap \<times> spare_effect list" where
  "drop_spare_hosts m =
     (let n = length m - MAX_SPARE_HOSTS in (drop n m, concat (map (\<lambda>(_, sps). map (\<lambda>sp. TornDown (sp_channel sp)) sps) (take n m))))"

definition keepSpare :: "spare_settings \<Rightarrow> string \<Rightarrow> nat \<Rightarrow> int \<Rightarrow> int \<Rightarrow> int \<Rightarrow> spare_pool \<Rightarrow> spare_pool \<times> spare_effect list" where
  "keepSpare cfg host channel readyAt now jitterMs p =
     (if tp_closed p then (p, [TornDown channel])
      else
        (let sp = \<lparr>sp_channel = channel, sp_readyAt = readyAt, sp_superseded = False,
               sp_refreshable = (sps_ttlMs cfg - SPARE_REFILL_LEAD_MS - jitterMs - (now - readyAt) > 0)\<rparr>;
             (m, out) = drop_spare_hosts (jsmap_set host (list_of (tp_spares p) host @ [sp]) (jsmap_delete host (tp_spares p))) in
         (p\<lparr>tp_spares := m\<rparr>, out)))"

definition refresh_spare :: "string \<Rightarrow> nat \<Rightarrow> int \<Rightarrow> spare_pool \<Rightarrow> spare_pool \<times> spare_effect list" where
  "refresh_spare host channel now p =
     (let sps = list_of (tp_spares p) host in
      if tp_closed p \<or> \<not> tp_background p \<or> \<not> recentlyCalled host now p then (p, [])
      else if \<not> list_ex (\<lambda>sp. sp_channel sp = channel \<and> sp_refreshable sp) sps then (p, [])
      else if list_ex sp_superseded sps then (p, [])
      else openSpare host 0 now
        (p\<lparr>tp_spares := jsmap_set host (map (\<lambda>sp. if sp_channel sp = channel then sp\<lparr>sp_superseded := True\<rparr> else sp) sps) (tp_spares p)\<rparr>))"

definition expire_spare :: "spare_settings \<Rightarrow> string \<Rightarrow> nat \<Rightarrow> int \<Rightarrow> spare_pool \<Rightarrow> spare_pool \<times> spare_effect list" where
  "expire_spare cfg host channel now p =
     (case List.find (\<lambda>sp. sp_channel sp = channel) (list_of (tp_spares p) host) of
        None \<Rightarrow> (p, [])
      | Some sp \<Rightarrow>
          (let left_over = filter (\<lambda>s. sp_channel s \<noteq> channel) (list_of (tp_spares p) host);
               p1 = p\<lparr>tp_spares := (if left_over = [] then jsmap_delete host (tp_spares p) else jsmap_set host left_over (tp_spares p))\<rparr> in
           if \<not> sp_refreshable sp \<or> tp_closed p1 \<or> \<not> tp_background p1 \<or> \<not> recentlyCalled host now p1 \<or> spareCount host p1 \<ge> sps_spares cfg
           then (p1, [TornDown channel])
           else (let (p2, out) = openSpare host 0 now p1 in (p2, TornDown channel # out))))"

subsection \<open>Calls\<close>

definition waitableOpen :: "string \<Rightarrow> int \<Rightarrow> spare_pool \<Rightarrow> pending_open option" where
  "waitableOpen host now p =
     (let median = percentile 1 2 1 (tp_samples p); p95 = percentile95 (tp_samples p) in
      List.find (\<lambda>e. \<not> po_claimed e \<and> 2 * (now - po_startedAt e) \<ge> median \<and> (p95 = 0 \<or> now - po_startedAt e \<le> p95))
        (list_of (tp_pending p) host))"

definition set_claimed :: "string \<Rightarrow> nat \<Rightarrow> bool \<Rightarrow> spare_pool \<Rightarrow> spare_pool" where
  "set_claimed host entry claimed p =
     (if list_ex (\<lambda>e. po_id e = entry) (list_of (tp_pending p) host)
      then p\<lparr>tp_pending := jsmap_set host
        (map (\<lambda>e. if po_id e = entry then e\<lparr>po_claimed := claimed\<rparr> else e) (list_of (tp_pending p) host)) (tp_pending p)\<rparr>
      else p)"

definition give :: "spare_settings \<Rightarrow> nat \<Rightarrow> string \<Rightarrow> nat \<Rightarrow> acquire_path \<Rightarrow> int \<Rightarrow> int \<Rightarrow> spare_pool \<Rightarrow> spare_pool \<times> spare_effect list" where
  "give cfg caller host channel path delayMs now p =
     (let (p1, out) = replenish cfg host delayMs now (p\<lparr>tp_held := tp_held p @ [(caller, channel)]\<rparr>) in
      (p1, out @ [SessionGiven caller channel path]))"

text \<open>\<open>acquire\<close> up to its first \<open>await\<close>.\<close>

definition call_arrives :: "spare_settings \<Rightarrow> nat \<Rightarrow> string \<Rightarrow> int \<Rightarrow> int \<Rightarrow> spare_pool \<Rightarrow> spare_pool \<times> spare_effect list" where
  "call_arrives cfg caller host delayMs now p =
     (case takeSpare host (noteCall host now p) of
        (p1, Some sp) \<Rightarrow> give cfg caller host (sp_channel sp) PathSpare delayMs now p1
      | (p1, None) \<Rightarrow>
          (case waitableOpen host now p1 of
             None \<Rightarrow> (p1, [CallOpens caller host])
           | Some e \<Rightarrow>
               ((set_claimed host (po_id e) True p1)\<lparr>tp_waiting := jsmap_set (po_id e) \<lparr>wt_caller = caller, wt_host = host, wt_ready = None\<rparr> (tp_waiting p1)\<rparr>, [])))"

text \<open>A wait that ends with the session of its open.\<close>

definition wait_opened :: "spare_settings \<Rightarrow> nat \<Rightarrow> int \<Rightarrow> int \<Rightarrow> spare_pool \<Rightarrow> spare_pool \<times> spare_effect list" where
  "wait_opened cfg entry delayMs now p =
     (case jsmap_get (tp_waiting p) entry of
        Some w \<Rightarrow> (case wt_ready w of
            Some (channel, _) \<Rightarrow>
              give cfg (wt_caller w) (wt_host w) channel PathWaited delayMs now (p\<lparr>tp_waiting := jsmap_delete entry (tp_waiting p)\<rparr>)
          | None \<Rightarrow> (p, []))
      | None \<Rightarrow> (p, []))"

text \<open>A wait that ends without it: the open failed, or the call's deadline or abort came first.\<close>

definition wait_failed :: "nat \<Rightarrow> spare_pool \<Rightarrow> spare_pool \<times> spare_effect list" where
  "wait_failed entry p =
     (case jsmap_get (tp_waiting p) entry of
        Some w \<Rightarrow>
          if wt_ready w = None \<and> \<not> list_ex (\<lambda>e. po_id e = entry) (list_of (tp_pending p) (wt_host w))
          then (p\<lparr>tp_waiting := jsmap_delete entry (tp_waiting p)\<rparr>, [CallOpens (wt_caller w) (wt_host w)]) else (p, [])
      | None \<Rightarrow> (p, []))"

definition wait_given_up :: "spare_settings \<Rightarrow> nat \<Rightarrow> bool \<Rightarrow> int \<Rightarrow> int \<Rightarrow> spare_pool \<Rightarrow> spare_pool \<times> spare_effect list" where
  "wait_given_up cfg entry aborted now jitterMs p =
     (case jsmap_get (tp_waiting p) entry of
        Some w \<Rightarrow>
          (let p1 = set_claimed (wt_host w) entry False (p\<lparr>tp_waiting := jsmap_delete entry (tp_waiting p)\<rparr>);
               (p2, out) = (case wt_ready w of
                   Some (channel, readyAt) \<Rightarrow> keepSpare cfg (wt_host w) channel readyAt now jitterMs p1 | None \<Rightarrow> (p1, [])) in
           (p2, out @ [if aborted then CallAborts (wt_caller w) else CallOpens (wt_caller w) (wt_host w)]))
      | None \<Rightarrow> (p, []))"

definition release_session :: "nat \<Rightarrow> nat \<Rightarrow> spare_pool \<Rightarrow> spare_pool \<times> spare_effect list" where
  "release_session caller channel p =
     (if (caller, channel) \<in> set (tp_held p) then (p\<lparr>tp_held := remove1 (caller, channel) (tp_held p)\<rparr>, [TornDown channel]) else (p, []))"

subsection \<open>Background opens\<close>

definition scheduled_fires :: "string \<Rightarrow> int \<Rightarrow> spare_pool \<Rightarrow> spare_pool \<times> spare_effect list" where
  "scheduled_fires host now p =
     (if host \<in> set (tp_scheduled p) then start_open host now (p\<lparr>tp_scheduled := remove1 host (tp_scheduled p)\<rparr>) else (p, []))"

definition spare_opened :: "spare_settings \<Rightarrow> string \<Rightarrow> nat \<Rightarrow> nat \<Rightarrow> int \<Rightarrow> int \<Rightarrow> int \<Rightarrow> spare_pool \<Rightarrow> spare_pool \<times> spare_effect list" where
  "spare_opened cfg host entry channel tookMs now jitterMs p =
     (case List.find (\<lambda>e. po_id e = entry) (list_of (tp_pending p) host) of
        None \<Rightarrow> (p, [])
      | Some e \<Rightarrow>
          (let p1 = open_settled host entry (note_sample tookMs p) in
           if po_claimed e
           then (case jsmap_get (tp_waiting p1) entry of
               Some w \<Rightarrow> (p1\<lparr>tp_waiting := jsmap_set entry (w\<lparr>wt_ready := Some (channel, now)\<rparr>) (tp_waiting p1)\<rparr>, [])
             | None \<Rightarrow> (p1, []))
           else keepSpare cfg host channel now now jitterMs p1))"

definition spare_open_failed :: "string \<Rightarrow> nat \<Rightarrow> spare_pool \<Rightarrow> spare_pool" where
  "spare_open_failed host entry p =
     (if list_ex (\<lambda>e. po_id e = entry) (list_of (tp_pending p) host) then open_settled host entry p else p)"

definition close_pool :: "spare_pool \<Rightarrow> spare_pool \<times> spare_effect list" where
  "close_pool p =
     (p\<lparr>tp_closed := True, tp_scheduled := [], tp_spares := []\<rparr>,
      concat (map (\<lambda>(_, sps). map (\<lambda>sp. TornDown (sp_channel sp)) sps) (tp_spares p)))"

datatype spare_event =
    CallArrives nat string int int
  | CallOpened nat string nat int int int
  | WaitOpened nat int int
  | WaitFailed nat
  | WaitGivenUp nat bool int int
  | CallReleases nat nat
  | BackgroundAllowed "string \<Rightarrow> int" int
  | ScheduledFires string int
  | SpareOpened string nat nat int int int
  | SpareOpenFailed string nat
  | RefreshFires string nat int
  | ExpireFires string nat int
  | PoolCloses

fun spare_step :: "spare_settings \<Rightarrow> spare_event \<Rightarrow> spare_pool \<Rightarrow> spare_pool \<times> spare_effect list" where
  "spare_step cfg (CallArrives caller host delayMs now) p = call_arrives cfg caller host delayMs now p"
| "spare_step cfg (CallOpened caller host channel tookMs delayMs now) p = give cfg caller host channel PathInline delayMs now (note_sample tookMs p)"
| "spare_step cfg (WaitOpened entry delayMs now) p = wait_opened cfg entry delayMs now p"
| "spare_step cfg (WaitFailed entry) p = wait_failed entry p"
| "spare_step cfg (WaitGivenUp entry aborted now jitterMs) p = wait_given_up cfg entry aborted now jitterMs p"
| "spare_step cfg (CallReleases caller channel) p = release_session caller channel p"
| "spare_step cfg (BackgroundAllowed delays now) p = enableBackground cfg delays now p"
| "spare_step cfg (ScheduledFires host now) p = scheduled_fires host now p"
| "spare_step cfg (SpareOpened host entry channel tookMs now jitterMs) p = spare_opened cfg host entry channel tookMs now jitterMs p"
| "spare_step cfg (SpareOpenFailed host entry) p = (spare_open_failed host entry p, [])"
| "spare_step cfg (RefreshFires host channel now) p = refresh_spare host channel now p"
| "spare_step cfg (ExpireFires host channel now) p = expire_spare cfg host channel now p"
| "spare_step cfg PoolCloses p = close_pool p"

fun spare_run :: "spare_settings \<Rightarrow> spare_event list \<Rightarrow> spare_pool \<Rightarrow> spare_pool \<times> spare_effect list" where
  "spare_run cfg [] p = (p, [])"
| "spare_run cfg (ev # evs) p =
     (let (p1, out1) = spare_step cfg ev p; (p2, out2) = spare_run cfg evs p1 in (p2, out1 @ out2))"

end
