(* ===== verification/Tunnel_Spare_Safety.thy ===== *)
theory Tunnel_Spare_Safety
  imports Tunnel_Spares
begin

section \<open>Spares serve one call\<close>

text \<open>
  Facts about \<open>Tunnel_Spares\<close> over any order of events. The sessions kept, handed to waiting calls and held by calls are counted in a
  multiset: every step moves them, and only an open that succeeds adds one.
\<close>

subsection \<open>Counting sessions\<close>

definition spare_chans :: "string \<times> spare list \<Rightarrow> nat list" where
  "spare_chans e = map sp_channel (snd e)"

definition ready_chans :: "nat \<times> waiting_call \<Rightarrow> nat list" where
  "ready_chans e = (case wt_ready (snd e) of None \<Rightarrow> [] | Some (channel, _) \<Rightarrow> [channel])"

definition chans_of :: "('k \<times> 'v \<Rightarrow> nat list) \<Rightarrow> ('k, 'v) jsmap \<Rightarrow> nat multiset" where
  "chans_of f m = mset (concat (map f m))"

definition reserve :: "spare_pool \<Rightarrow> nat multiset" where
  "reserve p = chans_of spare_chans (tp_spares p) + chans_of ready_chans (tp_waiting p)"

definition held_chans :: "spare_pool \<Rightarrow> nat multiset" where
  "held_chans p = mset (map snd (tp_held p))"

fun torn_of :: "spare_effect \<Rightarrow> nat list" where
  "torn_of (TornDown c) = [c]"
| "torn_of _ = []"

fun given_of :: "spare_effect \<Rightarrow> nat list" where
  "given_of (SessionGiven _ c _) = [c]"
| "given_of _ = []"

definition torn_sessions :: "spare_effect list \<Rightarrow> nat list" where
  "torn_sessions out = concat (map torn_of out)"

definition given_sessions :: "spare_effect list \<Rightarrow> nat list" where
  "given_sessions out = concat (map given_of out)"

fun opened_by :: "spare_event \<Rightarrow> nat list" where
  "opened_by (CallOpened _ _ channel _ _ _) = [channel]"
| "opened_by (SpareOpened _ _ channel _ _ _) = [channel]"
| "opened_by _ = []"

definition opened_sessions :: "spare_event list \<Rightarrow> nat list" where
  "opened_sessions evs = concat (map opened_by evs)"

lemma sessions_Nil [simp]: "torn_sessions [] = []" "given_sessions [] = []"
  by (simp_all add: torn_sessions_def given_sessions_def)

lemma sessions_Cons [simp]:
  "torn_sessions (e # out) = torn_of e @ torn_sessions out" "given_sessions (e # out) = given_of e @ given_sessions out"
  by (simp_all add: torn_sessions_def given_sessions_def)

lemma sessions_append [simp]:
  "torn_sessions (out @ out') = torn_sessions out @ torn_sessions out'" "given_sessions (out @ out') = given_sessions out @ given_sessions out'"
  by (simp_all add: torn_sessions_def given_sessions_def)

lemma chans_of_Nil [simp]: "chans_of f [] = {#}"
  by (simp add: chans_of_def)

lemma chans_of_split:
  "jsmap_wf m \<Longrightarrow> chans_of f m = (case jsmap_get m k of None \<Rightarrow> {#} | Some v \<Rightarrow> mset (f (k, v))) + chans_of f (jsmap_delete k m)"
proof (induction m)
  case (Cons x m)
  obtain k' v' where x: "x = (k', v')" by fastforce
  show ?case
  proof (cases "k' = k")
    case True
    then have "jsmap_delete k (x # m) = m" using Cons.prems x jsmap_delete_absent[of k m] by (auto simp: jsmap_wf_def jsmap_delete_def)
    then show ?thesis using True x by (simp add: chans_of_def jsmap_get_def)
  next
    case False
    then have "jsmap_get (x # m) k = jsmap_get m k" "jsmap_delete k (x # m) = x # jsmap_delete k m" using x by (simp_all add: jsmap_get_def jsmap_delete_def)
    then show ?thesis using Cons by (simp add: jsmap_wf_def chans_of_def add.left_commute)
  qed
qed (simp add: jsmap_get_def jsmap_delete_def)

lemma chans_of_set: "jsmap_wf m \<Longrightarrow> chans_of f (jsmap_set k v m) = mset (f (k, v)) + chans_of f (jsmap_delete k m)"
  using chans_of_split[OF jsmap_wf_set[of m k v], where f=f and k=k] by (simp add: jsmap_get_def jsmap_set_map_of jsmap_delete_set)

lemma chans_of_list:
  "jsmap_wf m \<Longrightarrow> chans_of spare_chans m = mset (map sp_channel (list_of m host)) + chans_of spare_chans (jsmap_delete host m)"
  using chans_of_split[of m spare_chans host] by (simp add: list_of_def spare_chans_def split: option.splits)

definition pool_wf :: "spare_pool \<Rightarrow> bool" where
  "pool_wf p = (jsmap_wf (tp_spares p) \<and> jsmap_wf (tp_waiting p))"

text \<open>What an operation that only schedules opens leaves alone.\<close>

definition sessions_of :: "spare_pool \<Rightarrow> (string, spare list) jsmap \<times> (nat, waiting_call) jsmap \<times> (nat \<times> nat) list" where
  "sessions_of p = (tp_spares p, tp_waiting p, tp_held p)"

definition silent :: "spare_effect list \<Rightarrow> bool" where
  "silent out = (torn_sessions out = [] \<and> given_sessions out = [])"

lemma sessions_ofD: "sessions_of p' = sessions_of p \<Longrightarrow> tp_spares p' = tp_spares p \<and> tp_waiting p' = tp_waiting p \<and> tp_held p' = tp_held p"
  by (simp add: sessions_of_def)

lemma openSpare_frame: "openSpare host delayMs now p = (p', out) \<Longrightarrow> sessions_of p' = sessions_of p \<and> silent out"
  by (auto simp: openSpare_def start_open_def sessions_of_def silent_def Let_def split: if_splits)

lemma replenish_frame: "replenish cfg host delayMs now p = (p', out) \<Longrightarrow> sessions_of p' = sessions_of p \<and> silent out"
  by (auto simp: replenish_def dest!: openSpare_frame split: if_splits) (auto simp: sessions_of_def silent_def)

lemma replenish_all_frame: "replenish_all cfg delays now hosts p = (p', out) \<Longrightarrow> sessions_of p' = sessions_of p \<and> silent out"
proof (induction hosts arbitrary: p out)
  case (Cons host hosts)
  obtain p1 out1 where one: "replenish cfg host (delays host) now p = (p1, out1)" by fastforce
  obtain out2 where rest: "replenish_all cfg delays now hosts p1 = (p', out2)" "out = out1 @ out2" using Cons.prems one by (auto split: prod.splits)
  show ?case using replenish_frame[OF one] Cons.IH[OF rest(1)] rest(2) by (auto simp: silent_def)
qed (simp add: silent_def)

lemma small_frames [simp]:
  "sessions_of (note_sample ms p) = sessions_of p" "sessions_of (noteCall host now p) = sessions_of p"
  "sessions_of (set_claimed host entry c p) = sessions_of p" "sessions_of (open_settled host entry p) = sessions_of p"
  "sessions_of (spare_open_failed host entry p) = sessions_of p"
  by (simp_all add: sessions_of_def note_sample_def noteCall_def set_claimed_def open_settled_def spare_open_failed_def Let_def)

lemma torn_list: "torn_sessions (map (\<lambda>sp. TornDown (sp_channel sp)) sps) = map sp_channel sps"
  "given_sessions (map (\<lambda>sp. TornDown (sp_channel sp)) sps) = []"
  by (induction sps) simp_all

lemma torn_spares: "torn_sessions (concat (map (\<lambda>(_, sps). map (\<lambda>sp. TornDown (sp_channel sp)) sps) m)) = concat (map spare_chans m)"
  "given_sessions (concat (map (\<lambda>(_, sps). map (\<lambda>sp. TornDown (sp_channel sp)) sps) m)) = []"
  by (induction m) (auto simp: spare_chans_def torn_list)

subsection \<open>Every step moves sessions\<close>

text \<open>\<open>conserves\<close>: what a step keeps, gives and tears down was there before or just opened.\<close>

definition conserves :: "nat multiset \<Rightarrow> spare_pool \<Rightarrow> spare_pool \<times> spare_effect list \<Rightarrow> bool" where
  "conserves fresh p r = (case r of (p', out) \<Rightarrow>
     (pool_wf p \<longrightarrow> pool_wf p'
       \<and> reserve p' + held_chans p' + mset (torn_sessions out) \<subseteq># reserve p + held_chans p + fresh
       \<and> reserve p' + mset (given_sessions out) \<subseteq># reserve p + fresh))"

lemma conserves_frame: "sessions_of p' = sessions_of p \<Longrightarrow> silent out \<Longrightarrow> conserves fresh p (p', out)"
  by (auto simp: conserves_def sessions_of_def silent_def pool_wf_def reserve_def held_chans_def intro: mset_subset_eq_add_left)

lemma conserves_after:
  assumes "conserves fresh p1 r" "sessions_of p1 = sessions_of p"
  shows "conserves fresh p r"
  using assms by (auto simp: conserves_def sessions_of_def pool_wf_def reserve_def held_chans_def split: prod.splits)

lemma conserves_then:
  assumes "conserves fresh p (p1, out)" "sessions_of p2 = sessions_of p1" "silent out'"
  shows "conserves fresh p (p2, out @ out')" "conserves fresh p (p2, out' @ out)"
  using assms by (auto simp: conserves_def sessions_of_def silent_def pool_wf_def reserve_def held_chans_def)

lemma keepSpare_conserves: "conserves {#channel#} p (keepSpare cfg host channel readyAt now jitterMs p)"
proof (cases "tp_closed p")
  case True
  then show ?thesis by (simp add: conserves_def keepSpare_def)
next
  case False
  define sp where "sp = \<lparr>sp_channel = channel, sp_readyAt = readyAt, sp_superseded = False,
    sp_refreshable = (sps_ttlMs cfg - SPARE_REFILL_LEAD_MS - jitterMs - (now - readyAt) > 0)\<rparr>"
  define m where "m = jsmap_set host (list_of (tp_spares p) host @ [sp]) (jsmap_delete host (tp_spares p))"
  define n where "n = length m - MAX_SPARE_HOSTS"
  have res: "keepSpare cfg host channel readyAt now jitterMs p = (p\<lparr>tp_spares := drop n m\<rparr>,
      concat (map (\<lambda>(_, sps). map (\<lambda>sp. TornDown (sp_channel sp)) sps) (take n m)))"
    using False by (simp add: keepSpare_def drop_spare_hosts_def Let_def sp_def m_def n_def)
  have "conserves {#channel#} p (p\<lparr>tp_spares := drop n m\<rparr>, concat (map (\<lambda>(_, sps). map (\<lambda>sp. TornDown (sp_channel sp)) sps) (take n m)))"
  proof (unfold conserves_def, clarsimp)
    assume wf: "pool_wf p"
    then have wfs: "jsmap_wf (tp_spares p)" by (simp add: pool_wf_def)
    have wfm: "jsmap_wf m" unfolding m_def by (intro jsmap_wf_set jsmap_wf_delete wfs)
    then have "jsmap_wf (drop n m)" by (simp add: jsmap_wf_def drop_map[symmetric])
    then have keep: "pool_wf (p\<lparr>tp_spares := drop n m\<rparr>)" using wf by (simp add: pool_wf_def)
    have "chans_of spare_chans m = mset (map sp_channel (list_of (tp_spares p) host)) + {#channel#} + chans_of spare_chans (jsmap_delete host (tp_spares p))"
      unfolding m_def by (subst chans_of_set[OF jsmap_wf_delete[OF wfs]])
        (simp add: spare_chans_def sp_def jsmap_delete_absent jsmap_keys_delete)
    also have "\<dots> = chans_of spare_chans (tp_spares p) + {#channel#}" using chans_of_list[OF wfs, of host] by simp
    finally have all: "chans_of spare_chans m = chans_of spare_chans (tp_spares p) + {#channel#}" .
    have "chans_of spare_chans m = chans_of spare_chans (take n m) + chans_of spare_chans (drop n m)"
      unfolding chans_of_def by (metis append_take_drop_id concat_append map_append mset_append)
    then have split: "chans_of spare_chans (drop n m) + mset (concat (map spare_chans (take n m))) = chans_of spare_chans (tp_spares p) + {#channel#}"
      using all by (simp add: chans_of_def ac_simps)
    then have "chans_of spare_chans (drop n m) \<subseteq># chans_of spare_chans (tp_spares p) + {#channel#}" by (metis mset_subset_eq_add_left)
    then show "pool_wf (p\<lparr>tp_spares := drop n m\<rparr>)
        \<and> reserve (p\<lparr>tp_spares := drop n m\<rparr>) + held_chans (p\<lparr>tp_spares := drop n m\<rparr>)
            + mset (torn_sessions (concat (map (\<lambda>(_, sps). map (\<lambda>sp. TornDown (sp_channel sp)) sps) (take n m))))
          \<subseteq># add_mset channel (reserve p + held_chans p)
        \<and> reserve (p\<lparr>tp_spares := drop n m\<rparr>)
            + mset (given_sessions (concat (map (\<lambda>(_, sps). map (\<lambda>sp. TornDown (sp_channel sp)) sps) (take n m))))
          \<subseteq># add_mset channel (reserve p)"
      using keep split by (auto simp: torn_spares reserve_def held_chans_def ac_simps)
  qed
  then show ?thesis using res by simp
qed

lemma give_conserves:
  assumes "pool_wf p1" "pool_wf p \<Longrightarrow> reserve p1 + {#channel#} \<subseteq># reserve p + fresh" "tp_held p1 = tp_held p"
  shows "conserves fresh p (give cfg caller host channel path delayMs now p1)"
proof -
  obtain p2 out where r: "replenish cfg host delayMs now (p1\<lparr>tp_held := tp_held p1 @ [(caller, channel)]\<rparr>) = (p2, out)" by fastforce
  have "sessions_of p2 = (tp_spares p1, tp_waiting p1, tp_held p1 @ [(caller, channel)])" "silent out"
    using replenish_frame[OF r] by (simp_all add: sessions_of_def)
  then have "pool_wf p2" "reserve p2 = reserve p1" "held_chans p2 = held_chans p + {#channel#}" "torn_sessions out = []" "given_sessions out = []"
    using assms(1,3) by (simp_all add: sessions_of_def pool_wf_def reserve_def held_chans_def silent_def)
  moreover have "reserve p1 + {#channel#} \<subseteq># reserve p + fresh" if "pool_wf p" using assms(2) that .
  moreover from this have "reserve p1 + (held_chans p + {#channel#}) \<subseteq># reserve p + held_chans p + fresh" if "pool_wf p"
    using that by (metis add.commute add.left_commute mset_subset_eq_mono_add_left_cancel)
  ultimately show ?thesis using r by (simp add: conserves_def give_def)
qed

lemma takeSpare_some:
  assumes "takeSpare host p = (p1, Some sp)"
  shows "tp_waiting p1 = tp_waiting p" "tp_held p1 = tp_held p" "pool_wf p \<Longrightarrow> pool_wf p1"
    "pool_wf p \<Longrightarrow> reserve p1 + {#sp_channel sp#} = reserve p"
proof -
  obtain rest where rest: "jsmap_get (tp_spares p) host = Some (sp # rest)"
    and p1: "p1 = p\<lparr>tp_spares := jsmap_set host rest (jsmap_delete host (tp_spares p))\<rparr>"
    using assms by (auto simp: takeSpare_def split: option.splits list.splits)
  show "tp_waiting p1 = tp_waiting p" "tp_held p1 = tp_held p" using p1 by simp_all
  show "pool_wf p \<Longrightarrow> pool_wf p1" using p1 by (simp add: pool_wf_def jsmap_wf_set jsmap_wf_delete)
  assume wf: "pool_wf p"
  then have wfs: "jsmap_wf (tp_spares p)" by (simp add: pool_wf_def)
  have "chans_of spare_chans (jsmap_set host rest (jsmap_delete host (tp_spares p))) = mset (map sp_channel rest) + chans_of spare_chans (jsmap_delete host (tp_spares p))"
    by (subst chans_of_set[OF jsmap_wf_delete[OF wfs]]) (simp add: spare_chans_def jsmap_delete_absent jsmap_keys_delete)
  moreover have "list_of (tp_spares p) host = sp # rest" using rest by (simp add: list_of_def)
  ultimately show "reserve p1 + {#sp_channel sp#} = reserve p" using p1 chans_of_list[OF wfs, of host] by (simp add: reserve_def)
qed

lemma set_waiting_conserves:
  assumes "ready_chans (entry, w) = []"
  shows "conserves fresh p (p\<lparr>tp_waiting := jsmap_set entry w (tp_waiting p)\<rparr>, [])"
proof -
  have "pool_wf p \<Longrightarrow> chans_of ready_chans (jsmap_set entry w (tp_waiting p)) \<subseteq># chans_of ready_chans (tp_waiting p)"
    using assms chans_of_set[of "tp_waiting p" ready_chans entry w] chans_of_split[of "tp_waiting p" ready_chans entry] by (simp add: pool_wf_def)
  then show ?thesis
    by (auto simp: conserves_def reserve_def held_chans_def pool_wf_def jsmap_wf_set intro!: subset_mset.add_mono mset_subset_eq_add_left
        intro: subset_mset.order_trans[OF _ mset_subset_eq_add_left])
qed

lemma call_arrives_conserves: "conserves {#} p (call_arrives cfg caller host delayMs now p)"
proof -
  let ?p0 = "noteCall host now p"
  obtain p1 found where take: "takeSpare host ?p0 = (p1, found)" by fastforce
  have "conserves {#} ?p0 (call_arrives cfg caller host delayMs now p)"
  proof (cases found)
    case (Some sp)
    note t = takeSpare_some[OF take[unfolded Some]]
    have "conserves {#} ?p0 (give cfg caller host (sp_channel sp) PathSpare delayMs now p1)"
    proof (cases "pool_wf ?p0")
      case True
      then show ?thesis using t by (intro give_conserves) auto
    next
      case False
      then show ?thesis by (auto simp: conserves_def)
    qed
    then show ?thesis using take Some by (simp add: call_arrives_def)
  next
    case None
    have p1: "p1 = ?p0" using take None by (auto simp: takeSpare_def split: option.splits list.splits)
    show ?thesis
    proof (cases "waitableOpen host now p1")
      case None
      then have "call_arrives cfg caller host delayMs now p = (p1, [CallOpens caller host])" using take \<open>found = None\<close> by (simp add: call_arrives_def)
      then show ?thesis using p1 by (simp add: conserves_frame silent_def)
    next
      case (Some e)
      let ?w = "\<lparr>wt_caller = caller, wt_host = host, wt_ready = None\<rparr>"
      let ?p2 = "set_claimed host (po_id e) True p1"
      have same: "tp_waiting ?p2 = tp_waiting p1" using sessions_ofD small_frames(3) by blast
      have res: "call_arrives cfg caller host delayMs now p = (?p2\<lparr>tp_waiting := jsmap_set (po_id e) ?w (tp_waiting ?p2)\<rparr>, [])"
        using take \<open>found = None\<close> Some same by (simp add: call_arrives_def)
      have "conserves {#} ?p2 (call_arrives cfg caller host delayMs now p)"
        unfolding res by (rule set_waiting_conserves) (simp add: ready_chans_def)
      then show ?thesis by (rule conserves_after) (simp add: p1)
    qed
  qed
  then show ?thesis by (rule conserves_after) simp
qed

lemma delete_waiting:
  assumes "pool_wf p" "jsmap_get (tp_waiting p) entry = Some w"
  shows "reserve (p\<lparr>tp_waiting := jsmap_delete entry (tp_waiting p)\<rparr>) + mset (ready_chans (entry, w)) = reserve p"
    "pool_wf (p\<lparr>tp_waiting := jsmap_delete entry (tp_waiting p)\<rparr>)"
  using assms chans_of_split[of "tp_waiting p" ready_chans entry] by (simp_all add: reserve_def pool_wf_def jsmap_wf_delete)

lemma wait_opened_conserves: "conserves {#} p (wait_opened cfg entry delayMs now p)"
proof (cases "\<exists>w channel readyAt. jsmap_get (tp_waiting p) entry = Some w \<and> wt_ready w = Some (channel, readyAt)")
  case False
  then have "wait_opened cfg entry delayMs now p = (p, [])" by (auto simp: wait_opened_def split: option.split)
  then show ?thesis by (simp add: conserves_frame silent_def)
next
  case True
  then obtain w channel readyAt where w: "jsmap_get (tp_waiting p) entry = Some w" "wt_ready w = Some (channel, readyAt)" by blast
  let ?p1 = "p\<lparr>tp_waiting := jsmap_delete entry (tp_waiting p)\<rparr>"
  show ?thesis
  proof (cases "pool_wf p")
    case True
    have "conserves {#} p (give cfg (wt_caller w) (wt_host w) channel PathWaited delayMs now ?p1)"
      using delete_waiting[OF True w(1)] w(2) by (intro give_conserves) (auto simp: ready_chans_def)
    then show ?thesis using w by (simp add: wait_opened_def)
  next
    case False
    then show ?thesis by (auto simp: conserves_def)
  qed
qed

lemma delete_waiting_conserves:
  assumes "jsmap_get (tp_waiting p) entry = Some w" "conserves (mset (ready_chans (entry, w))) (p\<lparr>tp_waiting := jsmap_delete entry (tp_waiting p)\<rparr>) r"
  shows "conserves {#} p r"
proof (cases "pool_wf p")
  case True
  note d = delete_waiting[OF True assms(1)]
  have "held_chans (p\<lparr>tp_waiting := jsmap_delete entry (tp_waiting p)\<rparr>) = held_chans p" by (simp add: held_chans_def)
  then show ?thesis using assms(2) d by (auto simp: conserves_def ac_simps simp flip: d(1))
next
  case False
  then show ?thesis by (auto simp: conserves_def)
qed

lemma wait_failed_conserves: "conserves {#} p (wait_failed entry p)"
proof (cases "jsmap_get (tp_waiting p) entry")
  case (Some w)
  have "conserves {#} p (p\<lparr>tp_waiting := jsmap_delete entry (tp_waiting p)\<rparr>, [CallOpens (wt_caller w) (wt_host w)])"
    by (rule delete_waiting_conserves[OF Some])
      (auto simp: conserves_def intro: mset_subset_eq_add_left)
  then show ?thesis using Some by (auto simp: wait_failed_def conserves_frame silent_def)
qed (simp add: wait_failed_def conserves_frame silent_def)

lemma wait_given_up_conserves: "conserves {#} p (wait_given_up cfg entry aborted now jitterMs p)"
proof (cases "jsmap_get (tp_waiting p) entry")
  case (Some w)
  let ?p0 = "p\<lparr>tp_waiting := jsmap_delete entry (tp_waiting p)\<rparr>"
  let ?p1 = "set_claimed (wt_host w) entry False ?p0"
  obtain p2 out where r: "(case wt_ready w of Some (channel, readyAt) \<Rightarrow> keepSpare cfg (wt_host w) channel readyAt now jitterMs ?p1 | None \<Rightarrow> (?p1, [])) = (p2, out)"
    by fastforce
  have "conserves (mset (ready_chans (entry, w))) ?p1 (p2, out)"
  proof (cases "wt_ready w")
    case None
    then show ?thesis using r by (auto simp: ready_chans_def conserves_frame silent_def)
  next
    case (Some q)
    then show ?thesis using r keepSpare_conserves[of "fst q" ?p1 cfg "wt_host w" "snd q" now jitterMs] by (cases q) (simp add: ready_chans_def)
  qed
  then have "conserves (mset (ready_chans (entry, w))) ?p0 (p2, out)" by (rule conserves_after) simp
  then have "conserves {#} p (p2, out)" by (rule delete_waiting_conserves[OF Some])
  then have "conserves {#} p (p2, out @ [if aborted then CallAborts (wt_caller w) else CallOpens (wt_caller w) (wt_host w)])"
    by (rule conserves_then) (simp_all add: silent_def)
  then show ?thesis using Some r by (simp add: wait_given_up_def Let_def)
qed (simp add: wait_given_up_def conserves_frame silent_def)

lemma release_conserves: "conserves {#} p (release_session caller channel p)"
proof (cases "(caller, channel) \<in> set (tp_held p)")
  case True
  have "mset (remove1 (caller, channel) (tp_held p)) + {#(caller, channel)#} = mset (tp_held p)" using True by simp
  then have "image_mset snd (mset (remove1 (caller, channel) (tp_held p))) + {#channel#} = image_mset snd (mset (tp_held p))"
    by (metis image_mset_single image_mset_union snd_conv)
  then show ?thesis using True by (simp add: conserves_def release_session_def pool_wf_def reserve_def held_chans_def)
next
  case False
  then show ?thesis by (simp add: release_session_def conserves_frame silent_def)
qed

lemma spare_opened_conserves: "conserves {#channel#} p (spare_opened cfg host entry channel tookMs now jitterMs p)"
proof (cases "List.find (\<lambda>e. po_id e = entry) (list_of (tp_pending p) host)")
  case None
  then show ?thesis by (simp add: spare_opened_def conserves_frame silent_def)
next
  case (Some e)
  let ?p1 = "open_settled host entry (note_sample tookMs p)"
  have "conserves {#channel#} ?p1 (spare_opened cfg host entry channel tookMs now jitterMs p)"
  proof (cases "po_claimed e")
    case False
    then show ?thesis using Some keepSpare_conserves by (simp add: spare_opened_def)
  next
    case True
    show ?thesis
    proof (cases "jsmap_get (tp_waiting ?p1) entry")
      case None
      then show ?thesis using True Some by (simp add: spare_opened_def conserves_frame silent_def)
    next
      case w: (Some w)
      let ?m = "jsmap_set entry (w\<lparr>wt_ready := Some (channel, now)\<rparr>) (tp_waiting ?p1)"
      have "pool_wf ?p1 \<Longrightarrow> chans_of ready_chans ?m \<subseteq># add_mset channel (chans_of ready_chans (tp_waiting ?p1))"
        using chans_of_set[of "tp_waiting ?p1" ready_chans entry] chans_of_split[of "tp_waiting ?p1" ready_chans entry]
        by (simp add: pool_wf_def ready_chans_def)
      then have "conserves {#channel#} ?p1 (?p1\<lparr>tp_waiting := ?m\<rparr>, [])"
        by (auto simp: conserves_def reserve_def held_chans_def pool_wf_def jsmap_wf_set ac_simps intro: subset_mset.add_mono
            dest: subset_mset.add_left_mono[where c="chans_of spare_chans (tp_spares ?p1)"])
      then show ?thesis using True Some w by (simp add: spare_opened_def Let_def)
    qed
  qed
  then show ?thesis by (rule conserves_after) simp
qed

lemma set_spares_conserves:
  assumes "sps \<noteq> []" "mset (map sp_channel sps) = mset (map sp_channel (list_of (tp_spares p) host))"
  shows "conserves {#} p (p\<lparr>tp_spares := jsmap_set host sps (tp_spares p)\<rparr>, [])"
proof -
  have "chans_of spare_chans (jsmap_set host sps (tp_spares p)) = chans_of spare_chans (tp_spares p)" if "pool_wf p"
    using that assms(2) chans_of_set[of "tp_spares p" spare_chans host sps] chans_of_list[of "tp_spares p" host]
    by (simp add: pool_wf_def spare_chans_def)
  then show ?thesis by (auto simp: conserves_def reserve_def held_chans_def pool_wf_def jsmap_wf_set)
qed

lemma conserves_trans:
  assumes "conserves fresh p (p1, out1)" "conserves fresh' p1 (p2, out2)"
  shows "conserves (fresh + fresh') p (p2, out1 @ out2)"
proof (cases "pool_wf p")
  case True
  have a: "pool_wf p1" "reserve p1 + held_chans p1 + mset (torn_sessions out1) \<subseteq># reserve p + held_chans p + fresh"
    "reserve p1 + mset (given_sessions out1) \<subseteq># reserve p + fresh" using assms(1) True by (auto simp: conserves_def)
  have b: "pool_wf p2" "reserve p2 + held_chans p2 + mset (torn_sessions out2) \<subseteq># reserve p1 + held_chans p1 + fresh'"
    "reserve p2 + mset (given_sessions out2) \<subseteq># reserve p1 + fresh'" using assms(2) a(1) by (auto simp: conserves_def)
  have "reserve p1 + held_chans p1 + fresh' + mset (torn_sessions out1) \<subseteq># reserve p + held_chans p + fresh + fresh'"
    using mset_subset_eq_mono_add[OF a(2) subset_mset.order_refl, of fresh'] by (simp add: ac_simps)
  from subset_mset.order_trans[OF mset_subset_eq_mono_add[OF b(2) subset_mset.order_refl] this]
  have "reserve p2 + held_chans p2 + mset (torn_sessions out2) + mset (torn_sessions out1) \<subseteq># reserve p + held_chans p + fresh + fresh'" .
  moreover have "reserve p1 + fresh' + mset (given_sessions out1) \<subseteq># reserve p + fresh + fresh'"
    using mset_subset_eq_mono_add[OF a(3) subset_mset.order_refl, of fresh'] by (simp add: ac_simps)
  from subset_mset.order_trans[OF mset_subset_eq_mono_add[OF b(3) subset_mset.order_refl] this]
  have "reserve p2 + mset (given_sessions out2) + mset (given_sessions out1) \<subseteq># reserve p + fresh + fresh'" .
  ultimately show ?thesis using b(1) by (simp add: conserves_def ac_simps)
next
  case False
  then show ?thesis by (simp add: conserves_def)
qed

lemma refresh_conserves: "conserves {#} p (refresh_spare host channel now p)"
proof -
  let ?sps = "list_of (tp_spares p) host"
  let ?marked = "map (\<lambda>sp. if sp_channel sp = channel then sp\<lparr>sp_superseded := True\<rparr> else sp) ?sps"
  let ?p1 = "p\<lparr>tp_spares := jsmap_set host ?marked (tp_spares p)\<rparr>"
  have idle: "conserves {#} p (p, [])" by (simp add: conserves_frame silent_def)
  have "conserves {#} p (openSpare host 0 now ?p1)" if "list_ex (\<lambda>sp. sp_channel sp = channel \<and> sp_refreshable sp) ?sps"
  proof -
    have chans: "map sp_channel ?marked = map sp_channel ?sps" by (simp add: comp_def)
    have marked: "?marked \<noteq> []" using that by auto
    have "mset (map sp_channel ?marked) = mset (map sp_channel ?sps)" by (simp only: chans)
    then have one: "conserves {#} p (?p1, [])" by (rule set_spares_conserves[OF marked])
    obtain p2 out where o: "openSpare host 0 now ?p1 = (p2, out)" by fastforce
    note f = openSpare_frame[OF o]
    have "conserves {#} p (p2, [] @ out)" by (rule conserves_then(1)[OF one conjunct1[OF f] conjunct2[OF f]])
    then show ?thesis using o by simp
  qed
  then show ?thesis using idle by (auto simp: refresh_spare_def Let_def)
qed

lemma filter_channel_mset:
  assumes "List.find (\<lambda>sp. sp_channel sp = channel) sps = Some sp"
  shows "mset (map sp_channel (filter (\<lambda>s. sp_channel s \<noteq> channel) sps)) + {#channel#} \<subseteq># mset (map sp_channel sps)"
  using assms
proof (induction sps)
  case (Cons s sps)
  show ?case
  proof (cases "sp_channel s = channel")
    case True
    have "mset (map sp_channel (filter (\<lambda>s. sp_channel s \<noteq> channel) sps)) \<subseteq># mset (map sp_channel sps)"
      by (metis image_mset_subseteq_mono mset_filter mset_map multiset_filter_subset)
    then show ?thesis using True by simp
  next
    case False
    then show ?thesis using Cons by simp
  qed
qed simp

lemma expire_conserves: "conserves {#} p (expire_spare cfg host channel now p)"
proof (cases "List.find (\<lambda>sp. sp_channel sp = channel) (list_of (tp_spares p) host)")
  case None
  then show ?thesis by (simp add: expire_spare_def conserves_frame silent_def)
next
  case (Some sp)
  let ?rest = "filter (\<lambda>s. sp_channel s \<noteq> channel) (list_of (tp_spares p) host)"
  let ?p1 = "p\<lparr>tp_spares := (if ?rest = [] then jsmap_delete host (tp_spares p) else jsmap_set host ?rest (tp_spares p))\<rparr>"
  have one: "conserves {#} p (?p1, [TornDown channel])"
  proof (cases "pool_wf p")
    case True
    then have wfs: "jsmap_wf (tp_spares p)" by (simp add: pool_wf_def)
    have "chans_of spare_chans (tp_spares ?p1) = mset (map sp_channel ?rest) + chans_of spare_chans (jsmap_delete host (tp_spares p))"
    proof (cases "?rest = []")
      case True
      show ?thesis unfolding if_P[OF True] unfolding True by simp
    next
      case False
      show ?thesis unfolding if_not_P[OF False] using chans_of_set[OF wfs, of spare_chans host ?rest] by (simp add: spare_chans_def)
    qed
    then have "chans_of spare_chans (tp_spares ?p1) + {#channel#} \<subseteq># chans_of spare_chans (tp_spares p)"
      using filter_channel_mset[OF Some] chans_of_list[OF wfs, of host] by simp
    then have r: "reserve ?p1 + {#channel#} \<subseteq># reserve p" by (simp add: reserve_def)
    have "held_chans ?p1 = held_chans p" by (simp add: held_chans_def)
    then have "reserve ?p1 + held_chans ?p1 + {#channel#} \<subseteq># reserve p + held_chans p"
      using mset_subset_eq_mono_add[OF r subset_mset.order_refl, of "held_chans p"] by (simp add: ac_simps)
    moreover have "reserve ?p1 \<subseteq># reserve p" by (rule subset_mset.order_trans[OF mset_subset_eq_add_left r])
    moreover have "pool_wf ?p1" using True by (simp add: pool_wf_def jsmap_wf_set jsmap_wf_delete)
    ultimately show ?thesis by (simp add: conserves_def)
  next
    case False
    then show ?thesis by (simp add: conserves_def)
  qed
  obtain p2 out where o: "openSpare host 0 now ?p1 = (p2, out)" by fastforce
  note f = openSpare_frame[OF o]
  have two: "conserves {#} p (p2, TornDown channel # out)" using conserves_then(1)[OF one conjunct1[OF f] conjunct2[OF f]] by simp
  show ?thesis
  proof (cases "\<not> sp_refreshable sp \<or> tp_closed ?p1 \<or> \<not> tp_background ?p1 \<or> \<not> recentlyCalled host now ?p1 \<or> spareCount host ?p1 \<ge> sps_spares cfg")
    case True
    then have "expire_spare cfg host channel now p = (?p1, [TornDown channel])" using Some unfolding expire_spare_def Let_def by simp
    then show ?thesis using one by simp
  next
    case False
    then have "expire_spare cfg host channel now p = (p2, TornDown channel # out)" using Some o unfolding expire_spare_def Let_def by simp
    then show ?thesis using two by simp
  qed
qed

lemma close_conserves: "conserves {#} p (close_pool p)"
  by (simp add: conserves_def close_pool_def pool_wf_def reserve_def held_chans_def torn_spares chans_of_def)

lemma background_conserves: "conserves {#} p (enableBackground cfg delays now p)"
proof (cases "tp_background p")
  case True
  then show ?thesis by (simp add: enableBackground_def conserves_frame silent_def)
next
  case False
  obtain p1 out where r: "replenish_all cfg delays now (tp_deferred p) (p\<lparr>tp_background := True\<rparr>) = (p1, out)" by fastforce
  have "sessions_of (p1\<lparr>tp_deferred := []\<rparr>) = sessions_of p" "silent out" using replenish_all_frame[OF r] by (auto simp: sessions_of_def)
  then show ?thesis using False r by (simp add: enableBackground_def conserves_frame)
qed

lemma step_conserves: "conserves (mset (opened_by ev)) p (spare_step cfg ev p)"
proof (cases ev)
  case (CallOpened caller host channel tookMs delayMs now)
  have "conserves {#channel#} p (give cfg caller host channel PathInline delayMs now (note_sample tookMs p))" if "pool_wf p"
  proof (rule give_conserves)
    have same: "tp_spares (note_sample tookMs p) = tp_spares p" "tp_waiting (note_sample tookMs p) = tp_waiting p" "tp_held (note_sample tookMs p) = tp_held p"
      by (simp_all add: note_sample_def Let_def)
    show "pool_wf (note_sample tookMs p)" using that same by (simp add: pool_wf_def)
    show "reserve (note_sample tookMs p) + {#channel#} \<subseteq># reserve p + {#channel#}" using same by (simp add: reserve_def)
    show "tp_held (note_sample tookMs p) = tp_held p" using same by simp
  qed
  then show ?thesis using CallOpened by (auto simp: conserves_def)
next
  case (ScheduledFires host now)
  then show ?thesis by (auto simp: scheduled_fires_def start_open_def intro!: conserves_frame simp: sessions_of_def silent_def)
qed (simp_all add: call_arrives_conserves wait_opened_conserves wait_failed_conserves wait_given_up_conserves release_conserves
    background_conserves spare_opened_conserves refresh_conserves expire_conserves close_conserves conserves_frame silent_def)

lemma run_conserves: "conserves (mset (opened_sessions evs)) p (spare_run cfg evs p)"
proof (induction evs arbitrary: p)
  case (Cons ev evs)
  obtain p1 out1 where one: "spare_step cfg ev p = (p1, out1)" by fastforce
  obtain p2 out2 where rest: "spare_run cfg evs p1 = (p2, out2)" by fastforce
  have "conserves (mset (opened_by ev)) p (p1, out1)" using step_conserves[of ev p cfg] one by simp
  moreover have "conserves (mset (opened_sessions evs)) p1 (p2, out2)" using Cons.IH[of p1] rest by simp
  ultimately show ?case using conserves_trans one rest by (simp add: opened_sessions_def)
qed (simp add: conserves_frame silent_def)

lemma distinct_submset:
  assumes "mset ys \<subseteq># mset xs" "distinct xs"
  shows "distinct ys"
proof -
  obtain zs where "mset xs = mset ys + mset zs" using assms(1) by (metis subset_mset.le_iff_add ex_mset)
  then have "mset xs = mset (ys @ zs)" by simp
  then have "distinct (ys @ zs)" using assms(2) mset_eq_imp_distinct_iff by blast
  then show ?thesis by simp
qed

text \<open>
  C31. A session serves one call. In per-call mode, over any order of calls, background opens, waits, timers, releases and a close, when every open that succeeds gives a
  new session: no session is given to two calls, no call's session is a spare or is kept for a waiting call, no session a call holds is
  torn down, and no session is torn down twice.
\<close>

theorem session_serves_one_call:
  assumes "spare_run cfg evs new_spare_pool = (p, out)" and "distinct (opened_sessions evs)"
  shows "distinct (given_sessions out) \<and> distinct (map snd (tp_held p)) \<and> distinct (torn_sessions out)
    \<and> set (map snd (tp_held p)) \<inter> set (torn_sessions out) = {}
    \<and> (\<forall>(host, sps) \<in> set (tp_spares p). \<forall>sp \<in> set sps. sp_channel sp \<notin> set (map snd (tp_held p)) \<union> set (torn_sessions out) \<union> set (given_sessions out))"
proof -
  have "pool_wf new_spare_pool" "reserve new_spare_pool = {#}" "held_chans new_spare_pool = {#}"
    by (simp_all add: pool_wf_def new_spare_pool_def reserve_def held_chans_def)
  then have sub: "reserve p + held_chans p + mset (torn_sessions out) \<subseteq># mset (opened_sessions evs)"
    "reserve p + mset (given_sessions out) \<subseteq># mset (opened_sessions evs)"
    using run_conserves[of evs new_spare_pool cfg] assms(1) by (simp_all add: conserves_def)
  let ?spares = "concat (map spare_chans (tp_spares p))" and ?ready = "concat (map ready_chans (tp_waiting p))"
  have kept: "distinct (?spares @ ?ready @ map snd (tp_held p) @ torn_sessions out)"
    by (rule distinct_submset[OF _ assms(2)]) (use sub(1) in \<open>simp add: reserve_def held_chans_def chans_of_def ac_simps\<close>)
  have given: "distinct (?spares @ ?ready @ given_sessions out)"
    by (rule distinct_submset[OF _ assms(2)]) (use sub(2) in \<open>simp add: reserve_def chans_of_def ac_simps\<close>)
  have "sp_channel sp \<notin> set (map snd (tp_held p)) \<union> set (torn_sessions out) \<union> set (given_sessions out)"
    if "(host, sps) \<in> set (tp_spares p)" "sp \<in> set sps" for host sps sp
  proof -
    have "sp_channel sp \<in> set ?spares" using that by (force simp: spare_chans_def)
    then show ?thesis using kept given unfolding distinct_append set_append by blast
  qed
  then show ?thesis using kept given unfolding distinct_append by blast
qed

subsection \<open>How many spares\<close>

definition live :: "spare_pool \<Rightarrow> string \<Rightarrow> nat" where
  "live p host = length (filter (\<lambda>sp. \<not> sp_superseded sp) (list_of (tp_spares p) host))"

definition replaced :: "spare_pool \<Rightarrow> string \<Rightarrow> nat" where
  "replaced p host = length (filter sp_superseded (list_of (tp_spares p) host))"

definition queued :: "spare_pool \<Rightarrow> string \<Rightarrow> nat" where
  "queued p host = count_list (tp_scheduled p) host + length (list_of (tp_pending p) host)"

definition bounded_pool :: "nat \<Rightarrow> spare_pool \<Rightarrow> bool" where
  "bounded_pool n p = (length (tp_spares p) \<le> MAX_SPARE_HOSTS
     \<and> (\<forall>host. live p host + opening_of p host \<le> n \<and> replaced p host \<le> 1 \<and> queued p host \<le> opening_of p host))"

lemma bounded_poolD:
  assumes "bounded_pool n p"
  shows "length (tp_spares p) \<le> MAX_SPARE_HOSTS" "live p host + opening_of p host \<le> n" "replaced p host \<le> 1" "queued p host \<le> opening_of p host"
  using assms by (simp_all add: bounded_pool_def)

lemma bounded_poolI:
  assumes "length (tp_spares p) \<le> MAX_SPARE_HOSTS" "\<And>host. live p host + opening_of p host \<le> n" "\<And>host. replaced p host \<le> 1"
    "\<And>host. queued p host \<le> opening_of p host"
  shows "bounded_pool n p"
  using assms by (simp add: bounded_pool_def)

lemma list_of_set: "list_of (jsmap_set h v m) h' = (if h' = h then v else list_of m h')"
  by (simp add: list_of_def jsmap_get_def jsmap_set_map_of)

lemma list_of_delete: "list_of (jsmap_delete h m) h' = (if h' = h then [] else list_of m h')"
  by (simp add: list_of_def jsmap_get_def jsmap_delete_map_of)

lemma list_of_drop: "jsmap_wf m \<Longrightarrow> list_of (drop n m) h = [] \<or> list_of (drop n m) h = list_of m h"
proof -
  assume wf: "jsmap_wf m"
  have "jsmap_wf (drop n m)" using wf by (simp add: jsmap_wf_def drop_map[symmetric])
  then have "jsmap_get (drop n m) h = Some v \<Longrightarrow> jsmap_get m h = Some v" for v
    using wf by (auto simp: jsmap_get_iff dest: in_set_dropD)
  then show ?thesis unfolding list_of_def by (cases "jsmap_get (drop n m) h") auto
qed

lemma bounded_le: "bounded_pool n p \<Longrightarrow> n \<le> n' \<Longrightarrow> bounded_pool n' p"
  unfolding bounded_pool_def by (meson le_trans)

lemma bounded_same:
  assumes "bounded_pool n p" "tp_spares p' = tp_spares p" "tp_opening p' = tp_opening p" "tp_scheduled p' = tp_scheduled p"
    "\<And>h. length (list_of (tp_pending p') h) = length (list_of (tp_pending p) h)"
  shows "bounded_pool n p'"
  using assms by (simp add: bounded_pool_def live_def replaced_def queued_def opening_of_def)

lemma openSpare_counts:
  assumes "openSpare host delayMs now p = (p', out)"
  shows "tp_spares p' = tp_spares p" "opening_of p' h = opening_of p h + (if h = host then 1 else 0)"
    "queued p' h = queued p h + (if h = host then 1 else 0)"
  using assms by (auto simp: openSpare_def start_open_def Let_def opening_of_def queued_def list_of_set jsmap_get_def jsmap_set_map_of split: if_splits)

lemma openSpare_bounded:
  assumes "openSpare host delayMs now p = (p', out)" "bounded_pool n p" "live p host + opening_of p host < n"
  shows "bounded_pool n p'"
proof -
  note c = openSpare_counts[OF assms(1)]
  have "live p' h = live p h" "replaced p' h = replaced p h" for h using c(1) by (simp_all add: live_def replaced_def)
  then show ?thesis using assms(2,3) c unfolding bounded_pool_def by auto
qed

lemma replenish_bounded:
  assumes "replenish cfg host delayMs now p = (p', out)" "bounded_pool n p" "sps_spares cfg \<le> n"
  shows "bounded_pool n p'"
proof (cases "sps_spares cfg = 0 \<or> tp_closed p \<or> \<not> tp_background p \<or> spareCount host p \<ge> sps_spares cfg")
  case True
  then show ?thesis using assms(1,2) by (auto simp: replenish_def elim!: bounded_same split: if_splits)
next
  case False
  then have "openSpare host delayMs now p = (p', out)" using assms(1) by (simp add: replenish_def)
  then show ?thesis by (rule openSpare_bounded[OF _ assms(2)]) (use False assms(3) in \<open>simp add: spareCount_def live_def\<close>)
qed

lemma replenish_all_bounded:
  "replenish_all cfg delays now hosts p = (p', out) \<Longrightarrow> bounded_pool n p \<Longrightarrow> sps_spares cfg \<le> n \<Longrightarrow> bounded_pool n p'"
  by (induction hosts arbitrary: p out) (auto split: prod.splits dest: replenish_bounded)

lemma set_claimed_length: "length (list_of (tp_pending (set_claimed host entry c p)) h) = length (list_of (tp_pending p) h)"
  by (simp add: set_claimed_def list_of_set)

lemma set_claimed_bounded: "bounded_pool n p \<Longrightarrow> bounded_pool n (set_claimed host entry c p)"
  by (erule bounded_same) (simp_all add: set_claimed_length, simp_all add: set_claimed_def)

lemma give_bounded:
  assumes "bounded_pool n p" "sps_spares cfg \<le> n"
  shows "bounded_pool n (fst (give cfg caller host channel path delayMs now p))"
proof -
  obtain p1 out where r: "replenish cfg host delayMs now (p\<lparr>tp_held := tp_held p @ [(caller, channel)]\<rparr>) = (p1, out)" by fastforce
  have "bounded_pool n (p\<lparr>tp_held := tp_held p @ [(caller, channel)]\<rparr>)" by (rule bounded_same[OF assms(1)]) simp_all
  from replenish_bounded[OF r this assms(2)] show ?thesis using r by (simp add: give_def)
qed

lemma keepSpare_bounded:
  assumes "bounded_pool n p" "pool_wf p" "live p host + opening_of p host < n"
  shows "bounded_pool n (fst (keepSpare cfg host channel readyAt now jitterMs p))"
proof (cases "tp_closed p")
  case True
  then show ?thesis using assms(1) by (simp add: keepSpare_def)
next
  case False
  define sp where "sp = \<lparr>sp_channel = channel, sp_readyAt = readyAt, sp_superseded = False,
    sp_refreshable = (sps_ttlMs cfg - SPARE_REFILL_LEAD_MS - jitterMs - (now - readyAt) > 0)\<rparr>"
  define m where "m = jsmap_set host (list_of (tp_spares p) host @ [sp]) (jsmap_delete host (tp_spares p))"
  define k where "k = length m - MAX_SPARE_HOSTS"
  have res: "fst (keepSpare cfg host channel readyAt now jitterMs p) = p\<lparr>tp_spares := drop k m\<rparr>"
    using False by (simp add: keepSpare_def drop_spare_hosts_def Let_def sp_def m_def k_def)
  have wf: "jsmap_wf m" using assms(2) unfolding m_def pool_wf_def by (intro jsmap_wf_set jsmap_wf_delete) simp
  have "list_of m h = (if h = host then list_of (tp_spares p) host @ [sp] else list_of (tp_spares p) h)" for h
    by (simp add: m_def list_of_set list_of_delete)
  then have lists: "list_of (drop k m) h = [] \<or> list_of (drop k m) h = (if h = host then list_of (tp_spares p) host @ [sp] else list_of (tp_spares p) h)" for h
    using list_of_drop[OF wf, of k h] by metis
  let ?p = "p\<lparr>tp_spares := drop k m\<rparr>"
  have lives: "live ?p h \<le> live p h + (if h = host then 1 else 0)" "replaced ?p h \<le> replaced p h" for h
    using lists[of h] by (auto simp: live_def replaced_def sp_def split: if_splits)
  have same: "opening_of ?p h = opening_of p h" "queued ?p h = queued p h" for h by (simp_all add: opening_of_def queued_def)
  note d = bounded_poolD[OF assms(1)]
  have "bounded_pool n ?p"
  proof (rule bounded_poolI)
    show "length (tp_spares ?p) \<le> MAX_SPARE_HOSTS" by (simp add: k_def)
    show "live ?p h + opening_of ?p h \<le> n" for h using lives(1)[of h] same(1)[of h] d(2)[of h] assms(3) by (cases "h = host") simp_all
    show "replaced ?p h \<le> 1" for h using lives(2)[of h] d(3)[of h] by simp
    show "queued ?p h \<le> opening_of ?p h" for h using same[of h] d(4)[of h] by simp
  qed
  then show ?thesis using res by simp
qed

lemma open_settled_bounded:
  assumes "bounded_pool n p" "list_ex (\<lambda>e. po_id e = entry) (list_of (tp_pending p) host)"
  shows "bounded_pool n (open_settled host entry p)"
    "live (open_settled host entry p) host + opening_of (open_settled host entry p) host < n"
proof -
  let ?p = "open_settled host entry p"
  have q: "queued p h \<le> opening_of p h" "live p h + opening_of p h \<le> n" for h using assms(1) by (simp_all add: bounded_pool_def)
  have "length (filter (\<lambda>e. po_id e \<noteq> entry) (list_of (tp_pending p) host)) < length (list_of (tp_pending p) host)"
    using assms(2) by (auto simp: list_ex_iff intro: length_filter_less)
  then have pend: "queued ?p host < queued p host" by (auto simp: queued_def open_settled_def Let_def list_of_set list_of_delete)
  have op: "opening_of ?p host = opening_of p host - 1"
    by (auto simp: opening_of_def open_settled_def Let_def jsmap_get_def jsmap_set_map_of jsmap_delete_map_of split: option.split)
  have other: "opening_of ?p h = opening_of p h" "queued ?p h = queued p h" if "h \<noteq> host" for h
    using that by (auto simp: opening_of_def queued_def open_settled_def Let_def list_of_set list_of_delete jsmap_get_def jsmap_set_map_of jsmap_delete_map_of)
  have sps: "tp_spares ?p = tp_spares p" by (simp add: open_settled_def Let_def)
  then have lives: "live ?p h = live p h" "replaced ?p h = replaced p h" for h by (simp_all add: live_def replaced_def)
  show "live ?p host + opening_of ?p host < n" using q[of host] pend op lives by simp
  note d = bounded_poolD[OF assms(1)]
  show "bounded_pool n ?p"
  proof (rule bounded_poolI)
    show "length (tp_spares ?p) \<le> MAX_SPARE_HOSTS" using d(1) sps by simp
    show "live ?p h + opening_of ?p h \<le> n" for h using lives(1)[of h] op other(1)[of h] d(2)[of h] by (cases "h = host") simp_all
    show "replaced ?p h \<le> 1" for h using lives(2)[of h] d(3)[of h] by simp
    show "queued ?p h \<le> opening_of ?p h" for h using pend op other[of h] d(4)[of h] by (cases "h = host") simp_all
  qed
qed

lemma takeSpare_bounded: "takeSpare host p = (p1, found) \<Longrightarrow> bounded_pool n p \<Longrightarrow> pool_wf p \<Longrightarrow> bounded_pool n p1"
proof -
  assume take: "takeSpare host p = (p1, found)" and ok: "bounded_pool n p" and wf: "pool_wf p"
  show "bounded_pool n p1"
  proof (cases found)
    case None
    then show ?thesis using take ok by (auto simp: takeSpare_def split: option.splits list.splits)
  next
    case (Some sp)
    obtain rest where rest: "jsmap_get (tp_spares p) host = Some (sp # rest)"
      and p1: "p1 = p\<lparr>tp_spares := jsmap_set host rest (jsmap_delete host (tp_spares p))\<rparr>"
      using take Some by (auto simp: takeSpare_def split: option.splits list.splits)
    have key: "host \<in> set (jsmap_keys (tp_spares p))" using rest jsmap_get_None_iff[of "tp_spares p" host] by auto
    have "length (tp_spares p) > 0" using key by (cases "tp_spares p") auto
    then have len: "length (tp_spares p1) = length (tp_spares p)" using p1 key wf length_jsmap_delete[of "tp_spares p" host]
      by (simp add: length_jsmap_set jsmap_keys_delete pool_wf_def)
    have "list_of (tp_spares p) host = sp # rest" using rest by (simp add: list_of_def)
    then have le: "live p1 h \<le> live p h" "replaced p1 h \<le> replaced p h" "opening_of p1 h = opening_of p h" "queued p1 h = queued p h" for h
      using p1 by (auto simp: live_def replaced_def opening_of_def queued_def list_of_set list_of_delete)
    note d = bounded_poolD[OF ok]
    show ?thesis
    proof (rule bounded_poolI)
      show "length (tp_spares p1) \<le> MAX_SPARE_HOSTS" using d(1) len by simp
      show "live p1 h + opening_of p1 h \<le> n" for h using le[of h] d(2)[of h] by simp
      show "replaced p1 h \<le> 1" for h using le(2)[of h] d(3)[of h] by simp
      show "queued p1 h \<le> opening_of p1 h" for h using le[of h] d(4)[of h] by simp
    qed
  qed
qed

definition mark :: "nat \<Rightarrow> spare list \<Rightarrow> spare list" where
  "mark channel = map (\<lambda>sp. if sp_channel sp = channel then sp\<lparr>sp_superseded := True\<rparr> else sp)"

lemma mark_absent: "channel \<notin> set (map sp_channel sps) \<Longrightarrow> mark channel sps = sps"
  by (induction sps) (auto simp: mark_def)

lemma mark_counts:
  "distinct (map sp_channel sps) \<Longrightarrow> channel \<in> set (map sp_channel sps) \<Longrightarrow> \<not> list_ex sp_superseded sps \<Longrightarrow>
   length (filter (\<lambda>sp. \<not> sp_superseded sp) (mark channel sps)) + 1 = length (filter (\<lambda>sp. \<not> sp_superseded sp) sps)
     \<and> length (filter sp_superseded (mark channel sps)) = 1"
proof (induction sps)
  case (Cons s sps)
  show ?case
  proof (cases "sp_channel s = channel")
    case True
    then have "mark channel (s # sps) = s\<lparr>sp_superseded := True\<rparr> # sps" using Cons.prems(1) mark_absent[of channel sps] by (simp add: mark_def)
    moreover have "filter sp_superseded sps = []" using Cons.prems(3) by (auto simp: list_ex_iff filter_empty_conv)
    ultimately show ?thesis using Cons.prems(3) by simp
  next
    case False
    then show ?thesis using Cons by (simp add: mark_def)
  qed
qed simp

lemma spares_distinct:
  assumes "pool_wf p" "reserve p \<subseteq># mset seen" "distinct seen"
  shows "distinct (map sp_channel (list_of (tp_spares p) host))"
proof -
  have "mset (map sp_channel (list_of (tp_spares p) host)) \<subseteq># chans_of spare_chans (tp_spares p)"
    using chans_of_list[of "tp_spares p" host] assms(1) by (simp add: pool_wf_def)
  then have "mset (map sp_channel (list_of (tp_spares p) host)) \<subseteq># reserve p"
    unfolding reserve_def by (rule subset_mset.order_trans) simp
  then show ?thesis using distinct_submset subset_mset.order_trans assms(2,3) by blast
qed

lemma refresh_bounded:
  assumes "bounded_pool n p" "distinct (map sp_channel (list_of (tp_spares p) host))"
  shows "bounded_pool n (fst (refresh_spare host channel now p))"
proof -
  let ?sps = "list_of (tp_spares p) host"
  let ?p1 = "p\<lparr>tp_spares := jsmap_set host (mark channel ?sps) (tp_spares p)\<rparr>"
  have "bounded_pool n (fst (openSpare host 0 now ?p1))" if ex: "list_ex (\<lambda>sp. sp_channel sp = channel \<and> sp_refreshable sp) ?sps" "\<not> list_ex sp_superseded ?sps"
  proof -
    have mem: "channel \<in> set (map sp_channel ?sps)" using ex(1) by (auto simp: list_ex_iff)
    note m = mark_counts[OF assms(2) mem ex(2)]
    have key: "host \<in> set (jsmap_keys (tp_spares p))" using mem jsmap_get_None_iff[of "tp_spares p" host] by (auto simp: list_of_def split: option.splits)
    note d = bounded_poolD[OF assms(1)]
    have c: "live ?p1 h = (if h = host then live p host - 1 else live p h)" "replaced ?p1 h = (if h = host then 1 else replaced p h)"
      "opening_of ?p1 h = opening_of p h" "queued ?p1 h = queued p h" for h
      using m by (auto simp: live_def replaced_def opening_of_def queued_def list_of_set)
    have pos: "0 < live p host" using conjunct1[OF m] unfolding live_def by linarith
    have b1: "bounded_pool n ?p1"
    proof (rule bounded_poolI)
      show "length (tp_spares ?p1) \<le> MAX_SPARE_HOSTS" using d(1) key by (simp add: length_jsmap_set)
      show "live ?p1 h + opening_of ?p1 h \<le> n" for h using c(1,3)[of h] d(2)[of h] by (cases "h = host") simp_all
      show "replaced ?p1 h \<le> 1" for h using c(2)[of h] d(3)[of h] by simp
      show "queued ?p1 h \<le> opening_of ?p1 h" for h using c(3,4)[of h] d(4)[of h] by simp
    qed
    show ?thesis by (rule openSpare_bounded[OF prod.collapse[symmetric] b1]) (use c(1,3)[of host] d(2)[of host] pos in simp)
  qed
  then show ?thesis using assms(1) by (auto simp: refresh_spare_def Let_def mark_def)
qed

lemma filter_rest_le: "length (filter P (filter Q xs)) \<le> length (filter P xs)"
  by (induction xs) auto

lemma list_of_keep: "list_of (if rest = [] then jsmap_delete h m else jsmap_set h rest m) h' = (if h' = h then rest else list_of m h')"
  by (cases "rest = []") (simp_all add: list_of_set list_of_delete)

lemma expire_bounded:
  assumes "bounded_pool n p" "sps_spares cfg \<le> n"
  shows "bounded_pool n (fst (expire_spare cfg host channel now p))"
proof (cases "List.find (\<lambda>sp. sp_channel sp = channel) (list_of (tp_spares p) host)")
  case None
  then show ?thesis using assms(1) by (simp add: expire_spare_def)
next
  case (Some sp)
  let ?rest = "filter (\<lambda>s. sp_channel s \<noteq> channel) (list_of (tp_spares p) host)"
  define sps1 where "sps1 = (if ?rest = [] then jsmap_delete host (tp_spares p) else jsmap_set host ?rest (tp_spares p))"
  define p1 where "p1 = p\<lparr>tp_spares := sps1\<rparr>"
  have sps1: "tp_spares p1 = sps1" by (simp add: p1_def)
  have key: "host \<in> set (jsmap_keys (tp_spares p))" using Some jsmap_get_None_iff[of "tp_spares p" host] by (auto simp: list_of_def split: option.splits)
  have lists: "list_of (tp_spares p1) h = (if h = host then ?rest else list_of (tp_spares p) h)" for h
    unfolding sps1 sps1_def by (rule list_of_keep)
  have "length (filter P ?rest) \<le> length (filter P (list_of (tp_spares p) host))" for P
    by (rule filter_rest_le)
  then have le: "live p1 h \<le> live p h" "replaced p1 h \<le> replaced p h" for h using lists[of h] unfolding live_def replaced_def by simp_all
  have same: "opening_of p1 h = opening_of p h" "queued p1 h = queued p h" for h by (simp_all add: p1_def opening_of_def queued_def)
  note d = bounded_poolD[OF assms(1)]
  have len: "length (tp_spares p1) \<le> length (tp_spares p)" using key unfolding sps1 sps1_def by (simp add: length_jsmap_set jsmap_delete_def)
  have b1: "bounded_pool n p1"
  proof (rule bounded_poolI)
    show "length (tp_spares p1) \<le> MAX_SPARE_HOSTS" using d(1) len by simp
    show "live p1 h + opening_of p1 h \<le> n" for h using le(1)[of h] same(1)[of h] d(2)[of h] by simp
    show "replaced p1 h \<le> 1" for h using le(2)[of h] d(3)[of h] by simp
    show "queued p1 h \<le> opening_of p1 h" for h using same[of h] d(4)[of h] by simp
  qed
  show ?thesis
  proof (cases "\<not> sp_refreshable sp \<or> tp_closed p1 \<or> \<not> tp_background p1 \<or> \<not> recentlyCalled host now p1 \<or> spareCount host p1 \<ge> sps_spares cfg")
    case True
    then have "fst (expire_spare cfg host channel now p) = p1" using Some unfolding expire_spare_def Let_def p1_def sps1_def by simp
    then show ?thesis using b1 by simp
  next
    case False
    then have "fst (expire_spare cfg host channel now p) = fst (openSpare host 0 now p1)"
      using Some unfolding expire_spare_def Let_def p1_def sps1_def by (simp split: prod.split)
    moreover have "bounded_pool n (fst (openSpare host 0 now p1))"
      by (rule openSpare_bounded[OF prod.collapse[symmetric] b1]) (use False assms(2) in \<open>simp add: spareCount_def live_def\<close>)
    ultimately show ?thesis by simp
  qed
qed

definition gave_up :: "spare_event \<Rightarrow> nat" where
  "gave_up ev = (case ev of WaitGivenUp _ _ _ _ \<Rightarrow> 1 | _ \<Rightarrow> 0)"

lemma note_bounded: "bounded_pool n p \<Longrightarrow> bounded_pool n (note_sample ms p)" "bounded_pool n p \<Longrightarrow> bounded_pool n (noteCall host now p)"
  by (auto elim!: bounded_same simp: note_sample_def noteCall_def Let_def)

lemma call_arrives_bounded:
  assumes "bounded_pool n p" "pool_wf p" "sps_spares cfg \<le> n"
  shows "bounded_pool n (fst (call_arrives cfg caller host delayMs now p))"
proof -
  obtain p1 found where take: "takeSpare host (noteCall host now p) = (p1, found)" by fastforce
  have "pool_wf (noteCall host now p)" using assms(2) by (simp add: pool_wf_def noteCall_def Let_def)
  from takeSpare_bounded[OF take note_bounded(2)[OF assms(1)] this] have b: "bounded_pool n p1" .
  show ?thesis
  proof (cases found)
    case (Some sp)
    then show ?thesis using take give_bounded[OF b assms(3)] by (simp add: call_arrives_def)
  next
    case None
    have "bounded_pool n ((set_claimed host e True p1)\<lparr>tp_waiting := w\<rparr>)" for e w
      by (rule bounded_same[OF set_claimed_bounded[OF b]]) simp_all
    then show ?thesis using take None b by (simp add: call_arrives_def split: option.split)
  qed
qed

lemma wait_given_up_bounded:
  assumes "bounded_pool n p" "pool_wf p"
  shows "bounded_pool (n + 1) (fst (wait_given_up cfg entry aborted now jitterMs p))"
proof (cases "jsmap_get (tp_waiting p) entry")
  case None
  then show ?thesis using bounded_le[OF assms(1)] by (simp add: wait_given_up_def)
next
  case (Some w)
  let ?p1 = "set_claimed (wt_host w) entry False (p\<lparr>tp_waiting := jsmap_delete entry (tp_waiting p)\<rparr>)"
  have b: "bounded_pool n ?p1" by (rule set_claimed_bounded, rule bounded_same[OF assms(1)]) simp_all
  have wf: "pool_wf ?p1" using assms(2) sessions_ofD[OF small_frames(3), of "wt_host w" entry False] by (simp add: pool_wf_def jsmap_wf_delete)
  show ?thesis
  proof (cases "wt_ready w")
    case None
    then show ?thesis using Some bounded_le[OF b] by (simp add: wait_given_up_def Let_def)
  next
    case (Some q)
    have "live ?p1 (wt_host w) + opening_of ?p1 (wt_host w) < n + 1" using bounded_poolD(2)[OF b, of "wt_host w"] by simp
    from keepSpare_bounded[OF bounded_le[OF b] wf this] show ?thesis
      using Some \<open>jsmap_get (tp_waiting p) entry = Some w\<close> by (cases q) (simp add: wait_given_up_def Let_def case_prod_beta)
  qed
qed

lemma spare_opened_bounded:
  assumes "bounded_pool n p" "pool_wf p"
  shows "bounded_pool n (fst (spare_opened cfg host entry channel tookMs now jitterMs p))"
proof (cases "List.find (\<lambda>e. po_id e = entry) (list_of (tp_pending p) host)")
  case None
  then show ?thesis using assms(1) by (simp add: spare_opened_def)
next
  case (Some e)
  let ?q = "note_sample tookMs p"
  have ex: "list_ex (\<lambda>e. po_id e = entry) (list_of (tp_pending ?q) host)"
    using Some by (auto simp: find_Some_iff list_ex_length note_sample_def Let_def)
  let ?p1 = "open_settled host entry ?q"
  note b = open_settled_bounded[OF note_bounded(1)[OF assms(1)] ex]
  have wf: "pool_wf ?p1" using assms(2) by (simp add: pool_wf_def open_settled_def note_sample_def Let_def)
  have "bounded_pool n (?p1\<lparr>tp_waiting := ws\<rparr>)" for ws by (rule bounded_same[OF b(1)]) simp_all
  then show ?thesis using Some b(1) keepSpare_bounded[OF b(1) wf b(2)] by (simp add: spare_opened_def Let_def split: option.split)
qed

lemma scheduled_bounded:
  assumes "bounded_pool n p"
  shows "bounded_pool n (fst (scheduled_fires host now p))"
proof (cases "host \<in> set (tp_scheduled p)")
  case True
  let ?p = "fst (scheduled_fires host now p)"
  have "count_list (remove1 host xs) h = count_list xs h - (if h = host then 1 else 0)" for xs h by (induction xs) auto
  moreover have "count_list (tp_scheduled p) host > 0" using True count_list_0_iff[of "tp_scheduled p" host] by (cases "count_list (tp_scheduled p) host") auto
  ultimately have q: "queued ?p h = queued p h" for h using True by (auto simp: scheduled_fires_def start_open_def queued_def list_of_set)
  note d = bounded_poolD[OF assms]
  have same: "tp_spares ?p = tp_spares p" "tp_opening ?p = tp_opening p" using True by (simp_all add: scheduled_fires_def start_open_def)
  show ?thesis
    by (rule bounded_poolI) (use d q same in \<open>simp_all add: live_def replaced_def opening_of_def\<close>)
next
  case False
  then show ?thesis using assms by (simp add: scheduled_fires_def)
qed

lemma close_bounded: "bounded_pool n p \<Longrightarrow> bounded_pool n (fst (close_pool p))"
proof -
  assume b: "bounded_pool n p"
  note d = bounded_poolD[OF b]
  have "opening_of (fst (close_pool p)) h = opening_of p h" "live (fst (close_pool p)) h = 0" "replaced (fst (close_pool p)) h = 0"
    "queued (fst (close_pool p)) h \<le> queued p h" for h
    by (simp_all add: close_pool_def opening_of_def live_def replaced_def queued_def list_of_def jsmap_get_def)
  note c = this
  show ?thesis
  proof (rule bounded_poolI)
    show "length (tp_spares (fst (close_pool p))) \<le> MAX_SPARE_HOSTS" by (simp add: close_pool_def)
    show "live (fst (close_pool p)) h + opening_of (fst (close_pool p)) h \<le> n" for h using c(1,2)[of h] d(2)[of h] by linarith
    show "replaced (fst (close_pool p)) h \<le> 1" for h using c(3)[of h] by linarith
    show "queued (fst (close_pool p)) h \<le> opening_of (fst (close_pool p)) h" for h using c(1,4)[of h] d(4)[of h] by linarith
  qed
qed

lemma wait_opened_bounded: "bounded_pool n p \<Longrightarrow> sps_spares cfg \<le> n \<Longrightarrow> bounded_pool n (fst (wait_opened cfg entry delayMs now p))"
  by (auto simp: wait_opened_def intro!: give_bounded elim: bounded_same split: option.split)

lemma step_bounded:
  assumes "bounded_pool n p" "pool_wf p" "reserve p \<subseteq># mset seen" "distinct seen" "sps_spares cfg \<le> n"
  shows "bounded_pool (n + gave_up ev) (fst (spare_step cfg ev p))"
proof (cases ev)
  case (BackgroundAllowed delays now)
  obtain p1 out where r: "replenish_all cfg delays now (tp_deferred p) (p\<lparr>tp_background := True\<rparr>) = (p1, out)" by fastforce
  have "bounded_pool n (p\<lparr>tp_background := True\<rparr>)" by (rule bounded_same[OF assms(1)]) simp_all
  from replenish_all_bounded[OF r this assms(5)] have "bounded_pool n (p1\<lparr>tp_deferred := []\<rparr>)" by (rule bounded_same) simp_all
  then show ?thesis using BackgroundAllowed r assms(1) by (simp add: enableBackground_def gave_up_def)
next
  case (CallOpened caller host channel tookMs delayMs now)
  then show ?thesis using give_bounded[OF note_bounded(1)[OF assms(1)] assms(5)] by (simp add: gave_up_def)
next
  case (WaitFailed entry)
  then show ?thesis using assms(1) by (auto simp: gave_up_def wait_failed_def elim: bounded_same split: option.split)
next
  case (CallReleases caller channel)
  then show ?thesis using assms(1) by (auto simp: gave_up_def release_session_def elim: bounded_same)
next
  case (SpareOpenFailed host entry)
  then show ?thesis using assms(1) open_settled_bounded(1)[OF assms(1)] by (simp add: gave_up_def spare_open_failed_def)
qed (simp_all add: gave_up_def assms call_arrives_bounded wait_opened_bounded wait_given_up_bounded[simplified] scheduled_bounded
    spare_opened_bounded refresh_bounded[OF assms(1) spares_distinct[OF assms(2,3,4)]] expire_bounded close_bounded)

lemma run_bounded:
  "bounded_pool n p \<Longrightarrow> pool_wf p \<Longrightarrow> reserve p \<subseteq># mset seen \<Longrightarrow> distinct (seen @ opened_sessions evs) \<Longrightarrow> sps_spares cfg \<le> n \<Longrightarrow>
   bounded_pool (n + sum_list (map gave_up evs)) (fst (spare_run cfg evs p))"
proof (induction evs arbitrary: n p seen)
  case (Cons ev evs)
  obtain p1 out1 where one: "spare_step cfg ev p = (p1, out1)" by fastforce
  have c: "pool_wf p1" "reserve p1 + mset (given_sessions out1) \<subseteq># reserve p + mset (opened_by ev)"
    using step_conserves[of ev p cfg] one Cons.prems(2) by (simp_all add: conserves_def)
  have "reserve p1 \<subseteq># reserve p + mset (opened_by ev)" by (rule subset_mset.order_trans[OF mset_subset_eq_add_left c(2)])
  from subset_mset.order_trans[OF this mset_subset_eq_mono_add[OF Cons.prems(3) subset_mset.order_refl]]
  have "reserve p1 \<subseteq># mset (seen @ opened_by ev)" by simp
  moreover have "distinct ((seen @ opened_by ev) @ opened_sessions evs)" using Cons.prems(4) by (simp add: opened_sessions_def)
  moreover have "distinct seen" using Cons.prems(4) by simp
  then have "bounded_pool (n + gave_up ev) p1" using step_bounded[OF Cons.prems(1,2,3) _ Cons.prems(5), of ev] one by simp
  ultimately have "bounded_pool (n + gave_up ev + sum_list (map gave_up evs)) (fst (spare_run cfg evs p1))"
    using Cons.IH[of "n + gave_up ev" p1 "seen @ opened_by ev"] c(1) Cons.prems(5) by simp
  then show ?case using one by (simp add: add.assoc case_prod_beta)
qed simp

text \<open>
  C32. Spares are bounded. Over any order of events, when every open that succeeds gives a new session: at most eight hosts have spares; and a host has at most \<open>tlsSpares\<close>
  spares and opens that will become one, plus at most one spare that is being replaced, as long as no waiting call gave up (each that did
  may put one session back).
\<close>

theorem spares_bounded:
  assumes "spare_run cfg evs new_spare_pool = (p, out)" and "distinct (opened_sessions evs)"
  shows "length (tp_spares p) \<le> 8 \<and> replaced p host \<le> 1
    \<and> spareCount host p \<le> sps_spares cfg + sum_list (map gave_up evs)
    \<and> length (list_of (tp_spares p) host) \<le> sps_spares cfg + sum_list (map gave_up evs) + 1"
proof -
  have start: "bounded_pool (sps_spares cfg) new_spare_pool" "pool_wf new_spare_pool" "reserve new_spare_pool \<subseteq># mset []"
    by (simp_all add: bounded_pool_def new_spare_pool_def live_def replaced_def queued_def opening_of_def list_of_def jsmap_get_def pool_wf_def reserve_def)
  have "bounded_pool (sps_spares cfg + sum_list (map gave_up evs)) p"
    using run_bounded[OF start, of evs cfg] assms by simp
  note d = bounded_poolD[OF this]
  have "length (list_of (tp_spares p) host) = live p host + replaced p host"
    using sum_length_filter_compl[of sp_superseded "list_of (tp_spares p) host"] by (simp add: live_def replaced_def)
  then show ?thesis using d(1) d(2)[of host] d(3)[of host] by (simp add: MAX_SPARE_HOSTS_def spareCount_def live_def)
qed

subsection \<open>A sample run\<close>

definition sample_spares :: spare_settings where
  "sample_spares = \<lparr>sps_spares = 2, sps_ttlMs = 30000\<rparr>"

definition sample_calls :: "spare_event list" where
  "sample_calls = [BackgroundAllowed (\<lambda>_. 0) 0, CallArrives 1 ''a'' 0 10, CallOpened 1 ''a'' 7 900 0 910, SpareOpened ''a'' 0 8 800 1800 100,
     CallArrives 2 ''a'' 0 2000, CallReleases 1 7]"

lemma sample_effects:
  "snd (spare_run sample_spares sample_calls new_spare_pool)
     = [CallOpens 1 ''a'', OpenStarted ''a'' 0, SessionGiven 1 7 PathInline, OpenStarted ''a'' 1, SessionGiven 2 8 PathSpare, TornDown 7]"
  "distinct (opened_sessions sample_calls)"
  by code_simp+

lemma spare_sample_run:
  "\<exists>p. spare_run sample_spares sample_calls new_spare_pool
     = (p, [CallOpens 1 ''a'', OpenStarted ''a'' 0, SessionGiven 1 7 PathInline, OpenStarted ''a'' 1, SessionGiven 2 8 PathSpare, TornDown 7])"
  using sample_effects(1) by (metis prod.collapse)

theorem session_serves_one_call_witness: "distinct [7, 8 :: nat] \<and> given_sessions (snd (spare_run sample_spares sample_calls new_spare_pool)) = [7, 8]"
proof -
  obtain p where run: "spare_run sample_spares sample_calls new_spare_pool
     = (p, [CallOpens 1 ''a'', OpenStarted ''a'' 0, SessionGiven 1 7 PathInline, OpenStarted ''a'' 1, SessionGiven 2 8 PathSpare, TornDown 7])"
    using spare_sample_run by blast
  from session_serves_one_call[OF run sample_effects(2), THEN conjunct1] show ?thesis unfolding sample_effects(1) by simp
qed

theorem spares_bounded_witness: "spareCount ''a'' (fst (spare_run sample_spares sample_calls new_spare_pool)) \<le> 2"
proof -
  have none: "sum_list (map gave_up sample_calls) = 0" by code_simp
  from spares_bounded[OF prod.collapse[symmetric] sample_effects(2), of sample_spares "''a''"] none show ?thesis by (simp add: sample_spares_def)
qed

end
