(* ===== verification/Tunnel_Sessions.thy ===== *)
theory Tunnel_Sessions
  imports Tunnel_Opens "HOL-Library.Multiset"
begin

section \<open>Shared TLS sessions\<close>

text \<open>
  The keep-alive mode of \<open>TlsPool\<close> in \<open>packages/anon-rpc-worker/src/tls/pool.ts\<close>: up to four sessions per host, each serving one call at a time
  until it is too old or has served enough calls. \<open>ks_held\<close> records which session, with its host, each call holds; what the pool reads from a session is a
  parameter of each event.
\<close>

definition MAX_KEEP_ALIVE_SESSIONS :: nat where
  "MAX_KEEP_ALIVE_SESSIONS = 4"

record pooled_session =
  pl_channel :: nat
  pl_idle :: bool

record session_pool =
  ks_sessions :: "(string, pooled_session list) jsmap"
  ks_held :: "(nat \<times> string \<times> nat) list"

record session_view =
  sv_reusable :: bool
  sv_calls :: nat
  sv_openedAt :: int

record keep_alive_settings =
  kas_keepAliveMs :: int
  kas_maxCalls :: nat

datatype session_effect =
    SharedGiven nat nat
  | SharedOpens nat string
  | SharedTorn nat
  | SharedTimer nat int

definition new_session_pool :: session_pool where
  "new_session_pool = \<lparr>ks_sessions = [], ks_held = []\<rparr>"

definition sessions_for :: "session_pool \<Rightarrow> string \<Rightarrow> pooled_session list" where
  "sessions_for s host = (case jsmap_get (ks_sessions s) host of None \<Rightarrow> [] | Some l \<Rightarrow> l)"

definition keepAliveUsable :: "keep_alive_settings \<Rightarrow> session_view \<Rightarrow> int \<Rightarrow> bool" where
  "keepAliveUsable cfg v now = (sv_reusable v \<and> sv_calls v < kas_maxCalls cfg \<and> now - sv_openedAt v < kas_keepAliveMs cfg)"

definition set_idle :: "nat \<Rightarrow> bool \<Rightarrow> pooled_session list \<Rightarrow> pooled_session list" where
  "set_idle channel idle = map (\<lambda>e. if pl_channel e = channel then e\<lparr>pl_idle := idle\<rparr> else e)"

text \<open>\<open>acquire\<close> up to its \<open>await\<close>, and after it.\<close>

definition shared_arrives ::
  "keep_alive_settings \<Rightarrow> (nat \<Rightarrow> session_view) \<Rightarrow> int \<Rightarrow> nat \<Rightarrow> string \<Rightarrow> session_pool \<Rightarrow> session_pool \<times> session_effect list" where
  "shared_arrives cfg view now caller host s =
     (case List.find (\<lambda>e. pl_idle e \<and> keepAliveUsable cfg (view (pl_channel e)) now) (sessions_for s host) of
        None \<Rightarrow> (s, [SharedOpens caller host])
      | Some e \<Rightarrow>
          (s\<lparr>ks_sessions := jsmap_set host (set_idle (pl_channel e) False (sessions_for s host)) (ks_sessions s),
             ks_held := ks_held s @ [(caller, host, pl_channel e)]\<rparr>,
           [SharedGiven caller (pl_channel e)]))"

definition shared_opened :: "nat \<Rightarrow> string \<Rightarrow> nat \<Rightarrow> session_pool \<Rightarrow> session_pool \<times> session_effect list" where
  "shared_opened caller host channel s =
     (let live = sessions_for s host; s1 = s\<lparr>ks_held := ks_held s @ [(caller, host, channel)]\<rparr> in
      (if length live < MAX_KEEP_ALIVE_SESSIONS
       then s1\<lparr>ks_sessions := jsmap_set host (live @ [\<lparr>pl_channel = channel, pl_idle = False\<rparr>]) (ks_sessions s)\<rparr> else s1,
       [SharedGiven caller channel]))"

definition retire_session :: "string \<Rightarrow> nat \<Rightarrow> session_pool \<Rightarrow> session_pool \<times> session_effect list" where
  "retire_session host channel s =
     ((case jsmap_get (ks_sessions s) host of
         None \<Rightarrow> s
       | Some pooled \<Rightarrow>
           (let rest = filter (\<lambda>e. pl_channel e \<noteq> channel) pooled in
            s\<lparr>ks_sessions := (if rest = [] then jsmap_delete host (ks_sessions s) else jsmap_set host rest (ks_sessions s))\<rparr>)),
      [SharedTorn channel])"

text \<open>\<open>release\<close>, for a session the call holds.\<close>

definition shared_released ::
  "keep_alive_settings \<Rightarrow> session_view \<Rightarrow> int \<Rightarrow> bool \<Rightarrow> nat \<Rightarrow> string \<Rightarrow> nat \<Rightarrow> session_pool \<Rightarrow> session_pool \<times> session_effect list" where
  "shared_released cfg v now ok caller host channel s =
     (if (caller, host, channel) \<notin> set (ks_held s) then (s, [])
      else
        (let s1 = s\<lparr>ks_held := remove1 (caller, host, channel) (ks_held s)\<rparr> in
         if ok \<and> list_ex (\<lambda>e. pl_channel e = channel) (sessions_for s host) \<and> keepAliveUsable cfg v now
         then (s1\<lparr>ks_sessions := jsmap_set host (set_idle channel True (sessions_for s host)) (ks_sessions s)\<rparr>,
               [SharedTimer channel (sv_openedAt v + kas_keepAliveMs cfg - now)])
         else retire_session host channel s1))"

text \<open>The timer set by a release.\<close>

definition keep_alive_ends :: "string \<Rightarrow> nat \<Rightarrow> session_pool \<Rightarrow> session_pool \<times> session_effect list" where
  "keep_alive_ends host channel s =
     (if list_ex (\<lambda>e. pl_channel e = channel \<and> pl_idle e) (sessions_for s host) then retire_session host channel s else (s, []))"

text \<open>\<open>close\<close>: also the sessions in use.\<close>

definition close_sessions :: "session_pool \<Rightarrow> session_pool \<times> session_effect list" where
  "close_sessions s = (s\<lparr>ks_sessions := []\<rparr>, concat (map (\<lambda>(_, pooled). map (\<lambda>e. SharedTorn (pl_channel e)) pooled) (ks_sessions s)))"

text \<open>The events until the pool closes.\<close>

datatype shared_event =
    SharedArrives "nat \<Rightarrow> session_view" int nat string
  | SharedOpened nat string nat
  | SharedReleased session_view int bool nat string nat
  | KeepAliveEnds string nat

fun shared_step :: "keep_alive_settings \<Rightarrow> shared_event \<Rightarrow> session_pool \<Rightarrow> session_pool \<times> session_effect list" where
  "shared_step cfg (SharedArrives view now caller host) s = shared_arrives cfg view now caller host s"
| "shared_step cfg (SharedOpened caller host channel) s = shared_opened caller host channel s"
| "shared_step cfg (SharedReleased v now ok caller host channel) s = shared_released cfg v now ok caller host channel s"
| "shared_step cfg (KeepAliveEnds host channel) s = keep_alive_ends host channel s"

fun shared_run :: "keep_alive_settings \<Rightarrow> shared_event list \<Rightarrow> session_pool \<Rightarrow> session_pool \<times> session_effect list" where
  "shared_run cfg [] s = (s, [])"
| "shared_run cfg (ev # evs) s =
     (let (s1, out1) = shared_step cfg ev s; (s2, out2) = shared_run cfg evs s1 in (s2, out1 @ out2))"

subsection \<open>One call at a time\<close>

fun session_opened_by :: "shared_event \<Rightarrow> (string \<times> nat) list" where
  "session_opened_by (SharedOpened _ host channel) = [(host, channel)]"
| "session_opened_by _ = []"

definition shared_openings :: "shared_event list \<Rightarrow> (string \<times> nat) list" where
  "shared_openings evs = concat (map session_opened_by evs)"

fun shared_torn_of :: "session_effect \<Rightarrow> nat list" where
  "shared_torn_of (SharedTorn channel) = [channel]"
| "shared_torn_of _ = []"

definition shared_torn :: "session_effect list \<Rightarrow> nat list" where
  "shared_torn out = concat (map shared_torn_of out)"

definition in_use :: "session_pool \<Rightarrow> nat list" where
  "in_use s = map (\<lambda>(_, _, channel). channel) (ks_held s)"

definition shared_ok :: "(string \<times> nat) list \<Rightarrow> nat list \<Rightarrow> session_pool \<Rightarrow> bool" where
  "shared_ok seen torn s =
     ((\<forall>h. length (sessions_for s h) \<le> MAX_KEEP_ALIVE_SESSIONS)
      \<and> (\<forall>h e. e \<in> set (sessions_for s h) \<longrightarrow> (h, pl_channel e) \<in> set seen \<and> pl_channel e \<notin> set torn \<and> (pl_idle e \<longrightarrow> pl_channel e \<notin> set (in_use s)))
      \<and> (\<forall>c h channel. (c, h, channel) \<in> set (ks_held s) \<longrightarrow> (h, channel) \<in> set seen \<and> channel \<notin> set torn)
      \<and> distinct (in_use s) \<and> set torn \<subseteq> snd ` set seen)"

lemma shared_okD:
  assumes "shared_ok seen torn s"
  shows "length (sessions_for s h) \<le> MAX_KEEP_ALIVE_SESSIONS"
    "e \<in> set (sessions_for s h) \<Longrightarrow> (h, pl_channel e) \<in> set seen \<and> pl_channel e \<notin> set torn"
    "e \<in> set (sessions_for s h) \<Longrightarrow> pl_idle e \<Longrightarrow> pl_channel e \<notin> set (in_use s)"
    "(c, h, channel) \<in> set (ks_held s) \<Longrightarrow> (h, channel) \<in> set seen \<and> channel \<notin> set torn"
    "distinct (in_use s)" "set torn \<subseteq> snd ` set seen"
  using assms unfolding shared_ok_def by blast+

lemma shared_okI:
  assumes "\<And>h. length (sessions_for s h) \<le> MAX_KEEP_ALIVE_SESSIONS"
    "\<And>h e. e \<in> set (sessions_for s h) \<Longrightarrow> (h, pl_channel e) \<in> set seen"
    "\<And>h e. e \<in> set (sessions_for s h) \<Longrightarrow> pl_channel e \<notin> set torn"
    "\<And>h e. e \<in> set (sessions_for s h) \<Longrightarrow> pl_idle e \<Longrightarrow> pl_channel e \<notin> set (in_use s)"
    "\<And>c h channel. (c, h, channel) \<in> set (ks_held s) \<Longrightarrow> (h, channel) \<in> set seen"
    "\<And>c h channel. (c, h, channel) \<in> set (ks_held s) \<Longrightarrow> channel \<notin> set torn"
    "distinct (in_use s)" "set torn \<subseteq> snd ` set seen"
  shows "shared_ok seen torn s"
  using assms unfolding shared_ok_def by blast

lemma sessions_for_set:
  "sessions_for (s\<lparr>ks_sessions := jsmap_set host l (ks_sessions s')\<rparr>) h = (if h = host then l else sessions_for s' h)"
  "sessions_for (s\<lparr>ks_sessions := jsmap_delete host (ks_sessions s')\<rparr>) h = (if h = host then [] else sessions_for s' h)"
  by (simp_all add: sessions_for_def jsmap_get_def jsmap_set_map_of jsmap_delete_map_of)

lemma one_host: "distinct (map snd seen) \<Longrightarrow> (h, x) \<in> set seen \<Longrightarrow> (h', x) \<in> set seen \<Longrightarrow> h = h'"
  by (metis eq_snd_iff inj_on_contraD distinct_map prod.inject snd_conv)

lemma set_idle_mem: "e \<in> set (set_idle channel i l) \<Longrightarrow> \<exists>e' \<in> set l. pl_channel e' = pl_channel e \<and> (pl_channel e = channel \<and> pl_idle e = i \<or> pl_channel e \<noteq> channel \<and> e = e')"
  by (auto simp: set_idle_def split: if_splits)

lemma length_set_idle [simp]: "length (set_idle channel i l) = length l"
  by (simp add: set_idle_def)

lemma arrives_ok:
  assumes "shared_ok seen torn s" "distinct (map snd seen)"
  shows "shared_ok seen torn (fst (shared_arrives cfg view now caller host s))"
proof (cases "List.find (\<lambda>e. pl_idle e \<and> keepAliveUsable cfg (view (pl_channel e)) now) (sessions_for s host)")
  case None
  then show ?thesis using assms(1) by (simp add: shared_arrives_def)
next
  case (Some e)
  then have e: "e \<in> set (sessions_for s host)" "pl_idle e" by (auto simp: find_Some_iff)
  let ?ch = "pl_channel e"
  let ?s = "s\<lparr>ks_sessions := jsmap_set host (set_idle ?ch False (sessions_for s host)) (ks_sessions s), ks_held := ks_held s @ [(caller, host, ?ch)]\<rparr>"
  note d = shared_okD[OF assms(1)]
  have lists: "sessions_for ?s h = (if h = host then set_idle ?ch False (sessions_for s host) else sessions_for s h)" for h
    by (simp add: sessions_for_def jsmap_get_def jsmap_set_map_of)
  have used: "in_use ?s = in_use s @ [?ch]" by (simp add: in_use_def)
  have old: "\<exists>e1 \<in> set (sessions_for s h). pl_channel e1 = pl_channel e' \<and> (pl_idle e' \<longrightarrow> pl_idle e1 \<and> pl_channel e' \<noteq> ?ch)"
    if m: "e' \<in> set (sessions_for ?s h)" for h e'
  proof (cases "h = host")
    case True
    then show ?thesis using m lists[of h] set_idle_mem[of e' ?ch False "sessions_for s host"] by auto
  next
    case False
    then have m': "e' \<in> set (sessions_for s h)" using m lists[of h] by simp
    moreover have "pl_channel e' \<noteq> ?ch" using one_host[OF assms(2)] d(2)[OF m'] d(2)[OF e(1)] False by metis
    ultimately show ?thesis by blast
  qed
  have "shared_ok seen torn ?s"
  proof (rule shared_okI)
    show "length (sessions_for ?s h) \<le> MAX_KEEP_ALIVE_SESSIONS" for h using d(1)[of h] d(1)[of host] lists[of h] by (cases "h = host") simp_all
    show "(h, pl_channel e') \<in> set seen" "pl_channel e' \<notin> set torn" if "e' \<in> set (sessions_for ?s h)" for h e'
      using old[OF that] d(2) by metis+
    show "pl_channel e' \<notin> set (in_use ?s)" if "e' \<in> set (sessions_for ?s h)" "pl_idle e'" for h e'
      using old[OF that(1)] that(2) d(3) used by (metis Un_iff empty_iff empty_set insert_iff list.simps(15) set_append)
    show "(h, channel) \<in> set seen" "channel \<notin> set torn" if "(c, h, channel) \<in> set (ks_held ?s)" for c h channel
      using that d(4)[of c h channel] d(2)[OF e(1)] by auto
    show "distinct (in_use ?s)" using used d(5) d(3)[OF e] by simp
    show "set torn \<subseteq> snd ` set seen" by (rule d(6))
  qed
  then show ?thesis using Some by (simp add: shared_arrives_def)
qed

lemma opened_ok:
  assumes "shared_ok seen torn s" "channel \<notin> snd ` set seen"
  shows "shared_ok (seen @ [(host, channel)]) torn (fst (shared_opened caller host channel s))"
proof -
  let ?s = "fst (shared_opened caller host channel s)"
  note d = shared_okD[OF assms(1)]
  have used: "in_use ?s = in_use s @ [channel]" by (simp add: shared_opened_def Let_def in_use_def)
  have held: "ks_held ?s = ks_held s @ [(caller, host, channel)]" by (simp add: shared_opened_def Let_def)
  have lists: "sessions_for ?s h = (if h = host \<and> length (sessions_for s host) < MAX_KEEP_ALIVE_SESSIONS
      then sessions_for s host @ [\<lparr>pl_channel = channel, pl_idle = False\<rparr>] else sessions_for s h)" for h
    by (simp add: shared_opened_def Let_def sessions_for_set) (simp add: sessions_for_def)
  have mem: "e \<in> set (sessions_for s h) \<or> h = host \<and> e = \<lparr>pl_channel = channel, pl_idle = False\<rparr>" if "e \<in> set (sessions_for ?s h)" for h e
    using that lists[of h] by (auto split: if_splits)
  have fresh: "(h, channel) \<notin> set seen" for h using assms(2) by force
  have notheld: "channel \<notin> set (in_use s)" using d(4) fresh by (fastforce simp: in_use_def)
  show ?thesis
  proof (rule shared_okI)
    show "length (sessions_for ?s h) \<le> MAX_KEEP_ALIVE_SESSIONS" for h using d(1)[of h] lists[of h] by simp
    show "(h, pl_channel e) \<in> set (seen @ [(host, channel)])" if "e \<in> set (sessions_for ?s h)" for h e using mem[OF that] d(2)[of e h] by auto
    show "pl_channel e \<notin> set torn" if "e \<in> set (sessions_for ?s h)" for h e using mem[OF that] d(2)[of e h] d(6) assms(2) by auto
    show "pl_channel e \<notin> set (in_use ?s)" if "e \<in> set (sessions_for ?s h)" "pl_idle e" for h e
      using mem[OF that(1)] that(2) d(3)[of e h] d(2)[of e h] fresh[of h] used by auto
    show "(h, ch) \<in> set (seen @ [(host, channel)])" "ch \<notin> set torn" if "(c, h, ch) \<in> set (ks_held ?s)" for c h ch
      using that held d(4)[of c h ch] d(6) assms(2) by auto
    show "distinct (in_use ?s)" using used d(5) notheld by simp
    show "set torn \<subseteq> snd ` set (seen @ [(host, channel)])" using d(6) by auto
  qed
qed

lemma retire_lists: "sessions_for (fst (retire_session host channel s)) h
    = (if h = host then filter (\<lambda>e. pl_channel e \<noteq> channel) (sessions_for s h) else sessions_for s h)"
proof (cases "jsmap_get (ks_sessions s) host")
  case None
  then show ?thesis by (simp add: retire_session_def sessions_for_def)
next
  case (Some pooled)
  then have p: "sessions_for s host = pooled" by (simp add: sessions_for_def)
  show ?thesis
    by (cases "h = host"; cases "filter (\<lambda>e. pl_channel e \<noteq> channel) pooled = []")
      (simp_all only: retire_session_def Some option.case Let_def fst_conv if_True if_False simp_thms sessions_for_set p)
qed

lemma retire_ok:
  assumes "shared_ok seen torn s" "distinct (map snd seen)" "(host, channel) \<in> set seen" "channel \<notin> set (in_use s)"
  shows "shared_ok seen (torn @ [channel]) (fst (retire_session host channel s))"
proof -
  let ?s = "fst (retire_session host channel s)"
  note d = shared_okD[OF assms(1)]
  have held: "ks_held ?s = ks_held s" "in_use ?s = in_use s" by (simp_all add: retire_session_def in_use_def Let_def split: option.split)
  have mem: "e \<in> set (sessions_for s h) \<and> pl_channel e \<noteq> channel" if "e \<in> set (sessions_for ?s h)" for h e
  proof (cases "h = host")
    case True
    then show ?thesis using that retire_lists[of host channel s h] by simp
  next
    case False
    then have "e \<in> set (sessions_for s h)" using that retire_lists[of host channel s h] by simp
    then show ?thesis using d(2) one_host[OF assms(2,3)] False by metis
  qed
  show ?thesis
  proof (rule shared_okI)
    show "length (sessions_for ?s h) \<le> MAX_KEEP_ALIVE_SESSIONS" for h
      using le_trans[OF length_filter_le d(1)[of h], of "\<lambda>e. pl_channel e \<noteq> channel"] d(1)[of h] retire_lists[of host channel s h] by (cases "h = host") simp_all
    show "(h, pl_channel e) \<in> set seen" "pl_channel e \<notin> set (torn @ [channel])" if "e \<in> set (sessions_for ?s h)" for h e
      using mem[OF that] d(2)[of e h] by auto
    show "pl_channel e \<notin> set (in_use ?s)" if "e \<in> set (sessions_for ?s h)" "pl_idle e" for h e
      using mem[OF that(1)] that(2) d(3)[of e h] held by simp
    show "(h, ch) \<in> set seen" if "(c, h, ch) \<in> set (ks_held ?s)" for c h ch using that held d(4)[of c h ch] by simp
    show "ch \<notin> set (torn @ [channel])" if "(c, h, ch) \<in> set (ks_held ?s)" for c h ch
      using that held(1) d(4)[of c h ch] assms(4) by (force simp: in_use_def)
    show "distinct (in_use ?s)" using held d(5) by simp
    show "set (torn @ [channel]) \<subseteq> snd ` set seen" using d(6) assms(3) by force
  qed
qed

lemma shared_ok_more: "shared_ok seen torn s \<Longrightarrow> shared_ok (seen @ more_seen) torn s"
  unfolding shared_ok_def by fastforce

lemma drop_held:
  assumes "shared_ok seen torn s" "(caller, host, channel) \<in> set (ks_held s)"
  shows "shared_ok seen torn (s\<lparr>ks_held := remove1 (caller, host, channel) (ks_held s)\<rparr>)"
    "channel \<notin> set (in_use (s\<lparr>ks_held := remove1 (caller, host, channel) (ks_held s)\<rparr>))"
proof -
  let ?s = "s\<lparr>ks_held := remove1 (caller, host, channel) (ks_held s)\<rparr>"
  note d = shared_okD[OF assms(1)]
  have "mset (remove1 (caller, host, channel) (ks_held s)) + {#(caller, host, channel)#} = mset (ks_held s)" using assms(2) by simp
  from arg_cong[OF this, of "image_mset (\<lambda>(_, _, channel). channel)"]
  have "mset (in_use ?s) + {#channel#} = mset (in_use s)" by (simp add: in_use_def del: mset_remove1)
  then have "mset (in_use s) = mset (channel # in_use ?s)" by simp
  then have dist: "distinct (channel # in_use ?s)" using d(5) mset_eq_imp_distinct_iff by metis
  then show "channel \<notin> set (in_use ?s)" by simp
  have sub: "set (ks_held ?s) \<subseteq> set (ks_held s)" by (simp add: set_remove1_subset)
  then have subu: "set (in_use ?s) \<subseteq> set (in_use s)" unfolding in_use_def set_map by (rule image_mono)
  have same: "sessions_for ?s h = sessions_for s h" for h by (simp add: sessions_for_def)
  show "shared_ok seen torn ?s"
    by (rule shared_okI) (use d dist sub subu same in \<open>auto\<close>)
qed

lemma released_ok:
  assumes "shared_ok seen torn s" "distinct (map snd seen)"
  shows "shared_ok seen (torn @ shared_torn (snd (shared_released cfg v now ok caller host channel s)))
    (fst (shared_released cfg v now ok caller host channel s))"
proof (cases "(caller, host, channel) \<in> set (ks_held s)")
  case False
  then show ?thesis using assms(1) by (simp add: shared_released_def shared_torn_def)
next
  case True
  let ?s1 = "s\<lparr>ks_held := remove1 (caller, host, channel) (ks_held s)\<rparr>"
  note d1 = drop_held[OF assms(1) True]
  have seen: "(host, channel) \<in> set seen" using shared_okD(4)[OF assms(1) True] by simp
  show ?thesis
  proof (cases "ok \<and> list_ex (\<lambda>e. pl_channel e = channel) (sessions_for s host) \<and> keepAliveUsable cfg v now")
    case keep: True
    let ?s = "?s1\<lparr>ks_sessions := jsmap_set host (set_idle channel True (sessions_for s host)) (ks_sessions s)\<rparr>"
    note d = shared_okD[OF d1(1)]
    have lists: "sessions_for ?s h = (if h = host then set_idle channel True (sessions_for ?s1 host) else sessions_for ?s1 h)" for h
      by (simp add: sessions_for_def jsmap_get_def jsmap_set_map_of)
    have used: "in_use ?s = in_use ?s1" by (simp add: in_use_def)
    have old: "\<exists>e1 \<in> set (sessions_for ?s1 h). pl_channel e1 = pl_channel e \<and> (pl_idle e1 = pl_idle e \<or> pl_channel e = channel)"
      if "e \<in> set (sessions_for ?s h)" for h e
      using that lists[of h] set_idle_mem[of e channel True "sessions_for ?s1 host"] by (cases "h = host") auto
    have "shared_ok seen torn ?s"
    proof (rule shared_okI)
      show "length (sessions_for ?s h) \<le> MAX_KEEP_ALIVE_SESSIONS" for h using d(1)[of h] lists[of h] by (cases "h = host") simp_all
      show "(h, pl_channel e) \<in> set seen" "pl_channel e \<notin> set torn" if "e \<in> set (sessions_for ?s h)" for h e using old[OF that] d(2) by metis+
      show "pl_channel e \<notin> set (in_use ?s)" if "e \<in> set (sessions_for ?s h)" "pl_idle e" for h e
        using old[OF that(1)] that(2) d(3) d1(2) used by metis
      show "(h, ch) \<in> set seen" "ch \<notin> set torn" if "(c, h, ch) \<in> set (ks_held ?s)" for c h ch using that d(4)[of c h ch] by simp_all
      show "distinct (in_use ?s)" using used d(5) by simp
      show "set torn \<subseteq> snd ` set seen" by (rule d(6))
    qed
    then show ?thesis using keep True by (simp add: shared_released_def shared_torn_def Let_def)
  next
    case retire: False
    have "shared_released cfg v now ok caller host channel s = retire_session host channel ?s1" using retire True by (auto simp: shared_released_def Let_def)
    moreover have "shared_torn (snd (retire_session host channel ?s1)) = [channel]" by (simp add: retire_session_def shared_torn_def)
    ultimately show ?thesis using retire_ok[OF d1(1) assms(2) seen d1(2)] by simp
  qed
qed

lemma ends_ok:
  assumes "shared_ok seen torn s" "distinct (map snd seen)"
  shows "shared_ok seen (torn @ shared_torn (snd (keep_alive_ends host channel s))) (fst (keep_alive_ends host channel s))"
proof (cases "list_ex (\<lambda>e. pl_channel e = channel \<and> pl_idle e) (sessions_for s host)")
  case True
  then obtain e where e: "e \<in> set (sessions_for s host)" "pl_channel e = channel" "pl_idle e" by (auto simp: list_ex_iff)
  have "shared_torn (snd (retire_session host channel s)) = [channel]" by (simp add: retire_session_def shared_torn_def)
  then show ?thesis using True retire_ok[OF assms, of host channel] shared_okD(2,3)[OF assms(1) e(1)] e by (simp add: keep_alive_ends_def)
next
  case False
  then show ?thesis using assms(1) by (simp add: keep_alive_ends_def shared_torn_def)
qed

lemma shared_step_ok:
  assumes "shared_ok seen torn s" "distinct (map snd (seen @ session_opened_by ev))"
  shows "shared_ok (seen @ session_opened_by ev) (torn @ shared_torn (snd (shared_step cfg ev s))) (fst (shared_step cfg ev s))"
proof (cases ev)
  case (SharedArrives view now caller host)
  have "shared_torn (snd (shared_arrives cfg view now caller host s)) = []" by (simp add: shared_arrives_def shared_torn_def split: option.split)
  then show ?thesis using SharedArrives arrives_ok[OF assms(1)] assms(2) by simp
next
  case (SharedOpened caller host channel)
  have "shared_torn (snd (shared_opened caller host channel s)) = []" by (simp add: shared_opened_def shared_torn_def Let_def)
  then show ?thesis using SharedOpened opened_ok[OF assms(1), of channel] assms(2) by auto
qed (use assms released_ok ends_ok in auto)

lemma shared_run_ok:
  "shared_ok seen torn s \<Longrightarrow> distinct (map snd (seen @ shared_openings evs)) \<Longrightarrow>
   shared_ok (seen @ shared_openings evs) (torn @ shared_torn (snd (shared_run cfg evs s))) (fst (shared_run cfg evs s))"
proof (induction evs arbitrary: seen torn s)
  case (Cons ev evs)
  obtain s1 out1 where one: "shared_step cfg ev s = (s1, out1)" by fastforce
  have "distinct (map snd (seen @ session_opened_by ev))" using Cons.prems(2) by (simp add: shared_openings_def) blast
  then have "shared_ok (seen @ session_opened_by ev) (torn @ shared_torn out1) s1" using shared_step_ok[OF Cons.prems(1), of ev cfg] one by simp
  from Cons.IH[OF this] show ?case using Cons.prems(2) one by (simp add: shared_openings_def shared_torn_def case_prod_beta)
qed (simp add: shared_openings_def shared_torn_def)

text \<open>
  C33. A shared session serves one call at a time. In keep-alive mode, until the pool closes, over any order of calls, opens, releases and timers, when every open gives a new session: no session
  is held by two calls; a session marked idle is held by none; a session that was torn down is neither held nor kept, so it is never used
  again; and a host keeps at most four sessions.
\<close>

theorem shared_session_one_call:
  assumes "shared_run cfg evs new_session_pool = (s, out)" and "distinct (map snd (shared_openings evs))"
  shows "distinct (in_use s) \<and> length (sessions_for s host) \<le> 4
    \<and> (\<forall>e \<in> set (sessions_for s host). pl_channel e \<notin> set (shared_torn out) \<and> (pl_idle e \<longrightarrow> pl_channel e \<notin> set (in_use s)))
    \<and> set (in_use s) \<inter> set (shared_torn out) = {}"
proof -
  have "shared_ok [] [] new_session_pool"
    by (simp add: shared_ok_def new_session_pool_def sessions_for_def in_use_def jsmap_get_def)
  from shared_run_ok[OF this, of evs cfg] have ok: "shared_ok (shared_openings evs) (shared_torn out) s" using assms by simp
  note d = shared_okD[OF ok]
  have "set (in_use s) \<inter> set (shared_torn out) = {}" using d(4) by (fastforce simp: in_use_def)
  then show ?thesis using d(1,2,3,5) by (auto simp: MAX_KEEP_ALIVE_SESSIONS_def)
qed

definition young :: session_view where
  "young = \<lparr>sv_reusable = True, sv_calls = 1, sv_openedAt = 0\<rparr>"

definition shared_calls :: "shared_event list" where
  "shared_calls = [SharedArrives (\<lambda>_. young) 0 1 ''a'', SharedOpened 1 ''a'' 7, SharedReleased young 10 True 1 ''a'' 7, SharedArrives (\<lambda>_. young) 20 2 ''a'']"

lemma shared_sample:
  "in_use (fst (shared_run \<lparr>kas_keepAliveMs = 1000, kas_maxCalls = 5\<rparr> shared_calls new_session_pool)) = [7]"
  "distinct (map snd (shared_openings shared_calls))"
  by code_simp+

theorem shared_session_one_call_witness:
  "in_use (fst (shared_run \<lparr>kas_keepAliveMs = 1000, kas_maxCalls = 5\<rparr> shared_calls new_session_pool)) = [7] \<and> distinct [7 :: nat]"
  using shared_session_one_call[OF prod.collapse[symmetric] shared_sample(2), of "\<lparr>kas_keepAliveMs = 1000, kas_maxCalls = 5\<rparr>"] shared_sample(1) by simp

end
