(* ===== verification/Spec2Isabelle.thy ===== *)
theory Spec2Isabelle
  imports Nox_Prelude Js_Text Utils Bincode_Codec Bincode_Messages Bincode_Outcomes Http_Response
    Gf256 Gf_Matrix Reed_Solomon Fragmentation Reassembly Js_Settings Resend Surb_Pool Replenishment
    Reply_Claims Claim_Safety Claim_Progress Js_Json Route_Selection Topology Topology_Verified
    Kps_Text Kps_Http1 Kps_Address Kps_Framing Kps_Naming Kps_Pool Kps_Pool_Safety
    Claim_Transport Response_Socket Client_Routes Client_Send Client_Send_Safety
    Kps_Pinned Kps_Removals Kps_Bootstrap Kps_Discovery Kps_Chain_Check Kps_Chain_Safety
    Kps_Chain_Verified Client_Requests Client_Request_Safety Client_Replies
    Tunnel Tunnel_Stream Tunnel_Exchange Tunnel_Safety Worker_Rpc Worker_Fetch Worker_Fields
    Worker_Transport Worker_Safety Worker_Answers Tunnel_Opens Tunnel_Spares Tunnel_Spare_Safety Tunnel_Sessions
begin

text \<open>
  \<^bold>\<open>A verification development of the nox client and its anon-rpc worker.\<close>

  The nox client (\<open>packages/nox-client/src\<close>) sends requests through a mixnet and collects the replies. A request is encoded in the wire format of
  \<open>bincode.ts\<close> and wrapped in a packet together with single-use reply blocks from the pool of
  \<open>surb_pool.ts\<close> (more are sent by \<open>replenishment.ts\<close> on demand). The exit splits its answer into
  fragments, with Reed-Solomon parity, one fragment per reply block. The scheduler of
  \<open>reply_claims.ts\<close> claims the waiting replies from the entries, the pool opens them, the
  reassembler of \<open>fragmentation.ts\<close> puts the fragments together, and the decoders of
  \<open>bincode.ts\<close> and \<open>http_response.ts\<close> read the answer; \<open>resend.ts\<close> decides when a request is sent again.
  The worker (\<open>packages/anon-rpc-worker/src\<close>) answers a wallet's fetch calls over the client: a call is validated and followed through
  redirects (\<open>fetch-map.ts\<close>), each hop goes to an exit in plaintext or through a TLS tunnel (\<open>tls/transport.ts\<close>,
  \<open>tls/tunnel.ts\<close>), and answers that cannot change are kept (\<open>local-answers.ts\<close>).

  \<^bold>\<open>Conventions.\<close> A JavaScript \<open>Map\<close> is an association list in insertion order (\<open>jsmap\<close>), a \<open>Set\<close>
  a list without repetitions, a \<open>Uint8Array\<close> a list of 8-bit words. A \<open>bigint\<close> and an integral
  \<open>number\<close> are \<open>int\<close> or \<open>nat\<close>; where the code masks or wraps, the model does. A string that is
  text of the protocol is a list of UTF-16 code units (\<open>js_string\<close>), an identifier or URL a \<open>string\<close>.
  A function that throws returns \<open>nox_error + 'a\<close>; objects are records passed and returned. The
  clock, the random source, the WASM module and the host's callbacks are parameters.

  \<^bold>\<open>Theories.\<close>
  \<^item> \<open>Nox_Prelude\<close>: errors (\<open>types.ts\<close>), results, \<open>Map\<close> with the interface \<open>keyed_store\<close>, little-endian bytes, \<open>concatBytes\<close>.
  \<^item> \<open>Js_Text\<close>: UTF-16 strings, \<open>TextEncoder\<close> and \<open>TextDecoder\<close>, rounding of \<open>Number(bigint)\<close>.
  \<^item> \<open>Utils\<close>: \<open>utils.ts\<close>, hexadecimal and rejection sampling.
  \<^item> \<open>Bincode_Codec\<close>, \<open>Bincode_Messages\<close>, \<open>Bincode_Outcomes\<close>: \<open>bincode.ts\<close>. The interface
    \<open>wire_codec\<close> (a writer, a reader, a layout and the values it covers) is interpreted for every message type; the round
    trips, the refinement of the byte layout and canonicity of accepted bytes follow from it.
  \<^item> \<open>Http_Response\<close>: \<open>http_response.ts\<close>, the exit's HTTP replies; every error is the documented one.
  \<^item> \<open>Gf256\<close>, \<open>Gf_Matrix\<close>, \<open>Reed_Solomon\<close>: the erasure decoder of \<open>fragmentation.ts\<close>. The log tables
    make GF(256) a field (an instance of the library's class), Gauss-Jordan decides invertibility, and any
    \<open>d\<close> of at most 256 shards of a codeword give the data back.
  \<^item> \<open>Fragmentation\<close>, \<open>Reassembly\<close>: the \<open>Reassembler\<close> class. Reachable states (an inductive
    predicate over all calls) account exactly for the buffered bytes and keep the limits, up to one fragment that is over the byte limit by itself;
    delivery is independent of order.
  \<^item> \<open>Js_Settings\<close>, \<open>Resend\<close>: validated settings (interface \<open>settings_check\<close>, interpreted for the resend
    policy, the claim settings and the KPS transport settings) and the latency tracker, refined to \<open>the last 64 samples\<close>.
  \<^item> \<open>Surb_Pool\<close>, \<open>Replenishment\<close>: the pool of reply blocks and its refill.
  \<^item> \<open>Reply_Claims\<close>, \<open>Claim_Safety\<close>, \<open>Claim_Progress\<close>: \<open>reply_claims.ts\<close>, the claim scheduler with its asynchronous claim
    split at the \<open>await\<close>; its invariant over any interleaving, what a claim asks for, and the report of lost replies.
  \<^item> \<open>Js_Json\<close>, \<open>Topology\<close>, \<open>Topology_Verified\<close>: parsed JSON values, \<open>topology.ts\<close> and \<open>seeder.ts\<close>; which documents are accepted and
    what the check against the registry establishes.
  \<^item> \<open>Route_Selection\<close>, \<open>Client_Routes\<close>: \<open>selectRoute\<close> and its helpers; the route planning of \<open>client.ts\<close> for calls, resends and tunnels.
  \<^item> \<open>Client_Send\<close>, \<open>Client_Send_Safety\<close>: \<open>_sendWithRetry\<close>, the handlers of one call over any order of callbacks. A call with retry mode \<open>none\<close>
    is delivered at most once, a version 2 call stays version 2, and every call settles.
  \<^item> \<open>Client_Requests\<close>, \<open>Client_Request_Safety\<close>, \<open>Client_Replies\<close>: one copy of a call from its packets to its settlement (\<open>_sendOnRoute\<close>,
    \<open>tunnelSend\<close>, \<open>_handleResponseItem\<close>, \<open>_handleFragment\<close>, \<open>_handleNeedMoreSurbs\<close>, \<open>_checkBurstStalls\<close>, \<open>disconnect\<close>), composed of the pool,
    the reassembler, the replenishment and the codec. Over any order of events every promise settles at most once, replies
    are the request's own and within its limit, and bursts of reply blocks are bounded and spaced.
  \<^item> \<open>Claim_Transport\<close>, \<open>Response_Socket\<close>: \<open>transport.ts\<close>, packet posts and claims in their three formats; the WebSocket for pushed
    replies over any order of socket events.
  \<^item> \<open>Kps_Text\<close>, \<open>Kps_Http1\<close>, \<open>Kps_Framing\<close>: \<open>kps/http1.ts\<close>. The parsed response does not depend on how its bytes were cut (one
    error tells how many bytes it had seen), and a header
    value cannot split a request.
  \<^item> \<open>Kps_Address\<close>, \<open>Kps_Naming\<close>: \<open>kps/address.ts\<close>, addresses with their IPv6 literals, ports and certificate hashes.
  \<^item> \<open>Kps_Pool\<close>, \<open>Kps_Pool_Safety\<close>: the connection pool of \<open>kps/transport.ts\<close>: dials, cooldown, stream slots, warm-up pacing.
  \<^item> \<open>Kps_Pinned\<close>, \<open>Kps_Removals\<close>: \<open>kps/pinned.ts\<close>, the membership shipped with a release and the rule that served documents may only remove
    members, and only when they agree.
  \<^item> \<open>Kps_Bootstrap\<close>: \<open>kps/bootstrap.ts\<close>, the check of a discovery bootstrap.
  \<^item> \<open>Kps_Discovery\<close>, \<open>Kps_Chain_Check\<close>, \<open>Kps_Chain_Safety\<close>, \<open>Kps_Chain_Verified\<close>: \<open>kps/discovery.ts\<close>, reads of the registry
    through pairs of exits and providers. A verified outcome needs two pairs that share neither and give the same answer;
    answers agree exactly when they decode to the same members; the membership keeps the floor of the snapshot.
  \<^item> \<open>Tunnel\<close>, \<open>Tunnel_Stream\<close>, \<open>Tunnel_Exchange\<close>, \<open>Tunnel_Safety\<close>: \<open>tls/tunnel.ts\<close>, one tunnel through one exit. The closures of an
    exchange share a record; parts, timers, failed uploads and aborts are events in any order. TLS is handed a prefix of the exit's
    stream, every copy of an exchange carries the same bytes, and an exchange settles once.
  \<^item> \<open>Tunnel_Opens\<close>, \<open>Tunnel_Spares\<close>, \<open>Tunnel_Spare_Safety\<close>, \<open>Tunnel_Sessions\<close>: \<open>tls/pool.ts\<close>, the exits a session opens through (all
    opens of a pool share the skipped exits), the spares of per-call mode and the shared sessions of keep-alive mode, over any order of events. A session serves one call at a time,
    and spares, shared sessions and attempts are bounded.
  \<^item> \<open>Worker_Rpc\<close>: \<open>jsonrpc.ts\<close>, how a request is sized and whether it may be resent.
  \<^item> \<open>Worker_Fetch\<close>, \<open>Worker_Fields\<close>: \<open>fetch-map.ts\<close> and \<open>errors.ts\<close>, from the caller's arguments to the reply; what a prepared request and a
    finished response can contain.
  \<^item> \<open>Worker_Transport\<close>, \<open>Worker_Safety\<close>: \<open>tls/transport.ts\<close>, tunnel or exit for each hop; a call on a tunnel stays on tunnels, a write is
    repeated only when the exit proved it was not written.
  \<^item> \<open>Worker_Answers\<close>: \<open>local-answers.ts\<close>; what is served was answered twice over the mixnet.

  \<^bold>\<open>Termination.\<close> Loops are structural recursions or carry a measure (eviction, squaring, batching).
  Loops that wait for the random source are \<open>partial_function (option)\<close>; that they return is proved for every source that
  produces an acceptable sample. A call sends at most 2 + \<open>transportResends\<close> copies. A chain check runs over at most three
  pairings of two reads each, a structural recursion over the list of pairings. The loop over held tunnel parts removes one
  in every pass that goes on; a fetch call makes at most six hops and a tunnel hop at most two attempts, both measures. No fuel is used.

  \<^bold>\<open>Not modelled.\<close> In \<open>client.ts\<close>: boot, configuration, refresh timers, the adaptive block budget and the typed request methods. Sockets and HTTP
  exchanges (what they deliver is an event or a parameter), paid execution (ABI encoding and signatures of a
  third-party package), cover traffic and logging. In the worker: the host interface and its start-up (\<open>core.ts\<close>, \<open>config.ts\<close>,
  \<open>storage.ts\<close>) and the TLS session itself (\<open>tls/channel.ts\<close>), which feeds a WASM module; what it answers is a parameter of a hop. The
  release scripts.
\<close>

end
